(* ===== verification/Hyp_Prelude.thy ===== *)
theory Hyp_Prelude
  imports Main "HOL-Library.Word"
begin

text \<open>
  Shared vocabulary of the development: the vector and map helpers of \<open>sdl/Util\<close> that the
  hypergraph code calls (\<open>Add.hpp\<close>, \<open>Map.hpp\<close>, \<open>ShrinkVector.hpp\<close>), the 32-bit
  counter arithmetic of \<open>StateId\<close>, the error values thrown by the modelled operations, and
  the list lemmas every component uses. A \<open>std::vector\<close> is a HOL list; a read outside its
  bounds is undefined behaviour in C++, so every definition that indexes a list repeats the
  source's own bounds check, and where the source has none the theorems carry the bound as a
  hypothesis.
\<close>

unbundle bit_operations_syntax

named_theorems vec_simps \<open>characterisations of the vector helpers\<close>
named_theorems bits_simps \<open>constants of the bit masks, evaluated on ground words\<close>

section \<open>Errors\<close>

text \<open>The exception classes the modelled code throws (\<open>SDL_THROW_LOG\<close>).\<close>

datatype sdl_error =
    InvalidSymType
  | ConfigException
  | ProgrammerMistakeException
  | InvalidInputException
  | HypergraphPropertiesException
  | LogicError
  | MoreThanOnceException
  | IndexException
  | UnimplementedException
  | LogNegativeException
  | CycleException
  | EmptySetException
  | FileFormatException
  | BufferOverrunException
  | NonFsmHypergraphException
  | OutOfRange

section \<open>State identifiers\<close>

text \<open>
  \<open>StateId\<close> is \<open>uint32\<close> (\<open>SDL_64BIT_STATE_ID\<close> is 0). It indexes vectors
  everywhere, so it is a \<open>nat\<close> here and the one arithmetic operation that can leave the
  range, incrementing, has its wrap-around written out.
\<close>

type_synonym StateId = nat

definition kNoState :: StateId where
  "kNoState = 4294967295"

definition inc32 :: "nat \<Rightarrow> nat" where
  "inc32 n = (n + 1) mod 4294967296"

lemma inc32_small [simp]: "n < kNoState \<Longrightarrow> inc32 n = Suc n"
  by (simp add: inc32_def kNoState_def)

lemma inc32_kNoState [simp]: "inc32 kNoState = 0"
  by (simp add: inc32_def kNoState_def)

lemma inc32_bound: "inc32 n < 4294967296"
  by (simp add: inc32_def)

text \<open>\<open>maxState(a, b)\<close>: the larger id, where \<open>kNoState\<close> counts as no id.\<close>

definition maxState2 :: "StateId \<Rightarrow> StateId \<Rightarrow> StateId" where
  "maxState2 a b =
     (if a = kNoState then b else if b = kNoState then a else if b < a then a else b)"

lemma maxState2_commute: "maxState2 a b = maxState2 b a"
  by (auto simp: maxState2_def)

lemma maxState2_assoc: "maxState2 (maxState2 a b) c = maxState2 a (maxState2 b c)"
  by (auto simp: maxState2_def)

lemma maxState2_kNoState [simp]: "maxState2 kNoState b = b" "maxState2 a kNoState = a"
  by (auto simp: maxState2_def)

section \<open>Vectors\<close>

definition vec_resize :: "'a list \<Rightarrow> nat \<Rightarrow> 'a \<Rightarrow> 'a list" where
  "vec_resize v n z = take n v @ replicate (n - length v) z"

definition getOrElse :: "'a list \<Rightarrow> nat \<Rightarrow> 'a \<Rightarrow> 'a" where
  "getOrElse v i d = (if i < length v then v ! i else d)"

definition atExpand :: "'a list \<Rightarrow> nat \<Rightarrow> 'a \<Rightarrow> 'a list" where
  "atExpand v i z = (if length v \<le> i then vec_resize v (Suc i) z else v)"

text \<open>\<open>Util::atExpand(v, i).push_back(x)\<close>, the way every adjacency list grows.\<close>

definition atExpand_push :: "'a list list \<Rightarrow> nat \<Rightarrow> 'a \<Rightarrow> 'a list list" where
  "atExpand_push v i x = (let w = atExpand v i [] in w[i := (w ! i) @ [x]])"

definition reinit_vec :: "'a list \<Rightarrow> nat \<Rightarrow> 'a \<Rightarrow> 'a list" where
  "reinit_vec v n z = replicate n z"

definition clearVector :: "'a list \<Rightarrow> 'a list" where
  "clearVector v = []"

lemma length_vec_resize [simp]: "length (vec_resize v n z) = n"
  by (simp add: vec_resize_def)

lemma nth_vec_resize [vec_simps]:
  "i < n \<Longrightarrow> vec_resize v n z ! i = (if i < length v then v ! i else z)"
  by (auto simp: vec_resize_def nth_append)

lemma getOrElse_resize [vec_simps]:
  "getOrElse (vec_resize v n z) i z = (if i < n then getOrElse v i z else z)"
  by (auto simp: getOrElse_def nth_vec_resize)

lemma getOrElse_update [vec_simps]:
  "getOrElse (v[i := x]) j z = (if i = j \<and> i < length v then x else getOrElse v j z)"
  by (auto simp: getOrElse_def)

lemma getOrElse_Nil [simp]: "getOrElse [] i d = d"
  by (simp add: getOrElse_def)

lemma length_atExpand [simp]: "length (atExpand v i z) = max (length v) (Suc i)"
  by (auto simp: atExpand_def)

lemma getOrElse_atExpand [vec_simps]: "getOrElse (atExpand v i z) j z = getOrElse v j z"
  by (auto simp: atExpand_def getOrElse_resize) (auto simp: getOrElse_def)

lemma length_atExpand_push [simp]: "length (atExpand_push v i x) = max (length v) (Suc i)"
  by (simp add: atExpand_push_def Let_def)

lemma getOrElse_atExpand_push [vec_simps]:
  "getOrElse (atExpand_push v i x) j [] = (if i = j then getOrElse v j [] @ [x] else getOrElse v j [])"
proof -
  have "i < length (atExpand v i [])" by simp
  then have "atExpand v i [] ! i = getOrElse (atExpand v i []) i []"
    unfolding getOrElse_def by (rule if_P [symmetric])
  then show ?thesis
    by (auto simp: atExpand_push_def Let_def getOrElse_update getOrElse_atExpand)
qed

text \<open>All the elements of a vector of vectors, in storage order.\<close>

definition all_adj :: "'a list list \<Rightarrow> 'a set" where
  "all_adj v = (\<Union>xs \<in> set v. set xs)"

lemma all_adj_iff: "x \<in> all_adj v \<longleftrightarrow> (\<exists>i. x \<in> set (getOrElse v i []))"
proof
  assume "x \<in> all_adj v"
  then obtain i where "i < length v" "x \<in> set (v ! i)"
    by (auto simp: all_adj_def in_set_conv_nth [of _ v])
  then show "\<exists>i. x \<in> set (getOrElse v i [])" by (auto simp: getOrElse_def)
qed (auto simp: all_adj_def getOrElse_def split: if_splits)

lemma all_adj_concat: "all_adj v = set (concat v)"
  by (auto simp: all_adj_def)

lemma all_adj_push [simp]: "all_adj (atExpand_push v i x) = insert x (all_adj v)"
  by (auto simp: all_adj_iff getOrElse_atExpand_push split: if_splits)

lemma all_adj_Nil [simp]: "all_adj [] = {}"
  by (simp add: all_adj_def)

lemma all_adj_replicate [simp]: "all_adj (replicate n []) = {}"
  by (auto simp: all_adj_def)

lemma set_getOrElse_all_adj: "x \<in> set (getOrElse v i []) \<Longrightarrow> x \<in> all_adj v"
  by (auto simp: all_adj_iff)

section \<open>Maps\<close>

text \<open>
  \<open>Util::update(map, k, ptr)\<close> inserts a default when the key is absent and says whether it
  did; every caller then writes the new value through the pointer. The result is the map, the
  value stored under the key, and the flag.
\<close>

definition map_update :: "('k \<rightharpoonup> 'v) \<Rightarrow> 'k \<Rightarrow> 'v \<Rightarrow> ('k \<rightharpoonup> 'v) \<times> 'v \<times> bool" where
  "map_update m k v = (case m k of None \<Rightarrow> (m(k \<mapsto> v), v, True) | Some w \<Rightarrow> (m, w, False))"

definition map_getOrElse :: "('k \<rightharpoonup> 'v) \<Rightarrow> 'k \<Rightarrow> 'v \<Rightarrow> 'v" where
  "map_getOrElse m k d = (case m k of None \<Rightarrow> d | Some v \<Rightarrow> v)"

lemma map_update_lookup: "map_update m k v = (m', r, new) \<Longrightarrow> m' k = Some r"
  by (auto simp: map_update_def split: option.splits)

lemma map_update_other: "map_update m k v = (m', r, new) \<Longrightarrow> k' \<noteq> k \<Longrightarrow> m' k' = m k'"
  by (auto simp: map_update_def split: option.splits)

text \<open>
  One pass that keeps the first index of every key (\<open>first_step\<close>): the map it leaves sends a
  key to the least index that carries it, and the flag says that no key occurred twice.
\<close>

definition first_step :: "(nat \<Rightarrow> bool) \<Rightarrow> (nat \<Rightarrow> 'k) \<Rightarrow> nat \<Rightarrow> ('k \<rightharpoonup> nat) \<times> bool \<Rightarrow> ('k \<rightharpoonup> nat) \<times> bool" where
  "first_step P k s = (\<lambda>(m, nodup).
     (if P s then (case m (k s) of None \<Rightarrow> (m(k s \<mapsto> s), nodup) | Some _ \<Rightarrow> (m, False)) else (m, nodup)))"

definition first_of :: "(nat \<Rightarrow> bool) \<Rightarrow> (nat \<Rightarrow> 'k) \<Rightarrow> nat \<Rightarrow> 'k \<Rightarrow> nat \<Rightarrow> bool" where
  "first_of P k n x s \<longleftrightarrow> s < n \<and> P s \<and> k s = x \<and> (\<forall>t < s. P t \<longrightarrow> k t \<noteq> x)"

lemma first_of_exists:
  assumes "s < n" "P s" "k s = x" shows "\<exists>t. first_of P k n x t"
proof -
  let ?t = "LEAST t. P t \<and> k t = x"
  have "P ?t \<and> k ?t = x" by (rule LeastI [of _ s]) (use assms in simp)
  moreover have "?t \<le> s" by (rule Least_le) (use assms in simp)
  moreover have "\<forall>t < ?t. P t \<longrightarrow> k t \<noteq> x" using not_less_Least by blast
  ultimately show ?thesis using assms(1) unfolding first_of_def by (meson le_less_trans)
qed

lemma first_of_Suc: "first_of P k (Suc n) x s \<longleftrightarrow>
   first_of P k n x s \<or> (s = n \<and> P n \<and> k n = x \<and> (\<forall>t. \<not> first_of P k n x t))"
proof -
  have "(\<forall>t<n. P t \<longrightarrow> k t \<noteq> x) \<longleftrightarrow> (\<forall>t. \<not> first_of P k n x t)"
    using first_of_exists [of _ n P k x] by (metis first_of_def)
  then show ?thesis by (auto simp: first_of_def less_Suc_eq)
qed

lemma first_pass:
  assumes "fold (first_step P k) [0..<n] (Map.empty, True) = (m, nodup)"
  shows "(\<forall>x s. m x = Some s \<longleftrightarrow> first_of P k n x s) \<and> (nodup \<longleftrightarrow> inj_on k {s. s < n \<and> P s})"
  using assms
proof (induction n arbitrary: m nodup)
  case 0
  then show ?case by (auto simp: first_of_def)
next
  case (Suc n)
  obtain m1 nd1 where f: "fold (first_step P k) [0..<n] (Map.empty, True) = (m1, nd1)" by force
  have A: "m1 x = Some s \<longleftrightarrow> first_of P k n x s" for x s using Suc.IH [OF f] by blast
  have B: "nd1 \<longleftrightarrow> inj_on k {s. s < n \<and> P s}" using Suc.IH [OF f] by blast
  have last: "first_step P k n (m1, nd1) = (m, nodup)" using Suc.prems by (simp add: f)
  show ?case
  proof (cases "P n")
    case False
    then have "{s. s < Suc n \<and> P s} = {s. s < n \<and> P s}" by (auto simp: less_Suc_eq)
    then show ?thesis using last False A B by (simp add: first_step_def first_of_Suc)
  next
    case True
    have S: "{s. s < Suc n \<and> P s} = insert n {s. s < n \<and> P s}" using True by (auto simp: less_Suc_eq)
    have K: "m1 (k n) = None \<longleftrightarrow> k n \<notin> k ` {s. s < n \<and> P s}"
    proof
      assume "m1 (k n) = None"
      then have "\<not> first_of P k n (k n) s" for s using A [of "k n" s] by simp
      then show "k n \<notin> k ` {s. s < n \<and> P s}" using first_of_exists [of _ n P k "k n"] by force
    next
      assume "k n \<notin> k ` {s. s < n \<and> P s}"
      then have "\<not> first_of P k n (k n) s" for s unfolding first_of_def by (auto simp: image_iff)
      then show "m1 (k n) = None" using A [of "k n"] by (metis option.exhaust)
    qed
    have D: "{s. s < n \<and> P s} - {n} = {s. s < n \<and> P s}" by auto
    show ?thesis
    proof (cases "m1 (k n)")
      case None
      then have m: "m = m1(k n \<mapsto> n)" "nodup = nd1" using last True by (simp_all add: first_step_def)
      have "m x = Some s \<longleftrightarrow> first_of P k (Suc n) x s" for x s
        using m True None A [of x s] A [of "k n"] by (auto simp: first_of_Suc)
      moreover have "nodup \<longleftrightarrow> inj_on k {s. s < Suc n \<and> P s}"
        using K None m B unfolding S inj_on_insert D by simp
      ultimately show ?thesis by blast
    next
      case (Some w)
      then have m: "m = m1" "nodup = False" using last True by (simp_all add: first_step_def)
      have "m x = Some s \<longleftrightarrow> first_of P k (Suc n) x s" for x s
        using m Some A [of x s] A [of "k n" w] by (auto simp: first_of_Suc)
      moreover have "nodup \<longleftrightarrow> inj_on k {s. s < Suc n \<and> P s}"
        using K Some m unfolding S inj_on_insert D by simp
      ultimately show ?thesis by blast
    qed
  qed
qed

end
