(* ===== verification/Sym_Ids.thy ===== *)
theory Sym_Ids
  imports Hyp_Prelude
begin

text \<open>
  The 32-bit symbol identifiers of \<open>sdl/Sym.hpp\<close>. A \<open>Sym\<close> packs a type into its top
  three bits (two for terminals, whose index space is twice as large) and an index into the
  rest; the all-ones word is \<open>NoSymbol\<close>. The class's one field \<open>id_\<close> is \<open>symId\<close>. The
  \<open>assert\<close>s of the source are compiled out of release builds, so each operation is its
  release body and the asserted condition is a predicate of its own (\<open>..._asserts\<close>).
\<close>

datatype Sym = Sym (symId: "32 word")

type_synonym SymInt = "32 word"
type_synonym SymbolType = "32 word"

section \<open>The division of the identifier space\<close>

definition kNoSymbol :: SymInt where "kNoSymbol = 0xFFFFFFFF"
definition kMaxSmallSymIndex :: SymInt where "kMaxSmallSymIndex = 0x1FFFFFFF"
definition kMaxLargeSymIndex :: SymInt where "kMaxLargeSymIndex = 0x3FFFFFFE"
definition kSpecialTerminal :: SymbolType where "kSpecialTerminal = 0"
definition kEndSpecialTerminal :: SymbolType where "kEndSpecialTerminal = 0x20000000"
definition kEndSpecial :: SymbolType where "kEndSpecial = 0x40000000"
definition kVariable :: SymbolType where "kVariable = 0x40000000"
definition kEndVariable :: SymbolType where "kEndVariable = 0x60000000"
definition kPersistentNonterminal :: SymbolType where "kPersistentNonterminal = 0x60000000"
definition kNonterminal :: SymbolType where "kNonterminal = 0x80000000"
definition kBeginTerminal :: SymbolType where "kBeginTerminal = 0xA0000000"
definition kPersistentTerminal :: SymbolType where "kPersistentTerminal = 0xA0000000"
definition kTerminal :: SymbolType where "kTerminal = 0xC0000000"
definition kLargeIdsStart :: SymbolType where "kLargeIdsStart = 0xC0000000"
definition kLargeIncrementable :: SymInt where "kLargeIncrementable = 0xCFFFFFFF"
definition kAllSymbols :: SymbolType where "kAllSymbols = 0xFFFFFFFE"
definition kSmallTypeMask :: SymInt where "kSmallTypeMask = 0xE0000000"
definition kSmallSizeMask :: SymInt where "kSmallSizeMask = 0x1FFFFFFF"
definition kLargeTypeMask :: SymInt where "kLargeTypeMask = 0xC0000000"
definition kLargeSizeMask :: SymInt where "kLargeSizeMask = 0x3FFFFFFF"

lemmas sym_consts [bits_simps] =
  kNoSymbol_def kMaxSmallSymIndex_def kMaxLargeSymIndex_def kSpecialTerminal_def
  kEndSpecialTerminal_def kEndSpecial_def kVariable_def kEndVariable_def
  kPersistentNonterminal_def kNonterminal_def kBeginTerminal_def kPersistentTerminal_def
  kTerminal_def kLargeIdsStart_def kLargeIncrementable_def kAllSymbols_def
  kSmallTypeMask_def kSmallSizeMask_def kLargeTypeMask_def kLargeSizeMask_def

definition NoSymbol :: Sym where
  "NoSymbol = Sym kNoSymbol"

section \<open>Predicates on types\<close>

definition assertValidSymbolType :: "SymbolType \<Rightarrow> bool" where
  "assertValidSymbolType t \<longleftrightarrow>
     t = kTerminal \<or> t = kNonterminal \<or> t = kVariable \<or> t = kSpecialTerminal"

definition isSpecialType :: "SymbolType \<Rightarrow> bool" where
  "isSpecialType t \<longleftrightarrow> t = kSpecialTerminal"

definition isTerminalType :: "SymbolType \<Rightarrow> bool" where
  "isTerminalType t \<longleftrightarrow> t = kTerminal"

definition isNonterminalType :: "SymbolType \<Rightarrow> bool" where
  "isNonterminalType t \<longleftrightarrow> t = kNonterminal"

definition isPersistentType :: "SymbolType \<Rightarrow> bool" where
  "isPersistentType t \<longleftrightarrow> t = kPersistentTerminal \<or> t = kPersistentNonterminal"

definition isClearableType :: "SymbolType \<Rightarrow> bool" where
  "isClearableType t \<longleftrightarrow> t = kTerminal \<or> t = kNonterminal"

definition isVariableType :: "SymbolType \<Rightarrow> bool" where
  "isVariableType t \<longleftrightarrow> t = kVariable"

definition maxIndexForType :: "SymbolType \<Rightarrow> SymInt" where
  "maxIndexForType t = (if t = kLargeIdsStart then kLargeSizeMask else kSmallSizeMask)"

definition getTypeName :: "SymbolType \<Rightarrow> sdl_error + string" where
  "getTypeName t =
     (if t = kSpecialTerminal then Inr ''Special Terminal''
      else if t = kVariable then Inr ''Variable''
      else if t = kPersistentNonterminal then Inr ''Persistent Non-terminal''
      else if t = kNonterminal then Inr ''Non-terminal''
      else if t = kPersistentTerminal then Inr ''Persistent Terminal''
      else if t = kTerminal then Inr ''Terminal''
      else if t = kAllSymbols then Inr ''All types''
      else Inl InvalidSymType)"

definition getTypeNameShort :: "SymbolType \<Rightarrow> sdl_error + string" where
  "getTypeNameShort t =
     (if t = kSpecialTerminal then Inr ''Special:''
      else if t = kVariable then Inr ''Variable:''
      else if t = kPersistentNonterminal then Inr ''Persistent-NT:''
      else if t = kNonterminal then Inr ''NT:''
      else if t = kPersistentTerminal then Inr ''Persistent:''
      else if t = kTerminal then Inr '':''
      else if t = kAllSymbols then Inr ''All:''
      else Inl InvalidSymType)"

section \<open>Operations\<close>

definition symType :: "Sym \<Rightarrow> SymbolType" where
  "symType s =
     (if kLargeIdsStart \<le> symId s
      then (if NOT (symId s) \<noteq> 0 then kLargeIdsStart else symId s)
      else symId s AND kSmallTypeMask)"

definition maxIndex :: "Sym \<Rightarrow> SymInt" where
  "maxIndex s = (if kLargeIdsStart \<le> symId s then kLargeSizeMask else kSmallSizeMask)"

definition symIndex :: "Sym \<Rightarrow> SymInt" where
  "symIndex s = symId s AND maxIndex s"

definition createSym :: "SymInt \<Rightarrow> SymbolType \<Rightarrow> Sym" where
  "createSym index t = Sym (index OR t)"

text \<open>
  The two assertions of \<open>set\<close>; in the second, \<open>&&\<close> binds tighter than \<open>||\<close>.
\<close>

definition set_asserts :: "SymInt \<Rightarrow> SymbolType \<Rightarrow> bool" where
  "set_asserts index t \<longleftrightarrow>
     \<not> isPersistentType t \<and>
     (index \<le> kSmallSizeMask \<or> (index \<le> kLargeSizeMask \<and> t = kLargeSizeMask))"

definition isPersistent :: "Sym \<Rightarrow> bool" where
  "isPersistent s \<longleftrightarrow> isPersistentType (symType s)"

definition isTerminal :: "Sym \<Rightarrow> bool" where
  "isTerminal s \<longleftrightarrow>
     (kBeginTerminal \<le> symId s \<and> symId s < kNoSymbol) \<or>
     (kSpecialTerminal \<le> symId s \<and> symId s < kEndSpecialTerminal)"

definition isSpecialTerminal :: "Sym \<Rightarrow> bool" where
  "isSpecialTerminal s \<longleftrightarrow> kSpecialTerminal \<le> symId s \<and> symId s < kEndSpecialTerminal"

definition isLexical :: "Sym \<Rightarrow> bool" where
  "isLexical s \<longleftrightarrow> kTerminal < symId s + 1"

definition isNonterminal :: "Sym \<Rightarrow> bool" where
  "isNonterminal s \<longleftrightarrow> symId s AND kSmallTypeMask = kNonterminal"

definition isVariable :: "Sym \<Rightarrow> bool" where
  "isVariable s \<longleftrightarrow> kVariable \<le> symId s \<and> symId s < kEndVariable"

definition isSpecial :: "Sym \<Rightarrow> bool" where
  "isSpecial s \<longleftrightarrow> kSpecialTerminal \<le> symId s \<and> symId s < kEndSpecial"

definition isValid :: "Sym \<Rightarrow> bool" where
  "isValid s \<longleftrightarrow> symId s \<noteq> kNoSymbol"

definition removePersistentBit :: "Sym \<Rightarrow> Sym" where
  "removePersistentBit s = (if isPersistent s then Sym (symId s + 0x20000000) else s)"

definition setTerminal :: "Sym \<Rightarrow> Sym" where
  "setTerminal s = Sym ((symId s AND kMaxSmallSymIndex) OR kTerminal)"

definition sym_reset :: "Sym \<Rightarrow> Sym" where
  "sym_reset s = Sym kNoSymbol"

definition incrementable :: "Sym \<Rightarrow> bool" where
  "incrementable s \<longleftrightarrow>
     (symId s + 1) AND kSmallSizeMask \<noteq> 0 \<or> symId s = kLargeIncrementable"

definition sym_incr :: "Sym \<Rightarrow> Sym" where
  "sym_incr s = Sym (symId s + 1)"

definition sym_postincr :: "Sym \<Rightarrow> Sym \<times> Sym" where
  "sym_postincr s = (s, Sym (symId s + 1))"

definition isLexicalGivenIsTerminal :: "Sym \<Rightarrow> bool" where
  "isLexicalGivenIsTerminal s \<longleftrightarrow> 0x80000000 AND symId s \<noteq> 0"

definition sym_add :: "Sym \<Rightarrow> SymInt \<Rightarrow> Sym" where
  "sym_add s delta = Sym (symId s + delta)"

definition sym_add_asserts :: "Sym \<Rightarrow> SymInt \<Rightarrow> bool" where
  "sym_add_asserts s delta \<longleftrightarrow> symIndex s + delta \<le> maxIndex s"

definition sym_sub :: "Sym \<Rightarrow> SymInt \<Rightarrow> Sym" where
  "sym_sub s delta = Sym (symId s - delta)"

definition sym_sub_asserts :: "Sym \<Rightarrow> SymInt \<Rightarrow> bool" where
  "sym_sub_asserts s delta \<longleftrightarrow> delta < symIndex s"

definition terminal :: "SymInt \<Rightarrow> Sym" where
  "terminal index = Sym (kTerminal OR index)"

definition variable :: "SymInt \<Rightarrow> Sym" where
  "variable x = Sym (x OR kVariable)"

definition specialTerminal :: "SymInt \<Rightarrow> Sym" where
  "specialTerminal index = Sym index"

lemmas sym_op_defs =
  assertValidSymbolType_def isSpecialType_def isTerminalType_def isNonterminalType_def
  isPersistentType_def isClearableType_def isVariableType_def maxIndexForType_def
  symType_def maxIndex_def symIndex_def createSym_def isPersistent_def isTerminal_def
  isSpecialTerminal_def isLexical_def isNonterminal_def isVariable_def isSpecial_def
  isValid_def removePersistentBit_def setTerminal_def sym_reset_def incrementable_def
  sym_incr_def sym_add_def sym_sub_def terminal_def variable_def specialTerminal_def
  NoSymbol_def

text \<open>The comparison operators compare the identifiers.\<close>

instantiation Sym :: linorder
begin

definition less_eq_Sym :: "Sym \<Rightarrow> Sym \<Rightarrow> bool" where
  "less_eq_Sym a b \<longleftrightarrow> symId a \<le> symId b"

definition less_Sym :: "Sym \<Rightarrow> Sym \<Rightarrow> bool" where
  "less_Sym a b \<longleftrightarrow> symId a < symId b"

instance
  by standard (auto simp: less_eq_Sym_def less_Sym_def intro: Sym.expand)

end

section \<open>Masks as arithmetic\<close>

text \<open>
  The two masks split a word into index and type; on \<open>nat\<close> that is remainder and quotient.
\<close>

lemma kSmallSizeMask_mask: "kSmallSizeMask = mask 29"
  by (simp add: kSmallSizeMask_def mask_eq_exp_minus_1)

lemma kLargeSizeMask_mask: "kLargeSizeMask = mask 30"
  by (simp add: kLargeSizeMask_def mask_eq_exp_minus_1)

lemma kSmallTypeMask_mask: "kSmallTypeMask = NOT (mask 29)"
  by (simp add: kSmallTypeMask_def mask_eq_exp_minus_1)

lemma unat_and_small: "unat (x AND kSmallSizeMask) = unat x mod 2 ^ 29"
  unfolding kSmallSizeMask_mask by (metis take_bit_eq_mask take_bit_eq_mod unsigned_take_bit_eq)

lemma unat_and_large: "unat (x AND kLargeSizeMask) = unat x mod 2 ^ 30"
  unfolding kLargeSizeMask_mask by (metis take_bit_eq_mask take_bit_eq_mod unsigned_take_bit_eq)

lemma and_split_mask: "(x AND m) + (x AND NOT m) = (x :: 32 word)"
proof -
  have "(x AND m) AND (x AND NOT m) = 0" by (rule bit_eqI) (auto simp: bit_simps)
  then have "(x AND m) + (x AND NOT m) = (x AND m) OR (x AND NOT m)"
    by (rule disjunctive_add_eq_or)
  also have "\<dots> = x" by (rule bit_eqI) (auto simp: bit_simps)
  finally show ?thesis .
qed

lemma unat_and_type: "unat (x AND kSmallTypeMask) = unat x div 2 ^ 29 * 2 ^ 29"
proof -
  have "x AND kSmallTypeMask = x - (x AND kSmallSizeMask)"
    unfolding kSmallTypeMask_mask kSmallSizeMask_mask
    using and_split_mask [of x "mask 29"] by (metis add_diff_cancel_left')
  moreover have "x AND kSmallSizeMask \<le> x" by (rule word_and_le2)
  ultimately have "unat (x AND kSmallTypeMask) = unat x - unat x mod 2 ^ 29"
    by (simp add: unat_sub unat_and_small)
  then show ?thesis by (simp add: minus_mod_eq_div_mult)
qed

lemma unat_or_disjoint:
  assumes "i AND t = (0 :: 32 word)" and "unat i + unat t < 2 ^ 32"
  shows "unat (i OR t) = unat i + unat t"
proof -
  have "i OR t = i + t" using assms(1) by (simp add: disjunctive_add_eq_or)
  then show ?thesis using assms(2) by (simp add: unat_word_ariths)
qed

lemma and_small_self: "i \<le> kSmallSizeMask \<Longrightarrow> i AND kSmallSizeMask = i"
  unfolding word_unat_eq_iff unat_and_small by (simp add: kSmallSizeMask_def word_le_nat_alt)

lemma and_large_self: "i \<le> kLargeSizeMask \<Longrightarrow> i AND kLargeSizeMask = i"
  unfolding word_unat_eq_iff unat_and_large by (simp add: kLargeSizeMask_def word_le_nat_alt)

lemma small_disjoint:
  assumes "i \<le> kSmallSizeMask" and "kSmallSizeMask AND t = 0"
  shows "i AND t = 0"
proof -
  have "i AND t = i AND (kSmallSizeMask AND t)"
    using and_small_self [OF assms(1)] by (simp only: and.assoc [symmetric])
  then show ?thesis using assms(2) by simp
qed

lemma large_disjoint:
  assumes "i \<le> kLargeSizeMask" and "kLargeSizeMask AND t = 0"
  shows "i AND t = 0"
proof -
  have "i AND t = i AND (kLargeSizeMask AND t)"
    using and_large_self [OF assms(1)] by (simp only: and.assoc [symmetric])
  then show ?thesis using assms(2) by simp
qed

text \<open>Each predicate as an interval of identifiers.\<close>

lemma isSpecialTerminal_iff: "isSpecialTerminal s \<longleftrightarrow> unat (symId s) < 2 ^ 29"
  by (simp add: isSpecialTerminal_def sym_consts word_less_nat_alt)

lemma isVariable_iff: "isVariable s \<longleftrightarrow> 2 * 2 ^ 29 \<le> unat (symId s) \<and> unat (symId s) < 3 * 2 ^ 29"
  by (simp add: isVariable_def sym_consts word_less_nat_alt word_le_nat_alt)

lemma isTerminal_iff:
  "isTerminal s \<longleftrightarrow>
     unat (symId s) < 2 ^ 29 \<or> (5 * 2 ^ 29 \<le> unat (symId s) \<and> unat (symId s) < 2 ^ 32 - 1)"
  by (auto simp: isTerminal_def sym_consts word_less_nat_alt word_le_nat_alt)

lemma unat_lt_2p32: "unat (x :: 32 word) < 4294967296"
  using unsigned_less [of x, where 'a = nat] by simp

lemma isLexical_iff: "isLexical s \<longleftrightarrow> 6 * 2 ^ 29 \<le> unat (symId s) \<and> unat (symId s) < 2 ^ 32 - 1"
proof -
  have "unat (symId s + 1) = (unat (symId s) + 1) mod 4294967296"
    by (simp add: unat_word_ariths)
  with unat_lt_2p32 [of "symId s"] show ?thesis
    by (auto simp: isLexical_def sym_consts word_less_nat_alt mod_Suc)
qed

lemma isNonterminal_iff:
  "isNonterminal s \<longleftrightarrow> 4 * 2 ^ 29 \<le> unat (symId s) \<and> unat (symId s) < 5 * 2 ^ 29"
proof -
  have "isNonterminal s \<longleftrightarrow> unat (symId s AND kSmallTypeMask) = unat kNonterminal"
    by (simp add: isNonterminal_def word_unat_eq_iff)
  then show ?thesis unfolding unat_and_type by (simp add: kNonterminal_def) linarith
qed

lemma isValid_iff: "isValid s \<longleftrightarrow> unat (symId s) \<noteq> 2 ^ 32 - 1"
  by (simp add: isValid_def sym_consts word_unat_eq_iff)

lemma symType_nat:
  "unat (symType s) =
     (let i = unat (symId s) in
      if i = 2 ^ 32 - 1 then i else if 6 * 2 ^ 29 \<le> i then 6 * 2 ^ 29 else i div 2 ^ 29 * 2 ^ 29)"
proof -
  have "NOT (symId s) = 0 \<longleftrightarrow> symId s = NOT 0"
    by (metis bit.double_compl)
  moreover have "NOT 0 = (4294967295 :: 32 word)" by simp
  ultimately have n: "NOT (symId s) = 0 \<longleftrightarrow> unat (symId s) = 4294967295"
    by (simp add: word_unat_eq_iff del: bit.compl_zero)
  have l: "kLargeIdsStart \<le> symId s \<longleftrightarrow> 3221225472 \<le> unat (symId s)"
    by (simp add: kLargeIdsStart_def word_le_nat_alt)
  have k: "unat kLargeIdsStart = 3221225472" by (simp add: kLargeIdsStart_def)
  show ?thesis
    unfolding symType_def Let_def using n l k unat_and_type [of "symId s"] by auto
qed

lemma symIndex_nat:
  "unat (symIndex s) =
     (if 6 * 2 ^ 29 \<le> unat (symId s) then unat (symId s) mod 2 ^ 30 else unat (symId s) mod 2 ^ 29)"
  by (simp add: symIndex_def maxIndex_def unat_and_small unat_and_large kLargeIdsStart_def
      word_le_nat_alt)

lemma isPersistent_iff:
  "isPersistent s \<longleftrightarrow>
     (3 * 2 ^ 29 \<le> unat (symId s) \<and> unat (symId s) < 4 * 2 ^ 29) \<or>
     (5 * 2 ^ 29 \<le> unat (symId s) \<and> unat (symId s) < 6 * 2 ^ 29)"
proof -
  have "isPersistent s \<longleftrightarrow> unat (symType s) = 5 * 2 ^ 29 \<or> unat (symType s) = 3 * 2 ^ 29"
    by (simp add: isPersistent_def isPersistentType_def word_unat_eq_iff kPersistentTerminal_def
        kPersistentNonterminal_def)
  then show ?thesis unfolding symType_nat Let_def by (simp split: if_splits) linarith
qed

lemmas sym_iffs =
  isSpecialTerminal_iff isVariable_iff isTerminal_iff isLexical_iff isNonterminal_iff
  isValid_iff isPersistent_iff

lemma NoSymbol_not [simp]:
  "\<not> isTerminal NoSymbol" "\<not> isLexical NoSymbol" "\<not> isSpecialTerminal NoSymbol"
  "\<not> isVariable NoSymbol" "\<not> isValid NoSymbol"
  by (simp_all add: sym_iffs NoSymbol_def kNoSymbol_def)

lemma lexical_terminal: "isLexical s \<Longrightarrow> isTerminal s"
  by (simp add: sym_iffs)

section \<open>Properties\<close>

lemma typed_index_cases:
  assumes "assertValidSymbolType t" and "i \<le> maxIndexForType t"
  obtains (large) "t = kTerminal" "i \<le> kLargeSizeMask" "unat t = 6 * 2 ^ 29" "unat i < 2 ^ 30"
  | (small) k where "k \<in> {0, 2, 4}" "unat t = k * 2 ^ 29" "i \<le> kSmallSizeMask" "unat i < 2 ^ 29"
      "kSmallSizeMask AND t = 0"
proof (cases "t = kTerminal")
  case True
  then have "i \<le> kLargeSizeMask"
    using assms(2) by (simp add: maxIndexForType_def kTerminal_def kLargeIdsStart_def)
  then show thesis
    using True by (intro large) (simp_all add: sym_consts word_le_nat_alt)
next
  case False
  then have i: "i \<le> kSmallSizeMask"
    using assms(2) by (simp add: maxIndexForType_def kTerminal_def kLargeIdsStart_def)
  then have n: "unat i < 2 ^ 29" by (simp add: kSmallSizeMask_def word_le_nat_alt)
  from assms(1) False consider "t = kNonterminal" | "t = kVariable" | "t = kSpecialTerminal"
    by (auto simp: assertValidSymbolType_def)
  then show thesis
    by cases (use i n small [of 4] small [of 2] small [of 0] in \<open>simp_all add: sym_consts\<close>)
qed

lemma createSym_nat:
  assumes "assertValidSymbolType t" and "i \<le> maxIndexForType t"
  shows "unat (symId (createSym i t)) = unat i + unat t"
  unfolding createSym_def Sym.sel using assms
proof (cases rule: typed_index_cases)
  case large
  have "kLargeSizeMask AND t = 0" unfolding large(1) by (simp add: sym_consts)
  with large(2) have "i AND t = 0" by (rule large_disjoint)
  moreover have "unat i + unat t < 2 ^ 32" using large(3,4) by simp
  ultimately show "unat (i OR t) = unat i + unat t" by (rule unat_or_disjoint)
next
  case (small k)
  from small(3,5) have "i AND t = 0" by (rule small_disjoint)
  moreover from small(1) have "k \<le> 4" by auto
  then have "unat i + unat t < 2 ^ 32" using small(2,4) by simp
  ultimately show "unat (i OR t) = unat i + unat t" by (rule unat_or_disjoint)
qed

text \<open>
  Round trip. For every symbol type the toolkit still uses and every index of that
  type's space, packing with \<open>createSym\<close> and unpacking with \<open>index()\<close> and
  \<open>type()\<close> gives the index and the type back, unless the result is the reserved
  \<open>NoSymbol\<close>.
\<close>

theorem createSym_roundtrip:
  assumes "assertValidSymbolType t" and "index \<le> maxIndexForType t"
    and "createSym index t \<noteq> NoSymbol"
  shows "symIndex (createSym index t) = index \<and> symType (createSym index t) = t"
proof -
  have n: "unat (symId (createSym index t)) = unat index + unat t"
    by (rule createSym_nat [OF assms(1,2)])
  have v: "unat (symId (createSym index t)) \<noteq> 4294967295"
    using assms(3)
    by (cases "createSym index t") (auto simp: NoSymbol_def kNoSymbol_def word_unat_eq_iff)
  show ?thesis
    using assms(1,2)
  proof (cases rule: typed_index_cases)
    case large
    have "(unat index + 3 * 2 ^ 30) mod 2 ^ 30 = unat index"
      using large(4) mod_mult_self1 [of "unat index" 3 "2 ^ 30"] by (simp only: mod_less)
    then show ?thesis using v large
      unfolding word_unat_eq_iff symIndex_nat symType_nat Let_def n by simp
  next
    case (small k)
    from small(1) have k: "k \<le> 4" by auto
    have "(unat index + k * 2 ^ 29) mod 2 ^ 29 = unat index"
      and "(unat index + k * 2 ^ 29) div 2 ^ 29 = k" using small(4) by simp_all
    then show ?thesis using v small k
      unfolding word_unat_eq_iff symIndex_nat symType_nat Let_def n by simp
  qed
qed

theorem createSym_roundtrip_witness:
  "symIndex (createSym 10234 kVariable) = 10234 \<and> symType (createSym 10234 kVariable) = kVariable"
  by (rule createSym_roundtrip)
    (simp_all add: sym_op_defs sym_consts)

lemma sym_classes:
  "(isSpecialTerminal s \<longleftrightarrow> symType s = kSpecialTerminal) \<and>
   (isVariable s \<longleftrightarrow> symType s = kVariable) \<and>
   (isNonterminal s \<longleftrightarrow> symType s = kNonterminal) \<and>
   (isLexical s \<longleftrightarrow> symType s = kTerminal) \<and>
   (isTerminal s \<and> \<not> isPersistent s \<longleftrightarrow> isSpecialTerminal s \<or> isLexical s)"
proof -
  let ?i = "unat (symId s)"
  have b: "?i < 4294967296" by (rule unat_lt_2p32)
  have d: "?i div 536870912 = 0 \<longleftrightarrow> ?i < 536870912" by linarith
  have e: "?i div 536870912 * 536870912 \<noteq> 3221225472" if "?i < 3221225472" using that by linarith
  show ?thesis
    unfolding word_unat_eq_iff symType_nat Let_def sym_iffs using b d e
    by (auto simp: sym_consts)
qed

text \<open>
  Property C40 (classification). The range checks of \<open>isSpecialTerminal\<close>, \<open>isVariable\<close>,
  \<open>isNonterminal\<close> and the branch-free \<open>isLexical\<close> agree with the unpacked type on
  every 32-bit identifier, \<open>NoSymbol\<close> included, and outside the unused persistent range a
  symbol is a terminal exactly when it is special or lexical. The comments in the source say more than the code: that \<open>isLexical\<close> is true of
  persistent terminals too and \<open>isVariable\<close> of all nonterminal identifiers; each is true of its one type only.
\<close>

theorem sym_classification:
  "(isSpecialTerminal s \<longleftrightarrow> symType s = kSpecialTerminal) \<and>
   (isVariable s \<longleftrightarrow> symType s = kVariable) \<and>
   (isNonterminal s \<longleftrightarrow> symType s = kNonterminal) \<and>
   (isLexical s \<longleftrightarrow> symType s = kTerminal) \<and>
   (isTerminal s \<and> \<not> isPersistent s \<longleftrightarrow> isSpecialTerminal s \<or> isLexical s)"
  by (rule sym_classes)

text \<open>
  Increment. Whenever \<open>incrementable()\<close> answers true and the increment does not
  produce \<open>NoSymbol\<close>, \<open>operator++\<close> keeps the type and moves to the next index.
\<close>

theorem sym_incr_next:
  assumes "incrementable s" and "isValid (sym_incr s)"
  shows "symType (sym_incr s) = symType s \<and> symIndex (sym_incr s) = symIndex s + 1"
proof -
  let ?i = "unat (symId s)"
  have b: "?i < 4294967296" by (rule unat_lt_2p32)
  have nz: "unat ((symId s + 1) AND kSmallSizeMask) \<noteq> 0 \<or> symId s = kLargeIncrementable"
    using assms(1) by (simp add: incrementable_def unat_eq_zero)
  have u1: "unat (symId s + 1) = (?i + 1) mod 4294967296" by (simp add: unat_word_ariths)
  have c: "(?i + 1) mod 4294967296 mod 2 ^ 29 = (?i + 1) mod 2 ^ 29" by (simp add: mod_mod_cancel)
  have m: "(?i + 1) mod 2 ^ 29 \<noteq> 0"
    using nz unfolding unat_and_small u1 c by (auto simp: kLargeIncrementable_def)
  then have ne: "?i \<noteq> 4294967295" by auto
  have u: "unat (symId (sym_incr s)) = ?i + 1" using ne b u1 by (simp add: sym_incr_def)
  have u2: "?i + 1 \<noteq> 4294967295" using assms(2) u by (simp add: isValid_iff)
  have k: "unat (symIndex s + 1) = unat (symIndex s) + 1"
    using b by (simp add: unat_word_ariths symIndex_nat)
  have d29: "(?i + 1) div 2 ^ 29 = ?i div 2 ^ 29" "(?i + 1) mod 2 ^ 29 = ?i mod 2 ^ 29 + 1"
    using m by (simp_all add: div_Suc mod_Suc split: if_splits)
  have m30: "(?i + 1) mod 2 ^ 30 = ?i mod 2 ^ 30 + 1"
  proof -
    have "(?i + 1) mod 2 ^ 30 mod 2 ^ 29 \<noteq> 0" using m by (simp add: mod_mod_cancel)
    then show ?thesis by (auto simp: mod_Suc split: if_splits)
  qed
  have lim: "6 * 2 ^ 29 \<le> ?i + 1 \<longleftrightarrow> 6 * 2 ^ 29 \<le> ?i"
    using m by (cases "?i + 1 = 6 * 2 ^ 29") auto
  show ?thesis
    unfolding word_unat_eq_iff k symType_nat symIndex_nat u Let_def d29 m30 lim
    using ne u2 by simp
qed

theorem sym_incr_next_witness:
  "symType (sym_incr (Sym 0x40000004)) = symType (Sym 0x40000004) \<and>
   symIndex (sym_incr (Sym 0x40000004)) = symIndex (Sym 0x40000004) + 1"
  by (rule sym_incr_next) (simp_all add: sym_op_defs sym_consts)

text \<open>
  Theorem (limits of the large space). The terminal with index \<open>0x1FFFFFFF\<close>, the middle
  of the large index space, is reported as not incrementable although its successor is a terminal
  (the constant \<open>kLargeIncrementable\<close> is \<open>0xCFFFFFFF\<close> instead of
  \<open>0xDFFFFFFF\<close>); the last terminal is reported as incrementable and its successor is
  \<open>NoSymbol\<close>; and the assertion of \<open>set\<close> rejects every terminal index above the
  small range.
\<close>

theorem large_space_limits:
  "\<not> incrementable (terminal 0x1FFFFFFF) \<and> isLexical (sym_incr (terminal 0x1FFFFFFF)) \<and>
   incrementable (terminal kMaxLargeSymIndex) \<and>
   sym_incr (terminal kMaxLargeSymIndex) = NoSymbol \<and>
   (set_asserts index kTerminal \<longleftrightarrow> index \<le> kSmallSizeMask)"
  by (auto simp: sym_op_defs sym_consts set_asserts_def)

end
