(* ===== verification/Special_Symbols.thy ===== *)
theory Special_Symbols
  imports Sym_Ids
begin

text \<open>
  The special terminals of \<open>sdl/Vocabulary/SpecialSymbols.hpp\<close>. Their identifiers are the
  positions of the symbols in \<open>SpecialSymbolsList.ipp\<close>, so \<open>EPSILON::ID\<close> is 0 and
  the first four are the composition specials. The last two names stand for ranges of
  \<open>SDL_NUM_BLOCKS\<close> symbols each: block starts, then constraint substitutes.
\<close>

definition EPSILON_ID :: Sym where "EPSILON_ID = specialTerminal 0"
definition SIGMA_ID :: Sym where "SIGMA_ID = specialTerminal 1"
definition PHI_ID :: Sym where "PHI_ID = specialTerminal 2"
definition RHO_ID :: Sym where "RHO_ID = specialTerminal 3"
definition UNK_ID :: Sym where "UNK_ID = specialTerminal 4"
definition JUMP_WALL_ID :: Sym where "JUMP_WALL_ID = specialTerminal 16"
definition BLOCK_END_ID :: Sym where "BLOCK_END_ID = specialTerminal 17"
definition BLOCK_START_ID :: Sym where "BLOCK_START_ID = specialTerminal 18"

definition SDL_NUM_BLOCKS :: "32 word" where
  "SDL_NUM_BLOCKS = 10000"

lemmas special_ids [bits_simps] =
  EPSILON_ID_def SIGMA_ID_def PHI_ID_def RHO_ID_def UNK_ID_def JUMP_WALL_ID_def BLOCK_END_ID_def BLOCK_START_ID_def
  SDL_NUM_BLOCKS_def specialTerminal_def

section \<open>Composition specials\<close>

definition isFstComposeSpecial :: "Sym \<Rightarrow> bool" where
  "isFstComposeSpecial s \<longleftrightarrow> s \<le> RHO_ID"

text \<open>\<open>WhichFstComposeSpecials\<close> is a \<open>char\<close> used as a bit set; \<open>check\<close> sets the
  bit of a composition special and ignores every other symbol.\<close>

type_synonym compose_specials = "8 word"

definition specials_empty :: compose_specials where
  "specials_empty = 0"

definition specials_undefined :: compose_specials where
  "specials_undefined = 16"

definition specials_defined :: "compose_specials \<Rightarrow> bool" where
  "specials_defined ids \<longleftrightarrow> ids <s 16"

definition specials_test :: "compose_specials \<Rightarrow> Sym \<Rightarrow> bool" where
  "specials_test ids s \<longleftrightarrow> bit ids (unat (symId s))"

definition specials_set :: "compose_specials \<Rightarrow> Sym \<Rightarrow> compose_specials" where
  "specials_set ids s = ids OR push_bit (unat (symId s)) 1"

definition specials_check :: "compose_specials \<Rightarrow> Sym \<Rightarrow> compose_specials" where
  "specials_check ids s = (if isFstComposeSpecial s then specials_set ids s else ids)"

section \<open>Annotations and blocks\<close>

definition specialTerminalIsAnnotation :: "Sym \<Rightarrow> bool" where
  "specialTerminalIsAnnotation s \<longleftrightarrow> JUMP_WALL_ID \<le> s"

definition isAnnotation :: "Sym \<Rightarrow> bool" where
  "isAnnotation s \<longleftrightarrow> symType s = kSpecialTerminal \<and> specialTerminalIsAnnotation s"

definition isConsuming :: "Sym \<Rightarrow> bool" where
  "isConsuming s \<longleftrightarrow> isTerminal s \<and> \<not> (s = EPSILON_ID \<or> s = PHI_ID)"

definition isBlockStartSymbol :: "Sym \<Rightarrow> bool" where
  "isBlockStartSymbol s \<longleftrightarrow> BLOCK_START_ID \<le> s \<and> s < sym_add BLOCK_START_ID SDL_NUM_BLOCKS"

definition kSpecialEnd :: Sym where
  "kSpecialEnd = sym_add BLOCK_START_ID (2 * SDL_NUM_BLOCKS)"

definition isConstraintSubstituteSym :: "Sym \<Rightarrow> bool" where
  "isConstraintSubstituteSym s \<longleftrightarrow>
     sym_add BLOCK_START_ID SDL_NUM_BLOCKS \<le> s \<and> s < sym_add BLOCK_START_ID (2 * SDL_NUM_BLOCKS)"

definition blockIdForSubstituteSym :: "Sym \<Rightarrow> 32 word" where
  "blockIdForSubstituteSym s = symId s - (symId BLOCK_START_ID + (SDL_NUM_BLOCKS - 1))"

definition indexForSubstituteSym :: "Sym \<Rightarrow> 32 word" where
  "indexForSubstituteSym s = symId s - (symId BLOCK_START_ID + SDL_NUM_BLOCKS)"

definition substituteSymForIndex :: "32 word \<Rightarrow> Sym" where
  "substituteSymForIndex i = sym_add (sym_add BLOCK_START_ID SDL_NUM_BLOCKS) i"

definition substituteSymForBlockId :: "32 word \<Rightarrow> Sym" where
  "substituteSymForBlockId i = sym_add (sym_sub (sym_add BLOCK_START_ID SDL_NUM_BLOCKS) 1) i"

definition isBlockSymbol :: "Sym \<Rightarrow> bool" where
  "isBlockSymbol s \<longleftrightarrow> BLOCK_END_ID \<le> s \<and> s < sym_add BLOCK_START_ID SDL_NUM_BLOCKS"

definition isBlockSymbolOrJumpWall :: "Sym \<Rightarrow> bool" where
  "isBlockSymbolOrJumpWall s \<longleftrightarrow> JUMP_WALL_ID \<le> s \<and> s < sym_add BLOCK_START_ID SDL_NUM_BLOCKS"

definition isJumpWallOrBlockOrSubstituteSymbol :: "Sym \<Rightarrow> bool" where
  "isJumpWallOrBlockOrSubstituteSymbol s \<longleftrightarrow>
     JUMP_WALL_ID \<le> s \<and> s < sym_add BLOCK_START_ID (2 * SDL_NUM_BLOCKS)"

definition isBlockOrSubstituteSymbol :: "Sym \<Rightarrow> bool" where
  "isBlockOrSubstituteSymbol s \<longleftrightarrow>
     BLOCK_END_ID \<le> s \<and> s < sym_add BLOCK_START_ID (2 * SDL_NUM_BLOCKS)"

definition isBlockOpenOrSubstituteSymbol :: "Sym \<Rightarrow> bool" where
  "isBlockOpenOrSubstituteSymbol s \<longleftrightarrow>
     BLOCK_START_ID \<le> s \<and> s < sym_add BLOCK_START_ID (2 * SDL_NUM_BLOCKS)"

definition isBlockClose :: "Sym \<Rightarrow> bool" where
  "isBlockClose s \<longleftrightarrow> s = BLOCK_END_ID"

definition blockIdForStart :: "Sym \<Rightarrow> 32 word" where
  "blockIdForStart s = symId s - (symId BLOCK_START_ID - 1)"

definition blockIndexForStart :: "Sym \<Rightarrow> 32 word" where
  "blockIndexForStart s = symId s - symId BLOCK_START_ID"

definition getBlockId :: "Sym \<Rightarrow> 32 word" where
  "getBlockId s = (if isBlockStartSymbol s then blockIdForStart s else 0)"

definition getBlockOp :: "Sym \<Rightarrow> 32 word" where
  "getBlockOp s = symId s - symId BLOCK_END_ID"

definition isBlockOp :: "32 word \<Rightarrow> bool" where
  "isBlockOp op \<longleftrightarrow> op \<le> SDL_NUM_BLOCKS"

definition checkBlockId :: "32 word \<Rightarrow> sdl_error + unit" where
  "checkBlockId i = (if \<not> (i \<le> SDL_NUM_BLOCKS \<and> 0 < i) then Inl ConfigException else Inr ())"

definition getBlockOpen :: "32 word \<Rightarrow> Sym" where
  "getBlockOpen i = sym_add (sym_sub BLOCK_START_ID 1) i"

definition blockOpenForIndex :: "32 word \<Rightarrow> sdl_error + Sym" where
  "blockOpenForIndex i =
     (if SDL_NUM_BLOCKS \<le> i then Inl ConfigException else Inr (sym_add BLOCK_START_ID i))"

definition getBlockOpenChecked :: "32 word \<Rightarrow> sdl_error + Sym" where
  "getBlockOpenChecked i =
     (case checkBlockId i of Inl e \<Rightarrow> Inl e | Inr _ \<Rightarrow> Inr (sym_add (sym_sub BLOCK_START_ID 1) i))"

section \<open>Properties\<close>

lemmas block_defs =
  isBlockStartSymbol_def isConstraintSubstituteSym_def isBlockSymbol_def
  isBlockSymbolOrJumpWall_def isJumpWallOrBlockOrSubstituteSymbol_def
  isBlockOrSubstituteSymbol_def isBlockOpenOrSubstituteSymbol_def isBlockClose_def
  sym_add_def sym_sub_def

lemma EPSILON_terminal [simp]: "isTerminal EPSILON_ID" "isSpecialTerminal EPSILON_ID" "\<not> isLexical EPSILON_ID"
  by (simp_all add: sym_iffs special_ids)

lemma EPSILON_valid [simp]: "EPSILON_ID \<noteq> NoSymbol" "NoSymbol \<noteq> EPSILON_ID"
  by (simp_all add: special_ids NoSymbol_def kNoSymbol_def)

lemma isFstComposeSpecial_iff: "isFstComposeSpecial s \<longleftrightarrow> s \<in> {EPSILON_ID, SIGMA_ID, PHI_ID, RHO_ID}"
proof -
  have "isFstComposeSpecial s \<longleftrightarrow> unat (symId s) \<le> 3"
    by (simp add: isFstComposeSpecial_def less_eq_Sym_def special_ids word_le_nat_alt)
  also have "\<dots> \<longleftrightarrow> unat (symId s) \<in> {0, 1, 2, 3}" by auto
  also have "\<dots> \<longleftrightarrow> symId s \<in> {0, 1, 2, 3}" by (auto simp: word_unat_eq_iff)
  finally show ?thesis by (cases s) (simp add: special_ids)
qed

lemma specials_check_test:
  assumes "isFstComposeSpecial t"
  shows "specials_test (specials_check ids s) t \<longleftrightarrow> specials_test ids t \<or> s = t"
proof -
  have "unat (symId t) \<le> 3"
    using assms by (simp add: isFstComposeSpecial_def less_eq_Sym_def special_ids word_le_nat_alt)
  moreover have "s \<noteq> t \<Longrightarrow> unat (symId s) \<noteq> unat (symId t)"
    by (metis Sym.expand word_unat_eq_iff)
  ultimately show ?thesis using assms
    by (auto simp: specials_test_def specials_check_def specials_set_def bit_simps)
qed

text \<open>
  Composition specials. Folding \<open>check\<close> over the input labels of a machine,
  as \<open>whichInputFstComposeSpecials\<close> does, leaves exactly the bits of the epsilon, sigma, phi
  and rho labels that occur.
\<close>

theorem specials_check_fold:
  assumes "isFstComposeSpecial t"
  shows "specials_test (fold (\<lambda>s ids. specials_check ids s) labels specials_empty) t
           \<longleftrightarrow> t \<in> set labels"
proof -
  have "specials_test (fold (\<lambda>s ids. specials_check ids s) labels ids) t
          \<longleftrightarrow> specials_test ids t \<or> t \<in> set labels" for ids
    by (induction labels arbitrary: ids) (auto simp: specials_check_test [OF assms])
  then show ?thesis by (simp add: specials_empty_def specials_test_def)
qed

theorem specials_check_fold_witness:
  "specials_test (fold (\<lambda>s ids. specials_check ids s) [terminal 7, PHI_ID] specials_empty) PHI_ID
     \<longleftrightarrow> PHI_ID \<in> set [terminal 7, PHI_ID]"
  by (rule specials_check_fold) (simp add: isFstComposeSpecial_iff)

lemma block_id_range:
  "checkBlockId i = Inr () \<longleftrightarrow> 1 \<le> unat i \<and> unat i \<le> 10000"
  by (auto simp: checkBlockId_def SDL_NUM_BLOCKS_def word_le_nat_alt word_less_nat_alt)

text \<open>
  Block ids. \<open>getBlockOpenChecked\<close> accepts exactly the ids 1 to
  \<open>SDL_NUM_BLOCKS\<close>; the symbol it returns is a block start, an annotation and not lexical,
  and \<open>getBlockId\<close> reads the id back from it.
\<close>

theorem block_open_roundtrip:
  "(\<exists>e. getBlockOpenChecked i = Inl e) \<and> (i = 0 \<or> SDL_NUM_BLOCKS < i) \<or>
   (\<exists>s. getBlockOpenChecked i = Inr s \<and> isBlockStartSymbol s \<and> isAnnotation s \<and>
        \<not> isLexical s \<and> getBlockId s = i)"
proof (cases "checkBlockId i = Inr ()")
  case True
  then have r: "1 \<le> unat i" "unat i \<le> 10000" by (simp_all add: block_id_range)
  let ?s = "sym_add (sym_sub BLOCK_START_ID 1) i"
  have u: "unat (symId ?s) = unat i + 17"
    using r by (simp add: sym_add_def sym_sub_def special_ids unat_word_ariths)
  have e: "unat (symId BLOCK_START_ID) = 18"
    "unat (symId (sym_add BLOCK_START_ID SDL_NUM_BLOCKS)) = 10018"
    by (simp_all add: sym_add_def special_ids)
  have start: "isBlockStartSymbol ?s"
    unfolding isBlockStartSymbol_def less_eq_Sym_def less_Sym_def word_le_nat_alt word_less_nat_alt u e
    using r by simp
  moreover have "isAnnotation ?s"
    unfolding isAnnotation_def specialTerminalIsAnnotation_def
    using u r sym_classes [of ?s] isSpecialTerminal_iff [of ?s]
    by (simp add: less_eq_Sym_def word_le_nat_alt special_ids)
  moreover have "\<not> isLexical ?s" using u r by (simp add: isLexical_iff)
  moreover have "getBlockId ?s = i"
    using start by (simp add: getBlockId_def blockIdForStart_def sym_add_def sym_sub_def)
  moreover have "getBlockOpenChecked i = Inr ?s" using True by (simp add: getBlockOpenChecked_def)
  ultimately show ?thesis by blast
next
  case False
  then have "checkBlockId i = Inl ConfigException" by (auto simp: checkBlockId_def split: if_splits)
  moreover have "i = 0 \<or> SDL_NUM_BLOCKS < i"
    using False by (auto simp: checkBlockId_def word_gt_0 not_le split: if_splits)
  ultimately show ?thesis by (auto simp: getBlockOpenChecked_def)
qed

end
