(* ===== verification/Label_Pairs.thy ===== *)
theory Label_Pairs
  imports Special_Symbols
begin

text \<open>
  Input/output label pairs (\<open>sdl/Hypergraph/LabelPair.hpp\<close>, \<open>Label.hpp\<close>). A missing
  output (\<open>NoSymbol\<close>) means that the output is the input.
\<close>

type_synonym LabelPair = "Sym \<times> Sym"

definition label_input :: "LabelPair \<Rightarrow> Sym" where
  "label_input l = fst l"

definition label_output :: "LabelPair \<Rightarrow> Sym" where
  "label_output l = snd l"

definition effectiveOutput :: "LabelPair \<Rightarrow> Sym" where
  "effectiveOutput l = (if isValid (snd l) then snd l else fst l)"

definition setOutputAsInput :: "LabelPair \<Rightarrow> LabelPair" where
  "setOutputAsInput l = (fst l, NoSymbol)"

definition setInputAsOutput :: "LabelPair \<Rightarrow> LabelPair" where
  "setInputAsOutput l = (snd l, NoSymbol)"

definition kEpsilonLabelPair :: LabelPair where
  "kEpsilonLabelPair = (EPSILON_ID, EPSILON_ID)"

definition kNullLabelPair :: LabelPair where
  "kNullLabelPair = (NoSymbol, NoSymbol)"

definition isEpsilonLabelPair :: "LabelPair \<Rightarrow> bool" where
  "isEpsilonLabelPair l \<longleftrightarrow> fst l = EPSILON_ID \<and> snd l = EPSILON_ID"

definition outputElse :: "LabelPair \<Rightarrow> Sym" where
  "outputElse l = (let o' = label_output l in if o' = NoSymbol then label_input l else o')"

definition compatible :: "LabelPair \<Rightarrow> LabelPair \<Rightarrow> bool" where
  "compatible a b \<longleftrightarrow>
     fst a = fst b \<and>
     (snd a = snd b \<or>
      (if isValid (snd a) then \<not> isValid (snd b) \<and> fst b = snd a else fst a = snd b))"

text \<open>\<open>LabelType\<close>: \<open>Input_Output_Label\<close> is the bitwise or of the two others.\<close>

datatype LabelType = kNo_Label | kInput | kOutput | kInput_Output_Label

definition labelType_bits :: "LabelType \<Rightarrow> 2 word" where
  "labelType_bits t = (case t of kNo_Label \<Rightarrow> 0 | kInput \<Rightarrow> 1 | kOutput \<Rightarrow> 2 | kInput_Output_Label \<Rightarrow> 3)"

definition appendSym :: "Sym list \<Rightarrow> Sym \<Rightarrow> bool \<Rightarrow> Sym list" where
  "appendSym labels s skipEpsilon =
     (if \<not> (skipEpsilon \<and> s = EPSILON_ID) then labels @ [s] else labels)"

definition appendSyms :: "Sym list \<Rightarrow> LabelPair \<Rightarrow> bool \<Rightarrow> LabelType \<Rightarrow> Sym list" where
  "appendSyms labels l skipEpsilon t =
     (let labels1 = if labelType_bits t AND labelType_bits kInput \<noteq> 0
                    then appendSym labels (fst l) skipEpsilon else labels
      in if labelType_bits t AND labelType_bits kOutput \<noteq> 0
         then appendSym labels1 (snd l) skipEpsilon else labels1)"

definition hasLexicalLabelPair :: "LabelPair \<Rightarrow> bool" where
  "hasLexicalLabelPair l \<longleftrightarrow> isLexical (fst l) \<or> isLexical (snd l)"

section \<open>Properties\<close>

lemma isValid_NoSymbol: "isValid s \<longleftrightarrow> s \<noteq> NoSymbol"
  by (cases s) (simp add: isValid_def NoSymbol_def)

lemma effectiveOutput_outputElse: "effectiveOutput l = outputElse l"
  by (simp add: effectiveOutput_def outputElse_def label_output_def label_input_def
      isValid_NoSymbol Let_def)

text \<open>
  Compatible labels. \<open>compatible\<close>, which is written without computing either
  effective output, is equality of input and effective output, as its comment claims, whenever
  the pairs have input labels.
\<close>

theorem compatible_effective:
  assumes "isValid (fst a)" and "isValid (fst b)"
  shows "compatible a b \<longleftrightarrow> fst a = fst b \<and> effectiveOutput a = effectiveOutput b"
  using assms by (auto simp: compatible_def effectiveOutput_def isValid_NoSymbol)

theorem compatible_effective_witness:
  "compatible (terminal 1, terminal 1) (terminal 1, NoSymbol) \<longleftrightarrow>
     fst (terminal 1, terminal 1) = fst (terminal 1, NoSymbol) \<and>
     effectiveOutput (terminal 1, terminal 1) = effectiveOutput (terminal 1, NoSymbol)"
  by (rule compatible_effective) (simp_all add: terminal_def isValid_def sym_consts)

text \<open>Appending a label pair keeps the string and drops exactly the epsilons when asked.\<close>

lemma appendSyms_both:
  "appendSyms labels l True kInput_Output_Label = labels @ filter (\<lambda>s. s \<noteq> EPSILON_ID) [fst l, snd l]"
  by (simp add: appendSyms_def appendSym_def labelType_bits_def)

lemma appendSyms_output:
  "appendSyms labels l skip kOutput = (if skip \<and> snd l = EPSILON_ID then labels else labels @ [snd l])"
  by (simp add: appendSyms_def appendSym_def labelType_bits_def)

end
