(* ===== verification/Hg_Properties.thy ===== *)
theory Hg_Properties
  imports Hyp_Prelude
begin

text \<open>
  The property bits of a hypergraph (\<open>sdl/Hypergraph/Properties.hpp\<close>): a \<open>uint64\<close> used
  as a set of flags, some of them policies (which adjacency lists are stored), some of them
  structural facts (\<open>kFsm\<close>, \<open>kGraph\<close>), some of them promises about order.
\<close>

type_synonym Properties = "64 word"

definition kGraph :: Properties where "kGraph = 0x1"
definition kFsm :: Properties where "kFsm = 0x2"
definition kStoreInArcs :: Properties where "kStoreInArcs = 0x4"
definition kStoreOutArcs :: Properties where "kStoreOutArcs = 0x8"
definition kStoreFirstTailOutArcs :: Properties where "kStoreFirstTailOutArcs = 0x10"
definition kHasOutputLabels :: Properties where "kHasOutputLabels = 0x20"
definition kSortedOutArcs :: Properties where "kSortedOutArcs = 0x40"
definition kCanonicalLex :: Properties where "kCanonicalLex = 0x80"
definition kOutArcsSortedBestFirst :: Properties where "kOutArcsSortedBestFirst = 0x100"
definition kSortedStates :: Properties where "kSortedStates = 0x200"
definition kAcyclic :: Properties where "kAcyclic = 0x400"
definition kOneLexical :: Properties where "kOneLexical = 0x800"
definition kAnnotations :: Properties where "kAnnotations = 0x1000"
definition kConstraintStarts :: Properties where "kConstraintStarts = 0x2000"
definition kConstraintEnds :: Properties where "kConstraintEnds = 0x4000"
definition kGraphInlineInputLabels :: Properties where "kGraphInlineInputLabels = 0x8000"

definition kPropertyEnd :: Properties where "kPropertyEnd = push_bit 1 kConstraintEnds"
definition kAllProperties :: Properties where "kAllProperties = kPropertyEnd - 1"
definition kAnyConstraints :: Properties where "kAnyConstraints = kConstraintEnds OR kConstraintStarts"
definition kFsmProperties :: Properties where "kFsmProperties = kFsm OR kGraph OR kOneLexical"
definition kFsmOutProperties :: Properties where
  "kFsmOutProperties = kStoreFirstTailOutArcs OR kFsmProperties OR kCanonicalLex"
definition kFullInOutArcs :: Properties where "kFullInOutArcs = kStoreInArcs OR kStoreOutArcs"
definition kStoreAnyOutArcs :: Properties where
  "kStoreAnyOutArcs = kStoreOutArcs OR kStoreFirstTailOutArcs"
definition kStoreAnyArcs :: Properties where "kStoreAnyArcs = kStoreInArcs OR kStoreAnyOutArcs"

lemmas prop_bits [bits_simps] =
  kGraph_def kFsm_def kStoreInArcs_def kStoreOutArcs_def kStoreFirstTailOutArcs_def
  kHasOutputLabels_def kSortedOutArcs_def kCanonicalLex_def kOutArcsSortedBestFirst_def
  kSortedStates_def kAcyclic_def kOneLexical_def kAnnotations_def kConstraintStarts_def
  kConstraintEnds_def kGraphInlineInputLabels_def kPropertyEnd_def kAllProperties_def
  kAnyConstraints_def kFsmProperties_def kFsmOutProperties_def kFullInOutArcs_def
  kStoreAnyOutArcs_def kStoreAnyArcs_def

text \<open>The C++ idiom \<open>p & k\<close> as a condition.\<close>

definition has :: "Properties \<Rightarrow> Properties \<Rightarrow> bool" where
  "has p k \<longleftrightarrow> p AND k \<noteq> 0"

definition unknownPropertyBits :: "Properties \<Rightarrow> Properties" where
  "unknownPropertyBits p = p AND NOT kAllProperties"

definition hasProperties :: "Properties \<Rightarrow> Properties \<Rightarrow> bool" where
  "hasProperties p required \<longleftrightarrow> p AND required = required"

definition hasPropertiesOff :: "Properties \<Rightarrow> Properties \<Rightarrow> bool" where
  "hasPropertiesOff p avoid \<longleftrightarrow> p AND avoid = 0"

definition hasPropertiesOnOff :: "Properties \<Rightarrow> Properties \<Rightarrow> bool \<Rightarrow> bool" where
  "hasPropertiesOnOff p required on = (if on then hasProperties p required else hasPropertiesOff p required)"

definition withArcs :: "Properties \<Rightarrow> Properties \<Rightarrow> Properties" where
  "withArcs p arcTypeIfNoArcs = (if has p kStoreAnyArcs then p else p OR arcTypeIfNoArcs)"

section \<open>Single bits\<close>

text \<open>
  The flags are single bits, so a flag test is a bit lookup and setting or clearing bits acts
  pointwise. These rules carry every proof about flags in the development.
\<close>

definition bit_pos :: "Properties \<Rightarrow> nat \<Rightarrow> bool" where
  "bit_pos k n \<longleftrightarrow> n < 64 \<and> k = push_bit n 1"

lemma bit_of_bit_pos: "bit_pos k n \<Longrightarrow> bit k j \<longleftrightarrow> j = n"
  by (auto simp: bit_pos_def bit_simps)

lemma has_bit:
  assumes "bit_pos k n"
  shows "has p k \<longleftrightarrow> bit p n"
proof
  assume "has p k"
  then obtain j where "bit (p AND k) j" unfolding has_def by (metis bit_eqI bit_0_eq bot_apply bot_bool_def)
  then show "bit p n" using assms by (auto simp: bit_and_iff bit_of_bit_pos)
next
  assume "bit p n"
  then have "bit (p AND k) n" using assms by (simp add: bit_and_iff bit_of_bit_pos)
  then show "has p k" unfolding has_def by auto
qed

lemma bit_positions:
  "bit_pos kGraph 0" "bit_pos kFsm 1" "bit_pos kStoreInArcs 2" "bit_pos kStoreOutArcs 3"
  "bit_pos kStoreFirstTailOutArcs 4" "bit_pos kHasOutputLabels 5" "bit_pos kSortedOutArcs 6"
  "bit_pos kCanonicalLex 7" "bit_pos kOutArcsSortedBestFirst 8" "bit_pos kSortedStates 9"
  "bit_pos kAcyclic 10" "bit_pos kOneLexical 11" "bit_pos kAnnotations 12"
  "bit_pos kConstraintStarts 13" "bit_pos kConstraintEnds 14" "bit_pos kGraphInlineInputLabels 15"
  by (simp_all add: bit_pos_def prop_bits)

lemmas has_flag = bit_positions [THEN has_bit]
lemmas bit_flag = bit_positions [THEN bit_of_bit_pos]

lemma bit_not64: "bit (NOT (p :: Properties)) n \<longleftrightarrow> n < 64 \<and> \<not> bit p n"
  by (auto simp: bit_not_iff_eq possible_bit_word)

lemma bit_kStoreAnyOutArcs: "bit kStoreAnyOutArcs n \<longleftrightarrow> n = 3 \<or> n = 4"
  by (simp add: kStoreAnyOutArcs_def bit_or_iff bit_flag)

lemma bit_kFsmProperties: "bit kFsmProperties n \<longleftrightarrow> n = 0 \<or> n = 1 \<or> n = 11"
  by (auto simp: kFsmProperties_def bit_or_iff bit_flag)

lemma has_or_right: "has p (j OR k) \<longleftrightarrow> has p j \<or> has p k"
  by (simp add: has_def bit.conj_disj_distrib or_eq_0_iff)

lemma has_kStoreAnyOutArcs:
  "has p kStoreAnyOutArcs \<longleftrightarrow> has p kStoreOutArcs \<or> has p kStoreFirstTailOutArcs"
  by (simp add: kStoreAnyOutArcs_def has_or_right)

lemma has_kStoreAnyArcs: "has p kStoreAnyArcs \<longleftrightarrow> has p kStoreInArcs \<or> has p kStoreAnyOutArcs"
  by (simp add: kStoreAnyArcs_def has_or_right)

lemmas flag_simps =
  has_kStoreAnyArcs has_kStoreAnyOutArcs has_flag bit_or_iff bit_and_iff bit_not64 bit_flag
  bit_kStoreAnyOutArcs bit_kFsmProperties

lemma has_zero [simp]: "\<not> has p 0" "\<not> has 0 k"
  by (simp_all add: has_def)

lemma hasProperties_bits: "hasProperties p r \<longleftrightarrow> (\<forall>n. bit r n \<longrightarrow> bit p n)"
proof -
  have "bit r n \<Longrightarrow> n < 64" for n using bit_imp_le_length [of r n] by simp
  then show ?thesis unfolding hasProperties_def bit_eq_iff by (auto simp: bit_and_iff)
qed

lemma withArcs_stores: "has arcType kStoreAnyArcs \<Longrightarrow> has (withArcs p arcType) kStoreAnyArcs"
  unfolding withArcs_def by (simp add: has_kStoreAnyArcs has_kStoreAnyOutArcs has_flag bit_or_iff)

end
