(* ===== verification/Arcs.thy ===== *)
theory Arcs
  imports Hyp_Prelude "HOL-Library.List_Lexorder"
begin

text \<open>
  Hyperarcs (\<open>sdl/Hypergraph/ArcBase.hpp\<close>, \<open>Arc.hpp\<close>): a head state, a vector of tail
  states and a weight. The weight is the template parameter of the source and stays a type
  variable; the constant \<open>Weight::one()\<close> is an argument where the code uses it.
  \<open>kNoState\<close> is the head of a default-constructed arc.
\<close>

record 'w arc =
  arc_head :: StateId
  arc_tails :: "StateId list"
  arc_weight :: 'w

section \<open>Constructors\<close>

definition new_arc_default :: "'w \<Rightarrow> 'w arc" where
  "new_arc_default one = \<lparr>arc_head = kNoState, arc_tails = [], arc_weight = one\<rparr>"

definition new_arc :: "StateId \<Rightarrow> StateId list \<Rightarrow> 'w \<Rightarrow> 'w arc" where
  "new_arc head tails weight = \<lparr>arc_head = head, arc_tails = tails, arc_weight = weight\<rparr>"

text \<open>\<open>Arc(head, weight, tail)\<close>, and the fsm arc \<open>Arc(from, label, weight, to)\<close>.\<close>

definition new_arc_tail :: "StateId \<Rightarrow> 'w \<Rightarrow> StateId \<Rightarrow> 'w arc" where
  "new_arc_tail head weight tail = \<lparr>arc_head = head, arc_tails = [tail], arc_weight = weight\<rparr>"

definition new_arc_fsm :: "StateId \<Rightarrow> StateId \<Rightarrow> 'w \<Rightarrow> StateId \<Rightarrow> 'w arc" where
  "new_arc_fsm from' label weight to' =
     \<lparr>arc_head = to', arc_tails = [from', label], arc_weight = weight\<rparr>"

text \<open>
  The \<open>HeadAndTail\<close> constructors. The last one takes a weight, initialises the field with it,
  and then calls \<open>setOne\<close> on the field.
\<close>

definition new_arc_head_tail :: "'w \<Rightarrow> StateId \<Rightarrow> StateId \<Rightarrow> 'w arc" where
  "new_arc_head_tail one head tail = \<lparr>arc_head = head, arc_tails = [tail], arc_weight = one\<rparr>"

definition new_arc_head_tail2 :: "'w \<Rightarrow> StateId \<Rightarrow> StateId \<Rightarrow> StateId \<Rightarrow> 'w arc" where
  "new_arc_head_tail2 one head tail0 tail1 =
     \<lparr>arc_head = head, arc_tails = [tail0, tail1], arc_weight = one\<rparr>"

definition new_arc_head_tail2_weight :: "'w \<Rightarrow> StateId \<Rightarrow> StateId \<Rightarrow> StateId \<Rightarrow> 'w \<Rightarrow> 'w arc" where
  "new_arc_head_tail2_weight one head tail0 tail1 weight =
     (let a = \<lparr>arc_head = head, arc_tails = [tail0, tail1], arc_weight = weight\<rparr>
      in a\<lparr>arc_weight := one\<rparr>)"

text \<open>\<open>ArcTpl(arc, fromTail, replacementTail)\<close>: \<open>std::replace_copy\<close> on the tails.\<close>

definition new_arc_replacing :: "'w arc \<Rightarrow> StateId \<Rightarrow> StateId \<Rightarrow> 'w arc" where
  "new_arc_replacing a fromTail replacementTail =
     \<lparr>arc_head = arc_head a,
      arc_tails = map (\<lambda>t. if t = fromTail then replacementTail else t) (arc_tails a),
      arc_weight = arc_weight a\<rparr>"

text \<open>\<open>ArcTpl(newTail, tails, head, weight)\<close>, for graph rescoring; asserts a tail exists.\<close>

definition new_arc_first_tail :: "StateId \<Rightarrow> StateId list \<Rightarrow> StateId \<Rightarrow> 'w \<Rightarrow> 'w arc" where
  "new_arc_first_tail newTail tails head weight =
     \<lparr>arc_head = head, arc_tails = tails[0 := newTail], arc_weight = weight\<rparr>"

section \<open>Accessors\<close>

definition isFsmArcShape :: "'w arc \<Rightarrow> bool" where
  "isFsmArcShape a \<longleftrightarrow> length (arc_tails a) = 2"

definition isFsmFrom :: "'w arc \<Rightarrow> StateId \<Rightarrow> bool" where
  "isFsmFrom a tail0 \<longleftrightarrow> arc_tails a \<noteq> [] \<and> arc_tails a ! 0 = tail0"

definition graphSrc :: "'w arc \<Rightarrow> StateId" where
  "graphSrc a = arc_tails a ! 0"

definition fsmSymbolState :: "'w arc \<Rightarrow> StateId" where
  "fsmSymbolState a = arc_tails a ! 1"

definition addTail :: "'w arc \<Rightarrow> StateId \<Rightarrow> 'w arc" where
  "addTail a s = a\<lparr>arc_tails := arc_tails a @ [s]\<rparr>"

text \<open>\<open>WeightCount\<close>: how many arcs there are, and how many have weight one.\<close>

record weight_count =
  wc_n :: nat
  wc_n1 :: nat

definition weight_count_empty :: weight_count where
  "weight_count_empty = \<lparr>wc_n = 0, wc_n1 = 0\<rparr>"

definition weight_count_visit :: "'w \<Rightarrow> 'w arc \<Rightarrow> weight_count \<Rightarrow> weight_count" where
  "weight_count_visit one a c =
     (let c1 = c\<lparr>wc_n := wc_n c + 1\<rparr>
      in if arc_weight a = one then c1\<lparr>wc_n1 := wc_n1 c1 + 1\<rparr> else c1)"

definition wc_unweighted :: "weight_count \<Rightarrow> bool" where
  "wc_unweighted c \<longleftrightarrow> wc_n1 c = wc_n c"

lemma length_filter_all: "length (filter P xs) = length xs \<longleftrightarrow> (\<forall>x \<in> set xs. P x)"
  by (metis filter_True length_filter_less less_irrefl)

lemma weight_count_fold:
  "fold (weight_count_visit one) as c =
     \<lparr>wc_n = wc_n c + length as, wc_n1 = wc_n1 c + length (filter (\<lambda>a. arc_weight a = one) as)\<rparr>"
  by (induction as arbitrary: c) (auto simp: weight_count_visit_def Let_def)

lemma unweighted_iff:
  "wc_unweighted (fold (weight_count_visit one) as weight_count_empty)
     \<longleftrightarrow> (\<forall>a \<in> set as. arc_weight a = one)"
  by (simp add: weight_count_fold wc_unweighted_def weight_count_empty_def length_filter_all)

section \<open>Orders on arcs\<close>

text \<open>
  \<open>ArcConnections\<close> is the key of an arc without its weight. Its comparison ends in a
  \<open>memcmp\<close> of the tail vector, which compares bytes as unsigned chars, from the lowest
  address; on the little-endian targets of the toolkit the bytes of a state id come lowest first.
\<close>

definition le_bytes :: "StateId \<Rightarrow> nat list" where
  "le_bytes s = [s mod 256, s div 256 mod 256, s div 65536 mod 256, s div 16777216 mod 256]"

definition memcmp_less :: "StateId list \<Rightarrow> StateId list \<Rightarrow> bool" where
  "memcmp_less a b \<longleftrightarrow> concat (map le_bytes a) < concat (map le_bytes b)"

definition nTailBytes :: "'w arc \<Rightarrow> nat" where
  "nTailBytes a = 4 * length (arc_tails a) mod 4294967296"

definition connections_eq :: "'w arc \<Rightarrow> 'w arc \<Rightarrow> bool" where
  "connections_eq a b \<longleftrightarrow>
     arc_head a = arc_head b \<and> nTailBytes a = nTailBytes b \<and>
     concat (map le_bytes (arc_tails a)) = concat (map le_bytes (arc_tails b))"

definition connections_less :: "'w arc \<Rightarrow> 'w arc \<Rightarrow> bool" where
  "connections_less a b \<longleftrightarrow>
     (if arc_head a < arc_head b then True
      else if arc_head b < arc_head a then False
      else if nTailBytes a < nTailBytes b then True
      else if nTailBytes b < nTailBytes a then False
      else memcmp_less (arc_tails a) (arc_tails b))"

text \<open>\<open>ArcTpl::operator<\<close>: the weight first, with the weight's own order as a parameter.\<close>

definition arc_less :: "('w \<Rightarrow> 'w \<Rightarrow> bool) \<Rightarrow> 'w arc \<Rightarrow> 'w arc \<Rightarrow> bool" where
  "arc_less lt a b \<longleftrightarrow>
     (if lt (arc_weight a) (arc_weight b) then True
      else if lt (arc_weight b) (arc_weight a) then False
      else if length (arc_tails a) < length (arc_tails b) then True
      else if length (arc_tails b) < length (arc_tails a) then False
      else if arc_head a < arc_head b then True
      else if arc_head b < arc_head a then False
      else if length (arc_tails a) = 0 then False
      else memcmp_less (arc_tails a) (arc_tails b))"

text \<open>The bytes determine a 32-bit state id.\<close>

lemma le_bytes_inj:
  assumes "le_bytes s = le_bytes t" and "s < 4294967296" and "t < 4294967296"
  shows "s = t"
proof -
  have e: "x = x mod 256 + 256 * (x div 256 mod 256) + 65536 * (x div 65536 mod 256)
      + 16777216 * (x div 16777216 mod 256)" if "x < 4294967296" for x :: nat
  proof -
    have d: "x div 65536 = x div 256 div 256" "x div 16777216 = x div 256 div 256 div 256"
      by (simp_all add: div_mult2_eq [symmetric])
    have "x div 256 div 256 div 256 < 256"
      using that by (simp add: div_mult2_eq [symmetric] less_mult_imp_div_less)
    then have m: "x div 256 div 256 div 256 mod 256 = x div 256 div 256 div 256" by simp
    show ?thesis
      unfolding d m using div_mult_mod_eq [of x 256] div_mult_mod_eq [of "x div 256" 256]
        div_mult_mod_eq [of "x div 256 div 256" 256] by linarith
  qed
  from assms(1) have "s mod 256 = t mod 256" "s div 256 mod 256 = t div 256 mod 256"
    "s div 65536 mod 256 = t div 65536 mod 256" "s div 16777216 mod 256 = t div 16777216 mod 256"
    unfolding le_bytes_def by (simp_all only: list.inject)
  with e [OF assms(2)] e [OF assms(3)] show ?thesis by (simp only:)
qed

lemma length_le_bytes: "length (le_bytes s) = 4"
  by (simp add: le_bytes_def)

lemma le_bytes_append [simp]:
  "le_bytes s @ xs = le_bytes t @ ys \<longleftrightarrow> le_bytes s = le_bytes t \<and> xs = ys"
  by (simp add: append_eq_append_conv length_le_bytes)

lemma concat_le_bytes_inj:
  assumes "concat (map le_bytes a) = concat (map le_bytes b)"
    and "\<forall>s \<in> set a \<union> set b. s < 4294967296"
  shows "a = b"
  using assms
proof (induction a arbitrary: b)
  case Nil
  then show ?case by (cases b) (auto simp: le_bytes_def)
next
  case (Cons s a)
  then obtain t b' where b: "b = t # b'" by (cases b) (auto simp: le_bytes_def)
  have "le_bytes s = le_bytes t" and "concat (map le_bytes a) = concat (map le_bytes b')"
    using Cons.prems(1) unfolding b by simp_all
  then show ?case using Cons b le_bytes_inj by auto
qed

text \<open>
  A strict order used as a sorting or map key is a strict weak order: irreflexive, transitive,
  and incomparability is the equality of the keys.
\<close>

locale strict_key_order =
  fixes lt :: "'a \<Rightarrow> 'a \<Rightarrow> bool" and same :: "'a \<Rightarrow> 'a \<Rightarrow> bool"
  assumes lt_irrefl: "\<not> lt a a"
    and lt_trans: "lt a b \<Longrightarrow> lt b c \<Longrightarrow> lt a c"
    and incomparable: "\<not> lt a b \<Longrightarrow> \<not> lt b a \<Longrightarrow> same a b"
    and same_neither: "same a b \<Longrightarrow> \<not> lt a b"
begin

lemma lt_asym: "lt a b \<Longrightarrow> \<not> lt b a"
  using lt_irrefl lt_trans by blast

lemma trichotomy: "lt a b \<or> same a b \<or> lt b a"
  using incomparable by blast

end

text \<open>\<open>ArcConnections\<close> is such an order, with its own \<open>operator==\<close> as the equality.\<close>

interpretation connections: strict_key_order connections_less connections_eq
  by unfold_locales
    (auto simp: connections_less_def connections_eq_def memcmp_less_def split: if_splits)

text \<open>
  Arc keys. \<open>ArcConnections\<close>'s byte-wise comparison is usable as a sorting and
  hashing key: it is irreflexive and transitive, exactly one of less, greater and
  \<open>operator==\<close> holds, and on 32-bit state ids \<open>operator==\<close> is equality of head and tails.
\<close>

theorem arc_connections_key:
  assumes "\<forall>s \<in> set (arc_tails a) \<union> set (arc_tails b). s < 4294967296"
  shows "\<not> connections_less a a
    \<and> (connections_less a b \<and> connections_less b c \<longrightarrow> connections_less a c)
    \<and> (connections_less a b \<or> connections_eq a b \<or> connections_less b a)
    \<and> \<not> (connections_less a b \<and> connections_less b a)
    \<and> (connections_eq a b \<longleftrightarrow> arc_head a = arc_head b \<and> arc_tails a = arc_tails b)"
proof -
  have "connections_eq a b \<longleftrightarrow> arc_head a = arc_head b \<and> arc_tails a = arc_tails b"
    using concat_le_bytes_inj [OF _ assms] by (auto simp: connections_eq_def nTailBytes_def)
  then show ?thesis
    using connections.lt_irrefl connections.lt_trans [of a b c] connections.trichotomy [of a b]
      connections.lt_asym [of a b] by blast
qed

theorem arc_connections_key_witness:
  "connections_eq (new_arc 3 [1, 2] (0::nat)) (new_arc 3 [1, 2] 1) \<longleftrightarrow>
     arc_head (new_arc 3 [1, 2] (0::nat)) = arc_head (new_arc 3 [1, 2] (1::nat)) \<and>
     arc_tails (new_arc 3 [1, 2] (0::nat)) = arc_tails (new_arc 3 [1, 2] (1::nat))"
proof -
  have "\<forall>s \<in> set (arc_tails (new_arc 3 [1, 2] (0::nat))) \<union> set (arc_tails (new_arc 3 [1, 2] (1::nat))).
          s < 4294967296"
    by (simp add: new_arc_def)
  from arc_connections_key [OF this] show ?thesis by blast
qed

lemma new_arc_replacing_same: "new_arc_replacing a s s = a"
  by (simp add: new_arc_replacing_def map_idI)

lemma arc_less_irrefl: "\<not> lt (arc_weight a) (arc_weight a) \<Longrightarrow> \<not> arc_less lt a a"
  by (simp add: arc_less_def memcmp_less_def)

text \<open>
  Theorem (constructor drops its weight). The \<open>HeadAndTail\<close> constructor that is given a
  weight returns the same arc for every weight: its result always has weight one.
\<close>

theorem head_tail_weight_ignored:
  "new_arc_head_tail2_weight one head tail0 tail1 weight = new_arc_head_tail2 one head tail0 tail1"
  by (simp add: new_arc_head_tail2_weight_def new_arc_head_tail2_def)

end
