(* ===== verification/Hg_State.thy ===== *)
theory Hg_State
  imports Label_Pairs Hg_Properties Arcs
begin

text \<open>
  The state of \<open>MutableHypergraph\<close> (\<open>sdl/Hypergraph/MutableHypergraph.hpp\<close>,
  \<open>HypergraphBase.hpp\<close>, \<open>IMutableHypergraph.hpp\<close>) and its operations on states and
  labels. Arcs are heap objects reached through pointers that the in-arc and out-arc adjacency
  lists share, so the state holds the heap of arcs (\<open>arc_heap\<close>, from handles to arcs; a
  deleted arc has no entry) and the adjacency lists hold handles; the shared vocabulary is an
  optional identity. The trailing underscore of the
  source's field names is dropped.
\<close>

type_synonym ArcHandle = nat

record 'w hg =
  arc_heap :: "ArcHandle \<rightharpoonup> 'w arc"
  next_arc :: ArcHandle
  props :: Properties
  start_state :: StateId
  final_state :: StateId
  numStates :: StateId
  sortedStatesNumNotTerminal :: StateId
  lstate :: "LabelPair \<rightharpoonup> StateId"
  canonicalLexIsCanonical :: bool
  iLabelForState :: "Sym list"
  oLabelForState :: "Sym list"
  inArcsPerState :: "ArcHandle list list"
  outArcsPerState :: "ArcHandle list list"
  fsmChecked :: bool
  pVocab :: "nat option"
  interested :: "StateId list"
  interestedStates :: "StateId list"

definition setProp :: "Properties \<Rightarrow> 'w hg \<Rightarrow> 'w hg" where
  "setProp p h = h\<lparr>props := props h OR p\<rparr>"

definition clearProp :: "Properties \<Rightarrow> 'w hg \<Rightarrow> 'w hg" where
  "clearProp p h = h\<lparr>props := props h AND NOT p\<rparr>"

text \<open>\<open>setPropertyBit(bits, on)\<close>, and the constraint properties set through it.\<close>

definition setPropertyBit :: "'w hg \<Rightarrow> Properties \<Rightarrow> bool \<Rightarrow> 'w hg" where
  "setPropertyBit h bits on = (if on then setProp bits h else clearProp bits h)"

definition setHaveConstraints :: "'w hg \<Rightarrow> bool \<Rightarrow> bool \<Rightarrow> sdl_error + 'w hg" where
  "setHaveConstraints h haveStarts haveEnds =
     (if haveEnds \<and> \<not> haveStarts then Inl ConfigException
      else Inr (setPropertyBit (setPropertyBit h kConstraintStarts haveStarts) kConstraintEnds haveEnds))"

definition storesInArcs :: "'w hg \<Rightarrow> bool" where
  "storesInArcs h \<longleftrightarrow> has (props h) kStoreInArcs"

definition storesOutArcs :: "'w hg \<Rightarrow> bool" where
  "storesOutArcs h \<longleftrightarrow> has (props h) kStoreAnyOutArcs"

definition storesFirstTailOutArcs :: "'w hg \<Rightarrow> bool" where
  "storesFirstTailOutArcs h \<longleftrightarrow> has (props h) kStoreFirstTailOutArcs"

definition storesAllOutArcs :: "'w hg \<Rightarrow> bool" where
  "storesAllOutArcs h \<longleftrightarrow> has (props h) kStoreOutArcs"

definition storesArcs :: "'w hg \<Rightarrow> bool" where
  "storesArcs h \<longleftrightarrow> has (props h) kStoreAnyArcs"

section \<open>Labels\<close>

definition inputLabel :: "'w hg \<Rightarrow> StateId \<Rightarrow> Sym" where
  "inputLabel h s = getOrElse (iLabelForState h) s NoSymbol"

definition outputLabelBare :: "'w hg \<Rightarrow> StateId \<Rightarrow> Sym" where
  "outputLabelBare h s = getOrElse (oLabelForState h) s NoSymbol"

definition outputLabelOrElse :: "'w hg \<Rightarrow> StateId \<Rightarrow> Sym \<Rightarrow> Sym" where
  "outputLabelOrElse h s inLabel =
     (let r = getOrElse (oLabelForState h) s NoSymbol in if isValid r then r else inLabel)"

definition outputLabel :: "'w hg \<Rightarrow> StateId \<Rightarrow> Sym" where
  "outputLabel h s =
     (let r = getOrElse (oLabelForState h) s NoSymbol in if isValid r then r else inputLabel h s)"

definition labelPair :: "'w hg \<Rightarrow> StateId \<Rightarrow> LabelPair" where
  "labelPair h s = (let i = inputLabel h s in (i, outputLabelOrElse h s i))"

definition labelPairOptionalOutput :: "'w hg \<Rightarrow> StateId \<Rightarrow> LabelPair" where
  "labelPairOptionalOutput h s = (inputLabel h s, getOrElse (oLabelForState h) s NoSymbol)"

definition hasLexicalLabel :: "'w hg \<Rightarrow> StateId \<Rightarrow> bool" where
  "hasLexicalLabel h s \<longleftrightarrow>
     s < length (iLabelForState h) \<and>
     (isLexical (iLabelForState h ! s) \<or>
      (s < length (oLabelForState h) \<and> isLexical (oLabelForState h ! s)))"

definition hasLexicalInputLabel :: "'w hg \<Rightarrow> StateId \<Rightarrow> bool" where
  "hasLexicalInputLabel h s \<longleftrightarrow>
     s < length (iLabelForState h) \<and> isLexical (iLabelForState h ! s)"

definition elseHasLexicalOutputLabel :: "'w hg \<Rightarrow> StateId \<Rightarrow> bool" where
  "elseHasLexicalOutputLabel h s \<longleftrightarrow>
     s < length (oLabelForState h) \<and> isLexical (oLabelForState h ! s)"

definition hasLabel :: "'w hg \<Rightarrow> StateId \<Rightarrow> bool" where
  "hasLabel h s \<longleftrightarrow> s < length (iLabelForState h) \<and> iLabelForState h ! s \<noteq> NoSymbol"

definition hasTerminalLabel :: "'w hg \<Rightarrow> StateId \<Rightarrow> bool" where
  "hasTerminalLabel h s \<longleftrightarrow> isTerminal (inputLabel h s)"

definition outputLabelFollowsInputAt :: "'w hg \<Rightarrow> StateId \<Rightarrow> bool" where
  "outputLabelFollowsInputAt h s \<longleftrightarrow> outputLabelBare h s = NoSymbol"

definition outputLabelFollowsInput :: "'w hg \<Rightarrow> bool" where
  "outputLabelFollowsInput h \<longleftrightarrow> oLabelForState h = []"

definition isAxiom :: "'w hg \<Rightarrow> StateId \<Rightarrow> bool" where
  "isAxiom h s \<longleftrightarrow> s = start_state h \<or> hasTerminalLabel h s"

text \<open>
  \<open>setLabel\<close> grows the vector only for a real symbol. The callers assert
  \<open>s != kNoState\<close>, the one id for which the 32-bit \<open>s + 1\<close> wraps.
\<close>

definition setLabel :: "Sym list \<Rightarrow> StateId \<Rightarrow> Sym \<Rightarrow> Sym list" where
  "setLabel l s x =
     (if length l \<le> s
      then if \<not> isValid x then l else (vec_resize l (inc32 s) NoSymbol)[s := x]
      else l[s := x])"

definition clearLabel :: "Sym list \<Rightarrow> StateId \<Rightarrow> Sym list" where
  "clearLabel l s = (if s < length l then l[s := NoSymbol] else l)"

definition setInputLabelImpl :: "StateId \<Rightarrow> Sym \<Rightarrow> 'w hg \<Rightarrow> 'w hg" where
  "setInputLabelImpl s label h = h\<lparr>iLabelForState := setLabel (iLabelForState h) s label\<rparr>"

definition setOutputLabelImpl :: "StateId \<Rightarrow> Sym \<Rightarrow> 'w hg \<Rightarrow> 'w hg" where
  "setOutputLabelImpl s label h =
     (if length (oLabelForState h) \<le> s
      then if \<not> isValid label then h
           else h\<lparr>oLabelForState := (vec_resize (oLabelForState h) (inc32 s) NoSymbol)[s := label]\<rparr>
      else h\<lparr>oLabelForState := (oLabelForState h)[s := label]\<rparr>)"

definition setOutputLabelProps :: "StateId \<Rightarrow> Sym \<Rightarrow> 'w hg \<Rightarrow> 'w hg" where
  "setOutputLabelProps s label h =
     (let h1 = setOutputLabelImpl s label h
      in if \<not> isValid label then h1 else setProp kHasOutputLabels h1)"

definition setNewStateLabels :: "StateId \<Rightarrow> Sym \<Rightarrow> Sym \<Rightarrow> 'w hg \<Rightarrow> 'w hg" where
  "setNewStateLabels s i out h =
     (let h1 = setInputLabelImpl s i h
      in if i \<noteq> out \<and> out \<noteq> NoSymbol
         then setProp kHasOutputLabels (setOutputLabelImpl s out h1) else h1)"

definition notifyLabelImpl :: "'w hg \<Rightarrow> 'w hg" where
  "notifyLabelImpl h = clearProp kSortedStates h"

definition notifyArcImpl :: "'w hg \<Rightarrow> 'w hg" where
  "notifyArcImpl h = h\<lparr>fsmChecked := False\<rparr>"

definition setLabelPairImpl :: "StateId \<Rightarrow> LabelPair \<Rightarrow> 'w hg \<Rightarrow> 'w hg" where
  "setLabelPairImpl s io h =
     (let h1 = clearProp kCanonicalLex h;
          h2 = h1\<lparr>iLabelForState := setLabel (iLabelForState h1) s (label_input io),
                  oLabelForState := setLabel (oLabelForState h1) s (label_output io)\<rparr>
      in if snd io \<noteq> NoSymbol then setProp kHasOutputLabels h2 else h2)"

definition setLabelPair :: "StateId \<Rightarrow> LabelPair \<Rightarrow> 'w hg \<Rightarrow> 'w hg" where
  "setLabelPair s io h = notifyLabelImpl (setLabelPairImpl s io h)"

definition setInputLabel :: "StateId \<Rightarrow> Sym \<Rightarrow> 'w hg \<Rightarrow> 'w hg" where
  "setInputLabel s label h = notifyLabelImpl (setInputLabelImpl s label (clearProp kCanonicalLex h))"

definition setOutputLabel :: "StateId \<Rightarrow> Sym \<Rightarrow> 'w hg \<Rightarrow> 'w hg" where
  "setOutputLabel s label h = notifyLabelImpl (setOutputLabelProps s label (clearProp kCanonicalLex h))"

definition removeOutputLabels :: "'w hg \<Rightarrow> 'w hg" where
  "removeOutputLabels h = h\<lparr>oLabelForState := clearVector (oLabelForState h)\<rparr>"

definition hgSizeForLabels :: "'w hg \<Rightarrow> nat" where
  "hgSizeForLabels h = max (length (iLabelForState h)) (length (oLabelForState h))"

section \<open>Construction and clearing\<close>

definition clearStates :: "'w hg \<Rightarrow> 'w hg" where
  "clearStates h = h\<lparr>numStates := 0, start_state := kNoState, final_state := kNoState, fsmChecked := True\<rparr>"

text \<open>The constructor: the default-initialised object, then \<open>init(props)\<close>.\<close>

definition hg_zero :: "'w hg" where
  "hg_zero = \<lparr>arc_heap = Map.empty, next_arc = 0, props = 0, start_state = 0, final_state = 0,
     numStates = 0, sortedStatesNumNotTerminal = 0, lstate = Map.empty,
     canonicalLexIsCanonical = True, iLabelForState = [], oLabelForState = [],
     inArcsPerState = [], outArcsPerState = [], fsmChecked = False, pVocab = None,
     interested = [], interestedStates = []\<rparr>"

definition init_hg :: "Properties \<Rightarrow> sdl_error + 'w hg" where
  "init_hg p =
     (let h = clearStates (hg_zero\<lparr>props := p OR kFsmProperties\<rparr>)
      in if \<not> storesArcs h then Inl ConfigException else Inr h)"

section \<open>Adding states\<close>

definition addState0 :: "'w hg \<Rightarrow> 'w hg" where
  "addState0 h = notifyLabelImpl (h\<lparr>numStates := inc32 (numStates h)\<rparr>)"

definition addState :: "'w hg \<Rightarrow> StateId \<times> 'w hg" where
  "addState h = (numStates h, addState0 h)"

definition addStateImpl :: "Sym \<Rightarrow> 'w hg \<Rightarrow> StateId \<times> 'w hg" where
  "addStateImpl i h = (let s = numStates h in (s, addState0 (setInputLabelImpl s i h)))"

text \<open>
  \<open>addState(Sym)\<close>: under \<open>kCanonicalLex\<close> a terminal label has one state, remembered in
  \<open>lstate\<close> under the pair \<open>(input, NoSymbol)\<close>.
\<close>

definition addStateSym :: "Sym \<Rightarrow> 'w hg \<Rightarrow> StateId \<times> 'w hg" where
  "addStateSym i h =
     (if \<not> has (props h) kCanonicalLex \<or> \<not> isTerminal i then addStateImpl i h
      else case lstate h (i, NoSymbol) of
             Some s \<Rightarrow> (s, h)
           | None \<Rightarrow> (let (s, h1) = addStateImpl i h
                      in (s, h1\<lparr>lstate := (lstate h1)((i, NoSymbol) \<mapsto> s)\<rparr>)))"

definition addStateNoCanonical :: "Sym \<Rightarrow> Sym \<Rightarrow> 'w hg \<Rightarrow> StateId \<times> 'w hg" where
  "addStateNoCanonical i out h = (let s = numStates h in (s, setNewStateLabels s i out (addState0 h)))"

definition addStatePair :: "LabelPair \<Rightarrow> 'w hg \<Rightarrow> StateId \<times> 'w hg" where
  "addStatePair io h =
     (if \<not> has (props h) kCanonicalLex then addStateNoCanonical (fst io) (snd io) h
      else case lstate h io of
             Some s \<Rightarrow> (s, h)
           | None \<Rightarrow> (let (s, h1) = addStateNoCanonical (fst io) (snd io) h
                      in (s, h1\<lparr>lstate := (lstate h1)(io \<mapsto> s)\<rparr>)))"

definition addStateId :: "StateId \<Rightarrow> 'w hg \<Rightarrow> 'w hg" where
  "addStateId s h = (if numStates h \<le> s then h\<lparr>numStates := inc32 s\<rparr> else h)"

definition addStateIdLabels :: "StateId \<Rightarrow> LabelPair \<Rightarrow> 'w hg \<Rightarrow> 'w hg" where
  "addStateIdLabels s l h = setLabelPairImpl s l (addStateId s h)"

definition addStateIdNew :: "StateId \<Rightarrow> Sym \<Rightarrow> Sym \<Rightarrow> 'w hg \<Rightarrow> 'w hg" where
  "addStateIdNew s i out h = setNewStateLabels s i out (addStateId s h)"

text \<open>\<open>removeLastState\<close>, with the unsigned wrap of \<open>--numStates_\<close> at zero.\<close>

definition removeLastState :: "'w hg \<Rightarrow> 'w hg" where
  "removeLastState h = h\<lparr>numStates := (if numStates h = 0 then kNoState else numStates h - 1)\<rparr>"

definition setStart :: "StateId \<Rightarrow> 'w hg \<Rightarrow> 'w hg" where
  "setStart s h = h\<lparr>start_state := s\<rparr>"

definition setFinal :: "StateId \<Rightarrow> 'w hg \<Rightarrow> 'w hg" where
  "setFinal s h = h\<lparr>final_state := s\<rparr>"

definition ensureStart :: "'w hg \<Rightarrow> StateId \<times> 'w hg" where
  "ensureStart h =
     (if start_state h = kNoState
      then let h1 = addState0 (h\<lparr>start_state := numStates h\<rparr>) in (start_state h1, h1)
      else (start_state h, h))"

definition ensureFinal :: "'w hg \<Rightarrow> StateId \<times> 'w hg" where
  "ensureFinal h =
     (if final_state h = kNoState
      then let (s, h1) = addState h in (s, setFinal s h1)
      else (final_state h, h))"

section \<open>Canonical label states\<close>

text \<open>
  \<open>forceCanonicalLexImpl\<close>: one pass over the labelled states, inserting each terminal's label
  pair (the output defaulting to the input) unless the pair is already there.
\<close>

definition canonical_step :: "'w hg \<Rightarrow> StateId \<Rightarrow> (LabelPair \<rightharpoonup> StateId) \<times> bool
    \<Rightarrow> (LabelPair \<rightharpoonup> StateId) \<times> bool" where
  "canonical_step h s = (\<lambda>(m, nodup).
     (let i = iLabelForState h ! s
      in if isTerminal i
         then (let (m', r, new) = map_update m (i, outputLabelOrElse h s i) s in (m', nodup \<and> new))
         else (m, nodup)))"

definition forceCanonicalLexImpl :: "'w hg \<Rightarrow> bool \<times> 'w hg" where
  "forceCanonicalLexImpl h =
     (let (m, nodup) = fold (canonical_step h) [0..<length (iLabelForState h)] (lstate h, True)
      in (nodup, h\<lparr>lstate := m, canonicalLexIsCanonical := nodup\<rparr>))"

definition forceCanonicalLex :: "'w hg \<Rightarrow> bool \<times> 'w hg" where
  "forceCanonicalLex h = forceCanonicalLexImpl (setProp kCanonicalLex h)"

definition ensureCanonicalLex :: "'w hg \<Rightarrow> bool \<times> 'w hg" where
  "ensureCanonicalLex h =
     (if has (props h) kCanonicalLex then (canonicalLexIsCanonical h, h)
      else forceCanonicalLexImpl (setProp kCanonicalLex h))"

definition clearCanonicalLex :: "'w hg \<Rightarrow> 'w hg" where
  "clearCanonicalLex h = (clearProp kCanonicalLex h)\<lparr>lstate := Map.empty\<rparr>"

definition rebuildCanonicalLex :: "'w hg \<Rightarrow> bool \<times> 'w hg" where
  "rebuildCanonicalLex h =
     (if has (props h) kCanonicalLex then forceCanonicalLexImpl h
      else (False, h\<lparr>lstate := Map.empty\<rparr>))"

definition canonicalExistingStateForLabelPair :: "'w hg \<Rightarrow> LabelPair \<Rightarrow> StateId" where
  "canonicalExistingStateForLabelPair h io = map_getOrElse (lstate h) io kNoState"

section \<open>Label lemmas\<close>

named_theorems hg_field_simps \<open>fields that an operation leaves unchanged\<close>

lemma props_setProp [simp]: "props (setProp p h) = props h OR p"
  by (simp add: setProp_def)

lemma props_clearProp [simp]: "props (clearProp p h) = props h AND NOT p"
  by (simp add: clearProp_def)

lemma fields_setProp [simp]:
  "arc_heap (setProp p h) = arc_heap h" "next_arc (setProp p h) = next_arc h"
  "start_state (setProp p h) = start_state h" "final_state (setProp p h) = final_state h"
  "numStates (setProp p h) = numStates h" "lstate (setProp p h) = lstate h"
  "fsmChecked (setProp p h) = fsmChecked h" "pVocab (setProp p h) = pVocab h"
  "iLabelForState (setProp p h) = iLabelForState h" "oLabelForState (setProp p h) = oLabelForState h"
  "inArcsPerState (setProp p h) = inArcsPerState h" "outArcsPerState (setProp p h) = outArcsPerState h"
  by (simp_all add: setProp_def)

lemma fields_clearProp [simp]:
  "arc_heap (clearProp p h) = arc_heap h" "next_arc (clearProp p h) = next_arc h"
  "start_state (clearProp p h) = start_state h" "final_state (clearProp p h) = final_state h"
  "numStates (clearProp p h) = numStates h" "lstate (clearProp p h) = lstate h"
  "fsmChecked (clearProp p h) = fsmChecked h" "pVocab (clearProp p h) = pVocab h"
  "iLabelForState (clearProp p h) = iLabelForState h" "oLabelForState (clearProp p h) = oLabelForState h"
  "inArcsPerState (clearProp p h) = inArcsPerState h" "outArcsPerState (clearProp p h) = outArcsPerState h"
  by (simp_all add: clearProp_def)

lemma fields_notifyLabelImpl [simp]:
  "arc_heap (notifyLabelImpl h) = arc_heap h" "next_arc (notifyLabelImpl h) = next_arc h"
  "start_state (notifyLabelImpl h) = start_state h" "final_state (notifyLabelImpl h) = final_state h"
  "numStates (notifyLabelImpl h) = numStates h" "lstate (notifyLabelImpl h) = lstate h"
  "iLabelForState (notifyLabelImpl h) = iLabelForState h"
  "oLabelForState (notifyLabelImpl h) = oLabelForState h"
  "inArcsPerState (notifyLabelImpl h) = inArcsPerState h"
  "outArcsPerState (notifyLabelImpl h) = outArcsPerState h"
  by (simp_all add: notifyLabelImpl_def)

lemma isValid_iff_neq: "isValid x \<longleftrightarrow> x \<noteq> NoSymbol"
  by (rule isValid_NoSymbol)

lemma getOrElse_setLabel [vec_simps]:
  "s < kNoState \<Longrightarrow> getOrElse (setLabel l s x) t NoSymbol = (if t = s then x else getOrElse l t NoSymbol)"
  by (auto simp: setLabel_def isValid_iff_neq getOrElse_update getOrElse_resize)
    (auto simp: getOrElse_def)

lemma length_setLabel: "s < kNoState \<Longrightarrow> length (setLabel l s x) \<le> max (length l) (Suc s)"
  by (auto simp: setLabel_def)

text \<open>The reading functions of \<open>MutableHypergraphLabels\<close> agree with the label pair.\<close>

lemma outputLabel_labelPair: "labelPair h s = (inputLabel h s, outputLabel h s)"
  by (simp add: labelPair_def outputLabel_def outputLabelOrElse_def Let_def)

lemma outputLabel_effective: "outputLabel h s = effectiveOutput (labelPairOptionalOutput h s)"
  by (simp add: outputLabel_def effectiveOutput_def labelPairOptionalOutput_def Let_def)

lemma inputLabel_setInputLabelImpl:
  "s < kNoState \<Longrightarrow> inputLabel (setInputLabelImpl s x h) t = (if t = s then x else inputLabel h t)"
  by (simp add: inputLabel_def setInputLabelImpl_def getOrElse_setLabel)

lemma outputLabelBare_setOutputLabelImpl:
  "s < kNoState \<Longrightarrow>
     outputLabelBare (setOutputLabelImpl s x h) t = (if t = s then x else outputLabelBare h t)"
  by (auto simp: outputLabelBare_def setOutputLabelImpl_def isValid_iff_neq getOrElse_update
      getOrElse_resize) (auto simp: getOrElse_def)

lemma outputLabel_bare:
  "outputLabel h s = (if outputLabelBare h s = NoSymbol then inputLabel h s else outputLabelBare h s)"
  by (simp add: outputLabel_def outputLabelBare_def isValid_iff_neq Let_def)

lemma setInputLabelImpl_other [simp]:
  "outputLabelBare (setInputLabelImpl s x h) t = outputLabelBare h t"
  "numStates (setInputLabelImpl s x h) = numStates h" "lstate (setInputLabelImpl s x h) = lstate h"
  "props (setInputLabelImpl s x h) = props h"
  "oLabelForState (setInputLabelImpl s x h) = oLabelForState h"
  by (simp_all add: setInputLabelImpl_def outputLabelBare_def)

lemma setOutputLabelImpl_other [simp]:
  "inputLabel (setOutputLabelImpl s x h) t = inputLabel h t"
  "numStates (setOutputLabelImpl s x h) = numStates h" "lstate (setOutputLabelImpl s x h) = lstate h"
  "props (setOutputLabelImpl s x h) = props h"
  "iLabelForState (setOutputLabelImpl s x h) = iLabelForState h"
  by (simp_all add: setOutputLabelImpl_def inputLabel_def)

lemma flags_label_reads [simp]:
  "inputLabel (setProp p h) t = inputLabel h t" "outputLabelBare (setProp p h) t = outputLabelBare h t"
  "inputLabel (clearProp p h) t = inputLabel h t" "outputLabelBare (clearProp p h) t = outputLabelBare h t"
  "inputLabel (notifyLabelImpl h) t = inputLabel h t"
  "outputLabelBare (notifyLabelImpl h) t = outputLabelBare h t"
  "outputLabelOrElse (setProp p h) t x = outputLabelOrElse h t x"
  "outputLabelOrElse (clearProp p h) t x = outputLabelOrElse h t x"
  by (simp_all add: inputLabel_def outputLabelBare_def outputLabelOrElse_def)

text \<open>The label readers depend on the label vectors only.\<close>

lemma label_readers_frame [simp]:
  "inputLabel (h\<lparr>lstate := m\<rparr>) t = inputLabel h t"
  "outputLabelBare (h\<lparr>lstate := m\<rparr>) t = outputLabelBare h t"
  "outputLabel (h\<lparr>lstate := m\<rparr>) t = outputLabel h t"
  "inputLabel (h\<lparr>numStates := n\<rparr>) t = inputLabel h t"
  "outputLabelBare (h\<lparr>numStates := n\<rparr>) t = outputLabelBare h t"
  "outputLabel (h\<lparr>numStates := n\<rparr>) t = outputLabel h t"
  by (simp_all add: inputLabel_def outputLabelBare_def outputLabel_def [of _ t] Let_def)

lemma addState0_reads [simp]:
  "inputLabel (addState0 h) t = inputLabel h t" "outputLabelBare (addState0 h) t = outputLabelBare h t"
  "numStates (addState0 h) = inc32 (numStates h)" "lstate (addState0 h) = lstate h"
  by (simp_all add: addState0_def inputLabel_def outputLabelBare_def)

lemma inputLabel_setNewStateLabels:
  "s < kNoState \<Longrightarrow> inputLabel (setNewStateLabels s i out h) t = (if t = s then i else inputLabel h t)"
  by (simp add: setNewStateLabels_def Let_def inputLabel_setInputLabelImpl)

lemma outputLabelBare_setNewStateLabels:
  "s < kNoState \<Longrightarrow> outputLabelBare (setNewStateLabels s i out h) t =
     (if t = s \<and> i \<noteq> out \<and> out \<noteq> NoSymbol then out else outputLabelBare h t)"
  by (simp add: setNewStateLabels_def Let_def outputLabelBare_setOutputLabelImpl)

lemma numStates_setNewStateLabels [simp]: "numStates (setNewStateLabels s i out h) = numStates h"
  by (simp add: setNewStateLabels_def Let_def)

lemma lstate_setNewStateLabels [simp]: "lstate (setNewStateLabels s i out h) = lstate h"
  by (simp add: setNewStateLabels_def Let_def)

section \<open>Properties of labels and states\<close>

text \<open>
  After \<open>setLabelPair(s, io)\<close> on any existing or new state id, the pair read back at \<open>s\<close> is
  the input and the effective output of \<open>io\<close>, and every other state reads as before, even though
  the two vectors grow independently.
\<close>

lemma labelPair_setLabelPair:
  assumes "s < kNoState"
  shows "labelPair (setLabelPair s io h) t =
           (if t = s then (fst io, effectiveOutput io) else labelPair h t)"
  using assms
  by (auto simp: setLabelPair_def setLabelPairImpl_def labelPair_def inputLabel_def
      outputLabelOrElse_def getOrElse_setLabel label_input_def label_output_def
      effectiveOutput_def Let_def)

text \<open>
  The invariant of the label vectors and the canonical-label cache: no label lies beyond the
  states, and every cached pair names a state that carries it.
\<close>

definition labels_wf :: "'w hg \<Rightarrow> bool" where
  "labels_wf h \<longleftrightarrow>
     length (iLabelForState h) \<le> numStates h \<and> length (oLabelForState h) \<le> numStates h \<and>
     numStates h \<le> kNoState"

definition lstate_wf :: "'w hg \<Rightarrow> bool" where
  "lstate_wf h \<longleftrightarrow>
     (\<forall>io s. lstate h io = Some s \<longrightarrow>
        s < numStates h \<and> inputLabel h s = fst io \<and> outputLabel h s = effectiveOutput io)"

lemma lstate_wfD:
  "lstate_wf h \<Longrightarrow> lstate h io = Some s \<Longrightarrow>
     s < numStates h \<and> inputLabel h s = fst io \<and> outputLabel h s = effectiveOutput io"
  unfolding lstate_wf_def by blast

lemma labels_wf_unlabelled:
  "labels_wf h \<Longrightarrow> numStates h \<le> s \<Longrightarrow> inputLabel h s = NoSymbol \<and> outputLabelBare h s = NoSymbol"
  by (auto simp: labels_wf_def inputLabel_def outputLabelBare_def getOrElse_def)

lemma addStateNoCanonical_labels:
  assumes "labels_wf h" and "numStates h < kNoState" and "addStateNoCanonical i out h = (s, h')"
  shows "s = numStates h \<and> numStates h' = Suc s \<and> lstate h' = lstate h \<and>
    inputLabel h' s = i \<and> outputLabel h' s = effectiveOutput (i, out) \<and>
    (\<forall>t. t \<noteq> s \<longrightarrow> inputLabel h' t = inputLabel h t \<and> outputLabelBare h' t = outputLabelBare h t)"
proof -
  have eq: "s = numStates h" "h' = setNewStateLabels s i out (addState0 h)"
    using assms(3) by (auto simp: addStateNoCanonical_def Let_def)
  have b: "outputLabelBare h s = NoSymbol" using labels_wf_unlabelled [OF assms(1)] eq by simp
  show ?thesis using assms(2) eq b
    by (auto simp: inputLabel_setNewStateLabels outputLabelBare_setNewStateLabels outputLabel_bare
        effectiveOutput_def isValid_iff_neq)
qed

lemma addStateNoCanonical_lengths:
  assumes "labels_wf h" and "numStates h < kNoState" and "addStateNoCanonical i out h = (s, h')"
  shows "labels_wf h'"
proof -
  have "length (setLabel (iLabelForState h) (numStates h) i) \<le> Suc (numStates h)"
    using length_setLabel [OF assms(2), of "iLabelForState h" i] assms(1) by (simp add: labels_wf_def)
  then show ?thesis using assms
    by (auto simp: labels_wf_def addStateNoCanonical_def setNewStateLabels_def setInputLabelImpl_def
        setOutputLabelImpl_def addState0_def Let_def)
qed

lemma lstate_wf_extend:
  assumes wf: "lstate_wf h" and l: "lstate h' = lstate h" and n: "numStates h \<le> numStates h'"
    and same: "\<And>t. t < numStates h \<Longrightarrow> inputLabel h' t = inputLabel h t \<and> outputLabelBare h' t = outputLabelBare h t"
  shows "lstate_wf h'"
proof -
  have "s < numStates h' \<and> inputLabel h' s = fst io \<and> outputLabel h' s = effectiveOutput io"
    if "lstate h io = Some s" for io s
  proof -
    have w: "s < numStates h" "inputLabel h s = fst io" "outputLabel h s = effectiveOutput io"
      using lstate_wfD [OF wf that] by auto
    then show ?thesis using n same [OF w(1)] by (auto simp: outputLabel_bare split: if_splits)
  qed
  then show ?thesis by (simp add: lstate_wf_def l)
qed

lemma lstate_wf_insert:
  assumes "lstate_wf h" and "s < numStates h" and "inputLabel h s = fst io"
    and "outputLabel h s = effectiveOutput io"
  shows "lstate_wf (h\<lparr>lstate := (lstate h)(io \<mapsto> s)\<rparr>)"
  using assms by (auto simp: lstate_wf_def)

lemma addStatePair_wf:
  assumes "labels_wf h" and "lstate_wf h" and "numStates h < kNoState"
    and "addStatePair io h = (s, h')"
  shows "labels_wf h' \<and> lstate_wf h' \<and> s < numStates h' \<and> labelPair h' s = (fst io, effectiveOutput io)"
proof -
  obtain s1 h1 where a: "addStateNoCanonical (fst io) (snd io) h = (s1, h1)" by force
  note l = addStateNoCanonical_labels [OF assms(1,3) a]
  note w1 = addStateNoCanonical_lengths [OF assms(1,3) a]
  have lw1: "lstate_wf h1" by (rule lstate_wf_extend [OF assms(2)]) (use l in auto)
  have ok: "s1 < numStates h1" "inputLabel h1 s1 = fst io" "outputLabel h1 s1 = effectiveOutput io"
    using l by auto
  show ?thesis
  proof (cases "has (props h) kCanonicalLex \<and> lstate h io \<noteq> None")
    case True
    then show ?thesis using assms
      by (auto simp: addStatePair_def outputLabel_labelPair dest: lstate_wfD)
  next
    case False
    let ?h2 = "h1\<lparr>lstate := (lstate h1)(io \<mapsto> s1)\<rparr>"
    have w2: "labels_wf ?h2" using w1 by (simp add: labels_wf_def)
    have l2: "lstate_wf ?h2" by (rule lstate_wf_insert [OF lw1 ok])
    from False assms(4) a have "s = s1 \<and> (h' = h1 \<or> h' = ?h2)"
      by (auto simp: addStatePair_def split: if_splits)
    then show ?thesis using w1 lw1 w2 l2 ok by (auto simp: outputLabel_labelPair)
  qed
qed

text \<open>
  Canonical label states. While the label cache is sound, \<open>addState(io)\<close> returns
  a state that carries the requested label pair and keeps the cache sound; under
  \<open>kCanonicalLex\<close> asking again returns the same state and changes nothing.
\<close>

theorem addStatePair_canonical:
  assumes "labels_wf h" and "lstate_wf h" and "numStates h < kNoState"
    and "addStatePair io h = (s, h')"
  shows "labels_wf h' \<and> lstate_wf h' \<and> s < numStates h' \<and>
    labelPair h' s = (fst io, effectiveOutput io) \<and>
    (has (props h) kCanonicalLex \<longrightarrow> addStatePair io h' = (s, h'))"
proof -
  have p: "has (props h') kCanonicalLex \<and> lstate h' io = Some s" if c: "has (props h) kCanonicalLex"
  proof (cases "lstate h io")
    case None
    then show ?thesis using assms(4) c
      by (auto simp: addStatePair_def addStateNoCanonical_def setNewStateLabels_def addState0_def
          notifyLabelImpl_def Let_def flag_simps split: if_splits)
  next
    case (Some t)
    then show ?thesis using assms(4) c by (simp add: addStatePair_def)
  qed
  then have "addStatePair io h' = (s, h')" if "has (props h) kCanonicalLex"
    using that by (simp add: addStatePair_def)
  then show ?thesis using addStatePair_wf [OF assms] by simp
qed

theorem addStatePair_canonical_witness:
  "\<exists>h'. addStatePair (terminal 5, terminal 6) (setProp kCanonicalLex (hg_zero :: nat hg)) = (0, h') \<and>
     labelPair h' 0 = (terminal 5, effectiveOutput (terminal 5, terminal 6)) \<and>
     addStatePair (terminal 5, terminal 6) h' = (0, h')"
proof -
  let ?h = "setProp kCanonicalLex (hg_zero :: nat hg)"
  obtain s h' where a: "addStatePair (terminal 5, terminal 6) ?h = (s, h')" by force
  have w: "labels_wf ?h" "lstate_wf ?h" "numStates ?h < kNoState"
    by (simp_all add: labels_wf_def lstate_wf_def hg_zero_def kNoState_def setProp_def)
  have c: "has (props ?h) kCanonicalLex" by (simp add: flag_simps)
  have "s = 0" using a c
    by (simp add: addStatePair_def addStateNoCanonical_def hg_zero_def setProp_def Let_def
        split: if_splits)
  with a addStatePair_canonical [OF w a] c show ?thesis by auto
qed

text \<open>The pass of \<open>forceCanonicalLexImpl\<close> over the first \<open>n\<close> labels.\<close>

definition terminal_key :: "'w hg \<Rightarrow> StateId \<Rightarrow> bool" where
  "terminal_key h s \<longleftrightarrow> isTerminal (iLabelForState h ! s)"

definition canonical_key :: "'w hg \<Rightarrow> StateId \<Rightarrow> LabelPair" where
  "canonical_key h s = (iLabelForState h ! s, outputLabelOrElse h s (iLabelForState h ! s))"

lemma canonical_key_labelPair: "s < length (iLabelForState h) \<Longrightarrow> canonical_key h s = labelPair h s"
  by (simp add: canonical_key_def labelPair_def inputLabel_def getOrElse_def Let_def)

lemma canonical_step_first: "canonical_step h = first_step (terminal_key h) (canonical_key h)"
  by (auto simp: fun_eq_iff canonical_step_def first_step_def terminal_key_def canonical_key_def
      map_update_def Let_def split: option.splits)

text \<open>
  Property C27 (building the canonical-label cache). Run on an empty cache,
  \<open>forceCanonicalLex\<close> maps every label pair of a terminal-labelled state to the first such
  state and nothing else, and returns true exactly when no two terminal-labelled states share
  their label pair.
\<close>

theorem forceCanonicalLex_correct:
  assumes "lstate h = Map.empty" and "forceCanonicalLex h = (nodup, h')"
  shows "(\<forall>io s. lstate h' io = Some s \<longleftrightarrow>
            s < length (iLabelForState h) \<and> hasTerminalLabel h s \<and> labelPair h s = io \<and>
            (\<forall>t < s. hasTerminalLabel h t \<longrightarrow> labelPair h t \<noteq> io)) \<and>
         (nodup \<longleftrightarrow>
            inj_on (labelPair h) {s. s < length (iLabelForState h) \<and> hasTerminalLabel h s})"
proof -
  let ?n = "length (iLabelForState h)"
  have st: "canonical_step (setProp kCanonicalLex h) = canonical_step h"
    by (simp add: canonical_step_def Let_def fun_eq_iff)
  have T: "terminal_key h s = hasTerminalLabel h s" "canonical_key h s = labelPair h s" if "s < ?n" for s
    using that by (simp_all add: terminal_key_def hasTerminalLabel_def inputLabel_def getOrElse_def
        canonical_key_labelPair)
  obtain m where f: "fold (canonical_step h) [0..<?n] (Map.empty, True) = (m, nodup)"
    and m: "lstate h' = m"
    using assms by (auto simp: forceCanonicalLex_def forceCanonicalLexImpl_def st split: prod.splits)
  have S: "{s. s < ?n \<and> terminal_key h s} = {s. s < ?n \<and> hasTerminalLabel h s}" using T by auto
  have "inj_on (canonical_key h) {s. s < ?n \<and> hasTerminalLabel h s}
      \<longleftrightarrow> inj_on (labelPair h) {s. s < ?n \<and> hasTerminalLabel h s}"
    by (rule inj_on_cong) (simp add: T)
  moreover note first_pass [OF f [unfolded canonical_step_first], unfolded S]
  moreover have "first_of (terminal_key h) (canonical_key h) ?n io s \<longleftrightarrow>
      (s < ?n \<and> hasTerminalLabel h s \<and> labelPair h s = io \<and>
      (\<forall>t < s. hasTerminalLabel h t \<longrightarrow> labelPair h t \<noteq> io))" for s io
    using T by (auto simp: first_of_def)
  ultimately show ?thesis unfolding m by simp
qed

theorem forceCanonicalLex_correct_witness:
  "\<exists>h'. forceCanonicalLex (hg_zero\<lparr>iLabelForState := [terminal 5, terminal 5]\<rparr> :: nat hg) = (False, h') \<and>
     lstate h' (terminal 5, terminal 5) = Some 0"
proof -
  let ?h = "hg_zero\<lparr>iLabelForState := [terminal 5, terminal 5]\<rparr> :: nat hg"
  obtain nd h' where a: "forceCanonicalLex ?h = (nd, h')" by force
  have e: "lstate ?h = Map.empty" by (simp add: hg_zero_def)
  have T: "hasTerminalLabel ?h 0" "hasTerminalLabel ?h 1"
    "labelPair ?h 0 = (terminal 5, terminal 5)" "labelPair ?h 1 = (terminal 5, terminal 5)"
    by (simp_all add: hasTerminalLabel_def inputLabel_def getOrElse_def labelPair_def hg_zero_def
        outputLabelOrElse_def sym_op_defs sym_consts Let_def)
  note c = forceCanonicalLex_correct [OF e a]
  have "lstate h' (terminal 5, terminal 5) = Some 0" using c T by simp
  moreover have "\<not> inj_on (labelPair ?h) {s. s < length (iLabelForState ?h) \<and> hasTerminalLabel ?h s}"
  proof
    assume "inj_on (labelPair ?h) {s. s < length (iLabelForState ?h) \<and> hasTerminalLabel ?h s}"
    from inj_onD [OF this, of 0 1] T show False by simp
  qed
  ultimately show ?thesis using c a by auto
qed

text \<open>
  Stale cache. \<open>setInputLabel\<close> drops \<open>kCanonicalLex\<close> but not the cache, and
  \<open>ensureCanonicalLex\<close> rebuilds on top of the old cache. So a state labelled \<open>a\<close>, then
  relabelled \<open>b\<close>, is afterwards returned for \<open>a\<close>: \<open>addState(a)\<close> answers a state
  whose input label is \<open>b\<close>.
\<close>

theorem stale_canonical_cache:
  assumes "isTerminal a" and "isTerminal b" and "a \<noteq> b"
  shows "let h0 = setProp kCanonicalLex (hg_zero :: 'w hg);
             (s1, h1) = addStateSym a h0;
             h2 = setInputLabel s1 b h1;
             (nodup, h3) = ensureCanonicalLex h2;
             (s2, h4) = addStateSym a h3
         in nodup \<and> s2 = s1 \<and> inputLabel h4 s2 = b \<and> inputLabel h4 s2 \<noteq> a"
proof -
  have v: "a \<noteq> NoSymbol" "b \<noteq> NoSymbol" using assms by auto
  have z: "(0::nat) < kNoState" by (simp add: kNoState_def)
  let ?h0 = "setProp kCanonicalLex (hg_zero :: 'w hg)"
  define h1 where "h1 = snd (addStateSym a ?h0)"
  have a1: "addStateSym a ?h0 = (0, h1)"
    by (simp add: h1_def addStateSym_def addStateImpl_def hg_zero_def setProp_def Let_def
        split: prod.splits)
  have h1: "iLabelForState h1 = [a]" "oLabelForState h1 = []" "lstate h1 = [(a, NoSymbol) \<mapsto> 0]"
    using v z assms(1)
    by (simp_all add: h1_def addStateSym_def addStateImpl_def hg_zero_def flag_simps Let_def
        setInputLabelImpl_def setLabel_def isValid_iff_neq vec_resize_def addState0_def)
  define h2 where "h2 = setInputLabel 0 b h1"
  have h2: "iLabelForState h2 = [b]" "oLabelForState h2 = []" "lstate h2 = [(a, NoSymbol) \<mapsto> 0]"
    "\<not> has (props h2) kCanonicalLex"
    using h1 by (simp_all add: h2_def setInputLabel_def setInputLabelImpl_def setLabel_def
        notifyLabelImpl_def flag_simps)
  define h3 where "h3 = snd (ensureCanonicalLex h2)"
  have h3: "ensureCanonicalLex h2 = (True, h3)" "iLabelForState h3 = [b]"
    "lstate h3 (a, NoSymbol) = Some 0" "has (props h3) kCanonicalLex"
    using h2 assms v
    by (simp_all add: h3_def ensureCanonicalLex_def forceCanonicalLexImpl_def canonical_step_def
        map_update_def outputLabelOrElse_def isValid_iff_neq flag_simps)
  have "addStateSym a h3 = (0, h3)" using h3 assms by (simp add: addStateSym_def)
  then show ?thesis using a1 h2_def h3 assms
    by (simp add: Let_def inputLabel_def getOrElse_def)
qed

theorem stale_canonical_cache_witness:
  "let h0 = setProp kCanonicalLex (hg_zero :: nat hg);
       (s1, h1) = addStateSym (terminal 5) h0;
       h2 = setInputLabel s1 (terminal 6) h1;
       (nodup, h3) = ensureCanonicalLex h2;
       (s2, h4) = addStateSym (terminal 5) h3
   in nodup \<and> s2 = s1 \<and> inputLabel h4 s2 = terminal 6 \<and> inputLabel h4 s2 \<noteq> terminal 5"
  by (rule stale_canonical_cache) (simp_all add: sym_op_defs sym_consts)

end
