(* ===== verification/Hg_Arcs.thy ===== *)
theory Hg_Arcs
  imports Hg_State
begin

text \<open>
  The arcs of \<open>MutableHypergraph\<close>: allocation, \<open>addArc\<close> and its variants, the visiting
  functions of \<open>IHypergraphForArcs.ipp\<close> and \<open>Visit.hpp\<close> (a visit is the list of handles
  in the order the visitor is called), and the operations that build, convert and drop the
  in-arc, out-arc and first-tail-out-arc indexes.

  The abstract content of a hypergraph is its arc heap; the indexes represent it. \<open>index_ok\<close>
  says that an index holds each live arc under each state as often as a weight function
  prescribes: once under its head for in-arcs, once under its first tail for first-tail out-arcs,
  once per occurrence among the tails for all out-arcs. The locale \<open>arc_index\<close> states what an
  insertion function owes to that contract, and the three insertion functions of the source
  interpret it.
\<close>

section \<open>Allocation\<close>

definition newArc :: "'w arc \<Rightarrow> 'w hg \<Rightarrow> ArcHandle \<times> 'w hg" where
  "newArc x h = (next_arc h,
     h\<lparr>arc_heap := (arc_heap h)(next_arc h \<mapsto> x), next_arc := Suc (next_arc h)\<rparr>)"

definition arcAt :: "'w hg \<Rightarrow> ArcHandle \<Rightarrow> 'w arc" where
  "arcAt h a = the (arc_heap h a)"

text \<open>\<open>delete arc\<close>.\<close>

definition deleteArc :: "ArcHandle \<Rightarrow> 'w hg \<Rightarrow> 'w hg" where
  "deleteArc a h = h\<lparr>arc_heap := (arc_heap h)(a := None)\<rparr>"

section \<open>Adding arcs\<close>

definition addArcIn :: "ArcHandle \<Rightarrow> 'w hg \<Rightarrow> 'w hg" where
  "addArcIn a h =
     h\<lparr>inArcsPerState := atExpand_push (inArcsPerState h) (arc_head (arcAt h a)) a\<rparr>"

definition addArcFirstTailOut :: "ArcHandle \<Rightarrow> 'w hg \<Rightarrow> 'w hg" where
  "addArcFirstTailOut a h =
     (let h1 = clearProp kSortedOutArcs h; tails = arc_tails (arcAt h1 a)
      in if tails = [] then h1
         else h1\<lparr>outArcsPerState := atExpand_push (outArcsPerState h1) (hd tails) a\<rparr>)"

definition addArcOut :: "ArcHandle \<Rightarrow> 'w hg \<Rightarrow> 'w hg" where
  "addArcOut a h =
     (let h1 = clearProp kSortedOutArcs h
      in h1\<lparr>outArcsPerState :=
             fold (\<lambda>t adj. atExpand_push adj t a) (arc_tails (arcAt h1 a)) (outArcsPerState h1)\<rparr>)"

definition addArc :: "ArcHandle \<Rightarrow> 'w hg \<Rightarrow> 'w hg" where
  "addArc a h =
     (let h1 = notifyArcImpl h;
          h2 = (if has (props h1) kStoreInArcs
                then h1\<lparr>inArcsPerState := atExpand_push (inArcsPerState h1) (arc_head (arcAt h1 a)) a\<rparr>
                else h1);
          tails = arc_tails (arcAt h2 a)
      in if has (props h2) kStoreFirstTailOutArcs
         then (let h3 = clearProp kSortedOutArcs h2
               in if tails = [] then h3
                  else h3\<lparr>outArcsPerState := atExpand_push (outArcsPerState h3) (hd tails) a\<rparr>)
         else if has (props h2) kStoreOutArcs
         then (let h3 = clearProp kSortedOutArcs h2
               in h3\<lparr>outArcsPerState :=
                      fold (\<lambda>t adj. atExpand_push adj t a) tails (outArcsPerState h3)\<rparr>)
         else h2)"

text \<open>\<open>addArcResize\<close> is \<open>addArc\<close> without the notifications.\<close>

definition addArcResize :: "ArcHandle \<Rightarrow> 'w hg \<Rightarrow> 'w hg" where
  "addArcResize a h =
     (let h1 = (if has (props h) kStoreInArcs
                then h\<lparr>inArcsPerState := atExpand_push (inArcsPerState h) (arc_head (arcAt h a)) a\<rparr>
                else h);
          tails = arc_tails (arcAt h1 a)
      in if has (props h1) kStoreFirstTailOutArcs
         then (if tails = [] then h1
               else h1\<lparr>outArcsPerState := atExpand_push (outArcsPerState h1) (hd tails) a\<rparr>)
         else if has (props h1) kStoreOutArcs
         then h1\<lparr>outArcsPerState :=
                  fold (\<lambda>t adj. atExpand_push adj t a) tails (outArcsPerState h1)\<rparr>
         else h1)"

definition addArcCreatingStates :: "ArcHandle \<Rightarrow> 'w hg \<Rightarrow> 'w hg" where
  "addArcCreatingStates a h =
     (let maxState = fold max (arc_tails (arcAt h a)) (arc_head (arcAt h a))
      in addArc a (h\<lparr>numStates := max (numStates h) (inc32 maxState)\<rparr>))"

definition addArcs :: "ArcHandle list \<Rightarrow> 'w hg \<Rightarrow> 'w hg" where
  "addArcs arcs h = fold addArc arcs h"

definition addedTail :: "ArcHandle \<Rightarrow> StateId \<Rightarrow> 'w hg \<Rightarrow> 'w hg" where
  "addedTail a tail h =
     (if has (props h) kStoreOutArcs
      then h\<lparr>outArcsPerState := atExpand_push (outArcsPerState h) tail a\<rparr> else h)"

text \<open>The builders of \<open>IMutableHypergraph\<close>; \<open>one\<close> is \<open>Weight::one()\<close>.\<close>

definition addNewArc :: "'w arc \<Rightarrow> 'w hg \<Rightarrow> ArcHandle \<times> 'w hg" where
  "addNewArc x h = (let (a, h1) = newArc x h in (a, addArc a h1))"

definition addArcFsm :: "StateId \<Rightarrow> StateId \<Rightarrow> StateId \<Rightarrow> 'w \<Rightarrow> 'w hg \<Rightarrow> ArcHandle \<times> 'w hg" where
  "addArcFsm fromState toState labelState weight h =
     addNewArc (new_arc_fsm fromState labelState weight toState) h"

definition addArcGraph :: "StateId \<Rightarrow> StateId \<Rightarrow> 'w \<Rightarrow> 'w hg \<Rightarrow> ArcHandle \<times> 'w hg" where
  "addArcGraph fromState toState weight h = addNewArc (new_arc_tail toState weight fromState) h"

definition addArcFsa :: "StateId \<Rightarrow> StateId \<Rightarrow> Sym \<Rightarrow> 'w \<Rightarrow> 'w hg \<Rightarrow> ArcHandle \<times> 'w hg" where
  "addArcFsa from' to' label w h =
     (let (l, h1) = addStateSym label h in addNewArc (new_arc_fsm from' l w to') h1)"

definition addArcEpsilon :: "StateId \<Rightarrow> StateId \<Rightarrow> 'w \<Rightarrow> 'w hg \<Rightarrow> ArcHandle \<times> 'w hg" where
  "addArcEpsilon from' to' w h =
     (let (l, h1) = addStateSym EPSILON_ID h in addNewArc (new_arc_fsm from' l w to') h1)"

definition addArcGraphEpsilon :: "StateId \<Rightarrow> StateId \<Rightarrow> 'w \<Rightarrow> 'w hg \<Rightarrow> ArcHandle \<times> 'w hg" where
  "addArcGraphEpsilon from' to' w h = addNewArc (new_arc_tail from' w to') h"

definition addArcFst :: "StateId \<Rightarrow> StateId \<Rightarrow> LabelPair \<Rightarrow> 'w \<Rightarrow> 'w hg \<Rightarrow> ArcHandle \<times> 'w hg" where
  "addArcFst from' to' inout w h =
     (let (l, h1) = addStatePair inout h in addNewArc (new_arc_fsm from' l w to') h1)"

definition addGraphEpsilon :: "'w \<Rightarrow> StateId \<Rightarrow> StateId \<Rightarrow> 'w hg \<Rightarrow> 'w hg" where
  "addGraphEpsilon one from' to' h = snd (addNewArc (new_arc_head_tail one to' from') h)"

section \<open>Reading the indexes\<close>

definition inArcsOf :: "'w hg \<Rightarrow> StateId \<Rightarrow> ArcHandle list" where
  "inArcsOf h s = getOrElse (inArcsPerState h) s []"

definition outArcsOf :: "'w hg \<Rightarrow> StateId \<Rightarrow> ArcHandle list" where
  "outArcsOf h s = getOrElse (outArcsPerState h) s []"

definition numInArcs :: "'w hg \<Rightarrow> StateId \<Rightarrow> nat" where
  "numInArcs h s = (if s < length (inArcsPerState h) then length (inArcsPerState h ! s) else 0)"

definition numOutArcs :: "'w hg \<Rightarrow> StateId \<Rightarrow> nat" where
  "numOutArcs h s = (if s < length (outArcsPerState h) then length (outArcsPerState h ! s) else 0)"

definition inArc :: "'w hg \<Rightarrow> StateId \<Rightarrow> nat \<Rightarrow> ArcHandle" where
  "inArc h s i = inArcsPerState h ! s ! i"

definition outArc :: "'w hg \<Rightarrow> StateId \<Rightarrow> nat \<Rightarrow> ArcHandle" where
  "outArc h s i = outArcsPerState h ! s ! i"

definition outAdjStates :: "'w hg \<Rightarrow> StateId \<Rightarrow> StateId list" where
  "outAdjStates h s = map (\<lambda>a. arc_head (arcAt h a)) (outArcsOf h s)"

section \<open>Graph and fsm properties\<close>

text \<open>
  \<open>isGraphArcImpl\<close> (\<open>IsGraphArc.ipp\<close>). The two scanning loops share their body; a scan ends
  at the end of the tails, at a tail that is not a terminal special, or just behind a lexical one.
  The flags \<open>fsm\<close> and \<open>oneLexical\<close> are in-out parameters.
\<close>

datatype graph_scan = ScanEnd | ScanBad | ScanLex "StateId list"

fun graphScan :: "'w hg \<Rightarrow> StateId list \<Rightarrow> graph_scan" where
  "graphScan h [] = ScanEnd"
| "graphScan h (tail # rest) =
     (let s = inputLabel h tail
      in if isLexical s then ScanLex rest
         else if \<not> isSpecialTerminal s then ScanBad
         else if elseHasLexicalOutputLabel h tail then ScanLex rest
         else graphScan h rest)"

definition isGraphArcImpl :: "'w hg \<Rightarrow> 'w arc \<Rightarrow> bool \<times> bool \<Rightarrow> bool \<times> bool \<times> bool" where
  "isGraphArcImpl h a = (\<lambda>(fsm, oneLexical).
     (let tails = arc_tails a; N = length tails
      in if isTerminal (inputLabel h (arc_head a)) then (False, False, False)
         else if N = 2
         then (let term1 = isTerminal (inputLabel h (tails ! 1))
               in if isTerminal (inputLabel h (tails ! 0))
                  then (False, False, if term1 then False else oneLexical)
                  else if \<not> term1 then (False, False, False)
                  else (True, fsm, oneLexical))
         else if N = 0 then (False, False, oneLexical)
         else (let firstLabeled = isTerminal (inputLabel h (tails ! 0))
               in case graphScan h (if firstLabeled then tails else tl tails) of
                    ScanEnd \<Rightarrow> (True, False, oneLexical)
                  | ScanBad \<Rightarrow> (False, False, False)
                  | ScanLex rest \<Rightarrow>
                      (case graphScan h rest of
                         ScanEnd \<Rightarrow> (True, False, oneLexical)
                       | ScanBad \<Rightarrow> (False, False, False)
                       | ScanLex rest2 \<Rightarrow>
                           (list_all (\<lambda>t. isTerminal (inputLabel h t)) rest2, False, False)))))"

definition isFsmArc :: "'w hg \<Rightarrow> 'w arc \<Rightarrow> bool" where
  "isFsmArc h a \<longleftrightarrow> (let tails = arc_tails a in
     length tails = 2 \<and> \<not> hasTerminalLabel h (tails ! 0) \<and> hasTerminalLabel h (tails ! 1))"

text \<open>
  The loops over one state and over all states (\<open>Visit.hpp\<close>, \<open>IHypergraphForArcs.ipp\<close>) that
  read an index directly, as the list of handles visited.
\<close>

definition forArcsIn :: "'w hg \<Rightarrow> ArcHandle list" where
  "forArcsIn h = concat (map (inArcsOf h) [0..<numStates h])"

definition forArcsOutEveryTail :: "'w hg \<Rightarrow> ArcHandle list" where
  "forArcsOutEveryTail h = concat (map (outArcsOf h) [0..<numStates h])"

definition arcsAtLeastOnce :: "'w hg \<Rightarrow> ArcHandle list" where
  "arcsAtLeastOnce h = (if storesInArcs h then forArcsIn h else forArcsOutEveryTail h)"

text \<open>\<open>IHypergraph::isGraphCheck\<close>: the visit stops at the first arc that is not a graph arc.\<close>

fun checkGraphArcs :: "'w hg \<Rightarrow> ArcHandle list \<Rightarrow> bool \<times> bool \<Rightarrow> bool \<times> bool \<times> bool" where
  "checkGraphArcs h [] (fsm, one) = (True, fsm, one)"
| "checkGraphArcs h (a # as) (fsm, one) =
     (let (r, fsm1, one1) = isGraphArcImpl h (arcAt h a) (fsm, one)
      in if r then checkGraphArcs h as (fsm1, one1) else (False, fsm1, one1))"

definition isGraphCheck :: "'w hg \<Rightarrow> bool \<times> bool \<times> bool" where
  "isGraphCheck h =
     (let mustBeCfg = start_state h = kNoState \<and> final_state h \<noteq> kNoState;
          (r, fsm, one) = checkGraphArcs h (arcsAtLeastOnce h) (True, True)
      in if mustBeCfg then (False, False, one) else (r, fsm, one))"

definition computeFsmGraphProperty :: "'w hg \<Rightarrow> 'w hg" where
  "computeFsmGraphProperty h =
     (if fsmChecked h then h
      else let h1 = (clearProp kFsmProperties h)\<lparr>fsmChecked := True\<rparr>;
               (g, f, one) = isGraphCheck h1;
               h2 = (if f then setProp kFsm h1 else h1);
               h3 = (if g then setProp kGraph h2 else h2)
           in if one then setProp kOneLexical h3 else h3)"

definition properties :: "'w hg \<Rightarrow> Properties" where
  "properties h = props (computeFsmGraphProperty h)"

definition isFsm :: "'w hg \<Rightarrow> bool" where
  "isFsm h \<longleftrightarrow> has (properties h) kFsm"

definition isGraph :: "'w hg \<Rightarrow> bool" where
  "isGraph h \<longleftrightarrow> has (properties h) kGraph"

definition hasAtMostOneLexicalTail :: "'w hg \<Rightarrow> bool" where
  "hasAtMostOneLexicalTail h \<longleftrightarrow> has (properties h) kOneLexical"

definition checkGraph :: "'w hg \<Rightarrow> bool \<times> 'w hg" where
  "checkGraph h = (let h1 = computeFsmGraphProperty (h\<lparr>fsmChecked := False\<rparr>)
                   in (has (props h1) kGraph, h1))"

definition setFsmGraphOneLexical :: "bool \<Rightarrow> bool \<Rightarrow> bool \<Rightarrow> 'w hg \<Rightarrow> 'w hg" where
  "setFsmGraphOneLexical fsm graph one h =
     (setPropertyBit (setPropertyBit (setPropertyBit h kGraph graph) kFsm fsm) kOneLexical one)
       \<lparr>fsmChecked := True\<rparr>"

text \<open>
  \<open>setProperties\<close>, and the free-access \<open>addProperties\<close> and \<open>clearProperties\<close> of
  \<open>IMutableHypergraph\<close>, which start from the computed properties.
\<close>

definition setProperties :: "Properties \<Rightarrow> 'w hg \<Rightarrow> 'w hg" where
  "setProperties p h = h\<lparr>props := p\<rparr>"

definition addProperties :: "Properties \<Rightarrow> 'w hg \<Rightarrow> 'w hg" where
  "addProperties p h = (let h1 = computeFsmGraphProperty h in setProperties (props h1 OR p) h1)"

definition clearProperties :: "Properties \<Rightarrow> 'w hg \<Rightarrow> 'w hg" where
  "clearProperties p h = (let h1 = computeFsmGraphProperty h in setProperties (props h1 AND NOT p) h1)"

definition setPropertiesAt :: "Properties \<Rightarrow> bool \<Rightarrow> 'w hg \<Rightarrow> 'w hg" where
  "setPropertiesAt bits on h = (if on then addProperties bits h else clearProperties bits h)"

section \<open>Visiting\<close>

text \<open>\<open>Util::Once\<close>: keep the first visit of every handle.\<close>

fun visitOnce :: "'a set \<Rightarrow> 'a list \<Rightarrow> 'a list" where
  "visitOnce seen [] = []"
| "visitOnce seen (a # as) = (if a \<in> seen then visitOnce seen as else a # visitOnce (insert a seen) as)"

definition forArcsOutOnceSafe :: "'w hg \<Rightarrow> ArcHandle list" where
  "forArcsOutOnceSafe h = visitOnce {} (forArcsOutEveryTail h)"

definition forArcsOutFirstTailAt :: "'w hg \<Rightarrow> StateId \<Rightarrow> ArcHandle list" where
  "forArcsOutFirstTailAt h s = filter (\<lambda>a. hd (arc_tails (arcAt h a)) = s) (outArcsOf h s)"

definition forArcsOutFirstTail :: "'w hg \<Rightarrow> ArcHandle list" where
  "forArcsOutFirstTail h =
     (if storesFirstTailOutArcs h then forArcsOutEveryTail h
      else concat (map (forArcsOutFirstTailAt h) [0..<numStates h]))"

text \<open>\<open>forArcsFsm\<close>: the states without a lexical label, the start state first.\<close>

definition forArcsFsm :: "'w hg \<Rightarrow> ArcHandle list" where
  "forArcsFsm h =
     (if pVocab h = None then forArcsOutFirstTail h
      else let FORSTATE = (\<lambda>s. if \<not> hasLexicalLabel h s then outArcsOf h s else []);
               st = start_state h; e = numStates h
           in if st = kNoState then concat (map FORSTATE [0..<e])
              else FORSTATE st @ concat (map FORSTATE [0..<st]) @ concat (map FORSTATE [Suc st..<e]))"

definition forArcsOutOnce :: "'w hg \<Rightarrow> ArcHandle list" where
  "forArcsOutOnce h =
     (if storesFirstTailOutArcs h then forArcsOutEveryTail h
      else if isFsm h then forArcsFsm h
      else forArcsOutOnceSafe h)"

text \<open>\<open>IHypergraph::forArcs\<close> throws when no arcs are stored.\<close>

definition IHypergraph_forArcs :: "'w hg \<Rightarrow> sdl_error + ArcHandle list" where
  "IHypergraph_forArcs h =
     (if storesInArcs h then Inr (forArcsIn h)
      else if storesOutArcs h then Inr (forArcsOutOnce h)
      else Inl InvalidInputException)"

definition forArcsSafe :: "'w hg \<Rightarrow> ArcHandle list" where
  "forArcsSafe h =
     (if storesInArcs h then forArcsIn h
      else if storesOutArcs h then forArcsOutOnceSafe h else [])"

text \<open>\<open>IMutableHypergraph::forArcs(v)\<close>, and the overload that is given a state.\<close>

definition forArcs :: "'w hg \<Rightarrow> sdl_error + ArcHandle list" where
  "forArcs h =
     (if storesInArcs h then Inr (forArcsIn h)
      else if storesFirstTailOutArcs h then Inr (forArcsOutEveryTail h)
      else IHypergraph_forArcs h)"

definition forArcs_state :: "'w hg \<Rightarrow> StateId \<Rightarrow> ArcHandle list" where
  "forArcs_state h s =
     (let inarcs = storesInArcs h
      in concat (map (\<lambda>s. if inarcs then inArcsOf h s else outArcsOf h s) [0..<numStates h]))"

definition forArcsImpl :: "'w hg \<Rightarrow> sdl_error + ArcHandle list" where
  "forArcsImpl h =
     (if storesInArcs h then Inr (concat (inArcsPerState h))
      else if storesFirstTailOutArcs h then Inr (concat (outArcsPerState h))
      else IHypergraph_forArcs h)"

definition fetchArcs :: "'w hg \<Rightarrow> sdl_error + ArcHandle list" where
  "fetchArcs h = forArcsImpl h"

definition countArcs :: "'w \<Rightarrow> 'w hg \<Rightarrow> sdl_error + weight_count" where
  "countArcs one h = (case IHypergraph_forArcs h of
     Inl e \<Rightarrow> Inl e
   | Inr as \<Rightarrow> Inr (fold (weight_count_visit one) (map (arcAt h) as) weight_count_empty))"

section \<open>Building, converting and dropping the indexes\<close>

definition removeOutArcs :: "'w hg \<Rightarrow> 'w hg" where
  "removeOutArcs h =
     clearProp kStoreFirstTailOutArcs
       (clearProp kStoreOutArcs (h\<lparr>outArcsPerState := clearVector (outArcsPerState h)\<rparr>))"

definition removeInArcs :: "'w hg \<Rightarrow> 'w hg" where
  "removeInArcs h = clearProp kStoreInArcs (h\<lparr>inArcsPerState := clearVector (inArcsPerState h)\<rparr>)"

definition releaseArcs :: "'w hg \<Rightarrow> 'w hg" where
  "releaseArcs h = h\<lparr>inArcsPerState := clearVector (inArcsPerState h),
                     outArcsPerState := clearVector (outArcsPerState h)\<rparr>"

text \<open>
  \<open>buildOut<Adder>\<close>, with the adder's operation and its \<open>addProperties\<close> and
  \<open>removeProperties\<close>. With in-arcs the visitor runs over the in-arc lists, which it does not
  change.
\<close>

definition buildOut :: "(ArcHandle \<Rightarrow> 'w hg \<Rightarrow> 'w hg) \<Rightarrow> Properties \<Rightarrow> Properties \<Rightarrow> 'w hg
    \<Rightarrow> sdl_error + 'w hg" where
  "buildOut adder addP removeP h =
     (case (if has (props h) kStoreInArcs
            then Inr (concat (inArcsPerState h), length (inArcsPerState h))
            else case fetchArcs h of Inl e \<Rightarrow> Inl e | Inr arcs \<Rightarrow> Inr (arcs, numStates h)) of
        Inl e \<Rightarrow> Inl e
      | Inr (arcs, n) \<Rightarrow>
          Inr (clearProp removeP (setProp addP
                (fold adder arcs (h\<lparr>outArcsPerState := reinit_vec (outArcsPerState h) n []\<rparr>)))))"

text \<open>
  The in-place conversion of \<open>forceFirstTailOutArcs\<close>: under state \<open>s\<close>, keep the entries
  whose first tail is \<open>s\<close>.
\<close>

definition keepFirstTails :: "'w hg \<Rightarrow> ArcHandle list list" where
  "keepFirstTails h =
     map (\<lambda>(s, arcs). filter (\<lambda>a. hd (arc_tails (arcAt h a)) = s) arcs)
       (enumerate 0 (outArcsPerState h))"

definition forceFirstTailOutArcs :: "'w hg \<Rightarrow> sdl_error + 'w hg" where
  "forceFirstTailOutArcs h =
     (if \<not> has (props h) kStoreFirstTailOutArcs
      then let h1 = setProp kStoreFirstTailOutArcs h; hadout = has (props h1) kStoreOutArcs
           in if \<not> hadout
              then buildOut addArcFirstTailOut kStoreFirstTailOutArcs kStoreOutArcs h1
              else let h2 = clearProp kStoreOutArcs h1
                   in Inr (h2\<lparr>outArcsPerState := keepFirstTails h2\<rparr>)
      else Inr h)"

definition forceOutArcs :: "'w hg \<Rightarrow> sdl_error + 'w hg" where
  "forceOutArcs h =
     (if \<not> has (props h) kStoreOutArcs
      then buildOut addArcOut kStoreOutArcs kStoreFirstTailOutArcs h
      else Inr h)"

definition forceInArcs :: "'w hg \<Rightarrow> sdl_error + 'w hg" where
  "forceInArcs h =
     (if \<not> has (props h) kStoreInArcs
      then let h1 = h\<lparr>inArcsPerState := reinit_vec (inArcsPerState h) (length (outArcsPerState h)) []\<rparr>
           in case forArcs h1 of
                Inl e \<Rightarrow> Inl e
              | Inr arcs \<Rightarrow>
                  Inr (setProp kStoreInArcs (fold addArcIn arcs (computeFsmGraphProperty h1)))
      else Inr h)"

definition clearOutArcs :: "StateId \<Rightarrow> 'w hg \<Rightarrow> 'w hg" where
  "clearOutArcs s h =
     (if s < length (outArcsPerState h)
      then h\<lparr>outArcsPerState := (outArcsPerState h)[s := []]\<rparr> else h)"

definition setOutArcs :: "StateId \<Rightarrow> ArcHandle list \<Rightarrow> 'w hg \<Rightarrow> 'w hg" where
  "setOutArcs s arcs h =
     (let adj = (if length (outArcsPerState h) \<le> s
                 then vec_resize (outArcsPerState h) (inc32 s) [] else outArcsPerState h)
      in h\<lparr>outArcsPerState := adj[s := arcs]\<rparr>)"

definition rebuildArcAdjacencies :: "'w hg \<Rightarrow> sdl_error + 'w hg" where
  "rebuildArcAdjacencies h =
     (case fetchArcs h of Inl e \<Rightarrow> Inl e | Inr arcs \<Rightarrow> Inr (addArcs arcs (releaseArcs h)))"

definition rebuildOutArcs :: "'w hg \<Rightarrow> sdl_error + 'w hg" where
  "rebuildOutArcs h =
     (if has (props h) kStoreInArcs
      then if has (props h) kStoreFirstTailOutArcs
           then forceFirstTailOutArcs (clearProp (kStoreFirstTailOutArcs OR kStoreOutArcs) h)
           else if has (props h) kStoreOutArcs
           then forceOutArcs (clearProp kStoreOutArcs h)
           else Inr h
      else Inr h)"

definition forceNotAllOutArcs :: "'w hg \<Rightarrow> sdl_error + 'w hg" where
  "forceNotAllOutArcs h =
     (if has (props h) kStoreOutArcs \<and> \<not> has (props h) kStoreFirstTailOutArcs
      then forceFirstTailOutArcs h else Inr h)"

definition removeOutArcsMaybeAddingFirstTail :: "'w hg \<Rightarrow> sdl_error + 'w hg" where
  "removeOutArcsMaybeAddingFirstTail h0 =
     (let h = computeFsmGraphProperty h0; p = props h
      in if has p kStoreOutArcs
         then if has p kStoreInArcs then Inr (removeOutArcs h) else forceFirstTailOutArcs h
         else Inr h)"

definition forceModifiableLabelStates :: "'w hg \<Rightarrow> sdl_error + 'w hg" where
  "forceModifiableLabelStates h0 =
     (let h = computeFsmGraphProperty h0
      in if storesAllOutArcs h
         then if has (props h) kGraph then forceFirstTailOutArcs h
              else (case forceInArcs h of Inl e \<Rightarrow> Inl e | Inr h1 \<Rightarrow> Inr (removeOutArcs h1))
         else Inr h)"

text \<open>\<open>forceInArcsOnly\<close>, as a free function.\<close>

definition forceInArcsOnly :: "'w hg \<Rightarrow> sdl_error + 'w hg" where
  "forceInArcsOnly h =
     (if \<not> storesInArcs h
      then (case forceInArcs h of Inl e \<Rightarrow> Inl e | Inr h1 \<Rightarrow> Inr (removeOutArcs h1))
      else Inr h)"

definition notifyArcsModified :: "'w hg \<Rightarrow> 'w hg" where
  "notifyArcsModified h = clearProp kAcyclic (clearProp kSortedOutArcs (notifyArcImpl h))"

definition resizeArcsForStates :: "StateId \<Rightarrow> 'w hg \<Rightarrow> 'w hg" where
  "resizeArcsForStates n h =
     (let h1 = (if has (props h) kStoreInArcs
                then h\<lparr>inArcsPerState := vec_resize (inArcsPerState h) n []\<rparr> else h)
      in if storesOutArcs h1
         then h1\<lparr>outArcsPerState := vec_resize (outArcsPerState h1) n []\<rparr> else h1)"

section \<open>Clearing\<close>

definition clearArcsPer :: "'w hg \<Rightarrow> 'w hg" where
  "clearArcsPer h = h\<lparr>inArcsPerState := [], outArcsPerState := []\<rparr>"

definition deleteArcs :: "'w hg \<Rightarrow> 'w hg" where
  "deleteArcs h = fold deleteArc (forArcsSafe h) h"

definition clearLabelImpl :: "Properties \<Rightarrow> 'w hg \<Rightarrow> 'w hg" where
  "clearLabelImpl prop h =
     h\<lparr>lstate := Map.empty, iLabelForState := [], oLabelForState := [], props := prop OR kFsmProperties\<rparr>"

definition clearImpl :: "Properties \<Rightarrow> 'w hg \<Rightarrow> 'w hg" where
  "clearImpl prop h = clearStates (clearLabelImpl prop (clearArcsPer (deleteArcs h)))"

definition clear_hg :: "Properties \<Rightarrow> 'w hg \<Rightarrow> 'w hg" where
  "clear_hg prop h =
     (let h1 = computeFsmGraphProperty (clearImpl prop h);
          p = (props h1 AND NOT kHasOutputLabels) OR kFsmProperties;
          p = (if has p kStoreAnyOutArcs then p OR kSortedOutArcs else p)
      in setProperties p h1)"

definition clear :: "'w hg \<Rightarrow> 'w hg" where
  "clear h = clear_hg (props h) h"

definition prunedEmpty :: "'w hg \<Rightarrow> bool" where
  "prunedEmpty h =
     (let sfinal = final_state h
      in if sfinal = kNoState then True
         else let sstart = start_state h
              in if sfinal = sstart then False
                 else if has (props h) kStoreInArcs then numInArcs h sfinal = 0
                 else if has (props h) kStoreAnyOutArcs \<and> sstart \<noteq> kNoState
                 then numOutArcs h sstart = 0
                 else False)"

definition setEmpty :: "bool \<Rightarrow> bool \<Rightarrow> 'w hg \<Rightarrow> 'w hg" where
  "setEmpty addstart addfinal h =
     (let h1 = clear h;
          h2 = (if addstart then let (s, g) = addState h1 in setStart s g else h1)
      in if addfinal then let (s, g) = addState h2 in setFinal s g else h2)"

definition setEmptyIfNoArcs :: "bool \<Rightarrow> bool \<Rightarrow> 'w hg \<Rightarrow> 'w hg" where
  "setEmptyIfNoArcs addstart addfinal h =
     (if prunedEmpty h then setEmpty addstart addfinal h else h)"

definition setAllStrings :: "'w \<Rightarrow> Sym \<Rightarrow> 'w hg \<Rightarrow> 'w hg" where
  "setAllStrings one sigma h =
     (let (s, h1) = addState (clear h)
      in snd (addArcFsa s s sigma one (setFinal s (setStart s h1))))"

definition setAllStringsWeighted :: "Sym \<Rightarrow> 'w \<Rightarrow> 'w \<Rightarrow> 'w hg \<Rightarrow> 'w hg" where
  "setAllStringsWeighted sigma pcont pstop h =
     (let (s, h1) = addState (clear h);
          (f, h2) = addState h1;
          h3 = setFinal f (setStart s h2);
          (a1, h4) = addArcFsa s s sigma pcont h3
      in snd (addArcFsa s f EPSILON_ID pstop h4))"

section \<open>Largest states\<close>

fun lastWith :: "(StateId \<Rightarrow> bool) \<Rightarrow> nat \<Rightarrow> StateId" where
  "lastWith P 0 = kNoState"
| "lastWith P (Suc n) = (if P n then n else lastWith P n)"

definition accMax :: "StateId \<Rightarrow> StateId \<Rightarrow> StateId" where
  "accMax m r = (if r = kNoState \<or> m > r then m else r)"

definition maxTail :: "'w hg \<Rightarrow> StateId" where
  "maxTail h =
     (if numStates h = 0 then kNoState
      else if storesOutArcs h then lastWith (\<lambda>s. numOutArcs h s \<noteq> 0) (numStates h)
      else if storesInArcs h
      then fold (\<lambda>a r. let tails = arc_tails (arcAt h a)
                       in if tails = [] then r else accMax (Max (set tails)) r) (forArcsIn h) kNoState
      else kNoState)"

definition maxHead :: "'w hg \<Rightarrow> StateId" where
  "maxHead h =
     (if numStates h = 0 then kNoState
      else if storesInArcs h then lastWith (\<lambda>s. numInArcs h s \<noteq> 0) (numStates h)
      else if storesOutArcs h
      then fold (\<lambda>a r. accMax (arc_head (arcAt h a)) r) (forArcsOutEveryTail h) kNoState
      else kNoState)"

definition maxArcState :: "'w hg \<Rightarrow> StateId" where
  "maxArcState h = maxState2 (maxHead h) (maxTail h)"

text \<open>
  \<open>maxLabeledState(syms)\<close> of \<open>MutableHypergraph\<close>; \<open>maxLabeledState(labelType)\<close> also
  shrinks the label vector to the least size.
\<close>

definition maxLabeledStateOf :: "'w hg \<Rightarrow> Sym list \<Rightarrow> StateId" where
  "maxLabeledStateOf h syms = lastWith (\<lambda>s. syms ! s \<noteq> NoSymbol) (min (numStates h) (length syms))"

definition maxLabeledStateInput :: "'w hg \<Rightarrow> StateId \<times> 'w hg" where
  "maxLabeledStateInput h =
     (let m = maxLabeledStateOf h (iLabelForState h); s = (if m = kNoState then 0 else m + 1)
      in (m, h\<lparr>iLabelForState := vec_resize (iLabelForState h) s NoSymbol\<rparr>))"

definition maxLabeledStateOutput :: "'w hg \<Rightarrow> StateId \<times> 'w hg" where
  "maxLabeledStateOutput h =
     (let m = maxLabeledStateOf h (oLabelForState h); s = (if m = kNoState then 0 else m + 1)
      in (m, h\<lparr>oLabelForState := vec_resize (oLabelForState h) s NoSymbol\<rparr>))"

definition maxLabeledState :: "'w hg \<Rightarrow> StateId \<times> 'w hg" where
  "maxLabeledState h0 =
     (let h = computeFsmGraphProperty h0; (i, h1) = maxLabeledStateInput h
      in if has (props h) kHasOutputLabels
         then let (out, h2) = maxLabeledStateOutput h1 in (maxState2 i out, h2)
         else (i, h1))"

definition maxState_hg :: "'w hg \<Rightarrow> StateId \<times> 'w hg" where
  "maxState_hg h =
     (let r = maxState2 (maxState2 (maxArcState h) (start_state h)) (final_state h);
          (l, h1) = maxLabeledState h
      in (maxState2 r l, h1))"

definition setNumStatesTo :: "StateId \<Rightarrow> 'w hg \<Rightarrow> 'w hg" where
  "setNumStatesTo N h = (resizeArcsForStates N h)\<lparr>numStates := N\<rparr>"

definition setNumStates :: "'w hg \<Rightarrow> 'w hg" where
  "setNumStates h =
     (let m = Max {0, length (inArcsPerState h), length (outArcsPerState h),
                   length (iLabelForState h), length (oLabelForState h)};
          n = maxState2 (start_state h) (final_state h);
          m = (if n \<noteq> kNoState then max m (n + 1) else m)
      in setNumStatesTo m h)"

definition compressNumStates :: "'w hg \<Rightarrow> 'w hg" where
  "compressNumStates h =
     (let (m, h1) = maxState_hg h in setNumStatesTo (if m = kNoState then 0 else m + 1) h1)"

text \<open>\<open>maxNotTerminalStateImpl\<close> of \<open>HypergraphBase\<close> leaves its loop before state 0.\<close>

fun maxNotTerminalLoop :: "'w hg \<Rightarrow> nat \<Rightarrow> StateId" where
  "maxNotTerminalLoop h 0 = kNoState"
| "maxNotTerminalLoop h (Suc n) =
     (if n = 0 then kNoState
      else if \<not> hasTerminalLabel h n then n else maxNotTerminalLoop h n)"

definition countNumNotTerminalStates :: "'w hg \<Rightarrow> nat" where
  "countNumNotTerminalStates h = length (filter (\<lambda>s. \<not> hasTerminalLabel h s) [0..<numStates h])"

definition numNotTerminalStates :: "'w hg \<Rightarrow> nat" where
  "numNotTerminalStates h =
     (if has (props h) kSortedStates then sortedStatesNumNotTerminal h
      else countNumNotTerminalStates h)"

end
