(* ===== verification/Hg_Index.thy ===== *)
theory Hg_Index
  imports Hg_Arcs
begin

text \<open>
  Correctness of the arc indexes: the well-formedness invariant \<open>hg_wf\<close> of a
  \<open>MutableHypergraph\<close>, that adding arcs and building or converting the indexes keep it
  and keep the arcs, and that the visiting loops enumerate every live arc exactly once where
  they promise to.
\<close>

section \<open>Counting\<close>

lemma count_list_concat_map:
  "count_list (concat (map f xs)) a = sum_list (map (\<lambda>x. count_list (f x) a) xs)"
  by (induction xs) simp_all

lemma sum_list_indicator:
  "sum_list (map (\<lambda>s. if s = s0 then (k::nat) else 0) [0..<n]) = (if s0 < n then k else 0)"
  by (induction n) auto

lemma concat_getOrElse: "concat adj = concat (map (\<lambda>s. getOrElse adj s []) [0..<length adj])"
proof -
  have "map (\<lambda>s. getOrElse adj s []) [0..<length adj] = map (\<lambda>s. adj ! s) [0..<length adj]"
    by (simp add: getOrElse_def)
  then show ?thesis by (simp add: map_nth)
qed

lemma count_list_filter: "count_list (filter P xs) a = (if P a then count_list xs a else 0)"
  by (induction xs) auto

lemma count_list_pos: "0 < count_list xs a \<longleftrightarrow> a \<in> set xs"
  using count_list_0_iff [of xs a] by auto

lemma set_visitOnce: "set (visitOnce seen as) = set as - seen"
  by (induction as arbitrary: seen) auto

lemma distinct_visitOnce: "distinct (visitOnce seen as)"
  by (induction as arbitrary: seen) (auto simp: set_visitOnce)

lemma count_list_distinct: "distinct xs \<Longrightarrow> count_list xs a = (if a \<in> set xs then 1 else 0)"
  by (induction xs) auto

section \<open>Indexes\<close>

definition index_ok :: "('w arc \<Rightarrow> StateId \<Rightarrow> nat) \<Rightarrow> (ArcHandle \<rightharpoonup> 'w arc) \<Rightarrow> ArcHandle list list \<Rightarrow> bool" where
  "index_ok w heap adj \<longleftrightarrow>
     (\<forall>s a. count_list (getOrElse adj s []) a = (case heap a of None \<Rightarrow> 0 | Some x \<Rightarrow> w x s))"

definition in_weight :: "'w arc \<Rightarrow> StateId \<Rightarrow> nat" where
  "in_weight x s = (if s = arc_head x then 1 else 0)"

definition first_weight :: "'w arc \<Rightarrow> StateId \<Rightarrow> nat" where
  "first_weight x s = (if arc_tails x \<noteq> [] \<and> s = hd (arc_tails x) then 1 else 0)"

definition out_weight :: "'w arc \<Rightarrow> StateId \<Rightarrow> nat" where
  "out_weight x s = count_list (arc_tails x) s"

text \<open>Every live arc exactly once.\<close>

definition arc_enum :: "'w hg \<Rightarrow> ArcHandle list \<Rightarrow> bool" where
  "arc_enum h as \<longleftrightarrow> (\<forall>a. count_list as a = (case arc_heap h a of None \<Rightarrow> 0 | Some x \<Rightarrow> 1))"

lemma arc_enum_iff: "arc_enum h as \<longleftrightarrow> distinct as \<and> set as = dom (arc_heap h)"
proof
  assume e: "arc_enum h as"
  then have c: "count_list as a = (case arc_heap h a of None \<Rightarrow> 0 | Some x \<Rightarrow> 1)" for a
    by (simp add: arc_enum_def)
  then have "a \<in> set as \<longleftrightarrow> a \<in> dom (arc_heap h)" for a
    using count_list_pos [of as a] by (auto split: option.splits)
  moreover have "distinct as"
  proof -
    have "count_list as a \<le> 1" for a using c [of a] by (auto split: option.splits)
    then show ?thesis
    proof (induction as)
      case (Cons b bs)
      have "count_list bs a \<le> 1" for a using Cons.prems [of a] by (auto split: if_splits)
      moreover have "b \<notin> set bs" using Cons.prems [of b] by (simp add: count_list_0_iff)
      ultimately show ?case using Cons.IH by simp
    qed simp
  qed
  ultimately show "distinct as \<and> set as = dom (arc_heap h)" by auto
next
  assume "distinct as \<and> set as = dom (arc_heap h)"
  then show "arc_enum h as"
    by (auto simp: arc_enum_def count_list_distinct domIff split: option.splits)
qed

definition in_push :: "'w arc \<Rightarrow> ArcHandle \<Rightarrow> ArcHandle list list \<Rightarrow> ArcHandle list list" where
  "in_push x a adj = atExpand_push adj (arc_head x) a"

definition first_push :: "'w arc \<Rightarrow> ArcHandle \<Rightarrow> ArcHandle list list \<Rightarrow> ArcHandle list list" where
  "first_push x a adj = (if arc_tails x = [] then adj else atExpand_push adj (hd (arc_tails x)) a)"

definition out_push :: "'w arc \<Rightarrow> ArcHandle \<Rightarrow> ArcHandle list list \<Rightarrow> ArcHandle list list" where
  "out_push x a adj = fold (\<lambda>t adj. atExpand_push adj t a) (arc_tails x) adj"

locale arc_index =
  fixes w :: "'w arc \<Rightarrow> StateId \<Rightarrow> nat"
    and push :: "'w arc \<Rightarrow> ArcHandle \<Rightarrow> ArcHandle list list \<Rightarrow> ArcHandle list list"
  assumes push_count:
    "count_list (getOrElse (push x a adj) s []) b =
       count_list (getOrElse adj s []) b + (if b = a then w x s else 0)"
begin

lemma fold_push_count:
  "count_list (getOrElse (fold (\<lambda>a. push (f a) a) as adj) s []) b =
     count_list (getOrElse adj s []) b + count_list as b * w (f b) s"
  by (induction as arbitrary: adj) (auto simp: push_count)

lemma index_insert:
  assumes "index_ok w heap adj" and "heap a = None"
  shows "index_ok w (heap(a \<mapsto> x)) (push x a adj)"
  using assms by (auto simp: index_ok_def push_count split: option.splits)

lemma index_build:
  assumes "arc_enum h as"
  shows "index_ok w (arc_heap h) (fold (\<lambda>a. push (arcAt h a) a) as (replicate n []))"
proof -
  have "getOrElse (replicate n []) s [] = ([]::ArcHandle list)" for s
    by (simp add: getOrElse_def)
  then show ?thesis using assms
    by (simp add: index_ok_def fold_push_count arc_enum_def arcAt_def split: option.splits)
qed

lemma index_build_onto:
  assumes "arc_enum h as" and "\<And>s. getOrElse adj s [] = []"
  shows "index_ok w (arc_heap h) (fold (\<lambda>a. push (arcAt h a) a) as adj)"
  using assms by (simp add: index_ok_def fold_push_count arc_enum_def arcAt_def split: option.splits)

end

lemma count_out_push:
  "count_list (getOrElse (fold (\<lambda>t adj. atExpand_push adj t a) ts adj) s []) b =
     count_list (getOrElse adj s []) b + (if b = a then count_list ts s else 0)"
  by (induction ts arbitrary: adj) (auto simp: getOrElse_atExpand_push)

interpretation in_ix: arc_index in_weight in_push
  by unfold_locales (auto simp: in_weight_def in_push_def getOrElse_atExpand_push)

interpretation first_ix: arc_index first_weight first_push
  by unfold_locales (auto simp: first_weight_def first_push_def getOrElse_atExpand_push)

interpretation out_ix: arc_index out_weight out_push
  by unfold_locales (auto simp: out_weight_def out_push_def count_out_push)

lemma index_empty:
  assumes "\<And>s. getOrElse adj s [] = []" and "heap = Map.empty"
  shows "index_ok w heap adj"
  using assms by (simp add: index_ok_def)

lemma index_member:
  "index_ok w heap adj \<Longrightarrow> a \<in> set (getOrElse adj s []) \<longleftrightarrow> (\<exists>x. heap a = Some x \<and> 0 < w x s)"
  unfolding index_ok_def count_list_pos [symmetric] by (auto split: option.splits)

section \<open>The invariant\<close>

definition arcs_bounded :: "'w hg \<Rightarrow> bool" where
  "arcs_bounded h \<longleftrightarrow>
     (\<forall>a x. arc_heap h a = Some x \<longrightarrow>
        a < next_arc h \<and> arc_head x < numStates h \<and> (\<forall>t \<in> set (arc_tails x). t < numStates h) \<and>
        (storesInArcs h \<or> arc_tails x \<noteq> []))"

definition hg_wf :: "'w hg \<Rightarrow> bool" where
  "hg_wf h \<longleftrightarrow>
     arcs_bounded h \<and> storesArcs h \<and>
     (storesInArcs h \<longrightarrow> index_ok in_weight (arc_heap h) (inArcsPerState h)) \<and>
     (storesFirstTailOutArcs h \<longrightarrow> index_ok first_weight (arc_heap h) (outArcsPerState h)) \<and>
     (storesAllOutArcs h \<and> \<not> storesFirstTailOutArcs h \<longrightarrow>
        index_ok out_weight (arc_heap h) (outArcsPerState h))"

lemmas hg_wfD = hg_wf_def [THEN iffD1, THEN conjunct1] hg_wf_def [THEN iffD1, THEN conjunct2, THEN conjunct1]

lemma storesOutArcs_cases: "storesOutArcs h \<longleftrightarrow> storesFirstTailOutArcs h \<or> storesAllOutArcs h"
  by (auto simp: storesOutArcs_def storesFirstTailOutArcs_def storesAllOutArcs_def flag_simps)

lemma storesArcs_cases: "storesArcs h \<longleftrightarrow> storesInArcs h \<or> storesOutArcs h"
  by (auto simp: storesArcs_def storesOutArcs_def storesInArcs_def flag_simps)

section \<open>Visiting every arc once\<close>

text \<open>An index whose weight is the indicator of one state enumerates every arc once.\<close>

lemma index_enum:
  assumes ok: "index_ok w (arc_heap h) adj"
    and one: "\<And>a x. arc_heap h a = Some x \<Longrightarrow> \<exists>s0. s0 < n \<and> (\<forall>s. w x s = (if s = s0 then 1 else 0))"
  shows "arc_enum h (concat (map (\<lambda>s. getOrElse adj s []) [0..<n]))"
    and "arc_enum h (concat adj)"
proof -
  have c: "count_list (getOrElse adj s []) a = (case arc_heap h a of None \<Rightarrow> 0 | Some x \<Rightarrow> w x s)" for s a
    using ok by (simp add: index_ok_def)
  have sum: "sum_list (map (\<lambda>s. count_list (getOrElse adj s []) a) [0..<m]) =
      (case arc_heap h a of None \<Rightarrow> 0 | Some x \<Rightarrow> 1)"
    if m: "\<And>x s. arc_heap h a = Some x \<Longrightarrow> 0 < w x s \<Longrightarrow> s < m" for a m
  proof (cases "arc_heap h a")
    case None
    then show ?thesis by (simp add: c)
  next
    case (Some x)
    obtain s0 where s0: "\<And>s. w x s = (if s = s0 then 1 else 0)" using one [OF Some] by auto
    have "s0 < m" using m [OF Some, of s0] s0 by simp
    then show ?thesis using Some by (simp add: c s0 sum_list_indicator)
  qed
  have n: "s < n" if x: "arc_heap h a = Some x" and p: "0 < w x s" for a x s
  proof -
    obtain s0 where "s0 < n" "\<forall>s. w x s = (if s = s0 then 1 else 0)" using one [OF x] by auto
    then show ?thesis using p by (auto split: if_splits)
  qed
  have l: "s < length adj" if x: "arc_heap h a = Some x" and p: "0 < w x s" for a x s
  proof (rule ccontr)
    assume "\<not> s < length adj"
    then have "count_list (getOrElse adj s []) a = 0" by (simp add: getOrElse_def)
    then show False using c [of s a] x p by simp
  qed
  show "arc_enum h (concat (map (\<lambda>s. getOrElse adj s []) [0..<n]))"
    unfolding arc_enum_def count_list_concat_map using sum n by blast
  show "arc_enum h (concat adj)"
    unfolding arc_enum_def concat_getOrElse [of adj] count_list_concat_map using sum l by blast
qed

lemma in_indicator: "\<exists>s0. s0 = arc_head x \<and> (\<forall>s. in_weight x s = (if s = s0 then 1 else 0))"
  by (simp add: in_weight_def)

lemma first_indicator:
  "arc_tails x \<noteq> [] \<Longrightarrow> \<exists>s0. s0 = hd (arc_tails x) \<and> (\<forall>s. first_weight x s = (if s = s0 then 1 else 0))"
  by (simp add: first_weight_def)

lemma wf_in_enum:
  assumes wf: "hg_wf h" and st: "storesInArcs h"
  shows "arc_enum h (forArcsIn h)" and "arc_enum h (concat (inArcsPerState h))"
proof -
  have ok: "index_ok in_weight (arc_heap h) (inArcsPerState h)" using wf st by (simp add: hg_wf_def)
  have one: "\<exists>s0. s0 < numStates h \<and> (\<forall>s. in_weight x s = (if s = s0 then 1 else 0))"
    if "arc_heap h a = Some x" for a x
    using that wf by (auto simp: hg_wf_def arcs_bounded_def in_weight_def)
  show "arc_enum h (forArcsIn h)"
    using index_enum(1) [OF ok one] by (simp add: forArcsIn_def inArcsOf_def [abs_def])
  show "arc_enum h (concat (inArcsPerState h))" by (rule index_enum(2) [OF ok one])
qed

lemma wf_first_enum:
  assumes wf: "hg_wf h" and st: "storesFirstTailOutArcs h"
    and ne: "\<And>a x. arc_heap h a = Some x \<Longrightarrow> arc_tails x \<noteq> []"
  shows "arc_enum h (forArcsOutEveryTail h)" and "arc_enum h (concat (outArcsPerState h))"
proof -
  have ok: "index_ok first_weight (arc_heap h) (outArcsPerState h)" using wf st by (simp add: hg_wf_def)
  have one: "\<exists>s0. s0 < numStates h \<and> (\<forall>s. first_weight x s = (if s = s0 then 1 else 0))"
    if "arc_heap h a = Some x" for a x
    using that wf ne [OF that] by (auto simp: hg_wf_def arcs_bounded_def first_weight_def)
  show "arc_enum h (forArcsOutEveryTail h)"
    using index_enum(1) [OF ok one] by (simp add: forArcsOutEveryTail_def outArcsOf_def [abs_def])
  show "arc_enum h (concat (outArcsPerState h))" by (rule index_enum(2) [OF ok one])
qed

lemma wf_tails_nonempty:
  "hg_wf h \<Longrightarrow> \<not> storesInArcs h \<Longrightarrow> arc_heap h a = Some x \<Longrightarrow> arc_tails x \<noteq> []"
  by (auto simp: hg_wf_def arcs_bounded_def)

lemma wf_out_set:
  assumes wf: "hg_wf h" and st: "storesAllOutArcs h" "\<not> storesFirstTailOutArcs h"
    and ne: "\<And>a x. arc_heap h a = Some x \<Longrightarrow> arc_tails x \<noteq> []"
  shows "set (forArcsOutEveryTail h) = dom (arc_heap h)"
proof -
  have ok: "index_ok out_weight (arc_heap h) (outArcsPerState h)" using wf st by (simp add: hg_wf_def)
  have "a \<in> set (outArcsOf h s) \<longleftrightarrow> (\<exists>x. arc_heap h a = Some x \<and> s \<in> set (arc_tails x))" for a s
    using index_member [OF ok] by (simp add: outArcsOf_def out_weight_def count_list_pos)
  moreover have "\<exists>s < numStates h. s \<in> set (arc_tails x)" if "arc_heap h a = Some x" for a x
    using that wf ne [OF that] by (auto simp: hg_wf_def arcs_bounded_def intro: exI [of _ "hd (arc_tails x)"])
  ultimately have "a \<in> set (forArcsOutEveryTail h) \<longleftrightarrow> a \<in> dom (arc_heap h)" for a
    unfolding forArcsOutEveryTail_def by (simp add: domIff) fastforce
  then show ?thesis by blast
qed

lemma wf_once_enum:
  assumes wf: "hg_wf h" and st: "storesOutArcs h"
    and ne: "\<And>a x. arc_heap h a = Some x \<Longrightarrow> arc_tails x \<noteq> []"
  shows "arc_enum h (forArcsOutOnceSafe h)"
proof -
  have "set (forArcsOutEveryTail h) = dom (arc_heap h)"
  proof (cases "storesFirstTailOutArcs h")
    case True
    then show ?thesis using wf_first_enum(1) [OF wf True ne] by (simp add: arc_enum_iff)
  next
    case False
    then show ?thesis using wf_out_set [OF wf _ False ne] st by (simp add: storesOutArcs_cases)
  qed
  then show ?thesis
    by (simp add: arc_enum_iff forArcsOutOnceSafe_def set_visitOnce distinct_visitOnce)
qed

section \<open>Adding arcs\<close>

lemma flags_same [simp]:
  "storesInArcs (clearProp kSortedOutArcs h) = storesInArcs h"
  "storesFirstTailOutArcs (clearProp kSortedOutArcs h) = storesFirstTailOutArcs h"
  "storesAllOutArcs (clearProp kSortedOutArcs h) = storesAllOutArcs h"
  by (simp_all add: storesInArcs_def storesFirstTailOutArcs_def storesAllOutArcs_def flag_simps)

lemma addArc_fields:
  "arc_heap (addArc a h) = arc_heap h" "next_arc (addArc a h) = next_arc h"
  "numStates (addArc a h) = numStates h"
  "storesInArcs (addArc a h) = storesInArcs h"
  "storesFirstTailOutArcs (addArc a h) = storesFirstTailOutArcs h"
  "storesAllOutArcs (addArc a h) = storesAllOutArcs h"
  "inArcsPerState (addArc a h) =
     (if storesInArcs h then in_push (arcAt h a) a (inArcsPerState h) else inArcsPerState h)"
  "outArcsPerState (addArc a h) =
     (if storesFirstTailOutArcs h then first_push (arcAt h a) a (outArcsPerState h)
      else if storesAllOutArcs h then out_push (arcAt h a) a (outArcsPerState h)
      else outArcsPerState h)"
  by (auto simp: addArc_def notifyArcImpl_def storesInArcs_def storesFirstTailOutArcs_def arcAt_def
      storesAllOutArcs_def in_push_def first_push_def out_push_def Let_def flag_simps)

lemma newArc_fields:
  "newArc x h = (a, h') \<Longrightarrow> a = next_arc h \<and> arc_heap h' = (arc_heap h)(a \<mapsto> x) \<and>
     next_arc h' = Suc a \<and> numStates h' = numStates h \<and> props h' = props h \<and>
     inArcsPerState h' = inArcsPerState h \<and> outArcsPerState h' = outArcsPerState h"
  by (auto simp: newArc_def)

lemma wf_fresh: "hg_wf h \<Longrightarrow> arc_heap h (next_arc h) = None"
  by (cases "arc_heap h (next_arc h)") (auto simp: hg_wf_def arcs_bounded_def)

lemma stores_props:
  "props h = props g \<Longrightarrow> storesInArcs h = storesInArcs g \<and> storesFirstTailOutArcs h = storesFirstTailOutArcs g \<and>
     storesAllOutArcs h = storesAllOutArcs g \<and> storesOutArcs h = storesOutArcs g \<and> storesArcs h = storesArcs g"
  by (simp add: storesInArcs_def storesFirstTailOutArcs_def storesAllOutArcs_def storesOutArcs_def
      storesArcs_def)

lemma addNewArc_wf:
  assumes wf: "hg_wf h" and x: "arc_head x < numStates h" "\<forall>t \<in> set (arc_tails x). t < numStates h"
    and t: "storesInArcs h \<or> arc_tails x \<noteq> []" and r: "addNewArc x h = (a, h')"
  shows "hg_wf h' \<and> a = next_arc h \<and> arc_heap h' = (arc_heap h)(a \<mapsto> x) \<and> arc_heap h a = None"
proof -
  obtain h1 where n: "newArc x h = (a, h1)" and h': "h' = addArc a h1"
    using r by (auto simp: addNewArc_def split: prod.splits)
  note f = newArc_fields [OF n, THEN conjunct2] and fa = newArc_fields [OF n, THEN conjunct1]
  note st = stores_props [of h1 h]
  have fresh: "arc_heap h a = None" using wf_fresh [OF wf] fa by simp
  have at: "arcAt h1 a = x" using f by (simp add: arcAt_def)
  have b: "arcs_bounded h'" using wf x t f fa st
    by (auto simp: hg_wf_def arcs_bounded_def h' addArc_fields less_Suc_eq)
  have s: "storesArcs h'" using wf f st
    by (simp add: hg_wf_def storesArcs_cases storesOutArcs_cases h' addArc_fields)
  have "index_ok in_weight (arc_heap h') (inArcsPerState h')" if "storesInArcs h'"
    using that wf f st in_ix.index_insert [of "arc_heap h" _ a x]
    by (simp add: hg_wf_def h' addArc_fields at fresh)
  moreover have "index_ok first_weight (arc_heap h') (outArcsPerState h')" if "storesFirstTailOutArcs h'"
    using that wf f st first_ix.index_insert [of "arc_heap h" _ a x]
    by (simp add: hg_wf_def h' addArc_fields at fresh)
  moreover have "index_ok out_weight (arc_heap h') (outArcsPerState h')"
    if "storesAllOutArcs h'" "\<not> storesFirstTailOutArcs h'"
    using that wf f st out_ix.index_insert [of "arc_heap h" _ a x]
    by (simp add: hg_wf_def h' addArc_fields at fresh)
  ultimately show ?thesis using b s f fa fresh by (simp add: hg_wf_def h' addArc_fields)
qed

section \<open>The lazily computed fsm properties\<close>

lemma compute_fields [simp]:
  "arc_heap (computeFsmGraphProperty h) = arc_heap h"
  "next_arc (computeFsmGraphProperty h) = next_arc h"
  "numStates (computeFsmGraphProperty h) = numStates h"
  "start_state (computeFsmGraphProperty h) = start_state h"
  "final_state (computeFsmGraphProperty h) = final_state h"
  "inArcsPerState (computeFsmGraphProperty h) = inArcsPerState h"
  "outArcsPerState (computeFsmGraphProperty h) = outArcsPerState h"
  "iLabelForState (computeFsmGraphProperty h) = iLabelForState h"
  "oLabelForState (computeFsmGraphProperty h) = oLabelForState h"
  "lstate (computeFsmGraphProperty h) = lstate h"
  "pVocab (computeFsmGraphProperty h) = pVocab h"
  by (simp_all add: computeFsmGraphProperty_def Let_def split: prod.splits)

lemma compute_stores [simp]:
  "storesInArcs (computeFsmGraphProperty h) = storesInArcs h"
  "storesFirstTailOutArcs (computeFsmGraphProperty h) = storesFirstTailOutArcs h"
  "storesAllOutArcs (computeFsmGraphProperty h) = storesAllOutArcs h"
  by (simp_all add: computeFsmGraphProperty_def Let_def storesInArcs_def storesFirstTailOutArcs_def
      storesAllOutArcs_def flag_simps split: prod.splits)

lemma fsmChecked_compute [simp]: "fsmChecked (computeFsmGraphProperty h)"
  by (simp add: computeFsmGraphProperty_def Let_def split: prod.splits)

lemma hg_wf_same:
  assumes "arc_heap h = arc_heap g" "next_arc h = next_arc g" "numStates h = numStates g"
    "storesInArcs h = storesInArcs g" "storesFirstTailOutArcs h = storesFirstTailOutArcs g"
    "storesAllOutArcs h = storesAllOutArcs g"
    "inArcsPerState h = inArcsPerState g" "outArcsPerState h = outArcsPerState g"
  shows "hg_wf h = hg_wf g"
  using assms by (simp add: hg_wf_def arcs_bounded_def storesArcs_cases storesOutArcs_cases)

lemma compute_wf [simp]: "hg_wf (computeFsmGraphProperty h) = hg_wf h"
  by (rule hg_wf_same) simp_all

section \<open>Building the indexes\<close>

lemma addFirst_fields:
  "arc_heap (addArcFirstTailOut a h) = arc_heap h" "next_arc (addArcFirstTailOut a h) = next_arc h"
  "numStates (addArcFirstTailOut a h) = numStates h"
  "inArcsPerState (addArcFirstTailOut a h) = inArcsPerState h"
  "outArcsPerState (addArcFirstTailOut a h) = first_push (arcAt h a) a (outArcsPerState h)"
  "props (addArcFirstTailOut a h) = props h AND NOT kSortedOutArcs"
  by (simp_all add: addArcFirstTailOut_def first_push_def arcAt_def Let_def)

lemma addOut_fields:
  "arc_heap (addArcOut a h) = arc_heap h" "next_arc (addArcOut a h) = next_arc h"
  "numStates (addArcOut a h) = numStates h"
  "inArcsPerState (addArcOut a h) = inArcsPerState h"
  "outArcsPerState (addArcOut a h) = out_push (arcAt h a) a (outArcsPerState h)"
  "props (addArcOut a h) = props h AND NOT kSortedOutArcs"
  by (simp_all add: addArcOut_def out_push_def arcAt_def Let_def)

lemma addIn_fields:
  "arc_heap (addArcIn a h) = arc_heap h" "next_arc (addArcIn a h) = next_arc h"
  "numStates (addArcIn a h) = numStates h" "props (addArcIn a h) = props h"
  "inArcsPerState (addArcIn a h) = in_push (arcAt h a) a (inArcsPerState h)"
  "outArcsPerState (addArcIn a h) = outArcsPerState h"
  by (simp_all add: addArcIn_def in_push_def)

lemma fold_addFirst:
  "arc_heap (fold addArcFirstTailOut as h) = arc_heap h \<and>
   next_arc (fold addArcFirstTailOut as h) = next_arc h \<and>
   numStates (fold addArcFirstTailOut as h) = numStates h \<and>
   inArcsPerState (fold addArcFirstTailOut as h) = inArcsPerState h \<and>
   storesInArcs (fold addArcFirstTailOut as h) = storesInArcs h \<and>
   outArcsPerState (fold addArcFirstTailOut as h) =
     fold (\<lambda>a. first_push (arcAt h a) a) as (outArcsPerState h)"
  by (induction as arbitrary: h)
    (simp_all add: addFirst_fields arcAt_def storesInArcs_def flag_simps)

lemma fold_addOut:
  "arc_heap (fold addArcOut as h) = arc_heap h \<and>
   next_arc (fold addArcOut as h) = next_arc h \<and>
   numStates (fold addArcOut as h) = numStates h \<and>
   inArcsPerState (fold addArcOut as h) = inArcsPerState h \<and>
   storesInArcs (fold addArcOut as h) = storesInArcs h \<and>
   outArcsPerState (fold addArcOut as h) =
     fold (\<lambda>a. out_push (arcAt h a) a) as (outArcsPerState h)"
  by (induction as arbitrary: h)
    (simp_all add: addOut_fields arcAt_def storesInArcs_def flag_simps)

lemma fold_addIn:
  "arc_heap (fold addArcIn as h) = arc_heap h \<and> next_arc (fold addArcIn as h) = next_arc h \<and>
   numStates (fold addArcIn as h) = numStates h \<and> props (fold addArcIn as h) = props h \<and>
   outArcsPerState (fold addArcIn as h) = outArcsPerState h \<and>
   inArcsPerState (fold addArcIn as h) = fold (\<lambda>a. in_push (arcAt h a) a) as (inArcsPerState h)"
  by (induction as arbitrary: h) (simp_all add: addIn_fields arcAt_def)

text \<open>The arcs that \<open>buildOut\<close> starts from are every live arc once.\<close>

definition buildOut_arcs :: "'w hg \<Rightarrow> (ArcHandle list \<times> nat) option" where
  "buildOut_arcs h =
     (if has (props h) kStoreInArcs then Some (concat (inArcsPerState h), length (inArcsPerState h))
      else case fetchArcs h of Inl e \<Rightarrow> None | Inr arcs \<Rightarrow> Some (arcs, numStates h))"

lemma buildOut_arcs_buildOut:
  "buildOut_arcs h = Some (as, n) \<Longrightarrow> buildOut adder addP removeP h =
     Inr (clearProp removeP (setProp addP
       (fold adder as (h\<lparr>outArcsPerState := reinit_vec (outArcsPerState h) n []\<rparr>))))"
  by (auto simp: buildOut_arcs_def buildOut_def split: if_splits sum.splits)

lemma forceOut_sources:
  assumes wf: "hg_wf h" and no: "\<not> storesAllOutArcs h"
  shows "\<exists>as n. buildOut_arcs h = Some (as, n) \<and> arc_enum h as"
proof (cases "storesInArcs h")
  case True
  then show ?thesis using wf_in_enum(2) [OF wf True]
    by (auto simp: buildOut_arcs_def storesInArcs_def)
next
  case False
  have f: "storesFirstTailOutArcs h" using wf no False
    by (auto simp: hg_wf_def storesArcs_cases storesOutArcs_cases)
  show ?thesis using False f wf_first_enum(2) [OF wf f wf_tails_nonempty [OF wf False]]
    by (auto simp: buildOut_arcs_def storesInArcs_def fetchArcs_def forArcsImpl_def)
qed

lemma stores_updates [simp]:
  "storesInArcs (h\<lparr>outArcsPerState := v\<rparr>) = storesInArcs h"
  "storesInArcs (h\<lparr>inArcsPerState := v\<rparr>) = storesInArcs h"
  "storesFirstTailOutArcs (h\<lparr>outArcsPerState := v\<rparr>) = storesFirstTailOutArcs h"
  "storesFirstTailOutArcs (h\<lparr>inArcsPerState := v\<rparr>) = storesFirstTailOutArcs h"
  "storesAllOutArcs (h\<lparr>outArcsPerState := v\<rparr>) = storesAllOutArcs h"
  "storesAllOutArcs (h\<lparr>inArcsPerState := v\<rparr>) = storesAllOutArcs h"
  "arcAt (h\<lparr>outArcsPerState := v\<rparr>) a = arcAt h a" "arcAt (h\<lparr>inArcsPerState := v\<rparr>) a = arcAt h a"
  "arcAt (setProp p h) a = arcAt h a" "arcAt (clearProp p h) a = arcAt h a"
  by (simp_all add: storesInArcs_def storesFirstTailOutArcs_def storesAllOutArcs_def arcAt_def)

lemma wf_bounded_same:
  assumes "arcs_bounded h" "arc_heap h' = arc_heap h" "next_arc h' = next_arc h"
    "numStates h' = numStates h" "storesInArcs h \<Longrightarrow> storesInArcs h'"
  shows "arcs_bounded h'"
  using assms by (auto simp: arcs_bounded_def)

lemma wf_in_same:
  assumes "hg_wf h" "arc_heap h' = arc_heap h" "inArcsPerState h' = inArcsPerState h"
    "storesInArcs h' = storesInArcs h"
  shows "storesInArcs h' \<longrightarrow> index_ok in_weight (arc_heap h') (inArcsPerState h')"
  using assms by (simp add: hg_wf_def)

lemma forceOutArcs_wf:
  assumes wf: "hg_wf h"
  shows "\<exists>h'. forceOutArcs h = Inr h' \<and> hg_wf h' \<and> storesAllOutArcs h' \<and> arc_heap h' = arc_heap h"
proof (cases "storesAllOutArcs h")
  case True
  then show ?thesis using wf by (auto simp: forceOutArcs_def storesAllOutArcs_def)
next
  case False
  obtain as n where src: "buildOut_arcs h = Some (as, n)" and en: "arc_enum h as"
    using forceOut_sources [OF wf False] by blast
  let ?h0 = "h\<lparr>outArcsPerState := reinit_vec (outArcsPerState h) n []\<rparr>"
  let ?g = "fold addArcOut as ?h0"
  let ?h' = "clearProp kStoreFirstTailOutArcs (setProp kStoreOutArcs ?g)"
  note F = fold_addOut [of as ?h0]
  have r: "forceOutArcs h = Inr ?h'"
    using False buildOut_arcs_buildOut [OF src, of addArcOut kStoreOutArcs kStoreFirstTailOutArcs]
    by (simp add: forceOutArcs_def storesAllOutArcs_def)
  have st: "storesInArcs ?h' = storesInArcs h" "storesAllOutArcs ?h'" "\<not> storesFirstTailOutArcs ?h'"
    using F by (simp_all add: storesInArcs_def storesAllOutArcs_def storesFirstTailOutArcs_def flag_simps)
  have ix: "index_ok out_weight (arc_heap ?h') (outArcsPerState ?h')"
    using F out_ix.index_build [OF en, of n] by (simp add: reinit_vec_def)
  have b: "arcs_bounded ?h'"
    by (rule wf_bounded_same [of h]) (use wf F st in \<open>simp_all add: hg_wf_def\<close>)
  have i: "storesInArcs ?h' \<longrightarrow> index_ok in_weight (arc_heap ?h') (inArcsPerState ?h')"
    by (rule wf_in_same [OF wf]) (use F st in simp_all)
  have "hg_wf ?h'" using b i ix st by (simp add: hg_wf_def storesArcs_cases storesOutArcs_cases)
  then show ?thesis using r st F by simp
qed

lemma forceFirstTailOutArcs_build:
  assumes wf: "hg_wf h" and no: "\<not> storesFirstTailOutArcs h" "\<not> storesAllOutArcs h"
  shows "\<exists>h'. forceFirstTailOutArcs h = Inr h' \<and> hg_wf h' \<and> storesFirstTailOutArcs h' \<and>
    arc_heap h' = arc_heap h"
proof -
  have sin: "storesInArcs h" using wf no by (auto simp: hg_wf_def storesArcs_cases storesOutArcs_cases)
  let ?h1 = "setProp kStoreFirstTailOutArcs h"
  let ?as = "concat (inArcsPerState h)" and ?n = "length (inArcsPerState h)"
  have src: "buildOut_arcs ?h1 = Some (?as, ?n)"
    using sin by (simp add: buildOut_arcs_def storesInArcs_def flag_simps)
  have en: "arc_enum h ?as" by (rule wf_in_enum(2) [OF wf sin])
  let ?h0 = "?h1\<lparr>outArcsPerState := reinit_vec (outArcsPerState ?h1) ?n []\<rparr>"
  let ?g = "fold addArcFirstTailOut ?as ?h0"
  let ?h' = "clearProp kStoreOutArcs (setProp kStoreFirstTailOutArcs ?g)"
  note F = fold_addFirst [of ?as ?h0]
  have r: "forceFirstTailOutArcs h = Inr ?h'"
    using no buildOut_arcs_buildOut [OF src, of addArcFirstTailOut kStoreFirstTailOutArcs kStoreOutArcs]
    by (simp add: forceFirstTailOutArcs_def storesAllOutArcs_def storesFirstTailOutArcs_def flag_simps Let_def)
  have st: "storesInArcs ?h'" "storesFirstTailOutArcs ?h'"
    using F sin by (simp_all add: storesInArcs_def storesFirstTailOutArcs_def flag_simps)
  have ix: "index_ok first_weight (arc_heap ?h') (outArcsPerState ?h')"
    using F first_ix.index_build [OF en, of ?n] by (simp add: reinit_vec_def)
  have b: "arcs_bounded ?h'"
    by (rule wf_bounded_same [of h]) (use wf F st in \<open>simp_all add: hg_wf_def\<close>)
  have i: "storesInArcs ?h' \<longrightarrow> index_ok in_weight (arc_heap ?h') (inArcsPerState ?h')"
    by (rule wf_in_same [OF wf]) (use F st sin in simp_all)
  have "hg_wf ?h'" using b i ix st by (simp add: hg_wf_def storesArcs_cases storesOutArcs_cases)
  then show ?thesis using r st F by simp
qed

text \<open>The in-place conversion from all out-arcs to first-tail out-arcs.\<close>

lemma getOrElse_keepFirstTails:
  "getOrElse (keepFirstTails h) s [] =
     filter (\<lambda>a. hd (arc_tails (arcAt h a)) = s) (getOrElse (outArcsPerState h) s [])"
  by (simp add: keepFirstTails_def getOrElse_def nth_enumerate_eq)

lemma keepFirstTails_index:
  assumes ok: "index_ok out_weight (arc_heap h) (outArcsPerState h)"
  shows "index_ok first_weight (arc_heap h) (keepFirstTails h) \<longleftrightarrow>
    (\<forall>a x. arc_heap h a = Some x \<and> arc_tails x \<noteq> [] \<longrightarrow> hd (arc_tails x) \<notin> set (tl (arc_tails x)))"
proof -
  have c: "count_list (getOrElse (keepFirstTails h) s []) a =
      (case arc_heap h a of None \<Rightarrow> 0
       | Some x \<Rightarrow> if hd (arc_tails x) = s then count_list (arc_tails x) s else 0)" for s a
    using ok by (simp add: getOrElse_keepFirstTails count_list_filter index_ok_def out_weight_def arcAt_def
        split: option.splits)
  have e: "(\<forall>s. (if hd (arc_tails x) = s then count_list (arc_tails x) s else 0) = first_weight x s)
      \<longleftrightarrow> (arc_tails x \<noteq> [] \<longrightarrow> hd (arc_tails x) \<notin> set (tl (arc_tails x)))" for x :: "'a arc"
    by (cases "arc_tails x") (auto simp: first_weight_def count_list_0_iff)
  have "index_ok first_weight (arc_heap h) (keepFirstTails h) \<longleftrightarrow>
      (\<forall>a x. arc_heap h a = Some x \<longrightarrow>
         (\<forall>s. (if hd (arc_tails x) = s then count_list (arc_tails x) s else 0) = first_weight x s))"
    by (auto simp: index_ok_def c split: option.splits)
  then show ?thesis by (simp only: e) blast
qed

lemma forceFirstTailOutArcs_convert:
  assumes wf: "hg_wf h" and st: "storesAllOutArcs h" "\<not> storesFirstTailOutArcs h"
  shows "\<exists>h'. forceFirstTailOutArcs h = Inr h' \<and> storesFirstTailOutArcs h' \<and> arc_heap h' = arc_heap h \<and>
    (hg_wf h' \<longleftrightarrow> (\<forall>a x. arc_heap h a = Some x \<and> arc_tails x \<noteq> [] \<longrightarrow>
                       hd (arc_tails x) \<notin> set (tl (arc_tails x))))"
proof -
  let ?h2 = "clearProp kStoreOutArcs (setProp kStoreFirstTailOutArcs h)"
  let ?h' = "?h2\<lparr>outArcsPerState := keepFirstTails ?h2\<rparr>"
  have r: "forceFirstTailOutArcs h = Inr ?h'" using st
    by (simp add: forceFirstTailOutArcs_def storesAllOutArcs_def storesFirstTailOutArcs_def flag_simps Let_def)
  have k: "keepFirstTails ?h2 = keepFirstTails h" by (simp add: keepFirstTails_def)
  have s: "storesInArcs ?h' = storesInArcs h" "storesFirstTailOutArcs ?h'"
    by (simp_all add: storesInArcs_def storesFirstTailOutArcs_def flag_simps)
  have b: "arcs_bounded ?h'"
    by (rule wf_bounded_same [of h]) (use wf s in \<open>simp_all add: hg_wf_def\<close>)
  have i: "storesInArcs ?h' \<longrightarrow> index_ok in_weight (arc_heap ?h') (inArcsPerState ?h')"
    by (rule wf_in_same [OF wf]) (use s in simp_all)
  have "hg_wf ?h' \<longleftrightarrow> index_ok first_weight (arc_heap h) (keepFirstTails h)"
    using b i s k by (simp add: hg_wf_def storesArcs_cases storesOutArcs_cases)
  then show ?thesis using keepFirstTails_index [of h] wf st r s by (simp add: hg_wf_def)
qed

section \<open>Visiting an fsm that stores all out-arcs\<close>

lemma frame_inArcs [simp]:
  "inputLabel (h\<lparr>inArcsPerState := v\<rparr>) = inputLabel h"
  "elseHasLexicalOutputLabel (h\<lparr>inArcsPerState := v\<rparr>) = elseHasLexicalOutputLabel h"
  "hasLexicalLabel (h\<lparr>inArcsPerState := v\<rparr>) = hasLexicalLabel h"
  "outArcsOf (h\<lparr>inArcsPerState := v\<rparr>) = outArcsOf h"
  by (simp_all add: fun_eq_iff inputLabel_def elseHasLexicalOutputLabel_def hasLexicalLabel_def outArcsOf_def)

lemma graphScan_inArcs [simp]: "graphScan (h\<lparr>inArcsPerState := v\<rparr>) ts = graphScan h ts"
  by (induction ts) (simp_all add: Let_def)

lemma isGraphArcImpl_inArcs [simp]: "isGraphArcImpl (h\<lparr>inArcsPerState := v\<rparr>) = isGraphArcImpl h"
  unfolding fun_eq_iff isGraphArcImpl_def Let_def frame_inArcs graphScan_inArcs by simp

lemma checkGraphArcs_inArcs [simp]:
  "checkGraphArcs (h\<lparr>inArcsPerState := v\<rparr>) as fo = checkGraphArcs h as fo"
  by (induction as arbitrary: fo) (auto simp: split: prod.splits)

lemma forArcsOutEveryTail_inArcs [simp]:
  "forArcsOutEveryTail (h\<lparr>inArcsPerState := v\<rparr>) = forArcsOutEveryTail h"
  by (simp add: forArcsOutEveryTail_def)

lemma isGraphCheck_inArcs:
  "\<not> storesInArcs h \<Longrightarrow> isGraphCheck (h\<lparr>inArcsPerState := v\<rparr>) = isGraphCheck h"
  by (simp add: isGraphCheck_def arcsAtLeastOnce_def)

lemma compute_inArcs:
  assumes "\<not> storesInArcs h"
  shows "computeFsmGraphProperty (h\<lparr>inArcsPerState := v\<rparr>) = (computeFsmGraphProperty h)\<lparr>inArcsPerState := v\<rparr>"
proof -
  let ?h1 = "(clearProp kFsmProperties h)\<lparr>fsmChecked := True\<rparr>"
  have e: "(clearProp kFsmProperties (h\<lparr>inArcsPerState := v\<rparr>))\<lparr>fsmChecked := True\<rparr> = ?h1\<lparr>inArcsPerState := v\<rparr>"
    by (simp add: clearProp_def)
  have "\<not> storesInArcs ?h1" using assms by (simp add: storesInArcs_def flag_simps)
  then have c: "isGraphCheck (?h1\<lparr>inArcsPerState := v\<rparr>) = isGraphCheck ?h1" by (rule isGraphCheck_inArcs)
  show ?thesis unfolding computeFsmGraphProperty_def Let_def e c
    by (simp add: setProp_def clearProp_def split: prod.splits)
qed

lemma isFsm_inArcs: "\<not> storesInArcs h \<Longrightarrow> isFsm (h\<lparr>inArcsPerState := v\<rparr>) = isFsm h"
  by (simp add: isFsm_def properties_def compute_inArcs)

lemma forArcsFsm_inArcs [simp]: "forArcsFsm (h\<lparr>inArcsPerState := v\<rparr>) = forArcsFsm h"
proof -
  have "forArcsOutFirstTailAt (h\<lparr>inArcsPerState := v\<rparr>) = forArcsOutFirstTailAt h"
    by (simp add: fun_eq_iff forArcsOutFirstTailAt_def)
  then have "forArcsOutFirstTail (h\<lparr>inArcsPerState := v\<rparr>) = forArcsOutFirstTail h"
    by (simp add: forArcsOutFirstTail_def)
  then show ?thesis unfolding forArcsFsm_def Let_def frame_inArcs by simp
qed

lemma forArcsOutOnceSafe_inArcs [simp]: "forArcsOutOnceSafe (h\<lparr>inArcsPerState := v\<rparr>) = forArcsOutOnceSafe h"
  by (simp add: forArcsOutOnceSafe_def)

lemma upt_split_at: "st < e \<Longrightarrow> [0..<e] = [0..<st] @ st # [Suc st..<e]"
  by (metis le0 less_imp_le_nat upt_add_eq_append upt_conv_Cons le_add_diff_inverse add_0)

lemma count_forArcsFsm:
  assumes "pVocab h \<noteq> None" and "start_state h = kNoState \<or> start_state h < numStates h"
  shows "count_list (forArcsFsm h) a =
    sum_list (map (\<lambda>s. if hasLexicalLabel h s then 0 else count_list (outArcsOf h s) a) [0..<numStates h])"
proof -
  let ?F = "\<lambda>s. if \<not> hasLexicalLabel h s then outArcsOf h s else []"
  have "count_list (?F s) a = (if hasLexicalLabel h s then 0 else count_list (outArcsOf h s) a)" for s
    by simp
  then have all: "count_list (concat (map ?F [0..<numStates h])) a =
      sum_list (map (\<lambda>s. if hasLexicalLabel h s then 0 else count_list (outArcsOf h s) a) [0..<numStates h])"
    by (simp only: count_list_concat_map)
  show ?thesis
  proof (cases "start_state h = kNoState")
    case True
    then show ?thesis using all assms(1) by (auto simp: forArcsFsm_def Let_def)
  next
    case False
    then have lt: "start_state h < numStates h" using assms(2) by simp
    have "count_list (forArcsFsm h) a = count_list (concat (map ?F [0..<numStates h])) a"
      using False assms(1) by (auto simp: forArcsFsm_def Let_def upt_split_at [OF lt])
    then show ?thesis using all by simp
  qed
qed

lemma sum_two_tails:
  assumes "q < n" "l < n"
  shows "sum_list (map (\<lambda>s. if P s then (0::nat) else count_list [q, l] s) [0..<n]) =
    (if P q then 0 else 1) + (if P l then 0 else 1)"
proof -
  have "(if P s then 0 else count_list [q, l] s) =
      (if s = q then (if P q then 0 else 1) else 0) + (if s = l then (if P l then 0 else (1::nat)) else 0)" for s
    by auto
  then have "sum_list (map (\<lambda>s. if P s then (0::nat) else count_list [q, l] s) [0..<n]) =
      sum_list (map (\<lambda>s. (if s = q then (if P q then 0 else 1) else 0) +
        (if s = l then (if P l then 0 else (1::nat)) else 0)) [0..<n])" by (simp only:)
  also have "\<dots> = (if P q then 0 else 1) + (if P l then 0 else 1)"
    using assms by (simp only: sum_list_addf sum_list_indicator if_True)
  finally show ?thesis .
qed

text \<open>How often \<open>forArcsFsm\<close> visits an fsm arc: once for each of its tails without a lexical label.\<close>

lemma forArcsFsm_count:
  assumes wf: "hg_wf h" and st: "storesAllOutArcs h" "\<not> storesFirstTailOutArcs h"
    and v: "pVocab h \<noteq> None" "start_state h = kNoState \<or> start_state h < numStates h"
    and x: "arc_heap h a = Some x" "arc_tails x = [q, l]"
  shows "count_list (forArcsFsm h) a =
    (if hasLexicalLabel h q then 0 else 1) + (if hasLexicalLabel h l then 0 else 1)"
proof -
  have ok: "index_ok out_weight (arc_heap h) (outArcsPerState h)" using wf st by (simp add: hg_wf_def)
  have c: "count_list (outArcsOf h s) a = count_list [q, l] s" for s
    using ok x by (simp add: index_ok_def outArcsOf_def out_weight_def)
  have "q < numStates h" "l < numStates h" using wf x by (auto simp: hg_wf_def arcs_bounded_def)
  then show ?thesis unfolding count_forArcsFsm [OF v] c by (rule sum_two_tails)
qed

section \<open>Building the in-arcs\<close>

lemma forceInArcs_fields:
  assumes "\<not> storesInArcs h" and "forArcs (h\<lparr>inArcsPerState := replicate (length (outArcsPerState h)) []\<rparr>) = Inr as"
  shows "\<exists>h'. forceInArcs h = Inr h' \<and> storesInArcs h' \<and> arc_heap h' = arc_heap h \<and>
    next_arc h' = next_arc h \<and> numStates h' = numStates h \<and>
    storesFirstTailOutArcs h' = storesFirstTailOutArcs h \<and> storesAllOutArcs h' = storesAllOutArcs h \<and>
    outArcsPerState h' = outArcsPerState h \<and>
    inArcsPerState h' = fold (\<lambda>a. in_push (arcAt h a) a) as (replicate (length (outArcsPerState h)) [])"
proof -
  let ?h1 = "h\<lparr>inArcsPerState := replicate (length (outArcsPerState h)) []\<rparr>"
  let ?c = "computeFsmGraphProperty ?h1"
  let ?h' = "setProp kStoreInArcs (fold addArcIn as ?c)"
  note F = fold_addIn [of as ?c]
  have r: "forceInArcs h = Inr ?h'"
    using assms by (simp add: forceInArcs_def reinit_vec_def storesInArcs_def Let_def)
  have p: "props (fold addArcIn as ?c) = props ?c" using F by simp
  have s: "storesInArcs ?h'" "storesFirstTailOutArcs ?h' = storesFirstTailOutArcs ?c"
    "storesAllOutArcs ?h' = storesAllOutArcs ?c"
    by (simp_all add: storesInArcs_def storesFirstTailOutArcs_def storesAllOutArcs_def p flag_simps)
  have "(\<lambda>a. in_push (arcAt ?c a) a) = (\<lambda>a. in_push (arcAt h a) a)" by (simp add: arcAt_def)
  then show ?thesis using r s F by (intro exI [of _ ?h'] conjI) simp_all
qed

lemma forArcs_noIn:
  assumes "\<not> storesInArcs h" "storesOutArcs h"
  shows "forArcs (h\<lparr>inArcsPerState := v\<rparr>) =
    Inr (if storesFirstTailOutArcs h then forArcsOutEveryTail h
         else if isFsm h then forArcsFsm h else forArcsOutOnceSafe h)"
proof -
  have "storesOutArcs (h\<lparr>inArcsPerState := v\<rparr>)" using assms by (simp add: storesOutArcs_cases)
  then show ?thesis using assms
    by (simp add: forArcs_def IHypergraph_forArcs_def forArcsOutOnce_def isFsm_inArcs)
qed

lemma forceInArcs_wf_iff:
  assumes wf: "hg_wf h" and no: "\<not> storesInArcs h"
    and as: "as = (if storesFirstTailOutArcs h then forArcsOutEveryTail h
                   else if isFsm h then forArcsFsm h else forArcsOutOnceSafe h)"
  shows "\<exists>h'. forceInArcs h = Inr h' \<and> storesInArcs h' \<and> arc_heap h' = arc_heap h \<and>
    (\<forall>a x. arc_heap h a = Some x \<longrightarrow> count_list (inArcsOf h' (arc_head x)) a = count_list as a) \<and>
    (arc_enum h as \<longrightarrow> hg_wf h')"
proof -
  have so: "storesOutArcs h" using wf no by (simp add: hg_wf_def storesArcs_cases)
  have f: "forArcs (h\<lparr>inArcsPerState := replicate (length (outArcsPerState h)) []\<rparr>) = Inr as"
    unfolding forArcs_noIn [OF no so] as by (rule refl)
  obtain h' where r: "forceInArcs h = Inr h'" "storesInArcs h'" "arc_heap h' = arc_heap h"
    "next_arc h' = next_arc h" "numStates h' = numStates h"
    "storesFirstTailOutArcs h' = storesFirstTailOutArcs h" "storesAllOutArcs h' = storesAllOutArcs h"
    "outArcsPerState h' = outArcsPerState h"
    "inArcsPerState h' = fold (\<lambda>a. in_push (arcAt h a) a) as (replicate (length (outArcsPerState h)) [])"
    using forceInArcs_fields [OF no f] by blast
  have cnt: "count_list (inArcsOf h' (arc_head x)) a = count_list as a" if "arc_heap h a = Some x" for a x
    unfolding inArcsOf_def r(9) in_ix.fold_push_count using that
    by (simp add: in_weight_def arcAt_def getOrElse_def)
  have b: "arcs_bounded h'" by (rule wf_bounded_same [of h]) (use wf r in \<open>simp_all add: hg_wf_def\<close>)
  have "hg_wf h'" if "arc_enum h as"
    using b r wf in_ix.index_build [OF that] by (simp add: hg_wf_def storesArcs_cases)
  then show ?thesis using r cnt by blast
qed

end
