(* ===== verification/Hg_Arc_Theorems.thy ===== *)
theory Hg_Arc_Theorems
  imports Hg_Index
begin

text \<open>
  What the arc operations of \<open>MutableHypergraph\<close> guarantee: adding, visiting, building and
  clearing, the lazily computed fsm properties, and the largest-state queries. The theorems on
  epsilon-labelled fsms and on repeated first tails show where a visit or a conversion breaks the
  promise of visiting or storing every arc once.
\<close>

section \<open>Sample hypergraphs\<close>

text \<open>
  The states 0, 1 and a label state 2, storing the arcs that \<open>p\<close> asks for, and one fsm arc
  from 0 to 1 labelled by state 2, or an arc that repeats its first tail.
\<close>

definition sample_states :: "Properties \<Rightarrow> Sym \<Rightarrow> nat hg" where
  "sample_states p label = hg_zero\<lparr>props := p, numStates := 3, start_state := 0, final_state := 1,
     iLabelForState := [NoSymbol, NoSymbol, label], pVocab := Some 0\<rparr>"

lemma sample_wf: "has p kStoreAnyArcs \<Longrightarrow> hg_wf (sample_states p label)"
  by (simp add: hg_wf_def arcs_bounded_def sample_states_def hg_zero_def storesArcs_def
      storesInArcs_def storesFirstTailOutArcs_def storesAllOutArcs_def index_empty)

section \<open>Adding an arc\<close>

text \<open>
  Property C1 (adding an arc). \<open>addArc(new Arc(...))\<close> on a well-formed hypergraph whose
  states cover the arc, and which stores in-arcs or is given an arc with a tail, leaves every
  index complete and consistent, and the arcs are the old ones and the new one.
\<close>

theorem addArc_keeps_wf:
  assumes "hg_wf h" and "arc_head x < numStates h" and "\<forall>t \<in> set (arc_tails x). t < numStates h"
    and "storesInArcs h \<or> arc_tails x \<noteq> []" and "addNewArc x h = (a, h')"
  shows "hg_wf h' \<and> arc_heap h' = (arc_heap h)(a \<mapsto> x) \<and> arc_heap h a = None"
  using addNewArc_wf [OF assms] by blast

theorem addArc_keeps_wf_witness:
  "\<exists>a h'. addNewArc (new_arc_fsm 0 2 (7::nat) 1) (sample_states kStoreInArcs (terminal 5)) = (a, h') \<and>
     hg_wf h' \<and> arc_heap h' a = Some (new_arc_fsm 0 2 7 1)"
proof -
  let ?h = "sample_states kStoreInArcs (terminal 5)" and ?x = "new_arc_fsm 0 2 (7::nat) 1"
  obtain a h' where r: "addNewArc ?x ?h = (a, h')" by force
  have w: "hg_wf ?h" by (rule sample_wf) (simp add: flag_simps)
  have b: "arc_head ?x < numStates ?h" "\<forall>t \<in> set (arc_tails ?x). t < numStates ?h"
    "storesInArcs ?h \<or> arc_tails ?x \<noteq> []"
    by (simp_all add: sample_states_def new_arc_fsm_def)
  show ?thesis using addArc_keeps_wf [OF w b r] r by auto
qed

section \<open>Fsm property\<close>

definition fsm_arc_ok :: "'w hg \<Rightarrow> 'w arc \<Rightarrow> bool" where
  "fsm_arc_ok h x \<longleftrightarrow> isFsmArc h x \<and> \<not> isTerminal (inputLabel h (arc_head x))"

lemma isGraphArcImpl_fsm:
  "isGraphArcImpl h x (f, one) = (r, f', one') \<Longrightarrow>
     f' = (f \<and> fsm_arc_ok h x) \<and> (fsm_arc_ok h x \<longrightarrow> r \<and> one' = one)"
  by (auto simp: isGraphArcImpl_def fsm_arc_ok_def isFsmArc_def hasTerminalLabel_def Let_def
      split: if_splits graph_scan.splits)

lemma checkGraphArcs_fsm:
  "checkGraphArcs h as (f, one) = (r, f', one') \<Longrightarrow>
     f' = (f \<and> (\<forall>a \<in> set as. fsm_arc_ok h (arcAt h a))) \<and> (f' \<longrightarrow> r \<and> one' = one)"
proof (induction as arbitrary: f one r f' one')
  case (Cons a as)
  obtain r1 f1 o1 where s: "isGraphArcImpl h (arcAt h a) (f, one) = (r1, f1, o1)" by (metis prod_cases3)
  note I = isGraphArcImpl_fsm [OF s]
  show ?case
  proof (cases r1)
    case True
    then have "checkGraphArcs h as (f1, o1) = (r, f', one')" using Cons.prems s by simp
    from Cons.IH [OF this] show ?thesis using I by auto
  next
    case False
    then show ?thesis using Cons.prems s I by auto
  qed
qed simp

lemma label_reads_checked [simp]:
  "inputLabel (h\<lparr>fsmChecked := b\<rparr>) = inputLabel h" "arcAt (h\<lparr>fsmChecked := b\<rparr>) = arcAt h"
  "storesInArcs (h\<lparr>fsmChecked := b\<rparr>) = storesInArcs h"
  "inArcsOf (h\<lparr>fsmChecked := b\<rparr>) = inArcsOf h" "outArcsOf (h\<lparr>fsmChecked := b\<rparr>) = outArcsOf h"
  by (simp_all add: fun_eq_iff inputLabel_def arcAt_def storesInArcs_def inArcsOf_def outArcsOf_def)

lemma fsm_arc_ok_same:
  "inputLabel h = inputLabel g \<Longrightarrow> fsm_arc_ok h x = fsm_arc_ok g x"
  by (simp add: fsm_arc_ok_def isFsmArc_def hasTerminalLabel_def)

lemma compute_isFsm:
  assumes "\<not> fsmChecked h"
  shows "isFsm h \<longleftrightarrow> \<not> (start_state h = kNoState \<and> final_state h \<noteq> kNoState) \<and>
      (\<forall>a \<in> set (arcsAtLeastOnce h). fsm_arc_ok h (arcAt h a))"
    and "isFsm h \<Longrightarrow> isGraph h \<and> hasAtMostOneLexicalTail h"
proof -
  let ?h1 = "(clearProp kFsmProperties h)\<lparr>fsmChecked := True\<rparr>"
  have lab: "inputLabel ?h1 = inputLabel h" "arcAt ?h1 = arcAt h" by (simp_all add: fun_eq_iff arcAt_def)
  have st: "storesInArcs ?h1 = storesInArcs h" by (simp add: storesInArcs_def flag_simps)
  have adj: "inArcsOf (clearProp kFsmProperties h) = inArcsOf h"
    "outArcsOf (clearProp kFsmProperties h) = outArcsOf h"
    by (simp_all add: fun_eq_iff inArcsOf_def outArcsOf_def)
  have en: "arcsAtLeastOnce ?h1 = arcsAtLeastOnce h"
    using st by (simp add: arcsAtLeastOnce_def forArcsIn_def forArcsOutEveryTail_def adj)
  let ?cfg = "start_state h = kNoState \<and> final_state h \<noteq> kNoState"
  obtain r f one where c: "checkGraphArcs ?h1 (arcsAtLeastOnce h) (True, True) = (r, f, one)"
    by (metis prod_cases3)
  have f: "f = (\<forall>a \<in> set (arcsAtLeastOnce h). fsm_arc_ok h (arcAt h a))" "f \<longrightarrow> r \<and> one"
    using checkGraphArcs_fsm [OF c] fsm_arc_ok_same [OF lab(1)] lab(2) by auto
  have g: "isGraphCheck ?h1 = (if ?cfg then (False, False, one) else (r, f, one))"
    by (simp add: isGraphCheck_def en c Let_def)
  have "properties h = props (computeFsmGraphProperty h)" by (simp add: properties_def)
  also have "\<dots> = (let h1 = ?h1; (g, f, one) = isGraphCheck h1; h2 = (if f then setProp kFsm h1 else h1);
      h3 = (if g then setProp kGraph h2 else h2) in props (if one then setProp kOneLexical h3 else h3))"
    using assms by (simp add: computeFsmGraphProperty_def Let_def split: prod.splits)
  finally have p: "properties h = (let h1 = ?h1; (g, f, one) = isGraphCheck h1;
      h2 = (if f then setProp kFsm h1 else h1);
      h3 = (if g then setProp kGraph h2 else h2) in props (if one then setProp kOneLexical h3 else h3))" .
  have bits: "has (properties h) kFsm \<longleftrightarrow> \<not> ?cfg \<and> f"
    "has (properties h) kGraph \<longleftrightarrow> \<not> ?cfg \<and> r" "has (properties h) kOneLexical \<longleftrightarrow> one"
    unfolding p by (simp_all add: Let_def g flag_simps)
  show "isFsm h \<longleftrightarrow> \<not> ?cfg \<and> (\<forall>a \<in> set (arcsAtLeastOnce h). fsm_arc_ok h (arcAt h a))"
    using bits f by (simp add: isFsm_def)
  show "isFsm h \<Longrightarrow> isGraph h \<and> hasAtMostOneLexicalTail h"
    using bits f by (simp add: isFsm_def isGraph_def hasAtMostOneLexicalTail_def)
qed

lemma arcsAtLeastOnce_set:
  assumes wf: "hg_wf h"
  shows "set (arcsAtLeastOnce h) = dom (arc_heap h)"
proof (cases "storesInArcs h")
  case True
  then show ?thesis using wf_in_enum(1) [OF wf True] by (simp add: arcsAtLeastOnce_def arc_enum_iff)
next
  case False
  note ne = wf_tails_nonempty [OF wf False]
  show ?thesis
  proof (cases "storesFirstTailOutArcs h")
    case True
    then show ?thesis using wf_first_enum(1) [OF wf True ne] False
      by (simp add: arcsAtLeastOnce_def arc_enum_iff)
  next
    case f: False
    then have "storesAllOutArcs h" using wf False
      by (simp add: hg_wf_def storesArcs_cases storesOutArcs_cases)
    then show ?thesis using wf_out_set [OF wf _ f ne] False by (simp add: arcsAtLeastOnce_def)
  qed
qed

lemma isFsm_iff:
  assumes "hg_wf h" and "\<not> fsmChecked h"
  shows "isFsm h \<longleftrightarrow> \<not> (start_state h = kNoState \<and> final_state h \<noteq> kNoState) \<and>
     (\<forall>a x. arc_heap h a = Some x \<longrightarrow> isFsmArc h x \<and> \<not> hasTerminalLabel h (arc_head x))"
proof -
  have "(\<forall>a \<in> set (arcsAtLeastOnce h). fsm_arc_ok h (arcAt h a)) \<longleftrightarrow>
      (\<forall>a x. arc_heap h a = Some x \<longrightarrow> isFsmArc h x \<and> \<not> hasTerminalLabel h (arc_head x))"
    unfolding arcsAtLeastOnce_set [OF assms(1)]
    by (auto simp: fsm_arc_ok_def arcAt_def hasTerminalLabel_def dom_def)
  then show ?thesis using compute_isFsm [OF assms(2)] by simp
qed

text \<open>
  The computed fsm property. When it has to be recomputed, \<open>isFsm()\<close> is true
  exactly if every live arc has two tails, of which only the second is terminal, and a
  nonterminal head, and the hypergraph is not one with a final and no start state; an fsm is also
  a graph with at most one lexical tail. The early exit of the check loses nothing.
\<close>

theorem isFsm_correct:
  assumes "hg_wf h" and "\<not> fsmChecked h"
  shows "(isFsm h \<longleftrightarrow>
           \<not> (start_state h = kNoState \<and> final_state h \<noteq> kNoState) \<and>
           (\<forall>a x. arc_heap h a = Some x \<longrightarrow>
              isFsmArc h x \<and> \<not> hasTerminalLabel h (arc_head x))) \<and>
         (isFsm h \<longrightarrow> isGraph h \<and> hasAtMostOneLexicalTail h)"
  using isFsm_iff [OF assms] compute_isFsm(2) [OF assms(2)] by blast

theorem isFsm_correct_witness:
  "isFsm (sample_states kStoreInArcs (terminal 5)) \<and> isGraph (sample_states kStoreInArcs (terminal 5))"
proof -
  let ?h = "sample_states kStoreInArcs (terminal 5)"
  have w: "hg_wf ?h" by (rule sample_wf) (simp add: flag_simps)
  have c: "\<not> fsmChecked ?h" by (simp add: sample_states_def hg_zero_def)
  have e: "arc_heap ?h a = None" "start_state ?h = 0" for a by (simp_all add: sample_states_def hg_zero_def)
  show ?thesis using isFsm_correct [OF w c] e by (simp add: kNoState_def)
qed

section \<open>Visiting and building\<close>

lemma forArcs_enum:
  assumes wf: "hg_wf h" and st: "storesInArcs h \<or> storesFirstTailOutArcs h \<or> \<not> isFsm h"
  shows "\<exists>as. forArcs h = Inr as \<and> arc_enum h as"
proof (cases "storesInArcs h")
  case True
  then show ?thesis using wf_in_enum(1) [OF wf True] by (simp add: forArcs_def)
next
  case no: False
  note ne = wf_tails_nonempty [OF wf no]
  have so: "storesOutArcs h" using wf no by (simp add: hg_wf_def storesArcs_cases)
  show ?thesis
  proof (cases "storesFirstTailOutArcs h")
    case True
    then show ?thesis using wf_first_enum(1) [OF wf True ne] no by (simp add: forArcs_def)
  next
    case False
    then show ?thesis using wf_once_enum [OF wf so ne] no so st
      by (simp add: forArcs_def IHypergraph_forArcs_def forArcsOutOnce_def)
  qed
qed

text \<open>
  Property C12 (visiting every arc once). \<open>forArcs(v)\<close> on a well-formed hypergraph that stores
  in-arcs or first-tail out-arcs, or is not an fsm, calls the visitor on each live arc exactly
  once and on nothing else.
\<close>

theorem forArcs_visits_once:
  assumes "hg_wf h" and "storesInArcs h \<or> storesFirstTailOutArcs h \<or> \<not> isFsm h"
  shows "\<exists>as. forArcs h = Inr as \<and> distinct as \<and> set as = dom (arc_heap h)"
  using forArcs_enum [OF assms] by (simp add: arc_enum_iff)

definition sample_fsm :: "Properties \<Rightarrow> Sym \<Rightarrow> nat hg" where
  "sample_fsm p label = snd (addNewArc (new_arc_fsm 0 2 7 1) (sample_states p label))"

lemma sample_fsm_facts:
  assumes "has p kStoreAnyArcs"
  shows "hg_wf (sample_fsm p label)" and "arc_heap (sample_fsm p label) = [0 \<mapsto> new_arc_fsm 0 2 7 1]"
    and "\<not> fsmChecked (sample_fsm p label)" and "pVocab (sample_fsm p label) = Some 0"
    and "start_state (sample_fsm p label) = 0" and "numStates (sample_fsm p label) = 3"
    and "iLabelForState (sample_fsm p label) = [NoSymbol, NoSymbol, label]"
    and "oLabelForState (sample_fsm p label) = []"
    and "storesInArcs (sample_fsm p label) = has p kStoreInArcs"
    and "storesAllOutArcs (sample_fsm p label) = has p kStoreOutArcs"
    and "storesFirstTailOutArcs (sample_fsm p label) = has p kStoreFirstTailOutArcs"
proof -
  let ?h = "sample_states p label" and ?x = "new_arc_fsm 0 2 7 1"
  obtain a h' where r: "addNewArc ?x ?h = (a, h')" by force
  have w: "hg_wf ?h" by (rule sample_wf [OF assms])
  have b: "arc_head ?x < numStates ?h" "\<forall>t \<in> set (arc_tails ?x). t < numStates ?h"
    "storesInArcs ?h \<or> arc_tails ?x \<noteq> []"
    by (simp_all add: sample_states_def new_arc_fsm_def)
  have s: "sample_fsm p label = h'" by (simp only: sample_fsm_def r snd_conv)
  show "hg_wf (sample_fsm p label)" "arc_heap (sample_fsm p label) = [0 \<mapsto> ?x]"
    using addNewArc_wf [OF w b r] by (simp_all add: s sample_states_def hg_zero_def)
  have h': "h' = addArc a (snd (newArc ?x ?h))" using r by (auto simp: addNewArc_def newArc_def Let_def)
  show "\<not> fsmChecked (sample_fsm p label)" "pVocab (sample_fsm p label) = Some 0"
    "start_state (sample_fsm p label) = 0" "iLabelForState (sample_fsm p label) = [NoSymbol, NoSymbol, label]"
    "oLabelForState (sample_fsm p label) = []"
    by (simp_all add: s h' addArc_def newArc_def notifyArcImpl_def sample_states_def hg_zero_def Let_def)
  show "numStates (sample_fsm p label) = 3"
    by (simp add: s h' addArc_fields newArc_def sample_states_def)
  show "storesInArcs (sample_fsm p label) = has p kStoreInArcs"
    "storesAllOutArcs (sample_fsm p label) = has p kStoreOutArcs"
    "storesFirstTailOutArcs (sample_fsm p label) = has p kStoreFirstTailOutArcs"
    by (simp_all add: s h' addArc_fields)
      (simp_all add: newArc_def sample_states_def storesInArcs_def storesAllOutArcs_def storesFirstTailOutArcs_def)
qed

lemma sample_fsm_isFsm:
  assumes "has p kStoreAnyArcs" and "isTerminal label"
  shows "isFsm (sample_fsm p label)"
  using isFsm_iff [of "sample_fsm p label"] assms
  by (simp add: sample_fsm_facts [OF assms(1)] isFsmArc_def hasTerminalLabel_def inputLabel_def
      getOrElse_def new_arc_fsm_def kNoState_def sym_op_defs sym_consts)

theorem forArcs_visits_once_witness:
  "\<exists>as. forArcs (sample_fsm kStoreFirstTailOutArcs (terminal 5)) = Inr as \<and> distinct as \<and> set as = {0}"
proof -
  let ?h = "sample_fsm kStoreFirstTailOutArcs (terminal 5)"
  have p: "has kStoreFirstTailOutArcs kStoreAnyArcs" by (simp add: flag_simps)
  have "storesFirstTailOutArcs ?h" by (simp add: sample_fsm_facts [OF p] flag_simps)
  then show ?thesis using forArcs_visits_once [of ?h] sample_fsm_facts [OF p] by simp
qed

text \<open>
  Visiting an fsm by its out-arcs. With all out-arcs stored and a vocabulary set,
  \<open>forArcsFsm\<close> skips the states that carry a lexical label, expecting these to be the label
  states. So it visits an fsm arc once when its label is lexical, and twice when its label is not,
  as for epsilon, although \<open>forArcs\<close> promises \<open>exactly once for each a\<close>.
\<close>

theorem forArcsFsm_visits:
  assumes "hg_wf h" and "storesAllOutArcs h" and "\<not> storesFirstTailOutArcs h"
    and "pVocab h \<noteq> None" and "start_state h = kNoState \<or> start_state h < numStates h"
    and "arc_heap h a = Some x" and "arc_tails x = [q, l]" and "\<not> hasLexicalLabel h q"
  shows "count_list (forArcsFsm h) a = (if hasLexicalLabel h l then 1 else 2)"
  using forArcsFsm_count [OF assms(1-7)] assms(8) by simp

theorem forArcsFsm_visits_witness:
  "count_list (forArcsFsm (sample_fsm kStoreOutArcs EPSILON_ID)) 0 = 2 \<and>
   count_list (forArcsFsm (sample_fsm kStoreOutArcs (terminal 5))) 0 = 1"
proof -
  have p: "has kStoreOutArcs kStoreAnyArcs" by (simp add: flag_simps)
  note F = sample_fsm_facts [OF p]
  have "count_list (forArcsFsm (sample_fsm kStoreOutArcs l)) 0 =
      (if hasLexicalLabel (sample_fsm kStoreOutArcs l) 2 then 1 else 2)" for l
    by (rule forArcsFsm_visits [where x = "new_arc_fsm 0 2 7 1" and q = 0])
      (simp_all add: F new_arc_fsm_def hasLexicalLabel_def flag_simps sym_op_defs sym_consts)
  then show ?thesis
    by (simp add: hasLexicalLabel_def F sym_op_defs sym_consts EPSILON_ID_def)
qed

text \<open>
  Property C9 (building the in-arcs). \<open>forceInArcs\<close> on a well-formed hypergraph that stores
  in-arcs or first-tail out-arcs already, or is not an fsm, does not throw, keeps every arc and
  yields a well-formed hypergraph that also stores its in-arcs.
\<close>

theorem forceInArcs_correct:
  assumes "hg_wf h" and "storesInArcs h \<or> storesFirstTailOutArcs h \<or> \<not> isFsm h"
  shows "\<exists>h'. forceInArcs h = Inr h' \<and> hg_wf h' \<and> storesInArcs h' \<and> arc_heap h' = arc_heap h"
proof (cases "storesInArcs h")
  case True
  then show ?thesis using assms(1) by (auto simp: forceInArcs_def storesInArcs_def)
next
  case no: False
  let ?as = "if storesFirstTailOutArcs h then forArcsOutEveryTail h
             else if isFsm h then forArcsFsm h else forArcsOutOnceSafe h"
  have "forArcs h = Inr ?as"
    using forArcs_noIn [OF no, of "inArcsPerState h"] assms(1) no by (simp add: hg_wf_def storesArcs_cases)
  then have "arc_enum h ?as" using forArcs_enum [OF assms] by auto
  then show ?thesis using forceInArcs_wf_iff [OF assms(1) no refl] by blast
qed

theorem forceInArcs_correct_witness:
  "\<exists>h'. forceInArcs (sample_fsm kStoreFirstTailOutArcs (terminal 5)) = Inr h' \<and> hg_wf h' \<and>
     storesInArcs h' \<and> arc_heap h' = [0 \<mapsto> new_arc_fsm 0 2 7 1]"
proof -
  let ?h = "sample_fsm kStoreFirstTailOutArcs (terminal 5)"
  have p: "has kStoreFirstTailOutArcs kStoreAnyArcs" by (simp add: flag_simps)
  have "storesFirstTailOutArcs ?h" by (simp add: sample_fsm_facts [OF p] flag_simps)
  then show ?thesis using forceInArcs_correct [of ?h] sample_fsm_facts [OF p] by simp
qed

text \<open>
  Epsilon arcs are doubled. When an fsm stores all its out-arcs and not its
  in-arcs, \<open>forceInArcs\<close> enters an arc with a non-lexical label twice under its head; the
  result is not well-formed (deleting its arcs would free this one twice).
\<close>

theorem forceInArcs_doubles_epsilon:
  assumes "hg_wf h" and "storesAllOutArcs h" and "\<not> storesFirstTailOutArcs h" and "\<not> storesInArcs h"
    and "isFsm h" and "pVocab h \<noteq> None" and "start_state h = kNoState \<or> start_state h < numStates h"
    and "arc_heap h a = Some x" and "arc_tails x = [q, l]"
    and "\<not> hasLexicalLabel h q" and "\<not> hasLexicalLabel h l"
  shows "\<exists>h'. forceInArcs h = Inr h' \<and> count_list (inArcsOf h' (arc_head x)) a = 2 \<and> \<not> hg_wf h'"
proof -
  have c: "count_list (forArcsFsm h) a = 2"
    using forArcsFsm_count [OF assms(1-3,6-9)] assms(10,11) by simp
  obtain h' where r: "forceInArcs h = Inr h'" "storesInArcs h'" "arc_heap h' = arc_heap h"
    "\<And>a x. arc_heap h a = Some x \<Longrightarrow>
       count_list (inArcsOf h' (arc_head x)) a = count_list (forArcsFsm h) a"
    using forceInArcs_wf_iff [OF assms(1) assms(4) refl] assms(3,5) by auto
  have two: "count_list (inArcsOf h' (arc_head x)) a = 2" using r(4) [OF assms(8)] c by simp
  have "\<not> hg_wf h'"
  proof
    assume "hg_wf h'"
    then have "index_ok in_weight (arc_heap h') (inArcsPerState h')" using r(2) by (simp add: hg_wf_def)
    then have "count_list (inArcsOf h' (arc_head x)) a = 1"
      using r(3) assms(8) by (simp add: index_ok_def inArcsOf_def in_weight_def)
    then show False using two by simp
  qed
  then show ?thesis using r two by blast
qed

theorem forceInArcs_doubles_epsilon_witness:
  "\<exists>h'. forceInArcs (sample_fsm kStoreOutArcs EPSILON_ID) = Inr h' \<and> count_list (inArcsOf h' 1) 0 = 2"
proof -
  have p: "has kStoreOutArcs kStoreAnyArcs" by (simp add: flag_simps)
  note F = sample_fsm_facts [OF p, of EPSILON_ID]
  have t: "isTerminal EPSILON_ID" and lex: "\<not> isLexical EPSILON_ID" "\<not> isLexical NoSymbol"
    by (simp_all add: sym_op_defs sym_consts EPSILON_ID_def)
  have "\<exists>h'. forceInArcs (sample_fsm kStoreOutArcs EPSILON_ID) = Inr h' \<and>
      count_list (inArcsOf h' (arc_head (new_arc_fsm 0 2 (7::nat) 1))) 0 = 2 \<and> \<not> hg_wf h'"
    by (rule forceInArcs_doubles_epsilon [where q = 0 and l = 2])
      (simp_all add: F sample_fsm_isFsm [OF p t] new_arc_fsm_def hasLexicalLabel_def flag_simps lex)
  then show ?thesis by (auto simp: new_arc_fsm_def)
qed

text \<open>
  Building all out-arcs. \<open>forceOutArcs\<close> never throws on a well-formed
  hypergraph, keeps every arc, and yields a well-formed hypergraph with an entry under each tail
  of each arc, whatever was stored before.
\<close>

theorem forceOutArcs_correct:
  assumes "hg_wf h"
  shows "\<exists>h'. forceOutArcs h = Inr h' \<and> hg_wf h' \<and> storesAllOutArcs h' \<and> arc_heap h' = arc_heap h"
  by (rule forceOutArcs_wf [OF assms])

theorem forceOutArcs_correct_witness:
  "\<exists>h'. forceOutArcs (sample_fsm kStoreInArcs (terminal 5)) = Inr h' \<and> hg_wf h' \<and> storesAllOutArcs h' \<and>
     arc_heap h' = arc_heap (sample_fsm kStoreInArcs (terminal 5))"
  by (rule forceOutArcs_correct [OF sample_fsm_facts(1)]) (simp add: flag_simps)

text \<open>
  Converting to first-tail out-arcs. From all out-arcs, \<open>forceFirstTailOutArcs\<close>
  filters each list in place. The result is well-formed exactly when no arc has its first tail
  again among its other tails; such an arc was listed twice under that state and both entries
  survive. (The comment in \<open>forceInArcs\<close> calls this the pitfall of the first tail being a
  repeat.)
\<close>

theorem forceFirstTailOutArcs_correct:
  assumes "hg_wf h" and "storesAllOutArcs h" and "\<not> storesFirstTailOutArcs h"
  shows "\<exists>h'. forceFirstTailOutArcs h = Inr h' \<and> storesFirstTailOutArcs h' \<and> arc_heap h' = arc_heap h \<and>
    (hg_wf h' \<longleftrightarrow> (\<forall>a x. arc_heap h a = Some x \<and> arc_tails x \<noteq> [] \<longrightarrow>
                       hd (arc_tails x) \<notin> set (tl (arc_tails x))))"
  by (rule forceFirstTailOutArcs_convert [OF assms])

theorem forceFirstTailOutArcs_correct_witness:
  "\<exists>h' h''. forceFirstTailOutArcs (sample_fsm kStoreOutArcs (terminal 5)) = Inr h' \<and> hg_wf h' \<and>
     forceFirstTailOutArcs (snd (addNewArc (new_arc_fsm 0 0 8 1) (sample_fsm kStoreOutArcs (terminal 5)))) = Inr h'' \<and>
     \<not> hg_wf h''"
proof -
  let ?h = "sample_fsm kStoreOutArcs (terminal 5)" and ?x = "new_arc_fsm 0 0 (8::nat) 1"
  have p: "has kStoreOutArcs kStoreAnyArcs" by (simp add: flag_simps)
  note F = sample_fsm_facts [OF p]
  have st: "storesAllOutArcs ?h" "\<not> storesFirstTailOutArcs ?h" by (simp_all add: F flag_simps)
  obtain a g where r: "addNewArc ?x ?h = (a, g)" by force
  have b: "arc_head ?x < numStates ?h" "\<forall>t \<in> set (arc_tails ?x). t < numStates ?h"
    "storesInArcs ?h \<or> arc_tails ?x \<noteq> []" by (simp_all add: F new_arc_fsm_def)
  note W = addNewArc_wf [OF F(1) b r]
  have gs: "storesAllOutArcs g" "\<not> storesFirstTailOutArcs g"
    using r st by (auto simp: addNewArc_def newArc_def addArc_fields Let_def)
      (simp_all add: storesAllOutArcs_def storesFirstTailOutArcs_def)
  have "arc_heap g a = Some ?x" using W by simp
  then have rep: "\<not> (\<forall>a x. arc_heap g a = Some x \<and> arc_tails x \<noteq> [] \<longrightarrow>
      hd (arc_tails x) \<notin> set (tl (arc_tails x)))" by (force simp: new_arc_fsm_def)
  have ok: "\<forall>a x. arc_heap ?h a = Some x \<and> arc_tails x \<noteq> [] \<longrightarrow> hd (arc_tails x) \<notin> set (tl (arc_tails x))"
    by (simp add: F new_arc_fsm_def)
  have "\<exists>h'. forceFirstTailOutArcs ?h = Inr h' \<and> hg_wf h'"
    using forceFirstTailOutArcs_correct [OF F(1) st] ok by blast
  moreover have "\<exists>h''. forceFirstTailOutArcs g = Inr h'' \<and> \<not> hg_wf h''"
    using forceFirstTailOutArcs_correct [OF _ gs] rep W by blast
  ultimately show ?thesis using r by auto
qed

section \<open>Clearing\<close>

lemma fold_deleteArc:
  "arc_heap (fold deleteArc as h) = arc_heap h |` (- set as) \<and>
   props (fold deleteArc as h) = props h \<and> next_arc (fold deleteArc as h) = next_arc h"
proof (induction as arbitrary: h)
  case (Cons a as)
  have "arc_heap (deleteArc a h) |` (- set as) = arc_heap h |` (- set (a # as))"
    by (auto simp: fun_eq_iff restrict_map_def deleteArc_def)
  moreover have "props (deleteArc a h) = props h" "next_arc (deleteArc a h) = next_arc h"
    by (simp_all add: deleteArc_def)
  ultimately show ?case using Cons [of "deleteArc a h"] by simp
qed (simp add: restrict_map_def)

lemma forArcsSafe_enum:
  assumes wf: "hg_wf h" shows "arc_enum h (forArcsSafe h)"
proof (cases "storesInArcs h")
  case True
  then show ?thesis using wf_in_enum(1) [OF wf True] by (simp add: forArcsSafe_def)
next
  case False
  then have "storesOutArcs h" using wf by (simp add: hg_wf_def storesArcs_cases)
  then show ?thesis using wf_once_enum [OF wf _ wf_tails_nonempty [OF wf False]] False
    by (simp add: forArcsSafe_def)
qed

text \<open>
  Clearing frees each arc once. Deleting the arcs of a well-formed hypergraph
  visits every live arc, and none twice, so \<open>clear\<close> leaves no arc alive and frees none
  twice; the cleared hypergraph is empty and well-formed.
\<close>

theorem clear_frees_all:
  assumes "hg_wf h"
  shows "distinct (forArcsSafe h) \<and> set (forArcsSafe h) = dom (arc_heap h) \<and>
    arc_heap (clear h) = Map.empty \<and> numStates (clear h) = 0 \<and>
    start_state (clear h) = kNoState \<and> final_state (clear h) = kNoState \<and>
    lstate (clear h) = Map.empty \<and> hg_wf (clear h)"
proof -
  have e: "distinct (forArcsSafe h) \<and> set (forArcsSafe h) = dom (arc_heap h)"
    using forArcsSafe_enum [OF assms] by (simp add: arc_enum_iff)
  let ?c = "clearImpl (props h) h"
  have m: "f |` (- dom f) = Map.empty" for f :: "nat \<Rightarrow> 'a arc option"
    by (auto simp: fun_eq_iff restrict_map_def domIff)
  have H: "arc_heap ?c = Map.empty"
    using fold_deleteArc [of "forArcsSafe h" h] e
    by (simp add: clearImpl_def clearStates_def clearLabelImpl_def clearArcsPer_def deleteArcs_def m)
  have c: "numStates ?c = 0" "start_state ?c = kNoState" "final_state ?c = kNoState"
    "lstate ?c = Map.empty" "inArcsPerState ?c = []" "outArcsPerState ?c = []"
    "props ?c = props h OR kFsmProperties" "fsmChecked ?c"
    by (simp_all add: clearImpl_def clearStates_def clearLabelImpl_def clearArcsPer_def)
  have k: "clear h = setProperties (props (clear h)) ?c" and p: "has (props (clear h)) kStoreAnyArcs = has (props h) kStoreAnyArcs"
    using c(7,8) by (simp_all add: clear_def clear_hg_def computeFsmGraphProperty_def setProperties_def Let_def flag_simps)
  have f: "arc_heap (clear h) = Map.empty" "numStates (clear h) = 0" "start_state (clear h) = kNoState"
    "final_state (clear h) = kNoState" "lstate (clear h) = Map.empty" "inArcsPerState (clear h) = []"
    "outArcsPerState (clear h) = []"
    by (subst k, simp add: setProperties_def c H)+
  have "hg_wf (clear h)" using assms f p
    by (simp add: hg_wf_def arcs_bounded_def storesArcs_def index_empty)
  then show ?thesis using e f by simp
qed

theorem clear_frees_all_witness:
  "forArcsSafe (sample_fsm kStoreOutArcs (terminal 5)) = [0] \<and>
   arc_heap (clear (sample_fsm kStoreOutArcs (terminal 5))) = Map.empty"
proof -
  have p: "has kStoreOutArcs kStoreAnyArcs" by (simp add: flag_simps)
  note F = sample_fsm_facts [OF p, of "terminal 5"]
  have c: "distinct (forArcsSafe (sample_fsm kStoreOutArcs (terminal 5))) \<and>
      set (forArcsSafe (sample_fsm kStoreOutArcs (terminal 5))) = {0}"
    using clear_frees_all [OF F(1)] F(2) by simp
  then have "forArcsSafe (sample_fsm kStoreOutArcs (terminal 5)) = [0]"
    by (cases "forArcsSafe (sample_fsm kStoreOutArcs (terminal 5))")
      (auto simp: subset_singleton_iff)
  then show ?thesis using clear_frees_all [OF F(1)] by simp
qed

section \<open>Largest states\<close>

definition opt_max :: "StateId set \<Rightarrow> StateId" where
  "opt_max S = (if S = {} then kNoState else Max S)"

lemma lastWith_opt_max: "lastWith P n = opt_max {s. s < n \<and> P s}"
proof (induction n)
  case (Suc n)
  have f: "finite {s. s < n \<and> P s}" by simp
  show ?case
  proof (cases "P n")
    case True
    then have "{s. s < Suc n \<and> P s} = insert n {s. s < n \<and> P s}" by (auto simp: less_Suc_eq)
    moreover have "Max (insert n {s. s < n \<and> P s}) = n" by (rule Max_eqI) (auto simp: f)
    ultimately show ?thesis using True by (simp add: opt_max_def)
  next
    case False
    then have "{s. s < Suc n \<and> P s} = {s. s < n \<and> P s}" by (auto simp: less_Suc_eq)
    then show ?thesis using Suc False by simp
  qed
qed (simp add: opt_max_def)

lemma opt_max_none: "finite S \<Longrightarrow> kNoState \<notin> S \<Longrightarrow> opt_max S = kNoState \<longleftrightarrow> S = {}"
  using Max_in [of S] by (metis opt_max_def)

lemma accMax_opt_max:
  assumes "finite S" "kNoState \<notin> S"
  shows "accMax m (opt_max S) = opt_max (insert m S)"
proof (cases "S = {}")
  case True
  then show ?thesis by (simp add: accMax_def opt_max_def)
next
  case False
  moreover have "accMax m (opt_max S) = max m (Max S)"
    using False opt_max_none [OF assms] by (simp add: accMax_def max_def) (simp add: opt_max_def)
  ultimately show ?thesis using assms(1) by (simp add: opt_max_def)
qed

lemma fold_accMax:
  assumes "finite S" "kNoState \<notin> S" "\<And>a. a \<in> set as \<Longrightarrow> f a \<noteq> kNoState"
  shows "fold (\<lambda>a. accMax (f a)) as (opt_max S) = opt_max (S \<union> f ` set as)"
  using assms
proof (induction as arbitrary: S)
  case (Cons a as)
  have "accMax (f a) (opt_max S) = opt_max (insert (f a) S)"
    by (rule accMax_opt_max) (use Cons.prems in auto)
  moreover have "kNoState \<notin> insert (f a) S" using Cons.prems(2) Cons.prems(3) [of a] by auto
  then have "fold (\<lambda>a. accMax (f a)) as (opt_max (insert (f a) S)) = opt_max (insert (f a) S \<union> f ` set as)"
    using Cons.IH [of "insert (f a) S"] Cons.prems(1,3) by simp
  ultimately show ?case by simp
qed simp

lemma numOutArcs_pos: "numOutArcs h s \<noteq> 0 \<longleftrightarrow> outArcsOf h s \<noteq> []"
  by (simp add: numOutArcs_def outArcsOf_def getOrElse_def)

lemma numInArcs_pos: "numInArcs h s \<noteq> 0 \<longleftrightarrow> inArcsOf h s \<noteq> []"
  by (simp add: numInArcs_def inArcsOf_def getOrElse_def)

lemma nonempty_index:
  assumes "index_ok w (arc_heap h) adj"
  shows "getOrElse adj s [] \<noteq> [] \<longleftrightarrow> (\<exists>x \<in> ran (arc_heap h). 0 < w x s)"
proof -
  have "getOrElse adj s [] \<noteq> [] \<longleftrightarrow> (\<exists>a. a \<in> set (getOrElse adj s []))"
    by (cases "getOrElse adj s []") auto
  then show ?thesis unfolding index_member [OF assms] by (auto simp: ran_def)
qed

lemma maxHead_max:
  assumes wf: "hg_wf h" and n: "numStates h \<le> kNoState"
  shows "maxHead h = opt_max (arc_head ` ran (arc_heap h))"
proof (cases "storesInArcs h")
  case True
  have b: "arc_head x < numStates h" if "x \<in> ran (arc_heap h)" for x
    using that wf by (auto simp: ran_def hg_wf_def arcs_bounded_def)
  have ok: "index_ok in_weight (arc_heap h) (inArcsPerState h)" using wf True by (simp add: hg_wf_def)
  have "{s. s < numStates h \<and> numInArcs h s \<noteq> 0} = arc_head ` ran (arc_heap h)"
    unfolding numInArcs_pos inArcsOf_def nonempty_index [OF ok] using b by (auto simp: in_weight_def split: if_splits)
  moreover have "lastWith (\<lambda>s. numInArcs h s \<noteq> 0) 0 = kNoState" by simp
  ultimately show ?thesis using True lastWith_opt_max [of "\<lambda>s. numInArcs h s \<noteq> 0" "numStates h"]
    by (auto simp: maxHead_def)
next
  case False
  then have so: "storesOutArcs h" using wf by (simp add: hg_wf_def storesArcs_cases)
  have d: "set (forArcsOutEveryTail h) = dom (arc_heap h)"
    using arcsAtLeastOnce_set [OF wf] False by (simp add: arcsAtLeastOnce_def)
  have im: "(\<lambda>a. arc_head (arcAt h a)) ` dom (arc_heap h) = arc_head ` ran (arc_heap h)"
    by (force simp: ran_def dom_def arcAt_def image_iff)
  have nn: "arc_head (arcAt h a) \<noteq> kNoState" if "a \<in> set (forArcsOutEveryTail h)" for a
    using that wf n unfolding d by (force simp: hg_wf_def arcs_bounded_def arcAt_def)
  have "fold (\<lambda>a. accMax (arc_head (arcAt h a))) (forArcsOutEveryTail h) (opt_max {}) =
      opt_max ({} \<union> (\<lambda>a. arc_head (arcAt h a)) ` set (forArcsOutEveryTail h))"
    by (rule fold_accMax) (use nn in auto)
  then have fo: "fold (\<lambda>a. accMax (arc_head (arcAt h a))) (forArcsOutEveryTail h) kNoState =
      opt_max (arc_head ` ran (arc_heap h))" by (simp add: opt_max_def d im)
  show ?thesis
  proof (cases "numStates h = 0")
    case True
    then have "arc_head ` ran (arc_heap h) = {}" using wf by (auto simp: ran_def hg_wf_def arcs_bounded_def)
    then show ?thesis using True by (simp add: maxHead_def opt_max_def)
  next
    case pos: False
    then show ?thesis using False so fo by (simp add: maxHead_def)
  qed
qed

definition seen_tails :: "'w hg \<Rightarrow> 'w arc \<Rightarrow> StateId set" where
  "seen_tails h x =
     (if storesFirstTailOutArcs h then (if arc_tails x = [] then {} else {hd (arc_tails x)})
      else set (arc_tails x))"

lemma fold_max_tails:
  assumes "finite S" "kNoState \<notin> S" "\<And>a. a \<in> set as \<Longrightarrow> kNoState \<notin> set (f a)"
  shows "fold (\<lambda>a r. let tails = f a in if tails = [] then r else accMax (Max (set tails)) r) as (opt_max S) =
    opt_max (S \<union> (\<Union>a \<in> set as. set (f a)))"
  using assms
proof (induction as arbitrary: S)
  case (Cons a as)
  have "(let tails = f a in if tails = [] then opt_max S else accMax (Max (set tails)) (opt_max S)) =
      opt_max (S \<union> set (f a))"
  proof (cases "f a = []")
    case False
    have "opt_max (insert (Max (set (f a))) S) = opt_max (S \<union> set (f a))"
    proof (cases "S = {}")
      case ne: False
      then have "Max (S \<union> set (f a)) = max (Max S) (Max (set (f a)))"
        using Cons.prems(1) False by (intro Max_Un) auto
      then show ?thesis using ne False Cons.prems(1) by (simp add: opt_max_def max.commute)
    qed (use False in \<open>simp add: opt_max_def\<close>)
    then show ?thesis using False accMax_opt_max [OF Cons.prems(1,2)] by simp
  qed simp
  moreover have "fold (\<lambda>a r. let tails = f a in if tails = [] then r else accMax (Max (set tails)) r) as
      (opt_max (S \<union> set (f a))) = opt_max ((S \<union> set (f a)) \<union> (\<Union>a \<in> set as. set (f a)))"
    by (rule Cons.IH) (use Cons.prems in auto)
  ultimately show ?case by (simp add: Un_assoc)
qed simp

lemma maxTail_max:
  assumes wf: "hg_wf h" and n: "numStates h \<le> kNoState"
  shows "maxTail h = opt_max (\<Union>x \<in> ran (arc_heap h). seen_tails h x)"
proof (cases "storesOutArcs h")
  case True
  have b: "seen_tails h x \<subseteq> {..<numStates h}" if "x \<in> ran (arc_heap h)" for x
    using that wf by (auto simp: ran_def hg_wf_def arcs_bounded_def seen_tails_def split: if_splits)
  have "outArcsOf h s \<noteq> [] \<longleftrightarrow> (\<exists>x \<in> ran (arc_heap h). s \<in> seen_tails h x)" for s
  proof (cases "storesFirstTailOutArcs h")
    case f: True
    then have ok: "index_ok first_weight (arc_heap h) (outArcsPerState h)" using wf by (simp add: hg_wf_def)
    show ?thesis unfolding outArcsOf_def nonempty_index [OF ok]
      using f by (auto simp: first_weight_def seen_tails_def split: if_splits)
  next
    case f: False
    then have ok: "index_ok out_weight (arc_heap h) (outArcsPerState h)" using wf True
      by (simp add: hg_wf_def storesOutArcs_cases)
    show ?thesis unfolding outArcsOf_def nonempty_index [OF ok]
      using f by (simp add: out_weight_def seen_tails_def count_list_pos)
  qed
  then have "{s. s < numStates h \<and> numOutArcs h s \<noteq> 0} = (\<Union>x \<in> ran (arc_heap h). seen_tails h x)"
    using b unfolding numOutArcs_pos by fastforce
  moreover have "lastWith (\<lambda>s. numOutArcs h s \<noteq> 0) 0 = kNoState" by simp
  ultimately show ?thesis using True lastWith_opt_max [of "\<lambda>s. numOutArcs h s \<noteq> 0" "numStates h"]
    by (auto simp: maxTail_def)
next
  case False
  then have st: "storesInArcs h" "\<not> storesFirstTailOutArcs h"
    using wf by (auto simp: hg_wf_def storesArcs_cases storesOutArcs_cases)
  have d: "set (forArcsIn h) = dom (arc_heap h)" using wf_in_enum(1) [OF wf st(1)] by (simp add: arc_enum_iff)
  have im: "(\<Union>a \<in> dom (arc_heap h). set (arc_tails (arcAt h a))) = (\<Union>x \<in> ran (arc_heap h). seen_tails h x)"
    using st(2) by (force simp: ran_def dom_def arcAt_def seen_tails_def)
  have nn: "kNoState \<notin> set (arc_tails (arcAt h a))" if "a \<in> set (forArcsIn h)" for a
    using that wf n unfolding d by (force simp: hg_wf_def arcs_bounded_def arcAt_def)
  have "fold (\<lambda>a r. let tails = arc_tails (arcAt h a) in if tails = [] then r else accMax (Max (set tails)) r)
      (forArcsIn h) (opt_max {}) = opt_max ({} \<union> (\<Union>a \<in> set (forArcsIn h). set (arc_tails (arcAt h a))))"
    by (rule fold_max_tails) (use nn in auto)
  then have fo: "fold (\<lambda>a r. let tails = arc_tails (arcAt h a) in if tails = [] then r else accMax (Max (set tails)) r)
      (forArcsIn h) kNoState = opt_max (\<Union>x \<in> ran (arc_heap h). seen_tails h x)"
    by (simp only: d im) (simp add: opt_max_def)
  show ?thesis
  proof (cases "numStates h = 0")
    case True
    then have "ran (arc_heap h) = {}" using wf by (auto simp: ran_def hg_wf_def arcs_bounded_def)
    then show ?thesis using True by (simp add: maxTail_def opt_max_def)
  next
    case pos: False
    then show ?thesis using False st fo by (simp add: maxTail_def)
  qed
qed

text \<open>
  The largest head and tail. On a well-formed hypergraph \<open>maxHead\<close> is the
  largest head of a live arc, or \<open>kNoState\<close> when there is none. \<open>maxTail\<close> is the largest
  tail when it can see all tails, but with first-tail out-arcs it sees only the first tails, also
  when in-arcs are stored: a larger later tail is missed, although \<open>compressNumStates\<close> sizes
  the hypergraph by it.
\<close>

theorem maxHead_maxTail:
  assumes "hg_wf h" and "numStates h \<le> kNoState"
  shows "maxHead h = opt_max (arc_head ` ran (arc_heap h)) \<and>
    maxTail h = opt_max (\<Union>x \<in> ran (arc_heap h).
      if storesFirstTailOutArcs h then (if arc_tails x = [] then {} else {hd (arc_tails x)})
      else set (arc_tails x))"
  using maxHead_max [OF assms] maxTail_max [OF assms] by (simp add: seen_tails_def)

theorem maxHead_maxTail_witness:
  "maxHead (sample_fsm kStoreFirstTailOutArcs (terminal 5)) = 1 \<and>
   maxTail (sample_fsm kStoreFirstTailOutArcs (terminal 5)) = 0 \<and>
   maxTail (sample_fsm kStoreOutArcs (terminal 5)) = 2"
proof -
  have p: "has kStoreOutArcs kStoreAnyArcs" "has kStoreFirstTailOutArcs kStoreAnyArcs"
    by (simp_all add: flag_simps)
  note F = sample_fsm_facts [OF p(1)] and G = sample_fsm_facts [OF p(2)]
  have n: "(3::nat) \<le> kNoState" by (simp add: kNoState_def)
  have r: "ran [0::nat \<mapsto> new_arc_fsm 0 2 (7::nat) 1] = {new_arc_fsm 0 2 7 1}" by (simp add: ran_def)
  note A = maxHead_maxTail [OF F(1)] and B = maxHead_maxTail [OF G(1)]
  show ?thesis
    using A [of "terminal 5"] B [of "terminal 5"] n
    by (simp add: F G r opt_max_def new_arc_fsm_def flag_simps)
qed

lemma maxNotTerminalLoop_eq:
  "maxNotTerminalLoop h n = opt_max {s. 0 < s \<and> s < n \<and> \<not> hasTerminalLabel h s}"
proof (induction n)
  case (Suc n)
  have f: "finite {s. 0 < s \<and> s < n \<and> \<not> hasTerminalLabel h s}" by simp
  show ?case
  proof (cases "0 < n \<and> \<not> hasTerminalLabel h n")
    case True
    then have "{s. 0 < s \<and> s < Suc n \<and> \<not> hasTerminalLabel h s} =
        insert n {s. 0 < s \<and> s < n \<and> \<not> hasTerminalLabel h s}" by (auto simp: less_Suc_eq)
    moreover have "Max (insert n {s. 0 < s \<and> s < n \<and> \<not> hasTerminalLabel h s}) = n"
      by (rule Max_eqI) (auto simp: f)
    ultimately show ?thesis using True by (simp add: opt_max_def)
  next
    case False
    then have e: "{s. 0 < s \<and> s < Suc n \<and> \<not> hasTerminalLabel h s} =
        {s. 0 < s \<and> s < n \<and> \<not> hasTerminalLabel h s}" by (auto simp: less_Suc_eq)
    show ?thesis
    proof (cases "n = 0")
      case True
      have "{s. 0 < s \<and> s < Suc 0 \<and> \<not> hasTerminalLabel h s} = {}" by auto
      then show ?thesis using True by (simp add: opt_max_def)
    next
      case n: False
      then show ?thesis using Suc False e by simp
    qed
  qed
qed (simp add: opt_max_def)

text \<open>
  Largest nonterminal state. \<open>maxNotTerminalStateImpl\<close> stops before looking at
  state 0: it returns the largest nonterminal state other than 0, and \<open>kNoState\<close>, meaning
  none, when 0 is the only one.
\<close>

theorem maxNotTerminalState_skips_zero:
  "maxNotTerminalLoop h (numStates h) =
     (if {s. 0 < s \<and> s < numStates h \<and> \<not> hasTerminalLabel h s} = {} then kNoState
      else Max {s. 0 < s \<and> s < numStates h \<and> \<not> hasTerminalLabel h s})"
  unfolding maxNotTerminalLoop_eq opt_max_def ..

end
