(* ===== verification/Hg_Delete.thy ===== *)
theory Hg_Delete
  imports Hg_Arc_Theorems
begin

text \<open>
  Deleting arcs and states of \<open>MutableHypergraph\<close>: \<open>deleteInArcs\<close>, \<open>deleteOutArcs\<close>,
  \<open>deleteOutArcsExcept\<close>, \<open>deleteState\<close> and \<open>restrict(keep)\<close>. Deleting the arcs under one
  state has to take them out of the index on the other side. For short adjacency lists this is
  done at once; for lists longer than \<open>kAdjLinearSearchLimit\<close> it is deferred to
  \<open>removeDeletedArcsFromInterested\<close>.
\<close>

section \<open>Operations\<close>

definition kAdjLinearSearchLimit :: nat where
  "kAdjLinearSearchLimit = 16"

text \<open>\<open>removeDeletedArcs(deleted, arcs)\<close>: skip to the first deleted handle, then compact.\<close>

fun removeDeletedArcs :: "ArcHandle set \<Rightarrow> ArcHandle list \<Rightarrow> ArcHandle list" where
  "removeDeletedArcs deleted [] = []"
| "removeDeletedArcs deleted (a # as) =
     (if a \<in> deleted then filter (\<lambda>b. b \<notin> deleted) as else a # removeDeletedArcs deleted as)"

definition removeDeletedArcsAdjs :: "ArcHandle set \<Rightarrow> ArcHandle list list \<Rightarrow> ArcHandle list list" where
  "removeDeletedArcsAdjs deleted adjs =
     (if deleted = {} then adjs else map (removeDeletedArcs deleted) adjs)"

text \<open>The public \<open>removeDeletedArcs(deleted)\<close> sweeps both indexes.\<close>

definition removeDeletedArcsAll :: "ArcHandle set \<Rightarrow> 'w hg \<Rightarrow> 'w hg" where
  "removeDeletedArcsAll deleted h =
     h\<lparr>inArcsPerState := removeDeletedArcsAdjs deleted (inArcsPerState h),
       outArcsPerState := removeDeletedArcsAdjs deleted (outArcsPerState h)\<rparr>"

text \<open>\<open>removeDeletedArcsFromInterested\<close> runs over the member \<open>interestedStates_\<close>.\<close>

definition removeDeletedArcsFromInterested :: "StateId list \<Rightarrow> ArcHandle set \<Rightarrow> ArcHandle list list \<Rightarrow> ArcHandle list list" where
  "removeDeletedArcsFromInterested states deleted adjs =
     (if deleted = {} then adjs
      else fold (\<lambda>s adj. if s < length adj then adj[s := removeDeletedArcs deleted (adj ! s)] else adj)
             states adjs)"

definition removeDeletedArc :: "ArcHandle \<Rightarrow> ArcHandle list \<Rightarrow> ArcHandle list" where
  "removeDeletedArc a arcs = remove1 a arcs"

text \<open>\<open>Util::Interested::add\<close>.\<close>

definition interested_add :: "StateId \<Rightarrow> StateId list \<Rightarrow> StateId list" where
  "interested_add s v = (if s \<in> set v then v else v @ [s])"

text \<open>
  The body both loops share: take arc \<open>a\<close> out of the list of state \<open>t\<close> on the other side, or
  note the state in \<open>interested_\<close> and the arc in \<open>deleted\<close>.
\<close>

definition unlink :: "ArcHandle \<Rightarrow> StateId \<Rightarrow> ArcHandle set \<times> StateId list \<times> ArcHandle list list
    \<Rightarrow> ArcHandle set \<times> StateId list \<times> ArcHandle list list" where
  "unlink a t = (\<lambda>(deleted, inter, adj).
     (if t < length adj
      then if length (adj ! t) \<le> kAdjLinearSearchLimit
           then (deleted, inter, adj[t := removeDeletedArc a (adj ! t)])
           else (insert a deleted, interested_add t inter, adj)
      else (deleted, inter, adj)))"

definition deleteInArc_step :: "ArcHandle \<Rightarrow> ArcHandle set \<times> 'w hg \<Rightarrow> ArcHandle set \<times> 'w hg" where
  "deleteInArc_step a = (\<lambda>(deleted, h).
     (let tails = arc_tails (arcAt h a);
          (deleted1, inter, adj) =
            (if tails \<noteq> [] then unlink a (hd tails) (deleted, interested h, outArcsPerState h)
             else (deleted, interested h, outArcsPerState h))
      in (deleted1, deleteArc a (h\<lparr>interested := inter, outArcsPerState := adj\<rparr>))))"

definition deleteInArcsImpl :: "StateId \<Rightarrow> 'w hg \<Rightarrow> 'w hg" where
  "deleteInArcsImpl s h =
     (if length (inArcsPerState h) \<le> s then h
      else let arcs = inArcsPerState h ! s;
               h1 = (if storesOutArcs h
                     then if has (props h) kStoreFirstTailOutArcs
                          then let (deleted, g) = fold deleteInArc_step arcs ({}, h);
                                   adj = removeDeletedArcsFromInterested (interestedStates g) deleted (outArcsPerState g)
                               in g\<lparr>outArcsPerState := adj, interested := []\<rparr>
                          else let g = fold deleteArc arcs h
                               in g\<lparr>outArcsPerState := removeDeletedArcsAdjs (set arcs) (outArcsPerState g)\<rparr>
                     else fold deleteArc arcs h)
           in h1\<lparr>inArcsPerState := (inArcsPerState h1)[s := []]\<rparr>)"

definition deleteOutArc_step :: "ArcHandle \<Rightarrow> ArcHandle set \<times> 'w hg \<Rightarrow> ArcHandle set \<times> 'w hg" where
  "deleteOutArc_step a = (\<lambda>(deleted, h).
     (let (deleted1, inter, adj) =
            unlink a (arc_head (arcAt h a)) (deleted, interested h, inArcsPerState h)
      in (deleted1, deleteArc a (h\<lparr>interested := inter, inArcsPerState := adj\<rparr>))))"

definition deleteOutArcsImpl :: "StateId \<Rightarrow> 'w hg \<Rightarrow> 'w hg" where
  "deleteOutArcsImpl s h =
     (if length (outArcsPerState h) \<le> s then h
      else let arcs = outArcsPerState h ! s;
               h1 = (if storesInArcs h
                     then let (deleted, g) = fold deleteOutArc_step arcs ({}, h);
                              adj = removeDeletedArcsFromInterested (interestedStates g) deleted (inArcsPerState g)
                          in g\<lparr>inArcsPerState := adj, interested := []\<rparr>
                     else fold deleteArc arcs h)
           in h1\<lparr>outArcsPerState := (outArcsPerState h1)[s := []]\<rparr>)"

definition deleteOutArcsExceptImpl :: "StateId \<Rightarrow> ArcHandle \<Rightarrow> 'w hg \<Rightarrow> 'w hg" where
  "deleteOutArcsExceptImpl s keepArc h =
     deleteOutArcsImpl s (h\<lparr>outArcsPerState :=
       (outArcsPerState h)[s := remove1 keepArc (outArcsPerState h ! s)]\<rparr>)"

definition deleteState :: "StateId \<Rightarrow> 'w hg \<Rightarrow> 'w hg" where
  "deleteState s h =
     (let h1 = (if storesOutArcs h then deleteOutArcsImpl s h else deleteInArcsImpl s h)
      in if numStates h1 \<noteq> 0 \<and> s = numStates h1 - 1 then h1\<lparr>numStates := s\<rparr> else h1)"

definition finishDeleted :: "nat \<Rightarrow> 'w hg \<Rightarrow> 'w hg" where
  "finishDeleted ndel h =
     (if ndel \<noteq> 0
      then let h1 = clearProp kSortedOutArcs h; h2 = computeFsmGraphProperty h1
           in if \<not> has (props h2) kFsm then h2\<lparr>fsmChecked := False\<rparr> else h2
      else h)"

text \<open>
  \<open>restrict(keep)\<close>: an empty filter does nothing. With in-arcs, each list is compacted in place
  and the other arcs are deleted; without, the kept arcs are added anew and the others only
  counted.
\<close>

definition restrict_step :: "('w arc \<Rightarrow> bool) \<Rightarrow> ArcHandle \<Rightarrow> nat \<times> ArcHandle list \<times> 'w hg
    \<Rightarrow> nat \<times> ArcHandle list \<times> 'w hg" where
  "restrict_step keep a = (\<lambda>(ndel, kept, h).
     (if keep (arcAt h a) then (ndel, kept @ [a], h) else (Suc ndel, kept, deleteArc a h)))"

definition restrict_state :: "('w arc \<Rightarrow> bool) \<Rightarrow> StateId \<Rightarrow> nat \<times> 'w hg \<Rightarrow> nat \<times> 'w hg" where
  "restrict_state keep s = (\<lambda>(ndel, h).
     (let (ndel1, kept, h1) = fold (restrict_step keep) (inArcsPerState h ! s) (ndel, [], h)
      in (ndel1, h1\<lparr>inArcsPerState := (inArcsPerState h1)[s := kept]\<rparr>)))"

definition restrict_add :: "('w arc \<Rightarrow> bool) \<Rightarrow> bool \<Rightarrow> ArcHandle \<Rightarrow> nat \<times> 'w hg \<Rightarrow> nat \<times> 'w hg" where
  "restrict_add keep addFirst a = (\<lambda>(ndel, h).
     (if keep (arcAt h a) then (ndel, if addFirst then addArcFirstTailOut a h else addArcOut a h)
      else (Suc ndel, h)))"

definition restrict :: "('w arc \<Rightarrow> bool) option \<Rightarrow> 'w hg \<Rightarrow> sdl_error + (nat \<times> 'w hg)" where
  "restrict keepo h =
     (case keepo of
        None \<Rightarrow> Inr (0, h)
      | Some keep \<Rightarrow>
          if has (props h) kStoreInArcs
          then let (ndel, h1) = fold (restrict_state keep) [0..<length (inArcsPerState h)]
                                  (0, h\<lparr>outArcsPerState := []\<rparr>)
               in case rebuildOutArcs h1 of
                    Inl e \<Rightarrow> Inl e
                  | Inr h2 \<Rightarrow> Inr (ndel, finishDeleted ndel h2)
          else let addFirst = has (props h) kStoreFirstTailOutArcs
               in case fetchArcs h of
                    Inl e \<Rightarrow> Inl e
                  | Inr arcs \<Rightarrow>
                      let n = length (outArcsPerState h);
                          (ndel, h1) = fold (restrict_add keep addFirst) arcs
                            (0, h\<lparr>outArcsPerState := reinit_vec (outArcsPerState h) n []\<rparr>)
                      in Inr (ndel, finishDeleted ndel h1))"

section \<open>Taking arcs out of an index\<close>

lemma removeDeletedArcs_filter: "removeDeletedArcs deleted as = filter (\<lambda>a. a \<notin> deleted) as"
  by (induction as) auto

lemma removeDeletedArcsAdjs_map:
  "removeDeletedArcsAdjs deleted adjs = map (filter (\<lambda>a. a \<notin> deleted)) adjs"
  by (simp add: removeDeletedArcsAdjs_def removeDeletedArcs_filter [abs_def] map_idI)

lemma removeFromInterested_none [simp]:
  "removeDeletedArcsFromInterested [] deleted adjs = adjs"
  by (simp add: removeDeletedArcsFromInterested_def)

lemma count_list_remove1: "count_list (remove1 a xs) b = count_list xs b - (if b = a then 1 else 0)"
  by (induction xs) auto

lemma length_remove1_le: "length (remove1 a xs) \<le> length xs"
  by (simp add: length_remove1)

definition short :: "ArcHandle list list \<Rightarrow> StateId \<Rightarrow> bool" where
  "short adj t \<longleftrightarrow> length (getOrElse adj t []) \<le> kAdjLinearSearchLimit"

lemma unlink_adj:
  assumes "unlink a t (d, i, adj) = (d', i', adj')"
  shows "getOrElse adj' u [] = (if u = t \<and> short adj t then remove1 a (getOrElse adj u []) else getOrElse adj u [])"
    and "short adj' u = short adj u"
proof -
  show g: "getOrElse adj' u [] = (if u = t \<and> short adj t then remove1 a (getOrElse adj u []) else getOrElse adj u [])"
    using assms
    by (auto simp: unlink_def removeDeletedArc_def short_def getOrElse_def nth_list_update split: if_splits)
  show "short adj' u = short adj u"
    unfolding short_def g using length_remove1_le [of a "getOrElse adj u []"] by (auto simp: short_def)
qed

text \<open>All the unlinking of one loop, with the key of each arc.\<close>

fun unlink_all :: "(ArcHandle \<Rightarrow> StateId option) \<Rightarrow> ArcHandle list \<Rightarrow> ArcHandle set \<times> StateId list \<times> ArcHandle list list
    \<Rightarrow> ArcHandle set \<times> StateId list \<times> ArcHandle list list" where
  "unlink_all key [] acc = acc"
| "unlink_all key (a # as) acc =
     unlink_all key as (case key a of None \<Rightarrow> acc | Some t \<Rightarrow> unlink a t acc)"

lemma unlink_all_cong:
  "(\<And>a. a \<in> set as \<Longrightarrow> key a = key' a) \<Longrightarrow> unlink_all key as acc = unlink_all key' as acc"
  by (induction as arbitrary: acc) auto

lemma unlink_all_count:
  assumes "distinct as" and "unlink_all key as (d, i, adj) = (d', i', adj')"
  shows "count_list (getOrElse adj' t []) b =
    count_list (getOrElse adj t []) b - (if b \<in> set as \<and> key b = Some t \<and> short adj t then 1 else 0)"
  using assms
proof (induction as arbitrary: d i adj)
  case (Cons a as)
  obtain d1 i1 adj1 where u: "(case key a of None \<Rightarrow> (d, i, adj) | Some t \<Rightarrow> unlink a t (d, i, adj)) = (d1, i1, adj1)"
    by (metis prod_cases3)
  have IH: "count_list (getOrElse adj' t []) b =
      count_list (getOrElse adj1 t []) b - (if b \<in> set as \<and> key b = Some t \<and> short adj1 t then 1 else 0)"
    using Cons.IH [of d1 i1 adj1] Cons.prems u by simp
  show ?case
  proof (cases "key a")
    case None
    then show ?thesis using IH u by auto
  next
    case (Some k)
    then have ul: "unlink a k (d, i, adj) = (d1, i1, adj1)" using u by simp
    have "count_list (getOrElse adj1 t []) b =
        count_list (getOrElse adj t []) b - (if b = a \<and> t = k \<and> short adj t then 1 else 0)"
      unfolding unlink_adj(1) [OF ul] by (auto simp: count_list_remove1)
    then show ?thesis using IH Some Cons.prems(1) unfolding unlink_adj(2) [OF ul] by auto
  qed
qed simp

section \<open>The delete loops\<close>

definition in_key :: "'w hg \<Rightarrow> ArcHandle \<Rightarrow> StateId option" where
  "in_key h a = (if arc_tails (arcAt h a) = [] then None else Some (hd (arc_tails (arcAt h a))))"

definition out_key :: "'w hg \<Rightarrow> ArcHandle \<Rightarrow> StateId option" where
  "out_key h a = Some (arc_head (arcAt h a))"

lemma restrict_map_delete: "(m(a := None)) |` (- S) = m |` (- insert a S)"
  by (auto simp: fun_eq_iff restrict_map_def)

lemma arcAt_other: "b \<noteq> a \<Longrightarrow> arc_heap g = (arc_heap h)(a := None) \<Longrightarrow> arcAt g b = arcAt h b"
  by (simp add: arcAt_def)

lemma fold_deleteIn:
  assumes "distinct as" and "fold deleteInArc_step as (d, h) = (d', g)"
  shows "unlink_all (in_key h) as (d, interested h, outArcsPerState h) = (d', interested g, outArcsPerState g) \<and>
    arc_heap g = arc_heap h |` (- set as) \<and> props g = props h \<and> next_arc g = next_arc h \<and>
    numStates g = numStates h \<and> inArcsPerState g = inArcsPerState h \<and> interestedStates g = interestedStates h"
  using assms
proof (induction as arbitrary: d h)
  case Nil
  then show ?case by (simp add: restrict_map_def)
next
  case (Cons a as)
  obtain d1 i1 adj1 where u:
    "(case in_key h a of None \<Rightarrow> (d, interested h, outArcsPerState h)
      | Some t \<Rightarrow> unlink a t (d, interested h, outArcsPerState h)) = (d1, i1, adj1)"
    by (metis prod_cases3)
  define h1 where "h1 = deleteArc a (h\<lparr>interested := i1, outArcsPerState := adj1\<rparr>)"
  have st: "deleteInArc_step a (d, h) = (d1, h1)"
    using u by (auto simp: deleteInArc_step_def in_key_def h1_def Let_def split: if_splits)
  have f: "interested h1 = i1" "outArcsPerState h1 = adj1" "arc_heap h1 = (arc_heap h)(a := None)"
    "props h1 = props h" "next_arc h1 = next_arc h" "numStates h1 = numStates h"
    "inArcsPerState h1 = inArcsPerState h" "interestedStates h1 = interestedStates h"
    by (simp_all add: h1_def deleteArc_def)
  have k: "unlink_all (in_key h1) as acc = unlink_all (in_key h) as acc" for acc
    by (rule unlink_all_cong) (use Cons.prems(1) f(3) in \<open>auto simp: in_key_def arcAt_def\<close>)
  have r: "arc_heap h1 |` (- set as) = arc_heap h |` (- insert a (set as))"
    unfolding f(3) by (rule restrict_map_delete)
  have "fold deleteInArc_step as (d1, h1) = (d', g)" using Cons.prems(2) st by simp
  from Cons.IH [OF _ this] show ?case using Cons.prems(1) u f(1,2,4-) k r by simp
qed

lemma fold_deleteOut:
  assumes "distinct as" and "fold deleteOutArc_step as (d, h) = (d', g)"
  shows "unlink_all (out_key h) as (d, interested h, inArcsPerState h) = (d', interested g, inArcsPerState g) \<and>
    arc_heap g = arc_heap h |` (- set as) \<and> props g = props h \<and> next_arc g = next_arc h \<and>
    numStates g = numStates h \<and> outArcsPerState g = outArcsPerState h \<and> interestedStates g = interestedStates h"
  using assms
proof (induction as arbitrary: d h)
  case Nil
  then show ?case by (simp add: restrict_map_def)
next
  case (Cons a as)
  obtain d1 i1 adj1 where u:
    "unlink a (arc_head (arcAt h a)) (d, interested h, inArcsPerState h) = (d1, i1, adj1)"
    by (metis prod_cases3)
  define h1 where "h1 = deleteArc a (h\<lparr>interested := i1, inArcsPerState := adj1\<rparr>)"
  have st: "deleteOutArc_step a (d, h) = (d1, h1)"
    using u by (simp add: deleteOutArc_step_def h1_def)
  have f: "interested h1 = i1" "inArcsPerState h1 = adj1" "arc_heap h1 = (arc_heap h)(a := None)"
    "props h1 = props h" "next_arc h1 = next_arc h" "numStates h1 = numStates h"
    "outArcsPerState h1 = outArcsPerState h" "interestedStates h1 = interestedStates h"
    by (simp_all add: h1_def deleteArc_def)
  have k: "unlink_all (out_key h1) as acc = unlink_all (out_key h) as acc" for acc
    by (rule unlink_all_cong) (use Cons.prems(1) f(3) in \<open>auto simp: out_key_def arcAt_def\<close>)
  have r: "arc_heap h1 |` (- set as) = arc_heap h |` (- insert a (set as))"
    unfolding f(3) by (rule restrict_map_delete)
  have ka: "out_key h a = Some (arc_head (arcAt h a))" by (simp add: out_key_def)
  have "fold deleteOutArc_step as (d1, h1) = (d', g)" using Cons.prems(2) st by simp
  from Cons.IH [OF _ this] show ?case using Cons.prems(1) u f(1,2,4-) k r ka by simp
qed

lemma fold_deleteArc_fields:
  "arc_heap (fold deleteArc as h) = arc_heap h |` (- set as) \<and> props (fold deleteArc as h) = props h \<and>
   next_arc (fold deleteArc as h) = next_arc h \<and> numStates (fold deleteArc as h) = numStates h \<and>
   inArcsPerState (fold deleteArc as h) = inArcsPerState h \<and>
   outArcsPerState (fold deleteArc as h) = outArcsPerState h"
proof (induction as arbitrary: h)
  case Nil
  then show ?case by (simp add: restrict_map_def)
next
  case (Cons a as)
  have e: "arc_heap (deleteArc a h) = (arc_heap h)(a := None)" by (simp add: deleteArc_def)
  have r: "arc_heap (deleteArc a h) |` (- set as) = arc_heap h |` (- insert a (set as))"
    unfolding e by (rule restrict_map_delete)
  have f: "props (deleteArc a h) = props h" "next_arc (deleteArc a h) = next_arc h"
    "numStates (deleteArc a h) = numStates h" "inArcsPerState (deleteArc a h) = inArcsPerState h"
    "outArcsPerState (deleteArc a h) = outArcsPerState h"
    by (simp_all add: deleteArc_def)
  then show ?case using Cons [of "deleteArc a h"] r by simp
qed

text \<open>What remains of an index when the arcs under one state of another index are deleted.\<close>

lemma index_delete:
  assumes ok: "index_ok w heap adj"
    and new: "\<And>t b. count_list (getOrElse adj' t []) b = count_list (getOrElse adj t []) b - r b t"
    and r: "\<And>b t. 0 < r b t \<Longrightarrow> b \<in> D" and D: "D \<subseteq> dom heap"
  shows "index_ok w (heap |` (- D)) adj' \<longleftrightarrow> (\<forall>b \<in> D. \<forall>t. w (the (heap b)) t \<le> r b t)"
proof -
  have c: "count_list (getOrElse adj t []) b = (case heap b of None \<Rightarrow> 0 | Some x \<Rightarrow> w x t)" for t b
    using ok by (simp add: index_ok_def)
  have r0: "r b t = 0" if "b \<notin> D" for b t using r [of b t] that by auto
  have "index_ok w (heap |` (- D)) adj' \<longleftrightarrow>
      (\<forall>t b. b \<in> D \<longrightarrow> w (the (heap b)) t - r b t = 0)"
  proof
    assume L: "index_ok w (heap |` (- D)) adj'"
    have "w (the (heap b)) t - r b t = 0" if b: "b \<in> D" for b t
    proof -
      obtain x where x: "heap b = Some x" using b D by (meson domD subsetD)
      have "count_list (getOrElse adj' t []) b = 0"
        using L b by (simp add: index_ok_def restrict_map_def)
      then show ?thesis using new [of t b] c [of t b] x by simp
    qed
    then show "\<forall>t b. b \<in> D \<longrightarrow> w (the (heap b)) t - r b t = 0" by blast
  next
    assume R: "\<forall>t b. b \<in> D \<longrightarrow> w (the (heap b)) t - r b t = 0"
    have "count_list (getOrElse adj' t []) b = (case (heap |` (- D)) b of None \<Rightarrow> 0 | Some x \<Rightarrow> w x t)" for t b
    proof (cases "b \<in> D")
      case True
      then obtain x where x: "heap b = Some x" using D by (meson domD subsetD)
      have "w x t - r b t = 0" using R [rule_format, OF True, of t] x by simp
      then show ?thesis using True x new [of t b] c [of t b] by (simp add: restrict_map_def)
    next
      case False
      then show ?thesis using new [of t b] c [of t b] r0 [OF False] by (simp add: restrict_map_def)
    qed
    then show "index_ok w (heap |` (- D)) adj'" by (simp add: index_ok_def)
  qed
  then show ?thesis by auto
qed

lemma index_clear_state:
  assumes ok: "index_ok w heap adj" and D: "\<And>a. a \<in> D \<longleftrightarrow> (\<exists>x. heap a = Some x \<and> 0 < w x s)"
    and excl: "\<And>x t. 0 < w x s \<Longrightarrow> t \<noteq> s \<Longrightarrow> w x t = 0"
  shows "index_ok w (heap |` (- D)) (adj[s := []])"
proof -
  have "count_list (getOrElse (adj[s := []]) t []) b =
      (case (heap |` (- D)) b of None \<Rightarrow> 0 | Some x \<Rightarrow> w x t)" for t b
  proof -
    have c: "count_list (getOrElse adj t []) b = (case heap b of None \<Rightarrow> 0 | Some x \<Rightarrow> w x t)"
      using ok by (simp add: index_ok_def)
    have "count_list (getOrElse (adj[s := []]) t []) b = (if t = s then 0 else count_list (getOrElse adj t []) b)"
      by (auto simp: getOrElse_def nth_list_update)
    then show ?thesis using c D [of b] excl
      by (cases "heap b") (auto simp: restrict_map_def)
  qed
  then show ?thesis by (simp add: index_ok_def)
qed

lemma arcs_bounded_restrict:
  assumes "arcs_bounded h" "arc_heap h' = arc_heap h |` S" "next_arc h' = next_arc h"
    "numStates h' = numStates h" "storesInArcs h' = storesInArcs h"
  shows "arcs_bounded h'"
  using assms by (auto simp: arcs_bounded_def restrict_map_def split: if_splits)

lemma distinct_counts: "(\<And>a. count_list xs a \<le> 1) \<Longrightarrow> distinct xs"
proof (induction xs)
  case (Cons b bs)
  have "count_list bs a \<le> 1" for a using Cons.prems [of a] by (auto split: if_splits)
  moreover have "b \<notin> set bs" using Cons.prems [of b] by (simp add: count_list_0_iff)
  ultimately show ?case using Cons.IH by simp
qed simp

lemma in_list_facts:
  assumes wf: "hg_wf h" and st: "storesInArcs h"
  shows "distinct (inArcsOf h s)"
    and "a \<in> set (inArcsOf h s) \<longleftrightarrow> (\<exists>x. arc_heap h a = Some x \<and> arc_head x = s)"
proof -
  have ok: "index_ok in_weight (arc_heap h) (inArcsPerState h)" using wf st by (simp add: hg_wf_def)
  show "a \<in> set (inArcsOf h s) \<longleftrightarrow> (\<exists>x. arc_heap h a = Some x \<and> arc_head x = s)"
    unfolding inArcsOf_def index_member [OF ok] by (auto simp: in_weight_def)
  show "distinct (inArcsOf h s)"
    by (rule distinct_counts)
      (use ok in \<open>auto simp: index_ok_def inArcsOf_def in_weight_def split: option.splits\<close>)
qed

lemma first_list_facts:
  assumes wf: "hg_wf h" and st: "storesFirstTailOutArcs h"
  shows "distinct (outArcsOf h s)"
    and "a \<in> set (outArcsOf h s) \<longleftrightarrow> (\<exists>x. arc_heap h a = Some x \<and> arc_tails x \<noteq> [] \<and> hd (arc_tails x) = s)"
proof -
  have ok: "index_ok first_weight (arc_heap h) (outArcsPerState h)" using wf st by (simp add: hg_wf_def)
  show "a \<in> set (outArcsOf h s) \<longleftrightarrow> (\<exists>x. arc_heap h a = Some x \<and> arc_tails x \<noteq> [] \<and> hd (arc_tails x) = s)"
    unfolding outArcsOf_def index_member [OF ok] by (auto simp: first_weight_def)
  show "distinct (outArcsOf h s)"
    by (rule distinct_counts)
      (use ok in \<open>auto simp: index_ok_def outArcsOf_def first_weight_def split: option.splits\<close>)
qed

section \<open>Deleting the arcs into a state\<close>

lemma deleteInArcs_fields:
  assumes wf: "hg_wf h" and st: "storesInArcs h" and s: "s < length (inArcsPerState h)"
    and ni: "interestedStates h = []"
  shows "\<exists>adj. deleteInArcsImpl s h = (deleteInArcsImpl s h)\<lparr>outArcsPerState := adj\<rparr> \<and>
    arc_heap (deleteInArcsImpl s h) = arc_heap h |` (- set (inArcsOf h s)) \<and>
    props (deleteInArcsImpl s h) = props h \<and> next_arc (deleteInArcsImpl s h) = next_arc h \<and>
    numStates (deleteInArcsImpl s h) = numStates h \<and>
    inArcsPerState (deleteInArcsImpl s h) = (inArcsPerState h)[s := []] \<and>
    (\<forall>t b. storesOutArcs h \<longrightarrow>
       count_list (getOrElse adj t []) b = count_list (getOrElse (outArcsPerState h) t []) b -
         (if storesFirstTailOutArcs h
          then (if b \<in> set (inArcsOf h s) \<and> in_key h b = Some t \<and> short (outArcsPerState h) t then 1 else 0)
          else (if b \<in> set (inArcsOf h s) then count_list (getOrElse (outArcsPerState h) t []) b else 0)))"
proof -
  let ?as = "inArcsOf h s" and ?h' = "deleteInArcsImpl s h"
  have as: "inArcsPerState h ! s = ?as" using s by (simp add: inArcsOf_def getOrElse_def)
  have dist: "distinct ?as" by (rule in_list_facts(1) [OF wf st])
  show ?thesis
  proof (cases "storesOutArcs h")
    case False
    then have e: "?h' = (fold deleteArc ?as h)\<lparr>inArcsPerState := (inArcsPerState h)[s := []]\<rparr>"
      using s fold_deleteArc_fields [of ?as h] by (simp add: deleteInArcsImpl_def as Let_def)
    have "?h' = ?h'\<lparr>outArcsPerState := outArcsPerState ?h'\<rparr>" by simp
    then show ?thesis using False fold_deleteArc_fields [of ?as h]
      by (intro exI [of _ "outArcsPerState ?h'"]) (simp add: e)
  next
    case so: True
    show ?thesis
    proof (cases "storesFirstTailOutArcs h")
      case True
      obtain d g where fo: "fold deleteInArc_step ?as ({}, h) = (d, g)" by force
      note F = fold_deleteIn [OF dist fo]
      have e: "?h' = g\<lparr>interested := [], inArcsPerState := (inArcsPerState g)[s := []]\<rparr>"
        using s so True F ni by (simp add: deleteInArcsImpl_def as fo Let_def storesFirstTailOutArcs_def)
      have u: "unlink_all (in_key h) ?as ({}, interested h, outArcsPerState h) = (d, interested g, outArcsPerState g)"
        using F by blast
      note c = unlink_all_count [OF dist u]
      have o: "outArcsPerState ?h' = outArcsPerState g" by (simp add: e)
      have "?h' = ?h'\<lparr>outArcsPerState := outArcsPerState ?h'\<rparr>" by simp
      then show ?thesis using F True c
        by (intro exI [of _ "outArcsPerState ?h'"]) (simp add: e)
    next
      case False
      let ?g = "fold deleteArc ?as h"
      have e: "?h' = ?g\<lparr>outArcsPerState := removeDeletedArcsAdjs (set ?as) (outArcsPerState h),
          inArcsPerState := (inArcsPerState h)[s := []]\<rparr>"
        using s so False fold_deleteArc_fields [of ?as h]
        by (simp add: deleteInArcsImpl_def as Let_def storesFirstTailOutArcs_def)
      have c: "count_list (getOrElse (removeDeletedArcsAdjs (set ?as) (outArcsPerState h)) t []) b =
          count_list (getOrElse (outArcsPerState h) t []) b -
          (if b \<in> set ?as then count_list (getOrElse (outArcsPerState h) t []) b else 0)" for t b
        by (simp add: removeDeletedArcsAdjs_map getOrElse_def count_list_filter)
      have "?h' = ?h'\<lparr>outArcsPerState := outArcsPerState ?h'\<rparr>" by simp
      then show ?thesis using False c fold_deleteArc_fields [of ?as h]
        by (intro exI [of _ "outArcsPerState ?h'"]) (simp add: e)
    qed
  qed
qed

lemma deleteInArcs_wf:
  assumes wf: "hg_wf h" and st: "storesInArcs h" and ni: "interestedStates h = []"
  shows "arc_heap (deleteInArcsImpl s h) = arc_heap h |` {a. arc_head (arcAt h a) \<noteq> s} \<and>
    (hg_wf (deleteInArcsImpl s h) \<longleftrightarrow>
       (storesFirstTailOutArcs h \<longrightarrow>
          (\<forall>x \<in> ran (arc_heap h). arc_head x = s \<and> arc_tails x \<noteq> [] \<longrightarrow>
             length (outArcsOf h (hd (arc_tails x))) \<le> kAdjLinearSearchLimit)))"
proof (cases "s < length (inArcsPerState h)")
  case False
  have none: "inArcsOf h s = []" using False by (simp add: inArcsOf_def getOrElse_def)
  have nh: "arc_head x \<noteq> s" if "arc_heap h a = Some x" for a x
    using in_list_facts(2) [OF wf st, of a s] none that by auto
  then have "arc_heap h |` {a. arc_head (arcAt h a) \<noteq> s} = arc_heap h"
    by (auto simp: fun_eq_iff restrict_map_def arcAt_def) (metis not_Some_eq option.sel)
  moreover have "arc_head x \<noteq> s" if "x \<in> ran (arc_heap h)" for x using nh that by (auto simp: ran_def)
  moreover have "deleteInArcsImpl s h = h" using False by (simp add: deleteInArcsImpl_def)
  ultimately show ?thesis using wf by auto
next
  case s: True
  let ?D = "set (inArcsOf h s)" and ?h' = "deleteInArcsImpl s h"
  obtain adj where o: "?h' = ?h'\<lparr>outArcsPerState := adj\<rparr>" and f: "arc_heap ?h' = arc_heap h |` (- ?D)"
    "props ?h' = props h" "next_arc ?h' = next_arc h" "numStates ?h' = numStates h"
    "inArcsPerState ?h' = (inArcsPerState h)[s := []]"
    and c: "storesOutArcs h \<Longrightarrow> count_list (getOrElse adj t []) b = count_list (getOrElse (outArcsPerState h) t []) b -
      (if storesFirstTailOutArcs h
       then (if b \<in> ?D \<and> in_key h b = Some t \<and> short (outArcsPerState h) t then 1 else 0)
       else (if b \<in> ?D then count_list (getOrElse (outArcsPerState h) t []) b else 0))" for t b
    using deleteInArcs_fields [OF wf st s ni] by blast
  have adj: "outArcsPerState ?h' = adj" by (subst o) simp
  note D = in_list_facts(2) [OF wf st, of _ s]
  have sub: "?D \<subseteq> dom (arc_heap h)" using D by auto
  have im: "arcAt h ` ?D = {x \<in> ran (arc_heap h). arc_head x = s}"
    using D by (force simp: ran_def arcAt_def image_iff)
  have heap: "arc_heap ?h' = arc_heap h |` {a. arc_head (arcAt h a) \<noteq> s}"
    unfolding f(1) using D by (force simp: fun_eq_iff restrict_map_def arcAt_def)
  note stp = stores_props [OF f(2)]
  have b: "arcs_bounded ?h'"
    by (rule arcs_bounded_restrict [of h]) (use wf f stp in \<open>auto simp: hg_wf_def\<close>)
  have i: "index_ok in_weight (arc_heap ?h') (inArcsPerState ?h')"
    unfolding f(1,5) by (rule index_clear_state) (use wf st D in \<open>auto simp: hg_wf_def in_weight_def\<close>)
  have wf': "hg_wf ?h' \<longleftrightarrow> (storesFirstTailOutArcs h \<longrightarrow> index_ok first_weight (arc_heap h |` (- ?D)) adj) \<and>
      (storesAllOutArcs h \<and> \<not> storesFirstTailOutArcs h \<longrightarrow> index_ok out_weight (arc_heap h |` (- ?D)) adj)"
    using b i stp wf by (simp add: hg_wf_def adj f(1))
  have all: "index_ok out_weight (arc_heap h |` (- ?D)) adj"
    if a: "storesAllOutArcs h" "\<not> storesFirstTailOutArcs h"
  proof -
    have ok: "index_ok out_weight (arc_heap h) (outArcsPerState h)" using wf a by (simp add: hg_wf_def)
    have so: "storesOutArcs h" using a by (simp add: storesOutArcs_cases)
    let ?r = "\<lambda>b t. if b \<in> ?D then count_list (getOrElse (outArcsPerState h) t []) b else 0"
    have "\<forall>b \<in> ?D. \<forall>t. out_weight (the (arc_heap h b)) t \<le> ?r b t"
      using ok sub by (auto simp: index_ok_def)
    then show ?thesis using index_delete [OF ok, of adj ?r ?D] c [OF so] a(2) sub
      by (simp split: if_splits)
  qed
  have first: "index_ok first_weight (arc_heap h |` (- ?D)) adj \<longleftrightarrow>
      (\<forall>x \<in> ran (arc_heap h). arc_head x = s \<and> arc_tails x \<noteq> [] \<longrightarrow>
         length (outArcsOf h (hd (arc_tails x))) \<le> kAdjLinearSearchLimit)"
    if a: "storesFirstTailOutArcs h"
  proof -
    have ok: "index_ok first_weight (arc_heap h) (outArcsPerState h)" using wf a by (simp add: hg_wf_def)
    have so: "storesOutArcs h" using a by (simp add: storesOutArcs_cases)
    let ?r = "\<lambda>b t. if b \<in> ?D \<and> in_key h b = Some t \<and> short (outArcsPerState h) t then 1 else 0"
    have "index_ok first_weight (arc_heap h |` (- ?D)) adj \<longleftrightarrow>
        (\<forall>b \<in> ?D. \<forall>t. first_weight (the (arc_heap h b)) t \<le> ?r b t)"
      by (rule index_delete [OF ok]) (use c [OF so] a sub in \<open>auto split: if_splits\<close>)
    also have "\<dots> \<longleftrightarrow> (\<forall>b \<in> ?D. arc_tails (arcAt h b) \<noteq> [] \<longrightarrow> short (outArcsPerState h) (hd (arc_tails (arcAt h b))))"
      by (auto simp: first_weight_def in_key_def arcAt_def)
    also have "\<dots> \<longleftrightarrow> (\<forall>x \<in> arcAt h ` ?D. arc_tails x \<noteq> [] \<longrightarrow> short (outArcsPerState h) (hd (arc_tails x)))"
      by simp
    also have "\<dots> \<longleftrightarrow> (\<forall>x \<in> ran (arc_heap h). arc_head x = s \<and> arc_tails x \<noteq> [] \<longrightarrow>
         short (outArcsPerState h) (hd (arc_tails x)))"
      unfolding im by auto
    finally show ?thesis by (simp add: short_def outArcsOf_def)
  qed
  show ?thesis using heap wf' all first by blast
qed

section \<open>Deleting the arcs out of a state\<close>

lemma deleteOutArcs_outs:
  "outArcsPerState (deleteOutArcsImpl s h) =
     (if s < length (outArcsPerState h) then (outArcsPerState h)[s := []] else outArcsPerState h)"
proof -
  have o: "outArcsPerState (snd (fold deleteOutArc_step as (d, g))) = outArcsPerState g" for as d and g :: "'a hg"
  proof (induction as arbitrary: d g)
    case (Cons a as)
    obtain d1 g1 where st: "deleteOutArc_step a (d, g) = (d1, g1)" by force
    then have "outArcsPerState g1 = outArcsPerState g"
      by (auto simp: deleteOutArc_step_def deleteArc_def Let_def split: prod.splits)
    then show ?case using Cons st by simp
  qed simp
  have "outArcsPerState g = outArcsPerState h" if "fold deleteOutArc_step as ({}, h) = (d, g)" for as d g
    using o [of as "{}" h] that by simp
  then show ?thesis using fold_deleteArc_fields [of "outArcsPerState h ! s" h]
    by (simp add: deleteOutArcsImpl_def Let_def split: prod.splits)
qed

lemma deleteOutArcs_wf:
  assumes wf: "hg_wf h" and st: "storesFirstTailOutArcs h" and ni: "interestedStates h = []"
  shows "arc_heap (deleteOutArcsImpl s h) =
      arc_heap h |` {a. arc_tails (arcAt h a) = [] \<or> hd (arc_tails (arcAt h a)) \<noteq> s} \<and>
    (hg_wf (deleteOutArcsImpl s h) \<longleftrightarrow>
       (storesInArcs h \<longrightarrow>
          (\<forall>x \<in> ran (arc_heap h). arc_tails x \<noteq> [] \<and> hd (arc_tails x) = s \<longrightarrow>
             length (inArcsOf h (arc_head x)) \<le> kAdjLinearSearchLimit)))"
proof -
  let ?D = "set (outArcsOf h s)" and ?h' = "deleteOutArcsImpl s h"
  note D = first_list_facts(2) [OF wf st, of _ s]
  have dist: "distinct (outArcsOf h s)" by (rule first_list_facts(1) [OF wf st])
  have sub: "?D \<subseteq> dom (arc_heap h)" using D by auto
  have im: "arcAt h ` ?D = {x \<in> ran (arc_heap h). arc_tails x \<noteq> [] \<and> hd (arc_tails x) = s}"
    using D by (force simp: ran_def arcAt_def image_iff)
  let ?S = "{a. arc_tails (arcAt h a) = [] \<or> hd (arc_tails (arcAt h a)) \<noteq> s}"
  have SD: "arc_heap h |` (- ?D) = arc_heap h |` ?S"
    using D by (force simp: fun_eq_iff restrict_map_def arcAt_def)
  show ?thesis
  proof (cases "s < length (outArcsPerState h)")
    case False
    then have "?h' = h" "?D = {}" by (simp_all add: deleteOutArcsImpl_def outArcsOf_def getOrElse_def)
    moreover have "arc_heap h |` ?S = arc_heap h"
      using SD \<open>?D = {}\<close> by (auto simp: fun_eq_iff restrict_map_def)
    moreover have "{x \<in> ran (arc_heap h). arc_tails x \<noteq> [] \<and> hd (arc_tails x) = s} = {}"
      using im \<open>?D = {}\<close> by simp
    ultimately show ?thesis using wf by auto
  next
    case s: True
    have as: "outArcsPerState h ! s = outArcsOf h s" using s by (simp add: outArcsOf_def getOrElse_def)
    obtain adj where adj: "inArcsPerState ?h' = adj" and f: "arc_heap ?h' = arc_heap h |` (- ?D)"
      "props ?h' = props h" "next_arc ?h' = next_arc h" "numStates ?h' = numStates h"
      and c: "storesInArcs h \<Longrightarrow> count_list (getOrElse adj t []) b = count_list (getOrElse (inArcsPerState h) t []) b -
        (if b \<in> ?D \<and> out_key h b = Some t \<and> short (inArcsPerState h) t then 1 else 0)" for t b
    proof (cases "storesInArcs h")
      case False
      have e: "?h' = (fold deleteArc (outArcsOf h s) h)\<lparr>outArcsPerState := (outArcsPerState h)[s := []]\<rparr>"
        using s False fold_deleteArc_fields [of "outArcsOf h s" h] by (simp add: deleteOutArcsImpl_def as Let_def)
      show thesis by (rule that [of "inArcsPerState h"])
        (use False fold_deleteArc_fields [of "outArcsOf h s" h] in \<open>simp_all add: e\<close>)
    next
      case True
      obtain d g where fo: "fold deleteOutArc_step (outArcsOf h s) ({}, h) = (d, g)" by force
      note F = fold_deleteOut [OF dist fo]
      have e: "?h' = g\<lparr>interested := [], outArcsPerState := (outArcsPerState g)[s := []]\<rparr>"
        using s True F ni by (simp add: deleteOutArcsImpl_def as fo Let_def)
      have u: "unlink_all (out_key h) (outArcsOf h s) ({}, interested h, inArcsPerState h) = (d, interested g, inArcsPerState g)"
        using F by blast
      show thesis by (rule that [of "inArcsPerState g"])
        (use F unlink_all_count [OF dist u] in \<open>simp_all add: e\<close>)
    qed
    note stp = stores_props [OF f(2)]
    have b: "arcs_bounded ?h'"
      by (rule arcs_bounded_restrict [of h]) (use wf f stp in \<open>auto simp: hg_wf_def\<close>)
    have o: "index_ok first_weight (arc_heap ?h') (outArcsPerState ?h')"
      unfolding f(1) deleteOutArcs_outs using s
      by (simp, intro index_clear_state) (use wf st D in \<open>auto simp: hg_wf_def first_weight_def split: if_splits\<close>)
    have wf': "hg_wf ?h' \<longleftrightarrow> (storesInArcs h \<longrightarrow> index_ok in_weight (arc_heap h |` (- ?D)) adj)"
      using b o stp wf st by (simp add: hg_wf_def adj f(1))
    have ins: "index_ok in_weight (arc_heap h |` (- ?D)) adj \<longleftrightarrow>
        (\<forall>x \<in> ran (arc_heap h). arc_tails x \<noteq> [] \<and> hd (arc_tails x) = s \<longrightarrow>
           length (inArcsOf h (arc_head x)) \<le> kAdjLinearSearchLimit)"
      if a: "storesInArcs h"
    proof -
      have ok: "index_ok in_weight (arc_heap h) (inArcsPerState h)" using wf a by (simp add: hg_wf_def)
      let ?r = "\<lambda>b t. if b \<in> ?D \<and> out_key h b = Some t \<and> short (inArcsPerState h) t then 1 else 0"
      have "index_ok in_weight (arc_heap h |` (- ?D)) adj \<longleftrightarrow>
          (\<forall>b \<in> ?D. \<forall>t. in_weight (the (arc_heap h b)) t \<le> ?r b t)"
        by (rule index_delete [OF ok]) (use c [OF a] sub in \<open>auto split: if_splits\<close>)
      also have "\<dots> \<longleftrightarrow> (\<forall>b \<in> ?D. short (inArcsPerState h) (arc_head (arcAt h b)))"
        by (auto simp: in_weight_def out_key_def arcAt_def)
      also have "\<dots> \<longleftrightarrow> (\<forall>x \<in> arcAt h ` ?D. short (inArcsPerState h) (arc_head x))" by simp
      also have "\<dots> \<longleftrightarrow> (\<forall>x \<in> ran (arc_heap h). arc_tails x \<noteq> [] \<and> hd (arc_tails x) = s \<longrightarrow>
           short (inArcsPerState h) (arc_head x))"
        unfolding im by auto
      finally show ?thesis by (simp add: short_def inArcsOf_def)
    qed
    show ?thesis using f(1) SD wf' ins by auto
  qed
qed

lemma deleteOutArcs_frees:
  assumes "a \<in> set (outArcsOf h s)" and d: "distinct (outArcsOf h s) \<or> \<not> storesInArcs h"
  shows "arc_heap (deleteOutArcsImpl s h) a = None"
proof -
  have s: "s < length (outArcsPerState h)" using assms(1) by (auto simp: outArcsOf_def getOrElse_def split: if_splits)
  have as: "outArcsPerState h ! s = outArcsOf h s" using s by (simp add: outArcsOf_def getOrElse_def)
  show ?thesis
  proof (cases "storesInArcs h")
    case False
    then show ?thesis using s assms(1) fold_deleteArc_fields [of "outArcsOf h s" h]
      by (simp add: deleteOutArcsImpl_def as Let_def)
  next
    case True
    obtain e g where fo: "fold deleteOutArc_step (outArcsOf h s) ({}, h) = (e, g)" by force
    show ?thesis using s True assms(1) d fold_deleteOut [OF _ fo]
      by (simp add: deleteOutArcsImpl_def as fo Let_def)
  qed
qed

section \<open>Restricting\<close>

lemma fold_restrict_step:
  assumes "distinct as" and "fold (restrict_step keep) as (n, ks, h) = (n', ks', g)"
  shows "n' = n + length (filter (\<lambda>a. \<not> keep (arcAt h a)) as) \<and>
    ks' = ks @ filter (\<lambda>a. keep (arcAt h a)) as \<and>
    arc_heap g = arc_heap h |` (- set (filter (\<lambda>a. \<not> keep (arcAt h a)) as)) \<and>
    props g = props h \<and> next_arc g = next_arc h \<and> numStates g = numStates h \<and>
    inArcsPerState g = inArcsPerState h \<and> outArcsPerState g = outArcsPerState h"
  using assms
proof (induction as arbitrary: n ks h)
  case Nil
  then show ?case by (simp add: restrict_map_def)
next
  case (Cons a as)
  show ?case
  proof (cases "keep (arcAt h a)")
    case True
    then have "restrict_step keep a (n, ks, h) = (n, ks @ [a], h)" by (simp add: restrict_step_def)
    then have "fold (restrict_step keep) as (n, ks @ [a], h) = (n', ks', g)"
      using Cons.prems(2) by simp
    from Cons.IH [OF _ this] show ?thesis using Cons.prems(1) True by simp
  next
    case False
    let ?h1 = "deleteArc a h"
    have e: "arc_heap ?h1 = (arc_heap h)(a := None)" by (simp add: deleteArc_def)
    have f: "props ?h1 = props h" "next_arc ?h1 = next_arc h" "numStates ?h1 = numStates h"
      "inArcsPerState ?h1 = inArcsPerState h" "outArcsPerState ?h1 = outArcsPerState h"
      by (simp_all add: deleteArc_def)
    have at: "arcAt ?h1 b = arcAt h b" if "b \<in> set as" for b
      using that Cons.prems(1) e by (auto simp: arcAt_def)
    have fl: "filter (\<lambda>a. \<not> keep (arcAt ?h1 a)) as = filter (\<lambda>a. \<not> keep (arcAt h a)) as"
      "filter (\<lambda>a. keep (arcAt ?h1 a)) as = filter (\<lambda>a. keep (arcAt h a)) as"
      using at by (auto cong: filter_cong)
    have r: "arc_heap ?h1 |` (- X) = arc_heap h |` (- insert a X)" for X
      unfolding e by (rule restrict_map_delete)
    have "restrict_step keep a (n, ks, h) = (Suc n, ks, ?h1)" using False by (simp add: restrict_step_def)
    then have "fold (restrict_step keep) as (Suc n, ks, ?h1) = (n', ks', g)"
      using Cons.prems(2) by simp
    from Cons.IH [OF _ this] show ?thesis using Cons.prems(1) False by (simp add: fl f r)
  qed
qed

lemma fold_restrict_state:
  assumes "distinct ss" and "\<forall>s \<in> set ss. s < length (inArcsPerState h) \<and> distinct (inArcsPerState h ! s)"
    and "\<And>s t a. s \<in> set ss \<Longrightarrow> t \<in> set ss \<Longrightarrow> a \<in> set (inArcsPerState h ! s) \<Longrightarrow>
           a \<in> set (inArcsPerState h ! t) \<Longrightarrow> s = t"
    and "fold (restrict_state keep) ss (n, h) = (n', g)"
  shows "n' = n + length (filter (\<lambda>a. \<not> keep (arcAt h a)) (concat (map (\<lambda>s. inArcsPerState h ! s) ss))) \<and>
    arc_heap g = arc_heap h |` (- {a. \<not> keep (arcAt h a) \<and> (\<exists>s \<in> set ss. a \<in> set (inArcsPerState h ! s))}) \<and>
    props g = props h \<and> next_arc g = next_arc h \<and> numStates g = numStates h \<and>
    outArcsPerState g = outArcsPerState h \<and> length (inArcsPerState g) = length (inArcsPerState h) \<and>
    (\<forall>s < length (inArcsPerState h). inArcsPerState g ! s =
       (if s \<in> set ss then filter (\<lambda>a. keep (arcAt h a)) (inArcsPerState h ! s) else inArcsPerState h ! s))"
  using assms
proof (induction ss arbitrary: n h)
  case Nil
  then show ?case by (simp add: restrict_map_def)
next
  case (Cons s ss)
  obtain n1 ks h1 where st: "fold (restrict_step keep) (inArcsPerState h ! s) (n, [], h) = (n1, ks, h1)"
    by (metis prod_cases3)
  note F = fold_restrict_step [OF _ st]
  have d: "distinct (inArcsPerState h ! s)" "s < length (inArcsPerState h)" using Cons.prems(2) by auto
  note F = F [OF d(1)]
  define g1 where "g1 = h1\<lparr>inArcsPerState := (inArcsPerState h1)[s := ks]\<rparr>"
  have rs: "restrict_state keep s (n, h) = (n1, g1)" by (simp add: restrict_state_def st g1_def)
  have go: "fold (restrict_state keep) ss (n1, g1) = (n', g)" using Cons.prems(4) rs by simp
  have heap1: "arc_heap g1 = arc_heap h |` (- {a \<in> set (inArcsPerState h ! s). \<not> keep (arcAt h a)})"
    using F by (simp add: g1_def)
  have in1: "inArcsPerState g1 = (inArcsPerState h)[s := filter (\<lambda>a. keep (arcAt h a)) (inArcsPerState h ! s)]"
    using F by (simp add: g1_def)
  have oth: "inArcsPerState g1 ! t = inArcsPerState h ! t" if "t \<in> set ss" for t
  proof -
    have "s \<noteq> t" using that Cons.prems(1) by auto
    then show ?thesis by (simp add: in1)
  qed
  have at: "arcAt g1 a = arcAt h a" if "t \<in> set ss" "a \<in> set (inArcsPerState h ! t)" for t a
    using that Cons.prems(1) Cons.prems(3) [of s t a] by (auto simp: arcAt_def heap1 restrict_map_def)
  have IH: "n' = n1 + length (filter (\<lambda>a. \<not> keep (arcAt g1 a)) (concat (map (\<lambda>s. inArcsPerState g1 ! s) ss))) \<and>
    arc_heap g = arc_heap g1 |` (- {a. \<not> keep (arcAt g1 a) \<and> (\<exists>s \<in> set ss. a \<in> set (inArcsPerState g1 ! s))}) \<and>
    props g = props g1 \<and> next_arc g = next_arc g1 \<and> numStates g = numStates g1 \<and>
    outArcsPerState g = outArcsPerState g1 \<and> length (inArcsPerState g) = length (inArcsPerState g1) \<and>
    (\<forall>s < length (inArcsPerState g1). inArcsPerState g ! s =
       (if s \<in> set ss then filter (\<lambda>a. keep (arcAt g1 a)) (inArcsPerState g1 ! s) else inArcsPerState g1 ! s))"
    by (rule Cons.IH [OF _ _ _ go]) (use Cons.prems oth in \<open>auto simp: in1\<close>)
  have fl: "filter (\<lambda>a. \<not> keep (arcAt g1 a)) (concat (map (\<lambda>s. inArcsPerState g1 ! s) ss)) =
      filter (\<lambda>a. \<not> keep (arcAt h a)) (concat (map (\<lambda>s. inArcsPerState h ! s) ss))"
  proof -
    have m: "map (\<lambda>s. inArcsPerState g1 ! s) ss = map (\<lambda>s. inArcsPerState h ! s) ss" using oth by simp
    show ?thesis unfolding m by (rule filter_cong) (use at in auto)
  qed
  have del: "{a. \<not> keep (arcAt g1 a) \<and> (\<exists>s \<in> set ss. a \<in> set (inArcsPerState g1 ! s))} =
      {a. \<not> keep (arcAt h a) \<and> (\<exists>s \<in> set ss. a \<in> set (inArcsPerState h ! s))}"
    using oth at by auto
  have heap: "arc_heap g = arc_heap h |` (- {a. \<not> keep (arcAt h a) \<and> (\<exists>t \<in> set (s # ss). a \<in> set (inArcsPerState h ! t))})"
    using IH unfolding heap1 del by (auto simp: fun_eq_iff restrict_map_def)
  have ins: "inArcsPerState g ! t =
      (if t \<in> set (s # ss) then filter (\<lambda>a. keep (arcAt h a)) (inArcsPerState h ! t) else inArcsPerState h ! t)"
    if t: "t < length (inArcsPerState h)" for t
  proof (cases "t \<in> set ss")
    case True
    then have "filter (\<lambda>a. keep (arcAt g1 a)) (inArcsPerState g1 ! t) = filter (\<lambda>a. keep (arcAt h a)) (inArcsPerState h ! t)"
      using at oth by (auto cong: filter_cong)
    then show ?thesis using IH t True by (simp add: in1)
  next
    case False
    then show ?thesis using IH t d(2) by (auto simp: in1)
  qed
  have "n1 = n + length (filter (\<lambda>a. \<not> keep (arcAt h a)) (inArcsPerState h ! s))" using F by simp
  then have N: "n' = n + length (filter (\<lambda>a. \<not> keep (arcAt h a)) (concat (map (\<lambda>s. inArcsPerState h ! s) (s # ss))))"
    using IH [THEN conjunct1, unfolded fl] by simp
  have fr: "props g1 = props h" "next_arc g1 = next_arc h" "numStates g1 = numStates h"
    "outArcsPerState g1 = outArcsPerState h" "length (inArcsPerState g1) = length (inArcsPerState h)"
    using F by (simp_all add: g1_def)
  have "props g = props g1 \<and> next_arc g = next_arc g1 \<and> numStates g = numStates g1 \<and>
      outArcsPerState g = outArcsPerState g1 \<and> length (inArcsPerState g) = length (inArcsPerState g1)"
    using IH by (elim conjE) (intro conjI)
  then show ?case unfolding fr using N heap ins by blast
qed

lemma index_filter:
  assumes "index_ok w heap adj" and "\<And>t. getOrElse adj' t [] = filter (\<lambda>a. P a) (getOrElse adj t [])"
    and "\<And>a. a \<in> dom heap \<Longrightarrow> P a \<longleftrightarrow> a \<notin> D"
  shows "index_ok w (heap |` (- D)) adj'"
proof -
  have "count_list (getOrElse adj' t []) b = (case (heap |` (- D)) b of None \<Rightarrow> 0 | Some x \<Rightarrow> w x t)" for t b
  proof (cases "heap b")
    case None
    then have "count_list (getOrElse adj t []) b = 0" using assms(1) by (simp add: index_ok_def)
    then show ?thesis using None by (simp add: assms(2) count_list_filter restrict_map_def)
  next
    case (Some x)
    then have "count_list (getOrElse adj t []) b = w x t" "P b \<longleftrightarrow> b \<notin> D"
      using assms(1,3) by (auto simp: index_ok_def)
    then show ?thesis using Some by (simp add: assms(2) count_list_filter restrict_map_def)
  qed
  then show ?thesis by (simp add: index_ok_def)
qed

lemma finishDeleted_fields:
  "arc_heap (finishDeleted n h) = arc_heap h" "hg_wf (finishDeleted n h) = hg_wf h"
  "outArcsPerState (finishDeleted n h) = outArcsPerState h"
proof -
  have w: "hg_wf (g\<lparr>fsmChecked := b\<rparr>) = hg_wf g" for g :: "'a hg" and b
    by (rule hg_wf_same) (simp_all add: storesInArcs_def storesFirstTailOutArcs_def storesAllOutArcs_def)
  have c: "hg_wf (clearProp kSortedOutArcs g) = hg_wf g" for g :: "'a hg"
    by (rule hg_wf_same) simp_all
  show "arc_heap (finishDeleted n h) = arc_heap h" "hg_wf (finishDeleted n h) = hg_wf h"
    "outArcsPerState (finishDeleted n h) = outArcsPerState h"
    by (simp_all add: finishDeleted_def Let_def w c)
qed

lemma rebuildOutArcs_wf:
  assumes st: "storesInArcs h" and b: "arcs_bounded h"
    and i: "index_ok in_weight (arc_heap h) (inArcsPerState h)"
  shows "\<exists>h'. rebuildOutArcs h = Inr h' \<and> hg_wf h' \<and> arc_heap h' = arc_heap h"
proof (cases "storesOutArcs h")
  case False
  then have "rebuildOutArcs h = Inr h"
    by (simp add: rebuildOutArcs_def storesOutArcs_def flag_simps)
  moreover have "hg_wf h" using False st b i by (simp add: hg_wf_def storesArcs_cases storesOutArcs_cases)
  ultimately show ?thesis by blast
next
  case True
  have base: "hg_wf g" if "storesInArcs g" "\<not> storesFirstTailOutArcs g" "\<not> storesAllOutArcs g"
    "arc_heap g = arc_heap h" "inArcsPerState g = inArcsPerState h" "arcs_bounded g" for g
    using that i by (simp add: hg_wf_def storesArcs_cases)
  show ?thesis
  proof (cases "storesFirstTailOutArcs h")
    case f: True
    let ?g = "clearProp (kStoreFirstTailOutArcs OR kStoreOutArcs) h"
    have g: "storesInArcs ?g" "\<not> storesFirstTailOutArcs ?g" "\<not> storesAllOutArcs ?g"
      using st by (simp_all add: storesInArcs_def storesFirstTailOutArcs_def storesAllOutArcs_def flag_simps)
    have "arcs_bounded ?g" using b g(1) by (simp add: arcs_bounded_def)
    then have "hg_wf ?g" using base g by simp
    moreover have "rebuildOutArcs h = forceFirstTailOutArcs ?g" using st f
      by (simp add: rebuildOutArcs_def storesInArcs_def storesFirstTailOutArcs_def)
    ultimately show ?thesis using forceFirstTailOutArcs_build [OF _ g(2,3)] by auto
  next
    case f: False
    let ?g = "clearProp kStoreOutArcs h"
    have a: "storesAllOutArcs h" using True f by (simp add: storesOutArcs_cases)
    have g: "storesInArcs ?g" "\<not> storesFirstTailOutArcs ?g" "\<not> storesAllOutArcs ?g"
      using st f by (simp_all add: storesInArcs_def storesFirstTailOutArcs_def storesAllOutArcs_def flag_simps)
    have "arcs_bounded ?g" using b g(1) by (simp add: arcs_bounded_def)
    then have "hg_wf ?g" using base g by simp
    moreover have "rebuildOutArcs h = forceOutArcs ?g" using st f a
      by (simp add: rebuildOutArcs_def storesInArcs_def storesFirstTailOutArcs_def storesAllOutArcs_def)
    ultimately show ?thesis using forceOutArcs_wf by fastforce
  qed
qed

lemma restrict_in_wf:
  assumes wf: "hg_wf h" and st: "storesInArcs h"
  shows "\<exists>n h'. restrict (Some keep) h = Inr (n, h') \<and> hg_wf h' \<and>
    arc_heap h' = arc_heap h |` {a. keep (arcAt h a)} \<and>
    n = card {a \<in> dom (arc_heap h). \<not> keep (arcAt h a)}"
proof -
  let ?h0 = "h\<lparr>outArcsPerState := []\<rparr>" and ?ss = "[0..<length (inArcsPerState h)]"
  obtain n g where fo: "fold (restrict_state keep) ?ss (0, ?h0) = (n, g)" by force
  have sl: "inArcsPerState h ! s = inArcsOf h s" if "s < length (inArcsPerState h)" for s
    using that by (simp add: inArcsOf_def getOrElse_def)
  have at0: "arcAt ?h0 = arcAt h" by (simp add: fun_eq_iff)
  have F: "n = 0 + length (filter (\<lambda>a. \<not> keep (arcAt ?h0 a)) (concat (map (\<lambda>s. inArcsPerState ?h0 ! s) ?ss))) \<and>
    arc_heap g = arc_heap ?h0 |` (- {a. \<not> keep (arcAt ?h0 a) \<and> (\<exists>s \<in> set ?ss. a \<in> set (inArcsPerState ?h0 ! s))}) \<and>
    props g = props ?h0 \<and> next_arc g = next_arc ?h0 \<and> numStates g = numStates ?h0 \<and>
    outArcsPerState g = outArcsPerState ?h0 \<and> length (inArcsPerState g) = length (inArcsPerState ?h0) \<and>
    (\<forall>s < length (inArcsPerState ?h0). inArcsPerState g ! s =
       (if s \<in> set ?ss then filter (\<lambda>a. keep (arcAt ?h0 a)) (inArcsPerState ?h0 ! s) else inArcsPerState ?h0 ! s))"
  proof (rule fold_restrict_state [OF _ _ _ fo])
    show "distinct ?ss" by simp
    show "\<forall>s \<in> set ?ss. s < length (inArcsPerState ?h0) \<and> distinct (inArcsPerState ?h0 ! s)"
      using in_list_facts(1) [OF wf st] by (simp add: sl)
    show "s = t" if "s \<in> set ?ss" "t \<in> set ?ss" "a \<in> set (inArcsPerState ?h0 ! s)"
      "a \<in> set (inArcsPerState ?h0 ! t)" for s t a
      using that in_list_facts(2) [OF wf st] by (auto simp: sl)
  qed
  have enum: "distinct (concat (inArcsPerState h))" "set (concat (inArcsPerState h)) = dom (arc_heap h)"
    using wf_in_enum(2) [OF wf st] by (simp_all add: arc_enum_iff)
  have mapc: "map (\<lambda>s. inArcsPerState h ! s) ?ss = inArcsPerState h" by (simp add: map_nth)
  have n: "n = card {a \<in> dom (arc_heap h). \<not> keep (arcAt h a)}"
  proof -
    have "n = length (filter (\<lambda>a. \<not> keep (arcAt h a)) (concat (inArcsPerState h)))"
      using F by (simp add: mapc)
    also have "\<dots> = card (set (filter (\<lambda>a. \<not> keep (arcAt h a)) (concat (inArcsPerState h))))"
      using enum(1) by (simp add: distinct_card del: set_filter)
    also have "set (filter (\<lambda>a. \<not> keep (arcAt h a)) (concat (inArcsPerState h))) = {a \<in> dom (arc_heap h). \<not> keep (arcAt h a)}"
      unfolding set_filter enum(2) ..
    finally show ?thesis .
  qed
  let ?D = "{a \<in> dom (arc_heap h). \<not> keep (arcAt h a)}"
  have "{a. \<not> keep (arcAt h a) \<and> (\<exists>s < length (inArcsPerState h). a \<in> set (inArcsPerState h ! s))} = ?D"
  proof -
    have "(\<exists>s < length (inArcsPerState h). a \<in> set (inArcsPerState h ! s)) \<longleftrightarrow> a \<in> set (concat (inArcsPerState h))" for a
      unfolding set_concat by (auto dest: nth_mem) (metis in_set_conv_nth)
    then show ?thesis unfolding enum(2) by blast
  qed
  then have heap: "arc_heap g = arc_heap h |` (- ?D)" using F by (simp add: Bex_def)
  have heap': "arc_heap g = arc_heap h |` {a. keep (arcAt h a)}"
    unfolding heap by (auto simp: fun_eq_iff restrict_map_def)
  have lst: "getOrElse (inArcsPerState g) t [] = filter (\<lambda>a. keep (arcAt h a)) (getOrElse (inArcsPerState h) t [])" for t
    using F by (auto simp: getOrElse_def)
  have ok: "index_ok in_weight (arc_heap h) (inArcsPerState h)" using wf st by (simp add: hg_wf_def)
  have i: "index_ok in_weight (arc_heap g) (inArcsPerState g)"
    unfolding heap by (rule index_filter [OF ok lst]) simp
  have gs: "storesInArcs g" using F st stores_props [of g h] by simp
  have b: "arcs_bounded g"
    by (rule arcs_bounded_restrict [of h, OF _ heap]) (use wf F gs st in \<open>auto simp: hg_wf_def\<close>)
  obtain h' where r: "rebuildOutArcs g = Inr h'" "hg_wf h'" "arc_heap h' = arc_heap g"
    using rebuildOutArcs_wf [OF gs b i] by blast
  have "restrict (Some keep) h = Inr (n, finishDeleted n h')"
    using st fo r(1) by (simp add: restrict_def storesInArcs_def)
  then show ?thesis using r(2,3) n heap' by (auto simp: finishDeleted_fields)
qed

lemma fold_restrict_add:
  assumes "fold (restrict_add keep addFirst) as (n, h) = (n', g)"
  shows "arc_heap g = arc_heap h \<and>
    outArcsPerState g = fold (\<lambda>a. (if addFirst then first_push else out_push) (arcAt h a) a)
      (filter (\<lambda>a. keep (arcAt h a)) as) (outArcsPerState h)"
  using assms
proof (induction as arbitrary: n h)
  case (Cons a as)
  show ?case
  proof (cases "keep (arcAt h a)")
    case True
    let ?h1 = "if addFirst then addArcFirstTailOut a h else addArcOut a h"
    have f: "arc_heap ?h1 = arc_heap h"
      "outArcsPerState ?h1 = (if addFirst then first_push else out_push) (arcAt h a) a (outArcsPerState h)"
      by (simp_all add: addFirst_fields addOut_fields)
    have at: "arcAt ?h1 = arcAt h" using f by (simp add: fun_eq_iff arcAt_def)
    have "restrict_add keep addFirst a (n, h) = (n, ?h1)" using True by (simp add: restrict_add_def)
    then have "fold (restrict_add keep addFirst) as (n, ?h1) = (n', g)" using Cons.prems by simp
    from Cons.IH [OF this] show ?thesis using True unfolding f at by simp
  next
    case False
    have "restrict_add keep addFirst a (n, h) = (Suc n, h)" using False by (simp add: restrict_add_def)
    then have "fold (restrict_add keep addFirst) as (Suc n, h) = (n', g)" using Cons.prems by simp
    from Cons.IH [OF this] show ?thesis using False by simp
  qed
qed simp

lemma restrict_out_keeps_heap:
  assumes wf: "hg_wf h" and no: "\<not> storesInArcs h" and f: "storesFirstTailOutArcs h \<or> \<not> isFsm h"
  shows "\<exists>n h'. restrict (Some keep) h = Inr (n, h') \<and> arc_heap h' = arc_heap h \<and>
    (\<forall>s a. a \<in> set (outArcsOf h' s) \<longleftrightarrow> a \<in> set (outArcsOf h s) \<and> keep (arcAt h a))"
proof -
  note ne = wf_tails_nonempty [OF wf no]
  have so: "storesOutArcs h" using wf no by (simp add: hg_wf_def storesArcs_cases)
  let ?fi = "storesFirstTailOutArcs h"
  let ?w = "if ?fi then first_weight else out_weight" and ?p = "if ?fi then first_push else out_push"
  obtain as where fe: "fetchArcs h = Inr as" and en: "arc_enum h as"
  proof (cases ?fi)
    case True
    then show thesis using that wf_first_enum(2) [OF wf True ne] no by (simp add: fetchArcs_def forArcsImpl_def)
  next
    case False
    then show thesis using that wf_once_enum [OF wf so ne] no so f
      by (simp add: fetchArcs_def forArcsImpl_def IHypergraph_forArcs_def forArcsOutOnce_def)
  qed
  let ?h0 = "h\<lparr>outArcsPerState := reinit_vec (outArcsPerState h) (length (outArcsPerState h)) []\<rparr>"
  obtain n g where fo: "fold (restrict_add keep ?fi) as (0, ?h0) = (n, g)" by force
  have at0: "arcAt ?h0 = arcAt h" by (simp add: fun_eq_iff)
  have F: "arc_heap g = arc_heap h \<and> outArcsPerState g =
      fold (\<lambda>a. ?p (arcAt h a) a) (filter (\<lambda>a. keep (arcAt h a)) as) (replicate (length (outArcsPerState h)) [])"
    using fold_restrict_add [OF fo] by (simp add: at0 reinit_vec_def)
  have empty: "getOrElse (replicate k []) s [] = ([]::ArcHandle list)" for k s by (simp add: getOrElse_def)
  have cnt: "count_list (getOrElse (outArcsPerState g) s []) a =
      count_list (filter (\<lambda>a. keep (arcAt h a)) as) a * ?w (arcAt h a) s" for s a
  proof (cases ?fi)
    case True
    then show ?thesis using F first_ix.fold_push_count [of "arcAt h"] empty by simp
  next
    case False
    then show ?thesis using F out_ix.fold_push_count [of "arcAt h"] empty by simp
  qed
  have old: "a \<in> set (outArcsOf h s) \<longleftrightarrow> (\<exists>x. arc_heap h a = Some x \<and> 0 < ?w x s)" for s a
  proof -
    have "index_ok ?w (arc_heap h) (outArcsPerState h)" using wf so
      by (cases ?fi) (simp_all add: hg_wf_def storesOutArcs_cases)
    from index_member [OF this] show ?thesis by (simp add: outArcsOf_def)
  qed
  have new: "a \<in> set (outArcsOf g s) \<longleftrightarrow> a \<in> set (outArcsOf h s) \<and> keep (arcAt h a)" for s a
  proof -
    have "a \<in> set (outArcsOf g s) \<longleftrightarrow> a \<in> dom (arc_heap h) \<and> keep (arcAt h a) \<and> 0 < ?w (arcAt h a) s"
      using en unfolding outArcsOf_def count_list_pos [symmetric] cnt
      by (auto simp: arc_enum_def count_list_filter domIff split: option.splits)
    then show ?thesis unfolding old by (auto simp: arcAt_def)
  qed
  have "restrict (Some keep) h = Inr (n, finishDeleted n g)"
    using no fe fo by (simp add: restrict_def storesInArcs_def storesFirstTailOutArcs_def)
  moreover have "outArcsOf (finishDeleted n g) = outArcsOf g" by (simp add: fun_eq_iff outArcsOf_def finishDeleted_fields)
  ultimately show ?thesis using F new by (auto simp: finishDeleted_fields)
qed

section \<open>Properties\<close>

text \<open>
  Deleting the arcs into a state. \<open>deleteInArcs(s)\<close> frees exactly the arcs with
  head \<open>s\<close>. The indexes stay well-formed exactly if, with first-tail out-arcs, no freed arc was
  listed in an out-arc list longer than \<open>kAdjLinearSearchLimit\<close>: the deferred removal runs
  over \<open>interestedStates_\<close>, which nothing fills, so there the freed arcs stay listed.
\<close>

theorem deleteInArcs_correct:
  assumes "hg_wf h" and "storesInArcs h" and "interestedStates h = []"
  shows "arc_heap (deleteInArcsImpl s h) = arc_heap h |` {a. arc_head (arcAt h a) \<noteq> s} \<and>
    (hg_wf (deleteInArcsImpl s h) \<longleftrightarrow>
       (storesFirstTailOutArcs h \<longrightarrow>
          (\<forall>x \<in> ran (arc_heap h). arc_head x = s \<and> arc_tails x \<noteq> [] \<longrightarrow>
             length (outArcsOf h (hd (arc_tails x))) \<le> kAdjLinearSearchLimit)))"
  by (rule deleteInArcs_wf [OF assms])

lemma sample_interested: "interestedStates (sample_fsm p label) = []"
  by (simp add: sample_fsm_def addNewArc_def newArc_def addArc_def notifyArcImpl_def sample_states_def
      hg_zero_def setProp_def clearProp_def Let_def)

theorem deleteInArcs_correct_witness:
  "arc_heap (deleteInArcsImpl 1 (sample_fsm (kStoreInArcs OR kStoreOutArcs) (terminal 5))) = Map.empty \<and>
   hg_wf (deleteInArcsImpl 1 (sample_fsm (kStoreInArcs OR kStoreOutArcs) (terminal 5)))"
proof -
  let ?p = "kStoreInArcs OR kStoreOutArcs"
  have p: "has ?p kStoreAnyArcs" by (simp add: flag_simps)
  note F = sample_fsm_facts [OF p, of "terminal 5"]
  have st: "storesInArcs (sample_fsm ?p (terminal 5))" "\<not> storesFirstTailOutArcs (sample_fsm ?p (terminal 5))"
    by (simp_all add: F flag_simps)
  show ?thesis using deleteInArcs_correct [OF F(1) st(1) sample_interested, of 1] st(2)
    by (auto simp: F(2) arcAt_def new_arc_fsm_def restrict_map_def fun_eq_iff)
qed

text \<open>
  Deleting the arcs out of a state. With first-tail out-arcs,
  \<open>deleteOutArcs(s)\<close> frees exactly the arcs whose first tail is \<open>s\<close>, and the indexes stay
  well-formed exactly if no freed arc was listed in an in-arc list longer than
  \<open>kAdjLinearSearchLimit\<close>.
\<close>

theorem deleteOutArcs_correct:
  assumes "hg_wf h" and "storesFirstTailOutArcs h" and "interestedStates h = []"
  shows "arc_heap (deleteOutArcsImpl s h) =
      arc_heap h |` {a. arc_tails (arcAt h a) = [] \<or> hd (arc_tails (arcAt h a)) \<noteq> s} \<and>
    (hg_wf (deleteOutArcsImpl s h) \<longleftrightarrow>
       (storesInArcs h \<longrightarrow>
          (\<forall>x \<in> ran (arc_heap h). arc_tails x \<noteq> [] \<and> hd (arc_tails x) = s \<longrightarrow>
             length (inArcsOf h (arc_head x)) \<le> kAdjLinearSearchLimit)))"
  by (rule deleteOutArcs_wf [OF assms])

theorem deleteOutArcs_correct_witness:
  "arc_heap (deleteOutArcsImpl 0 (sample_fsm kStoreFirstTailOutArcs (terminal 5))) = Map.empty \<and>
   hg_wf (deleteOutArcsImpl 0 (sample_fsm kStoreFirstTailOutArcs (terminal 5)))"
proof -
  let ?h = "sample_fsm kStoreFirstTailOutArcs (terminal 5)"
  have p: "has kStoreFirstTailOutArcs kStoreAnyArcs" by (simp add: flag_simps)
  note F = sample_fsm_facts [OF p, of "terminal 5"]
  have st: "\<not> storesInArcs ?h" "storesFirstTailOutArcs ?h" by (simp_all add: F flag_simps)
  show ?thesis using deleteOutArcs_correct [OF F(1) st(2) sample_interested, of 0] st(1)
    by (auto simp: F(2) arcAt_def new_arc_fsm_def restrict_map_def fun_eq_iff)
qed

text \<open>
  Deleting out-arcs that are stored under all tails. When all out-arcs are stored
  and not the in-arcs, \<open>deleteOutArcs(s)\<close> frees an arc that is also listed under another of its
  tails and leaves it listed there.
\<close>

theorem deleteOutArcs_dangles:
  assumes "hg_wf h" and "storesAllOutArcs h" and "\<not> storesFirstTailOutArcs h" and "\<not> storesInArcs h"
    and "arc_heap h a = Some x" and "s \<in> set (arc_tails x)" and "t \<in> set (arc_tails x)" and "t \<noteq> s"
  shows "arc_heap (deleteOutArcsImpl s h) a = None \<and> a \<in> set (outArcsOf (deleteOutArcsImpl s h) t)"
proof -
  have ok: "index_ok out_weight (arc_heap h) (outArcsPerState h)" using assms(1-3) by (simp add: hg_wf_def)
  have m: "a \<in> set (outArcsOf h u)" if "u \<in> set (arc_tails x)" for u
    using index_member [OF ok, of a u] assms(5) that by (simp add: outArcsOf_def out_weight_def count_list_pos)
  have "arc_heap (deleteOutArcsImpl s h) a = None"
    by (rule deleteOutArcs_frees [OF m [OF assms(6)]]) (simp add: assms(4))
  moreover have "outArcsOf (deleteOutArcsImpl s h) t = outArcsOf h t"
    using assms(8) by (simp add: outArcsOf_def deleteOutArcs_outs getOrElse_def)
  ultimately show ?thesis using m [OF assms(7)] by simp
qed

theorem deleteOutArcs_dangles_witness:
  "arc_heap (deleteOutArcsImpl 0 (sample_fsm kStoreOutArcs (terminal 5))) 0 = None \<and>
   0 \<in> set (outArcsOf (deleteOutArcsImpl 0 (sample_fsm kStoreOutArcs (terminal 5))) 2)"
proof -
  have p: "has kStoreOutArcs kStoreAnyArcs" by (simp add: flag_simps)
  note F = sample_fsm_facts [OF p, of "terminal 5"]
  show ?thesis
    by (rule deleteOutArcs_dangles [where x = "new_arc_fsm 0 2 7 1"])
      (simp_all add: F new_arc_fsm_def flag_simps)
qed

text \<open>
  Restricting by a filter, with in-arcs. \<open>restrict(keep)\<close> frees exactly the arcs
  the filter rejects, returns their number, rebuilds the out-arc index and leaves a well-formed
  hypergraph.
\<close>

theorem restrict_correct:
  assumes "hg_wf h" and "storesInArcs h"
  shows "\<exists>n h'. restrict (Some keep) h = Inr (n, h') \<and> hg_wf h' \<and>
    arc_heap h' = arc_heap h |` {a. keep (arcAt h a)} \<and>
    n = card {a \<in> dom (arc_heap h). \<not> keep (arcAt h a)}"
  by (rule restrict_in_wf [OF assms])

theorem restrict_correct_witness:
  "\<exists>h'. restrict (Some (\<lambda>x. arc_weight x < 7)) (sample_fsm (kStoreInArcs OR kStoreOutArcs) (terminal 5)) = Inr (1, h') \<and>
     hg_wf h' \<and> arc_heap h' = Map.empty"
proof -
  let ?p = "kStoreInArcs OR kStoreOutArcs" and ?k = "\<lambda>x :: nat arc. arc_weight x < 7"
  have p: "has ?p kStoreAnyArcs" by (simp add: flag_simps)
  note F = sample_fsm_facts [OF p, of "terminal 5"]
  have st: "storesInArcs (sample_fsm ?p (terminal 5))" by (simp add: F flag_simps)
  obtain n h' where r: "restrict (Some ?k) (sample_fsm ?p (terminal 5)) = Inr (n, h')" "hg_wf h'"
    "arc_heap h' = arc_heap (sample_fsm ?p (terminal 5)) |` {a. ?k (arcAt (sample_fsm ?p (terminal 5)) a)}"
    "n = card {a \<in> dom (arc_heap (sample_fsm ?p (terminal 5))). \<not> ?k (arcAt (sample_fsm ?p (terminal 5)) a)}"
    using restrict_correct [OF F(1) st, of ?k] by blast
  have "arcAt (sample_fsm ?p (terminal 5)) 0 = new_arc_fsm 0 2 7 1" by (simp add: arcAt_def F(2))
  then have "{a \<in> dom (arc_heap (sample_fsm ?p (terminal 5))). \<not> ?k (arcAt (sample_fsm ?p (terminal 5)) a)} = {0}"
    and "arc_heap h' = Map.empty"
    unfolding r(3) F(2) by (auto simp: new_arc_fsm_def restrict_map_def fun_eq_iff)
  then show ?thesis using r by auto
qed

text \<open>
  Restricting without in-arcs leaks. When only out-arcs are stored,
  \<open>restrict(keep)\<close> lists just the arcs the filter keeps, but frees none of the others.
\<close>

theorem restrict_leaks:
  assumes "hg_wf h" and "\<not> storesInArcs h" and "storesFirstTailOutArcs h \<or> \<not> isFsm h"
  shows "\<exists>n h'. restrict (Some keep) h = Inr (n, h') \<and> arc_heap h' = arc_heap h \<and>
    (\<forall>s a. a \<in> set (outArcsOf h' s) \<longleftrightarrow> a \<in> set (outArcsOf h s) \<and> keep (arcAt h a))"
  by (rule restrict_out_keeps_heap [OF assms])

theorem restrict_leaks_witness:
  "\<exists>n h'. restrict (Some (\<lambda>x. False)) (sample_fsm kStoreFirstTailOutArcs (terminal 5)) = Inr (n, h') \<and>
     arc_heap h' = [0 \<mapsto> new_arc_fsm 0 2 7 1] \<and> outArcsOf h' 0 = []"
proof -
  let ?h = "sample_fsm kStoreFirstTailOutArcs (terminal 5)"
  have p: "has kStoreFirstTailOutArcs kStoreAnyArcs" by (simp add: flag_simps)
  note F = sample_fsm_facts [OF p, of "terminal 5"]
  have st: "\<not> storesInArcs ?h" "storesFirstTailOutArcs ?h \<or> \<not> isFsm ?h" by (simp_all add: F flag_simps)
  obtain n h' where "restrict (Some (\<lambda>x. False)) ?h = Inr (n, h')" "arc_heap h' = arc_heap ?h"
    "\<forall>s a. a \<notin> set (outArcsOf h' s)"
    using restrict_leaks [OF F(1) st, of "\<lambda>x. False"] by blast
  then show ?thesis using F(2) by auto
qed

end
