(* ===== verification/Hg_Sort.thy ===== *)
theory Hg_Sort
  imports Hg_Delete "HOL-Library.Multiset"
begin

text \<open>
  Sorting arcs (\<open>sdl/Hypergraph/SortArcs.hpp\<close>), looking arcs up by input label in sorted lists
  (\<open>outArcsMatchingInput\<close>), and \<open>forcePropertiesOnOff\<close>, which drives the indexes and the
  sorting from property bits. \<open>std::sort\<close> leaves the order of equivalent elements open; the
  model sorts stably. Weights are compared with the order of the weight type.
\<close>

section \<open>Sorting by a comparison\<close>

fun insert_by :: "('a \<Rightarrow> 'a \<Rightarrow> bool) \<Rightarrow> 'a \<Rightarrow> 'a list \<Rightarrow> 'a list" where
  "insert_by lt x [] = [x]"
| "insert_by lt x (y # ys) = (if lt y x then y # insert_by lt x ys else x # y # ys)"

definition std_sort :: "('a \<Rightarrow> 'a \<Rightarrow> bool) \<Rightarrow> 'a list \<Rightarrow> 'a list" where
  "std_sort lt xs = foldr (insert_by lt) xs []"

text \<open>What \<open>std::sort\<close> requires of a comparison: a strict weak order.\<close>

locale strict_weak_order =
  fixes lt :: "'a \<Rightarrow> 'a \<Rightarrow> bool"
  assumes lt_asym: "lt x y \<Longrightarrow> \<not> lt y x"
    and lt_neg_trans: "lt x z \<Longrightarrow> lt x y \<or> lt y z"
begin

lemma sorted_insert_by:
  "sorted_wrt (\<lambda>a b. \<not> lt b a) xs \<Longrightarrow> sorted_wrt (\<lambda>a b. \<not> lt b a) (insert_by lt x xs)"
proof (induction xs)
  case (Cons y ys)
  have set: "set (insert_by lt x ys) = insert x (set ys)" by (induction ys) auto
  show ?case
  proof (cases "lt y x")
    case True
    then show ?thesis using Cons lt_asym by (auto simp: set)
  next
    case False
    then have "\<not> lt z x" if "z \<in> set ys" for z
      using Cons.prems that lt_neg_trans [of z x y] by auto
    then show ?thesis using Cons False by auto
  qed
qed simp

lemma sorted_std_sort: "sorted_wrt (\<lambda>a b. \<not> lt b a) (std_sort lt xs)"
  by (induction xs) (simp_all add: std_sort_def sorted_insert_by)

end

lemma mset_insert_by [simp]: "mset (insert_by lt x xs) = add_mset x (mset xs)"
  by (induction xs) auto

lemma mset_std_sort [simp]: "mset (std_sort lt xs) = mset xs"
  by (induction xs) (simp_all add: std_sort_def)

lemma count_std_sort [simp]: "count_list (std_sort lt xs) a = count_list xs a"
  by (metis count_mset mset_std_sort)

lemma std_sort_Nil [simp]: "std_sort lt [] = []"
  by (simp add: std_sort_def)

section \<open>Comparisons of arcs\<close>

definition arcInput :: "'w hg \<Rightarrow> ArcHandle \<Rightarrow> Sym" where
  "arcInput h a = inputLabel h (fsmSymbolState (arcAt h a))"

definition cmpFsmArcInput :: "'w::linorder hg \<Rightarrow> ArcHandle \<Rightarrow> ArcHandle \<Rightarrow> bool" where
  "cmpFsmArcInput h a b \<longleftrightarrow>
     arcInput h a < arcInput h b \<or>
     (arcInput h a = arcInput h b \<and> arc_weight (arcAt h a) < arc_weight (arcAt h b))"

definition cmpByWeight :: "'w::linorder hg \<Rightarrow> ArcHandle \<Rightarrow> ArcHandle \<Rightarrow> bool" where
  "cmpByWeight h a b \<longleftrightarrow> arc_weight (arcAt h a) < arc_weight (arcAt h b)"

definition cmpFsmArcHead :: "'w hg \<Rightarrow> ArcHandle \<Rightarrow> ArcHandle \<Rightarrow> bool" where
  "cmpFsmArcHead h a b \<longleftrightarrow> arc_head (arcAt h a) < arc_head (arcAt h b)"

definition firstLexicalInput :: "'w hg \<Rightarrow> 'w arc \<Rightarrow> Sym" where
  "firstLexicalInput h x =
     (case find (\<lambda>s. isLexical s) (map (inputLabel h) (arc_tails x)) of
        None \<Rightarrow> NoSymbol | Some s \<Rightarrow> s)"

definition firstLexicalAscending :: "'w hg \<Rightarrow> ArcHandle \<Rightarrow> ArcHandle \<Rightarrow> bool" where
  "firstLexicalAscending h a b \<longleftrightarrow> firstLexicalInput h (arcAt h a) < firstLexicalInput h (arcAt h b)"

interpretation fsm_input: strict_weak_order "cmpFsmArcInput h" for h :: "'w::linorder hg"
  by unfold_locales (auto simp: cmpFsmArcInput_def)

interpretation by_weight: strict_weak_order "cmpByWeight h" for h :: "'w::linorder hg"
  by unfold_locales (auto simp: cmpByWeight_def)

interpretation by_head: strict_weak_order "cmpFsmArcHead h" for h :: "'w hg"
  by unfold_locales (auto simp: cmpFsmArcHead_def)

interpretation by_first_lexical: strict_weak_order "firstLexicalAscending h" for h :: "'w hg"
  by unfold_locales (auto simp: firstLexicalAscending_def)

section \<open>Operations\<close>

definition bindR :: "'e + 'a \<Rightarrow> ('a \<Rightarrow> 'e + 'b) \<Rightarrow> 'e + 'b" where
  "bindR r f = (case r of Inl e \<Rightarrow> Inl e | Inr x \<Rightarrow> f x)"

text \<open>Sorting the lists of the states \<open>0\<close> to \<open>size() - 1\<close> that an index has.\<close>

definition sortAdj :: "(ArcHandle \<Rightarrow> ArcHandle \<Rightarrow> bool) \<Rightarrow> nat \<Rightarrow> ArcHandle list list \<Rightarrow> ArcHandle list list" where
  "sortAdj lt n adj = map (std_sort lt) (take n adj) @ drop n adj"

definition sortArcsImpl :: "(ArcHandle \<Rightarrow> ArcHandle \<Rightarrow> bool) \<Rightarrow> 'w hg \<Rightarrow> sdl_error + 'w hg" where
  "sortArcsImpl cmp h =
     (if \<not> storesOutArcs h then Inl InvalidInputException
      else if has (props h) kSortedOutArcs then Inr h
      else Inr (h\<lparr>outArcsPerState := sortAdj cmp (numStates h) (outArcsPerState h)\<rparr>))"

definition forceBestFirstArcs :: "'w::linorder hg \<Rightarrow> 'w hg" where
  "forceBestFirstArcs h0 =
     (let h = addProperties kOutArcsSortedBestFirst h0
      in h\<lparr>outArcsPerState := sortAdj (cmpByWeight h) (numStates h) (outArcsPerState h)\<rparr>)"

text \<open>
  \<open>forcePropertiesOnOff(on, off)\<close>. It calls \<open>sortArcs\<close>, which may call it back with
  \<open>on = kStoreFirstTailOutArcs\<close>; the sorting is a parameter here and tied below. \<open>p\<close> is read
  once before the removals, as in the source.
\<close>

definition forceAdd :: "('w::linorder hg \<Rightarrow> sdl_error + 'w hg) \<Rightarrow> Properties \<Rightarrow> Properties \<Rightarrow> 'w hg \<Rightarrow> sdl_error + 'w hg" where
  "forceAdd sorter on p h =
     (let add = on AND NOT p in
      if add = 0 then Inr h
      else
        let p1 = (if has add kSortedStates then p OR kSortedStates else p);
            h1 = (if has add kSortedStates then setProperties p1 h else h)
        in bindR (if has add kStoreInArcs then forceInArcs h1 else Inr h1) (\<lambda>h2.
           bindR (if has add kStoreOutArcs
                  then if has add kStoreFirstTailOutArcs then Inl ProgrammerMistakeException
                       else forceOutArcs h2
                  else Inr h2) (\<lambda>h3.
           let add = on AND NOT p1 in
           bindR (if has add kStoreFirstTailOutArcs then forceFirstTailOutArcs h3 else Inr h3) (\<lambda>h4.
           let h5 = (if has add (kFsm OR kGraph) then snd (checkGraph h4) else h4) in
           bindR (if has add kSortedOutArcs then sorter h5 else Inr h5) (\<lambda>h6.
           bindR (if has add kOutArcsSortedBestFirst
                  then if has add kSortedOutArcs then Inl ConfigException
                       else Inr (forceBestFirstArcs (clearProperties kSortedOutArcs h6))
                  else Inr h6) (\<lambda>h7.
           let h8 = computeFsmGraphProperty (if has add kCanonicalLex then snd (ensureCanonicalLex h7) else h7)
           in if on AND NOT (props h8) \<noteq> 0 then Inl InvalidInputException else Inr h8))))))"

definition forceRemove :: "Properties \<Rightarrow> 'w hg \<Rightarrow> sdl_error + 'w hg" where
  "forceRemove off h =
     (let p = props h; remove = off AND p in
      if remove = 0 then Inr h
      else
        let h1 = (if has remove kStoreInArcs then removeInArcs h else h);
            removeOut = has remove kStoreOutArcs;
            removeFirstOut = has remove kStoreFirstTailOutArcs;
            haveOut = has p kStoreOutArcs;
            haveFirstOut = has p kStoreFirstTailOutArcs;
            h2 = (if removeOut \<and> \<not> haveFirstOut \<or> removeFirstOut \<and> \<not> haveOut then removeOutArcs h1 else h1);
            h3 = (if removeFirstOut then setProperties (p AND NOT kStoreFirstTailOutArcs) h2 else h2);
            h4 = (if has remove kCanonicalLex then clearCanonicalLex h3 else h3);
            h5 = (if has remove kSortedStates then setProperties (p AND NOT kSortedStates) h4 else h4);
            h6 = computeFsmGraphProperty h5
        in if off AND props h6 \<noteq> 0 then Inl InvalidInputException else Inr h6)"

definition forceP :: "('w::linorder hg \<Rightarrow> sdl_error + 'w hg) \<Rightarrow> Properties \<Rightarrow> Properties \<Rightarrow> 'w hg \<Rightarrow> sdl_error + 'w hg" where
  "forceP sorter on off h0 =
     (if on AND off \<noteq> 0 then Inl ConfigException
      else if unknownPropertyBits on \<noteq> 0 then Inl ConfigException
      else if unknownPropertyBits off \<noteq> 0 then Inl ConfigException
      else let h = computeFsmGraphProperty h0; p = props h
           in if prunedEmpty h then Inr (setProperties (on OR (p AND NOT off)) (setEmpty False False h))
              else bindR (forceAdd sorter on p h) (forceRemove off))"

definition sortArcs :: "'w::linorder hg \<Rightarrow> sdl_error + 'w hg" where
  "sortArcs h =
     bindR (if \<not> storesOutArcs h then forceP (\<lambda>g. Inl LogicError) kStoreFirstTailOutArcs 0 h else Inr h)
       (\<lambda>h1. bindR (sortArcsImpl (cmpFsmArcInput h1) h1) (\<lambda>h2. Inr (addProperties kSortedOutArcs h2)))"

definition forcePropertiesOnOff :: "Properties \<Rightarrow> Properties \<Rightarrow> 'w::linorder hg \<Rightarrow> sdl_error + 'w hg" where
  "forcePropertiesOnOff on off h = forceP sortArcs on off h"

definition forceProperties :: "Properties \<Rightarrow> bool \<Rightarrow> 'w::linorder hg \<Rightarrow> sdl_error + 'w hg" where
  "forceProperties p on h =
     (if on then forcePropertiesOnOff p 0 h else forcePropertiesOnOff 0 p h)"

definition forceOnlyProperties :: "Properties \<Rightarrow> 'w::linorder hg \<Rightarrow> sdl_error + 'w hg" where
  "forceOnlyProperties p h = forcePropertiesOnOff p (kAllProperties - p) h"

definition forceStoreArcs :: "bool \<Rightarrow> 'w::linorder hg \<Rightarrow> sdl_error + 'w hg" where
  "forceStoreArcs outPreferred h =
     (if \<not> storesArcs h
      then forceProperties (if outPreferred then kStoreFirstTailOutArcs else kStoreInArcs) True h
      else Inr h)"

definition sortInArcs :: "('w::linorder hg \<Rightarrow> ArcHandle \<Rightarrow> ArcHandle \<Rightarrow> bool) \<Rightarrow> 'w hg \<Rightarrow> sdl_error + 'w hg" where
  "sortInArcs cmp h =
     bindR (forceProperties kStoreInArcs True h)
       (\<lambda>h1. Inr (h1\<lparr>inArcsPerState := sortAdj (cmp h1) (numStates h1) (inArcsPerState h1)\<rparr>))"

definition sortInArcsFirstLexical :: "'w::linorder hg \<Rightarrow> sdl_error + 'w hg" where
  "sortInArcsFirstLexical h = sortInArcs firstLexicalAscending h"

text \<open>
  \<open>outArcsMatchingInput\<close>: the epsilons and sigmas at the front of a sorted list are found by
  scanning, other labels by \<open>std::equal_range\<close>, whose result on a list partitioned by the key
  is the run of equal keys.
\<close>

definition outArcsMatchingInput :: "'w hg \<Rightarrow> StateId \<Rightarrow> Sym \<Rightarrow> ArcHandle list" where
  "outArcsMatchingInput h s i =
     (if s = kNoState then []
      else let arcs = outArcsOf h s
           in if arcs = [] then []
              else if i \<le> SIGMA_ID
              then if i = EPSILON_ID then takeWhile (\<lambda>a. arcInput h a = EPSILON_ID) arcs
                   else let rest = dropWhile (\<lambda>a. \<not> EPSILON_ID < arcInput h a) arcs
                        in case rest of
                             [] \<Rightarrow> []
                           | a # as \<Rightarrow> if arcInput h a \<noteq> SIGMA_ID then []
                                       else a # takeWhile (\<lambda>b. arcInput h b = SIGMA_ID) as
              else takeWhile (\<lambda>a. \<not> i < arcInput h a) (dropWhile (\<lambda>a. arcInput h a < i) arcs))"

text \<open>\<open>findNonlexSortedInArcsBegin\<close>: how many leading arcs remain before the run without a lexical tail.\<close>

definition findNonlexSortedInArcs :: "'w hg \<Rightarrow> ArcHandle list \<Rightarrow> ArcHandle list" where
  "findNonlexSortedInArcs h arcs =
     rev (takeWhile (\<lambda>a. firstLexicalInput h (arcAt h a) = NoSymbol) (rev arcs))"

section \<open>Lemmas\<close>

lemma getOrElse_sortAdj:
  "getOrElse (sortAdj lt n adj) s [] =
     (if s < n then std_sort lt (getOrElse adj s []) else getOrElse adj s [])"
  by (auto simp: sortAdj_def getOrElse_def nth_append)

lemma index_sortAdj: "index_ok w heap (sortAdj lt n adj) \<longleftrightarrow> index_ok w heap adj"
  by (simp add: index_ok_def getOrElse_sortAdj)

lemma sorted_takeWhile_filter:
  fixes key :: "'a \<Rightarrow> 'k::linorder"
  assumes "sorted_wrt (\<lambda>a b. key a \<le> key b) xs"
  shows "takeWhile (\<lambda>a. \<not> i < key a) (dropWhile (\<lambda>a. key a < i) xs) = filter (\<lambda>a. key a = i) xs"
  using assms
proof (induction xs)
  case (Cons x xs)
  show ?case
  proof (cases "key x < i")
    case True
    then show ?thesis using Cons by auto
  next
    case ge: False
    show ?thesis
    proof (cases "i < key x")
      case True
      then have "\<forall>y \<in> set xs. key y \<noteq> i" using Cons.prems by auto
      then show ?thesis using True ge by (simp add: filter_False)
    next
      case False
      then have k: "key x = i" using ge by simp
      then have "\<forall>y \<in> set xs. \<not> key y < i" using Cons.prems by auto
      then have "dropWhile (\<lambda>a. key a < i) xs = xs" by (cases xs) auto
      then show ?thesis using Cons k by simp
    qed
  qed
qed simp

lemma takeWhile_min_filter:
  fixes key :: "'a \<Rightarrow> 'k::linorder"
  assumes "sorted_wrt (\<lambda>a b. key a \<le> key b) xs" and "\<forall>x \<in> set xs. m \<le> key x"
  shows "takeWhile (\<lambda>a. key a = m) xs = filter (\<lambda>a. key a = m) xs"
  using assms
proof (induction xs)
  case (Cons x xs)
  show ?case
  proof (cases "key x = m")
    case False
    then have "\<forall>y \<in> set xs. key y \<noteq> m" using Cons.prems by force
    then show ?thesis using False by (simp add: filter_False)
  qed (use Cons in auto)
qed simp

lemma takeWhile_run:
  "takeWhile P r = filter P r \<Longrightarrow>
     (case r of [] \<Rightarrow> [] | a # as \<Rightarrow> if \<not> P a then [] else a # takeWhile P as) = filter P r"
  by (cases r) auto

lemma EPSILON_least: "EPSILON_ID \<le> s"
  by (simp add: less_eq_Sym_def EPSILON_ID_def specialTerminal_def)

lemma le_SIGMA: "s \<le> SIGMA_ID \<longleftrightarrow> s = EPSILON_ID \<or> s = SIGMA_ID"
proof -
  have "x \<le> 1 \<longleftrightarrow> x = 0 \<or> x = 1" for x :: "32 word"
  proof
    assume "x \<le> 1"
    then have "unat x = 0 \<or> unat x = 1" by (auto simp: word_le_nat_alt)
    then show "x = 0 \<or> x = 1" by (metis unat_0 unat_1 word_unat_eq_iff)
  qed auto
  then show ?thesis
    by (cases s) (simp add: less_eq_Sym_def EPSILON_ID_def SIGMA_ID_def specialTerminal_def)
qed

lemma EPSILON_SIGMA: "EPSILON_ID < SIGMA_ID" "EPSILON_ID \<noteq> SIGMA_ID"
  by (simp_all add: less_Sym_def EPSILON_ID_def SIGMA_ID_def specialTerminal_def)

lemma matching_filter:
  assumes s: "s \<noteq> kNoState" and so: "sorted_wrt (\<lambda>a b. arcInput h a \<le> arcInput h b) (outArcsOf h s)"
  shows "outArcsMatchingInput h s i = filter (\<lambda>a. arcInput h a = i) (outArcsOf h s)"
proof -
  let ?as = "outArcsOf h s" and ?k = "arcInput h"
  have eps: "takeWhile (\<lambda>a. ?k a = EPSILON_ID) ?as = filter (\<lambda>a. ?k a = EPSILON_ID) ?as"
    by (rule takeWhile_min_filter [OF so]) (simp add: EPSILON_least)
  have gen: "takeWhile (\<lambda>a. \<not> i < ?k a) (dropWhile (\<lambda>a. ?k a < i) ?as) = filter (\<lambda>a. ?k a = i) ?as"
    by (rule sorted_takeWhile_filter [OF so])
  have sig: "(case dropWhile (\<lambda>a. \<not> EPSILON_ID < ?k a) ?as of [] \<Rightarrow> []
      | a # as \<Rightarrow> if ?k a \<noteq> SIGMA_ID then [] else a # takeWhile (\<lambda>b. ?k b = SIGMA_ID) as) =
      filter (\<lambda>a. ?k a = SIGMA_ID) ?as"
  proof -
    let ?rest = "dropWhile (\<lambda>a. \<not> EPSILON_ID < ?k a) ?as"
    have srest: "sorted_wrt (\<lambda>a b. ?k a \<le> ?k b) ?rest"
      using so by (metis sorted_wrt_append takeWhile_dropWhile_id)
    have lo: "?k a = EPSILON_ID" if "a \<in> set (takeWhile (\<lambda>a. \<not> EPSILON_ID < ?k a) ?as)" for a
      using set_takeWhileD [OF that] EPSILON_least [of "?k a"] by auto
    have split: "filter (\<lambda>a. ?k a = SIGMA_ID) ?as = filter (\<lambda>a. ?k a = SIGMA_ID) ?rest"
    proof -
      have "filter (\<lambda>a. ?k a = SIGMA_ID) (takeWhile (\<lambda>a. \<not> EPSILON_ID < ?k a) ?as) = []"
        using lo EPSILON_SIGMA by (force simp: filter_empty_conv)
      then show ?thesis by (metis append_Nil filter_append takeWhile_dropWhile_id)
    qed
    have hi: "SIGMA_ID \<le> ?k a" if "a \<in> set ?rest" for a
    proof (cases ?rest)
      case (Cons b bs)
      have "EPSILON_ID < ?k b" using Cons hd_dropWhile [of "\<lambda>a. \<not> EPSILON_ID < ?k a" ?as] by auto
      moreover have "?k b \<le> ?k a" using srest that Cons by auto
      ultimately have "EPSILON_ID < ?k a" by auto
      then show ?thesis using le_SIGMA [of "?k a"] by (metis linear less_irrefl)
    next
      case Nil
      then show ?thesis using that by (simp only: list.set empty_iff)
    qed
    have "takeWhile (\<lambda>a. ?k a = SIGMA_ID) ?rest = filter (\<lambda>a. ?k a = SIGMA_ID) ?rest"
      by (rule takeWhile_min_filter [OF srest]) (use hi in simp)
    from takeWhile_run [OF this] show ?thesis unfolding split .
  qed
  show ?thesis
  proof (cases "?as = []")
    case True
    then show ?thesis using s by (simp add: outArcsMatchingInput_def)
  next
    case False
    have "i \<le> SIGMA_ID \<Longrightarrow> i \<noteq> EPSILON_ID \<Longrightarrow> i = SIGMA_ID" using le_SIGMA [of i] by blast
    then show ?thesis using s False eps gen sig
      by (auto simp: outArcsMatchingInput_def Let_def)
  qed
qed

lemma arcInput_updates [simp]:
  "arcInput (h\<lparr>outArcsPerState := v\<rparr>) = arcInput h" "arcInput (setProperties p h) = arcInput h"
  "arcInput (computeFsmGraphProperty h) = arcInput h"
  by (simp_all add: fun_eq_iff arcInput_def arcAt_def inputLabel_def setProperties_def)

lemma setProperties_fields [simp]:
  "arc_heap (setProperties p h) = arc_heap h" "next_arc (setProperties p h) = next_arc h"
  "numStates (setProperties p h) = numStates h" "props (setProperties p h) = p"
  "inArcsPerState (setProperties p h) = inArcsPerState h"
  "outArcsPerState (setProperties p h) = outArcsPerState h"
  by (simp_all add: setProperties_def)

lemma sortArcs_result:
  assumes wf: "hg_wf h" and so: "storesOutArcs h" and un: "\<not> has (props h) kSortedOutArcs"
  shows "\<exists>h'. sortArcs h = Inr h' \<and> hg_wf h' \<and> arc_heap h' = arc_heap h \<and> has (props h') kSortedOutArcs \<and>
    numStates h' = numStates h \<and> arcInput h' = arcInput h \<and>
    (\<forall>s < numStates h. outArcsOf h' s = std_sort (cmpFsmArcInput h) (outArcsOf h s))"
proof -
  let ?h1 = "h\<lparr>outArcsPerState := sortAdj (cmpFsmArcInput h) (numStates h) (outArcsPerState h)\<rparr>"
  let ?h' = "addProperties kSortedOutArcs ?h1"
  have r: "sortArcs h = Inr ?h'" using so un by (simp add: sortArcs_def sortArcsImpl_def bindR_def)
  have w1: "hg_wf ?h1" using wf
    by (simp add: hg_wf_def index_sortAdj arcs_bounded_def storesArcs_cases storesOutArcs_cases)
  have st: "storesInArcs ?h' = storesInArcs (computeFsmGraphProperty ?h1)"
    "storesFirstTailOutArcs ?h' = storesFirstTailOutArcs (computeFsmGraphProperty ?h1)"
    "storesAllOutArcs ?h' = storesAllOutArcs (computeFsmGraphProperty ?h1)"
    by (simp_all add: addProperties_def Let_def storesInArcs_def storesFirstTailOutArcs_def
        storesAllOutArcs_def flag_simps)
  have "hg_wf ?h' = hg_wf (computeFsmGraphProperty ?h1)"
    by (rule hg_wf_same) (use st in \<open>simp_all add: addProperties_def Let_def\<close>)
  then have "hg_wf ?h'" using w1 by simp
  moreover have "has (props ?h') kSortedOutArcs" by (simp add: addProperties_def Let_def flag_simps)
  moreover have "outArcsOf ?h' s = std_sort (cmpFsmArcInput h) (outArcsOf h s)" if "s < numStates h" for s
    using that by (simp add: addProperties_def Let_def outArcsOf_def getOrElse_sortAdj)
  moreover have "arcInput ?h' = arcInput h" by (simp add: addProperties_def Let_def)
  moreover have "arc_heap ?h' = arc_heap h" "numStates ?h' = numStates h" by (simp_all add: addProperties_def Let_def)
  ultimately show ?thesis using r by blast
qed

text \<open>
  Property C29 (sorting makes label lookup complete). \<open>sortArcs\<close> on a well-formed hypergraph with
  unsorted out-arcs permutes each out-arc list, so that the hypergraph stays well-formed, and puts
  the arcs in order of input label and then weight. After it, \<open>outArcsMatchingInput(s, i)\<close>,
  with its special scans for epsilon and sigma and its binary search for the rest, returns exactly
  the out-arcs of \<open>s\<close> with input label \<open>i\<close>.
\<close>

theorem sortArcs_matching:
  assumes "hg_wf h" and "storesOutArcs h" and "\<not> has (props h) kSortedOutArcs"
    and "s < numStates h" and "s \<noteq> kNoState"
  shows "\<exists>h'. sortArcs h = Inr h' \<and> hg_wf h' \<and> arc_heap h' = arc_heap h \<and>
    mset (outArcsOf h' s) = mset (outArcsOf h s) \<and>
    sorted_wrt (\<lambda>a b. \<not> cmpFsmArcInput h b a) (outArcsOf h' s) \<and>
    outArcsMatchingInput h' s i = filter (\<lambda>a. arcInput h a = i) (outArcsOf h' s)"
proof -
  obtain h' where r: "sortArcs h = Inr h'" "hg_wf h'" "arc_heap h' = arc_heap h"
    "numStates h' = numStates h" "arcInput h' = arcInput h"
    "\<forall>s < numStates h. outArcsOf h' s = std_sort (cmpFsmArcInput h) (outArcsOf h s)"
    using sortArcs_result [OF assms(1-3)] by blast
  have o: "outArcsOf h' s = std_sort (cmpFsmArcInput h) (outArcsOf h s)" using r(6) assms(4) by blast
  have so: "sorted_wrt (\<lambda>a b. \<not> cmpFsmArcInput h b a) (outArcsOf h' s)"
    unfolding o by (rule fsm_input.sorted_std_sort)
  have "sorted_wrt (\<lambda>a b. arcInput h a \<le> arcInput h b) (outArcsOf h' s)"
    by (rule sorted_wrt_mono_rel [OF _ so]) (auto simp: cmpFsmArcInput_def)
  then have "outArcsMatchingInput h' s i = filter (\<lambda>a. arcInput h a = i) (outArcsOf h' s)"
    using matching_filter [OF assms(5), of h' i] r(5) by simp
  then show ?thesis using r so o by auto
qed

theorem sortArcs_matching_witness:
  "\<exists>h'. sortArcs (sample_fsm kStoreFirstTailOutArcs (terminal 5)) = Inr h' \<and>
     outArcsMatchingInput h' 0 (terminal 5) = [0]"
proof -
  let ?h = "sample_fsm kStoreFirstTailOutArcs (terminal 5)"
  have p: "has kStoreFirstTailOutArcs kStoreAnyArcs" by (simp add: flag_simps)
  note F = sample_fsm_facts [OF p, of "terminal 5"]
  have st: "storesOutArcs ?h" "\<not> has (props ?h) kSortedOutArcs"
    by (simp_all add: storesOutArcs_cases F flag_simps)
      (simp add: sample_fsm_def addNewArc_def newArc_def addArc_def notifyArcImpl_def sample_states_def
        flag_simps Let_def)
  obtain h' where r: "sortArcs ?h = Inr h'" "mset (outArcsOf h' 0) = mset (outArcsOf ?h 0)"
    "outArcsMatchingInput h' 0 (terminal 5) = filter (\<lambda>a. arcInput ?h a = terminal 5) (outArcsOf h' 0)"
    using sortArcs_matching [OF F(1) st, of 0 "terminal 5"] F(6) by (auto simp: kNoState_def)
  have "outArcsOf ?h 0 = [0]"
    by (simp add: sample_fsm_def addNewArc_def newArc_def addArc_def notifyArcImpl_def sample_states_def
        flag_simps Let_def outArcsOf_def arcAt_def new_arc_fsm_def hg_zero_def atExpand_push_def
        atExpand_def vec_resize_def getOrElse_def)
  moreover have "arcInput ?h 0 = terminal 5"
    by (simp add: arcInput_def arcAt_def F new_arc_fsm_def fsmSymbolState_def inputLabel_def getOrElse_def)
  ultimately show ?thesis using r by simp
qed

section \<open>Removing properties\<close>

lemma has_or_left: "has p k \<Longrightarrow> has (p OR q) k"
  by (auto simp: has_def bit.conj_disj_distrib2 or_eq_0_iff)











end
