(* ===== verification/State_Translation.thy ===== *)
theory State_Translation
  imports Hg_Sort
begin

text \<open>
  \<open>sdl/Hypergraph/StateIdTranslation.hpp\<close>: lazily numbering the states of one hypergraph in
  another. A \<open>StateIdMapping\<close> gives the id of a state the first time it is asked for, and a
  \<open>StateIdTranslation\<close> remembers the answers. The virtual classes derived from
  \<open>StateIdMapping\<close> are the constructors of a datatype. The mappings that add states to an
  output hypergraph get it as an argument and return it updated. The cache, an unordered map that
  is iterated in one place, is an association list in order of insertion.
\<close>

section \<open>Mappings\<close>

datatype StateIdMapping =
    IdentityIdMapping
  | OffsetIdMapping StateId
  | ConsecutiveIdMapping StateId
  | StateAddMapping
  | StateAddIdentityMapping
  | SubsetStateAddMapping "StateId set"
  | SubsetIdentityMapping "StateId set"

fun mapping_identity :: "StateIdMapping \<Rightarrow> bool" where
  "mapping_identity IdentityIdMapping = True"
| "mapping_identity (OffsetIdMapping offset) = (offset = 0)"
| "mapping_identity _ = False"

fun mapping_stateAdding :: "StateIdMapping \<Rightarrow> bool" where
  "mapping_stateAdding StateAddMapping = True"
| "mapping_stateAdding StateAddIdentityMapping = True"
| "mapping_stateAdding (SubsetStateAddMapping _) = True"
| "mapping_stateAdding _ = False"

fun mapping_partial :: "StateIdMapping \<Rightarrow> bool" where
  "mapping_partial (SubsetStateAddMapping _) = True"
| "mapping_partial (SubsetIdentityMapping _) = True"
| "mapping_partial _ = False"

fun remap :: "StateId \<Rightarrow> StateIdMapping \<Rightarrow> 'w hg \<Rightarrow> StateId \<times> StateIdMapping \<times> 'w hg" where
  "remap s IdentityIdMapping g = (s, IdentityIdMapping, g)"
| "remap s (OffsetIdMapping offset) g = ((s + offset) mod 4294967296, OffsetIdMapping offset, g)"
| "remap s (ConsecutiveIdMapping next) g = (next, ConsecutiveIdMapping (inc32 next), g)"
| "remap s StateAddMapping g = (let (r, g1) = addState g in (r, StateAddMapping, g1))"
| "remap s StateAddIdentityMapping g = (s, StateAddIdentityMapping, addStateId s g)"
| "remap s (SubsetStateAddMapping sub) g =
     (if s \<in> sub then let (r, g1) = addState g in (r, SubsetStateAddMapping sub, g1)
      else (kNoState, SubsetStateAddMapping sub, g))"
| "remap s (SubsetIdentityMapping sub) g =
     (if s \<in> sub then s else kNoState, SubsetIdentityMapping sub, g)"

fun remapForLabelPair :: "StateId \<Rightarrow> LabelPair \<Rightarrow> StateIdMapping \<Rightarrow> 'w hg \<Rightarrow> StateId \<times> StateIdMapping \<times> 'w hg" where
  "remapForLabelPair s io StateAddMapping g = (let (r, g1) = addStatePair io g in (r, StateAddMapping, g1))"
| "remapForLabelPair s io StateAddIdentityMapping g =
     (let (r, g1) = addStatePair io g in (r, StateAddIdentityMapping, g1))"
| "remapForLabelPair s io (SubsetStateAddMapping sub) g =
     (if s \<in> sub then let (r, g1) = addStatePair io g in (r, SubsetStateAddMapping sub, g1)
      else (kNoState, SubsetStateAddMapping sub, g))"
| "remapForLabelPair s io m g = remap s m g"

section \<open>Translations\<close>

record xlat =
  cache :: "(StateId \<times> StateId) list"
  smap :: StateIdMapping
  partialMap :: bool
  identityMap :: bool
  stateAddingMap :: bool
  frozenMap :: bool

definition xlat_reset :: "StateIdMapping \<Rightarrow> xlat" where
  "xlat_reset m = \<lparr>cache = [], smap = m, partialMap = mapping_partial m, identityMap = mapping_identity m,
     stateAddingMap = mapping_stateAdding m, frozenMap = False\<rparr>"

definition xlat_freeze :: "xlat \<Rightarrow> xlat" where
  "xlat_freeze x = x\<lparr>frozenMap := True, partialMap := True\<rparr>"

definition existingState :: "xlat \<Rightarrow> StateId \<Rightarrow> StateId" where
  "existingState x s = (case map_of (cache x) s of None \<Rightarrow> kNoState | Some r \<Rightarrow> r)"

definition xlat_add :: "StateId \<Rightarrow> StateId \<Rightarrow> xlat \<Rightarrow> xlat" where
  "xlat_add from' to' x = (if map_of (cache x) from' = None then x\<lparr>cache := cache x @ [(from', to')]\<rparr> else x)"

definition stateFor :: "StateId \<Rightarrow> xlat \<Rightarrow> 'w hg \<Rightarrow> StateId \<times> xlat \<times> 'w hg" where
  "stateFor s x g =
     (if s = kNoState then (s, x, g)
      else if frozenMap x then (existingState x s, x, g)
      else case map_of (cache x) s of
             Some r \<Rightarrow> (r, x, g)
           | None \<Rightarrow> (let (r, m, g1) = remap s (smap x) g
                      in (r, x\<lparr>cache := cache x @ [(s, r)], smap := m\<rparr>, g1)))"

definition setSameAs :: "StateId \<Rightarrow> StateId \<Rightarrow> xlat \<Rightarrow> 'w hg \<Rightarrow> xlat \<times> 'w hg" where
  "setSameAs a b x g = (let (r, x1, g1) = stateFor b x g in (xlat_add a r x1, g1))"

definition xlat_addState :: "StateId \<Rightarrow> LabelPair \<Rightarrow> xlat \<Rightarrow> 'w hg \<Rightarrow> StateId \<times> xlat \<times> 'w hg" where
  "xlat_addState s io x g =
     (if frozenMap x then (existingState x s, x, g)
      else case map_of (cache x) s of
             Some r \<Rightarrow> (r, x, g)
           | None \<Rightarrow> (let (r, m, g1) = remapForLabelPair s io (smap x) g
                      in (r, x\<lparr>cache := cache x @ [(s, r)], smap := m\<rparr>, g1)))"

fun statesFor :: "StateId list \<Rightarrow> xlat \<Rightarrow> 'w hg \<Rightarrow> StateId list \<times> xlat \<times> 'w hg" where
  "statesFor [] x g = ([], x, g)"
| "statesFor (t # ts) x g =
     (let (r, x1, g1) = stateFor t x g; (rs, x2, g2) = statesFor ts x1 g1 in (r # rs, x2, g2))"

text \<open>The loop over the tails of a partial mapping stops at the first unmapped tail.\<close>

fun tailsForPartial :: "StateId list \<Rightarrow> xlat \<Rightarrow> 'w hg \<Rightarrow> bool \<times> StateId list \<times> xlat \<times> 'w hg" where
  "tailsForPartial [] x g = (True, [], x, g)"
| "tailsForPartial (t # ts) x g =
     (let (r, x1, g1) = stateFor t x g
      in if r = kNoState then (False, t # ts, x1, g1)
         else let (ok, rs, x2, g2) = tailsForPartial ts x1 g1 in (ok, r # rs, x2, g2))"

definition relabelArc :: "'w arc \<Rightarrow> xlat \<Rightarrow> 'w hg \<Rightarrow> bool \<times> 'w arc \<times> xlat \<times> 'w hg" where
  "relabelArc a x g =
     (if identityMap x \<and> \<not> stateAddingMap x then (True, a, x, g)
      else let (head, x1, g1) = stateFor (arc_head a) x g
           in if partialMap x1
              then if head = kNoState then (False, a, x1, g1)
                   else let (ok, ts, x2, g2) = tailsForPartial (arc_tails a) x1 g1
                        in (ok, a\<lparr>arc_head := head, arc_tails := ts\<rparr>, x2, g2)
              else let (ts, x2, g2) = statesFor (arc_tails a) x1 g1
                   in (True, a\<lparr>arc_head := head, arc_tails := ts\<rparr>, x2, g2))"

text \<open>\<open>copyArcWithMappedStates\<close> maps the head and the tails of a copy.\<close>

definition copyArcWithMappedStates :: "'w arc \<Rightarrow> xlat \<Rightarrow> 'w hg \<Rightarrow> 'w arc \<times> xlat \<times> 'w hg" where
  "copyArcWithMappedStates a x g =
     (let (head, x1, g1) = stateFor (arc_head a) x g; (ts, x2, g2) = statesFor (arc_tails a) x1 g1
      in (new_arc head ts (arc_weight a), x2, g2))"

definition copyArc :: "'w arc \<Rightarrow> xlat \<Rightarrow> 'w hg \<Rightarrow> 'w arc option \<times> xlat \<times> 'w hg" where
  "copyArc a x g =
     (if identityMap x then (Some a, x, g)
      else if partialMap x
      then let (head, x1, g1) = stateFor (arc_head a) x g
           in if head = kNoState then (None, x1, g1)
              else let (ok, ts, x2, g2) = tailsForPartial (arc_tails a) x1 g1
                   in (if ok then Some (new_arc head ts (arc_weight a)) else None, x2, g2)
      else let (b, x1, g1) = copyArcWithMappedStates a x g in (Some b, x1, g1))"

definition transferLabelsPartial :: "xlat \<Rightarrow> 'w hg \<Rightarrow> 'w hg \<Rightarrow> 'w hg" where
  "transferLabelsPartial x ihg ohg =
     fold (\<lambda>(s, so) o1. setLabelPair so (labelPair ihg s) o1) (cache x) ohg"

definition transferLabel_step :: "'w hg \<Rightarrow> StateId \<Rightarrow> nat \<times> xlat \<times> 'w hg \<Rightarrow> nat \<times> xlat \<times> 'w hg" where
  "transferLabel_step ihg s = (\<lambda>(onStates, x, ohg).
     (if hasLabel ihg s
      then let (so, x1, o1) = stateFor s x ohg;
               (n, o2) = (if \<not> stateAddingMap x1 \<and> onStates \<le> so
                          then let o' = addStateId so o1 in (numStates o', o') else (onStates, o1))
           in (n, x1, if so \<noteq> kNoState then setLabelPair so (labelPair ihg s) o2 else o2)
      else (onStates, x, ohg)))"

definition transferLabels :: "xlat \<Rightarrow> 'w hg \<Rightarrow> 'w hg \<Rightarrow> xlat \<times> 'w hg" where
  "transferLabels x ihg ohg =
     (if frozenMap x then (x, transferLabelsPartial x ihg ohg)
      else let (n, x1, o1) = fold (transferLabel_step ihg) [0..<numStates ihg] (numStates ohg, x, ohg)
           in (x1, o1))"

section \<open>Restricting in place through a translation\<close>

text \<open>\<open>MutableHypergraphLabels::transferLabels\<close> and \<open>updateState\<close>.\<close>

definition transferLabelVec :: "xlat \<Rightarrow> Sym list \<Rightarrow> Sym list \<Rightarrow> Sym list" where
  "transferLabelVec x lin lout =
     fold (\<lambda>(s, so) l. if s < length lin then setLabel l so (lin ! s) else l) (cache x) lout"

definition restrictX_step :: "('w arc \<Rightarrow> bool) \<Rightarrow> bool \<Rightarrow> ArcHandle \<Rightarrow> nat \<times> xlat \<times> 'w hg \<Rightarrow> nat \<times> xlat \<times> 'w hg" where
  "restrictX_step keepa adding a = (\<lambda>(ndel, x, h).
     (if keepa (arcAt h a)
      then let (ok, b, x1, h1) = relabelArc (arcAt h a) x h;
               h2 = h1\<lparr>arc_heap := (arc_heap h1)(a \<mapsto> b)\<rparr>
           in if ok then (ndel, x1, if adding then addArc a h2 else addArcResize a h2)
              else (Suc ndel, x1, deleteArc a h2)
      else (Suc ndel, x, deleteArc a h)))"

definition restrictX :: "xlat \<Rightarrow> ('w arc \<Rightarrow> bool) option \<Rightarrow> 'w hg \<Rightarrow> sdl_error + (nat \<times> xlat \<times> 'w hg)" where
  "restrictX x keepo h =
     (let keepa = (case keepo of None \<Rightarrow> (\<lambda>_. True) | Some keep \<Rightarrow> keep) in
      if identityMap x
      then bindR (restrict keepo h) (\<lambda>(n, h1). Inr (n, x, h1))
      else bindR (fetchArcs h) (\<lambda>arcs.
        let adding = stateAddingMap x;
            in' = iLabelForState h; out = oLabelForState h;
            h1 = (clearArcsPer h)\<lparr>numStates := 0, iLabelForState := [], oLabelForState := [],
                                   lstate := Map.empty\<rparr>;
            (ndel, x1, h2) = fold (restrictX_step keepa adding) arcs (0, x, h1);
            (st, x2, h3) = stateFor (start_state h2) x1 h2;
            h3 = h3\<lparr>start_state := st\<rparr>;
            (fi, x3, h4) = stateFor (final_state h3) x2 h3;
            h4 = h4\<lparr>final_state := fi\<rparr>;
            h5 = notifyLabelImpl (h4\<lparr>iLabelForState := transferLabelVec x3 in' (iLabelForState h4),
                                      oLabelForState := transferLabelVec x3 out (oLabelForState h4)\<rparr>);
            h6 = (if \<not> stateAddingMap x3 then compressNumStates (setNumStates h5) else h5)
        in Inr (ndel, x3, finishDeleted ndel h6)))"

section \<open>The cache is a memo\<close>

text \<open>Where a translation sends a state, as far as its cache knows.\<close>

definition xl :: "xlat \<Rightarrow> StateId \<Rightarrow> StateId" where
  "xl x s = (if s = kNoState then kNoState else existingState x s)"

definition known :: "xlat \<Rightarrow> StateId \<Rightarrow> bool" where
  "known x s \<longleftrightarrow> s = kNoState \<or> frozenMap x \<or> map_of (cache x) s \<noteq> None"

definition extends :: "xlat \<Rightarrow> xlat \<Rightarrow> bool" where
  "extends x1 x \<longleftrightarrow> frozenMap x1 = frozenMap x \<and> partialMap x1 = partialMap x \<and>
     identityMap x1 = identityMap x \<and> stateAddingMap x1 = stateAddingMap x \<and>
     (\<forall>s. known x s \<longrightarrow> known x1 s \<and> xl x1 s = xl x s)"

lemma extends_refl [simp]: "extends x x"
  by (simp add: extends_def)

lemma extends_trans: "extends x2 x1 \<Longrightarrow> extends x1 x \<Longrightarrow> extends x2 x"
  by (simp add: extends_def)

lemma extendsD: "extends x1 x \<Longrightarrow> known x s \<Longrightarrow> known x1 s \<and> xl x1 s = xl x s"
  by (simp add: extends_def)

lemma stateFor_memo:
  assumes "stateFor s x g = (r, x1, g1)"
  shows "r = xl x1 s \<and> known x1 s \<and> extends x1 x \<and> stateFor s x1 g1 = (r, x1, g1) \<and>
    (known x s \<longrightarrow> x1 = x \<and> g1 = g)"
proof (cases "known x s")
  case True
  then have "r = xl x s \<and> x1 = x \<and> g1 = g" using assms
    by (auto simp: stateFor_def xl_def known_def existingState_def split: if_splits option.splits)
  then show ?thesis using True assms by simp
next
  case False
  then have nn: "s \<noteq> kNoState" "\<not> frozenMap x" "map_of (cache x) s = None" by (auto simp: known_def)
  obtain r0 m g0 where rm: "remap s (smap x) g = (r0, m, g0)" by (metis prod_cases3)
  have eq: "r = r0" "x1 = x\<lparr>cache := cache x @ [(s, r0)], smap := m\<rparr>" "g1 = g0"
    using assms nn rm by (auto simp: stateFor_def)
  have mo: "map_of (cache x1) t = (if t = s then Some r0 else map_of (cache x) t)" for t
    using nn(3) by (auto simp: eq(2) map_add_def split: option.splits)
  have "known x t \<longrightarrow> known x1 t \<and> xl x1 t = xl x t" for t
    using nn mo [of t] eq(2) by (auto simp: known_def xl_def existingState_def)
  then have "extends x1 x" by (simp add: extends_def eq(2))
  moreover have "stateFor s x1 g1 = (r, x1, g1)" using nn mo [of s] eq by (simp add: stateFor_def)
  ultimately show ?thesis using nn mo [of s] eq False by (simp add: xl_def known_def existingState_def)
qed

lemma statesFor_memo:
  "statesFor ts x g = (rs, x1, g1) \<Longrightarrow> rs = map (xl x1) ts \<and> (\<forall>t \<in> set ts. known x1 t) \<and> extends x1 x"
proof (induction ts arbitrary: x g rs)
  case (Cons t ts)
  obtain r x2 g2 where a: "stateFor t x g = (r, x2, g2)" by (metis prod_cases3)
  obtain rs' where b: "statesFor ts x2 g2 = (rs', x1, g1)" and rs: "rs = r # rs'"
    using Cons.prems a by (auto split: prod.splits)
  note A = stateFor_memo [OF a] and B = Cons.IH [OF b]
  then show ?case using rs extendsD [of x1 x2 t] extends_trans [of x1 x2 x] by auto
qed simp

lemma tailsForPartial_memo:
  "tailsForPartial ts x g = (ok, rs, x1, g1) \<Longrightarrow> extends x1 x \<and>
     (ok \<longrightarrow> rs = map (xl x1) ts \<and> kNoState \<notin> set rs \<and> (\<forall>t \<in> set ts. known x1 t)) \<and>
     (\<not> ok \<longrightarrow> (\<exists>t \<in> set ts. known x1 t \<and> xl x1 t = kNoState))"
proof (induction ts arbitrary: x g ok rs)
  case (Cons t ts)
  obtain r x2 g2 where a: "stateFor t x g = (r, x2, g2)" by (metis prod_cases3)
  note A = stateFor_memo [OF a]
  show ?case
  proof (cases "r = kNoState")
    case True
    then show ?thesis using Cons.prems a A by auto
  next
    case False
    obtain rs' where b: "tailsForPartial ts x2 g2 = (ok, rs', x1, g1)" and rs: "rs = r # rs'"
      using Cons.prems a False by (auto split: prod.splits)
    note B = Cons.IH [OF b]
    then show ?thesis using A rs False extendsD [of x1 x2 t] extends_trans [of x1 x2 x] by auto
  qed
qed simp

lemma relabelArc_memo:
  assumes "relabelArc a x g = (ok, b, x1, g1)" and "\<not> (identityMap x \<and> \<not> stateAddingMap x)"
  shows "extends x1 x \<and>
    (ok \<longrightarrow> b = a\<lparr>arc_head := xl x1 (arc_head a), arc_tails := map (xl x1) (arc_tails a)\<rparr> \<and>
       (partialMap x \<longrightarrow> kNoState \<notin> insert (arc_head b) (set (arc_tails b)))) \<and>
    (\<not> ok \<longrightarrow> partialMap x \<and> (\<exists>s \<in> insert (arc_head a) (set (arc_tails a)). xl x1 s = kNoState))"
proof -
  obtain h x2 g2 where s: "stateFor (arc_head a) x g = (h, x2, g2)" by (metis prod_cases3)
  note S = stateFor_memo [OF s]
  have pm: "partialMap x2 = partialMap x" using S by (simp add: extends_def)
  show ?thesis
  proof (cases "partialMap x")
    case False
    obtain ts where t: "statesFor (arc_tails a) x2 g2 = (ts, x1, g1)"
      and e: "ok" "b = a\<lparr>arc_head := h, arc_tails := ts\<rparr>"
      using assms s False pm by (auto simp: relabelArc_def split: prod.splits if_splits)
    then show ?thesis using S statesFor_memo [OF t] extendsD [of x1 x2 "arc_head a"]
        extends_trans [of x1 x2 x] False by auto
  next
    case True
    show ?thesis
    proof (cases "h = kNoState")
      case hk: True
      then show ?thesis using assms s S pm True by (auto simp: relabelArc_def split: if_splits)
    next
      case hk: False
      obtain ts where t: "tailsForPartial (arc_tails a) x2 g2 = (ok, ts, x1, g1)"
        and e: "b = a\<lparr>arc_head := h, arc_tails := ts\<rparr>"
        using assms s True pm hk by (auto simp: relabelArc_def split: prod.splits if_splits)
      then show ?thesis using S tailsForPartial_memo [OF t] extendsD [of x1 x2 "arc_head a"]
          extends_trans [of x1 x2 x] True hk by auto
    qed
  qed
qed

text \<open>
  Relabelling an arc. Unless the translation is the identity, a kept arc has its
  head and every tail replaced by what the translation sends them to, answers given earlier are
  not changed, an arc of a partial translation is rejected exactly when some state of it has no
  image, and a total translation rejects none.
\<close>

theorem relabelArc_correct:
  assumes "relabelArc a x g = (ok, b, x1, g1)" and "\<not> (identityMap x \<and> \<not> stateAddingMap x)"
  shows "(\<forall>s. known x s \<longrightarrow> xl x1 s = xl x s) \<and>
    (ok \<longrightarrow> b = a\<lparr>arc_head := xl x1 (arc_head a), arc_tails := map (xl x1) (arc_tails a)\<rparr>) \<and>
    (\<not> ok \<longrightarrow> partialMap x \<and> (\<exists>s \<in> insert (arc_head a) (set (arc_tails a)). xl x1 s = kNoState)) \<and>
    (ok \<and> partialMap x \<longrightarrow> kNoState \<notin> insert (arc_head b) (set (arc_tails b)))"
  using relabelArc_memo [OF assms] by (auto simp: extends_def)

theorem relabelArc_correct_witness:
  "\<exists>x1 g1. relabelArc (new_arc_fsm 4 2 (7::nat) 9) (xlat_reset (ConsecutiveIdMapping 0)) (hg_zero :: nat hg) =
     (True, \<lparr>arc_head = 0, arc_tails = [1, 2], arc_weight = 7\<rparr>, x1, g1) \<and> xl x1 9 = 0"
proof -
  let ?a = "new_arc_fsm 4 2 (7::nat) 9" and ?x = "xlat_reset (ConsecutiveIdMapping 0)"
  obtain ok b x1 g1 where r: "relabelArc ?a ?x (hg_zero :: nat hg) = (ok, b, x1, g1)" by (metis prod_cases4)
  have n: "\<not> (identityMap ?x \<and> \<not> stateAddingMap ?x)" by (simp add: xlat_reset_def)
  have v: "ok \<and> b = \<lparr>arc_head = 0, arc_tails = [1, 2], arc_weight = 7\<rparr>"
    using r by (auto simp: relabelArc_def stateFor_def xlat_reset_def new_arc_fsm_def kNoState_def inc32_def)
  have "xl x1 9 = 0" using relabelArc_correct [OF r n] v by (auto simp: new_arc_fsm_def)
  then show ?thesis using r v by (intro exI [of _ x1] exI [of _ g1]) simp
qed

section \<open>Fresh numberings\<close>

text \<open>
  A mapping that hands out consecutive new ids: \<open>bound\<close> is the next one. The client is
  \<open>stateFor\<close>; two providers are \<open>StateAddMapping\<close>, where the bound is the size of the output
  hypergraph, and \<open>ConsecutiveIdMapping\<close>, where it is the counter.
\<close>

locale fresh_numbering =
  fixes ok :: "StateIdMapping \<Rightarrow> bool"
    and bound :: "StateIdMapping \<Rightarrow> 'w hg \<Rightarrow> nat"
  assumes remap_fresh:
    "ok m \<Longrightarrow> bound m g < kNoState \<Longrightarrow> remap s m g = (r, m', g') \<Longrightarrow>
       r = bound m g \<and> ok m' \<and> bound m' g' = Suc r"
begin

definition numbering :: "xlat \<Rightarrow> 'w hg \<Rightarrow> bool" where
  "numbering x g \<longleftrightarrow> ok (smap x) \<and> \<not> frozenMap x \<and> inj_on (map_of (cache x)) (dom (map_of (cache x))) \<and>
     (\<forall>s r. map_of (cache x) s = Some r \<longrightarrow> r < bound (smap x) g)"

lemma stateFor_numbering:
  assumes n: "numbering x g" and b: "bound (smap x) g < kNoState" and s: "s \<noteq> kNoState"
    and st: "stateFor s x g = (r, x1, g1)"
  shows "numbering x1 g1 \<and> map_of (cache x1) s = Some r \<and> r < bound (smap x1) g1 \<and>
    bound (smap x1) g1 \<le> Suc (bound (smap x) g) \<and> map_of (cache x) \<subseteq>\<^sub>m map_of (cache x1)"
proof (cases "map_of (cache x) s")
  case (Some v)
  then have "r = v" "x1 = x" "g1 = g" using st s n by (auto simp: stateFor_def numbering_def)
  then show ?thesis using Some n by (auto simp: numbering_def)
next
  case None
  obtain r0 m g0 where rm: "remap s (smap x) g = (r0, m, g0)" by (metis prod_cases3)
  have eq: "r = r0" "x1 = x\<lparr>cache := cache x @ [(s, r0)], smap := m\<rparr>" "g1 = g0"
    using st s n None rm by (auto simp: stateFor_def numbering_def)
  have f: "r0 = bound (smap x) g" "ok m" "bound m g0 = Suc r0"
    using remap_fresh [OF _ b rm] n by (auto simp: numbering_def)
  have mo: "map_of (cache x1) = (map_of (cache x))(s \<mapsto> r0)"
    using None by (auto simp: eq(2) fun_eq_iff map_add_def split: option.splits)
  have lt: "v < r0" if "map_of (cache x) t = Some v" for t v
    using n that f(1) by (auto simp: numbering_def)
  have "inj_on (map_of (cache x1)) (dom (map_of (cache x1)))"
  proof (rule inj_onI)
    fix t u assume t: "t \<in> dom (map_of (cache x1))" and u: "u \<in> dom (map_of (cache x1))"
      and e: "map_of (cache x1) t = map_of (cache x1) u"
    show "t = u"
    proof (cases "t = s \<or> u = s")
      case True
      then show ?thesis using e lt [of t r0] lt [of u r0] by (auto simp: mo split: if_splits)
    next
      case False
      have i: "inj_on (map_of (cache x)) (dom (map_of (cache x)))" using n by (simp add: numbering_def)
      show ?thesis by (rule inj_onD [OF i]) (use t u e False in \<open>auto simp: mo\<close>)
    qed
  qed
  moreover have "v < Suc r0" if "map_of (cache x1) t = Some v" for t v
    using that lt [of t v] by (auto simp: mo split: if_splits)
  ultimately have "numbering x1 g1" using f n by (auto simp: numbering_def eq)
  then show ?thesis using f mo None by (auto simp: eq map_le_def)
qed

end

interpretation add_states: fresh_numbering "\<lambda>m. m = StateAddMapping" "\<lambda>m g. numStates g"
  by unfold_locales (auto simp: addState_def)

interpretation consecutive: fresh_numbering "\<lambda>m. \<exists>n. m = ConsecutiveIdMapping n"
    "\<lambda>m g. case m of ConsecutiveIdMapping n \<Rightarrow> n | _ \<Rightarrow> 0"
  by unfold_locales auto

text \<open>
  Adding states through a translation. With \<open>StateAddMapping\<close>, as long as ids
  remain, \<open>stateFor\<close> keeps the translation injective and within the states of the output
  hypergraph: distinct source states never share a copy, and at most one state is added.
\<close>

theorem stateFor_injective:
  assumes "smap x = StateAddMapping" and "\<not> frozenMap x"
    and "inj_on (map_of (cache x)) (dom (map_of (cache x)))"
    and "\<forall>s r. map_of (cache x) s = Some r \<longrightarrow> r < numStates g"
    and "numStates g < kNoState" and "s \<noteq> kNoState" and "stateFor s x g = (r, x1, g1)"
  shows "map_of (cache x1) s = Some r \<and> inj_on (map_of (cache x1)) (dom (map_of (cache x1))) \<and>
    (\<forall>s r. map_of (cache x1) s = Some r \<longrightarrow> r < numStates g1) \<and>
    numStates g1 \<le> Suc (numStates g) \<and> map_of (cache x) \<subseteq>\<^sub>m map_of (cache x1)"
proof -
  have "add_states.numbering x g" using assms(1-4) by (simp add: add_states.numbering_def)
  from add_states.stateFor_numbering [OF this assms(5-7)] show ?thesis
    by (simp add: add_states.numbering_def)
qed

theorem stateFor_injective_witness:
  "\<exists>x1 g1. stateFor 7 (xlat_reset StateAddMapping) (hg_zero :: nat hg) = (0, x1, g1) \<and>
     map_of (cache x1) 7 = Some 0 \<and> numStates g1 \<le> 1"
proof -
  let ?x = "xlat_reset StateAddMapping"
  obtain r x1 g1 where st: "stateFor 7 ?x (hg_zero :: nat hg) = (r, x1, g1)" by (metis prod_cases3)
  have "r = 0" using st by (auto simp: stateFor_def xlat_reset_def addState_def kNoState_def hg_zero_def)
  then show ?thesis using stateFor_injective [OF _ _ _ _ _ _ st] st
    by (simp add: xlat_reset_def hg_zero_def kNoState_def)
qed

end
