(* ===== verification/Hg_Copy.thy ===== *)
theory Hg_Copy
  imports State_Translation
begin

text \<open>
  Copying a hypergraph without changing state ids
  (\<open>sdl/Hypergraph/HypergraphCopyBasic.hpp\<close>): the states with their labels, then the arcs
  that \<open>forArcs\<close> visits, and the functions that copy only where wanted properties are missing.

  The content of a hypergraph, apart from its states, is the multiset \<open>hg_arcs\<close> of its live
  arcs; a copy has the multiset of the visited arcs.
\<close>

section \<open>The arcs of a hypergraph\<close>

definition live_arcs :: "'w hg \<Rightarrow> ArcHandle list" where
  "live_arcs h = filter (\<lambda>a. arc_heap h a \<noteq> None) [0..<next_arc h]"

definition hg_arcs :: "'w hg \<Rightarrow> 'w arc multiset" where
  "hg_arcs h = mset (map (arcAt h) (live_arcs h))"

lemma set_live_arcs: "hg_wf h \<Longrightarrow> set (live_arcs h) = dom (arc_heap h)"
  by (auto simp: live_arcs_def hg_wf_def arcs_bounded_def)

lemma hg_arcs_enum:
  assumes "hg_wf h" and "arc_enum h as"
  shows "mset (map (arcAt h) as) = hg_arcs h"
proof -
  have "distinct (live_arcs h)" by (simp add: live_arcs_def)
  then have "mset as = mset (live_arcs h)"
    using assms by (simp add: set_eq_iff_mset_eq_distinct [symmetric] arc_enum_iff set_live_arcs)
  then show ?thesis by (simp add: hg_arcs_def)
qed

lemma set_mset_hg_arcs: "hg_wf h \<Longrightarrow> set_mset (hg_arcs h) = ran (arc_heap h)"
  by (force simp: hg_arcs_def set_live_arcs arcAt_def ran_def dom_def image_iff)

lemma wf_arc:
  assumes "hg_wf h" and "x \<in># hg_arcs h"
  shows "arc_head x < numStates h" "\<forall>t \<in> set (arc_tails x). t < numStates h"
    "storesInArcs h \<or> arc_tails x \<noteq> []"
proof -
  obtain a where "arc_heap h a = Some x" using assms by (auto simp: set_mset_hg_arcs ran_def)
  then show "arc_head x < numStates h" "\<forall>t \<in> set (arc_tails x). t < numStates h"
    "storesInArcs h \<or> arc_tails x \<noteq> []"
    using hg_wfD(1) [OF assms(1)] unfolding arcs_bounded_def by blast+
qed

lemma hg_arcs_heap: "arc_heap h = arc_heap g \<Longrightarrow> next_arc h = next_arc g \<Longrightarrow> hg_arcs h = hg_arcs g"
  by (simp add: hg_arcs_def live_arcs_def arcAt_def [abs_def])

lemma hg_arcs_empty: "arc_heap h = Map.empty \<Longrightarrow> hg_arcs h = {#}"
  by (simp add: hg_arcs_def live_arcs_def)

lemma hg_arcs_insert:
  assumes "arc_heap h' = (arc_heap h)(next_arc h \<mapsto> x)" and "next_arc h' = Suc (next_arc h)"
  shows "hg_arcs h' = add_mset x (hg_arcs h)"
proof -
  have l: "live_arcs h' = live_arcs h @ [next_arc h]"
    using assms by (auto simp: live_arcs_def intro: filter_cong)
  have m: "map (arcAt h') (live_arcs h) = map (arcAt h) (live_arcs h)"
    using assms by (auto simp: live_arcs_def arcAt_def)
  have "arcAt h' (next_arc h) = x" using assms by (simp add: arcAt_def)
  then show ?thesis unfolding hg_arcs_def l map_append m by simp
qed

text \<open>What adding a new arc does to every field that is not an index.\<close>

lemma addNewArc_frame:
  "props (snd (addNewArc x h)) =
     (if storesOutArcs h then props h AND NOT kSortedOutArcs else props h)"
  "arc_heap (snd (addNewArc x h)) = (arc_heap h)(next_arc h \<mapsto> x)"
  "next_arc (snd (addNewArc x h)) = Suc (next_arc h)"
  "numStates (snd (addNewArc x h)) = numStates h"
  "start_state (snd (addNewArc x h)) = start_state h" "final_state (snd (addNewArc x h)) = final_state h"
  "iLabelForState (snd (addNewArc x h)) = iLabelForState h"
  "oLabelForState (snd (addNewArc x h)) = oLabelForState h"
  "pVocab (snd (addNewArc x h)) = pVocab h" "lstate (snd (addNewArc x h)) = lstate h"
  "storesInArcs (snd (addNewArc x h)) = storesInArcs h"
  "storesFirstTailOutArcs (snd (addNewArc x h)) = storesFirstTailOutArcs h"
  "storesAllOutArcs (snd (addNewArc x h)) = storesAllOutArcs h"
  by (auto simp: addNewArc_def newArc_def addArc_def notifyArcImpl_def Let_def storesOutArcs_def
      storesInArcs_def storesFirstTailOutArcs_def storesAllOutArcs_def clearProp_def flag_simps)

lemma addNewArc_step:
  assumes "hg_wf h" and "arc_head x < numStates h" "\<forall>t \<in> set (arc_tails x). t < numStates h"
    and "storesInArcs h \<or> arc_tails x \<noteq> []"
  shows "hg_wf (snd (addNewArc x h)) \<and> hg_arcs (snd (addNewArc x h)) = add_mset x (hg_arcs h)"
  using addNewArc_wf [OF assms, of "fst (addNewArc x h)" "snd (addNewArc x h)"]
    hg_arcs_insert [OF addNewArc_frame(2,3), of x h] by simp

definition addNewArcs :: "'w arc list \<Rightarrow> 'w hg \<Rightarrow> 'w hg" where
  "addNewArcs xs h = fold (\<lambda>x g. snd (addNewArc x g)) xs h"

lemma addNewArcs_frame [simp]:
  "numStates (addNewArcs xs h) = numStates h"
  "start_state (addNewArcs xs h) = start_state h" "final_state (addNewArcs xs h) = final_state h"
  "iLabelForState (addNewArcs xs h) = iLabelForState h"
  "oLabelForState (addNewArcs xs h) = oLabelForState h"
  "pVocab (addNewArcs xs h) = pVocab h" "storesInArcs (addNewArcs xs h) = storesInArcs h"
  "storesFirstTailOutArcs (addNewArcs xs h) = storesFirstTailOutArcs h"
  "storesAllOutArcs (addNewArcs xs h) = storesAllOutArcs h"
  unfolding addNewArcs_def by (induction xs arbitrary: h) (simp_all add: addNewArc_frame)

lemma addNewArcs_wf:
  assumes "hg_wf h" and "\<And>x. x \<in> set xs \<Longrightarrow> arc_head x < numStates h \<and>
    (\<forall>t \<in> set (arc_tails x). t < numStates h) \<and> (storesInArcs h \<or> arc_tails x \<noteq> [])"
  shows "hg_wf (addNewArcs xs h) \<and> hg_arcs (addNewArcs xs h) = hg_arcs h + mset xs"
  using assms unfolding addNewArcs_def
proof (induction xs arbitrary: h)
  case (Cons x xs)
  let ?g = "snd (addNewArc x h)"
  have s: "hg_wf ?g \<and> hg_arcs ?g = add_mset x (hg_arcs h)"
    using Cons.prems(1) Cons.prems(2) [of x] by (intro addNewArc_step) simp_all
  have "hg_wf (fold (\<lambda>x g. snd (addNewArc x g)) xs ?g) \<and>
      hg_arcs (fold (\<lambda>x g. snd (addNewArc x g)) xs ?g) = hg_arcs ?g + mset xs"
    by (rule Cons.IH [OF s [THEN conjunct1]], unfold addNewArc_frame) (rule Cons.prems(2), simp)
  then show ?case using s by simp
qed simp

section \<open>Copying\<close>

definition ArcCopyPreserveStateIds :: "'w hg \<Rightarrow> 'w hg \<Rightarrow> ArcHandle \<Rightarrow> 'w hg" where
  "ArcCopyPreserveStateIds from' target a = snd (addNewArc (arcAt from' a) target)"

definition ArcCopySome :: "('w arc \<Rightarrow> bool) \<Rightarrow> 'w hg \<Rightarrow> 'w hg \<Rightarrow> ArcHandle \<Rightarrow> 'w hg" where
  "ArcCopySome keep from' target a =
     (if keep (arcAt from' a) then snd (addNewArc (arcAt from' a) target) else target)"

text \<open>\<open>IMutableHypergraph::exactSizeForHeads\<close>, with the unsigned increment of \<open>kNoState\<close>.\<close>

definition exactSizeForHeads :: "'w hg \<Rightarrow> nat" where
  "exactSizeForHeads h =
     (if has (properties h) kSortedStates then sortedStatesNumNotTerminal h
      else inc32 (maxNotTerminalLoop h (numStates h)))"

definition maxNotTerminalState :: "'w hg \<Rightarrow> StateId" where
  "maxNotTerminalState h =
     (if has (properties h) kSortedStates
      then (if sortedStatesNumNotTerminal h = 0 then kNoState else sortedStatesNumNotTerminal h - 1)
      else maxNotTerminalLoop h (numStates h))"

definition sizeForHeads :: "'w hg \<Rightarrow> nat" where
  "sizeForHeads h =
     (if has (properties h) kSortedStates then sortedStatesNumNotTerminal h else numStates h)"

definition setSortedStatesNumNotTerminal :: "nat \<Rightarrow> 'w hg \<Rightarrow> 'w hg" where
  "setSortedStatesNumNotTerminal n h = h\<lparr>sortedStatesNumNotTerminal := n\<rparr>"

definition copyExceptArcs :: "'w hg \<Rightarrow> 'w hg \<Rightarrow> bool \<Rightarrow> 'w hg" where
  "copyExceptArcs from' to0 clearAndSameProperties =
     (let to1 = (if clearAndSameProperties then clear_hg (properties from') to0 else to0);
          to2 = to1\<lparr>pVocab := pVocab from'\<rparr>;
          to3 = fold (\<lambda>s g. addStateIdLabels s (labelPairOptionalOutput from' s) g) [0..<numStates from'] to2;
          to4 = setFinal (final_state from') (setStart (start_state from') to3)
      in if has (properties from') kSortedStates
         then setSortedStatesNumNotTerminal (exactSizeForHeads from') to4 else to4)"

definition copyHypergraph :: "'w hg \<Rightarrow> 'w hg \<Rightarrow> bool \<Rightarrow> sdl_error + 'w hg" where
  "copyHypergraph from' to0 clearAndSameProperties =
     (let to1 = copyExceptArcs from' to0 clearAndSameProperties
      in bindR (forArcs from') (\<lambda>as. Inr (fold (\<lambda>a g. ArcCopyPreserveStateIds from' g a) as to1)))"

definition copyHypergraphPartial :: "'w hg \<Rightarrow> 'w hg \<Rightarrow> ('w arc \<Rightarrow> bool) \<Rightarrow> bool \<Rightarrow> sdl_error + 'w hg" where
  "copyHypergraphPartial from' to0 keep clearAndSameProperties =
     (let to1 = copyExceptArcs from' to0 clearAndSameProperties
      in bindR (forArcs from') (\<lambda>as. Inr (fold (\<lambda>a g. ArcCopySome keep from' g a) as to1)))"

definition copyHypergraphNew :: "'w hg \<Rightarrow> Properties \<Rightarrow> sdl_error + 'w hg" where
  "copyHypergraphNew from' prop =
     bindR (init_hg prop) (\<lambda>r. copyHypergraph from' (r\<lparr>pVocab := pVocab from'\<rparr>) False)"

text \<open>
  Copying with relabelled states. A relabeller \<open>tr\<close> with an output (\<open>Inr\<close>) also writes through
  its first argument, the output symbol of the previous call, which starts as \<open>NoSymbol\<close>.
\<close>

type_synonym relabeller = "(Sym \<Rightarrow> Sym \<Rightarrow> Sym) + (Sym \<Rightarrow> Sym \<Rightarrow> Sym \<Rightarrow> Sym \<times> Sym)"

definition relabel_step :: "'w hg \<Rightarrow> relabeller \<Rightarrow> StateId \<Rightarrow> Sym \<times> 'w hg \<Rightarrow> Sym \<times> 'w hg" where
  "relabel_step from' tr s = (\<lambda>(oprime, target).
     (let (i, out) = labelPair from' s
      in case tr of
           Inl f \<Rightarrow> (oprime, snd (addStateSym (f i out) target))
         | Inr f \<Rightarrow> (let (in', oprime') = f oprime i out in (oprime', snd (addStatePair (in', oprime') target)))))"

definition copyStatesRelabel :: "'w hg \<Rightarrow> 'w hg \<Rightarrow> relabeller \<Rightarrow> 'w hg" where
  "copyStatesRelabel from' to0 tr =
     (let to1 = to0\<lparr>pVocab := pVocab from'\<rparr>;
          (oprime, to2) = fold (relabel_step from' tr) [0..<numStates from'] (NoSymbol, to1)
      in setFinal (final_state from') (setStart (start_state from') to2))"

text \<open>
  \<open>copyEnsuringProperties\<close> forces the properties on \<open>o\<close> before and after copying; \<open>force\<close> is
  \<open>o->forcePropertiesOnOff(forceOn, forceOff)\<close>.
\<close>

definition copyEnsuringProperties :: "('w hg \<Rightarrow> sdl_error + 'w hg) \<Rightarrow> 'w hg \<Rightarrow> 'w hg \<Rightarrow> sdl_error + 'w hg" where
  "copyEnsuringProperties force i out =
     bindR (force out) (\<lambda>o1. bindR (copyHypergraph i o1 True) force)"

datatype OnMissingProperties =
    CopyEnsuringProperties | ThrowUnlessProperties | ModifyOrCopyEnsuringProperties
  | ModifyOrThrowUnlessProperties

fun missingThrow :: "OnMissingProperties \<Rightarrow> bool" where
  "missingThrow ThrowUnlessProperties = True"
| "missingThrow ModifyOrThrowUnlessProperties = True"
| "missingThrow _ = False"

text \<open>
  \<open>ensureProperties\<close> returns the input itself or a copy in a new hypergraph. The second one is
  given a hypergraph it may change; its test \<open>onMissing | kMissingModifyMask\<close> is always
  true, so that a mutable input is always changed in place.
\<close>

datatype 'w ensured = SameHg "'w hg" | CopiedHg "'w hg"

definition orSwitchOn :: "Properties \<Rightarrow> Properties \<Rightarrow> bool" where
  "orSwitchOn orForceOn ip \<longleftrightarrow> orForceOn AND NOT ip \<noteq> 0"

definition ensureCopy :: "'w hg \<Rightarrow> Properties \<Rightarrow> Properties \<Rightarrow> Properties \<Rightarrow> Properties \<Rightarrow> sdl_error + 'w ensured" where
  "ensureCopy i ip switchOn switchOff maybeOff =
     bindR (init_hg ((ip OR switchOn) AND NOT switchOff AND NOT maybeOff)) (\<lambda>pm.
       bindR (copyHypergraph i pm False) (\<lambda>pm1. Inr (CopiedHg pm1)))"

definition ensureProperties :: "'w hg \<Rightarrow> Properties \<Rightarrow> Properties \<Rightarrow> Properties
    \<Rightarrow> OnMissingProperties \<Rightarrow> Properties \<Rightarrow> sdl_error + 'w ensured" where
  "ensureProperties i forceOn maybeOff forceOff onMissing orForceOn =
     (let ip = properties i
      in if forceOn AND forceOff \<noteq> 0 then Inl LogicError
         else let switchOn = forceOn AND NOT ip; switchOff = forceOff AND ip
              in if switchOn \<noteq> 0 \<and> orSwitchOn orForceOn ip \<or> switchOff \<noteq> 0
                 then if missingThrow onMissing then Inl HypergraphPropertiesException
                      else ensureCopy i ip switchOn switchOff maybeOff
                 else Inr (SameHg i))"

definition ensurePropertiesMutable :: "(Properties \<Rightarrow> Properties \<Rightarrow> 'w hg \<Rightarrow> sdl_error + 'w hg) \<Rightarrow> 'w hg
    \<Rightarrow> Properties \<Rightarrow> Properties \<Rightarrow> Properties \<Rightarrow> Properties \<Rightarrow> sdl_error + 'w ensured" where
  "ensurePropertiesMutable force i forceOn maybeOff forceOff orForceOn =
     (let ip = properties i
      in if forceOn AND forceOff \<noteq> 0 then Inl LogicError
         else let switchOn = forceOn AND NOT ip; switchOff = forceOff AND ip
              in if switchOn \<noteq> 0 \<and> orSwitchOn orForceOn ip \<or> switchOff \<noteq> 0
                 then bindR (force switchOn switchOff i) (\<lambda>i1. Inr (SameHg i1))
                 else Inr (SameHg i))"

definition ensureFirstTailOutArcs :: "'w hg \<Rightarrow> sdl_error + 'w ensured" where
  "ensureFirstTailOutArcs hg =
     ensureProperties hg (if storesOutArcs hg then 0 else kStoreFirstTailOutArcs) kStoreInArcs 0
       CopyEnsuringProperties (- 1)"

definition ensureOutArcs :: "'w hg \<Rightarrow> sdl_error + 'w ensured" where
  "ensureOutArcs hg =
     ensureProperties hg kStoreOutArcs (kStoreInArcs OR kStoreFirstTailOutArcs) 0 CopyEnsuringProperties (- 1)"

text \<open>
  \<open>copyFsmOutArcs\<close> copies the arcs with first tail \<open>fromState\<close> to another tail state of the
  same hypergraph. The visit reads the bound of its loop once, so the arcs it adds to the same list
  are not visited.
\<close>

definition copyFsmOutArcs :: "StateId \<Rightarrow> StateId \<Rightarrow> 'w hg \<Rightarrow> 'w hg" where
  "copyFsmOutArcs fromState tailState h =
     fold (\<lambda>a g. let x = arcAt g a in snd (addNewArc (x\<lparr>arc_tails := (arc_tails x)[0 := tailState]\<rparr>) g))
       (forArcsOutFirstTailAt h fromState) h"

section \<open>The copied states\<close>

lemma addStateIdLabels_frame [simp]:
  "arc_heap (addStateIdLabels s l h) = arc_heap h" "next_arc (addStateIdLabels s l h) = next_arc h"
  "inArcsPerState (addStateIdLabels s l h) = inArcsPerState h"
  "outArcsPerState (addStateIdLabels s l h) = outArcsPerState h"
  "pVocab (addStateIdLabels s l h) = pVocab h"
  "storesInArcs (addStateIdLabels s l h) = storesInArcs h"
  "storesFirstTailOutArcs (addStateIdLabels s l h) = storesFirstTailOutArcs h"
  "storesAllOutArcs (addStateIdLabels s l h) = storesAllOutArcs h"
  by (simp_all add: addStateIdLabels_def setLabelPairImpl_def addStateId_def Let_def storesInArcs_def
      storesFirstTailOutArcs_def storesAllOutArcs_def flag_simps)

lemma addStateIdLabels_reads:
  assumes "s < kNoState"
  shows "inputLabel (addStateIdLabels s l h) t = (if t = s then fst l else inputLabel h t)"
    and "outputLabelBare (addStateIdLabels s l h) t = (if t = s then snd l else outputLabelBare h t)"
  using assms
  by (auto simp: addStateIdLabels_def setLabelPairImpl_def addStateId_def Let_def inputLabel_def
      outputLabelBare_def getOrElse_setLabel label_input_def label_output_def)

lemma numStates_addStateIdLabels:
  "s < kNoState \<Longrightarrow> numStates (addStateIdLabels s l h) = max (numStates h) (Suc s)"
  by (auto simp: addStateIdLabels_def setLabelPairImpl_def addStateId_def Let_def)

definition copied_states :: "(StateId \<Rightarrow> LabelPair) \<Rightarrow> nat \<Rightarrow> 'w hg \<Rightarrow> 'w hg" where
  "copied_states f n h = fold (\<lambda>s g. addStateIdLabels s (f s) g) [0..<n] h"

lemma copied_states_frame [simp]:
  "arc_heap (copied_states f n h) = arc_heap h" "next_arc (copied_states f n h) = next_arc h"
  "inArcsPerState (copied_states f n h) = inArcsPerState h"
  "outArcsPerState (copied_states f n h) = outArcsPerState h"
  "pVocab (copied_states f n h) = pVocab h"
  "storesInArcs (copied_states f n h) = storesInArcs h"
  "storesFirstTailOutArcs (copied_states f n h) = storesFirstTailOutArcs h"
  "storesAllOutArcs (copied_states f n h) = storesAllOutArcs h"
  unfolding copied_states_def by (induction n) simp_all

lemma copied_states_reads:
  assumes "n \<le> kNoState"
  shows "numStates (copied_states f n h) = max (numStates h) n \<and>
    labelPairOptionalOutput (copied_states f n h) t =
      (if t < n then f t else labelPairOptionalOutput h t)"
  using assms unfolding copied_states_def
proof (induction n)
  case (Suc n)
  then show ?case
    by (auto simp: labelPairOptionalOutput_def outputLabelBare_def [symmetric] addStateIdLabels_reads
        numStates_addStateIdLabels)
qed simp


text \<open>What \<open>copyExceptArcs\<close> leaves, after clearing.\<close>

lemma clear_hg_facts:
  assumes "hg_wf to0"
  shows "arc_heap (clear_hg p to0) = Map.empty" "numStates (clear_hg p to0) = 0"
    "inArcsPerState (clear_hg p to0) = []" "outArcsPerState (clear_hg p to0) = []"
    "storesInArcs (clear_hg p to0) = has p kStoreInArcs"
    "storesFirstTailOutArcs (clear_hg p to0) = has p kStoreFirstTailOutArcs"
    "storesAllOutArcs (clear_hg p to0) = has p kStoreOutArcs"
proof -
  have e: "arc_enum to0 (forArcsSafe to0)" by (rule forArcsSafe_enum [OF assms])
  have m: "f |` (- dom f) = Map.empty" for f :: "nat \<Rightarrow> 'a arc option"
    by (auto simp: fun_eq_iff restrict_map_def domIff)
  show "arc_heap (clear_hg p to0) = Map.empty" "numStates (clear_hg p to0) = 0"
    "inArcsPerState (clear_hg p to0) = []" "outArcsPerState (clear_hg p to0) = []"
    using fold_deleteArc [of "forArcsSafe to0" to0] e
    by (simp_all add: clear_hg_def clearImpl_def clearStates_def clearLabelImpl_def clearArcsPer_def
        deleteArcs_def setProperties_def Let_def m arc_enum_iff)
  let ?c = "clearImpl p to0"
  have P: "has (props ?c) k = (has (p OR kFsmProperties) k)" for k
    by (simp add: clearImpl_def clearStates_def clearLabelImpl_def)
  have "storesInArcs ?c = has p kStoreInArcs" "storesFirstTailOutArcs ?c = has p kStoreFirstTailOutArcs"
    "storesAllOutArcs ?c = has p kStoreOutArcs"
    unfolding storesInArcs_def storesFirstTailOutArcs_def storesAllOutArcs_def P
    by (simp_all add: flag_simps)
  then show "storesInArcs (clear_hg p to0) = has p kStoreInArcs"
    "storesFirstTailOutArcs (clear_hg p to0) = has p kStoreFirstTailOutArcs"
    "storesAllOutArcs (clear_hg p to0) = has p kStoreOutArcs"
    using compute_stores [of ?c]
    by (simp_all add: clear_hg_def setProperties_def Let_def storesInArcs_def storesFirstTailOutArcs_def
        storesAllOutArcs_def flag_simps)
qed

lemma properties_stores:
  "has (properties h) kStoreInArcs = storesInArcs h"
  "has (properties h) kStoreFirstTailOutArcs = storesFirstTailOutArcs h"
  "has (properties h) kStoreOutArcs = storesAllOutArcs h"
  using compute_stores [of h]
  by (simp_all add: properties_def storesInArcs_def storesFirstTailOutArcs_def storesAllOutArcs_def)

lemma copyExceptArcs_into:
  assumes n: "numStates from' \<le> kNoState" and w: "hg_wf t1" "arc_heap t1 = Map.empty" "numStates t1 = 0"
    and t1: "t1 = (if b then clear_hg (properties from') to0 else to0)"
  shows "hg_wf (copyExceptArcs from' to0 b) \<and> hg_arcs (copyExceptArcs from' to0 b) = {#} \<and>
    numStates (copyExceptArcs from' to0 b) = numStates from' \<and>
    start_state (copyExceptArcs from' to0 b) = start_state from' \<and>
    final_state (copyExceptArcs from' to0 b) = final_state from' \<and>
    pVocab (copyExceptArcs from' to0 b) = pVocab from' \<and>
    storesInArcs (copyExceptArcs from' to0 b) = storesInArcs t1 \<and>
    storesFirstTailOutArcs (copyExceptArcs from' to0 b) = storesFirstTailOutArcs t1 \<and>
    storesAllOutArcs (copyExceptArcs from' to0 b) = storesAllOutArcs t1 \<and>
    (\<forall>s < numStates from'. labelPairOptionalOutput (copyExceptArcs from' to0 b) s = labelPairOptionalOutput from' s)"
proof -
  let ?t2 = "t1\<lparr>pVocab := pVocab from'\<rparr>"
  let ?t3 = "copied_states (labelPairOptionalOutput from') (numStates from') ?t2"
  let ?r = "copyExceptArcs from' to0 b"
  note R = copied_states_reads [OF n, of "labelPairOptionalOutput from'" ?t2]
  have S: "storesInArcs ?t3 = storesInArcs t1" "storesFirstTailOutArcs ?t3 = storesFirstTailOutArcs t1"
    "storesAllOutArcs ?t3 = storesAllOutArcs t1"
    using stores_props [of ?t2 t1] by simp_all
  have w3: "hg_wf ?t3" using w S R
    by (simp add: hg_wf_def arcs_bounded_def storesArcs_cases storesOutArcs_cases)
  let ?t4 = "setFinal (final_state from') (setStart (start_state from') ?t3)"
  have r: "?r = ?t4 \<or> ?r = ?t4\<lparr>sortedStatesNumNotTerminal := exactSizeForHeads from'\<rparr>"
    by (simp add: copyExceptArcs_def copied_states_def Let_def setSortedStatesNumNotTerminal_def t1)
  have "arc_heap ?r = Map.empty" "next_arc ?r = next_arc ?t3" "numStates ?r = numStates from'"
    "props ?r = props ?t3" "inArcsPerState ?r = inArcsPerState ?t3" "outArcsPerState ?r = outArcsPerState ?t3"
    "start_state ?r = start_state from'" "final_state ?r = final_state from'" "pVocab ?r = pVocab from'"
    "iLabelForState ?r = iLabelForState ?t3" "oLabelForState ?r = oLabelForState ?t3"
    using r w(2,3) R by (auto simp: setFinal_def setStart_def)
  note F = this
  have N: "numStates ?t3 = numStates from'" using R w(3) by simp
  note P = stores_props [OF F(4)]
  have W: "hg_wf ?r"
    using w3 hg_wf_same [of ?r ?t3] F N P w(2) by simp
  have "labelPairOptionalOutput ?r = labelPairOptionalOutput ?t3"
    using F by (simp add: fun_eq_iff labelPairOptionalOutput_def inputLabel_def)
  then have L: "\<forall>s < numStates from'. labelPairOptionalOutput ?r s = labelPairOptionalOutput from' s"
    using R by simp
  show ?thesis using P S W L F hg_arcs_empty [OF F(1)] by simp
qed

lemma clear_hg_wf: "hg_wf to0 \<Longrightarrow> has p kStoreAnyArcs \<Longrightarrow> hg_wf (clear_hg p to0)"
  by (auto simp: hg_wf_def [of "clear_hg p to0"] arcs_bounded_def clear_hg_facts index_empty storesArcs_cases
      storesOutArcs_cases flag_simps)

lemma wf_properties: "hg_wf h \<Longrightarrow> has (properties h) kStoreAnyArcs"
  using properties_stores [of h] by (auto simp: hg_wf_def storesArcs_cases storesOutArcs_cases flag_simps)

lemma copyExceptArcs_facts:
  assumes wf: "hg_wf from'" and w0: "hg_wf to0" and n: "numStates from' \<le> kNoState"
  shows "hg_wf (copyExceptArcs from' to0 True) \<and> hg_arcs (copyExceptArcs from' to0 True) = {#} \<and>
    numStates (copyExceptArcs from' to0 True) = numStates from' \<and>
    start_state (copyExceptArcs from' to0 True) = start_state from' \<and>
    final_state (copyExceptArcs from' to0 True) = final_state from' \<and>
    pVocab (copyExceptArcs from' to0 True) = pVocab from' \<and>
    storesInArcs (copyExceptArcs from' to0 True) = storesInArcs from' \<and>
    (\<forall>s < numStates from'. labelPairOptionalOutput (copyExceptArcs from' to0 True) s = labelPairOptionalOutput from' s)"
proof -
  let ?t1 = "clear_hg (properties from') to0"
  note C = clear_hg_facts [OF w0, of "properties from'"]
  have w: "hg_wf ?t1" by (rule clear_hg_wf [OF w0 wf_properties [OF wf]])
  have "?t1 = (if True then ?t1 else to0)" by simp
  from copyExceptArcs_into [OF n w C(1,2) this] show ?thesis using C(5) by (simp add: properties_stores)
qed

lemma fold_ArcCopy:
  "fold (\<lambda>a g. ArcCopyPreserveStateIds from' g a) as to1 = addNewArcs (map (arcAt from') as) to1"
  unfolding addNewArcs_def ArcCopyPreserveStateIds_def by (induction as arbitrary: to1) simp_all

lemma fold_ArcCopySome:
  "fold (\<lambda>a g. ArcCopySome keep from' g a) as to1 = addNewArcs (filter keep (map (arcAt from') as)) to1"
  unfolding addNewArcs_def ArcCopySome_def by (induction as arbitrary: to1) simp_all

lemma forArcs_live:
  assumes wf: "hg_wf h" and as: "forArcs h = Inr as" and st: "storesInArcs h \<or> storesFirstTailOutArcs h \<or> \<not> isFsm h"
  shows "arc_enum h as"
  using forArcs_enum [OF wf st] as by simp

lemma copy_arcs:
  assumes wf: "hg_wf from'" and w0: "hg_wf to0" and n: "numStates from' \<le> kNoState"
    and st: "storesInArcs from' \<or> storesFirstTailOutArcs from' \<or> \<not> isFsm from'"
  shows "\<exists>to1. copyHypergraphPartial from' to0 keep True = Inr to1 \<and> hg_wf to1 \<and>
    hg_arcs to1 = filter_mset keep (hg_arcs from') \<and> numStates to1 = numStates from' \<and>
    start_state to1 = start_state from' \<and> final_state to1 = final_state from' \<and> pVocab to1 = pVocab from' \<and>
    (\<forall>s < numStates from'. labelPairOptionalOutput to1 s = labelPairOptionalOutput from' s)"
proof -
  obtain as where as: "forArcs from' = Inr as" and e: "arc_enum from' as"
    using forArcs_enum [OF wf st] by blast
  let ?c = "copyExceptArcs from' to0 True" and ?xs = "filter keep (map (arcAt from') as)"
  note C = copyExceptArcs_facts [OF wf w0 n]
  have b: "arc_head x < numStates ?c \<and> (\<forall>t \<in> set (arc_tails x). t < numStates ?c) \<and>
      (storesInArcs ?c \<or> arc_tails x \<noteq> [])" if X: "x \<in> set ?xs" for x
  proof -
    obtain a where "arc_heap from' a = Some x" using X e by (force simp: arc_enum_iff arcAt_def)
    then show ?thesis using C wf by (auto simp: hg_wf_def arcs_bounded_def)
  qed
  have W: "hg_wf (addNewArcs ?xs ?c) \<and> hg_arcs (addNewArcs ?xs ?c) = hg_arcs ?c + mset ?xs"
    by (rule addNewArcs_wf) (use C b in blast)+
  moreover have "mset ?xs = filter_mset keep (hg_arcs from')"
    unfolding hg_arcs_enum [OF wf e, symmetric] by simp
  ultimately show ?thesis using C
    by (simp add: copyHypergraphPartial_def as bindR_def fold_ArcCopySome labelPairOptionalOutput_def inputLabel_def)
qed


text \<open>Copying into a hypergraph without states, keeping the target's properties.\<close>

lemma copy_into_empty:
  assumes wf: "hg_wf from'" and n: "numStates from' \<le> kNoState"
    and st: "storesInArcs from' \<or> storesFirstTailOutArcs from' \<or> \<not> isFsm from'"
    and w: "hg_wf t1" "arc_heap t1 = Map.empty" "numStates t1 = 0"
    and t: "storesInArcs t1 \<or> (\<forall>x \<in># hg_arcs from'. arc_tails x \<noteq> [])"
  shows "\<exists>to1. copyHypergraph from' t1 False = Inr to1 \<and> hg_wf to1 \<and> hg_arcs to1 = hg_arcs from' \<and>
    numStates to1 = numStates from' \<and> start_state to1 = start_state from' \<and> final_state to1 = final_state from' \<and>
    storesInArcs to1 = storesInArcs t1 \<and> storesFirstTailOutArcs to1 = storesFirstTailOutArcs t1 \<and>
    storesAllOutArcs to1 = storesAllOutArcs t1 \<and>
    (\<forall>s < numStates from'. labelPairOptionalOutput to1 s = labelPairOptionalOutput from' s)"
proof -
  obtain as where as: "forArcs from' = Inr as" and e: "arc_enum from' as"
    using forArcs_enum [OF wf st] by blast
  let ?c = "copyExceptArcs from' t1 False" and ?xs = "map (arcAt from') as"
  have "t1 = (if False then clear_hg (properties from') t1 else t1)" by simp
  note C = copyExceptArcs_into [OF n w this]
  have m: "mset ?xs = hg_arcs from'" by (rule hg_arcs_enum [OF wf e])
  have b: "arc_head x < numStates ?c \<and> (\<forall>t \<in> set (arc_tails x). t < numStates ?c) \<and>
      (storesInArcs ?c \<or> arc_tails x \<noteq> [])" if X: "x \<in> set ?xs" for x
  proof -
    have "x \<in># hg_arcs from'" using X by (simp flip: m)
    then show ?thesis using C t wf_arc [OF wf] by auto
  qed
  have "hg_wf (addNewArcs ?xs ?c) \<and> hg_arcs (addNewArcs ?xs ?c) = hg_arcs ?c + mset ?xs"
    by (rule addNewArcs_wf) (use C b in blast)+
  then show ?thesis using C m
    by (simp add: copyHypergraph_def as bindR_def fold_ArcCopy labelPairOptionalOutput_def inputLabel_def)
qed

lemma init_hg_facts:
  assumes "has p kStoreAnyArcs"
  shows "\<exists>r :: 'w hg. init_hg p = Inr r \<and> hg_wf r \<and> arc_heap r = Map.empty \<and> numStates r = 0 \<and>
    props r = p OR kFsmProperties"
proof -
  let ?r = "clearStates ((hg_zero :: 'w hg)\<lparr>props := p OR kFsmProperties\<rparr>)"
  have s: "storesArcs ?r" using assms by (simp add: clearStates_def storesArcs_def flag_simps)
  then have "hg_wf ?r"
    by (simp add: hg_wf_def arcs_bounded_def clearStates_def hg_zero_def index_empty)
  moreover have "init_hg p = Inr ?r" using s by (simp add: init_hg_def Let_def)
  ultimately show ?thesis by (intro exI [of _ ?r]) (simp add: clearStates_def hg_zero_def)
qed

text \<open>The unfiltered copy is the copy that keeps everything.\<close>

lemma copyHypergraph_partial: "copyHypergraph from' to0 b = copyHypergraphPartial from' to0 (\<lambda>_. True) b"
  by (simp add: copyHypergraph_def copyHypergraphPartial_def fold_ArcCopySome fold_ArcCopy)

section \<open>Properties\<close>

text \<open>
  Property C31 (copying keeps everything). Copying a well-formed hypergraph over any well-formed
  target, whatever it held, gives a well-formed hypergraph with the same states, start, final,
  vocabulary, labels and multiset of arcs. The hypothesis on the stored arcs is that of
  \<open>forArcs\<close>: on an fsm that stores only all out-arcs the visit may repeat arcs.
\<close>

theorem copyHypergraph_correct:
  assumes "hg_wf from'" and "hg_wf to0" and "numStates from' \<le> kNoState"
    and "storesInArcs from' \<or> storesFirstTailOutArcs from' \<or> \<not> isFsm from'"
  shows "\<exists>to1. copyHypergraph from' to0 True = Inr to1 \<and> hg_wf to1 \<and> hg_arcs to1 = hg_arcs from' \<and>
    numStates to1 = numStates from' \<and> start_state to1 = start_state from' \<and>
    final_state to1 = final_state from' \<and> pVocab to1 = pVocab from' \<and>
    (\<forall>s < numStates from'. labelPairOptionalOutput to1 s = labelPairOptionalOutput from' s)"
  using copy_arcs [OF assms, of "\<lambda>_. True"] by (simp add: copyHypergraph_partial)

lemma sample_hg_arcs:
  assumes "has p kStoreAnyArcs"
  shows "hg_arcs (sample_fsm p label) = {#new_arc_fsm 0 2 7 1#}" and "final_state (sample_fsm p label) = 1"
proof -
  have x: "next_arc (sample_fsm p label) = Suc 0"
    by (simp add: sample_fsm_def addNewArc_frame sample_states_def hg_zero_def)
  show "hg_arcs (sample_fsm p label) = {#new_arc_fsm 0 2 7 1#}"
    by (simp add: hg_arcs_def live_arcs_def x sample_fsm_facts(2) [OF assms] arcAt_def)
  show "final_state (sample_fsm p label) = 1"
    by (simp add: sample_fsm_def addNewArc_frame sample_states_def hg_zero_def)
qed

theorem copyHypergraph_correct_witness:
  "\<exists>to1. copyHypergraph (sample_fsm kStoreInArcs (terminal 5)) (sample_fsm kStoreOutArcs (terminal 6)) True = Inr to1 \<and>
     hg_arcs to1 = {#new_arc_fsm 0 2 7 1#} \<and> numStates to1 = 3"
proof -
  have p: "has kStoreInArcs kStoreAnyArcs" "has kStoreOutArcs kStoreAnyArcs" by (simp_all add: flag_simps)
  note F = sample_fsm_facts [OF p(1), of "terminal 5"] and G = sample_fsm_facts [OF p(2), of "terminal 6"]
  have n: "numStates (sample_fsm kStoreInArcs (terminal 5)) \<le> kNoState" by (simp add: F kNoState_def)
  have st: "storesInArcs (sample_fsm kStoreInArcs (terminal 5))" by (simp add: F flag_simps)
  show ?thesis
    using copyHypergraph_correct [OF F(1) G(1) n] st F(6) sample_hg_arcs(1) [OF p(1), of "terminal 5"] by auto
qed

end
