(* ===== verification/Hg_Language.thy ===== *)
theory Hg_Language
  imports Hg_Copy
begin

text \<open>
  The weighted language of an fsm and the transforms that are specified by it: reversing
  (\<open>sdl/Hypergraph/Reverse.hpp\<close>), inverting (\<open>Invert.cpp\<close>) and projecting (\<open>Project.hpp\<close>,
  \<open>IMutableHypergraph.hpp\<close>). The language is the abstract specification of these components:
  a path is a list of arcs, each leaving the state the one before it enters; its word is the list
  of the label pairs of its label states with the weights of its arcs; the language is the set of
  the words of the paths from start to final.
\<close>

section \<open>Paths and languages\<close>

fun path :: "'w arc set \<Rightarrow> StateId \<Rightarrow> 'w arc list \<Rightarrow> StateId \<Rightarrow> bool" where
  "path A q [] r \<longleftrightarrow> q = r"
| "path A q (x # p) r \<longleftrightarrow> x \<in> A \<and> isFsmFrom x q \<and> path A (arc_head x) p r"

type_synonym 'w wword = "(LabelPair \<times> 'w) list"

definition arc_letter :: "'w hg \<Rightarrow> 'w arc \<Rightarrow> LabelPair \<times> 'w" where
  "arc_letter h x = (labelPair h (fsmSymbolState x), arc_weight x)"

definition lang :: "'w hg \<Rightarrow> 'w wword set" where
  "lang h = {map (arc_letter h) p | p. start_state h \<noteq> kNoState \<and>
               path (set_mset (hg_arcs h)) (start_state h) p (final_state h)}"

lemma langI:
  "path (set_mset (hg_arcs h)) (start_state h) p (final_state h) \<Longrightarrow> start_state h \<noteq> kNoState \<Longrightarrow>
     map (arc_letter h) p \<in> lang h"
  by (auto simp: lang_def)

lemma path_append [simp]: "path A q (p1 @ p2) r \<longleftrightarrow> (\<exists>s. path A q p1 s \<and> path A s p2 r)"
  by (induction p1 arbitrary: q) auto

lemma path_mono: "A \<subseteq> B \<Longrightarrow> path A q p r \<Longrightarrow> path B q p r"
  by (induction p arbitrary: q) auto

lemma path_arcs: "path A q p r \<Longrightarrow> set p \<subseteq> A"
  by (induction p arbitrary: q) auto

text \<open>A path visits states that a set closed under the arcs contains.\<close>

lemma path_end:
  assumes "path A q p r" and "\<forall>x \<in> A. arc_head x \<in> S" and "q \<in> S"
  shows "r \<in> S"
  using assms by (induction p arbitrary: q) auto

text \<open>A map on arcs and states that commutes with source and target maps paths to paths.\<close>

lemma path_image:
  assumes "\<And>x. x \<in> A \<Longrightarrow> f x \<in> B \<and> arc_head (f x) = g (arc_head x) \<and> (\<forall>q. isFsmFrom x q \<longrightarrow> isFsmFrom (f x) (g q))"
    and "path A q p r"
  shows "path B (g q) (map f p) (g r)"
  using assms(2) by (induction p arbitrary: q) (auto simp: assms(1) dest: assms(1))

text \<open>Where the arcs of a path come from a mapped set, the path is a mapped path.\<close>

lemma path_preimage:
  assumes inj: "\<And>x y. x \<in> A \<Longrightarrow> isFsmFrom (f x) (g y) \<Longrightarrow> y \<in> S \<Longrightarrow> isFsmFrom x y"
    and head: "\<And>x. x \<in> A \<Longrightarrow> arc_head (f x) = g (arc_head x) \<and> arc_head x \<in> S"
    and "path (f ` A) (g q) p r" and "q \<in> S"
  shows "\<exists>p' r'. p = map f p' \<and> r = g r' \<and> r' \<in> S \<and> path A q p' r'"
  using assms(3,4)
proof (induction p arbitrary: q)
  case Nil
  then show ?case by (intro exI [of _ "[]"]) auto
next
  case (Cons y p)
  then obtain x where x: "x \<in> A" "y = f x" "isFsmFrom (f x) (g q)" "path (f ` A) (g (arc_head x)) p r"
    using head by auto
  obtain p' r' where "p = map f p'" "r = g r'" "r' \<in> S" "path A (arc_head x) p' r'"
    using Cons.IH [OF x(4)] head [OF x(1)] by blast
  then show ?case using x inj [OF x(1) x(3) Cons.prems(2)] by (intro exI [of _ "x # p'"]) auto
qed

section \<open>Reversing a graph\<close>

text \<open>\<open>newGraphReversedArc\<close>, and the in-place \<open>std::swap(arc->tails_[0], arc->head_)\<close>.\<close>

definition newGraphReversedArc :: "'w arc \<Rightarrow> 'w arc" where
  "newGraphReversedArc a = new_arc_first_tail (arc_head a) (arc_tails a) (arc_tails a ! 0) (arc_weight a)"

definition swapTailHead :: "ArcHandle \<Rightarrow> 'w hg \<Rightarrow> 'w hg" where
  "swapTailHead a h =
     (let x = arcAt h a
      in h\<lparr>arc_heap := (arc_heap h)(a \<mapsto> x\<lparr>arc_tails := (arc_tails x)[0 := arc_head x],
                                            arc_head := arc_tails x ! 0\<rparr>)\<rparr>)"

definition reverseGraph :: "'w hg \<Rightarrow> 'w hg \<Rightarrow> sdl_error + 'w hg" where
  "reverseGraph hg result =
     (if \<not> isGraph hg then Inl InvalidInputException
      else let r1 = fold (\<lambda>s g. addStateIdLabels s (labelPair hg s) g) [0..<numStates hg] result;
               r2 = setFinal (start_state hg) (setStart (final_state hg) (r1\<lparr>pVocab := pVocab hg\<rparr>))
           in bindR (forArcs hg) (\<lambda>as.
                Inr (fold (\<lambda>a g. snd (addNewArc (newGraphReversedArc (arcAt hg a)) g)) as r2)))"

definition reverseGraphInplace :: "'w hg \<Rightarrow> sdl_error + 'w hg" where
  "reverseGraphInplace hg0 =
     (let hg = computeFsmGraphProperty hg0
      in if \<not> has (props hg) kGraph then Inl InvalidInputException
         else bindR (forArcs hg) (\<lambda>as.
                let h1 = fold swapTailHead as hg;
                    final = final_state h1
                in rebuildArcAdjacencies (setStart final (setFinal (start_state h1) h1))))"

definition reverseTails :: "ArcHandle \<Rightarrow> 'w hg \<Rightarrow> 'w hg" where
  "reverseTails a h =
     (let x = arcAt h a in h\<lparr>arc_heap := (arc_heap h)(a \<mapsto> x\<lparr>arc_tails := rev (arc_tails x)\<rparr>)\<rparr>)"

definition reverseCfg :: "'w hg \<Rightarrow> sdl_error + 'w hg" where
  "reverseCfg hg =
     (if prunedEmpty hg then Inr hg
      else let h0 = computeFsmGraphProperty hg
           in if has (props h0) kGraph then Inl InvalidInputException
              else bindR (forceInArcsOnly h0) (\<lambda>h1.
                     bindR (forArcs h1) (\<lambda>as. Inr (fold reverseTails as h1))))"

definition reverse :: "'w hg \<Rightarrow> 'w hg \<Rightarrow> sdl_error + 'w hg" where
  "reverse hg result =
     (if isGraph hg then reverseGraph hg result
      else bindR (copyHypergraph hg result True) reverseCfg)"

definition reverseInplace :: "'w hg \<Rightarrow> sdl_error + 'w hg" where
  "reverseInplace h =
     (let h0 = computeFsmGraphProperty h
      in if has (props h0) kGraph then reverseGraphInplace h0 else reverseCfg h0)"

section \<open>Inverting and projecting\<close>

definition invert_pair :: "LabelPair \<Rightarrow> LabelPair" where
  "invert_pair x = (snd x, fst x)"

definition needsInvert :: "'w hg \<Rightarrow> bool" where
  "needsInvert hg \<longleftrightarrow> \<not> outputLabelFollowsInput hg"

definition invertForceLabelPair :: "'w hg \<Rightarrow> 'w hg" where
  "invertForceLabelPair hg =
     fold (\<lambda>s h. setLabelPair s (invert_pair (labelPair h s)) h) [0..<numStates hg] hg"

definition invert :: "'w hg \<Rightarrow> 'w hg" where
  "invert hg = (if needsInvert hg then invertForceLabelPair hg else hg)"

definition emptyOutputLabels :: "'w hg \<Rightarrow> bool" where
  "emptyOutputLabels h \<longleftrightarrow> oLabelForState h = []"

definition projectInput :: "'w hg \<Rightarrow> 'w hg" where
  "projectInput h = clearProperties kHasOutputLabels (removeOutputLabels h)"

definition SetInLabelToOut :: "StateId \<Rightarrow> 'w hg \<Rightarrow> 'w hg" where
  "SetInLabelToOut s h = setInputLabel s (outputLabel h s) h"

text \<open>\<open>visitLabeledStates\<close> with a visitor that never stops the visit.\<close>

definition visitLabeledStates :: "(StateId \<Rightarrow> 'w hg \<Rightarrow> 'w hg) \<Rightarrow> 'w hg \<Rightarrow> 'w hg" where
  "visitLabeledStates v h =
     fold (\<lambda>s g. if hasLabel g s then v s g else g) [0..<numStates h] h"

definition projectOutput :: "'w hg \<Rightarrow> 'w hg" where
  "projectOutput h =
     clearProperties kHasOutputLabels
       (if \<not> emptyOutputLabels h then removeOutputLabels (visitLabeledStates SetInLabelToOut h) else h)"

datatype ProjectType = Project_Input | Project_Output

definition project :: "ProjectType \<Rightarrow> 'w hg \<Rightarrow> 'w hg" where
  "project projection hg =
     (case projection of Project_Input \<Rightarrow> projectInput hg | Project_Output \<Rightarrow> projectOutput hg)"

section \<open>Rebuilding the indexes after arcs were changed\<close>

lemma fold_addArc:
  "arc_heap (fold addArc as h) = arc_heap h \<and> next_arc (fold addArc as h) = next_arc h \<and>
   numStates (fold addArc as h) = numStates h \<and> storesInArcs (fold addArc as h) = storesInArcs h \<and>
   storesFirstTailOutArcs (fold addArc as h) = storesFirstTailOutArcs h \<and>
   storesAllOutArcs (fold addArc as h) = storesAllOutArcs h \<and>
   inArcsPerState (fold addArc as h) =
     (if storesInArcs h then fold (\<lambda>a. in_push (arcAt h a) a) as (inArcsPerState h) else inArcsPerState h) \<and>
   outArcsPerState (fold addArc as h) =
     (if storesFirstTailOutArcs h then fold (\<lambda>a. first_push (arcAt h a) a) as (outArcsPerState h)
      else if storesAllOutArcs h then fold (\<lambda>a. out_push (arcAt h a) a) as (outArcsPerState h)
      else outArcsPerState h)"
  by (induction as arbitrary: h) (simp_all add: addArc_fields arcAt_def)

lemma fold_addArc_frame:
  "start_state (fold addArc as h) = start_state h \<and> final_state (fold addArc as h) = final_state h \<and>
   iLabelForState (fold addArc as h) = iLabelForState h \<and> oLabelForState (fold addArc as h) = oLabelForState h \<and>
   pVocab (fold addArc as h) = pVocab h"
proof (induction as arbitrary: h)
  case (Cons a as)
  have "start_state (addArc a h) = start_state h \<and> final_state (addArc a h) = final_state h \<and>
      iLabelForState (addArc a h) = iLabelForState h \<and> oLabelForState (addArc a h) = oLabelForState h \<and>
      pVocab (addArc a h) = pVocab h"
    by (simp add: addArc_def notifyArcImpl_def Let_def)
  then show ?case using Cons.IH [of "addArc a h"] by simp
qed simp

lemma rebuild_wf:
  assumes b: "arcs_bounded h" and s: "storesArcs h" and r: "fetchArcs h = Inr as" and e: "arc_enum h as"
  shows "\<exists>h'. rebuildArcAdjacencies h = Inr h' \<and> hg_wf h' \<and> arc_heap h' = arc_heap h \<and> next_arc h' = next_arc h \<and>
    numStates h' = numStates h \<and> start_state h' = start_state h \<and> final_state h' = final_state h \<and>
    iLabelForState h' = iLabelForState h \<and> oLabelForState h' = oLabelForState h \<and> pVocab h' = pVocab h"
proof -
  let ?r = "releaseArcs h"
  let ?h' = "fold addArc as ?r"
  note F = fold_addArc [of as ?r] and G = fold_addArc_frame [of as ?r]
  have R: "arc_heap ?r = arc_heap h" "next_arc ?r = next_arc h" "numStates ?r = numStates h"
    "inArcsPerState ?r = []" "outArcsPerState ?r = []" "storesInArcs ?r = storesInArcs h"
    "storesFirstTailOutArcs ?r = storesFirstTailOutArcs h" "storesAllOutArcs ?r = storesAllOutArcs h"
    "start_state ?r = start_state h" "final_state ?r = final_state h" "pVocab ?r = pVocab h"
    "iLabelForState ?r = iLabelForState h" "oLabelForState ?r = oLabelForState h" "arcAt ?r = arcAt h"
    by (simp_all add: releaseArcs_def clearVector_def storesInArcs_def storesFirstTailOutArcs_def
        storesAllOutArcs_def arcAt_def fun_eq_iff)
  have i: "index_ok in_weight (arc_heap h) (fold (\<lambda>a. in_push (arcAt h a) a) as [])"
    "index_ok first_weight (arc_heap h) (fold (\<lambda>a. first_push (arcAt h a) a) as [])"
    "index_ok out_weight (arc_heap h) (fold (\<lambda>a. out_push (arcAt h a) a) as [])"
    by (rule in_ix.index_build_onto first_ix.index_build_onto out_ix.index_build_onto, rule e, simp)+
  have "arcs_bounded ?h'"
    by (rule wf_bounded_same [OF b]) (use F R in simp_all)
  then have "hg_wf ?h'" using F R i s by (simp add: hg_wf_def storesArcs_cases storesOutArcs_cases)
  then show ?thesis using F G R r by (simp add: rebuildArcAdjacencies_def addArcs_def)
qed

text \<open>Updating every live arc through its handle.\<close>

definition updArc :: "('w arc \<Rightarrow> 'w arc) \<Rightarrow> ArcHandle \<Rightarrow> 'w hg \<Rightarrow> 'w hg" where
  "updArc f a h = h\<lparr>arc_heap := (arc_heap h)(a \<mapsto> f (arcAt h a))\<rparr>"

lemma fold_updArc:
  assumes "distinct as" and "set as \<subseteq> dom (arc_heap h)"
  shows "fold (updArc f) as h =
    h\<lparr>arc_heap := \<lambda>a. if a \<in> set as then map_option f (arc_heap h a) else arc_heap h a\<rparr>"
  using assms
proof (induction as arbitrary: h)
  case (Cons a as)
  obtain x where x: "arc_heap h a = Some x" using Cons.prems by auto
  have "fold (updArc f) as (updArc f a h) = (updArc f a h)
      \<lparr>arc_heap := \<lambda>b. if b \<in> set as then map_option f (arc_heap (updArc f a h) b) else arc_heap (updArc f a h) b\<rparr>"
    by (rule Cons.IH) (use Cons.prems in \<open>auto simp: updArc_def\<close>)
  moreover have "(\<lambda>b. if b \<in> set as then map_option f (arc_heap (updArc f a h) b) else arc_heap (updArc f a h) b)
      = (\<lambda>b. if b \<in> set (a # as) then map_option f (arc_heap h b) else arc_heap h b)"
    using Cons.prems x by (auto simp: updArc_def arcAt_def fun_eq_iff)
  ultimately show ?case by (simp add: updArc_def [of f a h])
qed simp

lemma updArc_all:
  assumes "arc_enum h as"
  shows "fold (updArc f) as h = h\<lparr>arc_heap := map_option f \<circ> arc_heap h\<rparr>"
proof -
  have "(\<lambda>a. if a \<in> set as then map_option f (arc_heap h a) else arc_heap h a) = map_option f \<circ> arc_heap h"
    using assms by (auto simp: arc_enum_iff fun_eq_iff domIff)
  then show ?thesis using fold_updArc [of as h f] assms by (simp add: arc_enum_iff)
qed

lemma hg_arcs_map:
  assumes "arc_heap h' = map_option f \<circ> arc_heap h" and "next_arc h' = next_arc h"
  shows "hg_arcs h' = image_mset f (hg_arcs h)"
proof -
  have l: "live_arcs h' = live_arcs h" using assms by (simp add: live_arcs_def)
  have m: "map (arcAt h') (live_arcs h) = map (f \<circ> arcAt h) (live_arcs h)"
    using assms by (auto simp: live_arcs_def arcAt_def)
  show ?thesis unfolding hg_arcs_def l m by (simp add: image_mset.compositionality)
qed

lemma swapTailHead_updArc: "swapTailHead = updArc newGraphReversedArc"
  by (simp add: fun_eq_iff swapTailHead_def updArc_def newGraphReversedArc_def new_arc_first_tail_def Let_def)

lemma reverseTails_updArc: "reverseTails = updArc (\<lambda>x. x\<lparr>arc_tails := rev (arc_tails x)\<rparr>)"
  by (simp add: fun_eq_iff reverseTails_def updArc_def Let_def)

text \<open>The visit that \<open>rebuildArcAdjacencies\<close> makes does not depend on the arcs themselves.\<close>

lemma forArcsImpl_enum:
  assumes wf: "hg_wf h" and st: "storesInArcs h \<or> storesFirstTailOutArcs h \<or> \<not> isFsm h"
    and g: "props g = props h" "inArcsPerState g = inArcsPerState h" "outArcsPerState g = outArcsPerState h"
      "numStates g = numStates h" "fsmChecked g" "fsmChecked h" "dom (arc_heap g) = dom (arc_heap h)"
  shows "\<exists>as. fetchArcs g = Inr as \<and> arc_enum g as"
proof -
  note P = stores_props [OF g(1)]
  have ne: "\<not> storesInArcs h \<Longrightarrow> arc_heap h a = Some x \<Longrightarrow> arc_tails x \<noteq> []" for a x
    by (rule wf_tails_nonempty [OF wf])
  have e: "arc_enum h as \<Longrightarrow> arc_enum g as" for as using g(7) by (simp add: arc_enum_iff)
  have so: "storesInArcs h \<or> storesOutArcs h" using wf by (simp add: hg_wf_def storesArcs_cases)
  consider (i) "storesInArcs h" | (f) "\<not> storesInArcs h" "storesFirstTailOutArcs h"
    | (o) "\<not> storesInArcs h" "\<not> storesFirstTailOutArcs h" "storesOutArcs h" "\<not> isFsm h"
    using st so by blast
  then show ?thesis
  proof cases
    case i
    then show ?thesis using wf_in_enum(2) [OF wf i] P g e by (simp add: fetchArcs_def forArcsImpl_def)
  next
    case f
    then show ?thesis using wf_first_enum(2) [OF wf f(2) ne [OF f(1)]] P g e
      by (simp add: fetchArcs_def forArcsImpl_def)
  next
    case o
    have "\<not> isFsm g" using o(4) g by (simp add: isFsm_def properties_def computeFsmGraphProperty_def)
    moreover have "forArcsOutOnceSafe g = forArcsOutOnceSafe h"
      using g by (simp add: forArcsOutOnceSafe_def forArcsOutEveryTail_def outArcsOf_def [abs_def])
    ultimately show ?thesis using wf_once_enum [OF wf o(3) ne [OF o(1)]] P o e
      by (simp add: fetchArcs_def forArcsImpl_def IHypergraph_forArcs_def forArcsOutOnce_def)
  qed
qed

section \<open>Reversal reverses the arcs\<close>

lemma compute_checked [simp]: "fsmChecked h \<Longrightarrow> computeFsmGraphProperty h = h"
  by (simp add: computeFsmGraphProperty_def)

lemma forArcs_compute: "isFsm (computeFsmGraphProperty h) = isFsm h"
  by (simp add: isFsm_def properties_def)

lemma reverse_inplace_facts:
  assumes wf: "hg_wf h" and g: "isGraph h" and st: "storesInArcs h \<or> storesFirstTailOutArcs h \<or> \<not> isFsm h"
    and ne: "\<forall>x \<in> ran (arc_heap h). arc_tails x \<noteq> []"
  shows "\<exists>h'. reverseGraphInplace h = Inr h' \<and> hg_wf h' \<and>
    hg_arcs h' = image_mset newGraphReversedArc (hg_arcs h) \<and> numStates h' = numStates h \<and>
    start_state h' = final_state h \<and> final_state h' = start_state h \<and> pVocab h' = pVocab h \<and>
    iLabelForState h' = iLabelForState h \<and> oLabelForState h' = oLabelForState h"
proof -
  let ?c = "computeFsmGraphProperty h"
  have wc: "hg_wf ?c" and sc: "storesInArcs ?c \<or> storesFirstTailOutArcs ?c \<or> \<not> isFsm ?c"
    using wf st by (simp_all add: forArcs_compute)
  obtain as where as: "forArcs ?c = Inr as" "arc_enum ?c as" using forArcs_enum [OF wc sc] by blast
  let ?h1 = "fold swapTailHead as ?c"
  have h1: "?h1 = ?c\<lparr>arc_heap := map_option newGraphReversedArc \<circ> arc_heap h\<rparr>"
    using updArc_all [OF as(2), of newGraphReversedArc] by (simp add: swapTailHead_updArc)
  let ?h2 = "setStart (final_state ?h1) (setFinal (start_state ?h1) ?h1)"
  have h2: "props ?h2 = props ?c" "inArcsPerState ?h2 = inArcsPerState ?c" "outArcsPerState ?h2 = outArcsPerState ?c"
    "numStates ?h2 = numStates ?c" "fsmChecked ?h2" "next_arc ?h2 = next_arc h"
    "arc_heap ?h2 = map_option newGraphReversedArc \<circ> arc_heap h"
    "start_state ?h2 = final_state h" "final_state ?h2 = start_state h" "pVocab ?h2 = pVocab h"
    "iLabelForState ?h2 = iLabelForState h" "oLabelForState ?h2 = oLabelForState h"
    by (simp_all add: h1 setStart_def setFinal_def)
  have d: "dom (arc_heap ?h2) = dom (arc_heap ?c)" by (auto simp: h2)
  obtain bs where bs: "fetchArcs ?h2 = Inr bs" "arc_enum ?h2 bs"
    using forArcsImpl_enum [OF wc sc h2(1-5) _ d] by auto
  note P = stores_props [OF h2(1)]
  have b: "arcs_bounded ?h2"
    unfolding arcs_bounded_def
  proof (intro allI impI)
    fix a y assume "arc_heap ?h2 a = Some y"
    then obtain x where x: "arc_heap h a = Some x" "y = newGraphReversedArc x" by (auto simp: h2)
    have "arc_tails x \<noteq> []" using ne x by (auto simp: ran_def)
    then show "a < next_arc ?h2 \<and> arc_head y < numStates ?h2 \<and> (\<forall>t\<in>set (arc_tails y). t < numStates ?h2) \<and>
        (storesInArcs ?h2 \<or> arc_tails y \<noteq> [])"
      using wf x(1) by (auto simp: hg_wf_def arcs_bounded_def x(2) h2(4,6) newGraphReversedArc_def
          new_arc_first_tail_def dest: set_update_subset_insert [THEN subsetD])
  qed
  have s: "storesArcs ?h2" using P wc by (simp add: hg_wf_def)
  obtain h' where h': "rebuildArcAdjacencies ?h2 = Inr h'" "hg_wf h'" "arc_heap h' = arc_heap ?h2"
    "next_arc h' = next_arc ?h2" "numStates h' = numStates ?h2" "start_state h' = start_state ?h2"
    "final_state h' = final_state ?h2" "iLabelForState h' = iLabelForState ?h2"
    "oLabelForState h' = oLabelForState ?h2" "pVocab h' = pVocab ?h2"
    using rebuild_wf [OF b s bs] by blast
  have "hg_arcs h' = image_mset newGraphReversedArc (hg_arcs h)"
    by (rule hg_arcs_map) (simp_all only: h' h2)
  moreover have "reverseGraphInplace h = Inr h'"
    using g h'(1) as(1) by (simp add: reverseGraphInplace_def isGraph_def properties_def bindR_def Let_def)
  ultimately show ?thesis using h' h2 by simp
qed

text \<open>The words of the reversed arcs.\<close>

lemma rev_arc_involution:
  assumes "arc_tails x \<noteq> []" shows "newGraphReversedArc (newGraphReversedArc x) = x"
  using assms by (cases "arc_tails x") (simp_all add: newGraphReversedArc_def new_arc_first_tail_def)

lemma rev_arc_fields:
  assumes "arc_tails x \<noteq> []"
  shows "isFsmFrom (newGraphReversedArc x) q \<longleftrightarrow> arc_head x = q"
    "arc_head (newGraphReversedArc x) = q \<longleftrightarrow> isFsmFrom x q"
    "arc_weight (newGraphReversedArc x) = arc_weight x"
    "arc_tails (newGraphReversedArc x) \<noteq> []"
    "fsmSymbolState (newGraphReversedArc x) = fsmSymbolState x"
  using assms by (auto simp: newGraphReversedArc_def new_arc_first_tail_def isFsmFrom_def fsmSymbolState_def)

lemma path_rev:
  assumes "\<forall>x \<in> A. arc_tails x \<noteq> []" and "path A q p r"
  shows "path (newGraphReversedArc ` A) r (rev (map newGraphReversedArc p)) q"
  using assms(2)
proof (induction p arbitrary: q)
  case (Cons x p)
  then have x: "x \<in> A" "isFsmFrom x q" "path A (arc_head x) p r" by simp_all
  have "arc_tails x \<noteq> []" using assms(1) x(1) by blast
  then show ?case using Cons.IH [OF x(3)] x(1,2) by (auto simp: rev_arc_fields)
qed simp

lemma path_rev_iff:
  assumes A: "\<forall>x \<in> A. arc_tails x \<noteq> []"
  shows "path (newGraphReversedArc ` A) r p q \<longleftrightarrow> path A q (rev (map newGraphReversedArc p)) r"
proof
  have B: "\<forall>x \<in> newGraphReversedArc ` A. arc_tails x \<noteq> []" using A by (auto simp: rev_arc_fields)
  have "newGraphReversedArc ` newGraphReversedArc ` A = A"
    using A by (force simp: image_image rev_arc_involution)
  then show "path (newGraphReversedArc ` A) r p q \<Longrightarrow> path A q (rev (map newGraphReversedArc p)) r"
    using path_rev [OF B, of r p q] by simp
next
  assume p: "path A q (rev (map newGraphReversedArc p)) r"
  have t: "\<forall>x \<in> set p. arc_tails x \<noteq> []"
  proof
    fix x assume "x \<in> set p"
    then have "newGraphReversedArc x \<in> A" using path_arcs [OF p] by auto
    then have "arc_tails (newGraphReversedArc x) \<noteq> []" using A by blast
    then show "arc_tails x \<noteq> []" by (auto simp: newGraphReversedArc_def new_arc_first_tail_def)
  qed
  have "map newGraphReversedArc (map newGraphReversedArc p) = p"
    using t by (simp add: map_idI rev_arc_involution)
  then show "path (newGraphReversedArc ` A) r p q"
    using path_rev [OF A p] by (simp add: rev_map)
qed

section \<open>Properties of reversal\<close>

definition fsm_arcs :: "'w hg \<Rightarrow> bool" where
  "fsm_arcs h \<longleftrightarrow> (\<forall>x \<in> ran (arc_heap h). length (arc_tails x) = 2)"

definition labelled_arcs :: "'w hg \<Rightarrow> bool" where
  "labelled_arcs h \<longleftrightarrow> (\<forall>x \<in> ran (arc_heap h). inputLabel h (fsmSymbolState x) \<noteq> NoSymbol)"

lemma lang_final:
  assumes wf: "hg_wf h" and n: "numStates h \<le> kNoState" and w: "w \<in> lang h"
  shows "start_state h \<noteq> kNoState \<and> final_state h \<noteq> kNoState"
proof -
  obtain p where p: "path (set_mset (hg_arcs h)) (start_state h) p (final_state h)" "start_state h \<noteq> kNoState"
    using w by (auto simp: lang_def)
  have "\<forall>x \<in> set_mset (hg_arcs h). arc_head x \<in> {s. s \<noteq> kNoState}"
    using wf_arc(1) [OF wf] n by (metis leD mem_Collect_eq)
  from path_end [OF p(1) this] p(2) show ?thesis by simp
qed

text \<open>Reversed arcs with the same labels and swapped ends give the reversed language.\<close>

lemma lang_reversed:
  assumes wf: "hg_wf h" "hg_wf g" and n: "numStates h \<le> kNoState" "numStates g \<le> kNoState"
    and fsm: "fsm_arcs h" and a: "hg_arcs g = image_mset newGraphReversedArc (hg_arcs h)"
    and s: "start_state g = final_state h" "final_state g = start_state h"
    and l: "\<And>t. t < numStates h \<Longrightarrow> labelPair g t = labelPair h t"
  shows "lang g = rev ` lang h"
proof -
  let ?A = "set_mset (hg_arcs h)" and ?R = "newGraphReversedArc"
  have A: "\<forall>x \<in> ?A. arc_tails x \<noteq> []" "\<forall>x \<in> ?A. length (arc_tails x) = 2"
    using fsm by (auto simp: fsm_arcs_def set_mset_hg_arcs [OF wf(1)])
  have B: "set_mset (hg_arcs g) = ?R ` ?A" by (simp add: a)
  have letter: "arc_letter g (?R x) = arc_letter h x" if x: "x \<in> ?A" for x
  proof -
    have "length (arc_tails x) = 2" using A(2) x by blast
    then have "fsmSymbolState x < numStates h"
      using wf_arc(2) [OF wf(1) x] by (simp add: fsmSymbolState_def)
    then show ?thesis using A x by (simp add: arc_letter_def rev_arc_fields l)
  qed
  have word: "map (arc_letter g) (rev (map ?R p)) = rev (map (arc_letter h) p)" if "set p \<subseteq> ?A" for p
    using that letter by (auto simp: rev_map [symmetric] simp del: rev_map)
  show ?thesis
  proof (intro set_eqI iffI)
    fix w assume w: "w \<in> lang g"
    then obtain q where q: "w = map (arc_letter g) q" "path (?R ` ?A) (final_state h) q (start_state h)"
      by (auto simp: lang_def B s)
    let ?p = "rev (map ?R q)"
    have p: "path ?A (start_state h) ?p (final_state h)" using q(2) path_rev_iff [OF A(1)] by simp
    have "\<forall>x \<in> set q. arc_tails x \<noteq> []" using path_arcs [OF q(2)] A(1) by (auto simp: rev_arc_fields)
    then have "q = rev (map ?R ?p)" by (simp add: rev_map map_idI rev_arc_involution)
    then have "w = rev (map (arc_letter h) ?p)" using q(1) word [OF path_arcs [OF p]] by simp
    moreover have "map (arc_letter h) ?p \<in> lang h"
      using p lang_final [OF wf(2) _ w] n s by (intro langI) simp_all
    ultimately show "w \<in> rev ` lang h" by blast
  next
    fix w assume "w \<in> rev ` lang h"
    then obtain v p where v: "w = rev v" "v \<in> lang h" "v = map (arc_letter h) p"
      "path ?A (start_state h) p (final_state h)" by (auto simp: lang_def)
    have "path (set_mset (hg_arcs g)) (start_state g) (rev (map ?R p)) (final_state g)"
      using path_rev [OF A(1) v(4)] by (simp add: B s)
    from langI [OF this] have "map (arc_letter g) (rev (map ?R p)) \<in> lang g"
      using lang_final [OF wf(1) n(1) v(2)] s by simp
    then show "w \<in> lang g" using word [OF path_arcs [OF v(4)]] v by simp
  qed
qed

lemma labelPair_vectors:
  "iLabelForState g = iLabelForState h \<Longrightarrow> oLabelForState g = oLabelForState h \<Longrightarrow> labelPair g t = labelPair h t"
  by (simp add: labelPair_def inputLabel_def outputLabelOrElse_def)

text \<open>
  Property C32 (reversing in place). \<open>reverseGraph(hg)\<close> on an fsm whose arcs \<open>forArcs\<close> visits once
  exchanges the ends of every arc and of the graph, rebuilds the indexes into a well-formed
  hypergraph, and so accepts exactly the reversed words, weights included.
\<close>

theorem reverseInplace_language:
  assumes "hg_wf h" and "numStates h \<le> kNoState" and "isGraph h" and "fsm_arcs h"
    and "storesInArcs h \<or> storesFirstTailOutArcs h \<or> \<not> isFsm h"
  shows "\<exists>h'. reverseGraphInplace h = Inr h' \<and> hg_wf h' \<and>
    hg_arcs h' = image_mset newGraphReversedArc (hg_arcs h) \<and> lang h' = rev ` lang h"
proof -
  have "\<forall>x \<in> ran (arc_heap h). arc_tails x \<noteq> []" using assms(4) by (auto simp: fsm_arcs_def)
  then obtain h' where h': "reverseGraphInplace h = Inr h'" "hg_wf h'"
    "hg_arcs h' = image_mset newGraphReversedArc (hg_arcs h)" "numStates h' = numStates h"
    "start_state h' = final_state h" "final_state h' = start_state h"
    "iLabelForState h' = iLabelForState h" "oLabelForState h' = oLabelForState h"
    using reverse_inplace_facts [OF assms(1,3,5)] by blast
  have "lang h' = rev ` lang h"
    by (rule lang_reversed) (use assms h' labelPair_vectors in \<open>simp_all only:\<close>)
  then show ?thesis using h' by blast
qed

text \<open>The copying version, into a hypergraph without arcs.\<close>

lemma reverse_copy_facts:
  assumes wf: "hg_wf h" and n: "numStates h \<le> kNoState" and g: "isGraph h" and ne: "\<forall>x \<in> ran (arc_heap h). arc_tails x \<noteq> []"
    and st: "storesInArcs h \<or> storesFirstTailOutArcs h \<or> \<not> isFsm h"
    and r: "hg_wf r" "arc_heap r = Map.empty" "numStates r \<le> kNoState"
  shows "\<exists>h'. reverseGraph h r = Inr h' \<and> hg_wf h' \<and> hg_arcs h' = image_mset newGraphReversedArc (hg_arcs h) \<and>
    start_state h' = final_state h \<and> final_state h' = start_state h \<and> numStates h' \<le> kNoState \<and>
    (\<forall>t < numStates h. labelPair h' t = labelPair h t)"
proof -
  obtain as where as: "forArcs h = Inr as" "arc_enum h as" using forArcs_enum [OF wf st] by blast
  let ?r1 = "copied_states (labelPair h) (numStates h) r"
  let ?r2 = "setFinal (start_state h) (setStart (final_state h) (?r1\<lparr>pVocab := pVocab h\<rparr>))"
  note R = copied_states_reads [OF n, of "labelPair h" r]
  have F: "arc_heap ?r2 = Map.empty" "next_arc ?r2 = next_arc ?r1" "numStates ?r2 = numStates ?r1"
    "props ?r2 = props ?r1" "inArcsPerState ?r2 = inArcsPerState ?r1" "outArcsPerState ?r2 = outArcsPerState ?r1"
    "iLabelForState ?r2 = iLabelForState ?r1" "oLabelForState ?r2 = oLabelForState ?r1"
    using r(2) by (simp_all add: setFinal_def setStart_def)
  have w: "hg_wf ?r2"
    using r(1,2) F stores_props [OF F(4)] by (simp add: hg_wf_def arcs_bounded_def storesArcs_cases storesOutArcs_cases)
  let ?xs = "map (\<lambda>a. newGraphReversedArc (arcAt h a)) as"
  let ?h' = "addNewArcs ?xs ?r2"
  have fold: "fold (\<lambda>a g. snd (addNewArc (newGraphReversedArc (arcAt h a)) g)) as r2 = addNewArcs (map (\<lambda>a. newGraphReversedArc (arcAt h a)) as) r2"
    for r2 unfolding addNewArcs_def by (induction as arbitrary: r2) simp_all
  have run: "reverseGraph h r = Inr ?h'"
    using g as(1) by (simp add: reverseGraph_def bindR_def fold copied_states_def Let_def)
  have m: "mset ?xs = image_mset newGraphReversedArc (hg_arcs h)"
    unfolding hg_arcs_enum [OF wf as(2), symmetric] by (simp add: image_mset.compositionality comp_def)
  have b: "arc_head y < numStates ?r2 \<and> (\<forall>t \<in> set (arc_tails y). t < numStates ?r2) \<and>
      (storesInArcs ?r2 \<or> arc_tails y \<noteq> [])" if y: "y \<in> set ?xs" for y
  proof -
    have "y \<in># image_mset newGraphReversedArc (hg_arcs h)" using y unfolding m [symmetric] by simp
    then obtain x where x: "x \<in># hg_arcs h" "y = newGraphReversedArc x" by auto
    have t: "arc_tails x \<noteq> []" using ne x(1) by (simp add: set_mset_hg_arcs [OF wf])
    show ?thesis using wf_arc(1,2) [OF wf x(1)] t R F(3)
      by (auto simp: x(2) newGraphReversedArc_def new_arc_first_tail_def less_max_iff_disj
          dest: set_update_subset_insert [THEN subsetD])
  qed
  have W: "hg_wf ?h' \<and> hg_arcs ?h' = hg_arcs ?r2 + mset ?xs" by (rule addNewArcs_wf [OF w b])
  have "labelPair ?h' t = labelPair h t" if "t < numStates h" for t
  proof -
    have "labelPairOptionalOutput ?h' t = labelPairOptionalOutput ?r1 t"
      by (simp add: labelPairOptionalOutput_def inputLabel_def F)
    then have e: "labelPairOptionalOutput ?h' t = labelPair h t" using R that by simp
    have "labelPair ?h' t = (fst (labelPair h t), effectiveOutput (labelPair h t))"
      unfolding e [symmetric] by (simp add: outputLabel_labelPair outputLabel_effective) (simp add: labelPairOptionalOutput_def)
    then show ?thesis
      by (auto simp: effectiveOutput_def labelPair_def outputLabelOrElse_def isValid_NoSymbol Let_def)
  qed
  moreover have "start_state ?h' = final_state h" "final_state ?h' = start_state h"
    by (simp_all add: setFinal_def setStart_def)
  moreover have "numStates ?h' \<le> kNoState" using R r(3) n F by simp
  ultimately show ?thesis using run W m hg_arcs_empty [OF F(1)] by auto
qed

lemma sample_fsm_lang:
  assumes "has p kStoreAnyArcs" and "isTerminal label"
  shows "isGraph (sample_fsm p label)" and "fsm_arcs (sample_fsm p label)"
    and "[((label, label), 7)] \<in> lang (sample_fsm p label)" and "labelled_arcs (sample_fsm p label)"
proof -
  note F = sample_fsm_facts [OF assms(1), of label] and A = sample_hg_arcs [OF assms(1), of label]
  have "label \<noteq> NoSymbol" using assms(2) by (auto simp: sym_op_defs sym_consts)
  then show "labelled_arcs (sample_fsm p label)"
    by (simp add: labelled_arcs_def F(2,7) inputLabel_def getOrElse_def new_arc_fsm_def fsmSymbolState_def)
  show "isGraph (sample_fsm p label)"
    using compute_isFsm(2) [OF F(3)] sample_fsm_isFsm [OF assms] by blast
  show "fsm_arcs (sample_fsm p label)" by (simp add: fsm_arcs_def F(2) new_arc_fsm_def)
  have p: "path (set_mset (hg_arcs (sample_fsm p label))) (start_state (sample_fsm p label))
      [new_arc_fsm 0 2 7 1] (final_state (sample_fsm p label))"
    by (simp add: F(5) A isFsmFrom_def new_arc_fsm_def)
  have "map (arc_letter (sample_fsm p label)) [new_arc_fsm 0 2 7 1] \<in> lang (sample_fsm p label)"
    by (rule langI [OF p]) (simp add: F(5) kNoState_def)
  then show "[((label, label), 7)] \<in> lang (sample_fsm p label)"
    by (simp add: arc_letter_def fsmSymbolState_def new_arc_fsm_def labelPair_def inputLabel_def
        outputLabelOrElse_def F(7,8) getOrElse_def isValid_NoSymbol Let_def)
qed

theorem reverseInplace_language_witness:
  "\<exists>h'. reverseGraphInplace (sample_fsm kStoreInArcs (terminal 5)) = Inr h' \<and>
     rev [((terminal 5, terminal 5), 7)] \<in> lang h'"
proof -
  have p: "has kStoreInArcs kStoreAnyArcs" by (simp add: flag_simps)
  have t: "isTerminal (terminal 5)" by (simp add: sym_op_defs sym_consts)
  note F = sample_fsm_facts [OF p, of "terminal 5"] and L = sample_fsm_lang [OF p t]
  have "numStates (sample_fsm kStoreInArcs (terminal 5)) \<le> kNoState"
    and "storesInArcs (sample_fsm kStoreInArcs (terminal 5))"
    by (simp_all add: F kNoState_def flag_simps)
  then show ?thesis using reverseInplace_language [OF F(1) _ L(1,2)] L(3) by blast
qed

text \<open>
  Reversing into another hypergraph. \<open>reverseGraph(hg, result)\<close> into a
  well-formed hypergraph without arcs gives a well-formed hypergraph with the reversed arcs and the
  reversed language.
\<close>

theorem reverseGraph_language:
  assumes "hg_wf h" and "numStates h \<le> kNoState" and "isGraph h" and "fsm_arcs h"
    and "storesInArcs h \<or> storesFirstTailOutArcs h \<or> \<not> isFsm h"
    and "hg_wf r" and "arc_heap r = Map.empty" and "numStates r \<le> kNoState"
  shows "\<exists>h'. reverseGraph h r = Inr h' \<and> hg_wf h' \<and>
    hg_arcs h' = image_mset newGraphReversedArc (hg_arcs h) \<and> lang h' = rev ` lang h"
proof -
  have "\<forall>x \<in> ran (arc_heap h). arc_tails x \<noteq> []" using assms(4) by (auto simp: fsm_arcs_def)
  then obtain h' where h': "reverseGraph h r = Inr h'" "hg_wf h'"
    "hg_arcs h' = image_mset newGraphReversedArc (hg_arcs h)"
    "start_state h' = final_state h" "final_state h' = start_state h" "numStates h' \<le> kNoState"
    "\<And>t. t < numStates h \<Longrightarrow> labelPair h' t = labelPair h t"
    using reverse_copy_facts [OF assms(1,2,3) _ assms(5-8)] by blast
  have "lang h' = rev ` lang h"
    by (rule lang_reversed [OF assms(1) h'(2) assms(2) h'(6) assms(4) h'(3-5,7)])
  then show ?thesis using h' by blast
qed

theorem reverseGraph_language_witness:
  "\<exists>h'. reverseGraph (sample_fsm kStoreInArcs (terminal 5)) (sample_states kStoreOutArcs (terminal 6)) = Inr h' \<and>
     rev [((terminal 5, terminal 5), 7)] \<in> lang h'"
proof -
  have p: "has kStoreInArcs kStoreAnyArcs" "has kStoreOutArcs kStoreAnyArcs" by (simp_all add: flag_simps)
  have t: "isTerminal (terminal 5)" by (simp add: sym_op_defs sym_consts)
  note F = sample_fsm_facts [OF p(1), of "terminal 5"] and L = sample_fsm_lang [OF p(1) t]
  have "numStates (sample_fsm kStoreInArcs (terminal 5)) \<le> kNoState"
    and "storesInArcs (sample_fsm kStoreInArcs (terminal 5))"
    by (simp_all add: F kNoState_def flag_simps)
  moreover have "arc_heap (sample_states kStoreOutArcs (terminal 6)) = Map.empty"
    "numStates (sample_states kStoreOutArcs (terminal 6)) \<le> kNoState"
    by (simp_all add: sample_states_def hg_zero_def kNoState_def)
  ultimately show ?thesis
    using reverseGraph_language [OF F(1) _ L(1,2) _ sample_wf [OF p(2)]] L(3) by blast
qed

lemma reverseCfg_facts:
  assumes wf: "hg_wf h" and i: "storesInArcs h" and p: "\<not> prunedEmpty h" and g: "\<not> isGraph h"
  shows "\<exists>h'. reverseCfg h = Inr h' \<and>
    hg_arcs h' = image_mset (\<lambda>x. x\<lparr>arc_tails := rev (arc_tails x)\<rparr>) (hg_arcs h) \<and>
    (hg_wf h' \<longleftrightarrow> (storesFirstTailOutArcs h \<longrightarrow>
       (\<forall>x \<in> ran (arc_heap h). arc_tails x \<noteq> [] \<longrightarrow> hd (arc_tails x) = last (arc_tails x))))"
proof -
  let ?c = "computeFsmGraphProperty h" and ?f = "\<lambda>x :: 'a arc. x\<lparr>arc_tails := rev (arc_tails x)\<rparr>"
  have wc: "hg_wf ?c" and ic: "storesInArcs ?c" using wf i by simp_all
  let ?as = "forArcsIn ?c"
  let ?h' = "?c\<lparr>arc_heap := map_option ?f \<circ> arc_heap h\<rparr>"
  have u: "fold reverseTails ?as ?c = ?h'"
    using updArc_all [OF wf_in_enum(1) [OF wc ic], of ?f] by (simp add: reverseTails_updArc)
  have run: "reverseCfg h = Inr ?h'"
    using p g u ic
    by (simp add: reverseCfg_def isGraph_def properties_def forceInArcsOnly_def bindR_def forArcs_def Let_def)
  have arcs: "hg_arcs ?h' = image_mset ?f (hg_arcs h)" by (rule hg_arcs_map) simp_all
  have st: "storesInArcs ?h' = storesInArcs h" "storesFirstTailOutArcs ?h' = storesFirstTailOutArcs h"
    "storesAllOutArcs ?h' = storesAllOutArcs h"
    using stores_props [of ?h' ?c] by simp_all
  have b: "arcs_bounded ?h'"
    using hg_wfD(1) [OF wf] i st(1) by (fastforce simp: arcs_bounded_def)
  have ix: "index_ok w (arc_heap ?h') adj"
    if "index_ok w (arc_heap h) adj" and "\<And>x s. w (?f x) s = w x s" for w adj
    using that by (auto simp: index_ok_def split: option.splits)
  have cnt: "count_list (rev xs) s = count_list xs s" for xs and s :: nat by (induction xs) auto
  have fw: "index_ok first_weight (arc_heap ?h') adj \<longleftrightarrow>
      (\<forall>x \<in> ran (arc_heap h). arc_tails x \<noteq> [] \<longrightarrow> hd (arc_tails x) = last (arc_tails x))"
    if ok: "index_ok first_weight (arc_heap h) adj" for adj
  proof -
    have c: "count_list (getOrElse adj s []) a = (case arc_heap h a of None \<Rightarrow> 0 | Some x \<Rightarrow> first_weight x s)" for s a
      using ok by (simp add: index_ok_def)
    have "index_ok first_weight (arc_heap ?h') adj \<longleftrightarrow>
        (\<forall>s a. (case arc_heap h a of None \<Rightarrow> 0 | Some x \<Rightarrow> first_weight x s) =
               (case (map_option ?f \<circ> arc_heap h) a of None \<Rightarrow> 0 | Some x \<Rightarrow> first_weight x s))"
      by (simp add: index_ok_def c)
    also have "\<dots> \<longleftrightarrow> (\<forall>x \<in> ran (arc_heap h). \<forall>s. first_weight x s = first_weight (?f x) s)"
      by (force simp: ran_def split: option.splits)
    also have "\<dots> \<longleftrightarrow> (\<forall>x \<in> ran (arc_heap h). arc_tails x \<noteq> [] \<longrightarrow> hd (arc_tails x) = last (arc_tails x))"
      by (intro ball_cong refl) (auto simp: first_weight_def hd_rev split: if_splits)
    finally show ?thesis .
  qed
  have "hg_wf ?h' \<longleftrightarrow> (storesFirstTailOutArcs h \<longrightarrow> index_ok first_weight (arc_heap ?h') (outArcsPerState h))"
    using wf b st i ix [of in_weight] ix [of out_weight]
    by (auto simp: hg_wf_def storesArcs_cases in_weight_def out_weight_def cnt)
  also have "\<dots> \<longleftrightarrow> (storesFirstTailOutArcs h \<longrightarrow>
       (\<forall>x \<in> ran (arc_heap h). arc_tails x \<noteq> [] \<longrightarrow> hd (arc_tails x) = last (arc_tails x)))"
    using wf fw [of "outArcsPerState h"] by (auto simp: hg_wf_def)
  finally show ?thesis using run arcs by blast
qed

text \<open>
  Reversing a hypergraph that is no graph. \<open>reverseCfg\<close> on a hypergraph with
  in-arcs reverses the tails of every arc. It keeps the indexes well-formed exactly if no
  first-tail index was stored beside the in-arcs, or no arc's first tail changes:
  \<open>forceInArcsOnly\<close> leaves the out-arcs alone when in-arcs are already there.
\<close>

theorem reverseCfg_correct:
  assumes "hg_wf h" and "storesInArcs h" and "\<not> prunedEmpty h" and "\<not> isGraph h"
  shows "\<exists>h'. reverseCfg h = Inr h' \<and>
    hg_arcs h' = image_mset (\<lambda>x. x\<lparr>arc_tails := rev (arc_tails x)\<rparr>) (hg_arcs h) \<and>
    (hg_wf h' \<longleftrightarrow> (storesFirstTailOutArcs h \<longrightarrow>
       (\<forall>x \<in> ran (arc_heap h). arc_tails x \<noteq> [] \<longrightarrow> hd (arc_tails x) = last (arc_tails x))))"
  by (rule reverseCfg_facts [OF assms])

theorem reverseCfg_correct_witness:
  "\<exists>h'. reverseCfg ((sample_fsm kStoreInArcs NoSymbol)\<lparr>fsmChecked := True\<rparr>) = Inr h' \<and>
     hg_arcs h' = {#\<lparr>arc_head = 1, arc_tails = [2, 0], arc_weight = 7\<rparr>#} \<and> hg_wf h'"
proof -
  let ?s = "sample_fsm kStoreInArcs NoSymbol" and ?h = "(sample_fsm kStoreInArcs NoSymbol)\<lparr>fsmChecked := True\<rparr>"
  have p: "has kStoreInArcs kStoreAnyArcs" by (simp add: flag_simps)
  note F = sample_fsm_facts [OF p, of NoSymbol] and A = sample_hg_arcs [OF p, of NoSymbol]
  have P: "props ?h = kStoreInArcs"
    by (simp add: sample_fsm_def addNewArc_frame sample_states_def hg_zero_def storesOutArcs_def flag_simps)
  have st: "storesInArcs ?h" "\<not> storesFirstTailOutArcs ?h" "\<not> isGraph ?h"
    by (simp_all add: storesInArcs_def storesFirstTailOutArcs_def isGraph_def properties_def P flag_simps)
  have w: "hg_wf ?h" using F(1) hg_wf_same [of ?h ?s] stores_props [of ?h ?s] by simp
  have "0 \<in> set (inArcsOf ?s 1)"
    using index_member [of in_weight "arc_heap ?s" "inArcsPerState ?s" 0 1] F(1,2,9)
    by (simp add: hg_wf_def inArcsOf_def in_weight_def new_arc_fsm_def flag_simps)
  then have "numInArcs ?h 1 \<noteq> 0" by (auto simp: numInArcs_def inArcsOf_def getOrElse_def split: if_splits)
  then have e: "\<not> prunedEmpty ?h"
    using P by (simp add: prunedEmpty_def F A kNoState_def flag_simps Let_def)
  have "hg_arcs ?h = {#new_arc_fsm 0 2 7 1#}" using A(1) hg_arcs_heap [of ?h ?s] by simp
  then show ?thesis using reverseCfg_correct [OF w st(1) e st(3)] st(2) by (simp add: new_arc_fsm_def)
qed

section \<open>Properties of inverting and projecting\<close>

lemma lang_image:
  "lang h = map (arc_letter h) ` {p. start_state h \<noteq> kNoState \<and>
     path (set_mset (hg_arcs h)) (start_state h) p (final_state h)}"
  by (auto simp: lang_def)

text \<open>Relabelled states give the relabelled language.\<close>

lemma lang_relabelled:
  assumes "hg_arcs g = hg_arcs h" and "start_state g = start_state h" "final_state g = final_state h"
    and l: "\<And>x. x \<in># hg_arcs h \<Longrightarrow> labelPair g (fsmSymbolState x) = f (labelPair h (fsmSymbolState x))"
  shows "lang g = map (apfst f) ` lang h"
proof -
  have m: "map (arc_letter g) p = map (apfst f) (map (arc_letter h) p)"
    if "path (set_mset (hg_arcs h)) (start_state h) p (final_state h)" for p
    using path_arcs [OF that] l by (auto simp: arc_letter_def subset_iff)
  show ?thesis unfolding lang_image assms(1-3) image_image using m by (intro image_cong) auto
qed

lemma setLabelPair_frame [simp]:
  "arc_heap (setLabelPair s l h) = arc_heap h" "next_arc (setLabelPair s l h) = next_arc h"
  "numStates (setLabelPair s l h) = numStates h" "start_state (setLabelPair s l h) = start_state h"
  "final_state (setLabelPair s l h) = final_state h"
  "inArcsPerState (setLabelPair s l h) = inArcsPerState h"
  "outArcsPerState (setLabelPair s l h) = outArcsPerState h"
  "storesInArcs (setLabelPair s l h) = storesInArcs h"
  "storesFirstTailOutArcs (setLabelPair s l h) = storesFirstTailOutArcs h"
  "storesAllOutArcs (setLabelPair s l h) = storesAllOutArcs h"
  by (simp_all add: setLabelPair_def setLabelPairImpl_def notifyLabelImpl_def Let_def storesInArcs_def
      storesFirstTailOutArcs_def storesAllOutArcs_def flag_simps)

lemma invert_pair_sel [simp]: "fst (invert_pair x) = snd x" "snd (invert_pair x) = fst x"
  by (simp_all add: invert_pair_def)

lemma invert_fold:
  fixes h :: "'w hg"
  defines "F n \<equiv> fold (\<lambda>s g. setLabelPair s (invert_pair (labelPair g s)) g) [0..<n] h"
  assumes "n \<le> kNoState"
  shows "hg_wf (F n) = hg_wf h \<and> arc_heap (F n) = arc_heap h \<and> next_arc (F n) = next_arc h \<and>
    numStates (F n) = numStates h \<and> start_state (F n) = start_state h \<and> final_state (F n) = final_state h \<and>
    (\<forall>t. labelPair (F n) t = (if t < n then (snd (labelPair h t), effectiveOutput (invert_pair (labelPair h t)))
       else labelPair h t))"
  using assms(2) unfolding F_def
proof (induction n)
  case (Suc n)
  let ?g = "fold (\<lambda>s g. setLabelPair s (invert_pair (labelPair g s)) g) [0..<n] h"
  have IH: "hg_wf ?g = hg_wf h" "arc_heap ?g = arc_heap h" "next_arc ?g = next_arc h"
    "numStates ?g = numStates h" "start_state ?g = start_state h" "final_state ?g = final_state h"
    "\<And>t. labelPair ?g t = (if t < n then (snd (labelPair h t), effectiveOutput (invert_pair (labelPair h t)))
       else labelPair h t)"
    using Suc by auto
  let ?g' = "setLabelPair n (invert_pair (labelPair ?g n)) ?g"
  have "hg_wf ?g' = hg_wf ?g" by (rule hg_wf_same) simp_all
  moreover have "labelPair ?g' t = (if t < Suc n then (snd (labelPair h t), effectiveOutput (invert_pair (labelPair h t)))
       else labelPair h t)" for t
    using Suc.prems by (auto simp: labelPair_setLabelPair IH(7) invert_pair_sel)
  ultimately show ?case by (simp add: IH(1-6))
qed simp

lemma effective_invert:
  "inputLabel h t \<noteq> NoSymbol \<Longrightarrow> (snd (labelPair h t), effectiveOutput (invert_pair (labelPair h t))) = invert_pair (labelPair h t)"
  by (auto simp: effectiveOutput_def invert_pair_def labelPair_def Let_def isValid_NoSymbol)

lemma symbol_state_bound:
  "hg_wf h \<Longrightarrow> fsm_arcs h \<Longrightarrow> x \<in># hg_arcs h \<Longrightarrow> fsmSymbolState x < numStates h"
  using wf_arc(2) [of h x] by (simp add: fsm_arcs_def set_mset_hg_arcs fsmSymbolState_def)

text \<open>
  Inverting. On an fsm whose label states have input labels, \<open>invert(hg)\<close> keeps the
  hypergraph well-formed and swaps the input and the output of every letter of the language; the
  shortcut for hypergraphs without output labels changes nothing in it.
\<close>

theorem invert_language:
  assumes "hg_wf h" and "numStates h \<le> kNoState" and "fsm_arcs h" and "labelled_arcs h"
  shows "hg_wf (invert h) \<and> lang (invert h) = map (apfst invert_pair) ` lang h"
proof (cases "needsInvert h")
  case True
  let ?g = "invertForceLabelPair h"
  note I = invert_fold [OF assms(2), of h, folded invertForceLabelPair_def]
  have "labelPair ?g (fsmSymbolState x) = invert_pair (labelPair h (fsmSymbolState x))" if "x \<in># hg_arcs h" for x
    using that I symbol_state_bound [OF assms(1,3) that] effective_invert [of h "fsmSymbolState x"] assms(4)
    by (simp add: labelled_arcs_def set_mset_hg_arcs [OF assms(1)])
  then have "lang ?g = map (apfst invert_pair) ` lang h"
    using I by (intro lang_relabelled hg_arcs_heap) auto
  then show ?thesis using True I assms(1) by (simp add: invert_def)
next
  case False
  then have "labelPair h t = invert_pair (labelPair h t)" for t
    by (simp add: needsInvert_def outputLabelFollowsInput_def labelPair_def outputLabelOrElse_def invert_pair_def
        isValid_NoSymbol Let_def)
  then have "lang h = map (apfst invert_pair) ` lang h" by (intro lang_relabelled) simp_all
  then show ?thesis using False assms(1) by (simp add: invert_def)
qed

theorem invert_language_witness:
  "map (apfst invert_pair) [((terminal 5, terminal 5), 7)] \<in> lang (invert (sample_fsm kStoreOutArcs (terminal 5)))"
proof -
  have p: "has kStoreOutArcs kStoreAnyArcs" by (simp add: flag_simps)
  have t: "isTerminal (terminal 5)" by (simp add: sym_op_defs sym_consts)
  note F = sample_fsm_facts [OF p, of "terminal 5"] and L = sample_fsm_lang [OF p t]
  have n: "numStates (sample_fsm kStoreOutArcs (terminal 5)) \<le> kNoState" by (simp add: F kNoState_def)
  show ?thesis using invert_language [OF F(1) n L(2) L(4)] L(3) by blast
qed

lemma setInputLabel_frame [simp]:
  "arc_heap (setInputLabel s l h) = arc_heap h" "next_arc (setInputLabel s l h) = next_arc h"
  "numStates (setInputLabel s l h) = numStates h" "start_state (setInputLabel s l h) = start_state h"
  "final_state (setInputLabel s l h) = final_state h"
  "inArcsPerState (setInputLabel s l h) = inArcsPerState h"
  "outArcsPerState (setInputLabel s l h) = outArcsPerState h"
  "oLabelForState (setInputLabel s l h) = oLabelForState h"
  "storesInArcs (setInputLabel s l h) = storesInArcs h"
  "storesFirstTailOutArcs (setInputLabel s l h) = storesFirstTailOutArcs h"
  "storesAllOutArcs (setInputLabel s l h) = storesAllOutArcs h"
  by (simp_all add: setInputLabel_def setInputLabelImpl_def notifyLabelImpl_def storesInArcs_def
      storesFirstTailOutArcs_def storesAllOutArcs_def flag_simps)

lemma inputLabel_setInputLabel:
  "s < kNoState \<Longrightarrow> inputLabel (setInputLabel s l h) t = (if t = s then l else inputLabel h t)"
  by (simp add: setInputLabel_def inputLabel_setInputLabelImpl)

lemma hasLabel_input: "hasLabel h s \<longleftrightarrow> inputLabel h s \<noteq> NoSymbol"
  by (simp add: hasLabel_def inputLabel_def getOrElse_def)

lemma outputLabel_congo:
  "oLabelForState g = oLabelForState h \<Longrightarrow> inputLabel g t = inputLabel h t \<Longrightarrow> outputLabel g t = outputLabel h t"
  by (simp add: outputLabel_def Let_def)

lemma visit_labels:
  fixes h :: "'w hg"
  defines "F n \<equiv> fold (\<lambda>s g. if hasLabel g s then SetInLabelToOut s g else g) [0..<n] h"
  assumes "n \<le> kNoState"
  shows "hg_wf (F n) = hg_wf h \<and> arc_heap (F n) = arc_heap h \<and> next_arc (F n) = next_arc h \<and>
    numStates (F n) = numStates h \<and> start_state (F n) = start_state h \<and> final_state (F n) = final_state h \<and>
    oLabelForState (F n) = oLabelForState h \<and>
    (\<forall>t. inputLabel (F n) t = (if t < n \<and> hasLabel h t then outputLabel h t else inputLabel h t))"
  using assms(2) unfolding F_def
proof (induction n)
  case (Suc n)
  let ?g = "fold (\<lambda>s g. if hasLabel g s then SetInLabelToOut s g else g) [0..<n] h"
  have IH: "hg_wf ?g = hg_wf h" "arc_heap ?g = arc_heap h" "next_arc ?g = next_arc h"
    "numStates ?g = numStates h" "start_state ?g = start_state h" "final_state ?g = final_state h"
    "oLabelForState ?g = oLabelForState h"
    "\<And>t. inputLabel ?g t = (if t < n \<and> hasLabel h t then outputLabel h t else inputLabel h t)"
    using Suc by auto
  have i: "inputLabel ?g n = inputLabel h n" by (simp add: IH(8))
  then have o: "outputLabel ?g n = outputLabel h n" by (rule outputLabel_congo [OF IH(7)])
  have w: "hg_wf (SetInLabelToOut n ?g) = hg_wf ?g"
    unfolding SetInLabelToOut_def by (rule hg_wf_same) simp_all
  have n: "hasLabel ?g n = hasLabel h n" by (simp only: hasLabel_input [of ?g n] hasLabel_input [of h n] i)
  have v: "inputLabel (SetInLabelToOut n ?g) t = (if t = n then outputLabel h n else inputLabel ?g t)" for t
    using Suc.prems by (simp add: SetInLabelToOut_def inputLabel_setInputLabel o)
  let ?g' = "if hasLabel ?g n then SetInLabelToOut n ?g else ?g"
  have "inputLabel ?g' t = (if t < Suc n \<and> hasLabel h t then outputLabel h t else inputLabel h t)" for t
    unfolding n by (auto simp: v IH(8) less_Suc_eq)
  moreover have "fold (\<lambda>s g. if hasLabel g s then SetInLabelToOut s g else g) [0..<Suc n] h = ?g'" by simp
  moreover have "oLabelForState ?g' = oLabelForState h" "arc_heap ?g' = arc_heap h" "next_arc ?g' = next_arc h"
    "numStates ?g' = numStates h" "start_state ?g' = start_state h" "final_state ?g' = final_state h"
    "hg_wf ?g' = hg_wf h"
    using w IH(1-7) by (simp_all add: SetInLabelToOut_def)
  ultimately show ?case by (simp only:) simp
qed simp

lemma project_frame:
  "arc_heap (clearProperties k (removeOutputLabels h)) = arc_heap h"
  "next_arc (clearProperties k (removeOutputLabels h)) = next_arc h"
  "start_state (clearProperties k (removeOutputLabels h)) = start_state h"
  "final_state (clearProperties k (removeOutputLabels h)) = final_state h"
  "labelPair (clearProperties k (removeOutputLabels h)) t = (inputLabel h t, inputLabel h t)"
  "inputLabel (clearProperties k (removeOutputLabels h)) t = inputLabel h t"
  "outputLabel (clearProperties k (removeOutputLabels h)) t = inputLabel h t"
  by (simp_all add: clearProperties_def setProperties_def removeOutputLabels_def labelPair_def Let_def
      inputLabel_def outputLabelOrElse_def outputLabel_def clearVector_def isValid_NoSymbol)

lemma clearOutput_wf [simp]:
  "hg_wf (clearProperties kHasOutputLabels h) = hg_wf h" "hg_wf (removeOutputLabels h) = hg_wf h"
proof -
  have "hg_wf (clearProperties kHasOutputLabels h) = hg_wf (computeFsmGraphProperty h)"
    by (rule hg_wf_same) (simp_all add: clearProperties_def setProperties_def Let_def storesInArcs_def
        storesFirstTailOutArcs_def storesAllOutArcs_def flag_simps)
  then show "hg_wf (clearProperties kHasOutputLabels h) = hg_wf h" by simp
  show "hg_wf (removeOutputLabels h) = hg_wf h"
    by (rule hg_wf_same) (simp_all add: removeOutputLabels_def storesInArcs_def storesFirstTailOutArcs_def
        storesAllOutArcs_def)
qed

definition project_pair :: "ProjectType \<Rightarrow> LabelPair \<Rightarrow> LabelPair" where
  "project_pair pr io = (case pr of Project_Input \<Rightarrow> (fst io, fst io) | Project_Output \<Rightarrow> (snd io, snd io))"

text \<open>
  Projecting. \<open>project(hg, projection)\<close> on an fsm whose label states have input
  labels keeps the hypergraph well-formed, leaves no output labels that could differ from the
  input, and replaces every letter of the language by its input or its output on both sides.
\<close>

theorem project_language:
  assumes "hg_wf h" and "numStates h \<le> kNoState" and "fsm_arcs h" and "labelled_arcs h"
  shows "hg_wf (project pr h) \<and> lang (project pr h) = map (apfst (project_pair pr)) ` lang h"
proof (cases pr)
  case Project_Input
  have "lang (projectInput h) = map (apfst (project_pair pr)) ` lang h"
    unfolding projectInput_def
    by (rule lang_relabelled) (auto simp: project_frame Project_Input project_pair_def outputLabel_labelPair
        intro: hg_arcs_heap)
  then show ?thesis using assms(1) by (simp add: project_def Project_Input) (simp add: projectInput_def)
next
  case Project_Output
  show ?thesis
  proof (cases "emptyOutputLabels h")
    case True
    have ap: "apfst (\<lambda>x. x) = (id :: LabelPair \<times> 'a \<Rightarrow> _)" by (simp add: fun_eq_iff)
    have e: "lang (projectOutput h) = lang h"
      using lang_relabelled [of "projectOutput h" h "\<lambda>x. x"] unfolding ap
      by (simp add: projectOutput_def True clearProperties_def setProperties_def Let_def hg_arcs_def live_arcs_def
          arcAt_def [abs_def] labelPair_def inputLabel_def outputLabelOrElse_def)
    have "lang h = map (apfst (project_pair pr)) ` lang h"
      by (rule lang_relabelled) (use True in \<open>simp_all add: emptyOutputLabels_def Project_Output project_pair_def
          labelPair_def outputLabelOrElse_def isValid_NoSymbol Let_def\<close>)
    then show ?thesis using e assms(1) by (simp add: project_def Project_Output projectOutput_def True)
  next
    case False
    let ?v = "visitLabeledStates SetInLabelToOut h"
    note V = visit_labels [OF assms(2), of h, folded visitLabeledStates_def]
    have s: "inputLabel ?v (fsmSymbolState x) = snd (labelPair h (fsmSymbolState x))" if "x \<in># hg_arcs h" for x
      using that V symbol_state_bound [OF assms(1,3) that] assms(4)
      by (simp add: labelled_arcs_def set_mset_hg_arcs [OF assms(1)] hasLabel_input outputLabel_labelPair)
    have "lang (projectOutput h) = map (apfst (project_pair pr)) ` lang h"
      by (rule lang_relabelled)
        (use V s in \<open>auto simp: projectOutput_def False project_frame Project_Output project_pair_def
          intro: hg_arcs_heap\<close>)
    then show ?thesis using V assms(1) by (simp add: project_def Project_Output projectOutput_def False)
  qed
qed

theorem project_language_witness:
  "map (apfst (project_pair Project_Output)) [((terminal 5, terminal 5), 7)]
     \<in> lang (project Project_Output (sample_fsm kStoreOutArcs (terminal 5)))"
proof -
  have p: "has kStoreOutArcs kStoreAnyArcs" by (simp add: flag_simps)
  have t: "isTerminal (terminal 5)" by (simp add: sym_op_defs sym_consts)
  note F = sample_fsm_facts [OF p, of "terminal 5"] and L = sample_fsm_lang [OF p t]
  have n: "numStates (sample_fsm kStoreOutArcs (terminal 5)) \<le> kNoState" by (simp add: F kNoState_def)
  show ?thesis using project_language [OF F(1) n L(2) L(4)] L(3) by blast
qed

end
