(* ===== verification/Hg_Reach.thy ===== *)
theory Hg_Reach
  imports Hg_Language
begin

text \<open>
  Reachability and emptiness (\<open>sdl/Hypergraph/Empty.hpp\<close>): which states can be derived from
  the start and the terminal-labelled states, by a depth-first walk along the out-arcs that, on a
  hypergraph that is no graph, counts down the tails an arc still waits for. The recursion of
  \<open>reach\<close> and \<open>reachGraph\<close> is an explicit list of work in the order the calls are made,
  and terminates because a state is walked from at most once.

  The specification is the least set of derivable states; for an fsm, emptiness of the
  language.
\<close>

section \<open>The walk\<close>

text \<open>
  \<open>Util::latch\<close> on a \<open>BitSet\<close>: set the bit and say whether it was clear. The bound is an
  assertion of the source.
\<close>

definition latch :: "bool list \<Rightarrow> nat \<Rightarrow> bool \<times> bool list" where
  "latch v i = (if i < length v then (\<not> v ! i, v[i := True]) else (False, v))"

record reach_state =
  reached :: "bool list"
  tailsleft :: "ArcHandle \<rightharpoonup> nat"
  outside :: "(StateId \<times> StateId) list"

datatype reach_item = ReachState StateId | ReachArc ArcHandle

definition tailFinishes :: "ArcHandle \<Rightarrow> reach_state \<Rightarrow> bool \<times> reach_state" where
  "tailFinishes a r =
     (let left = (case tailsleft r a of None \<Rightarrow> 0 | Some n \<Rightarrow> n);
          left' = (if left = 0 then 4294967295 else left - 1)
      in (left' = 0, r\<lparr>tailsleft := (tailsleft r)(a \<mapsto> left')\<rparr>))"

definition reachArc :: "'w hg \<Rightarrow> bool \<Rightarrow> ArcHandle \<Rightarrow> StateId \<Rightarrow> reach_state \<Rightarrow> reach_state" where
  "reachArc h computeUseful a head r =
     (if computeUseful then r\<lparr>outside := outside r @ map (\<lambda>t. (head, t)) (arc_tails (arcAt h a))\<rparr> else r)"

definition unreached :: "reach_state \<Rightarrow> nat" where
  "unreached r = length (filter Not (reached r))"

definition item_size :: "reach_item \<Rightarrow> nat" where
  "item_size i = (case i of ReachState _ \<Rightarrow> 1 | ReachArc _ \<Rightarrow> 2)"

lemma latch_unreached:
  assumes "latch v i = (True, w)"
  shows "length (filter Not w) < length (filter Not v)"
proof -
  have i: "i < length v" "\<not> v ! i" "w = v[i := True]" using assms by (auto simp: latch_def split: if_splits)
  have v: "v = take i v @ v ! i # drop (Suc i) v" using i(1) by (simp add: id_take_nth_drop)
  have w: "w = take i v @ True # drop (Suc i) v" using i(1,3) by (simp add: upd_conv_take_nth_drop)
  have "length (filter Not v) = length (filter Not (take i v @ v ! i # drop (Suc i) v))" by (subst v) (rule refl)
  then show ?thesis unfolding w using i(2) by simp
qed

lemma latch_seen: "latch v i = (False, w) \<Longrightarrow> w = v"
  by (auto simp: latch_def list_update_same_conv split: if_splits)

lemma reached_reachArc [simp]: "reached (reachArc h u a s r) = reached r" "tailsleft (reachArc h u a s r) = tailsleft r"
  by (simp_all add: reachArc_def)

lemma reached_tailFinishes: "tailFinishes a r = (b, r') \<Longrightarrow> reached r' = reached r"
  by (auto simp: tailFinishes_def Let_def)

text \<open>
  \<open>graph\<close> says whether this is \<open>reachGraph\<close>, where every arc of a reached state is followed,
  or \<open>reach\<close>, where an arc is followed when its last tail is reached.
\<close>

function reach_run :: "'w hg \<Rightarrow> bool \<Rightarrow> bool \<Rightarrow> bool \<Rightarrow> StateId \<Rightarrow> reach_item list \<Rightarrow> reach_state \<Rightarrow> reach_state" where
  "reach_run h graph useful stopAtFinal final [] r = r"
| "reach_run h graph useful stopAtFinal final (ReachState s # todo) r =
     (let (new, v) = latch (reached r) s; r1 = r\<lparr>reached := v\<rparr>
      in if \<not> new \<or> (stopAtFinal \<and> s = final) then reach_run h graph useful stopAtFinal final todo r1
         else reach_run h graph useful stopAtFinal final (map ReachArc (outArcsOf h s) @ todo) r1)"
| "reach_run h graph useful stopAtFinal final (ReachArc a # todo) r =
     (let (fires, r1) = (if graph then (True, r) else tailFinishes a r); head = arc_head (arcAt h a)
      in if fires
         then reach_run h graph useful stopAtFinal final (ReachState head # todo) (reachArc h useful a head r1)
         else reach_run h graph useful stopAtFinal final todo r1)"
  by pat_completeness auto
termination
proof (relation "measures [\<lambda>(h, g, u, st, f, todo, r). unreached r, \<lambda>(h, g, u, st, f, todo, r). sum_list (map item_size todo)]",
    goal_cases)
  case 1
  show ?case by simp
next
  case (2 h graph useful stopAtFinal final s todo r x new v r1)
  then show ?case
    by (cases new) (auto simp: unreached_def item_size_def dest: latch_unreached [OF sym] latch_seen [OF sym])
next
  case (3 h graph useful stopAtFinal final s todo r x new v r1)
  then show ?case by (auto simp: unreached_def dest: latch_unreached [OF sym])
next
  case (4 h graph useful stopAtFinal final a todo r x fires r1 head)
  then have "reached r1 = reached r" by (auto split: if_splits dest: reached_tailFinishes [OF sym])
  then show ?case by (simp add: unreached_def item_size_def)
next
  case (5 h graph useful stopAtFinal final a todo r x fires r1 head)
  then have "reached r1 = reached r" by (auto split: if_splits dest: reached_tailFinishes [OF sym])
  then show ?case by (simp add: unreached_def item_size_def)
qed

declare reach_run.simps [simp del]

lemma run_Nil [simp]: "reach_run h g u st f [] r = r"
  by (simp add: reach_run.simps)

lemma run_skip:
  "latch (reached r) s = (new, v) \<Longrightarrow> \<not> new \<or> st \<and> s = f \<Longrightarrow>
     reach_run h g u st f (ReachState s # todo) r = reach_run h g u st f todo (r\<lparr>reached := v\<rparr>)"
  by (subst reach_run.simps) (simp only: Let_def prod.case if_True)

lemma run_walk:
  "latch (reached r) s = (new, v) \<Longrightarrow> \<not> (\<not> new \<or> st \<and> s = f) \<Longrightarrow>
     reach_run h g u st f (ReachState s # todo) r =
     reach_run h g u st f (map ReachArc (outArcsOf h s) @ todo) (r\<lparr>reached := v\<rparr>)"
  by (subst reach_run.simps) (simp only: Let_def prod.case if_False)

lemma run_fire:
  "(if g then (True, r) else tailFinishes a r) = (True, r1) \<Longrightarrow>
     reach_run h g u st f (ReachArc a # todo) r =
     reach_run h g u st f (ReachState (arc_head (arcAt h a)) # todo) (reachArc h u a (arc_head (arcAt h a)) r1)"
  by (subst reach_run.simps) (simp only: Let_def prod.case if_True)

lemma run_wait:
  "tailFinishes a r = (False, r1) \<Longrightarrow>
     reach_run h False u st f (ReachArc a # todo) r = reach_run h False u st f todo r1"
  by (subst reach_run.simps) (simp only: Let_def prod.case if_False)

text \<open>\<open>arcsOnce\<close> fills a map with one value per arc.\<close>

definition arcsOnce :: "('w arc \<Rightarrow> nat) \<Rightarrow> 'w hg \<Rightarrow> (ArcHandle \<rightharpoonup> nat)" where
  "arcsOnce f h =
     fold (\<lambda>a m. if m a = None then m(a \<mapsto> f (arcAt h a)) else m) (arcsAtLeastOnce h) Map.empty"

definition forAxioms :: "'w hg \<Rightarrow> StateId list" where
  "forAxioms h = filter (\<lambda>s. s = start_state h \<or> hasTerminalLabel h s) [0..<numStates h]"

fun ensured_hg :: "'w ensured \<Rightarrow> 'w hg" where
  "ensured_hg (SameHg h) = h"
| "ensured_hg (CopiedHg h) = h"

text \<open>The constructor of \<open>Reach\<close> runs the walk.\<close>

definition Reach :: "'w hg \<Rightarrow> bool \<Rightarrow> bool \<Rightarrow> sdl_error + reach_state" where
  "Reach hg computeUseful stopAtFinal =
     (let r0 = \<lparr>reached = replicate (numStates hg) False, tailsleft = Map.empty, outside = []\<rparr>;
          final = final_state hg
      in if isGraph hg \<and> start_state hg \<noteq> kNoState
         then bindR (ensureFirstTailOutArcs hg) (\<lambda>e.
                Inr (reach_run (ensured_hg e) True computeUseful stopAtFinal final
                       [ReachState (start_state hg)] r0))
         else bindR (ensureOutArcs hg) (\<lambda>e.
                let h = ensured_hg e
                in Inr (reach_run h False computeUseful stopAtFinal final (map ReachState (forAxioms h))
                          (r0\<lparr>tailsleft := arcsOnce (\<lambda>x. length (arc_tails x)) h\<rparr>))))"

text \<open>
  \<open>useful(goal)\<close> reads the colours of a Boost depth-first visit of the graph \<open>outside\<close>, here
  the function \<open>dfsColor\<close> from the edges, the number of vertices and the goal to the visited
  vertices.
\<close>

definition useful_states :: "((StateId \<times> StateId) list \<Rightarrow> nat \<Rightarrow> StateId \<Rightarrow> bool list) \<Rightarrow> nat \<Rightarrow> reach_state
    \<Rightarrow> StateId \<Rightarrow> bool list" where
  "useful_states dfsColor n r goal =
     (let c = dfsColor (outside r) n goal
      in map (\<lambda>s. if s = goal then reached r ! s else c ! s) [0..<length c])"

definition final_reached :: "reach_state \<Rightarrow> StateId \<Rightarrow> bool" where
  "final_reached r final = reached r ! final"

definition empty :: "'w hg \<Rightarrow> sdl_error + bool" where
  "empty hg =
     (if prunedEmpty hg then Inr True
      else bindR (Reach hg False True) (\<lambda>r. Inr (\<not> final_reached r (final_state hg))))"

definition pruneEmpty :: "'w hg \<Rightarrow> sdl_error + (bool \<times> 'w hg)" where
  "pruneEmpty a = bindR (empty a) (\<lambda>e. Inr (e, if e then setEmpty False False a else a))"


section \<open>What the walk reaches\<close>

definition bits :: "bool list \<Rightarrow> nat set" where
  "bits v = {i. i < length v \<and> v ! i}"

lemma latch_bits:
  assumes "latch v i = (b, w)"
  shows "length w = length v \<and> bits w = bits v \<union> (if i < length v then {i} else {}) \<and>
    (b \<longleftrightarrow> i < length v \<and> i \<notin> bits v)"
  using assms by (auto simp: latch_def bits_def nth_list_update split: if_splits)

fun item_state :: "'w hg \<Rightarrow> reach_item \<Rightarrow> StateId" where
  "item_state h (ReachState s) = s"
| "item_state h (ReachArc a) = arc_head (arcAt h a)"

text \<open>An edge leads from a state to the head of one of its out-arcs.\<close>

definition out_edges :: "'w hg \<Rightarrow> (StateId \<times> StateId) set" where
  "out_edges h = {(s, arc_head (arcAt h a)) | s a. a \<in> set (outArcsOf h s)}"

lemma out_edgesI: "a \<in> set (outArcsOf h s) \<Longrightarrow> (s, arc_head (arcAt h a)) \<in> out_edges h"
  by (auto simp: out_edges_def)

text \<open>
  The contract of a walk: it keeps inside every set closed under the edges, keeps what was reached,
  reaches every item, and leaves no edge from a walked state unfollowed.
\<close>

lemma graph_sound:
  assumes "\<And>s t. s \<in> P \<Longrightarrow> (s, t) \<in> out_edges h \<Longrightarrow> t \<in> P"
    and "bits (reached r) \<subseteq> P" and "\<forall>i \<in> set todo. item_state h i \<in> P"
  shows "bits (reached (reach_run h True u st f todo r)) \<subseteq> P"
  using assms
proof (induction h "True" u st f todo r rule: reach_run.induct)
  case (2 h u st f s todo r)
  obtain new v where L: "latch (reached r) s = (new, v)" by force
  let ?r1 = "r\<lparr>reached := v\<rparr>"
  have b: "bits v \<subseteq> P" using latch_bits [OF L] 2(4,5) by (auto split: if_splits)
  show ?case
  proof (cases "\<not> new \<or> st \<and> s = f")
    case True
    have "bits (reached (reach_run h True u st f todo ?r1)) \<subseteq> P"
      by (rule 2(1) [OF L [symmetric] refl refl True]) (use 2(3-5) b in auto)
    then show ?thesis by (simp only: run_skip [OF L True])
  next
    case False
    have sP: "s \<in> P" using 2(5) by simp
    have i: "\<forall>i \<in> set (map ReachArc (outArcsOf h s) @ todo). item_state h i \<in> P"
      using 2(3) [OF sP out_edgesI] 2(5) by auto
    have "bits (reached (reach_run h True u st f (map ReachArc (outArcsOf h s) @ todo) ?r1)) \<subseteq> P"
      by (rule 2(2) [OF L [symmetric] refl refl False 2(3) _ i]) (use b in simp_all)
    then show ?thesis by (simp only: run_walk [OF L False])
  qed
next
  case (3 h u st f a todo r)
  have "bits (reached (reach_run h True u st f (ReachState (arc_head (arcAt h a)) # todo)
      (reachArc h u a (arc_head (arcAt h a)) r))) \<subseteq> P"
    by (rule 3(1) [of "(True, r)" True r]) (use 3(3-5) in auto)
  then show ?case by (simp add: run_fire [of True r a r])
qed simp

lemma graph_complete:
  assumes "\<And>s t. (s, t) \<in> out_edges h \<Longrightarrow> t < length (reached r)"
    and "\<forall>i \<in> set todo. item_state h i < length (reached r)"
    and "\<And>s t. s \<in> bits (reached r) \<Longrightarrow> \<not> (st \<and> s = f) \<Longrightarrow> (s, t) \<in> out_edges h \<Longrightarrow>
           t \<in> bits (reached r) \<union> item_state h ` set todo"
  shows "bits (reached r) \<union> item_state h ` set todo \<subseteq> bits (reached (reach_run h True u st f todo r)) \<and>
    (\<forall>s t. s \<in> bits (reached (reach_run h True u st f todo r)) \<longrightarrow> \<not> (st \<and> s = f) \<longrightarrow>
       (s, t) \<in> out_edges h \<longrightarrow> t \<in> bits (reached (reach_run h True u st f todo r)))"
  using assms
proof (induction h "True" u st f todo r rule: reach_run.induct)
  case (1 h u st f r)
  then show ?case by auto
next
  case (2 h u st f s todo r)
  obtain new v where L: "latch (reached r) s = (new, v)" by force
  let ?r1 = "r\<lparr>reached := v\<rparr>"
  have s: "s < length (reached r)" using 2(4) by simp
  have b: "bits v = insert s (bits (reached r))" "length v = length (reached r)"
    using latch_bits [OF L] s by auto
  show ?case
  proof (cases "\<not> new \<or> st \<and> s = f")
    case True
    let ?R = "reach_run h True u st f todo ?r1"
    have inv: "y \<in> bits (reached ?r1) \<union> item_state h ` set todo"
      if "x \<in> bits (reached ?r1)" "\<not> (st \<and> x = f)" "(x, y) \<in> out_edges h" for x y
    proof -
      have "x \<in> bits (reached r)" using that(1,2) True b latch_bits [OF L] by auto
      then show ?thesis using 2(5) [OF _ that(2,3)] b by auto
    qed
    have "bits (reached ?r1) \<union> item_state h ` set todo \<subseteq> bits (reached ?R) \<and>
      (\<forall>x y. x \<in> bits (reached ?R) \<longrightarrow> \<not> (st \<and> x = f) \<longrightarrow> (x, y) \<in> out_edges h \<longrightarrow> y \<in> bits (reached ?R))"
      by (rule 2(1) [OF L [symmetric] refl refl True]) (use 2(3,4) b inv in auto)
    moreover have "reach_run h True u st f (ReachState s # todo) r = ?R" by (rule run_skip [OF L True])
    ultimately show ?thesis using b by auto
  next
    case False
    let ?todo = "map ReachArc (outArcsOf h s) @ todo"
    let ?R = "reach_run h True u st f ?todo ?r1"
    have inv: "y \<in> bits (reached ?r1) \<union> item_state h ` set ?todo"
      if "x \<in> bits (reached ?r1)" "\<not> (st \<and> x = f)" "(x, y) \<in> out_edges h" for x y
    proof (cases "x = s")
      case True
      then show ?thesis using that(3) by (force simp: out_edges_def)
    next
      case False
      then have "x \<in> bits (reached r)" using that(1) b by auto
      then show ?thesis using 2(5) [OF _ that(2,3)] b by auto
    qed
    have "bits (reached ?r1) \<union> item_state h ` set ?todo \<subseteq> bits (reached ?R) \<and>
      (\<forall>x y. x \<in> bits (reached ?R) \<longrightarrow> \<not> (st \<and> x = f) \<longrightarrow> (x, y) \<in> out_edges h \<longrightarrow> y \<in> bits (reached ?R))"
    proof (rule 2(2) [OF L [symmetric] refl refl False _ _ inv])
      show "y < length (reached ?r1)" if "(x, y) \<in> out_edges h" for x y using 2(3) [OF that] b by simp
      show "\<forall>i \<in> set ?todo. item_state h i < length (reached ?r1)"
        using 2(3) [OF out_edgesI [of _ h s]] 2(4) b by auto
    qed
    moreover have "reach_run h True u st f (ReachState s # todo) r = ?R" by (rule run_walk [OF L False])
    ultimately show ?thesis using b by auto
  qed
next
  case (3 h u st f a todo r)
  let ?todo = "ReachState (arc_head (arcAt h a)) # todo" and ?r1 = "reachArc h u a (arc_head (arcAt h a)) r"
  let ?R = "reach_run h True u st f ?todo ?r1"
  have "bits (reached ?r1) \<union> item_state h ` set ?todo \<subseteq> bits (reached ?R) \<and>
      (\<forall>x y. x \<in> bits (reached ?R) \<longrightarrow> \<not> (st \<and> x = f) \<longrightarrow> (x, y) \<in> out_edges h \<longrightarrow> y \<in> bits (reached ?R))"
    by (rule 3(1) [of "(True, r)" True r]) (use 3(3-5) in auto)
  then show ?case by (simp add: run_fire [of True r a r])
qed

section \<open>The hypergraph the walk runs on\<close>

definition same_content :: "'w hg \<Rightarrow> 'w hg \<Rightarrow> bool" where
  "same_content g h \<longleftrightarrow> hg_arcs g = hg_arcs h \<and> numStates g = numStates h \<and> start_state g = start_state h \<and>
     final_state g = final_state h \<and>
     (\<forall>s < numStates h. labelPairOptionalOutput g s = labelPairOptionalOutput h s)"

lemma same_content_refl [simp]: "same_content h h"
  by (simp add: same_content_def)

lemma ensure_missing:
  assumes k: "bit_pos k n" and m: "\<not> has (properties h) k"
  shows "ensureProperties h k off 0 CopyEnsuringProperties (- 1) =
    ensureCopy h (properties h) (k AND NOT (properties h)) 0 off"
proof -
  have n: "n < 64" using k by (simp add: bit_pos_def)
  have b: "bit (k AND NOT (properties h)) n" "bit ((- 1) AND NOT (properties h)) n"
    using m n by (simp_all add: has_bit [OF k] bit_of_bit_pos [OF k] bit_and_iff bit_not64)
  have ne: "k AND NOT (properties h) \<noteq> 0" "(- 1) AND NOT (properties h) \<noteq> 0"
    using b by (metis bit_0_eq bot_apply bot_bool_def)+
  then show ?thesis by (simp add: ensureProperties_def orSwitchOn_def Let_def)
qed

lemma ensure_nothing: "ensureProperties h 0 off 0 m q = Inr (SameHg h)"
  by (simp add: ensureProperties_def Let_def)

lemma ensure_present: "has (properties h) k \<Longrightarrow> bit_pos k n \<Longrightarrow> ensureProperties h k off 0 m q = Inr (SameHg h)"
proof -
  assume h: "has (properties h) k" and k: "bit_pos k n"
  have "k AND NOT (properties h) = 0"
  proof (rule bit_eqI)
    fix j show "bit (k AND NOT (properties h)) j = bit 0 j"
      using h by (cases "j = n") (simp_all add: bit_of_bit_pos [OF k] has_bit [OF k] bit_and_iff bit_not64)
  qed
  then show ?thesis by (simp add: ensureProperties_def Let_def)
qed

lemma ensureCopy_facts:
  assumes wf: "hg_wf h" and n: "numStates h \<le> kNoState" and ne: "\<forall>x \<in># hg_arcs h. arc_tails x \<noteq> []"
    and st: "storesInArcs h \<or> storesFirstTailOutArcs h \<or> \<not> isFsm h"
    and p: "has ((ip OR on) AND NOT off AND NOT maybeOff) kStoreAnyArcs"
  shows "\<exists>g. ensureCopy h ip on off maybeOff = Inr (CopiedHg g) \<and> hg_wf g \<and> same_content g h \<and>
    storesFirstTailOutArcs g = has ((ip OR on) AND NOT off AND NOT maybeOff) kStoreFirstTailOutArcs \<and>
    storesAllOutArcs g = has ((ip OR on) AND NOT off AND NOT maybeOff) kStoreOutArcs"
proof -
  let ?p = "(ip OR on) AND NOT off AND NOT maybeOff"
  obtain r :: "'a hg" where r: "init_hg ?p = Inr r" "hg_wf r" "arc_heap r = Map.empty" "numStates r = 0"
    "props r = ?p OR kFsmProperties" using init_hg_facts [OF p] by blast
  have f: "storesFirstTailOutArcs r = has ?p kStoreFirstTailOutArcs" "storesAllOutArcs r = has ?p kStoreOutArcs"
    unfolding storesFirstTailOutArcs_def storesAllOutArcs_def r(5) by (simp_all add: flag_simps)
  obtain g where g: "copyHypergraph h r False = Inr g" "hg_wf g" "hg_arcs g = hg_arcs h" "numStates g = numStates h"
    "start_state g = start_state h" "final_state g = final_state h"
    "storesFirstTailOutArcs g = storesFirstTailOutArcs r" "storesAllOutArcs g = storesAllOutArcs r"
    "\<forall>s < numStates h. labelPairOptionalOutput g s = labelPairOptionalOutput h s"
    using copy_into_empty [OF wf n st r(2-4)] ne by blast
  then show ?thesis using r(1) f by (simp add: ensureCopy_def bindR_def same_content_def)
qed

lemma ensureFirstTail_facts:
  assumes wf: "hg_wf h" and n: "numStates h \<le> kNoState" and ne: "\<forall>x \<in># hg_arcs h. arc_tails x \<noteq> []"
  shows "\<exists>e. ensureFirstTailOutArcs h = Inr e \<and> hg_wf (ensured_hg e) \<and> same_content (ensured_hg e) h \<and>
    storesOutArcs (ensured_hg e)"
proof (cases "storesOutArcs h")
  case True
  then show ?thesis using wf by (simp add: ensureFirstTailOutArcs_def ensure_nothing)
next
  case False
  have i: "storesInArcs h" "\<not> storesFirstTailOutArcs h"
    using wf False by (auto simp: hg_wf_def storesArcs_cases storesOutArcs_cases)
  let ?k = kStoreFirstTailOutArcs and ?ip = "properties h"
  let ?p = "(?ip OR (?k AND NOT ?ip)) AND NOT 0 AND NOT kStoreInArcs"
  have m: "\<not> has ?ip ?k" using i by (simp add: properties_stores)
  have f: "has ?p kStoreAnyArcs" "has ?p ?k" using m by (simp_all add: flag_simps)
  obtain g where g: "ensureCopy h ?ip (?k AND NOT ?ip) 0 kStoreInArcs = Inr (CopiedHg g)" "hg_wf g"
    "same_content g h" "storesFirstTailOutArcs g = has ?p ?k"
    using ensureCopy_facts [OF wf n ne _ f(1)] i(1) by blast
  then have "storesOutArcs g" using f(2) by (simp add: storesOutArcs_cases)
  then show ?thesis using False g ensure_missing [OF bit_positions(5) m]
    by (simp add: ensureFirstTailOutArcs_def)
qed

lemma ensureOut_facts:
  assumes wf: "hg_wf h" and n: "numStates h \<le> kNoState" and ne: "\<forall>x \<in># hg_arcs h. arc_tails x \<noteq> []"
    and b: "\<not> (storesFirstTailOutArcs h \<and> storesAllOutArcs h)"
  shows "\<exists>e. ensureOutArcs h = Inr e \<and> hg_wf (ensured_hg e) \<and> same_content (ensured_hg e) h \<and>
    storesAllOutArcs (ensured_hg e) \<and> \<not> storesFirstTailOutArcs (ensured_hg e)"
proof (cases "storesAllOutArcs h")
  case True
  then show ?thesis using wf b ensure_present [OF _ bit_positions(4), of h]
    by (simp add: ensureOutArcs_def properties_stores)
next
  case False
  have i: "storesInArcs h \<or> storesFirstTailOutArcs h"
    using wf False by (auto simp: hg_wf_def storesArcs_cases storesOutArcs_cases)
  let ?k = kStoreOutArcs and ?ip = "properties h" and ?off = "kStoreInArcs OR kStoreFirstTailOutArcs"
  let ?p = "(?ip OR (?k AND NOT ?ip)) AND NOT 0 AND NOT ?off"
  have m: "\<not> has ?ip ?k" using False by (simp add: properties_stores)
  have f: "has ?p kStoreAnyArcs" "has ?p ?k" "\<not> has ?p kStoreFirstTailOutArcs" using m by (simp_all add: flag_simps)
  obtain g where g: "ensureCopy h ?ip (?k AND NOT ?ip) 0 ?off = Inr (CopiedHg g)" "hg_wf g"
    "same_content g h" "storesAllOutArcs g = has ?p ?k" "storesFirstTailOutArcs g = has ?p kStoreFirstTailOutArcs"
    using ensureCopy_facts [OF wf n ne _ f(1)] i by blast
  then show ?thesis using f ensure_missing [OF bit_positions(4) m] by (simp add: ensureOutArcs_def)
qed

section \<open>Emptiness of an fsm\<close>

lemma length_latch: "latch v i = (b, w) \<Longrightarrow> length w = length v"
  by (auto simp: latch_def split: if_splits)

lemma length_reach_run: "length (reached (reach_run h g u st f todo r)) = length (reached r)"
proof (induction h g u st f todo r rule: reach_run.induct)
  case (1 h g u st f r)
  then show ?case by simp
next
  case (2 h g u st f s todo r)
  obtain new v where L: "latch (reached r) s = (new, v)" by force
  show ?case
  proof (cases "\<not> new \<or> st \<and> s = f")
    case True
    then show ?thesis using 2(1) [OF L [symmetric] refl refl True] length_latch [OF L] by (simp add: run_skip [OF L True])
  next
    case False
    then show ?thesis using 2(2) [OF L [symmetric] refl refl False] length_latch [OF L] by (simp add: run_walk [OF L False])
  qed
next
  case (3 h g u st f a todo r)
  obtain fires r1 where F: "(if g then (True, r) else tailFinishes a r) = (fires, r1)" by force
  have l: "length (reached r1) = length (reached r)" using F by (auto split: if_splits dest: reached_tailFinishes)
  show ?case
  proof (cases fires)
    case True
    then show ?thesis using 3(1) [OF F [symmetric] refl refl] F l by (simp add: run_fire)
  next
    case False
    then have "tailFinishes a r = (False, r1)" "\<not> g" using F by (auto split: if_splits)
    then show ?thesis using 3(2) [OF F [symmetric] refl refl] False l by (simp add: run_wait)
  qed
qed

lemma out_edges_iff:
  assumes wf: "hg_wf g" and st: "storesOutArcs g"
  shows "(s, t) \<in> out_edges g \<longleftrightarrow> (\<exists>x. x \<in># hg_arcs g \<and> t = arc_head x \<and> arc_tails x \<noteq> [] \<and>
    (if storesFirstTailOutArcs g then s = hd (arc_tails x) else s \<in> set (arc_tails x)))"
    (is "_ \<longleftrightarrow> (\<exists>x. _ \<and> t = arc_head x \<and> ?Q x)")
proof -
  have ix: "index_ok (if storesFirstTailOutArcs g then first_weight else out_weight) (arc_heap g) (outArcsPerState g)"
    using wf st by (auto simp: hg_wf_def storesOutArcs_cases)
  have Q: "0 < (if storesFirstTailOutArcs g then first_weight else out_weight) x s \<longleftrightarrow> ?Q x" for x
    by (auto simp: first_weight_def out_weight_def count_list_pos)
  have m: "a \<in> set (outArcsOf g s) \<longleftrightarrow> (\<exists>x. arc_heap g a = Some x \<and> ?Q x)" for a
    unfolding outArcsOf_def index_member [OF ix] Q ..
  have "(s, t) \<in> out_edges g \<longleftrightarrow> (\<exists>a. a \<in> set (outArcsOf g s) \<and> t = arc_head (arcAt g a))"
    by (auto simp: out_edges_def)
  also have "\<dots> \<longleftrightarrow> (\<exists>a x. arc_heap g a = Some x \<and> t = arc_head x \<and> ?Q x)"
    unfolding m arcAt_def by (metis option.sel)
  also have "\<dots> \<longleftrightarrow> (\<exists>x. x \<in> ran (arc_heap g) \<and> t = arc_head x \<and> ?Q x)"
    unfolding ran_def by blast
  finally show ?thesis unfolding set_mset_hg_arcs [OF wf] .
qed

lemma path_first: "path A q p r \<Longrightarrow> q \<noteq> r \<Longrightarrow> \<exists>x \<in> A. isFsmFrom x q"
  by (cases p) auto

lemma path_last: "path A q p r \<Longrightarrow> q \<noteq> r \<Longrightarrow> \<exists>x \<in> A. arc_head x = r"
  by (induction p arbitrary: q) auto

lemma path_closed: "path A q p r \<Longrightarrow> q \<in> S \<Longrightarrow> (\<And>x q. x \<in> A \<Longrightarrow> isFsmFrom x q \<Longrightarrow> q \<in> S \<Longrightarrow> arc_head x \<in> S) \<Longrightarrow> r \<in> S"
  by (induction p arbitrary: q) auto

lemma prunedEmpty_lang:
  assumes wf: "hg_wf h" and n: "numStates h \<le> kNoState" and p: "prunedEmpty h"
  shows "lang h = {}"
proof (rule ccontr)
  assume "lang h \<noteq> {}"
  then obtain w where w: "w \<in> lang h" by auto
  then obtain q where q: "path (set_mset (hg_arcs h)) (start_state h) q (final_state h)" by (auto simp: lang_def)
  have ne: "start_state h \<noteq> kNoState" "final_state h \<noteq> kNoState" using lang_final [OF wf n w] by auto
  with p have sf: "start_state h \<noteq> final_state h" by (auto simp: prunedEmpty_def Let_def split: if_splits)
  obtain x where x: "x \<in># hg_arcs h" "arc_head x = final_state h" using path_last [OF q sf] by blast
  obtain y where y: "y \<in># hg_arcs h" "isFsmFrom y (start_state h)" using path_first [OF q sf] by blast
  obtain a b where a: "arc_heap h a = Some x" "arc_heap h b = Some y"
    using x(1) y(1) by (auto simp: set_mset_hg_arcs [OF wf] ran_def)
  show False
  proof (cases "storesInArcs h")
    case True
    then have "a \<in> set (inArcsOf h (final_state h))"
      using wf index_member [of in_weight "arc_heap h" "inArcsPerState h" a] a x
      by (simp add: hg_wf_def inArcsOf_def in_weight_def)
    then have "numInArcs h (final_state h) \<noteq> 0" using numInArcs_pos [of h "final_state h"] by auto
    then show False using p ne sf True by (auto simp: prunedEmpty_def storesInArcs_def Let_def)
  next
    case False
    then have so: "storesOutArcs h" using wf by (simp add: hg_wf_def storesArcs_cases)
    have ix: "index_ok (if storesFirstTailOutArcs h then first_weight else out_weight) (arc_heap h) (outArcsPerState h)"
      using wf so by (auto simp: hg_wf_def storesOutArcs_cases)
    have "start_state h = hd (arc_tails y)" "start_state h \<in> set (arc_tails y)"
      using y(2) nth_mem [of 0 "arc_tails y"] by (auto simp: isFsmFrom_def hd_conv_nth)
    then have "b \<in> set (outArcsOf h (start_state h))"
      using index_member [OF ix, of b] a(2) y(2)
      by (auto simp: outArcsOf_def first_weight_def out_weight_def count_list_pos isFsmFrom_def)
    then have "numOutArcs h (start_state h) \<noteq> 0" using numOutArcs_pos [of h "start_state h"] by auto
    then show False using p ne sf False so
      by (auto simp: prunedEmpty_def storesInArcs_def storesOutArcs_def Let_def)
  qed
qed

lemma empty_fsm_iff:
  assumes wf: "hg_wf h" and n: "numStates h \<le> kNoState" and fsm: "isFsm h" "\<not> fsmChecked h"
    and b: "start_state h = kNoState \<or> start_state h < numStates h" "final_state h = kNoState \<or> final_state h < numStates h"
    and s: "\<not> hasTerminalLabel h (start_state h)"
  shows "empty h = Inr (lang h = {})"
proof (cases "prunedEmpty h")
  case True
  then show ?thesis using prunedEmpty_lang [OF wf n] by (simp add: empty_def)
next
  case False
  then have f: "final_state h \<noteq> kNoState" by (auto simp: prunedEmpty_def)
  let ?A = "set_mset (hg_arcs h)" and ?S = "start_state h" and ?F = "final_state h"
  have A: "isFsmArc h x \<and> \<not> hasTerminalLabel h (arc_head x)" if "x \<in> ?A" for x
    using that fsm isFsm_iff [OF wf fsm(2)] by (auto simp: set_mset_hg_arcs [OF wf] ran_def)
  have st: "?S \<noteq> kNoState" using f fsm isFsm_iff [OF wf fsm(2)] by blast
  have ne: "\<forall>x \<in># hg_arcs h. arc_tails x \<noteq> []" using A by (fastforce simp: isFsmArc_def Let_def)
  obtain e where e: "ensureFirstTailOutArcs h = Inr e" "hg_wf (ensured_hg e)" "same_content (ensured_hg e) h"
    "storesOutArcs (ensured_hg e)" using ensureFirstTail_facts [OF wf n ne] by blast
  let ?E = "ensured_hg e"
  let ?init = "\<lparr>reached = replicate (numStates h) False, tailsleft = Map.empty, outside = []\<rparr>"
  let ?r = "reach_run ?E True False True ?F [ReachState ?S] ?init"
  have run: "empty h = Inr (\<not> reached ?r ! ?F)"
    using False e(1) st compute_isFsm(2) [OF fsm(2)] fsm(1)
    by (simp add: empty_def Reach_def bindR_def final_reached_def Let_def)
  have bits0: "bits (reached ?init) = {}" by (auto simp: bits_def)
  have len: "length (reached ?r) = numStates h" by (simp add: length_reach_run)
  have F: "reached ?r ! ?F \<longleftrightarrow> ?F \<in> bits (reached ?r)" using b f len by (simp add: bits_def)
  have edge: "(u, arc_head x) \<in> out_edges ?E" if "x \<in> ?A" "isFsmFrom x u" for x u
    using that e(3) by (auto simp: out_edges_iff [OF e(2,4)] same_content_def isFsmFrom_def hd_conv_nth)
  have edge': "\<exists>x \<in> ?A. t = arc_head x \<and> u \<in> set (arc_tails x)" if "(u, t) \<in> out_edges ?E" for u t
    using that e(3) by (auto simp: out_edges_iff [OF e(2,4)] same_content_def split: if_splits)
  have heads: "t < numStates h" if "(u, t) \<in> out_edges ?E" for u t
    using edge' [OF that] wf_arc(1) [OF wf] by auto
  let ?P = "{u. \<exists>p. path ?A ?S p u}"
  have nt: "\<not> hasTerminalLabel h u" if u: "u \<in> ?P" for u
  proof -
    obtain p where p: "path ?A ?S p u" using u by blast
    show ?thesis
    proof (cases "?S = u")
      case True
      then show ?thesis using s by simp
    next
      case False
      then show ?thesis using path_last [OF p] A by blast
    qed
  qed
  have step: "t \<in> ?P" if u: "u \<in> ?P" and ut: "(u, t) \<in> out_edges ?E" for u t
  proof -
    obtain x where x: "x \<in> ?A" "t = arc_head x" "u \<in> set (arc_tails x)" using edge' [OF ut] by blast
    have "isFsmArc h x" using A x(1) by blast
    then have l: "length (arc_tails x) = 2" "hasTerminalLabel h (arc_tails x ! 1)" by (auto simp: isFsmArc_def Let_def)
    then obtain q m where ts: "arc_tails x = [q, m]" by (auto simp: length_Suc_conv numeral_2_eq_2)
    then have "u = q" using x(3) l(2) nt [OF u] by auto
    then have "isFsmFrom x u" using ts by (simp add: isFsmFrom_def)
    moreover obtain p where "path ?A ?S p u" using u by auto
    ultimately have "path ?A ?S (p @ [x]) t" using x by auto
    then show ?thesis by blast
  qed
  have S0: "?S \<in> ?P" using path.simps(1) [of ?A ?S ?S] by blast
  have sound: "bits (reached ?r) \<subseteq> ?P"
  proof (rule graph_sound [OF step])
    show "bits (reached ?init) \<subseteq> ?P" using bits0 by simp
    show "\<forall>i \<in> set [ReachState ?S]. item_state ?E i \<in> ?P" using S0 by simp
  qed
  have S: "?S < numStates h" using b st by simp
  have comp: "?S \<in> bits (reached ?r) \<and> (\<forall>u t. u \<in> bits (reached ?r) \<longrightarrow> \<not> (True \<and> u = ?F) \<longrightarrow>
      (u, t) \<in> out_edges ?E \<longrightarrow> t \<in> bits (reached ?r))"
    using graph_complete [of ?E ?init "[ReachState ?S]" True ?F False] heads S bits0 by simp
  have "reached ?r ! ?F \<longleftrightarrow> lang h \<noteq> {}"
  proof
    assume "reached ?r ! ?F"
    then obtain p where "path ?A ?S p ?F" using F sound by blast
    then show "lang h \<noteq> {}" using st by (auto simp: lang_def)
  next
    assume "lang h \<noteq> {}"
    then obtain p where p: "path ?A ?S p ?F" by (auto simp: lang_def)
    show "reached ?r ! ?F"
    proof (rule ccontr)
      assume no: "\<not> reached ?r ! ?F"
      have "?F \<in> bits (reached ?r)"
      proof (rule path_closed [OF p])
        show "?S \<in> bits (reached ?r)" using comp by blast
        show "arc_head x \<in> bits (reached ?r)" if "x \<in> ?A" "isFsmFrom x q" "q \<in> bits (reached ?r)" for x q
          using comp edge [OF that(1,2)] that(3) no F by blast
      qed
      then show False using no F by simp
    qed
  qed
  then show ?thesis by (simp add: run)
qed

text \<open>
  Emptiness of an fsm. On a well-formed fsm whose start state carries no terminal
  label, \<open>empty(hg)\<close> always returns, whatever arcs are stored, and says exactly whether no
  path leads from the start to the final state.
\<close>

theorem empty_correct:
  assumes "hg_wf h" and "numStates h \<le> kNoState" and "isFsm h" and "\<not> fsmChecked h"
    and "start_state h = kNoState \<or> start_state h < numStates h"
    and "final_state h = kNoState \<or> final_state h < numStates h"
    and "\<not> hasTerminalLabel h (start_state h)"
  shows "empty h = Inr (lang h = {})"
  by (rule empty_fsm_iff [OF assms])

theorem empty_correct_witness: "empty (sample_fsm kStoreInArcs (terminal 5)) = Inr False"
proof -
  have p: "has kStoreInArcs kStoreAnyArcs" by (simp add: flag_simps)
  have t: "isTerminal (terminal 5)" by (simp add: sym_op_defs sym_consts)
  note F = sample_fsm_facts [OF p, of "terminal 5"] and A = sample_hg_arcs [OF p, of "terminal 5"]
  let ?h = "sample_fsm kStoreInArcs (terminal 5)"
  have b: "numStates ?h \<le> kNoState" "start_state ?h = kNoState \<or> start_state ?h < numStates ?h"
    "final_state ?h = kNoState \<or> final_state ?h < numStates ?h"
    by (simp_all add: F A kNoState_def)
  have s: "\<not> hasTerminalLabel ?h (start_state ?h)"
  proof -
    have "inputLabel ?h 0 = NoSymbol" by (simp add: inputLabel_def getOrElse_def F(7))
    then show ?thesis by (simp add: hasTerminalLabel_def F(5))
  qed
  show ?thesis
    using empty_correct [OF F(1) b(1) sample_fsm_isFsm [OF p t] F(3) b(2,3) s] sample_fsm_lang(3) [OF p t] by auto
qed

section \<open>Emptiness of a hypergraph\<close>

text \<open>
  The states that can be derived: the axioms, and the head of an arc with tails all of which can be
  derived. An arc without tails derives nothing: no state lists it as an out-arc.
\<close>

inductive derivable :: "'w hg \<Rightarrow> StateId \<Rightarrow> bool" for h where
  derivable_axiom: "s \<in> set (forAxioms h) \<Longrightarrow> derivable h s"
| derivable_arc: "x \<in># hg_arcs h \<Longrightarrow> arc_tails x \<noteq> [] \<Longrightarrow> (\<forall>t \<in> set (arc_tails x). derivable h t) \<Longrightarrow>
    derivable h (arc_head x)"

lemma reach_items:
  "bits (reached r) \<union> {s. ReachState s \<in> set todo \<and> s < length (reached r)} \<subseteq> bits (reached (reach_run h g u st f todo r))"
proof (induction h g u st f todo r rule: reach_run.induct)
  case (1 h g u st f r)
  then show ?case by auto
next
  case (2 h g u st f s todo r)
  obtain new v where L: "latch (reached r) s = (new, v)" by force
  note B = latch_bits [OF L]
  show ?case
  proof (cases "\<not> new \<or> st \<and> s = f")
    case True
    then show ?thesis using 2(1) [OF L [symmetric] refl refl True] B by (auto simp: run_skip [OF L True])
  next
    case False
    then show ?thesis using 2(2) [OF L [symmetric] refl refl False] B by (auto simp: run_walk [OF L False])
  qed
next
  case (3 h g u st f a todo r)
  obtain fires r1 where F: "(if g then (True, r) else tailFinishes a r) = (fires, r1)" by force
  have l: "reached r1 = reached r" using F by (auto split: if_splits dest: reached_tailFinishes)
  show ?case
  proof (cases fires)
    case True
    then show ?thesis using 3(1) [OF F [symmetric] refl refl] F l by (auto simp: run_fire)
  next
    case False
    then have "tailFinishes a r = (False, r1)" "\<not> g" using F by (auto split: if_splits)
    then show ?thesis using 3(2) [OF F [symmetric] refl refl] False l by (auto simp: run_wait)
  qed
qed

text \<open>
  The invariant of the counting walk: the count of an arc is the number of its tails not walked yet
  plus the number of its visits still in the work list; an arc whose count is used up has a
  reached head, or one that is about to be reached.
\<close>

definition walked :: "bool \<Rightarrow> StateId \<Rightarrow> reach_state \<Rightarrow> StateId set" where
  "walked st f r = {t \<in> bits (reached r). \<not> (st \<and> t = f)}"

definition count_ok :: "'w hg \<Rightarrow> bool \<Rightarrow> StateId \<Rightarrow> reach_item list \<Rightarrow> reach_state \<Rightarrow> bool" where
  "count_ok h st f todo r \<longleftrightarrow> (\<forall>a x. arc_heap h a = Some x \<longrightarrow> tailsleft r a =
     Some (count_list todo (ReachArc a) + length (filter (\<lambda>t. t \<notin> walked st f r) (arc_tails x))))"

definition heads_ok :: "'w hg \<Rightarrow> reach_item list \<Rightarrow> reach_state \<Rightarrow> bool" where
  "heads_ok h todo r \<longleftrightarrow> (\<forall>a x. arc_heap h a = Some x \<longrightarrow> tailsleft r a = Some 0 \<longrightarrow>
     arc_head x \<in> bits (reached r) \<or> ReachState (arc_head x) \<in> set todo)"

definition sound_ok :: "'w hg \<Rightarrow> StateId set \<Rightarrow> reach_item list \<Rightarrow> reach_state \<Rightarrow> bool" where
  "sound_ok h P todo r \<longleftrightarrow> bits (reached r) \<subseteq> P \<and> (\<forall>a. ReachArc a \<in> set todo \<longrightarrow> a \<in> dom (arc_heap h)) \<and>
     (\<forall>s. ReachState s \<in> set todo \<longrightarrow> s \<in> P \<and> s < length (reached r))"

definition walk_inv :: "'w hg \<Rightarrow> bool \<Rightarrow> StateId \<Rightarrow> StateId set \<Rightarrow> reach_item list \<Rightarrow> reach_state \<Rightarrow> bool" where
  "walk_inv h st f P todo r \<longleftrightarrow> count_ok h st f todo r \<and> heads_ok h todo r \<and> sound_ok h P todo r"

lemma count_okD: "count_ok h st f todo r \<Longrightarrow> arc_heap h a = Some x \<Longrightarrow> tailsleft r a =
    Some (count_list todo (ReachArc a) + length (filter (\<lambda>t. t \<notin> walked st f r) (arc_tails x)))"
  unfolding count_ok_def by blast

lemma heads_okD: "heads_ok h todo r \<Longrightarrow> arc_heap h a = Some x \<Longrightarrow> tailsleft r a = Some 0 \<Longrightarrow>
    arc_head x \<in> bits (reached r) \<or> ReachState (arc_head x) \<in> set todo"
  unfolding heads_ok_def by blast

lemma count_map_ReachArc: "count_list (map ReachArc as) (ReachArc a) = count_list as a"
  by (induction as) auto

lemma filter_insert:
  "s \<notin> W \<Longrightarrow> length (filter (\<lambda>t. t \<notin> W) ts) = count_list ts s + length (filter (\<lambda>t. t \<notin> insert s W) ts)"
  by (induction ts) auto

lemma walk_inv_skip:
  assumes L: "latch (reached r) s = (new, v)" and sk: "\<not> new \<or> st \<and> s = f"
    and I: "walk_inv h st f P (ReachState s # todo) r"
  shows "walk_inv h st f P todo (r\<lparr>reached := v\<rparr>)"
proof -
  have s: "s < length (reached r)" "s \<in> P" using I by (auto simp: walk_inv_def sound_ok_def)
  have b: "bits v = insert s (bits (reached r))" "length v = length (reached r)" "new \<longleftrightarrow> s \<notin> bits (reached r)"
    using latch_bits [OF L] s by auto
  have w: "walked st f (r\<lparr>reached := v\<rparr>) = walked st f r" using sk b by (auto simp: walked_def)
  have "count_ok h st f todo (r\<lparr>reached := v\<rparr>)" using I by (simp add: walk_inv_def count_ok_def w)
  moreover have "sound_ok h P todo (r\<lparr>reached := v\<rparr>)" using I s b by (auto simp: walk_inv_def sound_ok_def)
  moreover have "heads_ok h todo (r\<lparr>reached := v\<rparr>)"
    unfolding heads_ok_def
  proof (intro allI impI)
    fix a x assume "arc_heap h a = Some x" "tailsleft (r\<lparr>reached := v\<rparr>) a = Some 0"
    then have "arc_head x \<in> bits (reached r) \<or> ReachState (arc_head x) \<in> set (ReachState s # todo)"
      using heads_okD [of h "ReachState s # todo" r a x] I by (simp add: walk_inv_def)
    then show "arc_head x \<in> bits (reached (r\<lparr>reached := v\<rparr>)) \<or> ReachState (arc_head x) \<in> set todo"
      using b(1) by auto
  qed
  ultimately show ?thesis by (simp add: walk_inv_def)
qed

lemma walk_inv_walk:
  assumes wf: "hg_wf h" and st: "storesAllOutArcs h" "\<not> storesFirstTailOutArcs h"
    and L: "latch (reached r) s = (new, v)" and sk: "\<not> (\<not> new \<or> st \<and> s = f)"
    and I: "walk_inv h st f P (ReachState s # todo) r"
  shows "walk_inv h st f P (map ReachArc (outArcsOf h s) @ todo) (r\<lparr>reached := v\<rparr>)"
proof -
  have s: "s < length (reached r)" "s \<in> P" using I by (auto simp: walk_inv_def sound_ok_def)
  have b: "bits v = insert s (bits (reached r))" "length v = length (reached r)" "s \<notin> bits (reached r)"
    using latch_bits [OF L] s sk by auto
  have w: "walked st f (r\<lparr>reached := v\<rparr>) = insert s (walked st f r)" "s \<notin> walked st f r"
    using sk b by (auto simp: walked_def)
  have ix: "index_ok out_weight (arc_heap h) (outArcsPerState h)" using wf st by (simp add: hg_wf_def)
  have cnt: "count_list (outArcsOf h s) a = count_list (arc_tails x) s" if "arc_heap h a = Some x" for a x
    using ix that by (simp add: index_ok_def outArcsOf_def out_weight_def)
  have live: "a \<in> dom (arc_heap h)" if "a \<in> set (outArcsOf h s)" for a
    using that index_member [OF ix] by (auto simp: outArcsOf_def)
  have "count_ok h st f (map ReachArc (outArcsOf h s) @ todo) (r\<lparr>reached := v\<rparr>)"
    using I cnt filter_insert [OF w(2)]
    by (simp add: walk_inv_def count_ok_def w(1) count_map_ReachArc)
  moreover have "heads_ok h (map ReachArc (outArcsOf h s) @ todo) (r\<lparr>reached := v\<rparr>)"
    using I b by (auto simp: walk_inv_def heads_ok_def)
  moreover have "sound_ok h P (map ReachArc (outArcsOf h s) @ todo) (r\<lparr>reached := v\<rparr>)"
    using I b s live by (auto simp: walk_inv_def sound_ok_def)
  ultimately show ?thesis by (simp add: walk_inv_def)
qed

lemma walk_inv_arc:
  assumes I: "walk_inv h st f P (ReachArc a # todo) r" and F: "tailFinishes a r = (fires, r1)"
  shows "reached r1 = reached r \<and> count_ok h st f todo r1 \<and> sound_ok h P todo r1 \<and>
    (\<exists>x. arc_heap h a = Some x \<and> (fires \<longrightarrow> set (arc_tails x) \<subseteq> walked st f r) \<and>
      (\<forall>b y. arc_heap h b = Some y \<longrightarrow> tailsleft r1 b = Some 0 \<longrightarrow>
         arc_head y \<in> bits (reached r1) \<or> ReachState (arc_head y) \<in> set todo \<or> (fires \<and> b = a)))"
proof -
  obtain x where x: "arc_heap h a = Some x" using I by (auto simp: walk_inv_def sound_ok_def)
  let ?n = "count_list todo (ReachArc a) + length (filter (\<lambda>t. t \<notin> walked st f r) (arc_tails x))"
  have left: "tailsleft r a = Some (Suc ?n)" using I x by (simp add: walk_inv_def count_ok_def)
  have r1: "r1 = r\<lparr>tailsleft := (tailsleft r)(a \<mapsto> ?n)\<rparr>" "fires \<longleftrightarrow> ?n = 0"
    using F left by (auto simp: tailFinishes_def Let_def)
  have w: "walked st f r1 = walked st f r" by (simp add: r1 walked_def)
  have "count_ok h st f todo r1"
    unfolding count_ok_def w
  proof (intro allI impI)
    fix b y assume y: "arc_heap h b = Some y"
    show "tailsleft r1 b = Some (count_list todo (ReachArc b) + length (filter (\<lambda>t. t \<notin> walked st f r) (arc_tails y)))"
      using count_okD [of h st f "ReachArc a # todo" r b y] I x y
      by (cases "b = a") (simp_all add: walk_inv_def r1)
  qed
  moreover have "sound_ok h P todo r1" using I by (auto simp: walk_inv_def sound_ok_def r1)
  moreover have "fires \<longrightarrow> set (arc_tails x) \<subseteq> walked st f r" using r1(2) by (auto simp: filter_empty_conv)
  moreover have "arc_head y \<in> bits (reached r1) \<or> ReachState (arc_head y) \<in> set todo \<or> (fires \<and> b = a)"
    if "arc_heap h b = Some y" "tailsleft r1 b = Some 0" for b y
    using I that by (cases "b = a") (auto simp: walk_inv_def heads_ok_def r1)
  ultimately show ?thesis using x by (auto simp: r1)
qed

lemma walk_inv_run:
  assumes wf: "hg_wf h" and st: "storesAllOutArcs h" "\<not> storesFirstTailOutArcs h"
    and P: "\<And>x. x \<in> ran (arc_heap h) \<Longrightarrow> arc_tails x \<noteq> [] \<and> (set (arc_tails x) \<subseteq> P \<longrightarrow> arc_head x \<in> P)"
    and I: "walk_inv h stop f P todo r" and n: "length (reached r) = numStates h"
  shows "walk_inv h stop f P [] (reach_run h False u stop f todo r)"
  using assms
proof (induction h "False" u stop f todo r rule: reach_run.induct)
  case (1 h u stop f r)
  then show ?case by simp
next
  case (2 h u stop f s todo r)
  obtain new v where L: "latch (reached r) s = (new, v)" by force
  have n: "length (reached (r\<lparr>reached := v\<rparr>)) = numStates h" using 2(8) length_latch [OF L] by simp
  show ?case
  proof (cases "\<not> new \<or> stop \<and> s = f")
    case True
    show ?thesis unfolding run_skip [OF L True]
      by (rule 2(1) [OF L [symmetric] refl refl True 2(3-6) walk_inv_skip [OF L True 2(7)] n])
  next
    case False
    show ?thesis unfolding run_walk [OF L False]
      by (rule 2(2) [OF L [symmetric] refl refl False 2(3-6) walk_inv_walk [OF 2(3-5) L False 2(7)] n])
  qed
next
  case (3 h u stop f a todo r)
  obtain fires r1 where F: "tailFinishes a r = (fires, r1)" by force
  then have F': "(fires, r1) = (if False then (True, r) else tailFinishes a r)" by simp
  note A = walk_inv_arc [OF 3(7) F]
  obtain x where x: "arc_heap h a = Some x" "fires \<longrightarrow> set (arc_tails x) \<subseteq> walked stop f r"
    "\<And>b y. arc_heap h b = Some y \<Longrightarrow> tailsleft r1 b = Some 0 \<Longrightarrow>
       arc_head y \<in> bits (reached r1) \<or> ReachState (arc_head y) \<in> set todo \<or> (fires \<and> b = a)"
    using A by blast
  have n: "length (reached r1) = numStates h" using A 3(8) by simp
  show ?case
  proof (cases fires)
    case True
    let ?head = "arc_head (arcAt h a)"
    have hd: "?head = arc_head x" by (simp add: arcAt_def x(1))
    have "walked stop f r \<subseteq> P" using 3(7) by (auto simp: walk_inv_def sound_ok_def walked_def)
    then have "arc_head x \<in> P" using 3(6) [of x] x(1,2) True by (auto simp: ran_def)
    moreover have "arc_head x < numStates h" using hg_wfD(1) [OF 3(3)] x(1) unfolding arcs_bounded_def by blast
    ultimately have so: "sound_ok h P (ReachState ?head # todo) (reachArc h u a ?head r1)"
      using A n by (auto simp: sound_ok_def hd)
    have ho: "heads_ok h (ReachState ?head # todo) (reachArc h u a ?head r1)"
      unfolding heads_ok_def
    proof (intro allI impI)
      fix b y assume y: "arc_heap h b = Some y" "tailsleft (reachArc h u a ?head r1) b = Some 0"
      then have "arc_head y \<in> bits (reached r1) \<or> ReachState (arc_head y) \<in> set todo \<or> b = a"
        using x(3) [of b y] by auto
      then show "arc_head y \<in> bits (reached (reachArc h u a ?head r1)) \<or>
          ReachState (arc_head y) \<in> set (ReachState ?head # todo)"
        using x(1) y(1) hd by auto
    qed
    have co: "count_ok h stop f (ReachState ?head # todo) (reachArc h u a ?head r1)"
      using A by (auto simp: count_ok_def walked_def)
    have I: "walk_inv h stop f P (ReachState ?head # todo) (reachArc h u a ?head r1)"
      using so ho co by (simp add: walk_inv_def)
    have fire: "(if False then (True, r) else tailFinishes a r) = (True, r1)" using F True by simp
    show ?thesis unfolding run_fire [OF fire]
      by (rule 3(1) [OF refl F' refl True 3(3-6) I]) (simp_all add: n)
  next
    case False
    then have F2: "tailFinishes a r = (False, r1)" using F by simp
    have I: "walk_inv h stop f P todo r1" using A x(3) False by (auto simp: walk_inv_def heads_ok_def)
    show ?thesis unfolding run_wait [OF F2]
      by (rule 3(2) [OF refl F' refl False 3(3-6) I n])
  qed
qed

lemma fold_arcsOnce:
  "fold (\<lambda>a m. if m a = None then m(a \<mapsto> g a) else m) as m0 =
     (\<lambda>a. if a \<in> set as \<and> m0 a = None then Some (g a) else m0 a)"
  by (induction as arbitrary: m0) (auto simp: fun_eq_iff)

lemma arcsOnce_live:
  assumes "hg_wf h" and "arc_heap h a = Some x"
  shows "arcsOnce f h a = Some (f x)"
proof -
  have "a \<in> set (arcsAtLeastOnce h)" using arcsAtLeastOnce_set [OF assms(1)] assms(2) by auto
  then show ?thesis using assms(2) by (simp add: arcsOnce_def fold_arcsOnce arcAt_def)
qed

lemma forAxioms_same:
  assumes "same_content g h" shows "forAxioms g = forAxioms h"
proof -
  have "hasTerminalLabel g s = hasTerminalLabel h s" if "s < numStates h" for s
    using assms that by (simp add: same_content_def labelPairOptionalOutput_def hasTerminalLabel_def)
  then show ?thesis using assms by (auto simp: forAxioms_def same_content_def intro: filter_cong)
qed

lemma empty_cfg_iff:
  assumes wf: "hg_wf h" and n: "numStates h \<le> kNoState" and g: "\<not> isGraph h \<or> start_state h = kNoState"
    and ne: "\<forall>x \<in> ran (arc_heap h). arc_tails x \<noteq> []" and b: "\<not> (storesFirstTailOutArcs h \<and> storesAllOutArcs h)"
    and f: "final_state h = kNoState \<or> final_state h < numStates h"
  shows "empty h = Inr (prunedEmpty h \<or> \<not> derivable h (final_state h))"
proof (cases "prunedEmpty h")
  case True
  then show ?thesis by (simp add: empty_def)
next
  case False
  let ?F = "final_state h"
  have F: "?F < numStates h" using False f by (auto simp: prunedEmpty_def)
  have ne': "\<forall>x \<in># hg_arcs h. arc_tails x \<noteq> []" using ne by (simp add: set_mset_hg_arcs [OF wf])
  obtain e where e: "ensureOutArcs h = Inr e" "hg_wf (ensured_hg e)" "same_content (ensured_hg e) h"
    "storesAllOutArcs (ensured_hg e)" "\<not> storesFirstTailOutArcs (ensured_hg e)"
    using ensureOut_facts [OF wf n ne' b] by blast
  let ?E = "ensured_hg e" and ?P = "{s. derivable h s}"
  let ?init = "\<lparr>reached = replicate (numStates h) False, tailsleft = arcsOnce (\<lambda>x. length (arc_tails x)) (ensured_hg e),
    outside = []\<rparr>"
  let ?todo = "map ReachState (forAxioms h)"
  let ?r = "reach_run ?E False False True ?F ?todo ?init"
  have run: "empty h = Inr (\<not> reached ?r ! ?F)"
    using False e(1) g forAxioms_same [OF e(3)]
    by (auto simp: empty_def Reach_def bindR_def final_reached_def Let_def)
  have len: "length (reached ?r) = numStates h" by (simp add: length_reach_run)
  have bits0: "bits (reached ?init) = {}" by (auto simp: bits_def)
  have arcs: "ran (arc_heap ?E) = ran (arc_heap h)"
    using e(3) set_mset_hg_arcs [OF wf] set_mset_hg_arcs [OF e(2)] by (simp add: same_content_def)
  have nE: "numStates ?E = numStates h" using e(3) by (simp add: same_content_def)
  have P: "arc_tails x \<noteq> [] \<and> (set (arc_tails x) \<subseteq> ?P \<longrightarrow> arc_head x \<in> ?P)" if "x \<in> ran (arc_heap ?E)" for x
    using that ne arcs derivable_arc [of x h] by (auto simp: set_mset_hg_arcs [OF wf])
  have w0: "walked True ?F ?init = {}" using bits0 by (simp add: walked_def)
  have c0: "count_list ?todo (ReachArc a) = 0" for a by (auto simp: count_list_0_iff)
  have I0: "walk_inv ?E True ?F ?P ?todo ?init"
    unfolding walk_inv_def
  proof (intro conjI)
    show "count_ok ?E True ?F ?todo ?init"
      using arcsOnce_live [OF e(2)] by (simp add: count_ok_def w0 c0)
    show "heads_ok ?E ?todo ?init"
      using arcsOnce_live [OF e(2), of _ _ "\<lambda>x. length (arc_tails x)"] P by (auto simp: heads_ok_def ran_def)
    show "sound_ok ?E ?P ?todo ?init"
      using bits0 by (auto simp: sound_ok_def forAxioms_def intro: derivable_axiom)
  qed
  have I: "walk_inv ?E True ?F ?P [] ?r"
    by (rule walk_inv_run [OF e(2,4,5) P I0]) (simp_all add: nE)
  let ?R = "bits (reached ?r)"
  have Fb: "reached ?r ! ?F \<longleftrightarrow> ?F \<in> ?R" using F len by (simp add: bits_def)
  have sound: "?R \<subseteq> ?P" using I by (simp add: walk_inv_def sound_ok_def)
  have comp: "s \<in> ?R" if no: "?F \<notin> ?R" and d: "derivable h s" for s
    using d
  proof induction
    case (derivable_axiom s)
    then have "ReachState s \<in> set ?todo \<and> s < length (reached ?init)" by (auto simp: forAxioms_def)
    then show ?case using reach_items [of ?init ?todo ?E False False True ?F] by blast
  next
    case (derivable_arc x)
    have "x \<in> ran (arc_heap ?E)" using derivable_arc(1) arcs by (simp add: set_mset_hg_arcs [OF wf])
    then obtain a where a: "arc_heap ?E a = Some x" by (auto simp: ran_def)
    have "set (arc_tails x) \<subseteq> walked True ?F ?r" using derivable_arc(3) no by (auto simp: walked_def)
    then have "filter (\<lambda>t. t \<notin> walked True ?F ?r) (arc_tails x) = []" by (auto simp: filter_empty_conv)
    then have "tailsleft ?r a = Some 0" using count_okD [OF _ a, of True ?F "[]" ?r] I by (simp add: walk_inv_def)
    then show ?case using heads_okD [OF _ a, of "[]" ?r] I by (simp add: walk_inv_def)
  qed
  have "reached ?r ! ?F \<longleftrightarrow> derivable h ?F" using Fb sound comp by blast
  then show ?thesis using False by (simp add: run)
qed

text \<open>
  Property C33 (emptiness of a hypergraph). On a well-formed hypergraph that is no graph, whose
  arcs all have tails, \<open>empty(hg)\<close> always returns and is true exactly if \<open>prunedEmpty\<close> says so
  or the final state is not derivable from the axioms: the counting walk follows an arc when, and
  only when, all its tails are reached, even if a tail is repeated. (\<open>prunedEmpty\<close> can hold of a derivable final state: when
  only out-arcs are stored and the start state has none.)
\<close>

theorem empty_cfg_correct:
  assumes "hg_wf h" and "numStates h \<le> kNoState" and "\<not> isGraph h \<or> start_state h = kNoState"
    and "\<forall>x \<in> ran (arc_heap h). arc_tails x \<noteq> []" and "\<not> (storesFirstTailOutArcs h \<and> storesAllOutArcs h)"
    and "final_state h = kNoState \<or> final_state h < numStates h"
  shows "empty h = Inr (prunedEmpty h \<or> \<not> derivable h (final_state h))"
  by (rule empty_cfg_iff [OF assms])

lemma sample_cfg_facts:
  fixes p defines "h \<equiv> (sample_fsm p NoSymbol)\<lparr>fsmChecked := True\<rparr>"
  assumes p: "has p kStoreAnyArcs" and g: "\<not> has p kGraph"
  shows "hg_wf h" "\<not> isGraph h" "hg_arcs h = {#new_arc_fsm 0 2 7 1#}" "arc_heap h = [0 \<mapsto> new_arc_fsm 0 2 7 1]"
    "start_state h = 0" "final_state h = 1" "numStates h = 3" "inputLabel h = (\<lambda>s. NoSymbol)"
    "storesInArcs h = has p kStoreInArcs" "storesAllOutArcs h = has p kStoreOutArcs"
    "storesFirstTailOutArcs h = has p kStoreFirstTailOutArcs"
proof -
  let ?s = "sample_fsm p NoSymbol"
  note F = sample_fsm_facts [OF p, of NoSymbol] and A = sample_hg_arcs [OF p, of NoSymbol]
  have P: "props h = p \<or> props h = p AND NOT kSortedOutArcs"
    by (simp add: h_def sample_fsm_def addNewArc_frame sample_states_def hg_zero_def)
  show "hg_wf h" using F(1) hg_wf_same [of h ?s] stores_props [of h ?s] by (simp add: h_def)
  show "\<not> isGraph h" using P g by (auto simp: isGraph_def properties_def h_def flag_simps)
  show "hg_arcs h = {#new_arc_fsm 0 2 7 1#}" using A(1) hg_arcs_heap [of h ?s] by (simp add: h_def)
  show "arc_heap h = [0 \<mapsto> new_arc_fsm 0 2 7 1]" "start_state h = 0" "final_state h = 1" "numStates h = 3"
    using F A by (simp_all add: h_def)
  show "inputLabel h = (\<lambda>s. NoSymbol)"
    using F(7) by (auto simp: h_def fun_eq_iff inputLabel_def getOrElse_def nth_Cons split: nat.splits)
  show "storesInArcs h = has p kStoreInArcs" "storesAllOutArcs h = has p kStoreOutArcs"
    "storesFirstTailOutArcs h = has p kStoreFirstTailOutArcs"
    using F(9-11) stores_props [of h ?s] by (simp_all add: h_def)
qed

theorem empty_cfg_correct_witness:
  "empty ((sample_fsm kStoreOutArcs NoSymbol)\<lparr>fsmChecked := True\<rparr>) = Inr True"
proof -
  let ?h = "(sample_fsm kStoreOutArcs NoSymbol)\<lparr>fsmChecked := True\<rparr>"
  have p: "has kStoreOutArcs kStoreAnyArcs" "\<not> has kStoreOutArcs kGraph" by (simp_all add: flag_simps)
  note F = sample_cfg_facts [OF p]
  have ax: "forAxioms ?h = [0]"
    using F(5,7,8) by (simp add: forAxioms_def hasTerminalLabel_def upt_rec)
  have "s = 0" if "derivable ?h s" for s
    using that by induction (use ax F(3) in \<open>auto simp: new_arc_fsm_def\<close>)
  then have "\<not> derivable ?h (final_state ?h)" using F(6) by auto
  moreover have "numStates ?h \<le> kNoState" "\<forall>x \<in> ran (arc_heap ?h). arc_tails x \<noteq> []"
    "\<not> (storesFirstTailOutArcs ?h \<and> storesAllOutArcs ?h)" "final_state ?h = kNoState \<or> final_state ?h < numStates ?h"
    by (simp_all add: F kNoState_def flag_simps new_arc_fsm_def)
  ultimately show ?thesis using empty_cfg_correct [of ?h] F(1,2) by simp
qed

end
