(* ===== verification/Hg_Union.thy ===== *)
theory Hg_Union
  imports Hg_Reach
begin

text \<open>
  The union of hypergraphs (\<open>sdl/Hypergraph/Union.hpp\<close>): the arcs of the source are copied into
  the target with new states, made when an arc first mentions them, and epsilon arcs join the two
  start and the two final states. The map from old to new states and the target are the explicit
  state of \<open>ArcCopyFct\<close>.

  The theorems give the weighted language of the union, and show that it is not the language of the
  union when the target shares states between equal labels.
\<close>

section \<open>Copying the arcs of the source\<close>

definition unionStateId :: "'w hg \<Rightarrow> StateId \<Rightarrow> (StateId \<rightharpoonup> StateId) \<Rightarrow> 'w hg
    \<Rightarrow> StateId \<times> (StateId \<rightharpoonup> StateId) \<times> 'w hg" where
  "unionStateId source oldState m target =
     (let (m1, r, new) = map_update m oldState 0
      in if new then let (s, target1) = addStatePair (labelPair source oldState) target
                     in (s, m1(oldState \<mapsto> s), target1)
         else (r, m1, target))"

fun unionStateIds :: "'w hg \<Rightarrow> StateId list \<Rightarrow> (StateId \<rightharpoonup> StateId) \<Rightarrow> 'w hg
    \<Rightarrow> StateId list \<times> (StateId \<rightharpoonup> StateId) \<times> 'w hg" where
  "unionStateIds source [] m target = ([], m, target)"
| "unionStateIds source (t # ts) m target =
     (let (r, m1, g1) = unionStateId source t m target; (rs, m2, g2) = unionStateIds source ts m1 g1
      in (r # rs, m2, g2))"

definition ArcCopyFct :: "'w hg \<Rightarrow> ArcHandle \<Rightarrow> (StateId \<rightharpoonup> StateId) \<times> 'w hg \<Rightarrow> (StateId \<rightharpoonup> StateId) \<times> 'w hg" where
  "ArcCopyFct source a = (\<lambda>(m, target).
     (let from' = arcAt source a;
          (head, m1, g1) = unionStateId source (arc_head from') m target;
          (tails, m2, g2) = unionStateIds source (arc_tails from') m1 g1
      in (m2, snd (addNewArc (from'\<lparr>arc_head := head, arc_tails := tails\<rparr>) g2))))"

text \<open>\<open>old2new_[s]\<close> makes the state 0 for a state that no arc mentioned.\<close>

definition existingStateId :: "(StateId \<rightharpoonup> StateId) \<Rightarrow> StateId \<Rightarrow> StateId" where
  "existingStateId m s = (if s = kNoState then s else map_getOrElse m s 0)"

section \<open>The unions\<close>

definition unionEps :: "'w \<Rightarrow> StateId \<Rightarrow> StateId \<Rightarrow> StateId \<Rightarrow> 'w hg \<Rightarrow> 'w hg" where
  "unionEps one head tail label h = snd (addNewArc (new_arc_head_tail2 one head tail label) h)"

text \<open>\<open>fstUnion\<close> after the arcs were copied: the label state, then the two new states.\<close>

definition joinStartFinal :: "'w \<Rightarrow> StateId \<Rightarrow> StateId \<Rightarrow> StateId \<Rightarrow> StateId \<Rightarrow> 'w hg \<Rightarrow> 'w hg" where
  "joinStartFinal one origStart copiedStart origFinal copiedFinal target =
     (let (epsLabelState, g2) = addStateSym EPSILON_ID target;
          (unionStartState, g3) = addState g2;
          g4 = unionEps one origStart unionStartState epsLabelState g3;
          g5 = unionEps one copiedStart unionStartState epsLabelState g4;
          g6 = setStart unionStartState g5;
          (unionFinalState, g7) = addState g6;
          g8 = unionEps one unionFinalState origFinal epsLabelState g7;
          g9 = unionEps one unionFinalState copiedFinal epsLabelState g8
      in setFinal unionFinalState g9)"

definition fstUnion :: "'w \<Rightarrow> 'w hg \<Rightarrow> 'w hg \<Rightarrow> sdl_error + 'w hg" where
  "fstUnion one sourceFst target =
     bindR (empty sourceFst) (\<lambda>e.
       if e then Inr target
       else let origStartState = start_state target; origFinalState = final_state target
            in bindR (forArcs sourceFst) (\<lambda>as.
                 let (m, g) = fold (ArcCopyFct sourceFst) as (Map.empty, target)
                 in Inr (joinStartFinal one origStartState (existingStateId m (start_state sourceFst))
                           origFinalState (existingStateId m (final_state sourceFst)) g)))"

definition hgUnion :: "'w \<Rightarrow> 'w hg \<Rightarrow> 'w hg \<Rightarrow> sdl_error + 'w hg" where
  "hgUnion one sourceHg target =
     (if isFsm sourceHg \<and> isFsm target then fstUnion one sourceHg target
      else bindR (forArcs sourceHg) (\<lambda>as.
             let (m, g1) = fold (ArcCopyFct sourceHg) as (Map.empty, target);
                 (epsLabelState, g2) = addStateSym EPSILON_ID g1;
                 (superfinal, g3) = addState g2;
                 g4 = unionEps one superfinal (final_state g3) epsLabelState g3;
                 g5 = unionEps one superfinal (existingStateId m (final_state sourceHg)) epsLabelState g4
             in Inr (setFinal superfinal g5)))"

definition unionGraphEpsilon :: "'w \<Rightarrow> StateId \<Rightarrow> bool \<Rightarrow> StateId \<Rightarrow> StateId \<Rightarrow> 'w hg \<Rightarrow> 'w hg" where
  "unionGraphEpsilon one epsLabelState graphOutput from' to' h =
     (if graphOutput then snd (addArcGraphEpsilon from' to' one h)
      else snd (addArcFsm from' to' epsLabelState one h))"

definition multiUnionStep :: "'w \<Rightarrow> StateId \<Rightarrow> bool \<Rightarrow> StateId \<Rightarrow> StateId \<Rightarrow> 'w hg \<Rightarrow> 'w hg \<Rightarrow> sdl_error + 'w hg" where
  "multiUnionStep one epsLabelState graphOutput start final graph union0 =
     bindR (forArcs graph) (\<lambda>as.
       let (m, g1) = fold (ArcCopyFct graph) as (Map.empty, union0);
           g2 = unionGraphEpsilon one epsLabelState graphOutput start (existingStateId m (start_state graph)) g1
       in Inr (unionGraphEpsilon one epsLabelState graphOutput (existingStateId m (final_state graph)) final g2))"

fun multiUnionRest :: "'w \<Rightarrow> StateId \<Rightarrow> bool \<Rightarrow> StateId \<Rightarrow> StateId \<Rightarrow> 'w hg list \<Rightarrow> 'w hg \<Rightarrow> sdl_error + 'w hg" where
  "multiUnionRest one eps graphOutput start final [] union0 = Inr union0"
| "multiUnionRest one eps graphOutput start final (g # gs) union0 =
     bindR (multiUnionStep one eps graphOutput start final g union0)
       (\<lambda>u. multiUnionRest one eps graphOutput start final gs u)"

text \<open>The result is a null pointer for an empty list of graphs.\<close>

definition graphMultiUnion :: "'w \<Rightarrow> bool \<Rightarrow> 'w hg list \<Rightarrow> sdl_error + 'w hg option" where
  "graphMultiUnion one graphOutput graphs =
     (case graphs of [] \<Rightarrow> Inr None
      | union0 # rest \<Rightarrow>
          (let start0 = start_state union0; final0 = final_state union0;
               (epsLabelState, u1) = (if graphOutput then (kNoState, union0) else addStateSym EPSILON_ID union0);
               (start, u2) = addState u1;
               (final, u3) = addState u2;
               u4 = setFinal final (setStart start u3);
               u5 = unionGraphEpsilon one epsLabelState graphOutput start start0 u4;
               u6 = unionGraphEpsilon one epsLabelState graphOutput final0 final u5
           in bindR (multiUnionRest one epsLabelState graphOutput start final rest u6) (\<lambda>u. Inr (Some u))))"

section \<open>What the copier guarantees\<close>

text \<open>
  The states made so far: the map is injective, its values are new states that carry the labels of
  their sources, and the old states are as before.
\<close>

definition old_new :: "'w hg \<Rightarrow> 'w hg \<Rightarrow> (StateId \<rightharpoonup> StateId) \<Rightarrow> 'w hg \<Rightarrow> bool" where
  "old_new src t m g \<longleftrightarrow>
     (\<forall>s r. m s = Some r \<longrightarrow> s < numStates src \<and> numStates t \<le> r \<and> r < numStates g \<and> labelPair g r = labelPair src s)"

definition same_states :: "'w hg \<Rightarrow> 'w hg \<Rightarrow> bool" where
  "same_states t g \<longleftrightarrow>
     (\<forall>s < numStates t. labelPair g s = labelPair t s) \<and> numStates t \<le> numStates g \<and>
     storesInArcs g = storesInArcs t \<and> storesFirstTailOutArcs g = storesFirstTailOutArcs t \<and>
     storesAllOutArcs g = storesAllOutArcs t \<and> \<not> has (props g) kCanonicalLex"

definition copy_states_inv :: "'w hg \<Rightarrow> 'w hg \<Rightarrow> (StateId \<rightharpoonup> StateId) \<Rightarrow> 'w hg \<Rightarrow> bool" where
  "copy_states_inv src t m g \<longleftrightarrow>
     labels_wf g \<and> same_states t g \<and> old_new src t m g \<and> inj_on m (dom m) \<and>
     numStates g = numStates t + card (dom m) \<and> start_state g = start_state t \<and> final_state g = final_state t"

lemma old_newD:
  "old_new src t m g \<Longrightarrow> m s = Some r \<Longrightarrow>
     s < numStates src \<and> numStates t \<le> r \<and> r < numStates g \<and> labelPair g r = labelPair src s"
  by (simp add: old_new_def)

lemma effective_labelPair [simp]: "effectiveOutput (labelPair h s) = snd (labelPair h s)"
  by (simp add: effectiveOutput_def labelPair_def outputLabelOrElse_def Let_def)

text \<open>Adding a state leaves the arcs and everything about the old states.\<close>

definition grows :: "'w hg \<Rightarrow> 'w hg \<Rightarrow> bool" where
  "grows h h' \<longleftrightarrow> labels_wf h' \<and> numStates h' = Suc (numStates h) \<and> same_states h h' \<and>
     arc_heap h' = arc_heap h \<and> next_arc h' = next_arc h \<and> inArcsPerState h' = inArcsPerState h \<and>
     outArcsPerState h' = outArcsPerState h \<and> start_state h' = start_state h \<and> final_state h' = final_state h"

lemma growsD:
  assumes "grows h h'"
  shows "labels_wf h'" "numStates h' = Suc (numStates h)" "same_states h h'" "arc_heap h' = arc_heap h"
    "next_arc h' = next_arc h" "inArcsPerState h' = inArcsPerState h" "outArcsPerState h' = outArcsPerState h"
    "start_state h' = start_state h" "final_state h' = final_state h"
  using assms by (simp_all add: grows_def)

lemma grows_arcs:
  assumes "grows h h'" and "hg_wf h"
  shows "hg_wf h' \<and> hg_arcs h' = hg_arcs h"
proof -
  note G = growsD [OF assms(1)]
  have S: "storesInArcs h' = storesInArcs h" "storesFirstTailOutArcs h' = storesFirstTailOutArcs h"
    "storesAllOutArcs h' = storesAllOutArcs h"
    using G(3) by (simp_all add: same_states_def)
  have "arcs_bounded h'" using hg_wfD(1) [OF assms(2)] G(2,4,5) S by (force simp: arcs_bounded_def)
  then show ?thesis using assms(2) G S hg_arcs_heap [of h' h]
    by (simp add: hg_wf_def storesArcs_cases storesOutArcs_cases)
qed

lemma props_notify [simp]: "props (notifyLabelImpl h) = props h AND NOT kSortedStates"
  by (simp add: notifyLabelImpl_def)

lemma fields_notify_arcs [simp]:
  "inArcsPerState (notifyLabelImpl h) = inArcsPerState h" "outArcsPerState (notifyLabelImpl h) = outArcsPerState h"
  "arc_heap (notifyLabelImpl h) = arc_heap h" "next_arc (notifyLabelImpl h) = next_arc h"
  by (simp_all add: notifyLabelImpl_def)

lemma grows_addState:
  assumes "labels_wf h" and "numStates h < kNoState" and "\<not> has (props h) kCanonicalLex"
  shows "grows h (addState0 h)"
  using assms
  by (auto simp: grows_def same_states_def addState0_def labels_wf_def labelPair_def outputLabelOrElse_def
      inputLabel_def Let_def storesInArcs_def storesFirstTailOutArcs_def storesAllOutArcs_def flag_simps)

lemma same_states_trans: "same_states a b \<Longrightarrow> same_states b c \<Longrightarrow> same_states a c"
  by (auto simp: same_states_def)

lemma labelPair_cong:
  "inputLabel g s = inputLabel h t \<Longrightarrow> outputLabelBare g s = outputLabelBare h t \<Longrightarrow> labelPair g s = labelPair h t"
  by (simp add: outputLabel_labelPair outputLabel_bare)

lemma grows_addStatePair:
  assumes "labels_wf h" and "numStates h < kNoState" and "\<not> has (props h) kCanonicalLex"
    and "addStatePair io h = (s, h')"
  shows "grows h h' \<and> s = numStates h \<and> labelPair h' s = (fst io, effectiveOutput io)"
proof -
  have a: "addStateNoCanonical (fst io) (snd io) h = (s, h')" using assms(3,4) by (simp add: addStatePair_def)
  note L = addStateNoCanonical_labels [OF assms(1,2) a] and W = addStateNoCanonical_lengths [OF assms(1,2) a]
  have h': "h' = setNewStateLabels s (fst io) (snd io) (addState0 h)"
    using a by (auto simp: addStateNoCanonical_def Let_def)
  have l: "\<forall>t < numStates h. labelPair h' t = labelPair h t"
    using L by (auto intro!: labelPair_cong)
  have P: "props h' = props h AND NOT kSortedStates \<or> props h' = (props h AND NOT kSortedStates) OR kHasOutputLabels"
    by (auto simp: h' setNewStateLabels_def setInputLabelImpl_def setOutputLabelImpl_def addState0_def Let_def)
  have F: "arc_heap h' = arc_heap h" "next_arc h' = next_arc h" "inArcsPerState h' = inArcsPerState h"
    "outArcsPerState h' = outArcsPerState h" "start_state h' = start_state h" "final_state h' = final_state h"
    by (simp_all add: h' setNewStateLabels_def setInputLabelImpl_def setOutputLabelImpl_def addState0_def Let_def)
  have "same_states h h'"
    using P assms(3) l L by (auto simp: same_states_def storesInArcs_def storesFirstTailOutArcs_def
        storesAllOutArcs_def flag_simps)
  then show ?thesis using L W F by (auto simp: grows_def outputLabel_labelPair)
qed

lemma grows_addStateSym:
  assumes "labels_wf h" and "numStates h < kNoState" and "\<not> has (props h) kCanonicalLex"
    and "addStateSym i h = (s, h')"
  shows "grows h h' \<and> s = numStates h \<and> labelPair h' s = (i, i)"
proof -
  have e: "s = numStates h" "h' = addState0 (setInputLabelImpl s i h)"
    using assms(3,4) by (auto simp: addStateSym_def addStateImpl_def Let_def)
  have u: "outputLabelBare h s = NoSymbol" using labels_wf_unlabelled [OF assms(1)] e(1) by simp
  have r: "inputLabel h' t = (if t = s then i else inputLabel h t)" "outputLabelBare h' t = outputLabelBare h t" for t
    using assms(2) e by (simp_all add: inputLabel_setInputLabelImpl)
  have ln: "length (setLabel (iLabelForState h) s i) \<le> Suc (numStates h)"
    using length_setLabel [of s "iLabelForState h" i] assms(1,2) e(1) by (simp add: labels_wf_def)
  have P: "props h' = props h AND NOT kSortedStates"
    by (simp add: e addState0_def setInputLabelImpl_def)
  have "same_states h h'"
    using P assms(2,3) r e(1) by (auto simp: same_states_def storesInArcs_def storesFirstTailOutArcs_def
        storesAllOutArcs_def flag_simps e(2) setInputLabelImpl_def intro!: labelPair_cong)
  then show ?thesis using assms(1,2) e ln r u
    by (auto simp: grows_def labels_wf_def addState0_def setInputLabelImpl_def outputLabel_labelPair outputLabel_bare isValid_iff_neq)
qed

lemma copy_inv_grows:
  assumes I: "copy_states_inv src t m g" and G: "grows g g'" and k: "m k = None" and s: "k < numStates src"
    and l: "labelPair g' (numStates g) = labelPair src k"
  shows "copy_states_inv src t (m(k \<mapsto> numStates g)) g'"
proof -
  note D = growsD [OF G]
  have ss: "same_states t g" and on: "old_new src t m g" and inj: "inj_on m (dom m)"
    and c: "numStates g = numStates t + card (dom m)" and sf: "start_state g = start_state t" "final_state g = final_state t"
    using I by (simp_all add: copy_states_inv_def)
  have fin: "finite (dom m)"
    by (rule finite_subset [of _ "{..<numStates src}"]) (use on in \<open>auto simp: old_new_def\<close>)
  have kd: "k \<notin> dom m" using k by auto
  have on': "old_new src t (m(k \<mapsto> numStates g)) g'"
    unfolding old_new_def
  proof (intro allI impI)
    fix x r assume x: "(m(k \<mapsto> numStates g)) x = Some r"
    show "x < numStates src \<and> numStates t \<le> r \<and> r < numStates g' \<and> labelPair g' r = labelPair src x"
    proof (cases "x = k")
      case True
      then show ?thesis using x s l D(2) c by simp
    next
      case False
      then show ?thesis using x old_newD [OF on, of x r] D(2,3) by (auto simp: same_states_def)
    qed
  qed
  have "inj_on (m(k \<mapsto> numStates g)) (dom (m(k \<mapsto> numStates g)))"
    using inj old_newD [OF on] by (fastforce simp: inj_on_def dom_def)
  moreover have "card (dom (m(k \<mapsto> numStates g))) = Suc (card (dom m))" using fin kd by simp
  ultimately show ?thesis using same_states_trans [OF ss D(3)] on' D(1,2,8,9) c sf
    by (simp add: copy_states_inv_def)
qed

lemma copy_inv_room:
  assumes I: "copy_states_inv src t m g" and k: "m k = None" "k < numStates src"
    and n: "numStates t + numStates src \<le> N"
  shows "numStates g < N"
proof -
  have "dom m \<subseteq> {..<numStates src} - {k}" using I k by (auto simp: copy_states_inv_def old_new_def)
  then have "card (dom m) \<le> card ({..<numStates src} - {k})" by (intro card_mono) simp_all
  then show ?thesis using I k n by (simp add: copy_states_inv_def)
qed

definition same_arcs :: "'w hg \<Rightarrow> 'w hg \<Rightarrow> bool" where
  "same_arcs g g' \<longleftrightarrow> (hg_wf g \<longrightarrow> hg_wf g' \<and> hg_arcs g' = hg_arcs g)"

lemma unionStateId_inv:
  assumes I: "copy_states_inv src t m g" and k: "k < numStates src"
    and n: "numStates t + numStates src \<le> kNoState" and r: "unionStateId src k m g = (r, m', g')"
  shows "copy_states_inv src t m' g' \<and> m' k = Some r \<and> m \<subseteq>\<^sub>m m' \<and> same_arcs g g'"
proof (cases "m k")
  case None
  obtain s g1 where a: "addStatePair (labelPair src k) g = (s, g1)" by force
  have c: "labels_wf g" "\<not> has (props g) kCanonicalLex" using I by (simp_all add: copy_states_inv_def same_states_def)
  note G = grows_addStatePair [OF c(1) copy_inv_room [OF I None k n] c(2) a]
  have e: "r = s" "m' = m(k \<mapsto> s)" "g' = g1"
    using r None a by (auto simp: unionStateId_def map_update_def)
  have "copy_states_inv src t (m(k \<mapsto> numStates g)) g1"
    by (rule copy_inv_grows [OF I _ None k]) (use G in auto)
  then show ?thesis using G None grows_arcs [of g g1] by (auto simp: e same_arcs_def map_le_def)
next
  case (Some s)
  then show ?thesis using I r by (simp add: unionStateId_def map_update_def same_arcs_def)
qed

lemma unionStateIds_inv:
  assumes "copy_states_inv src t m g" and "\<forall>k \<in> set ks. k < numStates src"
    and "numStates t + numStates src \<le> kNoState" and "unionStateIds src ks m g = (rs, m', g')"
  shows "copy_states_inv src t m' g' \<and> map Some rs = map m' ks \<and> m \<subseteq>\<^sub>m m' \<and> same_arcs g g'"
  using assms
proof (induction ks arbitrary: m g rs m' g')
  case Nil
  then show ?case by (simp add: same_arcs_def)
next
  case (Cons k ks)
  obtain r m1 g1 where a: "unionStateId src k m g = (r, m1, g1)" by (metis prod_cases3)
  obtain ss m2 g2 where b: "unionStateIds src ks m1 g1 = (ss, m2, g2)" by (metis prod_cases3)
  have e: "rs = r # ss" "m' = m2" "g' = g2" using Cons.prems(4) a b by simp_all
  note A = unionStateId_inv [OF Cons.prems(1) _ Cons.prems(3) a]
  have A': "copy_states_inv src t m1 g1 \<and> m1 k = Some r \<and> m \<subseteq>\<^sub>m m1 \<and> same_arcs g g1" using A Cons.prems(2) by simp
  have B: "copy_states_inv src t m2 g2 \<and> map Some ss = map m2 ks \<and> m1 \<subseteq>\<^sub>m m2 \<and> same_arcs g1 g2"
    by (rule Cons.IH) (use A' Cons.prems b in simp_all)
  then have "m2 k = Some r" using A' by (metis domI map_le_def)
  then show ?case using A' B e by (auto simp: same_arcs_def intro: map_le_trans)
qed

text \<open>A whole arc, and then all arcs.\<close>

definition renArc :: "(StateId \<rightharpoonup> StateId) \<Rightarrow> 'w arc \<Rightarrow> 'w arc" where
  "renArc m x = x\<lparr>arc_head := the (m (arc_head x)), arc_tails := map (\<lambda>s. the (m s)) (arc_tails x)\<rparr>"

definition arc_known :: "(StateId \<rightharpoonup> StateId) \<Rightarrow> 'w arc \<Rightarrow> bool" where
  "arc_known m x \<longleftrightarrow> arc_head x \<in> dom m \<and> set (arc_tails x) \<subseteq> dom m"

lemma renArc_mono: "arc_known m x \<Longrightarrow> m \<subseteq>\<^sub>m m' \<Longrightarrow> renArc m' x = renArc m x \<and> arc_known m' x"
  by (force simp: arc_known_def renArc_def map_le_def dom_def subset_iff)

definition copy_inv :: "'w hg \<Rightarrow> 'w hg \<Rightarrow> 'w arc list \<Rightarrow> (StateId \<rightharpoonup> StateId) \<Rightarrow> 'w hg \<Rightarrow> bool" where
  "copy_inv src t xs m g \<longleftrightarrow>
     copy_states_inv src t m g \<and> hg_wf g \<and> hg_arcs g = hg_arcs t + mset (map (renArc m) xs) \<and>
     (\<forall>x \<in> set xs. arc_known m x)"

lemma copy_inv_add:
  assumes S: "copy_states_inv src t m g" and I: "hg_wf g" "\<forall>x \<in> set xs. arc_known m x"
    and a: "hg_arcs g = hg_arcs t + mset (map (renArc m) xs)"
    and x: "arc_known m x" "storesInArcs t \<or> arc_tails x \<noteq> []"
  shows "copy_inv src t (xs @ [x]) m (snd (addNewArc (renArc m x) g))"
proof -
  let ?g = "snd (addNewArc (renArc m x) g)"
  note F = addNewArc_frame [of "renArc m x" g]
  have on: "old_new src t m g" "storesInArcs g = storesInArcs t"
    using S by (simp_all add: copy_states_inv_def same_states_def)
  have b: "the (m s) < numStates g" if "s \<in> dom m" for s using that old_newD [OF on(1)] by auto
  have W: "hg_wf ?g \<and> hg_arcs ?g = add_mset (renArc m x) (hg_arcs g)"
    by (rule addNewArc_step [OF I(1)]) (use x b on(2) in \<open>auto simp: renArc_def arc_known_def\<close>)
  have l: "labelPair ?g = labelPair g"
    using F by (simp add: fun_eq_iff labelPair_def outputLabelOrElse_def inputLabel_def)
  have P: "has (props ?g) kCanonicalLex = has (props g) kCanonicalLex"
    by (simp add: F flag_simps)
  have "copy_states_inv src t m ?g"
    using S unfolding copy_states_inv_def labels_wf_def same_states_def old_new_def P unfolding F l by blast
  then show ?thesis using W I(2) a x(1) by (simp add: copy_inv_def)
qed

lemma ArcCopyFct_inv:
  assumes I: "copy_inv src t xs m g" and x: "x = arcAt src a" and k: "arc_head x < numStates src" "\<forall>k \<in> set (arc_tails x). k < numStates src"
    and n: "numStates t + numStates src \<le> kNoState" and ne: "storesInArcs t \<or> arc_tails x \<noteq> []"
    and r: "ArcCopyFct src a (m, g) = (m', g')"
  shows "copy_inv src t (xs @ [x]) m' g'"
proof -
  obtain h m1 g1 where a: "unionStateId src (arc_head x) m g = (h, m1, g1)" by (metis prod_cases3)
  obtain ts m2 g2 where b: "unionStateIds src (arc_tails x) m1 g1 = (ts, m2, g2)" by (metis prod_cases3)
  have e: "m' = m2" "g' = snd (addNewArc (x\<lparr>arc_head := h, arc_tails := ts\<rparr>) g2)"
    using r a b by (simp_all add: ArcCopyFct_def x Let_def)
  have J: "copy_states_inv src t m g" "hg_wf g" "hg_arcs g = hg_arcs t + mset (map (renArc m) xs)"
    "\<forall>x \<in> set xs. arc_known m x" using I by (simp_all add: copy_inv_def)
  note A = unionStateId_inv [OF J(1) k(1) n a]
  then have B: "copy_states_inv src t m2 g2 \<and> map Some ts = map m2 (arc_tails x) \<and> m1 \<subseteq>\<^sub>m m2 \<and> same_arcs g1 g2"
    using unionStateIds_inv [OF _ k(2) n b] by blast
  have le: "m \<subseteq>\<^sub>m m2" and hd: "m2 (arc_head x) = Some h"
    using A B by (auto intro: map_le_trans) (metis domI map_le_def)
  have ts: "ts = map (\<lambda>s. the (m2 s)) (arc_tails x)"
    using B by (metis (no_types, lifting) list.map_comp list.map_cong0 list.map_ident option.sel comp_apply)
  have "set (map Some ts) = set (map m2 (arc_tails x))" using B by simp
  then have kn: "arc_known m2 x" using hd by (auto simp: arc_known_def)
  have ren: "x\<lparr>arc_head := h, arc_tails := ts\<rparr> = renArc m2 x" by (simp add: renArc_def hd ts)
  have mono: "\<forall>x \<in> set xs. arc_known m2 x \<and> renArc m2 x = renArc m x" using J(4) le renArc_mono by blast
  then have "map (renArc m2) xs = map (renArc m) xs" by simp
  then have "mset (map (renArc m2) xs) = mset (map (renArc m) xs)" by (rule arg_cong)
  then have "hg_arcs g2 = hg_arcs t + mset (map (renArc m2) xs)" "hg_wf g2"
    using A B J by (simp_all add: same_arcs_def del: mset_map)
  then show ?thesis unfolding e ren using copy_inv_add [of src t m2 g2 xs x] B mono kn ne by blast
qed

lemma fold_ArcCopyFct_inv:
  assumes I: "copy_inv src t xs m g" and "\<forall>x \<in> set (map (arcAt src) as). arc_head x < numStates src \<and>
      (\<forall>k \<in> set (arc_tails x). k < numStates src) \<and> (storesInArcs t \<or> arc_tails x \<noteq> [])"
    and n: "numStates t + numStates src \<le> kNoState"
    and "fold (ArcCopyFct src) as (m, g) = (m', g')"
  shows "copy_inv src t (xs @ map (arcAt src) as) m' g'"
  using assms(1,2,4)
proof (induction as arbitrary: xs m g)
  case (Cons a as)
  obtain m1 g1 where r: "ArcCopyFct src a (m, g) = (m1, g1)" by force
  have "copy_inv src t (xs @ [arcAt src a]) m1 g1"
    using ArcCopyFct_inv [OF Cons.prems(1) refl _ _ n _ r] Cons.prems(2) by simp
  from Cons.IH [OF this] Cons.prems(2,3) r show ?case by simp
qed simp

lemma copy_all:
  assumes wf: "hg_wf src" "hg_wf t" "labels_wf t" "\<not> has (props t) kCanonicalLex"
    and as: "arc_enum src as" and n: "numStates t + numStates src \<le> kNoState"
    and ne: "storesInArcs t \<or> (\<forall>x \<in> ran (arc_heap src). arc_tails x \<noteq> [])"
    and r: "fold (ArcCopyFct src) as (Map.empty, t) = (m, g)"
  shows "copy_states_inv src t m g" "hg_wf g" "hg_arcs g = hg_arcs t + image_mset (renArc m) (hg_arcs src)"
    "\<forall>x \<in># hg_arcs src. arc_known m x"
proof -
  have m: "mset (map (arcAt src) as) = hg_arcs src" by (rule hg_arcs_enum [OF wf(1) as])
  then have s: "set (map (arcAt src) as) = set_mset (hg_arcs src)" by (metis set_mset_mset)
  have 0: "copy_inv src t [] Map.empty t"
    using wf n by (simp add: copy_inv_def copy_states_inv_def same_states_def old_new_def)
  have b: "\<forall>x \<in> set (map (arcAt src) as). arc_head x < numStates src \<and>
      (\<forall>k \<in> set (arc_tails x). k < numStates src) \<and> (storesInArcs t \<or> arc_tails x \<noteq> [])"
    unfolding s using wf_arc [OF wf(1)] ne by (auto simp: set_mset_hg_arcs [OF wf(1)])
  have I: "copy_inv src t (map (arcAt src) as) m g"
    using fold_ArcCopyFct_inv [OF 0 b n r] by simp
  then show "copy_states_inv src t m g" "hg_wf g" by (simp_all add: copy_inv_def)
  show "hg_arcs g = hg_arcs t + image_mset (renArc m) (hg_arcs src)"
    using I by (simp add: copy_inv_def flip: m) (simp add: multiset.map_comp comp_def)
  show "\<forall>x \<in># hg_arcs src. arc_known m x" unfolding s [symmetric] using I by (simp add: copy_inv_def)
qed

section \<open>Paths of the union\<close>

text \<open>
  A path that leaves a region: until it leaves it stays on the arcs of the region, and its last arc
  is an exit, when nothing follows the exits.
\<close>

lemma path_exit:
  assumes "path B q p r" and "q \<in> S" and "r \<notin> S"
    and "\<And>x s. x \<in> B \<Longrightarrow> s \<in> S \<Longrightarrow> isFsmFrom x s \<Longrightarrow> x \<in> A \<and> arc_head x \<in> S \<or> x \<in> X \<and> arc_head x = r"
    and "\<And>x. x \<in> B \<Longrightarrow> \<not> isFsmFrom x r"
  shows "\<exists>p0 e s. p = p0 @ [e] \<and> path A q p0 s \<and> e \<in> X \<and> isFsmFrom e s"
  using assms(1,2)
proof (induction p arbitrary: q)
  case Nil
  then show ?case using assms(3) by simp
next
  case (Cons x p)
  then have x: "x \<in> B" "isFsmFrom x q" "path B (arc_head x) p r" by simp_all
  from assms(4) [OF x(1) Cons.prems(2) x(2)] show ?case
  proof
    assume A: "x \<in> A \<and> arc_head x \<in> S"
    obtain p0 e s where "p = p0 @ [e]" "path A (arc_head x) p0 s" "e \<in> X" "isFsmFrom e s"
      using Cons.IH [OF x(3)] A by blast
    then show ?thesis using A x(2) by (intro exI [of _ "x # p0"] exI [of _ e] exI [of _ s]) simp
  next
    assume X: "x \<in> X \<and> arc_head x = r"
    then have "p = []" using x(3) assms(5) by (cases p) auto
    then show ?thesis using X x(2) by (intro exI [of _ "[]"] exI [of _ x] exI [of _ q]) simp
  qed
qed

abbreviation eps_arc :: "'w \<Rightarrow> StateId \<Rightarrow> StateId \<Rightarrow> StateId \<Rightarrow> 'w arc" where
  "eps_arc one label from' to' \<equiv> new_arc_head_tail2 one to' from' label"

lemma eps_arc_fields [simp]:
  "arc_head (new_arc_head_tail2 one h a l) = h" "arc_tails (new_arc_head_tail2 one h a l) = [a, l]"
  "arc_weight (new_arc_head_tail2 one h a l) = one"
  "isFsmFrom (new_arc_head_tail2 one h a l) s \<longleftrightarrow> s = a"
  "fsmSymbolState (new_arc_head_tail2 one h a l) = l"
  by (auto simp: new_arc_head_tail2_def isFsmFrom_def fsmSymbolState_def)

definition in_region :: "StateId set \<Rightarrow> 'w arc set \<Rightarrow> bool" where
  "in_region S A \<longleftrightarrow> (\<forall>x \<in> A. arc_head x \<in> S \<and> (\<forall>s. isFsmFrom x s \<longrightarrow> s \<in> S))"

text \<open>Two disjoint regions between a new start and a new final state.\<close>

lemma path_two_regions:
  assumes S: "in_region S1 A1" "in_region S2 A2" "S1 \<inter> S2 = {}"
    and u: "us \<notin> S1 \<union> S2" "uf \<notin> S1 \<union> S2" "us \<noteq> uf"
    and s: "s1 \<in> S1" "s2 \<in> S2" "f1 \<in> S1" "f2 \<in> S2"
    and B: "B = A1 \<union> A2 \<union> {eps_arc one l us s1, eps_arc one l us s2, eps_arc one l f1 uf, eps_arc one l f2 uf}"
  shows "path B us p uf \<longleftrightarrow>
    (\<exists>q. p = eps_arc one l us s1 # q @ [eps_arc one l f1 uf] \<and> path A1 s1 q f1) \<or>
    (\<exists>q. p = eps_arc one l us s2 # q @ [eps_arc one l f2 uf] \<and> path A2 s2 q f2)"
proof
  assume P: "path B us p uf"
  have D: "s \<notin> S2" if "s \<in> S1" for s using that S(3) by blast
  have no: "\<not> isFsmFrom x uf" if "x \<in> B" for x
    using that S u s by (auto simp: B in_region_def)
  obtain x p' where p: "p = x # p'" using P u(3) by (cases p) auto
  then have x: "x \<in> B" "isFsmFrom x us" "path B (arc_head x) p' uf" using P by simp_all
  then have "x = eps_arc one l us s1 \<or> x = eps_arc one l us s2"
    using S(1,2) u s by (auto simp: B in_region_def)
  then show "(\<exists>q. p = eps_arc one l us s1 # q @ [eps_arc one l f1 uf] \<and> path A1 s1 q f1) \<or>
    (\<exists>q. p = eps_arc one l us s2 # q @ [eps_arc one l f2 uf] \<and> path A2 s2 q f2)"
  proof
    assume 1: "x = eps_arc one l us s1"
    have "\<exists>p0 e s. p' = p0 @ [e] \<and> path A1 s1 p0 s \<and> e \<in> {eps_arc one l f1 uf} \<and> isFsmFrom e s"
      by (rule path_exit [of B s1 p' uf S1 A1])
        (use x 1 S u s no D in \<open>auto simp: B in_region_def\<close>)
    then show ?thesis using p 1 by auto
  next
    assume 2: "x = eps_arc one l us s2"
    have "\<exists>p0 e s. p' = p0 @ [e] \<and> path A2 s2 p0 s \<and> e \<in> {eps_arc one l f2 uf} \<and> isFsmFrom e s"
      by (rule path_exit [of B s2 p' uf S2 A2])
        (use x 2 S(1,2) u s no D in \<open>auto simp: B in_region_def\<close>)
    then show ?thesis using p 2 by auto
  qed
next
  have m: "path A1 s1 q f1 \<Longrightarrow> path B s1 q f1" "path A2 s2 q f2 \<Longrightarrow> path B s2 q f2" for q
    by (erule path_mono [rotated], simp add: B subset_iff)+
  have eB: "eps_arc one l us s1 \<in> B" "eps_arc one l us s2 \<in> B" "eps_arc one l f1 uf \<in> B"
    "eps_arc one l f2 uf \<in> B" by (simp_all add: B)
  show "path B us p uf" if
    "(\<exists>q. p = eps_arc one l us s1 # q @ [eps_arc one l f1 uf] \<and> path A1 s1 q f1) \<or>
     (\<exists>q. p = eps_arc one l us s2 # q @ [eps_arc one l f2 uf] \<and> path A2 s2 q f2)"
    using that by (elim disjE exE conjE) (simp_all add: m eB)
qed

text \<open>The renamed arcs have the renamed paths.\<close>

lemma path_renArc:
  assumes inj: "inj_on m (dom m)" and k: "\<forall>x \<in> A. arc_known m x" "\<forall>x \<in> A. arc_tails x \<noteq> []" and q: "q \<in> dom m" "r \<in> dom m"
  shows "path (renArc m ` A) (the (m q)) p (the (m r)) \<longleftrightarrow> (\<exists>p'. p = map (renArc m) p' \<and> path A q p' r)"
proof
  have i: "s = s'" if "s \<in> dom m" "s' \<in> dom m" "the (m s) = the (m s')" for s s'
    using that inj by (auto simp: inj_on_def dom_def)
  assume P: "path (renArc m ` A) (the (m q)) p (the (m r))"
  have "\<exists>p' r'. p = map (renArc m) p' \<and> the (m r) = the (m r') \<and> r' \<in> dom m \<and> path A q p' r'"
  proof (rule path_preimage [where g = "\<lambda>s. the (m s)" and S = "dom m" and f = "renArc m", OF _ _ P q(1)])
    show "isFsmFrom x y" if x: "x \<in> A" "isFsmFrom (renArc m x) (the (m y))" "y \<in> dom m" for x y
    proof -
      have n: "arc_tails x \<noteq> []" using k x(1) by blast
      then have "arc_tails x ! 0 \<in> set (arc_tails x)" by simp
      then have "arc_tails x ! 0 \<in> dom m" using k(1) x(1) unfolding arc_known_def by blast
      then show ?thesis using x i n by (auto simp: isFsmFrom_def renArc_def)
    qed
  qed (use k in \<open>auto simp: renArc_def arc_known_def\<close>)
  then show "\<exists>p'. p = map (renArc m) p' \<and> path A q p' r" using i q by blast
next
  assume "\<exists>p'. p = map (renArc m) p' \<and> path A q p' r"
  then obtain p' where p': "p = map (renArc m) p'" "path A q p' r" by blast
  have "path (renArc m ` A) (the (m q)) (map (renArc m) p') (the (m r))"
    by (rule path_image [OF _ p'(2), where f = "renArc m" and g = "\<lambda>s. the (m s)"])
      (auto simp: renArc_def isFsmFrom_def)
  then show "path (renArc m ` A) (the (m q)) p (the (m r))" using p'(1) by simp
qed

section \<open>What the unions build\<close>

lemma unionEps_step:
  assumes "hg_wf h" and "{to', from', l} \<subseteq> {..<numStates h}"
  shows "hg_wf (unionEps one to' from' l h) \<and>
    hg_arcs (unionEps one to' from' l h) = add_mset (eps_arc one l from' to') (hg_arcs h) \<and>
    numStates (unionEps one to' from' l h) = numStates h \<and>
    start_state (unionEps one to' from' l h) = start_state h \<and>
    final_state (unionEps one to' from' l h) = final_state h \<and>
    labelPair (unionEps one to' from' l h) = labelPair h \<and>
    (labels_wf h \<longrightarrow> labels_wf (unionEps one to' from' l h)) \<and>
    same_states h (unionEps one to' from' l h) = (\<not> has (props h) kCanonicalLex)"
proof -
  note F = addNewArc_frame [of "eps_arc one l from' to'" h]
  have "hg_wf (snd (addNewArc (eps_arc one l from' to') h)) \<and>
      hg_arcs (snd (addNewArc (eps_arc one l from' to') h)) = add_mset (eps_arc one l from' to') (hg_arcs h)"
    by (rule addNewArc_step [OF assms(1)]) (use assms(2) in simp_all)
  moreover have "labelPair (snd (addNewArc (eps_arc one l from' to') h)) = labelPair h"
    using F by (simp add: fun_eq_iff labelPair_def outputLabelOrElse_def inputLabel_def)
  ultimately show ?thesis
    using F by (simp add: unionEps_def labels_wf_def same_states_def flag_simps)
qed

lemma fields_setStart [simp]:
  "hg_wf (setStart s h) = hg_wf h" "hg_wf (setFinal s h) = hg_wf h"
  "hg_arcs (setStart s h) = hg_arcs h" "hg_arcs (setFinal s h) = hg_arcs h"
  "numStates (setStart s h) = numStates h" "numStates (setFinal s h) = numStates h"
  "labelPair (setStart s h) = labelPair h" "labelPair (setFinal s h) = labelPair h"
  "labels_wf (setStart s h) = labels_wf h" "labels_wf (setFinal s h) = labels_wf h"
  "props (setStart s h) = props h" "props (setFinal s h) = props h"
  "start_state (setStart s h) = s" "start_state (setFinal s h) = start_state h"
  "final_state (setFinal s h) = s" "final_state (setStart s h) = final_state h"
  using hg_wf_same [of "setStart s h" h] hg_wf_same [of "setFinal s h" h]
    stores_props [of "setStart s h" h] stores_props [of "setFinal s h" h]
    hg_arcs_heap [of "setStart s h" h] hg_arcs_heap [of "setFinal s h" h]
  by (simp_all add: setStart_def setFinal_def labels_wf_def fun_eq_iff labelPair_def outputLabelOrElse_def
      inputLabel_def)

lemma joinStartFinal_facts:
  fixes one :: "'w" and g :: "'w hg"
  assumes w: "hg_wf g" "labels_wf g" "\<not> has (props g) kCanonicalLex"
    and n: "numStates g + 3 \<le> kNoState" and b: "{s1, s2, f1, f2} \<subseteq> {..<numStates g}"
  defines "u \<equiv> joinStartFinal one s1 s2 f1 f2 g" and "N \<equiv> numStates g"
  shows "hg_wf u \<and> numStates u = N + 3 \<and> start_state u = N + 1 \<and> final_state u = N + 2 \<and>
    hg_arcs u = hg_arcs g + {#eps_arc one N (N + 1) s1, eps_arc one N (N + 1) s2,
                              eps_arc one N f1 (N + 2), eps_arc one N f2 (N + 2)#} \<and>
    labelPair u N = (EPSILON_ID, EPSILON_ID) \<and> (\<forall>s < N. labelPair u s = labelPair g s) \<and> labels_wf u"
proof -
  obtain e g2 where a: "addStateSym EPSILON_ID g = (e, g2)" by force
  have G2: "grows g g2" "e = N" "labelPair g2 N = (EPSILON_ID, EPSILON_ID)"
    using grows_addStateSym [OF w(2) _ w(3) a] n by (auto simp: N_def)
  note D2 = growsD [OF G2(1)] and W2 = grows_arcs [OF G2(1) w(1)]
  have c2: "\<not> has (props g2) kCanonicalLex" using D2(3) by (simp add: same_states_def)
  let ?g3 = "addState0 g2"
  have G3: "grows g2 ?g3" by (rule grows_addState) (use D2 n c2 in simp_all)
  note D3 = growsD [OF G3] and W3 = grows_arcs [OF G3 W2 [THEN conjunct1]]
  have c3: "\<not> has (props ?g3) kCanonicalLex" using D3(3) by (simp add: same_states_def)
  let ?g4 = "unionEps one s1 (N + 1) e ?g3"
  note E4 = unionEps_step [of ?g3 s1 "N + 1" e one]
  let ?g5 = "unionEps one s2 (N + 1) e ?g4"
  note E5 = unionEps_step [of ?g4 s2 "N + 1" e one]
  let ?g6 = "setStart (N + 1) ?g5"
  have E5': "hg_wf ?g5" "hg_arcs ?g5 = hg_arcs g + {#eps_arc one N (N + 1) s1, eps_arc one N (N + 1) s2#}"
    "numStates ?g5 = N + 2" "labelPair ?g5 = labelPair ?g3" "labels_wf ?g5" "\<not> has (props ?g5) kCanonicalLex"
    using E4 E5 W2 W3 D2 D3 G2(2) b c3 by (auto simp: N_def same_states_def)
  let ?g7 = "addState0 ?g6"
  have G7: "grows ?g6 ?g7" by (rule grows_addState) (use E5' n in \<open>simp_all add: N_def\<close>)
  note D7 = growsD [OF G7] and W7 = grows_arcs [OF G7]
  let ?g8 = "unionEps one (N + 2) f1 e ?g7"
  note E8 = unionEps_step [of ?g7 "N + 2" f1 e one]
  let ?g9 = "unionEps one (N + 2) f2 e ?g8"
  note E9 = unionEps_step [of ?g8 "N + 2" f2 e one]
  have E9': "hg_wf ?g9" "hg_arcs ?g9 = hg_arcs ?g5 + {#eps_arc one N f1 (N + 2), eps_arc one N f2 (N + 2)#}"
    "numStates ?g9 = N + 3" "labelPair ?g9 = labelPair ?g7" "labels_wf ?g9" "start_state ?g9 = N + 1"
    using E8 E9 W7 D7 E5' G2(2) b by (auto simp: N_def)
  have u: "u = setFinal (N + 2) ?g9"
    using G2(2) E5'(3) D2(2) by (simp add: u_def joinStartFinal_def a addState_def Let_def N_def)
  have l: "labelPair ?g7 s = labelPair ?g3 s" if "s < N + 2" for s
    using D7(3) E5' that by (simp add: same_states_def)
  have l3: "labelPair ?g3 s = labelPair g2 s" if "s < N + 1" for s
    using D3(3) D2(2) that by (simp add: same_states_def N_def)
  have l2: "labelPair g2 s = labelPair g s" if "s < N" for s
    using D2(3) that by (simp add: same_states_def N_def)
  show ?thesis using E9' E5' l l3 l2 G2(3) by (simp add: u)
qed

section \<open>The language of the union\<close>

abbreviation eps_letter :: "'w \<Rightarrow> LabelPair \<times> 'w" where
  "eps_letter one \<equiv> ((EPSILON_ID, EPSILON_ID), one)"

lemma path_word:
  assumes "path A q p r" and "\<And>x. x \<in> A \<Longrightarrow> arc_letter g (f x) = arc_letter h x"
  shows "map (arc_letter g) (map f p) = map (arc_letter h) p"
  using path_arcs [OF assms(1)] assms(2) by auto

lemma isFsm_arcs:
  assumes "hg_wf h" and "\<not> fsmChecked h" and "isFsm h"
  shows "fsm_arcs h"
  using isFsm_iff [OF assms(1,2)] assms(3) by (fastforce simp: fsm_arcs_def isFsmArc_def ran_def Let_def)

lemma symbol_bound:
  assumes "hg_wf h" and "fsm_arcs h" and "x \<in># hg_arcs h"
  shows "arc_tails x \<noteq> []" "fsmSymbolState x < numStates h" "fsmSymbolState x \<in> set (arc_tails x)"
    "isFsmFrom x s \<Longrightarrow> s \<in> set (arc_tails x)" "length (arc_tails x) = 2"
proof -
  have l: "length (arc_tails x) = 2" using assms by (auto simp: fsm_arcs_def set_mset_hg_arcs)
  then obtain a b where t: "arc_tails x = [a, b]" by (auto simp: numeral_2_eq_2 length_Suc_conv)
  show "arc_tails x \<noteq> []" "fsmSymbolState x \<in> set (arc_tails x)" "isFsmFrom x s \<Longrightarrow> s \<in> set (arc_tails x)"
    "length (arc_tails x) = 2"
    by (auto simp: t fsmSymbolState_def isFsmFrom_def)
  then show "fsmSymbolState x < numStates h" using wf_arc(2) [OF assms(1,3)] by blast
qed

lemma region_below:
  assumes "hg_wf h" and "fsm_arcs h"
  shows "in_region {..<numStates h} (set_mset (hg_arcs h))"
  using wf_arc(1,2) [OF assms(1)] symbol_bound(4) [OF assms] unfolding in_region_def by blast

lemma region_renamed:
  assumes on: "old_new src t m g" and k: "\<forall>x \<in> A. arc_known m x" "\<forall>x \<in> A. arc_tails x \<noteq> []"
  shows "in_region {numStates t..<numStates g} (renArc m ` A)"
proof -
  have r: "the (m s) \<in> {numStates t..<numStates g}" if "s \<in> dom m" for s using that old_newD [OF on] by auto
  have "isFsmFrom (renArc m x) s \<Longrightarrow> s \<in> {numStates t..<numStates g}" if x: "x \<in> A" for x s
  proof -
    assume f: "isFsmFrom (renArc m x) s"
    have "arc_tails x ! 0 \<in> set (arc_tails x)" using k(2) x by simp
    then have "arc_tails x ! 0 \<in> dom m" using k(1) x unfolding arc_known_def by blast
    then show "s \<in> {numStates t..<numStates g}" using f r k(2) x by (auto simp: isFsmFrom_def renArc_def)
  qed
  then show ?thesis using r k(1) by (auto simp: in_region_def renArc_def arc_known_def)
qed

lemma lang_join:
  fixes one :: "'w" and t :: "'w hg"
  assumes wf: "hg_wf src" "hg_wf t" and fsm: "fsm_arcs src" "fsm_arcs t"
    and S: "copy_states_inv src t m g" and w: "hg_wf g" and a: "hg_arcs g = hg_arcs t + image_mset (renArc m) (hg_arcs src)"
    and k: "\<forall>x \<in># hg_arcs src. arc_known m x" and n: "numStates g + 3 \<le> kNoState"
    and b: "start_state t < numStates t" "final_state t < numStates t" "start_state src \<in> dom m" "final_state src \<in> dom m"
      "start_state src \<noteq> kNoState"
  defines "u \<equiv> joinStartFinal one (start_state t) (the (m (start_state src))) (final_state t) (the (m (final_state src))) g"
  shows "hg_wf u \<and> lang u = (\<lambda>v. eps_letter one # v @ [eps_letter one]) ` (lang t \<union> lang src)"
proof -
  let ?A1 = "set_mset (hg_arcs t)" and ?As = "set_mset (hg_arcs src)" and ?N = "numStates g"
  let ?A2 = "renArc m ` ?As"
  have on: "old_new src t m g" and inj: "inj_on m (dom m)" and ss: "same_states t g" and lw: "labels_wf g"
    using S by (simp_all add: copy_states_inv_def)
  have r: "the (m s) \<in> {numStates t..<?N}" if "s \<in> dom m" for s using that old_newD [OF on] by auto
  have le: "numStates t \<le> ?N" and c: "\<not> has (props g) kCanonicalLex" using ss by (simp_all add: same_states_def)
  note ne = symbol_bound(1) [OF wf(1) fsm(1)]
  have bd: "{start_state t, the (m (start_state src)), final_state t, the (m (final_state src))} \<subseteq> {..<?N}"
    using b r le by fastforce
  note U = joinStartFinal_facts [OF w lw c n bd, of one, folded u_def]
  have B: "set_mset (hg_arcs u) = ?A1 \<union> ?A2 \<union>
    {eps_arc one ?N (?N + 1) (start_state t), eps_arc one ?N (?N + 1) (the (m (start_state src))),
     eps_arc one ?N (final_state t) (?N + 2), eps_arc one ?N (the (m (final_state src))) (?N + 2)}"
    using U a by auto
  have sf: "start_state u = ?N + 1" "final_state u = ?N + 2" using U by blast+
  have P: "path (set_mset (hg_arcs u)) (start_state u) p (final_state u) \<longleftrightarrow>
    (\<exists>q. p = eps_arc one ?N (?N + 1) (start_state t) # q @ [eps_arc one ?N (final_state t) (?N + 2)] \<and>
         path ?A1 (start_state t) q (final_state t)) \<or>
    (\<exists>q. p = eps_arc one ?N (?N + 1) (the (m (start_state src))) # q @ [eps_arc one ?N (the (m (final_state src))) (?N + 2)] \<and>
         path ?A2 (the (m (start_state src))) q (the (m (final_state src))))" for p
    unfolding sf by (rule path_two_regions [OF region_below [OF wf(2) fsm(2)] region_renamed [OF on k] _ _ _ _ _ _ _ _ B])
      (use b r le ne in auto)
  have l1: "arc_letter u x = arc_letter t x" if "x \<in> ?A1" for x
    using symbol_bound(2) [OF wf(2) fsm(2) that] U ss le by (simp add: arc_letter_def same_states_def)
  have l2: "arc_letter u (renArc m x) = arc_letter src x" if x: "x \<in> ?As" for x
  proof -
    have "fsmSymbolState x \<in> set (arc_tails x)" by (rule symbol_bound(3) [OF wf(1) fsm(1) x])
    then obtain s where s: "m (fsmSymbolState x) = Some s" using k x unfolding arc_known_def by blast
    have "fsmSymbolState (renArc m x) = s"
      using symbol_bound(5) [OF wf(1) fsm(1) x] s by (simp add: renArc_def fsmSymbolState_def)
    then show ?thesis using old_newD [OF on s] U by (simp add: arc_letter_def renArc_def)
  qed
  have leps: "arc_letter u (eps_arc one ?N q s) = eps_letter one" for q s using U by (simp add: arc_letter_def)
  have nk: "start_state u \<noteq> kNoState" "start_state t \<noteq> kNoState" using U n b(1) le by auto
  have "v \<in> lang u \<longleftrightarrow> v \<in> (\<lambda>v. eps_letter one # v @ [eps_letter one]) ` (lang t \<union> lang src)" for v
  proof
    assume "v \<in> lang u"
    then obtain p where p: "v = map (arc_letter u) p" "path (set_mset (hg_arcs u)) (start_state u) p (final_state u)"
      by (auto simp: lang_def)
    from p(2)[unfolded P] show "v \<in> (\<lambda>v. eps_letter one # v @ [eps_letter one]) ` (lang t \<union> lang src)"
    proof (elim disjE exE conjE)
      fix q assume q: "p = eps_arc one ?N (?N + 1) (start_state t) # q @ [eps_arc one ?N (final_state t) (?N + 2)]"
        "path ?A1 (start_state t) q (final_state t)"
      have "map (arc_letter u) q = map (arc_letter t) q" using path_word [OF q(2), of u "\<lambda>x. x"] l1 by simp
      then have "v = eps_letter one # map (arc_letter t) q @ [eps_letter one]" using p(1) q(1) by (simp add: leps)
      then show ?thesis using langI [OF q(2) nk(2)] by blast
    next
      fix q assume q: "p = eps_arc one ?N (?N + 1) (the (m (start_state src))) # q @ [eps_arc one ?N (the (m (final_state src))) (?N + 2)]"
        "path ?A2 (the (m (start_state src))) q (the (m (final_state src)))"
      obtain q' where q': "q = map (renArc m) q'" "path ?As (start_state src) q' (final_state src)"
        using q(2) path_renArc [OF inj k _ b(3,4)] ne by blast
      have "map (arc_letter u) q = map (arc_letter src) q'" using path_word [OF q'(2), of u "renArc m"] l2 q'(1) by simp
      then have "v = eps_letter one # map (arc_letter src) q' @ [eps_letter one]" using p(1) q(1) by (simp add: leps)
      then show ?thesis using langI [OF q'(2) b(5)] by blast
    qed
  next
    assume "v \<in> (\<lambda>v. eps_letter one # v @ [eps_letter one]) ` (lang t \<union> lang src)"
    then consider (t) q where "v = eps_letter one # map (arc_letter t) q @ [eps_letter one]" "path ?A1 (start_state t) q (final_state t)"
      | (s) q where "v = eps_letter one # map (arc_letter src) q @ [eps_letter one]" "path ?As (start_state src) q (final_state src)"
      by (auto simp: lang_def)
    then show "v \<in> lang u"
    proof cases
      case t
      have "map (arc_letter u) q = map (arc_letter t) q" using path_word [OF t(2), of u "\<lambda>x. x"] l1 by simp
      moreover have "path (set_mset (hg_arcs u)) (start_state u)
          (eps_arc one ?N (?N + 1) (start_state t) # q @ [eps_arc one ?N (final_state t) (?N + 2)]) (final_state u)"
        unfolding P using t(2) by blast
      from langI [OF this nk(1)] show ?thesis using t(1) calculation by (simp add: leps)
    next
      case s
      have "map (arc_letter u) (map (renArc m) q) = map (arc_letter src) q"
        using path_word [OF s(2), of u "renArc m"] l2 by simp
      moreover have "path ?A2 (the (m (start_state src))) (map (renArc m) q) (the (m (final_state src)))"
        using s(2) path_renArc [OF inj k _ b(3,4)] ne by blast
      then have "path (set_mset (hg_arcs u)) (start_state u) (eps_arc one ?N (?N + 1) (the (m (start_state src))) #
          map (renArc m) q @ [eps_arc one ?N (the (m (final_state src))) (?N + 2)]) (final_state u)"
        unfolding P by blast
      from langI [OF this nk(1)] show ?thesis using s(1) calculation by (simp add: leps del: map_map)
    qed
  qed
  then show ?thesis using U by blast
qed

section \<open>Properties\<close>

lemma fstUnion_spec:
  assumes wf: "hg_wf src" "hg_wf t" "labels_wf t" and c: "\<not> has (props t) kCanonicalLex"
    and fsm: "isFsm src" "\<not> fsmChecked src" "fsm_arcs t"
    and st: "storesInArcs src \<or> storesFirstTailOutArcs src"
    and n: "numStates t + numStates src + 3 \<le> kNoState"
    and b: "start_state t < numStates t" "final_state t < numStates t"
      "start_state src < numStates src" "final_state src < numStates src"
    and sf: "start_state src \<noteq> final_state src" and nt: "\<not> hasTerminalLabel src (start_state src)"
  shows "\<exists>u. fstUnion one src t = Inr u \<and> hg_wf u \<and>
    lang u = (if lang src = {} then lang t
              else (\<lambda>v. eps_letter one # v @ [eps_letter one]) ` (lang t \<union> lang src))"
proof -
  have e: "empty src = Inr (lang src = {})" by (rule empty_fsm_iff [OF wf(1) _ fsm(1,2)]) (use b n nt in auto)
  show ?thesis
  proof (cases "lang src = {}")
    case True
    then show ?thesis using e wf(2) by (simp add: fstUnion_def bindR_def)
  next
    case False
    note fa = isFsm_arcs [OF wf(1) fsm(2,1)]
    obtain as where as: "forArcs src = Inr as" "arc_enum src as" using forArcs_enum [OF wf(1)] st by blast
    obtain m g where r: "fold (ArcCopyFct src) as (Map.empty, t) = (m, g)" by force
    have ne: "\<forall>x \<in> ran (arc_heap src). arc_tails x \<noteq> []" using fa by (auto simp: fsm_arcs_def)
    note C = copy_all [OF wf c as(2) _ _ r]
    have C': "copy_states_inv src t m g" "hg_wf g" "hg_arcs g = hg_arcs t + image_mset (renArc m) (hg_arcs src)"
      "\<forall>x \<in># hg_arcs src. arc_known m x" using C n ne by auto
    obtain p where p: "path (set_mset (hg_arcs src)) (start_state src) p (final_state src)"
      using False by (auto simp: lang_def)
    obtain x where x: "x \<in># hg_arcs src" "isFsmFrom x (start_state src)" using path_first [OF p sf] by blast
    obtain y where y: "y \<in># hg_arcs src" "arc_head y = final_state src" using path_last [OF p sf] by blast
    have d: "start_state src \<in> dom m" "final_state src \<in> dom m"
      using C'(4) x y symbol_bound(4) [OF wf(1) fa x] by (auto simp: arc_known_def)
    have k: "start_state src \<noteq> kNoState" "final_state src \<noteq> kNoState" using b n by auto
    then have ex: "existingStateId m (start_state src) = the (m (start_state src))"
      "existingStateId m (final_state src) = the (m (final_state src))"
      using d by (auto simp: existingStateId_def map_getOrElse_def)
    have "dom m \<subseteq> {..<numStates src}" using C'(1) by (auto simp: copy_states_inv_def old_new_def)
    then have "card (dom m) \<le> numStates src" using card_mono [of "{..<numStates src}"] by simp
    then have n3: "numStates g + 3 \<le> kNoState" using C'(1) n by (simp add: copy_states_inv_def)
    have "fstUnion one src t = Inr (joinStartFinal one (start_state t) (the (m (start_state src)))
        (final_state t) (the (m (final_state src))) g)"
      unfolding fstUnion_def e as(1) bindR_def by (simp add: False r ex)
    then show ?thesis using lang_join [OF wf(1,2) fa fsm(3) C' n3 b(1,2) d k(1), of one] False by simp
  qed
qed

text \<open>
  Property C34 (union of fsms). \<open>fstUnion\<close> into a target that does not share label states, from a source fsm that stores its in-arcs or
  its first-tail out-arcs and whose start state is not its final state and has no label, always
  returns. A source with the empty language leaves the language of the target as it is; otherwise the result is a well-formed
  fsm whose language is that of both, every word between two epsilons of weight one.
\<close>

theorem fstUnion_language:
  assumes "hg_wf src" and "hg_wf t" and "labels_wf t" and "\<not> has (props t) kCanonicalLex"
    and "isFsm src" and "\<not> fsmChecked src" and "fsm_arcs t"
    and "storesInArcs src \<or> storesFirstTailOutArcs src"
    and "numStates t + numStates src + 3 \<le> kNoState"
    and "start_state t < numStates t" and "final_state t < numStates t"
    and "start_state src < numStates src" and "final_state src < numStates src"
    and "start_state src \<noteq> final_state src" and "\<not> hasTerminalLabel src (start_state src)"
  shows "\<exists>u. fstUnion one src t = Inr u \<and> hg_wf u \<and>
    lang u = (if lang src = {} then lang t
              else (\<lambda>v. eps_letter one # v @ [eps_letter one]) ` (lang t \<union> lang src))"
  by (rule fstUnion_spec [OF assms])

lemma sample_start_unlabelled: "has p kStoreAnyArcs \<Longrightarrow> \<not> hasTerminalLabel (sample_fsm p label) 0"
  by (simp add: hasTerminalLabel_def inputLabel_def getOrElse_def sample_fsm_facts(7))

lemma sample_labels_wf: "has p kStoreAnyArcs \<Longrightarrow> labels_wf (sample_fsm p label)"
  by (simp add: labels_wf_def sample_fsm_facts kNoState_def)

lemma sample_props: "has p k \<Longrightarrow> p = kStoreInArcs \<Longrightarrow> props (sample_fsm p label) = kStoreInArcs"
  by (simp add: sample_fsm_def addNewArc_frame sample_states_def hg_zero_def storesOutArcs_def flag_simps)

theorem fstUnion_language_witness:
  "\<exists>u. fstUnion 1 (sample_fsm kStoreInArcs (terminal 6)) (sample_fsm kStoreInArcs (terminal 5)) = Inr u \<and>
     [eps_letter 1, ((terminal 6, terminal 6), 7), eps_letter 1] \<in> lang u"
proof -
  have p: "has kStoreInArcs kStoreAnyArcs" by (simp add: flag_simps)
  have t: "isTerminal (terminal 5)" "isTerminal (terminal 6)" by (simp_all add: sym_op_defs sym_consts)
  note F = sample_fsm_facts [OF p] and L = sample_fsm_lang [OF p t(1)] sample_fsm_lang [OF p t(2)]
  note A = sample_hg_arcs [OF p]
  let ?s = "sample_fsm kStoreInArcs (terminal 6)" and ?t = "sample_fsm kStoreInArcs (terminal 5)"
  have st: "storesInArcs ?s \<or> storesFirstTailOutArcs ?s" by (simp add: F flag_simps)
  have c: "\<not> has (props ?t) kCanonicalLex" by (simp add: sample_props [OF p] flag_simps)
  have n: "numStates ?t + numStates ?s + 3 \<le> kNoState" by (simp add: F kNoState_def)
  have b: "start_state ?t < numStates ?t" "final_state ?t < numStates ?t"
    "start_state ?s < numStates ?s" "final_state ?s < numStates ?s" "start_state ?s \<noteq> final_state ?s"
    "\<not> hasTerminalLabel ?s (start_state ?s)"
    by (simp_all add: F A sample_start_unlabelled [OF p])
  have "lang ?s \<noteq> {}" using L(7) by blast
  moreover obtain u where "fstUnion 1 ?s ?t = Inr u" "lang u = (if lang ?s = {} then lang ?t
              else (\<lambda>v. eps_letter 1 # v @ [eps_letter 1]) ` (lang ?t \<union> lang ?s))"
    using fstUnion_language [OF F(1) F(1) sample_labels_wf [OF p] c sample_fsm_isFsm [OF p t(2)] F(3) L(2) st n b, of 1]
    by blast
  ultimately show ?thesis using L(7) by (intro exI [of _ u]) (auto intro!: image_eqI)
qed

section \<open>Targets that share label states\<close>

text \<open>Under \<open>kCanonicalLex\<close> the label cache decides the new state of every copied state.\<close>

definition shared_inv :: "'w hg \<Rightarrow> (StateId \<rightharpoonup> StateId) \<Rightarrow> 'w hg \<Rightarrow> bool" where
  "shared_inv src m g \<longleftrightarrow> has (props g) kCanonicalLex \<and> (\<forall>s r. m s = Some r \<longrightarrow> lstate g (labelPair src s) = Some r)"

lemma addStatePair_canonical_lookup:
  assumes "has (props h) kCanonicalLex" and "addStatePair io h = (s, h')"
  shows "has (props h') kCanonicalLex" "lstate h' io = Some s" "lstate h \<subseteq>\<^sub>m lstate h'"
proof -
  show "has (props h') kCanonicalLex" "lstate h' io = Some s"
    using assms by (auto simp: addStatePair_def addStateNoCanonical_def setNewStateLabels_def addState0_def Let_def
        setInputLabelImpl_def setOutputLabelImpl_def flag_simps split: option.splits if_splits)
  show "lstate h \<subseteq>\<^sub>m lstate h'"
    using assms by (auto simp: addStatePair_def addStateNoCanonical_def addState0_def Let_def map_le_def
        split: option.splits)
qed

lemma shared_unionStateId:
  assumes "shared_inv src m g" and "unionStateId src k m g = (r, m', g')"
  shows "shared_inv src m' g' \<and> dom m \<subseteq> dom m' \<and> k \<in> dom m'"
proof (cases "m k")
  case None
  obtain s g1 where a: "addStatePair (labelPair src k) g = (s, g1)" by force
  have "m' = m(k \<mapsto> s)" "g' = g1" using assms(2) None a by (auto simp: unionStateId_def map_update_def)
  moreover have c: "has (props g) kCanonicalLex" using assms(1) by (simp add: shared_inv_def)
  note L = addStatePair_canonical_lookup [OF c a]
  have "lstate g io = Some r \<Longrightarrow> lstate g1 io = Some r" for io r using L(3) by (metis domI map_le_def)
  ultimately show ?thesis using assms(1) L(1,2) by (auto simp: shared_inv_def)
next
  case (Some s)
  then show ?thesis using assms by (auto simp: unionStateId_def map_update_def)
qed

lemma shared_unionStateIds:
  assumes "shared_inv src m g" and "unionStateIds src ks m g = (rs, m', g')"
  shows "shared_inv src m' g' \<and> dom m \<union> set ks \<subseteq> dom m'"
  using assms
proof (induction ks arbitrary: m g rs m' g')
  case (Cons k ks)
  obtain r m1 g1 where a: "unionStateId src k m g = (r, m1, g1)" by (metis prod_cases3)
  obtain ss m2 g2 where b: "unionStateIds src ks m1 g1 = (ss, m2, g2)" by (metis prod_cases3)
  have "m' = m2" "g' = g2" using Cons.prems(2) a b by simp_all
  then show ?case using shared_unionStateId [OF Cons.prems(1) a] Cons.IH [OF _ b] by auto
qed simp

lemma shared_ArcCopyFct:
  assumes "shared_inv src m g" and "ArcCopyFct src a (m, g) = (m', g')"
  shows "shared_inv src m' g' \<and> dom m \<union> insert (arc_head (arcAt src a)) (set (arc_tails (arcAt src a))) \<subseteq> dom m'"
proof -
  obtain h m1 g1 where a: "unionStateId src (arc_head (arcAt src a)) m g = (h, m1, g1)" by (metis prod_cases3)
  obtain ts m2 g2 where b: "unionStateIds src (arc_tails (arcAt src a)) m1 g1 = (ts, m2, g2)" by (metis prod_cases3)
  have e: "m' = m2" "g' = snd (addNewArc ((arcAt src a)\<lparr>arc_head := h, arc_tails := ts\<rparr>) g2)"
    using assms(2) a b by (simp_all add: ArcCopyFct_def Let_def)
  have B: "shared_inv src m2 g2 \<and> dom m1 \<union> set (arc_tails (arcAt src a)) \<subseteq> dom m2"
    using shared_unionStateId [OF assms(1) a] shared_unionStateIds [OF _ b] by blast
  have "shared_inv src m2 (snd (addNewArc y g2))" for y
    using B by (simp add: shared_inv_def addNewArc_frame flag_simps)
  moreover have "dom m \<subseteq> dom m1 \<and> arc_head (arcAt src a) \<in> dom m1"
    using shared_unionStateId [OF assms(1) a] by blast
  ultimately show ?thesis using B unfolding e by blast
qed

lemma shared_fold:
  assumes "shared_inv src m g" and "fold (ArcCopyFct src) as (m, g) = (m', g')"
  shows "shared_inv src m' g' \<and> dom m \<union> (\<Union>a \<in> set as. insert (arc_head (arcAt src a)) (set (arc_tails (arcAt src a)))) \<subseteq> dom m'"
  using assms
proof (induction as arbitrary: m g)
  case (Cons a as)
  obtain m1 g1 where r: "ArcCopyFct src a (m, g) = (m1, g1)" by force
  note A = shared_ArcCopyFct [OF Cons.prems(1) r]
  have "fold (ArcCopyFct src) as (m1, g1) = (m', g')" using Cons.prems(2) r by simp
  from Cons.IH [OF A [THEN conjunct1] this] A show ?case unfolding list.set UN_insert by blast
qed simp

text \<open>
  Union into a target that shares label states. Under \<open>kCanonicalLex\<close>,
  \<open>ArcCopyFct\<close> maps all source states with the same label pair to one state, the unlabelled ones
  included: when start and final of the source lie on arcs and carry no label, the copy has one state
  for both, and the union accepts what the source does not.
\<close>

theorem union_merges_states:
  assumes "has (props t) kCanonicalLex" and "fold (ArcCopyFct src) as (Map.empty, t) = (m, g)"
    and "a \<in> set as" and "start_state src \<in> set (arc_tails (arcAt src a))"
    and "b \<in> set as" and "final_state src = arc_head (arcAt src b)"
    and "start_state src \<noteq> kNoState" and "final_state src \<noteq> kNoState"
    and "labelPair src (start_state src) = labelPair src (final_state src)"
  shows "existingStateId m (start_state src) = existingStateId m (final_state src)"
proof -
  have "shared_inv src Map.empty t" using assms(1) by (simp add: shared_inv_def)
  from shared_fold [OF this assms(2)]
  have S: "shared_inv src m g" "start_state src \<in> dom m" "final_state src \<in> dom m" using assms(3-6) by auto
  then obtain x y where "m (start_state src) = Some x" "m (final_state src) = Some y" by auto
  moreover from this have "x = y" using S(1) assms(9) unfolding shared_inv_def by (metis option.inject)
  ultimately show ?thesis using assms(7,8) by (simp add: existingStateId_def map_getOrElse_def)
qed

theorem union_merges_states_witness:
  "let src = sample_fsm kStoreInArcs (terminal 6);
       m = fst (fold (ArcCopyFct src) [0] (Map.empty, sample_fsm (kStoreInArcs OR kCanonicalLex) (terminal 5)))
   in existingStateId m 0 = existingStateId m 1"
proof -
  let ?src = "sample_fsm kStoreInArcs (terminal 6)" and ?t = "sample_fsm (kStoreInArcs OR kCanonicalLex) (terminal 5)"
  have p: "has kStoreInArcs kStoreAnyArcs" by (simp add: flag_simps)
  note F = sample_fsm_facts [OF p, of "terminal 6"] and A = sample_hg_arcs [OF p, of "terminal 6"]
  have c: "has (props ?t) kCanonicalLex"
    by (simp add: sample_fsm_def addNewArc_frame sample_states_def hg_zero_def flag_simps)
  have x: "arcAt ?src 0 = new_arc_fsm 0 2 7 1" by (simp add: arcAt_def F(2))
  have l: "labelPair ?src 0 = labelPair ?src 1"
    by (simp add: labelPair_def outputLabelOrElse_def inputLabel_def F(7,8) getOrElse_def Let_def)
  obtain m g where r: "fold (ArcCopyFct ?src) [0] (Map.empty, ?t) = (m, g)" by force
  have "existingStateId m (start_state ?src) = existingStateId m (final_state ?src)"
    by (rule union_merges_states [OF c r, where a = 0 and b = 0]) (simp_all add: x F A l new_arc_fsm_def kNoState_def)
  then show ?thesis using r by (simp add: F A Let_def)
qed

end
