(* ===== verification/Weights.thy ===== *)
theory Weights
  imports Hyp_Prelude Complex_Main
begin

text \<open>
  The weights of arcs (\<open>sdl/Hypergraph/Weight.hpp\<close>, \<open>WeightUtil.hpp\<close>, \<open>sdl/Util/LogMath.hpp\<close>):
  Boolean, Viterbi and log weights. The value of a float weight is a negated logarithm or a cost; it
  is modelled by a real number or infinity, so that rounding is not part of the model and neither are
  the values that a float weight reaches only through undefined operations (NaN, minus infinity).

  \<open>weight_semiring\<close> is the interface that the algorithms on weights rely on; every weight of the
  source is an instance.
\<close>

section \<open>The interface\<close>

record 'w weight_ops =
  w_plus :: "'w \<Rightarrow> 'w \<Rightarrow> 'w"
  w_times :: "'w \<Rightarrow> 'w \<Rightarrow> 'w"
  w_zero :: 'w
  w_one :: 'w

locale weight_semiring =
  fixes W :: "'w weight_ops"
  assumes plus_assoc: "w_plus W (w_plus W a b) c = w_plus W a (w_plus W b c)"
    and plus_comm: "w_plus W a b = w_plus W b a"
    and plus_zero: "w_plus W (w_zero W) a = a"
    and times_assoc: "w_times W (w_times W a b) c = w_times W a (w_times W b c)"
    and one_times: "w_times W (w_one W) a = a"
    and times_one: "w_times W a (w_one W) = a"
    and zero_times: "w_times W (w_zero W) a = w_zero W"
    and times_zero: "w_times W a (w_zero W) = w_zero W"
    and distrib_left: "w_times W a (w_plus W b c) = w_plus W (w_times W a b) (w_times W a c)"
    and distrib_right: "w_times W (w_plus W a b) c = w_plus W (w_times W a c) (w_times W b c)"
begin

lemma plus_zero_right: "w_plus W a (w_zero W) = a"
  by (subst plus_comm) (rule plus_zero)

lemma plus_left_comm: "w_plus W a (w_plus W b c) = w_plus W b (w_plus W a c)"
  by (metis plus_assoc plus_comm)

lemmas plus_ac = plus_assoc plus_comm plus_left_comm

text \<open>The weight of a sequence, and the sum of a list.\<close>

lemma foldr_times_append:
  "foldr (w_times W) (xs @ ys) (w_one W) = w_times W (foldr (w_times W) xs (w_one W)) (foldr (w_times W) ys (w_one W))"
  by (induction xs) (simp_all add: one_times times_assoc)

lemma fold_plus: "fold (\<lambda>x s. w_plus W s x) xs a = w_plus W a (foldr (w_plus W) xs (w_zero W))"
  by (induction xs arbitrary: a) (simp_all add: plus_zero_right plus_assoc)

lemma fold_times: "fold (\<lambda>x s. w_times W s x) xs a = w_times W a (foldr (w_times W) xs (w_one W))"
  by (induction xs arbitrary: a) (simp_all add: times_one times_assoc)

lemma sum_append:
  "foldr (w_plus W) (xs @ ys) (w_zero W) = w_plus W (foldr (w_plus W) xs (w_zero W)) (foldr (w_plus W) ys (w_zero W))"
  by (induction xs) (simp_all add: plus_zero plus_assoc)

lemma sum_times_left:
  "w_times W a (foldr (w_plus W) xs (w_zero W)) = foldr (w_plus W) (map (w_times W a) xs) (w_zero W)"
  by (induction xs) (simp_all add: times_zero distrib_left)

lemma sum_times_right:
  "w_times W (foldr (w_plus W) xs (w_zero W)) a = foldr (w_plus W) (map (\<lambda>x. w_times W x a) xs) (w_zero W)"
  by (induction xs) (simp_all add: zero_times distrib_right)

end

text \<open>
  In an idempotent semiring the sum is the least upper bound of the order \<open>below\<close>, for a cost
  the reversed order of the numbers.
\<close>

locale idempotent_weight = weight_semiring +
  assumes plus_idem: "w_plus W a a = a"
begin

definition below :: "'a \<Rightarrow> 'a \<Rightarrow> bool" where
  "below a b \<longleftrightarrow> w_plus W a b = b"

lemma below_refl: "below a a"
  by (simp add: below_def plus_idem)

lemma below_trans: "below a b \<Longrightarrow> below b c \<Longrightarrow> below a c"
  unfolding below_def by (metis plus_assoc)

lemma below_antisym: "below a b \<Longrightarrow> below b a \<Longrightarrow> a = b"
  unfolding below_def by (metis plus_comm)

lemma zero_below: "below (w_zero W) a"
  by (simp add: below_def plus_zero)

lemma below_plus: "below a (w_plus W a b)" "below b (w_plus W a b)"
  by (simp_all add: below_def plus_idem flip: plus_assoc) (simp add: plus_assoc plus_left_comm plus_idem)

lemma plus_below: "below a c \<Longrightarrow> below b c \<Longrightarrow> below (w_plus W a b) c"
  unfolding below_def by (simp add: plus_assoc)

lemma times_mono: "below a b \<Longrightarrow> below c d \<Longrightarrow> below (w_times W a c) (w_times W b d)"
  unfolding below_def by (metis below_def below_plus(1) below_trans distrib_left distrib_right)

lemma sum_below: "(\<And>x. x \<in> set xs \<Longrightarrow> below x c) \<Longrightarrow> below (foldr (w_plus W) xs (w_zero W)) c"
  by (induction xs) (simp_all add: zero_below plus_below)

lemma below_sum: "x \<in> set xs \<Longrightarrow> below x (foldr (w_plus W) xs (w_zero W))"
  by (induction xs) (auto intro: below_plus below_trans)

end

section \<open>Boolean weights\<close>

definition bool_plus :: "bool \<Rightarrow> bool \<Rightarrow> bool" where
  "bool_plus w1 w2 = (w1 \<or> w2)"

definition bool_times :: "bool \<Rightarrow> bool \<Rightarrow> bool" where
  "bool_times w1 w2 = (w1 \<and> w2)"

definition bool_less :: "bool \<Rightarrow> bool \<Rightarrow> bool" where
  "bool_less w1 w2 \<longleftrightarrow> w1 < w2"

definition bool_pow :: "bool \<Rightarrow> bool \<Rightarrow> bool" where
  "bool_pow w p = (if p then w else True)"

definition bool_divide :: "bool \<Rightarrow> bool \<Rightarrow> sdl_error + bool" where
  "bool_divide w1 w2 = Inl UnimplementedException"

definition bool_plusByChanged :: "bool \<Rightarrow> bool \<Rightarrow> bool \<times> bool" where
  "bool_plusByChanged a b = (if a < b then (True, a) else (False, b))"

definition bool_ops :: "bool weight_ops" where
  "bool_ops = \<lparr>w_plus = bool_plus, w_times = bool_times, w_zero = False, w_one = True\<rparr>"

interpretation bool_weight: idempotent_weight bool_ops
  by unfold_locales (auto simp: bool_ops_def bool_plus_def bool_times_def)

section \<open>Viterbi weights\<close>

text \<open>A cost, with infinity for \<open>std::numeric_limits::infinity()\<close>.\<close>

datatype cost = Fin real | Infty

fun cost_less :: "cost \<Rightarrow> cost \<Rightarrow> bool" where
  "cost_less (Fin a) (Fin b) \<longleftrightarrow> a < b"
| "cost_less (Fin a) Infty \<longleftrightarrow> True"
| "cost_less Infty _ \<longleftrightarrow> False"

fun cost_add :: "cost \<Rightarrow> cost \<Rightarrow> cost" where
  "cost_add (Fin a) (Fin b) = Fin (a + b)"
| "cost_add _ _ = Infty"

definition viterbi_isZero :: "cost \<Rightarrow> bool" where
  "viterbi_isZero w \<longleftrightarrow> w = Infty"

definition viterbi_isOne :: "cost \<Rightarrow> bool" where
  "viterbi_isOne w \<longleftrightarrow> w = Fin 0"

definition viterbi_plus :: "cost \<Rightarrow> cost \<Rightarrow> cost" where
  "viterbi_plus w1 w2 = (if cost_less w1 w2 then w1 else w2)"

definition viterbi_plusBy :: "cost \<Rightarrow> cost \<Rightarrow> cost" where
  "viterbi_plusBy b a = (if cost_less b a then b else a)"

definition viterbi_times :: "cost \<Rightarrow> cost \<Rightarrow> cost" where
  "viterbi_times w1 w2 = (if w1 = Infty \<or> w2 = Infty then Infty else cost_add w1 w2)"

definition viterbi_timesBy :: "cost \<Rightarrow> cost \<Rightarrow> cost" where
  "viterbi_timesBy b a = cost_add a b"

definition viterbi_divide :: "cost \<Rightarrow> cost \<Rightarrow> cost" where
  "viterbi_divide w1 w2 =
     (if w1 = Infty \<or> w2 = Infty then Infty
      else case (w1, w2) of (Fin a, Fin b) \<Rightarrow> Fin (a - b) | _ \<Rightarrow> Infty)"

definition viterbi_minus :: "cost \<Rightarrow> cost \<Rightarrow> sdl_error + cost" where
  "viterbi_minus w1 w2 = Inl UnimplementedException"

text \<open>\<open>plusByChanges(a, b)\<close> and \<open>plusByChanged(a, b)\<close>, which adds \<open>a\<close> to \<open>b\<close> and says whether \<open>b\<close> changed.\<close>

definition viterbi_plusByChanges :: "cost \<Rightarrow> cost \<Rightarrow> bool" where
  "viterbi_plusByChanges a b \<longleftrightarrow> cost_less a b"

definition viterbi_plusByChanged :: "cost \<Rightarrow> cost \<Rightarrow> bool \<times> cost" where
  "viterbi_plusByChanged a b = (if cost_less a b then (True, a) else (False, b))"

definition viterbi_checkPlusBy :: "cost \<Rightarrow> cost \<Rightarrow> bool" where
  "viterbi_checkPlusBy a b \<longleftrightarrow> b = (if cost_less b a then b else a)"

definition viterbi_ops :: "cost weight_ops" where
  "viterbi_ops = \<lparr>w_plus = viterbi_plus, w_times = viterbi_times, w_zero = Infty, w_one = Fin 0\<rparr>"

lemma viterbi_plus_cases: "viterbi_plus w1 w2 =
    (case (w1, w2) of (Fin a, Fin b) \<Rightarrow> Fin (min a b) | (Infty, w) \<Rightarrow> w | (w, Infty) \<Rightarrow> w)"
  by (cases w1; cases w2) (auto simp: viterbi_plus_def min_def)

lemma viterbi_times_cases: "viterbi_times w1 w2 =
    (case (w1, w2) of (Fin a, Fin b) \<Rightarrow> Fin (a + b) | _ \<Rightarrow> Infty)"
  by (cases w1; cases w2) (auto simp: viterbi_times_def)

interpretation viterbi_weight: idempotent_weight viterbi_ops
  by unfold_locales
    (auto simp: viterbi_ops_def viterbi_plus_cases viterbi_times_cases min_def split: cost.splits)

lemma viterbi_below: "viterbi_weight.below a b \<longleftrightarrow> \<not> cost_less a b"
  unfolding viterbi_weight.below_def by (cases a; cases b) (auto simp: viterbi_ops_def viterbi_plus_def)

lemma viterbi_updates:
  "viterbi_plusBy b a = viterbi_plus a b" "viterbi_timesBy b a = viterbi_times a b"
  "viterbi_plusByChanged a b = (viterbi_plusByChanges a b, viterbi_plus a b)"
  by (cases a; cases b; auto simp: viterbi_plusBy_def viterbi_plus_def viterbi_timesBy_def viterbi_times_def
      viterbi_plusByChanged_def viterbi_plusByChanges_def)+

section \<open>Log weights\<close>

text \<open>
  \<open>log1plus(x)\<close> is \<open>log(1 + x)\<close>; at \<open>x = -1\<close> the library answers minus infinity, which the two
  functions that can reach it turn into infinity.
\<close>

definition log1plus :: "real \<Rightarrow> real" where
  "log1plus x = ln (1 + x)"

fun cost_le :: "cost \<Rightarrow> cost \<Rightarrow> bool" where
  "cost_le a b \<longleftrightarrow> \<not> cost_less b a"

fun neglogPlus :: "cost \<Rightarrow> cost \<Rightarrow> cost" where
  "neglogPlus Infty b = b"
| "neglogPlus (Fin a) Infty = Fin a"
| "neglogPlus (Fin a) (Fin b) =
     (if a \<le> b then Fin (a - log1plus (exp (a - b))) else Fin (b - log1plus (exp (b - a))))"

fun neglogPlusBy :: "cost \<Rightarrow> cost \<Rightarrow> cost" where
  "neglogPlusBy Infty a = a"
| "neglogPlusBy (Fin b) Infty = Fin (b - log1plus 0)"
| "neglogPlusBy (Fin b) (Fin a) =
     (if a \<le> b then Fin (a - log1plus (exp (a - b))) else Fin (b - log1plus (exp (b - a))))"

definition logPlus :: "real \<Rightarrow> real \<Rightarrow> real" where
  "logPlus a b = (let b_a = b - a in if b_a < 0 then a + log1plus (exp b_a) else b + log1plus (exp (- b_a)))"

definition logPlusBy :: "real \<Rightarrow> real \<Rightarrow> real" where
  "logPlusBy b a = (let b_a = b - a in if b_a < 0 then a + log1plus (exp b_a) else b + log1plus (exp (- b_a)))"

definition logExp :: "real \<Rightarrow> real" where
  "logExp x = log1plus (exp x)"

definition logExpMinus :: "real \<Rightarrow> real" where
  "logExpMinus x = log1plus (- exp x)"

text \<open>\<open>epsilon\<close> is \<open>FloatConstants<Float>::epsilon\<close>.\<close>

fun neglogMinus :: "real \<Rightarrow> cost \<Rightarrow> cost \<Rightarrow> sdl_error + cost" where
  "neglogMinus epsilon a Infty = Inr a"
| "neglogMinus epsilon Infty (Fin b) = Inl LogNegativeException"
| "neglogMinus epsilon (Fin a) (Fin b) =
     (let d = a - b
      in if d \<le> 0 then Inr (if d = 0 then Infty else Fin (a - log1plus (- exp d)))
         else if d < epsilon then Inr Infty
         else Inl LogNegativeException)"

fun neglogSubFrom1 :: "cost \<Rightarrow> sdl_error + cost" where
  "neglogSubFrom1 Infty = Inr (Fin (- log1plus 0))"
| "neglogSubFrom1 (Fin b) =
     (if b \<ge> 0 then Inr (if b = 0 then Infty else Fin (- log1plus (- exp (- b)))) else Inl LogNegativeException)"

definition neglogSub_zeroPlus :: "cost \<Rightarrow> sdl_error + cost" where
  "neglogSub_zeroPlus b = (if b = Infty then Inr b else Inl LogNegativeException)"

definition neglogTimes :: "cost \<Rightarrow> cost \<Rightarrow> cost" where
  "neglogTimes a b = cost_add a b"

text \<open>\<open>mapAddNeglogPlus\<close> adds to the entry of a map.\<close>

definition mapAddNeglogPlus :: "('k \<rightharpoonup> cost) \<Rightarrow> 'k \<Rightarrow> cost \<Rightarrow> ('k \<rightharpoonup> cost)" where
  "mapAddNeglogPlus m key v =
     (let (m1, old, new) = map_update m key v in if new then m1 else m1(key \<mapsto> neglogPlusBy v old))"

definition log_plus :: "cost \<Rightarrow> cost \<Rightarrow> cost" where
  "log_plus w1 w2 = neglogPlus w1 w2"

definition log_minus :: "real \<Rightarrow> cost \<Rightarrow> cost \<Rightarrow> sdl_error + cost" where
  "log_minus epsilon w1 w2 = neglogMinus epsilon w1 w2"

definition log_times :: "cost \<Rightarrow> cost \<Rightarrow> cost" where
  "log_times w1 w2 = (if w1 = Infty \<or> w2 = Infty then Infty else cost_add w1 w2)"

definition log_timesBy :: "cost \<Rightarrow> cost \<Rightarrow> cost" where
  "log_timesBy b a = cost_add a b"

definition log_divide :: "cost \<Rightarrow> cost \<Rightarrow> cost" where
  "log_divide w1 w2 =
     (if w1 = Infty \<or> w2 = Infty then Infty
      else case (w1, w2) of (Fin a, Fin b) \<Rightarrow> Fin (a - b) | _ \<Rightarrow> Infty)"

definition log_ops :: "cost weight_ops" where
  "log_ops = \<lparr>w_plus = log_plus, w_times = log_times, w_zero = Infty, w_one = Fin 0\<rparr>"

text \<open>The probability a cost stands for (\<open>neglogToProb\<close>) turns the operations into real ones.\<close>

fun neglogToProb :: "cost \<Rightarrow> real" where
  "neglogToProb (Fin a) = exp (- a)"
| "neglogToProb Infty = 0"

definition probToNeglog :: "real \<Rightarrow> cost" where
  "probToNeglog p = (if p = 0 then Infty else Fin (- ln p))"

lemma prob_inj: "neglogToProb a = neglogToProb b \<longleftrightarrow> a = b"
  by (cases a; cases b) auto

lemma prob_nonneg: "0 \<le> neglogToProb a"
  by (cases a) auto

lemma prob_toNeglog: "0 \<le> p \<Longrightarrow> neglogToProb (probToNeglog p) = p"
  by (simp add: probToNeglog_def)

lemma exp_log1plus: "exp (- (x - log1plus (exp (x - y)))) = exp (- x) + exp (- y)"
proof -
  have p: "0 < 1 + exp (x - y)" by (simp add: add_pos_pos)
  have "exp (- (x - log1plus (exp (x - y)))) = exp (- x) * exp (log1plus (exp (x - y)))"
    by (simp add: exp_add [symmetric] algebra_simps)
  also have "\<dots> = exp (- x) * (1 + exp (x - y))" using p by (simp add: log1plus_def)
  also have "\<dots> = exp (- x) + exp (- y)" by (simp add: distrib_left exp_add [symmetric])
  finally show ?thesis .
qed

lemma exp_log1minus:
  assumes "x < y"
  shows "exp (- (x - log1plus (- exp (x - y)))) = exp (- x) - exp (- y)"
proof -
  have "0 < 1 - exp (x - y)" using assms by simp
  then have "exp (- x) * exp (log1plus (- exp (x - y))) = exp (- x) * (1 - exp (x - y))"
    by (simp add: log1plus_def)
  also have "\<dots> = exp (- x) - exp (- y)" by (simp add: right_diff_distrib exp_add [symmetric])
  finally show ?thesis by (simp add: exp_add [symmetric] algebra_simps)
qed

lemma prob_plus: "neglogToProb (neglogPlus a b) = neglogToProb a + neglogToProb b"
  using exp_log1plus by (cases a; cases b) (auto simp: add.commute)

lemma prob_times: "neglogToProb (log_times a b) = neglogToProb a * neglogToProb b"
  by (cases a; cases b) (auto simp: log_times_def exp_add [symmetric])

lemma neglogPlusBy_plus: "neglogPlusBy b a = neglogPlus a b"
  by (cases a; cases b) (auto simp: log1plus_def)

lemma log_timesBy_times: "log_timesBy b a = log_times a b"
  by (cases a; cases b) (auto simp: log_timesBy_def log_times_def)

lemma logPlus_exp: "exp (logPlus a b) = exp a + exp b" and "logPlusBy b a = logPlus a b"
proof -
  have "exp (x + log1plus (exp (y - x))) = exp x + exp y" for x y
    using exp_log1plus [of "- x" "- y"] by (simp add: algebra_simps)
  from this [of a b] this [of b a] show "exp (logPlus a b) = exp a + exp b"
    by (simp add: logPlus_def Let_def add.commute)
qed (simp add: logPlus_def logPlusBy_def)

interpretation log_weight: weight_semiring log_ops
  by unfold_locales
    (simp_all add: log_ops_def log_plus_def prob_inj [symmetric] prob_plus prob_times algebra_simps)

lemma neglogMinus_prob:
  assumes "neglogMinus epsilon a b = Inr c"
  shows "neglogToProb c = max 0 (neglogToProb a - neglogToProb b)"
proof (cases b)
  case Infty
  then show ?thesis using assms prob_nonneg [of a] by simp
next
  case (Fin y)
  then obtain x where x: "a = Fin x" using assms by (cases a) auto
  consider "x < y" | "x = y" | "y < x" by linarith
  then show ?thesis
  proof cases
    case 1
    then have "c = Fin (x - log1plus (- exp (x - y)))" using assms by (simp add: x Fin Let_def)
    then show ?thesis using exp_log1minus [OF 1] 1 by (simp add: x Fin)
  next
    case 2
    then show ?thesis using assms by (simp add: x Fin Let_def)
  next
    case 3
    then have "c = Infty" using assms by (auto simp: x Fin Let_def split: if_splits)
    then show ?thesis using 3 by (simp add: x Fin)
  qed
qed

section \<open>Properties\<close>

text \<open>
  Property C35 (log weights are probabilities). Through \<open>neglogToProb\<close>, plus and times of any two log weights, the infinite one included,
  are the sum and the product of real numbers, in both forms of the code. A difference that \<open>minus\<close> does not reject
  is the difference of the probabilities, clamped to zero where the second exceeds the first.
\<close>

theorem log_weight_exact:
  "neglogToProb (log_plus a b) = neglogToProb a + neglogToProb b \<and>
    neglogPlusBy b a = log_plus a b \<and>
    neglogToProb (log_times a b) = neglogToProb a * neglogToProb b \<and> log_timesBy b a = log_times a b \<and>
    (\<forall>c. log_minus epsilon a b = Inr c \<longrightarrow> neglogToProb c = max 0 (neglogToProb a - neglogToProb b))"
  using neglogMinus_prob [of epsilon a b]
  by (simp add: log_plus_def log_minus_def prob_plus prob_times neglogPlusBy_plus log_timesBy_times)

theorem log_weight_exact_witness: "neglogToProb Infty = max 0 (neglogToProb (Fin 1) - neglogToProb (Fin 1))"
  using log_weight_exact [of "Fin 1" "Fin 1" 1] by (simp add: log_minus_def Let_def)

end
