(* ===== verification/Feature_Weights.thy ===== *)
theory Feature_Weights
  imports Weights
begin

text \<open>
  Weights with features (\<open>sdl/Hypergraph/FeatureWeightTpl.hpp\<close>, \<open>ExpectationWeight.hpp\<close>): a cost and
  a sparse map from feature ids to values. The map is reached through a shared pointer and copied
  when a weight writes to a map that another weight refers to. The model keeps the pointers: a store
  holds the weight objects of the program and the maps they share, and an operation takes the indexes
  of its operands, which may be equal. Maps that no weight refers to stay in the store.
\<close>

section \<open>The store\<close>

type_synonym feature_map = "nat \<rightharpoonup> cost"

record fweight =
  fw_value :: cost
  pMap :: "nat option"

record fstore =
  weights :: "fweight list"
  maps :: "feature_map list"

definition weight_at :: "fstore \<Rightarrow> nat \<Rightarrow> fweight" where
  "weight_at st v = weights st ! v"

definition assign :: "nat \<Rightarrow> fweight \<Rightarrow> fstore \<Rightarrow> fstore" where
  "assign v w st = st\<lparr>weights := (weights st)[v := w]\<rparr>"

definition set_value :: "nat \<Rightarrow> cost \<Rightarrow> fstore \<Rightarrow> fstore" where
  "set_value v c st = assign v ((weight_at st v)\<lparr>fw_value := c\<rparr>) st"

text \<open>\<open>pMap_.unique()\<close>: exactly one weight refers to the map.\<close>

definition unique_map :: "fstore \<Rightarrow> nat \<Rightarrow> bool" where
  "unique_map st p \<longleftrightarrow> length (filter (\<lambda>w. pMap w = Some p) (weights st)) = 1"

definition features :: "fstore \<Rightarrow> nat \<Rightarrow> feature_map" where
  "features st v = (case pMap (weight_at st v) of None \<Rightarrow> Map.empty | Some p \<Rightarrow> maps st ! p)"

definition fw_empty :: "fstore \<Rightarrow> nat \<Rightarrow> bool" where
  "fw_empty st v \<longleftrightarrow> features st v = Map.empty"

definition fw_isZero :: "fstore \<Rightarrow> nat \<Rightarrow> bool" where
  "fw_isZero st v \<longleftrightarrow> fw_value (weight_at st v) = Infty"

definition fw_isOne :: "fstore \<Rightarrow> nat \<Rightarrow> bool" where
  "fw_isOne st v \<longleftrightarrow> fw_value (weight_at st v) = Fin 0 \<and> fw_empty st v"

definition fw_setZero :: "nat \<Rightarrow> fstore \<Rightarrow> fstore" where
  "fw_setZero v st = assign v \<lparr>fw_value = Infty, pMap = None\<rparr> st"

definition fw_setOne :: "nat \<Rightarrow> fstore \<Rightarrow> fstore" where
  "fw_setOne v st = assign v \<lparr>fw_value = Fin 0, pMap = None\<rparr> st"

definition removeFeatures :: "nat \<Rightarrow> fstore \<Rightarrow> fstore" where
  "removeFeatures v st = assign v ((weight_at st v)\<lparr>pMap := None\<rparr>) st"

text \<open>A new map for the weight, with the given entries.\<close>

definition make_map :: "nat \<Rightarrow> feature_map \<Rightarrow> fstore \<Rightarrow> fstore" where
  "make_map v m st =
     (let st1 = st\<lparr>maps := maps st @ [m]\<rparr>
      in assign v ((weight_at st1 v)\<lparr>pMap := Some (length (maps st))\<rparr>) st1)"

definition ownMap :: "nat \<Rightarrow> fstore \<Rightarrow> fstore" where
  "ownMap v st =
     (case pMap (weight_at st v) of
        None \<Rightarrow> make_map v Map.empty st
      | Some p \<Rightarrow> if \<not> unique_map st p then make_map v (maps st ! p) st else st)"

text \<open>A write through the pointer of the weight, which must own its map.\<close>

definition map_write :: "nat \<Rightarrow> (feature_map \<Rightarrow> feature_map) \<Rightarrow> fstore \<Rightarrow> fstore" where
  "map_write v f st =
     (case pMap (weight_at st v) of
        None \<Rightarrow> st
      | Some p \<Rightarrow> st\<lparr>maps := (maps st)[p := f (maps st ! p)]\<rparr>)"

definition featuresWrite :: "nat \<Rightarrow> (feature_map \<Rightarrow> feature_map) \<Rightarrow> fstore \<Rightarrow> fstore" where
  "featuresWrite v f st = map_write v f (ownMap v st)"

text \<open>\<open>std::map::insert\<close> keeps an entry that is there; \<open>update\<close> overwrites it.\<close>

definition fw_insert :: "nat \<Rightarrow> nat \<Rightarrow> cost \<Rightarrow> fstore \<Rightarrow> fstore" where
  "fw_insert v i x st = featuresWrite v (\<lambda>m. if m i = None then m(i \<mapsto> x) else m) st"

definition fw_update :: "nat \<Rightarrow> nat \<Rightarrow> cost \<Rightarrow> fstore \<Rightarrow> fstore" where
  "fw_update v i x st = featuresWrite v (\<lambda>m. m(i \<mapsto> x)) st"

definition fw_contains :: "fstore \<Rightarrow> nat \<Rightarrow> nat \<Rightarrow> bool" where
  "fw_contains st v i \<longleftrightarrow> pMap (weight_at st v) \<noteq> None \<and> features st v i \<noteq> None"

text \<open>\<open>operator[]\<close>; \<open>zeroValue\<close> is \<open>SumPolicy::getZeroFeatureValue\<close>: 0 for \<open>TakeMin\<close>, infinity for \<open>Expectation\<close>.\<close>

definition fw_get :: "cost \<Rightarrow> fstore \<Rightarrow> nat \<Rightarrow> nat \<Rightarrow> cost" where
  "fw_get zeroValue st v i = map_getOrElse (features st v) i zeroValue"

definition fw_eq :: "fstore \<Rightarrow> nat \<Rightarrow> nat \<Rightarrow> bool" where
  "fw_eq st a b \<longleftrightarrow>
     (if fw_value (weight_at st a) \<noteq> fw_value (weight_at st b) then False
      else if fw_empty st a then fw_empty st b
      else if pMap (weight_at st b) = None then False
      else features st a = features st b)"

definition incrementFeatureValue :: "nat \<Rightarrow> nat \<Rightarrow> cost \<Rightarrow> fstore \<Rightarrow> fstore" where
  "incrementFeatureValue v i delta st =
     featuresWrite v (\<lambda>m. m(i \<mapsto> cost_add (map_getOrElse m i (Fin 0)) delta)) st"

section \<open>The TakeMin policy\<close>

definition cost_double :: "cost \<Rightarrow> cost" where
  "cost_double c = cost_add c c"

definition add_features :: "feature_map \<Rightarrow> feature_map \<Rightarrow> feature_map" where
  "add_features bm m =
     (\<lambda>i. case bm i of None \<Rightarrow> m i | Some x \<Rightarrow> Some (cost_add (map_getOrElse m i (Fin 0)) x))"

definition timesFeaturesBy :: "nat \<Rightarrow> nat \<Rightarrow> fstore \<Rightarrow> fstore" where
  "timesFeaturesBy b a st =
     (if fw_empty st b then st
      else if fw_empty st a then assign a ((weight_at st a)\<lparr>pMap := pMap (weight_at st b)\<rparr>) st
      else if pMap (weight_at st a) = pMap (weight_at st b)
      then map_write a (\<lambda>m. map_option cost_double \<circ> m) (ownMap a st)
      else featuresWrite a (add_features (features st b)) st)"

definition min_timesBy :: "nat \<Rightarrow> nat \<Rightarrow> fstore \<Rightarrow> fstore" where
  "min_timesBy b a st =
     timesFeaturesBy b a
       (set_value a (cost_add (fw_value (weight_at st a)) (fw_value (weight_at st b))) st)"

definition min_plusBy :: "nat \<Rightarrow> nat \<Rightarrow> fstore \<Rightarrow> fstore" where
  "min_plusBy b a st =
     (if \<not> fw_isZero st b \<and> cost_less (fw_value (weight_at st b)) (fw_value (weight_at st a))
      then assign a (weight_at st b) st else st)"

text \<open>\<open>plus(w1, w2)\<close> returns one of its arguments.\<close>

definition min_plus :: "fstore \<Rightarrow> nat \<Rightarrow> nat \<Rightarrow> fweight" where
  "min_plus st w1 w2 =
     (if cost_less (fw_value (weight_at st w1)) (fw_value (weight_at st w2)) then weight_at st w1 else weight_at st w2)"

section \<open>The Expectation policy\<close>

definition neglog2 :: real where
  "neglog2 = - ln 2"

text \<open>\<open>mapAddNeglogPlus\<close> for every entry of a map.\<close>

definition add_expectations :: "feature_map \<Rightarrow> feature_map \<Rightarrow> feature_map" where
  "add_expectations bm m =
     (\<lambda>i. case bm i of None \<Rightarrow> m i | Some x \<Rightarrow> mapAddNeglogPlus m i x i)"

definition shift_features :: "cost \<Rightarrow> feature_map \<Rightarrow> feature_map" where
  "shift_features c m = map_option (\<lambda>x. cost_add x c) \<circ> m"

definition exp_plusBy :: "nat \<Rightarrow> nat \<Rightarrow> fstore \<Rightarrow> fstore" where
  "exp_plusBy b a st =
     (if fw_isZero st b then st
      else if fw_isZero st a then assign a (weight_at st b) st
      else if b = a
      then (let st1 = set_value a (cost_add (fw_value (weight_at st a)) (Fin neglog2)) st
            in if pMap (weight_at st1 a) \<noteq> None
               then map_write a (shift_features (Fin neglog2)) (ownMap a st1) else st1)
      else (let st1 = set_value a (neglogPlusBy (fw_value (weight_at st b)) (fw_value (weight_at st a))) st
            in if pMap (weight_at st1 a) = pMap (weight_at st1 b)
               then if pMap (weight_at st1 a) \<noteq> None
                    then map_write a (shift_features (Fin neglog2)) (ownMap a st1) else st1
               else if \<not> fw_empty st1 b
               then map_write a (add_expectations (features st1 b)) (ownMap a st1) else st1))"

definition exp_timesBy :: "nat \<Rightarrow> nat \<Rightarrow> fstore \<Rightarrow> fstore" where
  "exp_timesBy b a st =
     (if fw_isZero st a then st
      else if fw_isZero st b then fw_setZero a st
      else if fw_isOne st b then st
      else if fw_isOne st a then assign a (weight_at st b) st
      else let aval = fw_value (weight_at st a); bval = fw_value (weight_at st b);
               same = pMap (weight_at st a) = pMap (weight_at st b);
               st1 = set_value a (cost_add aval bval) st;
               st2 = ownMap a st1
           in if same then map_write a (shift_features (neglogPlus aval bval)) st2
              else let st3 = map_write a (shift_features bval) st2
                   in if \<not> fw_empty st3 b
                      then map_write a (add_expectations (shift_features aval (features st3 b))) st3
                      else st3)"

text \<open>\<open>FeatureWeightTpl(w, true)\<close>: a copy with a map of its own, at the end of the list of weights.\<close>

definition copy_unique :: "nat \<Rightarrow> fstore \<Rightarrow> fstore" where
  "copy_unique v st =
     st\<lparr>weights := weights st @ [\<lparr>fw_value = fw_value (weight_at st v), pMap = Some (length (maps st))\<rparr>],
        maps := maps st @ [features st v]\<rparr>"

definition exp_plus :: "nat \<Rightarrow> nat \<Rightarrow> fstore \<Rightarrow> fstore" where
  "exp_plus w1 w2 st = exp_plusBy w2 (length (weights st)) (copy_unique w1 st)"

definition exp_times :: "nat \<Rightarrow> nat \<Rightarrow> fstore \<Rightarrow> fstore" where
  "exp_times w1 w2 st = exp_timesBy w2 (length (weights st)) (copy_unique w1 st)"

definition min_times :: "nat \<Rightarrow> nat \<Rightarrow> fstore \<Rightarrow> fstore" where
  "min_times w1 w2 st = min_timesBy w2 (length (weights st)) (copy_unique w1 st)"

section \<open>Copy on write\<close>

text \<open>Every pointer is valid; a weight owns a map that no other weight refers to.\<close>

definition fs_ok :: "fstore \<Rightarrow> bool" where
  "fs_ok st \<longleftrightarrow> (\<forall>w \<in> set (weights st). \<forall>p. pMap w = Some p \<longrightarrow> p < length (maps st))"

definition owns :: "fstore \<Rightarrow> nat \<Rightarrow> bool" where
  "owns st a \<longleftrightarrow> (\<exists>p. pMap (weight_at st a) = Some p \<and> p < length (maps st) \<and>
     (\<forall>u < length (weights st). u \<noteq> a \<longrightarrow> pMap (weight_at st u) \<noteq> Some p))"

text \<open>What an operation on the weight \<open>a\<close> must leave alone: the value and the features of the others.\<close>

definition frame :: "nat \<Rightarrow> fstore \<Rightarrow> fstore \<Rightarrow> bool" where
  "frame a st st' \<longleftrightarrow> length (weights st') = length (weights st) \<and>
     (\<forall>u < length (weights st). u \<noteq> a \<longrightarrow>
        fw_value (weight_at st' u) = fw_value (weight_at st u) \<and> features st' u = features st u)"

lemma frame_trans: "frame a st st' \<Longrightarrow> frame a st' st'' \<Longrightarrow> frame a st st''"
  by (simp add: frame_def)

lemma frame_refl [simp]: "frame a st st"
  by (simp add: frame_def)

lemma fs_okD: "fs_ok st \<Longrightarrow> v < length (weights st) \<Longrightarrow> pMap (weight_at st v) = Some p \<Longrightarrow> p < length (maps st)"
  unfolding fs_ok_def weight_at_def using nth_mem by blast

lemma weight_assign [simp]:
  "a < length (weights st) \<Longrightarrow> weight_at (assign a w st) u = (if u = a then w else weight_at st u)"
  "length (weights (assign a w st)) = length (weights st)" "maps (assign a w st) = maps st"
  by (auto simp: assign_def weight_at_def)

lemma features_assign [simp]:
  "a < length (weights st) \<Longrightarrow> u \<noteq> a \<Longrightarrow> features (assign a w st) u = features st u"
  by (simp add: features_def split: option.split)

lemma frame_assign: "a < length (weights st) \<Longrightarrow> frame a st (assign a w st)"
  by (simp add: frame_def)

lemma set_value_facts [simp]:
  assumes "a < length (weights st)"
  shows "frame a st (set_value a c st)" "fw_value (weight_at (set_value a c st) a) = c"
    "features (set_value a c st) u = features st u" "pMap (weight_at (set_value a c st) u) = pMap (weight_at st u)"
    "length (weights (set_value a c st)) = length (weights st)" "maps (set_value a c st) = maps st"
    "fs_ok st \<Longrightarrow> fs_ok (set_value a c st)"
proof -
  let ?s = "set_value a c st"
  have W: "weight_at ?s u = (if u = a then (weight_at st a)\<lparr>fw_value := c\<rparr> else weight_at st u)" for u
    using assms by (simp add: set_value_def)
  have M: "maps ?s = maps st" "length (weights ?s) = length (weights st)" by (simp_all add: set_value_def)
  then show "frame a st ?s" "fw_value (weight_at ?s a) = c" "features ?s u = features st u"
    "pMap (weight_at ?s u) = pMap (weight_at st u)" "length (weights ?s) = length (weights st)" "maps ?s = maps st"
    using W by (auto simp: frame_def features_def split: option.split)
  show "fs_ok ?s" if ok: "fs_ok st"
    unfolding fs_ok_def
  proof (intro ballI allI impI)
    fix w p assume "w \<in> set (weights ?s)" and p: "pMap w = Some p"
    then obtain v where v: "v < length (weights st)" "w = weight_at ?s v" using M by (auto simp: in_set_conv_nth weight_at_def)
    then show "p < length (maps ?s)" using fs_okD [OF ok v(1), of p] p W [of v] M by (auto split: if_splits)
  qed
qed

lemma unique_owns:
  assumes "unique_map st p" and "a < length (weights st)" and "pMap (weight_at st a) = Some p" and "p < length (maps st)"
  shows "owns st a"
proof -
  let ?I = "{i. i < length (weights st) \<and> pMap (weights st ! i) = Some p}"
  have "card ?I = 1" using assms(1) by (simp add: unique_map_def length_filter_conv_card)
  then obtain x where "?I = {x}" by (auto simp: card_1_singleton_iff)
  moreover have "a \<in> ?I" using assms by (simp add: weight_at_def)
  ultimately have I: "?I = {a}" by auto
  have "u = a" if "u < length (weights st)" "pMap (weight_at st u) = Some p" for u
  proof -
    have "u \<in> ?I" using that by (simp add: weight_at_def)
    then show ?thesis unfolding I by simp
  qed
  then show ?thesis using assms(3,4) unfolding owns_def by blast
qed

lemma make_map_facts:
  assumes ok: "fs_ok st" and a: "a < length (weights st)"
  shows "fs_ok (make_map a m st)" "owns (make_map a m st) a" "frame a st (make_map a m st)"
    "features (make_map a m st) a = m" "fw_value (weight_at (make_map a m st) a) = fw_value (weight_at st a)"
proof -
  let ?s = "make_map a m st" and ?st1 = "st\<lparr>maps := maps st @ [m]\<rparr>"
  have w: "weight_at ?st1 = weight_at st" "weights ?st1 = weights st" by (simp_all add: fun_eq_iff weight_at_def)
  have W: "weight_at ?s u = (if u = a then (weight_at st a)\<lparr>pMap := Some (length (maps st))\<rparr> else weight_at st u)" for u
    using a w by (simp add: make_map_def Let_def)
  have L: "length (weights ?s) = length (weights st)" "maps ?s = maps st @ [m]" by (simp_all add: make_map_def Let_def)
  have p: "p < length (maps st)" if "u < length (weights st)" "pMap (weight_at st u) = Some p" for u p
    using fs_okD [OF ok that] .
  show "fs_ok ?s"
    unfolding fs_ok_def
  proof (intro ballI allI impI)
    fix x q assume "x \<in> set (weights ?s)" "pMap x = Some q"
    then obtain u where u: "u < length (weights st)" "weight_at ?s u = x" using L by (auto simp: in_set_conv_nth weight_at_def)
    then show "q < length (maps ?s)" using \<open>pMap x = Some q\<close> p [OF u(1), of q] W L by (auto split: if_splits)
  qed
  show "owns ?s a" using W L p by (fastforce simp: owns_def)
  show "frame a st ?s"
    unfolding frame_def
  proof (intro conjI allI impI)
    fix u assume u: "u < length (weights st)" "u \<noteq> a"
    show "fw_value (weight_at ?s u) = fw_value (weight_at st u)" "features ?s u = features st u"
      using u p [OF u(1)] W L by (auto simp: features_def nth_append split: option.splits)
  qed (simp add: L)
  show "features ?s a = m" "fw_value (weight_at ?s a) = fw_value (weight_at st a)"
    using W L by (simp_all add: features_def)
qed

lemma ownMap_facts:
  assumes ok: "fs_ok st" and a: "a < length (weights st)"
  shows "fs_ok (ownMap a st)" "owns (ownMap a st) a" "frame a st (ownMap a st)"
    "features (ownMap a st) a = features st a" "fw_value (weight_at (ownMap a st) a) = fw_value (weight_at st a)"
proof -
  consider (n) "pMap (weight_at st a) = None" "ownMap a st = make_map a Map.empty st"
    | (s) p where "pMap (weight_at st a) = Some p" "ownMap a st = make_map a (maps st ! p) st"
    | (u) p where "pMap (weight_at st a) = Some p" "unique_map st p" "ownMap a st = st"
    by (cases "pMap (weight_at st a)"; cases "unique_map st (the (pMap (weight_at st a)))") (auto simp: ownMap_def)
  then have "fs_ok (ownMap a st) \<and> owns (ownMap a st) a \<and> frame a st (ownMap a st) \<and>
      features (ownMap a st) a = features st a \<and> fw_value (weight_at (ownMap a st) a) = fw_value (weight_at st a)"
  proof cases
    case n
    then show ?thesis using make_map_facts [OF ok a, of Map.empty] by (simp add: features_def)
  next
    case s
    then show ?thesis using make_map_facts [OF ok a, of "maps st ! p"] by (simp add: features_def)
  next
    case u
    then show ?thesis using unique_owns [OF u(2) a u(1) fs_okD [OF ok a u(1)]] ok by simp
  qed
  then show "fs_ok (ownMap a st)" "owns (ownMap a st) a" "frame a st (ownMap a st)"
    "features (ownMap a st) a = features st a" "fw_value (weight_at (ownMap a st) a) = fw_value (weight_at st a)"
    by blast+
qed

lemma map_write_facts:
  assumes ok: "fs_ok st" and a: "a < length (weights st)" and o: "owns st a"
  shows "fs_ok (map_write a f st)" "owns (map_write a f st) a" "frame a st (map_write a f st)"
    "features (map_write a f st) a = f (features st a)"
    "fw_value (weight_at (map_write a f st) a) = fw_value (weight_at st a)"
    "pMap (weight_at (map_write a f st) u) = pMap (weight_at st u)"
proof -
  obtain p where p: "pMap (weight_at st a) = Some p" "p < length (maps st)"
    "\<And>u. u < length (weights st) \<Longrightarrow> u \<noteq> a \<Longrightarrow> pMap (weight_at st u) \<noteq> Some p"
    using o unfolding owns_def by blast
  let ?s = "map_write a f st"
  have s: "?s = st\<lparr>maps := (maps st)[p := f (maps st ! p)]\<rparr>" by (simp add: map_write_def p(1))
  have W: "weight_at ?s = weight_at st" "weights ?s = weights st" "length (maps ?s) = length (maps st)"
    by (simp_all add: s fun_eq_iff weight_at_def)
  show "fs_ok ?s" using ok W by (simp add: fs_ok_def)
  show "owns ?s a" using o W by (simp add: owns_def)
  show "frame a st ?s"
    using p(3) W by (auto simp: frame_def features_def s split: option.split) (metis nth_list_update_neq)
  show "features ?s a = f (features st a)" "fw_value (weight_at ?s a) = fw_value (weight_at st a)"
    "pMap (weight_at ?s u) = pMap (weight_at st u)"
    using p W by (simp_all add: features_def) (simp add: s)
qed

text \<open>A write to an owned copy, the way every operation writes.\<close>

lemma own_write:
  assumes "fs_ok st" and "a < length (weights st)"
  shows "fs_ok (map_write a f (ownMap a st))" "frame a st (map_write a f (ownMap a st))"
    "features (map_write a f (ownMap a st)) a = f (features st a)"
    "fw_value (weight_at (map_write a f (ownMap a st)) a) = fw_value (weight_at st a)"
    "owns (map_write a f (ownMap a st)) a"
proof -
  note O = ownMap_facts [OF assms]
  have l: "a < length (weights (ownMap a st))" using O(3) assms(2) by (simp add: frame_def)
  note M = map_write_facts [OF O(1) l O(2), of f]
  show "fs_ok (map_write a f (ownMap a st))" "frame a st (map_write a f (ownMap a st))"
    "features (map_write a f (ownMap a st)) a = f (features st a)"
    "fw_value (weight_at (map_write a f (ownMap a st)) a) = fw_value (weight_at st a)"
    "owns (map_write a f (ownMap a st)) a"
    using M O frame_trans [OF O(3) M(3)] by simp_all
qed

section \<open>The expectation semiring\<close>

text \<open>The probability of a weight and the expectation of a feature, which is zero where there is no value.\<close>

definition prob :: "fstore \<Rightarrow> nat \<Rightarrow> real" where
  "prob st v = neglogToProb (fw_value (weight_at st v))"

definition expect :: "fstore \<Rightarrow> nat \<Rightarrow> nat \<Rightarrow> real" where
  "expect st v i = neglogToProb (fw_get Infty st v i)"

text \<open>A weight of probability zero has no expectations.\<close>

definition zero_ok :: "fstore \<Rightarrow> nat \<Rightarrow> bool" where
  "zero_ok st v \<longleftrightarrow> (fw_isZero st v \<longrightarrow> (\<forall>i. fw_get Infty st v i = Infty))"

lemma frame_expect:
  "frame a st st' \<Longrightarrow> u < length (weights st) \<Longrightarrow> u \<noteq> a \<Longrightarrow> prob st' u = prob st u \<and> expect st' u i = expect st u i"
  by (simp add: frame_def prob_def expect_def fw_get_def)

lemma cost_add_log_times: "cost_add a b = log_times a b"
  by (cases a; cases b) (auto simp: log_times_def)

lemma prob_cost_add: "neglogToProb (cost_add a b) = neglogToProb a * neglogToProb b"
  by (simp add: cost_add_log_times prob_times)

lemma prob_zero_iff: "neglogToProb c = 0 \<longleftrightarrow> c = Infty"
  using prob_inj [of c Infty] by simp

lemma prob_shift:
  "neglogToProb (map_getOrElse (shift_features c m) i Infty) = neglogToProb (map_getOrElse m i Infty) * neglogToProb c"
  by (cases "m i") (simp_all add: shift_features_def map_getOrElse_def prob_cost_add)

lemma prob_add_expectations:
  "neglogToProb (map_getOrElse (add_expectations bm m) i Infty) =
     neglogToProb (map_getOrElse m i Infty) + neglogToProb (map_getOrElse bm i Infty)"
  by (cases "m i"; cases "bm i")
    (simp_all add: add_expectations_def map_getOrElse_def mapAddNeglogPlus_def map_update_def neglogPlusBy_plus prob_plus Let_def)

lemma prob_neglog2: "neglogToProb (Fin neglog2) = 2"
  by (simp add: neglog2_def)

lemma assign_weight:
  assumes "fs_ok st" and "a < length (weights st)" and "b < length (weights st)"
  shows "fs_ok (assign a (weight_at st b) st) \<and> frame a st (assign a (weight_at st b) st) \<and>
    features (assign a (weight_at st b) st) a = features st b \<and>
    fw_value (weight_at (assign a (weight_at st b) st) a) = fw_value (weight_at st b)"
proof -
  have "set ((weights st)[a := weight_at st b]) \<subseteq> set (weights st)"
    using assms(3) by (intro set_update_subsetI) (auto simp: weight_at_def)
  then show ?thesis using assms by (auto simp: fs_ok_def assign_def frame_assign [unfolded assign_def] features_def weight_at_def
      split: option.split)
qed

text \<open>The result of a write, in the terms of the semiring.\<close>

lemma write_result:
  fixes f :: "feature_map \<Rightarrow> feature_map" and c :: cost
  assumes ok: "fs_ok st" and a: "a < length (weights st)"
  defines "st' \<equiv> map_write a f (ownMap a (set_value a c st))"
  shows "fs_ok st' \<and> frame a st st' \<and> prob st' a = neglogToProb c \<and>
    (\<forall>i. expect st' a i = neglogToProb (map_getOrElse (f (features st a)) i Infty)) \<and> owns st' a"
proof -
  let ?s = "set_value a c st"
  note V = set_value_facts [OF a, of c]
  have l: "a < length (weights ?s)" using V(5) a by simp
  note O = own_write [OF V(7) [OF ok] l, of f]
  show ?thesis using O V frame_trans [OF V(1) O(2)]
    by (simp add: st'_def prob_def expect_def fw_get_def)
qed

definition semiring_result :: "nat \<Rightarrow> fstore \<Rightarrow> fstore \<Rightarrow> real \<Rightarrow> (nat \<Rightarrow> real) \<Rightarrow> bool" where
  "semiring_result a st st' p e \<longleftrightarrow> fs_ok st' \<and> frame a st st' \<and> prob st' a = p \<and> (\<forall>i. expect st' a i = e i)"

lemma result_refl: "fs_ok st \<Longrightarrow> prob st a = p \<Longrightarrow> (\<And>i. expect st a i = e i) \<Longrightarrow> semiring_result a st st p e"
  by (simp add: semiring_result_def)

lemma result_assign:
  assumes "fs_ok st" and "a < length (weights st)" and "b < length (weights st)"
    and "prob st b = p" and "\<And>i. expect st b i = e i"
  shows "semiring_result a st (assign a (weight_at st b) st) p e"
  using assign_weight [OF assms(1-3)] assms(4,5) by (simp add: semiring_result_def prob_def expect_def fw_get_def)

lemma result_write:
  assumes "fs_ok st" and "a < length (weights st)" and "neglogToProb c = p"
    and "\<And>i. neglogToProb (map_getOrElse (f (features st a)) i Infty) = e i"
  shows "semiring_result a st (map_write a f (ownMap a (set_value a c st))) p e"
  using write_result [OF assms(1,2), of f c] assms(3,4) by (simp add: semiring_result_def)

lemma zero_expect: "zero_ok st v \<Longrightarrow> fw_isZero st v \<Longrightarrow> prob st v = 0 \<and> expect st v i = 0"
  by (simp add: zero_ok_def prob_def expect_def fw_isZero_def)

lemma empty_expect: "fw_empty st v \<Longrightarrow> expect st v = (\<lambda>i. 0)"
  by (simp add: fun_eq_iff fw_empty_def expect_def fw_get_def map_getOrElse_def)

lemma exp_plusBy_result:
  assumes ok: "fs_ok st" and a: "a < length (weights st)" and b: "b < length (weights st)"
    and z: "zero_ok st a" "zero_ok st b"
  shows "semiring_result a st (exp_plusBy b a st) (prob st a + prob st b) (\<lambda>i. expect st a i + expect st b i)"
proof -
  have v: "fw_value (weight_at (set_value a c st) a) = c" "pMap (weight_at (set_value a c st) u) = pMap (weight_at st u)"
    "features (set_value a c st) u = features st u" for c u by (simp_all add: a)
  have n: "features st a = Map.empty" if "pMap (weight_at st a) = None" using that by (simp add: features_def)
  have keep: "semiring_result a st (set_value a c st) (neglogToProb c) (expect st a)" for c
    using set_value_facts [OF a, of c] ok by (simp add: semiring_result_def prob_def expect_def fw_get_def)
  consider (bz) "fw_isZero st b" | (az) "\<not> fw_isZero st b" "fw_isZero st a"
    | (self) "\<not> fw_isZero st b" "\<not> fw_isZero st a" "b = a"
    | (two) "\<not> fw_isZero st b" "\<not> fw_isZero st a" "b \<noteq> a" by blast
  then show ?thesis
  proof cases
    case bz
    then show ?thesis using zero_expect [OF z(2) bz] ok by (simp add: exp_plusBy_def result_refl)
  next
    case az
    then show ?thesis using zero_expect [OF z(1) az(2)] result_assign [OF ok a b refl refl] by (simp add: exp_plusBy_def)
  next
    case self
    let ?c = "cost_add (fw_value (weight_at st a)) (Fin neglog2)"
    have c: "neglogToProb ?c = prob st a + prob st a" by (simp add: prob_cost_add prob_neglog2 prob_def del: neglogToProb.simps)
    show ?thesis
    proof (cases "pMap (weight_at st a) = None")
      case True
      then show ?thesis using self keep [of ?c] n empty_expect [of st a] c
        by (simp add: exp_plusBy_def v fw_empty_def)
    next
      case False
      have "semiring_result a st (map_write a (shift_features (Fin neglog2)) (ownMap a (set_value a ?c st)))
          (prob st a + prob st a) (\<lambda>i. expect st a i + expect st a i)"
        by (rule result_write [OF ok a c]) (simp add: prob_shift prob_neglog2 expect_def fw_get_def del: neglogToProb.simps)
      then show ?thesis using self False by (simp add: exp_plusBy_def v)
    qed
  next
    case two
    let ?c = "neglogPlusBy (fw_value (weight_at st b)) (fw_value (weight_at st a))"
    have c: "neglogToProb ?c = prob st a + prob st b" by (simp add: neglogPlusBy_plus prob_plus prob_def)
    show ?thesis
    proof (cases "pMap (weight_at st a) = pMap (weight_at st b)")
      case True
      then have f: "features st b = features st a" by (simp add: features_def)
      show ?thesis
      proof (cases "pMap (weight_at st a) = None")
        case None: True
        then show ?thesis using two True keep [of ?c] n f empty_expect [of st a] empty_expect [of st b] c
          by (simp add: exp_plusBy_def v fw_empty_def)
      next
        case False
        have "semiring_result a st (map_write a (shift_features (Fin neglog2)) (ownMap a (set_value a ?c st)))
            (prob st a + prob st b) (\<lambda>i. expect st a i + expect st b i)"
          by (rule result_write [OF ok a c]) (simp add: prob_shift prob_neglog2 expect_def fw_get_def f del: neglogToProb.simps)
        then show ?thesis using two True False by (simp add: exp_plusBy_def v)
      qed
    next
      case False
      show ?thesis
      proof (cases "fw_empty st b")
        case True
        then show ?thesis using two False keep [of ?c] empty_expect [OF True] c
          by (simp add: exp_plusBy_def v fw_empty_def)
      next
        case ne: False
        have "semiring_result a st (map_write a (add_expectations (features st b)) (ownMap a (set_value a ?c st)))
            (prob st a + prob st b) (\<lambda>i. expect st a i + expect st b i)"
          by (rule result_write [OF ok a c]) (simp add: prob_add_expectations expect_def fw_get_def)
        then show ?thesis using two False ne by (simp add: exp_plusBy_def v fw_empty_def)
      qed
    qed
  qed
qed

lemma exp_timesBy_result:
  assumes ok: "fs_ok st" and a: "a < length (weights st)" and b: "b < length (weights st)"
    and z: "zero_ok st a" "zero_ok st b"
  shows "semiring_result a st (exp_timesBy b a st) (prob st a * prob st b)
    (\<lambda>i. prob st a * expect st b i + prob st b * expect st a i)"
proof -
  let ?av = "fw_value (weight_at st a)" and ?bv = "fw_value (weight_at st b)"
  consider (az) "fw_isZero st a" | (bz) "\<not> fw_isZero st a" "fw_isZero st b"
    | (b1) "\<not> fw_isZero st a" "\<not> fw_isZero st b" "fw_isOne st b"
    | (a1) "\<not> fw_isZero st a" "\<not> fw_isZero st b" "\<not> fw_isOne st b" "fw_isOne st a"
    | (gen) "\<not> fw_isZero st a" "\<not> fw_isZero st b" "\<not> fw_isOne st b" "\<not> fw_isOne st a" by blast
  then show ?thesis
  proof cases
    case az
    then show ?thesis using zero_expect [OF z(1) az] ok by (simp add: exp_timesBy_def result_refl)
  next
    case bz
    let ?s = "fw_setZero a st"
    have "fs_ok ?s" using ok set_update_subset_insert [of "weights st" a "\<lparr>fw_value = Infty, pMap = None\<rparr>"]
      by (fastforce simp: fs_ok_def fw_setZero_def assign_def)
    moreover have "prob ?s a = 0" "expect ?s a i = 0" for i
      using a by (simp_all add: fw_setZero_def prob_def expect_def fw_get_def features_def map_getOrElse_def)
    ultimately have "semiring_result a st ?s 0 (\<lambda>i. 0)"
      using frame_assign [OF a] by (simp add: semiring_result_def fw_setZero_def)
    then show ?thesis using bz zero_expect [OF z(2) bz(2)] by (simp add: exp_timesBy_def)
  next
    case b1
    then have "prob st b = 1" "expect st b = (\<lambda>i. 0)" using empty_expect by (simp_all add: fw_isOne_def prob_def)
    then show ?thesis using b1 ok by (simp add: exp_timesBy_def result_refl)
  next
    case a1
    then have "prob st a = 1" "expect st a = (\<lambda>i. 0)" using empty_expect by (simp_all add: fw_isOne_def prob_def)
    then show ?thesis using a1 result_assign [OF ok a b refl refl] by (simp add: exp_timesBy_def)
  next
    case gen
    let ?st1 = "set_value a (cost_add ?av ?bv) st"
    have c: "neglogToProb (cost_add ?av ?bv) = prob st a * prob st b" by (simp add: prob_cost_add prob_def)
    have l: "a < length (weights ?st1)" by (simp add: a)
    show ?thesis
    proof (cases "pMap (weight_at st a) = pMap (weight_at st b)")
      case True
      then have f: "features st b = features st a" by (simp add: features_def)
      have "semiring_result a st (map_write a (shift_features (neglogPlus ?av ?bv)) (ownMap a ?st1))
          (prob st a * prob st b) (\<lambda>i. prob st a * expect st b i + prob st b * expect st a i)"
        by (rule result_write [OF ok a c]) (simp add: prob_shift prob_plus expect_def fw_get_def f prob_def algebra_simps)
      then show ?thesis using gen True by (simp add: exp_timesBy_def Let_def)
    next
      case False
      then have ba: "b \<noteq> a" by auto
      let ?st3 = "map_write a (shift_features ?bv) (ownMap a ?st1)"
      have R: "fs_ok ?st3 \<and> frame a st ?st3 \<and> prob ?st3 a = prob st a * prob st b \<and>
          (\<forall>i. expect ?st3 a i = neglogToProb (map_getOrElse (shift_features ?bv (features st a)) i Infty)) \<and> owns ?st3 a"
        using write_result [OF ok a, of "shift_features ?bv" "cost_add ?av ?bv"] c by simp
      then have fb: "features ?st3 b = features st b" and l3: "a < length (weights ?st3)"
        using ba b a by (simp_all add: frame_def)
      have e3: "expect ?st3 a i = prob st b * expect st a i" for i
        using R by (simp add: prob_shift expect_def fw_get_def prob_def)
      show ?thesis
      proof (cases "fw_empty st b")
        case True
        then have "exp_timesBy b a st = ?st3"
          using gen False fb by (simp add: exp_timesBy_def Let_def fw_empty_def)
        then show ?thesis using R e3 empty_expect [OF True] by (simp add: semiring_result_def)
      next
        case ne: False
        let ?st4 = "map_write a (add_expectations (shift_features ?av (features st b))) ?st3"
        have eq: "exp_timesBy b a st = ?st4"
          using gen False ne fb by (simp add: exp_timesBy_def Let_def fw_empty_def)
        note M = map_write_facts [OF R [THEN conjunct1] l3, of "add_expectations (shift_features ?av (features st b))"]
        have "expect ?st4 a i = prob st a * expect st b i + prob st b * expect st a i" for i
          using M R e3 [of i] by (simp add: expect_def fw_get_def prob_add_expectations prob_shift prob_def)
        moreover have "frame a st ?st4" using M R by (blast intro: frame_trans)
        ultimately show ?thesis using M R unfolding eq by (simp add: semiring_result_def prob_def)
      qed
    qed
  qed
qed

section \<open>Where plus and times of feature weights are no semiring\<close>

text \<open>
  On a tie \<open>plus(w1, w2)\<close> returns \<open>w2\<close> but \<open>plusBy(w2, w1)\<close> keeps \<open>w1\<close>, so that the features of a
  best path depend on which of the two the caller used; and multiplying by zero keeps features.
\<close>

lemma min_plus_tie:
  assumes "fw_value (weight_at st a) = fw_value (weight_at st b)"
  shows "min_plus st a b = weight_at st b \<and> min_plusBy b a st = st"
proof -
  have "\<not> cost_less c c" for c by (cases c) auto
  then show ?thesis using assms by (simp add: min_plus_def min_plusBy_def)
qed

lemma min_times_zero_keeps_features:
  assumes "a < length (weights st)" and "fw_isZero st a" and "fw_empty st a"
  shows "features (min_timesBy b a st) a = features st b"
proof -
  let ?s = "set_value a (cost_add (fw_value (weight_at st a)) (fw_value (weight_at st b))) st"
  note V = set_value_facts [OF assms(1)]
  have "a < length (weights ?s)" by (simp add: V assms(1))
  moreover have "fw_empty ?s a" using assms(3) by (simp add: fw_empty_def V)
  ultimately show ?thesis using assms(3) V(3)
    by (auto simp: min_timesBy_def timesFeaturesBy_def fw_empty_def V) (simp_all add: features_def V split: option.split)
qed

section \<open>Properties\<close>

text \<open>
  Property C36 (the expectation semiring, with shared feature maps). Adding or multiplying one
  expectation weight by another, or by itself, gives the sum of the probabilities and expectations, or
  the product of the probabilities with the expectations \<open>p(a) * E(b) + p(b) * E(a)\<close>, whichever weights
  share their feature maps; no other weight changes, and the pointers stay valid.
\<close>

theorem expectation_weight_correct:
  assumes "fs_ok st" and "a < length (weights st)" and "b < length (weights st)"
    and "zero_ok st a" and "zero_ok st b"
  shows "semiring_result a st (exp_plusBy b a st) (prob st a + prob st b) (\<lambda>i. expect st a i + expect st b i) \<and>
    semiring_result a st (exp_timesBy b a st) (prob st a * prob st b)
      (\<lambda>i. prob st a * expect st b i + prob st b * expect st a i)"
  using exp_plusBy_result [OF assms] exp_timesBy_result [OF assms] by blast

theorem expectation_weight_correct_witness:
  "let st = \<lparr>weights = [\<lparr>fw_value = Fin 0, pMap = Some 0\<rparr>, \<lparr>fw_value = Fin 0, pMap = Some 0\<rparr>], maps = [[7 \<mapsto> Fin 0]]\<rparr>
   in expect (exp_timesBy 1 0 st) 0 7 = 2 \<and> expect (exp_timesBy 1 0 st) 1 7 = 1"
proof -
  let ?st = "\<lparr>weights = [\<lparr>fw_value = Fin 0, pMap = Some 0\<rparr>, \<lparr>fw_value = Fin 0, pMap = Some 0\<rparr>], maps = [[7 \<mapsto> Fin 0]]\<rparr>"
  have f: "fs_ok ?st" "zero_ok ?st 0" "zero_ok ?st 1" "prob ?st 0 = 1" "prob ?st 1 = 1" "expect ?st 0 7 = 1" "expect ?st 1 7 = 1"
    by (simp_all add: fs_ok_def zero_ok_def fw_isZero_def weight_at_def prob_def expect_def fw_get_def features_def map_getOrElse_def)
  have "semiring_result 0 ?st (exp_timesBy 1 0 ?st) (prob ?st 0 * prob ?st 1)
      (\<lambda>i. prob ?st 0 * expect ?st 1 i + prob ?st 1 * expect ?st 0 i)"
    using expectation_weight_correct [of ?st 0 1] f by simp
  then show ?thesis using f frame_expect [of 0 ?st "exp_timesBy 1 0 ?st" 1 7]
    by (simp add: semiring_result_def Let_def)
qed

end
