(* ===== verification/Hg_Topsort.thy ===== *)
theory Hg_Topsort
  imports Hg_Reach
begin

text \<open>
  Visiting the states in topological order (\<open>sdl/Hypergraph/StatesTraversal.hpp\<close>). A traversal
  calls its visitor on one state after another and the visitor cannot change the hypergraph, so that
  a traversal is modelled by the list of the states in the order of the calls.

  \<open>traverse\<close> is the recursion of the source over the list of the calls still to make: the calls for
  the neighbours of a new state, then the visit of that state, then the remaining calls. It ends
  because every nested call is made for a state that was not visited yet.
\<close>

section \<open>The traversal\<close>

text \<open>\<open>latch\<close> is false out of range, as the test \<open>head < nStates_\<close> before it.\<close>

function traverse :: "(StateId \<Rightarrow> StateId list) \<Rightarrow> StateId list \<Rightarrow> bool list \<times> StateId list \<Rightarrow> bool list \<times> StateId list" where
  "traverse next [] t = t"
| "traverse next (s # ss) (visited, order) =
     (case latch visited s of
        (True, v) \<Rightarrow> (let (v', order') = traverse next (next s) (v, order)
                    in traverse next ss (v', order' @ [s]))
      | (False, v) \<Rightarrow> traverse next ss (visited, order))"
  by pat_completeness auto

definition unvisited :: "bool list \<Rightarrow> nat" where
  "unvisited v = length (filter Not v)"

lemma traverse_unvisited:
  "traverse_dom (next, ss, t) \<Longrightarrow> unvisited (fst (traverse next ss t)) \<le> unvisited (fst t)"
proof (induction rule: traverse.pinduct)
  case (2 "next" s ss visited order)
  show ?case
  proof (cases "latch visited s")
    case (Pair b v)
    show ?thesis
    proof (cases b)
      case False
      then show ?thesis using 2 Pair by (simp add: traverse.psimps)
    next
      case True
      have v: "unvisited v \<le> unvisited visited"
        using latch_unreached [of visited s v] Pair True by (simp add: unvisited_def)
      obtain v' o' where r: "traverse next (next s) (v, order) = (v', o')" by fastforce
      have "unvisited v' \<le> unvisited v" using 2(2) Pair True r by fastforce
      moreover have "unvisited (fst (traverse next ss (v', o' @ [s]))) \<le> unvisited v'" using 2(3) Pair True r by simp
      ultimately show ?thesis using 2(1) Pair True r v by (simp add: traverse.psimps)
    qed
  qed
qed (simp add: traverse.psimps)

lemma latch_unvisited: "(True, w) = latch v i \<Longrightarrow> unvisited w < unvisited v"
  unfolding unvisited_def by (rule latch_unreached) (rule sym)

termination traverse
proof (relation "measures [\<lambda>(next, ss, t). unvisited (fst t), \<lambda>(next, ss, t). length ss]", simp_all, goal_cases)
  case (1 "next" s ss visited y x)
  then show ?case by (simp add: latch_unvisited)
next
  case (2 "next" s visited order x y xa xb ya)
  have "unvisited xb \<le> unvisited y" using traverse_unvisited [OF 2(5)] 2(4) by (metis fst_conv)
  then show ?case using latch_unvisited [OF 2(1)] by simp
qed

declare traverse.simps(2) [simp del]

text \<open>In-arcs first: the tails of a state's in-arcs are visited before it.\<close>

definition in_tails :: "'w hg \<Rightarrow> StateId \<Rightarrow> StateId list" where
  "in_tails hg s = concat (map (\<lambda>a. arc_tails (arcAt hg a)) (inArcsOf hg s))"

definition out_heads :: "'w hg \<Rightarrow> StateId \<Rightarrow> StateId list" where
  "out_heads hg s = map (\<lambda>a. arc_head (arcAt hg a)) (outArcsOf hg s)"

definition first_states :: "'w hg \<Rightarrow> StateId \<Rightarrow> nat" where
  "first_states hg maxState = (if maxState = kNoState then numStates hg else maxState + 1)"

definition TopsortStatesTraversal :: "'w hg \<Rightarrow> StateId \<Rightarrow> sdl_error + StateId list" where
  "TopsortStatesTraversal hg maxState =
     (if \<not> storesInArcs hg then Inl ConfigException
      else if final_state hg = kNoState then Inr []
      else Inr (snd (traverse (in_tails hg) [final_state hg] (replicate (first_states hg maxState) False, []))))"

definition OutsideTopsortStatesTraversal :: "'w hg \<Rightarrow> sdl_error + StateId list" where
  "OutsideTopsortStatesTraversal hg =
     (if \<not> storesOutArcs hg then Inl ConfigException
      else if start_state hg = kNoState then Inr []
      else Inr (snd (traverse (out_heads hg) [start_state hg] (replicate (numStates hg) False, []))))"

definition ReverseTopsortStatesTraversal :: "'w hg \<Rightarrow> sdl_error + StateId list" where
  "ReverseTopsortStatesTraversal hg =
     (if isFsm hg \<and> storesOutArcs hg then OutsideTopsortStatesTraversal hg
      else bindR (TopsortStatesTraversal hg kNoState) (\<lambda>order. Inr (rev order)))"

section \<open>What is visited, and in which order\<close>

definition next_edges :: "nat \<Rightarrow> (StateId \<Rightarrow> StateId list) \<Rightarrow> (StateId \<times> StateId) set" where
  "next_edges n next = {(s, t). s < n \<and> t < n \<and> t \<in> set (next s)}"

text \<open>Every neighbour of a state comes before it.\<close>

definition neighbours_first :: "nat \<Rightarrow> (StateId \<Rightarrow> StateId list) \<Rightarrow> StateId list \<Rightarrow> bool" where
  "neighbours_first n next ord \<longleftrightarrow>
     (\<forall>i < length ord. \<forall>t \<in> set (next (ord ! i)). t < n \<longrightarrow> t \<in> set (take i ord))"

lemma neighbours_first_snoc:
  "neighbours_first n next (ord @ [s]) \<longleftrightarrow>
     neighbours_first n next ord \<and> (\<forall>t \<in> set (next s). t < n \<longrightarrow> t \<in> set ord)"
  unfolding neighbours_first_def by (auto simp: nth_append less_Suc_eq)

lemma neighbours_first_closed:
  "neighbours_first n next ord \<Longrightarrow> s \<in> set ord \<Longrightarrow> t \<in> set (next s) \<Longrightarrow> t < n \<Longrightarrow> t \<in> set ord"
  unfolding neighbours_first_def in_set_conv_nth [of s] by (meson in_set_takeD)

text \<open>The states that are being visited lie on a path to the pending ones.\<close>

definition trav_inv :: "nat \<Rightarrow> (StateId \<Rightarrow> StateId list) \<Rightarrow> bool list \<times> StateId list \<Rightarrow> bool" where
  "trav_inv n next t \<longleftrightarrow> length (fst t) = n \<and> set (snd t) \<subseteq> bits (fst t) \<and> distinct (snd t) \<and>
     neighbours_first n next (snd t)"

lemma traverse_correct:
  assumes "acyclic (next_edges n next)" and "trav_inv n next t"
    and "\<forall>g \<in> bits (fst t) - set (snd t). \<forall>s \<in> set ss. s < n \<longrightarrow> (g, s) \<in> (next_edges n next)\<^sup>+"
  shows "trav_inv n next (traverse next ss t) \<and>
    bits (fst (traverse next ss t)) - set (snd (traverse next ss t)) = bits (fst t) - set (snd t) \<and>
    set (snd t) \<subseteq> set (snd (traverse next ss t)) \<and>
    (\<forall>s \<in> set ss. s < n \<longrightarrow> s \<in> set (snd (traverse next ss t)))"
  using assms
proof (induction "next" ss t rule: traverse.induct)
  case (2 "next" s ss visited order)
  let ?E = "next_edges n next"
  obtain b v where l: "latch visited s = (b, v)" by fastforce
  have len: "length visited = n" using 2(5) by (simp add: trav_inv_def)
  note lb = latch_bits [OF l]
  show ?case
  proof (cases b)
    case False
    have s: "s < n \<Longrightarrow> s \<in> set order"
    proof (rule ccontr)
      assume sn: "s < n" "s \<notin> set order"
      then have "(s, s) \<in> ?E\<^sup>+" using 2(6) lb False len by auto
      then show False using 2(4) by (simp add: acyclic_def)
    qed
    have r: "traverse next (s # ss) (visited, order) = traverse next ss (visited, order)" using l False by (simp add: traverse.simps(2))
    show ?thesis unfolding r using 2(3) [OF _ _ 2(4,5)] l False 2(6) s by auto
  next
    case True
    then have bT: "b = True" by simp
    obtain v1 o1 where r1: "traverse next (next s) (v, order) = (v1, o1)" by fastforce
    have r: "traverse next (s # ss) (visited, order) = traverse next ss (v1, o1 @ [s])" using l True r1 by (simp add: traverse.simps(2))
    have b: "s < n" "s \<notin> bits visited" "bits v = insert s (bits visited)" "length v = n"
      using lb True len by auto
    have so: "s \<notin> set order" using b(2) 2(5) by (auto simp: trav_inv_def)
    have i0: "trav_inv n next (v, order)" using 2(5) b by (auto simp: trav_inv_def)
    have g0: "\<forall>g \<in> bits v - set order. \<forall>t \<in> set (next s). t < n \<longrightarrow> (g, t) \<in> ?E\<^sup>+"
    proof (intro ballI impI)
      fix g t assume g: "g \<in> bits v - set order" and t: "t \<in> set (next s)" "t < n"
      have st: "(s, t) \<in> ?E" using t b(1) by (simp add: next_edges_def)
      show "(g, t) \<in> ?E\<^sup>+"
      proof (cases "g = s")
        case False
        then have "(g, s) \<in> ?E\<^sup>+" using 2(6) g b by auto
        then show ?thesis using st by (rule trancl_into_trancl)
      qed (use st in auto)
    qed
    have A: "trav_inv n next (v1, o1)" "bits v1 - set o1 = bits v - set order" "set order \<subseteq> set o1"
      "\<forall>t \<in> set (next s). t < n \<longrightarrow> t \<in> set o1"
      using 2(1) [OF l [symmetric] bT 2(4)] i0 g0 r1 True by auto
    have s1: "s \<in> bits v1" "s \<notin> set o1" using A(2) b(3) so by auto
    have i1: "trav_inv n next (v1, o1 @ [s])"
      using A(1,4) s1 by (auto simp: trav_inv_def neighbours_first_snoc)
    have gray: "bits v1 - set (o1 @ [s]) = bits visited - set order"
      using A(2) b(2,3) s1 by auto
    have "trav_inv n next (traverse next ss (v1, o1 @ [s])) \<and>
      bits (fst (traverse next ss (v1, o1 @ [s]))) - set (snd (traverse next ss (v1, o1 @ [s]))) = bits visited - set order \<and>
      set (o1 @ [s]) \<subseteq> set (snd (traverse next ss (v1, o1 @ [s]))) \<and>
      (\<forall>x \<in> set ss. x < n \<longrightarrow> x \<in> set (snd (traverse next ss (v1, o1 @ [s]))))"
      using 2(2) [OF l [symmetric] bT r1 [symmetric] refl 2(4)] i1 2(6) gray by auto
    then show ?thesis unfolding r using A(3) by auto
  qed
qed simp

lemma traverse_length: "length (fst (traverse next ss t)) = length (fst t)"
proof (induction "next" ss t rule: traverse.induct)
  case (2 "next" s ss visited order)
  obtain b v where l: "latch visited s = (b, v)" by fastforce
  show ?case
  proof (cases b)
    case False
    then show ?thesis using 2(3) l by (simp add: traverse.simps(2))
  next
    case True
    then have bT: "b = True" by simp
    obtain v1 o1 where r1: "traverse next (next s) (v, order) = (v1, o1)" by fastforce
    then show ?thesis
      using 2(1) [OF l [symmetric] bT] 2(2) [OF l [symmetric] bT r1 [symmetric] refl] latch_bits [OF l] l True by (simp add: traverse.simps(2))
  qed
qed simp

lemma traverse_sound:
  "length (fst t) = n \<Longrightarrow> \<forall>s \<in> set ss. \<forall>x. (s, x) \<in> (next_edges n next)\<^sup>* \<longrightarrow> x < n \<longrightarrow> x \<in> R \<Longrightarrow> set (snd t) \<subseteq> R \<Longrightarrow>
     set (snd (traverse next ss t)) \<subseteq> R"
proof (induction "next" ss t rule: traverse.induct)
  case (2 "next" s ss visited order)
  obtain b v where l: "latch visited s = (b, v)" by fastforce
  have len: "length visited = n" using 2(4) by simp
  note lb = latch_bits [OF l]
  show ?case
  proof (cases b)
    case False
    then show ?thesis using 2(3) l 2(4-) by (simp add: traverse.simps(2))
  next
    case True
    then have bT: "b = True" by simp
    obtain v1 o1 where r1: "traverse next (next s) (v, order) = (v1, o1)" by fastforce
    have s: "s < n" "length v = n" using lb True len by auto
    have "x \<in> R" if "t \<in> set (next s)" "(t, x) \<in> (next_edges n next)\<^sup>*" "x < n" for t x
    proof -
      have "t < n" using that(2,3) by (cases rule: converse_rtranclE) (auto simp: next_edges_def)
      then have "(s, t) \<in> next_edges n next" using that(1) s by (simp add: next_edges_def)
      then have "(s, x) \<in> (next_edges n next)\<^sup>*" using that(2) by (rule converse_rtrancl_into_rtrancl)
      then show ?thesis using 2(5) that(3) by simp
    qed
    then have "set o1 \<subseteq> R" using 2(1) [OF l [symmetric] bT] s(2) 2(6) r1 by simp
    moreover have "s \<in> R" using 2(5) s(1) by simp
    moreover have "length v1 = n" using traverse_length [of "next" "next s" "(v, order)"] r1 s(2) by simp
    ultimately show ?thesis using 2(2) [OF l [symmetric] bT r1 [symmetric] refl] 2(5) l True r1 by (simp add: traverse.simps(2))
  qed
qed simp


text \<open>From one root: exactly what it reaches, once, neighbours first.\<close>

lemma traverse_from:
  assumes f: "f < n" and ac: "acyclic (next_edges n next)"
  defines "order \<equiv> snd (traverse next [f] (replicate n False, []))"
  shows "distinct order" "set order = {s. (f, s) \<in> (next_edges n next)\<^sup>*}" "neighbours_first n next order"
proof -
  let ?t0 = "(replicate n False, [])"
  let ?r = "traverse next [f] ?t0"
  have b: "bits (replicate n False) = {}" by (auto simp: bits_def)
  have C: "trav_inv n next ?r" "f \<in> set (snd ?r)"
    using traverse_correct [OF ac, of ?t0 "[f]"] f by (simp_all add: trav_inv_def neighbours_first_def b)
  then show "distinct order" "neighbours_first n next order" by (simp_all add: order_def trav_inv_def)
  have sub: "(f, s) \<in> (next_edges n next)\<^sup>* \<Longrightarrow> s \<in> set (snd ?r)" for s
    by (induction rule: rtrancl_induct)
      (use C neighbours_first_closed in \<open>auto simp: trav_inv_def next_edges_def\<close>)
  have "set (snd ?r) \<subseteq> {s. (f, s) \<in> (next_edges n next)\<^sup>*}"
    by (rule traverse_sound [where n = n]) simp_all
  then show "set order = {s. (f, s) \<in> (next_edges n next)\<^sup>*}" using sub unfolding order_def by blast
qed

lemma reached_below: "(f, s) \<in> (next_edges n next)\<^sup>* \<Longrightarrow> f < n \<Longrightarrow> s < n"
  by (cases rule: rtranclE) (auto simp: next_edges_def)

text \<open>
  On a hypergraph without cycles below its final state, \<open>TopsortStatesTraversal\<close> visits each of the
  first n states that can contribute to the final state exactly once, no other state, and every tail
  of an in-arc of a state before that state.
\<close>

lemma topsort_order:
  assumes "storesInArcs hg" and "final_state hg \<noteq> kNoState"
    and n: "n = first_states hg maxState" and f: "final_state hg < n" and ac: "acyclic (next_edges n (in_tails hg))"
  shows "\<exists>order. TopsortStatesTraversal hg maxState = Inr order \<and> distinct order \<and>
    set order = {s. (final_state hg, s) \<in> (next_edges n (in_tails hg))\<^sup>*} \<and>
    neighbours_first n (in_tails hg) order"
  using assms(1,2) traverse_from [OF f ac] unfolding TopsortStatesTraversal_def n by auto

lemma outside_topsort_order:
  assumes "storesOutArcs hg" and "start_state hg \<noteq> kNoState"
    and n: "n = numStates hg" and f: "start_state hg < n" and ac: "acyclic (next_edges n (out_heads hg))"
  shows "\<exists>order. OutsideTopsortStatesTraversal hg = Inr order \<and> distinct order \<and>
    set order = {s. (start_state hg, s) \<in> (next_edges n (out_heads hg))\<^sup>*} \<and>
    neighbours_first n (out_heads hg) order"
  using assms(1,2) traverse_from [OF f ac] unfolding OutsideTopsortStatesTraversal_def n by auto

end
