(* ===== verification/Shortest_Distance.thy ===== *)
theory Shortest_Distance
  imports Hg_Sort Weights
begin

text \<open>
  All-pairs distances of an fsm (\<open>sdl/Hypergraph/AllPairsShortestDistance.hpp\<close>) in a matrix
  (\<open>sdl/Util/Matrix.hpp\<close>): Floyd and Warshall's algorithm for any fsm, and one pass per source for a
  topologically sorted acyclic one. The weights and their operations are an argument, as the template
  parameter of the source. A reference into the matrix is read where the code reads it, after the
  writes before it.
\<close>

section \<open>Matrices\<close>

record 'w matrix =
  rows :: nat
  cols :: nat
  container :: "'w list"

definition new_matrix :: "nat \<Rightarrow> nat \<Rightarrow> 'w \<Rightarrow> 'w matrix" where
  "new_matrix n m dflt = \<lparr>rows = n, cols = m, container = replicate (n * m) dflt\<rparr>"

definition getEntryId :: "'w matrix \<Rightarrow> nat \<Rightarrow> nat \<Rightarrow> nat" where
  "getEntryId m r c = cols m * r + c"

definition mat_get :: "'w matrix \<Rightarrow> nat \<Rightarrow> nat \<Rightarrow> 'w" where
  "mat_get m r c = container m ! getEntryId m r c"

definition mat_set :: "'w matrix \<Rightarrow> nat \<Rightarrow> nat \<Rightarrow> 'w \<Rightarrow> 'w matrix" where
  "mat_set m r c x = m\<lparr>container := (container m)[getEntryId m r c := x]\<rparr>"

definition mat_fill :: "'w \<Rightarrow> 'w matrix \<Rightarrow> 'w matrix" where
  "mat_fill x m = m\<lparr>container := replicate (length (container m)) x\<rparr>"

definition setJustDiagonal :: "'w \<Rightarrow> 'w matrix \<Rightarrow> 'w matrix" where
  "setJustDiagonal onDiag m =
     (let N = min (rows m) (cols m); stride = cols m + 1
      in m\<lparr>container := fold (\<lambda>i c. c[i := onDiag]) (map (\<lambda>k. stride * k) [0..<N]) (container m)\<rparr>)"

definition setDiagonal :: "'w \<Rightarrow> 'w \<Rightarrow> 'w matrix \<Rightarrow> 'w matrix" where
  "setDiagonal onDiag offDiag m = setJustDiagonal onDiag (mat_fill offDiag m)"

definition mat_reset :: "nat \<Rightarrow> nat \<Rightarrow> 'w \<Rightarrow> 'w matrix \<Rightarrow> 'w matrix" where
  "mat_reset n m dflt x = x\<lparr>rows := n, cols := m, container := replicate (n * m) dflt\<rparr>"

definition mat_ok :: "'w matrix \<Rightarrow> bool" where
  "mat_ok m \<longleftrightarrow> length (container m) = rows m * cols m"

lemma entry_bound: "r < n \<Longrightarrow> c < k \<Longrightarrow> k * r + c < n * (k :: nat)"
proof -
  assume "r < n" "c < k"
  then have "k * r + c < k * Suc r" "k * Suc r \<le> k * n" using mult_le_mono2 [of "Suc r" n k] by simp_all
  then show ?thesis unfolding mult.commute [of n k] by linarith
qed

lemma entry_inj: "c < k \<Longrightarrow> c' < k \<Longrightarrow> k * r + c = k * r' + c' \<longleftrightarrow> r = r' \<and> c = (c' :: nat)"
proof
  assume c: "c < k" "c' < k" and e: "k * r + c = k * r' + c'"
  have "(k * r + c) div k = r" "(k * r + c) mod k = c" "(k * r' + c') div k = r'" "(k * r' + c') mod k = c'"
    using c by simp_all
  then show "r = r' \<and> c = c'" using e by metis
qed simp

lemma mat_set_facts [simp]:
  "rows (mat_set m r c x) = rows m" "cols (mat_set m r c x) = cols m" "mat_ok (mat_set m r c x) = mat_ok m"
  by (simp_all add: mat_set_def mat_ok_def)

lemma mat_get_set:
  assumes "mat_ok m" and "r < rows m" "c < cols m" "c' < cols m"
  shows "mat_get (mat_set m r c x) r' c' = (if r' = r \<and> c' = c then x else mat_get m r' c')"
proof -
  have "getEntryId m r c < length (container m)"
    using entry_bound [OF assms(2,3)] assms(1) by (simp add: mat_ok_def getEntryId_def)
  moreover have "getEntryId m r' c' = getEntryId m r c \<longleftrightarrow> r' = r \<and> c' = c"
    unfolding getEntryId_def by (rule entry_inj [OF assms(4,3)])
  moreover have "getEntryId (mat_set m r c x) r' c' = getEntryId m r' c'"
    by (simp add: getEntryId_def mat_set_def)
  ultimately show ?thesis unfolding mat_get_def by (auto simp: mat_set_def)
qed

lemma setJustDiagonal_facts:
  assumes "mat_ok m" and "r < rows m" and "c < cols m" and "rows m = cols m"
  shows "mat_get (setJustDiagonal x m) r c = (if r = c then x else mat_get m r c)"
    and "mat_ok (setJustDiagonal x m)" "rows (setJustDiagonal x m) = rows m" "cols (setJustDiagonal x m) = cols m"
proof -
  let ?s = "cols m + 1"
  have l: "length (fold (\<lambda>i c. c[i := x]) is xs) = length xs" for "is" :: "nat list" and xs :: "'a list"
    by (induction "is" arbitrary: xs) simp_all
  then show "mat_ok (setJustDiagonal x m)" "rows (setJustDiagonal x m) = rows m" "cols (setJustDiagonal x m) = cols m"
    using assms(1) by (simp_all add: setJustDiagonal_def mat_ok_def Let_def)
  have g: "fold (\<lambda>i c. c[i := x]) is xs ! j = (if j \<in> set is then x else xs ! j)"
    if "j < length xs" for "is" :: "nat list" and xs :: "'a list" and j
    using that by (induction "is" arbitrary: xs) auto
  have j: "getEntryId m r c < length (container m)"
    using entry_bound [OF assms(2,3)] assms(1) by (simp add: mat_ok_def getEntryId_def)
  have d: "getEntryId m r c = ?s * k \<longleftrightarrow> r = k \<and> c = k" if "k < cols m" for k
    using entry_inj [OF assms(3) that, of r k] by (simp add: getEntryId_def add.commute)
  have "getEntryId m r c \<in> (\<lambda>k. ?s * k) ` {0..<cols m} \<longleftrightarrow> (\<exists>k < cols m. getEntryId m r c = ?s * k)"
    unfolding image_iff Bex_def atLeastLessThan_iff by blast
  also have "\<dots> \<longleftrightarrow> r = c" using d assms(3) by metis
  finally have "getEntryId m r c \<in> (\<lambda>k. ?s * k) ` {0..<cols m} \<longleftrightarrow> r = c" .
  then show "mat_get (setJustDiagonal x m) r c = (if r = c then x else mat_get m r c)"
    using g [OF j] assms(4) by (simp add: mat_get_def setJustDiagonal_def getEntryId_def Let_def)
qed

lemma mat_fill_facts:
  "mat_ok (mat_fill x m) = mat_ok m" "rows (mat_fill x m) = rows m" "cols (mat_fill x m) = cols m"
  "mat_ok m \<Longrightarrow> r < rows m \<Longrightarrow> c < cols m \<Longrightarrow> mat_get (mat_fill x m) r c = x"
  using entry_bound [of r "rows m" c "cols m"]
  by (simp_all add: mat_fill_def mat_ok_def mat_get_def getEntryId_def)

lemma setDiagonal_facts:
  assumes "mat_ok m" and "rows m = cols m"
  shows "mat_ok (setDiagonal x y m)" "rows (setDiagonal x y m) = rows m" "cols (setDiagonal x y m) = cols m"
    "r < rows m \<Longrightarrow> c < cols m \<Longrightarrow> mat_get (setDiagonal x y m) r c = (if r = c then x else y)"
proof -
  note F = mat_fill_facts [where x = y and m = m]
  show "rows (setDiagonal x y m) = rows m" "cols (setDiagonal x y m) = cols m"
    by (simp_all add: setDiagonal_def setJustDiagonal_def F Let_def)
  have l: "length (fold (\<lambda>i c. c[i := x]) is xs) = length xs" for "is" :: "nat list" and xs :: "'a list"
    by (induction "is" arbitrary: xs) simp_all
  then show "mat_ok (setDiagonal x y m)"
    using assms by (simp add: setDiagonal_def setJustDiagonal_def mat_ok_def mat_fill_def Let_def)
  show "mat_get (setDiagonal x y m) r c = (if r = c then x else y)" if "r < rows m" "c < cols m"
    using setJustDiagonal_facts(1) [of "mat_fill y m" r c x] F that assms by (simp add: setDiagonal_def)
qed

section \<open>Floyd and Warshall\<close>

text \<open>\<open>arcWtFn\<close> is the weight of an arc unless the caller passes another function.\<close>

definition floydWarshallInit :: "'w weight_ops \<Rightarrow> ('w arc \<Rightarrow> 'w) \<Rightarrow> 'w hg \<Rightarrow> 'w matrix \<Rightarrow> 'w matrix" where
  "floydWarshallInit W arcWtFn hg distances =
     fold (\<lambda>tail d. fold (\<lambda>a d. let x = arcAt hg a
                                  in mat_set d tail (arc_head x) (w_plus W (mat_get d tail (arc_head x)) (arcWtFn x)))
                      (outArcsOf hg tail) d)
       [0..<rows distances] (setDiagonal (w_one W) (w_zero W) distances)"

definition fw_cell :: "'w weight_ops \<Rightarrow> nat \<Rightarrow> nat \<Rightarrow> nat \<Rightarrow> 'w matrix \<Rightarrow> 'w matrix" where
  "fw_cell W k i j d =
     (if i = j then d
      else let wkj = mat_get d k j
           in if wkj = w_zero W then d
              else mat_set d i j (w_plus W (mat_get d i j) (w_times W (mat_get d i k) wkj)))"

definition fw_row :: "'w weight_ops \<Rightarrow> nat \<Rightarrow> nat \<Rightarrow> nat \<Rightarrow> 'w matrix \<Rightarrow> 'w matrix" where
  "fw_row W n k i d =
     (if k = i then d
      else if mat_get d i k = w_zero W then d
      else fold (fw_cell W k i) [0..<n] d)"

definition floydWarshallOverMatrix :: "'w weight_ops \<Rightarrow> 'w matrix \<Rightarrow> 'w matrix" where
  "floydWarshallOverMatrix W d =
     (let n = rows d in fold (\<lambda>k d. fold (fw_row W n k) [0..<n] d) [0..<n] d)"

definition floydWarshall :: "'w weight_ops \<Rightarrow> ('w arc \<Rightarrow> 'w) \<Rightarrow> 'w hg \<Rightarrow> 'w matrix \<Rightarrow> sdl_error + 'w matrix" where
  "floydWarshall W arcWtFn hg distances =
     (if \<not> isFsm hg then Inl ConfigException
      else Inr (floydWarshallOverMatrix W (floydWarshallInit W arcWtFn hg distances)))"

section \<open>A topologically sorted acyclic fsm\<close>

text \<open>
  \<open>AllPairsSortedDag::compute\<close>: one row per source, in order, and in a row the states the source can
  reach, in order. \<open>keep\<close> is the \<open>KeepFn\<close>, \<open>zeroDropped\<close> the flag \<open>ZeroDroppedPaths\<close>. A reference
  into the row is read where it is used. The second component of a row's result is \<open>maxEnd[from]\<close>.
\<close>

fun dag_arcs :: "'w weight_ops \<Rightarrow> ('w arc \<Rightarrow> 'w) \<Rightarrow> 'w hg \<Rightarrow> nat \<Rightarrow> nat \<Rightarrow> ArcHandle list \<Rightarrow> 'w matrix
    \<Rightarrow> sdl_error + 'w matrix" where
  "dag_arcs W arcWtFn hg from' via [] d = Inr d"
| "dag_arcs W arcWtFn hg from' via (a # as) d =
     (let x = arcAt hg a; to' = arc_head x
      in if to' \<le> from' then Inl CycleException
         else dag_arcs W arcWtFn hg from' via as
                (mat_set d from' to' (w_plus W (mat_get d from' to') (w_times W (mat_get d from' via) (arcWtFn x)))))"

fun dag_row :: "'w weight_ops \<Rightarrow> ('w \<Rightarrow> bool) \<Rightarrow> bool \<Rightarrow> ('w arc \<Rightarrow> 'w) \<Rightarrow> 'w hg \<Rightarrow> nat \<Rightarrow> nat list
    \<Rightarrow> nat \<Rightarrow> 'w matrix \<Rightarrow> sdl_error + ('w matrix \<times> nat)" where
  "dag_row W keep zeroDropped arcWtFn hg from' [] maxEndFrom d = Inr (d, maxEndFrom)"
| "dag_row W keep zeroDropped arcWtFn hg from' (via # vias) maxEndFrom d =
     (let viaWt = mat_get d from' via
      in if viaWt = w_zero W then dag_row W keep zeroDropped arcWtFn hg from' vias maxEndFrom d
         else if \<not> keep viaWt
         then dag_row W keep zeroDropped arcWtFn hg from' vias maxEndFrom
                (if zeroDropped then mat_set d from' via (w_zero W) else d)
         else bindR (dag_arcs W arcWtFn hg from' via (outArcsOf hg via) d)
                (\<lambda>d1. dag_row W keep zeroDropped arcWtFn hg from' vias via d1))"

fun dag_rows :: "'w weight_ops \<Rightarrow> ('w \<Rightarrow> bool) \<Rightarrow> bool \<Rightarrow> ('w arc \<Rightarrow> 'w) \<Rightarrow> 'w hg \<Rightarrow> nat \<Rightarrow> nat list
    \<Rightarrow> 'w matrix \<Rightarrow> sdl_error + ('w matrix \<times> nat list)" where
  "dag_rows W keep zeroDropped arcWtFn hg n [] d = Inr (d, [])"
| "dag_rows W keep zeroDropped arcWtFn hg n (from' # froms) d =
     bindR (dag_row W keep zeroDropped arcWtFn hg from' [from'..<n] 0 (mat_set d from' from' (w_one W)))
       (\<lambda>(d1, maxEnd). bindR (dag_rows W keep zeroDropped arcWtFn hg n froms d1)
          (\<lambda>(d2, maxEnds). Inr (d2, maxEnd # maxEnds)))"

definition AllPairsSortedDag :: "'w weight_ops \<Rightarrow> ('w \<Rightarrow> bool) \<Rightarrow> bool \<Rightarrow> ('w arc \<Rightarrow> 'w) \<Rightarrow> 'w hg \<Rightarrow> 'w matrix
    \<Rightarrow> sdl_error + ('w matrix \<times> nat list)" where
  "AllPairsSortedDag W keep zeroDropped arcWtFn hg distances =
     (let nStates = rows distances
      in if cols distances \<noteq> nStates then Inl IndexException
         else dag_rows W keep zeroDropped arcWtFn hg nStates [0..<nStates] distances)"

definition allPairsSortedDag :: "'w weight_ops \<Rightarrow> ('w \<Rightarrow> bool) \<Rightarrow> bool \<Rightarrow> ('w arc \<Rightarrow> 'w) \<Rightarrow> 'w hg \<Rightarrow> 'w matrix
    \<Rightarrow> sdl_error + ('w matrix \<times> nat list)" where
  "allPairsSortedDag W keep zeroDropped arcWtFn hg distances =
     AllPairsSortedDag W keep zeroDropped arcWtFn hg (mat_fill (w_zero W) distances)"

section \<open>Paths of weighted edges\<close>

type_synonym 'w edges = "nat \<Rightarrow> 'w \<Rightarrow> nat \<Rightarrow> bool"

fun wpath :: "'w edges \<Rightarrow> nat \<Rightarrow> ('w \<times> nat) list \<Rightarrow> nat \<Rightarrow> bool" where
  "wpath E i [] j \<longleftrightarrow> i = j"
| "wpath E i ((w, h) # p) j \<longleftrightarrow> E i w h \<and> wpath E h p j"

definition pweight :: "'w weight_ops \<Rightarrow> ('w \<times> nat) list \<Rightarrow> 'w" where
  "pweight W p = foldr (w_times W) (map fst p) (w_one W)"

definition wsum :: "'w weight_ops \<Rightarrow> 'w list \<Rightarrow> 'w" where
  "wsum W xs = foldr (w_plus W) xs (w_zero W)"

lemma wpath_append: "wpath E i (p @ q) j \<longleftrightarrow> (\<exists>k. wpath E i p k \<and> wpath E k q j)"
  by (induction p arbitrary: i) auto

lemma wpath_last: "wpath E i p j \<Longrightarrow> p \<noteq> [] \<Longrightarrow> snd (last p) = j"
  by (induction p arbitrary: i) (auto split: if_splits)

text \<open>The states a path passes through, without its ends.\<close>

definition inner :: "('w \<times> nat) list \<Rightarrow> nat set" where
  "inner p = set (map snd (butlast p))"

lemma inner_append: "inner p1 \<subseteq> inner (p1 @ p2)" "inner p2 \<subseteq> inner (p1 @ p2)"
  by (auto simp: inner_def butlast_append dest: in_set_butlastD)

text \<open>A path through \<open>k\<close>: up to the first visit, the loops, and from the last visit.\<close>

lemma wpath_split:
  assumes p: "wpath E i p j" and k: "k \<in> inner p" and b: "inner p \<subseteq> {..<Suc k}"
  shows "\<exists>p1 l p2. p = p1 @ l @ p2 \<and> wpath E i p1 k \<and> wpath E k l k \<and> wpath E k p2 j \<and>
    inner p1 \<subseteq> {..<k} \<and> inner p2 \<subseteq> {..<k}"
proof -
  have k': "\<exists>x \<in> set p. snd x = k" using k by (auto simp: inner_def dest: in_set_butlastD)
  obtain a x c where s: "p = a @ x # c" "snd x = k" "\<forall>y \<in> set a. snd y \<noteq> k"
    using split_list_first_prop [OF k'] by blast
  have "c \<noteq> []"
  proof
    assume "c = []"
    then have "inner p = set (map snd a)" using s by (simp add: inner_def)
    then show False using k s(3) by auto
  qed
  have "wpath E i ((a @ [x]) @ c) j" using p by (simp add: s(1))
  then obtain q where q: "wpath E i (a @ [x]) q" "wpath E q c j" unfolding wpath_append by blast
  have qk: "q = k" using wpath_last [OF q(1)] s(2) by simp
  have "inner (a @ [x]) \<subseteq> {..<k}"
  proof
    fix y assume "y \<in> inner (a @ [x])"
    then have "y \<in> snd ` set a" by (simp add: inner_def)
    moreover have "inner p = snd ` (set a \<union> {x} \<union> set (butlast c))" using s(1) \<open>c \<noteq> []\<close> by (simp add: inner_def butlast_append image_Un)
    ultimately have "y \<in> inner p" "y \<noteq> k" using s(3) by auto
    then show "y \<in> {..<k}" using b by (auto simp: lessThan_Suc)
  qed
  moreover have "\<exists>l p2. c = l @ p2 \<and> wpath E k l k \<and> wpath E k p2 j \<and> inner p2 \<subseteq> {..<k}"
  proof (cases "k \<in> inner c")
    case True
    then have kc: "\<exists>y \<in> set (butlast c). snd y = k" by (auto simp: inner_def)
    obtain d y e where t: "butlast c = d @ y # e" "snd y = k" "\<forall>z \<in> set e. snd z \<noteq> k"
      using split_list_last_prop [OF kc] by blast
    have c: "c = (d @ [y]) @ (e @ [last c])" using append_butlast_last_id [OF \<open>c \<noteq> []\<close>] t(1) by simp
    have "wpath E k ((d @ [y]) @ (e @ [last c])) j" using q(2) qk c by simp
    then obtain r where r: "wpath E k (d @ [y]) r" "wpath E r (e @ [last c]) j" unfolding wpath_append by blast
    have "r = k" using wpath_last [OF r(1)] t(2) by simp
    moreover have "inner (e @ [last c]) \<subseteq> {..<k}"
    proof
      fix z assume "z \<in> inner (e @ [last c])"
      then have z: "z \<in> snd ` set e" by (simp add: inner_def)
      then have "z \<in> inner c" using t(1) by (auto simp: inner_def)
      moreover have "inner c \<subseteq> inner p" using inner_append(2) [of c "a @ [x]"] s(1) by simp
      ultimately have "z \<in> {..<Suc k}" using b by blast
      moreover have "z \<noteq> k" using t(3) z by auto
      ultimately show "z \<in> {..<k}" by (simp add: lessThan_Suc)
    qed
    ultimately show ?thesis using r c by blast
  next
    case False
    have "inner c \<subseteq> inner p" using inner_append(2) [of c "a @ [x]"] s(1) by simp
    then have "inner c \<subseteq> {..<k}" using b False by (auto simp: lessThan_Suc subset_iff)
    then show ?thesis using q(2) qk by (intro exI [of _ "[]"] exI [of _ c]) simp
  qed
  then obtain l p2 where l: "c = l @ p2" "wpath E k l k" "wpath E k p2 j" "inner p2 \<subseteq> {..<k}" by blast
  ultimately show ?thesis using s(1) q(1) qk
    by (intro exI [of _ "a @ [x]"] exI [of _ l] exI [of _ p2]) (simp add: l)
qed

section \<open>Floyd and Warshall on an idempotent semiring\<close>

text \<open>An entry is the sum of finitely many paths.\<close>

definition path_sum :: "'w weight_ops \<Rightarrow> 'w edges \<Rightarrow> nat \<Rightarrow> nat \<Rightarrow> 'w \<Rightarrow> bool" where
  "path_sum W E i j x \<longleftrightarrow> (\<exists>ps. (\<forall>p \<in> set ps. wpath E i p j) \<and> x = wsum W (map (pweight W) ps))"

definition mat_square :: "nat \<Rightarrow> 'w matrix \<Rightarrow> bool" where
  "mat_square n d \<longleftrightarrow> mat_ok d \<and> rows d = n \<and> cols d = n"

lemma mat_square_set [simp]: "mat_square n (mat_set d i j x) = mat_square n d"
  by (simp add: mat_square_def)

lemma square_get_set:
  "mat_square n d \<Longrightarrow> i < n \<Longrightarrow> j < n \<Longrightarrow> j' < n \<Longrightarrow>
     mat_get (mat_set d i j x) i' j' = (if i' = i \<and> j' = j then x else mat_get d i' j')"
  unfolding mat_square_def by (auto simp: mat_get_set)

context weight_semiring
begin

lemma pweight_append: "pweight W (p @ q) = w_times W (pweight W p) (pweight W q)"
  by (simp add: pweight_def foldr_times_append del: foldr_append)

lemma wsum_simps:
  "wsum W [] = w_zero W" "wsum W (x # xs) = w_plus W x (wsum W xs)"
  "wsum W (xs @ ys) = w_plus W (wsum W xs) (wsum W ys)"
  "w_times W a (wsum W xs) = wsum W (map (w_times W a) xs)"
  "w_times W (wsum W xs) a = wsum W (map (\<lambda>x. w_times W x a) xs)"
  by (simp_all add: wsum_def sum_append sum_times_left sum_times_right del: foldr_append)

lemma path_sum_zero: "path_sum W E i j (w_zero W)"
  unfolding path_sum_def by (intro exI [of _ "[]"]) (simp add: wsum_def)

lemma path_sum_path: "wpath E i p j \<Longrightarrow> path_sum W E i j (pweight W p)"
  unfolding path_sum_def by (intro exI [of _ "[p]"]) (simp add: wsum_def plus_zero_right)

lemma path_sum_plus:
  assumes "path_sum W E i j x" and "path_sum W E i j y"
  shows "path_sum W E i j (w_plus W x y)"
proof -
  obtain ps qs where "\<forall>p \<in> set ps. wpath E i p j" "x = wsum W (map (pweight W) ps)"
    "\<forall>p \<in> set qs. wpath E i p j" "y = wsum W (map (pweight W) qs)" using assms unfolding path_sum_def by blast
  then show ?thesis unfolding path_sum_def by (intro exI [of _ "ps @ qs"]) (auto simp: wsum_simps)
qed

lemma wsum_times: "w_times W (wsum W xs) (wsum W ys) = wsum W (concat (map (\<lambda>x. map (w_times W x) ys) xs))"
  by (induction xs) (simp_all add: wsum_simps(1-3) zero_times distrib_right, simp add: wsum_simps(4))

lemma path_sum_times:
  assumes "path_sum W E i k x" and "path_sum W E k j y"
  shows "path_sum W E i j (w_times W x y)"
proof -
  obtain ps qs where P: "\<forall>p \<in> set ps. wpath E i p k" "x = wsum W (map (pweight W) ps)"
    "\<forall>q \<in> set qs. wpath E k q j" "y = wsum W (map (pweight W) qs)" using assms unfolding path_sum_def by blast
  let ?rs = "concat (map (\<lambda>p. map (\<lambda>q. p @ q) qs) ps)"
  have "w_times W x y = wsum W (map (pweight W) ?rs)"
    unfolding P(2,4) wsum_times by (rule arg_cong [where f = "wsum W"]) (simp add: map_concat comp_def pweight_append)
  moreover have "\<forall>r \<in> set ?rs. wpath E i r j" using P(1,3) by (auto simp: wpath_append)
  ultimately show ?thesis unfolding path_sum_def by blast
qed

end

context idempotent_weight
begin

text \<open>Entries only grow, and stay sums of paths.\<close>

definition all_sums :: "'a edges \<Rightarrow> nat \<Rightarrow> 'a matrix \<Rightarrow> bool" where
  "all_sums E n d \<longleftrightarrow> mat_square n d \<and> (\<forall>i < n. \<forall>j < n. path_sum W E i j (mat_get d i j))"

definition grown :: "nat \<Rightarrow> 'a matrix \<Rightarrow> 'a matrix \<Rightarrow> bool" where
  "grown n d d' \<longleftrightarrow> (\<forall>i < n. \<forall>j < n. below (mat_get d i j) (mat_get d' i j))"

lemma grownD: "grown n d d' \<Longrightarrow> i < n \<Longrightarrow> j < n \<Longrightarrow> below (mat_get d i j) (mat_get d' i j)"
  by (simp add: grown_def)

lemma grown_refl: "grown n d d"
  by (simp add: grown_def below_refl)

lemma grown_trans: "grown n d d' \<Longrightarrow> grown n d' d'' \<Longrightarrow> grown n d d''"
  unfolding grown_def by (blast intro: below_trans)

lemma fw_cell_step:
  assumes s: "all_sums E n d" and b: "k < n" "i < n" "j < n"
  shows "all_sums E n (fw_cell W k i j d) \<and> grown n d (fw_cell W k i j d) \<and>
    (i \<noteq> j \<longrightarrow> below (w_times W (mat_get d i k) (mat_get d k j)) (mat_get (fw_cell W k i j d) i j)) \<and>
    (k \<noteq> i \<longrightarrow> (\<forall>j' < n. mat_get (fw_cell W k i j d) k j' = mat_get d k j'))"
proof -
  have sq: "mat_square n d" and p: "path_sum W E i j (mat_get d i j)" "path_sum W E i k (mat_get d i k)" "path_sum W E k j (mat_get d k j)"
    using s b by (simp_all add: all_sums_def)
  let ?x = "w_plus W (mat_get d i j) (w_times W (mat_get d i k) (mat_get d k j))"
  have "fw_cell W k i j d = d \<and> (i = j \<or> mat_get d k j = w_zero W) \<or> fw_cell W k i j d = mat_set d i j ?x"
    by (auto simp: fw_cell_def Let_def)
  then show ?thesis
  proof
    assume e: "fw_cell W k i j d = d \<and> (i = j \<or> mat_get d k j = w_zero W)"
    then have "i \<noteq> j \<longrightarrow> w_times W (mat_get d i k) (mat_get d k j) = w_zero W" by (auto simp: times_zero)
    then show ?thesis using e s by (auto simp: grown_refl zero_below)
  next
    assume e: "fw_cell W k i j d = mat_set d i j ?x"
    have g: "mat_get (fw_cell W k i j d) i' j' = (if i' = i \<and> j' = j then ?x else mat_get d i' j')" if "j' < n" for i' j'
      unfolding e by (rule square_get_set [OF sq b(2,3) that])
    have "path_sum W E i j ?x" by (rule path_sum_plus [OF p(1) path_sum_times [OF p(2,3)]])
    then have "all_sums E n (fw_cell W k i j d)" using s g e by (auto simp: all_sums_def)
    moreover have "grown n d (fw_cell W k i j d)" using g below_plus(1) by (auto simp: grown_def below_refl)
    ultimately show ?thesis using g [OF b(3), of i] g below_plus(2) by auto
  qed
qed

lemma fw_cells:
  assumes "all_sums E n d" and "k < n" "i < n" "k \<noteq> i" and "\<forall>j \<in> set js. j < n"
  shows "all_sums E n (fold (fw_cell W k i) js d) \<and> grown n d (fold (fw_cell W k i) js d) \<and>
    (\<forall>j \<in> set js. i \<noteq> j \<longrightarrow> below (w_times W (mat_get d i k) (mat_get d k j)) (mat_get (fold (fw_cell W k i) js d) i j)) \<and>
    (\<forall>j' < n. mat_get (fold (fw_cell W k i) js d) k j' = mat_get d k j')"
  using assms(1,5)
proof (induction js arbitrary: d)
  case (Cons j js)
  let ?c = "fw_cell W k i j d"
  have j: "j < n" using Cons.prems(2) by simp
  note S = fw_cell_step [OF Cons.prems(1) assms(2,3) j]
  have c: "all_sums E n ?c" "grown n d ?c" "\<forall>j' < n. mat_get ?c k j' = mat_get d k j'" using S assms(4) by blast+
  note I = Cons.IH [OF c(1)]
  let ?r = "fold (fw_cell W k i) js ?c"
  have r: "all_sums E n ?r" "grown n ?c ?r" "\<forall>j' < n. mat_get ?r k j' = mat_get d k j'"
    using I Cons.prems(2) c(3) by auto
  have "below (w_times W (mat_get d i k) (mat_get d k j')) (mat_get ?r i j')" if j': "j' \<in> set (j # js)" "i \<noteq> j'" for j'
  proof (cases "j' = j")
    case True
    then show ?thesis using S j' grownD [OF r(2) assms(3) j] by (blast intro: below_trans)
  next
    case False
    then have "j' \<in> set js" "j' < n" using j' Cons.prems(2) by auto
    then have "below (w_times W (mat_get ?c i k) (mat_get ?c k j')) (mat_get ?r i j')" using I Cons.prems(2) j'(2) by simp
    moreover have "below (w_times W (mat_get d i k) (mat_get d k j')) (w_times W (mat_get ?c i k) (mat_get ?c k j'))"
      using grownD [OF c(2) assms(3,2)] c(3) \<open>j' < n\<close> by (simp add: times_mono below_refl)
    ultimately show ?thesis by (blast intro: below_trans)
  qed
  then show ?case using r grown_trans [OF c(2) r(2)] by simp
qed (simp add: grown_refl)

lemma fw_row_step:
  assumes s: "all_sums E n d" and b: "k < n" "i < n"
  shows "all_sums E n (fw_row W n k i d) \<and> grown n d (fw_row W n k i d) \<and>
    (\<forall>j < n. i \<noteq> k \<longrightarrow> i \<noteq> j \<longrightarrow> below (w_times W (mat_get d i k) (mat_get d k j)) (mat_get (fw_row W n k i d) i j)) \<and>
    (\<forall>j < n. mat_get (fw_row W n k i d) k j = mat_get d k j)"
proof -
  consider (same) "k = i" | (zero) "k \<noteq> i" "mat_get d i k = w_zero W" | (all) "k \<noteq> i" "mat_get d i k \<noteq> w_zero W" by blast
  then show ?thesis
  proof cases
    case all
    then show ?thesis using fw_cells [OF s b all(1), of "[0..<n]"] by (auto simp: fw_row_def)
  qed (use s in \<open>auto simp: fw_row_def grown_refl zero_times zero_below\<close>)
qed

text \<open>A phase extends the completeness of the entries by one inner state.\<close>

definition complete :: "'a edges \<Rightarrow> nat \<Rightarrow> nat \<Rightarrow> 'a matrix \<Rightarrow> bool" where
  "complete E n k d \<longleftrightarrow>
     (\<forall>i < n. \<forall>j < n. \<forall>p. wpath E i p j \<longrightarrow> inner p \<subseteq> {..<k} \<longrightarrow> below (pweight W p) (mat_get d i j)) \<and>
     (\<forall>i < n. below (w_one W) (mat_get d i i))"

lemma phase_rows:
  assumes "all_sums E n d" and "k < n" and "\<forall>i \<in> set iss. i < n"
  shows "all_sums E n (fold (fw_row W n k) iss d) \<and> grown n d (fold (fw_row W n k) iss d) \<and>
    (\<forall>i \<in> set iss. \<forall>j < n. i \<noteq> k \<longrightarrow> i \<noteq> j \<longrightarrow>
       below (w_times W (mat_get d i k) (mat_get d k j)) (mat_get (fold (fw_row W n k) iss d) i j)) \<and>
    (\<forall>j < n. mat_get (fold (fw_row W n k) iss d) k j = mat_get d k j)"
  using assms(1,3)
proof (induction iss arbitrary: d)
  case (Cons i js)
  let ?c = "fw_row W n k i d"
  have i: "i < n" using Cons.prems(2) by simp
  note S = fw_row_step [OF Cons.prems(1) assms(2) i]
  have c: "all_sums E n ?c" "grown n d ?c" "\<forall>j < n. mat_get ?c k j = mat_get d k j" using S by blast+
  note I = Cons.IH [OF c(1)]
  let ?r = "fold (fw_row W n k) js ?c"
  have r: "all_sums E n ?r" "grown n ?c ?r" "\<forall>j < n. mat_get ?r k j = mat_get d k j"
    using I Cons.prems(2) c(3) by auto
  have "below (w_times W (mat_get d i' k) (mat_get d k j)) (mat_get ?r i' j)"
    if i': "i' \<in> set (i # js)" "j < n" "i' \<noteq> k" "i' \<noteq> j" for i' j
  proof (cases "i' = i")
    case True
    then show ?thesis using S i' grownD [OF r(2) i i'(2)] by (blast intro: below_trans)
  next
    case False
    then have "i' \<in> set js" "i' < n" using i' Cons.prems(2) by auto
    then have "below (w_times W (mat_get ?c i' k) (mat_get ?c k j)) (mat_get ?r i' j)" using I Cons.prems(2) i'(2-4) by simp
    moreover have "below (w_times W (mat_get d i' k) (mat_get d k j)) (w_times W (mat_get ?c i' k) (mat_get ?c k j))"
      using grownD [OF c(2) \<open>i' < n\<close> assms(2)] c(3) i'(2) by (simp add: times_mono below_refl)
    ultimately show ?thesis by (blast intro: below_trans)
  qed
  then show ?case using r grown_trans [OF c(2) r(2)] by simp
qed (simp add: grown_refl)

lemma pweight_below_one:
  assumes "\<And>i w h. E i w h \<Longrightarrow> below w (w_one W)" and "wpath E i p j"
  shows "below (pweight W p) (w_one W)"
  using assms(2)
proof (induction p arbitrary: i)
  case (Cons x p)
  obtain w h where x: "x = (w, h)" by force
  have "below (w_times W w (pweight W p)) (w_times W (w_one W) (w_one W))"
    using Cons x assms(1) by (intro times_mono) auto
  then show ?case by (simp add: x pweight_def one_times)
qed (simp add: pweight_def below_refl)

lemma phase_complete:
  assumes s: "all_sums E n d" and k: "k < n" and c: "complete E n k d"
    and b: "\<And>i w h. E i w h \<Longrightarrow> below w (w_one W)"
  defines "d' \<equiv> fold (fw_row W n k) [0..<n] d"
  shows "all_sums E n d' \<and> complete E n (Suc k) d'"
proof -
  note P = phase_rows [OF s k, of "[0..<n]", folded d'_def]
  have pb: "wpath E i p j \<Longrightarrow> below (pweight W p) (w_one W)" for i p j
    by (rule pweight_below_one [of E]) (rule b)
  have S: "all_sums E n d'" and G: "grown n d d'" using P by simp_all
  have thru: "below (w_times W (mat_get d i k) (mat_get d k j)) (mat_get d' i j)" if "i < n" "j < n" "i \<noteq> k" "i \<noteq> j" for i j
    using P that by simp
  have old: "below (pweight W p) (mat_get d i j)" if "i < n" "j < n" "wpath E i p j" "inner p \<subseteq> {..<k}" for i j p
    using c that by (simp add: complete_def)
  have one: "below (w_one W) (mat_get d' i i)" if "i < n" for i
    using c that grownD [OF G that that] by (auto simp: complete_def intro: below_trans)
  have "below (pweight W p) (mat_get d' i j)" if p: "i < n" "j < n" "wpath E i p j" "inner p \<subseteq> {..<Suc k}" for i j p
  proof (cases "k \<in> inner p")
    case False
    then have "inner p \<subseteq> {..<k}" using p(4) by (auto simp: lessThan_Suc)
    then show ?thesis using old [OF p(1-3)] grownD [OF G p(1,2)] by (blast intro: below_trans)
  next
    case True
    obtain p1 l p2 where q: "p = p1 @ l @ p2" "wpath E i p1 k" "wpath E k l k" "wpath E k p2 j"
      "inner p1 \<subseteq> {..<k}" "inner p2 \<subseteq> {..<k}" using wpath_split [OF p(3) True p(4)] by blast
    have l: "below (pweight W l) (w_one W)" by (rule pb [OF q(3)])
    have 1: "below (pweight W p1) (mat_get d i k)" and 2: "below (pweight W p2) (mat_get d k j)"
      using old [OF p(1) k q(2,5)] old [OF k p(2) q(4,6)] by auto
    have "below (pweight W p) (w_times W (mat_get d i k) (w_times W (w_one W) (mat_get d k j)))"
      unfolding q(1) pweight_append by (intro times_mono 1 2 l)
    then have via: "below (pweight W p) (w_times W (mat_get d i k) (mat_get d k j))" by (simp add: one_times)
    consider (ij) "i = j" | (ik) "i \<noteq> j" "i = k" | (ne) "i \<noteq> j" "i \<noteq> k" by blast
    then show ?thesis
    proof cases
      case ij
      then show ?thesis using pb [OF p(3)] one [OF p(1)] by (blast intro: below_trans)
    next
      case ik
      have "below (pweight W p1) (w_one W)" by (rule pb [OF q(2)])
      then have "below (pweight W p) (w_times W (w_one W) (w_times W (w_one W) (mat_get d k j)))"
        unfolding q(1) pweight_append by (intro times_mono 2 l)
      then show ?thesis using grownD [OF G k p(2)] ik by (auto simp: one_times intro: below_trans)
    next
      case ne
      then show ?thesis using thru [OF p(1,2)] via by (blast intro: below_trans)
    qed
  qed
  then show ?thesis using S one by (simp add: complete_def)
qed

lemma overMatrix_complete:
  assumes s: "all_sums E n d" and c: "complete E n 0 d" and b: "\<And>i w h. E i w h \<Longrightarrow> below w (w_one W)"
  shows "all_sums E n (floydWarshallOverMatrix W d) \<and> complete E n n (floydWarshallOverMatrix W d)"
proof -
  have r: "rows d = n" using s by (simp add: all_sums_def mat_square_def)
  have "all_sums E n (fold (\<lambda>k d. fold (fw_row W n k) [0..<n] d) [0..<m] d) \<and>
      complete E n m (fold (\<lambda>k d. fold (fw_row W n k) [0..<n] d) [0..<m] d)" if "m \<le> n" for m
    using that
  proof (induction m)
    case (Suc m)
    then show ?case using phase_complete [of E n _ m] b by simp
  qed (use s c in simp)
  from this [of n] show ?thesis by (simp add: floydWarshallOverMatrix_def Let_def r)
qed

end

section \<open>The distances of an fsm\<close>

text \<open>The edges of the hypergraph: from a state to the heads of the arcs in its out-arc list.\<close>

definition arc_edges :: "('w arc \<Rightarrow> 'w) \<Rightarrow> 'w hg \<Rightarrow> 'w edges" where
  "arc_edges arcWtFn hg i w h \<longleftrightarrow>
     (\<exists>a \<in> set (outArcsOf hg i). arc_head (arcAt hg a) = h \<and> arcWtFn (arcAt hg a) = w)"

definition heads_below :: "nat \<Rightarrow> 'w hg \<Rightarrow> bool" where
  "heads_below n hg \<longleftrightarrow> (\<forall>i < n. \<forall>a \<in> set (outArcsOf hg i). arc_head (arcAt hg a) < n)"

definition init_arc :: "'w weight_ops \<Rightarrow> ('w arc \<Rightarrow> 'w) \<Rightarrow> 'w hg \<Rightarrow> nat \<Rightarrow> ArcHandle \<Rightarrow> 'w matrix \<Rightarrow> 'w matrix" where
  "init_arc W arcWtFn hg tail a d =
     (let x = arcAt hg a
      in mat_set d tail (arc_head x) (w_plus W (mat_get d tail (arc_head x)) (arcWtFn x)))"

lemma floydWarshallInit_fold:
  "floydWarshallInit W arcWtFn hg distances =
     fold (\<lambda>tail. fold (init_arc W arcWtFn hg tail) (outArcsOf hg tail)) [0..<rows distances]
       (setDiagonal (w_one W) (w_zero W) distances)"
  by (simp add: floydWarshallInit_def init_arc_def [abs_def])

context idempotent_weight
begin

lemma init_arcs:
  assumes "all_sums E n d" and t: "t < n"
    and "\<forall>a \<in> set as. arc_head (arcAt hg a) < n \<and> E t (f (arcAt hg a)) (arc_head (arcAt hg a))"
  shows "all_sums E n (fold (init_arc W f hg t) as d) \<and> grown n d (fold (init_arc W f hg t) as d) \<and>
    (\<forall>a \<in> set as. below (f (arcAt hg a)) (mat_get (fold (init_arc W f hg t) as d) t (arc_head (arcAt hg a))))"
  using assms(1,3)
proof (induction as arbitrary: d)
  case (Cons a as)
  let ?h = "arc_head (arcAt hg a)" and ?w = "f (arcAt hg a)"
  let ?c = "init_arc W f hg t a d" and ?x = "w_plus W (mat_get d t ?h) ?w"
  have h: "?h < n" "E t ?w ?h" using Cons.prems(2) by simp_all
  have sq: "mat_square n d" and p: "path_sum W E t ?h (mat_get d t ?h)" using Cons.prems(1) t h by (simp_all add: all_sums_def)
  have g: "mat_get ?c i j = (if i = t \<and> j = ?h then ?x else mat_get d i j)" if "j < n" for i j
    using square_get_set [OF sq t h(1) that] by (simp add: init_arc_def Let_def)
  have "path_sum W E t ?h (pweight W [(?w, ?h)])" by (rule path_sum_path) (simp add: h)
  then have "path_sum W E t ?h ?x" using path_sum_plus [OF p] by (simp add: pweight_def times_one)
  moreover have "mat_square n ?c" using sq by (simp add: init_arc_def Let_def)
  ultimately have c: "all_sums E n ?c" "grown n d ?c" "below ?w (mat_get ?c t ?h)"
    using Cons.prems(1) g [OF h(1), of t] g below_plus by (auto simp: all_sums_def grown_def below_refl)
  have I: "all_sums E n (fold (init_arc W f hg t) as ?c) \<and> grown n ?c (fold (init_arc W f hg t) as ?c) \<and>
    (\<forall>a \<in> set as. below (f (arcAt hg a)) (mat_get (fold (init_arc W f hg t) as ?c) t (arc_head (arcAt hg a))))"
    by (rule Cons.IH [OF c(1)]) (use Cons.prems(2) in simp)
  then show ?case using c grown_trans [OF c(2)] grownD [of n ?c _ t ?h] t h by (auto intro: below_trans)
qed (simp add: grown_refl)

lemma init_complete:
  assumes m: "mat_square n m" and h: "heads_below n hg"
  shows "all_sums (arc_edges f hg) n (floydWarshallInit W f hg m) \<and> complete (arc_edges f hg) n 0 (floydWarshallInit W f hg m)"
proof -
  let ?E = "arc_edges f hg" and ?d = "setDiagonal (w_one W) (w_zero W) m"
  note D = setDiagonal_facts [of m, where x = "w_one W" and y = "w_zero W"]
  have dg: "mat_get ?d i j = (if i = j then w_one W else w_zero W)" if "i < n" "j < n" for i j
    using D(4) that m by (simp add: mat_square_def)
  have "path_sum W ?E i i (w_one W)" for i using path_sum_path [of ?E i "[]" i] by (simp add: pweight_def)
  then have s0: "all_sums ?E n ?d" using dg m D path_sum_zero by (auto simp: all_sums_def mat_square_def)
  let ?r = "\<lambda>k. fold (\<lambda>tail. fold (init_arc W f hg tail) (outArcsOf hg tail)) [0..<k] ?d"
  have R: "all_sums ?E n (?r k) \<and> grown n ?d (?r k) \<and>
      (\<forall>t < k. \<forall>a \<in> set (outArcsOf hg t). below (f (arcAt hg a)) (mat_get (?r k) t (arc_head (arcAt hg a))))" if "k \<le> n" for k
    using that
  proof (induction k)
    case (Suc k)
    then have k: "k < n" and I: "all_sums ?E n (?r k)" "grown n ?d (?r k)"
      "\<forall>t < k. \<forall>a \<in> set (outArcsOf hg t). below (f (arcAt hg a)) (mat_get (?r k) t (arc_head (arcAt hg a)))" by simp_all
    have b: "\<forall>a \<in> set (outArcsOf hg k). arc_head (arcAt hg a) < n \<and> ?E k (f (arcAt hg a)) (arc_head (arcAt hg a))"
      using h k by (auto simp: heads_below_def arc_edges_def)
    note J = init_arcs [OF I(1) k b]
    have e: "?r (Suc k) = fold (init_arc W f hg k) (outArcsOf hg k) (?r k)" by simp
    have "below (f (arcAt hg a)) (mat_get (?r (Suc k)) t (arc_head (arcAt hg a)))"
      if t: "t < Suc k" "a \<in> set (outArcsOf hg t)" for t a
    proof (cases "t = k")
      case True
      then show ?thesis using J t unfolding e by blast
    next
      case False
      then have "t < k" "t < n" using t k by simp_all
      moreover from this have "arc_head (arcAt hg a) < n" using h t by (auto simp: heads_below_def)
      ultimately show ?thesis using I(3) t(2) grownD [of n "?r k" "?r (Suc k)" t] J k unfolding e by (auto intro: below_trans)
    qed
    then show ?case using J grown_trans [OF I(2)] unfolding e by blast
  qed (use s0 in \<open>simp add: grown_refl\<close>)
  have fi: "floydWarshallInit W f hg m = ?r n" using m by (simp add: floydWarshallInit_fold mat_square_def)
  have one: "below (w_one W) (mat_get (?r n) i i)" if "i < n" for i
    using R [of n] dg [OF that that] grownD [of n ?d "?r n" i i] that by simp
  have "below (pweight W p) (mat_get (?r n) i j)" if p: "i < n" "j < n" "wpath ?E i p j" "inner p \<subseteq> {..<0}" for i j p
  proof (cases p)
    case Nil
    then show ?thesis using p one by (simp add: pweight_def)
  next
    case (Cons x q)
    then have "q = []" using p(4) by (cases q) (auto simp: inner_def)
    moreover obtain w k where "x = (w, k)" by force
    ultimately have w: "?E i w j" "pweight W p = w" using p(3) Cons by (auto simp: pweight_def times_one)
    then obtain a where a: "a \<in> set (outArcsOf hg i)" "arc_head (arcAt hg a) = j" "f (arcAt hg a) = w"
      by (auto simp: arc_edges_def)
    have "below (f (arcAt hg a)) (mat_get (?r n) i (arc_head (arcAt hg a)))" using R [of n] p(1) a(1) by simp
    then show ?thesis using a(2,3) w(2) by simp
  qed
  then show ?thesis using R [of n] one unfolding fi by (simp add: complete_def)
qed

text \<open>On a semiring whose sum is one of the arguments, the distance is the weight of a path.\<close>

lemma wsum_attained:
  assumes "\<And>a b. w_plus W a b = a \<or> w_plus W a b = b"
  shows "wsum W xs = w_zero W \<or> wsum W xs \<in> set xs"
proof (induction xs)
  case (Cons a xs)
  then show ?case using assms [of a "wsum W xs"] by (auto simp: wsum_simps)
qed (simp add: wsum_simps)

lemma wpath_inner:
  assumes "\<And>i w h. i < n \<Longrightarrow> E i w h \<Longrightarrow> h < n" and "wpath E i p j" and "i < n"
  shows "inner p \<subseteq> {..<n}"
proof -
  have "snd ` set p \<subseteq> {..<n}" using assms(2,3)
  proof (induction p arbitrary: i)
    case (Cons x p)
    then show ?case using assms(1) by (cases x) auto
  qed simp
  then show ?thesis by (auto simp: inner_def dest: in_set_butlastD)
qed

lemma floydWarshall_lub:
  assumes m: "mat_square n m" and h: "heads_below n hg" and fsm: "isFsm hg"
    and b: "\<And>i w h. arc_edges f hg i w h \<Longrightarrow> below w (w_one W)"
  shows "\<exists>d. floydWarshall W f hg m = Inr d \<and>
    (\<forall>i < n. \<forall>j < n. path_sum W (arc_edges f hg) i j (mat_get d i j) \<and>
       (\<forall>p. wpath (arc_edges f hg) i p j \<longrightarrow> below (pweight W p) (mat_get d i j)))"
proof -
  let ?E = "arc_edges f hg" and ?d = "floydWarshallOverMatrix W (floydWarshallInit W f hg m)"
  have hd: "h' < n" if "i < n" "?E i w h'" for i w h' using h that by (auto simp: heads_below_def arc_edges_def)
  have "all_sums ?E n ?d \<and> complete ?E n n ?d"
    using overMatrix_complete [of ?E n] init_complete [OF m h, of f] b by blast
  then have "\<forall>i < n. \<forall>j < n. path_sum W ?E i j (mat_get ?d i j) \<and>
       (\<forall>p. wpath ?E i p j \<longrightarrow> below (pweight W p) (mat_get ?d i j))"
    using wpath_inner [of n ?E] hd unfolding all_sums_def complete_def by blast
  then show ?thesis using fsm by (simp add: floydWarshall_def)
qed

end

section \<open>Properties\<close>

definition cost_sum :: "(cost \<times> nat) list \<Rightarrow> cost" where
  "cost_sum p = foldr cost_add (map fst p) (Fin 0)"

lemma pweight_cost_sum: "pweight viterbi_ops p = cost_sum p"
proof -
  have "viterbi_times = cost_add" using viterbi_updates(2) by (simp add: fun_eq_iff viterbi_timesBy_def)
  then show ?thesis by (simp add: pweight_def cost_sum_def viterbi_ops_def)
qed

text \<open>
  Property C37 (all-pairs shortest distances). On an fsm with Viterbi weights that are not negative,
  whatever cycles it has, \<open>floydWarshall\<close> into an n by n matrix leaves for every pair of the first n
  states the least cost of a path between them, and infinity exactly when the paths there are cost
  infinity or there is none.
\<close>

theorem floydWarshall_shortest:
  assumes "mat_square n m" and "heads_below n hg" and "isFsm hg"
    and "\<forall>i. \<forall>a \<in> set (outArcsOf hg i). \<not> cost_less (arc_weight (arcAt hg a)) (Fin 0)"
  shows "\<exists>d. floydWarshall viterbi_ops arc_weight hg m = Inr d \<and>
    (\<forall>i < n. \<forall>j < n.
       (\<forall>p. wpath (arc_edges arc_weight hg) i p j \<longrightarrow> \<not> cost_less (cost_sum p) (mat_get d i j)) \<and>
       (mat_get d i j = Infty \<or> (\<exists>p. wpath (arc_edges arc_weight hg) i p j \<and> mat_get d i j = cost_sum p)))"
proof -
  let ?E = "arc_edges arc_weight hg"
  have b: "viterbi_weight.below w (w_one viterbi_ops)" if "?E i w h" for i w h
  proof -
    have "w_one viterbi_ops = Fin 0" by (simp add: viterbi_ops_def)
    then show ?thesis using that assms(4) by (auto simp only: viterbi_below arc_edges_def)
  qed
  have att: "x = Infty \<or> (\<exists>p. wpath ?E i p j \<and> x = cost_sum p)" if PS: "path_sum viterbi_ops ?E i j x" for i j x
  proof -
    obtain ps where ps: "\<forall>p \<in> set ps. wpath ?E i p j" "x = wsum viterbi_ops (map (pweight viterbi_ops) ps)"
      using PS unfolding path_sum_def by blast
    have "w_plus viterbi_ops a b = a \<or> w_plus viterbi_ops a b = b" for a b
      by (simp add: viterbi_ops_def viterbi_plus_def)
    from viterbi_weight.wsum_attained [OF this] have "x = w_zero viterbi_ops \<or> x \<in> set (map (pweight viterbi_ops) ps)"
      unfolding ps(2) by blast
    moreover have "w_zero viterbi_ops = Infty" by (simp add: viterbi_ops_def)
    ultimately show ?thesis using ps(1) by (auto simp: pweight_cost_sum)
  qed
  have "\<exists>d. floydWarshall viterbi_ops arc_weight hg m = Inr d \<and>
      (\<forall>i < n. \<forall>j < n. path_sum viterbi_ops ?E i j (mat_get d i j) \<and>
         (\<forall>p. wpath ?E i p j \<longrightarrow> viterbi_weight.below (pweight viterbi_ops p) (mat_get d i j)))"
    by (rule viterbi_weight.floydWarshall_lub [OF assms(1-3)]) (rule b)
  then obtain d where d: "floydWarshall viterbi_ops arc_weight hg m = Inr d"
    "\<forall>i < n. \<forall>j < n. path_sum viterbi_ops ?E i j (mat_get d i j) \<and>
       (\<forall>p. wpath ?E i p j \<longrightarrow> viterbi_weight.below (pweight viterbi_ops p) (mat_get d i j))" by blast
  show ?thesis by (rule exI [of _ d]) (use d att in \<open>auto simp: viterbi_below pweight_cost_sum\<close>)
qed

definition sample_cost_fsm :: "cost hg" where
  "sample_cost_fsm = hg_zero\<lparr>props := kStoreFirstTailOutArcs OR kFsm, fsmChecked := True, numStates := 3,
     arc_heap := [0 \<mapsto> new_arc_fsm 0 2 (Fin 3) 1], next_arc := 1, outArcsPerState := [[0]]\<rparr>"

theorem floydWarshall_shortest_witness:
  "\<exists>d. floydWarshall viterbi_ops arc_weight sample_cost_fsm (new_matrix 2 2 Infty) = Inr d \<and>
     \<not> cost_less (Fin 3) (mat_get d 0 1)"
proof -
  let ?m = "new_matrix 2 2 Infty"
  have m: "mat_square 2 ?m" by (simp add: mat_square_def mat_ok_def new_matrix_def)
  have o: "outArcsOf sample_cost_fsm i = (if i = 0 then [0] else [])" for i
    by (simp add: outArcsOf_def sample_cost_fsm_def getOrElse_def)
  have a: "arcAt sample_cost_fsm 0 = new_arc_fsm 0 2 (Fin 3) 1" by (simp add: arcAt_def sample_cost_fsm_def)
  have f: "isFsm sample_cost_fsm"
    by (simp add: isFsm_def properties_def sample_cost_fsm_def computeFsmGraphProperty_def flag_simps)
  have h: "heads_below 2 sample_cost_fsm" by (simp add: heads_below_def o a new_arc_fsm_def)
  have w: "\<forall>i. \<forall>a \<in> set (outArcsOf sample_cost_fsm i). \<not> cost_less (arc_weight (arcAt sample_cost_fsm a)) (Fin 0)"
    by (simp add: o a new_arc_fsm_def)
  have p: "wpath (arc_edges arc_weight sample_cost_fsm) 0 [(Fin 3, 1)] 1" "cost_sum [(Fin 3, 1)] = Fin 3"
    by (simp_all add: arc_edges_def o a new_arc_fsm_def cost_sum_def)
  obtain d where d: "floydWarshall viterbi_ops arc_weight sample_cost_fsm ?m = Inr d"
    "\<forall>i < 2. \<forall>j < 2. (\<forall>p. wpath (arc_edges arc_weight sample_cost_fsm) i p j \<longrightarrow> \<not> cost_less (cost_sum p) (mat_get d i j))"
    using floydWarshall_shortest [OF m h f w] by blast
  have "\<not> cost_less (cost_sum [(Fin 3, 1)]) (mat_get d 0 1)" using d(2) p(1) by simp
  then show ?thesis using d(1) p(2) by auto
qed

text \<open>
  All-pairs distances of log weights. The loops skip the pairs that would multiply by
  the distance of a state to itself, but not the column of the state they go through: with log weights
  the one edge between two states is counted twice. For every cost \<open>x\<close> the distance that is left
  stands for twice the probability of the only path.
\<close>

theorem floydWarshall_doubles:
  "neglogToProb (mat_get (floydWarshallOverMatrix log_ops
      \<lparr>rows = 2, cols = 2, container = [Fin 0, Fin x, Infty, Fin 0]\<rparr>) 0 1) = 2 * neglogToProb (Fin x)"
proof -
  let ?m = "\<lparr>rows = 2, cols = 2, container = [Fin 0, Fin x, Infty, Fin 0]\<rparr>"
  have "floydWarshallOverMatrix log_ops ?m =
      ?m\<lparr>container := [Fin 0, log_plus (Fin x) (log_times (Fin x) (Fin 0)), Infty, Fin 0]\<rparr>"
    by (simp add: floydWarshallOverMatrix_def fw_row_def fw_cell_def mat_get_def mat_set_def getEntryId_def
        log_ops_def upt_rec numeral_2_eq_2 Let_def)
  then show ?thesis by (simp add: mat_get_def getEntryId_def log_plus_def prob_plus prob_times del: neglogPlus.simps)
qed

end
