(* ===== verification/Dag_Distance.thy ===== *)
theory Dag_Distance
  imports Shortest_Distance
begin

text \<open>
  The distances of a topologically sorted acyclic fsm (\<open>allPairsShortestDistance\<close> with
  \<open>AllPairsSortedDag\<close>, \<open>sdl/Hypergraph/AllPairsShortestDistance.hpp\<close>): the entry of a pair of states
  is the sum, in the semiring, of the weights of all paths between them, each path counted once.
\<close>

section \<open>The sum of all paths\<close>

fun apath :: "'w hg \<Rightarrow> nat \<Rightarrow> ArcHandle list \<Rightarrow> nat \<Rightarrow> bool" where
  "apath hg i [] j \<longleftrightarrow> i = j"
| "apath hg i (a # as) j \<longleftrightarrow> a \<in> set (outArcsOf hg i) \<and> apath hg (arc_head (arcAt hg a)) as j"

definition aweight :: "'w weight_ops \<Rightarrow> ('w arc \<Rightarrow> 'w) \<Rightarrow> 'w hg \<Rightarrow> ArcHandle list \<Rightarrow> 'w" where
  "aweight W f hg as = foldr (w_times W) (map (\<lambda>a. f (arcAt hg a)) as) (w_one W)"

definition forward :: "nat \<Rightarrow> 'w hg \<Rightarrow> bool" where
  "forward n hg \<longleftrightarrow> (\<forall>via < n. \<forall>a \<in> set (outArcsOf hg via). via < arc_head (arcAt hg a))"

text \<open>The paths found after the first \<open>k\<close> states from the source on were processed.\<close>

primrec paths_upto :: "'w hg \<Rightarrow> nat \<Rightarrow> nat \<Rightarrow> nat \<Rightarrow> ArcHandle list list" where
  "paths_upto hg from' 0 j = (if j = from' then [[]] else [])"
| "paths_upto hg from' (Suc k) j =
     paths_upto hg from' k j @
     concat (map (\<lambda>a. map (\<lambda>p. p @ [a]) (paths_upto hg from' k (from' + k)))
       (filter (\<lambda>a. arc_head (arcAt hg a) = j) (outArcsOf hg (from' + k))))"

lemma apath_snoc: "apath hg i (p @ [a]) j \<longleftrightarrow> (\<exists>v. apath hg i p v \<and> a \<in> set (outArcsOf hg v) \<and> arc_head (arcAt hg a) = j)"
  by (induction p arbitrary: i) auto

lemma apath_end: "apath hg i p j \<Longrightarrow> apath hg i p j' \<Longrightarrow> j = j'"
  by (induction p arbitrary: i) auto

lemma paths_upto_sound: "p \<in> set (paths_upto hg i k j) \<Longrightarrow> apath hg i p j"
proof (induction k arbitrary: p j)
  case (Suc k)
  then consider "p \<in> set (paths_upto hg i k j)" |
    q a where "p = q @ [a]" "q \<in> set (paths_upto hg i k (i + k))" "a \<in> set (outArcsOf hg (i + k))" "arc_head (arcAt hg a) = j"
    by auto
  then show ?case
  proof cases
    case 2
    have "apath hg i q (i + k)" by (rule Suc.IH [OF 2(2)])
    then show ?thesis unfolding 2(1) apath_snoc using 2(3,4) by blast
  qed (rule Suc.IH)
qed (simp split: if_splits)

lemma paths_upto_mono: "k \<le> k' \<Longrightarrow> set (paths_upto hg i k j) \<subseteq> set (paths_upto hg i k' j)"
  by (induction rule: dec_induct) auto

lemma apath_forward:
  assumes "forward n hg" and "heads_below n hg" and "i < n" and "apath hg i p j"
  shows "i \<le> j \<and> j < n"
  using assms(3,4)
proof (induction p arbitrary: i)
  case (Cons a p)
  then have "i < arc_head (arcAt hg a)" "arc_head (arcAt hg a) < n" "apath hg (arc_head (arcAt hg a)) p j"
    using assms(1,2) by (auto simp: forward_def heads_below_def)
  then show ?case using Cons.IH [of "arc_head (arcAt hg a)"] by simp
qed simp

lemma paths_upto_complete:
  assumes fw: "forward n hg" "heads_below n hg" and i: "i < n" and "apath hg i p j" and "j - i \<le> k"
  shows "p \<in> set (paths_upto hg i k j)"
  using assms(4,5)
proof (induction p arbitrary: j k rule: rev_induct)
  case Nil
  then show ?case using paths_upto_mono [of 0 k hg i j] by auto
next
  case (snoc a p)
  then obtain v where v: "apath hg i p v" "a \<in> set (outArcsOf hg v)" "arc_head (arcAt hg a) = j" by (auto simp: apath_snoc)
  have b: "i \<le> v" "v < n" "v < j"
    using apath_forward [OF fw i v(1)] fw(1) v(2,3) by (auto simp: forward_def)
  have "p \<in> set (paths_upto hg i (v - i) v)" by (rule snoc.IH [OF v(1)]) simp
  then have p: "p @ [a] \<in> set (paths_upto hg i (Suc (v - i)) j)" using v b by auto
  have "Suc (v - i) \<le> k" using b snoc.prems(2) by simp
  from paths_upto_mono [OF this] show ?case using p by (rule subsetD)
qed

lemma paths_upto_last: "q @ [a] \<in> set (paths_upto hg i k j) \<Longrightarrow> \<exists>v < i + k. apath hg i q v"
proof (induction k)
  case (Suc k)
  then consider "q @ [a] \<in> set (paths_upto hg i k j)" | "q \<in> set (paths_upto hg i k (i + k))" by auto
  then show ?case
  proof cases
    case 1
    from Suc.IH [OF this] obtain v where "v < i + k" "apath hg i q v" by blast
    then show ?thesis by (intro exI [of _ v]) simp
  next
    case 2
    then show ?thesis using paths_upto_sound [OF 2] by (intro exI [of _ "i + k"]) simp
  qed
qed (simp split: if_splits)

lemma distinct_paths_upto:
  assumes d: "\<forall>v < n. distinct (outArcsOf hg v)" and "i + k \<le> n"
    and src: "\<And>v a. v < n \<Longrightarrow> a \<in> set (outArcsOf hg v) \<Longrightarrow> v < arc_head (arcAt hg a)"
  shows "distinct (paths_upto hg i k j)"
  using assms(2)
proof (induction k arbitrary: j)
  case (Suc k)
  let ?U = "paths_upto hg i k (i + k)" and ?as = "filter (\<lambda>a. arc_head (arcAt hg a) = j) (outArcsOf hg (i + k))"
  have U: "distinct ?U" and as: "distinct ?as" and old: "distinct (paths_upto hg i k j)" using Suc d by simp_all
  have "distinct (concat (map (\<lambda>a. map (\<lambda>p. p @ [a]) ?U) as))" if "distinct as" for as
    using that by (induction as) (auto simp: distinct_map inj_on_def U)
  moreover have "p \<notin> set (concat (map (\<lambda>a. map (\<lambda>p. p @ [a]) ?U) ?as))" if p: "p \<in> set (paths_upto hg i k j)" for p
  proof
    assume "p \<in> set (concat (map (\<lambda>a. map (\<lambda>p. p @ [a]) ?U) ?as))"
    then obtain q a where q: "p = q @ [a]" "q \<in> set ?U" "a \<in> set (outArcsOf hg (i + k))" by auto
    obtain v where v: "v < i + k" "apath hg i q v" using paths_upto_last p q(1) by blast
    then show False using apath_end [OF v(2) paths_upto_sound [OF q(2)]] by simp
  qed
  ultimately show ?case using old as by auto
qed simp

text \<open>One state, and one row.\<close>

context weight_semiring
begin

lemma dag_arcs_result:
  assumes "mat_square n d" and "i < n" and "i \<le> via"
    and "\<forall>a \<in> set as. via < arc_head (arcAt hg a) \<and> arc_head (arcAt hg a) < n"
  shows "\<exists>d'. dag_arcs W f hg i via as d = Inr d' \<and> mat_square n d' \<and>
    (\<forall>r j. j < n \<longrightarrow> mat_get d' r j =
       (if r = i then w_plus W (mat_get d i j)
          (wsum W (map (\<lambda>a. w_times W (mat_get d i via) (f (arcAt hg a))) (filter (\<lambda>a. arc_head (arcAt hg a) = j) as)))
        else mat_get d r j))"
  using assms(1,4)
proof (induction as arbitrary: d)
  case (Cons a as)
  let ?h = "arc_head (arcAt hg a)" and ?w = "f (arcAt hg a)"
  let ?x = "w_plus W (mat_get d i ?h) (w_times W (mat_get d i via) ?w)"
  let ?d = "mat_set d i ?h ?x"
  have h: "via < ?h" "?h < n" using Cons.prems(2) by simp_all
  have g: "mat_get ?d r j = (if r = i \<and> j = ?h then ?x else mat_get d r j)" if "j < n" for r j
    by (rule square_get_set [OF Cons.prems(1) assms(2) h(2) that])
  have v: "mat_get ?d i via = mat_get d i via" using g [of via i] h by simp
  have I: "\<exists>d'. dag_arcs W f hg i via as ?d = Inr d' \<and> mat_square n d' \<and>
    (\<forall>r j. j < n \<longrightarrow> mat_get d' r j =
       (if r = i then w_plus W (mat_get ?d i j)
          (wsum W (map (\<lambda>a. w_times W (mat_get ?d i via) (f (arcAt hg a))) (filter (\<lambda>a. arc_head (arcAt hg a) = j) as)))
        else mat_get ?d r j))"
    by (rule Cons.IH) (use Cons.prems in simp_all)
  have e: "dag_arcs W f hg i via (a # as) d = dag_arcs W f hg i via as ?d"
    using assms(3) h by (simp add: Let_def)
  show ?case unfolding e using I by (rule ex_forward) (auto simp: g v wsum_simps plus_assoc)
qed (simp add: wsum_simps plus_zero_right)

lemma wsum_extend:
  "wsum W (map (aweight W f hg) (concat (map (\<lambda>a. map (\<lambda>p. p @ [a]) U) as))) =
     wsum W (map (\<lambda>a. w_times W (wsum W (map (aweight W f hg) U)) (f (arcAt hg a))) as)"
proof -
  have a: "aweight W f hg (p @ [a]) = w_times W (aweight W f hg p) (f (arcAt hg a))" for p a
    by (simp add: aweight_def foldr_times_append times_one del: foldr_append)
  have "wsum W (map (\<lambda>p. aweight W f hg (p @ [a])) U) = w_times W (wsum W (map (aweight W f hg) U)) (f (arcAt hg a))" for a
    unfolding a wsum_simps(5) by (simp add: comp_def)
  then show ?thesis by (induction as) (simp_all add: wsum_simps(1-3) comp_def)
qed

lemma wsum_map_zero: "wsum W (map (\<lambda>a. w_zero W) as) = w_zero W"
  by (induction as) (simp_all add: wsum_simps(1,2) plus_zero)

definition row_upto :: "('w arc \<Rightarrow> 'w) \<Rightarrow> 'w hg \<Rightarrow> nat \<Rightarrow> nat \<Rightarrow> nat \<Rightarrow> 'w matrix \<Rightarrow> bool" where
  "row_upto f hg n i k d \<longleftrightarrow> (\<forall>j < n. mat_get d i j = wsum W (map (aweight W f hg) (paths_upto hg i k j)))"

lemma dag_row_result:
  assumes fw: "forward n hg" "heads_below n hg" and i: "i < n" and sq: "mat_square n d"
    and "row_upto f hg n i k d" and "i + k \<le> n"
  shows "\<exists>d' e. dag_row W (\<lambda>_. True) zd f hg i [i + k..<n] e0 d = Inr (d', e) \<and> mat_square n d' \<and>
    row_upto f hg n i (n - i) d' \<and> (\<forall>r j. j < n \<longrightarrow> r \<noteq> i \<longrightarrow> mat_get d' r j = mat_get d r j)"
  using sq assms(5,6)
proof (induction "n - (i + k)" arbitrary: k d e0)
  case 0
  then show ?case by simp
next
  case (Suc m)
  let ?v = "i + k"
  have v: "?v < n" and m: "m = n - (i + Suc k)" using Suc.hyps(2) by simp_all
  have up: "[?v..<n] = ?v # [i + Suc k..<n]" using v by (simp add: upt_rec)
  have bd: "\<forall>a \<in> set (outArcsOf hg ?v). ?v < arc_head (arcAt hg a) \<and> arc_head (arcAt hg a) < n"
    using fw v by (auto simp: forward_def heads_below_def)
  obtain d1 where d1: "dag_arcs W f hg i ?v (outArcsOf hg ?v) d = Inr d1" "mat_square n d1"
    "\<forall>r j. j < n \<longrightarrow> mat_get d1 r j =
       (if r = i then w_plus W (mat_get d i j)
          (wsum W (map (\<lambda>a. w_times W (mat_get d i ?v) (f (arcAt hg a))) (filter (\<lambda>a. arc_head (arcAt hg a) = j) (outArcsOf hg ?v))))
        else mat_get d r j)"
    using dag_arcs_result [OF Suc.prems(1) i _ bd] by fastforce
  have dv: "mat_get d i ?v = wsum W (map (aweight W f hg) (paths_upto hg i k ?v))"
    using Suc.prems(2) v by (simp add: row_upto_def)
  have r1: "row_upto f hg n i (Suc k) d1"
    using d1(3) Suc.prems(2) by (simp add: row_upto_def wsum_simps(3) wsum_extend dv)
  show ?case
  proof (cases "mat_get d i ?v = w_zero W")
    case True
    have "mat_get d1 r j = mat_get d r j" if "j < n" for r j
      using d1(3) that True by (simp add: wsum_map_zero zero_times plus_zero_right)
    then have "row_upto f hg n i (Suc k) d" using r1 by (simp add: row_upto_def)
    then show ?thesis using Suc.hyps(1) [of "Suc k" d e0] m Suc.prems v True by (simp add: up)
  next
    case False
    have "dag_row W (\<lambda>_. True) zd f hg i [?v..<n] e0 d = dag_row W (\<lambda>_. True) zd f hg i [i + Suc k..<n] ?v d1"
      using False d1(1) by (simp add: up bindR_def)
    moreover obtain d' e where "dag_row W (\<lambda>_. True) zd f hg i [i + Suc k..<n] ?v d1 = Inr (d', e)" "mat_square n d'"
      "row_upto f hg n i (n - i) d'" "\<forall>r j. j < n \<longrightarrow> r \<noteq> i \<longrightarrow> mat_get d' r j = mat_get d1 r j"
      using Suc.hyps(1) [of "Suc k" d1 ?v] m d1(2) r1 v by fastforce
    ultimately show ?thesis using d1(3) by auto
  qed
qed

lemma dag_rows_result:
  assumes fw: "forward n hg" "heads_below n hg" and "mat_square n d" and "s \<le> n"
    and "\<forall>r < n. \<forall>j < n. s \<le> r \<longrightarrow> mat_get d r j = w_zero W"
  shows "\<exists>d' es. dag_rows W (\<lambda>_. True) zd f hg n [s..<n] d = Inr (d', es) \<and>
    (\<forall>i j. s \<le> i \<longrightarrow> i < n \<longrightarrow> j < n \<longrightarrow> mat_get d' i j = wsum W (map (aweight W f hg) (paths_upto hg i (n - i) j))) \<and>
    (\<forall>i j. i < s \<longrightarrow> j < n \<longrightarrow> mat_get d' i j = mat_get d i j)"
  using assms(3-)
proof (induction "n - s" arbitrary: s d)
  case 0
  then show ?case by simp
next
  case (Suc m)
  have s: "s < n" and up: "[s..<n] = s # [Suc s..<n]" using Suc by (simp_all add: upt_rec)
  have m: "m = n - Suc s" using Suc.hyps(2) by simp
  let ?d0 = "mat_set d s s (w_one W)"
  have g: "mat_get ?d0 r j = (if r = s \<and> j = s then w_one W else mat_get d r j)" if "j < n" for r j
    by (rule square_get_set [OF Suc.prems(1) s s that])
  have r0: "row_upto f hg n s 0 ?d0"
    using Suc.prems(3) s g by (auto simp: row_upto_def wsum_simps plus_zero_right aweight_def)
  obtain d1 e where d1: "dag_row W (\<lambda>_. True) zd f hg s [s..<n] 0 ?d0 = Inr (d1, e)" "mat_square n d1"
    "row_upto f hg n s (n - s) d1" "\<forall>r j. j < n \<longrightarrow> r \<noteq> s \<longrightarrow> mat_get d1 r j = mat_get ?d0 r j"
    using dag_row_result [OF fw s _ r0, of zd 0] s Suc.prems(1) by auto
  have z: "\<forall>r < n. \<forall>j < n. Suc s \<le> r \<longrightarrow> mat_get d1 r j = w_zero W" using d1(4) g Suc.prems(3) by auto
  obtain d' es where d': "dag_rows W (\<lambda>_. True) zd f hg n [Suc s..<n] d1 = Inr (d', es)"
    "\<forall>i j. Suc s \<le> i \<longrightarrow> i < n \<longrightarrow> j < n \<longrightarrow> mat_get d' i j = wsum W (map (aweight W f hg) (paths_upto hg i (n - i) j))"
    "\<forall>i j. i < Suc s \<longrightarrow> j < n \<longrightarrow> mat_get d' i j = mat_get d1 i j"
    using Suc.hyps(1) [of "Suc s" d1] m d1(2) s z by auto
  have "mat_get d' i j = wsum W (map (aweight W f hg) (paths_upto hg i (n - i) j))" if "s \<le> i" "i < n" "j < n" for i j
    using that d'(2,3) d1(3) by (cases "i = s") (auto simp: row_upto_def)
  moreover have "mat_get d' i j = mat_get d i j" if "i < s" "j < n" for i j using that d'(3) d1(4) g by auto
  ultimately show ?case using d1(1) d'(1) by (simp add: up bindR_def)
qed

end

section \<open>Cycles\<close>

lemma dag_arcs_cycle:
  "(if \<exists>a \<in> set as. arc_head (arcAt hg a) \<le> i then dag_arcs W f hg i via as d = Inl CycleException
    else \<exists>d'. dag_arcs W f hg i via as d = Inr d')"
  by (induction as arbitrary: d) (auto simp: Let_def)

lemma dag_arcs_square: "dag_arcs W f hg i via as d = Inr d' \<Longrightarrow> mat_square n d' = mat_square n d"
  by (induction as arbitrary: d) (auto simp: Let_def split: if_splits)

lemma dag_row_square:
  "dag_row W (\<lambda>_. True) zd f hg i vias e d = Inr (d', e') \<Longrightarrow> mat_square n d' = mat_square n d"
proof (induction vias arbitrary: d e)
  case (Cons via vias)
  then show ?case
    by (auto simp: Let_def bindR_def dag_arcs_square split: if_splits sum.splits)
qed simp

lemma dag_row_error:
  "dag_row W (\<lambda>_. True) zd f hg i vias e d = Inl x \<Longrightarrow> x = CycleException"
proof (induction vias arbitrary: d e)
  case (Cons via vias)
  have "dag_arcs W f hg i via (outArcsOf hg via) d = Inl x \<Longrightarrow> x = CycleException"
    using dag_arcs_cycle [of "outArcsOf hg via" hg i W f via d] by (auto split: if_splits)
  then show ?case using Cons by (auto simp: Let_def bindR_def split: if_splits sum.splits)
qed simp

lemma dag_rows_cycle:
  assumes "w_one W \<noteq> w_zero W" and "mat_square n d" and "s \<le> v" and "v < n"
    and "\<exists>a \<in> set (outArcsOf hg v). arc_head (arcAt hg a) \<le> v"
  shows "dag_rows W (\<lambda>_. True) zd f hg n [s..<n] d = Inl CycleException"
  using assms(2,3)
proof (induction "v - s" arbitrary: s d)
  case 0
  then have s: "s = v" by simp
  let ?d0 = "mat_set d v v (w_one W)"
  have g: "mat_get ?d0 v v = w_one W" using square_get_set [OF 0(2) assms(4,4,4)] by simp
  have "dag_arcs W f hg v v (outArcsOf hg v) ?d0 = Inl CycleException"
    using dag_arcs_cycle [of "outArcsOf hg v" hg v W f v ?d0] assms(5) by simp
  then have "dag_row W (\<lambda>_. True) zd f hg v [v..<n] 0 ?d0 = Inl CycleException"
    using assms(1,4) g by (simp add: upt_conv_Cons bindR_def)
  then show ?case using s assms(4) by (simp add: upt_conv_Cons bindR_def)
next
  case (Suc m)
  have s: "s < v" "m = v - Suc s" using Suc.hyps(2) by simp_all
  let ?d0 = "mat_set d s s (w_one W)"
  have up: "[s..<n] = s # [Suc s..<n]" using s assms(4) by (simp add: upt_conv_Cons)
  show ?case
  proof (cases "dag_row W (\<lambda>_. True) zd f hg s [s..<n] 0 ?d0")
    case (Inl x)
    then show ?thesis using dag_row_error [OF Inl] by (simp add: up bindR_def)
  next
    case (Inr y)
    obtain d1 e where y: "y = (d1, e)" by (cases y)
    have "mat_square n d1" using dag_row_square [OF Inr [unfolded y]] Suc.prems(1) by simp
    then have "dag_rows W (\<lambda>_. True) zd f hg n [Suc s..<n] d1 = Inl CycleException"
      using Suc.hyps(1) [of "Suc s" d1] s by simp
    then show ?thesis using Inr y by (simp add: up bindR_def)
  qed
qed

section \<open>Properties\<close>

lemma square_fill: "mat_square n m \<Longrightarrow> mat_square n (mat_fill x m)"
  by (simp add: mat_square_def mat_fill_facts)

text \<open>
  Property C38 (sums over all paths). With the weights of any semiring where \<open>one\<close> is not \<open>zero\<close>,
  \<open>allPairsSortedDag\<close> into a square matrix of the first n states, every arc of which stays below n,
  throws \<open>CycleException\<close> exactly when an arc of them does not lead to a later state. Otherwise the
  entry of i and j is the sum of the weights of all paths from i to j, every path taken once: nothing
  is lost by skipping the states whose distance is still zero.
\<close>

theorem allPairsSortedDag_sums:
  assumes W: "weight_semiring W" "w_one W \<noteq> w_zero W" and m: "mat_square n m"
    and h: "heads_below n hg" and d: "\<forall>v < n. distinct (outArcsOf hg v)"
  shows "if forward n hg
    then \<exists>d es. allPairsSortedDag W (\<lambda>_. True) zeroDropped f hg m = Inr (d, es) \<and>
      (\<forall>i < n. \<forall>j < n. \<exists>ps. distinct ps \<and> set ps = {p. apath hg i p j} \<and>
         mat_get d i j = wsum W (map (aweight W f hg) ps))
    else allPairsSortedDag W (\<lambda>_. True) zeroDropped f hg m = Inl CycleException"
proof -
  let ?m = "mat_fill (w_zero W) m"
  have e: "allPairsSortedDag W (\<lambda>_. True) zeroDropped f hg m = dag_rows W (\<lambda>_. True) zeroDropped f hg n [0..<n] ?m"
    using m by (simp add: allPairsSortedDag_def AllPairsSortedDag_def mat_square_def mat_fill_facts Let_def)
  show ?thesis
  proof (cases "forward n hg")
    case fw: True
    have z: "\<forall>r < n. \<forall>j < n. 0 \<le> r \<longrightarrow> mat_get ?m r j = w_zero W"
      using m by (simp add: mat_square_def mat_fill_facts)
    obtain d es where r: "dag_rows W (\<lambda>_. True) zeroDropped f hg n [0..<n] ?m = Inr (d, es)"
      "\<forall>i j. 0 \<le> i \<longrightarrow> i < n \<longrightarrow> j < n \<longrightarrow> mat_get d i j = wsum W (map (aweight W f hg) (paths_upto hg i (n - i) j))"
      using weight_semiring.dag_rows_result [OF W(1) fw h square_fill [OF m] le0 z, of zeroDropped f] by blast
    have "distinct (paths_upto hg i (n - i) j) \<and> set (paths_upto hg i (n - i) j) = {p. apath hg i p j}"
      if i: "i < n" and j: "j < n" for i j
    proof
      show "distinct (paths_upto hg i (n - i) j)"
        by (rule distinct_paths_upto [OF assms(5)]) (use i fw in \<open>auto simp: forward_def\<close>)
      have "p \<in> set (paths_upto hg i (n - i) j)" if "apath hg i p j" for p
        by (rule paths_upto_complete [OF fw h i that]) (use j in simp)
      then show "set (paths_upto hg i (n - i) j) = {p. apath hg i p j}" using paths_upto_sound by blast
    qed
    then show ?thesis using fw r e by auto
  next
    case False
    then obtain v a where v: "v < n" "a \<in> set (outArcsOf hg v)" "arc_head (arcAt hg a) \<le> v"
      by (auto simp: forward_def not_less)
    then show ?thesis
      unfolding e using False dag_rows_cycle [OF W(2) square_fill [OF m] le0 v(1)] by (simp, blast)
  qed
qed

text \<open>Two parallel arcs from 0 to 1 and one from 1 to 2; the label is state 3.\<close>

definition sample_dag :: "cost hg" where
  "sample_dag = hg_zero\<lparr>props := kStoreFirstTailOutArcs OR kFsm, fsmChecked := True, numStates := 4,
     arc_heap := [0 \<mapsto> new_arc_fsm 0 3 (Fin 3) 1, 1 \<mapsto> new_arc_fsm 0 3 (Fin 1) 1, 2 \<mapsto> new_arc_fsm 1 3 (Fin 2) 2],
     next_arc := 3, outArcsPerState := [[0, 1], [2]]\<rparr>"

theorem allPairsSortedDag_sums_witness:
  "\<exists>d es ps. allPairsSortedDag log_ops (\<lambda>_. True) True arc_weight sample_dag (new_matrix 3 3 Infty) = Inr (d, es) \<and>
     distinct ps \<and> [0, 2] \<in> set ps \<and> [1, 2] \<in> set ps \<and> [] \<notin> set ps \<and>
     mat_get d 0 2 = wsum log_ops (map (aweight log_ops arc_weight sample_dag) ps)"
proof -
  let ?m = "new_matrix 3 3 Infty"
  have m: "mat_square 3 ?m" by (simp add: mat_square_def mat_ok_def new_matrix_def)
  have o: "outArcsOf sample_dag i = (if i = 0 then [0, 1] else if i = 1 then [2] else [])" for i
    by (simp add: outArcsOf_def sample_dag_def getOrElse_def nth_Cons')
  have a: "arcAt sample_dag 0 = new_arc_fsm 0 3 (Fin 3) 1" "arcAt sample_dag (Suc 0) = new_arc_fsm 0 3 (Fin 1) 1"
    "arcAt sample_dag 2 = new_arc_fsm 1 3 (Fin 2) 2" by (simp_all add: arcAt_def sample_dag_def)
  have h: "heads_below 3 sample_dag" by (simp add: heads_below_def o a new_arc_fsm_def)
  have f: "forward 3 sample_dag" by (simp add: forward_def o a new_arc_fsm_def)
  have d: "\<forall>v < 3. distinct (outArcsOf sample_dag v)" by (simp add: o)
  have W: "weight_semiring log_ops" by (rule log_weight.weight_semiring_axioms)
  have W1: "w_one log_ops \<noteq> w_zero log_ops" by (simp add: log_ops_def)
  from allPairsSortedDag_sums [OF W W1 m h d, of True arc_weight] f
  have "\<exists>d es. allPairsSortedDag log_ops (\<lambda>_. True) True arc_weight sample_dag ?m = Inr (d, es) \<and>
      (\<forall>i < 3. \<forall>j < 3. \<exists>ps. distinct ps \<and> set ps = {p. apath sample_dag i p j} \<and>
         mat_get d i j = wsum log_ops (map (aweight log_ops arc_weight sample_dag) ps))" by simp
  then obtain d es where r: "allPairsSortedDag log_ops (\<lambda>_. True) True arc_weight sample_dag ?m = Inr (d, es)"
    "\<forall>i < 3. \<forall>j < 3. \<exists>ps. distinct ps \<and> set ps = {p. apath sample_dag i p j} \<and>
       mat_get d i j = wsum log_ops (map (aweight log_ops arc_weight sample_dag) ps)" by blast
  have "(0::nat) < 3" "(2::nat) < 3" by simp_all
  then obtain ps where ps: "distinct ps" "set ps = {p. apath sample_dag 0 p 2}"
     "mat_get d 0 2 = wsum log_ops (map (aweight log_ops arc_weight sample_dag) ps)" using r(2) by blast
  have "apath sample_dag 0 [0, 2] 2" "apath sample_dag 0 [1, 2] 2" "\<not> apath sample_dag 0 [] 2"
    by (simp_all add: o a new_arc_fsm_def)
  then show ?thesis using r(1) ps by blast
qed

end
