(* ===== verification/Hg_Inside.thy ===== *)
theory Hg_Inside
  imports Hg_Topsort Dag_Distance
begin

text \<open>
  The inside algorithm (\<open>sdl/Hypergraph/InsideAlgorithm.hpp\<close>). The weight of an axiom as a tail is
  given by \<open>stateWt\<close> (\<open>StateWtFn\<close>), the weight of an arc by \<open>arcWt\<close> (\<open>ArcWtFn\<close>); \<open>dflt\<close> is the weight
  the default constructor makes. The products are built from the left, the arc last, so that nothing
  depends on a commutative times.

  The specification is the sum of the weights of all derivations of a state, a derivation being a tree
  of arcs over axioms.
\<close>

section \<open>The algorithm\<close>

text \<open>The product over the tails of one arc.\<close>

fun tails_product :: "'w weight_ops \<Rightarrow> (StateId \<Rightarrow> 'w) \<Rightarrow> 'w hg \<Rightarrow> 'w list \<Rightarrow> StateId list \<Rightarrow> 'w \<Rightarrow> sdl_error + 'w" where
  "tails_product W stateWt hg distances [] prd = Inr prd"
| "tails_product W stateWt hg distances (tail # tails) prd =
     (if isAxiom hg tail then tails_product W stateWt hg distances tails (w_times W prd (stateWt tail))
      else if length distances \<le> tail then Inl CycleException
      else tails_product W stateWt hg distances tails (w_times W prd (distances ! tail)))"

fun in_arcs_sum :: "'w weight_ops \<Rightarrow> (StateId \<Rightarrow> 'w) \<Rightarrow> ('w arc \<Rightarrow> 'w) \<Rightarrow> 'w hg \<Rightarrow> StateId \<Rightarrow> ArcHandle list \<Rightarrow> 'w list
    \<Rightarrow> sdl_error + 'w list" where
  "in_arcs_sum W stateWt arcWt hg s [] distances = Inr distances"
| "in_arcs_sum W stateWt arcWt hg s (a # as) distances =
     bindR (tails_product W stateWt hg distances (arc_tails (arcAt hg a)) (w_one W)) (\<lambda>prd.
       in_arcs_sum W stateWt arcWt hg s as
         (distances[s := w_plus W (distances ! s) (w_times W prd (arcWt (arcAt hg a)))]))"

record 'w inside_state =
  distances :: "'w list"
  maxNonAxiom :: StateId

definition computeDistance_visit :: "'w weight_ops \<Rightarrow> (StateId \<Rightarrow> 'w) \<Rightarrow> ('w arc \<Rightarrow> 'w) \<Rightarrow> bool \<Rightarrow> 'w hg \<Rightarrow> StateId
    \<Rightarrow> 'w inside_state \<Rightarrow> sdl_error + 'w inside_state" where
  "computeDistance_visit W stateWt arcWt includingAxioms hg s v =
     (let d = atExpand (distances v) s (w_zero W)
      in if isAxiom hg s then Inr (v\<lparr>distances := d[s := w_one W]\<rparr>)
         else let m = (if \<not> includingAxioms \<and> maxNonAxiom v < s then s else maxNonAxiom v)
              in bindR (in_arcs_sum W stateWt arcWt hg s (inArcsOf hg s) d) (\<lambda>d'.
                   Inr (v\<lparr>distances := d', maxNonAxiom := m\<rparr>)))"

fun computeDistances :: "'w weight_ops \<Rightarrow> (StateId \<Rightarrow> 'w) \<Rightarrow> ('w arc \<Rightarrow> 'w) \<Rightarrow> bool \<Rightarrow> 'w hg \<Rightarrow> StateId list
    \<Rightarrow> 'w inside_state \<Rightarrow> sdl_error + 'w inside_state" where
  "computeDistances W stateWt arcWt includingAxioms hg [] v = Inr v"
| "computeDistances W stateWt arcWt includingAxioms hg (s # ss) v =
     bindR (computeDistance_visit W stateWt arcWt includingAxioms hg s v)
       (computeDistances W stateWt arcWt includingAxioms hg ss)"

text \<open>The destructor of the visitor drops the leaves unless they are asked for.\<close>

definition computeDistance_done :: "'w \<Rightarrow> bool \<Rightarrow> 'w inside_state \<Rightarrow> 'w list" where
  "computeDistance_done dflt includingAxioms v =
     (if includingAxioms then distances v else vec_resize (distances v) (maxNonAxiom v + 1) dflt)"

definition insideAlgorithmWithAxioms :: "'w weight_ops \<Rightarrow> 'w \<Rightarrow> bool \<Rightarrow> 'w hg \<Rightarrow> 'w list \<Rightarrow> (StateId \<Rightarrow> 'w) \<Rightarrow> ('w arc \<Rightarrow> 'w)
    \<Rightarrow> StateId \<Rightarrow> sdl_error + 'w list" where
  "insideAlgorithmWithAxioms W dflt includingAxioms hg d0 stateWt arcWt maxNotTerminal =
     bindR (ensureProperties hg kStoreInArcs 0 0 CopyEnsuringProperties (- 1)) (\<lambda>e.
       let phg = ensured_hg e
       in bindR (TopsortStatesTraversal phg maxNotTerminal) (\<lambda>order.
            bindR (computeDistances W stateWt arcWt includingAxioms phg order \<lparr>distances = d0, maxNonAxiom = 0\<rparr>) (\<lambda>v.
              Inr (computeDistance_done dflt includingAxioms v))))"

definition insideAlgorithm :: "'w weight_ops \<Rightarrow> 'w \<Rightarrow> 'w hg \<Rightarrow> 'w list \<Rightarrow> bool \<Rightarrow> sdl_error + 'w list" where
  "insideAlgorithm W dflt hg d0 includingAxioms =
     insideAlgorithmWithAxioms W dflt includingAxioms hg d0 (\<lambda>_. w_one W) arc_weight kNoState"

section \<open>Derivations\<close>

datatype deriv = Leaf StateId | Node ArcHandle "deriv list"

inductive derives :: "'w hg \<Rightarrow> StateId \<Rightarrow> deriv \<Rightarrow> bool" for hg where
  "isAxiom hg s \<Longrightarrow> derives hg s (Leaf s)"
| "\<not> isAxiom hg s \<Longrightarrow> a \<in> set (inArcsOf hg s) \<Longrightarrow> list_all2 (derives hg) (arc_tails (arcAt hg a)) ds \<Longrightarrow>
     derives hg s (Node a ds)"
  monos list_all2_mono

inductive_simps derives_simps: "derives hg s (Leaf t)" "derives hg s (Node a ds)"

fun dweight :: "'w weight_ops \<Rightarrow> (StateId \<Rightarrow> 'w) \<Rightarrow> ('w arc \<Rightarrow> 'w) \<Rightarrow> 'w hg \<Rightarrow> deriv \<Rightarrow> 'w" where
  "dweight W st f hg (Leaf s) = st s"
| "dweight W st f hg (Node a ds) =
     w_times W (foldr (w_times W) (map (dweight W st f hg) ds) (w_one W)) (f (arcAt hg a))"

text \<open>A list of all derivations of a state, each once.\<close>

definition all_derivs :: "'w hg \<Rightarrow> StateId \<Rightarrow> deriv list \<Rightarrow> bool" where
  "all_derivs hg s ds \<longleftrightarrow> distinct ds \<and> set ds = {d. derives hg s d}"

lemma all_derivs_axiom: "isAxiom hg s \<Longrightarrow> all_derivs hg s [Leaf s]"
proof -
  assume a: "isAxiom hg s"
  have "derives hg s d \<longleftrightarrow> d = Leaf s" for d using a by (cases d) (auto simp: derives_simps)
  then show ?thesis by (simp add: all_derivs_def)
qed

definition node_derivs :: "'w hg \<Rightarrow> (StateId \<Rightarrow> deriv list) \<Rightarrow> ArcHandle list \<Rightarrow> deriv list" where
  "node_derivs hg D as =
     concat (map (\<lambda>a. map (Node a) (product_lists (map D (arc_tails (arcAt hg a))))) as)"

lemma all_derivs_node:
  assumes "\<not> isAxiom hg s" and d: "distinct (inArcsOf hg s)"
    and D: "\<forall>a \<in> set (inArcsOf hg s). \<forall>t \<in> set (arc_tails (arcAt hg a)). all_derivs hg t (D t)"
  shows "all_derivs hg s (node_derivs hg D (inArcsOf hg s))"
proof -
  have "distinct (node_derivs hg D as)"
    if "distinct as" "\<forall>a \<in> set as. \<forall>t \<in> set (arc_tails (arcAt hg a)). distinct (D t)" for as
    using that
    by (induction as) (auto simp: node_derivs_def distinct_map inj_on_def intro!: distinct_product_lists)
  then have "distinct (node_derivs hg D (inArcsOf hg s))" using d D by (simp add: all_derivs_def)
  moreover have "set (node_derivs hg D (inArcsOf hg s)) = {t. derives hg s t}"
  proof (rule set_eqI)
    fix t
    have P: "ds \<in> set (product_lists (map D (arc_tails (arcAt hg a)))) \<longleftrightarrow> list_all2 (derives hg) (arc_tails (arcAt hg a)) ds"
      if a: "a \<in> set (inArcsOf hg s)" for a ds
    proof -
      have "ds \<in> set (product_lists (map D ts)) \<longleftrightarrow> list_all2 (derives hg) ts ds"
        if "\<forall>t \<in> set ts. all_derivs hg t (D t)" for ts
        using that
      proof (induction ts arbitrary: ds)
        case (Cons t ts)
        then show ?case by (cases ds) (auto simp: all_derivs_def)
      qed simp
      then show ?thesis using D a by blast
    qed
    show "t \<in> set (node_derivs hg D (inArcsOf hg s)) \<longleftrightarrow> t \<in> {t. derives hg s t}"
    proof (cases t)
      case (Leaf x)
      then show ?thesis using assms(1) by (auto simp: node_derivs_def derives_simps)
    next
      case (Node a ds)
      then show ?thesis using assms(1) P by (auto simp: node_derivs_def derives_simps)
    qed
  qed
  ultimately show ?thesis by (simp add: all_derivs_def)
qed

context weight_semiring
begin

definition dsum :: "(StateId \<Rightarrow> 'w) \<Rightarrow> ('w arc \<Rightarrow> 'w) \<Rightarrow> 'w hg \<Rightarrow> deriv list \<Rightarrow> 'w" where
  "dsum st f hg ds = wsum W (map (dweight W st f hg) ds)"

lemma wsum_product: "wsum W (concat (map (\<lambda>x. map (w_times W x) ys) xs)) = w_times W (wsum W xs) (wsum W ys)"
  by (induction xs) (simp_all add: wsum_simps(1,2,3) zero_times distrib_right wsum_simps(4) [symmetric])

text \<open>The product of the sums of the tails is the sum over the choices of a derivation for every tail.\<close>

lemma product_dsum:
  "wsum W (map (\<lambda>ds. foldr (w_times W) (map (dweight W st f hg) ds) (w_one W)) (product_lists (map D ts))) =
     foldr (w_times W) (map (\<lambda>t. dsum st f hg (D t)) ts) (w_one W)"
proof (induction ts)
  case (Cons t ts)
  have "wsum W (map (\<lambda>ds. foldr (w_times W) (map (dweight W st f hg) ds) (w_one W)) (product_lists (map D (t # ts)))) =
      wsum W (concat (map (\<lambda>x. map (w_times W x)
        (map (\<lambda>ds. foldr (w_times W) (map (dweight W st f hg) ds) (w_one W)) (product_lists (map D ts))))
        (map (dweight W st f hg) (D t))))"
    by (simp add: map_concat comp_def)
  then show ?case unfolding wsum_product Cons by (simp add: dsum_def)
qed (simp add: wsum_simps plus_zero_right)

lemma node_dsum:
  "dsum st f hg (node_derivs hg D as) =
     wsum W (map (\<lambda>a. w_times W (foldr (w_times W) (map (\<lambda>t. dsum st f hg (D t)) (arc_tails (arcAt hg a))) (w_one W))
       (f (arcAt hg a))) as)"
proof (induction as)
  case (Cons a as)
  have "dsum st f hg (map (Node a) (product_lists (map D (arc_tails (arcAt hg a))))) =
      w_times W (foldr (w_times W) (map (\<lambda>t. dsum st f hg (D t)) (arc_tails (arcAt hg a))) (w_one W)) (f (arcAt hg a))"
    unfolding product_dsum [symmetric] wsum_simps(5) by (simp add: dsum_def comp_def)
  then show ?case using Cons by (simp add: node_derivs_def wsum_simps(2,3) dsum_def)
qed (simp add: node_derivs_def dsum_def wsum_simps(1))

lemma tails_product_value:
  assumes "\<forall>t \<in> set ts. (isAxiom hg t \<longrightarrow> v t = st t) \<and> (\<not> isAxiom hg t \<longrightarrow> t < length d \<and> v t = d ! t)"
  shows "tails_product W st hg d ts p = Inr (w_times W p (foldr (w_times W) (map v ts) (w_one W)))"
  using assms by (induction ts arbitrary: p) (auto simp: times_one times_assoc not_le)

lemma in_arcs_sum_value:
  assumes "s < length d"
    and "\<forall>a \<in> set as. \<forall>t \<in> set (arc_tails (arcAt hg a)). t \<noteq> s \<and>
      (isAxiom hg t \<longrightarrow> v t = st t) \<and> (\<not> isAxiom hg t \<longrightarrow> t < length d \<and> v t = d ! t)"
  shows "in_arcs_sum W st f hg s as d = Inr (d[s := w_plus W (d ! s)
    (wsum W (map (\<lambda>a. w_times W (foldr (w_times W) (map v (arc_tails (arcAt hg a))) (w_one W)) (f (arcAt hg a))) as))])"
  using assms
proof (induction as arbitrary: d)
  case (Cons a as)
  let ?d = "d[s := w_plus W (d ! s) (w_times W (foldr (w_times W) (map v (arc_tails (arcAt hg a))) (w_one W)) (f (arcAt hg a)))]"
  have "tails_product W st hg d (arc_tails (arcAt hg a)) (w_one W) =
      Inr (foldr (w_times W) (map v (arc_tails (arcAt hg a))) (w_one W))"
    using tails_product_value [of "arc_tails (arcAt hg a)" hg v st d "w_one W"] Cons.prems(2) by (simp add: one_times)
  moreover have "in_arcs_sum W st f hg s as ?d = Inr (?d[s := w_plus W (?d ! s)
    (wsum W (map (\<lambda>a. w_times W (foldr (w_times W) (map v (arc_tails (arcAt hg a))) (w_one W)) (f (arcAt hg a))) as))])"
    by (rule Cons.IH) (use Cons.prems in \<open>auto simp: nth_list_update\<close>)
  ultimately show ?case using Cons.prems(1) by (simp add: bindR_def wsum_simps(2) plus_assoc)
qed (simp add: wsum_simps(1) plus_zero_right)

definition inside_inv :: "(StateId \<Rightarrow> 'w) \<Rightarrow> ('w arc \<Rightarrow> 'w) \<Rightarrow> bool \<Rightarrow> 'w hg \<Rightarrow> StateId set \<Rightarrow> 'w inside_state \<Rightarrow> bool" where
  "inside_inv st f incl hg S v \<longleftrightarrow>
     (\<forall>s \<in> S. \<not> isAxiom hg s \<longrightarrow> s < length (distances v) \<and> (\<not> incl \<longrightarrow> s \<le> maxNonAxiom v) \<and>
        (\<exists>ds. all_derivs hg s ds \<and> distances v ! s = dsum st f hg ds)) \<and>
     (\<forall>s < length (distances v). s \<notin> S \<longrightarrow> distances v ! s = w_zero W)"

lemma inside_inv_insert:
  assumes I: "inside_inv st f incl hg S v" and s: "s \<notin> S" "s < length d"
    and old: "\<And>i. i < length (distances v) \<Longrightarrow> i \<noteq> s \<Longrightarrow> i < length d \<and> d ! i = distances v ! i"
    and new: "\<And>i. i < length d \<Longrightarrow> length (distances v) \<le> i \<Longrightarrow> i \<noteq> s \<Longrightarrow> d ! i = w_zero W"
    and val: "\<not> isAxiom hg s \<Longrightarrow> \<exists>ds. all_derivs hg s ds \<and> d ! s = dsum st f hg ds"
    and m: "maxNonAxiom v \<le> m" "\<not> isAxiom hg s \<Longrightarrow> \<not> incl \<Longrightarrow> s \<le> m"
  shows "inside_inv st f incl hg (insert s S) \<lparr>distances = d, maxNonAxiom = m\<rparr>"
  unfolding inside_inv_def
proof (intro conjI ballI allI impI)
  fix x assume x: "x \<in> insert s S" "\<not> isAxiom hg x"
  have i: "x < length (distances v) \<and> (\<not> incl \<longrightarrow> x \<le> maxNonAxiom v) \<and>
      (\<exists>ds. all_derivs hg x ds \<and> distances v ! x = dsum st f hg ds)" if "x \<noteq> s"
    using I x that unfolding inside_inv_def by blast
  show "x < length (distances \<lparr>distances = d, maxNonAxiom = m\<rparr>)"
    using i old s(2) by (cases "x = s") auto
  show "x \<le> maxNonAxiom \<lparr>distances = d, maxNonAxiom = m\<rparr>" if "\<not> incl"
    using i m x that by (cases "x = s") auto
  show "\<exists>ds. all_derivs hg x ds \<and> distances \<lparr>distances = d, maxNonAxiom = m\<rparr> ! x = dsum st f hg ds"
    using i old val x by (cases "x = s") auto
next
  fix x assume x: "x < length (distances \<lparr>distances = d, maxNonAxiom = m\<rparr>)" "x \<notin> insert s S"
  then have "x < length (distances v) \<Longrightarrow> distances v ! x = w_zero W" using I by (simp add: inside_inv_def)
  then show "distances \<lparr>distances = d, maxNonAxiom = m\<rparr> ! x = w_zero W"
    using x old [of x] new [of x] by (cases "x < length (distances v)") auto
qed

lemma visit_inside_inv:
  assumes I: "inside_inv st f incl hg S v" and s: "s \<notin> S" and d: "distinct (inArcsOf hg s)"
    and t: "\<forall>t \<in> set (in_tails hg s). isAxiom hg t \<or> t \<in> S"
  shows "\<exists>v'. computeDistance_visit W st f incl hg s v = Inr v' \<and> inside_inv st f incl hg (insert s S) v'"
proof -
  let ?d = "atExpand (distances v) s (w_zero W)"
  have l: "s < length ?d" "length (distances v) \<le> length ?d" by simp_all
  have nth: "?d ! i = (if i < length (distances v) then distances v ! i else w_zero W)" if "i < length ?d" for i
    using that by (auto simp: atExpand_def nth_vec_resize)
  have z: "?d ! i = w_zero W" if "i < length ?d" "i \<notin> S" for i
    using I that nth [OF that(1)] by (auto simp: inside_inv_def)
  have old: "i < length ?d \<and> ?d ! i = distances v ! i" if "i < length (distances v)" for i
    using that l(2) nth [of i] by simp
  show ?thesis
  proof (cases "isAxiom hg s")
    case True
    have "inside_inv st f incl hg (insert s S) \<lparr>distances = ?d[s := w_one W], maxNonAxiom = maxNonAxiom v\<rparr>"
      by (rule inside_inv_insert [OF I s]) (use True nth in \<open>simp_all\<close>)
    then show ?thesis using True by (cases v) (simp add: computeDistance_visit_def Let_def)
  next
    case ax: False
    define val where "val t = (if isAxiom hg t then st t else ?d ! t)" for t
    define D where "D t = (if isAxiom hg t then [Leaf t] else (SOME ds. all_derivs hg t ds \<and> distances v ! t = dsum st f hg ds))" for t
    have D: "all_derivs hg t (D t) \<and> val t = dsum st f hg (D t) \<and> t \<noteq> s \<and> (\<not> isAxiom hg t \<longrightarrow> t < length ?d)"
      if "t \<in> set (in_tails hg s)" for t
    proof (cases "isAxiom hg t")
      case True
      then show ?thesis using all_derivs_axiom [OF True] ax
        by (auto simp: D_def val_def dsum_def wsum_simps(1,2) plus_zero_right)
    next
      case False
      then have tS: "t \<in> S" using t that by auto
      then have e: "t < length (distances v)" "\<exists>ds. all_derivs hg t ds \<and> distances v ! t = dsum st f hg ds"
        using I False by (auto simp: inside_inv_def)
      show ?thesis using someI_ex [OF e(2)] False tS s old [OF e(1)] by (auto simp: D_def val_def simp del: length_atExpand)
    qed
    have tl: "t \<in> set (in_tails hg s)" if "a \<in> set (inArcsOf hg s)" "t \<in> set (arc_tails (arcAt hg a))" for a t
      using that by (auto simp: in_tails_def)
    let ?N = "node_derivs hg D (inArcsOf hg s)"
    have N: "all_derivs hg s ?N" using all_derivs_node [OF ax d] D tl by blast
    have "in_arcs_sum W st f hg s (inArcsOf hg s) ?d = Inr (?d[s := w_plus W (?d ! s)
      (wsum W (map (\<lambda>a. w_times W (foldr (w_times W) (map val (arc_tails (arcAt hg a))) (w_one W)) (f (arcAt hg a))) (inArcsOf hg s)))])"
      by (rule in_arcs_sum_value [OF l(1)]) (use D tl in \<open>auto simp: val_def simp del: length_atExpand\<close>)
    moreover have "map (\<lambda>a. w_times W (foldr (w_times W) (map val (arc_tails (arcAt hg a))) (w_one W)) (f (arcAt hg a))) (inArcsOf hg s) =
        map (\<lambda>a. w_times W (foldr (w_times W) (map (\<lambda>t. dsum st f hg (D t)) (arc_tails (arcAt hg a))) (w_one W)) (f (arcAt hg a))) (inArcsOf hg s)"
    proof (rule map_cong [OF refl])
      fix a assume "a \<in> set (inArcsOf hg s)"
      then have "map val (arc_tails (arcAt hg a)) = map (\<lambda>t. dsum st f hg (D t)) (arc_tails (arcAt hg a))"
        using D tl by simp
      then show "w_times W (foldr (w_times W) (map val (arc_tails (arcAt hg a))) (w_one W)) (f (arcAt hg a)) =
        w_times W (foldr (w_times W) (map (\<lambda>t. dsum st f hg (D t)) (arc_tails (arcAt hg a))) (w_one W)) (f (arcAt hg a))"
        by (rule arg_cong [where f = "\<lambda>xs. w_times W (foldr (w_times W) xs (w_one W)) (f (arcAt hg a))"])
    qed
    ultimately have r: "in_arcs_sum W st f hg s (inArcsOf hg s) ?d = Inr (?d[s := dsum st f hg ?N])"
      using z [OF l(1) s] by (simp add: node_dsum plus_zero)
    define m where "m = (if \<not> incl \<and> maxNonAxiom v < s then s else maxNonAxiom v)"
    have "inside_inv st f incl hg (insert s S) \<lparr>distances = ?d[s := dsum st f hg ?N], maxNonAxiom = m\<rparr>"
    proof (rule inside_inv_insert [OF I s])
      show "\<exists>ds. all_derivs hg s ds \<and> ?d[s := dsum st f hg ?N] ! s = dsum st f hg ds" using N l(1) by auto
    qed (use nth in \<open>auto simp: m_def\<close>)
    moreover have "v\<lparr>distances := d, maxNonAxiom := m\<rparr> = \<lparr>distances = d, maxNonAxiom = m\<rparr>" for d
      by (cases v) simp
    then have "computeDistance_visit W st f incl hg s v = Inr \<lparr>distances = ?d[s := dsum st f hg ?N], maxNonAxiom = m\<rparr>"
      using ax by (simp only: computeDistance_visit_def Let_def r bindR_def sum.case if_False m_def [symmetric])
    ultimately show ?thesis by blast
  qed
qed

lemma computeDistances_snoc:
  "computeDistances W st f incl hg (ss @ [s]) v =
     bindR (computeDistances W st f incl hg ss v) (computeDistance_visit W st f incl hg s)"
  by (induction ss arbitrary: v) (auto simp: bindR_def split: sum.splits)

lemma computeDistances_correct:
  assumes "neighbours_first n (in_tails hg) ord" and "distinct ord"
    and "\<forall>s \<in> set ord. distinct (inArcsOf hg s) \<and> (\<forall>t \<in> set (in_tails hg s). isAxiom hg t \<or> t < n)"
  shows "\<exists>v. computeDistances W st f incl hg ord \<lparr>distances = [], maxNonAxiom = 0\<rparr> = Inr v \<and>
    inside_inv st f incl hg (set ord) v"
  using assms
proof (induction ord rule: rev_induct)
  case Nil
  then show ?case by (simp add: inside_inv_def)
next
  case (snoc s ord)
  then obtain v where v: "computeDistances W st f incl hg ord \<lparr>distances = [], maxNonAxiom = 0\<rparr> = Inr v"
    "inside_inv st f incl hg (set ord) v" by (auto simp: neighbours_first_snoc)
  have "\<forall>t \<in> set (in_tails hg s). isAxiom hg t \<or> t \<in> set ord"
    using snoc.prems(1,3) by (auto simp: neighbours_first_snoc)
  then show ?case
    using visit_inside_inv [OF v(2), of s] snoc.prems(2,3) v(1) by (auto simp: computeDistances_snoc bindR_def)
qed

end

section \<open>Properties\<close>

lemma ensure_in_arcs: "storesInArcs hg \<Longrightarrow> ensureProperties hg kStoreInArcs 0 0 CopyEnsuringProperties (- 1) = Inr (SameHg hg)"
  unfolding properties_stores(1) [symmetric] by (rule ensure_present [OF _ bit_positions(3)])

text \<open>
  Property C10 (inside sums). On a hypergraph that stores its in-arcs, each once, has no cycle among the
  states that are traversed, and whose tails are axioms or among these states, the inside algorithm finds for every state that contributes to
  the final state the sum of the weights of all its derivations, each taken once. The semiring need
  not be commutative, and the arcs may have any number of tails: a comment at \<open>TopsortStatesTraversal\<close> calls the
  order wrong for inside computation on hypergraphs, but as every tail is a neighbour of the search, all tails of all
  in-arcs come before the state.
\<close>

theorem inside_sums_derivations:
  assumes W: "weight_semiring W" and i: "storesInArcs hg" and f: "final_state hg \<noteq> kNoState" "final_state hg < n"
    and n: "n = first_states hg maxNotTerminal" and ac: "acyclic (next_edges n (in_tails hg))"
    and below: "\<forall>s < n. distinct (inArcsOf hg s) \<and> (\<forall>t \<in> set (in_tails hg s). isAxiom hg t \<or> t < n)"
  shows "\<exists>d. insideAlgorithmWithAxioms W dflt includingAxioms hg [] stateWt arcWt maxNotTerminal = Inr d \<and>
    (\<forall>s. (final_state hg, s) \<in> (next_edges n (in_tails hg))\<^sup>* \<longrightarrow> \<not> isAxiom hg s \<longrightarrow>
       s < length d \<and>
       (\<exists>ds. distinct ds \<and> set ds = {t. derives hg s t} \<and> d ! s = wsum W (map (dweight W stateWt arcWt hg) ds)))"
proof -
  note C = weight_semiring.computeDistances_correct [OF W] and I = weight_semiring.inside_inv_def [OF W]
  let ?E = "next_edges n (in_tails hg)"
  obtain ord where ord: "TopsortStatesTraversal hg maxNotTerminal = Inr ord" "distinct ord"
    "set ord = {s. (final_state hg, s) \<in> ?E\<^sup>*}" "neighbours_first n (in_tails hg) ord"
    using topsort_order [OF i f(1) n f(2) ac] by blast
  have sub: "s < n" if "s \<in> set ord" for s using reached_below that ord(3) f(2) by blast
  obtain v where v: "computeDistances W stateWt arcWt includingAxioms hg ord \<lparr>distances = [], maxNonAxiom = 0\<rparr> = Inr v"
    "weight_semiring.inside_inv W stateWt arcWt includingAxioms hg (set ord) v"
    using C [OF ord(4,2)] sub below by blast
  let ?d = "computeDistance_done dflt includingAxioms v"
  have r: "insideAlgorithmWithAxioms W dflt includingAxioms hg [] stateWt arcWt maxNotTerminal = Inr ?d"
    using ord(1) v(1) by (simp add: insideAlgorithmWithAxioms_def ensure_in_arcs [OF i] bindR_def Let_def)
  have e: "s < length ?d \<and> ?d ! s = distances v ! s" if "s < length (distances v)" "\<not> includingAxioms \<longrightarrow> s \<le> maxNonAxiom v" for s
    using that by (auto simp: computeDistance_done_def nth_vec_resize [of s "Suc (maxNonAxiom v)"] less_Suc_eq_le)
  have "s < length ?d \<and> (\<exists>ds. all_derivs hg s ds \<and> ?d ! s = weight_semiring.dsum W stateWt arcWt hg ds)"
    if "s \<in> set ord" "\<not> isAxiom hg s" for s
  proof -
    have "s < length (distances v)" "\<not> includingAxioms \<longrightarrow> s \<le> maxNonAxiom v"
      "\<exists>ds. all_derivs hg s ds \<and> distances v ! s = weight_semiring.dsum W stateWt arcWt hg ds"
      using v(2) that unfolding I by blast+
    then show ?thesis using e [of s] by simp
  qed
  then show ?thesis unfolding all_derivs_def weight_semiring.dsum_def [OF W] using r ord(3) by blast
qed

text \<open>Two parallel arcs from the start state 0 to 1, and an arc with the tails 1 and 1 to the final state 2.\<close>

definition sample_forest :: "cost hg" where
  "sample_forest = hg_zero\<lparr>props := kStoreInArcs, numStates := 3, start_state := 0, final_state := 2,
     arc_heap := [0 \<mapsto> \<lparr>arc_head = 1, arc_tails = [0], arc_weight = Fin 1\<rparr>,
                  1 \<mapsto> \<lparr>arc_head = 1, arc_tails = [0], arc_weight = Fin 2\<rparr>,
                  2 \<mapsto> \<lparr>arc_head = 2, arc_tails = [1, 1], arc_weight = Fin 4\<rparr>],
     next_arc := 3, inArcsPerState := [[], [0, 1], [2]]\<rparr>"

lemma acyclic_decreasing: "(\<And>s t. s < n \<Longrightarrow> t \<in> set (next s) \<Longrightarrow> t < s) \<Longrightarrow> acyclic (next_edges n next)"
proof -
  assume d: "\<And>s t. s < n \<Longrightarrow> t \<in> set (next s) \<Longrightarrow> t < s"
  have "acyclic (less_than\<inverse>)" using wf_acyclic [OF wf_less_than] by simp
  then show ?thesis by (rule acyclic_subset) (use d in \<open>auto simp: next_edges_def\<close>)
qed

theorem inside_sums_derivations_witness:
  "\<exists>d ds. insideAlgorithmWithAxioms log_ops Infty True sample_forest [] (\<lambda>_. Fin 0) arc_weight kNoState = Inr d \<and>
     distinct ds \<and> Node 2 [Node 0 [Leaf 0], Node 1 [Leaf 0]] \<in> set ds \<and> Leaf 2 \<notin> set ds \<and>
     d ! 2 = wsum log_ops (map (dweight log_ops (\<lambda>_. Fin 0) arc_weight sample_forest) ds)"
proof -
  let ?h = sample_forest
  have o: "inArcsOf ?h s = (if s = 1 then [0, 1] else if s = 2 then [2] else [])" for s
    by (simp add: inArcsOf_def sample_forest_def getOrElse_def nth_Cons')
  have a: "arc_tails (arcAt ?h 0) = [0]" "arc_tails (arcAt ?h (Suc 0)) = [0]" "arc_tails (arcAt ?h 2) = [1, 1]"
    by (simp_all add: arcAt_def sample_forest_def)
  have t: "in_tails ?h s = (if s = 1 then [0, 0] else if s = 2 then [1, 1] else [])" for s
    by (simp add: in_tails_def o a)
  have f: "final_state ?h = 2" "numStates ?h = 3" "start_state ?h = 0" by (simp_all add: sample_forest_def)
  have ax: "isAxiom ?h s \<longleftrightarrow> s = 0" for s
    by (simp add: isAxiom_def hasTerminalLabel_def inputLabel_def sample_forest_def hg_zero_def)
  have st: "storesInArcs ?h" by (simp add: storesInArcs_def sample_forest_def has_def kStoreInArcs_def flag_simps)
  have ac: "acyclic (next_edges 3 (in_tails ?h))" by (rule acyclic_decreasing) (auto simp: t split: if_splits)
  have "\<exists>d. insideAlgorithmWithAxioms log_ops Infty True ?h [] (\<lambda>_. Fin 0) arc_weight kNoState = Inr d \<and>
    (\<forall>s. (final_state ?h, s) \<in> (next_edges 3 (in_tails ?h))\<^sup>* \<longrightarrow> \<not> isAxiom ?h s \<longrightarrow>
       s < length d \<and>
       (\<exists>ds. distinct ds \<and> set ds = {t. derives ?h s t} \<and>
          d ! s = wsum log_ops (map (dweight log_ops (\<lambda>_. Fin 0) arc_weight ?h) ds)))"
    by (rule inside_sums_derivations [OF log_weight.weight_semiring_axioms _ _ _ _ ac])
      (auto simp: f o t ax st kNoState_def first_states_def split: if_splits)
  then obtain d ds where d: "insideAlgorithmWithAxioms log_ops Infty True ?h [] (\<lambda>_. Fin 0) arc_weight kNoState = Inr d"
    "distinct ds" "set ds = {t. derives ?h 2 t}" "d ! 2 = wsum log_ops (map (dweight log_ops (\<lambda>_. Fin 0) arc_weight ?h) ds)"
    using f(1) ax by (metis rtrancl.rtrancl_refl zero_neq_numeral)
  have "derives ?h 2 (Node 2 [Node 0 [Leaf 0], Node 1 [Leaf 0]])" "\<not> derives ?h 2 (Leaf 2)"
    by (simp_all add: derives_simps o a ax)
  then show ?thesis using d by blast
qed

end
