(* ===== verification/Hg_Outside.thy ===== *)
theory Hg_Outside
  imports Hg_Inside
begin

text \<open>
  The outside algorithm (\<open>sdl/Hypergraph/OutsideAlgorithm.hpp\<close>): for every state the weight of
  everything between it and the final state, heads before tails. Reading a score out of range of its
  vector is the error \<open>OutOfRange\<close>; the source leaves it to assertions.
\<close>

section \<open>The algorithm\<close>

text \<open>The first occurrence of the state among the tails is left out of the product.\<close>

fun outside_tails :: "'w weight_ops \<Rightarrow> 'w hg \<Rightarrow> 'w list \<Rightarrow> bool \<Rightarrow> StateId \<Rightarrow> StateId list \<Rightarrow> nat \<Rightarrow> 'w
    \<Rightarrow> sdl_error + (nat \<times> 'w)" where
  "outside_tails W hg insideScores haveInsideForAxiom s [] nself prd = Inr (nself, prd)"
| "outside_tails W hg insideScores haveInsideForAxiom s (tail # tails) nself prd =
     (if tail = s \<and> nself = 0 then outside_tails W hg insideScores haveInsideForAxiom s tails (nself + 1) prd
      else if haveInsideForAxiom \<or> \<not> isAxiom hg tail
      then if tail < length insideScores
           then outside_tails W hg insideScores haveInsideForAxiom s tails nself (w_times W prd (insideScores ! tail))
           else Inl OutOfRange
      else outside_tails W hg insideScores haveInsideForAxiom s tails nself prd)"

fun outside_arcs :: "'w weight_ops \<Rightarrow> 'w hg \<Rightarrow> 'w list \<Rightarrow> bool \<Rightarrow> StateId \<Rightarrow> ArcHandle list \<Rightarrow> 'w list
    \<Rightarrow> sdl_error + 'w list" where
  "outside_arcs W hg insideScores haveInsideForAxiom s [] scores = Inr scores"
| "outside_arcs W hg insideScores haveInsideForAxiom s (aid # aids) scores =
     (let arc = arcAt hg aid
      in if length scores \<le> arc_head arc then Inl OutOfRange
         else bindR (outside_tails W hg insideScores haveInsideForAxiom s (arc_tails arc) 0
                       (w_times W (arc_weight arc) (scores ! arc_head arc)))
                (\<lambda>(nself, prd). outside_arcs W hg insideScores haveInsideForAxiom s aids
                   (((\<lambda>sc. sc[s := w_plus W (sc ! s) prd]) ^^ nself) scores)))"

definition outsideFromInside :: "'w weight_ops \<Rightarrow> StateId \<Rightarrow> 'w hg \<Rightarrow> 'w list \<Rightarrow> 'w list \<Rightarrow> StateId \<Rightarrow> bool
    \<Rightarrow> sdl_error + 'w list" where
  "outsideFromInside W s hg insideScores scores final haveInsideForAxiom =
     (if s = final then Inr (scores[s := w_one W])
      else outside_arcs W hg insideScores haveInsideForAxiom s (outArcsOf hg s) scores)"

text \<open>The visitor makes room for the state and computes its score in place.\<close>

definition outside_visit :: "'w weight_ops \<Rightarrow> 'w hg \<Rightarrow> 'w list \<Rightarrow> bool \<Rightarrow> StateId \<Rightarrow> 'w list \<Rightarrow> sdl_error + 'w list" where
  "outside_visit W hg insideScores haveInsideForAxiom s scores =
     outsideFromInside W s hg insideScores (atExpand scores s (w_zero W)) (final_state hg) haveInsideForAxiom"

fun outside_visits :: "'w weight_ops \<Rightarrow> 'w hg \<Rightarrow> 'w list \<Rightarrow> bool \<Rightarrow> StateId list \<Rightarrow> 'w list \<Rightarrow> sdl_error + 'w list" where
  "outside_visits W hg insideScores haveInsideForAxiom [] scores = Inr scores"
| "outside_visits W hg insideScores haveInsideForAxiom (s # ss) scores =
     bindR (outside_visit W hg insideScores haveInsideForAxiom s scores)
       (outside_visits W hg insideScores haveInsideForAxiom ss)"

definition outsideAlgorithm :: "'w weight_ops \<Rightarrow> 'w hg \<Rightarrow> 'w list \<Rightarrow> 'w list \<Rightarrow> bool \<Rightarrow> sdl_error + 'w list" where
  "outsideAlgorithm W hg insideScores outsideScores haveInsideForAxiom =
     bindR (ReverseTopsortStatesTraversal hg) (\<lambda>order.
       outside_visits W hg insideScores haveInsideForAxiom order outsideScores)"

section \<open>Paths to the final state of an fsm\<close>

definition all_paths :: "'w hg \<Rightarrow> StateId \<Rightarrow> ArcHandle list list \<Rightarrow> bool" where
  "all_paths hg s ps \<longleftrightarrow> distinct ps \<and> set ps = {p. apath hg s p (final_state hg)}"

definition step_paths :: "'w hg \<Rightarrow> (StateId \<Rightarrow> ArcHandle list list) \<Rightarrow> ArcHandle list \<Rightarrow> ArcHandle list list" where
  "step_paths hg P as = concat (map (\<lambda>a. map (Cons a) (P (arc_head (arcAt hg a)))) as)"

lemma all_paths_step:
  assumes "s \<noteq> final_state hg" and d: "distinct (outArcsOf hg s)"
    and P: "\<forall>a \<in> set (outArcsOf hg s). all_paths hg (arc_head (arcAt hg a)) (P (arc_head (arcAt hg a)))"
  shows "all_paths hg s (step_paths hg P (outArcsOf hg s))"
proof -
  have "distinct (step_paths hg P as)" if "distinct as" "\<forall>a \<in> set as. distinct (P (arc_head (arcAt hg a)))" for as
    using that by (induction as) (auto simp: step_paths_def distinct_map inj_on_def)
  moreover have "p \<in> set (step_paths hg P (outArcsOf hg s)) \<longleftrightarrow> apath hg s p (final_state hg)" for p
    using P assms(1) by (cases p) (auto simp: step_paths_def all_paths_def)
  ultimately show ?thesis using d P by (auto simp: all_paths_def)
qed

text \<open>The tail of an arc is its state, then only axioms: the arcs of an fsm.\<close>

definition fsm_tails :: "'w hg \<Rightarrow> StateId \<Rightarrow> bool" where
  "fsm_tails hg s \<longleftrightarrow> (\<forall>a \<in> set (outArcsOf hg s). \<exists>ts. arc_tails (arcAt hg a) = s # ts \<and> (\<forall>t \<in> set ts. isAxiom hg t))"

text \<open>If the scores of the labels are read, as by default, they are there and are one.\<close>

definition label_scores :: "'w weight_ops \<Rightarrow> 'w hg \<Rightarrow> bool \<Rightarrow> 'w list \<Rightarrow> StateId \<Rightarrow> bool" where
  "label_scores W hg haveInsideForAxiom ins s \<longleftrightarrow>
     (haveInsideForAxiom \<longrightarrow>
       (\<forall>a \<in> set (outArcsOf hg s). \<forall>t \<in> set (tl (arc_tails (arcAt hg a))). t < length ins \<and> ins ! t = w_one W))"

lemma apath_trancl:
  assumes "heads_below n hg" and "i < n" and "p \<noteq> []" and "apath hg i p j"
  shows "(i, j) \<in> (next_edges n (out_heads hg))\<^sup>+"
  using assms(2-)
proof (induction p arbitrary: i)
  case (Cons a p)
  let ?h = "arc_head (arcAt hg a)"
  have h: "?h < n" "(i, ?h) \<in> next_edges n (out_heads hg)"
    using Cons.prems assms(1) by (auto simp: heads_below_def next_edges_def out_heads_def)
  show ?case
  proof (cases "p = []")
    case True
    then show ?thesis using Cons.prems h by auto
  next
    case False
    then show ?thesis using Cons.IH [OF h(1)] Cons.prems(3) trancl_into_trancl2 [OF h(2)] by simp
  qed
qed simp

context weight_semiring
begin

lemma outside_tails_axioms:
  assumes "\<forall>t \<in> set ts. isAxiom hg t" and "b \<longrightarrow> (\<forall>t \<in> set ts. t < length ins \<and> ins ! t = w_one W)"
  shows "outside_tails W hg ins b s ts (Suc k) prd = Inr (Suc k, prd)"
  using assms by (induction ts) (auto simp: times_one)

definition psum :: "'w hg \<Rightarrow> ArcHandle list list \<Rightarrow> 'w" where
  "psum hg ps = wsum W (map (aweight W arc_weight hg) ps)"

lemma step_psum:
  "psum hg (step_paths hg P as) = wsum W (map (\<lambda>a. w_times W (arc_weight (arcAt hg a)) (psum hg (P (arc_head (arcAt hg a))))) as)"
proof (induction as)
  case (Cons a as)
  have "psum hg (map (Cons a) ps) = w_times W (arc_weight (arcAt hg a)) (psum hg ps)" for ps
    unfolding psum_def wsum_simps(4) by (simp add: comp_def aweight_def)
  then show ?case using Cons by (simp add: step_paths_def psum_def wsum_simps(2,3))
qed (simp add: step_paths_def psum_def wsum_simps(1))

lemma outside_arcs_value:
  assumes "s < length d" and "\<forall>a \<in> set as. arc_head (arcAt hg a) < length d \<and> arc_head (arcAt hg a) \<noteq> s \<and>
    (\<exists>ts. arc_tails (arcAt hg a) = s # ts \<and> (\<forall>t \<in> set ts. isAxiom hg t) \<and>
      (b \<longrightarrow> (\<forall>t \<in> set ts. t < length ins \<and> ins ! t = w_one W)))"
  shows "outside_arcs W hg ins b s as d = Inr (d[s := w_plus W (d ! s)
    (wsum W (map (\<lambda>a. w_times W (arc_weight (arcAt hg a)) (d ! arc_head (arcAt hg a))) as))])"
  using assms
proof (induction as arbitrary: d)
  case (Cons a as)
  let ?x = "w_times W (arc_weight (arcAt hg a)) (d ! arc_head (arcAt hg a))"
  let ?d = "d[s := w_plus W (d ! s) ?x]"
  obtain ts where ts: "arc_tails (arcAt hg a) = s # ts" "\<forall>t \<in> set ts. isAxiom hg t"
    "b \<longrightarrow> (\<forall>t \<in> set ts. t < length ins \<and> ins ! t = w_one W)" using Cons.prems(2) by auto
  have "outside_tails W hg ins b s (arc_tails (arcAt hg a)) 0 ?x = Inr (Suc 0, ?x)"
    using outside_tails_axioms [OF ts(2,3), of s 0 ?x] by (simp add: ts(1))
  moreover have "outside_arcs W hg ins b s as ?d = Inr (?d[s := w_plus W (?d ! s)
    (wsum W (map (\<lambda>a. w_times W (arc_weight (arcAt hg a)) (?d ! arc_head (arcAt hg a))) as))])"
    by (rule Cons.IH) (use Cons.prems in simp_all)
  moreover have "map (\<lambda>a. w_times W (arc_weight (arcAt hg a)) (?d ! arc_head (arcAt hg a))) as =
      map (\<lambda>a. w_times W (arc_weight (arcAt hg a)) (d ! arc_head (arcAt hg a))) as"
    using Cons.prems(2) by (intro map_cong) auto
  ultimately show ?case
    using Cons.prems by (simp add: bindR_def Let_def wsum_simps(2) plus_assoc not_le [symmetric])
qed (simp add: wsum_simps(1) plus_zero_right)

definition outside_inv :: "'w hg \<Rightarrow> StateId set \<Rightarrow> 'w list \<Rightarrow> bool" where
  "outside_inv hg S d \<longleftrightarrow> (\<forall>s \<in> S. s < length d \<and> (\<exists>ps. all_paths hg s ps \<and> d ! s = psum hg ps)) \<and>
     (\<forall>s < length d. s \<notin> S \<longrightarrow> d ! s = w_zero W)"

lemma visit_outside_inv:
  assumes I: "outside_inv hg S d" and s: "s \<notin> S" and dis: "distinct (outArcsOf hg s)" and ft: "fsm_tails hg s"
    and ls: "label_scores W hg b ins s" and h: "\<forall>t \<in> set (out_heads hg s). t \<in> S"
    and fin: "\<forall>p. p \<noteq> [] \<longrightarrow> \<not> apath hg s p s"
  shows "\<exists>d'. outside_visit W hg ins b s d = Inr d' \<and> outside_inv hg (insert s S) d'"
proof -
  let ?d = "atExpand d s (w_zero W)"
  have l: "s < length ?d" by simp
  have nth: "?d ! i = (if i < length d then d ! i else w_zero W)" if "i < length ?d" for i
    using that by (auto simp: atExpand_def nth_vec_resize)
  have z: "?d ! i = w_zero W" if "i < length ?d" "i \<notin> S" for i
    using I that nth [OF that(1)] by (auto simp: outside_inv_def)
  have keep: "i < length ?d \<and> ?d ! i = d ! i" if "i \<in> S" for i
    using I that nth [of i] unfolding outside_inv_def by fastforce
  have new: "outside_inv hg (insert s S) (?d[s := psum hg ps])" if ps: "all_paths hg s ps" for ps
    unfolding outside_inv_def
  proof (intro conjI ballI allI impI)
    fix x assume x: "x \<in> insert s S"
    show "x < length (?d[s := psum hg ps])" using x keep l by (auto simp del: length_atExpand)
    show "\<exists>ps'. all_paths hg x ps' \<and> ?d[s := psum hg ps] ! x = psum hg ps'"
    proof (cases "x = s")
      case True
      then show ?thesis using ps l by auto
    next
      case False
      then have "x \<in> S" using x by simp
      then show ?thesis using I keep [of x] False by (auto simp: outside_inv_def)
    qed
  next
    fix x assume "x < length (?d[s := psum hg ps])" "x \<notin> insert s S"
    then show "?d[s := psum hg ps] ! x = w_zero W" using z [of x] by (simp del: length_atExpand)
  qed
  show ?thesis
  proof (cases "s = final_state hg")
    case True
    have "all_paths hg s [[]]"
    proof -
      have "apath hg s p (final_state hg) \<longleftrightarrow> p = []" for p using fin True by (cases p) auto
      then show ?thesis by (simp add: all_paths_def)
    qed
    moreover have "psum hg [[]] = w_one W" by (simp add: psum_def wsum_simps(1,2) aweight_def plus_zero_right)
    ultimately have "outside_inv hg (insert s S) (?d[s := w_one W])" using new [of "[[]]"] by simp
    then show ?thesis using True by (simp add: outside_visit_def outsideFromInside_def)
  next
    case False
    define P where "P t = (SOME ps. all_paths hg t ps \<and> d ! t = psum hg ps)" for t
    have P: "all_paths hg t (P t) \<and> ?d ! t = psum hg (P t) \<and> t \<noteq> s \<and> t < length ?d" if "t \<in> set (out_heads hg s)" for t
    proof -
      have tS: "t \<in> S" using h that by blast
      then have "\<exists>ps. all_paths hg t ps \<and> d ! t = psum hg ps" using I by (simp add: outside_inv_def)
      from someI_ex [OF this] show ?thesis using keep [OF tS] tS s by (auto simp: P_def simp del: length_atExpand)
    qed
    have hd: "arc_head (arcAt hg a) \<in> set (out_heads hg s)" if "a \<in> set (outArcsOf hg s)" for a
      using that by (simp add: out_heads_def)
    let ?N = "step_paths hg P (outArcsOf hg s)"
    have N: "all_paths hg s ?N" using all_paths_step [OF False dis] P hd by blast
    have ok: "\<exists>ts. arc_tails (arcAt hg a) = s # ts \<and> (\<forall>t \<in> set ts. isAxiom hg t) \<and>
        (b \<longrightarrow> (\<forall>t \<in> set ts. t < length ins \<and> ins ! t = w_one W))" if "a \<in> set (outArcsOf hg s)" for a
    proof -
      obtain ts where ts: "arc_tails (arcAt hg a) = s # ts" "\<forall>t \<in> set ts. isAxiom hg t"
        using ft \<open>a \<in> set (outArcsOf hg s)\<close> by (auto simp: fsm_tails_def)
      have "set ts = set (tl (arc_tails (arcAt hg a)))" by (simp add: ts(1))
      then show ?thesis using ts ls \<open>a \<in> set (outArcsOf hg s)\<close> unfolding label_scores_def by blast
    qed
    have "outside_arcs W hg ins b s (outArcsOf hg s) ?d = Inr (?d[s := w_plus W (?d ! s)
      (wsum W (map (\<lambda>a. w_times W (arc_weight (arcAt hg a)) (?d ! arc_head (arcAt hg a))) (outArcsOf hg s)))])"
      by (rule outside_arcs_value [OF l]) (use P hd ok in \<open>simp del: length_atExpand\<close>)
    moreover have "map (\<lambda>a. w_times W (arc_weight (arcAt hg a)) (?d ! arc_head (arcAt hg a))) (outArcsOf hg s) =
        map (\<lambda>a. w_times W (arc_weight (arcAt hg a)) (psum hg (P (arc_head (arcAt hg a))))) (outArcsOf hg s)"
      using P hd by (intro map_cong) simp_all
    ultimately have "outside_arcs W hg ins b s (outArcsOf hg s) ?d = Inr (?d[s := psum hg ?N])"
      using z [OF l s] by (simp add: step_psum plus_zero)
    then show ?thesis using new [OF N] False by (simp add: outside_visit_def outsideFromInside_def)
  qed
qed

lemma outside_visits_snoc:
  "outside_visits W hg ins b (ss @ [s]) d = bindR (outside_visits W hg ins b ss d) (outside_visit W hg ins b s)"
  by (induction ss arbitrary: d) (auto simp: bindR_def split: sum.splits)

lemma outside_visits_correct:
  assumes "neighbours_first n (out_heads hg) ord" and "distinct ord" and hb: "heads_below n hg"
    and "\<forall>s \<in> set ord. s < n \<and> distinct (outArcsOf hg s) \<and> fsm_tails hg s \<and> label_scores W hg b ins s"
    and ac: "acyclic (next_edges n (out_heads hg))"
  shows "\<exists>d. outside_visits W hg ins b ord [] = Inr d \<and> outside_inv hg (set ord) d"
  using assms(1,2,4)
proof (induction ord rule: rev_induct)
  case Nil
  then show ?case by (simp add: outside_inv_def)
next
  case (snoc s ord)
  then obtain d where d: "outside_visits W hg ins b ord [] = Inr d" "outside_inv hg (set ord) d"
    by (auto simp: neighbours_first_snoc)
  have s: "s \<notin> set ord" "s < n" "distinct (outArcsOf hg s)" "fsm_tails hg s" "label_scores W hg b ins s" using snoc.prems by simp_all
  have "\<forall>t \<in> set (out_heads hg s). t \<in> set ord"
    using snoc.prems(1) hb s(2) by (auto simp: neighbours_first_snoc out_heads_def heads_below_def)
  moreover have "\<forall>p. p \<noteq> [] \<longrightarrow> \<not> apath hg s p s" using apath_trancl [OF hb s(2)] ac by (auto simp: acyclic_def)
  ultimately show ?case
    using visit_outside_inv [OF d(2) s(1,3,4,5)] d(1) by (simp add: outside_visits_snoc bindR_def)
qed

end

section \<open>Properties\<close>

text \<open>
  Property C11 (outside sums). On an acyclic fsm that stores its out-arcs, the outside algorithm finds for every state reachable
  from the start the sum of the weights of all paths from it to the final state, each taken once; a state that does not
  reach the final state gets zero. By default the algorithm multiplies by the inside score of the label of each arc, also on an fsm, so that
  the inside scores must hold the label states with the weight one; without \<open>haveInsideForAxiom\<close> they may be anything.
\<close>

theorem outside_sums_paths:
  assumes W: "weight_semiring W" and o: "isFsm hg" "storesOutArcs hg" and s: "start_state hg \<noteq> kNoState"
    "start_state hg < numStates hg" and hb: "heads_below (numStates hg) hg"
    and ac: "acyclic (next_edges (numStates hg) (out_heads hg))"
    and t: "\<forall>s. (start_state hg, s) \<in> (next_edges (numStates hg) (out_heads hg))\<^sup>* \<longrightarrow>
      distinct (outArcsOf hg s) \<and> fsm_tails hg s \<and> label_scores W hg haveInsideForAxiom insideScores s"
  shows "\<exists>d. outsideAlgorithm W hg insideScores [] haveInsideForAxiom = Inr d \<and>
    (\<forall>s. (start_state hg, s) \<in> (next_edges (numStates hg) (out_heads hg))\<^sup>* \<longrightarrow> s < length d \<and>
       (\<exists>ps. distinct ps \<and> set ps = {p. apath hg s p (final_state hg)} \<and>
          d ! s = wsum W (map (aweight W arc_weight hg) ps)))"
proof -
  note C = weight_semiring.outside_visits_correct [OF W] and I = weight_semiring.outside_inv_def [OF W]
    and S = weight_semiring.psum_def [OF W]
  let ?E = "next_edges (numStates hg) (out_heads hg)"
  obtain ord where ord: "OutsideTopsortStatesTraversal hg = Inr ord" "distinct ord"
    "set ord = {x. (start_state hg, x) \<in> ?E\<^sup>*}" "neighbours_first (numStates hg) (out_heads hg) ord"
    using outside_topsort_order [OF o(2) s(1) refl s(2) ac] by blast
  have sub: "\<forall>x \<in> set ord. x < numStates hg \<and> distinct (outArcsOf hg x) \<and> fsm_tails hg x \<and>
      label_scores W hg haveInsideForAxiom insideScores x"
  proof
    fix x assume "x \<in> set ord"
    then have x: "(start_state hg, x) \<in> ?E\<^sup>*" using ord(3) by simp
    show "x < numStates hg \<and> distinct (outArcsOf hg x) \<and> fsm_tails hg x \<and>
      label_scores W hg haveInsideForAxiom insideScores x"
      using t x reached_below [OF x s(2)] by simp
  qed
  obtain d where d: "outside_visits W hg insideScores haveInsideForAxiom ord [] = Inr d" "weight_semiring.outside_inv W hg (set ord) d"
    using C [OF ord(4,2) hb sub ac] by blast
  have "outsideAlgorithm W hg insideScores [] haveInsideForAxiom = Inr d"
    using o ord(1) d(1) by (simp add: outsideAlgorithm_def ReverseTopsortStatesTraversal_def bindR_def)
  moreover have "\<forall>x. (start_state hg, x) \<in> ?E\<^sup>* \<longrightarrow> x < length d \<and> (\<exists>ps. distinct ps \<and>
      set ps = {p. apath hg x p (final_state hg)} \<and> d ! x = wsum W (map (aweight W arc_weight hg) ps))"
    using d(2) by (simp add: I all_paths_def S ord(3))
  ultimately show ?thesis by blast
qed

text \<open>
  By default the score of a label that is not among the inside scores is read, though the comment on \<open>insideScores\<close> says that
  they are not used for an fsm.
\<close>

lemma outside_reads_labels:
  assumes "s \<noteq> final" and "outArcsOf hg s = a # as" and "arc_head (arcAt hg a) < length scores"
    and "arc_tails (arcAt hg a) = s # t # ts" and "length ins \<le> t"
  shows "outsideFromInside W s hg ins scores final True = Inl OutOfRange"
  using assms by (simp add: outsideFromInside_def Let_def bindR_def)

definition sample_lattice :: "cost hg" where
  "sample_lattice = hg_zero\<lparr>props := kStoreFirstTailOutArcs OR kFsm, fsmChecked := True, numStates := 4,
     start_state := 0, final_state := 2, iLabelForState := [NoSymbol, NoSymbol, NoSymbol, EPSILON_ID],
     arc_heap := [0 \<mapsto> new_arc_fsm 0 3 (Fin 3) 1, 1 \<mapsto> new_arc_fsm 0 3 (Fin 1) 1, 2 \<mapsto> new_arc_fsm 1 3 (Fin 2) 2],
     next_arc := 3, outArcsPerState := [[0, 1], [2]]\<rparr>"

theorem outside_sums_paths_witness:
  "\<exists>d ps. outsideAlgorithm log_ops sample_lattice (replicate 4 (Fin 0)) [] True = Inr d \<and>
     distinct ps \<and> [0, 2] \<in> set ps \<and> [1, 2] \<in> set ps \<and> [] \<notin> set ps \<and>
     d ! 0 = wsum log_ops (map (aweight log_ops arc_weight sample_lattice) ps)"
proof -
  let ?h = sample_lattice
  have o: "outArcsOf ?h s = (if s = 0 then [0, 1] else if s = 1 then [2] else [])" for s
    by (simp add: outArcsOf_def sample_lattice_def getOrElse_def nth_Cons')
  have a: "arcAt ?h 0 = new_arc_fsm 0 3 (Fin 3) 1" "arcAt ?h (Suc 0) = new_arc_fsm 0 3 (Fin 1) 1"
    "arcAt ?h 2 = new_arc_fsm 1 3 (Fin 2) 2" by (simp_all add: arcAt_def sample_lattice_def)
  have f: "final_state ?h = 2" "numStates ?h = 4" "start_state ?h = 0" by (simp_all add: sample_lattice_def)
  have h: "out_heads ?h s = (if s = 0 then [1, 1] else if s = 1 then [2] else [])" for s
    by (simp add: out_heads_def o a new_arc_fsm_def)
  have hb: "heads_below 4 ?h" by (simp add: heads_below_def o a new_arc_fsm_def)
  have ax: "isAxiom ?h 3" by (simp add: isAxiom_def hasTerminalLabel_def inputLabel_def sample_lattice_def getOrElse_def)
  have t: "distinct (outArcsOf ?h s) \<and> fsm_tails ?h s \<and> label_scores log_ops ?h True (replicate 4 (Fin 0)) s" for s
    using ax by (auto simp: fsm_tails_def label_scores_def o a new_arc_fsm_def log_ops_def)
  have fsm: "isFsm ?h" "storesOutArcs ?h"
    by (simp_all add: isFsm_def properties_def storesOutArcs_def sample_lattice_def computeFsmGraphProperty_def flag_simps)
  have "acyclic (next_edges 4 (out_heads ?h))"
  proof (rule acyclic_subset)
    show "acyclic less_than" by (rule wf_acyclic [OF wf_less_than])
  qed (auto simp: next_edges_def h split: if_splits)
  then have ac: "acyclic (next_edges (numStates ?h) (out_heads ?h))" by (simp add: f)
  have "\<exists>d. outsideAlgorithm log_ops ?h (replicate 4 (Fin 0)) [] True = Inr d \<and>
    (\<forall>s. (start_state ?h, s) \<in> (next_edges (numStates ?h) (out_heads ?h))\<^sup>* \<longrightarrow> s < length d \<and>
       (\<exists>ps. distinct ps \<and> set ps = {p. apath ?h s p (final_state ?h)} \<and>
          d ! s = wsum log_ops (map (aweight log_ops arc_weight ?h) ps)))"
    by (rule outside_sums_paths [OF log_weight.weight_semiring_axioms fsm _ _ _ ac])
      (use t hb in \<open>simp_all add: f kNoState_def\<close>)
  then obtain d ps where d: "outsideAlgorithm log_ops ?h (replicate 4 (Fin 0)) [] True = Inr d" "distinct ps"
    "set ps = {p. apath ?h 0 p 2}" "d ! 0 = wsum log_ops (map (aweight log_ops arc_weight ?h) ps)"
    unfolding f(1,3) by blast
  have "apath ?h 0 [0, 2] 2" "apath ?h 0 [1, 2] 2" "\<not> apath ?h 0 [] 2"
    by (simp_all add: o a new_arc_fsm_def)
  then show ?thesis using d by blast
qed

end
