(* ===== verification/Nibble_Array.thy ===== *)
theory Nibble_Array
  imports Hyp_Prelude
begin

text \<open>
  Arrays of 2- or 4-bit entries packed into 32-bit blocks (\<open>sdl/graehl/shared/nibble_array.hpp\<close>),
  and the colours of a depth-first search kept in one (\<open>sdl/Util/DfsColor.hpp\<close>). The interface is
  that of an array; the theorem is that the shifting and masking of the blocks implements it.
\<close>

section \<open>Packed arrays\<close>

unbundle bit_operations_syntax

record nibble_array =
  blocks :: "32 word list"
  sz :: nat

text \<open>\<open>n\<close> is the template parameter \<open>nbits2or4\<close>; a block has four bytes.\<close>

definition lognibblesz :: "nat \<Rightarrow> nat" where
  "lognibblesz n = (if n = 2 then 1 else 2)"

definition perblock :: "nat \<Rightarrow> nat" where
  "perblock n = 4 * (8 div n)"

definition mask_nibble :: "nat \<Rightarrow> 32 word" where
  "mask_nibble n = (if n = 2 then 3 else 15)"

definition nblocks :: "nat \<Rightarrow> nat \<Rightarrow> nat" where
  "nblocks n size' = (size' + perblock n - 1) div perblock n"

definition block_shift :: "nat \<Rightarrow> nat \<Rightarrow> nat" where
  "block_shift n i = push_bit (lognibblesz n) (i mod perblock n)"

definition nib_new :: "nat \<Rightarrow> nat \<Rightarrow> nibble_array" where
  "nib_new n size' = \<lparr>blocks = replicate (nblocks n size') 0, sz = size'\<rparr>"

definition nib_get :: "nat \<Rightarrow> nibble_array \<Rightarrow> nat \<Rightarrow> 32 word" where
  "nib_get n a i =
     (let shift = block_shift n i; msk = push_bit shift (mask_nibble n)
      in drop_bit shift (blocks a ! (i div perblock n) AND msk))"

definition nib_set :: "nat \<Rightarrow> nibble_array \<Rightarrow> nat \<Rightarrow> 32 word \<Rightarrow> nibble_array" where
  "nib_set n a i v =
     (let shift = block_shift n i; msk = push_bit shift (mask_nibble n);
          block = blocks a ! (i div perblock n)
      in a\<lparr>blocks := (blocks a)[i div perblock n := (block AND NOT msk) OR push_bit shift v]\<rparr>)"

definition nib_test_set :: "nat \<Rightarrow> nibble_array \<Rightarrow> nat \<Rightarrow> 32 word \<Rightarrow> 32 word \<times> nibble_array" where
  "nib_test_set n a i v = (nib_get n a i, nib_set n a i v)"

definition nib_test_set_if_false :: "nat \<Rightarrow> nibble_array \<Rightarrow> nat \<Rightarrow> 32 word \<Rightarrow> 32 word \<times> nibble_array" where
  "nib_test_set_if_false n a i vfalse =
     (let r = nib_get n a i in if r = 0 then (r, nib_set n a i vfalse) else (r, a))"

section \<open>The interface of an array\<close>

locale color_array =
  fixes ok :: "'a \<Rightarrow> nat \<Rightarrow> bool"
    and new :: "nat \<Rightarrow> 'a"
    and get :: "'a \<Rightarrow> nat \<Rightarrow> 32 word"
    and set' :: "'a \<Rightarrow> nat \<Rightarrow> 32 word \<Rightarrow> 'a"
    and fits :: "32 word \<Rightarrow> bool"
  assumes ok_new: "ok (new k) k"
    and get_new: "i < k \<Longrightarrow> get (new k) i = 0"
    and ok_set: "ok a k \<Longrightarrow> ok (set' a i v) k"
    and get_set: "ok a k \<Longrightarrow> i < k \<Longrightarrow> j < k \<Longrightarrow> fits v \<Longrightarrow> get (set' a i v) j = (if j = i then v else get a j)"
begin

text \<open>The array an implementation stands for.\<close>

definition entries :: "'a \<Rightarrow> nat \<Rightarrow> 32 word list" where
  "entries a k = map (get a) [0..<k]"

lemma entries_new: "entries (new k) k = replicate k 0"
  by (rule nth_equalityI) (simp_all add: entries_def get_new)

lemma entries_set: "ok a k \<Longrightarrow> i < k \<Longrightarrow> fits v \<Longrightarrow> entries (set' a i v) k = (entries a k)[i := v]"
  by (rule nth_equalityI) (simp_all add: entries_def get_set nth_list_update)

lemma entries_get: "i < k \<Longrightarrow> entries a k ! i = get a i"
  by (simp add: entries_def)

end

definition nib_bits :: "nat \<Rightarrow> bool" where
  "nib_bits n \<longleftrightarrow> n = 2 \<or> n = 4"

definition nib_ok :: "nat \<Rightarrow> nibble_array \<Rightarrow> nat \<Rightarrow> bool" where
  "nib_ok n a k \<longleftrightarrow> sz a = k \<and> length (blocks a) = nblocks n k"

text \<open>The assertion \<open>!(v & ~mask_nibble_)\<close> of the stores.\<close>

definition nib_fits :: "nat \<Rightarrow> 32 word \<Rightarrow> bool" where
  "nib_fits n v \<longleftrightarrow> v AND NOT (mask_nibble n) = 0"

lemma mask_nibble_mask: "nib_bits n \<Longrightarrow> mask_nibble n = mask n"
  by (auto simp: nib_bits_def mask_nibble_def mask_eq_exp_minus_1)

lemma shift_facts:
  assumes "nib_bits n"
  shows "block_shift n i = n * (i mod perblock n)" and "block_shift n i + n \<le> 32" and "0 < perblock n"
proof -
  show s: "block_shift n i = n * (i mod perblock n)"
    using assms by (auto simp: nib_bits_def block_shift_def lognibblesz_def push_bit_eq_mult)
  show p: "0 < perblock n" using assms by (auto simp: nib_bits_def perblock_def)
  then have "i mod perblock n < perblock n" by simp
  then show "block_shift n i + n \<le> 32" using assms unfolding s by (auto simp: nib_bits_def perblock_def)
qed

lemma block_bound: "nib_bits n \<Longrightarrow> i < k \<Longrightarrow> i div perblock n < nblocks n k"
proof -
  assume n: "nib_bits n" and i: "i < k"
  note p = shift_facts(3) [OF n]
  have "i div perblock n < i div perblock n + 1" by simp
  also have "\<dots> = (i + perblock n) div perblock n" using p by (simp add: div_add_self2)
  also have "\<dots> \<le> (k + perblock n - 1) div perblock n" using i by (intro div_le_mono) simp
  finally show ?thesis by (simp add: nblocks_def)
qed

lemma bit_nib_get:
  assumes "nib_bits n"
  shows "bit (nib_get n a i) k \<longleftrightarrow> k < n \<and> bit (blocks a ! (i div perblock n)) (block_shift n i + k)"
  using shift_facts(2) [OF assms, of i] unfolding nib_get_def Let_def mask_nibble_mask [OF assms]
  by (auto simp: bit_simps)

lemma fits_bits: "nib_bits n \<Longrightarrow> nib_fits n v \<Longrightarrow> bit v k \<Longrightarrow> k < n"
proof -
  assume n: "nib_bits n" and f: "nib_fits n v" and b: "bit v k"
  have "\<not> bit (v AND NOT (mask_nibble n)) k" using f by (simp add: nib_fits_def)
  then show "k < n" using b bit_imp_le_length [OF b] unfolding mask_nibble_mask [OF n] by (auto simp: bit_simps)
qed

lemma nib_get_set:
  assumes n: "nib_bits n" and a: "nib_ok n a k" and i: "i < k" and j: "j < k" and v: "nib_fits n v"
  shows "nib_get n (nib_set n a i v) j = (if j = i then v else nib_get n a j)"
proof (rule bit_word_eqI)
  fix q assume q: "q < LENGTH(32)"
  let ?p = "perblock n"
  have bl: "i div ?p < length (blocks a)" using block_bound [OF n i] a by (simp add: nib_ok_def)
  have new: "blocks (nib_set n a i v) ! (j div ?p) =
      (if j div ?p = i div ?p then (blocks a ! (i div ?p) AND NOT (push_bit (block_shift n i) (mask n))) OR push_bit (block_shift n i) v
       else blocks a ! (j div ?p))"
    using bl by (simp add: nib_set_def Let_def mask_nibble_mask [OF n])
  have si: "block_shift n i + n \<le> 32" and sj: "block_shift n j + n \<le> 32" using shift_facts(2) [OF n] by blast+
  show "bit (nib_get n (nib_set n a i v) j) q \<longleftrightarrow> bit (if j = i then v else nib_get n a j) q"
  proof (cases "j div ?p = i div ?p")
    case False
    then have "j \<noteq> i" by auto
    then show ?thesis using False by (simp add: bit_nib_get [OF n] new)
  next
    case same: True
    show ?thesis
    proof (cases "j = i")
      case True
      show ?thesis
        using si fits_bits [OF n v, of q] unfolding True by (auto simp: bit_nib_get [OF n] new [unfolded True] bit_simps)
    next
      case ne: False
      have "i mod ?p \<noteq> j mod ?p"
      proof
        assume "i mod ?p = j mod ?p"
        then have "i = j" using same by (metis div_mult_mod_eq)
        then show False using ne by simp
      qed
      then have "block_shift n i + n \<le> block_shift n j \<or> block_shift n j + n \<le> block_shift n i"
      proof (cases "i mod ?p < j mod ?p")
        case True
        then have "n * Suc (i mod ?p) \<le> n * (j mod ?p)" by (intro mult_le_mono2) simp
        then show ?thesis by (simp add: shift_facts(1) [OF n])
      next
        case False
        then have "n * Suc (j mod ?p) \<le> n * (i mod ?p)" using \<open>i mod ?p \<noteq> j mod ?p\<close> by (intro mult_le_mono2) simp
        then show ?thesis by (simp add: shift_facts(1) [OF n])
      qed
      then have "q < n \<Longrightarrow> bit (blocks (nib_set n a i v) ! (i div ?p)) (block_shift n j + q) =
          bit (blocks a ! (i div ?p)) (block_shift n j + q)"
        using sj fits_bits [OF n v, of "block_shift n j + q - block_shift n i"]
        by (auto simp: new [unfolded same, simplified] bit_simps)
      then show ?thesis using ne by (auto simp: bit_nib_get [OF n] same)
    qed
  qed
qed

interpretation colors2: color_array "nib_ok 2" "nib_new 2" "nib_get 2" "nib_set 2" "nib_fits 2"
proof
  have n: "nib_bits 2" by (simp add: nib_bits_def)
  show "nib_get 2 (nib_set 2 a i v) j = (if j = i then v else nib_get 2 a j)"
    if "nib_ok 2 a k" "i < k" "j < k" "nib_fits 2 v" for a k i j v
    by (rule nib_get_set [OF n that])
  show "nib_get 2 (nib_new 2 k) i = 0" if "i < k" for i k
    using block_bound [OF n that] by (simp add: nib_get_def nib_new_def)
qed (simp_all add: nib_ok_def nib_new_def nib_set_def Let_def)

interpretation colors4: color_array "nib_ok 4" "nib_new 4" "nib_get 4" "nib_set 4" "nib_fits 4"
proof
  have n: "nib_bits 4" by (simp add: nib_bits_def)
  show "nib_get 4 (nib_set 4 a i v) j = (if j = i then v else nib_get 4 a j)"
    if "nib_ok 4 a k" "i < k" "j < k" "nib_fits 4 v" for a k i j v
    by (rule nib_get_set [OF n that])
  show "nib_get 4 (nib_new 4 k) i = 0" if "i < k" for i k
    using block_bound [OF n that] by (simp add: nib_get_def nib_new_def)
qed (simp_all add: nib_ok_def nib_new_def nib_set_def Let_def)

section \<open>Properties\<close>

definition nib_entries :: "nat \<Rightarrow> nibble_array \<Rightarrow> 32 word list" where
  "nib_entries n a = map (nib_get n a) [0..<sz a]"

text \<open>
  Packed arrays are arrays. For 2- and for 4-bit entries, \<open>set\<close> with a value that fits
  changes the entry at its index and no other, wherever the entries share a block, and
  \<open>test_set_if_false\<close> returns the old entry and stores the new one only over a zero.
\<close>

theorem nibble_array_refines:
  assumes "nib_bits n" and "nib_ok n a k" and "i < k" and "nib_fits n v"
  shows "nib_entries n (nib_set n a i v) = (nib_entries n a)[i := v] \<and>
    nib_entries n (nib_new n k) = replicate k 0 \<and>
    (let (r, a') = nib_test_set_if_false n a i v
     in r = nib_entries n a ! i \<and>
        nib_entries n a' = (if nib_entries n a ! i = 0 then (nib_entries n a)[i := v] else nib_entries n a))"
proof -
  have k: "sz a = k" "sz (nib_set n a i v) = k" "sz (nib_new n k) = k"
    using assms(2) by (simp_all add: nib_ok_def nib_set_def nib_new_def Let_def)
  have "nib_entries n (nib_set n a i v) = (nib_entries n a)[i := v] \<and> nib_entries n (nib_new n k) = replicate k 0"
    using assms colors2.entries_set [of a k i v] colors4.entries_set [of a k i v]
      colors2.entries_new [of k] colors4.entries_new [of k]
    unfolding nib_bits_def nib_entries_def k colors2.entries_def colors4.entries_def by blast
  then show ?thesis
    using k(1) assms(3) by (auto simp: nib_test_set_if_false_def nib_entries_def Let_def)
qed

theorem nibble_array_refines_witness:
  "nib_entries 2 (nib_set 2 (nib_new 2 20) 17 2) = (replicate 20 0)[17 := 2]"
proof -
  have "nib_entries 2 (nib_new 2 20) = replicate 20 0 \<and>
      nib_entries 2 (nib_set 2 (nib_new 2 20) 17 2) = (nib_entries 2 (nib_new 2 20))[17 := 2]"
    using nibble_array_refines [of 2 "nib_new 2 20" 20 17 2]
    by (simp add: nib_bits_def nib_ok_def nib_new_def nib_fits_def mask_nibble_def)
  then show ?thesis by simp
qed

end
