(* ===== verification/State_Order.thy ===== *)
theory State_Order
  imports Hg_Topsort Nibble_Array
begin

text \<open>
  Depth-first order with a bound on the back edges (\<open>sdl/Hypergraph/InArcs.hpp\<close>:
  \<open>ComputeStateOrder\<close>, \<open>orderTailsLast\<close>, \<open>orderHeadsLast\<close>). A state is fresh, opened or closed;
  its colour is kept in the packed array of \<open>Nibble_Array\<close>, which is here the list of colours it stands
  for. An edge to an opened state other than its own is a back edge; one too many and the search is
  given up with \<open>CycleException\<close>, which the callers catch, keeping the count and the order so far.
  A state out of range of the colours is an assertion of the source; here it counts as closed.
\<close>

section \<open>The search\<close>

datatype dfs_color = kFresh | kOpened | kQueuedOrClosed

record order_state =
  colors :: "dfs_color list"
  order :: "StateId list"
  nBackEdges :: nat
  thrown :: bool

definition test_set_if_fresh :: "dfs_color list \<Rightarrow> StateId \<Rightarrow> dfs_color \<times> dfs_color list" where
  "test_set_if_fresh c i =
     (if i < length c then (c ! i, if c ! i = kFresh then c[i := kOpened] else c) else (kQueuedOrClosed, c))"

definition close_state :: "StateId \<Rightarrow> order_state \<Rightarrow> order_state" where
  "close_state s r = (if thrown r then r else r\<lparr>order := order r @ [s], colors := (colors r)[s := kQueuedOrClosed]\<rparr>)"

definition back_edge :: "nat \<Rightarrow> StateId \<Rightarrow> StateId \<Rightarrow> order_state \<Rightarrow> order_state" where
  "back_edge maxBackEdges from' to' r =
     (if to' \<noteq> from' then r\<lparr>nBackEdges := nBackEdges r + 1, thrown := maxBackEdges < nBackEdges r + 1\<rparr> else r)"

text \<open>The rest of the loop of \<open>open(from)\<close> over the targets of its edges; \<open>throw\<close> leaves all loops.\<close>

function open_loop :: "(StateId \<Rightarrow> StateId list) \<Rightarrow> nat \<Rightarrow> StateId \<Rightarrow> StateId list \<Rightarrow> order_state \<Rightarrow> order_state" where
  "open_loop next maxBackEdges from' [] r = r"
| "open_loop next maxBackEdges from' (to' # tos) r =
     (if thrown r then r
      else case test_set_if_fresh (colors r) to' of
        (kFresh, c) \<Rightarrow> open_loop next maxBackEdges from' tos
                        (close_state to' (open_loop next maxBackEdges to' (next to') (r\<lparr>colors := c\<rparr>)))
      | (kOpened, c) \<Rightarrow> open_loop next maxBackEdges from' tos (back_edge maxBackEdges from' to' r)
      | (kQueuedOrClosed, c) \<Rightarrow> open_loop next maxBackEdges from' tos r)"
  by pat_completeness auto

definition fresh_count :: "order_state \<Rightarrow> nat" where
  "fresh_count r = length (filter (\<lambda>c. c = kFresh) (colors r))"

lemma fresh_count_update:
  assumes "c ! i \<noteq> kFresh \<or> length c \<le> i \<or> x \<noteq> kFresh" and "x \<noteq> kFresh"
  shows "length (filter (\<lambda>c. c = kFresh) (c[i := x])) \<le> length (filter (\<lambda>c. c = kFresh) c)"
proof (cases "i < length c")
  case True
  have "c = take i c @ c ! i # drop (Suc i) c" using True by (simp add: id_take_nth_drop)
  then have "length (filter (\<lambda>c. c = kFresh) c) = length (filter (\<lambda>c. c = kFresh) (take i c @ c ! i # drop (Suc i) c))" by simp
  then show ?thesis using True assms(2) by (simp add: upd_conv_take_nth_drop)
qed (simp add: list_update_beyond)

lemma fresh_opened:
  assumes "test_set_if_fresh c i = (kFresh, c')"
  shows "length (filter (\<lambda>c. c = kFresh) c') < length (filter (\<lambda>c. c = kFresh) c)"
proof -
  have i: "i < length c" "c ! i = kFresh" "c' = c[i := kOpened]"
    using assms by (auto simp: test_set_if_fresh_def split: if_splits)
  have "c = take i c @ c ! i # drop (Suc i) c" using i(1) by (simp add: id_take_nth_drop)
  then have "length (filter (\<lambda>c. c = kFresh) c) = length (filter (\<lambda>c. c = kFresh) (take i c @ c ! i # drop (Suc i) c))" by simp
  then show ?thesis using i by (simp add: upd_conv_take_nth_drop)
qed

lemma fresh_close: "fresh_count (close_state s r) \<le> fresh_count r"
  using fresh_count_update [of "colors r" s kQueuedOrClosed] by (simp add: close_state_def fresh_count_def)

lemma back_edge_simps [simp]:
  "colors (back_edge m f t r) = colors r" "order (back_edge m f t r) = order r" "nBackEdges r \<le> nBackEdges (back_edge m f t r)"
  by (simp_all add: back_edge_def)

lemma open_loop_fresh:
  "open_loop_dom (next, m, from', tos, r) \<Longrightarrow> fresh_count (open_loop next m from' tos r) \<le> fresh_count r"
proof (induction rule: open_loop.pinduct)
  case (2 "next" m from' to' tos r)
  obtain p c where t: "test_set_if_fresh (colors r) to' = (p, c)" by fastforce
  show ?case
  proof (cases "thrown r")
    case th: False
    show ?thesis
    proof (cases p)
      case kFresh
      let ?r1 = "open_loop next m to' (next to') (r\<lparr>colors := c\<rparr>)"
      have "fresh_count ?r1 \<le> fresh_count (r\<lparr>colors := c\<rparr>)" using 2(2) th t kFresh by simp
      moreover have "fresh_count (r\<lparr>colors := c\<rparr>) \<le> fresh_count r"
        using fresh_opened [of "colors r" to' c] t kFresh by (simp add: fresh_count_def)
      moreover have "fresh_count (open_loop next m from' tos (close_state to' ?r1)) \<le> fresh_count (close_state to' ?r1)"
        using 2(3) th t kFresh by simp
      ultimately show ?thesis using 2(1) th t kFresh fresh_close [of to' ?r1] by (simp add: open_loop.psimps)
    next
      case kOpened
      then have "fresh_count (open_loop next m from' tos (back_edge m from' to' r)) \<le> fresh_count (back_edge m from' to' r)"
        using 2(4) th t by simp
      then show ?thesis using 2(1) th t kOpened by (simp add: open_loop.psimps fresh_count_def)
    next
      case kQueuedOrClosed
      then show ?thesis using 2(1,5) th t by (simp add: open_loop.psimps)
    qed
  qed (use 2(1) in \<open>simp add: open_loop.psimps\<close>)
qed (simp add: open_loop.psimps)

lemma fresh_opened_count: "(kFresh, c) = test_set_if_fresh (colors r) i \<Longrightarrow> fresh_count (r\<lparr>colors := c\<rparr>) < fresh_count r"
  unfolding fresh_count_def using fresh_opened [of "colors r" i c] by simp

termination open_loop
proof (relation "measures [\<lambda>(next, m, f, ts, r). fresh_count r, \<lambda>(next, m, f, ts, r). length ts]", simp_all, goal_cases)
  case (1 "next" to' tos r x c)
  then show ?case by (simp add: fresh_opened_count)
next
  case (2 "next" m to' r x c)
  then have "fresh_count (r\<lparr>colors := c\<rparr>) < fresh_count r" by (simp add: fresh_opened_count)
  then show ?case using open_loop_fresh [OF 2(4)] fresh_close [of to' "open_loop next m to' (next to') (r\<lparr>colors := c\<rparr>)"] by simp
next
  case (3 m from' to' r x c)
  then show ?case by (simp add: fresh_count_def)
qed

declare open_loop.simps(2) [simp del]

text \<open>
  \<open>start(from)\<close>, and the two orders of a hypergraph, which pass the bound to a 32-bit field. (The count of back edges has 32 bits too;
  it is not wrapped here: only a visit of \<open>2 ^ 32\<close> back edges would.)
\<close>

definition start_order :: "(StateId \<Rightarrow> StateId list) \<Rightarrow> nat \<Rightarrow> nat \<Rightarrow> StateId \<Rightarrow> order_state" where
  "start_order next nStates maxBackEdges from' =
     close_state from' (open_loop next maxBackEdges from' (next from')
       \<lparr>colors = (replicate nStates kFresh)[from' := kOpened], order = [], nBackEdges = 0, thrown = False\<rparr>)"

definition orderTailsLast :: "'w hg \<Rightarrow> nat \<Rightarrow> nat \<times> StateId list" where
  "orderTailsLast hg maxBackEdges =
     (if start_state hg = kNoState then (0, [])
      else let r = start_order (out_heads hg) (sizeForHeads hg) (maxBackEdges mod 2 ^ 32) (start_state hg)
           in (nBackEdges r, order r))"

definition in_tail0 :: "'w hg \<Rightarrow> StateId \<Rightarrow> StateId list" where
  "in_tail0 hg s = map (\<lambda>a. hd (arc_tails (arcAt hg a))) (inArcsOf hg s)"

definition orderHeadsLast :: "'w hg \<Rightarrow> nat \<Rightarrow> nat \<times> StateId list" where
  "orderHeadsLast hg maxBackEdges =
     (if final_state hg = kNoState then (0, [])
      else let r = start_order (in_tail0 hg) (sizeForHeads hg) (maxBackEdges mod 2 ^ 32) (final_state hg)
           in (nBackEdges r, order r))"

text \<open>\<open>visitGraphOutArcsTopsort\<close> and \<open>visitTopsort\<close> (\<open>StatesTraversal.hpp\<close>): the order reversed.\<close>

definition visitGraphOutArcsTopsort :: "'w hg \<Rightarrow> nat \<Rightarrow> sdl_error + StateId list" where
  "visitGraphOutArcsTopsort hg maxBackEdges =
     (let (nBack, orderReverse) = orderTailsLast hg maxBackEdges
      in if maxBackEdges < nBack then Inl CycleException else Inr (rev orderReverse))"

definition visitTopsort :: "'w hg \<Rightarrow> sdl_error + StateId list" where
  "visitTopsort hg =
     (if storesInArcs hg then TopsortStatesTraversal hg kNoState else visitGraphOutArcsTopsort hg 0)"

section \<open>A search without back edges\<close>

definition others :: "(StateId \<Rightarrow> StateId list) \<Rightarrow> StateId \<Rightarrow> StateId list" where
  "others next s = filter (\<lambda>t. t \<noteq> s) (next s)"

definition colored :: "dfs_color \<Rightarrow> order_state \<Rightarrow> StateId set" where
  "colored k r = {i. i < length (colors r) \<and> colors r ! i = k}"

lemma test_set_cases:
  assumes "test_set_if_fresh (colors r) i = (p, c)"
  shows "p = kFresh \<Longrightarrow> i < length (colors r) \<and> c = (colors r)[i := kOpened] \<and> colors r ! i = kFresh"
    and "p = kOpened \<Longrightarrow> i \<in> colored kOpened r"
    and "p = kQueuedOrClosed \<Longrightarrow> i < length (colors r) \<Longrightarrow> i \<in> colored kQueuedOrClosed r"
  using assms by (auto simp: test_set_if_fresh_def colored_def split: if_splits)

lemma open_loop_mono:
  "nBackEdges r \<le> nBackEdges (open_loop next m from' tos r) \<and> (thrown r \<longrightarrow> open_loop next m from' tos r = r) \<and>
     length (colors (open_loop next m from' tos r)) = length (colors r)"
proof (induction "next" m from' tos r rule: open_loop.induct)
  case (2 "next" m from' to' tos r)
  obtain p c where t: "test_set_if_fresh (colors r) to' = (p, c)" by fastforce
  show ?case
  proof (cases "thrown r")
    case th: False
    show ?thesis
    proof (cases p)
      case kFresh
      have "length c = length (colors r)" using test_set_cases(1) [OF t kFresh] by simp
      moreover note 2(1) [OF th t [symmetric] kFresh] 2(2) [OF th t [symmetric] kFresh]
      ultimately show ?thesis using th t kFresh by (auto simp: open_loop.simps(2) close_state_def split: if_splits)
    next
      case kOpened
      then show ?thesis using 2(3) [OF th t [symmetric] kOpened] th t
        by (auto simp: open_loop.simps(2) back_edge_def split: if_splits)
    next
      case kQueuedOrClosed
      then show ?thesis using 2(4) [OF th t [symmetric] kQueuedOrClosed] th t by (simp add: open_loop.simps(2))
    qed
  qed (simp add: open_loop.simps(2))
qed simp

definition order_inv :: "nat \<Rightarrow> (StateId \<Rightarrow> StateId list) \<Rightarrow> order_state \<Rightarrow> bool" where
  "order_inv n next r \<longleftrightarrow> length (colors r) = n \<and> set (order r) = colored kQueuedOrClosed r \<and> distinct (order r) \<and>
     neighbours_first n (others next) (order r)"

lemma colored_open:
  assumes "i < length (colors r)" and "colors r ! i = kFresh"
  shows "colored kOpened (r\<lparr>colors := (colors r)[i := kOpened]\<rparr>) = insert i (colored kOpened r)"
    and "colored kQueuedOrClosed (r\<lparr>colors := (colors r)[i := kOpened]\<rparr>) = colored kQueuedOrClosed r"
    and "i \<notin> colored kOpened r"
  using assms by (auto simp: colored_def nth_list_update)

lemma close_inv:
  assumes I: "order_inv n next r" and s: "s \<in> colored kOpened r" and th: "\<not> thrown r"
    and nb: "\<forall>t \<in> set (next s). t < n \<longrightarrow> t = s \<or> t \<in> set (order r)"
  shows "order_inv n next (close_state s r) \<and> colored kOpened (close_state s r) = colored kOpened r - {s} \<and>
    order (close_state s r) = order r @ [s]"
proof -
  have l: "s < length (colors r)" using s by (simp add: colored_def)
  have "s \<notin> set (order r)" using I s by (auto simp: order_inv_def colored_def)
  moreover have "colored kQueuedOrClosed (close_state s r) = insert s (colored kQueuedOrClosed r)"
    using l th by (auto simp: colored_def close_state_def nth_list_update)
  ultimately show ?thesis
    using I th nb l by (auto simp: order_inv_def neighbours_first_snoc others_def close_state_def colored_def nth_list_update)
qed

text \<open>Without a new back edge everything that is finished has its neighbours before it.\<close>

lemma open_loop_order:
  assumes "order_inv n next r" and "\<not> thrown (open_loop next m from' tos r)"
    and "nBackEdges (open_loop next m from' tos r) = nBackEdges r"
  shows "order_inv n next (open_loop next m from' tos r) \<and>
    colored kOpened (open_loop next m from' tos r) = colored kOpened r \<and>
    set (order r) \<subseteq> set (order (open_loop next m from' tos r)) \<and>
    (\<forall>t \<in> set tos. t < n \<longrightarrow> t = from' \<or> t \<in> set (order (open_loop next m from' tos r)))"
  using assms
proof (induction "next" m from' tos r rule: open_loop.induct)
  case (2 "next" m from' to' tos r)
  let ?out = "open_loop next m from' (to' # tos) r"
  obtain p c where t: "test_set_if_fresh (colors r) to' = (p, c)" by fastforce
  have th: "\<not> thrown r" using 2(6) by (auto simp: open_loop.simps(2))
  have len: "length (colors r) = n" using 2(5) by (simp add: order_inv_def)
  note T = test_set_cases [OF t]
  show ?case
  proof (cases p)
    case kOpened
    let ?b = "back_edge m from' to' r"
    have out: "?out = open_loop next m from' tos ?b" using th t kOpened by (simp add: open_loop.simps(2))
    have b: "to' = from'"
    proof (rule ccontr)
      assume ne: "to' \<noteq> from'"
      have "nBackEdges ?b \<le> nBackEdges ?out" using open_loop_mono [of ?b "next" m from' tos] by (simp add: out)
      moreover have "nBackEdges ?b = nBackEdges r + 1" using ne by (simp add: back_edge_def)
      ultimately show False using 2(7) by simp
    qed
    have e: "?b = r" using b by (simp add: back_edge_def)
    show ?thesis using 2(3) [OF th t [symmetric] kOpened] 2(5-7) b unfolding out e by auto
  next
    case kQueuedOrClosed
    have out: "?out = open_loop next m from' tos r" using th t kQueuedOrClosed by (simp add: open_loop.simps(2))
    have "to' < n \<Longrightarrow> to' \<in> set (order r)" using T(3) [OF kQueuedOrClosed] 2(5) len by (simp add: order_inv_def)
    then show ?thesis using 2(4) [OF th t [symmetric] kQueuedOrClosed] 2(5-7) unfolding out by auto
  next
    case kFresh
    let ?r0 = "r\<lparr>colors := c\<rparr>"
    let ?r1 = "open_loop next m to' (next to') ?r0" and ?r2 = "close_state to' (open_loop next m to' (next to') (r\<lparr>colors := c\<rparr>))"
    have out: "?out = open_loop next m from' tos ?r2" using th t kFresh by (simp add: open_loop.simps(2))
    note F = T(1) [OF kFresh]
    have c: "c = (colors r)[to' := kOpened]" and l: "to' < length (colors r)" and f: "colors r ! to' = kFresh" using F by simp_all
    note C = colored_open [OF l f]
    have i0: "order_inv n next ?r0" using 2(5) C(2) unfolding c by (simp add: order_inv_def)
    have th2: "\<not> thrown ?r2" using open_loop_mono [of ?r2 "next" m from' tos] 2(6) unfolding out by auto
    then have th1: "\<not> thrown ?r1" by (auto simp: close_state_def split: if_splits)
    have nb: "nBackEdges ?r0 \<le> nBackEdges ?r1" "nBackEdges ?r1 = nBackEdges ?r2" "nBackEdges ?r2 \<le> nBackEdges ?out"
      using open_loop_mono [of ?r0 "next" m to' "next to'"] open_loop_mono [of ?r2 "next" m from' tos]
      unfolding out by (simp_all add: close_state_def)
    have e: "nBackEdges ?r1 = nBackEdges ?r0" "nBackEdges ?out = nBackEdges ?r2" using nb 2(7) by simp_all
    have A: "order_inv n next ?r1" "colored kOpened ?r1 = colored kOpened ?r0" "set (order r) \<subseteq> set (order ?r1)"
      "\<forall>t \<in> set (next to'). t < n \<longrightarrow> t = to' \<or> t \<in> set (order ?r1)"
      using 2(1) [OF th t [symmetric] kFresh i0 th1 e(1)] by simp_all
    have "to' \<in> colored kOpened ?r1" using A(2) C(1) unfolding c by simp
    note B = close_inv [OF A(1) this th1 A(4)]
    have g: "colored kOpened ?r2 = colored kOpened r" using B A(2) C(1,3) unfolding c by simp
    have "order_inv n next ?out \<and> colored kOpened ?out = colored kOpened ?r2 \<and> set (order ?r2) \<subseteq> set (order ?out) \<and>
        (\<forall>t \<in> set tos. t < n \<longrightarrow> t = from' \<or> t \<in> set (order ?out))"
      using 2(2) [OF th t [symmetric] kFresh] B 2(6) e(2) unfolding out by blast
    then show ?thesis using g B A(3) by auto
  qed
qed simp

text \<open>Only what can be reached is finished.\<close>

lemma open_loop_sound:
  assumes "length (colors r) = n" and "\<forall>t \<in> set tos. \<forall>x. (t, x) \<in> (next_edges n (others next))\<^sup>* \<longrightarrow> x < n \<longrightarrow> x \<in> R"
    and "set (order r) \<subseteq> R"
  shows "set (order (open_loop next m from' tos r)) \<subseteq> R"
  using assms
proof (induction "next" m from' tos r rule: open_loop.induct)
  case (2 "next" m from' to' tos r)
  let ?E = "next_edges n (others next)"
  obtain p c where t: "test_set_if_fresh (colors r) to' = (p, c)" by fastforce
  show ?case
  proof (cases "thrown r")
    case th: False
    show ?thesis
    proof (cases p)
      case kOpened
      then show ?thesis using 2(3) [OF th t [symmetric] kOpened] 2(5-) th t by (simp add: open_loop.simps(2))
    next
      case kQueuedOrClosed
      then show ?thesis using 2(4) [OF th t [symmetric] kQueuedOrClosed] 2(5-) th t by (simp add: open_loop.simps(2))
    next
      case kFresh
      let ?r1 = "open_loop next m to' (next to') (r\<lparr>colors := c\<rparr>)"
      have c: "length c = n" "to' < n" using test_set_cases(1) [OF t kFresh] 2(5) by auto
      have "x \<in> R" if y: "y \<in> set (next to')" "(y, x) \<in> ?E\<^sup>*" "x < n" for x y
      proof -
        have "y < n" using y(2,3) by (cases rule: converse_rtranclE) (auto simp: next_edges_def)
        then have "y = to' \<or> (to', y) \<in> ?E" using y(1) c(2) by (auto simp: next_edges_def others_def)
        then have "(to', x) \<in> ?E\<^sup>*" using y(2) by (auto intro: converse_rtrancl_into_rtrancl)
        then show ?thesis using 2(6) y(3) by simp
      qed
      then have "set (order ?r1) \<subseteq> R" using 2(1) [OF th t [symmetric] kFresh] c(1) 2(7) by simp
      moreover have "to' \<in> R" using 2(6) c(2) by simp
      ultimately have "set (order (close_state to' ?r1)) \<subseteq> R" by (simp add: close_state_def)
      moreover have "length (colors (close_state to' ?r1)) = n"
        using open_loop_mono [of "r\<lparr>colors := c\<rparr>" "next" m to' "next to'"] c(1) by (simp add: close_state_def)
      ultimately show ?thesis using 2(2) [OF th t [symmetric] kFresh] 2(6) th t kFresh by (simp add: open_loop.simps(2))
    qed
  qed (use 2 in \<open>simp add: open_loop.simps(2)\<close>)
qed simp

text \<open>Without a cycle no back edge is met: an opened state leads to the one at hand.\<close>

lemma open_loop_no_back_edge:
  assumes "order_inv n next r" and "acyclic E" and "from' \<in> colored kOpened r" and "\<forall>g \<in> colored kOpened r. (g, from') \<in> E\<^sup>*"
    and "set tos \<subseteq> set (next from')" and "\<not> thrown r" and "from' \<in> R"
    and E: "\<And>s t. s \<in> R \<Longrightarrow> (s, t) \<in> next_edges n (others next) \<Longrightarrow> t \<in> R \<and> (s, t) \<in> E"
  shows "nBackEdges (open_loop next m from' tos r) = nBackEdges r \<and> \<not> thrown (open_loop next m from' tos r)"
  using assms
proof (induction "next" m from' tos r rule: open_loop.induct)
  case (2 "next" m from' to' tos r)
  let ?out = "open_loop next m from' (to' # tos) r"
  obtain p c where t: "test_set_if_fresh (colors r) to' = (p, c)" by fastforce
  have th: "\<not> thrown r" and len: "length (colors r) = n" and from': "from' < n"
    using 2(5,7,10) by (auto simp: order_inv_def colored_def)
  have edge: "to' \<in> R \<and> (from', to') \<in> E" if "to' < n" "to' \<noteq> from'"
    using 2(12) [OF 2(11)] that 2(9) from' by (auto simp: next_edges_def others_def)
  note T = test_set_cases [OF t]
  show ?case
  proof (cases p)
    case kOpened
    have "to' = from'"
    proof (rule ccontr)
      assume ne: "to' \<noteq> from'"
      have o: "to' \<in> colored kOpened r" by (rule T(2) [OF kOpened])
      then have "(from', to') \<in> E" using edge ne len by (simp add: colored_def)
      moreover have "(to', from') \<in> E\<^sup>*" using 2(8) o by blast
      ultimately have "(from', from') \<in> E\<^sup>+" by (rule rtrancl_into_trancl2)
      then show False using 2(6) by (simp add: acyclic_def)
    qed
    then have "?out = open_loop next m from' tos r" using th t kOpened by (simp add: open_loop.simps(2) back_edge_def)
    then show ?thesis using 2(3) [OF th t [symmetric] kOpened] 2(5-) \<open>to' = from'\<close> by (simp add: back_edge_def)
  next
    case kQueuedOrClosed
    then have "?out = open_loop next m from' tos r" using th t by (simp add: open_loop.simps(2))
    then show ?thesis using 2(4) [OF th t [symmetric] kQueuedOrClosed] 2(5-) by simp
  next
    case kFresh
    let ?r0 = "r\<lparr>colors := c\<rparr>"
    let ?r1 = "open_loop next m to' (next to') ?r0" and ?r2 = "close_state to' (open_loop next m to' (next to') (r\<lparr>colors := c\<rparr>))"
    have out: "?out = open_loop next m from' tos ?r2" using th t kFresh by (simp add: open_loop.simps(2))
    note F = T(1) [OF kFresh]
    have c: "c = (colors r)[to' := kOpened]" and l: "to' < length (colors r)" and f: "colors r ! to' = kFresh" using F by simp_all
    note C = colored_open [OF l f]
    have ne: "to' \<noteq> from'" using 2(7) C(3) by blast
    have e: "to' \<in> R" "(from', to') \<in> E" using edge l len ne by simp_all
    have i0: "order_inv n next ?r0" using 2(5) C(2) unfolding c by (simp add: order_inv_def)
    have gray: "\<forall>g \<in> colored kOpened ?r0. (g, to') \<in> E\<^sup>*"
      using 2(8) e(2) C(1) unfolding c by (auto intro: rtrancl_into_rtrancl)
    have op: "to' \<in> colored kOpened ?r0" using C(1) unfolding c by simp
    have r1: "nBackEdges ?r1 = nBackEdges r" "\<not> thrown ?r1"
      using 2(1) [OF th t [symmetric] kFresh i0 2(6) op gray _ _ e(1) 2(12)] th by simp_all
    then have r1': "nBackEdges ?r1 = nBackEdges ?r0" by simp
    note A = open_loop_order [OF i0 r1(2) r1']
    have "to' \<in> colored kOpened ?r1" using A op by simp
    moreover have "\<forall>t \<in> set (next to'). t < n \<longrightarrow> t = to' \<or> t \<in> set (order ?r1)" using A by blast
    ultimately have B: "order_inv n next ?r2" "colored kOpened ?r2 = colored kOpened ?r1 - {to'}"
      using close_inv [OF _ _ r1(2)] A by blast+
    have g: "colored kOpened ?r2 = colored kOpened r" using B(2) A C(1,3) unfolding c by auto
    have th2: "\<not> thrown ?r2" "nBackEdges ?r2 = nBackEdges r" using r1 by (simp_all add: close_state_def)
    have "nBackEdges ?out = nBackEdges ?r2 \<and> \<not> thrown ?out"
      unfolding out
      by (rule 2(2) [OF th t [symmetric] kFresh B(1) 2(6) _ _ _ th2(1) 2(11,12)]) (use g 2(7-9) in auto)
    then show ?thesis using th2(2) by simp
  qed
qed simp

section \<open>The order from one state\<close>

definition reach_edges :: "nat \<Rightarrow> (StateId \<Rightarrow> StateId list) \<Rightarrow> StateId \<Rightarrow> (StateId \<times> StateId) set" where
  "reach_edges n next s = {(x, y) \<in> next_edges n (others next). (s, x) \<in> (next_edges n (others next))\<^sup>*}"

lemma nf_acyclic:
  assumes "distinct ord" and "neighbours_first n nx ord"
    and E: "\<And>x y. (x, y) \<in> E \<Longrightarrow> x \<in> set ord \<and> y \<in> set (nx x) \<and> y < n"
  shows "acyclic E"
proof (rule acyclicI_order)
  fix x y assume xy: "(x, y) \<in> E"
  then obtain i where i: "i < length ord" "ord ! i = x" using E by (metis in_set_conv_nth)
  then have "y \<in> set (take i ord)" using assms(2) E [OF xy] by (auto simp: neighbours_first_def)
  then obtain j where j: "j < i" "ord ! j = y" using i(1) by (auto simp: in_set_conv_nth)
  have inj: "inj_on ((!) ord) {..<length ord}" using assms(1) by (rule inj_on_nth) simp
  have "the_inv_into {..<length ord} ((!) ord) x = i" using the_inv_into_f_f [OF inj, of i] i by simp
  moreover have "the_inv_into {..<length ord} ((!) ord) y = j" using the_inv_into_f_f [OF inj, of j] i(1) j by simp
  ultimately show "the_inv_into {..<length ord} ((!) ord) y < the_inv_into {..<length ord} ((!) ord) x" using j(1) by simp
qed

lemma start_order_facts:
  fixes "next" :: "StateId \<Rightarrow> StateId list" and m n f :: nat
  assumes f: "f < n"
  defines "r \<equiv> start_order next n m f"
  shows "nBackEdges r = 0 \<Longrightarrow> \<not> thrown r \<Longrightarrow> distinct (order r) \<and> neighbours_first n (others next) (order r) \<and>
      set (order r) = {s. (f, s) \<in> (next_edges n (others next))\<^sup>*}"
    and "nBackEdges r = 0 \<and> \<not> thrown r \<longleftrightarrow> acyclic (reach_edges n next f)"
proof -
  let ?E = "next_edges n (others next)"
  let ?r0 = "\<lparr>colors = (replicate n kFresh)[f := kOpened], order = [], nBackEdges = 0, thrown = False\<rparr>"
  let ?r1 = "open_loop next m f (next f) ?r0"
  have r: "r = close_state f ?r1" by (simp add: r_def start_order_def)
  have i0: "order_inv n next ?r0"
    using f by (auto simp: order_inv_def colored_def neighbours_first_def nth_list_update)
  have op: "colored kOpened ?r0 = {f}" using f by (auto simp: colored_def nth_list_update split: if_splits)
  show A: "distinct (order r) \<and> neighbours_first n (others next) (order r) \<and> set (order r) = {s. (f, s) \<in> ?E\<^sup>*}"
    if z: "nBackEdges r = 0" "\<not> thrown r"
  proof -
    have th: "\<not> thrown ?r1" and nb: "nBackEdges ?r1 = nBackEdges ?r0"
      using z by (auto simp: r close_state_def split: if_splits)
    note O = open_loop_order [OF i0 th nb]
    have "f \<in> colored kOpened ?r1" using O op by simp
    then have C: "order_inv n next r" "order r = order ?r1 @ [f]"
      using close_inv [of n "next" ?r1 f] O th unfolding r by blast+
    have nf: "neighbours_first n (others next) (order r)" and d: "distinct (order r)" using C(1) by (simp_all add: order_inv_def)
    have "(f, s) \<in> ?E\<^sup>* \<Longrightarrow> s \<in> set (order r)" for s
    proof (induction rule: rtrancl_induct)
      case (step x y)
      then show ?case using neighbours_first_closed [OF nf step.IH, of y] by (auto simp: next_edges_def)
    qed (simp add: C(2))
    moreover have "set (order ?r1) \<subseteq> {s. (f, s) \<in> ?E\<^sup>*}"
    proof (rule open_loop_sound [where n = n])
      show "\<forall>t \<in> set (next f). \<forall>x. (t, x) \<in> ?E\<^sup>* \<longrightarrow> x < n \<longrightarrow> x \<in> {s. (f, s) \<in> ?E\<^sup>*}"
      proof (intro ballI allI impI CollectI)
        fix t x assume t: "t \<in> set (next f)" "(t, x) \<in> ?E\<^sup>*" "x < n"
        have "t < n" using t(2,3) by (cases rule: converse_rtranclE) (auto simp: next_edges_def)
        then have "t = f \<or> (f, t) \<in> ?E" using t(1) f by (auto simp: next_edges_def others_def)
        then show "(f, x) \<in> ?E\<^sup>*" using t(2) by (auto intro: converse_rtrancl_into_rtrancl)
      qed
    qed simp_all
    ultimately show ?thesis using d nf by (auto simp: C(2))
  qed
  show "nBackEdges r = 0 \<and> \<not> thrown r \<longleftrightarrow> acyclic (reach_edges n next f)"
  proof
    assume z: "nBackEdges r = 0 \<and> \<not> thrown r"
    show "acyclic (reach_edges n next f)"
      by (rule nf_acyclic [of "order r" n "others next"]) (use A z in \<open>auto simp: reach_edges_def next_edges_def\<close>)
  next
    assume ac: "acyclic (reach_edges n next f)"
    have "nBackEdges ?r1 = nBackEdges ?r0 \<and> \<not> thrown ?r1"
      by (rule open_loop_no_back_edge [OF i0 ac, where R = "{s. (f, s) \<in> ?E\<^sup>*}"])
        (use op in \<open>auto simp: reach_edges_def intro: rtrancl_into_rtrancl\<close>)
    then show "nBackEdges r = 0 \<and> \<not> thrown r" by (simp add: r close_state_def)
  qed
qed

lemma open_loop_thrown:
  "thrown (open_loop next m from' tos r) \<Longrightarrow> \<not> thrown r \<or> m < nBackEdges r \<Longrightarrow>
     m < nBackEdges (open_loop next m from' tos r)"
proof (induction "next" m from' tos r rule: open_loop.induct)
  case (2 "next" m from' to' tos r)
  obtain p c where t: "test_set_if_fresh (colors r) to' = (p, c)" by fastforce
  show ?case
  proof (cases "thrown r")
    case True
    then show ?thesis using 2(6) by (simp add: open_loop.simps(2))
  next
    case th: False
    show ?thesis
    proof (cases p)
      case kOpened
      then show ?thesis using 2(3) [OF th t [symmetric] kOpened] 2(5) th t
        by (auto simp: open_loop.simps(2) back_edge_def split: if_splits)
    next
      case kQueuedOrClosed
      then show ?thesis using 2(4) [OF th t [symmetric] kQueuedOrClosed] 2(5) th t by (simp add: open_loop.simps(2))
    next
      case kFresh
      then show ?thesis using 2(1) [OF th t [symmetric] kFresh] 2(2) [OF th t [symmetric] kFresh] 2(5) th t
        by (simp add: open_loop.simps(2) close_state_def split: if_splits)
    qed
  qed
qed simp

lemma start_order_thrown:
  assumes "thrown (start_order next n m f)"
  shows "m < nBackEdges (start_order next n m f)"
proof -
  let ?r1 = "open_loop next m f (next f) \<lparr>colors = (replicate n kFresh)[f := kOpened], order = [], nBackEdges = 0, thrown = False\<rparr>"
  have "thrown ?r1" using assms by (simp add: start_order_def close_state_def split: if_splits)
  from open_loop_thrown [OF this] show ?thesis by (simp add: start_order_def close_state_def)
qed

section \<open>Properties\<close>

text \<open>
  Property C8 (acyclicity and order of the states). \<open>visitGraphOutArcsTopsort\<close>, from the start state
  and with no back edge allowed, throws \<open>CycleException\<close> exactly when there is a cycle of two or more
  states below the start state; self-loops are ignored, although the comment speaks of all cycle-causing edges. Otherwise it
  visits exactly the states that can be reached, each once, and no state before a different state with an arc to it.
\<close>

theorem visitGraphOutArcsTopsort_correct:
  assumes s: "start_state hg \<noteq> kNoState" and n: "n = sizeForHeads hg" and f: "start_state hg < n"
  shows "if acyclic (reach_edges n (out_heads hg) (start_state hg))
    then \<exists>ord. visitGraphOutArcsTopsort hg 0 = Inr ord \<and> distinct ord \<and>
      set ord = {x. (start_state hg, x) \<in> (next_edges n (others (out_heads hg)))\<^sup>*} \<and>
      (\<forall>i < length ord. \<forall>j < length ord. ord ! j \<in> set (out_heads hg (ord ! i)) \<longrightarrow> i \<le> j)
    else visitGraphOutArcsTopsort hg 0 = Inl CycleException"
proof -
  let ?r = "start_order (out_heads hg) n 0 (start_state hg)"
  let ?E = "next_edges n (others (out_heads hg))"
  note F = start_order_facts [OF f, of "out_heads hg" 0]
  have z: "nBackEdges ?r = 0 \<longleftrightarrow> acyclic (reach_edges n (out_heads hg) (start_state hg))"
    using F(2) start_order_thrown [of "out_heads hg" n 0 "start_state hg"] by auto
  have v: "visitGraphOutArcsTopsort hg 0 = (if 0 < nBackEdges ?r then Inl CycleException else Inr (rev (order ?r)))"
    using s n by (simp add: visitGraphOutArcsTopsort_def orderTailsLast_def Let_def)
  show ?thesis
  proof (cases "acyclic (reach_edges n (out_heads hg) (start_state hg))")
    case True
    then have nb: "nBackEdges ?r = 0" and th: "\<not> thrown ?r"
      using z start_order_thrown [of "out_heads hg" n 0 "start_state hg"] by auto
    have A: "distinct (order ?r)" "neighbours_first n (others (out_heads hg)) (order ?r)"
      "set (order ?r) = {x. (start_state hg, x) \<in> ?E\<^sup>*}"
      using F(1) [OF nb th] by simp_all
    have "i \<le> j" if i: "i < length (order ?r)" and j: "j < length (order ?r)"
      and e: "rev (order ?r) ! j \<in> set (out_heads hg (rev (order ?r) ! i))" for i j
    proof (cases "rev (order ?r) ! j = rev (order ?r) ! i")
      case True
      then show ?thesis using nth_eq_iff_index_eq [of "rev (order ?r)" j i] A(1) i j by simp
    next
      case False
      let ?i = "length (order ?r) - Suc i" and ?j = "length (order ?r) - Suc j"
      have ij: "?i < length (order ?r)" "?j < length (order ?r)" using i j by simp_all
      have m: "order ?r ! ?j \<in> set (others (out_heads hg) (order ?r ! ?i))"
        using e False i j by (simp add: rev_nth others_def)
      have "order ?r ! ?j \<in> {x. (start_state hg, x) \<in> ?E\<^sup>*}" using A(3) ij(2) nth_mem by blast
      then have "order ?r ! ?j < n" using reached_below f by blast
      then have "order ?r ! ?j \<in> set (take ?i (order ?r))" using A(2) m ij(1) by (simp add: neighbours_first_def)
      then obtain k where k: "k < ?i" "order ?r ! k = order ?r ! ?j" by (auto simp: in_set_conv_nth)
      then have "k = ?j" using A(1) ij nth_eq_iff_index_eq [of "order ?r" k ?j] by simp
      then show ?thesis using k(1) by simp
    qed
    then show ?thesis using True nb A(1,3) v by simp
  next
    case False
    then show ?thesis using z v by simp
  qed
qed

text \<open>Two states with an arc each way.\<close>

definition sample_cycle :: "nat hg" where
  "sample_cycle = hg_zero\<lparr>props := kStoreFirstTailOutArcs OR kGraph, fsmChecked := True, numStates := 2, start_state := 0,
     arc_heap := [0 \<mapsto> \<lparr>arc_head = 1, arc_tails = [0], arc_weight = 1\<rparr>,
                  1 \<mapsto> \<lparr>arc_head = 0, arc_tails = [1], arc_weight = 1\<rparr>],
     next_arc := 2, outArcsPerState := [[0], [1]]\<rparr>"

theorem visitGraphOutArcsTopsort_correct_witness:
  "visitGraphOutArcsTopsort sample_cycle 0 = Inl CycleException"
proof -
  let ?h = sample_cycle and ?o = "out_heads sample_cycle"
  have o: "out_heads ?h s = (if s = 0 then [1] else if s = 1 then [0] else [])" for s
    by (simp add: out_heads_def outArcsOf_def arcAt_def sample_cycle_def getOrElse_def nth_Cons')
  have "has (properties ?h) kSortedStates = False"
    by (simp add: properties_def sample_cycle_def computeFsmGraphProperty_def flag_simps hg_zero_def)
  then have n: "2 = sizeForHeads ?h" by (simp add: sizeForHeads_def sample_cycle_def)
  have e: "(0, 1) \<in> next_edges 2 (others ?o)" "(1, 0) \<in> next_edges 2 (others ?o)"
    by (simp_all add: next_edges_def others_def o)
  then have "(0, 1) \<in> reach_edges 2 ?o 0" "(1, 0) \<in> reach_edges 2 ?o 0" by (auto simp: reach_edges_def)
  then have "(0, 0) \<in> (reach_edges 2 ?o 0)\<^sup>+" by (meson trancl.simps)
  then have "\<not> acyclic (reach_edges 2 ?o 0)" unfolding acyclic_def by blast
  moreover have "start_state ?h = 0" by (simp add: sample_cycle_def)
  ultimately show ?thesis using visitGraphOutArcsTopsort_correct [OF _ n] by (simp add: kNoState_def)
qed

end
