(* ===== verification/Acyclic_Best.thy ===== *)
theory Acyclic_Best
  imports State_Order Dag_Distance
begin

text \<open>
  Best paths of an acyclic graph (\<open>sdl/Hypergraph/AcyclicBest.hpp\<close>, the graph case, with costs of
  \<open>cost_path_traits\<close>): \<open>mu\<close> is the best cost of each state, \<open>pi\<close> the arc it was improved by. With
  out-arcs the states are relaxed from the start on; with in-arcs from the final state on, and the
  path found is then turned around. \<open>val\<close> is \<open>Weight::getValue\<close>. A state of \<open>MutableHypergraph\<close> is
  mutable, so that the arc lists are read directly and the acyclic property is recorded.
\<close>

section \<open>Improving along an arc\<close>

definition pt_start :: cost where "pt_start = Fin 0"

definition pt_unreachable :: cost where "pt_unreachable = Infty"

definition pt_better :: "cost \<Rightarrow> cost \<Rightarrow> bool" where "pt_better a b \<longleftrightarrow> cost_less a b"

definition pt_extendBy :: "cost \<Rightarrow> cost \<Rightarrow> cost" where "pt_extendBy delta b = cost_add b delta"

record best_state =
  mu :: "cost list"
  pi :: "ArcHandle option list"
  self_loops :: nat

definition put_best :: "StateId \<Rightarrow> cost \<Rightarrow> ArcHandle \<Rightarrow> best_state \<Rightarrow> best_state" where
  "put_best s w a r = r\<lparr>mu := (mu r)[s := w], pi := (pi r)[s := Some a]\<rparr>"

definition improve :: "('w \<Rightarrow> cost) \<Rightarrow> 'w hg \<Rightarrow> ArcHandle \<Rightarrow> best_state \<Rightarrow> best_state" where
  "improve val hg a r =
     (let arc = arcAt hg a; head = arc_head arc; tail = hd (arc_tails arc);
          r1 = (if tail = head then r\<lparr>self_loops := self_loops r + 1\<rparr> else r);
          w = pt_extendBy (mu r1 ! tail) (val (arc_weight arc))
      in if pt_better w (mu r1 ! head) then put_best head w a r1 else r1)"

definition improveTopDown :: "('w \<Rightarrow> cost) \<Rightarrow> 'w hg \<Rightarrow> StateId \<Rightarrow> ArcHandle \<Rightarrow> best_state \<Rightarrow> best_state" where
  "improveTopDown val hg head a r =
     (let arc = arcAt hg a
      in if arc_tails arc = [] then r
         else let fromCost = pt_extendBy (val (arc_weight arc)) (mu r ! head); tail = hd (arc_tails arc)
              in if pt_better fromCost (mu r ! tail) then put_best tail fromCost a r else r)"

text \<open>
  The walk from the start along \<open>pi\<close> that turns the path around. It does not end when \<open>pi\<close> has a
  cycle that misses the final state: then there is no result.
\<close>

partial_function (option) turn_around :: "('w \<Rightarrow> cost) \<Rightarrow> 'w hg \<Rightarrow> StateId \<Rightarrow> StateId \<Rightarrow> ArcHandle option \<Rightarrow> cost
    \<Rightarrow> best_state \<Rightarrow> (sdl_error + best_state) option" where
  "turn_around val hg final s lastarc mucost r =
     (if s = final then Some (Inr (r\<lparr>pi := (pi r)[final := lastarc], mu := (mu r)[final := mucost]\<rparr>))
      else case pi r ! s of
        None \<Rightarrow> Some (Inl EmptySetException)
      | Some a \<Rightarrow> turn_around val hg final (arc_head (arcAt hg a)) (Some a)
                   (pt_extendBy (val (arc_weight (arcAt hg a))) mucost)
                   (r\<lparr>pi := (pi r)[s := lastarc], mu := (mu r)[s := mucost]\<rparr>))"

section \<open>The constructor\<close>

record best_result =
  best :: best_state
  back_edges :: nat

definition best_init :: "'w hg \<Rightarrow> best_state \<Rightarrow> best_state" where
  "best_init hg r = r\<lparr>mu := map (\<lambda>i. if isAxiom hg i then pt_start else pt_unreachable) [0..<numStates hg]\<rparr>"

definition best_by_out_arcs :: "('w \<Rightarrow> cost) \<Rightarrow> 'w hg \<Rightarrow> StateId list \<Rightarrow> best_state \<Rightarrow> best_state" where
  "best_by_out_arcs val hg orderReverse r =
     fold (\<lambda>tail. fold (improve val hg) (outArcsOf hg tail)) (rev orderReverse) (best_init hg r)"

definition best_by_in_arcs :: "('w \<Rightarrow> cost) \<Rightarrow> 'w hg \<Rightarrow> StateId list \<Rightarrow> best_state \<Rightarrow> (sdl_error + best_state) option" where
  "best_by_in_arcs val hg orderReverse r =
     (let r0 = r\<lparr>mu := (replicate (numStates hg) pt_unreachable)[final_state hg := pt_start]\<rparr>;
          r1 = fold (\<lambda>head. fold (improveTopDown val hg head) (inArcsOf hg head)) (rev orderReverse) r0
      in turn_around val hg (final_state hg) (start_state hg) None (Fin 0) r1)"

definition acyclic_result :: "best_result \<Rightarrow> bool" where
  "acyclic_result b \<longleftrightarrow> back_edges b = 0 \<and> self_loops (best b) = 0"

definition best_finish :: "'w hg \<Rightarrow> nat \<Rightarrow> best_state \<Rightarrow> best_result \<times> 'w hg" where
  "best_finish hg back r =
     (let b = \<lparr>best = r, back_edges = back\<rparr>
      in (b, if acyclic_result b then addProperties kAcyclic hg else hg))"

definition AcyclicBest :: "('w \<Rightarrow> cost) \<Rightarrow> 'w hg \<Rightarrow> best_state \<Rightarrow> nat \<Rightarrow> (sdl_error + best_result \<times> 'w hg) option" where
  "AcyclicBest val hg r0 maxBackEdges =
     (let inArcs = has (props hg) kStoreInArcs; useOutArcs = storesOutArcs hg;
          (back, orderReverse) = (if useOutArcs then orderTailsLast hg maxBackEdges else orderHeadsLast hg maxBackEdges);
          r1 = r0\<lparr>self_loops := 0\<rparr>
      in if final_state hg = kNoState then Some (Inl EmptySetException)
         else if \<not> useOutArcs \<and> \<not> inArcs then Some (Inl ConfigException)
         else if start_state hg = kNoState then Some (Inl EmptySetException)
         else if maxBackEdges < back \<or> orderReverse = [] then Some (Inr (\<lparr>best = r1, back_edges = back\<rparr>, hg))
         else if useOutArcs then Some (Inr (best_finish hg back (best_by_out_arcs val hg orderReverse r1)))
         else map_option (\<lambda>x. bindR x (\<lambda>r. Inr (best_finish hg back r))) (best_by_in_arcs val hg orderReverse r1))"

section \<open>Costs of paths\<close>

definition arc_cost :: "('w \<Rightarrow> cost) \<Rightarrow> 'w hg \<Rightarrow> ArcHandle \<Rightarrow> cost" where
  "arc_cost val hg a = val (arc_weight (arcAt hg a))"

lemma cost_le_trans: "\<not> cost_less b a \<Longrightarrow> \<not> cost_less c b \<Longrightarrow> \<not> cost_less c a"
  by (cases a; cases b; cases c) auto

lemma cost_add_mono: "\<not> cost_less b a \<Longrightarrow> \<not> cost_less (cost_add b c) (cost_add a c)"
  by (cases a; cases b; cases c) auto

lemma cost_add_comm: "cost_add a b = cost_add b a"
  by (cases a; cases b) auto

lemma cost_less_irrefl [simp]: "\<not> cost_less a a"
  by (cases a) auto

lemma cost_less_asym: "cost_less a b \<Longrightarrow> \<not> cost_less b a"
  by (cases a; cases b) auto

section \<open>Relaxing the arcs in topological order\<close>

definition arc_tail :: "'w hg \<Rightarrow> ArcHandle \<Rightarrow> StateId" where
  "arc_tail hg a = hd (arc_tails (arcAt hg a))"

definition arc_to :: "'w hg \<Rightarrow> ArcHandle \<Rightarrow> StateId" where
  "arc_to hg a = arc_head (arcAt hg a)"

text \<open>
  Both directions relax arcs: an arc takes the cost of its source over to its destination, from the
  tail to the head or the other way round.
\<close>

definition relax :: "(ArcHandle \<Rightarrow> StateId) \<Rightarrow> (ArcHandle \<Rightarrow> StateId) \<Rightarrow> (ArcHandle \<Rightarrow> cost) \<Rightarrow> ArcHandle \<Rightarrow> best_state \<Rightarrow> best_state" where
  "relax src dst cst a r =
     (let w = cost_add (mu r ! src a) (cst a)
      in if cost_less w (mu r ! dst a) then put_best (dst a) w a r else r)"

lemma improve_relax:
  "arc_to hg a \<noteq> arc_tail hg a \<Longrightarrow> improve val hg a r = relax (arc_tail hg) (arc_to hg) (arc_cost val hg) a r"
  by (simp add: improve_def relax_def arc_to_def arc_tail_def arc_cost_def pt_better_def pt_extendBy_def cost_add_comm Let_def)

lemma improveTopDown_relax:
  "arc_tails (arcAt hg a) \<noteq> [] \<Longrightarrow> arc_to hg a = s \<Longrightarrow>
     improveTopDown val hg s a r = relax (arc_to hg) (arc_tail hg) (arc_cost val hg) a r"
  by (auto simp: improveTopDown_def relax_def arc_to_def arc_tail_def arc_cost_def pt_better_def pt_extendBy_def Let_def)

text \<open>No arc leads to the source of its own or of an earlier arc.\<close>

fun forward_arcs :: "(ArcHandle \<Rightarrow> StateId) \<Rightarrow> (ArcHandle \<Rightarrow> StateId) \<Rightarrow> StateId set \<Rightarrow> ArcHandle list \<Rightarrow> bool" where
  "forward_arcs src dst T [] \<longleftrightarrow> True"
| "forward_arcs src dst T (a # as) \<longleftrightarrow> dst a \<notin> insert (src a) T \<and> forward_arcs src dst (insert (src a) T) as"

lemma forward_arcs_mono: "forward_arcs src dst T' as \<Longrightarrow> T \<subseteq> T' \<Longrightarrow> forward_arcs src dst T as"
proof (induction as arbitrary: T T')
  case (Cons a as)
  then have "forward_arcs src dst (insert (src a) T) as"
    using Cons.IH [of "insert (src a) T'" "insert (src a) T"] by auto
  then show ?case using Cons.prems by auto
qed simp

lemma forward_arcs_append:
  assumes "\<forall>a \<in> set xs. src a = s \<and> dst a \<notin> insert s T" and "forward_arcs src dst (insert s T) ys"
  shows "forward_arcs src dst T (xs @ ys)"
  using assms
proof (induction xs arbitrary: T)
  case Nil
  then show ?case using forward_arcs_mono [OF Nil(2) subset_insertI] by simp
next
  case (Cons x xs)
  have "forward_arcs src dst (insert s T) (xs @ ys)" by (rule Cons.IH) (use Cons.prems in simp_all)
  then show ?case using Cons.prems by simp
qed

lemma order_forward:
  assumes "neighbours_first n (others (\<lambda>v. map dst (arcs v))) ord" and "distinct ord" and "T \<inter> set ord = {}"
    and "\<forall>v \<in> set ord. v < n \<and> (\<forall>a \<in> set (arcs v). src a = v \<and> dst a \<noteq> v \<and> dst a < n)"
  shows "forward_arcs src dst T (concat (map arcs (rev ord)))"
  using assms
proof (induction ord arbitrary: T rule: rev_induct)
  case (snoc s ord)
  have nf: "neighbours_first n (others (\<lambda>v. map dst (arcs v))) ord"
    and h: "\<forall>t \<in> set (others (\<lambda>v. map dst (arcs v)) s). t < n \<longrightarrow> t \<in> set ord"
    using snoc.prems(1) by (simp_all add: neighbours_first_snoc)
  have F: "forward_arcs src dst (insert s T) (concat (map arcs (rev ord)))"
    by (rule snoc.IH [OF nf]) (use snoc.prems(2-4) in auto)
  have "\<forall>a \<in> set (arcs s). src a = s \<and> dst a \<notin> insert s T"
  proof
    fix a assume a: "a \<in> set (arcs s)"
    then have f: "src a = s" "dst a \<noteq> s" "dst a < n" using snoc.prems(4) by simp_all
    then have "dst a \<in> set ord" using h a by (auto simp: others_def)
    then show "src a = s \<and> dst a \<notin> insert s T" using f snoc.prems(3) by auto
  qed
  from forward_arcs_append [OF this F] show ?case by simp
qed simp

text \<open>
  What holds after the arcs \<open>A\<close>: an improved state was improved by one of them to the cost of its
  source and the arc, and no arc of \<open>A\<close> can improve anything any more.
\<close>

definition relaxed :: "(ArcHandle \<Rightarrow> StateId) \<Rightarrow> (ArcHandle \<Rightarrow> StateId) \<Rightarrow> (ArcHandle \<Rightarrow> cost) \<Rightarrow> nat \<Rightarrow> StateId
    \<Rightarrow> ArcHandle set \<Rightarrow> best_state \<Rightarrow> bool" where
  "relaxed src dst cst N st A r \<longleftrightarrow> length (mu r) = N \<and> length (pi r) = N \<and> self_loops r = 0 \<and>
     mu r ! st = Fin 0 \<and> pi r ! st = None \<and>
     (\<forall>s < N. \<forall>a. pi r ! s = Some a \<longrightarrow> a \<in> A \<and> dst a = s \<and> mu r ! s = cost_add (mu r ! src a) (cst a)) \<and>
     (\<forall>a \<in> A. \<not> cost_less (cost_add (mu r ! src a) (cst a)) (mu r ! dst a))"

lemma relax_relaxed:
  assumes R: "relaxed src dst cst N st A r" and T: "src ` A \<subseteq> T" and h: "dst a \<notin> insert (src a) T"
    and b: "dst a < N" "dst a \<noteq> st"
  shows "relaxed src dst cst N st (insert a A) (relax src dst cst a r) \<and>
    (\<forall>s. pi r ! s = None \<longrightarrow> mu (relax src dst cst a r) ! s = mu r ! s \<or> pi (relax src dst cst a r) ! s = Some a)"
proof -
  let ?h = "dst a" and ?w = "cost_add (mu r ! src a) (cst a)"
  have i: "relax src dst cst a r = (if cost_less ?w (mu r ! ?h) then put_best ?h ?w a r else r)"
    by (simp add: relax_def Let_def)
  have ne: "src x \<noteq> ?h" if "x \<in> insert a A" for x using that T h by auto
  show ?thesis
  proof (cases "cost_less ?w (mu r ! ?h)")
    case False
    then show ?thesis using R unfolding i relaxed_def by simp
  next
    case less: True
    let ?r = "put_best ?h ?w a r"
    have m: "mu ?r ! s = (if s = ?h then ?w else mu r ! s)" "pi ?r ! s = (if s = ?h then Some a else pi r ! s)" for s
      using R b(1) by (auto simp: put_best_def relaxed_def nth_list_update)
    have len: "length (mu ?r) = N" "length (pi ?r) = N" "self_loops ?r = 0"
      using R by (simp_all add: put_best_def relaxed_def)
    have "x \<in> insert a A \<and> dst x = s \<and> mu ?r ! s = cost_add (mu ?r ! src x) (cst x)"
      if s: "s < N" "pi ?r ! s = Some x" for s x
    proof (cases "s = ?h")
      case True
      then have "x = a" using s(2) by (simp add: m)
      then show ?thesis using True ne [of a] by (simp add: m)
    next
      case False
      then have "pi r ! s = Some x" using s(2) by (simp add: m)
      then have "x \<in> A \<and> dst x = s \<and> mu r ! s = cost_add (mu r ! src x) (cst x)"
        using R s(1) unfolding relaxed_def by blast
      then show ?thesis using False ne [of x] by (simp add: m)
    qed
    moreover have "\<not> cost_less (cost_add (mu ?r ! src x) (cst x)) (mu ?r ! dst x)"
      if x: "x \<in> insert a A" for x
    proof (cases "x = a")
      case True
      then show ?thesis using ne [of a] by (simp add: m)
    next
      case False
      then have "\<not> cost_less (cost_add (mu r ! src x) (cst x)) (mu r ! dst x)"
        using R x unfolding relaxed_def by blast
      moreover have "\<not> cost_less (mu r ! ?h) ?w" using less by (rule cost_less_asym)
      ultimately show ?thesis using ne [OF x] cost_le_trans by (auto simp: m)
    qed
    moreover have "mu ?r ! st = Fin 0" "pi ?r ! st = None" using R b(2) by (simp_all add: m relaxed_def)
    ultimately have "relaxed src dst cst N st (insert a A) ?r" using len unfolding relaxed_def by blast
    then show ?thesis using less m by (simp add: i)
  qed
qed

lemma relax_pi: "pi (relax src dst cst a r) ! s = None \<Longrightarrow> length (pi r) = N \<Longrightarrow> s < N \<Longrightarrow> pi r ! s = None"
  by (cases "s = dst a") (auto simp: relax_def put_best_def Let_def split: if_splits)

lemma relax_all:
  assumes "relaxed src dst cst N st A r" and "src ` A \<subseteq> T" and "forward_arcs src dst T as"
    and "\<forall>a \<in> set as. dst a < N \<and> dst a \<noteq> st"
    and "\<forall>s < N. pi r ! s = None \<longrightarrow> P s \<longrightarrow> mu r ! s = Infty"
  shows "relaxed src dst cst N st (A \<union> set as) (fold (relax src dst cst) as r) \<and>
    (\<forall>s < N. pi (fold (relax src dst cst) as r) ! s = None \<longrightarrow> P s \<longrightarrow> mu (fold (relax src dst cst) as r) ! s = Infty)"
  using assms
proof (induction as arbitrary: A T r)
  case (Cons a as)
  let ?r = "relax src dst cst a r"
  have S: "relaxed src dst cst N st (insert a A) ?r"
    "\<forall>s. pi r ! s = None \<longrightarrow> mu ?r ! s = mu r ! s \<or> pi ?r ! s = Some a"
    using relax_relaxed [OF Cons.prems(1,2)] Cons.prems(3,4) by simp_all
  have "length (pi r) = N" using Cons.prems(1) by (simp add: relaxed_def)
  then have u: "\<forall>s < N. pi ?r ! s = None \<longrightarrow> P s \<longrightarrow> mu ?r ! s = Infty"
    using S(2) relax_pi Cons.prems(5) by (metis option.distinct(1))
  have f: "forward_arcs src dst (insert (src a) T) as" using Cons.prems(3) by simp
  have t: "src ` insert a A \<subseteq> insert (src a) T" using Cons.prems(2) by auto
  show ?case using Cons.IH [OF S(1) t f _ u] Cons.prems(4) by simp
qed simp

section \<open>Paths along the relaxed arcs\<close>

fun gpath :: "(StateId \<Rightarrow> ArcHandle list) \<Rightarrow> (ArcHandle \<Rightarrow> StateId) \<Rightarrow> StateId \<Rightarrow> ArcHandle list \<Rightarrow> StateId \<Rightarrow> bool" where
  "gpath arcs dst s [] t \<longleftrightarrow> s = t"
| "gpath arcs dst s (a # as) t \<longleftrightarrow> a \<in> set (arcs s) \<and> gpath arcs dst (dst a) as t"

definition gcost :: "(ArcHandle \<Rightarrow> cost) \<Rightarrow> ArcHandle list \<Rightarrow> cost" where
  "gcost cst p = fold (\<lambda>a c. cost_add c (cst a)) p (Fin 0)"

lemma gcost_snoc: "gcost cst (p @ [a]) = cost_add (gcost cst p) (cst a)"
  by (simp add: gcost_def)

lemma gpath_snoc: "gpath arcs dst s (p @ [a]) t \<longleftrightarrow> (\<exists>v. gpath arcs dst s p v \<and> a \<in> set (arcs v) \<and> dst a = t)"
  by (induction p arbitrary: s) auto

text \<open>The path found by following \<open>pi\<close> back to a state without one.\<close>

inductive backtrace :: "(ArcHandle \<Rightarrow> StateId) \<Rightarrow> ArcHandle option list \<Rightarrow> StateId \<Rightarrow> ArcHandle list \<Rightarrow> bool" for src bp where
  "bp ! s = None \<Longrightarrow> backtrace src bp s []"
| "bp ! s = Some a \<Longrightarrow> backtrace src bp (src a) p \<Longrightarrow> backtrace src bp s (p @ [a])"

definition reach_from :: "nat \<Rightarrow> (StateId \<Rightarrow> StateId list) \<Rightarrow> StateId \<Rightarrow> StateId set" where
  "reach_from n next s = {v. (s, v) \<in> (next_edges n next)\<^sup>*}"

definition live_edges :: "nat \<Rightarrow> (StateId \<Rightarrow> StateId list) \<Rightarrow> StateId \<Rightarrow> (StateId \<times> StateId) set" where
  "live_edges n next s = {(x, y) \<in> next_edges n next. x \<in> reach_from n next s}"

lemma others_rtrancl: "(next_edges n (others next))\<^sup>* = (next_edges n next)\<^sup>*"
proof
  show "(next_edges n (others next))\<^sup>* \<subseteq> (next_edges n next)\<^sup>*"
    by (rule rtrancl_mono) (auto simp: next_edges_def others_def)
  have "next_edges n next \<subseteq> (next_edges n (others next))\<^sup>="
    by (auto simp: next_edges_def others_def)
  then show "(next_edges n next)\<^sup>* \<subseteq> (next_edges n (others next))\<^sup>*" by (metis rtrancl_mono rtrancl_reflcl)
qed

lemma live_rtrancl: "v \<in> reach_from n next s \<Longrightarrow> (s, v) \<in> (live_edges n next s)\<^sup>*"
  unfolding reach_from_def mem_Collect_eq
  by (induction rule: rtrancl_induct) (auto simp: live_edges_def reach_from_def intro: rtrancl_into_rtrancl)

lemma live_step:
  assumes "v \<in> reach_from n next s" and "v < n" and "t < n" and "t \<in> set (next v)"
  shows "(v, t) \<in> live_edges n next s \<and> t \<in> reach_from n next s"
proof -
  have "(v, t) \<in> next_edges n next" using assms(2-4) by (simp add: next_edges_def)
  then show ?thesis using assms(1) by (auto simp: live_edges_def reach_from_def intro: rtrancl_into_rtrancl)
qed

lemma fold_arcs: "fold (\<lambda>t. fold f (g t)) ts r = fold f (concat (map g ts)) r"
  by (induction ts arbitrary: r) simp_all

text \<open>The arcs of the reached states, in the order the search gives them.\<close>

definition dir_ok :: "nat \<Rightarrow> (StateId \<Rightarrow> ArcHandle list) \<Rightarrow> (ArcHandle \<Rightarrow> StateId) \<Rightarrow> (ArcHandle \<Rightarrow> StateId) \<Rightarrow> StateId \<Rightarrow> bool" where
  "dir_ok n arcs src dst st \<longleftrightarrow> st < n \<and> acyclic (live_edges n (\<lambda>v. map dst (arcs v)) st) \<and>
     (\<forall>v \<in> reach_from n (\<lambda>v. map dst (arcs v)) st. \<forall>a \<in> set (arcs v). src a = v \<and> dst a < n)"

lemma dir_arc:
  assumes D: "dir_ok n arcs src dst st" and v: "v \<in> reach_from n (\<lambda>v. map dst (arcs v)) st" and a: "a \<in> set (arcs v)"
  shows "src a = v" "v < n" "dst a < n" "dst a \<noteq> v" "dst a \<noteq> st" "(v, dst a) \<in> live_edges n (\<lambda>v. map dst (arcs v)) st"
    "dst a \<in> reach_from n (\<lambda>v. map dst (arcs v)) st"
proof -
  let ?L = "live_edges n (\<lambda>v. map dst (arcs v)) st"
  have ac: "(x, x) \<notin> ?L\<^sup>+" for x using D by (simp add: dir_ok_def acyclic_def)
  show f: "src a = v" "dst a < n" using D v a unfolding dir_ok_def by blast+
  show vn: "v < n" using reached_below [of st v n] v D by (simp add: reach_from_def dir_ok_def)
  show e: "(v, dst a) \<in> ?L" "dst a \<in> reach_from n (\<lambda>v. map dst (arcs v)) st"
    using live_step [OF v vn f(2)] a by simp_all
  show "dst a \<noteq> v" using e(1) ac by auto
  show "dst a \<noteq> st" using live_rtrancl [OF v] e(1) ac by (metis rtrancl_into_trancl1)
qed

lemma gpath_reach:
  assumes "dir_ok n arcs src dst st" and "gpath arcs dst st p s"
  shows "s \<in> reach_from n (\<lambda>v. map dst (arcs v)) st"
  using assms(2)
proof (induction p arbitrary: s rule: rev_induct)
  case Nil
  then show ?case by (simp add: reach_from_def)
next
  case (snoc a p)
  then show ?case using dir_arc(7) [OF assms(1)] by (auto simp: gpath_snoc)
qed

lemma relaxed_paths:
  assumes R: "relaxed src dst cst N st A r" and D: "dir_ok n arcs src dst st"
    and A: "\<forall>v \<in> reach_from n (\<lambda>v. map dst (arcs v)) st. set (arcs v) \<subseteq> A"
    and p: "gpath arcs dst st p s"
  shows "\<not> cost_less (gcost cst p) (mu r ! s)"
  using p
proof (induction p arbitrary: s rule: rev_induct)
  case Nil
  then show ?case using R by (simp add: relaxed_def gcost_def)
next
  case (snoc a p)
  then obtain v where v: "gpath arcs dst st p v" "a \<in> set (arcs v)" "dst a = s" by (auto simp: gpath_snoc)
  note r = gpath_reach [OF D v(1)]
  have "\<not> cost_less (cost_add (mu r ! v) (cst a)) (mu r ! s)"
    using R A r v(2,3) dir_arc(1) [OF D r v(2)] unfolding relaxed_def by blast
  moreover have "\<not> cost_less (cost_add (gcost cst p) (cst a)) (cost_add (mu r ! v) (cst a))"
    by (rule cost_add_mono) (rule snoc.IH [OF v(1)])
  ultimately show ?case unfolding gcost_snoc by (rule cost_le_trans)
qed

lemma relaxed_backtrace:
  assumes R: "relaxed src dst cst N st A r" and D: "dir_ok n arcs src dst st" and N: "n \<le> N"
    and A: "\<forall>a \<in> A. \<exists>v \<in> reach_from n (\<lambda>v. map dst (arcs v)) st. a \<in> set (arcs v)"
    and u: "\<forall>s < N. pi r ! s = None \<longrightarrow> s \<in> reach_from n (\<lambda>v. map dst (arcs v)) st - {st} \<longrightarrow> mu r ! s = Infty"
    and s: "s \<in> reach_from n (\<lambda>v. map dst (arcs v)) st" "mu r ! s \<noteq> Infty"
  shows "\<exists>p. backtrace src (pi r) s p \<and> gpath arcs dst st p s \<and> gcost cst p = mu r ! s"
proof -
  let ?L = "live_edges n (\<lambda>v. map dst (arcs v)) st"
  have "?L \<subseteq> {..<n} \<times> {..<n}" by (auto simp: live_edges_def next_edges_def)
  then have wf: "wf ?L" using D finite_subset finite_acyclic_wf unfolding dir_ok_def by blast
  show ?thesis
    using wf s
  proof (induction s rule: wf_induct_rule)
    case (less s)
    have "s < n" using reached_below [of st s n] less.prems(1) D by (simp add: reach_from_def dir_ok_def)
    then have sN: "s < N" using N by simp
    show ?case
    proof (cases "pi r ! s")
      case None
      then have "s = st" using u less.prems sN by blast
      then show ?thesis
        using None R by (intro exI [of _ "[]"]) (simp add: backtrace.intros(1) relaxed_def gcost_def)
    next
      case (Some a)
      have a: "a \<in> A" "dst a = s" "mu r ! s = cost_add (mu r ! src a) (cst a)"
        using R Some sN unfolding relaxed_def by blast+
      obtain v where v: "v \<in> reach_from n (\<lambda>v. map dst (arcs v)) st" "a \<in> set (arcs v)" using A a(1) by blast
      note d = dir_arc [OF D v]
      have "mu r ! v \<noteq> Infty" using a(3) d(1) less.prems(2) by auto
      then obtain p where p: "backtrace src (pi r) v p" "gpath arcs dst st p v" "gcost cst p = mu r ! v"
        using less.IH [of v] d(6) a(2) v(1) by auto
      have "gpath arcs dst st (p @ [a]) s" unfolding gpath_snoc using p(2) v(2) a(2) by blast
      moreover have "gcost cst (p @ [a]) = mu r ! s" using p(3) a(3) d(1) by (simp add: gcost_snoc)
      moreover have "backtrace src (pi r) s (p @ [a])"
        by (rule backtrace.intros(2) [OF Some]) (use p(1) d(1) in simp)
      ultimately show ?thesis by blast
    qed
  qed
qed

text \<open>The search and the relaxation together.\<close>

lemma search_order:
  fixes maxBackEdges :: nat
  assumes D: "dir_ok n arcs src dst st"
  defines "q \<equiv> start_order (\<lambda>v. map dst (arcs v)) n maxBackEdges st"
  shows "nBackEdges q = 0" "order q \<noteq> []" "forward_arcs src dst {} (concat (map arcs (rev (order q))))"
    "set (order q) = reach_from n (\<lambda>v. map dst (arcs v)) st"
proof -
  let ?nx = "\<lambda>v. map dst (arcs v)"
  have st: "st < n" using D by (simp add: dir_ok_def)
  have "reach_edges n ?nx st \<subseteq> live_edges n ?nx st"
    by (auto simp: reach_edges_def live_edges_def reach_from_def others_rtrancl) (auto simp: next_edges_def others_def)
  then have "acyclic (reach_edges n ?nx st)" using D acyclic_subset unfolding dir_ok_def by blast
  then have z: "nBackEdges q = 0" "\<not> thrown q" using start_order_facts(2) [OF st] unfolding q_def by blast+
  have ord: "distinct (order q)" "neighbours_first n (others ?nx) (order q)" "set (order q) = reach_from n ?nx st"
    using start_order_facts(1) [OF st, of ?nx maxBackEdges] z by (simp_all add: q_def others_rtrancl reach_from_def)
  show "nBackEdges q = 0" "set (order q) = reach_from n ?nx st" by (rule z(1)) (rule ord(3))
  show "order q \<noteq> []" using ord(3) by (auto simp: reach_from_def)
  show "forward_arcs src dst {} (concat (map arcs (rev (order q))))"
  proof (rule order_forward [OF ord(2,1)])
    show "\<forall>v \<in> set (order q). v < n \<and> (\<forall>a \<in> set (arcs v). src a = v \<and> dst a \<noteq> v \<and> dst a < n)"
      using dir_arc(1,3,4) [OF D] reached_below [OF _ st] unfolding ord(3) by (auto simp: reach_from_def)
  qed simp
qed

lemma relax_search:
  assumes D: "dir_ok n arcs src dst st" and N: "n \<le> N"
    and init: "relaxed src dst cst N st {} r"
    and u: "\<forall>s < N. pi r ! s = None \<longrightarrow> s \<in> reach_from n (\<lambda>v. map dst (arcs v)) st - {st} \<longrightarrow> mu r ! s = Infty"
    and as: "as = concat (map arcs (rev (order (start_order (\<lambda>v. map dst (arcs v)) n maxBackEdges st))))"
  defines "r' \<equiv> fold (relax src dst cst) as r"
  shows "relaxed src dst cst N st (set as) r'"
    "s \<in> reach_from n (\<lambda>v. map dst (arcs v)) st \<Longrightarrow> gpath arcs dst st p s \<Longrightarrow> \<not> cost_less (gcost cst p) (mu r' ! s)"
    "s \<in> reach_from n (\<lambda>v. map dst (arcs v)) st \<Longrightarrow> mu r' ! s \<noteq> Infty \<Longrightarrow>
       \<exists>p. backtrace src (pi r') s p \<and> gpath arcs dst st p s \<and> gcost cst p = mu r' ! s"
proof -
  note S = search_order [OF D, of maxBackEdges]
  have set: "set as = (\<Union>v \<in> reach_from n (\<lambda>v. map dst (arcs v)) st. set (arcs v))" using S(4) by (simp add: as)
  have to: "\<forall>a \<in> set as. dst a < N \<and> dst a \<noteq> st"
    using dir_arc(3,5) [OF D] N unfolding set by fastforce
  have fw: "forward_arcs src dst {} as" unfolding as by (rule S(3))
  have "relaxed src dst cst N st ({} \<union> set as) r' \<and>
    (\<forall>s < N. pi r' ! s = None \<longrightarrow> s \<in> reach_from n (\<lambda>v. map dst (arcs v)) st - {st} \<longrightarrow> mu r' ! s = Infty)"
    unfolding r'_def by (rule relax_all [OF init _ fw to u]) simp
  then have R: "relaxed src dst cst N st (set as) r'"
    and u': "\<forall>s < N. pi r' ! s = None \<longrightarrow> s \<in> reach_from n (\<lambda>v. map dst (arcs v)) st - {st} \<longrightarrow> mu r' ! s = Infty" by simp_all
  show "relaxed src dst cst N st (set as) r'" by (rule R)
  show "\<not> cost_less (gcost cst p) (mu r' ! s)" if "s \<in> reach_from n (\<lambda>v. map dst (arcs v)) st" "gpath arcs dst st p s"
    by (rule relaxed_paths [OF R D _ that(2)]) (auto simp: set)
  show "\<exists>p. backtrace src (pi r') s p \<and> gpath arcs dst st p s \<and> gcost cst p = mu r' ! s"
    if "s \<in> reach_from n (\<lambda>v. map dst (arcs v)) st" "mu r' ! s \<noteq> Infty"
    by (rule relaxed_backtrace [OF R D N _ u' that]) (simp add: set)
qed

section \<open>Turning the path around\<close>

text \<open>The arcs that following \<open>pi\<close> forward from \<open>s\<close> meets on its way to \<open>f\<close>, and the states.\<close>

fun pi_chain :: "'w hg \<Rightarrow> ArcHandle option list \<Rightarrow> StateId \<Rightarrow> ArcHandle list \<Rightarrow> StateId \<Rightarrow> bool" where
  "pi_chain hg bp s [] f \<longleftrightarrow> s = f"
| "pi_chain hg bp s (a # as) f \<longleftrightarrow> s \<noteq> f \<and> bp ! s = Some a \<and> arc_tail hg a = s \<and> pi_chain hg bp (arc_to hg a) as f"

fun chain_states :: "'w hg \<Rightarrow> StateId \<Rightarrow> ArcHandle list \<Rightarrow> StateId list" where
  "chain_states hg s [] = [s]"
| "chain_states hg s (a # as) = s # chain_states hg (arc_to hg a) as"

lemma pi_chain_cong:
  "(\<And>x. x \<in> set (chain_states hg s p) \<Longrightarrow> bp ! x = bp' ! x) \<Longrightarrow> pi_chain hg bp s p f = pi_chain hg bp' s p f"
proof (induction p arbitrary: s)
  case (Cons a p)
  have "bp ! s = bp' ! s" using Cons.prems by simp
  moreover have "pi_chain hg bp (arc_to hg a) p f = pi_chain hg bp' (arc_to hg a) p f"
    by (rule Cons.IH) (use Cons.prems in simp)
  ultimately show ?case by simp
qed simp

text \<open>The walk ends; behind it \<open>pi\<close> leads back, and \<open>mu\<close> of the end is the cost of the whole path.\<close>

lemma turn_around_chain:
  assumes "pi_chain hg (pi r) s p f" and "distinct (chain_states hg s p)"
    and "\<forall>x \<in> set (chain_states hg s p). x < length (pi r) \<and> x < length (mu r)"
  shows "\<exists>r'. turn_around val hg f s lastarc c r = Some (Inr r') \<and> pi r' ! s = lastarc \<and>
    mu r' ! f = fold (\<lambda>a c. cost_add c (arc_cost val hg a)) p c \<and> self_loops r' = self_loops r \<and>
    (\<forall>x. x \<notin> set (chain_states hg s p) \<longrightarrow> pi r' ! x = pi r ! x) \<and>
    (\<forall>q. backtrace (arc_tail hg) (pi r') s q \<longrightarrow> backtrace (arc_tail hg) (pi r') f (q @ p))"
  using assms
proof (induction p arbitrary: s lastarc c r)
  case Nil
  then show ?case by (subst turn_around.simps) simp
next
  case (Cons a p)
  let ?r = "r\<lparr>pi := (pi r)[s := lastarc], mu := (mu r)[s := c]\<rparr>"
  let ?c = "cost_add c (arc_cost val hg a)"
  have s: "s \<notin> set (chain_states hg (arc_to hg a) p)" "s < length (pi r)" using Cons.prems(2,3) by simp_all
  have "pi_chain hg (pi ?r) (arc_to hg a) p f = pi_chain hg (pi r) (arc_to hg a) p f"
    by (rule pi_chain_cong) (use s(1) in \<open>auto intro!: nth_list_update_neq\<close>)
  then have "pi_chain hg (pi ?r) (arc_to hg a) p f" using Cons.prems(1) by simp
  from Cons.IH [OF this, of "Some a" ?c] obtain r' where
    r': "turn_around val hg f (arc_to hg a) (Some a) ?c ?r = Some (Inr r')" "pi r' ! arc_to hg a = Some a"
      "mu r' ! f = fold (\<lambda>a c. cost_add c (arc_cost val hg a)) p ?c" "self_loops r' = self_loops r"
      "\<forall>x. x \<notin> set (chain_states hg (arc_to hg a) p) \<longrightarrow> pi r' ! x = pi ?r ! x"
      "\<forall>q. backtrace (arc_tail hg) (pi r') (arc_to hg a) q \<longrightarrow> backtrace (arc_tail hg) (pi r') f (q @ p)"
    using Cons.prems(2,3) by auto
  have "turn_around val hg f s lastarc c r = Some (Inr r')"
    using Cons.prems(1) r'(1)
    by (subst turn_around.simps) (simp add: arc_to_def arc_cost_def pt_extendBy_def)
  moreover have "pi r' ! s = lastarc" using r'(5) s by simp
  moreover have "pi r' ! x = pi r ! x" if "x \<notin> set (chain_states hg s (a # p))" for x using r'(5) that by simp
  moreover have "backtrace (arc_tail hg) (pi r') f (q @ a # p)" if "backtrace (arc_tail hg) (pi r') s q" for q
  proof -
    have "backtrace (arc_tail hg) (pi r') (arc_to hg a) (q @ [a])"
      by (rule backtrace.intros(2) [OF r'(2)]) (use that Cons.prems(1) in simp)
    then show ?thesis using r'(6) by fastforce
  qed
  ultimately show ?case using r'(3,4) by simp
qed

text \<open>A path found backwards along the in-arcs is such a chain.\<close>

lemma backtrace_chain:
  assumes D: "dir_ok n (inArcsOf hg) (arc_to hg) (arc_tail hg) f" and f: "bp ! f = None"
    and "backtrace (arc_to hg) bp s p" and "gpath (inArcsOf hg) (arc_tail hg) f p s"
  shows "pi_chain hg bp s (rev p) f \<and> distinct (chain_states hg s (rev p)) \<and>
    (\<forall>x \<in> set (chain_states hg s (rev p)). x < n \<and> (x, s) \<in> (live_edges n (\<lambda>v. map (arc_tail hg) (inArcsOf hg v)) f)\<^sup>*)"
  using assms(3,4)
proof (induction rule: backtrace.induct)
  case (1 s)
  then show ?case using D by (simp add: dir_ok_def)
next
  case (2 s a p)
  let ?L = "live_edges n (\<lambda>v. map (arc_tail hg) (inArcsOf hg v)) f"
  obtain v where v: "gpath (inArcsOf hg) (arc_tail hg) f p v" "a \<in> set (inArcsOf hg v)" "arc_tail hg a = s"
    using 2(4) by (auto simp: gpath_snoc)
  note d = dir_arc [OF D gpath_reach [OF D v(1)] v(2)]
  have I: "pi_chain hg bp v (rev p) f" "distinct (chain_states hg v (rev p))"
    "\<forall>x \<in> set (chain_states hg v (rev p)). x < n \<and> (x, v) \<in> ?L\<^sup>*"
    using 2(3) v(1) d(1) by simp_all
  have e: "(v, s) \<in> ?L" using d(6) v(3) by simp
  have "s \<notin> set (chain_states hg v (rev p))"
  proof
    assume "s \<in> set (chain_states hg v (rev p))"
    then have "(s, s) \<in> ?L\<^sup>+" using I(3) e by (auto intro: rtrancl_into_trancl1)
    then show False using D by (simp add: dir_ok_def acyclic_def)
  qed
  moreover have "s \<noteq> f" using 2(1) f by auto
  moreover have "(x, s) \<in> ?L\<^sup>*" if "x \<in> set (chain_states hg v (rev p))" for x
    using I(3) e that by (auto intro: rtrancl_into_rtrancl)
  ultimately show ?case using 2(1) I v(3) d(1,3) by auto
qed

lemma cost_fold_rev: "fold (\<lambda>a c. cost_add c (g a)) (rev p) z = fold (\<lambda>a c. cost_add c (g a)) p z"
proof -
  have "cost_add (cost_add c x) y = cost_add (cost_add c y) x" for c x y by (cases c; cases x; cases y) auto
  then have "fold (\<lambda>a c. cost_add c (g a)) (rev p) = fold (\<lambda>a c. cost_add c (g a)) p"
    by (intro fold_rev) (simp add: fun_eq_iff)
  then show ?thesis by simp
qed

section \<open>Properties\<close>

lemma out_heads_map: "out_heads hg = (\<lambda>v. map (arc_to hg) (outArcsOf hg v))"
  by (simp add: fun_eq_iff out_heads_def arc_to_def)

lemma in_tail0_map: "in_tail0 hg = (\<lambda>v. map (arc_tail hg) (inArcsOf hg v))"
  by (simp add: fun_eq_iff in_tail0_def arc_tail_def)

text \<open>
  Property C3 (best paths from the start). On a graph that stores its out-arcs and has no cycle below
  the start state, whatever the costs and the number of back edges allowed, \<open>AcyclicBest\<close> finds the
  graph acyclic and leaves in \<open>mu\<close> for every reachable state the least cost of a path from the start
  state to it, and, unless that is infinite, following \<open>pi\<close> back from it gives a path of that cost.
\<close>

theorem acyclicBest_correct:
  assumes f: "final_state hg \<noteq> kNoState" "start_state hg \<noteq> kNoState"
    and n: "n = sizeForHeads hg" "n \<le> numStates hg" and o: "storesOutArcs hg"
    and D: "dir_ok n (outArcsOf hg) (arc_tail hg) (arc_to hg) (start_state hg)"
    and ax: "\<forall>v \<in> reach_from n (out_heads hg) (start_state hg). isAxiom hg v \<longrightarrow> v = start_state hg"
    and pi0: "pi r0 = replicate (numStates hg) None"
  shows "\<exists>b hg'. AcyclicBest val hg r0 maxBackEdges = Some (Inr (b, hg')) \<and> acyclic_result b \<and>
    (\<forall>s \<in> reach_from n (out_heads hg) (start_state hg).
       (\<forall>p. gpath (outArcsOf hg) (arc_to hg) (start_state hg) p s \<longrightarrow>
          \<not> cost_less (gcost (arc_cost val hg) p) (mu (best b) ! s)) \<and>
       (mu (best b) ! s = Infty \<or>
        (\<exists>p. gpath (outArcsOf hg) (arc_to hg) (start_state hg) p s \<and> gcost (arc_cost val hg) p = mu (best b) ! s \<and>
           backtrace (arc_tail hg) (pi (best b)) s p)))"
proof -
  let ?s = "start_state hg" and ?N = "numStates hg" and ?nx = "\<lambda>v. map (arc_to hg) (outArcsOf hg v)"
  let ?q = "start_order ?nx n (maxBackEdges mod 2 ^ 32) ?s"
  let ?as = "concat (map (outArcsOf hg) (rev (order ?q)))" and ?i = "best_init hg (r0\<lparr>self_loops := 0\<rparr>)"
  let ?r = "fold (relax (arc_tail hg) (arc_to hg) (arc_cost val hg)) ?as ?i"
  note S = search_order [OF D, of "maxBackEdges mod 2 ^ 32"]
  have i: "mu ?i ! v = (if isAxiom hg v then Fin 0 else Infty)" if "v < ?N" for v
    using that by (simp add: best_init_def pt_start_def pt_unreachable_def)
  have s0: "?s < ?N" "isAxiom hg ?s" using D n(2) by (simp_all add: isAxiom_def dir_ok_def)
  have init: "relaxed (arc_tail hg) (arc_to hg) (arc_cost val hg) ?N ?s {} ?i"
    using i [OF s0(1)] s0 pi0 unfolding relaxed_def by (simp add: best_init_def)
  have un: "\<forall>v < ?N. pi ?i ! v = None \<longrightarrow> v \<in> reach_from n ?nx ?s - {?s} \<longrightarrow> mu ?i ! v = Infty"
    using i ax unfolding out_heads_map by auto
  note R = relax_search [OF D n(2) init un refl, where maxBackEdges = "maxBackEdges mod 2 ^ 32"]
  have "fold (improve val hg) ?as ?i = ?r"
  proof (rule fold_cong [OF refl refl])
    fix a assume "a \<in> set ?as"
    then obtain v where v: "v \<in> reach_from n ?nx ?s" "a \<in> set (outArcsOf hg v)" using S(4) by auto
    show "improve val hg a = relax (arc_tail hg) (arc_to hg) (arc_cost val hg) a"
      using improve_relax [of hg a val] dir_arc(1,4) [OF D v] by (simp add: fun_eq_iff)
  qed
  then have "\<exists>hg'. AcyclicBest val hg r0 maxBackEdges = Some (Inr (\<lparr>best = ?r, back_edges = 0\<rparr>, hg'))"
    using f o S(1,2) n(1)
    by (simp add: AcyclicBest_def orderTailsLast_def best_by_out_arcs_def best_finish_def fold_arcs out_heads_map Let_def)
  then obtain hg' where r: "AcyclicBest val hg r0 maxBackEdges = Some (Inr (\<lparr>best = ?r, back_edges = 0\<rparr>, hg'))" by blast
  have "acyclic_result \<lparr>best = ?r, back_edges = 0\<rparr>" using R(1) by (simp add: acyclic_result_def relaxed_def)
  then show ?thesis
    using r R(2,3) unfolding out_heads_map
    by (intro exI [of _ "\<lparr>best = ?r, back_edges = 0\<rparr>"] exI [of _ hg'] conjI ballI allI impI) auto
qed

text \<open>Two parallel arcs from the start 0 to 1 and one from 1 to the final state 2; the label is state 3.\<close>

definition sample_best :: "cost hg" where
  "sample_best = hg_zero\<lparr>props := kStoreFirstTailOutArcs OR kFsm OR kGraph, fsmChecked := True, numStates := 4,
     start_state := 0, final_state := 2, iLabelForState := [NoSymbol, NoSymbol, NoSymbol, EPSILON_ID],
     arc_heap := [0 \<mapsto> new_arc_fsm 0 3 (Fin 3) 1, 1 \<mapsto> new_arc_fsm 0 3 (Fin 1) 1, 2 \<mapsto> new_arc_fsm 1 3 (Fin 2) 2],
     next_arc := 3, outArcsPerState := [[0, 1], [2]]\<rparr>"

theorem acyclicBest_correct_witness:
  "\<exists>b hg'. AcyclicBest (\<lambda>w. w) sample_best \<lparr>mu = [], pi = replicate 4 None, self_loops = 0\<rparr> 0 = Some (Inr (b, hg')) \<and>
     acyclic_result b \<and> \<not> cost_less (Fin 3) (mu (best b) ! 2)"
proof -
  let ?h = sample_best
  have o: "outArcsOf ?h s = (if s = 0 then [0, 1] else if s = 1 then [2] else [])" for s
    by (simp add: outArcsOf_def sample_best_def getOrElse_def nth_Cons')
  have a: "arcAt ?h 0 = new_arc_fsm 0 3 (Fin 3) 1" "arcAt ?h (Suc 0) = new_arc_fsm 0 3 (Fin 1) 1"
    "arcAt ?h 2 = new_arc_fsm 1 3 (Fin 2) 2" by (simp_all add: arcAt_def sample_best_def)
  have f: "final_state ?h = 2" "numStates ?h = 4" "start_state ?h = 0" by (simp_all add: sample_best_def)
  have ax: "isAxiom ?h v \<longleftrightarrow> v = 0 \<or> v = 3" for v
    by (auto simp: isAxiom_def hasTerminalLabel_def inputLabel_def sample_best_def getOrElse_def nth_Cons' split: if_splits)
  have st: "storesOutArcs ?h" by (simp add: storesOutArcs_def sample_best_def flag_simps)
  have n: "4 = sizeForHeads ?h"
    by (simp add: sizeForHeads_def properties_def sample_best_def computeFsmGraphProperty_def flag_simps hg_zero_def)
  have nx: "(\<lambda>v. map (arc_to ?h) (outArcsOf ?h v)) = (\<lambda>v. if v = 0 then [1, 1] else if v = 1 then [2] else [])"
    by (simp add: fun_eq_iff o a new_arc_fsm_def arc_to_def)
  have e: "next_edges 4 (\<lambda>v. if v = 0 then [1, 1] else if v = 1 then [2] else []) = {(0, 1), (1, 2)}"
    by (auto simp: next_edges_def split: if_splits)
  have r: "v < 3" if "v \<in> reach_from 4 (\<lambda>v. if v = 0 then [1, 1] else if v = 1 then [2] else []) 0" for v
    using that unfolding reach_from_def e by (auto elim: rtranclE)
  have D: "dir_ok 4 (outArcsOf ?h) (arc_tail ?h) (arc_to ?h) (start_state ?h)"
    unfolding dir_ok_def nx f
  proof (intro conjI)
    show "acyclic (live_edges 4 (\<lambda>v. if v = 0 then [1, 1] else if v = 1 then [2] else []) 0)"
      by (rule acyclic_subset [OF wf_acyclic [OF wf_less_than]]) (auto simp: live_edges_def e)
  qed (auto simp: o a new_arc_fsm_def arc_tail_def arc_to_def split: if_splits)
  have x: "\<forall>v \<in> reach_from 4 (out_heads ?h) (start_state ?h). isAxiom ?h v \<longrightarrow> v = start_state ?h"
    unfolding out_heads_map nx f using r by (auto simp: ax)
  have "\<exists>b hg'. AcyclicBest (\<lambda>w. w) ?h \<lparr>mu = [], pi = replicate 4 None, self_loops = 0\<rparr> 0 = Some (Inr (b, hg')) \<and> acyclic_result b \<and>
    (\<forall>s \<in> reach_from 4 (out_heads ?h) (start_state ?h).
       (\<forall>p. gpath (outArcsOf ?h) (arc_to ?h) (start_state ?h) p s \<longrightarrow>
          \<not> cost_less (gcost (arc_cost (\<lambda>w. w) ?h) p) (mu (best b) ! s)) \<and>
       (mu (best b) ! s = Infty \<or>
        (\<exists>p. gpath (outArcsOf ?h) (arc_to ?h) (start_state ?h) p s \<and> gcost (arc_cost (\<lambda>w. w) ?h) p = mu (best b) ! s \<and>
           backtrace (arc_tail ?h) (pi (best b)) s p)))"
    by (rule acyclicBest_correct [OF _ _ n _ st D x]) (simp_all add: f kNoState_def)
  then obtain b hg' where b: "AcyclicBest (\<lambda>w. w) ?h \<lparr>mu = [], pi = replicate 4 None, self_loops = 0\<rparr> 0 = Some (Inr (b, hg'))"
    "acyclic_result b" "\<forall>s \<in> reach_from 4 (out_heads ?h) 0. \<forall>p. gpath (outArcsOf ?h) (arc_to ?h) 0 p s \<longrightarrow>
       \<not> cost_less (gcost (arc_cost (\<lambda>w. w) ?h) p) (mu (best b) ! s)"
    unfolding f(3) by blast
  have "2 \<in> reach_from 4 (out_heads ?h) 0"
    unfolding out_heads_map nx reach_from_def e mem_Collect_eq by (meson insertI1 insertI2 rtrancl.simps)
  moreover have "gpath (outArcsOf ?h) (arc_to ?h) 0 [1, 2] 2" by (simp add: o a new_arc_fsm_def arc_to_def)
  moreover have "gcost (arc_cost (\<lambda>w. w) ?h) [1, 2] = Fin 3" by (simp add: gcost_def arc_cost_def a new_arc_fsm_def)
  ultimately have "\<not> cost_less (Fin 3) (mu (best b) ! 2)" using b(3) by metis
  then show ?thesis using b(1,2) by blast
qed

text \<open>
  Property C4 (best path with in-arcs, and its return). On a graph that stores only in-arcs and has no
  cycle above the final state, \<open>AcyclicBest\<close> returns when a path of finite cost leads from the start
  state to the final state: the walk that turns the path around ends. Then following \<open>pi\<close> back from
  the final state gives a path from the start state, \<open>mu\<close> of the final state is its cost, and no path
  is cheaper.
\<close>

theorem acyclicBest_in_arcs:
  assumes f: "final_state hg \<noteq> kNoState" "start_state hg \<noteq> kNoState"
    and n: "n = sizeForHeads hg" "n \<le> numStates hg" and o: "\<not> storesOutArcs hg" "storesInArcs hg"
    and D: "dir_ok n (inArcsOf hg) (arc_to hg) (arc_tail hg) (final_state hg)"
    and t: "\<forall>v \<in> reach_from n (in_tail0 hg) (final_state hg). \<forall>a \<in> set (inArcsOf hg v). arc_tails (arcAt hg a) \<noteq> []"
    and pi0: "pi r0 = replicate (numStates hg) None"
    and p: "gpath (inArcsOf hg) (arc_tail hg) (final_state hg) p0 (start_state hg)" "gcost (arc_cost val hg) p0 \<noteq> Infty"
  shows "\<exists>b hg' p. AcyclicBest val hg r0 maxBackEdges = Some (Inr (b, hg')) \<and>
    gpath (inArcsOf hg) (arc_tail hg) (final_state hg) p (start_state hg) \<and>
    backtrace (arc_tail hg) (pi (best b)) (final_state hg) (rev p) \<and>
    mu (best b) ! final_state hg = gcost (arc_cost val hg) p \<and>
    (\<forall>q. gpath (inArcsOf hg) (arc_tail hg) (final_state hg) q (start_state hg) \<longrightarrow>
       \<not> cost_less (gcost (arc_cost val hg) q) (gcost (arc_cost val hg) p))"
proof -
  let ?f = "final_state hg" and ?s = "start_state hg" and ?N = "numStates hg" and ?nx = "\<lambda>v. map (arc_tail hg) (inArcsOf hg v)"
  let ?q = "start_order ?nx n (maxBackEdges mod 2 ^ 32) ?f"
  let ?as = "concat (map (inArcsOf hg) (rev (order ?q)))"
  let ?i = "r0\<lparr>self_loops := 0, mu := (replicate ?N Infty)[?f := Fin 0]\<rparr>"
  let ?r = "fold (relax (arc_to hg) (arc_tail hg) (arc_cost val hg)) ?as ?i"
  note S = search_order [OF D, of "maxBackEdges mod 2 ^ 32"]
  have fN: "?f < ?N" using D n(2) by (simp add: dir_ok_def)
  have init: "relaxed (arc_to hg) (arc_tail hg) (arc_cost val hg) ?N ?f {} ?i"
    using fN pi0 unfolding relaxed_def by simp
  have un: "\<forall>v < ?N. pi ?i ! v = None \<longrightarrow> v \<in> reach_from n ?nx ?f - {?f} \<longrightarrow> mu ?i ! v = Infty" by simp
  note R = relax_search [OF D n(2) init un refl, where maxBackEdges = "maxBackEdges mod 2 ^ 32"]
  have sr: "?s \<in> reach_from n ?nx ?f" by (rule gpath_reach [OF D p(1)])
  have step: "fold (improveTopDown val hg v) (inArcsOf hg v) r = fold (relax (arc_to hg) (arc_tail hg) (arc_cost val hg)) (inArcsOf hg v) r"
    if v: "v \<in> set (order ?q)" for v r
  proof (rule fold_cong [OF refl refl])
    fix a assume a: "a \<in> set (inArcsOf hg v)"
    have vr: "v \<in> reach_from n ?nx ?f" using v S(4) by simp
    have ne: "arc_tails (arcAt hg a) \<noteq> []" using t vr a unfolding in_tail0_map by blast
    have "arc_to hg a = v" by (rule dir_arc(1) [OF D vr a])
    then show "improveTopDown val hg v a = relax (arc_to hg) (arc_tail hg) (arc_cost val hg) a"
      using improveTopDown_relax [OF ne] by (simp add: fun_eq_iff)
  qed
  have run: "fold (\<lambda>v. fold (improveTopDown val hg v) (inArcsOf hg v)) (rev (order ?q)) ?i = ?r"
  proof -
    have "fold (\<lambda>v. fold (improveTopDown val hg v) (inArcsOf hg v)) (rev (order ?q)) ?i =
        fold (\<lambda>v. fold (relax (arc_to hg) (arc_tail hg) (arc_cost val hg)) (inArcsOf hg v)) (rev (order ?q)) ?i"
      by (rule fold_cong [OF refl refl]) (use step in \<open>simp add: fun_eq_iff\<close>)
    then show ?thesis by (simp only: fold_arcs)
  qed
  have fin: "mu ?r ! ?s \<noteq> Infty" using R(2) [OF sr p(1)] p(2) by (cases "gcost (arc_cost val hg) p0") auto
  obtain p where p': "backtrace (arc_to hg) (pi ?r) ?s p" "gpath (inArcsOf hg) (arc_tail hg) ?f p ?s"
    "gcost (arc_cost val hg) p = mu ?r ! ?s" using R(3) [OF sr fin] by blast
  have len: "length (mu ?r) = ?N" "length (pi ?r) = ?N" "pi ?r ! ?f = None" using R(1) by (simp_all add: relaxed_def)
  note C = backtrace_chain [OF D len(3) p'(1,2)]
  have "\<forall>x \<in> set (chain_states hg ?s (rev p)). x < length (pi ?r) \<and> x < length (mu ?r)"
    using C len n(2) by fastforce
  then obtain r' where r': "turn_around val hg ?f ?s None (Fin 0) ?r = Some (Inr r')" "pi r' ! ?s = None"
    "mu r' ! ?f = gcost (arc_cost val hg) (rev p)"
    "\<forall>q. backtrace (arc_tail hg) (pi r') ?s q \<longrightarrow> backtrace (arc_tail hg) (pi r') ?f (q @ rev p)"
    using turn_around_chain [of hg ?r ?s "rev p" ?f val None "Fin 0"] C unfolding gcost_def by blast
  have bt: "backtrace (arc_tail hg) (pi r') ?f (rev p)"
    using r'(4) backtrace.intros(1) [OF r'(2)] by fastforce
  let ?b = "\<lparr>best = r', back_edges = 0\<rparr>"
  have "best_by_in_arcs val hg (order ?q) (r0\<lparr>self_loops := 0\<rparr>) = Some (Inr r')"
    using run r'(1) by (simp add: best_by_in_arcs_def pt_unreachable_def pt_start_def Let_def)
  then have "\<exists>hg'. AcyclicBest val hg r0 maxBackEdges = Some (Inr (?b, hg'))"
    using f o S(1,2) n(1)
    by (simp add: AcyclicBest_def orderHeadsLast_def in_tail0_map storesInArcs_def best_finish_def bindR_def Let_def)
  then obtain hg' where r: "AcyclicBest val hg r0 maxBackEdges = Some (Inr (?b, hg'))" by blast
  have m: "mu (best ?b) ! ?f = gcost (arc_cost val hg) p" using r'(3) by (simp add: gcost_def cost_fold_rev)
  have "\<forall>q. gpath (inArcsOf hg) (arc_tail hg) ?f q ?s \<longrightarrow> \<not> cost_less (gcost (arc_cost val hg) q) (gcost (arc_cost val hg) p)"
    using R(2) [OF sr] p'(3) by simp
  then show ?thesis
    using r m bt p'(2) by (intro exI [of _ ?b] exI [of _ hg'] exI [of _ p] conjI) simp_all
qed

text \<open>The same three arcs under their heads.\<close>

definition sample_best_in :: "cost hg" where
  "sample_best_in = hg_zero\<lparr>props := kStoreInArcs OR kFsm OR kGraph, fsmChecked := True, numStates := 4,
     start_state := 0, final_state := 2, iLabelForState := [NoSymbol, NoSymbol, NoSymbol, EPSILON_ID],
     arc_heap := [0 \<mapsto> new_arc_fsm 0 3 (Fin 3) 1, 1 \<mapsto> new_arc_fsm 0 3 (Fin 1) 1, 2 \<mapsto> new_arc_fsm 1 3 (Fin 2) 2],
     next_arc := 3, inArcsPerState := [[], [0, 1], [2]]\<rparr>"

theorem acyclicBest_in_arcs_witness:
  "\<exists>b hg'. AcyclicBest (\<lambda>w. w) sample_best_in \<lparr>mu = [], pi = replicate 4 None, self_loops = 0\<rparr> 0 = Some (Inr (b, hg')) \<and>
     \<not> cost_less (Fin 3) (mu (best b) ! 2)"
proof -
  let ?h = sample_best_in
  have i: "inArcsOf ?h s = (if s = 1 then [0, 1] else if s = 2 then [2] else [])" for s
    by (simp add: inArcsOf_def sample_best_in_def getOrElse_def nth_Cons')
  have a: "arcAt ?h 0 = new_arc_fsm 0 3 (Fin 3) 1" "arcAt ?h (Suc 0) = new_arc_fsm 0 3 (Fin 1) 1"
    "arcAt ?h 2 = new_arc_fsm 1 3 (Fin 2) 2" by (simp_all add: arcAt_def sample_best_in_def)
  have f: "final_state ?h = 2" "numStates ?h = 4" "start_state ?h = 0" by (simp_all add: sample_best_in_def)
  have st: "\<not> storesOutArcs ?h" "storesInArcs ?h"
    by (simp_all add: storesOutArcs_def storesInArcs_def sample_best_in_def flag_simps)
  have n: "4 = sizeForHeads ?h"
    by (simp add: sizeForHeads_def properties_def sample_best_in_def computeFsmGraphProperty_def flag_simps hg_zero_def)
  have nx: "(\<lambda>v. map (arc_tail ?h) (inArcsOf ?h v)) = (\<lambda>v. if v = 1 then [0, 0] else if v = 2 then [1] else [])"
    by (simp add: fun_eq_iff i a new_arc_fsm_def arc_tail_def)
  have e: "next_edges 4 (\<lambda>v. if v = 1 then [0, 0] else if v = 2 then [1] else []) = {(1, 0), (2, 1)}"
    by (auto simp: next_edges_def split: if_splits)
  have D: "dir_ok 4 (inArcsOf ?h) (arc_to ?h) (arc_tail ?h) (final_state ?h)"
    unfolding dir_ok_def nx f
  proof (intro conjI)
    have "acyclic (less_than\<inverse>)" using wf_acyclic [OF wf_less_than] by simp
    then show "acyclic (live_edges 4 (\<lambda>v. if v = 1 then [0, 0] else if v = 2 then [1] else []) 2)"
      unfolding live_edges_def e by (rule acyclic_subset) auto
  qed (auto simp: i a new_arc_fsm_def arc_tail_def arc_to_def split: if_splits)
  have t: "\<forall>v \<in> reach_from 4 (in_tail0 ?h) (final_state ?h). \<forall>a \<in> set (inArcsOf ?h v). arc_tails (arcAt ?h a) \<noteq> []"
    by (simp add: i a new_arc_fsm_def)
  have p: "gpath (inArcsOf ?h) (arc_tail ?h) (final_state ?h) [2, 1] (start_state ?h)"
    by (simp add: f i a new_arc_fsm_def arc_tail_def)
  have c: "gcost (arc_cost (\<lambda>w. w) ?h) [2, 1] = Fin 3" by (simp add: gcost_def arc_cost_def a new_arc_fsm_def)
  have pi0: "pi \<lparr>mu = [], pi = replicate 4 None, self_loops = 0\<rparr> = replicate (numStates ?h) None" by (simp add: f)
  obtain b hg' q where b: "AcyclicBest (\<lambda>w. w) ?h \<lparr>mu = [], pi = replicate 4 None, self_loops = 0\<rparr> 0 = Some (Inr (b, hg'))"
    "mu (best b) ! final_state ?h = gcost (arc_cost (\<lambda>w. w) ?h) q"
    "\<forall>p. gpath (inArcsOf ?h) (arc_tail ?h) (final_state ?h) p (start_state ?h) \<longrightarrow>
       \<not> cost_less (gcost (arc_cost (\<lambda>w. w) ?h) p) (gcost (arc_cost (\<lambda>w. w) ?h) q)"
    using acyclicBest_in_arcs [OF _ _ n _ st D t pi0 p, of "\<lambda>w. w" 0] c by (auto simp: f kNoState_def)
  have "\<not> cost_less (Fin 3) (mu (best b) ! 2)" using b(2,3) p c by (metis f(1))
  then show ?thesis using b(1) by blast
qed

end
