(* ===== verification/Acyclic_Loops.thy ===== *)
theory Acyclic_Loops
  imports Acyclic_Best
begin

text \<open>
  Self-loops of negative cost and the in-arc search of \<open>sdl/Hypergraph/AcyclicBest.hpp\<close>: when the constructor does
  not return.
\<close>

section \<open>Self-loops\<close>

text \<open>
  With in-arcs a self-loop is not counted, and one of negative cost becomes the \<open>pi\<close> of its state.
  The walk that turns the path around then swaps it with the arc it came by, for ever.
\<close>

definition stuck :: "'w hg \<Rightarrow> StateId \<Rightarrow> StateId \<Rightarrow> ArcHandle option \<Rightarrow> best_state \<Rightarrow> bool" where
  "stuck hg f s lastarc r \<longleftrightarrow> s \<noteq> f \<and> s < length (pi r) \<and>
     (\<exists>a b. lastarc = Some b \<and> pi r ! s = Some a \<and> arc_to hg a = s \<and> arc_to hg b = s)"

lemma turn_around_stuck: "stuck hg f s lastarc r \<Longrightarrow> turn_around val hg f s lastarc c r = None"
proof -
  have "\<not> stuck hg f s lastarc r" if "turn_around val hg f s lastarc c r = Some y" for y
  proof (rule turn_around.raw_induct [where P = "\<lambda>val hg f s lastarc c r y. \<not> stuck hg f s lastarc r", OF _ that])
    fix ta :: "('a \<Rightarrow> cost) \<Rightarrow> 'a hg \<Rightarrow> StateId \<Rightarrow> StateId \<Rightarrow> ArcHandle option \<Rightarrow> cost \<Rightarrow> best_state \<Rightarrow> (sdl_error + best_state) option"
    fix val :: "'a \<Rightarrow> cost" and hg :: "'a hg" and f s lastarc c r y
    assume IH: "\<And>val hg f s lastarc c r y. ta val hg f s lastarc c r = Some y \<Longrightarrow> \<not> stuck hg f s lastarc r"
      and body: "(if s = f then Some (Inr (r\<lparr>pi := (pi r)[f := lastarc], mu := (mu r)[f := c]\<rparr>))
        else case pi r ! s of None \<Rightarrow> Some (Inl EmptySetException)
          | Some a \<Rightarrow> ta val hg f (arc_head (arcAt hg a)) (Some a) (pt_extendBy (val (arc_weight (arcAt hg a))) c)
              (r\<lparr>pi := (pi r)[s := lastarc], mu := (mu r)[s := c]\<rparr>)) = Some y"
    show "\<not> stuck hg f s lastarc r"
    proof
      assume st: "stuck hg f s lastarc r"
      then obtain a b where ab: "lastarc = Some b" "pi r ! s = Some a" "arc_to hg a = s" "arc_to hg b = s" "s \<noteq> f" "s < length (pi r)"
        unfolding stuck_def by blast
      have "ta val hg f s (Some a) (pt_extendBy (val (arc_weight (arcAt hg a))) c)
          (r\<lparr>pi := (pi r)[s := lastarc], mu := (mu r)[s := c]\<rparr>) = Some y"
        using body ab by (simp add: arc_to_def)
      from IH [OF this] show False using ab by (simp add: stuck_def)
    qed
  qed
  then show "stuck hg f s lastarc r \<Longrightarrow> turn_around val hg f s lastarc c r = None"
    by (cases "turn_around val hg f s lastarc c r") auto
qed

section \<open>What the relaxation leaves behind\<close>

text \<open>
  Arcs lead to states none of whose arcs come earlier, or back to their own source. After the arcs \<open>A\<close>: every state with a finite
  cost but the first was improved by an arc from such a state; costs that are finite spread along the arcs; a state with a negative self-loop was
  last improved by one, and only negative self-loops improve their own state.
\<close>

fun loop_forward :: "(ArcHandle \<Rightarrow> StateId) \<Rightarrow> (ArcHandle \<Rightarrow> StateId) \<Rightarrow> StateId set \<Rightarrow> ArcHandle list \<Rightarrow> bool" where
  "loop_forward src dst T [] \<longleftrightarrow> True"
| "loop_forward src dst T (a # as) \<longleftrightarrow> (dst a = src a \<or> dst a \<notin> T) \<and> loop_forward src dst (insert (src a) T) as"

definition loop_relaxed :: "(ArcHandle \<Rightarrow> StateId) \<Rightarrow> (ArcHandle \<Rightarrow> StateId) \<Rightarrow> (ArcHandle \<Rightarrow> cost) \<Rightarrow> nat \<Rightarrow> StateId
    \<Rightarrow> ArcHandle set \<Rightarrow> best_state \<Rightarrow> bool" where
  "loop_relaxed src dst cst N st A r \<longleftrightarrow> length (mu r) = N \<and> length (pi r) = N \<and> mu r ! st \<noteq> Infty \<and>
     (\<forall>s < N. \<forall>a. pi r ! s = Some a \<longrightarrow> a \<in> A \<and> dst a = s \<and> mu r ! src a \<noteq> Infty \<and> (src a = s \<longrightarrow> cost_less (cst a) (Fin 0))) \<and>
     (\<forall>s < N. s \<noteq> st \<longrightarrow> mu r ! s \<noteq> Infty \<longrightarrow> pi r ! s \<noteq> None) \<and>
     (\<forall>a \<in> A. mu r ! src a \<noteq> Infty \<longrightarrow> cst a \<noteq> Infty \<longrightarrow> mu r ! dst a \<noteq> Infty) \<and>
     (\<forall>a \<in> A. src a = dst a \<longrightarrow> cost_less (cst a) (Fin 0) \<longrightarrow> mu r ! src a \<noteq> Infty \<longrightarrow>
        (\<exists>b. pi r ! src a = Some b \<and> src b = src a))"

lemma cost_add_neg: "cost_less (cost_add c x) c \<longleftrightarrow> c \<noteq> Infty \<and> cost_less x (Fin 0)"
  by (cases c; cases x) auto

lemma cost_add_Infty: "cost_add c x = Infty \<longleftrightarrow> c = Infty \<or> x = Infty"
  by (cases c; cases x) auto

lemma cost_less_finite: "cost_less c d \<Longrightarrow> c \<noteq> Infty" "c \<noteq> Infty \<Longrightarrow> cost_less c Infty"
  by (cases c; cases d; simp)+

lemma loop_relax:
  assumes R: "loop_relaxed src dst cst N st A r" and T: "src ` A \<subseteq> T" and h: "dst a = src a \<or> dst a \<notin> T" and N: "dst a < N"
  shows "loop_relaxed src dst cst N st (insert a A) (relax src dst cst a r)"
proof (cases "cost_less (cost_add (mu r ! src a) (cst a)) (mu r ! dst a)")
  case False
  then have e: "relax src dst cst a r = r" by (simp add: relax_def)
  have f: "mu r ! dst a \<noteq> Infty" if "mu r ! src a \<noteq> Infty" "cst a \<noteq> Infty"
    using that False cost_less_finite(2) [of "cost_add (mu r ! src a) (cst a)"] by (auto simp: cost_add_Infty)
  have g: "mu r ! src a = Infty" if "src a = dst a" "cost_less (cst a) (Fin 0)"
    using that False by (auto simp: cost_add_neg)
  show ?thesis
    unfolding e loop_relaxed_def
  proof (intro conjI)
    show "\<forall>s < N. \<forall>b. pi r ! s = Some b \<longrightarrow> b \<in> insert a A \<and> dst b = s \<and> mu r ! src b \<noteq> Infty \<and> (src b = s \<longrightarrow> cost_less (cst b) (Fin 0))"
      using R unfolding loop_relaxed_def by blast
    show "\<forall>b \<in> insert a A. mu r ! src b \<noteq> Infty \<longrightarrow> cst b \<noteq> Infty \<longrightarrow> mu r ! dst b \<noteq> Infty"
      using R f unfolding loop_relaxed_def by blast
    show "\<forall>b \<in> insert a A. src b = dst b \<longrightarrow> cost_less (cst b) (Fin 0) \<longrightarrow> mu r ! src b \<noteq> Infty \<longrightarrow>
        (\<exists>c. pi r ! src b = Some c \<and> src c = src b)"
      using R g unfolding loop_relaxed_def by blast
  qed (use R in \<open>simp_all add: loop_relaxed_def\<close>)
next
  case less: True
  let ?w = "cost_add (mu r ! src a) (cst a)"
  let ?r = "put_best (dst a) ?w a r"
  have e: "relax src dst cst a r = ?r" using less by (simp add: relax_def)
  have len: "length (mu r) = N" "length (pi r) = N" using R by (simp_all add: loop_relaxed_def)
  have m: "mu ?r ! s = (if s = dst a then ?w else mu r ! s)" "pi ?r ! s = (if s = dst a then Some a else pi r ! s)" for s
    using len N by (simp_all add: put_best_def nth_list_update)
  have w: "?w \<noteq> Infty" "mu r ! src a \<noteq> Infty"
    using cost_less_finite(1) [OF less] by (simp_all add: cost_add_Infty)
  have keep: "mu ?r ! s \<noteq> Infty" if "mu r ! s \<noteq> Infty" for s using that w by (simp add: m)
  have old: "mu r ! src b \<noteq> Infty" if "b \<in> insert a A" "mu ?r ! src b \<noteq> Infty" for b
  proof (cases "src b = dst a")
    case True
    then have "src b = src a" using that(1) T h by auto
    then show ?thesis using w(2) by simp
  qed (use that(2) in \<open>simp add: m\<close>)
  have neg: "src a = dst a \<longrightarrow> cost_less (cst a) (Fin 0)"
    using less by (auto simp: cost_add_neg)
  show ?thesis
    unfolding e loop_relaxed_def
  proof (intro conjI allI ballI impI)
    show "length (mu ?r) = N" "length (pi ?r) = N" using len by (simp_all add: put_best_def)
    show "mu ?r ! st \<noteq> Infty" using R keep by (simp add: loop_relaxed_def)
  next
    fix s b assume s: "s < N" "pi ?r ! s = Some b"
    have "b \<in> insert a A \<and> dst b = s \<and> mu ?r ! src b \<noteq> Infty \<and> (src b = s \<longrightarrow> cost_less (cst b) (Fin 0))"
    proof (cases "s = dst a")
      case True
      then have "b = a" using s(2) by (simp add: m)
      then show ?thesis using True keep [OF w(2)] neg by simp
    next
      case False
      then have "pi r ! s = Some b" using s(2) by (simp add: m)
      then have "b \<in> A \<and> dst b = s \<and> mu r ! src b \<noteq> Infty \<and> (src b = s \<longrightarrow> cost_less (cst b) (Fin 0))"
        using R s(1) unfolding loop_relaxed_def by blast
      then show ?thesis using keep by blast
    qed
    then show "b \<in> insert a A" "dst b = s" "mu ?r ! src b \<noteq> Infty" "src b = s \<Longrightarrow> cost_less (cst b) (Fin 0)" by blast+
  next
    fix s assume "s < N" "s \<noteq> st" "mu ?r ! s \<noteq> Infty"
    then show "pi ?r ! s \<noteq> None" using R by (auto simp: m loop_relaxed_def split: if_splits)
  next
    fix b assume b: "b \<in> insert a A" "mu ?r ! src b \<noteq> Infty" "cst b \<noteq> Infty"
    show "mu ?r ! dst b \<noteq> Infty"
    proof (cases "b \<in> A")
      case True
      then have "mu r ! dst b \<noteq> Infty" using R old [OF b(1,2)] b(3) unfolding loop_relaxed_def by blast
      then show ?thesis by (rule keep)
    qed (use b(1) w(1) in \<open>simp add: m\<close>)
  next
    fix b assume b: "b \<in> insert a A" "src b = dst b" "cost_less (cst b) (Fin 0)" "mu ?r ! src b \<noteq> Infty"
    show "\<exists>c. pi ?r ! src b = Some c \<and> src c = src b"
    proof (cases "src b = dst a")
      case True
      then have "src a = src b" using b(1) T h by auto
      moreover have "pi ?r ! src b = Some a" using m(2) True by metis
      ultimately show ?thesis by blast
    next
      case False
      then have "b \<in> A" using b(1,2) by auto
      then have "\<exists>c. pi r ! src b = Some c \<and> src c = src b"
        using R b(2,3) old [OF b(1,4)] unfolding loop_relaxed_def by blast
      then show ?thesis using False by (simp add: m)
    qed
  qed
qed

lemma loop_relax_all:
  assumes "loop_relaxed src dst cst N st A r" and "src ` A \<subseteq> T" and "loop_forward src dst T as" and "\<forall>a \<in> set as. dst a < N"
  shows "loop_relaxed src dst cst N st (A \<union> set as) (fold (relax src dst cst) as r)"
  using assms
proof (induction as arbitrary: A T r)
  case (Cons a as)
  have "loop_relaxed src dst cst N st (insert a A) (relax src dst cst a r)"
    by (rule loop_relax [OF Cons.prems(1,2)]) (use Cons.prems(3,4) in auto)
  then have "loop_relaxed src dst cst N st (insert a A \<union> set as) (fold (relax src dst cst) as (relax src dst cst a r))"
    by (rule Cons.IH [where T = "insert (src a) T"]) (use Cons.prems(2-4) in auto)
  then show ?case by simp
qed simp

lemma loop_forward_mono: "loop_forward src dst T' as \<Longrightarrow> T \<subseteq> T' \<Longrightarrow> loop_forward src dst T as"
proof (induction as arbitrary: T T')
  case (Cons a as)
  then have "loop_forward src dst (insert (src a) T) as"
    using Cons.IH [of "insert (src a) T'" "insert (src a) T"] by auto
  then show ?case using Cons.prems by auto
qed simp

lemma loop_forward_append:
  assumes "\<forall>a \<in> set xs. src a = s \<and> (dst a = s \<or> dst a \<notin> insert s T)" and "loop_forward src dst (insert s T) ys"
  shows "loop_forward src dst T (xs @ ys)"
  using assms
proof (induction xs arbitrary: T)
  case Nil
  then show ?case using loop_forward_mono [OF Nil(2) subset_insertI] by simp
next
  case (Cons x xs)
  have "loop_forward src dst (insert s T) (xs @ ys)" by (rule Cons.IH) (use Cons.prems in auto)
  then show ?case using Cons.prems by auto
qed

lemma order_loop_forward:
  assumes "neighbours_first n (others (\<lambda>v. map dst (arcs v))) ord" and "distinct ord" and "T \<inter> set ord = {}"
    and "\<forall>v \<in> set ord. v < n \<and> (\<forall>a \<in> set (arcs v). src a = v \<and> dst a < n)"
  shows "loop_forward src dst T (concat (map arcs (rev ord)))"
  using assms
proof (induction ord arbitrary: T rule: rev_induct)
  case (snoc s ord)
  have nf: "neighbours_first n (others (\<lambda>v. map dst (arcs v))) ord"
    and h: "\<forall>t \<in> set (others (\<lambda>v. map dst (arcs v)) s). t < n \<longrightarrow> t \<in> set ord"
    using snoc.prems(1) by (simp_all add: neighbours_first_snoc)
  have F: "loop_forward src dst (insert s T) (concat (map arcs (rev ord)))"
    by (rule snoc.IH [OF nf]) (use snoc.prems(2-4) in auto)
  have "\<forall>a \<in> set (arcs s). src a = s \<and> (dst a = s \<or> dst a \<notin> insert s T)"
  proof
    fix a assume a: "a \<in> set (arcs s)"
    then have f: "src a = s" "dst a < n" using snoc.prems(4) by simp_all
    then have "dst a \<in> set ord" if "dst a \<noteq> s" using h a that by (auto simp: others_def)
    then show "src a = s \<and> (dst a = s \<or> dst a \<notin> insert s T)" using f snoc.prems(3) by auto
  qed
  from loop_forward_append [OF this F] show ?case by simp
qed simp

section \<open>The walk\<close>

text \<open>Along a chain that does not end in \<open>f\<close> the walk goes on, and leaves the other states as they are.\<close>

lemma turn_around_on:
  assumes "pi_chain hg (pi r) s p u" and "distinct (chain_states hg s p)" and "f \<notin> set (chain_states hg s p)"
    and "\<forall>x \<in> set (chain_states hg s p). x < length (pi r)" and "p \<noteq> []"
  shows "\<exists>c' r'. turn_around val hg f s lastarc c r = turn_around val hg f u (Some (last p)) c' r' \<and> pi r' ! u = pi r ! u \<and>
    length (pi r') = length (pi r)"
  using assms
proof (induction p arbitrary: s lastarc c r)
  case (Cons a p)
  let ?r = "r\<lparr>pi := (pi r)[s := lastarc], mu := (mu r)[s := c]\<rparr>"
  let ?c = "pt_extendBy (val (arc_weight (arcAt hg a))) c"
  have s: "s \<notin> set (chain_states hg (arc_to hg a) p)" "s < length (pi r)" "s \<noteq> u" using Cons.prems(1,2,4) by simp_all
  have step: "turn_around val hg f s lastarc c r = turn_around val hg f (arc_to hg a) (Some a) ?c ?r"
    using Cons.prems(1,3) by (subst turn_around.simps) (simp add: arc_to_def)
  have "pi_chain hg (pi ?r) (arc_to hg a) p u = pi_chain hg (pi r) (arc_to hg a) p u"
    by (rule pi_chain_cong) (use s(1) in \<open>auto intro!: nth_list_update_neq\<close>)
  then have ch: "pi_chain hg (pi ?r) (arc_to hg a) p u" using Cons.prems(1) by simp
  show ?case
  proof (cases "p = []")
    case True
    then show ?thesis using ch step s(3) by (intro exI [of _ ?c] exI [of _ ?r]) simp
  next
    case False
    then obtain c' r' where "turn_around val hg f (arc_to hg a) (Some a) ?c ?r = turn_around val hg f u (Some (last p)) c' r'"
      "pi r' ! u = pi ?r ! u" "length (pi r') = length (pi ?r)"
      using Cons.IH [OF ch _ _ _ False, of "Some a" ?c] Cons.prems(2-4) by auto
    then show ?thesis using step s(3) False by (intro exI [of _ c'] exI [of _ r']) simp
  qed
qed simp

lemma pi_chain_end: "pi_chain hg bp s p u \<Longrightarrow> u \<in> set (chain_states hg s p)"
  by (induction p arbitrary: s) auto

lemma pi_chain_last:
  "pi_chain hg bp s p u \<Longrightarrow> p \<noteq> [] \<Longrightarrow> arc_to hg (last p) = u"
  by (induction p arbitrary: s) (auto split: if_splits)

text \<open>
  Following \<open>pi\<close> forwards from a state of finite cost leads, along arcs that are no self-loops, to the state \<open>f\<close> or to one whose \<open>pi\<close>
  is a self-loop.
\<close>

definition loop_state :: "'w hg \<Rightarrow> ArcHandle option list \<Rightarrow> StateId \<Rightarrow> bool" where
  "loop_state hg bp u \<longleftrightarrow> (\<exists>c. bp ! u = Some c \<and> arc_to hg c = u)"

lemma pi_chain_on:
  assumes ord: "distinct ord" "neighbours_first n (others (\<lambda>v. map (arc_tail hg) (inArcsOf hg v))) ord"
    and R: "loop_relaxed (arc_to hg) (arc_tail hg) cst N f A r" and A: "A = (\<Union>v \<in> set ord. set (inArcsOf hg v))"
    and dirs: "\<forall>v \<in> set ord. v < n \<and> (\<forall>a \<in> set (inArcsOf hg v). arc_to hg a = v \<and> arc_tail hg a < n)" and nN: "n \<le> N"
    and i: "i < length ord" "mu r ! (ord ! i) \<noteq> Infty"
  shows "\<exists>p u. pi_chain hg (pi r) (ord ! i) p u \<and> distinct (chain_states hg (ord ! i) p) \<and>
    (\<forall>x \<in> set (chain_states hg (ord ! i) p). \<exists>j < length ord. i \<le> j \<and> x = ord ! j) \<and>
    (u = f \<or> f \<notin> set (chain_states hg (ord ! i) p) \<and> loop_state hg (pi r) u) \<and>
    gpath (inArcsOf hg) (arc_tail hg) u (rev p) (ord ! i) \<and> (\<forall>a \<in> set p. \<not> loop_state hg (pi r) (arc_tail hg a))"
  using i
proof (induction "length ord - i" arbitrary: i rule: less_induct)
  case less
  let ?s = "ord ! i"
  have s: "?s \<in> set ord" "?s < n" using less.prems(1) dirs by simp_all
  show ?case
  proof (cases "?s = f \<or> loop_state hg (pi r) ?s")
    case True
    then show ?thesis using less.prems(1) by (intro exI [of _ "[]"] exI [of _ ?s]) auto
  next
    case False
    have "?s < N" using s(2) nN by simp
    moreover from this obtain a where a: "pi r ! ?s = Some a" using False less.prems(2) R unfolding loop_relaxed_def by blast
    ultimately have b: "a \<in> A" "arc_tail hg a = ?s" "mu r ! arc_to hg a \<noteq> Infty" using R unfolding loop_relaxed_def by blast+
    then obtain w where w: "w \<in> set ord" "a \<in> set (inArcsOf hg w)" unfolding A by blast
    have aw: "arc_to hg a = w" using dirs w by blast
    then have ne: "?s \<noteq> w" using False a by (auto simp: loop_state_def)
    obtain j where j: "j < length ord" "w = ord ! j" using w(1) by (auto simp: in_set_conv_nth)
    have "?s \<in> set (others (\<lambda>v. map (arc_tail hg) (inArcsOf hg v)) w)" using w(2) b(2) ne by (force simp: others_def)
    then have "?s \<in> set (take j ord)" using ord(2) j s(2) unfolding neighbours_first_def by blast
    then obtain k where k: "k < j" "?s = ord ! k" by (auto simp: in_set_conv_nth)
    then have "k = i" using ord(1) less.prems(1) j(1) by (auto simp: nth_eq_iff_index_eq)
    then have ij: "i < j" using k(1) by simp
    have "length ord - j < length ord - i" using ij j(1) by simp
    from less.hyps [OF this j(1)] b(3) aw j(2) obtain p u where pu: "pi_chain hg (pi r) w p u" "distinct (chain_states hg w p)"
      "\<forall>x \<in> set (chain_states hg w p). \<exists>k < length ord. j \<le> k \<and> x = ord ! k"
      "u = f \<or> f \<notin> set (chain_states hg w p) \<and> loop_state hg (pi r) u"
      "gpath (inArcsOf hg) (arc_tail hg) u (rev p) w" "\<forall>a \<in> set p. \<not> loop_state hg (pi r) (arc_tail hg a)"
      by auto
    have new: "?s \<notin> set (chain_states hg w p)"
    proof
      assume "?s \<in> set (chain_states hg w p)"
      then obtain k where "k < length ord" "j \<le> k" "?s = ord ! k" using pu(3) by blast
      then show False using ij less.prems(1) ord(1) by (auto simp: nth_eq_iff_index_eq)
    qed
    have "u \<in> set (chain_states hg w p)" by (rule pi_chain_end [OF pu(1)])
    then have "?s \<noteq> u" using new by blast
    then have "pi_chain hg (pi r) ?s (a # p) u" using a b(2) aw pu(1) by simp
    moreover have "\<forall>x \<in> set (chain_states hg ?s (a # p)). \<exists>k < length ord. i \<le> k \<and> x = ord ! k"
      using pu(3) ij less.prems(1) aw by fastforce
    moreover have "gpath (inArcsOf hg) (arc_tail hg) u (rev (a # p)) ?s"
      using pu(5) w(2) b(2) by (auto simp: gpath_snoc)
    ultimately show ?thesis using pu(2,4,6) new False aw b(2) by (intro exI [of _ "a # p"] exI [of _ u]) auto
  qed
qed

lemma gpath_states:
  assumes "gpath arcs dst s p t" and "s \<in> S" and "\<forall>v \<in> S. \<forall>a \<in> set (arcs v). dst a \<in> S"
  shows "t \<in> S" "\<forall>a \<in> set p. dst a \<in> S"
  using assms by (induction p arbitrary: s) auto

lemma gcost_Cons: "gcost cst (a # p) = cost_add (gcost cst p) (cst a)"
proof -
  have comm: "cost_add (cost_add c x) y = cost_add (cost_add c y) x" for c x y by (cases c; cases x; cases y) auto
  have "fold (\<lambda>a c. cost_add c (cst a)) p (cost_add c x) = cost_add (fold (\<lambda>a c. cost_add c (cst a)) p c) x" for c x
  proof (induction p arbitrary: c)
    case (Cons b p)
    show ?case using Cons [of "cost_add c (cst b)"] by (simp add: comm [of c x])
  qed simp
  then show ?thesis by (simp add: gcost_def)
qed

lemma gpath_finite:
  assumes "gpath arcs dst s p t" and "gcost cst p \<noteq> Infty" and "m s \<noteq> Infty" and "s \<in> S"
    and "\<forall>v \<in> S. \<forall>a \<in> set (arcs v). dst a \<in> S \<and> (m v \<noteq> Infty \<longrightarrow> cst a \<noteq> Infty \<longrightarrow> m (dst a) \<noteq> (Infty :: cost))"
  shows "m t \<noteq> Infty \<and> (\<forall>a \<in> set p. m (dst a) \<noteq> Infty)"
  using assms
proof (induction p arbitrary: s)
  case (Cons a p)
  have "gcost cst p \<noteq> Infty" "cst a \<noteq> Infty" using Cons.prems(2) by (simp_all add: gcost_Cons cost_add_Infty)
  moreover have "dst a \<in> S" "m (dst a) \<noteq> Infty" using Cons.prems(1,3,4,5) calculation(2) by auto
  ultimately show ?case using Cons.IH [of "dst a"] Cons.prems(1,5) by simp
qed simp

section \<open>The property\<close>

text \<open>
  Property C39 (when the constructor does not return). The search for back edges does not count self-loops, so no bound on
  the back edges stops it. On a graph that stores only in-arcs, without longer cycles above the final state: if every path from the start to the
  final state, one of finite cost among them, goes through a state other than the two that has a self-loop of negative cost, and the start state has none, the constructor of
  \<open>AcyclicBest\<close> never returns.
\<close>

theorem acyclicBest_negative_self_loop:
  assumes f: "final_state hg \<noteq> kNoState" "start_state hg \<noteq> kNoState" "final_state hg < n"
    and n: "n = sizeForHeads hg" "n \<le> numStates hg" and o: "\<not> storesOutArcs hg" "storesInArcs hg"
    and ac: "acyclic (reach_edges n (in_tail0 hg) (final_state hg))"
    and dirs: "\<forall>v \<in> reach_from n (in_tail0 hg) (final_state hg). \<forall>a \<in> set (inArcsOf hg v).
      arc_to hg a = v \<and> arc_tails (arcAt hg a) \<noteq> [] \<and> arc_tail hg a < n"
    and pi0: "pi r0 = replicate (numStates hg) None"
    and p: "gpath (inArcsOf hg) (arc_tail hg) (final_state hg) p0 (start_state hg)" "gcost (arc_cost val hg) p0 \<noteq> Infty"
    and loop: "a0 \<in> set (inArcsOf hg v)" "arc_tail hg a0 = v" "cost_less (arc_cost val hg a0) (Fin 0)" "v \<noteq> start_state hg" "v \<noteq> final_state hg"
    and cut: "\<forall>p. gpath (inArcsOf hg) (arc_tail hg) (final_state hg) p (start_state hg) \<longrightarrow> v \<in> arc_tail hg ` set p"
    and start: "\<forall>a \<in> set (inArcsOf hg (start_state hg)). arc_tail hg a = start_state hg \<longrightarrow> \<not> cost_less (arc_cost val hg a) (Fin 0)"
  shows "AcyclicBest val hg r0 maxBackEdges = None"
proof -
  let ?f = "final_state hg" and ?s = "start_state hg" and ?N = "numStates hg" and ?nx = "\<lambda>v. map (arc_tail hg) (inArcsOf hg v)"
  let ?q = "start_order ?nx n (maxBackEdges mod 2 ^ 32) ?f" and ?cst = "arc_cost val hg"
  let ?as = "concat (map (inArcsOf hg) (rev (order ?q)))"
  let ?i = "r0\<lparr>self_loops := 0, mu := (replicate ?N Infty)[?f := Fin 0]\<rparr>"
  let ?r = "fold (relax (arc_to hg) (arc_tail hg) ?cst) ?as ?i"
  have nx: "in_tail0 hg = ?nx" by (rule in_tail0_map)
  have z: "nBackEdges ?q = 0" "\<not> thrown ?q" using start_order_facts(2) [OF f(3)] ac unfolding nx by blast+
  have ord: "distinct (order ?q)" "neighbours_first n (others ?nx) (order ?q)" "set (order ?q) = reach_from n ?nx ?f"
    using start_order_facts(1) [OF f(3), of ?nx "maxBackEdges mod 2 ^ 32"] z by (simp_all add: others_rtrancl reach_from_def)
  have fin: "?f \<in> set (order ?q)" unfolding ord(3) by (simp add: reach_from_def)
  have D: "\<forall>v \<in> set (order ?q). v < n \<and> (\<forall>a \<in> set (inArcsOf hg v). arc_to hg a = v \<and> arc_tail hg a < n)"
    using dirs reached_below [OF _ f(3)] unfolding nx ord(3) by (auto simp: reach_from_def)
  have cl: "\<forall>v \<in> set (order ?q). \<forall>a \<in> set (inArcsOf hg v). arc_tail hg a \<in> set (order ?q)"
  proof (intro ballI)
    fix v a assume v: "v \<in> set (order ?q)" "a \<in> set (inArcsOf hg v)"
    have "v < n" "arc_tail hg a < n" using D v by blast+
    moreover have "arc_tail hg a \<in> set (?nx v)" using v(2) by simp
    ultimately show "arc_tail hg a \<in> set (order ?q)" using live_step [of v n ?nx ?f] v(1) unfolding ord(3) by blast
  qed
  have "loop_forward (arc_to hg) (arc_tail hg) {} ?as" by (rule order_loop_forward [OF ord(2,1) _ D]) simp
  moreover have "loop_relaxed (arc_to hg) (arc_tail hg) ?cst ?N ?f {} ?i"
    using f(3) n(2) pi0 by (auto simp: loop_relaxed_def nth_list_update)
  moreover have "set ?as = (\<Union>v \<in> set (order ?q). set (inArcsOf hg v))" by simp
  moreover have "\<forall>a \<in> set ?as. arc_tail hg a < ?N"
  proof
    fix a assume "a \<in> set ?as"
    then obtain v where "v \<in> set (order ?q)" "a \<in> set (inArcsOf hg v)" by auto
    then have "arc_tail hg a < n" using D by blast
    then show "arc_tail hg a < ?N" using n(2) by simp
  qed
  ultimately have R: "loop_relaxed (arc_to hg) (arc_tail hg) ?cst ?N ?f (\<Union>v \<in> set (order ?q). set (inArcsOf hg v)) ?r"
    using loop_relax_all [of "arc_to hg" "arc_tail hg" ?cst ?N ?f "{}" ?i "{}" ?as] by simp
  have spread: "\<forall>v \<in> set (order ?q). \<forall>a \<in> set (inArcsOf hg v). arc_tail hg a \<in> set (order ?q) \<and>
      (mu ?r ! v \<noteq> Infty \<longrightarrow> ?cst a \<noteq> Infty \<longrightarrow> mu ?r ! arc_tail hg a \<noteq> Infty)"
  proof (intro ballI conjI)
    fix v a assume v: "v \<in> set (order ?q)" "a \<in> set (inArcsOf hg v)"
    show "arc_tail hg a \<in> set (order ?q)" using cl v by blast
    have "a \<in> (\<Union>v \<in> set (order ?q). set (inArcsOf hg v))" using v by blast
    moreover have "arc_to hg a = v" using D v by blast
    ultimately show "mu ?r ! v \<noteq> Infty \<longrightarrow> ?cst a \<noteq> Infty \<longrightarrow> mu ?r ! arc_tail hg a \<noteq> Infty"
      using R unfolding loop_relaxed_def by metis
  qed
  have f0: "mu ?r ! ?f \<noteq> Infty" using R by (simp add: loop_relaxed_def)
  have finite: "mu ?r ! ?s \<noteq> Infty" "\<forall>a \<in> set p0. mu ?r ! arc_tail hg a \<noteq> Infty"
    using gpath_finite [where m = "\<lambda>x. mu ?r ! x", OF p f0 fin spread] by simp_all
  have vr: "v \<in> set (order ?q)" "mu ?r ! v \<noteq> Infty"
    using cut p(1) finite(2) gpath_states(2) [OF p(1) fin cl] by blast+
  have lv: "loop_state hg (pi ?r) v"
  proof -
    have a0: "a0 \<in> (\<Union>v \<in> set (order ?q). set (inArcsOf hg v))" "arc_to hg a0 = v" using vr(1) loop(1) D by auto
    then obtain b where b: "pi ?r ! v = Some b" "arc_to hg b = v"
      using R loop(2,3) vr(2) unfolding loop_relaxed_def by metis
    then show ?thesis by (auto simp: loop_state_def)
  qed
  have sr: "?s \<in> set (order ?q)" by (rule gpath_states(1) [OF p(1) fin cl])
  then obtain i where i: "i < length (order ?q)" "order ?q ! i = ?s" by (auto simp: in_set_conv_nth)
  obtain q u where q: "pi_chain hg (pi ?r) ?s q u" "distinct (chain_states hg ?s q)"
    "\<forall>x \<in> set (chain_states hg ?s q). \<exists>j < length (order ?q). i \<le> j \<and> x = order ?q ! j"
    "u = ?f \<or> ?f \<notin> set (chain_states hg ?s q) \<and> loop_state hg (pi ?r) u"
    "gpath (inArcsOf hg) (arc_tail hg) u (rev q) ?s" "\<forall>a \<in> set q. \<not> loop_state hg (pi ?r) (arc_tail hg a)"
    using pi_chain_on [OF ord(1,2) R refl D n(2) i(1)] finite(1) unfolding i(2) by blast
  have "u \<noteq> ?f"
  proof
    assume "u = ?f"
    then have "v \<in> arc_tail hg ` set q" using cut q(5) by auto
    then show False using q(6) lv by auto
  qed
  then have u: "?f \<notin> set (chain_states hg ?s q)" "loop_state hg (pi ?r) u" using q(4) by blast+
  then obtain c where c: "pi ?r ! u = Some c" "arc_to hg c = u" by (auto simp: loop_state_def)
  have ch: "x < ?N" if "x \<in> set (chain_states hg ?s q)" for x
  proof -
    have "x \<in> set (order ?q)" using q(3) that by (metis nth_mem)
    then have "x < n" using D by blast
    then show ?thesis using n(2) by simp
  qed
  have len: "length (pi ?r) = ?N" using R by (simp add: loop_relaxed_def)
  have uN: "u < ?N" by (rule ch [OF pi_chain_end [OF q(1)]])
  have cA: "c \<in> (\<Union>v \<in> set (order ?q). set (inArcsOf hg v))" "arc_tail hg c = u" "cost_less (?cst c) (Fin 0)"
    using R uN c unfolding loop_relaxed_def by metis+
  have "u \<noteq> ?s"
  proof
    assume us: "u = ?s"
    have "c \<in> set (inArcsOf hg u)" using cA(1) D c(2) by auto
    then show False using start cA(2,3) us by auto
  qed
  then have ne: "q \<noteq> []" using q(1) by auto
  obtain c' r' where t: "turn_around val hg ?f ?s None (Fin 0) ?r = turn_around val hg ?f u (Some (last q)) c' r'"
    "pi r' ! u = pi ?r ! u" "length (pi r') = length (pi ?r)"
    using turn_around_on [OF q(1,2) u(1) _ ne, of val None "Fin 0"] ch len by auto
  have "stuck hg ?f u (Some (last q)) r'"
    using \<open>u \<noteq> ?f\<close> uN len t(2,3) c pi_chain_last [OF q(1) ne] by (simp add: stuck_def)
  then have stop: "turn_around val hg ?f ?s None (Fin 0) ?r = None" using turn_around_stuck t(1) by metis
  have "fold (\<lambda>v. fold (improveTopDown val hg v) (inArcsOf hg v)) (rev (order ?q)) ?i =
      fold (\<lambda>v. fold (relax (arc_to hg) (arc_tail hg) ?cst) (inArcsOf hg v)) (rev (order ?q)) ?i"
  proof (rule fold_cong [OF refl refl])
    fix v assume v: "v \<in> set (rev (order ?q))"
    show "fold (improveTopDown val hg v) (inArcsOf hg v) = fold (relax (arc_to hg) (arc_tail hg) ?cst) (inArcsOf hg v)"
    proof (rule ext, rule fold_cong [OF refl refl])
      fix r a assume a: "a \<in> set (inArcsOf hg v)"
      have "arc_tails (arcAt hg a) \<noteq> [] \<and> arc_to hg a = v" using dirs v a unfolding nx ord(3) [symmetric] by simp
      then show "improveTopDown val hg v a = relax (arc_to hg) (arc_tail hg) ?cst a"
        using improveTopDown_relax by (metis ext)
    qed
  qed
  then have run: "fold (\<lambda>v. fold (improveTopDown val hg v) (inArcsOf hg v)) (rev (order ?q)) ?i = ?r" by (simp only: fold_arcs)
  have "best_by_in_arcs val hg (order ?q) (r0\<lparr>self_loops := 0\<rparr>) = None"
    using run stop by (simp add: best_by_in_arcs_def pt_unreachable_def pt_start_def Let_def)
  moreover have "order ?q \<noteq> []" using fin by auto
  ultimately show ?thesis using f o z(1) n(1) unfolding AcyclicBest_def orderHeadsLast_def nx
    by (simp add: storesInArcs_def Let_def)
qed

text \<open>Arcs 0 to 1, 1 to 1 with a negative cost, and 1 to 2.\<close>

definition sample_negative_loop :: "cost hg" where
  "sample_negative_loop = hg_zero\<lparr>props := kStoreInArcs OR kGraph, fsmChecked := True, numStates := 3,
     start_state := 0, final_state := 2,
     arc_heap := [0 \<mapsto> \<lparr>arc_head = 1, arc_tails = [0], arc_weight = Fin 1\<rparr>,
                  1 \<mapsto> \<lparr>arc_head = 1, arc_tails = [1], arc_weight = Fin (- 1)\<rparr>,
                  2 \<mapsto> \<lparr>arc_head = 2, arc_tails = [1], arc_weight = Fin 1\<rparr>],
     next_arc := 3, inArcsPerState := [[], [0, 1], [2]]\<rparr>"


theorem acyclicBest_negative_self_loop_witness:
  "AcyclicBest (\<lambda>w. w) sample_negative_loop \<lparr>mu = [], pi = replicate 3 None, self_loops = 0\<rparr> 5 = None"
proof -
  let ?h = sample_negative_loop and ?r0 = "\<lparr>mu = [], pi = replicate 3 None, self_loops = 0\<rparr>"
  have i: "inArcsOf ?h s = (if s = 1 then [0, 1] else if s = 2 then [2] else [])" for s
    by (simp add: inArcsOf_def sample_negative_loop_def getOrElse_def nth_Cons')
  have a: "arcAt ?h 0 = \<lparr>arc_head = 1, arc_tails = [0], arc_weight = Fin 1\<rparr>"
    "arcAt ?h (Suc 0) = \<lparr>arc_head = 1, arc_tails = [1], arc_weight = Fin (- 1)\<rparr>"
    "arcAt ?h 2 = \<lparr>arc_head = 2, arc_tails = [1], arc_weight = Fin 1\<rparr>"
    by (simp_all add: arcAt_def sample_negative_loop_def)
  have t: "arc_tail ?h 0 = 0" "arc_tail ?h (Suc 0) = 1" "arc_tail ?h 2 = 1" "arc_to ?h 0 = 1" "arc_to ?h (Suc 0) = 1" "arc_to ?h 2 = 2"
    by (simp_all add: arc_tail_def arc_to_def a)
  have f: "final_state ?h = 2" "numStates ?h = 3" "start_state ?h = 0" by (simp_all add: sample_negative_loop_def)
  have st: "\<not> storesOutArcs ?h" "storesInArcs ?h"
    by (simp_all add: sample_negative_loop_def storesOutArcs_def storesInArcs_def flag_simps)
  have n: "3 = sizeForHeads ?h"
    by (simp add: sizeForHeads_def properties_def sample_negative_loop_def computeFsmGraphProperty_def flag_simps hg_zero_def)
  have nx: "in_tail0 ?h = (\<lambda>v. if v = 1 then [0, 1] else if v = 2 then [1] else [])"
    by (simp add: fun_eq_iff in_tail0_map i t)
  have "acyclic (less_than\<inverse>)" using wf_acyclic [OF wf_less_than] by simp
  then have ac: "acyclic (reach_edges 3 (in_tail0 ?h) (final_state ?h))"
    by (rule acyclic_subset) (auto simp: reach_edges_def next_edges_def others_def nx split: if_splits)
  have cut: "\<forall>p. gpath (inArcsOf ?h) (arc_tail ?h) (final_state ?h) p (start_state ?h) \<longrightarrow> 1 \<in> arc_tail ?h ` set p"
  proof (intro allI impI)
    fix p assume "gpath (inArcsOf ?h) (arc_tail ?h) (final_state ?h) p (start_state ?h)"
    then obtain q where "p = 2 # q" by (cases p) (auto simp: f i)
    then show "1 \<in> arc_tail ?h ` set p" by (simp add: t)
  qed
  have p: "gpath (inArcsOf ?h) (arc_tail ?h) (final_state ?h) [2, 0] (start_state ?h)" by (simp add: f i t)
  have c: "gcost (arc_cost (\<lambda>w. w) ?h) [2, 0] \<noteq> Infty" by (simp add: gcost_def arc_cost_def a)
  show ?thesis
    by (rule acyclicBest_negative_self_loop [where n = 3 and v = 1 and ?a0.0 = "Suc 0", OF _ _ _ n _ st ac _ _ p c _ _ _ _ _ cut])
      (auto simp: f i t a kNoState_def arc_cost_def split: if_splits)
qed

end
