(* ===== verification/Utf8_Length.thy ===== *)
theory Utf8_Length
  imports Hyp_Prelude
begin

text \<open>
  Counting the code points of a UTF-8 string (\<open>sdl/Util/Utf8.hpp\<close>: \<open>byteContinuesUtf8Char\<close>,
  \<open>utf8length\<close>). The fast version reads eight bytes at a time from an aligned address and counts
  the continuation bytes with one multiplication; the theorem is that it counts as the loop over
  single bytes does, at any alignment, and returns.

  Memory is a function from 64-bit addresses to bytes; a block is read little-endian.
\<close>

unbundle bit_operations_syntax

type_synonym memory = "64 word \<Rightarrow> 8 word"

section \<open>The code\<close>

text \<open>The operators promote the byte to \<open>int\<close>, where the complement is negative.\<close>

definition byteContinuesUtf8Char :: "8 word \<Rightarrow> bool" where
  "byteContinuesUtf8Char b \<longleftrightarrow> drop_bit 7 (uint b) AND drop_bit 6 (NOT (uint b)) \<noteq> 0"

definition SDL_UTF8_ONEMASK :: "64 word" where
  "SDL_UTF8_ONEMASK = (- 1) div 0xFF"

definition load_block :: "memory \<Rightarrow> 64 word \<Rightarrow> 64 word" where
  "load_block mem s = foldr (\<lambda>i w. push_bit (8 * i) (ucast (mem (s + of_nat i))) OR w) [0..<8] 0"

text \<open>
  The three loops. Addresses wrap, so that a loop whose end is never hit does not end:
  \<open>None\<close> is the loop that does not return.
\<close>

partial_function (option) unaligned_loop :: "memory \<Rightarrow> 64 word \<Rightarrow> 64 word \<Rightarrow> (64 word \<times> 64 word) option" where
  "unaligned_loop mem s c =
     (if s AND 7 = 0 then Some (s, c)
      else unaligned_loop mem (s + 1) (c + of_bool (byteContinuesUtf8Char (mem s))))"

definition block_count :: "64 word \<Rightarrow> 64 word" where
  "block_count block =
     (let b = drop_bit 7 (block AND (SDL_UTF8_ONEMASK * 0x80)) AND drop_bit 6 (NOT block)
      in drop_bit ((8 - 1) * 8) (b * SDL_UTF8_ONEMASK))"

partial_function (option) block_loop :: "memory \<Rightarrow> 64 word \<Rightarrow> 64 word \<Rightarrow> 64 word \<Rightarrow> (64 word \<times> 64 word) option" where
  "block_loop mem endAligned s c =
     (if s = endAligned then Some (s, c)
      else block_loop mem endAligned (s + 8) (c + block_count (load_block mem s)))"

partial_function (option) byte_loop :: "memory \<Rightarrow> 64 word \<Rightarrow> 64 word \<Rightarrow> 64 word \<Rightarrow> 64 word option" where
  "byte_loop mem end' s c =
     (if s = end' then Some c
      else byte_loop mem end' (s + 1) (c + of_bool (byteContinuesUtf8Char (mem s))))"

definition utf8length :: "memory \<Rightarrow> 64 word \<Rightarrow> 64 word \<Rightarrow> 64 word option" where
  "utf8length mem begin' end' =
     (let bytes = end' - begin' in
      Option.bind
        (if 2 * 8 \<le> bytes
         then Option.bind (unaligned_loop mem begin' 0)
                (\<lambda>(s, c). block_loop mem (end' AND NOT (8 - 1)) s c)
         else Some (begin', 0))
        (\<lambda>(s, c). map_option (\<lambda>n. bytes - n) (byte_loop mem end' s c)))"

section \<open>Counting in a range of addresses\<close>

text \<open>The continuation bytes at the addresses \<open>i, \<dots>, j - 1\<close>.\<close>

definition continuations :: "memory \<Rightarrow> nat \<Rightarrow> nat \<Rightarrow> nat" where
  "continuations mem i j = length (filter (\<lambda>k. byteContinuesUtf8Char (mem (of_nat k))) [i..<j])"

lemma continuations_same [simp]: "continuations mem i i = 0"
  by (simp add: continuations_def)

lemma continuations_append: "i \<le> j \<Longrightarrow> j \<le> k \<Longrightarrow> continuations mem i k = continuations mem i j + continuations mem j k"
  using upt_add_eq_append [of i j "k - j"] by (simp add: continuations_def)

lemma continuations_Suc: "i < j \<Longrightarrow> continuations mem i j = of_bool (byteContinuesUtf8Char (mem (of_nat i))) + continuations mem (Suc i) j"
  by (simp add: continuations_def upt_conv_Cons)

lemma continuations_le: "continuations mem i j \<le> j - i"
  unfolding continuations_def by (rule order_trans [OF length_filter_le]) simp

lemma of_nat_eq_bounded: "i < 2 ^ 64 \<Longrightarrow> j < 2 ^ 64 \<Longrightarrow> (of_nat i = (of_nat j :: 64 word)) \<longleftrightarrow> i = j"
  by (simp add: word_of_nat_eq_iff take_bit_eq_mod)

lemma byte_loop_counts:
  "i \<le> j \<Longrightarrow> j < 2 ^ 64 \<Longrightarrow>
   byte_loop mem (of_nat j) (of_nat i) c = Some (c + of_nat (continuations mem i j))"
proof (induction "j - i" arbitrary: i c)
  case 0
  then show ?case by (subst byte_loop.simps) simp
next
  case (Suc n)
  then have ij: "i < j" by simp
  then have ne: "(of_nat i :: 64 word) \<noteq> of_nat j" using Suc.prems of_nat_eq_bounded [of i j] by simp
  have "of_nat i + 1 = (of_nat (Suc i) :: 64 word)" by simp
  moreover have "byte_loop mem (of_nat j) (of_nat (Suc i)) (c + of_bool (byteContinuesUtf8Char (mem (of_nat i))))
    = Some (c + of_bool (byteContinuesUtf8Char (mem (of_nat i))) + of_nat (continuations mem (Suc i) j))"
    using Suc ij by (intro Suc.hyps(1)) simp_all
  ultimately show ?case
    using ne ij by (subst byte_loop.simps) (simp add: continuations_Suc add.assoc del: of_nat_Suc)
qed

section \<open>One block\<close>

lemma low_bits_mod: "x AND 7 = x mod (8 :: 64 word)"
  using take_bit_eq_mask [of 3 x] take_bit_eq_mod [of 3 x] by (simp add: mask_eq_exp_minus_1)

lemma aligned_iff: "i < 2 ^ 64 \<Longrightarrow> (of_nat i AND 7 = (0 :: 64 word)) \<longleftrightarrow> i mod 8 = 0"
proof -
  assume "i < 2 ^ 64"
  then have "unat ((of_nat i :: 64 word) AND 7) = i mod 8"
    by (simp add: low_bits_mod unat_mod_distrib unat_of_nat)
  then show ?thesis by (metis unat_eq_zero)
qed

text \<open>A word from bytes, least significant first.\<close>

fun le_word :: "8 word list \<Rightarrow> 64 word" where
  "le_word [] = 0"
| "le_word (b # bs) = ucast b OR push_bit 8 (le_word bs)"

lemma bit_le_word:
  "bit (le_word bs) n \<longleftrightarrow> n < 64 \<and> n div 8 < length bs \<and> bit (bs ! (n div 8)) (n mod 8)"
proof (induction bs arbitrary: n)
  case (Cons b bs)
  show ?case
  proof (cases "n < 8")
    case True
    then have "n div 8 = 0" "n mod 8 = n" "n < 64" by simp_all
    with True show ?thesis by (simp add: bit_or_iff bit_push_bit_iff bit_ucast_iff)
  next
    case False
    then obtain m where m: "n = m + 8" by (metis add.commute le_iff_add not_less)
    have b: "\<not> bit b n" using False by (auto dest: bit_imp_le_length)
    have d: "(m + 8) div 8 = Suc (m div 8)" "(m + 8) mod 8 = m mod 8" by simp_all
    show ?thesis unfolding m using Cons [of m] b [unfolded m]
      by (auto simp: bit_or_iff bit_push_bit_iff bit_ucast_iff d)
  qed
qed simp

lemma load_block_le_word: "load_block mem s = le_word (map (\<lambda>i. mem (s + of_nat i)) [0..<8])"
  by (simp add: load_block_def upt_rec [of _ 8] push_bit_or ac_simps)

lemma ones_value: "SDL_UTF8_ONEMASK = 0x0101010101010101"
  by (simp add: SDL_UTF8_ONEMASK_def)

lemma mask_le_word: "SDL_UTF8_ONEMASK * 0x80 = le_word [0x80, 0x80, 0x80, 0x80, 0x80, 0x80, 0x80, 0x80]"
  by (simp add: ones_value push_bit_eq_mult)

lemma continues_bits: "byteContinuesUtf8Char b \<longleftrightarrow> bit b 7 \<and> \<not> bit b 6"
proof -
  have "bit (drop_bit 7 (uint b) AND drop_bit 6 (NOT (uint b))) n \<longleftrightarrow> n = 0 \<and> bit b 7 \<and> \<not> bit b 6" for n
    by (cases n) (auto simp: bit_simps dest: bit_imp_le_length)
  then show ?thesis
    unfolding byteContinuesUtf8Char_def
    using bit_eq_iff [of "drop_bit 7 (uint b) AND drop_bit 6 (NOT (uint b))" 0] by auto
qed

lemma high_bits: "length bs = 8 \<Longrightarrow>
    drop_bit 7 (le_word bs AND le_word [0x80, 0x80, 0x80, 0x80, 0x80, 0x80, 0x80, 0x80]) AND drop_bit 6 (NOT (le_word bs))
    = le_word (map (\<lambda>b. of_bool (byteContinuesUtf8Char b)) bs)"
proof (rule bit_word_eqI)
  fix n assume l: "length bs = 8" and n: "n < LENGTH(64)"
  have m: "[0x80, 0x80, 0x80, 0x80, 0x80, 0x80, 0x80, 0x80] = replicate 8 (0x80 :: 8 word)"
    by (simp add: numeral_eq_Suc)
  have b80: "bit (0x80 :: 8 word) k \<longleftrightarrow> k = 7" for k
  proof -
    have "(0x80 :: 8 word) = 2 ^ 7" by simp
    then show ?thesis by (simp only: bit_simps) auto
  qed
  show "bit (drop_bit 7 (le_word bs AND le_word [0x80, 0x80, 0x80, 0x80, 0x80, 0x80, 0x80, 0x80]) AND drop_bit 6 (NOT (le_word bs))) n
      = bit (le_word (map (\<lambda>b. of_bool (byteContinuesUtf8Char b)) bs)) n"
  proof (cases "n mod 8 = 0")
    case True
    then obtain q where q: "n = 8 * q" by auto
    then have "q < 8" using n by simp
    moreover have "(8 * q + 7) div 8 = q" "(8 * q + 6) div 8 = q" "(8 * q + 7) mod 8 = 7" "(8 * q + 6) mod 8 = 6"
      by simp_all
    ultimately show ?thesis
      by (simp add: m q l b80 bit_drop_bit_eq bit_and_iff bit_not_iff bit_le_word continues_bits bit_of_bool_iff add.commute possible_bit_word)
        (simp add: numeral_eq_Suc)
  next
    case False
    then have "(n + 7) mod 8 \<noteq> 7" by presburger
    then have "(n + 7) div 8 < 8 \<Longrightarrow> \<not> bit (replicate 8 (0x80 :: 8 word) ! ((n + 7) div 8)) ((n + 7) mod 8)"
      by (metis b80 nth_replicate)
    then show ?thesis using False n l
      by (auto simp: m bit_drop_bit_eq bit_and_iff bit_not_iff bit_le_word bit_of_bool_iff add.commute)
  qed
qed

lemma count_ones:
  "drop_bit 56 (le_word [of_bool a, of_bool b, of_bool c, of_bool d, of_bool e, of_bool f, of_bool g, of_bool h] * SDL_UTF8_ONEMASK)
   = of_bool a + of_bool b + of_bool c + of_bool d + of_bool e + of_bool f + of_bool g + of_bool h"
  by (cases a; cases b; cases c; cases d; cases e; cases f; cases g; cases h)
    (simp_all add: ones_value)

lemma block_count_correct:
  "length bs = 8 \<Longrightarrow> block_count (le_word bs) = of_nat (length (filter byteContinuesUtf8Char bs))"
proof -
  assume l: "length bs = 8"
  then obtain a b c d e f g h where bs: "bs = [a, b, c, d, e, f, g, h]"
    by (auto simp: numeral_eq_Suc length_Suc_conv)
  have "of_nat (length (filter byteContinuesUtf8Char bs)) =
      (of_bool (byteContinuesUtf8Char a) + of_bool (byteContinuesUtf8Char b) + of_bool (byteContinuesUtf8Char c)
      + of_bool (byteContinuesUtf8Char d) + of_bool (byteContinuesUtf8Char e) + of_bool (byteContinuesUtf8Char f)
      + of_bool (byteContinuesUtf8Char g) + of_bool (byteContinuesUtf8Char h) :: 64 word)"
    by (simp add: bs of_bool_def)
  then show ?thesis
    unfolding block_count_def Let_def mask_le_word high_bits [OF l] using count_ones by (simp add: bs)
qed

section \<open>The count\<close>

lemma load_block_range:
  "load_block mem (of_nat i) = le_word (map (\<lambda>k. mem (of_nat k)) [i..<i + 8])"
proof -
  have "map (\<lambda>k. mem (of_nat i + of_nat k)) [0..<8] = map (\<lambda>k. mem (of_nat k)) [i..<i + 8]"
    by (rule nth_equalityI) simp_all
  then show ?thesis by (simp add: load_block_le_word)
qed

lemma block_count_range: "block_count (load_block mem (of_nat i)) = of_nat (continuations mem i (i + 8))"
  by (simp add: load_block_range block_count_correct continuations_def filter_map comp_def)

lemma block_loop_counts:
  "i \<le> j \<Longrightarrow> j < 2 ^ 64 \<Longrightarrow> 8 dvd j - i \<Longrightarrow>
   block_loop mem (of_nat j) (of_nat i) c = Some (of_nat j, c + of_nat (continuations mem i j))"
proof (induction "j - i" arbitrary: i c rule: less_induct)
  case less
  show ?case
  proof (cases "i = j")
    case True
    then show ?thesis by (subst block_loop.simps) simp
  next
    case False
    then have ij: "i + 8 \<le> j" using less.prems(1,3) by presburger
    have ne: "(of_nat i :: 64 word) \<noteq> of_nat j" using False less.prems of_nat_eq_bounded [of i j] by simp
    have "block_loop mem (of_nat j) (of_nat (i + 8)) (c + of_nat (continuations mem i (i + 8)))
        = Some (of_nat j, c + of_nat (continuations mem i (i + 8)) + of_nat (continuations mem (i + 8) j))"
      using less.prems ij by (intro less.hyps) presburger+
    then show ?thesis
      using ne continuations_append [of i "i + 8" j] ij
      by (subst block_loop.simps) (simp add: block_count_range add.assoc)
  qed
qed

lemma unaligned_loop_counts:
  "i \<le> j \<Longrightarrow> j < 2 ^ 64 \<Longrightarrow> j mod 8 = 0 \<Longrightarrow> j < i + 8 \<Longrightarrow>
   unaligned_loop mem (of_nat i) c = Some (of_nat j, c + of_nat (continuations mem i j))"
proof (induction "j - i" arbitrary: i c)
  case 0
  then show ?case using aligned_iff [of j] by (subst unaligned_loop.simps) simp
next
  case (Suc n)
  then have ij: "i < j" by simp
  then have "i mod 8 \<noteq> 0" using Suc.prems by presburger
  then have ne: "of_nat i AND 7 \<noteq> (0 :: 64 word)" using aligned_iff [of i] ij Suc.prems by simp
  have "of_nat i + 1 = (of_nat (Suc i) :: 64 word)" by simp
  moreover have "unaligned_loop mem (of_nat (Suc i)) (c + of_bool (byteContinuesUtf8Char (mem (of_nat i))))
    = Some (of_nat j, c + of_bool (byteContinuesUtf8Char (mem (of_nat i))) + of_nat (continuations mem (Suc i) j))"
    using Suc ij by (intro Suc.hyps(1)) simp_all
  ultimately show ?case
    using ne ij by (subst unaligned_loop.simps) (simp add: continuations_Suc add.assoc del: of_nat_Suc)
qed

lemma align_down: "j < 2 ^ 64 \<Longrightarrow> of_nat j AND NOT (8 - 1) = (of_nat (j - j mod 8) :: 64 word)"
proof -
  assume j: "j < 2 ^ 64"
  let ?x = "of_nat j :: 64 word"
  have "(?x AND 7) + (?x AND NOT 7) = (?x AND 7) OR (?x AND NOT 7)"
    by (rule disjunctive_add_eq_or) (simp add: and.assoc and.left_commute)
  also have "\<dots> = ?x" by (simp add: bit.conj_disj_distrib [symmetric])
  finally have "?x AND NOT 7 = ?x - (?x AND 7)" by (simp add: eq_diff_eq add.commute)
  moreover have "?x AND 7 = of_nat (j mod 8)"
    unfolding word_unat_eq_iff using j by (simp add: low_bits_mod unat_mod_distrib unat_of_nat)
  ultimately show ?thesis by (simp add: of_nat_diff)
qed

text \<open>The bytes in memory from \<open>b\<close> on.\<close>

definition bytes_at :: "memory \<Rightarrow> 64 word \<Rightarrow> nat \<Rightarrow> 8 word list" where
  "bytes_at mem b n = map (\<lambda>k. mem (b + of_nat k)) [0..<n]"

lemma continuations_bytes:
  "continuations mem i (i + n) = length (filter byteContinuesUtf8Char (bytes_at mem (of_nat i) n))"
proof -
  have "bytes_at mem (of_nat i) n = map (\<lambda>k. mem (of_nat k)) [i..<i + n]"
    unfolding bytes_at_def by (rule nth_equalityI) simp_all
  then show ?thesis by (simp add: continuations_def filter_map comp_def)
qed

lemma utf8length_counts_nat:
  assumes ij: "i \<le> j" "j < 2 ^ 64"
  shows "utf8length mem (of_nat i) (of_nat j) = Some (of_nat (j - i - continuations mem i j))"
proof -
  have diff: "(of_nat j :: 64 word) - of_nat i = of_nat (j - i)" by (rule of_nat_diff [OF ij(1), symmetric])
  have sub: "(of_nat j :: 64 word) - of_nat i - of_nat (continuations mem i j)
      = of_nat (j - i - continuations mem i j)"
    unfolding diff by (rule of_nat_diff [OF continuations_le, symmetric])
  have "j - i < 2 ^ 64" using ij(2) by (rule le_less_trans [OF diff_le_self])
  then have u: "unat (of_nat (j - i) :: 64 word) = j - i" by (simp add: unat_of_nat)
  then have len: "2 * 8 \<le> (of_nat j :: 64 word) - of_nat i \<longleftrightarrow> 16 \<le> j - i"
    unfolding diff by (simp add: word_le_nat_alt)
  show ?thesis
  proof (cases "16 \<le> j - i")
    case False
    then show ?thesis using byte_loop_counts [OF ij] len sub by (simp add: utf8length_def)
  next
    case True
    define u where "u = (i + 7) div 8 * 8"
    define d where "d = j - j mod 8"
    have u: "i \<le> u" "u < i + 8" "u mod 8 = 0" unfolding u_def by presburger+
    have d: "d \<le> j" "j < d + 8" "d mod 8 = 0" unfolding d_def by presburger+
    have ud: "u \<le> d" using True u d ij by linarith
    have "8 dvd d - u" using u d by (simp add: dvd_diff_nat mod_eq_0_iff_dvd)
    then have "block_loop mem (of_nat d) (of_nat u) (of_nat (continuations mem i u))
        = Some (of_nat d, of_nat (continuations mem i u) + of_nat (continuations mem u d))"
      using ud d ij by (intro block_loop_counts) simp_all
    moreover have "unaligned_loop mem (of_nat i) 0 = Some (of_nat u, of_nat (continuations mem i u))"
      using unaligned_loop_counts [of i u mem 0] u ud d ij by simp
    moreover have "byte_loop mem (of_nat j) (of_nat d) c = Some (c + of_nat (continuations mem d j))" for c
      using d ij by (intro byte_loop_counts) simp_all
    moreover have "continuations mem i j = continuations mem i u + continuations mem u d + continuations mem d j"
      using continuations_append [of i u j] continuations_append [of u d j] u ud d by simp
    moreover have "of_nat j AND NOT (8 - 1) = (of_nat d :: 64 word)" using align_down ij by (simp add: d_def)
    ultimately show ?thesis using True len sub by (simp add: utf8length_def add.assoc)
  qed
qed

text \<open>
  Property C17 (utf8length counts the leading bytes). For every alignment, \<open>utf8length\<close> returns,
  and returns the number of bytes that do not continue a code point.
\<close>

theorem utf8length_correct:
  assumes "b \<le> e"
  shows "utf8length mem b e =
    Some (of_nat (length (filter (\<lambda>x. \<not> byteContinuesUtf8Char x) (bytes_at mem b (unat (e - b))))))"
proof -
  have le: "unat b \<le> unat e" using assms by (simp add: word_le_nat_alt)
  have n: "unat (e - b) = unat e - unat b" using assms by (simp add: unat_sub)
  have "unat e < 2 ^ 64" using unsigned_less [of e] by simp
  then have "utf8length mem b e = Some (of_nat (unat e - unat b - continuations mem (unat b) (unat e)))"
    using utf8length_counts_nat [OF le, of mem] by simp
  moreover have "continuations mem (unat b) (unat e)
      = length (filter byteContinuesUtf8Char (bytes_at mem b (unat (e - b))))"
    using continuations_bytes [of mem "unat b" "unat (e - b)"] le by (simp add: n)
  moreover have "length (filter (\<lambda>x. \<not> P x) xs) = length xs - length (filter P xs)" for P and xs :: "8 word list"
    using sum_length_filter_compl [of P xs] by simp
  ultimately show ?thesis by (simp add: n bytes_at_def)
qed

lemma utf8length_correct_witness:
  "utf8length (\<lambda>a. if bit a 0 then 0xA9 else 0xC3) 3 25 = Some 11"
  using utf8length_correct [of 3 25 "\<lambda>a. if bit a 0 then 0xA9 else 0xC3"]
  by (simp add: bytes_at_def continues_bits upt_rec)

end
