(* ===== verification/Utf8_Fix.thy ===== *)
theory Utf8_Fix
  imports Utf8_Length
begin

text \<open>
  Cleaning UTF-8 text (\<open>sdl/Util/Utf8.hpp\<close>: \<open>FixUnicode\<close>, \<open>containsNonSpaceControlChars\<close>;
  \<open>Utf8.cpp\<close>). Decoding, encoding, validating and replacing are calls of the \<open>utf8\<close> library, which
  is a parameter (\<open>utf8_lib\<close>) with its documented behaviour as hypotheses.

  The output string is sized before it is written: the results are that the size is enough unless bad
  bytes are to be replaced, and that it is not then.
\<close>

unbundle bit_operations_syntax

type_synonym Unicode = "32 word"

section \<open>UTF-8\<close>

text \<open>The table of byte patterns in the head of \<open>Utf8.cpp\<close>, and the code points of Unicode.\<close>

definition continuation_byte :: "nat \<Rightarrow> Unicode \<Rightarrow> 8 word" where
  "continuation_byte n c = 0x80 OR (ucast (drop_bit n c) AND 0x3F)"

definition utf8_bytes :: "Unicode \<Rightarrow> 8 word list" where
  "utf8_bytes c =
     (if c < 0x80 then [ucast c]
      else if c < 0x800 then [0xC0 OR ucast (drop_bit 6 c), continuation_byte 0 c]
      else if c < 0x10000 then [0xE0 OR ucast (drop_bit 12 c), continuation_byte 6 c, continuation_byte 0 c]
      else [0xF0 OR ucast (drop_bit 18 c), continuation_byte 12 c, continuation_byte 6 c, continuation_byte 0 c])"

definition code_point :: "Unicode \<Rightarrow> bool" where
  "code_point c \<longleftrightarrow> c \<le> 0x10FFFF \<and> \<not> (0xD800 \<le> c \<and> c \<le> 0xDFFF)"

definition utf8_string :: "Unicode list \<Rightarrow> 8 word list" where
  "utf8_string cs = concat (map utf8_bytes cs)"

section \<open>Control characters\<close>

definition kUnicodeReplacementChar :: Unicode where
  "kUnicodeReplacementChar = 65533"

definition isReplacementChar :: "Unicode \<Rightarrow> bool" where
  "isReplacementChar ch \<longleftrightarrow> ch = kUnicodeReplacementChar"

definition kMinWindows1252Unicode :: Unicode where
  "kMinWindows1252Unicode = 0x0080"

definition kMaxWindows1252Unicode :: Unicode where
  "kMaxWindows1252Unicode = 0x009f"

definition gWindows1252ToUnicode :: "Unicode list" where
  "gWindows1252ToUnicode =
     [0x20ac, 0x0081, 0x201a, 0x0192, 0x201e, 0x2026, 0x2020, 0x2021, 0x02c6, 0x2030, 0x0160, 0x2039,
      0x0152, 0x008d, 0x017d, 0x008f, 0x0090, 0x2018, 0x2019, 0x201c, 0x201d, 0x2022, 0x2013, 0x2014,
      0x02dc, 0x2122, 0x0161, 0x203a, 0x0153, 0x009d, 0x017e, 0x0178]"

definition isControlInWindows1252Range :: "Unicode \<Rightarrow> bool" where
  "isControlInWindows1252Range c \<longleftrightarrow> kMinWindows1252Unicode \<le> c \<and> c \<le> kMaxWindows1252Unicode"

definition translateWindows1252 :: "Unicode \<Rightarrow> Unicode" where
  "translateWindows1252 c =
     (if isControlInWindows1252Range c then gWindows1252ToUnicode ! unat (c - kMinWindows1252Unicode) else 0)"

definition remapWindows1252 :: "Unicode \<Rightarrow> Unicode" where
  "remapWindows1252 c =
     (if isControlInWindows1252Range c then gWindows1252ToUnicode ! unat (c - kMinWindows1252Unicode) else c)"

definition isLowAsciiNonSpaceControl :: "Unicode \<Rightarrow> bool" where
  "isLowAsciiNonSpaceControl c \<longleftrightarrow> (c < 0x20 \<or> c = 0x7F) \<and> c \<noteq> 10 \<and> c \<noteq> 9"

definition isNonSpaceControl :: "Unicode \<Rightarrow> bool" where
  "isNonSpaceControl c \<longleftrightarrow> isLowAsciiNonSpaceControl c \<or> isControlInWindows1252Range c"

text \<open>The loop over the bytes, with the flag that the last byte was \<open>C2\<close>.\<close>

fun containsNonSpaceControlChars_from :: "bool \<Rightarrow> 8 word list \<Rightarrow> bool" where
  "containsNonSpaceControlChars_from c2 [] = False"
| "containsNonSpaceControlChars_from c2 (b # bs) =
     (let c = ucast b in
      if isLowAsciiNonSpaceControl c then True
      else if c = 0xC2 then containsNonSpaceControlChars_from True bs
      else if c2 \<and> isControlInWindows1252Range c then True
      else containsNonSpaceControlChars_from False bs)"

definition containsNonSpaceControlChars :: "8 word list \<Rightarrow> bool" where
  "containsNonSpaceControlChars bs = containsNonSpaceControlChars_from False bs"

section \<open>FixUnicode\<close>

datatype BadUtf8HandlerType = kUnsafe_Ignore | kRemove | kReplace

record FixUnicode =
  removeControlChars :: bool
  convertWindows1252 :: bool
  badUtf8Handler :: BadUtf8HandlerType

definition fix_defaults :: FixUnicode where
  "fix_defaults = \<lparr>removeControlChars = False, convertWindows1252 = True, badUtf8Handler = kRemove\<rparr>"

definition disableAllFixes :: FixUnicode where
  "disableAllFixes = \<lparr>removeControlChars = False, convertWindows1252 = False, badUtf8Handler = kUnsafe_Ignore\<rparr>"

definition enableAllFixes :: FixUnicode where
  "enableAllFixes = \<lparr>removeControlChars = True, convertWindows1252 = True, badUtf8Handler = kRemove\<rparr>"

definition initAssumingValidUtf8 :: "bool \<Rightarrow> FixUnicode" where
  "initAssumingValidUtf8 assumeValidUtf8 =
     fix_defaults\<lparr>badUtf8Handler := (if assumeValidUtf8 then kUnsafe_Ignore else kRemove)\<rparr>"

definition removesUnicodes :: "FixUnicode \<Rightarrow> bool" where
  "removesUnicodes f \<longleftrightarrow> removeControlChars f"

definition cleanupEnabled :: "FixUnicode \<Rightarrow> bool" where
  "cleanupEnabled f \<longleftrightarrow> badUtf8Handler f \<noteq> kUnsafe_Ignore \<or> removeControlChars f \<or> convertWindows1252 f"

definition modifiesControlChars :: "FixUnicode \<Rightarrow> bool" where
  "modifiesControlChars f \<longleftrightarrow> removeControlChars f \<or> convertWindows1252 f"

definition modifiesControlCharsOf :: "FixUnicode \<Rightarrow> 8 word list \<Rightarrow> bool" where
  "modifiesControlCharsOf f str \<longleftrightarrow> modifiesControlChars f \<and> containsNonSpaceControlChars str"

text \<open>\<open>operator()(Unicode& c)\<close>: \<open>None\<close> deletes the character.\<close>

definition fix_char :: "FixUnicode \<Rightarrow> Unicode \<Rightarrow> Unicode option" where
  "fix_char f c =
     (if badUtf8Handler f = kRemove \<and> c = kUnicodeReplacementChar then None
      else let c' = (if convertWindows1252 f then remapWindows1252 c else c)
           in if removeControlChars f \<and> isNonSpaceControl c' then None else Some c')"

definition unicodesTo :: "FixUnicode \<Rightarrow> Unicode list \<Rightarrow> Unicode list" where
  "unicodesTo f cs = List.map_filter (fix_char f) cs"

text \<open>
  The library: \<open>is_valid\<close>, \<open>replace_invalid\<close> with \<open>kUnicodeReplacementChar\<close>,
  \<open>unchecked::next\<close> from a lead byte and what follows it (the code point and how many bytes it takes
  after the lead byte), \<open>next\<close>, which throws on invalid bytes, and \<open>append\<close>, which throws on what is
  no code point.
\<close>

record utf8_lib =
  is_valid8 :: "8 word list \<Rightarrow> bool"
  replace_invalid8 :: "8 word list \<Rightarrow> 8 word list"
  next8 :: "8 word \<Rightarrow> 8 word list \<Rightarrow> Unicode \<times> nat"
  checked_next8 :: "8 word \<Rightarrow> 8 word list \<Rightarrow> (Unicode \<times> nat) option"
  append8 :: "Unicode \<Rightarrow> 8 word list option"

text \<open>\<open>fixedUtf8To\<close>, as the sequence of code points it puts out.\<close>

function fixedUtf8To :: "utf8_lib \<Rightarrow> FixUnicode \<Rightarrow> 8 word list \<Rightarrow> Unicode list" where
  "fixedUtf8To L f [] = []"
| "fixedUtf8To L f (b # bs) =
     (case next8 L b bs of (c, n) \<Rightarrow>
        if length bs < n then []
        else (case fix_char f c of None \<Rightarrow> [] | Some c' \<Rightarrow> [c']) @ fixedUtf8To L f (drop n bs))"
  by pat_completeness auto

termination by (relation "measure (\<lambda>(L, f, bs). length bs)") auto

definition utf8To :: "utf8_lib \<Rightarrow> FixUnicode \<Rightarrow> 8 word list \<Rightarrow> Unicode list" where
  "utf8To L f bs =
     (if badUtf8Handler f = kUnsafe_Ignore \<or> is_valid8 L bs then fixedUtf8To L f bs
      else fixedUtf8To L f (replace_invalid8 L bs))"

definition utf8To_valid :: "utf8_lib \<Rightarrow> FixUnicode \<Rightarrow> 8 word list \<Rightarrow> bool \<Rightarrow> Unicode list" where
  "utf8To_valid L f bs alreadyValidUtf8 =
     (if alreadyValidUtf8 then fixedUtf8To L f bs else fixedUtf8To L f (replace_invalid8 L bs))"

text \<open>
  Writing the code points through \<open>EncodeUtf8Iter\<close> into a string of a given size. The iterator does
  not know the end of the string: \<open>Overrun\<close> is a write past it.
\<close>

datatype written = Written "8 word list" | Overrun | BadCodePoint

fun encode_into :: "utf8_lib \<Rightarrow> nat \<Rightarrow> 8 word list \<Rightarrow> Unicode list \<Rightarrow> written" where
  "encode_into L size' out [] = Written out"
| "encode_into L size' out (c # cs) =
     (case append8 L c of
        None \<Rightarrow> BadCodePoint
      | Some bs \<Rightarrow> if size' < length out + length bs then Overrun else encode_into L size' (out @ bs) cs)"

definition sizeOutputImpl :: "FixUnicode \<Rightarrow> nat \<Rightarrow> nat" where
  "sizeOutputImpl f n = (1 + (if convertWindows1252 f then 1 else 0)) * n"

text \<open>\<open>normalize(in, out)\<close> and \<open>normalize(in, out, alreadyValidUtf8)\<close>.\<close>

definition normalize :: "utf8_lib \<Rightarrow> FixUnicode \<Rightarrow> 8 word list \<Rightarrow> written" where
  "normalize L f bs = encode_into L (sizeOutputImpl f (length bs)) [] (utf8To L f bs)"

definition normalize_valid :: "utf8_lib \<Rightarrow> FixUnicode \<Rightarrow> 8 word list \<Rightarrow> bool \<Rightarrow> written" where
  "normalize_valid L f bs alreadyValidUtf8 =
     encode_into L (sizeOutputImpl f (length bs)) [] (utf8To_valid L f bs alreadyValidUtf8)"

text \<open>\<open>maybeNormalize\<close>: \<open>None\<close> is the result \<open>false\<close>, which leaves the string as it is.\<close>

definition maybeNormalize :: "utf8_lib \<Rightarrow> FixUnicode \<Rightarrow> 8 word list \<Rightarrow> written option" where
  "maybeNormalize L f bs =
     (if cleanupEnabled f
      then let valid = badUtf8Handler f = kUnsafe_Ignore \<or> is_valid8 L bs in
           if valid \<and> \<not> modifiesControlCharsOf f bs then None
           else Some (normalize_valid L f bs valid)
      else None)"

text \<open>
  \<open>normalize(string, alreadyValidUtf8)\<close>: without conversion of a valid string the output is written
  into the bytes that were read, else into a string of its own.
\<close>

definition write_bytes :: "8 word list \<Rightarrow> nat \<Rightarrow> 8 word list \<Rightarrow> 8 word list" where
  "write_bytes buf n bs = take n buf @ bs @ drop (n + length bs) buf"

function normalize_loop :: "utf8_lib \<Rightarrow> FixUnicode \<Rightarrow> nat \<Rightarrow> 8 word list \<Rightarrow> nat \<Rightarrow> nat \<Rightarrow> written" where
  "normalize_loop L f e buf i n =
     (if e \<le> i then Written (take n buf)
      else case next8 L (buf ! i) (drop (Suc i) buf) of (c, k) \<Rightarrow>
        if e < Suc i + k then Written (take n buf)
        else (case fix_char f c of
            None \<Rightarrow> normalize_loop L f e buf (Suc i + k) n
          | Some c' \<Rightarrow> (case append8 L c' of
                None \<Rightarrow> BadCodePoint
              | Some bs \<Rightarrow> if e < n + length bs then Overrun
                  else normalize_loop L f e (write_bytes buf n bs) (Suc i + k) (n + length bs))))"
  by pat_completeness auto

termination by (relation "measure (\<lambda>(L, f, e, buf, i, n). e - i)") auto

declare normalize_loop.simps [simp del]

definition normalize_string :: "utf8_lib \<Rightarrow> FixUnicode \<Rightarrow> 8 word list \<Rightarrow> bool \<Rightarrow> written" where
  "normalize_string L f str alreadyValidUtf8 =
     (if alreadyValidUtf8 \<and> \<not> convertWindows1252 f then normalize_loop L f (length str) str 0 0
      else normalize_valid L f str alreadyValidUtf8)"

definition normalize_inout :: "utf8_lib \<Rightarrow> FixUnicode \<Rightarrow> 8 word list \<Rightarrow> written" where
  "normalize_inout L f str =
     (if cleanupEnabled f
      then let valid = badUtf8Handler f = kUnsafe_Ignore \<or> is_valid8 L str in
           if \<not> valid \<or> modifiesControlCharsOf f str then normalize_string L f str valid else Written str
      else Written str)"

section \<open>Converting strings\<close>

definition bytesForUtf :: "nat \<Rightarrow> nat" where
  "bytesForUtf nchar = 4 * nchar"

text \<open>\<open>toUtf8v\<close>, \<open>utf8s\<close>, \<open>FromUnicodes\<close>: size for the longest encoding, write, shrink.\<close>

definition toUtf8v :: "utf8_lib \<Rightarrow> Unicode list \<Rightarrow> written" where
  "toUtf8v L cs = encode_into L (bytesForUtf (length cs)) [] cs"

definition utf8s :: "utf8_lib \<Rightarrow> Unicode \<Rightarrow> written" where
  "utf8s L c = encode_into L (bytesForUtf 1) [] [c]"

definition appendToUtf8v :: "utf8_lib \<Rightarrow> Unicode list \<Rightarrow> 8 word list \<Rightarrow> written" where
  "appendToUtf8v L cs v = encode_into L (length v + bytesForUtf (length cs)) v cs"

text \<open>\<open>toUnicodes\<close>: decode with the checked \<open>next\<close>; \<open>None\<close> is its exception.\<close>

function toUnicodes :: "utf8_lib \<Rightarrow> 8 word list \<Rightarrow> Unicode list option" where
  "toUnicodes L [] = Some []"
| "toUnicodes L (b # bs) =
     (case checked_next8 L b bs of
        None \<Rightarrow> None
      | Some (c, n) \<Rightarrow> map_option ((#) c) (toUnicodes L (drop n bs)))"
  by pat_completeness auto

termination by (relation "measure (\<lambda>(L, bs). length bs)") auto

text \<open>\<open>lengthUtf8Chs\<close>: the counter is an \<open>unsigned\<close> of 32 bits.\<close>

function lengthUtf8Chs :: "utf8_lib \<Rightarrow> 8 word list \<Rightarrow> nat option" where
  "lengthUtf8Chs L [] = Some 0"
| "lengthUtf8Chs L (b # bs) =
     (case checked_next8 L b bs of
        None \<Rightarrow> None
      | Some (c, n) \<Rightarrow> map_option (\<lambda>len. (len + 1) mod 2 ^ 32) (lengthUtf8Chs L (drop n bs)))"
  by pat_completeness auto

termination by (relation "measure (\<lambda>(L, bs). length bs)") auto

text \<open>\<open>fixUtf8To\<close>, \<open>fixUtf8\<close>.\<close>

definition fixUtf8To :: "utf8_lib \<Rightarrow> 8 word list \<Rightarrow> 8 word list \<Rightarrow> 8 word list" where
  "fixUtf8To L str fixedStr = fixedStr @ replace_invalid8 L str"

definition fixUtf8 :: "utf8_lib \<Rightarrow> 8 word list \<Rightarrow> 8 word list" where
  "fixUtf8 L str = (if is_valid8 L str then str else fixUtf8To L str [])"

section \<open>What the library promises\<close>

text \<open>
  Replacing splits a string into code points, which are kept, and invalid pieces, each of which
  becomes the replacement character.
\<close>

inductive replaced :: "8 word list \<Rightarrow> Unicode list \<Rightarrow> bool" where
  replaced_Nil: "replaced [] []"
| replaced_keep: "code_point c \<Longrightarrow> replaced bs cs \<Longrightarrow> replaced (utf8_bytes c @ bs) (c # cs)"
| replaced_bad: "bad \<noteq> [] \<Longrightarrow> replaced bs cs \<Longrightarrow> replaced (bad @ bs) (kUnicodeReplacementChar # cs)"

definition utf8_lib_ok :: "utf8_lib \<Rightarrow> bool" where
  "utf8_lib_ok L \<longleftrightarrow>
     (\<forall>c. append8 L c = (if code_point c then Some (utf8_bytes c) else None)) \<and>
     (\<forall>c rest. code_point c \<longrightarrow>
        next8 L (hd (utf8_bytes c)) (tl (utf8_bytes c) @ rest) = (c, length (utf8_bytes c) - 1) \<and>
        checked_next8 L (hd (utf8_bytes c)) (tl (utf8_bytes c) @ rest) = Some (c, length (utf8_bytes c) - 1)) \<and>
     (\<forall>bs. is_valid8 L bs \<longleftrightarrow> (\<exists>cs. (\<forall>c\<in>set cs. code_point c) \<and> bs = utf8_string cs)) \<and>
     (\<forall>bs. \<exists>cs. replaced bs cs \<and> replace_invalid8 L bs = utf8_string cs)"

section \<open>The bytes as numbers\<close>

lemma or_is_add:
  fixes h x :: "'a::len word"
  assumes x: "unat x < 2 ^ k" and h: "2 ^ k dvd unat h"
  shows "unat (h OR x) = unat h + unat x"
proof -
  have "unat h AND unat x = 0"
  proof (rule bit_eqI)
    fix n
    have "\<not> bit (unat x) n" if "k \<le> n"
      using x that by (metis bit_take_bit_iff leD take_bit_nat_eq_self_iff)
    moreover have "\<not> bit (unat h) n" if "n < k"
    proof -
      have "take_bit k (unat h) = 0" using h by (simp add: take_bit_eq_0_iff)
      then show ?thesis using that bit_take_bit_iff [of k "unat h" n] by simp
    qed
    ultimately show "bit (unat h AND unat x) n = bit (0 :: nat) n" by (cases "n < k") (simp_all add: bit_and_iff)
  qed
  then have "unat h + unat x = unat h OR unat x" by (rule disjunctive_add_eq_or)
  then show ?thesis by (simp add: unsigned_or_eq)
qed

lemma unat_drop: "unat (drop_bit n (c :: 'a::len word)) = unat c div 2 ^ n"
  unfolding unat_drop_bit_eq by (rule drop_bit_eq_div)

lemma unat_drop8: "unat c div 2 ^ n < 256 \<Longrightarrow> unat (ucast (drop_bit n c) :: 8 word) = unat (c :: Unicode) div 2 ^ n"
  by (simp add: unsigned_ucast_eq unat_drop take_bit_eq_mod)

lemma unat_continuation: "unat (continuation_byte n c) = 128 + (unat c div 2 ^ n) mod 64"
proof -
  have 3: "(x :: 8 word) AND 0x3F = take_bit 6 x" for x
    by (simp add: take_bit_eq_mask mask_eq_exp_minus_1)
  have x: "unat (ucast (drop_bit n c) AND 0x3F :: 8 word) = (unat c div 2 ^ n) mod 64"
    unfolding 3 by (simp add: unsigned_take_bit_eq unsigned_ucast_eq unat_drop take_bit_take_bit)
        (simp add: take_bit_eq_mod)
  show ?thesis unfolding continuation_byte_def
    using or_is_add [of "ucast (drop_bit n c) AND 0x3F" 6 "0x80 :: 8 word"] x by simp
qed

lemma unat_lead:
  assumes "unat c div 2 ^ n < 2 ^ k" and "2 ^ k dvd unat h" and "k \<le> 8"
  shows "unat ((h :: 8 word) OR ucast (drop_bit n (c :: Unicode))) = unat h + unat c div 2 ^ n"
proof -
  have "(2 :: nat) ^ k \<le> 2 ^ 8" using assms(3) by (rule power_increasing) simp
  then have "unat c div 2 ^ n < 256" using assms(1) by simp
  then have "unat (ucast (drop_bit n c) :: 8 word) = unat c div 2 ^ n" by (rule unat_drop8)
  then show ?thesis using or_is_add [of "ucast (drop_bit n c)" k h] assms by simp
qed

definition unit8 :: "Unicode \<Rightarrow> nat list" where
  "unit8 c =
     (let m = unat c; low = (\<lambda>n. 128 + (m div 2 ^ n) mod 64) in
      if m < 128 then [m]
      else if m < 2048 then [192 + m div 64, low 0]
      else if m < 65536 then [224 + m div 4096, low 6, low 0]
      else [240 + m div 262144, low 12, low 6, low 0])"

lemma utf8_bytes_nat: "c \<le> 0x1FFFFF \<Longrightarrow> map unat (utf8_bytes c) = unit8 c"
proof -
  assume c: "c \<le> 0x1FFFFF"
  then have m: "unat c \<le> 2097151" by (simp add: word_le_nat_alt)
  have b1: "c < 0x80 \<longleftrightarrow> unat c < 128" "c < 0x800 \<longleftrightarrow> unat c < 2048" "c < 0x10000 \<longleftrightarrow> unat c < 65536"
    by (simp_all add: word_less_nat_alt)
  consider "unat c < 128" | "128 \<le> unat c" "unat c < 2048" | "2048 \<le> unat c" "unat c < 65536" | "65536 \<le> unat c"
    by linarith
  then show ?thesis
  proof cases
    case 1
    then show ?thesis using unat_drop8 [of c 0] by (simp add: utf8_bytes_def unit8_def Let_def b1)
  next
    case 2
    then have "unat ((0xC0 :: 8 word) OR ucast (drop_bit 6 c)) = 192 + unat c div 2 ^ 6"
      using unat_lead [of c 6 5 "0xC0"] by simp
    then show ?thesis using 2 by (simp add: utf8_bytes_def unit8_def Let_def b1 unat_continuation)
  next
    case 3
    then have "unat ((0xE0 :: 8 word) OR ucast (drop_bit 12 c)) = 224 + unat c div 2 ^ 12"
      using unat_lead [of c 12 4 "0xE0"] by simp
    then show ?thesis using 3 by (simp add: utf8_bytes_def unit8_def Let_def b1 unat_continuation)
  next
    case 4
    then have "unat ((0xF0 :: 8 word) OR ucast (drop_bit 18 c)) = 240 + unat c div 2 ^ 18"
      using unat_lead [of c 18 3 "0xF0"] m by simp
    then show ?thesis using 4 by (simp add: utf8_bytes_def unit8_def Let_def b1 unat_continuation)
  qed
qed

lemma code_point_small: "code_point c \<Longrightarrow> c \<le> 0x1FFFFF"
  by (auto simp: code_point_def word_le_nat_alt)

text \<open>The cases of an encoded code point, with the bytes as numbers.\<close>

lemma utf8_bytes_cases [consumes 1, case_names One Two Three Four]:
  assumes "code_point c"
  obtains b where "utf8_bytes c = [b]" "unat b = unat c" "unat c < 128"
  | b0 b1 where "utf8_bytes c = [b0, b1]" "unat b0 = 192 + unat c div 64" "unat b1 = 128 + unat c mod 64"
      "128 \<le> unat c" "unat c < 2048"
  | b0 b1 b2 where "utf8_bytes c = [b0, b1, b2]" "unat b0 = 224 + unat c div 4096"
      "unat b1 = 128 + unat c div 64 mod 64" "unat b2 = 128 + unat c mod 64" "2048 \<le> unat c" "unat c < 65536"
  | b0 b1 b2 b3 where "utf8_bytes c = [b0, b1, b2, b3]" "unat b0 = 240 + unat c div 262144"
      "unat b1 = 128 + unat c div 4096 mod 64" "unat b2 = 128 + unat c div 64 mod 64"
      "unat b3 = 128 + unat c mod 64" "65536 \<le> unat c" "unat c < 1114112"
proof -
  have n: "map unat (utf8_bytes c) = unit8 c" using utf8_bytes_nat code_point_small assms by blast
  have u: "unat c < 1114112" using assms by (simp add: code_point_def word_le_nat_alt)
  consider "unat c < 128" | "128 \<le> unat c" "unat c < 2048" | "2048 \<le> unat c" "unat c < 65536" | "65536 \<le> unat c"
    by linarith
  then show ?thesis
    by cases (use n u that in \<open>auto simp: unit8_def Let_def map_eq_Cons_conv\<close>)
qed

section \<open>Finding control characters\<close>

lemma control_nat:
  "isLowAsciiNonSpaceControl c \<longleftrightarrow> (unat c < 32 \<or> unat c = 127) \<and> unat c \<noteq> 10 \<and> unat c \<noteq> 9"
  "isControlInWindows1252Range c \<longleftrightarrow> 128 \<le> unat c \<and> unat c \<le> 159"
  by (simp_all add: isLowAsciiNonSpaceControl_def isControlInWindows1252Range_def kMinWindows1252Unicode_def
      kMaxWindows1252Unicode_def word_less_nat_alt word_le_nat_alt word_unat_eq_iff)

lemma ucast_nat: "unat (ucast (b :: 8 word) :: Unicode) = unat b"
  by (simp add: unsigned_ucast_eq take_bit_nat_eq_self_iff less_trans [OF unsigned_less])

lemma contains_from_Cons:
  "containsNonSpaceControlChars_from c2 (b # bs) =
     (((unat b < 32 \<or> unat b = 127) \<and> unat b \<noteq> 10 \<and> unat b \<noteq> 9) \<or>
      (if unat b = 194 then containsNonSpaceControlChars_from True bs
       else c2 \<and> 128 \<le> unat b \<and> unat b \<le> 159 \<or> containsNonSpaceControlChars_from False bs))"
proof -
  have "(ucast b :: Unicode) = 0xC2 \<longleftrightarrow> unat b = 194" by (simp add: word_unat_eq_iff ucast_nat)
  then show ?thesis by (auto simp: Let_def control_nat ucast_nat)
qed

declare containsNonSpaceControlChars_from.simps(2) [simp del]

lemma contains_from_high:
  "160 \<le> unat b \<Longrightarrow> unat b \<noteq> 194 \<Longrightarrow> containsNonSpaceControlChars_from c2 (b # bs) = containsNonSpaceControlChars_from False bs"
  by (auto simp: contains_from_Cons)

lemma contains_from_continuation:
  "128 \<le> unat b \<Longrightarrow> unat b < 192 \<Longrightarrow> containsNonSpaceControlChars_from False (b # bs) = containsNonSpaceControlChars_from False bs"
  by (auto simp: contains_from_Cons)

lemma contains_from_char:
  assumes "code_point c"
  shows "containsNonSpaceControlChars_from False (utf8_bytes c @ rest)
    \<longleftrightarrow> isNonSpaceControl c \<or> containsNonSpaceControlChars_from False rest"
  using assms
proof (cases rule: utf8_bytes_cases)
  case (One b)
  then show ?thesis unfolding One(1) append_Cons append_Nil contains_from_Cons isNonSpaceControl_def control_nat by simp
next
  case (Two b0 b1)
  show ?thesis
  proof (cases "unat c < 192")
    case True
    have d: "unat c div 64 = 2" using True Two(4) by (intro div_nat_eqI) simp_all
    have m: "128 + unat c mod 64 = unat c" using div_mult_mod_eq [of "unat c" 64] unfolding d by simp
    have "unat b0 = 194" "unat b1 = unat c" using Two(2,3) d m by simp_all
    then show ?thesis using Two(4) True
      unfolding Two(1) append_Cons append_Nil contains_from_Cons isNonSpaceControl_def control_nat by simp
  next
    case False
    have "192 div 64 \<le> unat c div 64" using False by (intro div_le_mono) simp
    then have "160 \<le> unat b0" "unat b0 \<noteq> 194" "128 \<le> unat b1" "unat b1 < 192" using Two(2,3) by simp_all
    then show ?thesis using False
      unfolding Two(1) append_Cons append_Nil isNonSpaceControl_def control_nat
      by (simp add: contains_from_high contains_from_continuation)
  qed
next
  case (Three b0 b1 b2)
  then have "160 \<le> unat b0" "unat b0 \<noteq> 194" "128 \<le> unat b1" "unat b1 < 192" "128 \<le> unat b2" "unat b2 < 192"
    by simp_all
  then show ?thesis using Three(5)
    unfolding Three(1) append_Cons append_Nil isNonSpaceControl_def control_nat
    by (simp add: contains_from_high contains_from_continuation)
next
  case (Four b0 b1 b2 b3)
  then have "160 \<le> unat b0" "unat b0 \<noteq> 194" "128 \<le> unat b1" "unat b1 < 192" "128 \<le> unat b2" "unat b2 < 192"
      "128 \<le> unat b3" "unat b3 < 192"
    by simp_all
  then show ?thesis using Four(6)
    unfolding Four(1) append_Cons append_Nil isNonSpaceControl_def control_nat
    by (simp add: contains_from_high contains_from_continuation)
qed

lemma contains_string:
  "\<forall>c\<in>set cs. code_point c \<Longrightarrow> containsNonSpaceControlChars (utf8_string cs) \<longleftrightarrow> (\<exists>c\<in>set cs. isNonSpaceControl c)"
  unfolding containsNonSpaceControlChars_def
  by (induction cs) (simp_all add: utf8_string_def contains_from_char)

section \<open>Sizes\<close>

lemma code_point_replacement [simp]: "code_point kUnicodeReplacementChar"
  by (simp add: code_point_def kUnicodeReplacementChar_def)

lemma utf8_bytes_nonempty: "code_point c \<Longrightarrow> utf8_bytes c = hd (utf8_bytes c) # tl (utf8_bytes c)"
  by (erule utf8_bytes_cases) simp_all

lemma length_utf8_bytes:
  "length (utf8_bytes c) = (if unat c < 128 then 1 else if unat c < 2048 then 2 else if unat c < 65536 then 3 else 4)"
  by (simp add: utf8_bytes_def word_less_nat_alt)

lemma length_utf8_bytes_le: "length (utf8_bytes c) \<le> 4"
  by (simp add: length_utf8_bytes)

lemma utf8_string_Nil [simp]: "utf8_string [] = []"
  by (simp add: utf8_string_def)

lemma utf8_string_Cons [simp]: "utf8_string (c # cs) = utf8_bytes c @ utf8_string cs"
  by (simp add: utf8_string_def)

lemma utf8_string_append [simp]: "utf8_string (cs @ ds) = utf8_string cs @ utf8_string ds"
  by (simp add: utf8_string_def)

lemma unicodesTo_Nil [simp]: "unicodesTo f [] = []"
  by (simp add: unicodesTo_def map_filter_simps)

lemma unicodesTo_Cons:
  "unicodesTo f (c # cs) = (case fix_char f c of None \<Rightarrow> [] | Some c' \<Rightarrow> [c']) @ unicodesTo f cs"
  by (simp add: unicodesTo_def map_filter_simps split: option.splits)

lemma length_utf8_string_le: "length (utf8_string cs) \<le> bytesForUtf (length cs)"
proof (induction cs)
  case (Cons c cs)
  then show ?case using length_utf8_bytes_le [of c] by (simp add: bytesForUtf_def)
qed (simp add: bytesForUtf_def)

text \<open>Every entry of the table needs at most three bytes.\<close>

lemma table_entries: "\<forall>c\<in>set gWindows1252ToUnicode. code_point c \<and> unat c < 65536"
  by (simp add: gWindows1252ToUnicode_def code_point_def)

lemma remap_entry: "isControlInWindows1252Range c \<Longrightarrow> remapWindows1252 c \<in> set gWindows1252ToUnicode"
proof -
  assume c: "isControlInWindows1252Range c"
  then have "128 \<le> unat c" "unat c \<le> 159" by (simp_all add: control_nat)
  then have "unat (c - 0x80) < 32" by (simp add: unat_sub word_le_nat_alt)
  then have "unat (c - 0x80) < length gWindows1252ToUnicode" by (simp add: gWindows1252ToUnicode_def)
  then show ?thesis using c unfolding remapWindows1252_def kMinWindows1252Unicode_def by (simp only: if_True nth_mem)
qed

lemma fix_char_code_point: "fix_char f c = Some d \<Longrightarrow> code_point c \<Longrightarrow> code_point d"
  using remap_entry table_entries
  by (auto simp: fix_char_def Let_def remapWindows1252_def split: if_splits)

lemma fix_char_length:
  assumes "fix_char f c = Some d"
  shows "length (utf8_bytes d) \<le> sizeOutputImpl f (length (utf8_bytes c))"
proof (cases "convertWindows1252 f \<and> isControlInWindows1252Range c")
  case True
  then have d: "d = remapWindows1252 c" using assms by (auto simp: fix_char_def Let_def split: if_splits)
  then have "unat d < 65536" using True remap_entry table_entries by blast
  then have "length (utf8_bytes d) \<le> 3" by (simp add: length_utf8_bytes)
  moreover have "length (utf8_bytes c) = 2" using True by (simp add: length_utf8_bytes control_nat)
  ultimately show ?thesis using True by (simp add: sizeOutputImpl_def)
next
  case False
  then have "d = c" using assms by (auto simp: fix_char_def Let_def remapWindows1252_def split: if_splits)
  then show ?thesis by (simp add: sizeOutputImpl_def)
qed

lemma sizeOutput_add: "sizeOutputImpl f (m + n) = sizeOutputImpl f m + sizeOutputImpl f n"
  by (simp add: sizeOutputImpl_def add_mult_distrib2)

lemma unicodesTo_fits: "length (utf8_string (unicodesTo f cs)) \<le> sizeOutputImpl f (length (utf8_string cs))"
proof (induction cs)
  case (Cons c cs)
  then show ?case using fix_char_length [of f c] by (auto simp: unicodesTo_Cons sizeOutput_add split: option.splits)
qed simp

lemma unicodesTo_code_points: "\<forall>c\<in>set cs. code_point c \<Longrightarrow> \<forall>c\<in>set (unicodesTo f cs). code_point c"
  by (induction cs) (auto simp: unicodesTo_Cons fix_char_code_point split: option.splits)

section \<open>Decoding and encoding\<close>

lemma lib_append: "utf8_lib_ok L \<Longrightarrow> append8 L c = (if code_point c then Some (utf8_bytes c) else None)"
  by (simp add: utf8_lib_ok_def)

lemma lib_next:
  assumes "utf8_lib_ok L" and "code_point c"
  obtains b bs where "utf8_bytes c = b # bs" "\<forall>rest. next8 L b (bs @ rest) = (c, length bs)"
    "\<forall>rest. checked_next8 L b (bs @ rest) = Some (c, length bs)"
proof -
  have ne: "utf8_bytes c = hd (utf8_bytes c) # tl (utf8_bytes c)" by (rule utf8_bytes_nonempty [OF assms(2)])
  show thesis
  proof (rule that [OF ne])
    show "\<forall>rest. next8 L (hd (utf8_bytes c)) (tl (utf8_bytes c) @ rest) = (c, length (tl (utf8_bytes c)))"
      using assms unfolding utf8_lib_ok_def by simp
    show "\<forall>rest. checked_next8 L (hd (utf8_bytes c)) (tl (utf8_bytes c) @ rest) = Some (c, length (tl (utf8_bytes c)))"
      using assms unfolding utf8_lib_ok_def by simp
  qed
qed

lemma encode_into_fits:
  "utf8_lib_ok L \<Longrightarrow> \<forall>c\<in>set cs. code_point c \<Longrightarrow> length out + length (utf8_string cs) \<le> n \<Longrightarrow>
   encode_into L n out cs = Written (out @ utf8_string cs)"
  by (induction cs arbitrary: out) (simp_all add: lib_append)

lemma fixedUtf8To_string:
  "utf8_lib_ok L \<Longrightarrow> \<forall>c\<in>set cs. code_point c \<Longrightarrow> fixedUtf8To L f (utf8_string cs) = unicodesTo f cs"
proof (induction cs)
  case (Cons c cs)
  then have "utf8_lib_ok L" "code_point c" by simp_all
  then obtain b bs where u: "utf8_bytes c = b # bs" "\<forall>rest. next8 L b (bs @ rest) = (c, length bs)"
      "\<forall>rest. checked_next8 L b (bs @ rest) = Some (c, length bs)"
    by (rule lib_next)
  then show ?case using Cons u by (simp add: unicodesTo_Cons)
qed simp

lemma toUnicodes_string:
  "utf8_lib_ok L \<Longrightarrow> \<forall>c\<in>set cs. code_point c \<Longrightarrow> toUnicodes L (utf8_string cs) = Some cs"
proof (induction cs)
  case (Cons c cs)
  then have "utf8_lib_ok L" "code_point c" by simp_all
  then obtain b bs where u: "utf8_bytes c = b # bs" "\<forall>rest. next8 L b (bs @ rest) = (c, length bs)"
      "\<forall>rest. checked_next8 L b (bs @ rest) = Some (c, length bs)"
    by (rule lib_next)
  then show ?case using Cons u by simp
qed simp

lemma lengthUtf8Chs_string:
  "utf8_lib_ok L \<Longrightarrow> \<forall>c\<in>set cs. code_point c \<Longrightarrow> lengthUtf8Chs L (utf8_string cs) = Some (length cs mod 2 ^ 32)"
proof (induction cs)
  case (Cons c cs)
  then have "utf8_lib_ok L" "code_point c" by simp_all
  then obtain b bs where u: "utf8_bytes c = b # bs" "\<forall>rest. next8 L b (bs @ rest) = (c, length bs)"
      "\<forall>rest. checked_next8 L b (bs @ rest) = Some (c, length bs)"
    by (rule lib_next)
  then show ?case using Cons u by (simp add: mod_Suc_eq)
qed simp

lemma normalize_written:
  assumes "utf8_lib_ok L" and "\<forall>c\<in>set cs. code_point c"
    and "length (utf8_string (unicodesTo f cs)) \<le> sizeOutputImpl f n"
  shows "encode_into L (sizeOutputImpl f n) [] (unicodesTo f cs) = Written (utf8_string (unicodesTo f cs))"
  using encode_into_fits [OF assms(1) unicodesTo_code_points [OF assms(2)], of "[]" f "sizeOutputImpl f n"] assms(3)
  by simp

lemma normalize_valid_string:
  assumes "utf8_lib_ok L" and "\<forall>c\<in>set cs. code_point c"
  shows "normalize_valid L f (utf8_string cs) True = Written (utf8_string (unicodesTo f cs))"
  unfolding normalize_valid_def utf8To_valid_def
  using normalize_written [OF assms unicodesTo_fits] by (simp add: fixedUtf8To_string assms)

lemma replaced_code_points: "replaced bs cs \<Longrightarrow> \<forall>c\<in>set cs. code_point c"
  by (induction rule: replaced.induct) simp_all

text \<open>When replacement characters are removed, what is left comes from the string itself.\<close>

lemma replaced_fits:
  "replaced bs cs \<Longrightarrow> badUtf8Handler f = kRemove \<Longrightarrow>
   length (utf8_string (unicodesTo f cs)) \<le> sizeOutputImpl f (length bs)"
proof (induction rule: replaced.induct)
  case (replaced_keep c bs cs)
  then show ?case using fix_char_length [of f c] by (auto simp: unicodesTo_Cons sizeOutput_add split: option.splits)
next
  case (replaced_bad bad bs cs)
  then show ?case by (simp add: unicodesTo_Cons fix_char_def sizeOutput_add)
qed simp

lemma normalize_removing:
  assumes "utf8_lib_ok L" and "badUtf8Handler f = kRemove"
  obtains cs where "replaced bs cs" "normalize_valid L f bs False = Written (utf8_string (unicodesTo f cs))"
proof -
  obtain cs where r: "replaced bs cs" "replace_invalid8 L bs = utf8_string cs"
    using assms(1) unfolding utf8_lib_ok_def by blast
  have "normalize_valid L f bs False = Written (utf8_string (unicodesTo f cs))"
    unfolding normalize_valid_def utf8To_valid_def
    using normalize_written [OF assms(1) replaced_code_points [OF r(1)] replaced_fits [OF r(1) assms(2)]]
    by (simp add: r(2) fixedUtf8To_string assms(1) replaced_code_points [OF r(1)])
  with r(1) show thesis by (rule that)
qed

lemma replaced_empty: "replaced [] cs \<Longrightarrow> cs = []"
  by (erule replaced.cases) (auto dest: utf8_bytes_nonempty)

lemma replaced_FF: "replaced bs cs \<Longrightarrow> bs = [0xFF] \<Longrightarrow> cs = [kUnicodeReplacementChar]"
proof (induction rule: replaced.induct)
  case (replaced_keep c bs cs)
  from replaced_keep.hyps(1) have "hd (utf8_bytes c) \<noteq> 0xFF"
  proof (cases rule: utf8_bytes_cases)
    case (One b)
    then show ?thesis by (auto simp: word_unat_eq_iff)
  next
    case (Two b0 b1)
    then have "unat c div 64 < 2048 div 64" by simp
    then show ?thesis using Two by (auto simp: word_unat_eq_iff)
  next
    case (Three b0 b1 b2)
    then have "unat c div 4096 < 65536 div 4096" by simp
    then show ?thesis using Three by (auto simp: word_unat_eq_iff)
  next
    case (Four b0 b1 b2 b3)
    then have "unat c div 262144 \<le> 1114112 div 262144" by (intro div_le_mono) simp
    then show ?thesis using Four by (auto simp: word_unat_eq_iff)
  qed
  then show ?case using replaced_keep.prems utf8_bytes_nonempty [OF replaced_keep.hyps(1)]
    by (metis append_Cons list.sel(1))
next
  case (replaced_bad bad bs cs)
  then have "replaced [] cs" by (cases bad) auto
  then have "cs = []" by (rule replaced_empty)
  then show ?case by simp
qed simp

section \<open>In place\<close>

lemma drop_write_bytes:
  "n + length w \<le> k \<Longrightarrow> n \<le> length buf \<Longrightarrow> drop k (write_bytes buf n w) = drop k buf"
  by (simp add: write_bytes_def)

lemma fix_char_same: "fix_char f c = Some d \<Longrightarrow> \<not> convertWindows1252 f \<Longrightarrow> d = c"
  by (simp add: fix_char_def Let_def split: if_splits)

lemma normalize_loop_string:
  assumes L: "utf8_lib_ok L" and conv: "\<not> convertWindows1252 f"
  shows "\<forall>c\<in>set cs. code_point c \<Longrightarrow> length buf = e \<Longrightarrow> n \<le> i \<Longrightarrow> i \<le> e \<Longrightarrow> drop i buf = utf8_string cs \<Longrightarrow>
    normalize_loop L f e buf i n = Written (take n buf @ utf8_string (unicodesTo f cs))"
proof (induction cs arbitrary: buf i n)
  case Nil
  then show ?case by (simp add: normalize_loop.simps)
next
  case (Cons c cs)
  then have cp: "code_point c" by simp
  obtain b bs where u: "utf8_bytes c = b # bs" "\<forall>rest. next8 L b (bs @ rest) = (c, length bs)"
      "\<forall>rest. checked_next8 L b (bs @ rest) = Some (c, length bs)"
    by (rule lib_next [OF L cp])
  have d: "drop i buf = b # bs @ utf8_string cs" using Cons.prems u(1) by simp
  have il: "i < length buf" using d by (cases "i < length buf") simp_all
  have "buf ! i # drop (Suc i) buf = b # bs @ utf8_string cs"
    unfolding Cons_nth_drop_Suc [OF il] by (rule d)
  then have bi: "buf ! i = b" and rest: "drop (Suc i) buf = bs @ utf8_string cs" by simp_all
  have len: "length buf - i = Suc (length bs + length (utf8_string cs))"
    using arg_cong [OF d, of length] by simp
  have ek: "Suc i + length bs \<le> length buf" using len il by linarith
  have nx: "drop (Suc i + length bs) buf = utf8_string cs"
    using rest by (metis add.commute append_eq_conv_conj drop_drop)
  have e: "e = length buf" and ni: "n \<le> i" using Cons.prems by simp_all
  show ?case
  proof (cases "fix_char f c")
    case None
    have "normalize_loop L f e buf (Suc i + length bs) n = Written (take n buf @ utf8_string (unicodesTo f cs))"
      using Cons.prems len nx by (intro Cons.IH) simp_all
    then show ?thesis using None il ek bi rest u(2) e
      by (subst normalize_loop.simps) (simp add: unicodesTo_Cons)
  next
    case (Some d)
    then have dc: "d = c" using fix_char_same conv by blast
    let ?buf = "write_bytes buf n (b # bs)"
    have l: "length ?buf = e" using len ni e by (simp add: write_bytes_def)
    have "drop (Suc i + length bs) ?buf = utf8_string cs"
      using nx ni ek by (subst drop_write_bytes) simp_all
    then have "normalize_loop L f e ?buf (Suc i + length bs) (n + Suc (length bs))
        = Written (take (n + Suc (length bs)) ?buf @ utf8_string (unicodesTo f cs))"
      using Cons.prems len l by (intro Cons.IH) simp_all
    moreover have "take (n + Suc (length bs)) ?buf = take n buf @ b # bs"
      using ni il by (simp add: write_bytes_def)
    moreover have "n + Suc (length bs) \<le> e" using ni len e by simp
    ultimately show ?thesis using Some il ek bi rest u cp e dc L
      by (subst normalize_loop.simps) (simp add: unicodesTo_Cons lib_append)
  qed
qed

section \<open>A library that keeps the promises\<close>

definition std_next :: "8 word \<Rightarrow> 8 word list \<Rightarrow> Unicode \<times> nat" where
  "std_next b bs =
     (let m = unat b; at = (\<lambda>i. if i < length bs then unat (bs ! i) - 128 else 0) in
      if m < 128 then (ucast b, 0)
      else if m < 224 then (of_nat ((m - 192) * 64 + at 0), 1)
      else if m < 240 then (of_nat ((m - 224) * 4096 + at 0 * 64 + at 1), 2)
      else (of_nat ((m - 240) * 262144 + at 0 * 4096 + at 1 * 64 + at 2), 3))"

definition std_checked :: "8 word \<Rightarrow> 8 word list \<Rightarrow> (Unicode \<times> nat) option" where
  "std_checked b bs =
     (let (c, n) = std_next b bs
      in if code_point c \<and> take (Suc n) (b # bs) = utf8_bytes c then Some (c, n) else None)"

function std_valid :: "8 word list \<Rightarrow> bool" where
  "std_valid [] = True"
| "std_valid (b # bs) = (case std_checked b bs of None \<Rightarrow> False | Some (c, n) \<Rightarrow> std_valid (drop n bs))"
  by pat_completeness auto

termination by (relation "measure length") auto

definition std_lib :: utf8_lib where
  "std_lib =
     \<lparr>is_valid8 = std_valid,
      replace_invalid8 = (\<lambda>bs. utf8_string (replicate (length bs) kUnicodeReplacementChar)),
      next8 = std_next, checked_next8 = std_checked,
      append8 = (\<lambda>c. if code_point c then Some (utf8_bytes c) else None)\<rparr>"

lemma split_64: "(m :: nat) = m div 4096 * 4096 + m div 64 mod 64 * 64 + m mod 64"
  and split_64_64: "m = m div 262144 * 262144 + m div 4096 mod 64 * 4096 + m div 64 mod 64 * 64 + m mod 64"
proof -
  have 1: "m = m div 64 * 64 + m mod 64" by (rule div_mult_mod_eq [symmetric])
  have 2: "m div 64 = m div 4096 * 64 + m div 64 mod 64"
    using div_mult_mod_eq [of "m div 64" 64] by (simp add: div_mult2_eq [symmetric])
  have 3: "m div 4096 = m div 262144 * 64 + m div 4096 mod 64"
    using div_mult_mod_eq [of "m div 4096" 64] by (simp add: div_mult2_eq [symmetric])
  show a: "m = m div 4096 * 4096 + m div 64 mod 64 * 64 + m mod 64" using 1 2 by linarith
  show "m = m div 262144 * 262144 + m div 4096 mod 64 * 4096 + m div 64 mod 64 * 64 + m mod 64"
    using a 3 by linarith
qed

lemma of_nat_code: "of_nat n = (c :: Unicode)" if "n = unat c"
  using that by simp

lemma std_next_code:
  assumes "code_point c"
  shows "std_next (hd (utf8_bytes c)) (tl (utf8_bytes c) @ rest) = (c, length (utf8_bytes c) - 1)"
  using assms
proof (cases rule: utf8_bytes_cases)
  case (One b)
  have "unat (ucast b :: Unicode) = unat c" using One by (simp add: ucast_nat)
  then have "(ucast b :: Unicode) = c" by (simp only: word_unat_eq_iff)
  then show ?thesis using One by (simp add: std_next_def)
next
  case (Two b0 b1)
  then have "unat c div 64 < 32" by (simp add: div_less_iff_less_mult)
  then show ?thesis using Two div_mult_mod_eq [of "unat c" 64]
    by (simp add: std_next_def Let_def of_nat_code)
next
  case (Three b0 b1 b2)
  then have "unat c div 4096 < 16" by (simp add: div_less_iff_less_mult)
  then show ?thesis using Three split_64 [of "unat c"]
    by (simp add: std_next_def Let_def of_nat_code)
next
  case (Four b0 b1 b2 b3)
  then show ?thesis using split_64_64 [of "unat c"]
    by (simp add: std_next_def Let_def of_nat_code numeral_2_eq_2)
qed

lemma std_checked_code:
  assumes "code_point c"
  shows "std_checked (hd (utf8_bytes c)) (tl (utf8_bytes c) @ rest) = Some (c, length (utf8_bytes c) - 1)"
proof -
  have "take (Suc (length (utf8_bytes c) - 1)) (hd (utf8_bytes c) # tl (utf8_bytes c) @ rest) = utf8_bytes c"
    using utf8_bytes_nonempty [OF assms] by (metis Suc_pred' append_Cons append_eq_conv_conj length_greater_0_conv list.distinct(1))
  then show ?thesis using assms by (simp add: std_checked_def std_next_code)
qed

lemma std_valid_string: "\<forall>c\<in>set cs. code_point c \<Longrightarrow> std_valid (utf8_string cs)"
proof (induction cs)
  case (Cons c cs)
  then have c: "code_point c" by simp
  then show ?case using Cons std_checked_code [OF c, of "utf8_string cs"]
    by (subst utf8_string_Cons, subst utf8_bytes_nonempty [OF c]) simp
qed simp

lemma std_valid_sound: "std_valid bs \<Longrightarrow> \<exists>cs. (\<forall>c\<in>set cs. code_point c) \<and> bs = utf8_string cs"
proof (induction bs rule: std_valid.induct)
  case (2 b bs)
  then obtain c n where s: "std_checked b bs = Some (c, n)" "std_valid (drop n bs)"
    by (auto split: option.splits)
  then obtain cs where cs: "\<forall>c\<in>set cs. code_point c" "drop n bs = utf8_string cs"
    using "2.IH" [OF s(1) refl] by blast
  have "code_point c" "take (Suc n) (b # bs) = utf8_bytes c"
    using s(1) by (auto simp: std_checked_def split: if_splits prod.splits)
  moreover have "b # bs = take (Suc n) (b # bs) @ drop n bs" by simp
  ultimately have "b # bs = utf8_string (c # cs)" using cs by simp
  then show ?case using cs \<open>code_point c\<close> by (metis set_ConsD)
qed (rule exI [of _ "[]"], simp)

lemma replaced_all: "replaced bs (replicate (length bs) kUnicodeReplacementChar)"
proof (induction bs)
  case (Cons b bs)
  then show ?case using replaced_bad [of "[b]" bs] by simp
qed (simp add: replaced_Nil)

lemma std_lib_ok: "utf8_lib_ok std_lib"
  unfolding utf8_lib_ok_def
proof (intro conjI allI impI)
  fix bs
  show "is_valid8 std_lib bs \<longleftrightarrow> (\<exists>cs. (\<forall>c\<in>set cs. code_point c) \<and> bs = utf8_string cs)"
    using std_valid_string std_valid_sound [of bs] by (auto simp: std_lib_def)
  show "\<exists>cs. replaced bs cs \<and> replace_invalid8 std_lib bs = utf8_string cs"
    using replaced_all [of bs] by (auto simp: std_lib_def)
qed (simp_all add: std_lib_def std_next_code std_checked_code)

text \<open>
  \<open>maybeNormalize\<close> leaves a string alone only if there is nothing to do, except that a valid string
  keeps the replacement characters that \<open>normalize\<close> would remove.
\<close>

lemma unicodesTo_id:
  "\<forall>c\<in>set cs. \<not> isNonSpaceControl c \<and> (badUtf8Handler f = kRemove \<longrightarrow> c \<noteq> kUnicodeReplacementChar) \<Longrightarrow> unicodesTo f cs = cs"
  by (induction cs) (auto simp: unicodesTo_Cons fix_char_def remapWindows1252_def isNonSpaceControl_def)

lemma unicodesTo_unmodified:
  "\<not> modifiesControlChars f \<Longrightarrow> badUtf8Handler f = kRemove \<longrightarrow> kUnicodeReplacementChar \<notin> set cs \<Longrightarrow> unicodesTo f cs = cs"
  by (induction cs) (auto simp: unicodesTo_Cons fix_char_def modifiesControlChars_def)

theorem maybeNormalize_unchanged:
  assumes L: "utf8_lib_ok L" and cs: "\<forall>c\<in>set cs. code_point c"
    and none: "maybeNormalize L f (utf8_string cs) = None"
    and marks: "badUtf8Handler f = kRemove \<longrightarrow> kUnicodeReplacementChar \<notin> set cs"
  shows "unicodesTo f cs = cs"
proof (cases "modifiesControlChars f")
  case True
  then have "cleanupEnabled f" by (auto simp: cleanupEnabled_def modifiesControlChars_def)
  moreover have "is_valid8 L (utf8_string cs)" using L cs unfolding utf8_lib_ok_def by blast
  ultimately have "\<not> containsNonSpaceControlChars (utf8_string cs)"
    using none True by (auto simp: maybeNormalize_def modifiesControlCharsOf_def Let_def split: if_splits)
  then show ?thesis using contains_string [OF cs] marks by (intro unicodesTo_id) auto
next
  case False
  then show ?thesis using marks by (rule unicodesTo_unmodified)
qed

lemma maybeNormalize_keeps_mark:
  "maybeNormalize std_lib fix_defaults (utf8_string [kUnicodeReplacementChar]) = None
    \<and> normalize_valid std_lib fix_defaults (utf8_string [kUnicodeReplacementChar]) True = Written []"
proof
  have "std_valid (utf8_string [kUnicodeReplacementChar])" by (rule std_valid_string) simp
  moreover have "\<not> containsNonSpaceControlChars (utf8_string [kUnicodeReplacementChar])"
    using contains_string [of "[kUnicodeReplacementChar]"] code_point_replacement
    by (simp add: isNonSpaceControl_def control_nat del: utf8_string_Cons)
      (simp add: kUnicodeReplacementChar_def)
  ultimately show "maybeNormalize std_lib fix_defaults (utf8_string [kUnicodeReplacementChar]) = None"
    by (simp add: maybeNormalize_def std_lib_def fix_defaults_def modifiesControlCharsOf_def del: utf8_string_Cons)
  show "normalize_valid std_lib fix_defaults (utf8_string [kUnicodeReplacementChar]) True = Written []"
    using normalize_valid_string [OF std_lib_ok, of "[kUnicodeReplacementChar]" fix_defaults]
    by (simp add: unicodesTo_Cons fix_char_def fix_defaults_def)
qed

section \<open>The properties\<close>

text \<open>
  Property C21 (normalising valid text). Normalising a valid string, in place or not, writes exactly the
  characters that are kept, converted, and never past the end of the buffer, which is sized before.
\<close>

theorem normalize_string_correct:
  assumes "utf8_lib_ok L" and "\<forall>c\<in>set cs. code_point c"
  shows "normalize_string L f (utf8_string cs) True = Written (utf8_string (unicodesTo f cs))
    \<and> normalize_valid L f (utf8_string cs) True = Written (utf8_string (unicodesTo f cs))"
  using normalize_valid_string [OF assms]
    normalize_loop_string [OF assms(1) _ assms(2) refl order_refl, where buf = "utf8_string cs" and i = 0 and f = f]
  by (simp add: normalize_string_def)

lemma normalize_string_correct_witness:
  "normalize_string std_lib enableAllFixes (utf8_string [0x41, 0x93, 7, 0x1F600]) True = Written [0x41, 0xE2, 0x80, 0x9C, 0xF0, 0x9F, 0x98, 0x80]"
  using normalize_string_correct [OF std_lib_ok, of "[0x41, 0x93, 7, 0x1F600]" enableAllFixes]
  by (simp add: code_point_def utf8_bytes_def continuation_byte_def unicodesTo_Cons fix_char_def enableAllFixes_def
      kUnicodeReplacementChar_def remapWindows1252_def isControlInWindows1252Range_def kMinWindows1252Unicode_def
      kMaxWindows1252Unicode_def gWindows1252ToUnicode_def isNonSpaceControl_def isLowAsciiNonSpaceControl_def)

text \<open>
  Property C22 (the buffer is large enough when bad bytes are removed). With the handler that removes,
  any bytes at all are normalised without writing past the buffer, though the replaced string may be
  three times as long as the input.
\<close>

theorem normalize_remove_fits:
  assumes "utf8_lib_ok L" and "badUtf8Handler f = kRemove"
  shows "\<exists>cs. replaced bs cs \<and> normalize_valid L f bs False = Written (utf8_string (unicodesTo f cs))
    \<and> length (utf8_string (unicodesTo f cs)) \<le> sizeOutputImpl f (length bs)"
  using normalize_removing [OF assms, of bs] replaced_fits [OF _ assms(2)] by metis

lemma normalize_remove_fits_witness:
  "\<exists>cs. replaced [0xFF, 0x41] cs \<and> normalize_valid std_lib fix_defaults [0xFF, 0x41] False = Written (utf8_string (unicodesTo fix_defaults cs))
    \<and> length (utf8_string (unicodesTo fix_defaults cs)) \<le> sizeOutputImpl fix_defaults 2"
  using normalize_remove_fits [OF std_lib_ok, of fix_defaults "[0xFF, 0x41]"]
  by (simp add: fix_defaults_def numeral_2_eq_2)

text \<open>
  The buffer is too small when bad bytes are replaced. With the handler that replaces,
  one bad byte becomes the three bytes of U+FFFD, but the buffer has one or two: the iterator writes
  past its end.
\<close>

theorem normalize_replace_overruns:
  assumes "utf8_lib_ok L" and "badUtf8Handler f = kReplace"
  shows "normalize_valid L f [0xFF] False = Overrun"
proof -
  obtain cs where "replaced [0xFF] cs" and r: "replace_invalid8 L [0xFF] = utf8_string cs"
    using assms(1) unfolding utf8_lib_ok_def by blast
  then have cs: "cs = [kUnicodeReplacementChar]" using replaced_FF by blast
  have "fix_char f kUnicodeReplacementChar = Some kUnicodeReplacementChar"
    using assms(2) by (simp add: fix_char_def remapWindows1252_def isNonSpaceControl_def control_nat kUnicodeReplacementChar_def)
  then have "unicodesTo f cs = [kUnicodeReplacementChar]" by (simp add: cs unicodesTo_Cons)
  moreover have "length (utf8_bytes kUnicodeReplacementChar) = 3"
    by (simp add: length_utf8_bytes kUnicodeReplacementChar_def)
  ultimately show ?thesis
    using fixedUtf8To_string [OF assms(1), of cs f]
    by (simp add: normalize_valid_def utf8To_valid_def r cs lib_append [OF assms(1)] sizeOutputImpl_def)
qed

lemma normalize_replace_overruns_witness:
  "normalize_valid std_lib (fix_defaults\<lparr>badUtf8Handler := kReplace\<rparr>) [0xFF] False = Overrun"
  by (rule normalize_replace_overruns [OF std_lib_ok]) (simp add: fix_defaults_def)

text \<open>
  Finding control characters in the bytes. The scan over the bytes finds a control
  character exactly if there is one among the code points.
\<close>

theorem containsNonSpaceControlChars_correct:
  assumes "\<forall>c\<in>set cs. code_point c"
  shows "containsNonSpaceControlChars (utf8_string cs) \<longleftrightarrow> (\<exists>c\<in>set cs. isNonSpaceControl c)"
  by (rule contains_string [OF assms])

lemma containsNonSpaceControlChars_correct_witness:
  "containsNonSpaceControlChars (utf8_string [0x41, 0x93]) \<and> \<not> containsNonSpaceControlChars (utf8_string [0x113, 10, 0x4C2])"
  using containsNonSpaceControlChars_correct [of "[0x41, 0x93]"] containsNonSpaceControlChars_correct [of "[0x113, 10, 0x4C2]"]
  by (simp add: code_point_def isNonSpaceControl_def control_nat)

text \<open>
  Property C23 (strings of code points and back). Encoding fits the buffer of four bytes a code point;
  decoding gives the code points back; the count of characters is their number modulo the 32 bits of the counter.
\<close>

theorem toUnicodes_toUtf8v:
  assumes "utf8_lib_ok L" and "\<forall>c\<in>set cs. code_point c"
  shows "\<exists>bs. toUtf8v L cs = Written bs \<and> toUnicodes L bs = Some cs \<and> lengthUtf8Chs L bs = Some (length cs mod 2 ^ 32)
    \<and> length bs \<le> bytesForUtf (length cs)"
  using encode_into_fits [OF assms, of "[]" "bytesForUtf (length cs)"] toUnicodes_string [OF assms]
    lengthUtf8Chs_string [OF assms] length_utf8_string_le [of cs]
  by (simp add: toUtf8v_def)

lemma toUnicodes_toUtf8v_witness:
  "\<exists>bs. toUtf8v std_lib [0x41, 0x20AC] = Written bs \<and> toUnicodes std_lib bs = Some [0x41, 0x20AC]
    \<and> lengthUtf8Chs std_lib bs = Some (Suc (Suc 0)) \<and> length bs \<le> 8"
  using toUnicodes_toUtf8v [OF std_lib_ok, of "[0x41, 0x20AC]"] by (simp add: code_point_def bytesForUtf_def)

end
