(* ===== verification/Fsm_Graph.thy ===== *)
theory Fsm_Graph
  imports Hg_Union Special_Symbols
begin

text \<open>
  The unweighted graph of some of the arcs of an fsm and its closure (\<open>sdl/Hypergraph/Graph.hpp\<close>).
  \<open>warshall_transitive_close\<close> runs over the rows once, the outer loop over the sources: the theorems
  say for which graphs that computes the transitive closure, and give a graph for which it does not.
\<close>

section \<open>The code\<close>

definition isSpecialSym :: "Sym \<Rightarrow> Sym \<Rightarrow> bool" where "isSpecialSym special s \<longleftrightarrow> s = special"
definition isEps :: "Sym \<Rightarrow> bool" where "isEps s \<longleftrightarrow> s = EPSILON_ID"
definition isRho :: "Sym \<Rightarrow> bool" where "isRho s \<longleftrightarrow> s = RHO_ID"
definition isPhi :: "Sym \<Rightarrow> bool" where "isPhi s \<longleftrightarrow> s = PHI_ID"
definition isSigma :: "Sym \<Rightarrow> bool" where "isSigma s \<longleftrightarrow> s = SIGMA_ID"

type_synonym adjs = "bool list list"

text \<open>\<open>if (test(a, h)) adjs[t] |= adjs[h]\<close>, where \<open>a\<close> is the row \<open>t\<close> itself.\<close>

definition close_step :: "nat \<Rightarrow> nat \<Rightarrow> adjs \<Rightarrow> adjs" where
  "close_step t h adjs = (if adjs ! t ! h then adjs[t := map2 (\<or>) (adjs ! t) (adjs ! h)] else adjs)"

definition close_row :: "nat \<Rightarrow> nat \<Rightarrow> adjs \<Rightarrow> adjs" where
  "close_row N t adjs = fold (close_step t) [0..<N] adjs"

definition warshall_transitive_close :: "adjs \<Rightarrow> adjs" where
  "warshall_transitive_close adjs = fold (close_row (length adjs)) [0..<length adjs] adjs"

text \<open>\<open>Graph\<close>: for every state the set of its successors, as a list without duplicates.\<close>

type_synonym graph_outs = "StateId list list"

definition toAdjs :: "graph_outs \<Rightarrow> adjs" where
  "toAdjs outs = map (\<lambda>out. map (\<lambda>h. h \<in> set out) [0..<length outs]) outs"

definition copyBits :: "bool list \<Rightarrow> StateId list" where
  "copyBits b = filter (\<lambda>i. b ! i) [0..<length b]"

definition fromAdjs :: "adjs \<Rightarrow> graph_outs" where
  "fromAdjs as = map copyBits as"

definition transitiveClose :: "graph_outs \<Rightarrow> graph_outs" where
  "transitiveClose outs = fromAdjs (warshall_transitive_close (toAdjs outs))"

definition getFsmInput :: "'w hg \<Rightarrow> 'w arc \<Rightarrow> Sym" where
  "getFsmInput h a = inputLabel h (fsmSymbolState a)"

definition addFsmArc :: "'w hg \<Rightarrow> (Sym \<Rightarrow> bool) \<Rightarrow> ArcHandle \<Rightarrow> graph_outs \<Rightarrow> graph_outs" where
  "addFsmArc h labelPred a outs =
     (let x = arcAt h a; t = arc_tails x ! 0
      in if labelPred (getFsmInput h x) then outs[t := List.insert (arc_head x) (outs ! t)] else outs)"

definition addFsmArcs :: "'w hg \<Rightarrow> (Sym \<Rightarrow> bool) \<Rightarrow> graph_outs \<Rightarrow> graph_outs" where
  "addFsmArcs h labelPred outs =
     fold (addFsmArc h labelPred) (forArcsFsm h) (vec_resize outs (numStates h) [])"

section \<open>Relations and matrices\<close>

definition square :: "adjs \<Rightarrow> bool" where
  "square as \<longleftrightarrow> (\<forall>r \<in> set as. length r = length as)"

definition adj_rel :: "adjs \<Rightarrow> (nat \<times> nat) set" where
  "adj_rel as = {(t, h). t < length as \<and> h < length (as ! t) \<and> as ! t ! h}"

lemma square_row: "square as \<Longrightarrow> t < length as \<Longrightarrow> length (as ! t) = length as"
  by (simp add: square_def)

lemma adj_rel_bound: "square as \<Longrightarrow> (t, h) \<in> adj_rel as \<Longrightarrow> t < length as \<and> h < length as"
  by (auto simp: adj_rel_def square_row)

lemma close_step_facts:
  assumes "square as" and "t < length as" and "h < length as"
  shows "length (close_step t h as) = length as" and "square (close_step t h as)"
    and "adj_rel (close_step t h as) = adj_rel as \<union> (if (t, h) \<in> adj_rel as then {t} \<times> (adj_rel as `` {h}) else {})"
proof -
  have l: "length (as ! t) = length as" "length (as ! h) = length as" using assms by (simp_all add: square_row)
  show "length (close_step t h as) = length as" by (simp add: close_step_def)
  show "square (close_step t h as)"
    using assms l by (auto simp: square_def close_step_def dest!: set_update_subset_insert [THEN subsetD])
  show "adj_rel (close_step t h as) = adj_rel as \<union> (if (t, h) \<in> adj_rel as then {t} \<times> (adj_rel as `` {h}) else {})"
    using assms l by (auto simp: adj_rel_def close_step_def nth_list_update split: if_splits)
qed

text \<open>
  One row: the successors of \<open>t\<close>, and after every \<open>h\<close> that is one of them by then, the successors
  of \<open>h\<close>; the other rows do not change.
\<close>

lemma close_row_facts:
  assumes "square as" and "t < length as" and "k \<le> length as"
  defines "bs \<equiv> fold (close_step t) [0..<k] as"
  shows "length bs = length as" and "square bs"
    and "\<And>t' x. t' \<noteq> t \<Longrightarrow> (t', x) \<in> adj_rel bs \<longleftrightarrow> (t', x) \<in> adj_rel as"
    and "adj_rel as \<subseteq> adj_rel bs" and "adj_rel bs \<subseteq> (adj_rel as)\<^sup>+"
    and "\<And>h x. h < k \<Longrightarrow> h \<noteq> t \<Longrightarrow> (t, h) \<in> adj_rel (fold (close_step t) [0..<h] as) \<Longrightarrow> (h, x) \<in> adj_rel as \<Longrightarrow> (t, x) \<in> adj_rel bs"
proof -
  have "length bs = length as \<and> square bs \<and> (\<forall>t' x. t' \<noteq> t \<longrightarrow> (t', x) \<in> adj_rel bs \<longleftrightarrow> (t', x) \<in> adj_rel as) \<and>
      adj_rel as \<subseteq> adj_rel bs \<and> adj_rel bs \<subseteq> (adj_rel as)\<^sup>+ \<and>
      (\<forall>h x. h < k \<longrightarrow> h \<noteq> t \<longrightarrow> (t, h) \<in> adj_rel (fold (close_step t) [0..<h] as) \<longrightarrow> (h, x) \<in> adj_rel as \<longrightarrow> (t, x) \<in> adj_rel bs)"
    using assms(3) unfolding bs_def
  proof (induction k)
    case 0
    then show ?case using assms(1) by auto
  next
    case (Suc k)
    let ?c = "fold (close_step t) [0..<k] as"
    have I: "length ?c = length as" "square ?c" "\<And>t' x. t' \<noteq> t \<Longrightarrow> (t', x) \<in> adj_rel ?c \<longleftrightarrow> (t', x) \<in> adj_rel as"
      "adj_rel as \<subseteq> adj_rel ?c" "adj_rel ?c \<subseteq> (adj_rel as)\<^sup>+"
      "\<And>h x. h < k \<Longrightarrow> h \<noteq> t \<Longrightarrow> (t, h) \<in> adj_rel (fold (close_step t) [0..<h] as) \<Longrightarrow> (h, x) \<in> adj_rel as \<Longrightarrow> (t, x) \<in> adj_rel ?c"
      using Suc by auto
    have kt: "t < length ?c" "k < length ?c" using Suc.prems assms(2) I(1) by simp_all
    note F = close_step_facts [OF I(2) kt]
    have e: "fold (close_step t) [0..<Suc k] as = close_step t k ?c" by simp
    have sub: "adj_rel (close_step t k ?c) \<subseteq> (adj_rel as)\<^sup>+"
    proof
      fix p assume "p \<in> adj_rel (close_step t k ?c)"
      then consider "p \<in> adj_rel ?c" | x where "p = (t, x)" "(t, k) \<in> adj_rel ?c" "(k, x) \<in> adj_rel ?c"
        unfolding F(3) by (auto split: if_splits)
      then show "p \<in> (adj_rel as)\<^sup>+" using I(5) by cases (auto intro: trancl_trans)
    qed
    have new: "(t, x) \<in> adj_rel (close_step t k ?c)"
      if "h < Suc k" "h \<noteq> t" "(t, h) \<in> adj_rel (fold (close_step t) [0..<h] as)" "(h, x) \<in> adj_rel as" for h x
    proof (cases "h = k")
      case True
      then have "(t, k) \<in> adj_rel ?c" "(k, x) \<in> adj_rel ?c" using that I(3) by auto
      then show ?thesis unfolding F(3) by simp
    next
      case False
      then show ?thesis using that I(6) [of h x] unfolding F(3) by simp
    qed
    show ?case unfolding e using F(1,2) I(1,3,4) sub new by (auto simp: F(3) split: if_splits)
  qed
  then show "length bs = length as" "square bs" "\<And>t' x. t' \<noteq> t \<Longrightarrow> (t', x) \<in> adj_rel bs \<longleftrightarrow> (t', x) \<in> adj_rel as"
    "adj_rel as \<subseteq> adj_rel bs" "adj_rel bs \<subseteq> (adj_rel as)\<^sup>+"
    "\<And>h x. h < k \<Longrightarrow> h \<noteq> t \<Longrightarrow> (t, h) \<in> adj_rel (fold (close_step t) [0..<h] as) \<Longrightarrow> (h, x) \<in> adj_rel as \<Longrightarrow> (t, x) \<in> adj_rel bs"
    by blast+
qed

lemma close_row_mono:
  assumes "square as" and "t < length as"
  shows "j \<le> k \<Longrightarrow> k \<le> length as \<Longrightarrow> adj_rel (fold (close_step t) [0..<j] as) \<subseteq> adj_rel (fold (close_step t) [0..<k] as)"
proof (induction k)
  case (Suc k)
  show ?case
  proof (cases "j = Suc k")
    case False
    then have "adj_rel (fold (close_step t) [0..<j] as) \<subseteq> adj_rel (fold (close_step t) [0..<k] as)" using Suc by simp
    moreover have "k \<le> length as" using Suc.prems by simp
    ultimately show ?thesis
      using close_step_facts(3) [of "fold (close_step t) [0..<k] as" t k] close_row_facts(1,2) [OF assms, of k] Suc.prems assms(2)
      by auto
  qed simp
qed simp

section \<open>The closure\<close>

definition forward :: "(nat \<times> nat) set \<Rightarrow> bool" where "forward E \<longleftrightarrow> (\<forall>(t, h) \<in> E. t < h)"
definition backward :: "(nat \<times> nat) set \<Rightarrow> bool" where "backward E \<longleftrightarrow> (\<forall>(t, h) \<in> E. h < t)"

lemma forward_trancl:
  assumes "forward E" shows "forward (E\<^sup>+)"
proof -
  have "t < h" if "(t, h) \<in> E\<^sup>+" for t h
    using that by (induction rule: trancl.induct) (use assms in \<open>auto simp: forward_def\<close>)
  then show ?thesis by (auto simp: forward_def)
qed

text \<open>In a forward graph the row becomes complete, whatever the later rows have.\<close>

lemma forward_row:
  assumes "square as" and "t < length as" and fw: "forward (adj_rel as)"
  shows "(t, x) \<in> (adj_rel as)\<^sup>+ \<Longrightarrow> (t, x) \<in> adj_rel (fold (close_step t) [0..<x] as)"
proof (induction x rule: less_induct)
  case (less x)
  have fw': "forward ((adj_rel as)\<^sup>+)" by (rule forward_trancl [OF fw])
  have "x < length as" using less.prems adj_rel_bound [OF assms(1)] by (metis tranclD2)
  then have xk: "x \<le> length as" by simp
  note F = close_row_facts [OF assms(1,2) xk]
  from less.prems show ?case
  proof (cases rule: tranclE)
    case base
    then show ?thesis using F(4) by blast
  next
    case (step h)
    then have "t < h" "h < x" using fw fw' by (auto simp: forward_def)
    then show ?thesis using less.IH [of h] step F(6) [of h x] by simp
  qed
qed

text \<open>When the earlier rows are complete and hold all successors, the row becomes complete.\<close>

lemma backward_row:
  assumes "square as" and "t < length as" and E: "E \<subseteq> adj_rel as" and bw: "backward E"
    and earlier: "\<And>h x. h < t \<Longrightarrow> (h, x) \<in> E\<^sup>+ \<Longrightarrow> (h, x) \<in> adj_rel as" and x: "(t, x) \<in> E\<^sup>+"
  shows "(t, x) \<in> adj_rel (close_row (length as) t as)"
proof -
  note F = close_row_facts [OF assms(1,2) order_refl, folded close_row_def]
  consider "(t, x) \<in> E" | h where "(t, h) \<in> E" "(h, x) \<in> E\<^sup>+" using x by (metis converse_tranclE)
  then show ?thesis
  proof cases
    case 1
    then show ?thesis using F(4) E by blast
  next
    case step: (2 h)
    then have h: "h < t" using bw by (auto simp: backward_def)
    then have "h \<le> length as" using assms(2) by simp
    then have "(t, h) \<in> adj_rel (fold (close_step t) [0..<h] as)"
      using close_row_facts(4) [OF assms(1,2)] step(1) E by blast
    then show ?thesis
      using close_row_facts(6) [OF assms(1,2) order_refl, of h x] h assms(2) earlier [OF h step(2)]
      by (simp add: close_row_def)
  qed
qed

lemma warshall_rows:
  assumes sq: "square as" and fb: "forward (adj_rel as) \<or> backward (adj_rel as)" and k: "k \<le> length as"
  defines "bs \<equiv> fold (close_row (length as)) [0..<k] as"
  shows "length bs = length as \<and> square bs \<and> adj_rel as \<subseteq> adj_rel bs \<and> adj_rel bs \<subseteq> (adj_rel as)\<^sup>+ \<and>
    (\<forall>t x. t < k \<longrightarrow> (t, x) \<in> (adj_rel as)\<^sup>+ \<longrightarrow> (t, x) \<in> adj_rel bs)"
  using k unfolding bs_def
proof (induction k)
  case (Suc k)
  let ?E = "adj_rel as"
  let ?c = "fold (close_row (length as)) [0..<k] as"
  have I: "length ?c = length as" "square ?c" "?E \<subseteq> adj_rel ?c" "adj_rel ?c \<subseteq> ?E\<^sup>+"
    "\<And>t x. t < k \<Longrightarrow> (t, x) \<in> ?E\<^sup>+ \<Longrightarrow> (t, x) \<in> adj_rel ?c"
    using Suc by auto
  have kl: "k < length ?c" using Suc.prems I(1) by simp
  have e: "fold (close_row (length as)) [0..<Suc k] as = close_row (length ?c) k ?c" using I(1) by simp
  note F = close_row_facts [OF I(2) kl order_refl, folded close_row_def]
  have tr: "(adj_rel ?c)\<^sup>+ = ?E\<^sup>+"
  proof
    show "(adj_rel ?c)\<^sup>+ \<subseteq> ?E\<^sup>+" using trancl_mono_subset [OF I(4)] by simp
    show "?E\<^sup>+ \<subseteq> (adj_rel ?c)\<^sup>+" by (rule trancl_mono_subset [OF I(3)])
  qed
  have row: "(k, x) \<in> adj_rel (close_row (length ?c) k ?c)" if x: "(k, x) \<in> ?E\<^sup>+" for x
    using fb
  proof
    assume "forward ?E"
    then have fw: "forward (adj_rel ?c)" using forward_trancl I(4) unfolding forward_def by blast
    then have m: "(k, x) \<in> adj_rel (fold (close_step k) [0..<x] ?c)"
      using forward_row [OF I(2) kl] x tr by blast
    have "x < length ?c" using x I(4) tr adj_rel_bound [OF I(2)] by (metis tranclD2)
    then show ?thesis using m close_row_mono [OF I(2) kl, of x "length ?c"] unfolding close_row_def by auto
  next
    assume "backward ?E"
    then show ?thesis using backward_row [OF I(2) kl I(3) _ I(5) x] by blast
  qed
  show ?case unfolding e
    using F(1,2,4) F(5) I(1,3) row F(3) I(5) tr by (auto simp: less_Suc_eq)
qed (use sq in auto)

section \<open>Sets of successors\<close>

definition outs_rel :: "graph_outs \<Rightarrow> (StateId \<times> StateId) set" where
  "outs_rel outs = {(t, h). t < length outs \<and> h \<in> set (outs ! t)}"

definition outs_ok :: "graph_outs \<Rightarrow> bool" where
  "outs_ok outs \<longleftrightarrow> (\<forall>out \<in> set outs. \<forall>h \<in> set out. h < length outs)"

lemma toAdjs_facts:
  "length (toAdjs outs) = length outs" "square (toAdjs outs)"
  "outs_ok outs \<Longrightarrow> adj_rel (toAdjs outs) = outs_rel outs"
proof -
  show "length (toAdjs outs) = length outs" "square (toAdjs outs)" by (auto simp: toAdjs_def square_def)
  assume "outs_ok outs"
  then have "h < length outs" if "t < length outs" "h \<in> set (outs ! t)" for t h
    using that nth_mem unfolding outs_ok_def by blast
  then show "adj_rel (toAdjs outs) = outs_rel outs"
    by (auto simp: toAdjs_def adj_rel_def outs_rel_def)
qed

lemma fromAdjs_facts:
  "length (fromAdjs as) = length as" "t < length as \<Longrightarrow> set (fromAdjs as ! t) = {h. (t, h) \<in> adj_rel as}"
  by (auto simp: fromAdjs_def copyBits_def adj_rel_def)

lemma warshall_closes:
  assumes "square as" and "forward (adj_rel as) \<or> backward (adj_rel as)"
  shows "adj_rel (warshall_transitive_close as) = (adj_rel as)\<^sup>+" "length (warshall_transitive_close as) = length as"
proof -
  note W = warshall_rows [OF assms order_refl, folded warshall_transitive_close_def]
  show "length (warshall_transitive_close as) = length as" using W by blast
  have "(adj_rel as)\<^sup>+ \<subseteq> adj_rel (warshall_transitive_close as)"
  proof
    fix p assume p: "p \<in> (adj_rel as)\<^sup>+"
    then have "fst p < length as" using adj_rel_bound [OF assms(1)] by (metis converse_tranclE prod.collapse)
    then show "p \<in> adj_rel (warshall_transitive_close as)" using p W by (cases p) auto
  qed
  then show "adj_rel (warshall_transitive_close as) = (adj_rel as)\<^sup>+" using W by blast
qed

text \<open>
  Property C28 (closing a graph). If every edge leads to a higher state, or every edge to a lower one,
  \<open>transitiveClose\<close> leaves for every state exactly the states a path of one or more edges reaches.
\<close>

theorem transitiveClose_correct:
  assumes "outs_ok outs" and "forward (outs_rel outs) \<or> backward (outs_rel outs)" and "t < length outs"
  shows "set (transitiveClose outs ! t) = {h. (t, h) \<in> (outs_rel outs)\<^sup>+}"
  using warshall_closes [OF toAdjs_facts(2), of outs] toAdjs_facts(1,3) [of outs] assms
    fromAdjs_facts(2) [of t "warshall_transitive_close (toAdjs outs)"]
  by (simp add: transitiveClose_def)

lemma transitiveClose_correct_witness:
  "set (transitiveClose [[1], [2], []] ! 0) = {h. (0, h) \<in> (outs_rel [[1], [2], []])\<^sup>+}"
  by (rule transitiveClose_correct) (auto simp: outs_ok_def forward_def outs_rel_def less_Suc_eq)

text \<open>
  With edges in both directions a path can be missed: here 0 leads to 2, 2 to 1 and 1 to 3, and the
  row of 0 is done with the column 1 before 1 enters it.
\<close>

lemma transitiveClose_incomplete:
  "set (transitiveClose [[2], [3], [1], []] ! 0) = {1, 2} \<and> (0, 3) \<in> (outs_rel [[2], [3], [1], []])\<^sup>+"
proof
  show "set (transitiveClose [[2], [3], [1], []] ! 0) = {1, 2}"
    by (simp add: transitiveClose_def toAdjs_def fromAdjs_def copyBits_def warshall_transitive_close_def
        close_row_def close_step_def upt_rec numeral_2_eq_2 numeral_3_eq_3)
  have "(0, 2) \<in> outs_rel [[2], [3], [1], []]" "(2, 1) \<in> outs_rel [[2], [3], [1], []]"
    "(1, 3) \<in> outs_rel [[2], [3], [1], []]"
    by (simp_all add: outs_rel_def)
  then show "(0, 3) \<in> (outs_rel [[2], [3], [1], []])\<^sup>+" by (meson trancl.simps)
qed

end
