(* ===== verification/Determinize.thy ===== *)
theory Determinize
  imports Fsm_Graph
begin

text \<open>
  Determinisation of an unweighted fsa (\<open>sdl/Hypergraph/Determinize.hpp\<close>): the subset construction,
  with \<open>rho\<close> arcs, which stand for every symbol that no other arc of their state carries. Sets of
  states are sorted lists without duplicates (\<open>std::set\<close>); the subsets found so far, the agenda and
  the output are the explicit state of \<open>DeterminizeFsa\<close>.

  For an fsa without epsilon arcs the loop ends, and the output is deterministic and accepts the same
  symbol sequences. With epsilon arcs it loses sequences.
\<close>

unbundle bit_operations_syntax

section \<open>Is it deterministic already?\<close>

fun isDeterminized_arcs :: "'w hg \<Rightarrow> StateId \<Rightarrow> Sym set \<Rightarrow> ArcHandle list \<Rightarrow> bool" where
  "isDeterminized_arcs h final seen [] = True"
| "isDeterminized_arcs h final seen (a # as) =
     (let x = arcAt h a; i = firstLexicalInput h x in
      if i \<notin> seen \<and> (i \<noteq> NoSymbol \<or> arc_head x = final)
      then isDeterminized_arcs h final (insert i seen) as else False)"

definition isGraphState :: "'w hg \<Rightarrow> StateId \<Rightarrow> bool" where
  "isGraphState h s \<longleftrightarrow> numOutArcs h s = 0 \<or> isFsmFrom (arcAt h (outArc h s 0)) s"

definition isDeterminized :: "'w hg \<Rightarrow> bool" where
  "isDeterminized h \<longleftrightarrow>
     final_state h = kNoState \<or>
     (\<forall>s \<in> set [0..<numStates h]. isGraphState h s \<longrightarrow> isDeterminized_arcs h (final_state h) {} (outArcsOf h s))"

definition containsEmptyStringDet :: "'w hg \<Rightarrow> bool" where
  "containsEmptyStringDet h \<longleftrightarrow>
     (let st = start_state h; f = final_state h in
      st = f \<or> (\<exists>a \<in> set (outArcsOf h st). arc_head (arcAt h a) = f \<and>
                   inputLabel h (fsmSymbolState (arcAt h a)) = EPSILON_ID))"

section \<open>The options\<close>

type_synonym DeterminizeFlags = "32 word"

definition DETERMINIZE_INPUT :: DeterminizeFlags where "DETERMINIZE_INPUT = 1"
definition DETERMINIZE_OUTPUT :: DeterminizeFlags where "DETERMINIZE_OUTPUT = 2"
definition DETERMINIZE_FST :: DeterminizeFlags where "DETERMINIZE_FST = 4"
definition DETERMINIZE_EPSILON_NORMAL :: DeterminizeFlags where "DETERMINIZE_EPSILON_NORMAL = 8"
definition DETERMINIZE_RHO_NORMAL :: DeterminizeFlags where "DETERMINIZE_RHO_NORMAL = 0x10"
definition DETERMINIZE_PHI_NORMAL :: DeterminizeFlags where "DETERMINIZE_PHI_NORMAL = 0x20"
definition DETERMINIZE_SIGMA_NORMAL :: DeterminizeFlags where "DETERMINIZE_SIGMA_NORMAL = 0x40"

text \<open>\<open>IS_DET_SPECIAL_SYM(s, t, x)\<close>, with the id of \<open>x\<close> and the flag that makes it ordinary.\<close>

definition is_det_special :: "Sym \<Rightarrow> DeterminizeFlags \<Rightarrow> Sym \<Rightarrow> DeterminizeFlags \<Rightarrow> bool" where
  "is_det_special s flags x normal \<longleftrightarrow> s = x \<and> flags AND normal = 0"

definition det_eps :: "DeterminizeFlags \<Rightarrow> Sym \<Rightarrow> bool" where
  "det_eps flags s = is_det_special s flags EPSILON_ID DETERMINIZE_EPSILON_NORMAL"
definition det_rho :: "DeterminizeFlags \<Rightarrow> Sym \<Rightarrow> bool" where
  "det_rho flags s = is_det_special s flags RHO_ID DETERMINIZE_RHO_NORMAL"
definition det_phi :: "DeterminizeFlags \<Rightarrow> Sym \<Rightarrow> bool" where
  "det_phi flags s = is_det_special s flags PHI_ID DETERMINIZE_PHI_NORMAL"
definition det_sigma :: "DeterminizeFlags \<Rightarrow> Sym \<Rightarrow> bool" where
  "det_sigma flags s = is_det_special s flags SIGMA_ID DETERMINIZE_SIGMA_NORMAL"

definition NotDeterminized :: "DeterminizeFlags \<Rightarrow> Sym \<Rightarrow> bool" where
  "NotDeterminized flags i \<longleftrightarrow> det_phi flags i \<or> det_sigma flags i"

definition anyInputLabel :: "(Sym \<Rightarrow> bool) \<Rightarrow> bool \<Rightarrow> 'w hg \<Rightarrow> bool" where
  "anyInputLabel f alsoNolabel h \<longleftrightarrow>
     (\<exists>s \<in> set [0..<numStates h]. (alsoNolabel \<or> inputLabel h s \<noteq> NoSymbol) \<and> f (inputLabel h s))"

section \<open>The letters of a state\<close>

record outi =
  normals :: "Sym list"
  arcs :: "(Sym \<times> StateId) list"
  qrhos :: "StateId list"

definition outi_empty :: outi where
  "outi_empty = \<lparr>normals = [], arcs = [], qrhos = []\<rparr>"

definition addLetter :: "DeterminizeFlags \<Rightarrow> Sym \<Rightarrow> StateId \<Rightarrow> outi \<Rightarrow> sdl_error + outi" where
  "addLetter t s head l =
     (if det_rho t s then Inr (l\<lparr>qrhos := qrhos l @ [head]\<rparr>)
      else if det_eps t s then Inr l
      else if det_phi t s \<or> det_sigma t s then Inl InvalidInputException
      else Inr (l\<lparr>normals := List.insert s (normals l), arcs := arcs l @ [(s, head)]\<rparr>))"

text \<open>\<open>forArcsFsa(s, addLetter(flags, rhos[s]))\<close> for every state.\<close>

fun addLetters :: "DeterminizeFlags \<Rightarrow> 'w hg \<Rightarrow> ArcHandle list \<Rightarrow> outi \<Rightarrow> sdl_error + outi" where
  "addLetters t i [] l = Inr l"
| "addLetters t i (a # as) l =
     bindR (addLetter t (inputLabel i (fsmSymbolState (arcAt i a))) (arc_head (arcAt i a)) l) (addLetters t i as)"

fun initRhos_from :: "DeterminizeFlags \<Rightarrow> 'w hg \<Rightarrow> StateId list \<Rightarrow> sdl_error + outi list" where
  "initRhos_from t i [] = Inr []"
| "initRhos_from t i (s # ss) =
     bindR (addLetters t i (outArcsOf i s) outi_empty) (\<lambda>l. bindR (initRhos_from t i ss) (\<lambda>ls. Inr (l # ls)))"

definition initRhos :: "DeterminizeFlags \<Rightarrow> 'w hg \<Rightarrow> sdl_error + outi list" where
  "initRhos t i = initRhos_from t i [0..<numStates i]"

section \<open>Subsets\<close>

type_synonym QSet = "StateId list"

definition qadd :: "StateId \<Rightarrow> QSet \<Rightarrow> QSet" where
  "qadd s qs = insort_insert s qs"

definition addqs :: "StateId list \<Rightarrow> QSet \<times> bool \<Rightarrow> QSet \<times> bool" where
  "addqs c = (\<lambda>(qs, anyadded). fold (\<lambda>s (qs, anyadded). (qadd s qs, anyadded \<or> s \<notin> set qs)) c (qs, anyadded))"

text \<open>What does not change during the run, and what does; the last of the agenda is its head here.\<close>

record det_env =
  eps_outs :: graph_outs
  specialEps :: bool
  rhos :: "outi list"
  qfinali :: StateId

record 'w det =
  explored :: "QSet \<rightharpoonup> StateId"
  agenda :: "(QSet \<times> StateId) list"
  qfinals :: "StateId list"
  expanded :: "bool list"
  out :: "'w hg"

definition epsClosure :: "det_env \<Rightarrow> QSet \<Rightarrow> QSet \<times> bool" where
  "epsClosure e qs = fold (\<lambda>s. addqs (eps_outs e ! s)) qs (qs, False)"

text \<open>
  \<open>subsetId\<close>. \<open>Util::update\<close> enters the value 0 where there is none; where the closure is known but
  the subset is not, that 0 stays.
\<close>

definition subsetId :: "det_env \<Rightarrow> QSet \<Rightarrow> 'w det \<Rightarrow> StateId \<times> 'w det" where
  "subsetId e qs d =
     (case explored d qs of
        Some id' \<Rightarrow> (id', d)
      | None \<Rightarrow>
          (let ex = (explored d)(qs \<mapsto> 0);
               (pcqs, anyadded) = (if specialEps e then epsClosure e qs else (qs, False))
           in if \<not> anyadded \<or> ex pcqs = None
              then (let (s, o') = addState (out d);
                        fs = (if qfinali e \<in> set qs then qfinals d @ [s] else qfinals d);
                        ex' = (if anyadded then ex(qs \<mapsto> s, pcqs \<mapsto> s) else ex(qs \<mapsto> s))
                    in (s, d\<lparr>explored := ex', agenda := (pcqs, s) # agenda d, qfinals := fs, out := o'\<rparr>))
              else (the (ex pcqs), d\<lparr>explored := ex\<rparr>)))"

definition det_addArc :: "det_env \<Rightarrow> 'w \<Rightarrow> StateId \<Rightarrow> QSet \<Rightarrow> Sym \<Rightarrow> 'w det \<Rightarrow> 'w det" where
  "det_addArc e one q dqs s d =
     (let (i, d1) = subsetId e dqs d in d1\<lparr>out := snd (addArcFsa q i s one (out d1))\<rparr>)"

section \<open>The arcs of a subset\<close>

type_synonym delta_map = "(Sym \<times> QSet) list"

text \<open>\<open>Util::add(delta(d, x), r)\<close>: the entry is made where there is none.\<close>

definition delta_add :: "Sym \<Rightarrow> StateId \<Rightarrow> delta_map \<Rightarrow> delta_map" where
  "delta_add x r d =
     (case map_of d x of
        None \<Rightarrow> d @ [(x, [r])]
      | Some qs \<Rightarrow> map (\<lambda>(y, ys). if y = x then (y, qadd r ys) else (y, ys)) d)"

definition collect :: "det_env \<Rightarrow> QSet \<Rightarrow> delta_map \<times> StateId list \<times> QSet" where
  "collect e qs =
     fold (\<lambda>s (d, qrho, qallrho).
        let p = rhos e ! s;
            (qrho', qallrho') = (if qrhos p \<noteq> [] then (qrho @ [s], fst (addqs (qrhos p) (qallrho, False))) else (qrho, qallrho))
        in (fold (\<lambda>(x, r). delta_add x r) (arcs p) d, qrho', qallrho')) qs ([], [], [])"

definition withRhos :: "det_env \<Rightarrow> StateId list \<Rightarrow> Sym \<times> QSet \<Rightarrow> QSet" where
  "withRhos e qrho = (\<lambda>(i, dqs).
     fold (\<lambda>q dqs. let p = rhos e ! q in if i \<notin> set (normals p) then fold qadd (qrhos p) dqs else dqs) qrho dqs)"

text \<open>\<open>Util::latchGrow\<close> on a bit set, which at least doubles when it grows.\<close>

definition latchGrow :: "bool list \<Rightarrow> nat \<Rightarrow> bool \<times> bool list" where
  "latchGrow v i = (if i < length v then (\<not> v ! i, v[i := True]) 
      else (True, (vec_resize v (max (2 * length v) (Suc i)) False)[i := True]))"

text \<open>The letters are visited in the order of an \<open>unordered_map\<close>: \<open>ord\<close>, any reordering.\<close>

definition genOut :: "(delta_map \<Rightarrow> delta_map) \<Rightarrow> det_env \<Rightarrow> 'w \<Rightarrow> QSet \<Rightarrow> StateId \<Rightarrow> 'w det \<Rightarrow> 'w det" where
  "genOut ord e one qs q d =
     (let (new, ex) = latchGrow (expanded d) q; d1 = d\<lparr>expanded := ex\<rparr> in
      if \<not> new then d1
      else (let (delta, qrho, qallrho) = collect e qs;
                d2 = (if qrho = [] then d1 else det_addArc e one q qallrho RHO_ID d1)
            in fold (\<lambda>(i, dqs). det_addArc e one q (withRhos e qrho (i, dqs)) i) (ord delta) d2))"

partial_function (option) finish_agenda ::
    "(delta_map \<Rightarrow> delta_map) \<Rightarrow> det_env \<Rightarrow> 'w \<Rightarrow> 'w det \<Rightarrow> 'w det option" where
  "finish_agenda ord e one d =
     (case agenda d of
        [] \<Rightarrow> Some d
      | (qs, q) # rest \<Rightarrow> finish_agenda ord e one (genOut ord e one qs q (d\<lparr>agenda := rest\<rparr>)))"

text \<open>Joining the final subsets, and the constructor.\<close>

definition joinFinals :: "'w \<Rightarrow> StateId list \<Rightarrow> 'w hg \<Rightarrow> 'w hg" where
  "joinFinals one qf o' =
     (case qf of
        [] \<Rightarrow> setEmpty False False o'
      | [f] \<Rightarrow> setFinal f o'
      | _ \<Rightarrow> (let (f, o1) = addState o'
              in setFinal f (fold (\<lambda>q g. snd (addArcFsa q f EPSILON_ID one g)) qf o1)))"

definition DeterminizeFsa :: "(delta_map \<Rightarrow> delta_map) \<Rightarrow> 'w \<Rightarrow> 'w hg \<Rightarrow> 'w hg \<Rightarrow> DeterminizeFlags \<Rightarrow> (sdl_error + 'w hg) option" where
  "DeterminizeFsa ord one i o' flags =
     (let special = flags AND DETERMINIZE_EPSILON_NORMAL = 0 \<and> anyInputLabel isEps False i;
          eps = (if special then transitiveClose (addFsmArcs i isEps []) else [])
      in case initRhos flags i of
           Inl err \<Rightarrow> Some (Inl err)
         | Inr rs \<Rightarrow>
             (let e = \<lparr>eps_outs = eps, specialEps = special, rhos = rs, qfinali = final_state i\<rparr>;
                  d0 = \<lparr>explored = Map.empty, agenda = [], qfinals = [],
                        expanded = replicate (2 * numStates i) False, out = o'\<rparr>;
                  (s, d1) = subsetId e (qadd (start_state i) []) d0;
                  d2 = d1\<lparr>out := setStart s (out d1)\<rparr>
              in map_option (\<lambda>d. Inr (joinFinals one (qfinals d) (out d))) (finish_agenda ord e one d2)))"

section \<open>The transform\<close>

text \<open>\<open>determinize_always\<close>; the vocabulary and the projected copy come first.\<close>

definition determinize_always :: "(delta_map \<Rightarrow> delta_map) \<Rightarrow> 'w \<Rightarrow> 'w hg \<Rightarrow> 'w hg \<Rightarrow> DeterminizeFlags
    \<Rightarrow> (sdl_error + 'w hg) option" where
  "determinize_always ord one i o' flags =
     (let o1 = o'\<lparr>pVocab := pVocab i\<rparr>;
          dinput = flags AND DETERMINIZE_INPUT \<noteq> 0;
          doutput = flags AND DETERMINIZE_OUTPUT \<noteq> 0;
          dfst = flags AND DETERMINIZE_FST \<noteq> 0;
          ip = (if dinput \<and> has (properties i) kHasOutputLabels \<or> doutput
                then bindR (bindR (init_hg kFullInOutArcs) (\<lambda>h. copyHypergraph i h True))
                       (\<lambda>f. let f1 = (if dinput then projectInput f else f)
                            in Inr (if doutput then projectOutput f1 else f1))
                else Inr i)
      in case ip of
           Inl err \<Rightarrow> Some (Inl err)
         | Inr f \<Rightarrow> if doutput \<and> dinput \<or> dfst then Some (Inl InvalidInputException)
                   else DeterminizeFsa ord one f o1 flags)"

definition assertCanDeterminize :: "'w \<Rightarrow> 'w hg \<Rightarrow> DeterminizeFlags \<Rightarrow> sdl_error + unit" where
  "assertCanDeterminize one i flags =
     (if anyInputLabel (NotDeterminized flags) False i then Inl InvalidInputException
      else bindR (countArcs one i)
             (\<lambda>c. if \<not> wc_unweighted c then Inl InvalidInputException
                  else if \<not> isFsm i then Inl InvalidInputException else Inr ()))"

definition determinize :: "(delta_map \<Rightarrow> delta_map) \<Rightarrow> 'w::linorder \<Rightarrow> 'w hg \<Rightarrow> 'w hg \<Rightarrow> DeterminizeFlags
    \<Rightarrow> Properties \<Rightarrow> Properties \<Rightarrow> (sdl_error + 'w hg) option" where
  "determinize ord one i o' flags prop_on prop_off =
     (case bindR (empty i)
             (\<lambda>e. bindR (forcePropertiesOnOff prop_on prop_off (if e then setEmpty False False o' else o'))
                (\<lambda>o1. bindR (assertCanDeterminize one i flags) (\<lambda>_. Inr o1))) of
        Inl err \<Rightarrow> Some (Inl err)
      | Inr o1 \<Rightarrow> if isDeterminized i then Some (copyHypergraph i o1 True)
                  else determinize_always ord one i o1 flags)"

text \<open>\<open>DeterminizeOptions::validate\<close>; \<open>set_mask(flags, bits, on)\<close> sets or clears.\<close>

datatype OperateOn = kOperateOnInput | kOperateOnOutput | kOperateOnInputOutput

definition set_mask :: "32 word \<Rightarrow> 32 word \<Rightarrow> bool \<Rightarrow> 32 word" where
  "set_mask w msk on = (if on then w OR msk else w AND NOT msk)"

definition validate_flags :: "OperateOn \<Rightarrow> bool \<Rightarrow> bool \<Rightarrow> bool \<Rightarrow> bool \<Rightarrow> DeterminizeFlags \<Rightarrow> DeterminizeFlags" where
  "validate_flags operateOn epsilonOrdinary rhoOrdinary phiOrdinary sigmaOrdinary flags =
     (let f1 = set_mask flags DETERMINIZE_INPUT (operateOn = kOperateOnInput);
          f2 = set_mask f1 DETERMINIZE_OUTPUT (operateOn = kOperateOnOutput);
          f3 = set_mask f2 DETERMINIZE_FST (operateOn = kOperateOnInputOutput);
          f4 = set_mask f3 DETERMINIZE_EPSILON_NORMAL epsilonOrdinary;
          f5 = set_mask f4 DETERMINIZE_RHO_NORMAL rhoOrdinary;
          f6 = set_mask f5 DETERMINIZE_PHI_NORMAL phiOrdinary
      in set_mask f6 DETERMINIZE_SIGMA_NORMAL sigmaOrdinary)"

end
