(* ===== verification/Fsa_Edges.thy ===== *)
theory Fsa_Edges
  imports Hg_Union
begin

text \<open>
  An fsa as a set of labelled edges. \<open>fsa_ok\<close> is what the builders \<open>addState\<close> and \<open>addArcFsa\<close> of
  \<open>IMutableHypergraph\<close> keep: the lemmas say what they do to the edges, whether label states are shared
  (\<open>kCanonicalLex\<close>) or not.
\<close>

definition arc_edge :: "'w hg \<Rightarrow> 'w arc \<Rightarrow> StateId \<times> Sym \<times> StateId" where
  "arc_edge h x = (arc_tails x ! 0, inputLabel h (arc_tails x ! 1), arc_head x)"

definition edges :: "'w hg \<Rightarrow> (StateId \<times> Sym \<times> StateId) set" where
  "edges h = arc_edge h ` ran (arc_heap h)"

definition lstate_ok :: "'w hg \<Rightarrow> bool" where
  "lstate_ok h \<longleftrightarrow> (\<forall>x s. lstate h (x, NoSymbol) = Some s \<longrightarrow> s < numStates h \<and> inputLabel h s = x)"

definition fsa_ok :: "'w hg \<Rightarrow> bool" where
  "fsa_ok h \<longleftrightarrow> hg_wf h \<and> labels_wf h \<and> fsm_arcs h \<and> lstate_ok h"

text \<open>What adding states may change.\<close>

definition extends :: "'w hg \<Rightarrow> 'w hg \<Rightarrow> bool" where
  "extends h h' \<longleftrightarrow>
     arc_heap h' = arc_heap h \<and> next_arc h' = next_arc h \<and> inArcsPerState h' = inArcsPerState h \<and>
     outArcsPerState h' = outArcsPerState h \<and> start_state h' = start_state h \<and> final_state h' = final_state h \<and>
     storesInArcs h' = storesInArcs h \<and> storesFirstTailOutArcs h' = storesFirstTailOutArcs h \<and>
     storesAllOutArcs h' = storesAllOutArcs h \<and> numStates h \<le> numStates h' \<and> numStates h' \<le> Suc (numStates h) \<and>
     (\<forall>s < numStates h. inputLabel h' s = inputLabel h s)"

lemma arc_states:
  assumes "hg_wf h" and "fsm_arcs h" and "x \<in> ran (arc_heap h)"
  obtains a b where "arc_tails x = [a, b]" "a < numStates h" "b < numStates h" "arc_head x < numStates h"
proof -
  have x: "x \<in># hg_arcs h" using assms(1,3) by (simp add: set_mset_hg_arcs)
  have "length (arc_tails x) = 2" using assms(2,3) by (auto simp: fsm_arcs_def)
  then obtain a b where "arc_tails x = [a, b]" by (auto simp: numeral_2_eq_2 length_Suc_conv)
  then show thesis using that wf_arc(1,2) [OF assms(1) x] by auto
qed

lemma edges_states: "hg_wf h \<Longrightarrow> fsm_arcs h \<Longrightarrow> (q, x, r) \<in> edges h \<Longrightarrow> q < numStates h \<and> r < numStates h"
  unfolding edges_def arc_edge_def by (erule imageE) (erule (2) arc_states, simp)

lemma extends_edges:
  assumes "fsa_ok h" and E: "extends h h'" and "labels_wf h'" and "lstate_ok h'"
  shows "fsa_ok h' \<and> edges h' = edges h"
proof -
  have wf: "hg_wf h" and fsm: "fsm_arcs h" using assms(1) by (simp_all add: fsa_ok_def)
  have e: "arc_heap h' = arc_heap h" "next_arc h' = next_arc h" "inArcsPerState h' = inArcsPerState h"
    "outArcsPerState h' = outArcsPerState h" "storesInArcs h' = storesInArcs h"
    "storesFirstTailOutArcs h' = storesFirstTailOutArcs h" "storesAllOutArcs h' = storesAllOutArcs h"
    "numStates h \<le> numStates h'" and lab: "s < numStates h \<Longrightarrow> inputLabel h' s = inputLabel h s" for s
    using E by (simp_all add: extends_def)
  have "arcs_bounded h'" using hg_wfD(1) [OF wf] e(8) unfolding arcs_bounded_def e(1,2,5)
    by (meson order_less_le_trans)
  then have wf': "hg_wf h'" using wf by (simp add: hg_wf_def storesArcs_cases storesOutArcs_cases e)
  have "arc_edge h' x = arc_edge h x" if "x \<in> ran (arc_heap h)" for x
    by (rule arc_states [OF wf fsm that]) (simp add: arc_edge_def lab)
  then have "edges h' = edges h" unfolding edges_def e by (rule image_cong [OF refl])
  then show ?thesis using assms(1,3,4) wf' by (simp add: fsa_ok_def fsm_arcs_def e)
qed

lemma extends_addState0:
  assumes "labels_wf h" and "numStates h < kNoState"
  shows "extends h (addState0 h)" "labels_wf (addState0 h)" "numStates (addState0 h) = Suc (numStates h)"
    "lstate_ok h \<Longrightarrow> lstate_ok (addState0 h)"
  using assms by (auto simp: extends_def addState0_def labels_wf_def inputLabel_def lstate_ok_def
      storesInArcs_def storesFirstTailOutArcs_def storesAllOutArcs_def flag_simps intro: less_SucI)

lemma addState_edges:
  assumes "fsa_ok h" and "numStates h < kNoState" and "addState h = (s, h')"
  shows "s = numStates h" "fsa_ok h'" "edges h' = edges h" "numStates h' = Suc (numStates h)" "extends h h'"
proof -
  have e: "s = numStates h" "h' = addState0 h" using assms(3) by (simp_all add: addState_def)
  note X = extends_addState0 [of h] and ok = assms(1) [unfolded fsa_ok_def]
  show "s = numStates h" "numStates h' = Suc (numStates h)" "extends h h'" using X ok assms(2) e by simp_all
  show "fsa_ok h'" "edges h' = edges h" using extends_edges [OF assms(1), of h'] X ok assms(2) e by simp_all
qed

lemma addStateImpl_edges:
  assumes "fsa_ok h" and "numStates h < kNoState" and "addStateImpl i h = (s, h')"
  shows "s = numStates h" "labels_wf h'" "inputLabel h' s = i" "numStates h' = Suc (numStates h)" "extends h h'"
    "lstate h' = lstate h"
proof -
  have e: "s = numStates h" "h' = addState0 (setInputLabelImpl s i h)"
    using assms(3) by (auto simp: addStateImpl_def Let_def)
  have r: "inputLabel h' t = (if t = s then i else inputLabel h t)" for t
    using assms(2) e by (simp add: inputLabel_setInputLabelImpl)
  have l: "labels_wf h" using assms(1) by (simp add: fsa_ok_def)
  then have ln: "length (setLabel (iLabelForState h) s i) \<le> Suc (numStates h)"
    using length_setLabel [of s "iLabelForState h" i] assms(2) e(1) by (simp add: labels_wf_def)
  show "s = numStates h" "inputLabel h' s = i" by (simp_all add: e(1) r)
  show "labels_wf h'" "numStates h' = Suc (numStates h)" "lstate h' = lstate h"
    using assms(2) l ln e by (auto simp: labels_wf_def addState0_def setInputLabelImpl_def)
  then show "extends h h'"
    using r e by (auto simp: extends_def addState0_def setInputLabelImpl_def storesInArcs_def
        storesFirstTailOutArcs_def storesAllOutArcs_def flag_simps)
qed

lemma addStateSym_edges:
  assumes ok: "fsa_ok h" and n: "numStates h < kNoState" and r: "addStateSym i h = (s, h')"
  shows "s < numStates h'" "fsa_ok h'" "edges h' = edges h" "inputLabel h' s = i" "extends h h'"
proof -
  have l: "lstate_ok h" using ok by (simp add: fsa_ok_def)
  obtain s1 h1 where a: "addStateImpl i h = (s1, h1)" by force
  note A = addStateImpl_edges [OF ok n a]
  have l1: "lstate_ok h1" using l A(5,6) by (fastforce simp: lstate_ok_def extends_def)
  have l2: "lstate_ok (h1\<lparr>lstate := (lstate h1)((i, NoSymbol) \<mapsto> s1)\<rparr>)"
    using l1 A(1,3,4) by (auto simp: lstate_ok_def inputLabel_def)
  have x2: "extends h (h1\<lparr>lstate := m\<rparr>)" "labels_wf (h1\<lparr>lstate := m\<rparr>)" for m
    using A(2,5) by (auto simp: extends_def labels_wf_def inputLabel_def storesInArcs_def
        storesFirstTailOutArcs_def storesAllOutArcs_def)
  have "s < numStates h' \<and> inputLabel h' s = i \<and> extends h h' \<and> labels_wf h' \<and> lstate_ok h'"
  proof (cases "\<not> has (props h) kCanonicalLex \<or> \<not> isTerminal i")
    case True
    then have "s = s1" "h' = h1" using r a by (auto simp: addStateSym_def)
    then show ?thesis using A l1 by simp
  next
    case False
    show ?thesis
    proof (cases "lstate h (i, NoSymbol)")
      case None
      then have "s = s1" "h' = h1\<lparr>lstate := (lstate h1)((i, NoSymbol) \<mapsto> s1)\<rparr>"
        using False r a by (auto simp: addStateSym_def)
      then show ?thesis using A l2 x2 by (simp add: inputLabel_def)
    next
      case (Some t)
      then have "s = t" "h' = h" using False r by (auto simp: addStateSym_def)
      then show ?thesis using Some l ok by (auto simp: lstate_ok_def extends_def fsa_ok_def)
    qed
  qed
  then show "s < numStates h'" "fsa_ok h'" "edges h' = edges h" "inputLabel h' s = i" "extends h h'"
    using extends_edges [OF ok, of h'] by simp_all
qed

lemma addNewArc_edges:
  fixes w :: 'w and h :: "'w hg"
  assumes ok: "fsa_ok h" and b: "q < numStates h" "l < numStates h" "r < numStates h"
  defines "h' \<equiv> snd (addNewArc (new_arc_fsm q l w r) h)"
  shows "fsa_ok h'" "edges h' = insert (q, inputLabel h l, r) (edges h)" "numStates h' = numStates h"
    "start_state h' = start_state h" "final_state h' = final_state h"
proof -
  let ?x = "new_arc_fsm q l w r"
  have wf: "hg_wf h" using ok by (simp add: fsa_ok_def)
  have "hg_wf h'" unfolding h'_def
    using addNewArc_step [OF wf, of ?x] b by (simp add: new_arc_fsm_def)
  moreover have h: "arc_heap h' = (arc_heap h)(next_arc h \<mapsto> ?x)" "numStates h' = numStates h"
    "iLabelForState h' = iLabelForState h" "oLabelForState h' = oLabelForState h" "lstate h' = lstate h"
    "start_state h' = start_state h" "final_state h' = final_state h"
    unfolding h'_def by (simp_all add: addNewArc_frame)
  moreover have fresh: "arc_heap h (next_arc h) = None"
    using hg_wfD(1) [OF wf] unfolding arcs_bounded_def by (metis less_irrefl not_Some_eq)
  then have ran: "ran (arc_heap h') = insert ?x (ran (arc_heap h))" by (simp add: h)
  moreover have lab: "inputLabel h' = inputLabel h" by (simp add: fun_eq_iff inputLabel_def h)
  ultimately show "fsa_ok h'" using ok
    by (simp add: fsa_ok_def labels_wf_def fsm_arcs_def lstate_ok_def new_arc_fsm_def)
  have "arc_edge h' = arc_edge h" by (simp add: fun_eq_iff arc_edge_def lab)
  then show "edges h' = insert (q, inputLabel h l, r) (edges h)"
    by (simp add: edges_def ran) (simp add: arc_edge_def new_arc_fsm_def)
  show "numStates h' = numStates h" "start_state h' = start_state h" "final_state h' = final_state h" by (simp_all add: h)
qed

lemma addArcFsa_edges:
  fixes w :: 'w and h :: "'w hg" and i :: Sym
  assumes ok: "fsa_ok h" and n: "numStates h < kNoState" and b: "q < numStates h" "r < numStates h"
  defines "h' \<equiv> snd (addArcFsa q r i w h)"
  shows "fsa_ok h'" "edges h' = insert (q, i, r) (edges h)" "numStates h \<le> numStates h'" "numStates h' \<le> Suc (numStates h)"
    "start_state h' = start_state h" "final_state h' = final_state h"
proof -
  obtain l h1 where a: "addStateSym i h = (l, h1)" by force
  note A = addStateSym_edges [OF ok n a]
  have e: "h' = snd (addNewArc (new_arc_fsm q l w r) h1)" by (simp add: h'_def addArcFsa_def a)
  have X: "numStates h \<le> numStates h1" "numStates h1 \<le> Suc (numStates h)" "start_state h1 = start_state h"
    "final_state h1 = final_state h"
    using A(5) by (simp_all add: extends_def)
  have b1: "q < numStates h1" "r < numStates h1" using b X(1) by simp_all
  note B = addNewArc_edges [OF A(2) b1(1) A(1) b1(2), of w, folded e]
  show "fsa_ok h'" "edges h' = insert (q, i, r) (edges h)" "numStates h \<le> numStates h'" "numStates h' \<le> Suc (numStates h)"
    "start_state h' = start_state h" "final_state h' = final_state h"
    using A B X by simp_all
qed

end
