(* ===== verification/Determinize_Letters.thy ===== *)
theory Determinize_Letters
  imports Determinize Fsa_Edges
begin

text \<open>
  The letters of a set of states: what \<open>initRhos\<close> reads off an fsa, and that the loops of \<open>genOut\<close>
  compute the subset step, \<open>rho\<close> arcs included.
\<close>

section \<open>Reading an fsa\<close>

text \<open>A \<open>rho\<close> arc reads every symbol that no other arc of its state carries.\<close>

definition fsa_step :: "DeterminizeFlags \<Rightarrow> (StateId \<times> Sym \<times> StateId) set \<Rightarrow> Sym \<Rightarrow> StateId \<Rightarrow> StateId \<Rightarrow> bool" where
  "fsa_step flags E x s t \<longleftrightarrow>
     \<not> det_rho flags x \<and> \<not> det_eps flags x \<and>
     ((s, x, t) \<in> E \<or> det_rho flags RHO_ID \<and> (s, RHO_ID, t) \<in> E \<and> (\<forall>t'. (s, x, t') \<notin> E))"

inductive fsa_run :: "DeterminizeFlags \<Rightarrow> (StateId \<times> Sym \<times> StateId) set \<Rightarrow> StateId \<Rightarrow> Sym list \<Rightarrow> StateId \<Rightarrow> bool" for flags E where
  run_nil: "fsa_run flags E s [] s"
| run_eps: "(s, x, r) \<in> E \<Longrightarrow> det_eps flags x \<Longrightarrow> fsa_run flags E r w t \<Longrightarrow> fsa_run flags E s w t"
| run_letter: "fsa_step flags E x s r \<Longrightarrow> fsa_run flags E r w t \<Longrightarrow> fsa_run flags E s (x # w) t"

definition fsa_accepts :: "DeterminizeFlags \<Rightarrow> 'w hg \<Rightarrow> Sym list \<Rightarrow> bool" where
  "fsa_accepts flags h w \<longleftrightarrow>
     start_state h \<noteq> kNoState \<and> final_state h \<noteq> kNoState \<and> fsa_run flags (edges h) (start_state h) w (final_state h)"

text \<open>The fsa the theorem is about: what \<open>assertCanDeterminize\<close> lets through, without epsilon arcs.\<close>

definition graph_states :: "'w hg \<Rightarrow> StateId set" where
  "graph_states h = {s. s < numStates h \<and> inputLabel h s = NoSymbol}"

definition det_input :: "DeterminizeFlags \<Rightarrow> 'w hg \<Rightarrow> bool" where
  "det_input flags h \<longleftrightarrow>
     hg_wf h \<and> storesOutArcs h \<and> fsm_arcs h \<and> numStates h \<le> kNoState \<and> start_state h \<in> graph_states h \<and>
     (\<forall>x \<in> ran (arc_heap h). inputLabel h (arc_tails x ! 0) = NoSymbol \<and> inputLabel h (arc_tails x ! 1) \<noteq> NoSymbol \<and>
        inputLabel h (arc_head x) = NoSymbol) \<and>
     (\<forall>s < numStates h. \<not> isEps (inputLabel h s) \<and> \<not> NotDeterminized flags (inputLabel h s))"

section \<open>Sorted lists as sets\<close>

abbreviation sl :: "StateId set \<Rightarrow> QSet" where "sl \<equiv> sorted_list_of_set"

lemma sl_eq: "finite A \<Longrightarrow> sorted qs \<Longrightarrow> distinct qs \<Longrightarrow> set qs = A \<Longrightarrow> qs = sl A"
  by (simp add: sorted_distinct_set_unique)

lemma qadd_sl: "finite A \<Longrightarrow> qadd r (sl A) = sl (insert r A)"
  by (rule sl_eq) (simp_all add: qadd_def set_insort_insert sorted_insort_insert distinct_insort_insert)

lemma qadd_Nil: "qadd r [] = sl {r}"
  using qadd_sl [of "{}" r] by simp

lemma fold_qadd_sl: "finite A \<Longrightarrow> fold qadd rs (sl A) = sl (A \<union> set rs)"
  by (induction rs arbitrary: A) (simp_all add: qadd_sl del: sorted_list_of_set_insert_remove)

lemma addqs_sl: "finite A \<Longrightarrow> fst (addqs c (sl A, b)) = sl (A \<union> set c)"
proof -
  assume "finite A"
  moreover have "fst (fold (\<lambda>s (qs, anyadded). (qadd s qs, anyadded \<or> s \<notin> set qs)) c (qs, b)) = fold qadd c qs" for qs
    by (induction c arbitrary: qs b) simp_all
  ultimately show ?thesis by (simp add: addqs_def fold_qadd_sl)
qed

section \<open>The letters of every state\<close>

definition env_ok :: "DeterminizeFlags \<Rightarrow> det_env \<Rightarrow> (StateId \<times> Sym \<times> StateId) set \<Rightarrow> StateId set \<Rightarrow> bool" where
  "env_ok flags e E S \<longleftrightarrow>
     \<not> specialEps e \<and> finite S \<and> finite E \<and> E \<subseteq> S \<times> UNIV \<times> S \<and>
     (\<forall>s \<in> S. set (arcs (rhos e ! s)) = {(x, t). (s, x, t) \<in> E \<and> \<not> det_rho flags x} \<and>
        set (normals (rhos e ! s)) = {x. \<not> det_rho flags x \<and> (\<exists>t. (s, x, t) \<in> E)} \<and>
        set (qrhos (rhos e ! s)) = {t. (s, RHO_ID, t) \<in> E \<and> det_rho flags RHO_ID})"

lemma det_rho_ID: "det_rho flags x \<longleftrightarrow> x = RHO_ID \<and> det_rho flags RHO_ID"
  by (auto simp: det_rho_def is_det_special_def)

lemma det_special_ids: "det_eps flags x \<Longrightarrow> x = EPSILON_ID" "det_rho flags x \<Longrightarrow> x = RHO_ID"
  "isEps x \<longleftrightarrow> x = EPSILON_ID"
  by (simp_all add: det_eps_def det_rho_def is_det_special_def isEps_def)

lemma addLetters_ok:
  fixes i :: "'w hg"
  defines "lab \<equiv> \<lambda>a. inputLabel i (fsmSymbolState (arcAt i a))" and "hd' \<equiv> \<lambda>a. arc_head (arcAt i a)"
  assumes "\<forall>a \<in> set as. \<not> det_eps flags (lab a) \<and> \<not> NotDeterminized flags (lab a)"
  shows "\<exists>l'. addLetters flags i as l = Inr l' \<and>
     set (arcs l') = set (arcs l) \<union> {(lab a, hd' a) | a. a \<in> set as \<and> \<not> det_rho flags (lab a)} \<and>
     set (normals l') = set (normals l) \<union> {lab a | a. a \<in> set as \<and> \<not> det_rho flags (lab a)} \<and>
     set (qrhos l') = set (qrhos l) \<union> {hd' a | a. a \<in> set as \<and> det_rho flags (lab a)}"
  using assms(3)
proof (induction as arbitrary: l)
  case Nil
  then show ?case by simp
next
  case (Cons a as)
  let ?l = "if det_rho flags (lab a) then l\<lparr>qrhos := qrhos l @ [hd' a]\<rparr>
            else l\<lparr>normals := List.insert (lab a) (normals l), arcs := arcs l @ [(lab a, hd' a)]\<rparr>"
  have s: "addLetter flags (lab a) (hd' a) l = Inr ?l"
    using Cons.prems by (simp add: addLetter_def NotDeterminized_def)
  obtain l' where l': "addLetters flags i as ?l = Inr l'"
    "set (arcs l') = set (arcs ?l) \<union> {(lab a, hd' a) | a. a \<in> set as \<and> \<not> det_rho flags (lab a)}"
    "set (normals l') = set (normals ?l) \<union> {lab a | a. a \<in> set as \<and> \<not> det_rho flags (lab a)}"
    "set (qrhos l') = set (qrhos ?l) \<union> {hd' a | a. a \<in> set as \<and> det_rho flags (lab a)}"
    using Cons.IH [of ?l] Cons.prems by auto
  have "addLetters flags i (a # as) l = Inr l'"
    using s l'(1) by (simp add: bindR_def lab_def hd'_def)
  then show ?case using l'(2,3,4) by (cases "det_rho flags (lab a)") auto
qed

lemma det_outArcs:
  assumes D: "det_input flags h" and s: "s \<in> graph_states h"
  shows "a \<in> set (outArcsOf h s) \<longleftrightarrow> (\<exists>x. arc_heap h a = Some x \<and> arc_tails x ! 0 = s)"
proof -
  have wf: "hg_wf h" and fsm: "fsm_arcs h" and st: "storesOutArcs h" using D by (simp_all add: det_input_def)
  have tails: "\<exists>l. arc_tails x = [arc_tails x ! 0, l] \<and> l \<noteq> s" if "arc_heap h a = Some x" for x
  proof -
    have x: "x \<in> ran (arc_heap h)" using that by (auto simp: ran_def)
    show ?thesis using D s x by (rule_tac arc_states [OF wf fsm x]) (auto simp: det_input_def graph_states_def)
  qed
  have mem: "a \<in> set (outArcsOf h s) \<longleftrightarrow> count_list (getOrElse (outArcsPerState h) s []) a \<noteq> 0"
    by (simp add: outArcsOf_def count_list_0_iff)
  show ?thesis
  proof (cases "storesFirstTailOutArcs h")
    case True
    then have "index_ok first_weight (arc_heap h) (outArcsPerState h)" using wf by (simp add: hg_wf_def)
    then show ?thesis using mem tails
      by (auto simp: index_ok_def first_weight_def split: option.splits) (metis list.sel(1) list.distinct(1))+
  next
    case False
    then have "index_ok out_weight (arc_heap h) (outArcsPerState h)" using wf st
      by (simp add: hg_wf_def storesOutArcs_cases)
    then have "a \<in> set (outArcsOf h s) \<longleftrightarrow> (\<exists>x. arc_heap h a = Some x \<and> s \<in> set (arc_tails x))"
      by (auto simp: mem index_ok_def out_weight_def count_list_pos split: option.splits)
    then show ?thesis using tails by (metis list.set_intros(1) set_ConsD empty_iff list.set(1))
  qed
qed

lemma index_ok_live:
  assumes "index_ok w heap adj" and "a \<in> set (getOrElse adj s [])"
  shows "\<exists>x. heap a = Some x"
proof -
  have "count_list (getOrElse adj s []) a = (case heap a of None \<Rightarrow> 0 | Some x \<Rightarrow> w x s)"
    using assms(1) by (simp add: index_ok_def)
  then show ?thesis using assms(2) by (cases "heap a") (simp_all add: count_list_0_iff)
qed

lemma initRhos_from_ok:
  assumes "\<forall>s \<in> set ss. \<exists>l. addLetters t i (outArcsOf i s) outi_empty = Inr l"
  shows "initRhos_from t i ss = Inr (map (\<lambda>s. projr (addLetters t i (outArcsOf i s) outi_empty)) ss)"
  using assms by (induction ss) (auto simp: bindR_def)

lemma det_arc_labels:
  assumes D: "det_input flags h" and a: "a \<in> set (outArcsOf h s)"
  shows "\<not> det_eps flags (inputLabel h (fsmSymbolState (arcAt h a)))" "\<not> NotDeterminized flags (inputLabel h (fsmSymbolState (arcAt h a)))"
proof -
  have wf: "hg_wf h" and fsm: "fsm_arcs h" and st: "storesOutArcs h" using D by (simp_all add: det_input_def)
  obtain x where x: "arc_heap h a = Some x"
    using wf st index_ok_live a unfolding hg_wf_def storesOutArcs_cases outArcsOf_def by metis
  have "x \<in> ran (arc_heap h)" using x by (auto simp: ran_def)
  then obtain c b where "arc_tails x = [c, b]" "b < numStates h" by (rule arc_states [OF wf fsm])
  then show "\<not> det_eps flags (inputLabel h (fsmSymbolState (arcAt h a)))" "\<not> NotDeterminized flags (inputLabel h (fsmSymbolState (arcAt h a)))"
    using D x by (auto simp: det_input_def arcAt_def fsmSymbolState_def det_special_ids(3) dest: det_special_ids(1))
qed

lemma edges_bounds: "det_input flags h \<Longrightarrow> (s, x, t) \<in> edges h \<Longrightarrow> s \<in> graph_states h \<and> t \<in> graph_states h"
  using edges_states [of h s x t] by (auto simp: det_input_def graph_states_def edges_def arc_edge_def)

lemma edges_ordinary: "det_input flags h \<Longrightarrow> (s, x, t) \<in> edges h \<Longrightarrow> \<not> det_eps flags x \<and> \<not> NotDeterminized flags x"
proof -
  assume D: "det_input flags h" and e: "(s, x, t) \<in> edges h"
  then obtain y where y: "y \<in> ran (arc_heap h)" "x = inputLabel h (arc_tails y ! 1)" by (auto simp: edges_def arc_edge_def)
  have "hg_wf h" "fsm_arcs h" using D by (simp_all add: det_input_def)
  then obtain a b where "arc_tails y = [a, b]" "b < numStates h" by (rule arc_states) (use y in auto)
  then show ?thesis using D y by (auto simp: det_input_def det_special_ids(3) dest: det_special_ids(1))
qed

lemma finite_edges: "hg_wf h \<Longrightarrow> finite (edges h)"
proof -
  assume "hg_wf h"
  then have "dom (arc_heap h) \<subseteq> {..<next_arc h}" using hg_wfD(1) by (auto simp: arcs_bounded_def)
  then have "finite (dom (arc_heap h))" by (rule finite_subset) simp
  then show ?thesis unfolding edges_def by (intro finite_imageI finite_ran)
qed

lemma det_out_edges:
  assumes "det_input flags h" and "s \<in> graph_states h"
  shows "{(inputLabel h (fsmSymbolState (arcAt h a)), arc_head (arcAt h a)) | a. a \<in> set (outArcsOf h s) \<and> P (inputLabel h (fsmSymbolState (arcAt h a)))}
     = {(x, t). (s, x, t) \<in> edges h \<and> P x}"
  using det_outArcs [OF assms] by (auto simp: edges_def arc_edge_def arcAt_def fsmSymbolState_def ran_def image_iff) force

lemma state_letters:
  assumes D: "det_input flags h" and s: "s \<in> graph_states h"
  shows "\<exists>l'. addLetters flags h (outArcsOf h s) outi_empty = Inr l' \<and>
     set (arcs l') = {(x, t). (s, x, t) \<in> edges h \<and> \<not> det_rho flags x} \<and>
     set (normals l') = {x. \<not> det_rho flags x \<and> (\<exists>t. (s, x, t) \<in> edges h)} \<and>
     set (qrhos l') = {t. (s, RHO_ID, t) \<in> edges h \<and> det_rho flags RHO_ID}"
proof -
  define lab where "lab = (\<lambda>a. inputLabel h (fsmSymbolState (arcAt h a)))"
  have E: "{(lab a, arc_head (arcAt h a)) | a. a \<in> set (outArcsOf h s) \<and> P (lab a)} = {(x, t). (s, x, t) \<in> edges h \<and> P x}" for P
    unfolding lab_def by (rule det_out_edges [OF D s])
  have "\<forall>a \<in> set (outArcsOf h s). \<not> det_eps flags (lab a) \<and> \<not> NotDeterminized flags (lab a)"
    using det_arc_labels [OF D] by (simp add: lab_def)
  from addLetters_ok [OF this [unfolded lab_def], of outi_empty, folded lab_def]
  obtain l' where l: "addLetters flags h (outArcsOf h s) outi_empty = Inr l'"
    "set (arcs l') = {(lab a, arc_head (arcAt h a)) | a. a \<in> set (outArcsOf h s) \<and> \<not> det_rho flags (lab a)}"
    "set (normals l') = {lab a | a. a \<in> set (outArcsOf h s) \<and> \<not> det_rho flags (lab a)}"
    "set (qrhos l') = {arc_head (arcAt h a) | a. a \<in> set (outArcsOf h s) \<and> det_rho flags (lab a)}"
    unfolding outi_empty_def lab_def by auto
  have n: "{lab a | a. a \<in> set (outArcsOf h s) \<and> P (lab a)} = {x. P x \<and> (\<exists>t. (s, x, t) \<in> edges h)}" for P
    using arg_cong [OF E [of P], of "\<lambda>X. fst ` X"] by (simp add: set_eq_iff image_iff) blast
  have q: "{arc_head (arcAt h a) | a. a \<in> set (outArcsOf h s) \<and> P (lab a)} = {t. \<exists>x. P x \<and> (s, x, t) \<in> edges h}" for P
    using arg_cong [OF E [of P], of "\<lambda>X. snd ` X"] by (simp add: set_eq_iff image_iff) blast
  show ?thesis using l E [of "\<lambda>x. \<not> det_rho flags x"] n [of "\<lambda>x. \<not> det_rho flags x"] q [of "det_rho flags"]
    by (simp add: det_rho_ID [of flags, symmetric]) (auto dest: det_special_ids(2))
qed

lemma addLetters_total: "det_input flags h \<Longrightarrow> \<exists>l. addLetters flags h (outArcsOf h s) outi_empty = Inr l"
  using addLetters_ok [of "outArcsOf h s" flags h outi_empty] det_arc_labels [of flags h] by blast

lemma initRhos_ok:
  assumes D: "det_input flags h"
  obtains rs where "initRhos flags h = Inr rs"
    "\<And>e'. env_ok flags \<lparr>eps_outs = e', specialEps = False, rhos = rs, qfinali = f\<rparr> (edges h) (graph_states h)"
proof -
  let ?r = "\<lambda>s. projr (addLetters flags h (outArcsOf h s) outi_empty)"
  let ?rs = "map ?r [0..<numStates h]"
  have "initRhos flags h = Inr ?rs"
    unfolding initRhos_def by (rule initRhos_from_ok) (use addLetters_total [OF D] in simp)
  moreover have "env_ok flags \<lparr>eps_outs = e', specialEps = False, rhos = ?rs, qfinali = f\<rparr> (edges h) (graph_states h)" for e'
  proof -
    have "?rs ! s = projr (addLetters flags h (outArcsOf h s) outi_empty)" if "s \<in> graph_states h" for s
      using that by (simp add: graph_states_def)
    then have "set (arcs (?rs ! s)) = {(x, t). (s, x, t) \<in> edges h \<and> \<not> det_rho flags x} \<and>
        set (normals (?rs ! s)) = {x. \<not> det_rho flags x \<and> (\<exists>t. (s, x, t) \<in> edges h)} \<and>
        set (qrhos (?rs ! s)) = {t. (s, RHO_ID, t) \<in> edges h \<and> det_rho flags RHO_ID}" if s: "s \<in> graph_states h" for s
      using state_letters [OF D s] s by fastforce
    moreover have "finite (edges h)" "finite (graph_states h)"
      using finite_edges [of h] D by (simp_all add: det_input_def graph_states_def)
    moreover have "edges h \<subseteq> graph_states h \<times> UNIV \<times> graph_states h" using edges_bounds [OF D] by auto
    ultimately show ?thesis by (simp add: env_ok_def)
  qed
  ultimately show thesis by (rule that)
qed

section \<open>The letters of a subset\<close>

definition subset_step :: "DeterminizeFlags \<Rightarrow> (StateId \<times> Sym \<times> StateId) set \<Rightarrow> Sym \<Rightarrow> StateId set \<Rightarrow> StateId set" where
  "subset_step flags E x Q = {t. \<exists>s \<in> Q. fsa_step flags E x s t}"

definition rho_targets :: "DeterminizeFlags \<Rightarrow> (StateId \<times> Sym \<times> StateId) set \<Rightarrow> StateId set \<Rightarrow> StateId set" where
  "rho_targets flags E Q = {t. \<exists>s \<in> Q. (s, RHO_ID, t) \<in> E \<and> det_rho flags RHO_ID}"

definition letters :: "DeterminizeFlags \<Rightarrow> (StateId \<times> Sym \<times> StateId) set \<Rightarrow> StateId set \<Rightarrow> Sym set" where
  "letters flags E Q = {x. \<not> det_rho flags x \<and> (\<exists>s \<in> Q. \<exists>t. (s, x, t) \<in> E)}"

text \<open>What \<open>delta\<close> holds after some letters: for each letter read, its successors as a sorted list.\<close>

definition delta_ok :: "(Sym \<times> StateId) set \<Rightarrow> delta_map \<Rightarrow> bool" where
  "delta_ok P d \<longleftrightarrow> finite P \<and> distinct (map fst d) \<and> set d = {(x, sl {t. (x, t) \<in> P}) | x. x \<in> Domain P}"

lemma delta_ok_Nil: "delta_ok {} []"
  by (simp add: delta_ok_def)

lemma delta_ok_finite: "finite P \<Longrightarrow> finite {t. (x, t) \<in> P}"
  by (rule finite_subset [of _ "Range P"]) (auto intro: finite_Range)

lemma delta_ok_map_of: "delta_ok P d \<Longrightarrow> map_of d x = (if x \<in> Domain P then Some (sl {t. (x, t) \<in> P}) else None)"
proof -
  assume d: "delta_ok P d"
  have "fst ` set d = Domain P" using d by (fastforce simp: delta_ok_def image_iff)
  moreover have "x \<in> Domain P \<Longrightarrow> (x, sl {t. (x, t) \<in> P}) \<in> set d" using d by (auto simp: delta_ok_def)
  ultimately show ?thesis using d by (auto simp: delta_ok_def map_of_eq_None_iff)
qed

lemma delta_add_ok:
  assumes d: "delta_ok P d"
  shows "delta_ok (insert (x, r) P) (delta_add x r d)"
proof (cases "x \<in> Domain P")
  case False
  have s: "sl {t. (x, t) \<in> insert (x, r) P} = [r]"
  proof -
    have "{t. (x, t) \<in> insert (x, r) P} = {r}" using False by auto
    then show ?thesis by simp
  qed
  have o: "y \<noteq> x \<Longrightarrow> {t. (y, t) \<in> insert (x, r) P} = {t. (y, t) \<in> P}" for y by auto
  have "delta_add x r d = d @ [(x, [r])]" using delta_ok_map_of [OF d, of x] False by (simp add: delta_add_def)
  moreover have "x \<notin> fst ` set d" using d False by (auto simp: delta_ok_def)
  moreover have "set (d @ [(x, [r])]) = {(y, sl {t. (y, t) \<in> insert (x, r) P}) | y. y \<in> Domain (insert (x, r) P)}"
    (is "_ = ?R")
  proof -
    have "?R = insert (x, [r]) {(y, sl {t. (y, t) \<in> P}) | y. y \<in> Domain P}"
      using False s o by auto (metis DomainI)+
    then show ?thesis using d by (simp add: delta_ok_def)
  qed
  ultimately show ?thesis using d by (simp add: delta_ok_def)
next
  case True
  let ?f = "\<lambda>(y, ys). if y = x then (y, qadd r ys) else (y, ys)"
  have q: "qadd r (sl {t. (x, t) \<in> P}) = sl {t. (x, t) \<in> insert (x, r) P}"
  proof -
    have "{t. (x, t) \<in> insert (x, r) P} = insert r {t. (x, t) \<in> P}" by auto
    then show ?thesis using qadd_sl [OF delta_ok_finite, of P r x] d by (simp only: delta_ok_def)
  qed
  have o: "y \<noteq> x \<Longrightarrow> {t. (y, t) \<in> insert (x, r) P} = {t. (y, t) \<in> P}" for y by auto
  have e: "delta_add x r d = map ?f d" using delta_ok_map_of [OF d, of x] True by (simp add: delta_add_def)
  have f: "fst \<circ> ?f = fst" by (auto simp: fun_eq_iff)
  have "distinct (map fst (map ?f d))" using d by (simp add: delta_ok_def f)
  moreover have "Domain (insert (x, r) P) = Domain P" using True by auto
  moreover have "?f (y, sl {t. (y, t) \<in> P}) = (y, sl {t. (y, t) \<in> insert (x, r) P})" for y
    using q o [of y] by (cases "y = x") simp_all
  then have "?f ` {(y, sl {t. (y, t) \<in> P}) | y. y \<in> Domain P} = {(y, sl {t. (y, t) \<in> insert (x, r) P}) | y. y \<in> Domain P}"
    unfolding Setcompr_eq_image image_image by simp
  ultimately show ?thesis using d by (simp add: delta_ok_def e)
qed

lemma fold_delta_add_ok: "delta_ok P d \<Longrightarrow> delta_ok (P \<union> set xs) (fold (\<lambda>(x, r). delta_add x r) xs d)"
proof (induction xs arbitrary: P d)
  case (Cons p xs)
  obtain x r where p: "p = (x, r)" by force
  show ?case using Cons.IH [OF delta_add_ok [OF Cons.prems, of x r]] by (simp add: p)
qed simp

definition normal_letters :: "DeterminizeFlags \<Rightarrow> (StateId \<times> Sym \<times> StateId) set \<Rightarrow> StateId set \<Rightarrow> (Sym \<times> StateId) set" where
  "normal_letters flags E Q = {(x, t). \<exists>s \<in> Q. (s, x, t) \<in> E \<and> \<not> det_rho flags x}"

lemma finite_rho_targets: "finite E \<Longrightarrow> finite (rho_targets flags E Q)"
  by (rule finite_subset [of _ "Range (Range E)"]) (auto simp: rho_targets_def intro: finite_Range)

lemma normal_letters_Un: "normal_letters flags E (insert s Q) = normal_letters flags E Q \<union> normal_letters flags E {s}"
  by (auto simp: normal_letters_def)

lemma rho_targets_Un: "rho_targets flags E (insert s Q) = rho_targets flags E Q \<union> rho_targets flags E {s}"
  by (auto simp: rho_targets_def)

lemma collect_correct:
  assumes e: "env_ok flags e E S" and "set qs \<subseteq> S"
  shows "\<exists>d qrho. collect e qs = (d, qrho, sl (rho_targets flags E (set qs))) \<and>
     delta_ok (normal_letters flags E (set qs)) d \<and> set qrho = {s \<in> set qs. rho_targets flags E {s} \<noteq> {}}"
  using assms(2)
proof (induction qs rule: rev_induct)
  case Nil
  then show ?case by (simp add: collect_def delta_ok_Nil rho_targets_def normal_letters_def)
next
  case (snoc s qs)
  then obtain d qrho where c: "collect e qs = (d, qrho, sl (rho_targets flags E (set qs)))"
    "delta_ok (normal_letters flags E (set qs)) d" "set qrho = {s \<in> set qs. rho_targets flags E {s} \<noteq> {}}"
    by auto
  have s: "set (arcs (rhos e ! s)) = normal_letters flags E {s}" "set (qrhos (rhos e ! s)) = rho_targets flags E {s}"
    using e snoc.prems by (auto simp: env_ok_def normal_letters_def rho_targets_def)
  have f: "finite (rho_targets flags E (set qs))" using e finite_rho_targets by (auto simp: env_ok_def)
  let ?p = "rhos e ! s" and ?d = "fold (\<lambda>(x, r). delta_add x r) (arcs (rhos e ! s)) d"
  have "collect e (qs @ [s]) =
      (?d, if qrhos ?p \<noteq> [] then qrho @ [s] else qrho,
       if qrhos ?p \<noteq> [] then fst (addqs (qrhos ?p) (sl (rho_targets flags E (set qs)), False)) else sl (rho_targets flags E (set qs)))"
    using c(1) unfolding collect_def fold_append by (cases "qrhos ?p = []") (simp_all add: Let_def)
  moreover have "(if qrhos ?p \<noteq> [] then fst (addqs (qrhos ?p) (sl (rho_targets flags E (set qs)), False)) else sl (rho_targets flags E (set qs)))
     = sl (rho_targets flags E (set (qs @ [s])))"
  proof -
    have "sl (rho_targets flags E (set (qs @ [s]))) = sl (rho_targets flags E (set qs) \<union> set (qrhos ?p))"
      unfolding s(2) rho_targets_Un [of flags E s "set qs", symmetric] by simp
    then show ?thesis by (cases "qrhos ?p = []") (simp_all add: addqs_sl [OF f])
  qed
  ultimately have C: "collect e (qs @ [s]) =
      (?d, if qrhos ?p \<noteq> [] then qrho @ [s] else qrho, sl (rho_targets flags E (set (qs @ [s]))))" by (simp only:)
  moreover have "delta_ok (normal_letters flags E (set (qs @ [s]))) ?d"
    using fold_delta_add_ok [OF c(2), of "arcs ?p"] unfolding s(1) normal_letters_Un [of flags E s "set qs", symmetric] by simp
  moreover have "set (if qrhos ?p \<noteq> [] then qrho @ [s] else qrho) = {u \<in> set (qs @ [s]). rho_targets flags E {u} \<noteq> {}}"
  proof -
    have "qrhos ?p = [] \<longleftrightarrow> rho_targets flags E {s} = {}" using s(2) by (metis set_empty)
    then show ?thesis by (cases "qrhos ?p = []") (auto simp: c(3))
  qed
  ultimately show ?case by blast
qed

lemma withRhos_correct:
  assumes e: "env_ok flags e E S" and q: "set qrho \<subseteq> S" and A: "finite A"
  shows "withRhos e qrho (i, sl A) = sl (A \<union> {t. \<exists>s \<in> set qrho. i \<notin> set (normals (rhos e ! s)) \<and> t \<in> rho_targets flags E {s}})"
  using q A
proof (induction qrho arbitrary: A)
  case Nil
  then show ?case by (simp add: withRhos_def)
next
  case (Cons s qrho)
  have s: "set (qrhos (rhos e ! s)) = rho_targets flags E {s}"
    using e Cons.prems by (auto simp: env_ok_def rho_targets_def)
  let ?A = "if i \<notin> set (normals (rhos e ! s)) then A \<union> rho_targets flags E {s} else A"
  have "withRhos e (s # qrho) (i, sl A) = withRhos e qrho (i, sl ?A)"
    using fold_qadd_sl [OF Cons.prems(2), of "qrhos (rhos e ! s)"] by (simp add: withRhos_def Let_def s)
  moreover have "finite ?A" using Cons.prems(2) finite_rho_targets e by (auto simp: env_ok_def)
  ultimately have "withRhos e (s # qrho) (i, sl A) = sl (?A \<union> {t. \<exists>s \<in> set qrho. i \<notin> set (normals (rhos e ! s)) \<and> t \<in> rho_targets flags E {s}})"
    using Cons.IH [of ?A] Cons.prems(1) by simp
  moreover have "?A \<union> {t. \<exists>s \<in> set qrho. i \<notin> set (normals (rhos e ! s)) \<and> t \<in> rho_targets flags E {s}} =
     A \<union> {t. \<exists>s \<in> set (s # qrho). i \<notin> set (normals (rhos e ! s)) \<and> t \<in> rho_targets flags E {s}}" by auto
  ultimately show ?case by simp
qed

text \<open>The arcs of the subset \<open>Q\<close>: on every letter to the subset step, and on \<open>rho\<close> to what is left.\<close>

definition det_targets :: "DeterminizeFlags \<Rightarrow> (StateId \<times> Sym \<times> StateId) set \<Rightarrow> StateId set \<Rightarrow> (Sym \<times> StateId set) set" where
  "det_targets flags E Q =
     {(x, subset_step flags E x Q) | x. x \<in> letters flags E Q} \<union>
     (if rho_targets flags E Q = {} then {} else {(RHO_ID, rho_targets flags E Q)})"

definition det_list :: "(delta_map \<Rightarrow> delta_map) \<Rightarrow> det_env \<Rightarrow> QSet \<Rightarrow> (Sym \<times> QSet) list" where
  "det_list ord e qs =
     (let (delta, qrho, qallrho) = collect e qs
      in (if qrho = [] then [] else [(RHO_ID, qallrho)]) @ map (\<lambda>(i, dqs). (i, withRhos e qrho (i, dqs))) (ord delta))"

lemma subset_step_eq:
  assumes "env_ok flags e E S" and "Q \<subseteq> S" and "x \<in> letters flags E Q" and ne: "\<forall>s t y. (s, y, t) \<in> E \<longrightarrow> \<not> det_eps flags y"
  shows "subset_step flags E x Q = {t. (x, t) \<in> normal_letters flags E Q} \<union>
     {t. \<exists>s \<in> {s \<in> Q. rho_targets flags E {s} \<noteq> {}}. x \<notin> set (normals (rhos e ! s)) \<and> t \<in> rho_targets flags E {s}}"
proof -
  have "\<not> det_rho flags x" "\<not> det_eps flags x" using assms(3) ne by (auto simp: letters_def)
  moreover have "s \<in> Q \<Longrightarrow> x \<in> set (normals (rhos e ! s)) \<longleftrightarrow> (\<exists>t. (s, x, t) \<in> E)" for s
    using assms(1,2) \<open>\<not> det_rho flags x\<close> subsetD [OF assms(2)] by (simp add: env_ok_def)
  ultimately show ?thesis
    by (auto simp: subset_step_def fsa_step_def normal_letters_def rho_targets_def)
qed

lemma det_list_correct:
  assumes e: "env_ok flags e E S" and Q: "Q \<subseteq> S" and ne: "\<forall>s t y. (s, y, t) \<in> E \<longrightarrow> \<not> det_eps flags y"
    and ord: "\<And>d. mset (ord d) = mset d"
  shows "distinct (map fst (det_list ord e (sl Q)))"
    "set (det_list ord e (sl Q)) = {(x, sl R) | x R. (x, R) \<in> det_targets flags E Q}"
proof -
  have fQ: "finite Q" using e Q by (auto simp: env_ok_def intro: finite_subset)
  obtain d qrho where c: "collect e (sl Q) = (d, qrho, sl (rho_targets flags E Q))"
    "delta_ok (normal_letters flags E Q) d" "set qrho = {s \<in> Q. rho_targets flags E {s} \<noteq> {}}"
    using collect_correct [OF e, of "sl Q"] fQ Q by auto
  have so: "set (ord d) = set d" by (metis ord set_mset_mset)
  have D: "Domain (normal_letters flags E Q) = letters flags E Q" by (auto simp: normal_letters_def letters_def)
  have sd: "set d = {(x, sl {t. (x, t) \<in> normal_letters flags E Q}) | x. x \<in> letters flags E Q}"
    using c(2) by (simp add: delta_ok_def D)
  have w: "withRhos e qrho (x, sl {t. (x, t) \<in> normal_letters flags E Q}) = sl (subset_step flags E x Q)"
    if x: "x \<in> letters flags E Q" for x
  proof -
    have "set qrho \<subseteq> S" "finite {t. (x, t) \<in> normal_letters flags E Q}"
      using c(2,3) Q delta_ok_finite [of _ x] by (auto simp: delta_ok_def)
    then show ?thesis unfolding subset_step_eq [OF e Q x ne] c(3) [symmetric] by (rule withRhos_correct [OF e])
  qed
  have m: "(\<lambda>(i, dqs). (i, withRhos e qrho (i, dqs))) ` set (ord d) = {(x, sl (subset_step flags E x Q)) | x. x \<in> letters flags E Q}"
    unfolding so sd Setcompr_eq_image image_image using w by simp
  have r: "qrho = [] \<longleftrightarrow> rho_targets flags E Q = {}" using c(3) by (auto simp: rho_targets_def set_empty [symmetric] simp del: set_empty)
  have L: "det_list ord e (sl Q) = (if qrho = [] then [] else [(RHO_ID, sl (rho_targets flags E Q))]) @
      map (\<lambda>(i, dqs). (i, withRhos e qrho (i, dqs))) (ord d)" by (simp add: det_list_def c(1))
  show "set (det_list ord e (sl Q)) = {(x, sl R) | x R. (x, R) \<in> det_targets flags E Q}"
    unfolding L set_append set_map m by (auto simp: r det_targets_def)
  have f: "map fst (map (\<lambda>(i, dqs). (i, withRhos e qrho (i, dqs))) (ord d)) = map fst (ord d)" by auto
  have "mset (map fst (ord d)) = mset (map fst d)" using ord by simp
  then have "distinct (map fst (ord d))" using c(2) by (metis delta_ok_def mset_eq_imp_distinct_iff)
  moreover have "RHO_ID \<notin> fst ` set (ord d)" if "qrho \<noteq> []"
    using that r by (auto simp: so sd letters_def rho_targets_def)
  ultimately show "distinct (map fst (det_list ord e (sl Q)))" unfolding L map_append f by auto
qed

end
