(* ===== verification/Determinize_Loop.thy ===== *)
theory Determinize_Loop
  imports Determinize_Letters
begin

text \<open>
  The invariant of \<open>DeterminizeFsa\<close>: the subsets found so far have different states of the output, the
  subsets that are not on the agenda have exactly their arcs. Each round removes one subset from the
  agenda and there are finitely many, so that the loop ends.
\<close>

section \<open>The invariant\<close>

definition is_expanded :: "'w det \<Rightarrow> StateId \<Rightarrow> bool" where
  "is_expanded d q \<longleftrightarrow> q < length (expanded d) \<and> expanded d ! q"

text \<open>\<open>D\<close> holds the arcs added so far, as subset, letter and subset.\<close>

definition det_edges :: "(QSet \<times> Sym \<times> QSet) set \<Rightarrow> (QSet \<rightharpoonup> StateId) \<Rightarrow> (StateId \<times> Sym \<times> StateId) set" where
  "det_edges D ex = {(q, x, r). \<exists>qs rs. (qs, x, rs) \<in> D \<and> ex qs = Some q \<and> ex rs = Some r}"

definition det_inv :: "det_env \<Rightarrow> StateId set \<Rightarrow> (QSet \<times> Sym \<times> QSet) set \<Rightarrow> 'w det \<Rightarrow> bool" where
  "det_inv e S D d \<longleftrightarrow>
     fsa_ok (out d) \<and> edges (out d) = det_edges D (explored d) \<and>
     (\<forall>qs x rs. (qs, x, rs) \<in> D \<longrightarrow> qs \<in> dom (explored d) \<and> rs \<in> dom (explored d)) \<and>
     dom (explored d) \<subseteq> sl ` Pow S \<and> ran (explored d) \<subseteq> {..<numStates (out d)} \<and>
     inj_on (explored d) (dom (explored d)) \<and> distinct (agenda d) \<and>
     (\<forall>qs q. (qs, q) \<in> set (agenda d) \<longrightarrow> explored d qs = Some q \<and> \<not> is_expanded d q) \<and>
     (\<forall>q. is_expanded d q \<longrightarrow> q < numStates (out d)) \<and>
     set (qfinals d) = {q. \<exists>qs. explored d qs = Some q \<and> qfinali e \<in> set qs} \<and>
     length (qfinals d) \<le> card (dom (explored d))"

lemma finite_explored: "finite S \<Longrightarrow> det_inv e S D d \<Longrightarrow> finite (dom (explored d))"
  by (rule finite_subset [of _ "sl ` Pow S"]) (simp_all add: det_inv_def)

lemma card_explored: "finite S \<Longrightarrow> det_inv e S D d \<Longrightarrow> card (dom (explored d)) \<le> 2 ^ card S"
proof -
  assume S: "finite S" "det_inv e S D d"
  have "card (dom (explored d)) \<le> card (sl ` Pow S)" by (rule card_mono) (use S in \<open>simp_all add: det_inv_def\<close>)
  also have "\<dots> \<le> card (Pow S)" by (rule card_image_le) (use S in simp)
  finally show ?thesis by (simp add: card_Pow S(1))
qed

text \<open>How far a run is: the subsets that left the agenda.\<close>

definition det_step :: "'w det \<Rightarrow> 'w det \<Rightarrow> nat \<Rightarrow> bool" where
  "det_step d d' k \<longleftrightarrow>
     explored d \<subseteq>\<^sub>m explored d' \<and> expanded d' = expanded d \<and> numStates (out d') \<le> numStates (out d) + k \<and>
     card (dom (explored d')) + length (agenda d) = card (dom (explored d)) + length (agenda d') \<and>
     start_state (out d') = start_state (out d) \<and>
     (\<forall>qs. qs \<in> dom (explored d') \<longrightarrow> qs \<in> dom (explored d) \<or> qs \<in> fst ` set (agenda d')) \<and> set (agenda d) \<subseteq> set (agenda d') \<and>
     (\<forall>qs q. (qs, q) \<in> set (agenda d') \<longrightarrow> (qs, q) \<in> set (agenda d) \<or> qs \<notin> dom (explored d))"

lemma det_step_refl: "det_step d d k"
  by (simp add: det_step_def)

lemma det_edges_mono:
  assumes "\<forall>qs x rs. (qs, x, rs) \<in> D \<longrightarrow> qs \<in> dom ex \<and> rs \<in> dom ex" and "ex \<subseteq>\<^sub>m ex'"
  shows "det_edges D ex' = det_edges D ex"
proof -
  have "ex' qs = ex qs" if "qs \<in> dom ex" for qs using assms(2) that by (simp add: map_le_def)
  then show ?thesis using assms(1) unfolding det_edges_def by auto metis+
qed

lemma upd_image: "m a = None \<Longrightarrow>
    {q. \<exists>qs. (m(a \<mapsto> s)) qs = Some q \<and> P qs} = {q. \<exists>qs. m qs = Some q \<and> P qs} \<union> (if P a then {s} else {})"
  by (rule set_eqI) (auto, (metis option.distinct(1))+)

lemma subsetId_step:
  assumes I: "det_inv e S D d" and S: "finite S" "R \<subseteq> S" and ns: "\<not> specialEps e" and n: "numStates (out d) < kNoState"
    and r: "subsetId e (sl R) d = (i, d')"
  shows "det_inv e S D d'" "explored d' (sl R) = Some i" "det_step d d' 1"
proof -
  have "det_inv e S D d' \<and> explored d' (sl R) = Some i \<and> det_step d d' 1"
  proof (cases "explored d (sl R)")
    case (Some j)
    then have "d' = d" "i = j" using r by (simp_all add: subsetId_def)
    then show ?thesis using I Some det_step_refl by simp
  next
    case None
    obtain s o' where a: "addState (out d) = (s, o')" by force
    have ok: "fsa_ok (out d)" using I by (simp add: det_inv_def)
    note A = addState_edges [OF ok n a]
    let ?fs = "if qfinali e \<in> set (sl R) then qfinals d @ [s] else qfinals d"
    have e: "i = s" "explored d' = (explored d)(sl R \<mapsto> s)" "agenda d' = (sl R, s) # agenda d" "out d' = o'"
      "expanded d' = expanded d" "qfinals d' = ?fs"
      using r None ns a by (auto simp: subsetId_def)
    have le: "explored d \<subseteq>\<^sub>m explored d'" using None by (auto simp: e map_le_def)
    have new: "(sl R, j) \<notin> set (agenda d)" for j using I None by (auto simp: det_inv_def)
    have fin: "finite (dom (explored d))" using finite_explored [OF S(1) I] .
    have rng: "explored d qs = Some q \<Longrightarrow> q < s" for qs q
      using I A(1) by (auto simp: det_inv_def ran_def)
    have x: "is_expanded d' = is_expanded d" by (simp add: is_expanded_def e fun_eq_iff)
    have ed: "edges o' = det_edges D (explored d')" "\<forall>qs x rs. (qs, x, rs) \<in> D \<longrightarrow> qs \<in> dom (explored d') \<and> rs \<in> dom (explored d')"
    proof -
      have D: "\<forall>qs x rs. (qs, x, rs) \<in> D \<longrightarrow> qs \<in> dom (explored d) \<and> rs \<in> dom (explored d)"
        using I by (simp add: det_inv_def)
      then show "edges o' = det_edges D (explored d')" using I A(3) det_edges_mono [OF D le] by (simp add: det_inv_def)
      show "\<forall>qs x rs. (qs, x, rs) \<in> D \<longrightarrow> qs \<in> dom (explored d') \<and> rs \<in> dom (explored d')" using D by (auto simp: e)
    qed
    have dm: "dom (explored d') \<subseteq> sl ` Pow S" using I S(2) by (auto simp: det_inv_def e)
    have rn: "ran (explored d') \<subseteq> {..<numStates o'}" using rng A(1,4) by (auto simp: e ran_def less_Suc_eq split: if_splits)
    have inj: "inj_on (explored d') (dom (explored d'))"
    proof (rule inj_onI)
      fix qs rs assume "qs \<in> dom (explored d')" "rs \<in> dom (explored d')" "explored d' qs = explored d' rs"
      moreover have "inj_on (explored d) (dom (explored d))" using I by (simp add: det_inv_def)
      moreover have "explored d ps \<noteq> Some s" for ps using rng by blast
      ultimately show "qs = rs" by (auto simp: e inj_on_def split: if_splits)
    qed
    have ag: "\<forall>qs q. (qs, q) \<in> set (agenda d') \<longrightarrow> explored d' qs = Some q \<and> \<not> is_expanded d' q" "distinct (agenda d')"
    proof -
      have "\<forall>qs q. (qs, q) \<in> set (agenda d) \<longrightarrow> explored d qs = Some q \<and> \<not> is_expanded d q" "distinct (agenda d)"
        "\<forall>q. is_expanded d q \<longrightarrow> q < s"
        using I A(1) by (simp_all add: det_inv_def)
      then show "\<forall>qs q. (qs, q) \<in> set (agenda d') \<longrightarrow> explored d' qs = Some q \<and> \<not> is_expanded d' q" "distinct (agenda d')"
        using new unfolding x by (auto simp: e)
    qed
    have fs: "set (qfinals d') = {q. \<exists>qs. explored d' qs = Some q \<and> qfinali e \<in> set qs}"
    proof -
      have "set (qfinals d) = {q. \<exists>qs. explored d qs = Some q \<and> qfinali e \<in> set qs}" using I by (simp add: det_inv_def)
      then show ?thesis unfolding e upd_image [of "explored d", OF None] by simp
    qed
    have ln: "length (qfinals d') \<le> card (dom (explored d'))" and cd: "card (dom (explored d')) = Suc (card (dom (explored d)))"
      using I fin None by (auto simp: e det_inv_def domIff)
    have ex: "\<forall>q. is_expanded d' q \<longrightarrow> q < numStates o'" unfolding x using I A(4) by (force simp: det_inv_def)
    have "det_inv e S D d'" unfolding det_inv_def e(4) using A(2) ed dm rn inj ag fs ln ex by blast
    moreover have "det_step d d' 1" unfolding det_step_def
      using A(4,5) cd le None by (auto simp: e extends_def)
    ultimately show ?thesis by (simp add: e)
  qed
  then show "det_inv e S D d'" "explored d' (sl R) = Some i" "det_step d d' 1" by simp_all
qed

lemma det_addArc_step:
  fixes one :: 'w and x :: Sym and d :: "'w det"
  assumes I: "det_inv e S D d" and S: "finite S" "R \<subseteq> S" and ns: "\<not> specialEps e" and n: "Suc (numStates (out d)) < kNoState"
    and q: "explored d qs = Some q"
  defines "d' \<equiv> det_addArc e one q (sl R) x d"
  shows "det_inv e S (insert (qs, x, sl R) D) d'" "det_step d d' 2" "sl R \<in> dom (explored d')"
proof -
  obtain i d1 where s: "subsetId e (sl R) d = (i, d1)" by force
  have n0: "numStates (out d) < kNoState" using n by simp
  note A = subsetId_step [OF I S ns n0 s]
  have d': "d' = d1\<lparr>out := snd (addArcFsa q i x one (out d1))\<rparr>" by (simp add: d'_def det_addArc_def s)
  have q1: "explored d1 qs = Some q" using A(3) q by (auto simp: det_step_def map_le_def dom_def)
  have ok: "fsa_ok (out d1)" and rn: "ran (explored d1) \<subseteq> {..<numStates (out d1)}" using A(1) by (simp_all add: det_inv_def)
  have b: "q < numStates (out d1)" "i < numStates (out d1)" using rn q1 A(2) by (auto simp: ran_def)
  have n1: "numStates (out d1) < kNoState" using A(3) n by (simp add: det_step_def)
  note B = addArcFsa_edges [OF ok n1 b, of x one]
  have inj: "inj_on (explored d1) (dom (explored d1))" using A(1) by (simp add: det_inv_def)
  have u: "explored d1 ps = Some q \<longleftrightarrow> ps = qs" "explored d1 ps = Some i \<longleftrightarrow> ps = sl R" for ps
    using inj q1 A(2) by (metis domI inj_onD)+
  have E: "edges (out d') = det_edges (insert (qs, x, sl R) D) (explored d')"
  proof -
    have "edges (out d1) = det_edges D (explored d1)" using A(1) by (simp add: det_inv_def)
    then show ?thesis using B(2) q1 A(2) by (auto simp: d' det_edges_def)
  qed
  have x: "is_expanded d' = is_expanded d1" by (simp add: d' is_expanded_def fun_eq_iff)
  have nn: "numStates (out d1) \<le> numStates (out d')" using B(3) by (simp add: d')
  have J: "dom (explored d1) \<subseteq> sl ` Pow S" "distinct (agenda d1)"
    "\<forall>qs q. (qs, q) \<in> set (agenda d1) \<longrightarrow> explored d1 qs = Some q \<and> \<not> is_expanded d1 q"
    "\<forall>q. is_expanded d1 q \<longrightarrow> q < numStates (out d1)"
    "set (qfinals d1) = {q. \<exists>qs. explored d1 qs = Some q \<and> qfinali e \<in> set qs}"
    "length (qfinals d1) \<le> card (dom (explored d1))"
    "\<forall>qs x rs. (qs, x, rs) \<in> D \<longrightarrow> qs \<in> dom (explored d1) \<and> rs \<in> dom (explored d1)"
    using A(1) by (simp_all add: det_inv_def)
  have f: "explored d' = explored d1" "agenda d' = agenda d1" "qfinals d' = qfinals d1" by (simp_all add: d')
  have D': "\<forall>qs' x' rs. (qs', x', rs) \<in> insert (qs, x, sl R) D \<longrightarrow> qs' \<in> dom (explored d1) \<and> rs \<in> dom (explored d1)"
    using J(7) q1 A(2) by auto
  have rn': "ran (explored d1) \<subseteq> {..<numStates (out d')}" using rn nn by auto
  have ex': "\<forall>q. is_expanded d1 q \<longrightarrow> q < numStates (out d')" using J(4) nn by (meson order_less_le_trans)
  have ok': "fsa_ok (out d')" using B(1) by (simp add: d')
  show "det_inv e S (insert (qs, x, sl R) D) d'"
    unfolding det_inv_def x f using ok' E [unfolded f] D' J(1) rn' inj J(2,3) ex' J(5,6) by (intro conjI)
  show "det_step d d' 2" using A(3) B(4,5) by (auto simp: det_step_def d')
  show "sl R \<in> dom (explored d')" using A(2) by (auto simp: d')
qed

section \<open>One subset\<close>

lemma det_step_trans:
  assumes "det_step d d1 k" and "det_step d1 d2 l"
  shows "det_step d d2 (k + l)"
proof -
  have "explored d \<subseteq>\<^sub>m explored d2" using assms map_le_trans unfolding det_step_def by blast
  moreover have "dom (explored d) \<subseteq> dom (explored d1)" using assms(1) by (simp add: det_step_def map_le_implies_dom_le)
  moreover have "set (agenda d1) \<subseteq> set (agenda d2)" using assms(2) by (simp add: det_step_def)
  moreover have "(qs, q) \<in> set (agenda d) \<or> qs \<notin> dom (explored d)" if "(qs, q) \<in> set (agenda d2)" for qs q
    using that assms calculation(2) unfolding det_step_def by blast
  moreover have "qs \<in> dom (explored d) \<or> qs \<in> fst ` set (agenda d2)" if "qs \<in> dom (explored d2)" for qs
    using that assms calculation(3) unfolding det_step_def by blast
  ultimately show ?thesis using assms unfolding det_step_def by auto
qed

lemma fold_det_addArc:
  fixes one :: 'w
  assumes "det_inv e S D d" and S: "finite S" and ns: "\<not> specialEps e"
    and "numStates (out d) + 2 * length L < kNoState" and "explored d qs = Some q"
    and "\<forall>x rs. (x, rs) \<in> set L \<longrightarrow> (\<exists>R \<subseteq> S. rs = sl R)"
  shows "det_inv e S (D \<union> {(qs, x, rs) | x rs. (x, rs) \<in> set L}) (fold (\<lambda>(x, rs). det_addArc e one q rs x) L d)"
    "det_step d (fold (\<lambda>(x, rs). det_addArc e one q rs x) L d) (2 * length L)"
  using assms(1,4,5,6)
proof (induction L arbitrary: D d)
  case Nil
  case 1
  then show ?case by simp
next
  case Nil
  case 2
  then show ?case by (simp add: det_step_refl)
next
  case (Cons p L)
  obtain x rs where p: "p = (x, rs)" by force
  {
    fix D and d :: "'w det"
    assume I: "det_inv e S D d" and n: "numStates (out d) + 2 * length (p # L) < kNoState" and q: "explored d qs = Some q"
      and R: "\<forall>x rs. (x, rs) \<in> set (p # L) \<longrightarrow> (\<exists>R \<subseteq> S. rs = sl R)"
    obtain R' where R': "R' \<subseteq> S" "rs = sl R'" using R unfolding p by (metis list.set_intros(1))
    have n1: "Suc (numStates (out d)) < kNoState" using n by simp
    let ?d = "det_addArc e one q rs x d"
    note A = det_addArc_step [OF I S R'(1) ns n1 q, where x = x and one = one, folded R'(2)]
    have q1: "explored ?d qs = Some q" using A(2) q by (auto simp: det_step_def map_le_def dom_def)
    have n2: "numStates (out ?d) + 2 * length L < kNoState" using A(2) n by (simp add: det_step_def)
    have R2: "\<forall>x rs. (x, rs) \<in> set L \<longrightarrow> (\<exists>R \<subseteq> S. rs = sl R)" using R by simp
    note B = Cons.IH(1) [OF A(1) n2 q1 R2] Cons.IH(2) [OF A(1) n2 q1 R2]
    have "insert (qs, x, rs) D \<union> {(qs, x, rs) | x rs. (x, rs) \<in> set L} = D \<union> {(qs, x, rs) | x rs. (x, rs) \<in> set (p # L)}"
      using p by auto
    then have "det_inv e S (D \<union> {(qs, x, rs) | x rs. (x, rs) \<in> set (p # L)}) (fold (\<lambda>(x, rs). det_addArc e one q rs x) (p # L) d)"
      using B(1) by (simp add: p)
    moreover have "det_step d (fold (\<lambda>(x, rs). det_addArc e one q rs x) (p # L) d) (2 * length (p # L))"
      using det_step_trans [OF A(2) B(2)] by (simp add: p)
    ultimately have "det_inv e S (D \<union> {(qs, x, rs) | x rs. (x, rs) \<in> set (p # L)}) (fold (\<lambda>(x, rs). det_addArc e one q rs x) (p # L) d) \<and>
      det_step d (fold (\<lambda>(x, rs). det_addArc e one q rs x) (p # L) d) (2 * length (p # L))" by simp
  } note step = this
  case 1
  from step [OF this] show ?case by (rule conjunct1)
  case 2
  from step [OF this] show ?case by (rule conjunct2)
qed

lemma genOut_fold:
  assumes "\<not> is_expanded d q" and e: "snd (latchGrow (expanded d) q) = ex"
  shows "genOut ord e one qs q d = fold (\<lambda>(x, rs). det_addArc e one q rs x) (det_list ord e qs) (d\<lparr>expanded := ex\<rparr>)"
proof -
  have n: "latchGrow (expanded d) q = (True, ex)" using assms by (auto simp: latchGrow_def is_expanded_def)
  obtain delta qrho qall where c: "collect e qs = (delta, qrho, qall)" by (metis prod_cases3)
  have m: "fold (\<lambda>(x, rs). det_addArc e one q rs x) (map (\<lambda>(i, dqs). (i, withRhos e qrho (i, dqs))) xs) g =
      fold (\<lambda>(i, dqs). det_addArc e one q (withRhos e qrho (i, dqs)) i) xs g" for xs and g :: "'a det"
    by (induction xs arbitrary: g) auto
  show ?thesis by (simp add: genOut_def n det_list_def c m)
qed

lemma latchGrow_bits: "snd (latchGrow v i) ! p \<and> p < length (snd (latchGrow v i)) \<longleftrightarrow> p = i \<or> p < length v \<and> v ! p"
proof (cases "i < length v")
  case True
  then show ?thesis by (auto simp: latchGrow_def nth_list_update)
next
  case False
  let ?n = "max (2 * length v) (Suc i)"
  have "vec_resize v ?n False = v @ replicate (?n - length v) False" using False by (simp add: vec_resize_def)
  then show ?thesis using False by (auto simp: latchGrow_def nth_list_update nth_append)
qed

definition labels :: "(StateId \<times> Sym \<times> StateId) set \<Rightarrow> Sym set" where
  "labels E = {x. \<exists>s t. (s, x, t) \<in> E}"

definition complete_arcs :: "DeterminizeFlags \<Rightarrow> (StateId \<times> Sym \<times> StateId) set \<Rightarrow> StateId set \<Rightarrow> 'w det \<Rightarrow> (QSet \<times> Sym \<times> QSet) set" where
  "complete_arcs flags E S d =
     {(sl Q, x, sl R) | Q x R. Q \<subseteq> S \<and> sl Q \<in> dom (explored d) - fst ` set (agenda d) \<and> (x, R) \<in> det_targets flags E Q}"

lemma det_targets_sub: "E \<subseteq> S \<times> UNIV \<times> S \<Longrightarrow> (x, R) \<in> det_targets flags E Q \<Longrightarrow> R \<subseteq> S \<and> x \<in> labels E"
  by (auto simp: det_targets_def subset_step_def rho_targets_def fsa_step_def letters_def labels_def split: if_splits)

lemma finite_labels: "finite E \<Longrightarrow> finite (labels E)"
  by (rule finite_subset [of _ "Domain (Range E)"]) (auto simp: labels_def intro: finite_Range finite_Domain)

lemma length_det_list:
  assumes e: "env_ok flags e E S" and Q: "Q \<subseteq> S" and ne: "\<forall>s t y. (s, y, t) \<in> E \<longrightarrow> \<not> det_eps flags y"
    and ord: "\<And>d. mset (ord d) = mset d"
  shows "length (det_list ord e (sl Q)) \<le> card (labels E)"
proof -
  let ?L = "det_list ord e (sl Q)"
  note L = det_list_correct [OF e Q ne ord]
  have E: "finite E" "E \<subseteq> S \<times> UNIV \<times> S" using e by (simp_all add: env_ok_def)
  have "fst ` set ?L \<subseteq> labels E" using det_targets_sub [OF E(2)] unfolding L(2) by fastforce
  then have "card (set (map fst ?L)) \<le> card (labels E)" using finite_labels [OF E(1)] by (simp add: card_mono)
  then show ?thesis using distinct_card [OF L(1)] by simp
qed

text \<open>A round of \<open>finish_agenda\<close>, when the subsets not on the agenda are complete.\<close>

definition loop_inv :: "DeterminizeFlags \<Rightarrow> det_env \<Rightarrow> (StateId \<times> Sym \<times> StateId) set \<Rightarrow> StateId set \<Rightarrow> nat \<Rightarrow> nat \<Rightarrow> 'w det \<Rightarrow> bool" where
  "loop_inv flags e E S n c d \<longleftrightarrow>
     det_inv e S (complete_arcs flags E S d) d \<and> card (dom (explored d)) = c + length (agenda d) \<and>
     numStates (out d) \<le> n + 2 * card (labels E) * c"

definition det_ok :: "DeterminizeFlags \<Rightarrow> det_env \<Rightarrow> (StateId \<times> Sym \<times> StateId) set \<Rightarrow> StateId set \<Rightarrow> (delta_map \<Rightarrow> delta_map) \<Rightarrow> nat \<Rightarrow> bool" where
  "det_ok flags e E S ord n \<longleftrightarrow>
     env_ok flags e E S \<and> (\<forall>s t y. (s, y, t) \<in> E \<longrightarrow> \<not> det_eps flags y) \<and> (\<forall>d. mset (ord d) = mset d) \<and>
     n + 2 * card (labels E) * 2 ^ card S < kNoState"

lemma det_okD:
  assumes "det_ok flags e E S ord n"
  shows "env_ok flags e E S" "finite S" "\<not> specialEps e" "E \<subseteq> S \<times> UNIV \<times> S" "finite E"
    "\<forall>s t y. (s, y, t) \<in> E \<longrightarrow> \<not> det_eps flags y" "\<And>d. mset (ord d) = mset d"
    "n + 2 * card (labels E) * 2 ^ card S < kNoState"
  using assms by (simp_all add: det_ok_def env_ok_def)

lemma pop_inv:
  assumes I: "det_inv e S D d" and ag: "agenda d = (qs, q) # rest"
  defines "d1 \<equiv> d\<lparr>agenda := rest, expanded := snd (latchGrow (expanded d) q)\<rparr>"
  shows "det_inv e S D d1" "explored d qs = Some q" "\<not> is_expanded d q" "qs \<notin> fst ` set rest"
proof -
  have J: "\<forall>qs q. (qs, q) \<in> set (agenda d) \<longrightarrow> explored d qs = Some q \<and> \<not> is_expanded d q" "distinct (agenda d)"
    "inj_on (explored d) (dom (explored d))" "\<forall>q. is_expanded d q \<longrightarrow> q < numStates (out d)"
    "ran (explored d) \<subseteq> {..<numStates (out d)}"
    using I by (simp_all add: det_inv_def)
  show q: "explored d qs = Some q" "\<not> is_expanded d q" using J(1) ag by auto
  have x: "is_expanded d1 p \<longleftrightarrow> p = q \<or> is_expanded d p" for p
    using latchGrow_bits [of "expanded d" q p] by (auto simp: is_expanded_def d1_def)
  have r: "explored d ps = Some p \<and> p \<noteq> q \<and> ps \<noteq> qs" if "(ps, p) \<in> set rest" for ps p
  proof -
    have p: "explored d ps = Some p" using J(1) ag that by simp
    have "(ps, p) \<noteq> (qs, q)" using J(2) ag that by auto
    then have n: "ps \<noteq> qs" using p q(1) by auto
    have "p \<noteq> q"
    proof
      assume "p = q"
      then have "explored d ps = explored d qs" using p q(1) by simp
      then show False using inj_onD [OF J(3)] p q(1) n by blast
    qed
    then show ?thesis using p n by simp
  qed
  then show "qs \<notin> fst ` set rest" by force
  have ag': "\<forall>ps p. (ps, p) \<in> set rest \<longrightarrow> explored d ps = Some p \<and> \<not> is_expanded d1 p"
    using J(1) r ag by (auto simp: x)
  have "q < numStates (out d)" using J(5) q(1) by (auto simp: ran_def)
  then have "\<forall>p. is_expanded d1 p \<longrightarrow> p < numStates (out d)" using J(4) by (auto simp: x)
  then show "det_inv e S D d1" using I ag' J(2) ag by (simp add: det_inv_def d1_def)
qed

lemma genOut_complete:
  assumes st: "det_step (d\<lparr>agenda := rest, expanded := v\<rparr>) d' k" and ag: "agenda d = (sl Q, q) # rest"
    and ex: "explored d (sl Q) = Some q" "sl Q \<notin> fst ` set rest" and Q: "Q \<subseteq> S" "finite S"
    and ad: "\<forall>qs. qs \<in> fst ` set (agenda d) \<longrightarrow> qs \<in> dom (explored d)"
  shows "complete_arcs flags E S d' = complete_arcs flags E S d \<union>
    {(sl Q, x, rs) | x rs. (x, rs) \<in> {(x, sl R) | x R. (x, R) \<in> det_targets flags E Q}}"
proof -
  have T: "dom (explored d) \<subseteq> dom (explored d')" "set rest \<subseteq> set (agenda d')"
    "\<forall>qs. qs \<in> dom (explored d') \<longrightarrow> qs \<in> dom (explored d) \<or> qs \<in> fst ` set (agenda d')"
    "\<forall>qs q. (qs, q) \<in> set (agenda d') \<longrightarrow> (qs, q) \<in> set rest \<or> qs \<notin> dom (explored d)"
    using st by (auto simp: det_step_def dest: map_le_implies_dom_le)
  have "dom (explored d') - fst ` set (agenda d') = insert (sl Q) (dom (explored d) - fst ` set (agenda d))"
  proof (intro set_eqI iffI)
    fix qs assume a: "qs \<in> dom (explored d') - fst ` set (agenda d')"
    then have "qs \<in> dom (explored d)" "qs \<notin> fst ` set rest" using T by auto
    then show "qs \<in> insert (sl Q) (dom (explored d) - fst ` set (agenda d))" by (simp add: ag)
  next
    fix qs assume "qs \<in> insert (sl Q) (dom (explored d) - fst ` set (agenda d))"
    then have a: "qs \<in> dom (explored d)" "qs \<notin> fst ` set rest"
      using ex by (cases "qs = sl Q", simp_all add: ag domI)+
    have "qs \<notin> fst ` set (agenda d')" using T(4) a by force
    then show "qs \<in> dom (explored d') - fst ` set (agenda d')" using a T(1) by auto
  qed
  moreover have "sl Q' = sl Q \<longleftrightarrow> Q' = Q" if "Q' \<subseteq> S" for Q'
    using Q that by (metis finite_subset set_sorted_list_of_set)
  ultimately show ?thesis using Q(1) unfolding complete_arcs_def by auto
qed

lemma loop_step:
  fixes one :: 'w and d :: "'w det"
  assumes C: "det_ok flags e E S ord n" and I: "loop_inv flags e E S n c d" and ag: "agenda d = (qs, q) # rest"
  defines "d' \<equiv> genOut ord e one qs q (d\<lparr>agenda := rest\<rparr>)"
  shows "loop_inv flags e E S n (Suc c) d'" "c < 2 ^ card S" "start_state (out d') = start_state (out d)"
    "explored d \<subseteq>\<^sub>m explored d'"
proof -
  note K = det_okD [OF C]
  let ?D = "complete_arcs flags E S d" and ?d1 = "d\<lparr>agenda := rest, expanded := snd (latchGrow (expanded d) q)\<rparr>"
  let ?L = "det_list ord e qs"
  have J: "det_inv e S ?D d" "card (dom (explored d)) = c + length (agenda d)" "numStates (out d) \<le> n + 2 * card (labels E) * c"
    using I by (simp_all add: loop_inv_def)
  note P = pop_inv [OF J(1) ag]
  have sub: "dom (explored d) \<subseteq> sl ` Pow S" using J(1) by (simp add: det_inv_def)
  then have "qs \<in> sl ` Pow S" using domI [of "explored d", OF P(2)] by (rule subsetD)
  then obtain Q where Q: "qs = sl Q" "Q \<subseteq> S" by (elim imageE PowD [elim_format])
  note L = det_list_correct [OF K(1) Q(2) K(6) K(7), folded Q(1)]
  have ln: "length ?L \<le> card (labels E)" using length_det_list [OF K(1) Q(2) K(6) K(7)] Q(1) by simp
  show c: "c < 2 ^ card S" using card_explored [OF K(2) J(1)] J(2) ag by simp
  have n: "numStates (out ?d1) + 2 * length ?L < kNoState"
  proof -
    define a M where "a = 2 * card (labels E)" and "M = (2::nat) ^ card S"
    have "a * Suc c \<le> a * M" using c unfolding M_def by (intro mult_le_mono2 Suc_leI)
    then have "a * c + a \<le> a * M" by simp
    moreover have "2 * length ?L \<le> a" "numStates (out d) \<le> n + a * c" "n + a * M < kNoState"
      using ln J(3) K(8) by (simp_all only: a_def M_def)
    ultimately show ?thesis by simp
  qed
  have d': "d' = fold (\<lambda>(x, rs). det_addArc e one q rs x) ?L ?d1"
    unfolding d'_def by (subst genOut_fold [OF _ refl]) (use P(3) in \<open>simp_all add: is_expanded_def\<close>)
  have R: "\<forall>x rs. (x, rs) \<in> set ?L \<longrightarrow> (\<exists>R \<subseteq> S. rs = sl R)"
  proof (intro allI impI)
    fix x rs assume "(x, rs) \<in> set ?L"
    then have "\<exists>R. rs = sl R \<and> (x, R) \<in> det_targets flags E Q" unfolding L(2) by simp
    then obtain R where R: "rs = sl R" "(x, R) \<in> det_targets flags E Q" by (elim exE conjE)
    from R(1) det_targets_sub [OF K(4) R(2)] show "\<exists>R \<subseteq> S. rs = sl R" by (intro exI [of _ R] conjI) simp_all
  qed
  have ex: "explored ?d1 qs = Some q" using P(2) by simp
  note F = fold_det_addArc [OF P(1) K(2,3) n ex R, of one, folded d']
  have "\<forall>qs q. (qs, q) \<in> set (agenda d) \<longrightarrow> explored d qs = Some q" using J(1) by (simp add: det_inv_def)
  then have ad: "\<forall>qs. qs \<in> fst ` set (agenda d) \<longrightarrow> qs \<in> dom (explored d)" by auto
  have "complete_arcs flags E S d' = ?D \<union> {(qs, x, rs) | x rs. (x, rs) \<in> set ?L}"
    unfolding L(2) unfolding Q(1)
    by (rule genOut_complete [OF F(2) ag [unfolded Q(1)] P(2,4) [unfolded Q(1)] Q(2) K(2) ad])
  then have "det_inv e S (complete_arcs flags E S d') d'" using F(1) by simp
  moreover have "card (dom (explored d')) = Suc c + length (agenda d')" using F(2) J(2) ag by (simp add: det_step_def)
  moreover have "numStates (out d') \<le> n + 2 * card (labels E) * Suc c" using F(2) J(3) ln by (simp add: det_step_def)
  ultimately show "loop_inv flags e E S n (Suc c) d'" by (simp add: loop_inv_def)
  show "start_state (out d') = start_state (out d)" "explored d \<subseteq>\<^sub>m explored d'" using F(2) by (simp_all add: det_step_def)
qed

lemma finish_agenda_ends:
  fixes one :: 'w and d :: "'w det"
  assumes C: "det_ok flags e E S ord n" and "loop_inv flags e E S n c d"
  shows "\<exists>d' c'. finish_agenda ord e one d = Some d' \<and> agenda d' = [] \<and> loop_inv flags e E S n c' d' \<and> c' \<le> 2 ^ card S \<and>
    start_state (out d') = start_state (out d) \<and> explored d \<subseteq>\<^sub>m explored d'"
  using assms(2)
proof (induction "2 ^ card S - c" arbitrary: c d rule: less_induct)
  case IH: less
  show ?case
  proof (cases "agenda d")
    case Nil
    have "card (dom (explored d)) = c" "det_inv e S (complete_arcs flags E S d) d" using IH.prems Nil by (simp_all add: loop_inv_def)
    then have "c \<le> 2 ^ card S" using card_explored [OF det_okD(2) [OF C]] by metis
    then show ?thesis using IH.prems Nil by (auto simp: finish_agenda.simps)
  next
    case (Cons p rest)
    obtain qs q where p: "p = (qs, q)" by force
    note L = loop_step(1) [OF C IH.prems Cons [unfolded p], where one = one] loop_step(2) [OF C IH.prems Cons [unfolded p]]
      loop_step(3,4) [OF C IH.prems Cons [unfolded p], where one = one]
    have "2 ^ card S - Suc c < 2 ^ card S - c" using L(2) by simp
    from IH.hyps [OF this L(1)] obtain d' c' where
      "finish_agenda ord e one (genOut ord e one qs q (d\<lparr>agenda := rest\<rparr>)) = Some d'" "agenda d' = []"
      "loop_inv flags e E S n c' d'" "c' \<le> 2 ^ card S" "start_state (out d') = start_state (out d)"
      "explored (genOut ord e one qs q (d\<lparr>agenda := rest\<rparr>)) \<subseteq>\<^sub>m explored d'"
      using L(3) by auto
    moreover have "finish_agenda ord e one d = finish_agenda ord e one (genOut ord e one qs q (d\<lparr>agenda := rest\<rparr>))"
      using Cons p by (simp add: finish_agenda.simps [of ord e one d])
    ultimately show ?thesis using L(4) map_le_trans by metis
  qed
qed

end
