(* ===== verification/Determinize_Correct.thy ===== *)
theory Determinize_Correct
  imports Determinize_Loop
begin

text \<open>
  What the subset construction of \<open>DeterminizeFsa\<close> accepts: the symbol sequences the input accepts, when
  the input has no epsilon arcs.
\<close>

section \<open>Sequences of subset steps\<close>

primrec subset_run :: "DeterminizeFlags \<Rightarrow> (StateId \<times> Sym \<times> StateId) set \<Rightarrow> Sym list \<Rightarrow> StateId set \<Rightarrow> StateId set" where
  "subset_run flags E [] Q = Q"
| "subset_run flags E (x # w) Q = subset_run flags E w (subset_step flags E x Q)"

definition no_eps :: "DeterminizeFlags \<Rightarrow> (StateId \<times> Sym \<times> StateId) set \<Rightarrow> bool" where
  "no_eps flags E \<longleftrightarrow> (\<forall>s t y. (s, y, t) \<in> E \<longrightarrow> \<not> det_eps flags y)"

lemma run_no_eps:
  assumes "no_eps flags E"
  shows "fsa_run flags E s [] t \<longleftrightarrow> s = t"
    "fsa_run flags E s (x # w) t \<longleftrightarrow> (\<exists>r. fsa_step flags E x s r \<and> fsa_run flags E r w t)"
proof -
  show "fsa_run flags E s [] t \<longleftrightarrow> s = t"
    using assms by (subst fsa_run.simps) (auto simp: no_eps_def)
  show "fsa_run flags E s (x # w) t \<longleftrightarrow> (\<exists>r. fsa_step flags E x s r \<and> fsa_run flags E r w t)"
    using assms by (subst fsa_run.simps) (auto simp: no_eps_def)
qed

lemma subset_run_iff: "no_eps flags E \<Longrightarrow> t \<in> subset_run flags E w Q \<longleftrightarrow> (\<exists>s \<in> Q. fsa_run flags E s w t)"
proof (induction w arbitrary: Q)
  case Nil
  then show ?case by (simp add: run_no_eps)
next
  case (Cons x w)
  show ?case using Cons by (auto simp: run_no_eps subset_step_def)
qed

lemma subset_run_empty: "subset_run flags E w {} = {}"
  by (induction w) (simp_all add: subset_step_def)

lemma subset_run_sub: "E \<subseteq> S \<times> UNIV \<times> S \<Longrightarrow> Q \<subseteq> S \<Longrightarrow> subset_run flags E w Q \<subseteq> S"
proof (induction w arbitrary: Q)
  case (Cons x w)
  have "subset_step flags E x Q \<subseteq> S" using Cons.prems(1) by (auto simp: subset_step_def fsa_step_def)
  then show ?case using Cons by simp
qed simp

section \<open>The finished output\<close>

definition closed_subsets :: "DeterminizeFlags \<Rightarrow> (StateId \<times> Sym \<times> StateId) set \<Rightarrow> StateId set \<Rightarrow> (QSet \<rightharpoonup> StateId) \<Rightarrow> (StateId \<times> Sym \<times> StateId) set \<Rightarrow> bool" where
  "closed_subsets flags E S ex E' \<longleftrightarrow>
     inj_on ex (dom ex) \<and> dom ex \<subseteq> sl ` Pow S \<and>
     E' = {(q, x, r). \<exists>Q R. Q \<subseteq> S \<and> ex (sl Q) = Some q \<and> (x, R) \<in> det_targets flags E Q \<and> ex (sl R) = Some r} \<and>
     (\<forall>Q x R. Q \<subseteq> S \<and> sl Q \<in> dom ex \<and> (x, R) \<in> det_targets flags E Q \<longrightarrow> sl R \<in> dom ex)"

lemma loop_closed:
  assumes "loop_inv flags e E S n c d" and "agenda d = []"
  shows "closed_subsets flags E S (explored d) (edges (out d))"
proof -
  have I: "inj_on (explored d) (dom (explored d))" "dom (explored d) \<subseteq> sl ` Pow S"
    "edges (out d) = det_edges (complete_arcs flags E S d) (explored d)"
    "\<forall>qs x rs. (qs, x, rs) \<in> complete_arcs flags E S d \<longrightarrow> qs \<in> dom (explored d) \<and> rs \<in> dom (explored d)"
    using assms(1) by (simp_all add: loop_inv_def det_inv_def)
  have c: "complete_arcs flags E S d = {(sl Q, x, sl R) | Q x R. Q \<subseteq> S \<and> sl Q \<in> dom (explored d) \<and> (x, R) \<in> det_targets flags E Q}"
    by (simp add: complete_arcs_def assms(2))
  have "det_edges (complete_arcs flags E S d) (explored d) = {(q, x, r). \<exists>Q R. Q \<subseteq> S \<and> explored d (sl Q) = Some q \<and>
      (x, R) \<in> det_targets flags E Q \<and> explored d (sl R) = Some r}"
    unfolding c det_edges_def dom_def by auto blast
  moreover have "\<forall>Q x R. Q \<subseteq> S \<and> sl Q \<in> dom (explored d) \<and> (x, R) \<in> det_targets flags E Q \<longrightarrow> sl R \<in> dom (explored d)"
    using I(4) unfolding c by blast
  ultimately show ?thesis using I(1,2,3) by (simp add: closed_subsets_def)
qed

lemma closed_edges:
  assumes C: "closed_subsets flags E S ex E'" and S: "finite S" and Q: "Q \<subseteq> S" "ex (sl Q) = Some q"
  shows "(q, x, r) \<in> E' \<longleftrightarrow> (\<exists>R. (x, R) \<in> det_targets flags E Q \<and> ex (sl R) = Some r)"
    "(x, R) \<in> det_targets flags E Q \<Longrightarrow> \<exists>r. ex (sl R) = Some r"
proof -
  have inj: "inj_on ex (dom ex)" using C by (simp add: closed_subsets_def)
  have u: "Q' = Q" if "Q' \<subseteq> S" "ex (sl Q') = Some q" for Q'
  proof -
    have "sl Q' = sl Q" using inj_onD [OF inj] that(2) Q(2) by (metis domI)
    then show ?thesis using S that(1) Q(1) by (metis finite_subset set_sorted_list_of_set)
  qed
  have E': "E' = {(q, x, r). \<exists>Q R. Q \<subseteq> S \<and> ex (sl Q) = Some q \<and> (x, R) \<in> det_targets flags E Q \<and> ex (sl R) = Some r}"
    and cl: "\<forall>Q x R. Q \<subseteq> S \<and> sl Q \<in> dom ex \<and> (x, R) \<in> det_targets flags E Q \<longrightarrow> sl R \<in> dom ex"
    using C by (simp_all add: closed_subsets_def)
  show "(q, x, r) \<in> E' \<longleftrightarrow> (\<exists>R. (x, R) \<in> det_targets flags E Q \<and> ex (sl R) = Some r)"
    unfolding E' using Q by (auto dest: u)
  show "(x, R) \<in> det_targets flags E Q \<Longrightarrow> \<exists>r. ex (sl R) = Some r"
    using cl Q by (metis domD domI)
qed

lemma det_targets_letter:
  assumes "\<not> det_rho flags x"
  shows "(x, R) \<in> det_targets flags E Q \<longleftrightarrow> x \<in> letters flags E Q \<and> R = subset_step flags E x Q"
  using assms by (auto simp: det_targets_def rho_targets_def split: if_splits)

lemma det_targets_rho:
  assumes "det_rho flags RHO_ID"
  shows "(RHO_ID, R) \<in> det_targets flags E Q \<longleftrightarrow> R = rho_targets flags E Q \<and> R \<noteq> {}"
  using assms by (auto simp: det_targets_def letters_def)

lemma closed_functional:
  assumes "closed_subsets flags E S ex E'" and "finite S" and "(q, x, r) \<in> E'" and "(q, x, r') \<in> E'"
  shows "r = r'"
proof -
  obtain Q where Q: "Q \<subseteq> S" "ex (sl Q) = Some q" using assms(1,3) by (auto simp: closed_subsets_def)
  note E = closed_edges(1) [OF assms(1,2) Q]
  have "R = R'" if "(x, R) \<in> det_targets flags E Q" "(x, R') \<in> det_targets flags E Q" for R R'
    using that by (auto simp: det_targets_def letters_def rho_targets_def split: if_splits)
  then show ?thesis using assms(3,4) unfolding E by (metis option.inject)
qed

lemma closed_step:
  assumes C: "closed_subsets flags E S ex E'" and S: "finite S" and ne: "no_eps flags E" and Q: "Q \<subseteq> S" "ex (sl Q) = Some q"
  shows "fsa_step flags E' x q r \<longleftrightarrow>
    \<not> det_rho flags x \<and> \<not> det_eps flags x \<and> subset_step flags E x Q \<noteq> {} \<and> ex (sl (subset_step flags E x Q)) = Some r"
proof (cases "det_rho flags x \<or> det_eps flags x")
  case True
  then show ?thesis by (auto simp: fsa_step_def)
next
  case False
  note E = closed_edges [OF C S Q] and T = det_targets_letter [of flags x _ E Q]
  show ?thesis
  proof (cases "x \<in> letters flags E Q")
    case x: True
    have "(x, subset_step flags E x Q) \<in> det_targets flags E Q" using T x False by simp
    then obtain t where "(q, x, t) \<in> E'" using E by blast
    then have "fsa_step flags E' x q r \<longleftrightarrow> (q, x, r) \<in> E'" using False by (auto simp: fsa_step_def)
    moreover have "(q, x, r) \<in> E' \<longleftrightarrow> ex (sl (subset_step flags E x Q)) = Some r"
      unfolding E(1) using T False x by auto
    moreover have "subset_step flags E x Q \<noteq> {}"
      using x False by (auto simp: letters_def subset_step_def fsa_step_def)
    ultimately show ?thesis using False by simp
  next
    case x: False
    have "(q, x, t) \<notin> E'" for t unfolding E(1) using T x False by auto
    then have a: "fsa_step flags E' x q r \<longleftrightarrow> det_rho flags RHO_ID \<and> (q, RHO_ID, r) \<in> E'"
      using False by (auto simp: fsa_step_def)
    have s: "subset_step flags E x Q = rho_targets flags E Q"
      using x False by (auto simp: subset_step_def fsa_step_def rho_targets_def letters_def)
    show ?thesis
    proof (cases "det_rho flags RHO_ID")
      case True
      then show ?thesis using a False unfolding s E(1) det_targets_rho [OF True] by auto
    next
      case r: False
      then have "subset_step flags E x Q = {}" unfolding s by (simp add: rho_targets_def)
      then show ?thesis using a r by simp
    qed
  qed
qed

lemma subset_step_letter: "subset_step flags E x Q \<noteq> {} \<Longrightarrow> \<not> det_rho flags x \<and> \<not> det_eps flags x"
  by (auto simp: subset_step_def fsa_step_def)

lemma closed_step_total:
  assumes C: "closed_subsets flags E S ex E'" and S: "finite S" and Q: "Q \<subseteq> S" "ex (sl Q) = Some q"
    and ne: "subset_step flags E x Q \<noteq> {}"
  shows "\<exists>r. ex (sl (subset_step flags E x Q)) = Some r"
proof (cases "x \<in> letters flags E Q")
  case True
  have "\<not> det_rho flags x" using subset_step_letter [OF ne] by simp
  then show ?thesis using True closed_edges(2) [OF C S Q] det_targets_letter by blast
next
  case False
  then have r: "subset_step flags E x Q = rho_targets flags E Q"
    using subset_step_letter [OF ne] by (auto simp: subset_step_def fsa_step_def rho_targets_def letters_def)
  then have "det_rho flags RHO_ID" using ne by (auto simp: rho_targets_def)
  then show ?thesis using closed_edges(2) [OF C S Q] det_targets_rho r ne by metis
qed

lemma closed_run_total:
  assumes C: "closed_subsets flags E S ex E'" and S: "finite S" "E \<subseteq> S \<times> UNIV \<times> S"
    and "Q \<subseteq> S" "ex (sl Q) = Some q" "subset_run flags E w Q \<noteq> {}"
  shows "\<exists>r. ex (sl (subset_run flags E w Q)) = Some r"
  using assms(4,5,6)
proof (induction w arbitrary: Q q)
  case (Cons x w)
  let ?R = "subset_step flags E x Q"
  have R: "?R \<subseteq> S" using S(2) by (auto simp: subset_step_def fsa_step_def)
  have "?R \<noteq> {}" using Cons.prems(3) by (auto simp: subset_run_empty)
  from closed_step_total [OF C S(1) Cons.prems(1,2) this] obtain t where "ex (sl ?R) = Some t" ..
  from Cons.IH [OF R this] Cons.prems(3) show ?case by simp
qed simp

lemma closed_run:
  assumes C: "closed_subsets flags E S ex E'" and S: "finite S" "E \<subseteq> S \<times> UNIV \<times> S" and ne: "no_eps flags E"
    and "Q \<subseteq> S" "ex (sl Q) = Some q" "Q \<noteq> {}"
  shows "fsa_run flags E' q w r \<longleftrightarrow> subset_run flags E w Q \<noteq> {} \<and> ex (sl (subset_run flags E w Q)) = Some r"
  using assms(5,6,7)
proof (induction w arbitrary: Q q)
  have E': "no_eps flags E'"
  proof -
    have "x \<in> labels E" if "(q, x, r) \<in> E'" for q x r
      using that C det_targets_sub [OF S(2)] by (fastforce simp: closed_subsets_def)
    then show ?thesis using ne by (fastforce simp: no_eps_def labels_def)
  qed
  {
    case Nil
    then show ?case by (auto simp: run_no_eps [OF E'])
  next
    case (Cons x w)
    let ?R = "subset_step flags E x Q"
    have R: "?R \<subseteq> S" using S(2) by (auto simp: subset_step_def fsa_step_def)
    have "fsa_run flags E' q (x # w) r \<longleftrightarrow> (\<exists>t. ?R \<noteq> {} \<and> ex (sl ?R) = Some t \<and> \<not> det_rho flags x \<and> \<not> det_eps flags x \<and> fsa_run flags E' t w r)"
      using closed_step [OF C S(1) ne Cons.prems(1,2)] by (auto simp: run_no_eps [OF E'])
    also have "\<dots> \<longleftrightarrow> (\<exists>t. ?R \<noteq> {} \<and> ex (sl ?R) = Some t \<and> subset_run flags E w ?R \<noteq> {} \<and> ex (sl (subset_run flags E w ?R)) = Some r)"
      using Cons.IH [OF R] subset_step_letter [of flags E x Q] by blast
    also have "\<dots> \<longleftrightarrow> subset_run flags E w ?R \<noteq> {} \<and> ex (sl (subset_run flags E w ?R)) = Some r"
    proof -
      have "\<exists>t. ex (sl ?R) = Some t" if "?R \<noteq> {}" by (rule closed_step_total [OF C S(1) Cons.prems(1,2) that])
      then show ?thesis by (metis subset_run_empty)
    qed
    finally show ?case by simp
  }
qed

section \<open>Joining the final subsets\<close>

lemma final_state_dead:
  assumes "\<forall>x t. (F, x, t) \<notin> E" and "fsa_run flags E F w t"
  shows "w = [] \<and> t = F"
  using assms(2,1) by (cases rule: fsa_run.cases) (auto simp: fsa_step_def)

lemma EPSILON_RHO: "RHO_ID \<noteq> EPSILON_ID"
  by (simp add: RHO_ID_def EPSILON_ID_def specialTerminal_def)

lemma run_join:
  assumes ne: "no_eps flags E" and ep: "det_eps flags EPSILON_ID"
    and F: "\<forall>a x b. (a, x, b) \<in> E \<longrightarrow> a \<noteq> F \<and> b \<noteq> F" "F \<notin> A" and s: "s \<noteq> F"
  shows "fsa_run flags (E \<union> {(q, EPSILON_ID, F) | q. q \<in> A}) s w F \<longleftrightarrow> (\<exists>r \<in> A. fsa_run flags E s w r)"
proof
  let ?E = "E \<union> {(q, EPSILON_ID, F) | q. q \<in> A}"
  have dead: "\<forall>x t. (F, x, t) \<notin> ?E" using F by auto
  have step: "fsa_step flags ?E x a b \<longleftrightarrow> fsa_step flags E x a b" for x a b
    using ep EPSILON_RHO by (auto simp: fsa_step_def)
  {
    fix t
    have "fsa_run flags ?E s w t \<Longrightarrow> t = F \<Longrightarrow> s \<noteq> F \<Longrightarrow> \<exists>r \<in> A. fsa_run flags E s w r"
    proof (induction rule: fsa_run.induct)
      case (run_nil s)
      then show ?case by simp
    next
      case (run_eps s x r w t)
      then have "s \<in> A" "r = F" using ne by (auto simp: no_eps_def)
      moreover have "w = []" using final_state_dead [OF dead] run_eps.hyps(3) \<open>r = F\<close> by blast
      ultimately show ?case by (auto intro: fsa_run.run_nil)
    next
      case (run_letter x s r w t)
      then have st: "fsa_step flags E x s r" using step by simp
      then have "r \<noteq> F" using F by (auto simp: fsa_step_def)
      then show ?case using run_letter st by (auto intro: fsa_run.run_letter)
    qed
  }
  then show "fsa_run flags ?E s w F \<Longrightarrow> \<exists>r \<in> A. fsa_run flags E s w r" using s by simp
  have "fsa_run flags E s w r \<Longrightarrow> r \<in> A \<Longrightarrow> fsa_run flags ?E s w F" for r
  proof (induction rule: fsa_run.induct)
    case (run_nil s)
    then have "(s, EPSILON_ID, F) \<in> ?E" by simp
    then show ?case using ep by (rule fsa_run.run_eps) (rule fsa_run.run_nil)
  next
    case (run_eps s x r w t)
    then show ?case using ne by (auto simp: no_eps_def)
  next
    case (run_letter x s r w t)
    then show ?case using step by (auto intro: fsa_run.run_letter)
  qed
  then show "\<exists>r \<in> A. fsa_run flags E s w r \<Longrightarrow> fsa_run flags ?E s w F" by blast
qed

lemma fold_final_arcs:
  fixes one :: 'w and g :: "'w hg"
  assumes "fsa_ok g" and "F < numStates g" and "\<forall>q \<in> set qf. q < numStates g" and "numStates g + length qf \<le> kNoState"
  defines "g' \<equiv> fold (\<lambda>q g. snd (addArcFsa q F EPSILON_ID one g)) qf g"
  shows "edges g' = edges g \<union> {(q, EPSILON_ID, F) | q. q \<in> set qf} \<and> start_state g' = start_state g"
  using assms(1-4) unfolding g'_def
proof (induction qf arbitrary: g)
  case (Cons q qf)
  have n: "numStates g < kNoState" "q < numStates g" using Cons.prems by simp_all
  note A = addArcFsa_edges [OF Cons.prems(1) n(1,2) Cons.prems(2), where i = EPSILON_ID and w = one]
  let ?g = "snd (addArcFsa q F EPSILON_ID one g)"
  have "F < numStates ?g" "\<forall>q \<in> set qf. q < numStates ?g" "numStates ?g + length qf \<le> kNoState"
    using Cons.prems A(3,4) by (auto intro: order_less_le_trans)
  from Cons.IH [OF A(1) this] A(2,5) show ?case by auto
qed simp

lemma edges_setFinal: "edges (setFinal f h) = edges h" "edges (setStart f h) = edges h"
  "fsa_ok (setStart f h) = fsa_ok h" "numStates (setStart f h) = numStates h"
  by (simp_all add: edges_def arc_edge_def [abs_def] inputLabel_def setFinal_def setStart_def fsa_ok_def labels_wf_def fsm_arcs_def
      lstate_ok_def hg_wf_def arcs_bounded_def storesArcs_def storesInArcs_def storesFirstTailOutArcs_def storesAllOutArcs_def)

lemma joinFinals_accepts:
  fixes one :: 'w and o1 :: "'w hg"
  assumes C: "closed_subsets flags E S ex (edges o1)" and ok: "fsa_ok o1" and S: "finite S" "E \<subseteq> S \<times> UNIV \<times> S"
    and ne: "no_eps flags E" and ep: "det_eps flags EPSILON_ID"
    and st: "st \<in> S" "ex (sl {st}) = Some (start_state o1)"
    and qf: "set qf = {q. \<exists>qs. ex qs = Some q \<and> f \<in> set qs}" and rn: "ran ex \<subseteq> {..<numStates o1}"
    and n: "Suc (numStates o1) + length qf \<le> kNoState"
  defines "o2 \<equiv> joinFinals one qf o1"
  shows "fsa_accepts flags o2 w \<longleftrightarrow> f \<in> subset_run flags E w {st}"
    "(q, x, r) \<in> edges o2 \<Longrightarrow> (q, x, r') \<in> edges o2 \<Longrightarrow> r = r'"
proof -
  let ?R = "subset_run flags E w {st}"
  have run: "fsa_run flags (edges o1) (start_state o1) w r \<longleftrightarrow> ?R \<noteq> {} \<and> ex (sl ?R) = Some r" for r
    using closed_run [OF C S ne] st by simp
  have fR: "finite ?R" using subset_run_sub [OF S(2), of "{st}" flags w] S(1) st(1) by (auto intro: finite_subset)
  have b: "ex qs = Some q \<Longrightarrow> q < numStates o1" for qs q using rn by (auto simp: ran_def)
  have inj: "inj_on ex (dom ex)" using C by (simp add: closed_subsets_def)
  have L: "(\<exists>r \<in> set qf. fsa_run flags (edges o1) (start_state o1) w r) \<longleftrightarrow> f \<in> ?R"
  proof
    assume "\<exists>r \<in> set qf. fsa_run flags (edges o1) (start_state o1) w r"
    then obtain r qs where r: "ex qs = Some r" "f \<in> set qs" "ex (sl ?R) = Some r" unfolding run qf by auto
    then have "qs = sl ?R" using inj_onD [OF inj, of qs "sl ?R"] by (simp add: domI)
    then show "f \<in> ?R" using r(2) fR by simp
  next
    assume f: "f \<in> ?R"
    then have "?R \<noteq> {}" by auto
    then obtain r where "ex (sl ?R) = Some r"
      using closed_run_total [OF C S, of "{st}"] st by auto
    moreover have "f \<in> set (sl ?R)" using f fR by simp
    ultimately show "\<exists>r \<in> set qf. fsa_run flags (edges o1) (start_state o1) w r"
      unfolding run qf using \<open>?R \<noteq> {}\<close> by auto
  qed
  have det: "(q, x, r) \<in> edges o1 \<Longrightarrow> (q, x, r') \<in> edges o1 \<Longrightarrow> r = r'" for q x r r'
    by (rule closed_functional [OF C S(1)])
  have E1: "no_eps flags (edges o1)" "\<forall>a x b. (a, x, b) \<in> edges o1 \<longrightarrow> a < numStates o1 \<and> b < numStates o1"
  proof -
    have "x \<in> labels E" if "(q, x, r) \<in> edges o1" for q x r
      using that C det_targets_sub [OF S(2)] by (fastforce simp: closed_subsets_def)
    then show "no_eps flags (edges o1)" using ne by (fastforce simp: no_eps_def labels_def)
    show "\<forall>a x b. (a, x, b) \<in> edges o1 \<longrightarrow> a < numStates o1 \<and> b < numStates o1"
      using edges_states [of o1] ok by (auto simp: fsa_ok_def)
  qed
  have s0: "start_state o1 < numStates o1" using b st(2) by blast
  have wf: "hg_wf o1" using ok by (simp add: fsa_ok_def)
  consider "qf = []" | f' where "qf = [f']" | p p' ps where "qf = p # p' # ps" by (metis remdups_adj.cases)
  then have "(fsa_accepts flags o2 w \<longleftrightarrow> f \<in> ?R) \<and> (\<forall>q x r r'. (q, x, r) \<in> edges o2 \<longrightarrow> (q, x, r') \<in> edges o2 \<longrightarrow> r = r')"
  proof cases
    case 1
    have o2: "o2 = clear_hg (props o1) o1" using 1 by (simp add: o2_def joinFinals_def setEmpty_def clear_def)
    have "edges o2 = {}" unfolding o2 edges_def clear_hg_facts(1) [OF wf] by simp
    moreover have "start_state o2 = kNoState"
      unfolding o2 by (simp add: clear_hg_def clearImpl_def clearStates_def Let_def setProperties_def)
    ultimately show ?thesis using L 1 by (auto simp: fsa_accepts_def)
  next
    case (2 f')
    have o2: "o2 = setFinal f' o1" using 2 by (simp add: o2_def joinFinals_def)
    have "f' < numStates o1" using qf 2 b by auto
    then have "fsa_accepts flags o2 w \<longleftrightarrow> fsa_run flags (edges o1) (start_state o1) w f'"
      using s0 n by (simp add: o2 fsa_accepts_def edges_setFinal setFinal_def edges_def arc_edge_def [abs_def] inputLabel_def)
    then show ?thesis using L 2 det by (auto simp: o2 edges_setFinal)
  next
    case (3 p p' ps)
    obtain F o3 where a: "addState o1 = (F, o3)" by force
    have nk: "numStates o1 < kNoState" using n by simp
    note A = addState_edges [OF ok nk a]
    let ?g = "fold (\<lambda>q g. snd (addArcFsa q F EPSILON_ID one g)) qf o3"
    have o2: "o2 = setFinal F ?g" using 3 a by (simp add: o2_def joinFinals_def)
    have qn: "\<forall>q \<in> set qf. q < numStates o1" using qf b by auto
    have Fn: "F < numStates o3" "\<forall>q \<in> set qf. q < numStates o3" using A(1,4) qn by auto
    have E2: "edges ?g = edges o1 \<union> {(q, EPSILON_ID, F) | q. q \<in> set qf}" "start_state ?g = start_state o1"
      using fold_final_arcs [OF A(2) Fn, of one] A(3,4,5) n by (simp_all add: extends_def)
    have Fd: "\<forall>a x b. (a, x, b) \<in> edges o1 \<longrightarrow> a \<noteq> F \<and> b \<noteq> F" "F \<notin> set qf" "start_state o1 \<noteq> F"
      using E1(2) qn s0 A(1) by auto
    have "fsa_accepts flags o2 w \<longleftrightarrow> fsa_run flags (edges ?g) (start_state o1) w F"
      using s0 n A(1) E2(2) by (simp add: o2 fsa_accepts_def edges_setFinal)
    also have "\<dots> \<longleftrightarrow> f \<in> ?R" unfolding E2(1) run_join [OF E1(1) ep Fd] L ..
    finally have acc: "fsa_accepts flags o2 w \<longleftrightarrow> f \<in> ?R" .
    have "\<forall>q x r r'. (q, x, r) \<in> edges o2 \<longrightarrow> (q, x, r') \<in> edges o2 \<longrightarrow> r = r'"
      unfolding o2 edges_setFinal E2(1) using det E1(1) ep by (fastforce simp: no_eps_def)
    then show ?thesis using acc by simp
  qed
  then show "fsa_accepts flags o2 w \<longleftrightarrow> f \<in> ?R" "(q, x, r) \<in> edges o2 \<Longrightarrow> (q, x, r') \<in> edges o2 \<Longrightarrow> r = r'"
    by blast+
qed

section \<open>The constructor\<close>

lemma det_input_facts:
  assumes D: "det_input flags h"
  shows "\<not> anyInputLabel isEps False h" "no_eps flags (edges h)" "finite (graph_states h)"
    "edges h \<subseteq> graph_states h \<times> UNIV \<times> graph_states h" "start_state h \<in> graph_states h" "start_state h \<noteq> kNoState"
proof -
  show "\<not> anyInputLabel isEps False h" using D by (auto simp: anyInputLabel_def det_input_def)
  show "no_eps flags (edges h)" using edges_ordinary [OF D] by (auto simp: no_eps_def)
  show "finite (graph_states h)" by (simp add: graph_states_def)
  show "edges h \<subseteq> graph_states h \<times> UNIV \<times> graph_states h" using edges_bounds [OF D] by auto
  show "start_state h \<in> graph_states h" using D by (simp add: det_input_def)
  then show "start_state h \<noteq> kNoState" using D by (auto simp: det_input_def graph_states_def)
qed

lemma input_accepts:
  assumes D: "det_input flags h"
  shows "fsa_accepts flags h w \<longleftrightarrow> final_state h \<in> subset_run flags (edges h) w {start_state h}"
proof -
  note F = det_input_facts [OF D]
  have "subset_run flags (edges h) w {start_state h} \<subseteq> graph_states h" using subset_run_sub [OF F(4)] F(5) by simp
  then have "final_state h \<in> subset_run flags (edges h) w {start_state h} \<longrightarrow> final_state h \<noteq> kNoState"
    using D by (auto simp: det_input_def graph_states_def)
  then show ?thesis using F(6) subset_run_iff [OF F(2)] by (auto simp: fsa_accepts_def)
qed

lemma initial_inv:
  assumes ok: "fsa_ok o'" "edges o' = {}" and S: "finite S" "st \<in> S" and ns: "\<not> specialEps e" and n: "numStates o' < kNoState"
    and r: "subsetId e (qadd st []) \<lparr>explored = Map.empty, agenda = [], qfinals = [], expanded = replicate k False, out = o'\<rparr> = (s, d)"
  shows "loop_inv flags e E S (Suc (numStates o')) 0 (d\<lparr>out := setStart s (out d)\<rparr>)" "explored d (sl {st}) = Some s"
proof -
  let ?init = "\<lparr>explored = Map.empty, agenda = [], qfinals = [], expanded = replicate k False, out = o'\<rparr>"
  let ?d = "d\<lparr>out := setStart s (out d)\<rparr>"
  have "det_inv e S {} ?init" using ok by (auto simp: det_inv_def det_edges_def is_expanded_def)
  from subsetId_step [OF this S(1) _ ns _ r [unfolded qadd_Nil]] S(2) n
  have A: "det_inv e S {} d" "explored d (sl {st}) = Some s" "det_step ?init d 1" by simp_all
  have "complete_arcs flags E S ?d = {}" using A(3) by (auto simp: complete_arcs_def det_step_def)
  moreover have "det_inv e S {} ?d" using A(1) by (simp add: det_inv_def edges_setFinal is_expanded_def)
  ultimately show "loop_inv flags e E S (Suc (numStates o')) 0 ?d" using A(3)
    by (simp add: loop_inv_def det_step_def edges_setFinal)
  show "explored d (sl {st}) = Some s" by (rule A(2))
qed

text \<open>
  Property C5 (determinisation). On an fsa without epsilon arcs the subset construction ends and returns a deterministic
  fsa that accepts the same symbol sequences, whatever the order in which the letters are visited.
\<close>

theorem determinizeFsa_correct:
  assumes "det_input flags i" and "flags AND DETERMINIZE_EPSILON_NORMAL = 0" and "fsa_ok o'" and "edges o' = {}"
    and "\<forall>d. mset (ord d) = mset d"
    and "numStates o' + 2 + (2 * card (labels (edges i)) + 1) * 2 ^ card (graph_states i) < kNoState"
  shows "\<exists>o2. DeterminizeFsa ord one i o' flags = Some (Inr o2) \<and>
    (\<forall>w. fsa_accepts flags o2 w \<longleftrightarrow> fsa_accepts flags i w) \<and>
    (\<forall>q x r r'. (q, x, r) \<in> edges o2 \<and> (q, x, r') \<in> edges o2 \<longrightarrow> r = r')"
proof -
  let ?E = "edges i" and ?S = "graph_states i" and ?n = "Suc (numStates o')"
  note D = det_input_facts [OF assms(1)]
  obtain rs where rs: "initRhos flags i = Inr rs"
    "env_ok flags \<lparr>eps_outs = [], specialEps = False, rhos = rs, qfinali = final_state i\<rparr> ?E ?S"
    by (rule initRhos_ok [OF assms(1)]) blast
  let ?e = "\<lparr>eps_outs = [], specialEps = False, rhos = rs, qfinali = final_state i\<rparr>"
  have bd: "numStates o' + 2 + 2 * card (labels ?E) * 2 ^ card ?S + 2 ^ card ?S < kNoState"
    using assms(6) by (simp add: algebra_simps)
  have ok: "det_ok flags ?e ?E ?S ord ?n"
    using rs(2) D(2) assms(5) bd by (simp add: det_ok_def no_eps_def)
  let ?init = "\<lparr>explored = Map.empty, agenda = [], qfinals = [], expanded = replicate (2 * numStates i) False, out = o'\<rparr>"
  obtain s d1 where r: "subsetId ?e (qadd (start_state i) []) ?init = (s, d1)" by force
  have ns: "\<not> specialEps ?e" and n0: "numStates o' < kNoState" using bd by simp_all
  let ?d = "d1\<lparr>out := setStart s (out d1)\<rparr>"
  note I = initial_inv [OF assms(3,4) D(3,5) ns n0 r]
  from finish_agenda_ends [OF ok I(1), where one = one] obtain d c where F: "finish_agenda ord ?e one ?d = Some d" "agenda d = []"
    "loop_inv flags ?e ?E ?S ?n c d" "c \<le> 2 ^ card ?S" "start_state (out d) = s" "explored d1 \<subseteq>\<^sub>m explored d"
    by (auto simp: setStart_def)
  let ?o = "joinFinals one (qfinals d) (out d)"
  have res: "DeterminizeFsa ord one i o' flags = Some (Inr ?o)"
    using D(1) rs(1) r F(1) by (simp add: DeterminizeFsa_def Let_def)
  have V: "fsa_ok (out d)" "ran (explored d) \<subseteq> {..<numStates (out d)}" "card (dom (explored d)) = c"
    "set (qfinals d) = {q. \<exists>qs. explored d qs = Some q \<and> final_state i \<in> set qs}"
    "length (qfinals d) \<le> card (dom (explored d))" "numStates (out d) \<le> ?n + 2 * card (labels ?E) * c"
    using F(2,3) by (simp_all add: loop_inv_def det_inv_def)
  have st: "explored d (sl {start_state i}) = Some (start_state (out d))"
    using I(2) F(5,6) by (force simp: map_le_def dom_def)
  have n: "Suc (numStates (out d)) + length (qfinals d) \<le> kNoState"
  proof -
    have "2 * card (labels ?E) * c \<le> 2 * card (labels ?E) * 2 ^ card ?S" using F(4) by (rule mult_le_mono2)
    moreover have "length (qfinals d) \<le> 2 ^ card ?S" using V(3,5) F(4) by (metis order_trans)
    ultimately show ?thesis using V(6) bd by linarith
  qed
  have ep: "det_eps flags EPSILON_ID" using assms(2) by (simp add: det_eps_def is_det_special_def)
  note J = joinFinals_accepts [OF loop_closed [OF F(3,2)] V(1) D(3,4,2) ep D(5) st V(4,2) n, where one = one]
  have "\<forall>w. fsa_accepts flags ?o w \<longleftrightarrow> fsa_accepts flags i w" using J(1) input_accepts [OF assms(1)] by simp
  then show ?thesis using res J(2) by blast
qed

text \<open>Witness: two arcs with the same symbol leave the start; the output is shared lexical states.\<close>

definition sample_nfa :: "nat hg" where
  "sample_nfa = hg_zero\<lparr>props := kStoreFirstTailOutArcs, numStates := 5, start_state := 0, final_state := 2,
     iLabelForState := [NoSymbol, NoSymbol, NoSymbol, Sym 100, RHO_ID],
     arc_heap := [0 \<mapsto> new_arc_fsm 0 3 0 1, 1 \<mapsto> new_arc_fsm 0 3 0 2, 2 \<mapsto> new_arc_fsm 1 4 0 2],
     next_arc := 3, outArcsPerState := [[0, 1], [2]]\<rparr>"

definition fresh_fsa :: "nat hg" where
  "fresh_fsa = hg_zero\<lparr>props := kStoreFirstTailOutArcs OR kCanonicalLex, start_state := kNoState, final_state := kNoState\<rparr>"

lemma fresh_fsa_ok: "fsa_ok fresh_fsa" "edges fresh_fsa = {}" "numStates fresh_fsa = 0"
proof -
  have "\<not> storesInArcs fresh_fsa" "storesFirstTailOutArcs fresh_fsa" "\<not> storesAllOutArcs fresh_fsa"
    by (simp_all add: storesInArcs_def storesFirstTailOutArcs_def storesAllOutArcs_def fresh_fsa_def flag_simps)
  moreover have "arc_heap fresh_fsa = Map.empty" "outArcsPerState fresh_fsa = []" "lstate fresh_fsa = Map.empty"
    "iLabelForState fresh_fsa = []" "oLabelForState fresh_fsa = []" "numStates fresh_fsa = 0"
    by (simp_all add: fresh_fsa_def hg_zero_def)
  ultimately show "fsa_ok fresh_fsa" "edges fresh_fsa = {}" "numStates fresh_fsa = 0"
    by (simp_all add: fsa_ok_def hg_wf_def arcs_bounded_def labels_wf_def fsm_arcs_def lstate_ok_def
        edges_def index_empty storesArcs_cases storesOutArcs_cases)
qed

lemma sample_nfa_facts:
  "edges sample_nfa = {(0, Sym 100, 1), (0, Sym 100, 2), (1, RHO_ID, 2)}" "graph_states sample_nfa = {0, 1, 2}"
  "start_state sample_nfa = 0" "final_state sample_nfa = 2" "det_input flags sample_nfa"
proof -
  let ?h = sample_nfa
  have s: "\<not> storesInArcs ?h" "storesFirstTailOutArcs ?h" "\<not> storesAllOutArcs ?h"
    by (simp_all add: storesInArcs_def storesFirstTailOutArcs_def storesAllOutArcs_def sample_nfa_def flag_simps)
  have f: "arc_heap ?h = [0 \<mapsto> new_arc_fsm 0 3 0 1, 1 \<mapsto> new_arc_fsm 0 3 0 2, 2 \<mapsto> new_arc_fsm 1 4 0 2]"
    "next_arc ?h = 3" "outArcsPerState ?h = [[0, 1], [2]]" "numStates ?h = 5"
    by (simp_all add: sample_nfa_def)
  show st: "start_state ?h = 0" "final_state ?h = 2" by (simp_all add: sample_nfa_def)
  have l: "inputLabel ?h s = (if s = 3 then Sym 100 else if s = 4 then RHO_ID else NoSymbol)" for s
  proof -
    have il: "iLabelForState ?h = [NoSymbol, NoSymbol, NoSymbol, Sym 100, RHO_ID]" by (simp add: sample_nfa_def)
    have "s < 5 \<longleftrightarrow> s = 0 \<or> s = 1 \<or> s = 2 \<or> s = 3 \<or> s = 4" by arith
    then show ?thesis by (cases "s < 5") (auto simp: inputLabel_def getOrElse_def il)
  qed
  have r: "ran (arc_heap ?h) = {new_arc_fsm 0 3 0 1, new_arc_fsm 0 3 0 2, new_arc_fsm 1 4 0 2}"
    by (simp add: f ran_map_upd insert_commute)
  have d: "NoSymbol \<noteq> Sym 100" "NoSymbol \<noteq> RHO_ID" by (simp_all add: NoSymbol_def kNoSymbol_def RHO_ID_def specialTerminal_def)
  show e: "edges ?h = {(0, Sym 100, 1), (0, Sym 100, 2), (1, RHO_ID, 2)}"
    by (simp add: edges_def r arc_edge_def new_arc_fsm_def l)
  have five: "s < 5 \<longleftrightarrow> s = 0 \<or> s = 1 \<or> s = 2 \<or> s = 3 \<or> s = (4::nat)" for s by arith
  have "graph_states ?h = {s. s = 0 \<or> s = 1 \<or> s = 2}"
    unfolding graph_states_def f(4) five l by (rule Collect_cong) (use d in simp)
  then show g: "graph_states ?h = {0, 1, 2}" by auto
  have "index_ok first_weight (arc_heap ?h) (outArcsPerState ?h)"
    by (auto simp: index_ok_def f first_weight_def new_arc_fsm_def getOrElse_def nth_Cons')
  moreover have "arcs_bounded ?h" by (simp add: arcs_bounded_def f new_arc_fsm_def)
  ultimately have "hg_wf ?h" by (simp add: hg_wf_def s storesArcs_cases storesOutArcs_cases)
  moreover have "fsm_arcs ?h" by (simp add: fsm_arcs_def r new_arc_fsm_def)
  moreover have o: "\<not> isEps x \<and> \<not> NotDeterminized flags x" if "x = NoSymbol \<or> x = Sym 100 \<or> x = RHO_ID" for x
    using that by (auto simp: isEps_def NotDeterminized_def det_phi_def det_sigma_def is_det_special_def NoSymbol_def kNoSymbol_def
        EPSILON_ID_def RHO_ID_def PHI_ID_def SIGMA_ID_def specialTerminal_def)
  moreover have "\<forall>x \<in> ran (arc_heap ?h). inputLabel ?h (arc_tails x ! 0) = NoSymbol \<and> inputLabel ?h (arc_tails x ! 1) \<noteq> NoSymbol \<and>
      inputLabel ?h (arc_head x) = NoSymbol"
    unfolding r by (use d in \<open>simp add: new_arc_fsm_def l\<close>)
  moreover have "\<forall>s < numStates ?h. \<not> isEps (inputLabel ?h s) \<and> \<not> NotDeterminized flags (inputLabel ?h s)"
    by (intro allI impI o) (simp add: l)
  moreover have "numStates ?h \<le> kNoState" "storesOutArcs ?h" "start_state ?h \<in> graph_states ?h"
    by (simp_all add: f kNoState_def storesOutArcs_cases s g st)
  ultimately show "det_input flags ?h"
    unfolding det_input_def by blast
qed

theorem determinizeFsa_correct_witness:
  "\<exists>o2. DeterminizeFsa rev 0 sample_nfa fresh_fsa DETERMINIZE_INPUT = Some (Inr o2) \<and>
    fsa_accepts DETERMINIZE_INPUT o2 [Sym 100] \<and> fsa_accepts DETERMINIZE_INPUT o2 [Sym 100, Sym 101] \<and>
    \<not> fsa_accepts DETERMINIZE_INPUT o2 [Sym 101]"
proof -
  note F = sample_nfa_facts
  have L: "labels (edges sample_nfa) = {Sym 100, RHO_ID}" by (auto simp: labels_def F(1))
  then have c: "card (labels (edges sample_nfa)) \<le> 2" by (simp add: card_insert_if)
  have b: "numStates fresh_fsa + 2 + (2 * card (labels (edges sample_nfa)) + 1) * 2 ^ card (graph_states sample_nfa) < kNoState"
    using c by (simp add: F(2) fresh_fsa_ok(3) kNoState_def)
  have fl: "DETERMINIZE_INPUT AND DETERMINIZE_EPSILON_NORMAL = 0"
    by (simp add: DETERMINIZE_INPUT_def DETERMINIZE_EPSILON_NORMAL_def)
  have od: "\<forall>d. mset (rev d) = mset d" by simp
  from determinizeFsa_correct [OF F(5) fl fresh_fsa_ok(1,2) od b, of 0]
  obtain o2 where o2: "DeterminizeFsa rev 0 sample_nfa fresh_fsa DETERMINIZE_INPUT = Some (Inr o2)"
    "\<forall>w. fsa_accepts DETERMINIZE_INPUT o2 w \<longleftrightarrow> fsa_accepts DETERMINIZE_INPUT sample_nfa w" by blast
  have n: "Sym 100 \<noteq> RHO_ID" "Sym 101 \<noteq> RHO_ID" "Sym 101 \<noteq> Sym 100" "Sym 100 \<noteq> EPSILON_ID" "Sym 101 \<noteq> EPSILON_ID"
    by (simp_all add: RHO_ID_def EPSILON_ID_def specialTerminal_def)
  have rho: "det_rho DETERMINIZE_INPUT x \<longleftrightarrow> x = RHO_ID" "det_eps DETERMINIZE_INPUT x \<longleftrightarrow> x = EPSILON_ID" for x
    by (simp_all add: det_rho_def det_eps_def is_det_special_def DETERMINIZE_INPUT_def DETERMINIZE_RHO_NORMAL_def DETERMINIZE_EPSILON_NORMAL_def)
  have s: "subset_step DETERMINIZE_INPUT (edges sample_nfa) (Sym 100) {0} = {1, 2}"
    "subset_step DETERMINIZE_INPUT (edges sample_nfa) (Sym 101) {1, 2} = {2}"
    "subset_step DETERMINIZE_INPUT (edges sample_nfa) (Sym 101) {0} = {}"
    using n by (auto simp: subset_step_def fsa_step_def F(1) rho)
  have "fsa_accepts DETERMINIZE_INPUT sample_nfa [Sym 100]" "fsa_accepts DETERMINIZE_INPUT sample_nfa [Sym 100, Sym 101]"
    "\<not> fsa_accepts DETERMINIZE_INPUT sample_nfa [Sym 101]"
    by (simp_all add: input_accepts [OF F(5)] F(3,4) s [simplified])
  then show ?thesis using o2 by blast
qed

section \<open>Epsilon arcs\<close>

text \<open>
  \<open>subsetId\<close> asks whether the subset is final before it adds the epsilon closure, so that a final state
  that is reached by an epsilon arc is not seen: the output accepts nothing.
\<close>

definition sample_eps :: "nat hg" where
  "sample_eps = hg_zero\<lparr>props := kStoreFirstTailOutArcs, numStates := 5, start_state := 0, final_state := 2,
     iLabelForState := [NoSymbol, NoSymbol, NoSymbol, Sym 100, EPSILON_ID],
     arc_heap := [0 \<mapsto> new_arc_fsm 0 3 0 1, 1 \<mapsto> new_arc_fsm 1 4 0 2],
     next_arc := 2, outArcsPerState := [[0], [1]], fsmChecked := True\<rparr>"

lemma flags_input:
  "det_rho DETERMINIZE_INPUT x \<longleftrightarrow> x = RHO_ID" "det_eps DETERMINIZE_INPUT x \<longleftrightarrow> x = EPSILON_ID"
  "det_phi DETERMINIZE_INPUT x \<longleftrightarrow> x = PHI_ID" "det_sigma DETERMINIZE_INPUT x \<longleftrightarrow> x = SIGMA_ID"
  "DETERMINIZE_INPUT AND DETERMINIZE_EPSILON_NORMAL = 0"
  by (simp_all add: det_rho_def det_eps_def det_phi_def det_sigma_def is_det_special_def DETERMINIZE_INPUT_def
      DETERMINIZE_RHO_NORMAL_def DETERMINIZE_EPSILON_NORMAL_def DETERMINIZE_PHI_NORMAL_def DETERMINIZE_SIGMA_NORMAL_def)

lemma upt_five: "[0..<5] = [0, 1, 2, 3, 4::nat]"
  by (simp add: upt_rec)

lemma sample_eps_facts: "final_state sample_eps = 2" "start_state sample_eps = 0" "numStates sample_eps = 5"
  "edges sample_eps = {(0, Sym 100, 1), (1, EPSILON_ID, 2)}"
proof -
  show "final_state sample_eps = 2" "start_state sample_eps = 0" "numStates sample_eps = 5" by (simp_all add: sample_eps_def)
  have "ran (arc_heap sample_eps) = {new_arc_fsm 0 3 0 1, new_arc_fsm 1 4 0 2}"
    by (simp add: sample_eps_def ran_map_upd insert_commute)
  then show "edges sample_eps = {(0, Sym 100, 1), (1, EPSILON_ID, 2)}"
    by (simp add: edges_def arc_edge_def new_arc_fsm_def inputLabel_def getOrElse_def sample_eps_def)
qed

lemma sample_eps_rhos: "initRhos DETERMINIZE_INPUT sample_eps =
    Inr [\<lparr>normals = [Sym 100], arcs = [(Sym 100, 1)], qrhos = []\<rparr>, outi_empty, outi_empty, outi_empty, outi_empty]"
  by (simp add: initRhos_def sample_eps_def upt_five outArcsOf_def getOrElse_def arcAt_def new_arc_fsm_def fsmSymbolState_def
      inputLabel_def addLetter_def flags_input bindR_def outi_empty_def EPSILON_ID_def RHO_ID_def PHI_ID_def SIGMA_ID_def
      specialTerminal_def)

lemma sample_eps_closure: "transitiveClose (addFsmArcs sample_eps isEps []) = [[], [2], [], [], []]"
proof -
  have "storesFirstTailOutArcs sample_eps" by (simp add: storesFirstTailOutArcs_def sample_eps_def flag_simps)
  then have f: "forArcsFsm sample_eps = [0, 1]"
    by (simp add: forArcsFsm_def forArcsOutFirstTail_def forArcsOutEveryTail_def outArcsOf_def sample_eps_facts upt_five getOrElse_def)
      (simp add: sample_eps_def hg_zero_def)
  have a: "arcAt sample_eps 0 = new_arc_fsm 0 3 0 1" "arcAt sample_eps (Suc 0) = new_arc_fsm 1 4 0 2"
    "inputLabel sample_eps 3 = Sym 100" "inputLabel sample_eps 4 = EPSILON_ID"
    by (simp_all add: arcAt_def sample_eps_def inputLabel_def getOrElse_def)
  have b: "inputLabel sample_eps (Suc (Suc (Suc 0))) = Sym 100" "inputLabel sample_eps (Suc (Suc (Suc (Suc 0)))) = EPSILON_ID"
    using a(3,4) by (simp_all add: eval_nat_numeral)
  have "\<not> isEps (Sym 100)" "isEps EPSILON_ID" by (simp_all add: isEps_def EPSILON_ID_def specialTerminal_def)
  then have "addFsmArcs sample_eps isEps [] = [[], [2], [], [], []]"
    by (simp add: addFsmArcs_def addFsmArc_def f sample_eps_facts vec_resize_def a(1,2) b getFsmInput_def fsmSymbolState_def
        new_arc_fsm_def Let_def eval_nat_numeral)
  then show ?thesis
    by (simp add: transitiveClose_def toAdjs_def warshall_transitive_close_def close_row_def close_step_def fromAdjs_def
        copyBits_def upt_five upt_rec nth_Cons')
qed

lemma sample_eps_special: "anyInputLabel isEps False sample_eps"
  by (simp add: anyInputLabel_def sample_eps_def inputLabel_def getOrElse_def upt_five isEps_def EPSILON_ID_def NoSymbol_def
      kNoSymbol_def specialTerminal_def)

theorem determinizeFsa_loses_epsilon:
  "fsa_accepts DETERMINIZE_INPUT sample_eps [Sym 100] \<and>
   (\<exists>o2. DeterminizeFsa id 0 sample_eps fresh_fsa DETERMINIZE_INPUT = Some (Inr o2) \<and> (\<forall>w. \<not> fsa_accepts DETERMINIZE_INPUT o2 w))"
proof
  have n: "Sym 100 \<noteq> RHO_ID" "Sym 100 \<noteq> EPSILON_ID" by (simp_all add: RHO_ID_def EPSILON_ID_def specialTerminal_def)
  have "fsa_run DETERMINIZE_INPUT (edges sample_eps) 1 [] 2"
    by (rule fsa_run.run_eps [of _ EPSILON_ID 2]) (simp_all add: sample_eps_facts flags_input fsa_run.run_nil)
  moreover have "fsa_step DETERMINIZE_INPUT (edges sample_eps) (Sym 100) 0 1"
    using n by (simp add: fsa_step_def sample_eps_facts flags_input)
  ultimately have "fsa_run DETERMINIZE_INPUT (edges sample_eps) 0 [Sym 100] 2" by (rule fsa_run.run_letter [rotated])
  then show "fsa_accepts DETERMINIZE_INPUT sample_eps [Sym 100]"
    by (simp add: fsa_accepts_def sample_eps_facts kNoState_def)
  have "\<exists>o2. DeterminizeFsa id 0 sample_eps fresh_fsa DETERMINIZE_INPUT = Some (Inr o2) \<and> start_state o2 = kNoState"
    by (simp add: DeterminizeFsa_def sample_eps_rhos sample_eps_closure sample_eps_special sample_eps_facts flags_input
        subsetId_def qadd_Nil epsClosure_def addqs_def finish_agenda.simps genOut_def latchGrow_def collect_def delta_add_def
        det_addArc_def withRhos_def addState_def outi_empty_def Let_def fresh_fsa_ok(3) inc32_def qadd_def
        insort_insert_key_def joinFinals_def setEmpty_def clear_def)
      (simp add: clear_hg_def clearImpl_def clearStates_def Let_def setProperties_def)
  then show "\<exists>o2. DeterminizeFsa id 0 sample_eps fresh_fsa DETERMINIZE_INPUT = Some (Inr o2) \<and>
      (\<forall>w. \<not> fsa_accepts DETERMINIZE_INPUT o2 w)"
    by (auto simp: fsa_accepts_def)
qed

end
