(* ===== verification/Generators.thy ===== *)
theory Generators
  imports Hyp_Prelude "HOL-Library.Multiset"
begin

text \<open>
  The generator concept (\<open>sdl/Util/Generator.hpp\<close>) and the loops over a generator. A generator type is given
  by its conversion to bool (\<open>alive\<close>), its \<open>peek\<close> and its \<open>pop\<close> over its state; calling it is \<open>peek\<close> and
  then \<open>pop\<close>, so that the loops for peekable and for other generators do the same.

  The locale \<open>generator\<close> is the contract: every state that may occur has a finite multiset of values to come,
  and a call takes one of them away. \<open>sorted_generator\<close> asks that it is a least one.
\<close>

section \<open>The code\<close>

text \<open>\<open>appendGenerate(gen, vec, max)\<close>; the result is \<open>vec\<close>, the count and the generator.\<close>

function appendGenerate_from :: "('s \<Rightarrow> bool) \<Rightarrow> ('s \<Rightarrow> 'v) \<Rightarrow> ('s \<Rightarrow> 's) \<Rightarrow> nat \<Rightarrow> nat \<Rightarrow> 's \<Rightarrow> 'v list \<Rightarrow> 'v list \<times> nat \<times> 's" where
  "appendGenerate_from alive peek pop mx n s vec =
     (if n < mx \<and> alive s then appendGenerate_from alive peek pop mx (Suc n) (pop s) (vec @ [peek s]) else (vec, n, s))"
  by pat_completeness auto
termination
  by (relation "measure (\<lambda>(alive, peek, pop, mx, n, s, vec). mx - n)") auto

declare appendGenerate_from.simps [simp del]

definition appendGenerate_max :: "('s \<Rightarrow> bool) \<Rightarrow> ('s \<Rightarrow> 'v) \<Rightarrow> ('s \<Rightarrow> 's) \<Rightarrow> 's \<Rightarrow> 'v list \<Rightarrow> nat \<Rightarrow> 'v list \<times> nat \<times> 's" where
  "appendGenerate_max alive peek pop s vec mx = appendGenerate_from alive peek pop mx 0 s vec"

text \<open>Without a bound the loop ends only when the generator does.\<close>

partial_function (option) appendGenerate_loop ::
  "('s \<Rightarrow> bool) \<Rightarrow> ('s \<Rightarrow> 'v) \<Rightarrow> ('s \<Rightarrow> 's) \<Rightarrow> nat \<Rightarrow> 's \<Rightarrow> 'v list \<Rightarrow> ('v list \<times> nat \<times> 's) option" where
  "appendGenerate_loop alive peek pop n s vec =
     (if alive s then appendGenerate_loop alive peek pop (Suc n) (pop s) (vec @ [peek s]) else Some (vec, n, s))"

definition appendGenerate :: "('s \<Rightarrow> bool) \<Rightarrow> ('s \<Rightarrow> 'v) \<Rightarrow> ('s \<Rightarrow> 's) \<Rightarrow> 's \<Rightarrow> 'v list \<Rightarrow> ('v list \<times> nat \<times> 's) option" where
  "appendGenerate alive peek pop s vec = appendGenerate_loop alive peek pop 0 s vec"

text \<open>\<open>visitGenerate(gen, visit, max)\<close>: a value that the visitor refuses is taken, but not counted.\<close>

function visitGenerate_from ::
  "('s \<Rightarrow> bool) \<Rightarrow> ('s \<Rightarrow> 'v) \<Rightarrow> ('s \<Rightarrow> 's) \<Rightarrow> ('v \<Rightarrow> 'a \<Rightarrow> bool \<times> 'a) \<Rightarrow> nat \<Rightarrow> nat \<Rightarrow> 's \<Rightarrow> 'a \<Rightarrow> nat \<times> 's \<times> 'a" where
  "visitGenerate_from alive peek pop visit mx n s a =
     (if n < mx \<and> alive s
      then (let (more, a') = visit (peek s) a
            in if \<not> more then (n, pop s, a') else visitGenerate_from alive peek pop visit mx (Suc n) (pop s) a')
      else (n, s, a))"
  by pat_completeness auto
termination
  by (relation "measure (\<lambda>(alive, peek, pop, visit, mx, n, s, a). mx - n)") auto

declare visitGenerate_from.simps [simp del]

definition visitGenerate_max ::
  "('s \<Rightarrow> bool) \<Rightarrow> ('s \<Rightarrow> 'v) \<Rightarrow> ('s \<Rightarrow> 's) \<Rightarrow> ('v \<Rightarrow> 'a \<Rightarrow> bool \<times> 'a) \<Rightarrow> nat \<Rightarrow> 's \<Rightarrow> 'a \<Rightarrow> nat \<times> 's \<times> 'a" where
  "visitGenerate_max alive peek pop visit mx s a = visitGenerate_from alive peek pop visit mx 0 s a"

text \<open>\<open>IteratorGenerator\<close>: the state is the range from \<open>iBegin\<close> to \<open>iEnd\<close>.\<close>

definition iter_alive :: "'v list \<Rightarrow> bool" where
  "iter_alive r \<longleftrightarrow> r \<noteq> []"

definition iter_peek :: "'v list \<Rightarrow> 'v" where
  "iter_peek r = hd r"

definition iter_pop :: "'v list \<Rightarrow> 'v list" where
  "iter_pop r = tl r"

text \<open>\<open>TransformedGenerator\<close> maps the values of another generator.\<close>

definition transformed_peek :: "('s \<Rightarrow> 'u) \<Rightarrow> ('u \<Rightarrow> 'v) \<Rightarrow> 's \<Rightarrow> 'v" where
  "transformed_peek peek f s = f (peek s)"

section \<open>The contract\<close>

locale generator =
  fixes inv :: "'s \<Rightarrow> bool" and alive :: "'s \<Rightarrow> bool" and peek :: "'s \<Rightarrow> 'v" and pop :: "'s \<Rightarrow> 's"
    and remaining :: "'s \<Rightarrow> 'v multiset"
  assumes alive_iff: "inv s \<Longrightarrow> alive s \<longleftrightarrow> remaining s \<noteq> {#}"
    and inv_pop: "inv s \<Longrightarrow> alive s \<Longrightarrow> inv (pop s)"
    and remaining_pop: "inv s \<Longrightarrow> alive s \<Longrightarrow> remaining s = add_mset (peek s) (remaining (pop s))"
begin

lemma append_from:
  assumes "inv s" and "appendGenerate_from alive peek pop mx n s vec = (vec', m, s')"
  shows "\<exists>xs. vec' = vec @ xs \<and> m = n + length xs \<and> inv s' \<and> length xs = min (mx - n) (size (remaining s)) \<and>
    remaining s = mset xs + remaining s'"
  using assms
proof (induction "mx - n" arbitrary: n s vec)
  case 0
  then show ?case by (simp add: appendGenerate_from.simps [of _ _ _ _ n])
next
  case (Suc k)
  then have nm: "n < mx" and k: "k = mx - Suc n" by simp_all
  show ?case
  proof (cases "alive s")
    case True
    have r: "appendGenerate_from alive peek pop mx (Suc n) (pop s) (vec @ [peek s]) = (vec', m, s')"
      using nm Suc(4) True by (simp add: appendGenerate_from.simps [of _ _ _ _ n])
    obtain xs where xs: "vec' = (vec @ [peek s]) @ xs" "m = Suc n + length xs" "inv s'"
      "length xs = min (mx - Suc n) (size (remaining (pop s)))" "remaining (pop s) = mset xs + remaining s'"
      using Suc(1) [OF k inv_pop [OF Suc(3) True] r] by blast
    have "length (peek s # xs) = min (mx - n) (size (remaining s))"
      using xs(4) remaining_pop [OF Suc(3) True] Suc(2) by simp
    moreover have "remaining s = mset (peek s # xs) + remaining s'" using xs(5) remaining_pop [OF Suc(3) True] by simp
    moreover have "vec' = vec @ (peek s # xs)" "m = n + length (peek s # xs)" using xs(1,2) by simp_all
    ultimately show ?thesis using xs(3) by blast
  next
    case False
    then show ?thesis using Suc alive_iff [OF Suc(3)] by (simp add: appendGenerate_from.simps [of _ _ _ _ n])
  qed
qed

lemma append_max:
  assumes "inv s" and "appendGenerate_max alive peek pop s vec mx = (vec', m, s')"
  shows "\<exists>xs. vec' = vec @ xs \<and> m = length xs \<and> length xs = min mx (size (remaining s)) \<and>
    remaining s = mset xs + remaining s'"
  using append_from [OF assms(1) assms(2) [unfolded appendGenerate_max_def]] by auto

lemma append_loop:
  assumes "inv s"
  shows "\<exists>xs s'. appendGenerate_loop alive peek pop n s vec = Some (vec @ xs, n + length xs, s') \<and>
    mset xs = remaining s \<and> \<not> alive s'"
  using assms
proof (induction "size (remaining s)" arbitrary: n s vec)
  case 0
  then have "\<not> alive s" using alive_iff by simp
  then show ?case using 0 by (simp add: appendGenerate_loop.simps [of _ _ _ n])
next
  case (Suc k)
  then have a: "alive s" using alive_iff by auto
  note r = remaining_pop [OF Suc(3) a]
  obtain xs s' where "appendGenerate_loop alive peek pop (Suc n) (pop s) (vec @ [peek s]) = Some ((vec @ [peek s]) @ xs, Suc n + length xs, s')"
    "mset xs = remaining (pop s)" "\<not> alive s'"
    using Suc(1) [of "pop s" "Suc n" "vec @ [peek s]"] Suc(2) r inv_pop [OF Suc(3) a] by auto
  then show ?case using r a
    by (intro exI [of _ "peek s # xs"] exI [of _ s']) (simp add: appendGenerate_loop.simps [of _ _ _ n])
qed

lemma append_all:
  assumes "inv s"
  shows "\<exists>xs s'. appendGenerate alive peek pop s vec = Some (vec @ xs, length xs, s') \<and> mset xs = remaining s \<and> \<not> alive s'"
  using append_loop [OF assms, of 0 vec] by (simp add: appendGenerate_def)

end

locale sorted_generator = generator inv alive peek pop remaining
  for inv :: "'s \<Rightarrow> bool" and alive and peek :: "'s \<Rightarrow> 'v" and pop and remaining +
  fixes key :: "'v \<Rightarrow> 'd::linorder"
  assumes peek_least: "inv s \<Longrightarrow> alive s \<Longrightarrow> x \<in># remaining s \<Longrightarrow> key (peek s) \<le> key x"
begin

lemma append_loop_sorted:
  assumes "inv s" and "appendGenerate_loop alive peek pop n s vec = Some (vec @ xs, m, s')"
  shows "sorted (map key xs)"
  using assms
proof (induction "size (remaining s)" arbitrary: n s vec xs)
  case 0
  then have "\<not> alive s" using alive_iff by simp
  then show ?case using 0(3) by (simp add: appendGenerate_loop.simps [of _ _ _ n])
next
  case (Suc k)
  then have a: "alive s" using alive_iff by auto
  note r = remaining_pop [OF Suc(3) a]
  have e: "appendGenerate_loop alive peek pop (Suc n) (pop s) (vec @ [peek s]) = Some (vec @ xs, m, s')"
    using Suc(4) a by (simp add: appendGenerate_loop.simps [of _ _ _ n])
  obtain ys where ys: "vec @ xs = (vec @ [peek s]) @ ys" "mset ys = remaining (pop s)"
    using append_loop [OF inv_pop [OF Suc(3) a], of "Suc n" "vec @ [peek s]"] e by auto
  have "sorted (map key ys)" using Suc(1) [of "pop s" "Suc n" "vec @ [peek s]" ys] Suc(2) r inv_pop [OF Suc(3) a] e ys(1) by simp
  moreover have "\<forall>y \<in> set ys. key (peek s) \<le> key y"
    using ys(2) peek_least [OF Suc(3) a] r by (metis insert_noteq_member set_mset_mset union_iff add_mset_add_single)
  ultimately show ?case using ys(1) by simp
qed

lemma append_all_sorted:
  assumes "inv s"
  shows "\<exists>xs s'. appendGenerate alive peek pop s vec = Some (vec @ xs, length xs, s') \<and> mset xs = remaining s \<and>
    sorted (map key xs) \<and> \<not> alive s'"
proof -
  obtain xs s' where "appendGenerate alive peek pop s vec = Some (vec @ xs, length xs, s')" "mset xs = remaining s" "\<not> alive s'"
    using append_all [OF assms] by blast
  moreover from this have "sorted (map key xs)"
    using append_loop_sorted [OF assms, of 0 vec xs] by (simp add: appendGenerate_def)
  ultimately show ?thesis by blast
qed

lemma append_from_least:
  assumes "inv s" and "appendGenerate_from alive peek pop mx n s vec = (vec @ xs, m, s')" and "x \<in> set xs" and "y \<in># remaining s'"
  shows "key x \<le> key y"
  using assms
proof (induction "mx - n" arbitrary: n s vec xs)
  case 0
  then show ?case by (simp add: appendGenerate_from.simps [of _ _ _ _ n])
next
  case (Suc k)
  then have nm: "n < mx" and k: "k = mx - Suc n" by simp_all
  show ?case
  proof (cases "alive s")
    case True
    have r: "appendGenerate_from alive peek pop mx (Suc n) (pop s) (vec @ [peek s]) = (vec @ xs, m, s')"
      using nm Suc(4) True by (simp add: appendGenerate_from.simps [of _ _ _ _ n])
    obtain ys where ys: "xs = peek s # ys" "remaining (pop s) = mset ys + remaining s'"
      using append_from [OF inv_pop [OF Suc(3) True] r] by auto
    have "y \<in># remaining s" using Suc(6) ys(2) remaining_pop [OF Suc(3) True] by simp
    then have "key (peek s) \<le> key y" by (rule peek_least [OF Suc(3) True])
    moreover have "key x \<le> key y" if "x \<in> set ys"
      using Suc(1) [OF _ inv_pop [OF Suc(3) True], of "Suc n" "vec @ [peek s]" ys] Suc(2,6) r ys(1) that by simp
    ultimately show ?thesis using Suc(5) ys(1) by auto
  next
    case False
    then show ?thesis using Suc(4,5) by (simp add: appendGenerate_from.simps [of _ _ _ _ n])
  qed
qed

lemma append_from_sorted:
  assumes "inv s" and "appendGenerate_from alive peek pop mx n s vec = (vec @ xs, m, s')"
  shows "sorted (map key xs)"
  using assms
proof (induction "mx - n" arbitrary: n s vec xs)
  case 0
  then show ?case by (simp add: appendGenerate_from.simps [of _ _ _ _ n])
next
  case (Suc k)
  then have nm: "n < mx" and k: "k = mx - Suc n" by simp_all
  show ?case
  proof (cases "alive s")
    case True
    have r: "appendGenerate_from alive peek pop mx (Suc n) (pop s) (vec @ [peek s]) = (vec @ xs, m, s')"
      using nm Suc(4) True by (simp add: appendGenerate_from.simps [of _ _ _ _ n])
    obtain ys where ys: "xs = peek s # ys" "remaining (pop s) = mset ys + remaining s'"
      using append_from [OF inv_pop [OF Suc(3) True] r] by auto
    have "sorted (map key ys)" using Suc(1) [OF k inv_pop [OF Suc(3) True], of "vec @ [peek s]" ys] r ys(1) by simp
    moreover have "key (peek s) \<le> key y" if "y \<in> set ys" for y
      using that ys(2) remaining_pop [OF Suc(3) True] by (intro peek_least [OF Suc(3) True]) simp
    ultimately show ?thesis using ys(1) by simp
  next
    case False
    then show ?thesis using Suc(4) by (simp add: appendGenerate_from.simps [of _ _ _ _ n])
  qed
qed

lemma append_max_sorted:
  assumes "inv s" and "appendGenerate_max alive peek pop s [] mx = (xs, m, s')"
  shows "sorted (map key xs)"
  using append_from_sorted [of s mx 0 "[]" xs m s'] assms by (simp add: appendGenerate_max_def)

lemma append_max_least:
  assumes "inv s" and "appendGenerate_max alive peek pop s [] mx = (xs, m, s')" and "x \<in> set xs" and "y \<in># remaining s'"
  shows "key x \<le> key y"
  using append_from_least [of s mx 0 "[]" xs m s' x y] assms by (simp add: appendGenerate_max_def)

end

interpretation iter: generator "\<lambda>_. True" iter_alive iter_peek iter_pop mset
  by unfold_locales (auto simp: iter_alive_def iter_peek_def iter_pop_def neq_Nil_conv)

interpretation iter_sorted: sorted_generator "\<lambda>r. sorted (map key r)" iter_alive iter_peek iter_pop mset key
  for key :: "'v \<Rightarrow> 'd::linorder"
  by unfold_locales (auto simp: iter_alive_def iter_peek_def iter_pop_def neq_Nil_conv)

section \<open>Visiting\<close>

text \<open>The loop over a vector that the header compares \<open>visitGenerate\<close> with.\<close>

fun visit_list :: "('v \<Rightarrow> 'a \<Rightarrow> bool \<times> 'a) \<Rightarrow> 'v list \<Rightarrow> 'a \<Rightarrow> nat \<times> 'a" where
  "visit_list visit [] a = (0, a)"
| "visit_list visit (x # xs) a =
     (let (more, a') = visit x a in if more then (let (n, a'') = visit_list visit xs a' in (Suc n, a'')) else (0, a'))"

lemma append_from_shift:
  "appendGenerate_from alive peek pop mx n s vec =
     (let (xs, m, s') = appendGenerate_from alive peek pop mx n s [] in (vec @ xs, m, s'))"
proof (induction "mx - n" arbitrary: n s vec)
  case 0
  then show ?case by (simp add: appendGenerate_from.simps [of _ _ _ _ n])
next
  case (Suc k)
  have "k = mx - Suc n" using Suc(2) by simp
  note 1 = Suc(1) [OF this, of "pop s" "vec @ [peek s]"] Suc(1) [OF this, of "pop s" "[peek s]"]
  show ?case
    by (subst (1 2) appendGenerate_from.simps) (simp add: 1 split: prod.split)
qed

lemma visit_from:
  "visitGenerate_from alive peek pop visit mx n s a = (m, s', a') \<Longrightarrow>
     appendGenerate_from alive peek pop mx n s [] = (xs, l, t) \<Longrightarrow> visit_list visit xs a = (m - n, a') \<and> n \<le> m"
proof (induction "mx - n" arbitrary: n s a xs)
  case 0
  then have "\<not> n < mx" by simp
  then show ?case using 0 appendGenerate_from.simps [of alive peek pop mx n s "[]"] visitGenerate_from.simps [of alive peek pop visit mx n s a]
    by auto
next
  case (Suc k)
  then have nm: "n < mx" and k: "k = mx - Suc n" by simp_all
  show ?case
  proof (cases "alive s")
    case True
    obtain ys where ys: "xs = peek s # ys" "appendGenerate_from alive peek pop mx (Suc n) (pop s) [] = (ys, l, t)"
      using nm Suc(4) True append_from_shift [of alive peek pop mx "Suc n" "pop s" "[peek s]"]
      by (auto simp: appendGenerate_from.simps [of _ _ _ _ n] split: prod.splits)
    obtain more b where b: "visit (peek s) a = (more, b)" by force
    show ?thesis
    proof (cases more)
      case True
      have "visitGenerate_from alive peek pop visit mx (Suc n) (pop s) b = (m, s', a')"
        using nm Suc(3) True b \<open>alive s\<close> by (simp add: visitGenerate_from.simps [of _ _ _ _ _ n])
      from Suc(1) [OF _ this ys(2)] Suc(2) have "visit_list visit ys b = (m - Suc n, a')" "Suc n \<le> m" by simp_all
      then show ?thesis using ys(1) b True by simp
    next
      case False
      then show ?thesis using nm Suc(3) b \<open>alive s\<close> ys(1) by (simp add: visitGenerate_from.simps [of _ _ _ _ _ n])
    qed
  next
    case False
    then show ?thesis
      using Suc(3,4) appendGenerate_from.simps [of alive peek pop mx n s "[]"] visitGenerate_from.simps [of alive peek pop visit mx n s a]
      by auto
  qed
qed

text \<open>
  \<open>visitGenerate\<close>. The bounded \<open>visitGenerate\<close> does what the header says: the same as appending the values to
  a vector and calling the visitor on each until it refuses; the result counts the accepted values.
\<close>

theorem visitGenerate_as_loop:
  "visit_list visit (fst (appendGenerate_max alive peek pop s [] mx)) a =
     (fst (visitGenerate_max alive peek pop visit mx s a), snd (snd (visitGenerate_max alive peek pop visit mx s a)))"
proof -
  obtain m s' a' xs l t where e: "visitGenerate_from alive peek pop visit mx 0 s a = (m, s', a')"
    "appendGenerate_from alive peek pop mx 0 s [] = (xs, l, t)" by (metis prod_cases3)
  from visit_from [OF this] show ?thesis by (simp add: visitGenerate_max_def appendGenerate_max_def e)
qed

end
