(* ===== verification/D_Ary_Heap.thy ===== *)
theory D_Ary_Heap
  imports Generators
begin

text \<open>
  The priority queue of the best-first searches (\<open>sdl/graehl/shared/d_ary_heap.hpp\<close>): a min-heap in an
  array where the children of \<open>i\<close> are \<open>A * i + 1, \<dots>, A * i + A\<close>, with a map from each value to its
  index. An element that moves is held aside while the others move into the hole it leaves.

  The lemmas show that the operations keep the heap order and the index map and what they do to the
  multiset of values. \<open>heapify\<close> is right only if the last parent has \<open>A\<close> children.
\<close>

section \<open>The code\<close>

record 'k heap =
  data :: "'k list"
  index_in_heap :: "'k \<Rightarrow> nat"

definition heap_init :: "'k heap" where
  "heap_init = \<lparr>data = [], index_in_heap = (\<lambda>_. 0)\<rparr>"

definition parent :: "nat \<Rightarrow> nat \<Rightarrow> nat" where
  "parent A index = (index - 1) div A"

definition child :: "nat \<Rightarrow> nat \<Rightarrow> nat \<Rightarrow> nat" where
  "child A index child_idx = index * A + child_idx + 1"

text \<open>\<open>put(index_in_heap, data[i] = v, i)\<close>.\<close>

definition move_heap_element :: "'k \<Rightarrow> nat \<Rightarrow> 'k heap \<Rightarrow> 'k heap" where
  "move_heap_element v ito h = h\<lparr>data := (data h)[ito := v], index_in_heap := (index_in_heap h)(v := ito)\<rparr>"

text \<open>
  \<open>swap_heap_elements\<close> swaps the values, and then enters each of them in the map under the index it had
  before (\<open>willa\<close> names the place \<open>b\<close>, where the value of \<open>a\<close> now is, and is put at \<open>a\<close>).
\<close>

definition swap_heap_elements :: "nat \<Rightarrow> nat \<Rightarrow> 'k heap \<Rightarrow> 'k heap" where
  "swap_heap_elements a b h =
     (let va = data h ! a; vb = data h ! b; d = (data h)[a := vb, b := va]
      in h\<lparr>data := d, index_in_heap := (index_in_heap h)(va := a, vb := b)\<rparr>)"

text \<open>Filling the hole at \<open>index\<close> from above.\<close>

function preserve_heap_property_up :: "nat \<Rightarrow> ('k \<Rightarrow> 'd::linorder) \<Rightarrow> 'k \<Rightarrow> nat \<Rightarrow> 'k heap \<Rightarrow> 'k heap" where
  "preserve_heap_property_up A dist v index h =
     (if index = 0 then move_heap_element v 0 h
      else let p = parent A index; pv = data h ! p
           in if dist v < dist pv then preserve_heap_property_up A dist v p (move_heap_element pv index h)
              else move_heap_element v index h)"
  by pat_completeness auto

lemma parent_less: "0 < i \<Longrightarrow> parent A i < i"
  unfolding parent_def by (metis Suc_pred' div_le_dividend le_imp_less_Suc)

termination preserve_heap_property_up
  by (relation "measure (\<lambda>(A, dist, v, i, h). i)") (auto simp: parent_less)

text \<open>The first best of the positions \<open>f, \<dots>, e - 1\<close>; \<open>GRAEHL_D_ARY_MAYBE_IMPROVE_CHILD_I\<close> is the body.\<close>

definition best_of :: "('k \<Rightarrow> 'd::linorder) \<Rightarrow> 'k list \<Rightarrow> nat \<Rightarrow> nat \<Rightarrow> nat" where
  "best_of dist d f e = fold (\<lambda>i best. if dist (d ! i) < dist (d ! best) then i else best) [Suc f..<e] f"

lemma fold_best:
  fixes dist :: "'k \<Rightarrow> 'd::linorder"
  shows "(let b = fold (\<lambda>i best. if dist (d ! i) < dist (d ! best) then i else best) is' b0 in
    (b = b0 \<or> b \<in> set is') \<and> dist (d ! b) \<le> dist (d ! b0) \<and> (\<forall>i \<in> set is'. dist (d ! b) \<le> dist (d ! i)))"
proof (induction is' arbitrary: b0)
  case Nil
  then show ?case by simp
next
  case (Cons i is')
  show ?case using Cons [of "if dist (d ! i) < dist (d ! b0) then i else b0"]
    by (auto simp: Let_def split: if_splits)
qed

lemma best_of:
  assumes "f < e"
  shows "f \<le> best_of dist d f e" "best_of dist d f e < e" "\<And>i. f \<le> i \<Longrightarrow> i < e \<Longrightarrow> dist (d ! best_of dist d f e) \<le> dist (d ! i)"
proof -
  let ?b = "best_of dist d f e"
  have B: "(?b = f \<or> ?b \<in> set [Suc f..<e]) \<and> dist (d ! ?b) \<le> dist (d ! f) \<and> (\<forall>i \<in> set [Suc f..<e]. dist (d ! ?b) \<le> dist (d ! i))"
    using fold_best [of dist d "[Suc f..<e]" f] by (simp add: best_of_def Let_def)
  then show "f \<le> ?b" "?b < e" using assms by auto
  fix i assume "f \<le> i" "i < e"
  then show "dist (d ! ?b) \<le> dist (d ! i)" using B by (cases "i = f") auto
qed

text \<open>Filling the hole at \<open>index\<close> from below.\<close>

function preserve_heap_property_down_from :: "nat \<Rightarrow> ('k \<Rightarrow> 'd::linorder) \<Rightarrow> 'k \<Rightarrow> nat \<Rightarrow> nat \<Rightarrow> 'k heap \<Rightarrow> 'k heap" where
  "preserve_heap_property_down_from A dist v index heap_size h =
     (let f = child A index 0 in
      if f \<ge> heap_size then move_heap_element v index h
      else if A = 0 then h
      else let c = best_of dist (data h) f (min (f + A) heap_size)
           in if dist (data h ! c) < dist v
              then preserve_heap_property_down_from A dist v c heap_size (move_heap_element (data h ! c) index h)
              else move_heap_element v index h)"
  by pat_completeness auto

lemma child_greater: "0 < A \<Longrightarrow> i < child A i k"
  by (simp add: child_def) (metis Suc_leI le_imp_less_Suc mult_le_mono2 mult.right_neutral One_nat_def trans_le_add1)

lemma best_child_bounds:
  assumes "f = child A i 0" and "0 < A" and "f < n"
  shows "i < best_of dist d f (min (f + A) n)" "best_of dist d f (min (f + A) n) < n" "f \<le> best_of dist d f (min (f + A) n)"
    "best_of dist d f (min (f + A) n) < f + A"
    "\<And>j. f \<le> j \<Longrightarrow> j < min (f + A) n \<Longrightarrow> dist (d ! best_of dist d f (min (f + A) n)) \<le> dist (d ! j)"
proof -
  have l: "f < min (f + A) n" using assms by simp
  note B = best_of [OF l, where dist = dist and d = d]
  have "i < f" using child_greater [OF assms(2)] assms(1) by simp
  then show "i < best_of dist d f (min (f + A) n)" using B(1) by simp
  show "best_of dist d f (min (f + A) n) < n" "f \<le> best_of dist d f (min (f + A) n)"
    "best_of dist d f (min (f + A) n) < f + A" using B(1,2) by simp_all
  show "\<And>j. f \<le> j \<Longrightarrow> j < min (f + A) n \<Longrightarrow> dist (d ! best_of dist d f (min (f + A) n)) \<le> dist (d ! j)" by (rule B(3))
qed

termination preserve_heap_property_down_from
  by (relation "measure (\<lambda>(A, dist, v, i, n, h). n - i)") (auto simp: not_le intro!: diff_less_mono2 best_child_bounds(1) [OF refl] elim: order_less_trans [OF child_greater])


declare preserve_heap_property_up.simps [simp del] preserve_heap_property_down_from.simps [simp del]

text \<open>\<open>adjust_top\<close>: from the root, whose children are compared first.\<close>

definition adjust_top :: "nat \<Rightarrow> ('k \<Rightarrow> 'd::linorder) \<Rightarrow> 'k heap \<Rightarrow> 'k heap" where
  "adjust_top A dist h =
     (let n = length (data h) in
      if A < n
      then (let swapi = best_of dist (data h) 0 (Suc A); copy0 = data h ! 0
            in if swapi \<noteq> 0
               then preserve_heap_property_down_from A dist copy0 swapi n (move_heap_element (data h ! swapi) 0 h)
               else h)
      else if 1 < n
      then (let swapi = best_of dist (data h) 0 n in if swapi \<noteq> 0 then swap_heap_elements swapi 0 h else h)
      else h)"

definition preserve_heap_property_down :: "nat \<Rightarrow> ('k \<Rightarrow> 'd::linorder) \<Rightarrow> nat \<Rightarrow> 'k heap \<Rightarrow> 'k heap" where
  "preserve_heap_property_down A dist i h =
     preserve_heap_property_down_from A dist (data h ! i) i (length (data h)) h"

text \<open>The new place at the end is the hole, which holds a default value until it is filled.\<close>

definition push :: "nat \<Rightarrow> ('k \<Rightarrow> 'd::linorder) \<Rightarrow> 'k \<Rightarrow> 'k heap \<Rightarrow> 'k heap" where
  "push A dist v h =
     (let index = length (data h) in
      if index \<noteq> 0 then preserve_heap_property_up A dist v index (h\<lparr>data := data h @ [v]\<rparr>)
      else h\<lparr>data := data h @ [v], index_in_heap := (index_in_heap h)(v := 0)\<rparr>)"

definition top_heap :: "'k heap \<Rightarrow> 'k" where
  "top_heap h = data h ! 0"

definition pop :: "nat \<Rightarrow> ('k \<Rightarrow> 'd::linorder) \<Rightarrow> 'k heap \<Rightarrow> 'k heap" where
  "pop A dist h =
     (let sz = length (data h) in
      if sz = 1 then h\<lparr>data := butlast (data h)\<rparr>
      else (let h1 = move_heap_element (last (data h)) 0 h
            in adjust_top A dist (h1\<lparr>data := butlast (data h1)\<rparr>)))"

definition update :: "nat \<Rightarrow> ('k \<Rightarrow> 'd::linorder) \<Rightarrow> 'k \<Rightarrow> 'k heap \<Rightarrow> 'k heap" where
  "update A dist v h = preserve_heap_property_up A dist v (index_in_heap h v) h"

definition contains_at :: "'k \<Rightarrow> nat \<Rightarrow> 'k heap \<Rightarrow> bool" where
  "contains_at v i h \<longleftrightarrow> i < length (data h) \<and> v = data h ! i"

definition contains_heap :: "'k \<Rightarrow> 'k heap \<Rightarrow> bool" where
  "contains_heap v h \<longleftrightarrow> contains_at v (index_in_heap h v) h"

definition push_or_update :: "nat \<Rightarrow> ('k \<Rightarrow> 'd::linorder) \<Rightarrow> 'k \<Rightarrow> 'k heap \<Rightarrow> 'k heap" where
  "push_or_update A dist v h =
     (let index = index_in_heap h v
      in if contains_at v index h then preserve_heap_property_up A dist v index h else push A dist v h)"

definition best_dist :: "('k \<Rightarrow> 'd::linorder) \<Rightarrow> 'd \<Rightarrow> 'k heap \<Rightarrow> 'd" where
  "best_dist dist null h = (if data h = [] then null else dist (data h ! 0))"

definition second_best :: "nat \<Rightarrow> ('k \<Rightarrow> 'd::linorder) \<Rightarrow> 'd \<Rightarrow> 'k heap \<Rightarrow> 'd" where
  "second_best A dist null h =
     (if length (data h) < 2 then null
      else fold (\<lambda>i b. let d = dist (data h ! i) in if d < b then d else b)
             [2..<min (length (data h)) (A + 1)] (dist (data h ! 1)))"

definition add_unsorted :: "'k \<Rightarrow> 'k heap \<Rightarrow> 'k heap" where
  "add_unsorted v h = h\<lparr>data := data h @ [v], index_in_heap := (index_in_heap h)(v := length (data h))\<rparr>"

definition append_push :: "nat \<Rightarrow> ('k \<Rightarrow> 'd::linorder) \<Rightarrow> 'k list \<Rightarrow> 'k heap \<Rightarrow> 'k heap" where
  "append_push A dist vs h = fold (push A dist) vs h"

definition set_index_in_heap :: "nat \<Rightarrow> 'k heap \<Rightarrow> 'k heap" where
  "set_index_in_heap i h =
     fold (\<lambda>i h. h\<lparr>index_in_heap := (index_in_heap h)(data h ! i := i)\<rparr>) [i..<length (data h)] h"

text \<open>
  The index of \<open>heapify\<close> starts at \<open>parent(data.size())\<close>; \<open>size_type\<close> is unsigned, so that for an empty
  heap it would start near \<open>2 ^ 32 / A\<close>: the model asks for a nonempty heap and gives \<open>None\<close> otherwise.
\<close>

definition heapify :: "nat \<Rightarrow> ('k \<Rightarrow> 'd::linorder) \<Rightarrow> 'k heap \<Rightarrow> 'k heap option" where
  "heapify A dist h =
     (if data h = [] then None
      else Some (fold (preserve_heap_property_down A dist) (rev [0..<parent A (length (data h))]) h))"

definition append_heapify :: "nat \<Rightarrow> ('k \<Rightarrow> 'd::linorder) \<Rightarrow> 'k list \<Rightarrow> 'k heap \<Rightarrow> 'k heap option" where
  "append_heapify A dist vs h =
     heapify A dist (set_index_in_heap (length (data h)) (h\<lparr>data := data h @ vs\<rparr>))"

definition clear_heap :: "'k heap \<Rightarrow> 'k heap" where
  "clear_heap h = h\<lparr>data := []\<rparr>"

section \<open>Order and index map\<close>

text \<open>The order below the positions from \<open>k\<close> on; the whole heap is \<open>k = 0\<close>.\<close>

definition heap_from :: "nat \<Rightarrow> ('k \<Rightarrow> 'd::linorder) \<Rightarrow> nat \<Rightarrow> 'k list \<Rightarrow> bool" where
  "heap_from A dist k d \<longleftrightarrow> (\<forall>j. 0 < j \<longrightarrow> j < length d \<longrightarrow> k \<le> parent A j \<longrightarrow> dist (d ! parent A j) \<le> dist (d ! j))"

abbreviation heap_order :: "nat \<Rightarrow> ('k \<Rightarrow> 'd::linorder) \<Rightarrow> 'k list \<Rightarrow> bool" where
  "heap_order A dist d \<equiv> heap_from A dist 0 d"

definition indexed :: "'k heap \<Rightarrow> bool" where
  "indexed h \<longleftrightarrow> distinct (data h) \<and> (\<forall>i < length (data h). index_in_heap h (data h ! i) = i)"

text \<open>With a hole at \<open>i\<close> that \<open>v\<close> will fill, above or below.\<close>

definition hole_up :: "nat \<Rightarrow> ('k \<Rightarrow> 'd::linorder) \<Rightarrow> 'k list \<Rightarrow> nat \<Rightarrow> bool" where
  "hole_up A dist d i \<longleftrightarrow>
     (\<forall>j. 0 < j \<longrightarrow> j < length d \<longrightarrow> j \<noteq> i \<longrightarrow> dist (d ! parent A j) \<le> dist (d ! j)) \<and>
     (\<forall>j. 0 < j \<longrightarrow> j < length d \<longrightarrow> parent A j = i \<longrightarrow> 0 < i \<longrightarrow> dist (d ! parent A i) \<le> dist (d ! j))"

definition hole_down :: "nat \<Rightarrow> ('k \<Rightarrow> 'd::linorder) \<Rightarrow> nat \<Rightarrow> 'k list \<Rightarrow> nat \<Rightarrow> bool" where
  "hole_down A dist k d i \<longleftrightarrow> k \<le> i \<and>
     (\<forall>j. 0 < j \<longrightarrow> j < length d \<longrightarrow> k \<le> parent A j \<longrightarrow> parent A j \<noteq> i \<longrightarrow> dist (d ! parent A j) \<le> dist (d ! j)) \<and>
     (\<forall>j. 0 < j \<longrightarrow> j < length d \<longrightarrow> parent A j = i \<longrightarrow> 0 < i \<longrightarrow> k \<le> parent A i \<longrightarrow> dist (d ! parent A i) \<le> dist (d ! j))"

definition hole_indexed :: "'k heap \<Rightarrow> nat \<Rightarrow> 'k \<Rightarrow> bool" where
  "hole_indexed h i v \<longleftrightarrow> distinct ((data h)[i := v]) \<and> (\<forall>j < length (data h). j \<noteq> i \<longrightarrow> index_in_heap h (data h ! j) = j)"

lemma data_move [simp]: "data (move_heap_element v i h) = (data h)[i := v]"
  "index_in_heap (move_heap_element v i h) = (index_in_heap h)(v := i)"
  by (simp_all add: move_heap_element_def)

lemma swap_hole: "i < length d \<Longrightarrow> p < length d \<Longrightarrow> mset (d[i := d ! p, p := v]) = mset (d[i := v])"
proof (cases "i = p")
  case False
  assume "i < length d" "p < length d"
  then have "mset ((d[i := v])[i := (d[i := v]) ! p, p := (d[i := v]) ! i]) = mset (d[i := v])"
    by (intro mset_swap) simp_all
  then show ?thesis using False \<open>i < length d\<close> by simp
qed simp

lemma hole_indexed_move:
  assumes H: "hole_indexed h i v" and b: "i < length (data h)" "p < length (data h)" "p \<noteq> i"
  shows "hole_indexed (move_heap_element (data h ! p) i h) p v"
proof -
  let ?d = "data h"
  have m: "mset (?d[i := ?d ! p, p := v]) = mset (?d[i := v])" by (rule swap_hole [OF b(1,2)])
  have d: "distinct (?d[i := v])" using H by (simp add: hole_indexed_def)
  then have "distinct (?d[i := ?d ! p, p := v])" using mset_eq_imp_distinct_iff [OF m] by simp
  moreover have "?d ! j \<noteq> ?d ! p" if "j < length ?d" "j \<noteq> i" "j \<noteq> p" for j
  proof -
    have "?d[i := v] ! j = ?d[i := v] ! p \<longleftrightarrow> j = p" by (rule nth_eq_iff_index_eq [OF d]) (use that b in simp_all)
    then show ?thesis using that b by simp
  qed
  ultimately show ?thesis using H b by (auto simp: hole_indexed_def nth_list_update)
qed

lemma hole_indexed_fill: "hole_indexed h i v \<Longrightarrow> i < length (data h) \<Longrightarrow> indexed (move_heap_element v i h)"
proof -
  assume H: "hole_indexed h i v" and i: "i < length (data h)"
  have "data h ! j \<noteq> v" if "j < length (data h)" "j \<noteq> i" for j
  proof -
    have "(data h)[i := v] ! j = (data h)[i := v] ! i \<longleftrightarrow> j = i"
      by (rule nth_eq_iff_index_eq) (use H that i in \<open>simp_all add: hole_indexed_def\<close>)
    then show ?thesis using that i by simp
  qed
  then show ?thesis using H i by (auto simp: indexed_def hole_indexed_def nth_list_update)
qed

lemma up_simps:
  "i = 0 \<or> \<not> dist v < dist (data h ! parent A i) \<Longrightarrow> preserve_heap_property_up A dist v i h = move_heap_element v i h"
  "i \<noteq> 0 \<Longrightarrow> dist v < dist (data h ! parent A i) \<Longrightarrow>
     preserve_heap_property_up A dist v i h = preserve_heap_property_up A dist v (parent A i) (move_heap_element (data h ! parent A i) i h)"
  by (auto simp: preserve_heap_property_up.simps [of A dist v i h] Let_def)

section \<open>The hole moves up\<close>

lemma preserve_up_order:
  assumes "i < length (data h)" and "hole_up A dist ((data h)[i := v]) i"
  shows "heap_order A dist (data (preserve_heap_property_up A dist v i h))"
    "mset (data (preserve_heap_property_up A dist v i h)) = mset ((data h)[i := v])"
  using assms
proof (induction A dist v i h rule: preserve_heap_property_up.induct)
  case (1 A dist v i h)
  let ?d = "data h" and ?p = "parent A i"
  {
    assume i: "i < length ?d" and H: "hole_up A dist (?d[i := v]) i"
    have "heap_order A dist (data (preserve_heap_property_up A dist v i h)) \<and>
      mset (data (preserve_heap_property_up A dist v i h)) = mset (?d[i := v])"
    proof (cases "i = 0")
      case True
      then show ?thesis using H i by (auto simp: heap_from_def hole_up_def up_simps)
    next
      case i0: False
      have p: "?p < i" using i0 by (simp add: parent_less)
      show ?thesis
      proof (cases "dist v < dist (?d ! ?p)")
        case False
        then have r: "preserve_heap_property_up A dist v i h = move_heap_element v i h" by (simp add: up_simps)
        have "dist (?d[i := v] ! parent A j) \<le> dist (?d[i := v] ! j)" if "0 < j" "j < length ?d" for j
          using H that False p i by (cases "j = i") (simp_all add: hole_up_def)
        then show ?thesis by (simp add: r heap_from_def)
      next
        case True
        let ?g = "move_heap_element (?d ! ?p) i h"
        have r: "preserve_heap_property_up A dist v i h = preserve_heap_property_up A dist v ?p ?g" using i0 True by (simp add: up_simps)
        have l: "?p < length (data ?g)" using p i by simp
        have C1: "dist (?d[i := v] ! parent A j) \<le> dist (?d[i := v] ! j)" if "0 < j" "j < length ?d" "j \<noteq> i" for j
          using H that by (simp add: hole_up_def)
        have C2: "dist (?d ! ?p) \<le> dist (?d ! j)" if "0 < j" "j < length ?d" "parent A j = i" for j
        proof -
          have "j \<noteq> i" using parent_less [OF that(1), of A] that(3) by auto
          moreover have "dist (?d[i := v] ! ?p) \<le> dist (?d[i := v] ! j)" using H that i0 by (simp add: hole_up_def)
          ultimately show ?thesis using p by simp
        qed
        have C3: "dist (?d ! parent A j) \<le> dist (?d ! j)" if "0 < j" "j < length ?d" "j \<noteq> i" "parent A j \<noteq> i" for j
          using C1 [OF that(1-3)] that by simp
        have C4: "dist (?d ! parent A ?p) \<le> dist (?d ! ?p)" if "0 < ?p"
          using C3 [OF that] p i parent_less [OF that, of A] by simp
        have "hole_up A dist ((data ?g)[?p := v]) ?p"
          unfolding hole_up_def
        proof (intro conjI allI impI)
          fix j assume j: "0 < j" "j < length ((data ?g)[?p := v])" "j \<noteq> ?p"
          have jl: "parent A j < length ?d" using parent_less [OF j(1), of A] j(2) by simp
          consider "j = i" | "j \<noteq> i" "parent A j = i" | "j \<noteq> i" "parent A j \<noteq> i" "parent A j = ?p" | "j \<noteq> i" "parent A j \<noteq> i" "parent A j \<noteq> ?p" by blast
          then show "dist ((data ?g)[?p := v] ! parent A j) \<le> dist ((data ?g)[?p := v] ! j)"
          proof cases
            case 1
            then show ?thesis using True p i by simp
          next
            case 2
            then show ?thesis using C2 [OF j(1)] j p i by simp
          next
            case 3
            then show ?thesis using C3 [OF j(1)] j p i True by (simp add: order_less_imp_le [THEN order_trans])
          next
            case 4
            then show ?thesis using C3 [OF j(1)] j by simp
          qed
        next
          fix j assume j: "0 < j" "j < length ((data ?g)[?p := v])" "parent A j = ?p" "0 < ?p"
          have ne: "j \<noteq> ?p" "parent A ?p \<noteq> ?p" "parent A ?p \<noteq> i"
            using parent_less [OF j(1), of A] parent_less [OF j(4), of A] j(3) p by auto
          show "dist ((data ?g)[?p := v] ! parent A ?p) \<le> dist ((data ?g)[?p := v] ! j)"
          proof (cases "j = i")
            case True
            then show ?thesis using C4 [OF j(4)] ne i by simp
          next
            case False
            then have "dist (?d ! ?p) \<le> dist (?d ! j)" using C3 [OF j(1)] j p by simp
            then show ?thesis using C4 [OF j(4)] ne False by simp
          qed
        qed
        moreover have "mset ((data ?g)[?p := v]) = mset (?d[i := v])" using swap_hole [of i ?d ?p v] i p by simp
        ultimately show ?thesis unfolding r using 1(1,2) [OF i0 refl refl True l] by simp
      qed
    qed
  } note step = this
  case 1
  then show ?case using step by blast
  case 2
  then show ?case using step by blast
qed

lemma preserve_up_indexed:
  "hole_indexed h i v \<Longrightarrow> i < length (data h) \<Longrightarrow> indexed (preserve_heap_property_up A dist v i h)"
proof (induction A dist v i h rule: preserve_heap_property_up.induct)
  case (1 A dist v i h)
  show ?case
  proof (cases "i \<noteq> 0 \<and> dist v < dist (data h ! parent A i)")
    case True
    have p: "parent A i < i" using True by (simp add: parent_less)
    then have "hole_indexed (move_heap_element (data h ! parent A i) i h) (parent A i) v"
      using hole_indexed_move [OF 1(2,3), of "parent A i"] 1(3) by simp
    then show ?thesis using 1(1) [OF _ refl refl] True p 1(3) by (simp add: up_simps)
  next
    case False
    then have "preserve_heap_property_up A dist v i h = move_heap_element v i h" by (auto simp: up_simps)
    then show ?thesis using hole_indexed_fill [OF 1(2,3)] by simp
  qed
qed

section \<open>The hole moves down\<close>

lemma parent_child: "0 < A \<Longrightarrow> 0 < j \<Longrightarrow> parent A j = i \<longleftrightarrow> child A i 0 \<le> j \<and> j < child A i 0 + A"
proof -
  assume "0 < A" "0 < j"
  then obtain m where m: "j = Suc m" by (cases j) auto
  have "m div A = i \<longleftrightarrow> i * A \<le> m \<and> m < i * A + A"
    using \<open>0 < A\<close> by (metis div_nat_eqI dividend_less_div_times div_times_less_eq_dividend mult.commute mult_Suc_right add.commute)
  then show ?thesis by (auto simp: m parent_def child_def)
qed

lemma down_simps:
  fixes A i n and h :: "'k heap" and dist :: "'k \<Rightarrow> 'd::linorder"
  defines "f \<equiv> child A i 0" and "c \<equiv> best_of dist (data h) (child A i 0) (min (child A i 0 + A) n)"
  shows "0 < A \<Longrightarrow> n \<le> f \<or> \<not> dist (data h ! c) < dist v \<Longrightarrow> preserve_heap_property_down_from A dist v i n h = move_heap_element v i h"
    "0 < A \<Longrightarrow> f < n \<Longrightarrow> dist (data h ! c) < dist v \<Longrightarrow> preserve_heap_property_down_from A dist v i n h =
       preserve_heap_property_down_from A dist v c n (move_heap_element (data h ! c) i h)"
  by (auto simp: preserve_heap_property_down_from.simps [of A dist v i n h] Let_def f_def c_def)

lemma down_order_step:
  assumes A: "0 < A" and i: "i < length d" and H: "hole_down A dist k (d[i := v]) i" and f: "child A i 0 < length d"
    and c: "c = best_of dist d (child A i 0) (min (child A i 0 + A) (length d))"
  shows "dist (d ! c) < dist v \<Longrightarrow> hole_down A dist k (d[i := d ! c, c := v]) c"
    "\<not> dist (d ! c) < dist v \<Longrightarrow> heap_from A dist k (d[i := v])"
proof -
  let ?n = "length d"
  note B = best_child_bounds [OF refl A f, where dist = dist and d = d, folded c]
  have pc: "parent A c = i" using parent_child [OF A, of c i] B(1,3,4) by simp
  have ki: "k \<le> i" using H by (simp add: hole_down_def)
  have C1: "dist (d[i := v] ! parent A j) \<le> dist (d[i := v] ! j)" if "0 < j" "j < ?n" "k \<le> parent A j" "parent A j \<noteq> i" for j
    using H that by (simp add: hole_down_def)
  have C2: "dist (d ! parent A i) \<le> dist (d ! j)" if "0 < j" "j < ?n" "parent A j = i" "0 < i" "k \<le> parent A i" for j
  proof -
    have "j \<noteq> i" "parent A i \<noteq> i" using parent_less [OF that(1), of A] parent_less [OF that(4), of A] that(3) by auto
    moreover have "dist (d[i := v] ! parent A i) \<le> dist (d[i := v] ! j)" using H that by (simp add: hole_down_def)
    ultimately show ?thesis by simp
  qed
  have C3: "dist (d ! c) \<le> dist (d ! j)" if "0 < j" "j < ?n" "parent A j = i" for j
    using B(5) [of j] that parent_child [OF A that(1), of i] by simp
  show "hole_down A dist k (d[i := d ! c, c := v]) c" if less: "dist (d ! c) < dist v"
    unfolding hole_down_def
  proof (intro conjI allI impI)
    show "k \<le> c" using ki B(1) by simp
  next
    fix j assume j: "0 < j" "j < length (d[i := d ! c, c := v])" "k \<le> parent A j" "parent A j \<noteq> c"
    have jl: "parent A j < j" "j < ?n" using parent_less [OF j(1), of A] j(2) by simp_all
    show "dist (d[i := d ! c, c := v] ! parent A j) \<le> dist (d[i := d ! c, c := v] ! j)"
    proof (cases "parent A j = i")
      case True
      then show ?thesis using C3 [OF j(1) jl(2) True] less jl i B(1,2) by (cases "j = c") auto
    next
      case False
      then have jc: "j \<noteq> c" using pc by auto
      show ?thesis
      proof (cases "j = i")
        case True
        then have "dist (d ! parent A i) \<le> dist (d ! c)" using C2 [of c] j pc B(1,2) by simp
        then show ?thesis using True False j(4) jc i by simp
      next
        case ji: False
        then show ?thesis using C1 [OF j(1) jl(2) j(3) False] False jc j(4) by simp
      qed
    qed
  next
    fix j assume j: "0 < j" "j < length (d[i := d ! c, c := v])" "parent A j = c" "0 < c" "k \<le> parent A c"
    have n: "j \<noteq> c" "j \<noteq> i" "c \<noteq> i" using parent_less [OF j(1), of A] j(3) B(1) by auto
    have "dist (d ! c) \<le> dist (d ! j)" using C1 [of j] j ki B(1) n by simp
    then show "dist (d[i := d ! c, c := v] ! parent A c) \<le> dist (d[i := d ! c, c := v] ! j)" using pc n i by simp
  qed
  show "heap_from A dist k (d[i := v])" if ge: "\<not> dist (d ! c) < dist v"
    unfolding heap_from_def
  proof (intro allI impI)
    fix j assume j: "0 < j" "j < length (d[i := v])" "k \<le> parent A j"
    show "dist (d[i := v] ! parent A j) \<le> dist (d[i := v] ! j)"
    proof (cases "parent A j = i")
      case True
      then have "dist v \<le> dist (d ! j)" using C3 [of j] j ge by simp
      then show ?thesis using True i parent_less [OF j(1), of A] by simp
    next
      case False
      then show ?thesis using C1 [of j] j by simp
    qed
  qed
qed

lemma preserve_down_order:
  assumes "0 < A" and "i < length (data h)" and "hole_down A dist k ((data h)[i := v]) i" and "n = length (data h)"
  shows "heap_from A dist k (data (preserve_heap_property_down_from A dist v i n h)) \<and>
    mset (data (preserve_heap_property_down_from A dist v i n h)) = mset ((data h)[i := v])"
  using assms
proof (induction A dist v i n h rule: preserve_heap_property_down_from.induct)
  case (1 A dist v i n h)
  let ?d = "data h" and ?f = "child A i 0"
  let ?c = "best_of dist (data h) (child A i 0) (min (child A i 0 + A) n)"
  show ?case
  proof (cases "n \<le> ?f")
    case True
    have "heap_from A dist k (?d[i := v])" unfolding heap_from_def
    proof (intro allI impI)
      fix j assume j: "0 < j" "j < length (?d[i := v])" "k \<le> parent A j"
      then have "parent A j \<noteq> i" using parent_child [OF 1(2) j(1), of i] True 1(5) by simp
      then show "dist (?d[i := v] ! parent A j) \<le> dist (?d[i := v] ! j)" using 1(4) j by (simp add: hole_down_def)
    qed
    then show ?thesis using True 1(2) by (simp add: down_simps)
  next
    case False
    then have f: "?f < length ?d" using 1(5) by simp
    note S = down_order_step [OF 1(2,3,4) f, of ?c] 
    show ?thesis
    proof (cases "dist (?d ! ?c) < dist v")
      case True
      let ?g = "move_heap_element (?d ! ?c) i h"
      have c: "i < ?c" "?c < length ?d" using best_child_bounds(1,2) [OF refl 1(2) f, of dist ?d] 1(5) by simp_all
      have H: "hole_down A dist k ((data ?g)[?c := v]) ?c" using S(1) True 1(5) by simp
      have m: "mset ((data ?g)[?c := v]) = mset (?d[i := v])" using swap_hole [of i ?d ?c v] c 1(3) by simp
      show ?thesis using 1(1) [OF refl _ _ refl True] H m c False 1(2,5) True by (simp add: down_simps)
    next
      case ge: False
      then show ?thesis using S(2) 1(2,5) by (simp add: down_simps)
    qed
  qed
qed

lemma preserve_down_indexed:
  assumes "0 < A" and "hole_indexed h i v" and "i < length (data h)" and "n = length (data h)"
  shows "indexed (preserve_heap_property_down_from A dist v i n h)"
  using assms
proof (induction A dist v i n h rule: preserve_heap_property_down_from.induct)
  case (1 A dist v i n h)
  let ?c = "best_of dist (data h) (child A i 0) (min (child A i 0 + A) n)"
  show ?case
  proof (cases "child A i 0 < n \<and> dist (data h ! ?c) < dist v")
    case True
    then have f: "child A i 0 < length (data h)" using 1(5) by simp
    have c: "i < ?c" "?c < length (data h)" using best_child_bounds(1,2) [OF refl 1(2) f, of dist "data h"] 1(5) by simp_all
    have "hole_indexed (move_heap_element (data h ! ?c) i h) ?c v" using hole_indexed_move [OF 1(3,4) c(2)] c(1) by simp
    then show ?thesis using 1(1) [OF refl _ _ refl] True c 1(2,5) by (simp add: down_simps)
  next
    case False
    then have "preserve_heap_property_down_from A dist v i n h = move_heap_element v i h" using 1(2) by (auto simp: down_simps)
    then show ?thesis using hole_indexed_fill [OF 1(3,4)] by simp
  qed
qed

section \<open>The operations\<close>

lemma parent_small: "0 < A \<Longrightarrow> j \<le> A \<Longrightarrow> parent A j = 0"
  by (cases j) (simp_all add: parent_def)

lemma push_order:
  assumes "0 < A" and "heap_order A dist (data h)"
  shows "heap_order A dist (data (push A dist v h))" "mset (data (push A dist v h)) = add_mset v (mset (data h))"
proof -
  let ?n = "length (data h)" and ?g = "h\<lparr>data := data h @ [v]\<rparr>"
  have "heap_order A dist (data (push A dist v h)) \<and> mset (data (push A dist v h)) = add_mset v (mset (data h))"
  proof (cases "?n = 0")
    case True
    then show ?thesis by (simp add: push_def heap_from_def)
  next
    case False
    have "hole_up A dist ((data ?g)[?n := v]) ?n" unfolding hole_up_def
    proof (intro conjI allI impI)
      fix j assume j: "0 < j" "j < length ((data ?g)[?n := v])" "j \<noteq> ?n"
      then have "j < ?n" "parent A j < ?n" using parent_less [OF j(1), of A] by auto
      then show "dist ((data ?g)[?n := v] ! parent A j) \<le> dist ((data ?g)[?n := v] ! j)"
        using assms(2) j(1) by (simp add: heap_from_def nth_append)
    next
      fix j assume j: "0 < j" "j < length ((data ?g)[?n := v])" "parent A j = ?n"
      then show "dist ((data ?g)[?n := v] ! parent A ?n) \<le> dist ((data ?g)[?n := v] ! j)"
        using parent_less [OF j(1), of A] by simp
    qed
    from preserve_up_order [OF _ this] show ?thesis using False by (simp add: push_def)
  qed
  then show "heap_order A dist (data (push A dist v h))" "mset (data (push A dist v h)) = add_mset v (mset (data h))"
    by simp_all
qed

lemma push_indexed: "indexed h \<Longrightarrow> v \<notin> set (data h) \<Longrightarrow> indexed (push A dist v h)"
proof -
  assume I: "indexed h" "v \<notin> set (data h)"
  let ?n = "length (data h)" and ?g = "h\<lparr>data := data h @ [v]\<rparr>"
  show "indexed (push A dist v h)"
  proof (cases "?n = 0")
    case True
    then show ?thesis by (simp add: push_def indexed_def)
  next
    case False
    have "hole_indexed ?g ?n v" using I by (auto simp: hole_indexed_def indexed_def nth_append)
    then show ?thesis using preserve_up_indexed [of ?g ?n v A dist] False by (simp add: push_def)
  qed
qed

lemma top_least:
  assumes H: "heap_order A dist d" and "i < length d"
  shows "dist (d ! 0) \<le> dist (d ! i)"
  using assms(2)
proof (induction i rule: less_induct)
  case (less i)
  show ?case
  proof (cases "i = 0")
    case False
    then have p: "parent A i < i" by (simp add: parent_less)
    then have "dist (d ! 0) \<le> dist (d ! parent A i)" using less by simp
    also have "\<dots> \<le> dist (d ! i)" using H less.prems False by (simp add: heap_from_def)
    finally show ?thesis .
  qed simp
qed

lemma top_least_set:
  assumes "heap_order A dist (data h)" and "k \<in> set (data h)"
  shows "dist (top_heap h) \<le> dist k"
proof -
  obtain i where "i < length (data h)" "k = data h ! i" using assms(2) by (auto simp: in_set_conv_nth)
  then show ?thesis using top_least [OF assms(1)] by (simp add: top_heap_def)
qed

lemma heap_from_1:
  assumes "heap_from A dist 1 d" and "0 < j" "j < length d" "parent A j \<noteq> 0"
  shows "dist (d ! parent A j) \<le> dist (d ! j)"
  using assms by (simp add: heap_from_def)

text \<open>At most one level of children: any least element at the root makes a heap.\<close>

lemma one_level_heap:
  assumes "0 < A" and "length e \<le> Suc A" and "\<And>x. x \<in> set e \<Longrightarrow> dist (e ! 0) \<le> dist x"
  shows "heap_order A dist e"
  unfolding heap_from_def
proof (intro allI impI)
  fix j assume "0 < j" "j < length e"
  then show "dist (e ! parent A j) \<le> dist (e ! j)" using parent_small [of A j] assms by simp
qed

lemma adjust_top_order_small:
  assumes A: "0 < A" and n: "length (data h) \<le> A"
  shows "heap_order A dist (data (adjust_top A dist h)) \<and> mset (data (adjust_top A dist h)) = mset (data h)"
proof (cases "1 < length (data h)")
  case True
  let ?d = "data h" and ?n = "length (data h)"
  let ?s = "best_of dist ?d 0 ?n"
  let ?e = "?d[?s := ?d ! 0, 0 := ?d ! ?s]"
  have sn: "?s < ?n" and B: "\<And>i. i < ?n \<Longrightarrow> dist (?d ! ?s) \<le> dist (?d ! i)"
    using best_of [where f = 0 and e = ?n and dist = dist and d = ?d] True by (cases "?d = []", simp, simp)+
  have L: "dist (?d ! ?s) \<le> dist x" if "x \<in> set ?d" for x
    using that B by (metis in_set_conv_nth)
  have m: "mset ?e = mset ?d" using mset_swap [of 0 ?d ?s] sn by (cases "?d = []") simp_all
  have D: "data (adjust_top A dist h) = (if ?s = 0 then ?d else ?e)"
    using n True by (simp add: adjust_top_def Let_def swap_heap_elements_def)
  show ?thesis
  proof (cases "?s = 0")
    case s: True
    have "heap_order A dist ?d" using one_level_heap [OF A, of ?d dist] n L s by simp
    then show ?thesis using D s by simp
  next
    case s: False
    have "heap_order A dist ?e"
    proof (rule one_level_heap [OF A])
      show "length ?e \<le> Suc A" using n by simp
      fix x assume "x \<in> set ?e"
      then have "x \<in> set ?d" using mset_eq_setD [OF m] by blast
      moreover have "?e ! 0 = ?d ! ?s" using True by (intro nth_list_update_eq) auto
      ultimately show "dist (?e ! 0) \<le> dist x" using L by simp
    qed
    then show ?thesis using D s m by simp
  qed
next
  case n1: False
  then show ?thesis using n by (simp add: adjust_top_def heap_from_def)
qed

lemma adjust_top_hole:
  assumes A: "0 < A" and H: "heap_from A dist 1 d" and n: "A < length d"
    and s: "s = best_of dist d 0 (Suc A)" and s0: "s \<noteq> 0"
  shows "hole_down A dist 0 (d[0 := d ! s, s := d ! 0]) s"
proof -
  let ?e = "d[0 := d ! s, s := d ! 0]"
  have sA: "s \<le> A" and B: "\<And>i. i \<le> A \<Longrightarrow> dist (d ! s) \<le> dist (d ! i)"
    using best_of [where f = 0 and e = "Suc A" and dist = dist and d = d] s by (simp_all add: less_Suc_eq_le)
  have ps: "parent A s = 0" by (rule parent_small [OF A sA])
  have E: "?e ! 0 = d ! s" "?e ! s = d ! 0" "\<And>j. j \<noteq> 0 \<Longrightarrow> j \<noteq> s \<Longrightarrow> ?e ! j = d ! j"
    using s0 sA n by (cases "d = []"; auto simp: nth_list_update)+
  show ?thesis unfolding hole_down_def
  proof (intro conjI allI impI)
    fix j assume j: "0 < j" "j < length ?e" "0 \<le> parent A j" "parent A j \<noteq> s"
    show "dist (?e ! parent A j) \<le> dist (?e ! j)"
    proof (cases "parent A j = 0")
      case p: True
      then have "j \<le> A" using parent_child [OF A j(1), of 0] by (simp add: child_def)
      then show ?thesis using B [of j] B [of 0] E p j(1) by (cases "j = s") simp_all
    next
      case p: False
      then have "j \<noteq> s" using ps by auto
      then show ?thesis using heap_from_1 [OF H j(1) _ p] j E p by simp
    qed
  next
    fix j assume j: "0 < j" "j < length ?e" "parent A j = s" "0 < s"
    then have js: "j \<noteq> s" using ps by auto
    have "dist (d ! s) \<le> dist (d ! j)" using heap_from_1 [OF H j(1)] j s0 by simp
    then show "dist (?e ! parent A s) \<le> dist (?e ! j)" using ps j(1) js E by simp
  qed simp
qed

lemma adjust_top_order_large:
  assumes A: "0 < A" and H: "heap_from A dist 1 (data h)" and n: "A < length (data h)"
  shows "heap_order A dist (data (adjust_top A dist h)) \<and> mset (data (adjust_top A dist h)) = mset (data h)"
proof -
  define d where "d = data h"
  define s where "s = best_of dist d 0 (Suc A)"
  have sA: "s \<le> A" and B: "\<And>i. i \<le> A \<Longrightarrow> dist (d ! s) \<le> dist (d ! i)"
    using best_of [where f = 0 and e = "Suc A" and dist = dist and d = d] s_def by (simp_all add: less_Suc_eq_le)
  show ?thesis
  proof (cases "s = 0")
    case True
    have "heap_order A dist d" unfolding heap_from_def
    proof (intro allI impI)
      fix j assume j: "0 < j" "j < length d"
      show "dist (d ! parent A j) \<le> dist (d ! j)"
      proof (cases "parent A j = 0")
        case p: True
        then have "j \<le> A" using parent_child [OF A j(1), of 0] by (simp add: child_def)
        then show ?thesis using B [of j] True p by simp
      next
        case p: False
        then show ?thesis using heap_from_1 [OF H [folded d_def] j p] by simp
      qed
    qed
    moreover have "adjust_top A dist h = h" using True n by (simp add: adjust_top_def Let_def d_def s_def)
    ultimately show ?thesis by (simp add: d_def)
  next
    case False
    let ?g = "move_heap_element (d ! s) 0 h"
    have sn: "s < length d" using sA n d_def by simp
    have Hd: "hole_down A dist 0 (d[0 := d ! s, s := d ! 0]) s"
      using adjust_top_hole [OF A H [folded d_def] _ s_def False] n d_def by simp
    have "adjust_top A dist h = preserve_heap_property_down_from A dist (d ! 0) s (length d) ?g"
      using False n by (simp add: adjust_top_def Let_def d_def s_def)
    moreover have "mset (d[0 := d ! s, s := d ! 0]) = mset d"
      using swap_hole [of 0 d s "d ! 0"] sn by (cases "d = []") simp_all
    ultimately show ?thesis
      using preserve_down_order [OF A, of s ?g dist 0 "d ! 0" "length d"] sn Hd by (simp add: d_def)
  qed
qed

lemma adjust_top_order:
  assumes "0 < A" and "heap_from A dist 1 (data h)"
  shows "heap_order A dist (data (adjust_top A dist h)) \<and> mset (data (adjust_top A dist h)) = mset (data h)"
  using adjust_top_order_small [OF assms(1), of h dist] adjust_top_order_large [OF assms] by (cases "A < length (data h)") simp_all

lemma adjust_top_indexed:
  assumes A: "0 < A" "A < length (data h)" and I: "indexed h"
  shows "indexed (adjust_top A dist h)"
proof -
  define d where "d = data h"
  define s where "s = best_of dist d 0 (Suc A)"
  have s: "s < length d" using best_of [where f = 0 and e = "Suc A" and dist = dist and d = d] A(2) s_def d_def by simp
  show ?thesis
  proof (cases "s = 0")
    case True
    then show ?thesis using A(2) I by (simp add: adjust_top_def Let_def d_def s_def)
  next
    case False
    have "distinct (d[0 := d ! 0])" using I by (simp add: indexed_def d_def)
    then have "hole_indexed h 0 (d ! 0)" using I by (auto simp: hole_indexed_def indexed_def d_def)
    then have "hole_indexed (move_heap_element (d ! s) 0 h) s (d ! 0)"
      using hole_indexed_move [of h 0 "d ! 0" s] s False by (cases "d = []") (simp_all add: d_def)
    then show ?thesis
      using preserve_down_indexed [OF A(1), of "move_heap_element (d ! s) 0 h" s "d ! 0" "length d" dist] s False A(2)
      by (simp add: adjust_top_def Let_def d_def s_def)
  qed
qed

lemma pop_split:
  assumes "1 < length d"
  obtains x xs y where "d = x # xs @ [y]" "last d = y" "butlast (d[0 := last d]) = y # xs"
proof -
  obtain x zs where d: "d = x # zs" using assms by (cases d) auto
  with assms obtain xs y where z: "zs = xs @ [y]" by (cases zs rule: rev_cases) auto
  show ?thesis by (rule that [of x xs y]) (simp_all add: d z)
qed

lemma pop_order:
  assumes A: "0 < A" and H: "heap_order A dist (data h)" and ne: "data h \<noteq> []"
  shows "heap_order A dist (data (pop A dist h))" "mset (data h) = add_mset (top_heap h) (mset (data (pop A dist h)))"
proof -
  have "heap_order A dist (data (pop A dist h)) \<and> mset (data h) = add_mset (top_heap h) (mset (data (pop A dist h)))"
  proof (cases "length (data h) = 1")
    case True
    then obtain x where "data h = [x]" by (auto simp: length_Suc_conv)
    then show ?thesis by (simp add: pop_def heap_from_def top_heap_def)
  next
    case False
    then have "1 < length (data h)" using ne by (cases "data h") auto
    then obtain x xs y where d: "data h = x # xs @ [y]" "last (data h) = y" "butlast ((data h)[0 := last (data h)]) = y # xs"
      by (rule pop_split)
    define g where "g = (let h1 = move_heap_element (last (data h)) 0 h in h1\<lparr>data := butlast (data h1)\<rparr>)"
    have g: "data g = y # xs" "pop A dist h = adjust_top A dist g" using d False by (simp_all add: g_def pop_def Let_def)
    have "heap_from A dist 1 (data g)" unfolding heap_from_def
    proof (intro allI impI)
      fix j assume j: "0 < j" "j < length (data g)" "1 \<le> parent A j"
      have e: "data g ! i = data h ! i" if "0 < i" "i < length (data g)" for i
        using that by (cases i) (simp_all add: g(1) d(1) nth_append)
      have "j < length (data h)" using j(2) by (simp add: g(1) d(1))
      then have "dist (data h ! parent A j) \<le> dist (data h ! j)" using H j(1) unfolding heap_from_def by blast
      then show "dist (data g ! parent A j) \<le> dist (data g ! j)"
        using e [of j] e [of "parent A j"] parent_less [OF j(1), of A] j by simp
    qed
    from adjust_top_order [OF A this] show ?thesis by (simp add: g d(1) top_heap_def)
  qed
  then show "heap_order A dist (data (pop A dist h))" "mset (data h) = add_mset (top_heap h) (mset (data (pop A dist h)))"
    by simp_all
qed

lemma pop_indexed:
  assumes A: "0 < A" "Suc A < length (data h)" and I: "indexed h"
  shows "indexed (pop A dist h)"
proof -
  have "1 < length (data h)" using A by simp
  then obtain x xs y where d: "data h = x # xs @ [y]" "last (data h) = y" "butlast ((data h)[0 := last (data h)]) = y # xs"
    by (rule pop_split)
  define g where "g = (let h1 = move_heap_element (last (data h)) 0 h in h1\<lparr>data := butlast (data h1)\<rparr>)"
  have g: "data g = y # xs" "pop A dist h = adjust_top A dist g" "index_in_heap g = (index_in_heap h)(y := 0)"
    using d A by (simp_all add: g_def pop_def Let_def)
  have dx: "distinct (x # xs @ [y])" and ix: "\<And>i. i < length (data h) \<Longrightarrow> index_in_heap h (data h ! i) = i"
    using I d(1) by (auto simp: indexed_def)
  have "index_in_heap g ((y # xs) ! i) = i" if "i < length (y # xs)" for i
  proof (cases i)
    case 0
    then show ?thesis by (simp add: g(3))
  next
    case (Suc k)
    then have k: "k < length xs" using that by simp
    then have "xs ! k \<noteq> y" using dx by (auto simp: in_set_conv_nth)
    moreover have "data h ! Suc k = xs ! k" using k by (simp add: d(1) nth_append)
    ultimately show ?thesis using ix [of "Suc k"] k Suc by (simp add: g(3) d(1))
  qed
  then have "indexed g" using dx by (auto simp: indexed_def g(1))
  moreover have "A < length (data g)" using A d(1) by (simp add: g(1))
  ultimately show ?thesis using adjust_top_indexed [of A g dist] A(1) by (simp add: g(2))
qed

lemma update_order:
  assumes A: "0 < A" and I: "indexed h" and v: "v \<in> set (data h)" and H: "heap_order A old (data h)"
    and d: "dist = old(v := x)" and x: "x \<le> old v"
  shows "heap_order A dist (data (update A dist v h)) \<and> mset (data (update A dist v h)) = mset (data h) \<and> indexed (update A dist v h)"
proof -
  obtain i where i: "i < length (data h)" "data h ! i = v" using v by (auto simp: in_set_conv_nth)
  have dx: "distinct (data h)" and ix: "index_in_heap h v = i" using I i by (auto simp: indexed_def)
  have e: "(data h)[i := v] = data h" using i(2) by (metis list_update_id)
  have le: "dist k \<le> old k" for k using d x by simp
  have o: "dist (data h ! j) = old (data h ! j)" if "j < length (data h)" "j \<noteq> i" for j
    using that i dx d by (auto simp: nth_eq_iff_index_eq)
  have H': "old (data h ! parent A j) \<le> old (data h ! j)" if "0 < j" "j < length (data h)" for j
    using H that by (simp add: heap_from_def)
  have "hole_up A dist (data h) i" unfolding hole_up_def
  proof (intro conjI allI impI)
    fix j assume "0 < j" "j < length (data h)" "j \<noteq> i"
    then show "dist (data h ! parent A j) \<le> dist (data h ! j)" using o H' le by (metis order_trans)
  next
    fix j assume j: "0 < j" "j < length (data h)" "parent A j = i" "0 < i"
    then have ji: "j \<noteq> i" using parent_less [OF j(1), of A] by simp
    have "dist (data h ! parent A i) \<le> old (data h ! parent A i)" by (rule le)
    also have "\<dots> \<le> old (data h ! i)" by (rule H' [OF j(4) i(1)])
    also have "\<dots> \<le> old (data h ! j)" using H' [OF j(1,2)] j(3) by simp
    also have "\<dots> = dist (data h ! j)" using o [OF j(2) ji] by simp
    finally show "dist (data h ! parent A i) \<le> dist (data h ! j)" .
  qed
  then have "hole_up A dist ((data h)[i := v]) i" by (simp add: e)
  note 1 = preserve_up_order [OF i(1) this]
  have "hole_indexed h i v" using I e by (auto simp: hole_indexed_def indexed_def)
  from preserve_up_indexed [OF this i(1)] 1 show ?thesis by (simp add: update_def ix e)
qed

lemma heapify_step:
  assumes A: "0 < A" and k: "k < length (data h)" and H: "heap_from A dist (Suc k) (data h)"
  shows "heap_from A dist k (data (preserve_heap_property_down A dist k h)) \<and>
    mset (data (preserve_heap_property_down A dist k h)) = mset (data h)"
proof -
  have "hole_down A dist k ((data h)[k := data h ! k]) k" unfolding hole_down_def list_update_id
  proof (intro conjI allI impI)
    fix j assume "0 < j" "j < length (data h)" "k \<le> parent A j" "parent A j \<noteq> k"
    then show "dist (data h ! parent A j) \<le> dist (data h ! j)" using H by (simp add: heap_from_def)
  next
    fix j assume "0 < k" "k \<le> parent A k"
    then show "dist (data h ! parent A k) \<le> dist (data h ! j)" using parent_less [of k A] by simp
  qed simp
  from preserve_down_order [OF A k this refl] show ?thesis by (simp add: preserve_heap_property_down_def)
qed

lemma heapify_step_indexed:
  assumes "0 < A" and "k < length (data h)" and "indexed h"
  shows "indexed (preserve_heap_property_down A dist k h)"
proof -
  have "hole_indexed h k (data h ! k)" using assms(3) by (auto simp: hole_indexed_def indexed_def)
  from preserve_down_indexed [OF assms(1) this assms(2) refl] show ?thesis by (simp add: preserve_heap_property_down_def)
qed

lemma heapify_steps:
  assumes "0 < A" and "k \<le> length (data h)" and "heap_from A dist k (data h)"
  shows "heap_order A dist (data (fold (preserve_heap_property_down A dist) (rev [0..<k]) h)) \<and>
    mset (data (fold (preserve_heap_property_down A dist) (rev [0..<k]) h)) = mset (data h) \<and>
    (indexed h \<longrightarrow> indexed (fold (preserve_heap_property_down A dist) (rev [0..<k]) h))"
  using assms(2,3)
proof (induction k arbitrary: h)
  case (Suc k)
  then have k: "k < length (data h)" by simp
  let ?g = "preserve_heap_property_down A dist k h"
  have s: "heap_from A dist k (data ?g)" "mset (data ?g) = mset (data h)" using heapify_step [OF assms(1) k Suc.prems(2)] by simp_all
  then have "k \<le> length (data ?g)" using k by (metis less_imp_le size_mset)
  from Suc.IH [OF this s(1)] show ?case using s(2) heapify_step_indexed [OF assms(1) k, of dist] by simp
qed simp

lemma heapify_order:
  assumes A: "0 < A" and ne: "data h \<noteq> []" and full: "A dvd length (data h) - 1"
  obtains h' where "heapify A dist h = Some h'" "heap_order A dist (data h')" "mset (data h') = mset (data h)" "indexed h \<longrightarrow> indexed h'"
proof -
  let ?k = "parent A (length (data h))"
  have "heap_from A dist ?k (data h)" unfolding heap_from_def
  proof (intro allI impI)
    fix j assume j: "0 < j" "j < length (data h)" "?k \<le> parent A j"
    obtain m where m: "length (data h) - 1 = A * m" using full by blast
    have "parent A j < m" using j(1,2) m A by (simp add: parent_def less_mult_imp_div_less mult.commute)
    moreover have "?k = m" using m A by (simp add: parent_def)
    ultimately show "dist (data h ! parent A j) \<le> dist (data h ! j)" using j(3) by simp
  qed
  moreover have "?k \<le> length (data h)" using parent_less [of "length (data h)" A] ne by simp
  ultimately show ?thesis using heapify_steps [OF A, of ?k h dist] ne
    by (intro that [of "fold (preserve_heap_property_down A dist) (rev [0..<?k]) h"]) (simp_all add: heapify_def)
qed

lemma set_index_indexed:
  assumes "distinct (data h)" and "\<forall>i < n. i < length (data h) \<longrightarrow> index_in_heap h (data h ! i) = i"
  shows "data (set_index_in_heap n h) = data h \<and> indexed (set_index_in_heap n h)"
proof -
  define f where "f = (\<lambda>i h. h\<lparr>index_in_heap := (index_in_heap h)(data h ! i := i)\<rparr> :: 'a heap)"
  have "data (fold f [n..<m] h) = data h \<and>
      (\<forall>i < max n m. i < length (data h) \<longrightarrow> index_in_heap (fold f [n..<m] h) (data h ! i) = i)" if "m \<le> length (data h)" for m
    using that
  proof (induction m)
    case 0
    then show ?case using assms(2) by simp
  next
    case (Suc m)
    then have IH: "data (fold f [n..<m] h) = data h"
      "\<And>i. i < max n m \<Longrightarrow> i < length (data h) \<Longrightarrow> index_in_heap (fold f [n..<m] h) (data h ! i) = i" by simp_all
    show ?case
    proof (cases "n \<le> m")
      case True
      have "index_in_heap (f m (fold f [n..<m] h)) (data h ! i) = i" if "i < Suc m" "i < length (data h)" for i
        using IH that True Suc.prems assms(1) by (cases "i = m") (auto simp: f_def nth_eq_iff_index_eq)
      then show ?thesis using True IH(1) by (simp add: f_def max_def)
    next
      case False
      then show ?thesis using assms(2) by simp
    qed
  qed
  from this [of "length (data h)"] show ?thesis using assms(1)
    by (simp add: set_index_in_heap_def f_def [symmetric] indexed_def)
qed

section \<open>The contract of a queue\<close>

text \<open>
  What the users of the queue rely on. The key of an element may change while it is at the top: \<open>adjust_q\<close>
  restores the order, and keys of elements outside of the queue do not matter.
\<close>

locale min_queue =
  fixes ok :: "('k \<Rightarrow> 'd::linorder) \<Rightarrow> 'q \<Rightarrow> bool" and elems :: "'q \<Rightarrow> 'k list" and top_q :: "'q \<Rightarrow> 'k"
    and push_q :: "('k \<Rightarrow> 'd) \<Rightarrow> 'k \<Rightarrow> 'q \<Rightarrow> 'q" and pop_q :: "('k \<Rightarrow> 'd) \<Rightarrow> 'q \<Rightarrow> 'q" and adjust_q :: "('k \<Rightarrow> 'd) \<Rightarrow> 'q \<Rightarrow> 'q"
  assumes ok_cong: "ok key q \<Longrightarrow> (\<And>k. k \<in> set (elems q) \<Longrightarrow> key' k = key k) \<Longrightarrow> ok key' q"
    and ok_push: "ok key q \<Longrightarrow> ok key (push_q key k q)"
    and elems_push: "ok key q \<Longrightarrow> mset (elems (push_q key k q)) = add_mset k (mset (elems q))"
    and ok_pop: "ok key q \<Longrightarrow> elems q \<noteq> [] \<Longrightarrow> ok key (pop_q key q)"
    and elems_pop: "ok key q \<Longrightarrow> elems q \<noteq> [] \<Longrightarrow> mset (elems q) = add_mset (top_q q) (mset (elems (pop_q key q)))"
    and ok_adjust: "ok key q \<Longrightarrow> elems q \<noteq> [] \<Longrightarrow> distinct (elems q) \<Longrightarrow>
      (\<And>k. k \<in> set (elems q) \<Longrightarrow> k \<noteq> top_q q \<Longrightarrow> key' k = key k) \<Longrightarrow> ok key' (adjust_q key' q)"
    and elems_adjust: "ok key q \<Longrightarrow> elems q \<noteq> [] \<Longrightarrow> distinct (elems q) \<Longrightarrow>
      (\<And>k. k \<in> set (elems q) \<Longrightarrow> k \<noteq> top_q q \<Longrightarrow> key' k = key k) \<Longrightarrow> mset (elems (adjust_q key' q)) = mset (elems q)"
    and top_least: "ok key q \<Longrightarrow> k \<in> set (elems q) \<Longrightarrow> key (top_q q) \<le> key k"

sublocale min_queue \<subseteq> drain: sorted_generator "ok key" "\<lambda>q. elems q \<noteq> []" top_q "pop_q key" "\<lambda>q. mset (elems q)" key for key
proof (unfold_locales, goal_cases)
  case (4 q x)
  then show ?case using top_least by simp
qed (simp_all add: ok_pop elems_pop)

context min_queue begin

lemma push_all: "ok key q \<Longrightarrow> ok key (fold (push_q key) ks q) \<and> mset (elems (fold (push_q key) ks q)) = mset ks + mset (elems q)"
  by (induction ks arbitrary: q) (simp_all add: ok_push elems_push)

lemma top_in: "ok key q \<Longrightarrow> elems q \<noteq> [] \<Longrightarrow> top_q q \<in> set (elems q)"
  using elems_pop by (metis insert_iff set_mset_add_mset_insert set_mset_mset)

end

lemma heap_adjust:
  assumes A: "0 < A" and H: "heap_order A key (data h)" and d: "distinct (data h)"
    and k: "\<And>k. k \<in> set (data h) \<Longrightarrow> k \<noteq> top_heap h \<Longrightarrow> key' k = key k"
  shows "heap_order A key' (data (adjust_top A key' h)) \<and> mset (data (adjust_top A key' h)) = mset (data h)"
proof (rule adjust_top_order [OF A])
  show "heap_from A key' 1 (data h)" unfolding heap_from_def
  proof (intro allI impI)
    fix j assume j: "0 < j" "j < length (data h)" "1 \<le> parent A j"
    have e: "key' (data h ! i) = key (data h ! i)" if "0 < i" "i < length (data h)" for i
    proof -
      have "data h ! i \<noteq> data h ! 0" using that d by (cases "data h = []") (simp_all add: nth_eq_iff_index_eq)
      then show ?thesis using k [of "data h ! i"] that by (simp add: top_heap_def)
    qed
    have "parent A j < j" using j(1) by (rule parent_less)
    then show "key' (data h ! parent A j) \<le> key' (data h ! j)" using H j e by (simp add: heap_from_def)
  qed
qed

interpretation hq: min_queue "\<lambda>key h. 0 < A \<and> heap_order A key (data h)" data top_heap "push A" "pop A" "adjust_top A" for A
proof (unfold_locales, goal_cases)
  case (1 key q key')
  have "key' (data q ! parent A j) \<le> key' (data q ! j)" if "0 < j" "j < length (data q)" for j
  proof -
    have "parent A j < length (data q)" using parent_less [OF that(1), of A] that(2) by (rule order_less_trans)
    then show ?thesis using 1(1) 1(2) [of "data q ! j"] 1(2) [of "data q ! parent A j"] that by (simp add: heap_from_def)
  qed
  then show ?case using 1(1) by (simp add: heap_from_def)
next
  case (2 key q k)
  then show ?case using push_order(1) [of A key q k] by simp
next
  case (3 key q k)
  then show ?case using push_order(2) [of A key q k] by simp
next
  case (4 key q)
  then show ?case using pop_order(1) [of A key q] by simp
next
  case (5 key q)
  then show ?case using pop_order(2) [of A key q] by simp
next
  case (6 key q key')
  then show ?case using heap_adjust [of A key q key'] by simp
next
  case (7 key q key')
  then show ?case using heap_adjust [of A key q key'] by simp
next
  case (8 key q k)
  then show ?case using top_least_set [of A key q k] by simp
qed

section \<open>The properties\<close>

lemma top_child:
  assumes "0 < A" and "heap_order A dist d" and "0 < j" and "j < length d"
  shows "\<exists>i. 0 < i \<and> i \<le> A \<and> i < length d \<and> dist (d ! i) \<le> dist (d ! j)"
  using assms(3,4)
proof (induction j rule: less_induct)
  case (less j)
  show ?case
  proof (cases "j \<le> A")
    case True
    then show ?thesis using less.prems by blast
  next
    case False
    have "parent A j \<noteq> 0" using parent_child [OF assms(1) less.prems(1), of 0] False by (simp add: child_def)
    moreover have "parent A j < j" using less.prems(1) by (rule parent_less)
    moreover have "dist (d ! parent A j) \<le> dist (d ! j)" using assms(2) less.prems by (simp add: heap_from_def)
    ultimately show ?thesis using less.IH [of "parent A j"] less.prems(2) by (meson gr0I less_trans order_trans)
  qed
qed

lemma fold_min:
  fixes f :: "nat \<Rightarrow> 'd::linorder"
  shows "fold (\<lambda>i b. let d = f i in if d < b then d else b) js b0 \<in> insert b0 (f ` set js) \<and>
    (\<forall>x \<in> insert b0 (f ` set js). fold (\<lambda>i b. let d = f i in if d < b then d else b) js b0 \<le> x)"
proof (induction js arbitrary: b0)
  case (Cons j js)
  define F where "F = fold (\<lambda>i b. let d = f i in if d < b then d else b) js"
  define m where "m = (if f j < b0 then f j else b0)"
  have m: "m \<le> b0" "m \<le> f j" "m = b0 \<or> m = f j" by (auto simp: m_def)
  have "F m \<in> insert m (f ` set js)" "F m \<le> m" "\<And>x. x \<in> f ` set js \<Longrightarrow> F m \<le> x"
    using Cons [of m] by (auto simp: F_def)
  then have "F m \<in> insert b0 (insert (f j) (f ` set js))" "\<And>x. x \<in> insert b0 (insert (f j) (f ` set js)) \<Longrightarrow> F m \<le> x"
    using m by (blast, metis insert_iff order_trans)
  then show ?case by (simp add: F_def m_def Let_def)
qed simp

text \<open>
  \<open>second_best\<close>. In a heap of at least two elements \<open>second_best\<close>, which looks only at the children
  of the root, is the least distance of the elements behind the top.
\<close>

theorem second_best_correct:
  assumes "0 < A" and "heap_order A dist (data h)" and "2 \<le> length (data h)"
  shows "is_arg_min id (\<lambda>x. x \<in> dist ` set (tl (data h))) (second_best A dist null h)"
proof -
  let ?d = "data h" and ?b = "second_best A dist null h"
  let ?js = "[2..<min (length (data h)) (A + 1)]"
  have e: "?b = fold (\<lambda>i b. let d = dist (?d ! i) in if d < b then d else b) ?js (dist (?d ! 1))"
    using assms(3) by (simp add: second_best_def)
  note B = fold_min [of "\<lambda>i. dist (?d ! i)" ?js "dist (?d ! 1)", folded e]
  have t: "set (tl ?d) = {?d ! j |j. 0 < j \<and> j < length ?d}"
  proof -
    obtain x xs where d: "?d = x # xs" using assms(3) by (cases ?d) auto
    have "set xs = {(x # xs) ! j |j. 0 < j \<and> j < length (x # xs)}"
    proof (intro equalityI subsetI)
      fix y assume "y \<in> set xs"
      then obtain i where "i < length xs" "y = xs ! i" by (auto simp: in_set_conv_nth)
      then have "0 < Suc i \<and> Suc i < length (x # xs) \<and> y = (x # xs) ! Suc i" by simp
      then show "y \<in> {(x # xs) ! j |j. 0 < j \<and> j < length (x # xs)}" by blast
    next
      fix y assume "y \<in> {(x # xs) ! j |j. 0 < j \<and> j < length (x # xs)}"
      then obtain j where j: "0 < j" "j < length (x # xs)" "y = (x # xs) ! j" by blast
      then show "y \<in> set xs" by (cases j) simp_all
    qed
    then show ?thesis by (simp add: d)
  qed
  have "?b \<in> dist ` set (tl ?d)" using B assms(3) by (fastforce simp: t)
  moreover have "?b \<le> dist x" if "x \<in> set (tl ?d)" for x
  proof -
    have "x \<in> {?d ! j |j. 0 < j \<and> j < length ?d}" using that by (simp only: t)
    then obtain j where j: "0 < j" "j < length ?d" "x = ?d ! j" by blast
    obtain i where i: "0 < i" "i \<le> A" "i < length ?d" "dist (?d ! i) \<le> dist (?d ! j)"
      using top_child [OF assms(1,2) j(1,2)] by blast
    have "?b \<le> dist (?d ! i)" using B i by (cases "i = 1") auto
    then show ?thesis using i(4) j(3) by simp
  qed
  ultimately show ?thesis by (auto simp: is_arg_min_def not_less)
qed

theorem second_best_correct_witness:
  "is_arg_min id (\<lambda>x. x \<in> id ` set (tl [1, 4, 2::nat])) (second_best 2 id 0 \<lparr>data = [1, 4, 2], index_in_heap = (\<lambda>_. 0)\<rparr>)"
proof -
  have "heap_order 2 id [1, 4, 2::nat]"
    by (auto simp: heap_from_def parent_def less_Suc_eq numeral_3_eq_3)
  then show ?thesis using second_best_correct [of 2 id "\<lparr>data = [1, 4, 2::nat], index_in_heap = (\<lambda>_. 0)\<rparr>" 0] by simp
qed

text \<open>
  Property C24 (the queue sorts). Pushing the elements of a list and taking the top until the heap is empty ends and
  gives each element once, in the order of the distances.
\<close>

theorem heap_sorts:
  fixes dist :: "'k \<Rightarrow> 'd::linorder"
  assumes "0 < A"
  shows "\<exists>xs h'. appendGenerate (\<lambda>h. data h \<noteq> []) top_heap (pop A dist) (append_push A dist vs heap_init) [] =
    Some (xs, length vs, h') \<and> mset xs = mset vs \<and> sorted (map dist xs)"
proof -
  have "0 < A \<and> heap_order A dist (data (heap_init :: 'k heap))" using assms by (simp add: heap_init_def heap_from_def)
  from hq.push_all [OF this, of vs]
  have s: "0 < A \<and> heap_order A dist (data (append_push A dist vs heap_init))"
    "mset (data (append_push A dist vs heap_init)) = mset vs" by (simp_all add: append_push_def heap_init_def)
  obtain xs h' where x: "appendGenerate (\<lambda>h. data h \<noteq> []) top_heap (pop A dist) (append_push A dist vs heap_init) [] =
    Some (xs, length xs, h')" "mset xs = mset vs" "sorted (map dist xs)"
    using hq.drain.append_all_sorted [OF s(1), of "[]"] s(2) by auto
  then have "length xs = length vs" by (metis size_mset)
  then show ?thesis using x by auto
qed

theorem heap_sorts_witness:
  "\<exists>xs h'. appendGenerate (\<lambda>h. data h \<noteq> []) top_heap (pop 4 id) (append_push 4 id [5, 1, 4, 1, 3, 2::nat] heap_init) [] =
    Some (xs, 6, h') \<and> mset xs = mset [5, 1, 4, 1, 3, 2] \<and> sorted xs"
  using heap_sorts [of 4 "id :: nat \<Rightarrow> nat" "[5, 1, 4, 1, 3, 2]"] by (simp add: eval_nat_numeral)

lemma contains_indexed: "indexed h \<Longrightarrow> contains_heap v h \<longleftrightarrow> v \<in> set (data h)"
  by (auto simp: contains_heap_def contains_at_def indexed_def in_set_conv_nth)

lemma contains_at_set: "contains_at v i h \<Longrightarrow> v \<in> set (data h)"
  by (auto simp: contains_at_def)

text \<open>
  Property C25 (\<open>push_or_update\<close>). After the distance of \<open>v\<close> was set to at most what it was, \<open>push_or_update\<close> gives a
  heap for the new distances with an index map that is right, which holds \<open>v\<close> once and the other elements as before.
\<close>

theorem push_or_update_correct:
  assumes "0 < A" and "indexed h" and "heap_order A old (data h)" and "v \<in> set (data h) \<Longrightarrow> x \<le> old v"
  shows "heap_order A (old(v := x)) (data (push_or_update A (old(v := x)) v h)) \<and>
    set (data (push_or_update A (old(v := x)) v h)) = insert v (set (data h)) \<and>
    indexed (push_or_update A (old(v := x)) v h)"
proof (cases "v \<in> set (data h)")
  case True
  then have "contains_at v (index_in_heap h v) h" using contains_indexed [OF assms(2)] by (simp add: contains_heap_def)
  then have e: "push_or_update A (old(v := x)) v h = update A (old(v := x)) v h" by (simp add: push_or_update_def update_def)
  have "mset (data (update A (old(v := x)) v h)) = mset (data h)"
    using update_order [OF assms(1,2) True assms(3) refl assms(4) [OF True]] by blast
  then have "set (data (update A (old(v := x)) v h)) = insert v (set (data h))" using True by (metis insert_absorb mset_eq_setD)
  then show ?thesis using update_order [OF assms(1,2) True assms(3) refl assms(4) [OF True]] e by simp
next
  case False
  then have e: "push_or_update A (old(v := x)) v h = push A (old(v := x)) v h"
    using contains_at_set [of v "index_in_heap h v" h] by (auto simp: push_or_update_def Let_def)
  have "0 < A \<and> heap_order A (old(v := x)) (data h)"
    by (rule hq.ok_cong [of A old h]) (use assms(1,3) False in auto)
  then have o: "heap_order A (old(v := x)) (data (push A (old(v := x)) v h))"
    "mset (data (push A (old(v := x)) v h)) = add_mset v (mset (data h))" 
    using push_order [of A "old(v := x)" h v] assms(1) by simp_all
  then have "set (data (push A (old(v := x)) v h)) = insert v (set (data h))" by (metis set_mset_add_mset_insert set_mset_mset)
  then show ?thesis using o(1) e push_indexed [OF assms(2) False, of A "old(v := x)"] by simp
qed

theorem push_or_update_correct_witness:
  "set (data (push_or_update 2 (id(3 := 0)) 3 (append_push 2 id [2, 3::nat] heap_init))) = {2, 3}"
proof -
  let ?h = "append_push 2 id [2, 3::nat] heap_init"
  have d: "data ?h = [2, 3]" "index_in_heap ?h 2 = 0" "index_in_heap ?h 3 = 1"
    by (simp_all add: append_push_def push_def heap_init_def preserve_heap_property_up.simps parent_def move_heap_element_def)
  have "indexed ?h" using d by (auto simp: indexed_def less_Suc_eq)
  moreover have "heap_order 2 id (data ?h)" using d by (simp add: heap_from_def parent_def less_Suc_eq)
  ultimately show ?thesis using push_or_update_correct [of 2 ?h id 3 0] d by auto
qed

text \<open>
  \<open>append_heapify\<close>. If the last parent has all its children, that is if the arity divides the number of
  elements less one, then \<open>append_heapify\<close> gives a heap of the old and the new elements with an index map that is right.
\<close>

theorem append_heapify_correct:
  assumes "0 < A" and "indexed h" and "distinct (data h @ vs)" and "data h @ vs \<noteq> []" and "A dvd length (data h @ vs) - 1"
  shows "\<exists>h'. append_heapify A dist vs h = Some h' \<and> heap_order A dist (data h') \<and> mset (data h') = mset (data h @ vs) \<and> indexed h'"
proof -
  let ?g = "h\<lparr>data := data h @ vs\<rparr>" and ?k = "set_index_in_heap (length (data h)) (h\<lparr>data := data h @ vs\<rparr>)"
  have "\<forall>i < length (data h). i < length (data ?g) \<longrightarrow> index_in_heap ?g (data ?g ! i) = i"
    using assms(2) by (simp add: indexed_def nth_append)
  then have k: "data ?k = data h @ vs" "indexed ?k" using set_index_indexed [of ?g "length (data h)"] assms(3) by simp_all
  obtain h' where "heapify A dist ?k = Some h'" "heap_order A dist (data h')" "mset (data h') = mset (data ?k)"
    "indexed ?k \<longrightarrow> indexed h'"
    by (rule heapify_order [of A ?k dist]) (use assms k in auto)
  then show ?thesis using k by (auto simp: append_heapify_def)
qed

theorem append_heapify_correct_witness:
  "\<exists>h'. append_heapify 2 id [3, 1, 2::nat] heap_init = Some h' \<and> heap_order 2 id (data h') \<and> mset (data h') = mset [3, 1, 2] \<and> indexed h'"
  using append_heapify_correct [of 2 heap_init "[3, 1, 2::nat]" id] by (simp add: heap_init_def indexed_def)

text \<open>
  \<open>heapify\<close> skips the last parent. \<open>heapify\<close> starts below \<open>parent(size)\<close>, which is the last parent itself
  when that has fewer children than the arity: the three elements 3, 1, 2 in a heap of arity 4 stay as they are, and the
  top of the heap is its greatest element.
\<close>

theorem heapify_skips_last_parent:
  "\<exists>h'. append_heapify 4 id [3, 1, 2::nat] heap_init = Some h' \<and> top_heap h' = 3 \<and> data h' = [3, 1, 2] \<and>
    \<not> heap_order 4 id (data h')"
  by (simp add: append_heapify_def heapify_def heap_init_def set_index_in_heap_def parent_def top_heap_def heap_from_def upt_rec
      exI [of _ "1::nat"])

text \<open>The swap of \<open>adjust_top\<close> on at most \<open>A\<close> elements.\<close>

lemma adjust_top_swaps:
  assumes g: "data g = y # xs" and n: "length (data g) \<le> A" and D: "distinct (data g)" and x: "x \<in> set xs" "dist x < dist y"
  obtains k where "0 < k" "k < length (data g)" "data (adjust_top A dist g) = (data g)[k := y, 0 := data g ! k]" "data g ! k \<noteq> y"
    "index_in_heap (adjust_top A dist g) = (index_in_heap g)(data g ! k := k, y := 0)"
proof -
  let ?k = "best_of dist (data g) 0 (length (data g))"
  have l: "0 < length (data g)" by (simp add: g)
  note B = best_of [OF l, where dist = dist and d = "data g"]
  obtain j where j: "j < length xs" "xs ! j = x" using x(1) by (auto simp: in_set_conv_nth)
  have "dist (data g ! ?k) \<le> dist (data g ! Suc j)" using B(3) [of "Suc j"] j(1) by (simp add: g)
  then have k: "0 < ?k" using j(2) x(2) by (cases ?k) (simp_all add: g)
  have "data g ! ?k \<noteq> y" using D k B(2) nth_eq_iff_index_eq [OF D, of ?k 0] by (simp add: g)
  moreover have "1 < length (data g)" using k B(2) by linarith
  then have "adjust_top A dist g = swap_heap_elements ?k 0 g" using n k by (simp add: adjust_top_def Let_def)
  ultimately show ?thesis by (intro that [OF k B(2)]) (simp_all add: swap_heap_elements_def Let_def g)
qed

text \<open>
  Property C26 (a pop that loses elements). In any heap of at most one element more than the arity with a right index map,
  if some element other than the top and the last is better than the last one, then \<open>pop\<close> takes the top away and leaves
  the other elements, but the swap enters the two elements it swaps in the index map the wrong way round: the last element and the new top are in the
  heap, \<open>contains\<close> denies both, and an \<open>update\<close> of the former then overwrites the top, which is lost.
\<close>

theorem pop_loses_index:
  assumes "indexed h" and "2 < length (data h)" and "length (data h) \<le> Suc A"
    and "x \<in> set (butlast (tl (data h)))" and "dist x < dist (last (data h))"
  shows "mset (data h) = add_mset (top_heap h) (mset (data (pop A dist h))) \<and>
    last (data h) \<in> set (data (pop A dist h)) \<and> \<not> contains_heap (last (data h)) (pop A dist h) \<and>
    top_heap (pop A dist h) \<in> set (data (pop A dist h)) \<and> \<not> contains_heap (top_heap (pop A dist h)) (pop A dist h) \<and>
    top_heap (pop A dist h) \<notin> set (data (update A dist (last (data h)) (pop A dist h)))"
proof -
  have "1 < length (data h)" using assms(2) by simp
  then obtain t xs y where d: "data h = t # xs @ [y]" "last (data h) = y" "butlast ((data h)[0 := last (data h)]) = y # xs"
    by (rule pop_split)
  define g where "g = (let h1 = move_heap_element (last (data h)) 0 h in h1\<lparr>data := butlast (data h1)\<rparr>)"
  have g: "data g = y # xs" "pop A dist h = adjust_top A dist g" using d assms(2) by (simp_all add: g_def pop_def Let_def)
  have x: "x \<in> set xs" "dist x < dist y" and D: "distinct (data g)" and n: "length (data g) \<le> A"
    using assms d(1,2) by (simp_all add: g(1) indexed_def)
  obtain k where k: "0 < k" "k < length (data g)" "data (pop A dist h) = (data g)[k := y, 0 := data g ! k]" "data g ! k \<noteq> y"
    "index_in_heap (pop A dist h) = (index_in_heap g)(data g ! k := k, y := 0)"
    using adjust_top_swaps [where dist = dist, OF g(1) n D x] unfolding g(2) by metis
  obtain j where j: "k = Suc j" "j < length xs" using k(1,2) by (cases k) (simp_all add: g(1))
  have p: "data (pop A dist h) = xs ! j # xs[j := y]" using k(3) j by (simp add: g(1))
  have z: "xs ! j \<noteq> y" "xs ! j \<notin> set (xs[j := y])" "y \<notin> set xs"
  proof -
    show "y \<notin> set xs" using D by (simp add: g(1))
    then show "xs ! j \<noteq> y" using j(2) by (metis nth_mem)
    then show "xs ! j \<notin> set (xs[j := y])" using D j(2) by (auto simp: g(1) in_set_conv_nth nth_list_update nth_eq_iff_index_eq split: if_splits)
  qed
  have m: "mset (xs[j := y]) = add_mset y (mset xs - {#xs ! j#})" using j(2) by (simp add: mset_update)
  then have "mset (data (pop A dist h)) = add_mset y (mset xs)" using j(2) by (simp add: p)
  then have "mset (data h) = add_mset (top_heap h) (mset (data (pop A dist h)))" by (simp add: d(1) top_heap_def)
  moreover have "y \<in> set (data (pop A dist h))" using j(2) by (simp add: p set_update_memI)
  moreover have "\<not> contains_heap y (pop A dist h)" "\<not> contains_heap (xs ! j) (pop A dist h)"
    using z(1) j k(5) by (simp_all add: contains_heap_def contains_at_def p g(1))
  moreover have "data (update A dist y (pop A dist h)) = y # xs[j := y]"
    using z(1) k(5) by (simp add: update_def up_simps p g(1))
  ultimately show ?thesis using d(2) z(1,2) by (simp add: top_heap_def p)
qed

theorem pop_loses_index_witness:
  "\<not> contains_heap 3 (pop 3 id (append_push 3 id [1, 2, 3 :: nat] heap_init)) \<and>
    3 \<in> set (data (pop 3 id (append_push 3 id [1, 2, 3 :: nat] heap_init)))"
proof -
  let ?h = "append_push 3 id [1, 2, 3 :: nat] heap_init"
  have h: "?h = \<lparr>data = [1, 2, 3], index_in_heap = (\<lambda>_. 0)(1 := 0, 2 := 1, 3 := 2)\<rparr>"
    by (simp add: append_push_def push_def heap_init_def up_simps parent_def move_heap_element_def numeral_2_eq_2)
  have d: "data ?h = [1, 2, 3]" unfolding h by simp
  have "indexed ?h" unfolding h by (auto simp: indexed_def less_Suc_eq numeral_2_eq_2 numeral_3_eq_3)
  then show ?thesis using pop_loses_index [of ?h 3 2 id] d by simp
qed

end
