(* ===== verification/Flatten_Generators.thy ===== *)
theory Flatten_Generators
  imports D_Ary_Heap
begin

text \<open>
  The lazy sorted merge of a generator of generators (\<open>sdl/Util/FlattenGenerators.hpp\<close>), which yields the
  arcs of a lazy composition best first. A tip is a second-level generator with its next value; the tips
  live in a pool and wait in a heap of arity 4. At most one waiting tip is at the base: the next generator
  is started only when the first value of the last one has been taken.

  The lemmas show that the merge is a generator in the sense of the contract of the theory of generators, of
  exactly the values of all generators, and that it is a sorted one if every generator is sorted and the
  generators are ordered by their first values.
\<close>

section \<open>The code\<close>

text \<open>A generator is the list of the values that it has still to give.\<close>

record ('v, 'w) tip =
  tbase :: bool
  tgen :: "'v list"
  tval :: 'v
  tweight :: 'w

record ('v, 'w) flatten =
  gengen :: "'v list list"
  pool :: "nat \<Rightarrow> ('v, 'w) tip"
  constructed :: nat
  queue :: "nat heap"

definition weight_of :: "('v, 'w) flatten \<Rightarrow> nat \<Rightarrow> 'w" where
  "weight_of s t = tweight (pool s t)"

definition setTip :: "('v \<Rightarrow> 'w) \<Rightarrow> nat \<Rightarrow> ('v, 'w) flatten \<Rightarrow> ('v, 'w) flatten" where
  "setTip wt t s =
     (let tip = pool s t; v = hd (tgen tip)
      in s\<lparr>pool := (pool s)(t := tip\<lparr>tval := v, tgen := tl (tgen tip), tweight := wt v\<rparr>)\<rparr>)"

text \<open>The loop of \<open>pushBase\<close> for the new tip \<open>t\<close>; the tip is given back when no generator is left.\<close>

fun pushBase_loop :: "('v \<Rightarrow> 'w::linorder) \<Rightarrow> nat \<Rightarrow> 'v list list \<Rightarrow> ('v, 'w) flatten \<Rightarrow> ('v, 'w) flatten" where
  "pushBase_loop wt t [] s = s\<lparr>gengen := [], constructed := t\<rparr>"
| "pushBase_loop wt t (g # gs) s =
     (let s1 = s\<lparr>gengen := gs, pool := (pool s)(t := (pool s t)\<lparr>tgen := g\<rparr>)\<rparr>
      in if g \<noteq> [] then (let s2 = setTip wt t s1 in s2\<lparr>queue := push 4 (weight_of s2) t (queue s2)\<rparr>)
         else pushBase_loop wt t gs s1)"

definition pushBase :: "('v \<Rightarrow> 'w::linorder) \<Rightarrow> ('v, 'w) flatten \<Rightarrow> ('v, 'w) flatten" where
  "pushBase wt s =
     (let t = constructed s
      in pushBase_loop wt t (gengen s)
           (s\<lparr>constructed := Suc t, pool := (pool s)(t := (pool s t)\<lparr>tbase := True\<rparr>)\<rparr>))"

text \<open>The constructor, on a pool with any contents.\<close>

definition flatten_make :: "('v \<Rightarrow> 'w::linorder) \<Rightarrow> 'v list list \<Rightarrow> (nat \<Rightarrow> ('v, 'w) tip) \<Rightarrow> ('v, 'w) flatten" where
  "flatten_make wt gs p = pushBase wt \<lparr>gengen = gs, pool = p, constructed = 0, queue = heap_init\<rparr>"

definition flatten_alive :: "('v, 'w) flatten \<Rightarrow> bool" where
  "flatten_alive s \<longleftrightarrow> data (queue s) \<noteq> []"

definition flatten_peek :: "('v, 'w) flatten \<Rightarrow> 'v" where
  "flatten_peek s = tval (pool s (top_heap (queue s)))"

text \<open>The tip at the top takes its next value, or leaves the queue.\<close>

definition flatten_advance :: "('v \<Rightarrow> 'w::linorder) \<Rightarrow> ('v, 'w) flatten \<Rightarrow> ('v, 'w) flatten" where
  "flatten_advance wt s =
     (let t = top_heap (queue s);
          s1 = (if tbase (pool s t) then s\<lparr>pool := (pool s)(t := (pool s t)\<lparr>tbase := False\<rparr>)\<rparr> else s)
      in if tgen (pool s1 t) \<noteq> []
         then (let s' = setTip wt t s1 in s'\<lparr>queue := adjust_top 4 (weight_of s') (queue s')\<rparr>)
         else s1\<lparr>queue := pop 4 (weight_of s1) (queue s1)\<rparr>)"

definition flatten_pop :: "('v \<Rightarrow> 'w::linorder) \<Rightarrow> ('v, 'w) flatten \<Rightarrow> ('v, 'w) flatten" where
  "flatten_pop wt s =
     (let t = top_heap (queue s); wasBase = tbase (pool s t); s2 = flatten_advance wt s
      in if wasBase then pushBase wt (s2\<lparr>pool := (pool s2)(t := (pool s2 t)\<lparr>tbase := False\<rparr>)\<rparr>) else s2)"

section \<open>The values to come\<close>

definition tip_values :: "('v, 'w) tip \<Rightarrow> 'v multiset" where
  "tip_values t = add_mset (tval t) (mset (tgen t))"

definition waiting :: "('v, 'w) flatten \<Rightarrow> 'v multiset" where
  "waiting s = (\<Sum>t \<in># mset (data (queue s)). tip_values (pool s t))"

definition flatten_remaining :: "('v, 'w) flatten \<Rightarrow> 'v multiset" where
  "flatten_remaining s = waiting s + mset (concat (gengen s))"

text \<open>A heap for the weights of the tips, of tips that were constructed and not given back.\<close>

definition tips_ok :: "('v \<Rightarrow> 'w::linorder) \<Rightarrow> nat \<Rightarrow> ('v, 'w) flatten \<Rightarrow> bool" where
  "tips_ok wt n s \<longleftrightarrow> heap_order 4 (weight_of s) (data (queue s)) \<and> distinct (data (queue s)) \<and>
     (\<forall>t \<in> set (data (queue s)). t < n \<and> weight_of s t = wt (tval (pool s t)))"

definition tips_sorted :: "('v \<Rightarrow> 'w::linorder) \<Rightarrow> ('v, 'w) flatten \<Rightarrow> bool" where
  "tips_sorted wt s \<longleftrightarrow> (\<forall>t \<in> set (data (queue s)). sorted (map wt (tval (pool s t) # tgen (pool s t))))"

text \<open>Between calls a base tip waits while a nonempty generator is left.\<close>

definition flatten_ok :: "('v \<Rightarrow> 'w::linorder) \<Rightarrow> ('v, 'w) flatten \<Rightarrow> bool" where
  "flatten_ok wt s \<longleftrightarrow> tips_ok wt (constructed s) s \<and>
     ((\<exists>g \<in> set (gengen s). g \<noteq> []) \<longrightarrow> (\<exists>t \<in> set (data (queue s)). tbase (pool s t)))"

text \<open>The order: sorted generators, and a base tip whose value is not above the first values of the generators left.\<close>

definition gens_sorted :: "('v \<Rightarrow> 'w::linorder) \<Rightarrow> 'v list list \<Rightarrow> bool" where
  "gens_sorted wt gs \<longleftrightarrow> (\<forall>g \<in> set gs. sorted (map wt g)) \<and>
     sorted_wrt (\<lambda>g g'. g \<noteq> [] \<longrightarrow> g' \<noteq> [] \<longrightarrow> wt (hd g) \<le> wt (hd g')) gs"

definition flatten_sorted :: "('v \<Rightarrow> 'w::linorder) \<Rightarrow> ('v, 'w) flatten \<Rightarrow> bool" where
  "flatten_sorted wt s \<longleftrightarrow> tips_sorted wt s \<and> gens_sorted wt (gengen s) \<and>
     (\<forall>g \<in> set (gengen s). g \<noteq> [] \<longrightarrow> (\<exists>t \<in> set (data (queue s)). tbase (pool s t) \<and> wt (tval (pool s t)) \<le> wt (hd g)))"

lemma tips_okD:
  assumes "tips_ok wt n s"
  shows "(0::nat) < 4 \<and> heap_order 4 (weight_of s) (data (queue s))" "distinct (data (queue s))"
    "\<And>t. t \<in> set (data (queue s)) \<Longrightarrow> t < n \<and> weight_of s t = wt (tval (pool s t))"
  using assms by (simp_all add: tips_ok_def)

lemma waiting_cong:
  assumes "mset (data (queue s)) = mset (data (queue s'))" and "\<And>t. t \<in> set (data (queue s)) \<Longrightarrow> tip_values (pool s t) = tip_values (pool s' t)"
  shows "waiting s = waiting s'"
proof -
  have "image_mset (\<lambda>t. tip_values (pool s t)) (mset (data (queue s))) = image_mset (\<lambda>t. tip_values (pool s' t)) (mset (data (queue s)))"
    by (rule image_mset_cong) (use assms(2) in simp)
  then show ?thesis using assms(1) by (simp add: waiting_def)
qed

text \<open>A change of the pool at a tip that does not wait, and of its generator.\<close>

lemma tips_ok_cong:
  assumes T: "tips_ok wt n s" and q: "queue s' = queue s"
    and p: "\<And>t. t \<in> set (data (queue s)) \<Longrightarrow> tval (pool s' t) = tval (pool s t) \<and> tweight (pool s' t) = tweight (pool s t)"
  shows "tips_ok wt n s'"
proof -
  have w: "weight_of s' t = weight_of s t" if "t \<in> set (data (queue s))" for t using p [OF that] by (simp add: weight_of_def)
  have "0 < (4::nat) \<and> heap_order 4 (weight_of s') (data (queue s))" by (rule hq.ok_cong [OF tips_okD(1) [OF T] w])
  then show ?thesis using T w p unfolding tips_ok_def q by auto
qed

section \<open>A new base\<close>

lemma pushBase_push:
  fixes s :: "('v, 'w::linorder) flatten" and gs
  assumes T: "tips_ok wt t s" and g: "g \<noteq> []"
  defines "s2 \<equiv> setTip wt t (s\<lparr>gengen := gs, pool := (pool s)(t := (pool s t)\<lparr>tgen := g\<rparr>)\<rparr>)"
  defines "s' \<equiv> s2\<lparr>queue := push 4 (weight_of s2) t (queue s2)\<rparr>"
  shows "tips_ok wt (Suc t) s'" "mset (data (queue s')) = add_mset t (mset (data (queue s)))"
    "pool s' = (pool s)(t := (pool s t)\<lparr>tval := hd g, tgen := tl g, tweight := wt (hd g)\<rparr>)"
    "gengen s' = gs" "constructed s' = constructed s" "waiting s' = mset g + waiting s"
proof -
  have P: "pool s' = (pool s)(t := (pool s t)\<lparr>tval := hd g, tgen := tl g, tweight := wt (hd g)\<rparr>)" "weight_of s' = weight_of s2"
    "queue s2 = queue s" "queue s' = push 4 (weight_of s2) t (queue s)" "pool s2 = pool s'"
    by (simp_all add: s'_def s2_def setTip_def Let_def weight_of_def [abs_def])
  then show "pool s' = (pool s)(t := (pool s t)\<lparr>tval := hd g, tgen := tl g, tweight := wt (hd g)\<rparr>)" by simp
  show "gengen s' = gs" "constructed s' = constructed s" by (simp_all add: s'_def s2_def setTip_def Let_def)
  have nt: "t \<notin> set (data (queue s))" using tips_okD(3) [OF T] by blast
  have "tips_ok wt t s2" by (rule tips_ok_cong [OF T P(3)]) (use nt P in auto)
  then have o: "0 < (4::nat) \<and> heap_order 4 (weight_of s2) (data (queue s))" using tips_okD(1) P(3) by metis
  have m: "mset (data (queue s')) = add_mset t (mset (data (queue s)))" using hq.elems_push [OF o] P(4) by simp
  then show "mset (data (queue s')) = add_mset t (mset (data (queue s)))" .
  have st: "set (data (queue s')) = insert t (set (data (queue s)))" using m by (metis set_mset_add_mset_insert set_mset_mset)
  have "distinct (data (queue s'))" using tips_okD(2) [OF T] nt m by (metis distinct.simps(2) mset.simps(2) mset_eq_imp_distinct_iff)
  moreover have "heap_order 4 (weight_of s') (data (queue s'))" using hq.ok_push [OF o] P by simp
  moreover have "u < Suc t \<and> weight_of s' u = wt (tval (pool s' u))" if "u \<in> set (data (queue s'))" for u
    using that st tips_okD(3) [OF T, of u] nt by (auto simp: P(1) weight_of_def)
  ultimately show "tips_ok wt (Suc t) s'" by (simp add: tips_ok_def)
  have "(\<Sum>u \<in># mset (data (queue s)). tip_values (pool s' u)) = waiting s"
    unfolding waiting_def by (intro arg_cong [where f = sum_mset] image_mset_cong) (use nt in \<open>auto simp: P(1)\<close>)
  moreover have "tip_values (pool s' t) = mset g" using g by (cases g) (simp_all add: P(1) tip_values_def)
  ultimately show "waiting s' = mset g + waiting s" by (simp add: waiting_def [of s'] m)
qed

lemma pushBase_loop_ok:
  assumes "tips_ok wt t s" and "constructed s = Suc t" and "tbase (pool s t)"
  shows "flatten_ok wt (pushBase_loop wt t gs s) \<and> flatten_remaining (pushBase_loop wt t gs s) = waiting s + mset (concat gs)"
  using assms
proof (induction wt t gs s rule: pushBase_loop.induct)
  case (1 wt t s)
  have "tips_ok wt t (s\<lparr>gengen := [], constructed := t\<rparr>)" by (rule tips_ok_cong [OF 1(1)]) simp_all
  moreover have "waiting (s\<lparr>gengen := [], constructed := t\<rparr>) = waiting s" by (rule waiting_cong) simp_all
  ultimately show ?case by (simp add: flatten_ok_def flatten_remaining_def)
next
  case (2 wt t g gs s)
  let ?s1 = "s\<lparr>gengen := gs, pool := (pool s)(t := (pool s t)\<lparr>tgen := g\<rparr>)\<rparr>"
  have nt: "t \<notin> set (data (queue s))" using tips_okD(3) [OF 2(2)] by blast
  show ?case
  proof (cases "g = []")
    case True
    have "tips_ok wt t ?s1" by (rule tips_ok_cong [OF 2(2)]) (use nt in auto)
    moreover have "waiting ?s1 = waiting s" by (rule waiting_cong) (use nt in auto)
    ultimately show ?thesis using 2(1) [OF refl] 2(3,4) True by (simp add: Let_def)
  next
    case False
    let ?s' = "(setTip wt t ?s1)\<lparr>queue := push 4 (weight_of (setTip wt t ?s1)) t (queue (setTip wt t ?s1))\<rparr>"
    note P = pushBase_push [OF 2(2) False, of gs]
    have e: "pushBase_loop wt t (g # gs) s = ?s'" using False by (simp add: Let_def)
    have "t \<in> set (data (queue ?s'))" using P(2) by (metis set_mset_add_mset_insert set_mset_mset insertI1)
    moreover have "tbase (pool ?s' t)" using 2(4) by (simp only: P(3)) simp
    ultimately have "flatten_ok wt ?s'" using P(1,5) 2(3) by (auto simp: flatten_ok_def)
    moreover have "flatten_remaining ?s' = waiting s + mset (concat (g # gs))" by (simp only: flatten_remaining_def P(4,6)) simp
    ultimately show ?thesis by (simp only: e)
  qed
qed

lemma pushBase_loop_sorted:
  assumes "tips_ok wt t s" and "tbase (pool s t)" and "tips_sorted wt s" and "gens_sorted wt gs"
  shows "flatten_sorted wt (pushBase_loop wt t gs s)"
  using assms
proof (induction wt t gs s rule: pushBase_loop.induct)
  case (1 wt t s)
  then show ?case by (simp add: flatten_sorted_def tips_sorted_def gens_sorted_def)
next
  case (2 wt t g gs s)
  let ?s1 = "s\<lparr>gengen := gs, pool := (pool s)(t := (pool s t)\<lparr>tgen := g\<rparr>)\<rparr>"
  have nt: "t \<notin> set (data (queue s))" using tips_okD(3) [OF 2(2)] by blast
  have gs: "gens_sorted wt gs" using 2(5) by (simp add: gens_sorted_def)
  show ?case
  proof (cases "g = []")
    case True
    have "tips_ok wt t ?s1" by (rule tips_ok_cong [OF 2(2)]) (use nt in auto)
    moreover have "tips_sorted wt ?s1" using 2(4) nt by (auto simp: tips_sorted_def)
    ultimately show ?thesis using 2(1) [OF refl] 2(3) True gs by (simp add: Let_def)
  next
    case False
    let ?s' = "(setTip wt t ?s1)\<lparr>queue := push 4 (weight_of (setTip wt t ?s1)) t (queue (setTip wt t ?s1))\<rparr>"
    note P = pushBase_push [OF 2(2) False, of gs]
    have e: "pushBase_loop wt t (g # gs) s = ?s'" using False by (simp add: Let_def)
    have st: "set (data (queue ?s')) = insert t (set (data (queue s)))" using P(2) by (metis set_mset_add_mset_insert set_mset_mset)
    have pt: "tbase (pool ?s' t)" "tval (pool ?s' t) = hd g" "tgen (pool ?s' t) = tl g" using 2(3) by (simp_all only: P(3)) simp_all
    have pu: "pool ?s' u = pool s u" if "u \<in> set (data (queue s))" for u using that nt by (simp only: P(3)) auto
    have "sorted (map wt (hd g # tl g))" using 2(5) False by (simp add: gens_sorted_def)
    then have "tips_sorted wt ?s'" unfolding tips_sorted_def st using 2(4) pt pu by (simp add: tips_sorted_def)
    moreover have "\<exists>u \<in> set (data (queue ?s')). tbase (pool ?s' u) \<and> wt (tval (pool ?s' u)) \<le> wt (hd g')"
      if "g' \<in> set gs" "g' \<noteq> []" for g'
      using 2(5) that False pt st by (intro bexI [of _ t]) (simp_all add: gens_sorted_def)
    ultimately have "flatten_sorted wt ?s'" unfolding flatten_sorted_def using gs P(4) by metis
    then show ?thesis by (simp only: e)
  qed
qed

lemma pushBase_correct:
  assumes T: "tips_ok wt (constructed s) s"
  shows "flatten_ok wt (pushBase wt s)" "flatten_remaining (pushBase wt s) = flatten_remaining s"
    "tips_sorted wt s \<Longrightarrow> gens_sorted wt (gengen s) \<Longrightarrow> flatten_sorted wt (pushBase wt s)"
proof -
  let ?t = "constructed s"
  let ?s0 = "s\<lparr>constructed := Suc ?t, pool := (pool s)(?t := (pool s ?t)\<lparr>tbase := True\<rparr>)\<rparr>"
  have nt: "?t \<notin> set (data (queue s))" using tips_okD(3) [OF T] by blast
  have T0: "tips_ok wt ?t ?s0" by (rule tips_ok_cong [OF T]) (use nt in auto)
  have w: "waiting ?s0 = waiting s" by (rule waiting_cong) (use nt in auto)
  show "flatten_ok wt (pushBase wt s)" "flatten_remaining (pushBase wt s) = flatten_remaining s"
    using pushBase_loop_ok [OF T0, of "gengen s"] w by (simp_all add: pushBase_def Let_def flatten_remaining_def)
  show "flatten_sorted wt (pushBase wt s)" if "tips_sorted wt s" "gens_sorted wt (gengen s)"
  proof -
    have "tips_sorted wt ?s0" using that(1) nt by (auto simp: tips_sorted_def)
    then show ?thesis using pushBase_loop_sorted [OF T0 _ _ that(2)] by (simp add: pushBase_def Let_def)
  qed
qed

section \<open>Taking a value\<close>

lemma unbase: "(if tbase (pool s t) then s\<lparr>pool := (pool s)(t := (pool s t)\<lparr>tbase := False\<rparr>)\<rparr> else s) =
    s\<lparr>pool := (pool s)(t := (pool s t)\<lparr>tbase := False\<rparr>)\<rparr>"
proof (cases "tbase (pool s t)")
  case False
  then have "(pool s t)\<lparr>tbase := False\<rparr> = pool s t" by (cases "pool s t") simp
  then have "(pool s)(t := (pool s t)\<lparr>tbase := False\<rparr>) = pool s" by (simp add: fun_upd_idem)
  then show ?thesis using False by simp
qed simp

lemma flatten_advance_next:
  assumes T: "tips_ok wt n s" and ne: "data (queue s) \<noteq> []" and g: "tgen (pool s (top_heap (queue s))) \<noteq> []"
  shows "tips_ok wt n (flatten_advance wt s)"
    "mset (data (queue (flatten_advance wt s))) = mset (data (queue s))"
    "pool (flatten_advance wt s) = (pool s)(top_heap (queue s) := (pool s (top_heap (queue s)))\<lparr>tbase := False,
       tval := hd (tgen (pool s (top_heap (queue s)))), tgen := tl (tgen (pool s (top_heap (queue s)))),
       tweight := wt (hd (tgen (pool s (top_heap (queue s)))))\<rparr>)"
proof -
  define t where "t = top_heap (queue s)"
  define s' where "s' = setTip wt t (s\<lparr>pool := (pool s)(t := (pool s t)\<lparr>tbase := False\<rparr>)\<rparr>)"
  have a: "flatten_advance wt s = s'\<lparr>queue := adjust_top 4 (weight_of s') (queue s)\<rparr>"
    using g by (simp add: flatten_advance_def Let_def unbase s'_def t_def setTip_def)
  have P: "pool s' = (pool s)(t := (pool s t)\<lparr>tbase := False, tval := hd (tgen (pool s t)), tgen := tl (tgen (pool s t)),
    tweight := wt (hd (tgen (pool s t)))\<rparr>)" by (simp add: s'_def setTip_def Let_def)
  then show "pool (flatten_advance wt s) = (pool s)(top_heap (queue s) := (pool s (top_heap (queue s)))\<lparr>tbase := False,
       tval := hd (tgen (pool s (top_heap (queue s)))), tgen := tl (tgen (pool s (top_heap (queue s)))),
       tweight := wt (hd (tgen (pool s (top_heap (queue s)))))\<rparr>)" by (simp add: a t_def)
  have k: "weight_of s' u = weight_of s u" if "u \<noteq> top_heap (queue s)" for u using that by (simp add: weight_of_def P t_def)
  note o = hq.ok_adjust [OF tips_okD(1) [OF T] ne tips_okD(2) [OF T] k] hq.elems_adjust [OF tips_okD(1) [OF T] ne tips_okD(2) [OF T] k]
  show m: "mset (data (queue (flatten_advance wt s))) = mset (data (queue s))" using o(2) by (simp add: a)
  have st: "set (data (queue (flatten_advance wt s))) = set (data (queue s))" using m by (rule mset_eq_setD)
  have w: "weight_of (flatten_advance wt s) = weight_of s'" by (simp add: a weight_of_def [abs_def])
  have "u < n \<and> weight_of s' u = wt (tval (pool s' u))" if "u \<in> set (data (queue s))" for u
    using tips_okD(3) [OF T that] by (auto simp: weight_of_def P)
  moreover have "distinct (data (queue (flatten_advance wt s)))" using tips_okD(2) [OF T] m mset_eq_imp_distinct_iff by blast
  ultimately show "tips_ok wt n (flatten_advance wt s)" unfolding tips_ok_def st w using o(1) by (simp add: a)
qed

lemma flatten_advance_last:
  assumes T: "tips_ok wt n s" and ne: "data (queue s) \<noteq> []" and g: "tgen (pool s (top_heap (queue s))) = []"
  shows "tips_ok wt n (flatten_advance wt s)"
    "mset (data (queue s)) = add_mset (top_heap (queue s)) (mset (data (queue (flatten_advance wt s))))"
    "pool (flatten_advance wt s) = (pool s)(top_heap (queue s) := (pool s (top_heap (queue s)))\<lparr>tbase := False\<rparr>)"
proof -
  define t where "t = top_heap (queue s)"
  define s1 where "s1 = s\<lparr>pool := (pool s)(t := (pool s t)\<lparr>tbase := False\<rparr>)\<rparr>"
  have a: "flatten_advance wt s = s1\<lparr>queue := pop 4 (weight_of s1) (queue s)\<rparr>"
    using g by (simp add: flatten_advance_def Let_def unbase s1_def t_def)
  show "pool (flatten_advance wt s) = (pool s)(top_heap (queue s) := (pool s (top_heap (queue s)))\<lparr>tbase := False\<rparr>)"
    by (simp add: a s1_def t_def)
  have w: "weight_of s1 = weight_of s" "weight_of (flatten_advance wt s) = weight_of s"
    by (rule ext, simp add: weight_of_def s1_def a)+
  have o: "(0::nat) < 4 \<and> heap_order 4 (weight_of s) (data (queue s))" by (rule tips_okD(1) [OF T])
  show m: "mset (data (queue s)) = add_mset (top_heap (queue s)) (mset (data (queue (flatten_advance wt s))))"
    using hq.elems_pop [OF o ne] by (simp add: a w)
  have st: "set (data (queue s)) = insert t (set (data (queue (flatten_advance wt s))))"
    using m t_def by (metis set_mset_add_mset_insert set_mset_mset)
  have "distinct (t # data (queue (flatten_advance wt s)))"
    using tips_okD(2) [OF T] m t_def by (metis mset.simps(2) mset_eq_imp_distinct_iff)
  moreover have "heap_order 4 (weight_of s) (data (queue (flatten_advance wt s)))" using hq.ok_pop [OF o ne] by (simp add: a w)
  moreover have "u < n \<and> weight_of s u = wt (tval (pool (flatten_advance wt s) u))" if "u \<in> set (data (queue (flatten_advance wt s)))" for u
    using tips_okD(3) [OF T, of u] that st by (simp add: a s1_def)
  ultimately show "tips_ok wt n (flatten_advance wt s)" by (simp add: tips_ok_def w)
qed

lemma waiting_take:
  assumes "mset (data (queue s)) = add_mset t M"
  shows "waiting s = tip_values (pool s t) + (\<Sum>u \<in># M. tip_values (pool s u))"
  by (simp add: waiting_def assms)

lemma flatten_advance_values:
  assumes T: "tips_ok wt n s" and ne: "data (queue s) \<noteq> []"
  shows "waiting s = add_mset (flatten_peek s) (waiting (flatten_advance wt s))"
    "gengen (flatten_advance wt s) = gengen s" "constructed (flatten_advance wt s) = constructed s"
proof -
  let ?t = "top_heap (queue s)" and ?s' = "flatten_advance wt s"
  show "gengen ?s' = gengen s" "constructed ?s' = constructed s" by (simp_all add: flatten_advance_def Let_def setTip_def)
  obtain M where M: "mset (data (queue s)) = add_mset ?t M" using hq.elems_pop [OF tips_okD(1) [OF T] ne] by blast
  obtain us where us: "mset us = M" using ex_mset by blast
  then have "distinct (?t # us)" using tips_okD(2) [OF T] M by (metis mset.simps(2) mset_eq_imp_distinct_iff)
  then have nt: "?t \<notin># M" using us by auto
  have c: "(\<Sum>u \<in># M. tip_values (pool ?s' u)) = (\<Sum>u \<in># M. tip_values (pool s u))" if "\<And>u. u \<noteq> ?t \<Longrightarrow> pool ?s' u = pool s u"
    by (intro arg_cong [where f = sum_mset] image_mset_cong) (use nt that in metis)
  show "waiting s = add_mset (flatten_peek s) (waiting ?s')"
  proof (cases "tgen (pool s ?t) = []")
    case True
    note A = flatten_advance_last [OF T ne True]
    have "M = mset (data (queue ?s'))" using A(2) M by simp
    then have "waiting ?s' = (\<Sum>u \<in># M. tip_values (pool s u))" using c A(3) by (simp add: waiting_def)
    then show ?thesis using waiting_take [OF M] True by (simp add: tip_values_def flatten_peek_def)
  next
    case False
    note A = flatten_advance_next [OF T ne False]
    have "waiting ?s' = tip_values (pool ?s' ?t) + (\<Sum>u \<in># M. tip_values (pool s u))"
      using waiting_take [of ?s' ?t M] A(2,3) M c by simp
    moreover have "tip_values (pool ?s' ?t) = mset (tgen (pool s ?t))" using False by (simp add: A(3) tip_values_def) (metis add_mset_add_single hd_Cons_tl mset.simps(2))
    ultimately show ?thesis using waiting_take [OF M] by (simp add: tip_values_def flatten_peek_def)
  qed
qed

text \<open>The tip that gave its value is no base any more.\<close>

lemma flatten_pop_eq:
  "flatten_pop wt s = (if tbase (pool s (top_heap (queue s))) then pushBase wt (flatten_advance wt s) else flatten_advance wt s)"
proof -
  let ?t = "top_heap (queue s)" and ?s' = "flatten_advance wt s"
  have "tbase (pool ?s' ?t) = False" by (simp add: flatten_advance_def Let_def setTip_def)
  then have "(pool ?s' ?t)\<lparr>tbase := False\<rparr> = pool ?s' ?t" by (cases "pool ?s' ?t") simp
  then have "?s'\<lparr>pool := (pool ?s')(?t := (pool ?s' ?t)\<lparr>tbase := False\<rparr>)\<rparr> = ?s'" by (simp add: fun_upd_idem)
  then show ?thesis by (simp add: flatten_pop_def Let_def)
qed

lemma advance_tips:
  assumes T: "tips_ok wt n s" and ne: "data (queue s) \<noteq> []" and u: "u \<noteq> top_heap (queue s)"
  shows "u \<in> set (data (queue (flatten_advance wt s))) \<longleftrightarrow> u \<in> set (data (queue s))" "pool (flatten_advance wt s) u = pool s u"
proof -
  show "pool (flatten_advance wt s) u = pool s u" using u by (simp add: flatten_advance_def Let_def setTip_def)
  show "u \<in> set (data (queue (flatten_advance wt s))) \<longleftrightarrow> u \<in> set (data (queue s))"
  proof (cases "tgen (pool s (top_heap (queue s))) = []")
    case True
    then show ?thesis using flatten_advance_last(2) [OF T ne True] u by (metis insert_iff set_mset_add_mset_insert set_mset_mset)
  next
    case False
    then show ?thesis using mset_eq_setD [OF flatten_advance_next(2) [OF T ne False]] by simp
  qed
qed

lemma advance_tips_sorted:
  assumes T: "tips_ok wt n s" and ne: "data (queue s) \<noteq> []" and S: "tips_sorted wt s"
  shows "tips_sorted wt (flatten_advance wt s)"
  unfolding tips_sorted_def
proof
  fix u assume u: "u \<in> set (data (queue (flatten_advance wt s)))"
  let ?t = "top_heap (queue s)"
  show "sorted (map wt (tval (pool (flatten_advance wt s) u) # tgen (pool (flatten_advance wt s) u)))"
  proof (cases "u = ?t")
    case True
    have d: "distinct (data (queue s))" by (rule tips_okD(2) [OF T])
    have g: "tgen (pool s ?t) \<noteq> []"
    proof
      assume e: "tgen (pool s ?t) = []"
      have "distinct (?t # data (queue (flatten_advance wt s)))"
        using flatten_advance_last(2) [OF T ne e] d by (metis mset.simps(2) mset_eq_imp_distinct_iff)
      then show False using u True by simp
    qed
    have "?t \<in> set (data (queue s))" by (rule hq.top_in [OF tips_okD(1) [OF T] ne])
    then have "sorted (map wt (tgen (pool s ?t)))" using S by (simp add: tips_sorted_def)
    then show ?thesis using g True by (simp add: flatten_advance_next(3) [OF T ne g] flip: list.map(2))
  next
    case False
    then show ?thesis using S u advance_tips [OF T ne False] by (simp add: tips_sorted_def)
  qed
qed

lemma flatten_pop_correct:
  assumes K: "flatten_ok wt s" and a: "flatten_alive s"
  shows "flatten_ok wt (flatten_pop wt s)" "flatten_remaining s = add_mset (flatten_peek s) (flatten_remaining (flatten_pop wt s))"
    "flatten_sorted wt s \<Longrightarrow> flatten_sorted wt (flatten_pop wt s)"
proof -
  let ?t = "top_heap (queue s)" and ?s' = "flatten_advance wt s"
  have T: "tips_ok wt (constructed s) s" using K by (simp add: flatten_ok_def)
  have ne: "data (queue s) \<noteq> []" using a by (simp add: flatten_alive_def)
  note V = flatten_advance_values [OF T ne]
  have T': "tips_ok wt (constructed ?s') ?s'"
    using flatten_advance_last(1) [OF T ne] flatten_advance_next(1) [OF T ne] V(3) by metis
  have R: "flatten_remaining s = add_mset (flatten_peek s) (flatten_remaining ?s')" using V by (simp add: flatten_remaining_def)
  note B = pushBase_correct [OF T']
  have keep: "u \<in> set (data (queue ?s')) \<and> pool ?s' u = pool s u" if "\<not> tbase (pool s ?t)" "u \<in> set (data (queue s))" "tbase (pool s u)" for u
  proof -
    have "u \<noteq> ?t" using that by auto
    then show ?thesis using advance_tips [OF T ne] that(2) by blast
  qed
  show "flatten_remaining s = add_mset (flatten_peek s) (flatten_remaining (flatten_pop wt s))"
    using R B(2) by (simp add: flatten_pop_eq)
  show "flatten_ok wt (flatten_pop wt s)"
  proof (cases "tbase (pool s ?t)")
    case True
    then show ?thesis using B(1) by (simp add: flatten_pop_eq)
  next
    case False
    have "flatten_ok wt ?s'" using T' K V(2) keep [OF False] unfolding flatten_ok_def by metis
    then show ?thesis using False by (simp add: flatten_pop_eq)
  qed
  show "flatten_sorted wt (flatten_pop wt s)" if S: "flatten_sorted wt s"
  proof -
    have S': "tips_sorted wt ?s'" "gens_sorted wt (gengen ?s')"
      using advance_tips_sorted [OF T ne] S V(2) by (simp_all add: flatten_sorted_def)
    show ?thesis
    proof (cases "tbase (pool s ?t)")
      case True
      then show ?thesis using B(3) S' by (simp add: flatten_pop_eq)
    next
      case False
      have "\<exists>u \<in> set (data (queue ?s')). tbase (pool ?s' u) \<and> wt (tval (pool ?s' u)) \<le> wt (hd g)" if "g \<in> set (gengen s)" "g \<noteq> []" for g
      proof -
        obtain u where "u \<in> set (data (queue s))" "tbase (pool s u)" "wt (tval (pool s u)) \<le> wt (hd g)"
          using S \<open>g \<in> set (gengen s)\<close> \<open>g \<noteq> []\<close> unfolding flatten_sorted_def by blast
        then show ?thesis using keep [OF False] by metis
      qed
      then have "flatten_sorted wt ?s'" using S' V(2) by (simp add: flatten_sorted_def)
      then show ?thesis using False by (simp add: flatten_pop_eq)
    qed
  qed
qed

lemma tip_values_least:
  assumes "sorted (map wt (tval p # tgen p))" and "x \<in># tip_values p"
  shows "wt (tval p) \<le> wt x"
  using assms by (auto simp: tip_values_def)

lemma flatten_peek_least:
  assumes K: "flatten_ok wt s" and S: "flatten_sorted wt s" and x: "x \<in># flatten_remaining s"
  shows "wt (flatten_peek s) \<le> wt x"
proof -
  have T: "tips_ok wt (constructed s) s" using K by (simp add: flatten_ok_def)
  have le: "wt (flatten_peek s) \<le> wt (tval (pool s u))" if "u \<in> set (data (queue s))" for u
  proof -
    have "data (queue s) \<noteq> []" using that by auto
    then have "top_heap (queue s) \<in> set (data (queue s))" by (rule hq.top_in [OF tips_okD(1) [OF T]])
    then show ?thesis
      using hq.top_least [OF tips_okD(1) [OF T] that] tips_okD(3) [OF T] that by (simp add: flatten_peek_def)
  qed
  consider u where "u \<in> set (data (queue s))" "x \<in># tip_values (pool s u)" | g where "g \<in> set (gengen s)" "x \<in> set g"
    using x by (auto simp: flatten_remaining_def waiting_def)
  then show ?thesis
  proof cases
    case (1 u)
    have "wt (tval (pool s u)) \<le> wt x" using S 1 tip_values_least by (metis flatten_sorted_def tips_sorted_def)
    then show ?thesis using le [OF 1(1)] by simp
  next
    case (2 g)
    then have "g \<noteq> []" by auto
    then obtain u where u: "u \<in> set (data (queue s))" "wt (tval (pool s u)) \<le> wt (hd g)"
      using S 2(1) unfolding flatten_sorted_def by blast
    have "sorted (map wt g)" using S 2(1) by (simp add: flatten_sorted_def gens_sorted_def)
    then have "wt (hd g) \<le> wt x" using 2(2) by (cases g) auto
    then show ?thesis using le [OF u(1)] u(2) by (meson order_trans)
  qed
qed

lemma flatten_alive_iff:
  assumes "flatten_ok wt s"
  shows "flatten_alive s \<longleftrightarrow> flatten_remaining s \<noteq> {#}"
proof (cases "data (queue s) = []")
  case True
  then have "\<forall>g \<in> set (gengen s). g = []" using assms by (auto simp: flatten_ok_def)
  then show ?thesis using True by (simp add: flatten_alive_def flatten_remaining_def waiting_def)
next
  case False
  then show ?thesis by (cases "data (queue s)") (simp_all add: flatten_alive_def flatten_remaining_def waiting_def tip_values_def)
qed

section \<open>The contract\<close>

interpretation flat: generator "flatten_ok wt" flatten_alive flatten_peek "flatten_pop wt" flatten_remaining for wt
  by unfold_locales (simp_all add: flatten_alive_iff flatten_pop_correct)

interpretation flat_sorted: sorted_generator "\<lambda>s. flatten_ok wt s \<and> flatten_sorted wt s" flatten_alive flatten_peek
  "flatten_pop wt" flatten_remaining wt for wt
  by unfold_locales (auto simp: flatten_alive_iff flatten_peek_least flatten_pop_correct)

lemma flatten_make_ok:
  "flatten_ok wt (flatten_make wt gs p)" "flatten_remaining (flatten_make wt gs p) = mset (concat gs)"
  "gens_sorted wt gs \<Longrightarrow> flatten_sorted wt (flatten_make wt gs p)"
proof -
  let ?s = "\<lparr>gengen = gs, pool = p, constructed = 0, queue = heap_init\<rparr>"
  have "tips_ok wt (constructed ?s) ?s" by (simp add: tips_ok_def heap_init_def heap_from_def)
  note B = pushBase_correct [OF this]
  show "flatten_ok wt (flatten_make wt gs p)" "flatten_remaining (flatten_make wt gs p) = mset (concat gs)"
    using B(1,2) by (simp_all add: flatten_make_def flatten_remaining_def waiting_def heap_init_def)
  show "gens_sorted wt gs \<Longrightarrow> flatten_sorted wt (flatten_make wt gs p)"
    using B(3) by (simp add: flatten_make_def tips_sorted_def heap_init_def)
qed

section \<open>The properties\<close>

lemma flatten_all:
  "\<exists>xs s'. appendGenerate flatten_alive flatten_peek (flatten_pop wt) (flatten_make wt gs p) vec = Some (vec @ xs, length xs, s') \<and>
    mset xs = mset (concat gs)"
  using flat.append_all [OF flatten_make_ok(1), of wt gs p vec] flatten_make_ok(2) by metis

text \<open>
  Property C14 (the merge loses nothing). Whatever the generators and their order, reading a flattened generator to its
  end ends, and gives every value of every generator exactly once.
\<close>

theorem flatten_complete:
  "\<exists>xs s'. appendGenerate flatten_alive flatten_peek (flatten_pop wt) (flatten_make wt gs p) vec = Some (vec @ xs, length xs, s') \<and>
    mset xs = mset (concat gs)"
  by (rule flatten_all)

text \<open>
  Property C13 (the merge is best first). If each generator gives its values in the order of their weights, and the
  generators come in the order of the weights of their first values (empty ones anywhere), then the first \<open>mx\<close> values read are,
  in order, the \<open>min mx n\<close> best of the \<open>n\<close> values of all generators: with the values left they make up all values, and none of
  those left is better.
\<close>

theorem flatten_best_first:
  assumes "gens_sorted wt gs" and "appendGenerate_max flatten_alive flatten_peek (flatten_pop wt) (flatten_make wt gs p) [] mx = (xs, n, s')"
  shows "n = length xs \<and> length xs = min mx (length (concat gs)) \<and> mset (concat gs) = mset xs + flatten_remaining s' \<and>
    sorted (map wt xs) \<and> (\<forall>x \<in> set xs. \<forall>y \<in># flatten_remaining s'. wt x \<le> wt y)"
proof -
  let ?s = "flatten_make wt gs p"
  have K: "flatten_ok wt ?s \<and> flatten_sorted wt ?s" using flatten_make_ok assms(1) by blast
  obtain ys where "xs = [] @ ys" "n = length ys" "length ys = min mx (size (flatten_remaining ?s))"
    "flatten_remaining ?s = mset ys + flatten_remaining s'"
    using flat.append_max [OF conjunct1 [OF K] assms(2)] by blast
  then have "n = length xs \<and> length xs = min mx (length (concat gs)) \<and> mset (concat gs) = mset xs + flatten_remaining s'"
    by (simp only: flatten_make_ok(2) size_mset append_Nil simp_thms)
  moreover have "\<forall>x \<in> set xs. \<forall>y \<in># flatten_remaining s'. wt x \<le> wt y"
    using flat_sorted.append_max_least [OF K assms(2)] by blast
  ultimately show ?thesis using flat_sorted.append_max_sorted [OF K assms(2)] by blast
qed

theorem flatten_best_first_witness:
  "let p = (\<lambda>_. \<lparr>tbase = False, tgen = [], tval = 0, tweight = 0\<rparr>)
    in \<exists>xs n s'. appendGenerate_max flatten_alive flatten_peek (flatten_pop id) (flatten_make id [[1, 5], [], [2, 3::nat]] p) [] 2 = (xs, n, s') \<and> length xs = 2"
proof -
  define p :: "nat \<Rightarrow> (nat, nat) tip" where "p = (\<lambda>_. \<lparr>tbase = False, tgen = [], tval = 0, tweight = 0\<rparr>)"
  obtain xs n s' where x: "appendGenerate_max flatten_alive flatten_peek (flatten_pop id) (flatten_make id [[1, 5], [], [2, 3::nat]] p) [] 2 = (xs, n, s')"
    by (metis prod_cases3)
  have "gens_sorted id [[1, 5], [], [2, 3::nat]]" by (simp add: gens_sorted_def)
  from flatten_best_first [OF this x] x show ?thesis unfolding Let_def p_def by auto
qed

end
