(* ===== verification/Fst_Compose.thy ===== *)
theory Fst_Compose
  imports Label_Pairs Flatten_Generators
begin

text \<open>
  Lazy composition of two finite-state transducers (\<open>sdl/Hypergraph/fs/Compose.hpp\<close>): the arcs of a
  composed state are made on demand from those of the input transducer and the matching ones of the
  other. A filter in the state orders the epsilons of both sides.

  The lemmas show which arcs a composed state has, as the header of the source describes them, and that
  reading the generator gives exactly these.
\<close>

section \<open>Arcs, filters and states\<close>

record ('s, 'w) fst_arc =
  fdst :: 's
  flabel :: LabelPair
  fweight :: 'w
  fannotations :: "Sym list"

text \<open>The filters are template arguments; the state of \<open>NoEpsilonFilter\<close> is empty (here always 0).\<close>

datatype epsilon_filter = NoEpsilonFilter | Epsilon1First | EpsilonCombine

fun allowInputEpsilon :: "epsilon_filter \<Rightarrow> nat \<Rightarrow> bool" where
  "allowInputEpsilon NoEpsilonFilter s = True"
| "allowInputEpsilon Epsilon1First s = True"
| "allowInputEpsilon EpsilonCombine s = (s \<noteq> 1)"

fun allowMatchEpsilon :: "epsilon_filter \<Rightarrow> nat \<Rightarrow> bool" where
  "allowMatchEpsilon NoEpsilonFilter s = True"
| "allowMatchEpsilon Epsilon1First s = (s = 0)"
| "allowMatchEpsilon EpsilonCombine s = (s \<noteq> 2)"

fun allowInputMatchEpsilon :: "epsilon_filter \<Rightarrow> nat \<Rightarrow> bool" where
  "allowInputMatchEpsilon NoEpsilonFilter s = False"
| "allowInputMatchEpsilon Epsilon1First s = False"
| "allowInputMatchEpsilon EpsilonCombine s = (s = 0)"

fun after_normal :: "epsilon_filter \<Rightarrow> nat \<Rightarrow> nat" where
  "after_normal NoEpsilonFilter s = s"
| "after_normal _ s = 0"

fun after_inputEpsilon :: "epsilon_filter \<Rightarrow> nat \<Rightarrow> nat" where
  "after_inputEpsilon NoEpsilonFilter s = s"
| "after_inputEpsilon Epsilon1First s = 1"
| "after_inputEpsilon EpsilonCombine s = 2"

fun after_matchEpsilon :: "epsilon_filter \<Rightarrow> nat \<Rightarrow> nat" where
  "after_matchEpsilon NoEpsilonFilter s = s"
| "after_matchEpsilon Epsilon1First s = s"
| "after_matchEpsilon EpsilonCombine s = 1"

definition after_inputMatchEpsilon :: "epsilon_filter \<Rightarrow> nat \<Rightarrow> nat" where
  "after_inputMatchEpsilon k s = s"

record ('p, 'q) compose_state =
  cinput :: 'p
  cfilter :: nat
  cmatch :: 'q

text \<open>
  The two transducers: the out-arcs of an input state, the arcs of a match state with an input label, the
  specials of the match transducer, and the product of the weights (\<open>TimesByMix\<close>).
\<close>

record ('p, 'q, 'w, 'v) compose_fst =
  inputArcs :: "'p \<Rightarrow> ('p, 'w) fst_arc list"
  arcsMatchingInput :: "'q \<Rightarrow> Sym \<Rightarrow> ('q, 'v) fst_arc list"
  whichSpecials :: compose_specials
  epsFilter :: epsilon_filter
  ctimes :: "'w \<Rightarrow> 'v \<Rightarrow> 'w"
  wone :: 'w
  inputStart :: 'p
  matchStart :: 'q
  inputFinal :: "'p \<Rightarrow> bool"
  matchFinal :: "'q \<Rightarrow> bool"

definition isNonconsuming :: "Sym \<Rightarrow> bool" where
  "isNonconsuming m \<longleftrightarrow> m = EPSILON_ID \<or> m = PHI_ID"

definition isWildcard :: "Sym \<Rightarrow> bool" where
  "isWildcard m \<longleftrightarrow> m = EPSILON_ID \<or> m = SIGMA_ID"

definition isFallback :: "Sym \<Rightarrow> bool" where
  "isFallback m \<longleftrightarrow> m = PHI_ID \<or> m = RHO_ID"

definition compose_start :: "('p, 'q, 'w, 'v) compose_fst \<Rightarrow> ('p, 'q) compose_state" where
  "compose_start c = \<lparr>cinput = inputStart c, cfilter = 0, cmatch = matchStart c\<rparr>"

definition compose_final :: "('p, 'q, 'w, 'v) compose_fst \<Rightarrow> ('p, 'q) compose_state \<Rightarrow> bool" where
  "compose_final c s \<longleftrightarrow> inputFinal c (cinput s) \<and> matchFinal c (cmatch s)"

section \<open>The generator for one input arc\<close>

record ('p, 'q, 'w, 'v) arcs_gen =
  afilter :: nat
  matchedArcs :: "('q, 'v) fst_arc list"
  inArc :: "('p, 'w) fst_arc"
  matchSrc :: 'q
  hasMore :: bool
  midSigma :: bool

text \<open>The inner generators start with the arc of an input state that stays where it is.\<close>

definition arcs_gen_new :: "('p, 'q, 'w, 'v) compose_fst \<Rightarrow> ('p, 'q) compose_state \<Rightarrow> ('p, 'q, 'w, 'v) arcs_gen" where
  "arcs_gen_new c src =
     \<lparr>afilter = cfilter src, matchedArcs = [],
      inArc = \<lparr>fdst = cinput src, flabel = (NoSymbol, NoSymbol), fweight = wone c, fannotations = []\<rparr>,
      matchSrc = cmatch src, hasMore = True, midSigma = False\<rparr>"

definition initSigma :: "('p, 'q, 'w, 'v) compose_fst \<Rightarrow> ('p, 'q, 'w, 'v) arcs_gen \<Rightarrow> bool \<times> ('p, 'q, 'w, 'v) arcs_gen" where
  "initSigma c g =
     (if specials_test (whichSpecials c) SIGMA_ID
      then (let m = arcsMatchingInput c (matchSrc g) SIGMA_ID
            in if m \<noteq> [] then (True, g\<lparr>matchedArcs := m, midSigma := True\<rparr>) else (False, g\<lparr>matchedArcs := m\<rparr>))
      else (False, g))"

definition initRho :: "('p, 'q, 'w, 'v) compose_fst \<Rightarrow> ('p, 'q, 'w, 'v) arcs_gen \<Rightarrow> bool \<times> ('p, 'q, 'w, 'v) arcs_gen" where
  "initRho c g =
     (if specials_test (whichSpecials c) RHO_ID
      then (let m = arcsMatchingInput c (matchSrc g) RHO_ID in (m \<noteq> [], g\<lparr>matchedArcs := m\<rparr>))
      else (False, g))"

text \<open>\<open>ArcsGen::operator()\<close>: the next arc and the generator after it.\<close>

definition composed_arc :: "('p, 'q, 'w, 'v) arcs_gen \<Rightarrow> nat \<Rightarrow> 'q \<Rightarrow> Sym \<Rightarrow> 'w \<Rightarrow> (('p, 'q) compose_state, 'w) fst_arc" where
  "composed_arc g f q o' w =
     \<lparr>fdst = \<lparr>cinput = fdst (inArc g), cfilter = f, cmatch = q\<rparr>, flabel = (fst (flabel (inArc g)), o'), fweight = w,
      fannotations = fannotations (inArc g)\<rparr>"

definition arcs_gen_next ::
  "('p, 'q, 'w, 'v) compose_fst \<Rightarrow> ('p, 'q, 'w, 'v) arcs_gen \<Rightarrow>
     (('p, 'q) compose_state, 'w) fst_arc \<times> ('p, 'q, 'w, 'v) arcs_gen" where
  "arcs_gen_next c g =
     (let inOut = snd (flabel (inArc g)); m = hd (matchedArcs g); m1 = fst (flabel m); m2 = snd (flabel m);
          f = afilter g; both = ctimes c (fweight (inArc g)) (fweight m); g1 = g\<lparr>matchedArcs := tl (matchedArcs g)\<rparr>
      in if inOut = EPSILON_ID
         then if matchedArcs g \<noteq> [] then (composed_arc g f (fdst m) m2 both, g1)
              else (composed_arc g (after_inputEpsilon (epsFilter c) f) (matchSrc g) EPSILON_ID (fweight (inArc g)),
                    g\<lparr>hasMore := False\<rparr>)
         else if midSigma g
         then (composed_arc g f (fdst m) (if m2 = SIGMA_ID then inOut else m2) both,
               g1\<lparr>hasMore := matchedArcs g1 \<noteq> []\<rparr>)
         else if m1 = EPSILON_ID \<or> m1 = PHI_ID
         then (composed_arc g f (fdst m) (if m2 = PHI_ID then EPSILON_ID else m2) (ctimes c (wone c) (fweight m)),
               if matchedArcs g1 = [] then g1\<lparr>hasMore := False\<rparr> else g1)
         else (composed_arc g f (fdst m) (if m1 = m2 then inOut else m2) both,
               if matchedArcs g1 = [] then (let (more, g2) = initSigma c g1 in g2\<lparr>hasMore := more\<rparr>) else g1))"

text \<open>All the arcs a generator gives.\<close>

function arcs_gen_list ::
  "('p, 'q, 'w, 'v) compose_fst \<Rightarrow> ('p, 'q, 'w, 'v) arcs_gen \<Rightarrow> (('p, 'q) compose_state, 'w) fst_arc list" where
  "arcs_gen_list c g =
     (if hasMore g then (let (a, g') = arcs_gen_next c g in a # arcs_gen_list c g') else [])"
  by pat_completeness auto

definition arcs_gen_rank :: "('p, 'q, 'w, 'v) arcs_gen \<Rightarrow> nat \<times> nat \<times> nat" where
  "arcs_gen_rank g = (if hasMore g then 1 else 0, if midSigma g then 0 else 1, length (matchedArcs g))"

lemma arcs_gen_next_rank:
  assumes "hasMore g"
  shows "(arcs_gen_rank (snd (arcs_gen_next c g)), arcs_gen_rank g) \<in> less_than <*lex*> less_than <*lex*> less_than"
  using assms
  by (cases "matchedArcs g") (auto simp: arcs_gen_next_def arcs_gen_rank_def initSigma_def Let_def split: prod.split)

termination arcs_gen_list
  by (relation "inv_image (less_than <*lex*> less_than <*lex*> less_than) (\<lambda>(c, g). arcs_gen_rank g)")
    (auto dest: arcs_gen_next_rank simp: wf_lex_prod, metis arcs_gen_next_rank snd_conv)

declare arcs_gen_list.simps [simp del]

section \<open>The generator of generators\<close>

datatype concat_state = matchEpsilonState | matchRegular | matchDone

record ('p, 'q, 'w, 'v) arcs_gen_gen =
  gsrc :: "('p, 'q) compose_state"
  inArcs :: "('p, 'w) fst_arc list"
  concatState :: concat_state
  anyStandardMatch :: bool
  gepsilon :: "('q, 'v) fst_arc list"

definition gen_gen_new :: "('p, 'q, 'w, 'v) compose_fst \<Rightarrow> ('p, 'q) compose_state \<Rightarrow> ('p, 'q, 'w, 'v) arcs_gen_gen" where
  "gen_gen_new c src =
     \<lparr>gsrc = src, inArcs = inputArcs c (cinput src), concatState = matchEpsilonState, anyStandardMatch = False,
      gepsilon = (if specials_test (whichSpecials c) EPSILON_ID \<and> allowMatchEpsilon (epsFilter c) (cfilter src)
                  then arcsMatchingInput c (cmatch src) EPSILON_ID else [])\<rparr>"

text \<open>The loop over the input arcs: the first of them that gives a generator, if there is one.\<close>

fun next_input :: "('p, 'q, 'w, 'v) compose_fst \<Rightarrow> ('p, 'q, 'w, 'v) arcs_gen_gen \<Rightarrow> ('p, 'w) fst_arc list \<Rightarrow>
    ('p, 'q, 'w, 'v) arcs_gen \<Rightarrow> ('p, 'q, 'w, 'v) arcs_gen option \<times> ('p, 'q, 'w, 'v) arcs_gen_gen \<times> ('p, 'q, 'w, 'v) arcs_gen" where
  "next_input c gg [] r = (None, gg\<lparr>inArcs := []\<rparr>, r)"
| "next_input c gg (a # as) r =
     (let r1 = r\<lparr>inArc := a\<rparr>; matchSym = snd (flabel a); gg1 = gg\<lparr>inArcs := as\<rparr>; k = epsFilter c; f = afilter r
      in if \<not> isValid matchSym then next_input c gg1 as r1
         else if matchSym = EPSILON_ID
         then (let m = arcsMatchingInput c (cmatch (gsrc gg)) matchSym
               in if allowInputMatchEpsilon k f \<and> m \<noteq> []
                  then (Some (r1\<lparr>matchedArcs := m, afilter := after_inputMatchEpsilon k f\<rparr>), gg1, r1)
                  else (let r2 = (if allowInputMatchEpsilon k f then r1\<lparr>matchedArcs := m\<rparr> else r1)
                        in if allowInputEpsilon k f then (Some (r2\<lparr>afilter := after_inputEpsilon k f\<rparr>), gg1, r2)
                           else next_input c gg1 as r2))
         else (let m = arcsMatchingInput c (cmatch (gsrc gg)) matchSym; r2 = r1\<lparr>matchedArcs := m\<rparr>
               in if m \<noteq> [] then (Some (r2\<lparr>afilter := after_normal k f\<rparr>), gg1\<lparr>anyStandardMatch := True\<rparr>, r2)
                  else (let (rho, r3) = initRho c r2
                        in if rho then (Some (r3\<lparr>afilter := after_normal k f\<rparr>), gg1, r3)
                           else (let (sigma, r4) = initSigma c r3
                                 in if sigma then (Some (r4\<lparr>afilter := after_normal k f\<rparr>), gg1, r4)
                                    else next_input c gg1 as r4))))"

text \<open>\<open>ArcsGenGen::operator()\<close>; the last generator may be empty.\<close>

definition nonconsuming_gen ::
  "('p, 'q, 'w, 'v) compose_fst \<Rightarrow> ('p, 'q) compose_state \<Rightarrow> ('q, 'v) fst_arc list \<Rightarrow> ('p, 'q, 'w, 'v) arcs_gen \<Rightarrow>
     ('p, 'q, 'w, 'v) arcs_gen" where
  "nonconsuming_gen c src m r =
     r\<lparr>matchedArcs := m, afilter := after_matchEpsilon (epsFilter c) (afilter r),
       inArc := (inArc r)\<lparr>fdst := cinput src, flabel := (EPSILON_ID, NoSymbol)\<rparr>\<rparr>"

definition gen_gen_next :: "('p, 'q, 'w, 'v) compose_fst \<Rightarrow> ('p, 'q, 'w, 'v) arcs_gen_gen \<Rightarrow>
    ('p, 'q, 'w, 'v) arcs_gen \<times> ('p, 'q, 'w, 'v) arcs_gen_gen" where
  "gen_gen_next c gg =
     (let r = arcs_gen_new c (gsrc gg); gg1 = gg\<lparr>concatState := matchRegular\<rparr>
      in if concatState gg = matchEpsilonState \<and> gepsilon gg \<noteq> []
         then (nonconsuming_gen c (gsrc gg) (gepsilon gg) r, gg1)
         else case next_input c gg1 (inArcs gg) r of
                (Some r', gg2, _) \<Rightarrow> (r', gg2)
              | (None, gg2, r') \<Rightarrow>
                  (let gg3 = gg2\<lparr>concatState := matchDone\<rparr>;
                       phi = arcsMatchingInput c (cmatch (gsrc gg)) PHI_ID
                   in if \<not> anyStandardMatch gg2 \<and> allowMatchEpsilon (epsFilter c) (afilter r') \<and>
                         specials_test (whichSpecials c) PHI_ID \<and> phi \<noteq> []
                      then (nonconsuming_gen c (gsrc gg) phi r', gg3)
                      else (r'\<lparr>hasMore := False\<rparr>, gg3)))"

lemma next_input_shorter:
  "next_input c gg as r = (Some r', gg', r'') \<Longrightarrow>
     length (inArcs gg') < length as \<and> concatState gg' = concatState gg \<and> gsrc gg' = gsrc gg \<and> gepsilon gg' = gepsilon gg"
proof (induction c gg as r rule: next_input.induct)
  case (2 c gg a as r)
  then show ?case
    by (auto simp: Let_def split: if_splits prod.splits intro: less_SucI)
qed simp

text \<open>All the generators.\<close>

function gen_gen_list :: "('p, 'q, 'w, 'v) compose_fst \<Rightarrow> ('p, 'q, 'w, 'v) arcs_gen_gen \<Rightarrow> ('p, 'q, 'w, 'v) arcs_gen list" where
  "gen_gen_list c gg =
     (if concatState gg = matchDone then [] else (let (g, gg') = gen_gen_next c gg in g # gen_gen_list c gg'))"
  by pat_completeness auto

definition gen_gen_rank :: "('p, 'q, 'w, 'v) arcs_gen_gen \<Rightarrow> nat \<times> nat" where
  "gen_gen_rank gg = (case concatState gg of matchEpsilonState \<Rightarrow> 2 | matchRegular \<Rightarrow> 1 | matchDone \<Rightarrow> 0, length (inArcs gg))"

lemma gen_gen_next_rank:
  assumes "concatState gg \<noteq> matchDone"
  shows "(gen_gen_rank (snd (gen_gen_next c gg)), gen_gen_rank gg) \<in> less_than <*lex*> less_than"
  using assms
  by (cases "concatState gg")
    (auto simp: gen_gen_next_def gen_gen_rank_def Let_def split: prod.split option.split dest: next_input_shorter)

termination gen_gen_list
  by (relation "inv_image (less_than <*lex*> less_than) (\<lambda>(c, g). gen_gen_rank g)")
    (auto simp: wf_lex_prod, metis gen_gen_next_rank snd_conv)

declare gen_gen_list.simps [simp del]

text \<open>\<open>ComposeFst::outArcs\<close>: the generators, merged best first by the distance of the weight.\<close>

definition compose_outArcs ::
  "('w \<Rightarrow> 'd::linorder) \<Rightarrow> ('p, 'q, 'w, 'v) compose_fst \<Rightarrow> ('p, 'q) compose_state \<Rightarrow>
     (nat \<Rightarrow> ((('p, 'q) compose_state, 'w) fst_arc, 'd) tip) \<Rightarrow> ((('p, 'q) compose_state, 'w) fst_arc, 'd) flatten" where
  "compose_outArcs distance c src tips =
     flatten_make (\<lambda>a. distance (fweight a)) (map (arcs_gen_list c) (gen_gen_list c (gen_gen_new c src))) tips"

text \<open>The arcs of the generators, in the order in which they are made.\<close>

definition generated_arcs :: "('p, 'q, 'w, 'v) compose_fst \<Rightarrow> ('p, 'q) compose_state \<Rightarrow> (('p, 'q) compose_state, 'w) fst_arc list" where
  "generated_arcs c src = concat (map (arcs_gen_list c) (gen_gen_list c (gen_gen_new c src)))"

section \<open>The arcs of a composed state\<close>

text \<open>
  The arcs of \<open>(q1, filter, q2)\<close>, after the comment at the head of the source, in two points corrected to what the code does: the
  comment gives a match arc alone the output \<open>o2\<close>, where the code writes an epsilon for an output phi, and it gives a phi
  arc no input arc, where the code leaves it the annotations of the last input arc that was read (\<open>phi_annotations\<close>).
  \<open>match_only_arc\<close> for an epsilon or
  phi arc of the match transducer alone, \<open>input_only_arc\<close> for an input arc with output epsilon alone,
  \<open>both_arc\<close> for an arc of each, where \<open>copied\<close> is a special label whose output is the input symbol.
\<close>

definition match_only_arc :: "('p, 'q, 'w, 'v) compose_fst \<Rightarrow> ('p, 'q) compose_state \<Rightarrow> Sym list \<Rightarrow> ('q, 'v) fst_arc \<Rightarrow>
    (('p, 'q) compose_state, 'w) fst_arc" where
  "match_only_arc c src ann m =
     \<lparr>fdst = \<lparr>cinput = cinput src, cfilter = after_matchEpsilon (epsFilter c) (cfilter src), cmatch = fdst m\<rparr>,
      flabel = (EPSILON_ID, if snd (flabel m) = PHI_ID then EPSILON_ID else snd (flabel m)),
      fweight = ctimes c (wone c) (fweight m), fannotations = ann\<rparr>"

definition input_only_arc :: "('p, 'q, 'w, 'v) compose_fst \<Rightarrow> ('p, 'q) compose_state \<Rightarrow> ('p, 'w) fst_arc \<Rightarrow>
    (('p, 'q) compose_state, 'w) fst_arc" where
  "input_only_arc c src a =
     \<lparr>fdst = \<lparr>cinput = fdst a, cfilter = after_inputEpsilon (epsFilter c) (cfilter src), cmatch = cmatch src\<rparr>,
      flabel = (fst (flabel a), EPSILON_ID), fweight = fweight a, fannotations = fannotations a\<rparr>"

definition both_arc :: "('p, 'q, 'w, 'v) compose_fst \<Rightarrow> nat \<Rightarrow> ('p, 'w) fst_arc \<Rightarrow> Sym \<Rightarrow> ('q, 'v) fst_arc \<Rightarrow>
    (('p, 'q) compose_state, 'w) fst_arc" where
  "both_arc c f a copied m =
     \<lparr>fdst = \<lparr>cinput = fdst a, cfilter = f, cmatch = fdst m\<rparr>,
      flabel = (fst (flabel a), if snd (flabel m) = copied then snd (flabel a) else snd (flabel m)),
      fweight = ctimes c (fweight a) (fweight m), fannotations = fannotations a\<rparr>"

definition special_arcs :: "('p, 'q, 'w, 'v) compose_fst \<Rightarrow> 'q \<Rightarrow> Sym \<Rightarrow> ('q, 'v) fst_arc list" where
  "special_arcs c q x = (if specials_test (whichSpecials c) x then arcsMatchingInput c q x else [])"

definition standard_match :: "('p, 'q, 'w, 'v) compose_fst \<Rightarrow> ('p, 'q) compose_state \<Rightarrow> ('p, 'w) fst_arc \<Rightarrow> bool" where
  "standard_match c src a \<longleftrightarrow> isValid (snd (flabel a)) \<and> snd (flabel a) \<noteq> EPSILON_ID \<and>
     arcsMatchingInput c (cmatch src) (snd (flabel a)) \<noteq> []"

definition input_arc_arcs :: "('p, 'q, 'w, 'v) compose_fst \<Rightarrow> ('p, 'q) compose_state \<Rightarrow> ('p, 'w) fst_arc \<Rightarrow>
    (('p, 'q) compose_state, 'w) fst_arc list" where
  "input_arc_arcs c src a =
     (let o' = snd (flabel a); k = epsFilter c; f = cfilter src; q = cmatch src; m = arcsMatchingInput c q o'; n = after_normal k f
      in if \<not> isValid o' then []
         else if o' = EPSILON_ID
         then if allowInputMatchEpsilon k f \<and> m \<noteq> []
              then map (both_arc c (after_inputMatchEpsilon k f) a EPSILON_ID) m @ [input_only_arc c src a]
              else if allowInputEpsilon k f then [input_only_arc c src a] else []
         else (if m \<noteq> [] then map (both_arc c n a o') m else map (both_arc c n a RHO_ID) (special_arcs c q RHO_ID)) @
              map (both_arc c n a SIGMA_ID) (special_arcs c q SIGMA_ID))"

text \<open>
  The phi arcs get the annotations of the last input arc when that arc gives nothing. This is not in the comment of the source,
  which pairs a phi arc with no input arc: the loop over the input arcs leaves the last one behind, and its annotations leak.
\<close>

definition phi_annotations :: "('p, 'q, 'w, 'v) compose_fst \<Rightarrow> ('p, 'q) compose_state \<Rightarrow> ('p, 'w) fst_arc list \<Rightarrow> Sym list" where
  "phi_annotations c src as = (if as \<noteq> [] \<and> input_arc_arcs c src (last as) = [] then fannotations (last as) else [])"

definition composed_arcs :: "('p, 'q, 'w, 'v) compose_fst \<Rightarrow> ('p, 'q) compose_state \<Rightarrow> (('p, 'q) compose_state, 'w) fst_arc list" where
  "composed_arcs c src =
     (let as = inputArcs c (cinput src); q = cmatch src; allow = allowMatchEpsilon (epsFilter c) (cfilter src)
      in (if allow then map (match_only_arc c src []) (special_arcs c q EPSILON_ID) else []) @
         concat (map (input_arc_arcs c src) as) @
         (if allow \<and> (\<forall>a \<in> set as. \<not> standard_match c src a)
          then map (match_only_arc c src (phi_annotations c src as)) (special_arcs c q PHI_ID) else []))"

section \<open>What one generator gives\<close>

text \<open>The arcs that a match transducer finds have the label asked for; no input arc outputs phi.\<close>

definition compose_fst_ok :: "('p, 'q, 'w, 'v) compose_fst \<Rightarrow> bool" where
  "compose_fst_ok c \<longleftrightarrow> (\<forall>q x. \<forall>m \<in> set (arcsMatchingInput c q x). fst (flabel m) = x) \<and>
     (\<forall>p. \<forall>a \<in> set (inputArcs c p). snd (flabel a) \<noteq> PHI_ID)"

lemma arcs_gen_done: "\<not> hasMore g \<Longrightarrow> arcs_gen_list c g = []"
  by (simp add: arcs_gen_list.simps)

lemma arcs_gen_step:
  "hasMore g \<Longrightarrow> arcs_gen_list c g = fst (arcs_gen_next c g) # arcs_gen_list c (snd (arcs_gen_next c g))"
  by (simp add: arcs_gen_list.simps [of c g] split: prod.split)

lemma NoSymbol_EPSILON [simp]: "NoSymbol \<noteq> EPSILON_ID" "EPSILON_ID \<noteq> NoSymbol"
  by simp_all

lemma gen_sigma:
  assumes "hasMore g" and "midSigma g" and "snd (flabel (inArc g)) \<noteq> EPSILON_ID" and "matchedArcs g \<noteq> []"
  shows "arcs_gen_list c g = map (\<lambda>m. composed_arc g (afilter g) (fdst m)
    (if snd (flabel m) = SIGMA_ID then snd (flabel (inArc g)) else snd (flabel m)) (ctimes c (fweight (inArc g)) (fweight m))) (matchedArcs g)"
  using assms
proof (induction "matchedArcs g" arbitrary: g)
  case (Cons m ms)
  let ?g' = "g\<lparr>matchedArcs := ms, hasMore := ms \<noteq> []\<rparr>"
  have n: "arcs_gen_next c g = (composed_arc g (afilter g) (fdst m)
    (if snd (flabel m) = SIGMA_ID then snd (flabel (inArc g)) else snd (flabel m)) (ctimes c (fweight (inArc g)) (fweight m)), ?g')"
    using Cons(2) [symmetric] Cons(4,5) by (simp add: arcs_gen_next_def Let_def)
  show ?case
  proof (cases "ms = []")
    case True
    then show ?thesis using n Cons(2) [symmetric] Cons(3) by (simp add: arcs_gen_step arcs_gen_done)
  next
    case False
    have "arcs_gen_list c ?g' = map (\<lambda>m. composed_arc ?g' (afilter ?g') (fdst m)
      (if snd (flabel m) = SIGMA_ID then snd (flabel (inArc ?g')) else snd (flabel m)) (ctimes c (fweight (inArc ?g')) (fweight m))) (matchedArcs ?g')"
      using Cons(1) [of ?g'] Cons(4,5) False by simp
    then show ?thesis using n Cons(2) [symmetric] Cons(3) by (simp add: arcs_gen_step composed_arc_def)
  qed
qed simp

lemma gen_epsilon:
  assumes "hasMore g" and "snd (flabel (inArc g)) = EPSILON_ID"
  shows "arcs_gen_list c g = map (\<lambda>m. composed_arc g (afilter g) (fdst m) (snd (flabel m)) (ctimes c (fweight (inArc g)) (fweight m))) (matchedArcs g) @
    [composed_arc g (after_inputEpsilon (epsFilter c) (afilter g)) (matchSrc g) EPSILON_ID (fweight (inArc g))]"
  using assms
proof (induction "matchedArcs g" arbitrary: g)
  case Nil
  then have "arcs_gen_next c g =
    (composed_arc g (after_inputEpsilon (epsFilter c) (afilter g)) (matchSrc g) EPSILON_ID (fweight (inArc g)), g\<lparr>hasMore := False\<rparr>)"
    by (simp add: arcs_gen_next_def Let_def)
  then show ?case using Nil by (simp add: arcs_gen_step arcs_gen_done)
next
  case (Cons m ms)
  let ?g' = "g\<lparr>matchedArcs := ms\<rparr>"
  have n: "arcs_gen_next c g = (composed_arc g (afilter g) (fdst m) (snd (flabel m)) (ctimes c (fweight (inArc g)) (fweight m)), ?g')"
    using Cons(2) [symmetric] Cons(4) by (simp add: arcs_gen_next_def Let_def)
  then show ?case using Cons(1) [of ?g'] Cons(2) [symmetric] Cons(3,4) by (simp add: arcs_gen_step composed_arc_def)
qed

lemma gen_nonconsuming:
  assumes "hasMore g" and "\<not> midSigma g" and "snd (flabel (inArc g)) = NoSymbol" and "matchedArcs g \<noteq> []"
    and "\<forall>m \<in> set (matchedArcs g). fst (flabel m) = EPSILON_ID \<or> fst (flabel m) = PHI_ID"
  shows "arcs_gen_list c g = map (\<lambda>m. composed_arc g (afilter g) (fdst m)
    (if snd (flabel m) = PHI_ID then EPSILON_ID else snd (flabel m)) (ctimes c (wone c) (fweight m))) (matchedArcs g)"
  using assms
proof (induction "matchedArcs g" arbitrary: g)
  case (Cons m ms)
  let ?g' = "if ms = [] then g\<lparr>matchedArcs := ms, hasMore := False\<rparr> else g\<lparr>matchedArcs := ms\<rparr>"
  have m: "fst (flabel m) = EPSILON_ID \<or> fst (flabel m) = PHI_ID" using Cons(2) [symmetric] Cons(7) by simp
  have n: "arcs_gen_next c g = (composed_arc g (afilter g) (fdst m)
    (if snd (flabel m) = PHI_ID then EPSILON_ID else snd (flabel m)) (ctimes c (wone c) (fweight m)), ?g')"
    using Cons(2) [symmetric] Cons(4,5) m by (simp add: arcs_gen_next_def Let_def)
  show ?case
  proof (cases "ms = []")
    case True
    then show ?thesis using n Cons(2) [symmetric] Cons(3) by (simp add: arcs_gen_step arcs_gen_done)
  next
    case False
    then show ?thesis using n Cons(1) [of ?g'] Cons(2) [symmetric] Cons(3-7) by (simp add: arcs_gen_step composed_arc_def)
  qed
qed simp

lemma gen_regular:
  assumes "hasMore g" and "\<not> midSigma g" and "snd (flabel (inArc g)) \<noteq> EPSILON_ID" and "matchedArcs g \<noteq> []"
    and "\<forall>m \<in> set (matchedArcs g). fst (flabel m) \<noteq> EPSILON_ID \<and> fst (flabel m) \<noteq> PHI_ID"
  shows "arcs_gen_list c g = map (\<lambda>m. composed_arc g (afilter g) (fdst m)
      (if fst (flabel m) = snd (flabel m) then snd (flabel (inArc g)) else snd (flabel m)) (ctimes c (fweight (inArc g)) (fweight m))) (matchedArcs g) @
    map (\<lambda>m. composed_arc g (afilter g) (fdst m)
      (if snd (flabel m) = SIGMA_ID then snd (flabel (inArc g)) else snd (flabel m)) (ctimes c (fweight (inArc g)) (fweight m)))
      (special_arcs c (matchSrc g) SIGMA_ID)"
  using assms
proof (induction "matchedArcs g" arbitrary: g)
  case (Cons m ms)
  have m: "fst (flabel m) \<noteq> EPSILON_ID" "fst (flabel m) \<noteq> PHI_ID" using Cons(2) [symmetric] Cons(7) by simp_all
  let ?a = "composed_arc g (afilter g) (fdst m) (if fst (flabel m) = snd (flabel m) then snd (flabel (inArc g)) else snd (flabel m))
    (ctimes c (fweight (inArc g)) (fweight m))"
  let ?g1 = "g\<lparr>matchedArcs := ms\<rparr>"
  show ?case
  proof (cases "ms = []")
    case True
    let ?s = "special_arcs c (matchSrc g) SIGMA_ID"
    define g2 where "g2 = (let (more, g2) = initSigma c ?g1 in g2\<lparr>hasMore := more\<rparr>)"
    have n: "arcs_gen_next c g = (?a, g2)"
      using Cons(2) [symmetric] Cons(4,5) m True by (simp add: arcs_gen_next_def Let_def g2_def)
    have "arcs_gen_list c g2 = map (\<lambda>m. composed_arc g (afilter g) (fdst m)
      (if snd (flabel m) = SIGMA_ID then snd (flabel (inArc g)) else snd (flabel m)) (ctimes c (fweight (inArc g)) (fweight m))) ?s"
    proof (cases "?s = []")
      case e: True
      then have "\<not> hasMore g2" by (auto simp: g2_def initSigma_def special_arcs_def Let_def split: if_splits)
      then show ?thesis using e by (simp add: arcs_gen_done)
    next
      case f: False
      then have "g2 = g\<lparr>matchedArcs := ?s, midSigma := True, hasMore := True\<rparr>"
        by (auto simp: g2_def initSigma_def special_arcs_def Let_def split: if_splits)
      then show ?thesis using gen_sigma [of g2 c] f Cons(5) by (simp add: composed_arc_def)
    qed
    then show ?thesis using n True Cons(2) [symmetric] Cons(3) by (simp add: arcs_gen_step)
  next
    case False
    then have n: "arcs_gen_next c g = (?a, ?g1)" using Cons(2) [symmetric] Cons(4,5) m by (simp add: arcs_gen_next_def Let_def)
    show ?thesis using n Cons(1) [of ?g1] False Cons(2) [symmetric] Cons(3-7) by (simp add: arcs_gen_step composed_arc_def)
  qed
qed simp

section \<open>All generators together\<close>

definition fresh_gen :: "('p, 'q) compose_state \<Rightarrow> ('p, 'q, 'w, 'v) arcs_gen \<Rightarrow> bool" where
  "fresh_gen src r \<longleftrightarrow> afilter r = cfilter src \<and> matchSrc r = cmatch src \<and> hasMore r \<and> \<not> midSigma r \<and> matchedArcs r = []"

lemma initRho_cases:
  assumes "matchedArcs r = []"
  shows "special_arcs c (matchSrc r) RHO_ID \<noteq> [] \<Longrightarrow> initRho c r = (True, r\<lparr>matchedArcs := special_arcs c (matchSrc r) RHO_ID\<rparr>)"
    "special_arcs c (matchSrc r) RHO_ID = [] \<Longrightarrow> initRho c r = (False, r)"
proof -
  have "r\<lparr>matchedArcs := []\<rparr> = r" using assms by (cases r) simp
  then show "special_arcs c (matchSrc r) RHO_ID \<noteq> [] \<Longrightarrow> initRho c r = (True, r\<lparr>matchedArcs := special_arcs c (matchSrc r) RHO_ID\<rparr>)"
    "special_arcs c (matchSrc r) RHO_ID = [] \<Longrightarrow> initRho c r = (False, r)"
    by (auto simp: initRho_def special_arcs_def Let_def split: if_splits)
qed

lemma initSigma_cases:
  assumes "matchedArcs r = []"
  shows "special_arcs c (matchSrc r) SIGMA_ID \<noteq> [] \<Longrightarrow>
      initSigma c r = (True, r\<lparr>matchedArcs := special_arcs c (matchSrc r) SIGMA_ID, midSigma := True\<rparr>)"
    "special_arcs c (matchSrc r) SIGMA_ID = [] \<Longrightarrow> initSigma c r = (False, r)"
proof -
  have "r\<lparr>matchedArcs := []\<rparr> = r" using assms by (cases r) simp
  then show "special_arcs c (matchSrc r) SIGMA_ID \<noteq> [] \<Longrightarrow>
      initSigma c r = (True, r\<lparr>matchedArcs := special_arcs c (matchSrc r) SIGMA_ID, midSigma := True\<rparr>)"
    "special_arcs c (matchSrc r) SIGMA_ID = [] \<Longrightarrow> initSigma c r = (False, r)"
    by (auto simp: initSigma_def special_arcs_def Let_def split: if_splits)
qed

text \<open>One round of the loop: either the arc gives a generator of exactly its arcs, or it has none and is skipped.\<close>

lemma RHO_special: "RHO_ID \<noteq> EPSILON_ID" "RHO_ID \<noteq> PHI_ID"
  by (simp_all add: EPSILON_ID_def RHO_ID_def PHI_ID_def specialTerminal_def)

lemma round_keeps:
  assumes "\<not> x"
  shows "gg\<lparr>inArcs := as, anyStandardMatch := anyStandardMatch gg \<or> x\<rparr> = gg\<lparr>inArcs := as\<rparr>"
  using assms by (cases gg) simp

lemma no_matches: "matchedArcs r = [] \<Longrightarrow> r\<lparr>inArc := a, matchedArcs := []\<rparr> = r\<lparr>inArc := a\<rparr>"
  by (cases r) simp

definition round_ok ::
  "('p, 'q, 'w, 'v) compose_fst \<Rightarrow> ('p, 'q) compose_state \<Rightarrow> ('p, 'q, 'w, 'v) arcs_gen_gen \<Rightarrow> ('p, 'w) fst_arc \<Rightarrow>
     ('p, 'w) fst_arc list \<Rightarrow> ('p, 'q, 'w, 'v) arcs_gen \<Rightarrow> bool" where
  "round_ok c src gg a as r \<longleftrightarrow>
     (input_arc_arcs c src a \<noteq> [] \<longrightarrow> (\<exists>r' r''. next_input c gg (a # as) r =
        (Some r', gg\<lparr>inArcs := as, anyStandardMatch := anyStandardMatch gg \<or> standard_match c src a\<rparr>, r'') \<and>
        arcs_gen_list c r' = input_arc_arcs c src a)) \<and>
     (input_arc_arcs c src a = [] \<longrightarrow> \<not> standard_match c src a \<and>
        next_input c gg (a # as) r = next_input c (gg\<lparr>inArcs := as\<rparr>) as (r\<lparr>inArc := a\<rparr>))"

lemma round_epsilon:
  assumes src: "gsrc gg = src" and F: "fresh_gen src r" and 2: "isValid (snd (flabel a))" "snd (flabel a) = EPSILON_ID"
  shows "round_ok c src gg a as r"
proof -
  let ?o = "snd (flabel a)" and ?k = "epsFilter c" and ?f = "cfilter src" and ?q = "cmatch src"
  let ?m = "arcsMatchingInput c ?q ?o" and ?r1 = "r\<lparr>inArc := a\<rparr>"
  have f: "afilter r = ?f" "matchSrc r = ?q" "hasMore r" "\<not> midSigma r" "matchedArcs r = []" using F by (simp_all add: fresh_gen_def)
  have r1: "?r1\<lparr>matchedArcs := []\<rparr> = ?r1" using no_matches [OF f(5)] .
  have st: "\<not> standard_match c src a" using 2 by (simp add: standard_match_def)
  note id = round_keeps [OF st, of gg as]
  consider "allowInputMatchEpsilon ?k ?f" "?m \<noteq> []" | "\<not> (allowInputMatchEpsilon ?k ?f \<and> ?m \<noteq> [])" "allowInputEpsilon ?k ?f"
    | "\<not> (allowInputMatchEpsilon ?k ?f \<and> ?m \<noteq> [])" "\<not> allowInputEpsilon ?k ?f" by blast
  then show ?thesis
  proof cases
    case a: 1
    let ?r = "?r1\<lparr>matchedArcs := ?m, afilter := after_inputMatchEpsilon ?k ?f\<rparr>"
    have L: "arcs_gen_list c ?r = map (\<lambda>m. composed_arc ?r (afilter ?r) (fdst m) (snd (flabel m)) (ctimes c (fweight (inArc ?r)) (fweight m))) (matchedArcs ?r) @
      [composed_arc ?r (after_inputEpsilon ?k (afilter ?r)) (matchSrc ?r) EPSILON_ID (fweight (inArc ?r))]"
      by (rule gen_epsilon) (simp_all add: f 2)
    have "after_inputEpsilon ?k (after_inputMatchEpsilon ?k ?f) = after_inputEpsilon ?k ?f" by (simp add: after_inputMatchEpsilon_def)
    then have "arcs_gen_list c ?r = input_arc_arcs c src a"
      unfolding L using 2 a by (auto simp: Let_def input_arc_arcs_def composed_arc_def both_arc_def input_only_arc_def f)
    moreover have "next_input c gg (a # as) r = (Some ?r, gg\<lparr>inArcs := as\<rparr>, ?r1)" using 2 a by (simp add: Let_def f src)
    ultimately show ?thesis using id st 2 a by (auto simp: Let_def input_arc_arcs_def round_ok_def)
  next
    case b: 2
    let ?r = "?r1\<lparr>afilter := after_inputEpsilon ?k ?f\<rparr>"
    have m: "allowInputMatchEpsilon ?k ?f \<Longrightarrow> ?m = []" using b by blast
    have L: "arcs_gen_list c ?r = map (\<lambda>m. composed_arc ?r (afilter ?r) (fdst m) (snd (flabel m)) (ctimes c (fweight (inArc ?r)) (fweight m))) (matchedArcs ?r) @
      [composed_arc ?r (after_inputEpsilon ?k (afilter ?r)) (matchSrc ?r) EPSILON_ID (fweight (inArc ?r))]"
      by (rule gen_epsilon) (simp_all add: f 2)
    have "after_inputEpsilon ?k (after_inputEpsilon ?k ?f) = after_inputEpsilon ?k ?f" by (cases ?k) simp_all
    then have "arcs_gen_list c ?r = input_arc_arcs c src a"
      unfolding L using 2 b by (auto simp: input_arc_arcs_def composed_arc_def both_arc_def input_only_arc_def f)
    moreover have "next_input c gg (a # as) r = (Some ?r, gg\<lparr>inArcs := as\<rparr>, ?r1)" using 2 b m by (auto simp: Let_def f src r1)
    ultimately show ?thesis using id st 2 b by (auto simp: Let_def input_arc_arcs_def round_ok_def)
  next
    case d: 3
    have m: "allowInputMatchEpsilon ?k ?f \<Longrightarrow> ?m = []" using d by blast
    have "next_input c gg (a # as) r = next_input c (gg\<lparr>inArcs := as\<rparr>) as ?r1" using 2 d m by (auto simp: Let_def f src r1)
    then show ?thesis using st 2 d by (auto simp: Let_def input_arc_arcs_def round_ok_def)
  qed
qed

lemma round_regular:
  assumes K: "compose_fst_ok c" and src: "gsrc gg = src" and F: "fresh_gen src r" and phi: "snd (flabel a) \<noteq> PHI_ID"
    and 3: "isValid (snd (flabel a))" "snd (flabel a) \<noteq> EPSILON_ID"
  shows "round_ok c src gg a as r"
proof -
  let ?o = "snd (flabel a)" and ?k = "epsFilter c" and ?f = "cfilter src" and ?q = "cmatch src"
  let ?m = "arcsMatchingInput c ?q ?o" and ?rho = "special_arcs c ?q RHO_ID" and ?sigma = "special_arcs c ?q SIGMA_ID"
  let ?r1 = "r\<lparr>inArc := a\<rparr>"
  have f: "afilter r = ?f" "matchSrc r = ?q" "hasMore r" "\<not> midSigma r" "matchedArcs r = []" using F by (simp_all add: fresh_gen_def)
  have r1: "?r1\<lparr>matchedArcs := []\<rparr> = ?r1" using no_matches [OF f(5)] .
  note id = round_keeps [of "standard_match c src a" gg as]
  have M: "fst (flabel m) = x" if "m \<in> set (arcsMatchingInput c q x)" for m q x using K that by (simp add: compose_fst_ok_def)
  consider "?m \<noteq> []" | "?m = []" "?rho \<noteq> []" | "?m = []" "?rho = []" "?sigma \<noteq> []" | "?m = []" "?rho = []" "?sigma = []" by blast
  then show ?thesis
  proof cases
    case a: 1
    let ?r = "?r1\<lparr>matchedArcs := ?m, afilter := after_normal ?k ?f\<rparr>"
    have st: "standard_match c src a" using 3 a by (simp add: standard_match_def)
    have "\<forall>m \<in> set ?m. fst (flabel m) = ?o" using M by blast
    then have "arcs_gen_list c ?r = input_arc_arcs c src a"
      using gen_regular [of ?r c] 3 a f phi by (auto simp: Let_def input_arc_arcs_def composed_arc_def both_arc_def)
    moreover have "next_input c gg (a # as) r = (Some ?r, gg\<lparr>inArcs := as, anyStandardMatch := True\<rparr>, ?r1\<lparr>matchedArcs := ?m\<rparr>)"
      using 3 a by (simp add: Let_def f src)
    ultimately show ?thesis using st a 3 by (auto simp: Let_def input_arc_arcs_def round_ok_def)
  next
    case b: 2
    let ?r = "?r1\<lparr>matchedArcs := ?rho, afilter := after_normal ?k ?f\<rparr>"
    have st: "\<not> standard_match c src a" using b by (simp add: standard_match_def)
    have "\<forall>m \<in> set ?rho. fst (flabel m) = RHO_ID" using M by (auto simp: special_arcs_def split: if_splits)
    then have "arcs_gen_list c ?r = input_arc_arcs c src a"
      using gen_regular [of ?r c] 3 b f RHO_special by (auto simp: Let_def input_arc_arcs_def composed_arc_def both_arc_def)
    moreover have "next_input c gg (a # as) r = (Some ?r, gg\<lparr>inArcs := as\<rparr>, ?r1\<lparr>matchedArcs := ?rho\<rparr>)"
      using 3 b initRho_cases(1) [of ?r1 c] by (simp add: Let_def f src r1)
    ultimately show ?thesis using id [OF st] st b 3 by (auto simp: Let_def input_arc_arcs_def round_ok_def)
  next
    case d: 3
    let ?r = "?r1\<lparr>matchedArcs := ?sigma, midSigma := True, afilter := after_normal ?k ?f\<rparr>"
    have st: "\<not> standard_match c src a" using d by (simp add: standard_match_def)
    have "arcs_gen_list c ?r = input_arc_arcs c src a"
      using gen_sigma [of ?r c] 3 d f by (auto simp: Let_def input_arc_arcs_def composed_arc_def both_arc_def)
    moreover have "next_input c gg (a # as) r = (Some ?r, gg\<lparr>inArcs := as\<rparr>, ?r1\<lparr>matchedArcs := ?sigma, midSigma := True\<rparr>)"
      using 3 d initRho_cases(2) [of ?r1 c] initSigma_cases(1) [of ?r1 c] by (simp add: Let_def f src r1)
    ultimately show ?thesis using id [OF st] st d 3 by (auto simp: Let_def input_arc_arcs_def round_ok_def)
  next
    case e: 4
    have st: "\<not> standard_match c src a" using e by (simp add: standard_match_def)
    have "next_input c gg (a # as) r = next_input c (gg\<lparr>inArcs := as\<rparr>) as ?r1"
      using 3 e initRho_cases(2) [of ?r1 c] initSigma_cases(2) [of ?r1 c] by (simp add: Let_def f src r1)
    then show ?thesis using st e 3 by (auto simp: Let_def input_arc_arcs_def round_ok_def)
  qed
qed

lemma next_input_step:
  assumes "compose_fst_ok c" and "gsrc gg = src" and "fresh_gen src r" and "snd (flabel a) \<noteq> PHI_ID"
  shows "round_ok c src gg a as r"
proof (cases "isValid (snd (flabel a))")
  case True
  then show ?thesis using round_epsilon [OF assms(2,3)] round_regular [OF assms] by blast
next
  case False
  then show ?thesis by (simp add: round_ok_def input_arc_arcs_def standard_match_def)
qed

lemma next_input_all:
  assumes "compose_fst_ok c" and "gsrc gg = src" and "fresh_gen src r" and "\<forall>a \<in> set as. snd (flabel a) \<noteq> PHI_ID"
  shows "case next_input c gg as r of
      (Some r', gg', _) \<Rightarrow> (\<exists>as1 a as2. as = as1 @ a # as2 \<and> (\<forall>b \<in> set as1. input_arc_arcs c src b = [] \<and> \<not> standard_match c src b) \<and>
        arcs_gen_list c r' = input_arc_arcs c src a \<and> input_arc_arcs c src a \<noteq> [] \<and>
        gg' = gg\<lparr>inArcs := as2, anyStandardMatch := anyStandardMatch gg \<or> standard_match c src a\<rparr>)
    | (None, gg', r') \<Rightarrow> (\<forall>b \<in> set as. input_arc_arcs c src b = [] \<and> \<not> standard_match c src b) \<and> gg' = gg\<lparr>inArcs := []\<rparr> \<and>
        fresh_gen src r' \<and> fannotations (inArc r') = (if as = [] then fannotations (inArc r) else fannotations (last as))"
  using assms
proof (induction as arbitrary: gg r)
  case (Cons a as)
  have R: "round_ok c src gg a as r" by (rule next_input_step) (use Cons.prems in auto)
  show ?case
  proof (cases "input_arc_arcs c src a = []")
    case True
    then have s: "\<not> standard_match c src a" "next_input c gg (a # as) r = next_input c (gg\<lparr>inArcs := as\<rparr>) as (r\<lparr>inArc := a\<rparr>)"
      using R by (simp_all add: round_ok_def)
    have f: "fresh_gen src (r\<lparr>inArc := a\<rparr>)" using Cons.prems(3) by (simp add: fresh_gen_def)
    note IH = Cons.IH [of "gg\<lparr>inArcs := as\<rparr>" "r\<lparr>inArc := a\<rparr>"]
    obtain o' gg' r' where e: "next_input c (gg\<lparr>inArcs := as\<rparr>) as (r\<lparr>inArc := a\<rparr>) = (o', gg', r')" by (metis prod_cases3)
    show ?thesis
    proof (cases o')
      case None
      then show ?thesis using IH f Cons.prems(1,2,4) s True e by auto
    next
      case (Some r2)
      then obtain as1 b as2 where "as = as1 @ b # as2" "\<forall>x \<in> set as1. input_arc_arcs c src x = [] \<and> \<not> standard_match c src x"
        "arcs_gen_list c r2 = input_arc_arcs c src b" "input_arc_arcs c src b \<noteq> []"
        "gg' = gg\<lparr>inArcs := as2, anyStandardMatch := anyStandardMatch gg \<or> standard_match c src b\<rparr>"
        using IH f Cons.prems(1,2,4) e by auto
      then show ?thesis using s e True Some by (auto intro!: exI [of _ "a # as1"])
    qed
  next
    case False
    then obtain r' r'' where "next_input c gg (a # as) r =
        (Some r', gg\<lparr>inArcs := as, anyStandardMatch := anyStandardMatch gg \<or> standard_match c src a\<rparr>, r'')"
      "arcs_gen_list c r' = input_arc_arcs c src a" using R by (auto simp: round_ok_def)
    then show ?thesis using False by (auto simp del: next_input.simps intro!: exI [of _ "[]"])
  qed
qed simp

lemma gen_match_only:
  assumes K: "compose_fst_ok c" and F: "fresh_gen src r" and x: "x = EPSILON_ID \<or> x = PHI_ID"
    and m: "arcsMatchingInput c (cmatch src) x \<noteq> []"
  shows "arcs_gen_list c (nonconsuming_gen c src (arcsMatchingInput c (cmatch src) x) r) =
    map (match_only_arc c src (fannotations (inArc r))) (arcsMatchingInput c (cmatch src) x)"
proof -
  let ?g = "nonconsuming_gen c src (arcsMatchingInput c (cmatch src) x) r"
  have "\<forall>m \<in> set (matchedArcs ?g). fst (flabel m) = EPSILON_ID \<or> fst (flabel m) = PHI_ID"
    using K x by (auto simp: compose_fst_ok_def nonconsuming_gen_def)
  then have "arcs_gen_list c ?g = map (\<lambda>m. composed_arc ?g (afilter ?g) (fdst m)
    (if snd (flabel m) = PHI_ID then EPSILON_ID else snd (flabel m)) (ctimes c (wone c) (fweight m))) (matchedArcs ?g)"
    using F m by (intro gen_nonconsuming) (simp_all add: nonconsuming_gen_def fresh_gen_def)
  then show ?thesis using F
    by (simp add: nonconsuming_gen_def fresh_gen_def composed_arc_def match_only_arc_def [abs_def])
qed

lemma fresh_arcs_gen_new [simp]: "fresh_gen src (arcs_gen_new c src)" "fannotations (inArc (arcs_gen_new c src)) = []"
  by (simp_all add: fresh_gen_def arcs_gen_new_def)

definition phi_part :: "('p, 'q, 'w, 'v) compose_fst \<Rightarrow> ('p, 'q) compose_state \<Rightarrow> bool \<Rightarrow> ('p, 'w) fst_arc list \<Rightarrow>
    (('p, 'q) compose_state, 'w) fst_arc list" where
  "phi_part c src any as =
     (if \<not> any \<and> allowMatchEpsilon (epsFilter c) (cfilter src) \<and> (\<forall>a \<in> set as. \<not> standard_match c src a)
      then map (match_only_arc c src (phi_annotations c src as)) (special_arcs c (cmatch src) PHI_ID) else [])"

lemma phi_part_rest:
  assumes "\<forall>b \<in> set as1. \<not> standard_match c src b" and "input_arc_arcs c src a \<noteq> []"
  shows "phi_part c src any (as1 @ a # as2) = phi_part c src (any \<or> standard_match c src a) as2"
proof -
  have "phi_annotations c src (as1 @ a # as2) = phi_annotations c src as2" using assms(2) by (simp add: phi_annotations_def)
  then show ?thesis using assms by (auto simp: phi_part_def)
qed

lemma gen_gen_last:
  assumes K: "compose_fst_ok c" and st: "concatState gg = matchRegular"
    and n: "next_input c gg (inArcs gg) (arcs_gen_new c (gsrc gg)) = (None, gg', r')"
    and none: "\<forall>b \<in> set (inArcs gg). input_arc_arcs c (gsrc gg) b = [] \<and> \<not> standard_match c (gsrc gg) b"
    and gg': "gg' = gg\<lparr>inArcs := []\<rparr>" and F: "fresh_gen (gsrc gg) r'"
    and ann: "fannotations (inArc r') = (if inArcs gg = [] then [] else fannotations (last (inArcs gg)))"
  shows "concat (map (arcs_gen_list c) (gen_gen_list c gg)) = phi_part c (gsrc gg) (anyStandardMatch gg) (inArcs gg)"
proof -
  let ?src = "gsrc gg" and ?phi = "arcsMatchingInput c (cmatch (gsrc gg)) PHI_ID"
  let ?g = "if \<not> anyStandardMatch gg \<and> allowMatchEpsilon (epsFilter c) (cfilter ?src) \<and> specials_test (whichSpecials c) PHI_ID \<and> ?phi \<noteq> []
    then nonconsuming_gen c ?src ?phi r' else r'\<lparr>hasMore := False\<rparr>"
  have a: "fannotations (inArc r') = phi_annotations c ?src (inArcs gg)" using ann none by (simp add: phi_annotations_def)
  have reg: "gg\<lparr>concatState := matchRegular\<rparr> = gg" using st by (cases gg) simp
  have e: "gen_gen_next c gg = (?g, gg'\<lparr>concatState := matchDone\<rparr>)"
    using F by (simp add: gen_gen_next_def Let_def fresh_gen_def reg st n gg')
  have "gen_gen_list c (gg'\<lparr>concatState := matchDone\<rparr>) = []" by (simp add: gen_gen_list.simps)
  then have "gen_gen_list c gg = [?g]" using st e by (simp add: gen_gen_list.simps [of c gg])
  moreover have "arcs_gen_list c ?g = phi_part c ?src (anyStandardMatch gg) (inArcs gg)"
    using gen_match_only [OF K F, of PHI_ID] none a by (auto simp: phi_part_def special_arcs_def arcs_gen_done)
  ultimately show ?thesis by simp
qed

lemma gen_gen_regular:
  assumes K: "compose_fst_ok c" and "concatState gg = matchRegular" and "\<forall>a \<in> set (inArcs gg). snd (flabel a) \<noteq> PHI_ID"
  shows "concat (map (arcs_gen_list c) (gen_gen_list c gg)) =
    concat (map (input_arc_arcs c (gsrc gg)) (inArcs gg)) @ phi_part c (gsrc gg) (anyStandardMatch gg) (inArcs gg)"
  using assms(2,3)
proof (induction "length (inArcs gg)" arbitrary: gg rule: less_induct)
  case less
  let ?src = "gsrc gg"
  let ?r = "arcs_gen_new c ?src"
  obtain o' gg' r' where n: "next_input c gg (inArcs gg) ?r = (o', gg', r')" by (metis prod_cases3)
  have "fresh_gen ?src ?r" by (rule fresh_arcs_gen_new)
  note A = next_input_all [OF K refl this less.prems(2), unfolded n]
  show ?case
  proof (cases o')
    case None
    have "concat (map (arcs_gen_list c) (gen_gen_list c gg)) = phi_part c ?src (anyStandardMatch gg) (inArcs gg)"
      by (rule gen_gen_last [OF K less.prems(1) n [unfolded None]]) (use A None fresh_arcs_gen_new(2) in auto)
    moreover have "concat (map (input_arc_arcs c ?src) (inArcs gg)) = []" using A None by simp
    ultimately show ?thesis by simp
  next
    case (Some g)
    then obtain as1 a as2 where s: "inArcs gg = as1 @ a # as2" "\<forall>b \<in> set as1. input_arc_arcs c ?src b = [] \<and> \<not> standard_match c ?src b"
      "arcs_gen_list c g = input_arc_arcs c ?src a" "input_arc_arcs c ?src a \<noteq> []"
      "gg' = gg\<lparr>inArcs := as2, anyStandardMatch := anyStandardMatch gg \<or> standard_match c ?src a\<rparr>"
      using A by auto
    have reg: "gg\<lparr>concatState := matchRegular\<rparr> = gg" using less.prems(1) by (cases gg) simp
    have "gen_gen_next c gg = (g, gg')" by (simp add: gen_gen_next_def Let_def less.prems(1) reg n Some)
    then have "gen_gen_list c gg = g # gen_gen_list c gg'" using less.prems(1) by (simp add: gen_gen_list.simps [of c gg])
    moreover have "concat (map (arcs_gen_list c) (gen_gen_list c gg')) = concat (map (input_arc_arcs c ?src) as2) @
        phi_part c ?src (anyStandardMatch gg \<or> standard_match c ?src a) as2"
      using less.hyps [of gg'] s(1,5) less.prems by simp
    moreover have "phi_part c ?src (anyStandardMatch gg) (inArcs gg) = phi_part c ?src (anyStandardMatch gg \<or> standard_match c ?src a) as2"
      unfolding s(1) by (rule phi_part_rest) (use s in auto)
    moreover have "concat (map (input_arc_arcs c ?src) as1) = []" using s(2) by simp
    ultimately show ?thesis by (simp add: s(1,3))
  qed
qed

lemma gen_gen_correct:
  assumes K: "compose_fst_ok c"
  shows "concat (map (arcs_gen_list c) (gen_gen_list c (gen_gen_new c src))) = composed_arcs c src"
proof -
  let ?gg = "gen_gen_new c src" and ?gr = "(gen_gen_new c src)\<lparr>concatState := matchRegular\<rparr>"
  let ?e = "if allowMatchEpsilon (epsFilter c) (cfilter src) then special_arcs c (cmatch src) EPSILON_ID else []"
  have g: "concatState ?gg = matchEpsilonState" "gepsilon ?gg = ?e" "gsrc ?gg = src" by (simp_all add: gen_gen_new_def special_arcs_def)
  have "\<forall>a \<in> set (inputArcs c (cinput src)). snd (flabel a) \<noteq> PHI_ID" using K by (simp add: compose_fst_ok_def)
  then have R: "concat (map (arcs_gen_list c) (gen_gen_list c ?gr)) =
      concat (map (input_arc_arcs c src) (inputArcs c (cinput src))) @ phi_part c src False (inputArcs c (cinput src))"
    using gen_gen_regular [OF K, of ?gr] by (simp add: gen_gen_new_def)
  have "concat (map (arcs_gen_list c) (gen_gen_list c ?gg)) = map (match_only_arc c src []) ?e @ concat (map (arcs_gen_list c) (gen_gen_list c ?gr))"
  proof (cases "?e = []")
    case True
    have "gen_gen_next c ?gg = gen_gen_next c ?gr" by (simp add: gen_gen_next_def Let_def g True split: option.split prod.split)
    then have "gen_gen_list c ?gg = gen_gen_list c ?gr"
      by (simp add: gen_gen_list.simps [of c ?gg] gen_gen_list.simps [of c ?gr] g)
    then show ?thesis using True by simp
  next
    case False
    then have m: "?e = arcsMatchingInput c (cmatch src) EPSILON_ID" "arcsMatchingInput c (cmatch src) EPSILON_ID \<noteq> []"
      by (auto simp: special_arcs_def split: if_splits)
    have "gen_gen_next c ?gg = (nonconsuming_gen c src ?e (arcs_gen_new c src), ?gr)" by (simp add: gen_gen_next_def Let_def g False)
    then have "gen_gen_list c ?gg = nonconsuming_gen c src ?e (arcs_gen_new c src) # gen_gen_list c ?gr"
      by (simp add: gen_gen_list.simps [of c ?gg] g)
    then show ?thesis using gen_match_only [OF K fresh_arcs_gen_new(1), of EPSILON_ID] m fresh_arcs_gen_new(2) by simp
  qed
  then show ?thesis unfolding R by (simp add: composed_arcs_def phi_part_def Let_def)
qed

section \<open>The properties\<close>

text \<open>
  Property C6 (the arcs of a composed state). Reading the out-arcs of a composed state to the end ends, and gives,
  each once, the arcs \<open>composed_arcs\<close>: for the match epsilons,
  for each input arc its standard, rho, sigma and epsilon matches as the filter allows, and the phi arcs if no
  input arc had a standard match. These are the arcs that the comment at the head of the source lists, but that an output phi
  of a match arc alone becomes an epsilon and that a phi arc has the annotations of the last input arc if that gives no arc.
\<close>

theorem compose_outArcs_correct:
  assumes "compose_fst_ok c"
  shows "\<exists>xs s'. appendGenerate flatten_alive flatten_peek (flatten_pop (\<lambda>a. distance (fweight a))) (compose_outArcs distance c src tips) [] =
      Some (xs, length xs, s') \<and> mset xs = mset (composed_arcs c src)"
  using flatten_all [of "\<lambda>a. distance (fweight a)" "map (arcs_gen_list c) (gen_gen_list c (gen_gen_new c src))" tips "[]"]
  by (simp add: compose_outArcs_def gen_gen_correct [OF assms])

end
