(* ===== verification/Compose_Paths.thy ===== *)
theory Compose_Paths
  imports Fst_Compose
begin

text \<open>
  The paths of a lazy composition (\<open>sdl/Hypergraph/fs/Compose.hpp\<close>) when the match transducer has no sigma, rho or phi arcs. A
  composed arc comes from a choice: an input arc, a match arc, or one of each. The paths of the composition are
  sequences of choices (the generators give exactly the arcs of the choices, \<open>generated_arcs_choices\<close>).

  The lemmas show that a sequence of choices pairs a path of each transducer with the same inner symbols, that every
  such pair has one, and that for the filters \<open>Epsilon1First\<close> and \<open>EpsilonCombine\<close> it has no other: no weight is
  counted twice.
\<close>

section \<open>Choices\<close>

text \<open>
  \<open>choices\<close> lists the choices of a composed state, and \<open>allowed\<close> is membership in it. They leave out sigma, rho and phi and
  do not look at \<open>whichSpecials\<close>: they are the arcs that the generators of the code give (\<open>generated_arcs\<close>) only
  under \<open>plain_match\<close>, which says that no sigma, rho and phi is registered, that epsilon is if an arc reads it, and that
  no phi is written (\<open>generated_arcs_choices\<close>).
\<close>

type_synonym ('p, 'q, 'w, 'v) choice = "('p, 'w) fst_arc option \<times> ('q, 'v) fst_arc option"

definition plain_match :: "('p, 'q, 'w, 'v) compose_fst \<Rightarrow> bool" where
  "plain_match c \<longleftrightarrow> compose_fst_ok c \<and> \<not> specials_test (whichSpecials c) SIGMA_ID \<and> \<not> specials_test (whichSpecials c) RHO_ID \<and>
     \<not> specials_test (whichSpecials c) PHI_ID \<and>
     (\<forall>q. arcsMatchingInput c q EPSILON_ID \<noteq> [] \<longrightarrow> specials_test (whichSpecials c) EPSILON_ID) \<and>
     (\<forall>q x. \<forall>b \<in> set (arcsMatchingInput c q x). snd (flabel b) \<noteq> PHI_ID) \<and>
     (\<forall>p. \<forall>a \<in> set (inputArcs c p). isValid (snd (flabel a)))"

definition input_choices :: "('p, 'q, 'w, 'v) compose_fst \<Rightarrow> ('p, 'q) compose_state \<Rightarrow> ('p, 'w) fst_arc \<Rightarrow> ('p, 'q, 'w, 'v) choice list" where
  "input_choices c s a =
     (let k = epsFilter c; f = cfilter s; m = arcsMatchingInput c (cmatch s)
      in if snd (flabel a) = EPSILON_ID
         then (if allowInputMatchEpsilon k f then map (\<lambda>b. (Some a, Some b)) (m EPSILON_ID) else []) @
              (if allowInputEpsilon k f then [(Some a, None)] else [])
         else map (\<lambda>b. (Some a, Some b)) (m (snd (flabel a))))"

definition choices :: "('p, 'q, 'w, 'v) compose_fst \<Rightarrow> ('p, 'q) compose_state \<Rightarrow> ('p, 'q, 'w, 'v) choice list" where
  "choices c s =
     (if allowMatchEpsilon (epsFilter c) (cfilter s) then map (\<lambda>b. (None, Some b)) (arcsMatchingInput c (cmatch s) EPSILON_ID) else []) @
     concat (map (input_choices c s) (inputArcs c (cinput s)))"

fun choice_arc :: "('p, 'q, 'w, 'v) compose_fst \<Rightarrow> ('p, 'q) compose_state \<Rightarrow> ('p, 'q, 'w, 'v) choice \<Rightarrow>
    (('p, 'q) compose_state, 'w) fst_arc" where
  "choice_arc c s (None, Some b) = match_only_arc c s [] b"
| "choice_arc c s (Some a, None) = input_only_arc c s a"
| "choice_arc c s (Some a, Some b) =
     both_arc c (if snd (flabel a) = EPSILON_ID then after_inputMatchEpsilon (epsFilter c) (cfilter s) else after_normal (epsFilter c) (cfilter s))
       a (snd (flabel a)) b"
| "choice_arc c s (None, None) = undefined"

fun allowed :: "('p, 'q, 'w, 'v) compose_fst \<Rightarrow> ('p, 'q) compose_state \<Rightarrow> ('p, 'q, 'w, 'v) choice \<Rightarrow> bool" where
  "allowed c s (None, Some b) \<longleftrightarrow> b \<in> set (arcsMatchingInput c (cmatch s) EPSILON_ID) \<and> allowMatchEpsilon (epsFilter c) (cfilter s)"
| "allowed c s (Some a, None) \<longleftrightarrow> a \<in> set (inputArcs c (cinput s)) \<and> snd (flabel a) = EPSILON_ID \<and> allowInputEpsilon (epsFilter c) (cfilter s)"
| "allowed c s (Some a, Some b) \<longleftrightarrow> a \<in> set (inputArcs c (cinput s)) \<and> b \<in> set (arcsMatchingInput c (cmatch s) (snd (flabel a))) \<and>
     (snd (flabel a) = EPSILON_ID \<longrightarrow> allowInputMatchEpsilon (epsFilter c) (cfilter s))"
| "allowed c s (None, None) \<longleftrightarrow> False"

lemma set_input_choices:
  "(None, m) \<notin> set (input_choices c s a)"
  "(Some a', None) \<in> set (input_choices c s a) \<longleftrightarrow> a' = a \<and> snd (flabel a) = EPSILON_ID \<and> allowInputEpsilon (epsFilter c) (cfilter s)"
  "(Some a', Some b) \<in> set (input_choices c s a) \<longleftrightarrow> a' = a \<and> b \<in> set (arcsMatchingInput c (cmatch s) (snd (flabel a))) \<and>
     (snd (flabel a) = EPSILON_ID \<longrightarrow> allowInputMatchEpsilon (epsFilter c) (cfilter s))"
  by (auto simp: input_choices_def Let_def)

lemma set_choices: "ch \<in> set (choices c s) \<longleftrightarrow> allowed c s ch"
  by (cases "(c, s, ch)" rule: allowed.cases) (auto simp: choices_def set_input_choices)

lemma allowInputMatch_Input: "allowInputMatchEpsilon k f \<Longrightarrow> allowInputEpsilon k f"
  by (cases k) simp_all

text \<open>For a match transducer without sigma, rho and phi the choices are what the header specifies.\<close>

lemma composed_arcs_choices:
  assumes "plain_match c"
  shows "composed_arcs c s = map (choice_arc c s) (choices c s)"
proof -
  let ?q = "cmatch s" and ?k = "epsFilter c" and ?f = "cfilter s"
  have e: "special_arcs c ?q EPSILON_ID = arcsMatchingInput c ?q EPSILON_ID" and n: "special_arcs c ?q SIGMA_ID = []"
    "special_arcs c ?q RHO_ID = []" "special_arcs c ?q PHI_ID = []"
    using assms by (auto simp: plain_match_def special_arcs_def)
  have a: "input_arc_arcs c s a = map (choice_arc c s) (input_choices c s a)" if "a \<in> set (inputArcs c (cinput s))" for a
    using that assms by (auto simp: plain_match_def input_arc_arcs_def input_choices_def Let_def n allowInputMatch_Input)
  have "concat (map (input_arc_arcs c s) as) = map (choice_arc c s) (concat (map (input_choices c s) as))"
    if "set as \<subseteq> set (inputArcs c (cinput s))" for as
    using that by (induction as) (simp_all add: a)
  from this [of "inputArcs c (cinput s)"] show ?thesis
    by (simp add: composed_arcs_def choices_def Let_def e n)
qed

lemma generated_arcs_choices:
  assumes "plain_match c"
  shows "generated_arcs c s = map (choice_arc c s) (choices c s)"
proof -
  have "compose_fst_ok c" using assms by (simp add: plain_match_def)
  then have "generated_arcs c s = composed_arcs c s" unfolding generated_arcs_def by (rule gen_gen_correct)
  then show ?thesis by (simp add: composed_arcs_choices [OF assms])
qed

section \<open>Paths\<close>

fun input_path :: "('p, 'q, 'w, 'v) compose_fst \<Rightarrow> 'p \<Rightarrow> ('p, 'w) fst_arc list \<Rightarrow> 'p \<Rightarrow> bool" where
  "input_path c p [] p' \<longleftrightarrow> p = p'"
| "input_path c p (a # as) p' \<longleftrightarrow> a \<in> set (inputArcs c p) \<and> input_path c (fdst a) as p'"

fun match_path :: "('p, 'q, 'w, 'v) compose_fst \<Rightarrow> 'q \<Rightarrow> ('q, 'v) fst_arc list \<Rightarrow> 'q \<Rightarrow> bool" where
  "match_path c q [] q' \<longleftrightarrow> q = q'"
| "match_path c q (b # bs) q' \<longleftrightarrow> b \<in> set (arcsMatchingInput c q (fst (flabel b))) \<and> match_path c (fdst b) bs q'"

fun choice_path :: "('p, 'q, 'w, 'v) compose_fst \<Rightarrow> ('p, 'q) compose_state \<Rightarrow> ('p, 'q, 'w, 'v) choice list \<Rightarrow>
    ('p, 'q) compose_state \<Rightarrow> bool" where
  "choice_path c s [] t \<longleftrightarrow> s = t"
| "choice_path c s (ch # chs) t \<longleftrightarrow> ch \<in> set (choices c s) \<and> choice_path c (fdst (choice_arc c s ch)) chs t"

declare choice_path.simps(2) [simp del]

lemma choice_path_Cons [simp]:
  "choice_path c s (ch # chs) t \<longleftrightarrow> allowed c s ch \<and> choice_path c (fdst (choice_arc c s ch)) chs t"
  by (simp add: choice_path.simps(2) set_choices)

definition inputs_of :: "('p, 'q, 'w, 'v) choice list \<Rightarrow> ('p, 'w) fst_arc list" where
  "inputs_of chs = List.map_filter fst chs"

definition matches_of :: "('p, 'q, 'w, 'v) choice list \<Rightarrow> ('q, 'v) fst_arc list" where
  "matches_of chs = List.map_filter snd chs"

definition symbols :: "Sym list \<Rightarrow> Sym list" where
  "symbols xs = filter (\<lambda>x. x \<noteq> EPSILON_ID) xs"

lemma projections [simp]:
  "inputs_of [] = []" "matches_of [] = []"
  "inputs_of ((Some a, m) # chs) = a # inputs_of chs" "inputs_of ((None, m) # chs) = inputs_of chs"
  "matches_of ((i, Some b) # chs) = b # matches_of chs" "matches_of ((i, None) # chs) = matches_of chs"
  by (simp_all add: inputs_of_def matches_of_def List.map_filter_def)

lemma symbols_simps [simp]: "symbols [] = []" "symbols (x # xs) = (if x = EPSILON_ID then symbols xs else x # symbols xs)"
  by (simp_all add: symbols_def)

lemma choice_target [simp]:
  "fdst (match_only_arc c s ann b) = \<lparr>cinput = cinput s, cfilter = after_matchEpsilon (epsFilter c) (cfilter s), cmatch = fdst b\<rparr>"
  "fdst (input_only_arc c s a) = \<lparr>cinput = fdst a, cfilter = after_inputEpsilon (epsFilter c) (cfilter s), cmatch = cmatch s\<rparr>"
  "fdst (both_arc c f a x b) = \<lparr>cinput = fdst a, cfilter = f, cmatch = fdst b\<rparr>"
  by (simp_all add: match_only_arc_def input_only_arc_def both_arc_def)

lemma match_label: "compose_fst_ok c \<Longrightarrow> b \<in> set (arcsMatchingInput c q x) \<Longrightarrow> fst (flabel b) = x"
  by (simp add: compose_fst_ok_def)

lemma choice_cases:
  assumes "allowed c s ch"
  obtains b where "ch = (None, Some b)" | a where "ch = (Some a, None)" | a b where "ch = (Some a, Some b)"
  using assms by (cases "(c, s, ch)" rule: allowed.cases) auto

text \<open>A sequence of choices is a path of each transducer, with the same inner symbols.\<close>

lemma choice_path_sound:
  assumes K: "compose_fst_ok c" and "choice_path c s chs t"
  shows "input_path c (cinput s) (inputs_of chs) (cinput t) \<and> match_path c (cmatch s) (matches_of chs) (cmatch t) \<and>
    symbols (map (\<lambda>a. snd (flabel a)) (inputs_of chs)) = symbols (map (\<lambda>b. fst (flabel b)) (matches_of chs))"
  using assms(2)
proof (induction chs arbitrary: s)
  case (Cons ch chs)
  then have a: "allowed c s ch" and p: "choice_path c (fdst (choice_arc c s ch)) chs t" by simp_all
  from a show ?case
    by (cases rule: choice_cases) (use a Cons.IH [OF p] match_label [OF K] in auto)
qed simp

section \<open>The order of epsilons\<close>

definition eps_input :: "('p, 'w) fst_arc list \<Rightarrow> bool" where
  "eps_input as \<longleftrightarrow> as \<noteq> [] \<and> snd (flabel (hd as)) = EPSILON_ID"

definition eps_match :: "('q, 'v) fst_arc list \<Rightarrow> bool" where
  "eps_match bs \<longleftrightarrow> bs \<noteq> [] \<and> fst (flabel (hd bs)) = EPSILON_ID"

lemma eps_simps [simp]:
  "\<not> eps_input []" "\<not> eps_match []" "eps_input (a # as) \<longleftrightarrow> snd (flabel a) = EPSILON_ID" "eps_match (b # bs) \<longleftrightarrow> fst (flabel b) = EPSILON_ID"
  by (simp_all add: eps_input_def eps_match_def)

text \<open>
  The filter state from which two paths can still be paired: \<open>Epsilon1First\<close> in state 1 takes no more match epsilons
  before the next symbol, \<open>EpsilonCombine\<close> in state 1 no input epsilons and in state 2 no match epsilons.
\<close>

fun filter_open :: "epsilon_filter \<Rightarrow> nat \<Rightarrow> ('p, 'w) fst_arc list \<Rightarrow> ('q, 'v) fst_arc list \<Rightarrow> bool" where
  "filter_open NoEpsilonFilter f as bs \<longleftrightarrow> True"
| "filter_open Epsilon1First f as bs \<longleftrightarrow> f = 0 \<or> (f = 1 \<and> \<not> eps_match bs)"
| "filter_open EpsilonCombine f as bs \<longleftrightarrow> f = 0 \<or> (f = 1 \<and> \<not> eps_input as) \<or> (f = 2 \<and> \<not> eps_match bs)"

fun filter_state :: "epsilon_filter \<Rightarrow> nat \<Rightarrow> bool" where
  "filter_state NoEpsilonFilter f \<longleftrightarrow> True"
| "filter_state Epsilon1First f \<longleftrightarrow> f \<le> 1"
| "filter_state EpsilonCombine f \<longleftrightarrow> f \<le> 2"

text \<open>The one choice that can come next.\<close>

definition next_choice :: "epsilon_filter \<Rightarrow> ('p, 'w) fst_arc list \<Rightarrow> ('q, 'v) fst_arc list \<Rightarrow> ('p, 'q, 'w, 'v) choice" where
  "next_choice k as bs =
     (if eps_match bs \<and> (k = EpsilonCombine \<longrightarrow> \<not> eps_input as) then (None, Some (hd bs))
      else if eps_input as \<and> (k = EpsilonCombine \<longrightarrow> \<not> eps_match bs) then (Some (hd as), None)
      else (Some (hd as), Some (hd bs)))"

lemma filter_state_step:
  assumes "allowed c s ch" and "filter_state (epsFilter c) (cfilter s)"
  shows "filter_state (epsFilter c) (cfilter (fdst (choice_arc c s ch)))"
  using assms by (cases "epsFilter c"; cases rule: choice_cases [OF assms(1)]) (auto simp: after_inputMatchEpsilon_def)

lemma path_filter_open:
  assumes K: "compose_fst_ok c" and "choice_path c s chs t" and "filter_state (epsFilter c) (cfilter s)"
  shows "filter_open (epsFilter c) (cfilter s) (inputs_of chs) (matches_of chs)"
  using assms(2,3)
proof (induction chs arbitrary: s)
  case Nil
  then show ?case by (cases "epsFilter c") auto
next
  case (Cons ch chs)
  let ?s' = "fdst (choice_arc c s ch)"
  have a: "allowed c s ch" and p: "choice_path c ?s' chs t" using Cons.prems(1) by simp_all
  have IH: "filter_open (epsFilter c) (cfilter ?s') (inputs_of chs) (matches_of chs)"
    by (rule Cons.IH [OF p filter_state_step [OF a Cons.prems(2)]])
  from a show ?case
    by (cases "epsFilter c"; cases rule: choice_cases)
      (use a IH Cons.prems(2) match_label [OF K] in \<open>auto simp: after_inputMatchEpsilon_def le_Suc_eq numeral_2_eq_2\<close>)
qed

lemma next_choice_forced:
  assumes K: "compose_fst_ok c" and k: "epsFilter c \<noteq> NoEpsilonFilter" and p: "choice_path c s (ch # chs) t"
    and f: "filter_state (epsFilter c) (cfilter s)"
  shows "ch = next_choice (epsFilter c) (inputs_of (ch # chs)) (matches_of (ch # chs))"
proof -
  let ?s' = "fdst (choice_arc c s ch)"
  have a: "allowed c s ch" and p': "choice_path c ?s' chs t" using p by simp_all
  have o: "filter_open (epsFilter c) (cfilter ?s') (inputs_of chs) (matches_of chs)"
    by (rule path_filter_open [OF K p' filter_state_step [OF a f]])
  from a show ?thesis
    by (cases "epsFilter c"; cases rule: choice_cases)
      (use a o k match_label [OF K] in \<open>auto simp: next_choice_def after_inputMatchEpsilon_def\<close>)
qed

lemma rest_of_choice:
  assumes "allowed c s ch"
  shows "inputs_of (ch # x) = inputs_of (ch # y) \<Longrightarrow> inputs_of x = inputs_of y"
    "matches_of (ch # x) = matches_of (ch # y) \<Longrightarrow> matches_of x = matches_of y"
  by (cases rule: choice_cases [OF assms], simp_all)+

lemma choice_path_unique:
  assumes K: "compose_fst_ok c" and k: "epsFilter c \<noteq> NoEpsilonFilter"
    and "choice_path c s chs t" and "choice_path c s chs' t'" and "filter_state (epsFilter c) (cfilter s)"
    and "inputs_of chs = inputs_of chs'" and "matches_of chs = matches_of chs'"
  shows "chs = chs'"
  using assms(3-7)
proof (induction chs arbitrary: s chs')
  case Nil
  show ?case
  proof (cases chs')
    case (Cons ch chs)
    then have "allowed c s ch" using Nil by simp
    then show ?thesis using Nil(4,5) Cons by (cases rule: choice_cases) auto
  qed simp
next
  case (Cons ch chs)
  show ?case
  proof (cases chs')
    case Nil
    have "allowed c s ch" using Cons.prems by simp
    then show ?thesis using Cons.prems(4,5) Nil by (cases rule: choice_cases) auto
  next
    case c': (Cons ch' cs)
    have e: "ch = ch'"
      using next_choice_forced [OF K k Cons.prems(1,3)] next_choice_forced [OF K k _ Cons.prems(3), of ch' cs t'] Cons.prems(2,4,5) c' by simp
    have a: "allowed c s ch" using Cons.prems by simp
    then have i: "inputs_of chs = inputs_of cs" "matches_of chs = matches_of cs"
      using rest_of_choice [OF a, of chs cs] Cons.prems(4,5) c' e by simp_all
    have "chs = cs"
      using Cons.IH [of "fdst (choice_arc c s ch)" cs] Cons.prems(1,2) c' e i filter_state_step [OF a Cons.prems(3)] by simp
    then show ?thesis using e c' by simp
  qed
qed

text \<open>Whenever the filter is open for two paths with the same symbols, they can be paired.\<close>

lemma choice_path_exists:
  assumes K: "compose_fst_ok c"
  shows "input_path c (cinput s) as p' \<Longrightarrow> match_path c (cmatch s) bs q' \<Longrightarrow>
    symbols (map (\<lambda>a. snd (flabel a)) as) = symbols (map (\<lambda>b. fst (flabel b)) bs) \<Longrightarrow>
    filter_open (epsFilter c) (cfilter s) as bs \<Longrightarrow>
    \<exists>chs f. choice_path c s chs \<lparr>cinput = p', cfilter = f, cmatch = q'\<rparr> \<and> inputs_of chs = as \<and> matches_of chs = bs"
proof (induction "length as + length bs" arbitrary: s as bs rule: less_induct)
  case less
  let ?k = "epsFilter c"
  define Q where "Q s as bs chs \<longleftrightarrow> (\<exists>f. choice_path c s chs \<lparr>cinput = p', cfilter = f, cmatch = q'\<rparr> \<and> inputs_of chs = as \<and> matches_of chs = bs)" for s as bs chs
  have go: "\<exists>chs. Q s as bs chs" if "allowed c s ch" "Q (fdst (choice_arc c s ch)) as' bs' chs"
    "inputs_of chs = as' \<Longrightarrow> matches_of chs = bs' \<Longrightarrow> inputs_of (ch # chs) = as \<and> matches_of (ch # chs) = bs" for ch as' bs' chs
    using that by (intro exI [of _ "ch # chs"]) (auto simp: Q_def)
  consider "eps_match bs" "?k = EpsilonCombine \<longrightarrow> \<not> eps_input as" | "eps_input as" "\<not> eps_match bs"
    | "eps_input as" "eps_match bs" "?k = EpsilonCombine" | "\<not> eps_input as" "\<not> eps_match bs" by blast
  then have "\<exists>chs. Q s as bs chs"
  proof cases
    case 1
    then obtain b bs' where b: "bs = b # bs'" "fst (flabel b) = EPSILON_ID" by (cases bs) auto
    let ?ch = "(None, Some b) :: ('a, 'b, 'c, 'd) choice"
    have a: "allowed c s ?ch" "filter_open ?k (cfilter (fdst (choice_arc c s ?ch))) as bs'"
      using 1 b less.prems by (cases ?k; auto)+
    obtain chs where "Q (fdst (choice_arc c s ?ch)) as bs' chs"
      using less.hyps [of as bs' "fdst (choice_arc c s ?ch)"] a(2) b less.prems by (auto simp: Q_def)
    then show ?thesis by (rule go [OF a(1)]) (simp add: b)
  next
    case 2
    then obtain a as' where x: "as = a # as'" "snd (flabel a) = EPSILON_ID" by (cases as) auto
    let ?ch = "(Some a, None) :: ('a, 'b, 'c, 'd) choice"
    have a: "allowed c s ?ch" "filter_open ?k (cfilter (fdst (choice_arc c s ?ch))) as' bs"
      using 2 x less.prems by (cases ?k; auto)+
    obtain chs where "Q (fdst (choice_arc c s ?ch)) as' bs chs"
      using less.hyps [of as' bs "fdst (choice_arc c s ?ch)"] a(2) x less.prems by (auto simp: Q_def)
    then show ?thesis by (rule go [OF a(1)]) (simp add: x)
  next
    case 3
    then obtain a as' b bs' where x: "as = a # as'" "snd (flabel a) = EPSILON_ID" "bs = b # bs'" "fst (flabel b) = EPSILON_ID"
      by (cases as; cases bs) auto
    let ?ch = "(Some a, Some b) :: ('a, 'b, 'c, 'd) choice"
    have a: "allowed c s ?ch" "filter_open ?k (cfilter (fdst (choice_arc c s ?ch))) as' bs'"
      using 3 x less.prems by (auto simp: after_inputMatchEpsilon_def)
    obtain chs where "Q (fdst (choice_arc c s ?ch)) as' bs' chs"
      using less.hyps [of as' bs' "fdst (choice_arc c s ?ch)"] a(2) x less.prems by (auto simp: Q_def)
    then show ?thesis by (rule go [OF a(1)]) (simp add: x)
  next
    case 4
    show ?thesis
    proof (cases as)
      case Nil
      then have "bs = []" using 4 less.prems(3) by (cases bs) auto
      then show ?thesis using Nil less.prems(1,2) by (intro exI [of _ "[]"]) (auto simp: Q_def intro!: exI [of _ "cfilter s"])
    next
      case (Cons a as')
      then obtain b bs' where b: "bs = b # bs'" "snd (flabel a) = fst (flabel b)" "snd (flabel a) \<noteq> EPSILON_ID"
        "symbols (map (\<lambda>a. snd (flabel a)) as') = symbols (map (\<lambda>b. fst (flabel b)) bs')"
        using 4 less.prems(3) by (cases bs) auto
      let ?ch = "(Some a, Some b) :: ('a, 'b, 'c, 'd) choice"
      have a: "allowed c s ?ch" "filter_open ?k (cfilter (fdst (choice_arc c s ?ch))) as' bs'"
        using Cons b less.prems by (cases ?k; auto)+
      obtain chs where "Q (fdst (choice_arc c s ?ch)) as' bs' chs"
        using less.hyps [of as' bs' "fdst (choice_arc c s ?ch)"] a(2) Cons b less.prems by (auto simp: Q_def)
      then show ?thesis by (rule go [OF a(1)]) (simp add: Cons b)
    qed
  qed
  then show ?case by (auto simp: Q_def)
qed

section \<open>Symbols and weights of a composed path\<close>

fun composed_path :: "('p, 'q, 'w, 'v) compose_fst \<Rightarrow> ('p, 'q) compose_state \<Rightarrow> (('p, 'q) compose_state, 'w) fst_arc list \<Rightarrow>
    ('p, 'q) compose_state \<Rightarrow> bool" where
  "composed_path c s [] t \<longleftrightarrow> s = t"
| "composed_path c s (x # xs) t \<longleftrightarrow> x \<in> set (generated_arcs c s) \<and> composed_path c (fdst x) xs t"

fun choice_arcs :: "('p, 'q, 'w, 'v) compose_fst \<Rightarrow> ('p, 'q) compose_state \<Rightarrow> ('p, 'q, 'w, 'v) choice list \<Rightarrow>
    (('p, 'q) compose_state, 'w) fst_arc list" where
  "choice_arcs c s [] = []"
| "choice_arcs c s (ch # chs) = choice_arc c s ch # choice_arcs c (fdst (choice_arc c s ch)) chs"

lemma composed_path_choices:
  assumes "plain_match c"
  shows "composed_path c s xs t \<longleftrightarrow> (\<exists>chs. choice_path c s chs t \<and> xs = choice_arcs c s chs)"
proof (induction xs arbitrary: s)
  case Nil
  have "s = t" if "choice_path c s chs t" "[] = choice_arcs c s chs" for chs using that by (cases chs) simp_all
  then show ?case by (auto intro: exI [of _ "[]"])
next
  case (Cons x xs)
  have "x \<in> set (generated_arcs c s) \<longleftrightarrow> (\<exists>ch. allowed c s ch \<and> x = choice_arc c s ch)"
    by (auto simp: generated_arcs_choices [OF assms] set_choices [symmetric])
  then have "composed_path c s (x # xs) t \<longleftrightarrow>
      (\<exists>ch. allowed c s ch \<and> x = choice_arc c s ch \<and> (\<exists>chs. choice_path c (fdst x) chs t \<and> xs = choice_arcs c (fdst x) chs))"
    using Cons by auto
  also have "\<dots> \<longleftrightarrow> (\<exists>chs. choice_path c s chs t \<and> x # xs = choice_arcs c s chs)"
  proof
    assume "\<exists>ch. allowed c s ch \<and> x = choice_arc c s ch \<and> (\<exists>chs. choice_path c (fdst x) chs t \<and> xs = choice_arcs c (fdst x) chs)"
    then obtain ch chs where "allowed c s ch" "x = choice_arc c s ch" "choice_path c (fdst x) chs t" "xs = choice_arcs c (fdst x) chs" by blast
    then show "\<exists>chs. choice_path c s chs t \<and> x # xs = choice_arcs c s chs" by (intro exI [of _ "ch # chs"]) simp
  next
    assume "\<exists>chs. choice_path c s chs t \<and> x # xs = choice_arcs c s chs"
    then obtain chs where "choice_path c s chs t" "x # xs = choice_arcs c s chs" by blast
    then show "\<exists>ch. allowed c s ch \<and> x = choice_arc c s ch \<and> (\<exists>chs. choice_path c (fdst x) chs t \<and> xs = choice_arcs c (fdst x) chs)"
      by (cases chs) auto
  qed
  finally show ?case .
qed

lemma choice_arcs_symbols:
  assumes P: "plain_match c" and "choice_path c s chs t"
  shows "symbols (map (\<lambda>x. fst (flabel x)) (choice_arcs c s chs)) = symbols (map (\<lambda>a. fst (flabel a)) (inputs_of chs)) \<and>
    symbols (map (\<lambda>x. snd (flabel x)) (choice_arcs c s chs)) = symbols (map (\<lambda>b. snd (flabel b)) (matches_of chs))"
  using assms(2)
proof (induction chs arbitrary: s)
  case (Cons ch chs)
  then have a: "allowed c s ch" and p: "choice_path c (fdst (choice_arc c s ch)) chs t" by simp_all
  have phi: "snd (flabel b) \<noteq> PHI_ID" if "b \<in> set (arcsMatchingInput c q x)" for b q x using P that by (simp add: plain_match_def)
  from a show ?case
    by (cases rule: choice_cases) (use a Cons.IH [OF p] phi in \<open>auto simp: match_only_arc_def input_only_arc_def both_arc_def\<close>)
qed simp

text \<open>The weights, for a product \<open>w + mix v\<close> (\<open>MixFeature\<close> with its scale).\<close>

lemma choice_arcs_weight:
  fixes c :: "('p, 'q, 'w::comm_monoid_add, 'v) compose_fst"
  assumes times: "\<And>w v. ctimes c w v = w + mix v" and one: "wone c = 0" and "choice_path c s chs t"
  shows "sum_list (map fweight (choice_arcs c s chs)) =
    sum_list (map fweight (inputs_of chs)) + sum_list (map (\<lambda>b. mix (fweight b)) (matches_of chs))"
  using assms(3)
proof (induction chs arbitrary: s)
  case (Cons ch chs)
  then have a: "allowed c s ch" and p: "choice_path c (fdst (choice_arc c s ch)) chs t" by simp_all
  from a show ?case
    by (cases rule: choice_cases)
      (use Cons.IH [OF p] in \<open>simp_all add: match_only_arc_def input_only_arc_def both_arc_def times one algebra_simps\<close>)
qed simp

section \<open>The properties\<close>

definition input_relation :: "('p, 'q, 'w::monoid_add, 'v) compose_fst \<Rightarrow> (Sym list \<times> Sym list \<times> 'w) set" where
  "input_relation c = {(symbols (map (\<lambda>a. fst (flabel a)) as), symbols (map (\<lambda>a. snd (flabel a)) as), sum_list (map fweight as)) | as p.
     input_path c (inputStart c) as p \<and> inputFinal c p}"

definition match_relation :: "('v \<Rightarrow> 'w::monoid_add) \<Rightarrow> ('p, 'q, 'w, 'v) compose_fst \<Rightarrow> (Sym list \<times> Sym list \<times> 'w) set" where
  "match_relation mix c = {(symbols (map (\<lambda>b. fst (flabel b)) bs), symbols (map (\<lambda>b. snd (flabel b)) bs), sum_list (map (\<lambda>b. mix (fweight b)) bs)) |
     bs q. match_path c (matchStart c) bs q \<and> matchFinal c q}"

definition composed_relation :: "('p, 'q, 'w::monoid_add, 'v) compose_fst \<Rightarrow> (Sym list \<times> Sym list \<times> 'w) set" where
  "composed_relation c = {(symbols (map (\<lambda>x. fst (flabel x)) xs), symbols (map (\<lambda>x. snd (flabel x)) xs), sum_list (map fweight xs)) | xs t.
     composed_path c (compose_start c) xs t \<and> compose_final c t}"

lemma start_open [simp]: "filter_open k 0 as bs" "filter_state k 0"
  by (cases k; simp)+

text \<open>Two machines: the input reads 1 2 and writes an epsilon and 3, the other reads an epsilon and 3 and writes 4 5.\<close>

definition sample_input :: "nat \<Rightarrow> (nat, int) fst_arc list" where
  "sample_input p =
     (if p = 0 then [\<lparr>fdst = 1, flabel = (terminal 1, EPSILON_ID), fweight = 1, fannotations = []\<rparr>]
      else if p = 1 then [\<lparr>fdst = 2, flabel = (terminal 2, terminal 3), fweight = 10, fannotations = []\<rparr>] else [])"

definition sample_matches :: "nat \<Rightarrow> (nat, int) fst_arc list" where
  "sample_matches q =
     (if q = 0 then [\<lparr>fdst = 1, flabel = (EPSILON_ID, terminal 4), fweight = 100, fannotations = []\<rparr>]
      else if q = 1 then [\<lparr>fdst = 2, flabel = (terminal 3, terminal 5), fweight = 1000, fannotations = []\<rparr>] else [])"

definition sample_compose :: "epsilon_filter \<Rightarrow> (nat, nat, int, int) compose_fst" where
  "sample_compose k =
     \<lparr>inputArcs = sample_input, arcsMatchingInput = (\<lambda>q x. filter (\<lambda>b. fst (flabel b) = x) (sample_matches q)),
      whichSpecials = specials_set specials_empty EPSILON_ID, epsFilter = k, ctimes = (+), wone = 0, inputStart = 0, matchStart = 0,
      inputFinal = (\<lambda>p. p = 2), matchFinal = (\<lambda>q. q = 2)\<rparr>"

lemma sample_terms:
  "terminal 3 \<noteq> EPSILON_ID" "terminal 3 \<noteq> PHI_ID" "terminal 5 \<noteq> PHI_ID" "terminal 4 \<noteq> PHI_ID" "EPSILON_ID \<noteq> PHI_ID"
  "isValid (terminal 3)" "isValid EPSILON_ID" "terminal 1 \<noteq> EPSILON_ID" "terminal 2 \<noteq> EPSILON_ID" "terminal 4 \<noteq> EPSILON_ID" "terminal 5 \<noteq> EPSILON_ID"
  by (simp_all add: EPSILON_ID_def PHI_ID_def specialTerminal_def terminal_def isValid_def sym_consts)

lemma sample_plain: "plain_match (sample_compose k)"
proof -
  have "specials_test (specials_set specials_empty EPSILON_ID) EPSILON_ID" "\<not> specials_test (specials_set specials_empty EPSILON_ID) SIGMA_ID"
    "\<not> specials_test (specials_set specials_empty EPSILON_ID) RHO_ID" "\<not> specials_test (specials_set specials_empty EPSILON_ID) PHI_ID"
    by (simp_all add: specials_test_def specials_set_def specials_empty_def EPSILON_ID_def SIGMA_ID_def RHO_ID_def PHI_ID_def specialTerminal_def)
  then show ?thesis
    by (auto simp: plain_match_def compose_fst_ok_def sample_compose_def sample_input_def sample_matches_def sample_terms split: if_splits)
qed

lemma sample_ok: "compose_fst_ok (sample_compose k)"
  using sample_plain by (simp add: plain_match_def)

text \<open>
  Property C7 (one path for each pair of paths). Let the match transducer have no sigma, rho or phi arcs and the filter be
  \<open>Epsilon1First\<close> or \<open>EpsilonCombine\<close>. The arcs that the generators give for a composed state are those of its choices, in that
  order. A path of the input transducer and a path of the match transducer, from the states of a composed state with filter state 0,
  whose inner symbols agree, come from exactly one sequence of choices, and the arcs of that sequence are a path of generated arcs
  to the composed state of the two ends.
\<close>

theorem compose_paths_unique:
  assumes "plain_match c" and "epsFilter c \<noteq> NoEpsilonFilter" and "input_path c p as p'" and "match_path c q bs q'"
    and "symbols (map (\<lambda>a. snd (flabel a)) as) = symbols (map (\<lambda>b. fst (flabel b)) bs)"
  shows "(\<forall>s. generated_arcs c s = map (choice_arc c s) (choices c s)) \<and>
    (\<exists>!chs. inputs_of chs = as \<and> matches_of chs = bs \<and>
      (\<exists>f. choice_path c \<lparr>cinput = p, cfilter = 0, cmatch = q\<rparr> chs \<lparr>cinput = p', cfilter = f, cmatch = q'\<rparr>)) \<and>
    (\<forall>chs f. choice_path c \<lparr>cinput = p, cfilter = 0, cmatch = q\<rparr> chs \<lparr>cinput = p', cfilter = f, cmatch = q'\<rparr> \<longrightarrow>
      composed_path c \<lparr>cinput = p, cfilter = 0, cmatch = q\<rparr> (choice_arcs c \<lparr>cinput = p, cfilter = 0, cmatch = q\<rparr> chs)
        \<lparr>cinput = p', cfilter = f, cmatch = q'\<rparr>)"
proof (intro conjI allI impI)
  let ?s = "\<lparr>cinput = p, cfilter = 0, cmatch = q\<rparr>"
  have K: "compose_fst_ok c" using assms(1) by (simp add: plain_match_def)
  show "generated_arcs c s = map (choice_arc c s) (choices c s)" for s by (rule generated_arcs_choices [OF assms(1)])
  show "composed_path c ?s (choice_arcs c ?s chs) \<lparr>cinput = p', cfilter = f, cmatch = q'\<rparr>"
    if "choice_path c ?s chs \<lparr>cinput = p', cfilter = f, cmatch = q'\<rparr>" for chs f
    using that composed_path_choices [OF assms(1)] by blast
  obtain chs f where c: "choice_path c ?s chs \<lparr>cinput = p', cfilter = f, cmatch = q'\<rparr>" "inputs_of chs = as" "matches_of chs = bs"
    using choice_path_exists [OF K, of ?s as p' bs q'] assms(3-5) by auto
  show "\<exists>!chs. inputs_of chs = as \<and> matches_of chs = bs \<and> (\<exists>f. choice_path c ?s chs \<lparr>cinput = p', cfilter = f, cmatch = q'\<rparr>)"
  proof (rule ex1I [of _ chs])
    fix chs' assume "inputs_of chs' = as \<and> matches_of chs' = bs \<and> (\<exists>f. choice_path c ?s chs' \<lparr>cinput = p', cfilter = f, cmatch = q'\<rparr>)"
    then show "chs' = chs"
      using choice_path_unique [OF K assms(2) _ c(1), of chs'] c(2,3) by auto
  qed (use c in auto)
qed

theorem compose_paths_unique_witness:
  "\<exists>!chs. inputs_of chs = sample_input 0 @ sample_input 1 \<and> matches_of chs = sample_matches 0 @ sample_matches 1 \<and>
    (\<exists>f. choice_path (sample_compose EpsilonCombine) \<lparr>cinput = 0, cfilter = 0, cmatch = 0\<rparr> chs \<lparr>cinput = 2, cfilter = f, cmatch = 2\<rparr>)"
  by (rule compose_paths_unique [OF sample_plain, THEN conjunct2, THEN conjunct1])
    (simp_all add: sample_compose_def sample_input_def sample_matches_def sample_terms)

text \<open>
  Without a filter the two epsilons of the example can be taken in two orders, and the pair of paths is found twice.
\<close>

lemma no_filter_duplicates:
  assumes "a = hd (sample_input 0)" and "b = hd (sample_matches 0)"
    and "c = sample_compose NoEpsilonFilter" and "s = \<lparr>cinput = 0, cfilter = 0, cmatch = 0\<rparr>" and "t = \<lparr>cinput = 1, cfilter = 0, cmatch = 1\<rparr>"
  shows "choice_path c s [(Some a, None), (None, Some b)] t" "choice_path c s [(None, Some b), (Some a, None)] t"
  by (simp_all add: assms sample_compose_def sample_input_def sample_matches_def input_only_arc_def match_only_arc_def)

lemma composed_relation_mix:
  fixes c :: "('p, 'q, 'w::comm_monoid_add, 'v) compose_fst"
  assumes P: "plain_match c" and times: "\<And>w v. ctimes c w v = w + mix v" and one: "wone c = 0"
  shows "composed_relation c = {(x, z, w1 + w2) | x y z w1 w2. (x, y, w1) \<in> input_relation c \<and> (y, z, w2) \<in> match_relation mix c}"
proof (intro equalityI subsetI)
  have K: "compose_fst_ok c" using P by (simp add: plain_match_def)
  fix xzw assume "xzw \<in> composed_relation c"
  then obtain chs t where c: "choice_path c (compose_start c) chs t" "compose_final c t"
    "xzw = (symbols (map (\<lambda>x. fst (flabel x)) (choice_arcs c (compose_start c) chs)), symbols (map (\<lambda>x. snd (flabel x)) (choice_arcs c (compose_start c) chs)),
      sum_list (map fweight (choice_arcs c (compose_start c) chs)))"
    by (auto simp: composed_relation_def composed_path_choices [OF P])
  note S = choice_path_sound [OF K c(1)] choice_arcs_symbols [OF P c(1)] choice_arcs_weight [OF times one c(1)]
  have "(symbols (map (\<lambda>a. fst (flabel a)) (inputs_of chs)), symbols (map (\<lambda>a. snd (flabel a)) (inputs_of chs)), sum_list (map fweight (inputs_of chs))) \<in> input_relation c"
    using S(1) c(2) by (auto simp: input_relation_def compose_start_def compose_final_def)
  moreover have "(symbols (map (\<lambda>b. fst (flabel b)) (matches_of chs)), symbols (map (\<lambda>b. snd (flabel b)) (matches_of chs)),
      sum_list (map (\<lambda>b. mix (fweight b)) (matches_of chs))) \<in> match_relation mix c"
    using S(1) c(2) by (auto simp: match_relation_def compose_start_def compose_final_def)
  ultimately show "xzw \<in> {(x, z, w1 + w2) | x y z w1 w2. (x, y, w1) \<in> input_relation c \<and> (y, z, w2) \<in> match_relation mix c}"
    using S c(3) by auto
next
  have K: "compose_fst_ok c" using P by (simp add: plain_match_def)
  fix xzw assume "xzw \<in> {(x, z, w1 + w2) | x y z w1 w2. (x, y, w1) \<in> input_relation c \<and> (y, z, w2) \<in> match_relation mix c}"
  then obtain as p bs q where r: "input_path c (inputStart c) as p" "inputFinal c p" "match_path c (matchStart c) bs q" "matchFinal c q"
    "symbols (map (\<lambda>a. snd (flabel a)) as) = symbols (map (\<lambda>b. fst (flabel b)) bs)"
    "xzw = (symbols (map (\<lambda>a. fst (flabel a)) as), symbols (map (\<lambda>b. snd (flabel b)) bs),
      sum_list (map fweight as) + sum_list (map (\<lambda>b. mix (fweight b)) bs))"
    by (auto simp: input_relation_def match_relation_def)
  obtain chs f where c: "choice_path c (compose_start c) chs \<lparr>cinput = p, cfilter = f, cmatch = q\<rparr>" "inputs_of chs = as" "matches_of chs = bs"
    using choice_path_exists [OF K, of "compose_start c" as p bs q] r(1,3,5) by (auto simp: compose_start_def)
  have "composed_path c (compose_start c) (choice_arcs c (compose_start c) chs) \<lparr>cinput = p, cfilter = f, cmatch = q\<rparr>"
    using c(1) composed_path_choices [OF P] by blast
  moreover have "compose_final c \<lparr>cinput = p, cfilter = f, cmatch = q\<rparr>" using r(2,4) by (simp add: compose_final_def)
  ultimately show "xzw \<in> composed_relation c"
    using choice_arcs_symbols [OF P c(1)] choice_arcs_weight [OF times one c(1)] c(2,3) r(6) unfolding composed_relation_def by force
qed

text \<open>
  Composition. With any of the three filters, and a match transducer without sigma, rho and phi, the lazily
  composed transducer relates \<open>x\<close> to \<open>z\<close> with cost \<open>w\<close> exactly if, for some \<open>y\<close>, the input transducer relates \<open>x\<close> to \<open>y\<close> and
  the match transducer \<open>y\<close> to \<open>z\<close>, with costs that add up to \<open>w\<close>.
\<close>

theorem compose_relation:
  fixes c :: "('p, 'q, 'w::comm_monoid_add, 'v) compose_fst"
  assumes P: "plain_match c" and times: "\<And>w v. ctimes c w v = w + mix v" and one: "wone c = 0"
  shows "composed_relation c = {(x, z, w1 + w2) | x y z w1 w2. (x, y, w1) \<in> input_relation c \<and> (y, z, w2) \<in> match_relation mix c}"
  by (rule composed_relation_mix [OF assms])

theorem compose_relation_witness:
  "([terminal 1, terminal 2], [terminal 4, terminal 5], 1111) \<in> composed_relation (sample_compose Epsilon1First)"
proof -
  let ?c = "sample_compose Epsilon1First"
  have "input_path ?c (inputStart ?c) (sample_input 0 @ sample_input 1) 2 \<and> inputFinal ?c 2"
    "match_path ?c (matchStart ?c) (sample_matches 0 @ sample_matches 1) 2 \<and> matchFinal ?c 2"
    by (simp_all add: sample_compose_def sample_input_def sample_matches_def)
  note P = this
  have "([terminal 1, terminal 2], [terminal 3], 11) \<in> input_relation ?c"
    unfolding input_relation_def using P(1)
    by (intro CollectI exI [of _ "sample_input 0 @ sample_input 1"] exI [of _ 2]) (simp add: sample_input_def sample_terms)
  moreover have "([terminal 3], [terminal 4, terminal 5], 1100) \<in> match_relation id ?c"
    unfolding match_relation_def using P(2)
    by (intro CollectI exI [of _ "sample_matches 0 @ sample_matches 1"] exI [of _ 2]) (simp add: sample_matches_def sample_terms)
  moreover have "\<And>w v. ctimes ?c w v = w + id v" "wone ?c = 0" by (simp_all add: sample_compose_def)
  ultimately show ?thesis using compose_relation [OF sample_plain, of Epsilon1First id] by force
qed

theorem compose_outArcs_correct_witness:
  "\<exists>xs s'. appendGenerate flatten_alive flatten_peek (flatten_pop (\<lambda>a. fweight a))
      (compose_outArcs id (sample_compose EpsilonCombine) \<lparr>cinput = 0, cfilter = 0, cmatch = 0\<rparr> (\<lambda>_. undefined)) [] = Some (xs, length xs, s') \<and>
    length xs = 3"
proof -
  let ?c = "sample_compose EpsilonCombine" and ?s = "\<lparr>cinput = 0, cfilter = 0, cmatch = 0\<rparr> :: (nat, nat) compose_state"
  obtain xs s' where x: "appendGenerate flatten_alive flatten_peek (flatten_pop (\<lambda>a. id (fweight a))) (compose_outArcs id ?c ?s (\<lambda>_. undefined)) [] = Some (xs, length xs, s')"
    "mset xs = mset (composed_arcs ?c ?s)" using compose_outArcs_correct [OF sample_ok, of id EpsilonCombine ?s "\<lambda>_. undefined"] by blast
  have "length xs = length (choices ?c ?s)"
    using x(2) composed_arcs_choices [OF sample_plain, of EpsilonCombine ?s] by (metis length_map size_mset)
  also have "\<dots> = 3" by (simp add: choices_def input_choices_def sample_compose_def sample_input_def sample_matches_def sample_terms)
  finally show ?thesis using x(1) by auto
qed

text \<open>
  A phi arc takes no input arc, but it carries the annotations of the last input arc that was looked at: \<open>r.inArc\<close> is
  filled in the loop, and only its state and label are replaced.
\<close>

lemma phi_arc_takes_annotations:
  fixes c :: "(nat, nat, int, int) compose_fst"
  assumes "c = \<lparr>inputArcs = (\<lambda>p. [\<lparr>fdst = 1, flabel = (terminal 1, terminal 3), fweight = 1, fannotations = [JUMP_WALL_ID]\<rparr>]),
      arcsMatchingInput = (\<lambda>q x. if x = PHI_ID then [\<lparr>fdst = 1, flabel = (PHI_ID, terminal 4), fweight = 2, fannotations = []\<rparr>] else []),
      whichSpecials = specials_set specials_empty PHI_ID, epsFilter = Epsilon1First, ctimes = (+), wone = 0, inputStart = 0, matchStart = 0,
      inputFinal = (\<lambda>p. True), matchFinal = (\<lambda>q. True)\<rparr>"
  shows "composed_arcs c \<lparr>cinput = 0, cfilter = 0, cmatch = 0\<rparr> =
    [\<lparr>fdst = \<lparr>cinput = 0, cfilter = 0, cmatch = 1\<rparr>, flabel = (EPSILON_ID, terminal 4), fweight = 2, fannotations = [JUMP_WALL_ID]\<rparr>]"
proof -
  have "specials_test (specials_set specials_empty PHI_ID) PHI_ID" "\<not> specials_test (specials_set specials_empty PHI_ID) SIGMA_ID"
    "\<not> specials_test (specials_set specials_empty PHI_ID) RHO_ID" "\<not> specials_test (specials_set specials_empty PHI_ID) EPSILON_ID"
    by (simp_all add: specials_test_def specials_set_def specials_empty_def EPSILON_ID_def SIGMA_ID_def RHO_ID_def PHI_ID_def specialTerminal_def)
  then show ?thesis
    by (simp add: assms composed_arcs_def special_arcs_def input_arc_arcs_def standard_match_def phi_annotations_def match_only_arc_def
        sample_terms Let_def)
qed

end
