(* ===== verification/Compose_Hg.thy ===== *)
theory Compose_Hg
  imports Compose_Paths Hg_Language
begin

text \<open>
  Composition of two hypergraphs: an fsm as a lazy transducer (\<open>sdl/Hypergraph/fs/Fst.hpp\<close>, \<open>FstArcFor\<close> in
  \<open>IHypergraph.hpp\<close>), the match transducer over sorted out-arcs, and \<open>compose\<close> with its choice of the filter
  (\<open>fs/Compose.hpp\<close>).

  The property says that the composed transducer relates the strings that the two hypergraphs relate, with the costs
  of both.
\<close>

section \<open>Arcs of an fsm\<close>

definition sizeForLabels :: "'w hg \<Rightarrow> StateId" where
  "sizeForLabels h = max (length (iLabelForState h)) (length (oLabelForState h))"

definition firstLexicalLabelPairOrEps :: "'w hg \<Rightarrow> 'w arc \<Rightarrow> LabelPair" where
  "firstLexicalLabelPairOrEps h x =
     (case find (\<lambda>l. isLexical (fst l) \<or> isLexical (snd l)) (map (labelPair h) (arc_tails x)) of
        None \<Rightarrow> kEpsilonLabelPair | Some l \<Rightarrow> l)"

text \<open>The label of the first tail behind the source that is no annotation, and the annotations before it.\<close>

fun annotatedLabel :: "'w hg \<Rightarrow> StateId list \<Rightarrow> Sym list \<Rightarrow> LabelPair \<times> Sym list" where
  "annotatedLabel h [] ann = (kEpsilonLabelPair, ann)"
| "annotatedLabel h (t # ts) ann =
     (if sizeForLabels h \<le> t then (kEpsilonLabelPair, ann)
      else let l = labelPair h t in if isAnnotation (fst l) then annotatedLabel h ts (ann @ [fst l]) else (l, ann))"

definition fstArcFor :: "bool \<Rightarrow> 'w hg \<Rightarrow> 'w arc \<Rightarrow> (StateId, 'w) fst_arc" where
  "fstArcFor annotations h x =
     (let (l, ann) =
        (if annotations then annotatedLabel h (tl (arc_tails x)) []
         else if length (arc_tails x) = 2
         then (let t = arc_tails x ! 1 in (if t < sizeForLabels h then labelPair h t else kEpsilonLabelPair, []))
         else (firstLexicalLabelPairOrEps h x, []))
      in \<lparr>fdst = arc_head x, flabel = l, fweight = arc_weight x, fannotations = ann\<rparr>)"

section \<open>Hypergraphs as transducers\<close>

definition isFsmLike :: "'w hg \<Rightarrow> bool" where
  "isFsmLike h \<longleftrightarrow> (let p = properties h in has p kFsm \<or> has p kGraph \<and> has p kOneLexical)"

definition hg_outArcs :: "bool \<Rightarrow> 'w hg \<Rightarrow> StateId \<Rightarrow> (StateId, 'w) fst_arc list" where
  "hg_outArcs annotations h s = map (\<lambda>a. fstArcFor annotations h (arcAt h a)) (outArcsOf h s)"

definition hg_arcsMatchingInput :: "'w hg \<Rightarrow> StateId \<Rightarrow> Sym \<Rightarrow> (StateId, 'w) fst_arc list" where
  "hg_arcsMatchingInput h s i = map (\<lambda>a. fstArcFor True h (arcAt h a)) (outArcsMatchingInput h s i)"

definition whichInputFstComposeSpecials :: "'w hg \<Rightarrow> compose_specials" where
  "whichInputFstComposeSpecials h =
     fold (\<lambda>s r. specials_check r (inputLabel h s))
       [(if has (props h) kSortedStates then sortedStatesNumNotTerminal h else 0)..<length (iLabelForState h)] specials_empty"

text \<open>
  The constructor of \<open>HypergraphMatchFst\<close> that \<open>compose\<close> reaches takes a constant reference, and so does not sort
  for the caller: it throws if the arcs are not known to be sorted.
\<close>

definition initSpecials :: "'w hg \<Rightarrow> compose_specials \<Rightarrow> compose_specials" where
  "initSpecials h which = (if specials_defined which then which else whichInputFstComposeSpecials h)"

definition matchFst_init :: "'w hg \<Rightarrow> compose_specials \<Rightarrow> sdl_error + compose_specials" where
  "matchFst_init h which =
     (if \<not> has (properties h) kSortedOutArcs then Inl ConfigException
      else let w = initSpecials h which in if \<not> isFsmLike h then Inl ConfigException else Inr w)"

text \<open>\<open>MixFeature\<close> for weights without features: a cost scaled, unless the scale is not a number (disabled).\<close>

definition mix_cost :: "('v \<Rightarrow> 'w) option \<Rightarrow> 'w::plus \<Rightarrow> 'v \<Rightarrow> 'w" where
  "mix_cost scale w v = (case scale of None \<Rightarrow> w | Some f \<Rightarrow> w + f v)"

section \<open>\<open>compose\<close>\<close>

record compose_options =
  allowDuplicatePaths :: bool
  allowDuplicatePathsIf1Best :: bool
  pruneToNbest :: nat
  epsilonMatchingFilter :: bool
  fstComposeOpt :: bool
  optAnnotations :: bool

definition usingLazyBest :: "compose_options \<Rightarrow> bool" where
  "usingLazyBest opt \<longleftrightarrow> pruneToNbest opt = 1"

definition allowDuplicatesEffective :: "compose_options \<Rightarrow> bool" where
  "allowDuplicatesEffective opt \<longleftrightarrow> allowDuplicatePaths opt \<or> allowDuplicatePathsIf1Best opt \<and> pruneToNbest opt = 1"

definition willLazyFsCompose :: "compose_options \<Rightarrow> 'w hg \<Rightarrow> bool" where
  "willLazyFsCompose opt h \<longleftrightarrow> fstComposeOpt opt \<and> isFsmLike h \<and> usingLazyBest opt"

definition allowDuplicateFilter :: "bool \<Rightarrow> epsilon_filter" where
  "allowDuplicateFilter idempotent = (if idempotent then NoEpsilonFilter else Epsilon1First)"

definition composeWithEpsilonFilterImpl ::
  "epsilon_filter \<Rightarrow> ('v \<Rightarrow> 'w) option \<Rightarrow> bool \<Rightarrow> 'w::{plus, zero} hg \<Rightarrow> 'v hg \<Rightarrow> compose_specials \<Rightarrow>
     sdl_error + (StateId, StateId, 'w, 'v) compose_fst" where
  "composeWithEpsilonFilterImpl k scale annotations inHg matchHg which =
     (if pVocab matchHg \<noteq> pVocab inHg then Inl ConfigException
      else if \<not> isFsmLike inHg then Inl ConfigException
      else bindR (matchFst_init matchHg which) (\<lambda>specials. Inr
        \<lparr>inputArcs = hg_outArcs annotations inHg, arcsMatchingInput = hg_arcsMatchingInput matchHg, whichSpecials = specials,
         epsFilter = k, ctimes = mix_cost scale, wone = 0, inputStart = start_state inHg, matchStart = start_state matchHg,
         inputFinal = (\<lambda>s. s = final_state inHg), matchFinal = (\<lambda>s. s = final_state matchHg)\<rparr>))"

definition compose_hg ::
  "bool \<Rightarrow> compose_options \<Rightarrow> ('v \<Rightarrow> 'w) option \<Rightarrow> 'w::{plus, zero} hg \<Rightarrow> 'v hg \<Rightarrow>
     sdl_error + (StateId, StateId, 'w, 'v) compose_fst" where
  "compose_hg idempotent opt scale inHg matchHg =
     (let which = whichInputFstComposeSpecials matchHg;
          k = (if allowDuplicatesEffective opt then allowDuplicateFilter idempotent
               else if epsilonMatchingFilter opt then EpsilonCombine else Epsilon1First)
      in composeWithEpsilonFilterImpl k scale (optAnnotations opt) inHg matchHg which)"

section \<open>Paths of a hypergraph as paths of the transducer\<close>

definition hg_relation :: "('v \<Rightarrow> 'w::monoid_add) \<Rightarrow> 'v hg \<Rightarrow> (Sym list \<times> Sym list \<times> 'w) set" where
  "hg_relation cost h = {(symbols (map (\<lambda>l. fst (fst l)) w), symbols (map (\<lambda>l. snd (fst l)) w), sum_list (map (\<lambda>l. cost (snd l)) w)) | w. w \<in> lang h}"

text \<open>
  The fsms: first-tail out-arcs, two tails, and labels on every symbol state that are neither missing nor annotations,
  and whose output is no phi.
\<close>

definition plain_fsm :: "'w hg \<Rightarrow> bool" where
  "plain_fsm h \<longleftrightarrow> hg_wf h \<and> storesFirstTailOutArcs h \<and> fsm_arcs h \<and> numStates h \<le> kNoState \<and> start_state h \<noteq> kNoState \<and>
     (\<forall>x \<in> ran (arc_heap h). let l = labelPair h (fsmSymbolState x) in
        fsmSymbolState x < sizeForLabels h \<and> isValid (fst l) \<and> isValid (snd l) \<and> \<not> isAnnotation (fst l) \<and> snd l \<noteq> PHI_ID)"

text \<open>What \<open>kSortedOutArcs\<close> stands for, and no label of the match fsm is a sigma, rho or phi.\<close>

definition plain_match_fsm :: "'w hg \<Rightarrow> bool" where
  "plain_match_fsm h \<longleftrightarrow> plain_fsm h \<and> (\<forall>s. sorted_wrt (\<lambda>a b. arcInput h a \<le> arcInput h b) (outArcsOf h s)) \<and>
     (\<forall>s. inputLabel h s \<notin> {SIGMA_ID, RHO_ID, PHI_ID}) \<and>
     (has (props h) kSortedStates \<longrightarrow> (\<forall>s < sortedStatesNumNotTerminal h. inputLabel h s \<noteq> EPSILON_ID))"

lemma plain_fsm_arc:
  assumes P: "plain_fsm h" and x: "x \<in> ran (arc_heap h)"
  shows "fstArcFor ann h x = \<lparr>fdst = arc_head x, flabel = labelPair h (fsmSymbolState x), fweight = arc_weight x, fannotations = []\<rparr>"
proof -
  have "length (arc_tails x) = 2" using P x by (auto simp: plain_fsm_def fsm_arcs_def)
  then obtain s t where t: "arc_tails x = [s, t]" by (auto simp: length_Suc_conv numeral_2_eq_2)
  then have "fsmSymbolState x = t" by (simp add: fsmSymbolState_def)
  then have "t < sizeForLabels h" "\<not> isAnnotation (fst (labelPair h t))" using P x by (auto simp: plain_fsm_def Let_def)
  then show ?thesis using t \<open>fsmSymbolState x = t\<close> by (simp add: fstArcFor_def Let_def)
qed

lemma first_weight_pos: "0 < first_weight x s \<longleftrightarrow> isFsmFrom x s"
  by (cases "arc_tails x") (auto simp: first_weight_def isFsmFrom_def)

lemma plain_fsm_out:
  assumes P: "plain_fsm h"
  shows "a \<in> set (outArcsOf h s) \<longleftrightarrow> (\<exists>x. arc_heap h a = Some x \<and> isFsmFrom x s)"
proof -
  have ok: "index_ok first_weight (arc_heap h) (outArcsPerState h)" using P by (simp add: plain_fsm_def hg_wf_def)
  show ?thesis unfolding outArcsOf_def index_member [OF ok] first_weight_pos ..
qed

lemma plain_fsm_outArcs:
  assumes P: "plain_fsm h"
  shows "y \<in> set (hg_outArcs ann h s) \<longleftrightarrow> (\<exists>x \<in> ran (arc_heap h). isFsmFrom x s \<and> y = fstArcFor ann h x)"
proof -
  have "y \<in> set (hg_outArcs ann h s) \<longleftrightarrow> (\<exists>a. a \<in> set (outArcsOf h s) \<and> y = fstArcFor ann h (arcAt h a))"
    by (auto simp: hg_outArcs_def)
  also have "\<dots> \<longleftrightarrow> (\<exists>a x. arc_heap h a = Some x \<and> isFsmFrom x s \<and> y = fstArcFor ann h x)"
    unfolding plain_fsm_out [OF P] arcAt_def by (metis option.sel)
  finally show ?thesis unfolding ran_def by blast
qed

lemma outArcsMatching_kNoState: "outArcsMatchingInput h kNoState i = []"
  by (simp add: outArcsMatchingInput_def)

lemma plain_fsm_from:
  assumes "plain_fsm h" and "x \<in> ran (arc_heap h)" and "isFsmFrom x s"
  shows "s \<noteq> kNoState"
proof -
  obtain a where a: "arc_heap h a = Some x" using assms(2) by (auto simp: ran_def)
  have "arc_tails x ! 0 \<in> set (arc_tails x)" using assms(3) unfolding isFsmFrom_def by (intro nth_mem) simp
  moreover have "\<forall>t \<in> set (arc_tails x). t < numStates h"
    using assms(1) a by (simp add: plain_fsm_def hg_wf_def arcs_bounded_def)
  ultimately have "s < numStates h" using assms(3) by (simp add: isFsmFrom_def)
  then show ?thesis using assms(1) by (auto simp: plain_fsm_def)
qed

lemma plain_match_arcs:
  assumes P: "plain_match_fsm h"
  shows "y \<in> set (hg_arcsMatchingInput h s i) \<longleftrightarrow>
    (\<exists>x \<in> ran (arc_heap h). isFsmFrom x s \<and> inputLabel h (fsmSymbolState x) = i \<and> y = fstArcFor True h x)"
proof (cases "s = kNoState")
  case True
  have "plain_fsm h" using P by (simp add: plain_match_fsm_def)
  then have "\<not> isFsmFrom x s" if "x \<in> ran (arc_heap h)" for x using plain_fsm_from [of h x s] that True by blast
  then show ?thesis using True by (auto simp: hg_arcsMatchingInput_def outArcsMatching_kNoState)
next
  case False
  have p: "plain_fsm h" and so: "sorted_wrt (\<lambda>a b. arcInput h a \<le> arcInput h b) (outArcsOf h s)" using P by (simp_all add: plain_match_fsm_def)
  have "y \<in> set (hg_arcsMatchingInput h s i) \<longleftrightarrow>
      (\<exists>a. a \<in> set (outArcsOf h s) \<and> arcInput h a = i \<and> y = fstArcFor True h (arcAt h a))"
    unfolding hg_arcsMatchingInput_def matching_filter [OF False so] by auto
  also have "\<dots> \<longleftrightarrow> (\<exists>a x. arc_heap h a = Some x \<and> isFsmFrom x s \<and> inputLabel h (fsmSymbolState x) = i \<and> y = fstArcFor True h x)"
    unfolding plain_fsm_out [OF p] arcInput_def arcAt_def by (metis option.sel)
  finally show ?thesis unfolding ran_def by blast
qed

lemma labelPair_input: "fst (labelPair h s) = inputLabel h s"
  by (simp add: labelPair_def Let_def)

lemma plain_fsm_fields:
  assumes "plain_fsm h" and "x \<in> ran (arc_heap h)"
  shows "fdst (fstArcFor ann h x) = arc_head x" "flabel (fstArcFor ann h x) = labelPair h (fsmSymbolState x)"
    "fweight (fstArcFor ann h x) = arc_weight x"
  by (simp_all add: plain_fsm_arc [OF assms])

lemma path_map_Cons:
  "(\<exists>xs. path A p xs r \<and> y # ys = map f xs) \<longleftrightarrow>
     (\<exists>x \<in> A. isFsmFrom x p \<and> y = f x \<and> (\<exists>xs. path A (arc_head x) xs r \<and> ys = map f xs))"
proof -
  have "(\<exists>xs. path A p xs r \<and> y # ys = map f xs) \<longleftrightarrow> (\<exists>x xs. path A p (x # xs) r \<and> y = f x \<and> ys = map f xs)"
    unfolding Cons_eq_map_conv by blast
  then show ?thesis by (simp only: path.simps) blast
qed

lemma input_path_hg:
  assumes P: "plain_fsm h" and c: "inputArcs c = hg_outArcs ann h"
  shows "input_path c p ys p' \<longleftrightarrow> (\<exists>xs. path (ran (arc_heap h)) p xs p' \<and> ys = map (fstArcFor ann h) xs)"
proof (induction ys arbitrary: p)
  case (Cons y ys)
  have "input_path c p (y # ys) p' \<longleftrightarrow> (\<exists>x \<in> ran (arc_heap h). isFsmFrom x p \<and> y = fstArcFor ann h x \<and>
      input_path c (fdst y) ys p')"
    by (auto simp: c plain_fsm_outArcs [OF P])
  also have "\<dots> \<longleftrightarrow> (\<exists>x \<in> ran (arc_heap h). isFsmFrom x p \<and> y = fstArcFor ann h x \<and> input_path c (arc_head x) ys p')"
    using plain_fsm_fields(1) [OF P] by metis
  also have "\<dots> \<longleftrightarrow> (\<exists>xs. path (ran (arc_heap h)) p xs p' \<and> y # ys = map (fstArcFor ann h) xs)"
    unfolding Cons path_map_Cons ..
  finally show ?case .
qed auto

lemma match_path_hg:
  assumes P: "plain_match_fsm h" and c: "arcsMatchingInput c = hg_arcsMatchingInput h"
  shows "match_path c q ys q' \<longleftrightarrow> (\<exists>xs. path (ran (arc_heap h)) q xs q' \<and> ys = map (fstArcFor True h) xs)"
proof (induction ys arbitrary: q)
  case (Cons y ys)
  have p: "plain_fsm h" using P by (simp add: plain_match_fsm_def)
  have "match_path c q (y # ys) q' \<longleftrightarrow> (\<exists>x \<in> ran (arc_heap h). isFsmFrom x q \<and> inputLabel h (fsmSymbolState x) = fst (flabel y) \<and>
      y = fstArcFor True h x \<and> match_path c (fdst y) ys q')"
    by (auto simp: c plain_match_arcs [OF P])
  also have "\<dots> \<longleftrightarrow> (\<exists>x \<in> ran (arc_heap h). isFsmFrom x q \<and> y = fstArcFor True h x \<and> match_path c (arc_head x) ys q')"
    using plain_fsm_fields(1,2) [OF p, of _ True] labelPair_input by metis
  also have "\<dots> \<longleftrightarrow> (\<exists>xs. path (ran (arc_heap h)) q xs q' \<and> y # ys = map (fstArcFor True h) xs)"
    unfolding Cons path_map_Cons ..
  finally show ?case .
qed auto

section \<open>The composed transducer\<close>

lemma letters_of_path:
  assumes "plain_fsm h" and "path (ran (arc_heap h)) p xs q"
  shows "map (\<lambda>a. fst (flabel a)) (map (fstArcFor ann h) xs) = map (\<lambda>l. fst (fst l)) (map (arc_letter h) xs)"
    and "map (\<lambda>a. snd (flabel a)) (map (fstArcFor ann h) xs) = map (\<lambda>l. snd (fst l)) (map (arc_letter h) xs)"
    and "map (\<lambda>a. f (fweight a)) (map (fstArcFor ann h) xs) = map (\<lambda>l. f (snd l)) (map (arc_letter h) xs)"
  using path_arcs [OF assms(2)] plain_fsm_fields [OF assms(1), of _ ann] by (auto simp: arc_letter_def)

definition path_values :: "('w \<Rightarrow> 'a::monoid_add) \<Rightarrow> (LabelPair \<times> 'w) list \<Rightarrow> Sym list \<times> Sym list \<times> 'a" where
  "path_values f w = (symbols (map (\<lambda>l. fst (fst l)) w), symbols (map (\<lambda>l. snd (fst l)) w), sum_list (map (\<lambda>l. f (snd l)) w))"

lemma values_of_path:
  assumes "plain_fsm h" and "path (ran (arc_heap h)) p xs q"
  shows "(symbols (map (\<lambda>a. fst (flabel a)) (map (fstArcFor ann h) xs)), symbols (map (\<lambda>a. snd (flabel a)) (map (fstArcFor ann h) xs)),
      sum_list (map (\<lambda>a. f (fweight a)) (map (fstArcFor ann h) xs))) = path_values f (map (arc_letter h) xs)"
  unfolding path_values_def letters_of_path [OF assms] ..

lemma collect_image:
  assumes "\<And>x. Q x \<Longrightarrow> F x = G (L x)"
  shows "{F x | x. Q x} = {G w | w. w \<in> {L x | x. Q x}}"
proof (intro equalityI subsetI)
  fix z assume "z \<in> {F x | x. Q x}"
  then obtain x where "Q x" "z = G (L x)" using assms by blast
  then show "z \<in> {G w | w. w \<in> {L x | x. Q x}}" by blast
next
  fix z assume "z \<in> {G w | w. w \<in> {L x | x. Q x}}"
  then obtain x where x: "Q x" "z = G (L x)" by blast
  then have "z = F x" using assms by simp
  then show "z \<in> {F x | x. Q x}" using x(1) by blast
qed

lemma plain_lang:
  assumes "plain_fsm h"
  shows "lang h = {map (arc_letter h) xs | xs. path (ran (arc_heap h)) (start_state h) xs (final_state h)}"
proof -
  have "set_mset (hg_arcs h) = ran (arc_heap h)" using assms by (simp add: plain_fsm_def set_mset_hg_arcs)
  then show ?thesis using assms by (simp add: lang_def plain_fsm_def)
qed

lemma input_relation_hg:
  assumes P: "plain_fsm h" and c: "inputArcs c = hg_outArcs ann h" "inputStart c = start_state h" "inputFinal c = (\<lambda>s. s = final_state h)"
  shows "input_relation c = hg_relation id h"
proof -
  have "input_relation c = {(symbols (map (\<lambda>a. fst (flabel a)) (map (fstArcFor ann h) xs)), symbols (map (\<lambda>a. snd (flabel a)) (map (fstArcFor ann h) xs)),
      sum_list (map (\<lambda>a. id (fweight a)) (map (fstArcFor ann h) xs))) | xs. path (ran (arc_heap h)) (start_state h) xs (final_state h)}"
    unfolding input_relation_def c input_path_hg [OF P c(1)] id_apply by blast
  also have "\<dots> = hg_relation id h"
    unfolding hg_relation_def plain_lang [OF P] path_values_def [symmetric]
    by (rule collect_image) (rule values_of_path [OF P])
  finally show ?thesis .
qed

lemma match_relation_hg:
  assumes M: "plain_match_fsm h" and c: "arcsMatchingInput c = hg_arcsMatchingInput h" "matchStart c = start_state h" "matchFinal c = (\<lambda>s. s = final_state h)"
  shows "match_relation mix c = hg_relation mix h"
proof -
  have P: "plain_fsm h" using M by (simp add: plain_match_fsm_def)
  have "match_relation mix c = {(symbols (map (\<lambda>a. fst (flabel a)) (map (fstArcFor True h) xs)), symbols (map (\<lambda>a. snd (flabel a)) (map (fstArcFor True h) xs)),
      sum_list (map (\<lambda>a. mix (fweight a)) (map (fstArcFor True h) xs))) | xs. path (ran (arc_heap h)) (start_state h) xs (final_state h)}"
    unfolding match_relation_def c match_path_hg [OF M c(1)] by blast
  also have "\<dots> = hg_relation mix h"
    unfolding hg_relation_def plain_lang [OF P] path_values_def [symmetric]
    by (rule collect_image) (rule values_of_path [OF P])
  finally show ?thesis .
qed

text \<open>The specials that \<open>compose\<close> passes are those of the input labels.\<close>

lemma specials_fold:
  assumes "isFstComposeSpecial t"
  shows "specials_test (fold (\<lambda>s r. specials_check r (f s)) xs r) t \<longleftrightarrow> specials_test r t \<or> t \<in> f ` set xs"
  by (induction xs arbitrary: r) (auto simp: specials_check_test [OF assms])

lemma which_specials_test:
  assumes "isFstComposeSpecial t"
  shows "specials_test (whichInputFstComposeSpecials h) t \<longleftrightarrow>
    (\<exists>s. (has (props h) kSortedStates \<longrightarrow> sortedStatesNumNotTerminal h \<le> s) \<and> s < length (iLabelForState h) \<and> inputLabel h s = t)"
proof -
  have "\<not> specials_test specials_empty t" by (simp add: specials_test_def specials_empty_def)
  then show ?thesis unfolding whichInputFstComposeSpecials_def specials_fold [OF assms] by auto
qed

lemma plain_specials:
  assumes P: "plain_match_fsm h"
  shows "t \<in> {SIGMA_ID, RHO_ID, PHI_ID} \<Longrightarrow> \<not> specials_test (whichInputFstComposeSpecials h) t"
    and "hg_arcsMatchingInput h q EPSILON_ID \<noteq> [] \<Longrightarrow> specials_test (whichInputFstComposeSpecials h) EPSILON_ID"
proof -
  assume t: "t \<in> {SIGMA_ID, RHO_ID, PHI_ID}"
  then have "isFstComposeSpecial t" by (auto simp: isFstComposeSpecial_iff)
  then show "\<not> specials_test (whichInputFstComposeSpecials h) t"
    using P t unfolding which_specials_test [OF \<open>isFstComposeSpecial t\<close>] plain_match_fsm_def by blast
next
  assume "hg_arcsMatchingInput h q EPSILON_ID \<noteq> []"
  then obtain y where "y \<in> set (hg_arcsMatchingInput h q EPSILON_ID)" by fastforce
  then obtain x where x: "x \<in> ran (arc_heap h)" "inputLabel h (fsmSymbolState x) = EPSILON_ID" unfolding plain_match_arcs [OF P] by blast
  let ?s = "fsmSymbolState x"
  have "?s < length (iLabelForState h)"
    using x(2) by (rule contrapos_pp) (simp add: inputLabel_def getOrElse_def)
  moreover have "has (props h) kSortedStates \<longrightarrow> sortedStatesNumNotTerminal h \<le> ?s"
    using P x(2) unfolding plain_match_fsm_def by (meson leI)
  moreover have "isFstComposeSpecial EPSILON_ID" by (simp add: isFstComposeSpecial_iff)
  ultimately show "specials_test (whichInputFstComposeSpecials h) EPSILON_ID" using x(2) which_specials_test by blast
qed

lemma compose_hg_result:
  assumes "compose_hg idem opt scale h1 h2 = Inr c"
  shows "\<exists>k. c = \<lparr>inputArcs = hg_outArcs (optAnnotations opt) h1, arcsMatchingInput = hg_arcsMatchingInput h2,
    whichSpecials = whichInputFstComposeSpecials h2, epsFilter = k, ctimes = mix_cost scale, wone = 0, inputStart = start_state h1,
    matchStart = start_state h2, inputFinal = (\<lambda>s. s = final_state h1), matchFinal = (\<lambda>s. s = final_state h2)\<rparr>"
  using assms
  by (auto simp: compose_hg_def composeWithEpsilonFilterImpl_def matchFst_init_def initSpecials_def bindR_def Let_def split: if_splits)

lemma plain_composed:
  assumes r: "compose_hg idem opt scale h1 h2 = Inr c" and P: "plain_fsm h1" and M: "plain_match_fsm h2"
  shows "plain_match c"
proof -
  obtain k where c: "c = \<lparr>inputArcs = hg_outArcs (optAnnotations opt) h1, arcsMatchingInput = hg_arcsMatchingInput h2,
    whichSpecials = whichInputFstComposeSpecials h2, epsFilter = k, ctimes = mix_cost scale, wone = 0, inputStart = start_state h1,
    matchStart = start_state h2, inputFinal = (\<lambda>s. s = final_state h1), matchFinal = (\<lambda>s. s = final_state h2)\<rparr>"
    using compose_hg_result [OF r] by blast
  have M': "plain_fsm h2" using M by (simp add: plain_match_fsm_def)
  have in1: "isValid (snd (flabel a)) \<and> snd (flabel a) \<noteq> PHI_ID" if "a \<in> set (hg_outArcs ann h1 p)" for a p ann
    using that P unfolding plain_fsm_outArcs [OF P] plain_fsm_def Let_def by (metis plain_fsm_fields(2) [OF P])
  have in2: "fst (flabel b) = x \<and> snd (flabel b) \<noteq> PHI_ID" if "b \<in> set (hg_arcsMatchingInput h2 q x)" for b q x
    using that M' unfolding plain_match_arcs [OF M] plain_fsm_def Let_def by (metis plain_fsm_fields(2) [OF M'] labelPair_input)
  show ?thesis
    unfolding plain_match_def compose_fst_ok_def c using in1 in2 plain_specials [OF M] by simp
qed

section \<open>An example\<close>

text \<open>The small fsm of one arc, and the same one marked as sorted.\<close>

definition sample_sorted :: "nat hg" where
  "sample_sorted = sample_fsm kStoreFirstTailOutArcs (terminal 5)
     \<lparr>props := props (sample_fsm kStoreFirstTailOutArcs (terminal 5)) OR kSortedOutArcs\<rparr>"

definition sample_options :: compose_options where
  "sample_options = \<lparr>allowDuplicatePaths = False, allowDuplicatePathsIf1Best = False, pruneToNbest = 1, epsilonMatchingFilter = True,
     fstComposeOpt = True, optAnnotations = True\<rparr>"

lemma sample_stores: "has kStoreFirstTailOutArcs kStoreAnyArcs"
  by (simp add: flag_simps)

lemma properties_sorted: "has (properties h) kSortedOutArcs \<longleftrightarrow> has (props h) kSortedOutArcs"
  by (simp add: properties_def computeFsmGraphProperty_def Let_def clearProp_def setProp_def flag_simps split: prod.split)

lemma sample_terminal: "isTerminal (terminal 5)" "isValid (terminal 5)" "\<not> isAnnotation (terminal 5)"
  "terminal 5 \<notin> {EPSILON_ID, SIGMA_ID, RHO_ID, PHI_ID}" "terminal 5 \<noteq> NoSymbol"
  by (simp_all add: sym_op_defs sym_consts isAnnotation_def isValid_def special_ids)

lemma sample_arc: "fsmSymbolState (new_arc_fsm 0 2 7 1) = 2" "arc_tails (new_arc_fsm 0 2 7 1) = [0, 2]" "arc_head (new_arc_fsm 0 2 7 1) = 1"
  "arc_weight (new_arc_fsm 0 2 7 1) = 7"
  by (simp_all add: new_arc_fsm_def fsmSymbolState_def)

lemmas sample_arc_fields = sample_arc sample_arc [simplified]

lemma sample_plain_fsm: "plain_fsm (sample_fsm kStoreFirstTailOutArcs (terminal 5))" (is "plain_fsm ?h")
proof -
  note F = sample_fsm_facts [OF sample_stores, of "terminal 5"]
  have "labelPair ?h 2 = (terminal 5, terminal 5)"
    by (simp add: labelPair_def inputLabel_def outputLabelOrElse_def F getOrElse_def isValid_NoSymbol Let_def)
  moreover have "has kStoreFirstTailOutArcs kStoreFirstTailOutArcs" by (simp add: flag_simps)
  ultimately show ?thesis
    using sample_terminal by (simp add: plain_fsm_def fsm_arcs_def F sample_arc_fields sizeForLabels_def kNoState_def Let_def)
qed

lemma sample_sorted_fields:
  "arc_heap sample_sorted = [0 \<mapsto> new_arc_fsm 0 2 7 1]" "start_state sample_sorted = 0" "final_state sample_sorted = 1"
  "iLabelForState sample_sorted = [NoSymbol, NoSymbol, terminal 5]" "has (props sample_sorted) kSortedOutArcs"
  "\<not> has (props sample_sorted) kSortedStates" "\<not> fsmChecked sample_sorted" "pVocab sample_sorted = Some 0"
proof -
  let ?h = "sample_fsm kStoreFirstTailOutArcs (terminal 5)"
  have f: "final_state ?h = 1" "\<not> has (props ?h) kSortedStates"
    by (simp_all add: sample_fsm_def addNewArc_def newArc_def addArc_def notifyArcImpl_def sample_states_def flag_simps Let_def)
  note F = sample_fsm_facts [OF sample_stores, of "terminal 5"]
  show "arc_heap sample_sorted = [0 \<mapsto> new_arc_fsm 0 2 7 1]" "start_state sample_sorted = 0" "final_state sample_sorted = 1"
    "iLabelForState sample_sorted = [NoSymbol, NoSymbol, terminal 5]" "has (props sample_sorted) kSortedOutArcs"
    "\<not> fsmChecked sample_sorted" "pVocab sample_sorted = Some 0"
    by (simp_all add: sample_sorted_def F f flag_simps)
  show "\<not> has (props sample_sorted) kSortedStates" using f(2) by (simp add: sample_sorted_def flag_simps)
qed

lemma sample_sorted_plain_fsm: "plain_fsm sample_sorted"
proof -
  let ?h = "sample_fsm kStoreFirstTailOutArcs (terminal 5)"
  have st: "storesInArcs sample_sorted = storesInArcs ?h" "storesFirstTailOutArcs sample_sorted = storesFirstTailOutArcs ?h"
    "storesAllOutArcs sample_sorted = storesAllOutArcs ?h"
    by (simp_all add: sample_sorted_def storesInArcs_def storesFirstTailOutArcs_def storesAllOutArcs_def flag_simps)
  have "hg_wf sample_sorted = hg_wf ?h" by (rule hg_wf_same [OF _ _ _ st]) (simp_all add: sample_sorted_def)
  moreover have "labelPair sample_sorted = labelPair ?h"
    by (rule ext) (simp add: labelPair_def inputLabel_def outputLabelOrElse_def sample_sorted_def)
  moreover have "sizeForLabels sample_sorted = sizeForLabels ?h" "fsm_arcs sample_sorted = fsm_arcs ?h" "numStates sample_sorted = numStates ?h"
    "start_state sample_sorted = start_state ?h" "arc_heap sample_sorted = arc_heap ?h"
    by (simp_all add: sizeForLabels_def fsm_arcs_def sample_sorted_def)
  ultimately show ?thesis using sample_plain_fsm st(2) by (simp add: plain_fsm_def)
qed

lemma no_symbol_special: "NoSymbol \<notin> {SIGMA_ID, RHO_ID, PHI_ID}"
  by (simp add: special_ids NoSymbol_def kNoSymbol_def)

lemma sample_sorted_plain: "plain_match_fsm sample_sorted"
proof -
  have "sorted_wrt (\<lambda>a b. arcInput sample_sorted a \<le> arcInput sample_sorted b) (outArcsOf sample_sorted s)" for s
  proof -
    have "set (outArcsOf sample_sorted s) \<subseteq> {0}"
      using plain_fsm_out [OF sample_sorted_plain_fsm, of _ s] by (auto simp: sample_sorted_fields split: if_splits)
    then show ?thesis by (intro sorted_wrt_mono_rel [OF _ sorted_wrt_true]) auto
  qed
  moreover have "inputLabel sample_sorted s \<in> {NoSymbol, terminal 5}" for s
    by (auto simp: inputLabel_def getOrElse_def sample_sorted_fields nth_Cons' less_Suc_eq numeral_3_eq_3)
  then have "inputLabel sample_sorted s \<notin> {SIGMA_ID, RHO_ID, PHI_ID}" for s
    using sample_terminal(4) by (metis insertE insertI1 insertI2 singletonD no_symbol_special)
  ultimately show ?thesis using sample_sorted_plain_fsm by (simp add: plain_match_fsm_def sample_sorted_fields)
qed

lemma sample_composes: "\<exists>c. compose_hg True sample_options (Some id) (sample_fsm kStoreFirstTailOutArcs (terminal 5)) sample_sorted = Inr c"
proof -
  let ?h = "sample_fsm kStoreFirstTailOutArcs (terminal 5)"
  note F = sample_fsm_facts [OF sample_stores, of "terminal 5"]
  have "isFsm ?h" by (rule sample_fsm_isFsm [OF sample_stores sample_terminal(1)])
  moreover have "isFsm sample_sorted"
    using isFsm_iff [of sample_sorted] isFsm_iff [OF F(1,3)] \<open>isFsm ?h\<close> sample_sorted_plain_fsm
    by (simp add: sample_sorted_fields plain_fsm_def F isFsmArc_def hasTerminalLabel_def inputLabel_def kNoState_def)
  ultimately have "isFsmLike ?h" "isFsmLike sample_sorted" by (simp_all add: isFsmLike_def isFsm_def Let_def)
  then show ?thesis
    by (simp add: compose_hg_def composeWithEpsilonFilterImpl_def matchFst_init_def bindR_def properties_sorted sample_sorted_fields F Let_def)
qed

section \<open>The property\<close>

text \<open>
  Property C2 (composing two fsms). Where \<open>compose\<close> accepts two fsms, the match one without sigma, rho and phi labels, the lazy transducer
  it makes, with any options, relates \<open>x\<close> to \<open>z\<close> with cost \<open>w\<close> exactly if, for some \<open>y\<close>, the words of the
  first hypergraph relate \<open>x\<close> to \<open>y\<close> and those of the second relate \<open>y\<close> to \<open>z\<close>, with costs that add up to \<open>w\<close>, the second ones
  scaled by the mix.
\<close>

theorem compose_hg_relation:
  fixes h1 :: "'w::comm_monoid_add hg"
  assumes "compose_hg idem opt (Some mix) h1 h2 = Inr c" and "plain_fsm h1" and "plain_match_fsm h2"
  shows "composed_relation c =
    {(x, z, w1 + w2) | x y z w1 w2. (x, y, w1) \<in> hg_relation id h1 \<and> (y, z, w2) \<in> hg_relation mix h2}"
proof -
  obtain k where c: "c = \<lparr>inputArcs = hg_outArcs (optAnnotations opt) h1, arcsMatchingInput = hg_arcsMatchingInput h2,
    whichSpecials = whichInputFstComposeSpecials h2, epsFilter = k, ctimes = mix_cost (Some mix), wone = 0, inputStart = start_state h1,
    matchStart = start_state h2, inputFinal = (\<lambda>s. s = final_state h1), matchFinal = (\<lambda>s. s = final_state h2)\<rparr>"
    using compose_hg_result [OF assms(1)] by blast
  have "input_relation c = hg_relation id h1" by (rule input_relation_hg [OF assms(2)]) (simp_all add: c)
  moreover have "match_relation mix c = hg_relation mix h2" by (rule match_relation_hg [OF assms(3)]) (simp_all add: c)
  moreover have "\<And>w v. ctimes c w v = w + mix v" "wone c = 0" by (simp_all add: c mix_cost_def)
  ultimately show ?thesis using composed_relation_mix [OF plain_composed [OF assms]] by blast
qed

theorem compose_hg_relation_witness:
  "\<exists>c. compose_hg True sample_options (Some id) (sample_fsm kStoreFirstTailOutArcs (terminal 5)) sample_sorted = Inr c \<and>
     ([terminal 5], [terminal 5], 14) \<in> composed_relation c"
proof -
  let ?h = "sample_fsm kStoreFirstTailOutArcs (terminal 5)"
  obtain c where c: "compose_hg True sample_options (Some id) ?h sample_sorted = Inr c" using sample_composes by blast
  note F = sample_fsm_facts [OF sample_stores, of "terminal 5"]
  have "[((terminal 5, terminal 5), 7)] \<in> lang ?h" by (rule sample_fsm_lang(3) [OF sample_stores sample_terminal(1)])
  moreover have "lang sample_sorted = lang ?h"
    unfolding plain_lang [OF sample_sorted_plain_fsm] plain_lang [OF sample_plain_fsm]
    by (simp add: sample_sorted_def arc_letter_def [abs_def] labelPair_def inputLabel_def outputLabelOrElse_def)
  ultimately have "([terminal 5], [terminal 5], 7) \<in> hg_relation id ?h" "([terminal 5], [terminal 5], 7) \<in> hg_relation id sample_sorted"
    using sample_terminal(4) by (auto simp: hg_relation_def intro!: exI [of _ "[((terminal 5, terminal 5), 7)]"])
  then have "([terminal 5], [terminal 5], 7 + 7) \<in> composed_relation c"
    unfolding compose_hg_relation [OF c sample_plain_fsm sample_sorted_plain] by blast
  then show ?thesis using c by auto
qed

end
