(* ===== verification/Dynamic_Bitset.thy ===== *)
theory Dynamic_Bitset
  imports Hyp_Prelude "HOL-Library.Word"
begin

text \<open>
  The bitset of \<open>sdl/Util/dynamic_bitset.hpp\<close> with blocks of 64 bits (\<open>BitSet\<close>): a vector of blocks and a number of
  bits. Positions and sizes are naturals; \<open>npos\<close> is the largest 64-bit number. Three functions of Boost are
  parameters: \<open>lowest_bit\<close>, \<open>integer_log2\<close> and \<open>do_count\<close>.

  The invariant \<open>db_ok\<close> says that there are as many blocks as the bits need and that no unused bit is set. Under
  it a bitset is determined by its size and by \<open>dbit\<close>, its membership function, and the lemmas say what each operation does to both.
\<close>

unbundle bit_operations_syntax

section \<open>Representation\<close>

type_synonym block = "64 word"

record dynamic_bitset =
  blocks :: "block list"
  num_bits :: nat

definition npos :: nat where
  "npos = 2 ^ 64 - 1"

definition block_index :: "nat \<Rightarrow> nat" where
  "block_index pos = pos div 64"

definition bit_index :: "nat \<Rightarrow> nat" where
  "bit_index pos = pos mod 64"

definition bit_mask :: "nat \<Rightarrow> block" where
  "bit_mask pos = push_bit (bit_index pos) 1"

definition calc_num_blocks :: "nat \<Rightarrow> nat" where
  "calc_num_blocks n = n div 64 + (if n mod 64 \<noteq> 0 then 1 else 0)"

definition num_blocks :: "dynamic_bitset \<Rightarrow> nat" where
  "num_blocks b = length (blocks b)"

definition count_extra_bits :: "dynamic_bitset \<Rightarrow> nat" where
  "count_extra_bits b = bit_index (num_bits b)"

definition set_block :: "nat \<Rightarrow> block \<Rightarrow> dynamic_bitset \<Rightarrow> dynamic_bitset" where
  "set_block i x b = b\<lparr>blocks := (blocks b)[i := x]\<rparr>"

definition zero_unused_bits :: "dynamic_bitset \<Rightarrow> dynamic_bitset" where
  "zero_unused_bits b =
     (let e = count_extra_bits b; i = num_blocks b - 1
      in if e \<noteq> 0 then set_block i (blocks b ! i AND NOT (push_bit e (NOT 0))) b else b)"

definition check_invariants :: "dynamic_bitset \<Rightarrow> bool" where
  "check_invariants b =
     (let e = count_extra_bits b
      in if 0 < e \<and> last (blocks b) AND push_bit e (NOT 0) \<noteq> 0 then False
         else \<not> num_blocks b \<noteq> calc_num_blocks (num_bits b))"

section \<open>Construction and size\<close>

definition db_empty :: dynamic_bitset where
  "db_empty = \<lparr>blocks = [], num_bits = 0\<rparr>"

text \<open>The loop shifts the value by a whole block, which makes it zero (\<open>shifter\<close> with as many bits as a block).\<close>

definition init_from_unsigned_long :: "nat \<Rightarrow> block \<Rightarrow> dynamic_bitset" where
  "init_from_unsigned_long n value =
     (let bs = replicate (calc_num_blocks n) 0;
          v = (if n < 64 then value AND (push_bit n 1 - 1) else value)
      in \<lparr>blocks = (if v \<noteq> 0 then bs[0 := v] else bs), num_bits = n\<rparr>)"

definition init_from_block_range :: "block list \<Rightarrow> dynamic_bitset" where
  "init_from_block_range bs = \<lparr>blocks = bs, num_bits = 64 * length bs\<rparr>"

text \<open>Moving out of a bitset moves the vector but copies the size.\<close>

definition db_move :: "dynamic_bitset \<Rightarrow> dynamic_bitset \<times> dynamic_bitset" where
  "db_move o' = (\<lparr>blocks = blocks o', num_bits = num_bits o'\<rparr>, o'\<lparr>blocks := []\<rparr>)"

definition db_swap :: "dynamic_bitset \<Rightarrow> dynamic_bitset \<Rightarrow> dynamic_bitset \<times> dynamic_bitset" where
  "db_swap a b =
     (a\<lparr>blocks := blocks b, num_bits := num_bits b\<rparr>, b\<lparr>blocks := blocks a, num_bits := num_bits a\<rparr>)"

definition db_resize :: "nat \<Rightarrow> bool \<Rightarrow> dynamic_bitset \<Rightarrow> dynamic_bitset" where
  "db_resize n value b =
     (let old = num_blocks b; required = calc_num_blocks n; v = (if value then NOT 0 else 0);
          b1 = (if required \<noteq> old then b\<lparr>blocks := vec_resize (blocks b) required v\<rparr> else b);
          e = count_extra_bits b1;
          b2 = (if value \<and> num_bits b < n \<and> e \<noteq> 0 then set_block (old - 1) (blocks b1 ! (old - 1) OR push_bit e v) b1 else b1)
      in zero_unused_bits (b2\<lparr>num_bits := n\<rparr>))"

definition db_clear :: "dynamic_bitset \<Rightarrow> dynamic_bitset" where
  "db_clear b = b\<lparr>blocks := [], num_bits := 0\<rparr>"

section \<open>Single bits\<close>

definition unchecked_test :: "nat \<Rightarrow> dynamic_bitset \<Rightarrow> bool" where
  "unchecked_test pos b \<longleftrightarrow> blocks b ! block_index pos AND bit_mask pos \<noteq> 0"

definition db_test :: "nat \<Rightarrow> dynamic_bitset \<Rightarrow> bool" where
  "db_test pos b = unchecked_test pos b"

definition reset_bit :: "nat \<Rightarrow> dynamic_bitset \<Rightarrow> dynamic_bitset" where
  "reset_bit pos b = set_block (block_index pos) (blocks b ! block_index pos AND NOT (bit_mask pos)) b"

definition set_bit_to :: "nat \<Rightarrow> bool \<Rightarrow> dynamic_bitset \<Rightarrow> dynamic_bitset" where
  "set_bit_to pos val b =
     (if val then set_block (block_index pos) (blocks b ! block_index pos OR bit_mask pos) b else reset_bit pos b)"

definition flip_bit_at :: "nat \<Rightarrow> dynamic_bitset \<Rightarrow> dynamic_bitset" where
  "flip_bit_at pos b = set_block (block_index pos) (blocks b ! block_index pos XOR bit_mask pos) b"

definition test_set :: "nat \<Rightarrow> dynamic_bitset \<Rightarrow> bool \<times> dynamic_bitset" where
  "test_set pos b =
     (let x = blocks b ! block_index pos; mask = bit_mask pos in (x AND mask \<noteq> 0, set_block (block_index pos) (x OR mask) b))"

definition test_reset :: "nat \<Rightarrow> dynamic_bitset \<Rightarrow> bool \<times> dynamic_bitset" where
  "test_reset pos b =
     (let x = blocks b ! block_index pos; mask = bit_mask pos in (x AND mask \<noteq> 0, set_block (block_index pos) (x AND NOT mask) b))"

definition test_flip :: "nat \<Rightarrow> dynamic_bitset \<Rightarrow> bool \<times> dynamic_bitset" where
  "test_flip pos b =
     (let x = blocks b ! block_index pos; mask = bit_mask pos; bit = (x AND mask \<noteq> 0)
      in (bit, set_block (block_index pos) (if bit then x AND NOT mask else x OR mask) b))"

text \<open>The proxy \<open>reference\<close> of one bit: its assignments.\<close>

datatype ref_op = RefFlip | RefAssign bool | RefOr bool | RefAnd bool | RefXor bool | RefMinus bool

fun ref_apply :: "ref_op \<Rightarrow> block \<Rightarrow> block \<Rightarrow> block" where
  "ref_apply RefFlip m x = x XOR m"
| "ref_apply (RefAssign v) m x = (if v then x OR m else x AND NOT m)"
| "ref_apply (RefOr v) m x = (if v then x OR m else x)"
| "ref_apply (RefAnd v) m x = (if \<not> v then x AND NOT m else x)"
| "ref_apply (RefXor v) m x = (if v then x XOR m else x)"
| "ref_apply (RefMinus v) m x = (if v then x AND NOT m else x)"

definition reference_op :: "ref_op \<Rightarrow> nat \<Rightarrow> dynamic_bitset \<Rightarrow> dynamic_bitset" where
  "reference_op f pos b = set_block (block_index pos) (ref_apply f (bit_mask pos) (blocks b ! block_index pos)) b"

definition db_push_back :: "bool \<Rightarrow> dynamic_bitset \<Rightarrow> dynamic_bitset" where
  "db_push_back v b = (let sz = num_bits b in set_bit_to sz v (db_resize (sz + 1) False b))"

section \<open>All bits\<close>

definition set_all :: "dynamic_bitset \<Rightarrow> dynamic_bitset" where
  "set_all b = zero_unused_bits (b\<lparr>blocks := map (\<lambda>_. NOT 0) (blocks b)\<rparr>)"

definition reset_all :: "dynamic_bitset \<Rightarrow> dynamic_bitset" where
  "reset_all b = b\<lparr>blocks := map (\<lambda>_. 0) (blocks b)\<rparr>"

definition flip_all :: "dynamic_bitset \<Rightarrow> dynamic_bitset" where
  "flip_all b = zero_unused_bits (b\<lparr>blocks := map (\<lambda>x. NOT x) (blocks b)\<rparr>)"

definition block_op :: "(block \<Rightarrow> block \<Rightarrow> block) \<Rightarrow> dynamic_bitset \<Rightarrow> dynamic_bitset \<Rightarrow> dynamic_bitset" where
  "block_op f a b = a\<lparr>blocks := map (\<lambda>i. f (blocks a ! i) (blocks b ! i)) [0..<num_blocks a]\<rparr>"

definition and_with :: "dynamic_bitset \<Rightarrow> dynamic_bitset \<Rightarrow> dynamic_bitset" where
  "and_with a b = block_op (AND) a b"

definition or_with :: "dynamic_bitset \<Rightarrow> dynamic_bitset \<Rightarrow> dynamic_bitset" where
  "or_with a b = block_op (OR) a b"

definition xor_with :: "dynamic_bitset \<Rightarrow> dynamic_bitset \<Rightarrow> dynamic_bitset" where
  "xor_with a b = block_op (XOR) a b"

definition minus_with :: "dynamic_bitset \<Rightarrow> dynamic_bitset \<Rightarrow> dynamic_bitset" where
  "minus_with a b = block_op (\<lambda>x y. x AND NOT y) a b"

definition db_any :: "dynamic_bitset \<Rightarrow> bool" where
  "db_any b \<longleftrightarrow> list_ex (\<lambda>x. x \<noteq> 0) (blocks b)"

definition db_none :: "dynamic_bitset \<Rightarrow> bool" where
  "db_none b \<longleftrightarrow> \<not> db_any b"

definition db_count :: "(block list \<Rightarrow> nat) \<Rightarrow> dynamic_bitset \<Rightarrow> nat" where
  "db_count do_count b = do_count (blocks b)"

definition is_subset_of :: "dynamic_bitset \<Rightarrow> dynamic_bitset \<Rightarrow> bool" where
  "is_subset_of b a \<longleftrightarrow> list_all (\<lambda>i. blocks b ! i AND NOT (blocks a ! i) = 0) [0..<num_blocks b]"

fun proper_loop :: "block list \<Rightarrow> block list \<Rightarrow> bool \<Rightarrow> bool" where
  "proper_loop (bt # bs) (ba # as) proper =
     (if bt AND NOT ba \<noteq> 0 then False else proper_loop bs as (if ba AND NOT bt \<noteq> 0 then True else proper))"
| "proper_loop _ _ proper = proper"

definition is_proper_subset_of :: "dynamic_bitset \<Rightarrow> dynamic_bitset \<Rightarrow> bool" where
  "is_proper_subset_of b a = proper_loop (blocks b) (blocks a) False"

definition db_intersects :: "dynamic_bitset \<Rightarrow> dynamic_bitset \<Rightarrow> bool" where
  "db_intersects a b \<longleftrightarrow> list_ex (\<lambda>i. blocks a ! i AND blocks b ! i \<noteq> 0) [0..<min (num_blocks a) (num_blocks b)]"

definition db_equal :: "dynamic_bitset \<Rightarrow> dynamic_bitset \<Rightarrow> bool" where
  "db_equal a b \<longleftrightarrow> num_bits a = num_bits b \<and> blocks a = blocks b"

fun less_loop :: "nat \<Rightarrow> block list \<Rightarrow> block list \<Rightarrow> bool" where
  "less_loop 0 as bs = False"
| "less_loop (Suc i) as bs = (if as ! i < bs ! i then True else if as ! i > bs ! i then False else less_loop i as bs)"

definition db_less :: "dynamic_bitset \<Rightarrow> dynamic_bitset \<Rightarrow> bool" where
  "db_less a b = less_loop (num_blocks a) (blocks a) (blocks b)"

section \<open>Shifts and concatenation\<close>

text \<open>The loops move the blocks in place, downwards for \<open>\<lless>=\<close> and upwards for \<open>\<ggreater>=\<close>.\<close>

definition shl_loop :: "(block \<Rightarrow> block \<Rightarrow> block) \<Rightarrow> nat \<Rightarrow> nat list \<Rightarrow> block list \<Rightarrow> block list" where
  "shl_loop f d is bs = fold (\<lambda>i bs. bs[i + d := f (bs ! i) (bs ! (i - 1))]) is bs"

definition shift_left_with :: "nat \<Rightarrow> dynamic_bitset \<Rightarrow> dynamic_bitset" where
  "shift_left_with n b =
     (if num_bits b \<le> n then reset_all b
      else if 0 < n
      then (let lst = num_blocks b - 1; d = n div 64; r = bit_index n; idx = rev [1..<Suc (lst - d)];
                bs1 = (if r \<noteq> 0
                       then let bs = shl_loop (\<lambda>x y. push_bit r x OR drop_bit (64 - r) y) d idx (blocks b) in bs[d := push_bit r (bs ! 0)]
                       else let bs = shl_loop (\<lambda>x y. x) d idx (blocks b) in bs[d := bs ! 0])
            in zero_unused_bits (b\<lparr>blocks := replicate d 0 @ drop d bs1\<rparr>))
      else b)"

definition shr_loop :: "(block \<Rightarrow> block \<Rightarrow> block) \<Rightarrow> nat \<Rightarrow> nat list \<Rightarrow> block list \<Rightarrow> block list" where
  "shr_loop f d is bs = fold (\<lambda>i bs. bs[i - d := f (bs ! i) (bs ! (i + 1))]) is bs"

definition shift_right_with :: "nat \<Rightarrow> dynamic_bitset \<Rightarrow> dynamic_bitset" where
  "shift_right_with n b =
     (if num_bits b \<le> n then reset_all b
      else if 0 < n
      then (let lst = num_blocks b - 1; d = n div 64; r = bit_index n;
                bs1 = (if r \<noteq> 0
                       then let bs = shr_loop (\<lambda>x y. drop_bit r x OR push_bit (64 - r) y) d [d..<lst] (blocks b)
                            in bs[lst - d := drop_bit r (bs ! lst)]
                       else shr_loop (\<lambda>x y. x) d [d..<Suc lst] (blocks b))
            in b\<lparr>blocks := take (num_blocks b - d) bs1 @ replicate d 0\<rparr>)
      else b)"

definition append_block :: "block \<Rightarrow> dynamic_bitset \<Rightarrow> dynamic_bitset" where
  "append_block value b =
     (let r = count_extra_bits b;
          bs = (if r = 0 then blocks b @ [value]
                else let bs1 = blocks b @ [drop_bit (64 - r) value]; i = length bs1 - 2 in bs1[i := bs1 ! i OR push_bit r value])
      in b\<lparr>blocks := bs, num_bits := num_bits b + 64\<rparr>)"

fun append_loop :: "nat \<Rightarrow> block list \<Rightarrow> block list" where
  "append_loop r [] = []"
| "append_loop r (x # xs) =
     (drop_bit (64 - r) x OR (case xs of [] \<Rightarrow> 0 | y # ys \<Rightarrow> push_bit r y)) # append_loop r xs"

definition append_range :: "block list \<Rightarrow> dynamic_bitset \<Rightarrow> dynamic_bitset" where
  "append_range xs b =
     (if xs = [] then b
      else let r = count_extra_bits b;
               bs = (if r = 0 then blocks b @ xs
                     else (let i = length (blocks b) - 1 in (blocks b)[i := blocks b ! i OR push_bit r (hd xs)]) @ append_loop r xs)
           in b\<lparr>blocks := bs, num_bits := num_bits b + 64 * length xs\<rparr>)"

section \<open>Finding bits\<close>

definition do_find_from :: "(block \<Rightarrow> nat) \<Rightarrow> nat \<Rightarrow> dynamic_bitset \<Rightarrow> nat" where
  "do_find_from lowest_bit first b =
     (case dropWhile (\<lambda>i. blocks b ! i = 0) [first..<num_blocks b] of
        [] \<Rightarrow> npos | i # _ \<Rightarrow> i * 64 + lowest_bit (blocks b ! i))"

definition do_rfind_from :: "(block \<Rightarrow> nat) \<Rightarrow> nat \<Rightarrow> dynamic_bitset \<Rightarrow> nat" where
  "do_rfind_from integer_log2 first b =
     (case dropWhile (\<lambda>i. blocks b ! i = 0) (rev [0..<Suc first]) of
        [] \<Rightarrow> npos | i # _ \<Rightarrow> i * 64 + integer_log2 (blocks b ! i))"

definition find_first :: "(block \<Rightarrow> nat) \<Rightarrow> dynamic_bitset \<Rightarrow> nat" where
  "find_first lowest_bit b = do_find_from lowest_bit 0 b"

definition rfind_first :: "(block \<Rightarrow> nat) \<Rightarrow> dynamic_bitset \<Rightarrow> nat" where
  "rfind_first integer_log2 b = (if blocks b = [] then npos else do_rfind_from integer_log2 (length (blocks b) - 1) b)"

definition find_next :: "(block \<Rightarrow> nat) \<Rightarrow> nat \<Rightarrow> dynamic_bitset \<Rightarrow> nat" where
  "find_next lowest_bit pos b =
     (let sz = num_bits b
      in if sz - 1 \<le> pos \<or> sz = 0 then npos
         else let p = pos + 1; blk = block_index p; fore = drop_bit (bit_index p) (blocks b ! blk)
              in if fore \<noteq> 0 then p + lowest_bit fore else do_find_from lowest_bit (blk + 1) b)"

text \<open>In the first block the search goes on at block \<open>0 - 1\<close>, out of range: no result.\<close>

definition rfind_next :: "(block \<Rightarrow> nat) \<Rightarrow> nat \<Rightarrow> dynamic_bitset \<Rightarrow> nat option" where
  "rfind_next integer_log2 pos b =
     (if pos = 0 then Some npos
      else let p = pos - 1; blk = block_index p; after = blocks b ! blk AND drop_bit (bit_index p) (NOT 0)
           in if after \<noteq> 0 then Some (blk * 64 + integer_log2 after)
              else if blk = 0 then None else Some (do_rfind_from integer_log2 (blk - 1) b))"

section \<open>Conversions\<close>

definition to_string_helper :: "bool \<Rightarrow> dynamic_bitset \<Rightarrow> string" where
  "to_string_helper dump_all b =
     (let len = (if dump_all then 64 * num_blocks b else num_bits b)
      in fold (\<lambda>i s. if unchecked_test i b then s[len - 1 - i := CHR ''1''] else s) [0..<len] (replicate len (CHR ''0'')))"

definition db_to_string :: "dynamic_bitset \<Rightarrow> string" where
  "db_to_string b = to_string_helper False b"

definition dump_to_string :: "dynamic_bitset \<Rightarrow> string" where
  "dump_to_string b = to_string_helper True b"

definition init_from_string :: "string \<Rightarrow> nat \<Rightarrow> nat \<Rightarrow> nat \<Rightarrow> dynamic_bitset" where
  "init_from_string s pos n nbits =
     (let rlen = min n (length s - pos); sz = (if nbits \<noteq> npos then nbits else rlen);
          m = (if nbits < rlen then nbits else rlen)
      in fold (\<lambda>i b. if s ! (pos + m - 1 - i) = CHR ''1'' then set_bit_to i True b else b) [0..<m]
           \<lparr>blocks = replicate (calc_num_blocks sz) 0, num_bits = sz\<rparr>)"

definition to_block_range :: "dynamic_bitset \<Rightarrow> block list" where
  "to_block_range b = blocks b"

definition from_block_range :: "block list \<Rightarrow> dynamic_bitset \<Rightarrow> dynamic_bitset" where
  "from_block_range xs b = b\<lparr>blocks := xs @ drop (length xs) (blocks b)\<rparr>"

text \<open>None is the overflow error.\<close>

definition to_ulong :: "(block \<Rightarrow> nat) \<Rightarrow> dynamic_bitset \<Rightarrow> block option" where
  "to_ulong lowest_bit b =
     (if num_bits b = 0 then Some 0
      else if find_next lowest_bit 63 b \<noteq> npos then None
      else let last_block = block_index (min (num_bits b) 64 - 1)
           in Some (fold (\<lambda>i r. r OR push_bit (i * 64) (blocks b ! i)) [0..<Suc last_block] 0))"

section \<open>Reading from a stream\<close>

record bit_appender =
  app_bs :: dynamic_bitset
  app_n :: nat
  app_mask :: block

definition appender_new :: "dynamic_bitset \<Rightarrow> bit_appender" where
  "appender_new b = \<lparr>app_bs = b, app_n = 0, app_mask = 0\<rparr>"

text \<open>\<open>current\<close> points to the last block whenever the mask is not zero.\<close>

definition do_append :: "bool \<Rightarrow> bit_appender \<Rightarrow> bit_appender" where
  "do_append value a =
     (let a1 = (if app_mask a = 0 then a\<lparr>app_bs := append_block 0 (app_bs a), app_mask := push_bit 63 1\<rparr> else a);
          bs = app_bs a1; cur = num_blocks bs - 1;
          a2 = (if value then a1\<lparr>app_bs := set_block cur (blocks bs ! cur OR app_mask a1) bs\<rparr> else a1)
      in a2\<lparr>app_mask := app_mask a2 div 2, app_n := app_n a2 + 1\<rparr>)"

definition appender_finish :: "bit_appender \<Rightarrow> dynamic_bitset" where
  "appender_finish a =
     (let bs = app_bs a; b1 = bs\<lparr>blocks := rev (blocks bs)\<rparr>; offs = bit_index (app_n a);
          b2 = (if offs \<noteq> 0 then shift_right_with (64 - offs) b1 else b1)
      in db_resize (app_n a) False b2)"

text \<open>The loop of \<open>operator\<ggreater>\<close>: the characters left, and whether the input ended.\<close>

fun read_loop :: "nat \<Rightarrow> string \<Rightarrow> bit_appender \<Rightarrow> bit_appender \<times> string \<times> bool" where
  "read_loop limit [] a = (a, [], app_n a < limit)"
| "read_loop limit (c # cs) a =
     (if \<not> app_n a < limit then (a, c # cs, False)
      else let is_one = (c = CHR ''1'')
           in if \<not> is_one \<and> c \<noteq> CHR ''0'' then (a, c # cs, False) else read_loop limit cs (do_append is_one a))"

text \<open>The new bitset, the input left, and the bits \<open>eof\<close> and \<open>fail\<close> of the stream; the white space is skipped already.\<close>

definition read_bitset :: "nat \<Rightarrow> string \<Rightarrow> dynamic_bitset \<Rightarrow> dynamic_bitset \<times> string \<times> bool \<times> bool" where
  "read_bitset limit cs b =
     (let (a, rest, eof) = read_loop limit cs (appender_new (db_clear b)); b' = appender_finish a
      in (b', rest, eof, num_bits b' = 0))"

section \<open>Membership and the invariant\<close>

definition dbit :: "dynamic_bitset \<Rightarrow> nat \<Rightarrow> bool" where
  "dbit b i \<longleftrightarrow> i div 64 < length (blocks b) \<and> bit (blocks b ! (i div 64)) (i mod 64)"

definition db_ok :: "dynamic_bitset \<Rightarrow> bool" where
  "db_ok b \<longleftrightarrow> length (blocks b) = calc_num_blocks (num_bits b) \<and> (\<forall>i. dbit b i \<longrightarrow> i < num_bits b)"

definition bits_of :: "dynamic_bitset \<Rightarrow> bool list" where
  "bits_of b = map (dbit b) [0..<num_bits b]"

named_theorems dbit_simps

lemma calc_num_blocks_less: "i div 64 < calc_num_blocks n \<longleftrightarrow> i < 64 * calc_num_blocks n"
  by (simp add: calc_num_blocks_def) linarith

lemma calc_num_blocks_bounds: "n \<le> 64 * calc_num_blocks n" "64 * calc_num_blocks n < n + 64"
  unfolding calc_num_blocks_def using mult_div_mod_eq [of 64 n] mod_less_divisor [of 64 n] by (simp_all, linarith+)

lemma block_of_bit: "i < n \<Longrightarrow> i div 64 < calc_num_blocks n"
  using calc_num_blocks_bounds(1) [of n] calc_num_blocks_less [of i n] by linarith

lemma length_bits_of [simp]: "length (bits_of b) = num_bits b"
  by (simp add: bits_of_def)

lemma nth_bits_of [simp]: "i < num_bits b \<Longrightarrow> bits_of b ! i = dbit b i"
  by (simp add: bits_of_def)

lemma bit_word64: "(x :: block) = y \<longleftrightarrow> (\<forall>j < 64. bit x j = bit y j)"
  by (auto intro: bit_word_eqI)

lemma dbit_ext:
  assumes "length (blocks a) = length (blocks b)" and "\<And>i. dbit a i = dbit b i"
  shows "blocks a = blocks b"
proof (rule nth_equalityI [OF assms(1)])
  fix k assume k: "k < length (blocks a)"
  have "bit (blocks a ! k) j = bit (blocks b ! k) j" if "j < 64" for j
    using assms(2) [of "64 * k + j"] assms(1) k that by (simp add: dbit_def)
  then show "blocks a ! k = blocks b ! k" by (simp add: bit_word64)
qed

lemma db_eqI:
  assumes "db_ok a" and "db_ok b" and "bits_of a = bits_of b"
  shows "a = b"
proof -
  have n: "num_bits a = num_bits b" using arg_cong [OF assms(3), of length] by simp
  have "dbit a i = dbit b i" for i
  proof (cases "i < num_bits a")
    case True
    then show ?thesis using nth_bits_of [of i a] nth_bits_of [of i b] assms(3) n by simp
  next
    case False
    then show ?thesis using assms(1,2) n by (auto simp: db_ok_def)
  qed
  then have "blocks a = blocks b" using assms(1,2) n by (intro dbit_ext) (simp_all add: db_ok_def)
  then show ?thesis using n by simp
qed

lemma bit_not_block: "j < 64 \<Longrightarrow> bit (NOT x :: block) j \<longleftrightarrow> \<not> bit x j"
  by (simp add: bit_not_iff_eq possible_bit_word)

lemma bit_ones [simp]: "bit (NOT (Bit_Operations.mask e) :: block) j \<longleftrightarrow> e \<le> j \<and> j < 64"
  by (auto simp: bit_simps)

lemma bit_mask_less: "j < 64 \<Longrightarrow> bit (Bit_Operations.mask e :: block) j \<longleftrightarrow> j < e"
  by (simp add: bit_simps)

lemma dbit_sized: "dbit (b\<lparr>num_bits := n\<rparr>) i = dbit b i"
  by (simp add: dbit_def)

lemma dbit_set_block:
  "dbit (set_block k x b) i = (if i div 64 = k \<and> k < length (blocks b) then bit x (i mod 64) else dbit b i)"
  by (auto simp: dbit_def set_block_def nth_list_update)

lemma set_block_sizes [simp]: "num_bits (set_block k x b) = num_bits b" "length (blocks (set_block k x b)) = length (blocks b)"
  by (simp_all add: set_block_def)

lemma zero_unused_sizes [simp]: "num_bits (zero_unused_bits b) = num_bits b" "length (blocks (zero_unused_bits b)) = length (blocks b)"
  by (simp_all add: zero_unused_bits_def Let_def)

lemma dbit_zero_unused:
  assumes "length (blocks b) = calc_num_blocks (num_bits b)"
  shows "dbit (zero_unused_bits b) i \<longleftrightarrow> dbit b i \<and> i < num_bits b"
proof (cases "num_bits b mod 64 = 0")
  case True
  have "i < num_bits b" if "dbit b i"
    using that assms True by (simp add: dbit_def calc_num_blocks_def) linarith
  then show ?thesis using True by (auto simp: zero_unused_bits_def count_extra_bits_def bit_index_def)
next
  case False
  let ?q = "num_bits b div 64" and ?e = "num_bits b mod 64"
  have L: "length (blocks b) = Suc ?q" using assms False by (simp add: calc_num_blocks_def)
  have z: "zero_unused_bits b = set_block ?q (blocks b ! ?q AND NOT (push_bit ?e (NOT 0))) b"
    using False by (simp add: zero_unused_bits_def count_extra_bits_def bit_index_def num_blocks_def L Let_def)
  consider "i div 64 < ?q" | "i div 64 = ?q" | "?q < i div 64" by linarith
  then show ?thesis
  proof cases
    case 1
    then have "i < num_bits b" by (metis div_le_mono leI not_less)
    then show ?thesis using 1 by (simp add: z dbit_set_block)
  next
    case 2
    have "i < num_bits b \<longleftrightarrow> i mod 64 < ?e"
      using 2 mult_div_mod_eq [of 64 i] mult_div_mod_eq [of 64 "num_bits b"] by linarith
    moreover have "bit (blocks b ! ?q AND NOT (push_bit ?e (NOT 0))) (i mod 64) \<longleftrightarrow> bit (blocks b ! ?q) (i mod 64) \<and> i mod 64 < ?e"
      by (simp add: bit_and_iff bit_mask_less)
    ultimately show ?thesis using 2 L unfolding z dbit_set_block by (simp add: dbit_def)
  next
    case 3
    then have "\<not> dbit b i" using L by (simp add: dbit_def)
    then show ?thesis using 3 by (simp add: z dbit_set_block)
  qed
qed

lemma zero_unused_ok:
  "length (blocks b) = calc_num_blocks (num_bits b) \<Longrightarrow> db_ok (zero_unused_bits b)"
  by (simp add: db_ok_def dbit_zero_unused)

lemma check_invariants_ok:
  assumes "length (blocks b) = calc_num_blocks (num_bits b)"
  shows "check_invariants b \<longleftrightarrow> db_ok b"
proof (cases "num_bits b mod 64 = 0")
  case True
  have "i < num_bits b" if "dbit b i" for i
    using that assms True by (simp add: dbit_def calc_num_blocks_def) linarith
  then show ?thesis using True assms
    by (auto simp: check_invariants_def count_extra_bits_def bit_index_def num_blocks_def db_ok_def)
next
  case False
  let ?q = "num_bits b div 64" and ?e = "num_bits b mod 64"
  have L: "length (blocks b) = Suc ?q" using assms False by (simp add: calc_num_blocks_def)
  have l: "last (blocks b) = blocks b ! ?q" using L by (metis diff_Suc_1 last_conv_nth length_0_conv nat.simps(3))
  have u: "num_bits b \<le> i \<longleftrightarrow> ?q < i div 64 \<or> i div 64 = ?q \<and> ?e \<le> i mod 64" for i
    using mult_div_mod_eq [of 64 i] mult_div_mod_eq [of 64 "num_bits b"] mod_less_divisor [of 64 i] mod_less_divisor [of 64 "num_bits b"] by linarith
  have "(blocks b ! ?q AND push_bit ?e (NOT 0) = 0) \<longleftrightarrow> (\<forall>j < 64. ?e \<le> j \<longrightarrow> \<not> bit (blocks b ! ?q) j)"
    by (auto simp: bit_word64 bit_and_iff bit_not_block)
  also have "\<dots> \<longleftrightarrow> (\<forall>i. num_bits b \<le> i \<longrightarrow> \<not> dbit b i)"
  proof (intro iffI allI impI)
    fix i assume "\<forall>j < 64. ?e \<le> j \<longrightarrow> \<not> bit (blocks b ! ?q) j" "num_bits b \<le> i"
    then show "\<not> dbit b i" using L by (auto simp: u dbit_def)
  next
    fix j :: nat assume a: "\<forall>i. num_bits b \<le> i \<longrightarrow> \<not> dbit b i" "j < 64" "?e \<le> j"
    then have "num_bits b \<le> 64 * ?q + j" by (simp add: u)
    then show "\<not> bit (blocks b ! ?q) j" using a L by (auto simp: dbit_def dest: spec [of _ "64 * ?q + j"])
  qed
  finally show ?thesis using False assms
    by (auto simp: check_invariants_def count_extra_bits_def bit_index_def num_blocks_def db_ok_def l not_less) (metis not_less)
qed

section \<open>Single bits\<close>

lemma same_bit: "i div 64 = p div 64 \<and> i mod 64 = p mod (64::nat) \<longleftrightarrow> i = p"
  by (metis mult_div_mod_eq)

lemma bit_mask_iff: "j < 64 \<Longrightarrow> bit (bit_mask p) j \<longleftrightarrow> j = p mod 64"
  by (auto simp: bit_mask_def bit_index_def bit_simps)

lemma test_mask: "x AND bit_mask p \<noteq> 0 \<longleftrightarrow> bit x (p mod 64)"
  by (auto simp: bit_word64 bit_and_iff bit_mask_iff)

lemma change_bit:
  assumes ok: "db_ok b" and p: "p < num_bits b"
    and f: "\<And>j. j < 64 \<Longrightarrow> bit y j = (if j = p mod 64 then v else bit (blocks b ! (p div 64)) j)"
  defines "b' \<equiv> set_block (p div 64) y b"
  shows "db_ok b'" "num_bits b' = num_bits b" "dbit b' i = (if i = p then v else dbit b i)"
proof -
  have L: "p div 64 < length (blocks b)" using ok p by (simp add: db_ok_def block_of_bit)
  show d: "dbit b' i = (if i = p then v else dbit b i)" for i
    unfolding b'_def dbit_set_block using same_bit [of i p] L f [of "i mod 64"] by (auto simp: dbit_def)
  then show "db_ok b'" "num_bits b' = num_bits b" using ok p by (auto simp: db_ok_def b'_def)
qed

lemma test_iff: "db_ok b \<Longrightarrow> p < num_bits b \<Longrightarrow> db_test p b = dbit b p"
  by (simp add: db_test_def unchecked_test_def block_index_def test_mask dbit_def db_ok_def block_of_bit)

lemma db_test_ref: "db_ok b \<Longrightarrow> p < num_bits b \<Longrightarrow> bit (blocks b ! (p div 64)) (p mod 64) = dbit b p"
  by (simp add: dbit_def db_ok_def block_of_bit)

lemma set_bit_to_ok:
  assumes "db_ok b" and "p < num_bits b"
  shows "db_ok (set_bit_to p v b)" "num_bits (set_bit_to p v b) = num_bits b"
    "dbit (set_bit_to p v b) i = (if i = p then v else dbit b i)"
proof -
  let ?x = "blocks b ! (p div 64)"
  have e: "set_bit_to p v b = set_block (p div 64) (if v then ?x OR bit_mask p else ?x AND NOT (bit_mask p)) b"
    by (simp add: set_bit_to_def reset_bit_def block_index_def)
  have "j < 64 \<Longrightarrow> bit (if v then ?x OR bit_mask p else ?x AND NOT (bit_mask p)) j = (if j = p mod 64 then v else bit ?x j)" for j
    by (auto simp: bit_or_iff bit_and_iff bit_not_block bit_mask_iff)
  from change_bit [OF assms this] show "db_ok (set_bit_to p v b)" "num_bits (set_bit_to p v b) = num_bits b"
    "dbit (set_bit_to p v b) i = (if i = p then v else dbit b i)" unfolding e by blast+
qed

lemma reset_bit_set: "reset_bit p b = set_bit_to p False b"
  by (simp add: set_bit_to_def)

text \<open>The other ways to change a bit are \<open>set\<close> with a value read from the old bit.\<close>

lemma xor_mask:
  "x XOR bit_mask p = (if bit x (p mod 64) then x AND NOT (bit_mask p) else x OR bit_mask p)"
  by (auto simp: bit_word64 bit_xor_iff bit_or_iff bit_and_iff bit_not_block bit_mask_iff)

lemma same_mask:
  "bit x (p mod 64) \<Longrightarrow> x OR bit_mask p = x" "\<not> bit x (p mod 64) \<Longrightarrow> x AND NOT (bit_mask p) = x"
  by (auto simp: bit_word64 bit_or_iff bit_and_iff bit_not_block bit_mask_iff)

lemma flip_bit_set:
  assumes "db_ok b" and "p < num_bits b"
  shows "flip_bit_at p b = set_bit_to p (\<not> dbit b p) b"
  by (simp add: flip_bit_at_def set_bit_to_def reset_bit_def block_index_def xor_mask db_test_ref [OF assms])

lemma set_same_block [simp]: "set_block k (blocks b ! k) b = b"
  by (simp add: set_block_def)

lemma test_ops_set:
  assumes "db_ok b" and "p < num_bits b"
  shows "test_set p b = (dbit b p, set_bit_to p True b)" "test_reset p b = (dbit b p, set_bit_to p False b)"
    "test_flip p b = (dbit b p, set_bit_to p (\<not> dbit b p) b)"
  by (simp_all add: test_set_def test_reset_def test_flip_def set_bit_to_def reset_bit_def block_index_def test_mask
      db_test_ref [OF assms] Let_def)

fun ref_value :: "ref_op \<Rightarrow> bool \<Rightarrow> bool" where
  "ref_value RefFlip x = (\<not> x)"
| "ref_value (RefAssign v) x = v"
| "ref_value (RefOr v) x = (x \<or> v)"
| "ref_value (RefAnd v) x = (x \<and> v)"
| "ref_value (RefXor v) x = (x \<noteq> v)"
| "ref_value (RefMinus v) x = (x \<and> \<not> v)"

lemma reference_op_set:
  assumes "db_ok b" and "p < num_bits b"
  shows "reference_op f p b = set_bit_to p (ref_value f (dbit b p)) b"
proof -
  have m: "dbit b p \<Longrightarrow> blocks b ! (p div 64) OR bit_mask p = blocks b ! (p div 64)"
    "\<not> dbit b p \<Longrightarrow> blocks b ! (p div 64) AND NOT (bit_mask p) = blocks b ! (p div 64)"
    using same_mask db_test_ref [OF assms] by blast+
  show ?thesis
    by (cases f; cases "dbit b p"; simp add: reference_op_def set_bit_to_def reset_bit_def block_index_def xor_mask db_test_ref [OF assms] m)
qed

section \<open>All bits\<close>

lemma set_all_ok:
  assumes "db_ok b"
  shows "db_ok (set_all b)" "num_bits (set_all b) = num_bits b" "dbit (set_all b) i \<longleftrightarrow> i < num_bits b"
proof -
  let ?c = "b\<lparr>blocks := map (\<lambda>_. NOT 0) (blocks b)\<rparr>"
  have L: "length (blocks ?c) = calc_num_blocks (num_bits ?c)" using assms by (simp add: db_ok_def)
  have "i < num_bits b \<Longrightarrow> dbit ?c i" using assms by (simp add: dbit_def db_ok_def block_of_bit bit_not_block)
  then show "dbit (set_all b) i \<longleftrightarrow> i < num_bits b" unfolding set_all_def dbit_zero_unused [OF L] by auto
  show "db_ok (set_all b)" "num_bits (set_all b) = num_bits b" using zero_unused_ok [OF L] by (simp_all add: set_all_def)
qed

lemma reset_all_ok:
  assumes "db_ok b"
  shows "db_ok (reset_all b)" "num_bits (reset_all b) = num_bits b" "\<not> dbit (reset_all b) i"
  using assms by (auto simp: reset_all_def db_ok_def dbit_def)

lemma flip_all_ok:
  assumes "db_ok b"
  shows "db_ok (flip_all b)" "num_bits (flip_all b) = num_bits b" "dbit (flip_all b) i \<longleftrightarrow> i < num_bits b \<and> \<not> dbit b i"
proof -
  let ?c = "b\<lparr>blocks := map (\<lambda>x. NOT x) (blocks b)\<rparr>"
  have L: "length (blocks ?c) = calc_num_blocks (num_bits ?c)" using assms by (simp add: db_ok_def)
  have "i < num_bits b \<Longrightarrow> dbit ?c i \<longleftrightarrow> \<not> dbit b i"
    using assms by (simp add: dbit_def db_ok_def block_of_bit bit_not_block)
  then show "dbit (flip_all b) i \<longleftrightarrow> i < num_bits b \<and> \<not> dbit b i" unfolding flip_all_def dbit_zero_unused [OF L] by auto
  show "db_ok (flip_all b)" "num_bits (flip_all b) = num_bits b" using zero_unused_ok [OF L] by (simp_all add: flip_all_def)
qed

lemma block_op_ok:
  assumes a: "db_ok a" and b: "db_ok b" and n: "num_bits a = num_bits b"
    and f: "\<And>x y j. j < 64 \<Longrightarrow> bit (f x y) j = g (bit x j) (bit y j)" and g: "\<not> g False False"
  shows "db_ok (block_op f a b)" "num_bits (block_op f a b) = num_bits a" "dbit (block_op f a b) i = g (dbit a i) (dbit b i)"
proof -
  show d: "dbit (block_op f a b) i = g (dbit a i) (dbit b i)" for i
    using a b n g by (cases "i div 64 < calc_num_blocks (num_bits b)") (simp_all add: block_op_def dbit_def num_blocks_def f db_ok_def)
  show "num_bits (block_op f a b) = num_bits a" by (simp add: block_op_def)
  have "i < num_bits a" if "g (dbit a i) (dbit b i)" for i
    using that a b n g unfolding db_ok_def by (cases "dbit a i"; cases "dbit b i") auto
  then show "db_ok (block_op f a b)"
    using a unfolding db_ok_def d by (auto simp: block_op_def num_blocks_def)
qed

lemma length_vec_resize_eq: "length (vec_resize v n z) = n"
  by (simp add: vec_resize_def)

lemma resize_ok:
  assumes ok: "db_ok b"
  shows "db_ok (db_resize n v b)" "num_bits (db_resize n v b) = n"
    "dbit (db_resize n v b) i \<longleftrightarrow> i < n \<and> (if i < num_bits b then dbit b i else v)"
proof -
  let ?old = "num_blocks b" and ?w = "if v then NOT 0 else 0 :: block"
  let ?b1 = "b\<lparr>blocks := vec_resize (blocks b) (calc_num_blocks n) ?w\<rparr>" and ?e = "num_bits b mod 64"
  let ?b2 = "if v \<and> num_bits b < n \<and> ?e \<noteq> 0 then set_block (?old - 1) (blocks ?b1 ! (?old - 1) OR push_bit ?e ?w) ?b1 else ?b1"
  let ?c = "?b2\<lparr>num_bits := n\<rparr>"
  have old: "?old = calc_num_blocks (num_bits b)" using ok by (simp add: db_ok_def num_blocks_def)
  have "calc_num_blocks n = ?old \<Longrightarrow> vec_resize (blocks b) (calc_num_blocks n) ?w = blocks b"
    by (simp add: vec_resize_def num_blocks_def)
  then have r: "db_resize n v b = zero_unused_bits ?c"
    by (auto simp: db_resize_def Let_def count_extra_bits_def bit_index_def)
  have L: "length (blocks ?c) = calc_num_blocks (num_bits ?c)" by (simp add: length_vec_resize_eq)
  have d1: "dbit ?b1 i \<longleftrightarrow> (if i div 64 < ?old then dbit b i else v)" if "i < n" for i
    using block_of_bit [OF that] by (simp add: dbit_def length_vec_resize_eq nth_vec_resize num_blocks_def bit_not_block)
  have d: "dbit ?c i \<longleftrightarrow> (if i < num_bits b then dbit b i else v)" if i: "i < n" for i
  proof (cases "v \<and> num_bits b < n \<and> ?e \<noteq> 0")
    case True
    let ?q = "num_bits b div 64"
    have q: "?old = Suc ?q" using True old by (simp add: calc_num_blocks_def)
    have qn: "?q < calc_num_blocks n" using True block_of_bit [of "num_bits b" n] by simp
    have u: "num_bits b \<le> i \<longleftrightarrow> ?q < i div 64 \<or> i div 64 = ?q \<and> ?e \<le> i mod 64"
      using mult_div_mod_eq [of 64 i] mult_div_mod_eq [of 64 "num_bits b"] mod_less_divisor [of 64 i] mod_less_divisor [of 64 "num_bits b"] by linarith
    have c: "dbit ?c i = (if i div 64 = ?q then bit (blocks b ! ?q OR push_bit ?e (NOT 0)) (i mod 64) else dbit ?b1 i)"
      using True q qn dbit_set_block [of ?q _ ?b1 i] by (simp add: dbit_def length_vec_resize_eq nth_vec_resize num_blocks_def)
    show ?thesis
    proof (cases "i div 64 = ?q")
      case True
      have "dbit b i = bit (blocks b ! ?q) (i mod 64)" using True q by (simp add: dbit_def num_blocks_def)
      moreover have "i < num_bits b \<longleftrightarrow> \<not> ?e \<le> i mod 64" using u True by linarith
      moreover have "\<not> i < num_bits b \<Longrightarrow> \<not> dbit b i" using ok by (auto simp: db_ok_def)
      ultimately show ?thesis using True \<open>v \<and> num_bits b < n \<and> ?e \<noteq> 0\<close> unfolding c by (auto simp: bit_or_iff)
    next
      case False
      then show ?thesis unfolding c using d1 [OF i] u q \<open>v \<and> num_bits b < n \<and> ?e \<noteq> 0\<close> by auto
    qed
  next
    case False
    then have "?b2 = ?b1" by (rule if_not_P)
    then have c: "dbit ?c i = dbit ?b1 i" by (simp only: dbit_sized)
    have "i < num_bits b \<Longrightarrow> i div 64 < ?old" using old block_of_bit by simp
    moreover have "\<not> i < num_bits b \<Longrightarrow> \<not> dbit b i" using ok by (auto simp: db_ok_def)
    moreover have "\<not> v" if "\<not> i < num_bits b" "i div 64 < ?old"
    proof
      assume v: v
      then have "?e = 0" using False i that(1) by auto
      then have "?old = num_bits b div 64" using old by (simp add: calc_num_blocks_def)
      then show False using that(2) \<open>?e = 0\<close> that(1) by (metis div_mult_mod_eq less_mult_imp_div_less mult.commute add.right_neutral div_less_iff_less_mult zero_less_numeral)
    qed
    ultimately show ?thesis unfolding c d1 [OF i] by auto
  qed
  show "db_ok (db_resize n v b)" "num_bits (db_resize n v b) = n" using zero_unused_ok [OF L] unfolding r by simp_all
  show "dbit (db_resize n v b) i \<longleftrightarrow> i < n \<and> (if i < num_bits b then dbit b i else v)"
    unfolding r dbit_zero_unused [OF L] using d by auto
qed

lemma push_back_ok:
  assumes "db_ok b"
  shows "db_ok (db_push_back v b)" "num_bits (db_push_back v b) = num_bits b + 1"
    "dbit (db_push_back v b) i \<longleftrightarrow> (if i = num_bits b then v else dbit b i)"
proof -
  note R = resize_ok [OF assms, of "num_bits b + 1" False]
  note S = set_bit_to_ok [OF R(1), of "num_bits b" v]
  show "db_ok (db_push_back v b)" "num_bits (db_push_back v b) = num_bits b + 1" using S R(2) by (simp_all add: db_push_back_def Let_def)
  have "dbit b i \<Longrightarrow> i < num_bits b" using assms by (simp add: db_ok_def)
  then show "dbit (db_push_back v b) i \<longleftrightarrow> (if i = num_bits b then v else dbit b i)"
    using S(3) R by (auto simp: db_push_back_def Let_def)
qed

section \<open>Shifts\<close>

lemma shr_loop_nth:
  "d + k \<le> length bs \<Longrightarrow> length (shr_loop f d [d..<d + k] bs) = length bs \<and>
     (\<forall>q. shr_loop f d [d..<d + k] bs ! q = (if q < k then f (bs ! (q + d)) (bs ! (q + d + 1)) else bs ! q))"
proof (induction k)
  case (Suc k)
  let ?b = "shr_loop f d [d..<d + k] bs"
  have e: "shr_loop f d [d..<d + Suc k] bs = ?b[k := f (?b ! (d + k)) (?b ! (d + k + 1))]"
    by (simp add: shr_loop_def)
  show ?case unfolding e using Suc by (auto simp: nth_list_update less_Suc_eq add.commute)
qed (simp add: shr_loop_def)

lemma shl_loop_nth:
  assumes "m + d < length bs" and "j \<le> m"
  shows "length (shl_loop f d (rev [Suc j..<Suc m]) bs) = length bs \<and>
     (\<forall>q. shl_loop f d (rev [Suc j..<Suc m]) bs ! q = (if j + d < q \<and> q \<le> m + d then f (bs ! (q - d)) (bs ! (q - d - 1)) else bs ! q))"
  using assms(2)
proof (induction rule: inc_induct)
  case base
  then show ?case by (auto simp: shl_loop_def)
next
  case (step n)
  let ?b = "shl_loop f d (rev [Suc (Suc n)..<Suc m]) bs"
  have "[Suc n..<Suc m] = Suc n # [Suc (Suc n)..<Suc m]" using step.hyps by (simp add: upt_rec)
  then have e: "shl_loop f d (rev [Suc n..<Suc m]) bs = ?b[Suc n + d := f (?b ! Suc n) (?b ! n)]"
    by (simp add: shl_loop_def)
  have "?b ! Suc n = bs ! Suc n" "?b ! n = bs ! n" using step.IH by simp_all
  moreover have "Suc n + d < length ?b" using step assms(1) by simp
  ultimately have "?b[Suc n + d := f (?b ! Suc n) (?b ! n)] ! q =
      (if n + d < q \<and> q \<le> m + d then f (bs ! (q - d)) (bs ! (q - d - 1)) else bs ! q)" for q
    using step by (cases "q = Suc n + d") auto
  then show ?case unfolding e using step.IH by simp
qed

lemma shl_block_bit:
  "r < 64 \<Longrightarrow> j < 64 \<Longrightarrow> bit (push_bit r x OR drop_bit (64 - r) y :: block) j \<longleftrightarrow> (if r \<le> j then bit x (j - r) else bit y (64 + j - r))"
  by (auto simp: bit_or_iff bit_push_bit_iff bit_drop_bit_eq dest: bit_imp_le_length)

lemma shr_block_bit:
  "r < 64 \<Longrightarrow> j < 64 \<Longrightarrow> bit (drop_bit r x OR push_bit (64 - r) y :: block) j \<longleftrightarrow> (if j + r < 64 then bit x (j + r) else bit y (j + r - 64))"
  by (auto simp: bit_or_iff bit_push_bit_iff bit_drop_bit_eq add.commute dest: bit_imp_le_length)

lemma shift_none: "drop_bit 64 (y :: block) = 0" "push_bit 64 (y :: block) = 0"
  by (auto simp: bit_word64 bit_simps dest: bit_imp_le_length)

lemma block_parts: "x < 64 \<Longrightarrow> (64 * k + x) div 64 = k" "x < 64 \<Longrightarrow> (64 * k + x) mod (64::nat) = x"
  by simp_all

lemma sub_block:
  fixes q j d r :: nat
  assumes "j < 64" and "r < 64" and "64 * d + r \<le> 64 * q + j"
  shows "(64 * q + j - (64 * d + r)) div 64 = (if r \<le> j then q - d else q - d - 1)"
    "(64 * q + j - (64 * d + r)) mod 64 = (if r \<le> j then j - r else 64 + j - r)"
proof -
  let ?k = "if r \<le> j then q - d else q - d - 1" and ?x = "if r \<le> j then j - r else 64 + j - r"
  have "?x < 64" using assms by (cases "r \<le> j") simp_all
  moreover have "64 * q + j - (64 * d + r) = 64 * ?k + ?x"
  proof (cases "r \<le> j")
    case True
    then have "d \<le> q" using assms by linarith
    then show ?thesis using True by (simp add: diff_mult_distrib2)
  next
    case False
    then have "d < q" using assms by linarith
    then obtain e where "q = d + 1 + e" by (metis add.commute add.left_commute less_iff_Suc_add plus_1_eq_Suc)
    then show ?thesis using False assms by simp
  qed
  ultimately  show "(64 * q + j - (64 * d + r)) div 64 = ?k" "(64 * q + j - (64 * d + r)) mod 64 = ?x"
    by (simp_all only: block_parts)
qed

lemma add_block:
  fixes q j d r :: nat
  assumes "j < 64" and "r < 64"
  shows "(64 * q + j + (64 * d + r)) div 64 = q + d + (if j + r < 64 then 0 else 1)"
    "(64 * q + j + (64 * d + r)) mod 64 = (if j + r < 64 then j + r else j + r - 64)"
proof -
  let ?k = "q + d + (if j + r < 64 then 0 else 1)" and ?x = "if j + r < 64 then j + r else j + r - 64"
  have "?x < 64" using assms by (cases "j + r < 64") simp_all
  moreover have "64 * q + j + (64 * d + r) = 64 * ?k + ?x" by (cases "j + r < 64") simp_all
  ultimately  show "(64 * q + j + (64 * d + r)) div 64 = ?k" "(64 * q + j + (64 * d + r)) mod 64 = ?x"
    by (simp_all only: block_parts)
qed

text \<open>The blocks after the loops.\<close>

definition shl_block :: "nat \<Rightarrow> block list \<Rightarrow> nat \<Rightarrow> block" where
  "shl_block n bs q =
     (let d = n div 64; r = n mod 64
      in if q < d then 0 else push_bit r (bs ! (q - d)) OR (if q = d then 0 else drop_bit (64 - r) (bs ! (q - d - 1))))"

definition shr_block :: "nat \<Rightarrow> block list \<Rightarrow> nat \<Rightarrow> block" where
  "shr_block n bs q =
     (let d = n div 64; r = n mod 64
      in if length bs \<le> q + d then 0
         else drop_bit r (bs ! (q + d)) OR (if q + d + 1 = length bs then 0 else push_bit (64 - r) (bs ! (q + d + 1))))"

lemma shift_left_blocks:
  assumes ok: "db_ok b" and n: "0 < n" "n < num_bits b"
  shows "shift_left_with n b = zero_unused_bits (b\<lparr>blocks := map (shl_block n (blocks b)) [0..<num_blocks b]\<rparr>)"
proof -
  let ?bs = "blocks b" and ?d = "n div 64" and ?r = "n mod 64" and ?l = "num_blocks b - 1"
  have L: "?d < num_blocks b" using ok n block_of_bit [of n "num_bits b"] by (simp add: num_blocks_def db_ok_def)
  have idx: "rev [1..<Suc (?l - ?d)] = rev [Suc 0..<Suc (?l - ?d)]" by simp
  have S: "length (shl_loop f ?d (rev [Suc 0..<Suc (?l - ?d)]) ?bs) = num_blocks b \<and>
      (\<forall>q. shl_loop f ?d (rev [Suc 0..<Suc (?l - ?d)]) ?bs ! q = (if ?d < q \<and> q \<le> ?l then f (?bs ! (q - ?d)) (?bs ! (q - ?d - 1)) else ?bs ! q))" for f
    using shl_loop_nth [of "?l - ?d" ?d ?bs 0 f] L by (simp add: num_blocks_def) 
  define f :: "block \<Rightarrow> block \<Rightarrow> block" where "f = (if ?r \<noteq> 0 then (\<lambda>x y. push_bit ?r x OR drop_bit (64 - ?r) y) else (\<lambda>x y. x))"
  define bs1 where "bs1 = shl_loop f ?d (rev [Suc 0..<Suc (?l - ?d)]) ?bs"
  define bs2 where "bs2 = bs1[?d := (if ?r \<noteq> 0 then push_bit ?r (bs1 ! 0) else bs1 ! 0)]"
  have f: "f x y = push_bit ?r x OR drop_bit (64 - ?r) y" for x y by (simp add: f_def shift_none)
  have b0: "bs1 ! 0 = ?bs ! 0" using S by (simp add: bs1_def)
  have "replicate ?d 0 @ drop ?d bs2 = map (shl_block n ?bs) [0..<num_blocks b]"
  proof (rule nth_equalityI)
    show len: "length (replicate ?d 0 @ drop ?d bs2) = length (map (shl_block n ?bs) [0..<num_blocks b])"
      using S L by (simp add: bs2_def bs1_def)
    fix q assume "q < length (replicate ?d 0 @ drop ?d bs2)"
    then have q: "q < num_blocks b" using len by simp
    consider "q < ?d" | "q = ?d" | "?d < q" by linarith
    then show "(replicate ?d 0 @ drop ?d bs2) ! q = map (shl_block n ?bs) [0..<num_blocks b] ! q"
    proof cases
      case 1
      then show ?thesis using q by (simp add: nth_append shl_block_def)
    next
      case 2
      then have "bs2 ! q = push_bit ?r (?bs ! 0)" using S q by (simp add: bs2_def b0 bs1_def)
      then show ?thesis using 2 q S L by (simp add: nth_append shl_block_def bs2_def bs1_def)
    next
      case 3
      then have "bs1 ! q = f (?bs ! (q - ?d)) (?bs ! (q - ?d - 1))" using S [of f] q unfolding bs1_def by auto
      then have "bs2 ! q = f (?bs ! (q - ?d)) (?bs ! (q - ?d - 1))" using 3 by (simp add: bs2_def)
      then show ?thesis using 3 q S L f by (simp add: nth_append shl_block_def bs2_def bs1_def Let_def)
    qed
  qed
  then show ?thesis
    using n unfolding shift_left_with_def Let_def idx bit_index_def bs2_def bs1_def f_def by (simp split: if_splits)
qed

lemma shift_left_ok:
  assumes ok: "db_ok b"
  shows "db_ok (shift_left_with n b)" "num_bits (shift_left_with n b) = num_bits b"
    "dbit (shift_left_with n b) i \<longleftrightarrow> n \<le> i \<and> i < num_bits b \<and> dbit b (i - n)"
proof -
  have "db_ok (shift_left_with n b) \<and> num_bits (shift_left_with n b) = num_bits b \<and>
    (dbit (shift_left_with n b) i \<longleftrightarrow> n \<le> i \<and> i < num_bits b \<and> dbit b (i - n))"
  proof (cases "n = 0 \<or> num_bits b \<le> n")
    case True
    have "dbit b i \<Longrightarrow> i < num_bits b" using ok by (simp add: db_ok_def)
    moreover have "shift_left_with n b = (if num_bits b \<le> n then reset_all b else b)" using True by (auto simp: shift_left_with_def)
    ultimately show ?thesis using ok reset_all_ok [OF ok] True by auto
  next
    case False
    then have n: "0 < n" "n < num_bits b" by simp_all
    let ?c = "b\<lparr>blocks := map (shl_block n (blocks b)) [0..<num_blocks b]\<rparr>"
    have L: "length (blocks ?c) = calc_num_blocks (num_bits ?c)" using ok by (simp add: num_blocks_def db_ok_def)
    let ?q = "i div 64" and ?j = "i mod 64" and ?d = "n div 64" and ?r = "n mod 64"
    have i: "64 * ?q + ?j = i" and nn: "64 * ?d + ?r = n" by simp_all
    have "dbit ?c i \<longleftrightarrow> n \<le> i \<and> dbit b (i - n)" if "i < num_bits b"
    proof -
      have q: "?q < num_blocks b" using that ok block_of_bit by (simp add: num_blocks_def db_ok_def)
      have c: "dbit ?c i = bit (shl_block n (blocks b) ?q) ?j" using q by (simp add: dbit_def)
      have sb: "bit (shl_block n (blocks b) ?q) ?j \<longleftrightarrow> ?d \<le> ?q \<and> (if ?r \<le> ?j then bit (blocks b ! (?q - ?d)) (?j - ?r)
          else ?q \<noteq> ?d \<and> bit (blocks b ! (?q - ?d - 1)) (64 + ?j - ?r))"
        using shl_block_bit [of ?r ?j "blocks b ! (?q - ?d)" "if ?q = ?d then 0 else blocks b ! (?q - ?d - 1)"]
        by (auto simp: shl_block_def Let_def split: if_splits)
      have le: "n \<le> i \<longleftrightarrow> ?d < ?q \<or> ?d = ?q \<and> ?r \<le> ?j"
        using i nn mod_less_divisor [of 64 i] mod_less_divisor [of 64 n] by linarith
      show ?thesis
      proof (cases "n \<le> i")
        case True
        note D = sub_block [of ?j ?r ?d ?q, unfolded i nn]
        have "dbit b (i - n) \<longleftrightarrow> bit (blocks b ! ((i - n) div 64)) ((i - n) mod 64)"
          using that ok block_of_bit [of "i - n" "num_bits b"] by (simp add: dbit_def db_ok_def)
        then show ?thesis unfolding c sb using True le D by auto
      next
        case False
        then show ?thesis unfolding c sb using le by auto
      qed
    qed
    then show ?thesis using zero_unused_ok [OF L] dbit_zero_unused [OF L] unfolding shift_left_blocks [OF ok n] by auto
  qed
  then show "db_ok (shift_left_with n b)" "num_bits (shift_left_with n b) = num_bits b"
    "dbit (shift_left_with n b) i \<longleftrightarrow> n \<le> i \<and> i < num_bits b \<and> dbit b (i - n)" by blast+
qed

end
