(* ===== verification/Bitset_Shift.thy ===== *)
theory Bitset_Shift
  imports Dynamic_Bitset
begin

text \<open>
  Right shifts, and appending blocks and bits (\<open>sdl/Util/dynamic_bitset.hpp\<close>): the string and stream conversions rest on them.
\<close>

section \<open>Right shift\<close>

lemma shift_right_blocks:
  assumes ok: "db_ok b" and n: "0 < n" "n < num_bits b"
  shows "shift_right_with n b = b\<lparr>blocks := map (shr_block n (blocks b)) [0..<num_blocks b]\<rparr>"
proof -
  let ?bs = "blocks b" and ?d = "n div 64" and ?r = "n mod 64" and ?l = "num_blocks b - 1" and ?L = "num_blocks b"
  have L: "?d < ?L" using ok n block_of_bit [of n "num_bits b"] by (simp add: num_blocks_def db_ok_def)
  define f :: "block \<Rightarrow> block \<Rightarrow> block" where "f = (\<lambda>x y. drop_bit ?r x OR push_bit (64 - ?r) y)"
  define bs1 where "bs1 = (if ?r \<noteq> 0 then (shr_loop f ?d [?d..<?l] ?bs)[?l - ?d := drop_bit ?r (shr_loop f ?d [?d..<?l] ?bs ! ?l)]
    else shr_loop (\<lambda>x y. x) ?d [?d..<Suc ?l] ?bs)"
  have A: "?d + (?l - ?d) = ?l" "?d + (?L - ?d) = Suc ?l" using L by simp_all
  have S: "length (shr_loop f ?d [?d..<?l] ?bs) = ?L" "\<And>q. shr_loop f ?d [?d..<?l] ?bs ! q = (if q < ?l - ?d then f (?bs ! (q + ?d)) (?bs ! (q + ?d + 1)) else ?bs ! q)"
    using shr_loop_nth [of ?d "?l - ?d" ?bs f] L A(1) by (simp_all add: num_blocks_def)
  have T: "length (shr_loop (\<lambda>x y. x) ?d [?d..<Suc ?l] ?bs) = ?L"
    "\<And>q. shr_loop (\<lambda>x y. x) ?d [?d..<Suc ?l] ?bs ! q = (if q < ?L - ?d then ?bs ! (q + ?d) else ?bs ! q)"
    using shr_loop_nth [of ?d "?L - ?d" ?bs "\<lambda>x y. x"] L A(2) by (simp_all add: num_blocks_def)
  have len: "length bs1 = ?L" using S(1) T(1) by (simp add: bs1_def)
  have at: "bs1 ! q = shr_block n ?bs q" if q: "q < ?L - ?d" for q
  proof (cases "?r = 0")
    case True
    moreover have "\<not> length ?bs \<le> q + ?d" using q by (simp add: num_blocks_def)
    ultimately show ?thesis using q T(2) [of q] by (simp add: bs1_def shr_block_def shift_none Let_def)
  next
    case False
    have l: "shr_loop f ?d [?d..<?l] ?bs ! ?l = ?bs ! ?l" unfolding S(2) by (rule if_not_P) linarith
    show ?thesis
    proof (cases "q = ?l - ?d")
      case True
      then have "q + ?d = ?l" using L by simp
      moreover have "Suc (length ?bs - Suc 0) = length ?bs" using L by (simp add: num_blocks_def)
      moreover have "?l - ?d < length (shr_loop f ?d [?d..<?l] ?bs)" using S(1) L by simp
      ultimately show ?thesis using False True l L by (simp add: bs1_def shr_block_def num_blocks_def Let_def)
    next
      case q': False
      then have "q < ?l - ?d" using q by simp
      then show ?thesis using False S(2) [of q] by (auto simp: bs1_def shr_block_def num_blocks_def f_def Let_def)
    qed
  qed
  have "take (?L - ?d) bs1 @ replicate ?d 0 = map (shr_block n ?bs) [0..<?L]"
  proof (rule nth_equalityI)
    show e: "length (take (?L - ?d) bs1 @ replicate ?d 0) = length (map (shr_block n ?bs) [0..<?L])" using len L by simp
    fix q assume "q < length (take (?L - ?d) bs1 @ replicate ?d 0)"
    then have q: "q < ?L" using e by simp
    show "(take (?L - ?d) bs1 @ replicate ?d 0) ! q = map (shr_block n ?bs) [0..<?L] ! q"
    proof (cases "q < ?L - ?d")
      case True
      then show ?thesis using at q len by (simp add: nth_append)
    next
      case False
      then have "length ?bs \<le> q + ?d" by (simp add: num_blocks_def)
      then show ?thesis using False q len by (simp add: nth_append shr_block_def Let_def)
    qed
  qed
  then show ?thesis using n unfolding shift_right_with_def Let_def bit_index_def bs1_def f_def by (simp split: if_splits)
qed

lemma shift_right_ok:
  assumes ok: "db_ok b"
  shows "db_ok (shift_right_with n b)" "num_bits (shift_right_with n b) = num_bits b"
    "dbit (shift_right_with n b) i \<longleftrightarrow> dbit b (i + n)"
proof -
  have B: "dbit b i \<Longrightarrow> i < num_bits b" for i using ok by (simp add: db_ok_def)
  have "num_bits (shift_right_with n b) = num_bits b \<and> length (blocks (shift_right_with n b)) = length (blocks b) \<and>
    (\<forall>i. dbit (shift_right_with n b) i \<longleftrightarrow> dbit b (i + n))"
  proof (cases "n = 0 \<or> num_bits b \<le> n")
    case True
    moreover have "shift_right_with n b = (if num_bits b \<le> n then reset_all b else b)" using True by (auto simp: shift_right_with_def)
    moreover have "\<not> dbit b (i + n)" if "num_bits b \<le> n" for i using B [of "i + n"] that by auto
    ultimately show ?thesis using reset_all_ok [OF ok] by (auto simp: reset_all_def)
  next
    case False
    then have n: "0 < n" "n < num_bits b" by simp_all
    have "dbit (b\<lparr>blocks := map (shr_block n (blocks b)) [0..<num_blocks b]\<rparr>) i \<longleftrightarrow> dbit b (i + n)" for i
    proof -
      let ?q = "i div 64" and ?j = "i mod 64" and ?d = "n div 64" and ?r = "n mod 64" and ?bs = "blocks b"
      have i: "64 * ?q + ?j = i" and nn: "64 * ?d + ?r = n" by simp_all
      note D = add_block [of ?j ?r ?q ?d, unfolded i nn]
      have c: "dbit (b\<lparr>blocks := map (shr_block n ?bs) [0..<num_blocks b]\<rparr>) i \<longleftrightarrow> ?q < length ?bs \<and> bit (shr_block n ?bs ?q) ?j"
        by (auto simp: dbit_def num_blocks_def)
      have sb: "bit (shr_block n ?bs ?q) ?j \<longleftrightarrow> ?q + ?d < length ?bs \<and> (if ?j + ?r < 64 then bit (?bs ! (?q + ?d)) (?j + ?r)
          else ?q + ?d + 1 \<noteq> length ?bs \<and> bit (?bs ! (?q + ?d + 1)) (?j + ?r - 64))"
        using shr_block_bit [of ?r ?j "?bs ! (?q + ?d)" "if ?q + ?d + 1 = length ?bs then 0 else ?bs ! (?q + ?d + 1)"]
        by (auto simp: shr_block_def Let_def not_le split: if_splits)
      have R: "dbit b (i + n) \<longleftrightarrow> (i + n) div 64 < length ?bs \<and> bit (?bs ! ((i + n) div 64)) ((i + n) mod 64)" by (simp add: dbit_def)
      show ?thesis unfolding c sb R using D by (cases "?j + ?r < 64") auto
    qed
    then show ?thesis unfolding shift_right_blocks [OF ok n] by (simp add: num_blocks_def)
  qed
  then show "num_bits (shift_right_with n b) = num_bits b" "dbit (shift_right_with n b) i \<longleftrightarrow> dbit b (i + n)"
    "db_ok (shift_right_with n b)"
    using ok B by (simp_all add: db_ok_def) (meson add_lessD1)
qed

section \<open>Appending\<close>

lemma append_block_ok:
  assumes ok: "db_ok b"
  shows "db_ok (append_block x b)" "num_bits (append_block x b) = num_bits b + 64"
    "dbit (append_block x b) i \<longleftrightarrow> dbit b i \<or> num_bits b \<le> i \<and> i < num_bits b + 64 \<and> bit x (i - num_bits b)"
proof -
  let ?n = "num_bits b" and ?b' = "append_block x b"
  let ?q = "?n div 64" and ?r = "?n mod 64"
  have len: "length (blocks b) = ?q + (if ?r \<noteq> 0 then 1 else 0)" using ok by (simp add: db_ok_def calc_num_blocks_def)
  have B: "dbit b i \<Longrightarrow> i < ?n" for i using ok by (simp add: db_ok_def)
  show n: "num_bits ?b' = ?n + 64" by (simp add: append_block_def Let_def)
  have d: "dbit ?b' i \<longleftrightarrow> dbit b i \<or> ?n \<le> i \<and> i < ?n + 64 \<and> bit x (i - ?n)" for i
  proof -
    let ?p = "i div 64" and ?j = "i mod 64"
    have i: "64 * ?p + ?j = i" and nn: "64 * ?q + ?r = ?n" and jr: "?j < 64" "?r < 64" by simp_all
    show ?thesis
    proof (cases "?r = 0")
      case True
      have e: "blocks ?b' = blocks b @ [x]" using True by (simp add: append_block_def count_extra_bits_def bit_index_def)
      consider "?p < ?q" | "?p = ?q" | "?q < ?p" by linarith
      then show ?thesis
      proof cases
        case 1
        then have "i < ?n" using i nn True jr by linarith
        then show ?thesis using 1 e len True by (simp add: dbit_def nth_append)
      next
        case 2
        then have "i - ?n = ?j" "?n \<le> i" "i < ?n + 64" using i nn True jr by linarith+
        moreover have "dbit ?b' i = bit x ?j" "\<not> dbit b i" using 2 e len True by (simp_all add: dbit_def nth_append)
        ultimately show ?thesis by simp
      next
        case 3
        then have "?n + 64 \<le> i" using i nn True by linarith
        then show ?thesis using 3 e len True by (auto simp: dbit_def)
      qed
    next
      case False
      have e: "blocks ?b' = (blocks b)[?q := blocks b ! ?q OR push_bit ?r x] @ [drop_bit (64 - ?r) x]"
        using False len by (simp add: append_block_def count_extra_bits_def bit_index_def Let_def nth_append list_update_append)
      consider "?p < ?q" | "?p = ?q" | "?p = Suc ?q" | "Suc ?q < ?p" by linarith
      then show ?thesis
      proof cases
        case 1
        then have "i < ?n" using i nn jr by linarith
        then show ?thesis using 1 e len False by (simp add: dbit_def nth_append)
      next
        case 2
        then have ii: "i = 64 * ?q + ?j" using i by simp
        have "?n \<le> i \<longleftrightarrow> ?r \<le> ?j" "?r \<le> ?j \<Longrightarrow> i - ?n = ?j - ?r" "i < ?n + 64" using ii nn jr by linarith+
        moreover have "dbit ?b' i \<longleftrightarrow> bit (blocks b ! ?q) ?j \<or> ?r \<le> ?j \<and> bit x (?j - ?r)"
          using 2 e len False by (auto simp: dbit_def nth_append bit_or_iff bit_push_bit_iff)
        moreover have "dbit b i \<longleftrightarrow> bit (blocks b ! ?q) ?j" using 2 len False by (simp add: dbit_def)
        ultimately show ?thesis by auto
      next
        case 3
        then have ii: "i = 64 * ?q + 64 + ?j" using i by simp
        have P: "?n \<le> i" "i - ?n = 64 - ?r + ?j" "i < ?n + 64 \<longleftrightarrow> ?j < ?r" using ii nn jr by linarith+
        have "dbit ?b' i \<longleftrightarrow> bit x (i - ?n)"
          unfolding P(2) using 3 e len False by (simp add: dbit_def nth_append bit_drop_bit_eq)
        moreover have "bit x (i - ?n) \<Longrightarrow> ?j < ?r" unfolding P(2) using bit_imp_le_length [of x "64 - ?r + ?j"] jr by simp
        moreover have "\<not> dbit b i" using 3 len False by (simp add: dbit_def)
        ultimately show ?thesis using P(1,3) by blast
      next
        case 4
        then have "?n + 64 \<le> i" using i nn jr by linarith
        then show ?thesis using 4 e len False by (auto simp: dbit_def)
      qed
    qed
  qed
  show "dbit ?b' i \<longleftrightarrow> dbit b i \<or> ?n \<le> i \<and> i < ?n + 64 \<and> bit x (i - ?n)" by (rule d)
  have "length (blocks ?b') = Suc (length (blocks b))" by (simp add: append_block_def Let_def)
  moreover have "calc_num_blocks (?n + 64) = Suc (calc_num_blocks ?n)" by (simp add: calc_num_blocks_def)
  moreover have "dbit ?b' i \<Longrightarrow> i < ?n + 64" for i using d [of i] B [of i] by (meson trans_less_add1)
  ultimately show "db_ok ?b'" using ok n by (simp add: db_ok_def)
qed

end
