(* ===== verification/Bitset_Text.thy ===== *)
theory Bitset_Text
  imports Bitset_Find
begin

text \<open>
  Bitsets as sets of indices, numbers and text: the walk over the set bits (\<open>SetBitsIter\<close> and \<open>copyBitsOut\<close> of
  \<open>sdl/Util/BitSet.hpp\<close>), \<open>operator<\<close>, the conversions to and from integers and strings, and \<open>operator\<ggreater>\<close>
  (\<open>sdl/Util/dynamic_bitset.hpp\<close>).
\<close>

section \<open>Walking over the set bits\<close>

text \<open>\<open>SetBitsIter\<close>: the bitset and the index of the bit; \<open>npos\<close> is the end.\<close>

record set_bits_iter =
  iter_bits :: dynamic_bitset
  iter_i :: nat

definition iter_begin :: "(block \<Rightarrow> nat) \<Rightarrow> dynamic_bitset \<Rightarrow> set_bits_iter" where
  "iter_begin f b = \<lparr>iter_bits = b, iter_i = find_first f b\<rparr>"

definition iter_advance :: "(block \<Rightarrow> nat) \<Rightarrow> set_bits_iter \<Rightarrow> set_bits_iter" where
  "iter_advance f it = it\<lparr>iter_i := find_next f (iter_i it) (iter_bits it)\<rparr>"

definition iter_done :: "set_bits_iter \<Rightarrow> bool" where
  "iter_done it \<longleftrightarrow> iter_i it = npos"

partial_function (option) copyBits_loop :: "(block \<Rightarrow> nat) \<Rightarrow> set_bits_iter \<Rightarrow> nat list \<Rightarrow> nat list option" where
  "copyBits_loop f it out =
     (if iter_done it then Some out else copyBits_loop f (iter_advance f it) (out @ [iter_i it]))"

definition copyBitsOut :: "(block \<Rightarrow> nat) \<Rightarrow> dynamic_bitset \<Rightarrow> nat list option" where
  "copyBitsOut f b = copyBits_loop f (iter_begin f b) []"

lemma copyBits_loop_ok:
  assumes ok: "db_ok b" and f: "lowest_bit_ok f" and n: "num_bits b \<le> npos"
  shows "copyBits_loop f \<lparr>iter_bits = b, iter_i = first_member (members_from b p)\<rparr> out = Some (out @ members_from b p)"
proof (induction "members_from b p" arbitrary: p out)
  case Nil
  then show ?case by (simp add: copyBits_loop.simps iter_done_def first_member_def flip: Nil)
next
  case (Cons i xs)
  then have m: "members_from b p = i # xs" "xs = members_from b (Suc i)" "i < num_bits b" using members_from_Cons [of b p i xs] by simp_all
  then have "\<not> iter_done \<lparr>iter_bits = b, iter_i = i\<rparr>" using n by (simp add: iter_done_def)
  moreover have "iter_advance f \<lparr>iter_bits = b, iter_i = i\<rparr> = \<lparr>iter_bits = b, iter_i = first_member (members_from b (Suc i))\<rparr>"
    by (simp add: iter_advance_def find_next_ok [OF ok f])
  ultimately show ?case using Cons.hyps(1) [OF m(2), of "out @ [i]"] m(1,2)
    by (simp add: copyBits_loop.simps [of f "\<lparr>iter_bits = b, iter_i = i\<rparr>"] first_member_def)
qed

lemma copyBitsOut_ok:
  "db_ok b \<Longrightarrow> lowest_bit_ok f \<Longrightarrow> num_bits b \<le> npos \<Longrightarrow> copyBitsOut f b = Some (members b)"
  using copyBits_loop_ok [of b f 0 "[]"] by (simp add: copyBitsOut_def iter_begin_def find_first_ok members_def)

section \<open>Sets\<close>

lemma set_operations:
  assumes "db_ok a" and "db_ok b" and "num_bits a = num_bits b"
  shows "dbit (and_with a b) i \<longleftrightarrow> dbit a i \<and> dbit b i" "db_ok (and_with a b)" "num_bits (and_with a b) = num_bits a"
    "dbit (or_with a b) i \<longleftrightarrow> dbit a i \<or> dbit b i" "db_ok (or_with a b)" "num_bits (or_with a b) = num_bits a"
    "dbit (xor_with a b) i \<longleftrightarrow> dbit a i \<noteq> dbit b i" "db_ok (xor_with a b)" "num_bits (xor_with a b) = num_bits a"
    "dbit (minus_with a b) i \<longleftrightarrow> dbit a i \<and> \<not> dbit b i" "db_ok (minus_with a b)" "num_bits (minus_with a b) = num_bits a"
  unfolding and_with_def or_with_def xor_with_def minus_with_def
  using block_op_ok [OF assms, of "(AND)" "(\<and>)"] block_op_ok [OF assms, of "(OR)" "(\<or>)"]
    block_op_ok [OF assms, of "(XOR)" "(\<noteq>)"] block_op_ok [OF assms, of "\<lambda>x y. x AND NOT y" "\<lambda>x y. x \<and> \<not> y"]
  by (auto simp: bit_and_iff bit_or_iff bit_xor_iff bit_not_block)

lemma dbit_block: "k < num_blocks b \<Longrightarrow> j < 64 \<Longrightarrow> dbit b (64 * k + j) = bit (blocks b ! k) j"
  by (simp add: dbit_def num_blocks_def)

lemma blocks_bits:
  "(\<forall>i. P (dbit a i) (dbit b i)) \<longleftrightarrow> (\<forall>k < num_blocks a. \<forall>j < 64. P (bit (blocks a ! k) j) (bit (blocks b ! k) j))"
  if "num_blocks a = num_blocks b" and "P False False"
proof (intro iffI allI impI)
  fix k j :: nat assume a: "\<forall>i. P (dbit a i) (dbit b i)" "k < num_blocks a" "j < 64"
  then have "P (dbit a (64 * k + j)) (dbit b (64 * k + j))" by blast
  then show "P (bit (blocks a ! k) j) (bit (blocks b ! k) j)" using dbit_block [of k a j] dbit_block [of k b j] that(1) a(2,3) by simp
next
  fix i assume "\<forall>k < num_blocks a. \<forall>j < 64. P (bit (blocks a ! k) j) (bit (blocks b ! k) j)"
  then show "P (dbit a i) (dbit b i)" using that by (cases "i div 64 < num_blocks a") (simp_all add: dbit_def num_blocks_def)
qed

lemma any_iff: "db_any b \<longleftrightarrow> (\<exists>i. dbit b i)"
proof -
  have "\<not> db_any b \<longleftrightarrow> (\<forall>k < num_blocks b. blocks b ! k = 0)" by (auto simp: db_any_def list_ex_iff num_blocks_def all_set_conv_all_nth)
  also have "\<dots> \<longleftrightarrow> (\<forall>i. \<not> dbit b i)" using blocks_bits [of b b "\<lambda>x y. \<not> x"] by (auto simp: bit_word64)
  finally show ?thesis by blast
qed

lemma is_subset_of_iff:
  assumes "db_ok a" and "db_ok b" and "num_bits a = num_bits b"
  shows "is_subset_of a b \<longleftrightarrow> (\<forall>i. dbit a i \<longrightarrow> dbit b i)"
proof -
  have n: "num_blocks a = num_blocks b" using assms by (simp add: db_ok_def num_blocks_def)
  have "is_subset_of a b \<longleftrightarrow> (\<forall>k < num_blocks a. \<forall>j < 64. bit (blocks a ! k) j \<longrightarrow> bit (blocks b ! k) j)"
    by (auto simp: is_subset_of_def list_all_iff bit_word64 bit_and_iff bit_not_block)
  then show ?thesis using blocks_bits [OF n, of "\<lambda>x y. x \<longrightarrow> y"] by simp
qed

lemma db_intersects_iff:
  assumes "db_ok a" and "db_ok b" and "num_bits a = num_bits b"
  shows "db_intersects a b \<longleftrightarrow> (\<exists>i. dbit a i \<and> dbit b i)"
proof -
  have n: "num_blocks a = num_blocks b" using assms by (simp add: db_ok_def num_blocks_def)
  have "\<not> db_intersects a b \<longleftrightarrow> (\<forall>k < num_blocks a. \<forall>j < 64. \<not> (bit (blocks a ! k) j \<and> bit (blocks b ! k) j))"
    using n by (auto simp: db_intersects_def list_ex_iff bit_word64 bit_and_iff)
  then show ?thesis using blocks_bits [OF n, of "\<lambda>x y. \<not> (x \<and> y)"] by auto
qed

lemma proper_loop_iff:
  "length as = length bs \<Longrightarrow> proper_loop as bs p \<longleftrightarrow>
     (\<forall>k < length as. as ! k AND NOT (bs ! k) = 0) \<and> (p \<or> (\<exists>k < length as. bs ! k AND NOT (as ! k) \<noteq> 0))"
proof (induction as bs p rule: proper_loop.induct)
  case (1 x as y bs p)
  then show ?case by (auto simp: All_less_Suc2 Ex_less_Suc2)
qed auto

lemma is_proper_subset_of_iff:
  assumes "db_ok a" and "db_ok b" and "num_bits a = num_bits b"
  shows "is_proper_subset_of a b \<longleftrightarrow> is_subset_of a b \<and> \<not> is_subset_of b a"
proof -
  have n: "length (blocks a) = length (blocks b)" using assms by (simp add: db_ok_def)
  then show ?thesis
    by (auto simp: is_proper_subset_of_def proper_loop_iff [OF n] is_subset_of_def list_all_iff num_blocks_def)
qed

section \<open>Numbers\<close>

fun blocks_value :: "nat \<Rightarrow> block list \<Rightarrow> nat" where
  "blocks_value 0 bs = 0"
| "blocks_value (Suc k) bs = blocks_value k bs + unat (bs ! k) * 2 ^ (64 * k)"

definition db_value :: "dynamic_bitset \<Rightarrow> nat" where
  "db_value b = blocks_value (num_blocks b) (blocks b)"

lemma unat_block: "unat (x :: block) < 2 ^ 64"
  using unsigned_less [of x] by simp

lemma blocks_value_bound: "blocks_value k bs < 2 ^ (64 * k)"
proof (induction k)
  case (Suc k)
  have "unat (bs ! k) * 2 ^ (64 * k) + 2 ^ (64 * k) \<le> 2 ^ 64 * 2 ^ (64 * k)"
    using unat_block [of "bs ! k"] mult_le_mono1 [of "Suc (unat (bs ! k))" "2 ^ 64" "2 ^ (64 * k)"] by simp
  also have "\<dots> = 2 ^ (64 * Suc k)" by (simp only: mult_Suc_right power_add)
  finally show ?case using Suc by simp
qed simp

lemma blocks_value_less:
  assumes "length as = length bs" and "k \<le> length as"
  shows "less_loop k as bs \<longleftrightarrow> blocks_value k as < blocks_value k bs"
  using assms(2)
proof (induction k)
  case (Suc k)
  have step: "blocks_value (Suc k) xs < blocks_value (Suc k) ys" if "xs ! k < ys ! k" for xs ys :: "block list"
  proof -
    have "Suc (unat (xs ! k)) \<le> unat (ys ! k)" using that by (simp add: word_less_nat_alt)
    then have "Suc (unat (xs ! k)) * 2 ^ (64 * k) \<le> unat (ys ! k) * 2 ^ (64 * k)" by (rule mult_le_mono1)
    then show ?thesis using blocks_value_bound [of k xs] by simp
  qed
  consider "as ! k < bs ! k" | "bs ! k < as ! k" | "as ! k = bs ! k" by (meson linorder_less_linear)
  then show ?case
  proof cases
    case 1
    then show ?thesis using step by simp
  next
    case 2
    then show ?thesis using step [OF 2] by (auto dest: order_less_asym)
  next
    case 3
    then show ?thesis using Suc by simp
  qed
qed simp

lemma blocks_value_bit:
  "k \<le> length bs \<Longrightarrow> bit (blocks_value k bs) i \<longleftrightarrow> i div 64 < k \<and> bit (bs ! (i div 64)) (i mod 64)"
proof (induction k)
  case (Suc k)
  let ?v = "blocks_value k bs" and ?x = "bs ! k"
  have v: "\<not> bit ?v j" if "64 * k \<le> j" for j
  proof -
    have "?v < 2 ^ j" using blocks_value_bound [of k bs] power_increasing [OF that, of "2 :: nat"] by linarith
    then show ?thesis by (simp add: bit_iff_odd)
  qed
  have x: "bit (unat ?x * 2 ^ (64 * k)) j \<longleftrightarrow> 64 * k \<le> j \<and> bit ?x (j - 64 * k)" for j
    by (simp add: bit_push_bit_iff bit_unsigned_iff flip: push_bit_eq_mult)
  have "?v + unat ?x * 2 ^ (64 * k) = ?v OR unat ?x * 2 ^ (64 * k)"
    by (rule disjunctive_add) (use v x in blast)
  then have "bit (blocks_value (Suc k) bs) i \<longleftrightarrow> bit ?v i \<or> 64 * k \<le> i \<and> bit ?x (i - 64 * k)" by (simp add: bit_or_iff x)
  moreover have "64 * k \<le> i \<and> bit ?x (i - 64 * k) \<longleftrightarrow> i div 64 = k \<and> bit ?x (i mod 64)"
  proof
    assume a: "64 * k \<le> i \<and> bit ?x (i - 64 * k)"
    then have "i - 64 * k < 64" by (auto dest: bit_imp_le_length)
    moreover have "64 * k + (i - 64 * k) = i" using a by simp
    ultimately show "i div 64 = k \<and> bit ?x (i mod 64)" using a block_parts [of "i - 64 * k" k] by metis
  next
    assume a: "i div 64 = k \<and> bit ?x (i mod 64)"
    then have "i = 64 * k + i mod 64" using mult_div_mod_eq [of 64 i] by simp
    then have "64 * k \<le> i" "i - 64 * k = i mod 64" by linarith+
    then show "64 * k \<le> i \<and> bit ?x (i - 64 * k)" using a by simp
  qed
  ultimately show ?case using Suc by (auto simp: less_Suc_eq)
qed simp

lemma db_value_bit: "bit (db_value b) i = dbit b i"
  by (simp add: db_value_def blocks_value_bit num_blocks_def dbit_def)

lemma to_ulong_ok:
  assumes ok: "db_ok b" and f: "lowest_bit_ok f" and n: "num_bits b \<le> npos"
  shows "to_ulong f b = (if \<exists>i \<ge> 64. dbit b i then None else Some (of_nat (db_value b)))"
proof (cases "num_bits b = 0")
  case True
  then have "\<not> dbit b i" for i using ok by (simp add: db_ok_def)
  moreover have "db_value b = 0" using True ok by (simp add: db_value_def db_ok_def num_blocks_def calc_num_blocks_def)
  ultimately show ?thesis using True by (simp add: to_ulong_def)
next
  case False
  have "find_next f 63 b \<noteq> npos \<longleftrightarrow> members_from b 64 \<noteq> []"
  proof (cases "members_from b 64")
    case (Cons i xs)
    then have "i < num_bits b" by (simp add: members_from_Cons)
    then show ?thesis using Cons n find_next_ok [OF ok f, of 63] by (simp add: first_member_def)
  qed (use find_next_ok [OF ok f, of 63] in \<open>simp add: first_member_def\<close>)
  also have "\<dots> \<longleftrightarrow> (\<exists>i \<ge> 64. dbit b i)" using ok by (auto simp: members_from_Nil db_ok_def)
  finally have o: "find_next f 63 b \<noteq> npos \<longleftrightarrow> (\<exists>i \<ge> 64. dbit b i)" .
  have "(min (num_bits b) 64 - 1) div 64 = 0" by simp
  then have e: "to_ulong f b = (if \<exists>i \<ge> 64. dbit b i then None else Some (blocks b ! 0))"
    using False o by (simp add: to_ulong_def block_index_def)
  have "blocks b ! 0 = of_nat (db_value b)" if "\<not> (\<exists>i \<ge> 64. dbit b i)"
  proof -
    have "0 < num_blocks b" using False ok block_of_bit [of 0 "num_bits b"] by (simp add: db_ok_def num_blocks_def)
    then have "j < 64 \<Longrightarrow> bit (blocks b ! 0) j = bit (of_nat (db_value b) :: block) j" for j
      using dbit_block [of 0 b j] by (simp add: bit_of_nat_iff possible_bit_word db_value_bit)
    then show ?thesis by (simp add: bit_word64)
  qed
  then show ?thesis using e by simp
qed

section \<open>Strings\<close>

definition digit :: "bool \<Rightarrow> char" where
  "digit v = (if v then CHR ''1'' else CHR ''0'')"

lemma to_string_loop:
  "k \<le> n \<Longrightarrow> fold (\<lambda>i s. if P i then s[n - 1 - i := CHR ''1''] else s) [0..<k] (replicate n (CHR ''0'')) =
     map (\<lambda>q. digit (n - 1 - q < k \<and> P (n - 1 - q))) [0..<n]"
proof (induction k)
  case (Suc k)
  let ?g = "\<lambda>k q. digit (n - 1 - q < k \<and> P (n - 1 - q))"
  have "(if P k then (map (?g k) [0..<n])[n - 1 - k := CHR ''1''] else map (?g k) [0..<n]) = map (?g (Suc k)) [0..<n]"
  proof (rule nth_equalityI)
    fix q assume "q < length (if P k then (map (?g k) [0..<n])[n - 1 - k := CHR ''1''] else map (?g k) [0..<n])"
    then have q: "q < n" by (simp split: if_splits)
    have eq: "n - 1 - q = k \<longleftrightarrow> q = n - 1 - k" using q Suc.prems by linarith
    show "(if P k then (map (?g k) [0..<n])[n - 1 - k := CHR ''1''] else map (?g k) [0..<n]) ! q = map (?g (Suc k)) [0..<n] ! q"
    proof (cases "q = n - 1 - k")
      case True
      then have "n - 1 - q = k" using eq by simp
      then show ?thesis using q True by (simp add: digit_def)
    next
      case False
      then have "n - 1 - q \<noteq> k" using eq by simp
      then show ?thesis using q False by (simp add: less_Suc_eq)
    qed
  qed simp
  moreover have "fold (\<lambda>i s. if P i then s[n - 1 - i := CHR ''1''] else s) [0..<Suc k] z =
      (\<lambda>s. if P k then s[n - 1 - k := CHR ''1''] else s) (fold (\<lambda>i s. if P i then s[n - 1 - i := CHR ''1''] else s) [0..<k] z)" for z
    by simp
  ultimately show ?case by (simp only: Suc.IH [OF Suc_leD [OF Suc.prems]])
next
  case 0
  show ?case by (simp add: digit_def map_replicate_const)
qed

lemma to_string_ok:
  assumes "db_ok b"
  shows "db_to_string b = map digit (rev (bits_of b))"
proof -
  have "db_to_string b = map (\<lambda>q. digit (num_bits b - 1 - q < num_bits b \<and> unchecked_test (num_bits b - 1 - q) b)) [0..<num_bits b]"
    unfolding db_to_string_def to_string_helper_def Let_def if_False by (rule to_string_loop) simp
  also have "\<dots> = map digit (rev (bits_of b))"
  proof (rule nth_equalityI)
    fix q assume "q < length (map (\<lambda>q. digit (num_bits b - 1 - q < num_bits b \<and> unchecked_test (num_bits b - 1 - q) b)) [0..<num_bits b])"
    then have q: "q < num_bits b" by simp
    moreover have "unchecked_test (num_bits b - 1 - q) b = dbit b (num_bits b - 1 - q)"
      using test_iff [OF assms, of "num_bits b - 1 - q"] q by (simp add: db_test_def)
    ultimately show "map (\<lambda>q. digit (num_bits b - 1 - q < num_bits b \<and> unchecked_test (num_bits b - 1 - q) b)) [0..<num_bits b] ! q =
        map digit (rev (bits_of b)) ! q"
      by (simp add: rev_nth)
  qed simp
  finally show ?thesis .
qed

lemma init_zeros:
  "db_ok \<lparr>blocks = replicate (calc_num_blocks n) 0, num_bits = n\<rparr>" "\<not> dbit \<lparr>blocks = replicate (calc_num_blocks n) 0, num_bits = n\<rparr> i"
  by (auto simp: db_ok_def dbit_def)

lemma set_bits_loop:
  assumes "db_ok b" and "m \<le> num_bits b"
  shows "let b' = fold (\<lambda>i b. if P i then set_bit_to i True b else b) [0..<m] b
    in db_ok b' \<and> num_bits b' = num_bits b \<and> (\<forall>i. dbit b' i \<longleftrightarrow> dbit b i \<or> i < m \<and> P i)"
  using assms(2)
proof (induction m)
  case (Suc m)
  let ?b = "fold (\<lambda>i b. if P i then set_bit_to i True b else b) [0..<m] b"
  have I: "db_ok ?b" "num_bits ?b = num_bits b" "\<And>i. dbit ?b i \<longleftrightarrow> dbit b i \<or> i < m \<and> P i" using Suc by (simp_all add: Let_def)
  have "m < num_bits ?b" using I(2) Suc.prems by simp
  note S = set_bit_to_ok [OF I(1) this, of True]
  show ?case using I S by (auto simp: Let_def less_Suc_eq)
qed (simp add: assms(1) Let_def)

lemma init_from_string_ok:
  assumes "length s < npos"
  shows "db_ok (init_from_string s 0 npos npos)" "bits_of (init_from_string s 0 npos npos) = map (\<lambda>c. c = CHR ''1'') (rev s)"
proof -
  let ?n = "length s" and ?b0 = "\<lparr>blocks = replicate (calc_num_blocks (length s)) 0, num_bits = length s\<rparr>"
  have e: "init_from_string s 0 npos npos = fold (\<lambda>i b. if s ! (?n - 1 - i) = CHR ''1'' then set_bit_to i True b else b) [0..<?n] ?b0"
    using assms by (simp add: init_from_string_def Let_def min_absorb2)
  have I: "db_ok (init_from_string s 0 npos npos)" "num_bits (init_from_string s 0 npos npos) = ?n"
    "\<And>i. dbit (init_from_string s 0 npos npos) i \<longleftrightarrow> i < ?n \<and> s ! (?n - 1 - i) = CHR ''1''"
    using set_bits_loop [OF init_zeros(1), of ?n ?n "\<lambda>i. s ! (?n - 1 - i) = CHR ''1''"] init_zeros(2) [of ?n] unfolding e
    by (simp_all add: Let_def)
  show "db_ok (init_from_string s 0 npos npos)" by (rule I(1))
  show "bits_of (init_from_string s 0 npos npos) = map (\<lambda>c. c = CHR ''1'') (rev s)"
    by (rule nth_equalityI) (simp_all add: I rev_nth)
qed

end
