(* ===== verification/Bitset_Stream.thy ===== *)
theory Bitset_Stream
  imports Bitset_Text
begin

text \<open>
  Reading a bitset from a stream (\<open>bit_appender\<close> and \<open>operator\<ggreater>\<close> of \<open>sdl/Util/dynamic_bitset.hpp\<close>): the bits are
  collected from the most significant end of each block, and the destructor of the appender reverses the blocks and
  shifts them into place.
\<close>

text \<open>Where the appender puts the bit number \<open>k\<close>.\<close>

definition slot :: "nat \<Rightarrow> nat" where
  "slot k = 64 * (k div 64) + (63 - k mod 64)"

lemma slot_parts: "slot k div 64 = k div 64" "slot k mod 64 = 63 - k mod 64"
  unfolding slot_def by (rule block_parts; simp)+

lemma slot_inj: "slot k = slot l \<longleftrightarrow> k = l"
proof
  assume "slot k = slot l"
  then have "k div 64 = l div 64" "63 - k mod 64 = 63 - l mod 64" using slot_parts by metis+
  moreover have "k mod 64 < 64" "l mod 64 < 64" by simp_all
  ultimately have "k div 64 = l div 64" "k mod 64 = l mod 64" by linarith+
  then show "k = l" by (metis mult_div_mod_eq)
qed simp

definition appender_ok :: "bool list \<Rightarrow> bit_appender \<Rightarrow> bool" where
  "appender_ok vs a \<longleftrightarrow> db_ok (app_bs a) \<and> app_n a = length vs \<and> num_bits (app_bs a) = 64 * calc_num_blocks (length vs) \<and>
     (\<forall>i. dbit (app_bs a) i \<longleftrightarrow> (\<exists>k < length vs. i = slot k \<and> vs ! k)) \<and>
     app_mask a = (if length vs mod 64 = 0 then 0 else push_bit (63 - length vs mod 64) 1)"

lemma slot_bound: "k < n \<Longrightarrow> slot k < 64 * calc_num_blocks n"
  using block_of_bit [of k n] calc_num_blocks_less [of "slot k" n] by (simp add: slot_parts)

lemma half_mask: "push_bit m 1 div 2 = (if m = 0 then 0 else push_bit (m - 1) (1 :: block))" if "m < 64"
proof -
  have "push_bit m 1 div 2 = (drop_bit 1 (push_bit m 1) :: block)" by (simp add: drop_bit_eq_div)
  also have "\<dots> = (if m = 0 then 0 else push_bit (m - 1) 1)"
    using that by (auto simp: bit_word64 bit_drop_bit_eq bit_exp_iff)
  finally show ?thesis .
qed

lemma ex_snoc: "(\<exists>k < length (vs @ [v]). P k ((vs @ [v]) ! k)) \<longleftrightarrow> (\<exists>k < length vs. P k (vs ! k)) \<or> P (length vs) v"
proof -
  have "(\<exists>k < length vs. P k ((vs @ [v]) ! k)) \<longleftrightarrow> (\<exists>k < length vs. P k (vs ! k))" by (metis nth_append)
  then show ?thesis by (simp add: Ex_less_Suc disj_commute)
qed

lemma do_append_ok:
  assumes A: "appender_ok vs a"
  shows "appender_ok (vs @ [v]) (do_append v a)"
proof -
  let ?n = "length vs"
  define a1 where "a1 = (if app_mask a = 0 then a\<lparr>app_bs := append_block 0 (app_bs a), app_mask := push_bit 63 1\<rparr> else a)"
  define bs where "bs = app_bs a1"
  have a: "db_ok (app_bs a)" "app_n a = ?n" "num_bits (app_bs a) = 64 * calc_num_blocks ?n"
    "\<And>i. dbit (app_bs a) i \<longleftrightarrow> (\<exists>k < ?n. i = slot k \<and> vs ! k)"
    "app_mask a = (if ?n mod 64 = 0 then 0 else push_bit (63 - ?n mod 64) 1)"
    using A by (simp_all add: appender_ok_def)
  have p0: "push_bit m 1 \<noteq> (0 :: block)" if "m < 64" for m using that by (auto simp: bit_word64 bit_exp_iff)
  have m0: "app_mask a = 0 \<longleftrightarrow> ?n mod 64 = 0"
  proof (cases "?n mod 64 = 0")
    case False
    have "63 - ?n mod 64 < (64 :: nat)" by simp
    then show ?thesis using p0 a(5) False by metis
  qed (simp add: a(5))
  have calc: "calc_num_blocks (Suc ?n) = ?n div 64 + 1" by (simp add: calc_num_blocks_def mod_Suc div_Suc)
  have F: "db_ok bs" "num_bits bs = 64 * calc_num_blocks (Suc ?n)" "\<And>i. dbit bs i \<longleftrightarrow> (\<exists>k < ?n. i = slot k \<and> vs ! k)"
    "app_mask a1 = push_bit (63 - ?n mod 64) 1" "app_n a1 = ?n"
  proof -
    have z: "calc_num_blocks ?n = ?n div 64 + (if ?n mod 64 = 0 then 0 else 1)" by (simp add: calc_num_blocks_def)
    show "db_ok bs" "num_bits bs = 64 * calc_num_blocks (Suc ?n)" "dbit bs i \<longleftrightarrow> (\<exists>k < ?n. i = slot k \<and> vs ! k)"
      "app_mask a1 = push_bit (63 - ?n mod 64) 1" "app_n a1 = ?n" for i
      using append_block_ok [OF a(1), of 0] a m0 z calc by (auto simp: a1_def bs_def)
  qed
  have nb: "num_blocks bs = Suc (?n div 64)" using F(1,2) calc by (simp add: db_ok_def num_blocks_def) (simp add: calc_num_blocks_def)
  have s: "slot ?n < num_bits bs" using slot_bound [of ?n "Suc ?n"] F(2) by simp
  have mask: "bit_mask (slot ?n) = app_mask a1" by (simp add: bit_mask_def bit_index_def slot_parts F(4))
  define b2 where "b2 = (if v then set_bit_to (slot ?n) True bs else bs)"
  have d: "do_append v a = a1\<lparr>app_bs := b2, app_mask := app_mask a1 div 2, app_n := app_n a1 + 1\<rparr>"
    using nb mask by (simp add: do_append_def Let_def set_bit_to_def block_index_def slot_parts b2_def bs_def flip: a1_def)
  have dn: "\<not> dbit bs (slot ?n)" using F(3) [of "slot ?n"] by (auto simp: slot_inj)
  note S = set_bit_to_ok [OF F(1) s, of True]
  have G: "db_ok b2" "num_bits b2 = num_bits bs" "\<And>i. dbit b2 i \<longleftrightarrow> dbit bs i \<or> i = slot ?n \<and> v" using S F(1) by (auto simp: b2_def)
  have "dbit b2 i \<longleftrightarrow> (\<exists>k < length (vs @ [v]). i = slot k \<and> (vs @ [v]) ! k)" for i
    unfolding G(3) F(3) using ex_snoc [of vs v "\<lambda>k x. i = slot k \<and> x"] by blast
  moreover have "app_mask a1 div 2 = (if Suc ?n mod 64 = 0 then 0 else push_bit (63 - Suc ?n mod 64) 1)"
    unfolding F(4) using half_mask [of "63 - ?n mod 64"] mod_less_divisor [of 64 ?n] by (auto simp: mod_Suc)
  ultimately show ?thesis unfolding d appender_ok_def using G F by simp
qed

lemma dbit_rev:
  "dbit (b\<lparr>blocks := rev (blocks b)\<rparr>) (64 * q + j) \<longleftrightarrow> q < num_blocks b \<and> dbit b (64 * (num_blocks b - 1 - q) + j)" if "j < 64"
  using that by (auto simp: dbit_def num_blocks_def rev_nth)

lemma rev_slot: "k < 64 * L \<Longrightarrow> slot (64 * L - 1 - i) = 64 * (L - 1 - i div 64) + i mod 64" if "i < 64 * L" for i L k :: nat
proof -
  define q j where "q = i div 64" and "j = i mod 64"
  have i: "i = 64 * q + j" "j < 64" by (simp_all add: q_def j_def)
  then have "q < L" using that by linarith
  then obtain m where "L = q + 1 + m" by (metis add.commute add.left_commute less_iff_Suc_add plus_1_eq_Suc)
  then have "64 * L - 1 - i = 64 * (L - 1 - q) + (63 - j)" using i by simp
  then show "slot (64 * L - 1 - i) = 64 * (L - 1 - i div 64) + i mod 64"
    using block_parts [of "63 - j" "L - 1 - q"] i(2) unfolding slot_def q_def [symmetric] j_def [symmetric] by simp
qed

lemma appender_finish_ok:
  assumes A: "appender_ok vs a"
  shows "db_ok (appender_finish a)" "bits_of (appender_finish a) = rev vs"
proof -
  let ?n = "length vs" and ?bs = "app_bs a"
  define L where "L = calc_num_blocks ?n"
  have a: "db_ok ?bs" "app_n a = ?n" "num_bits ?bs = 64 * L" "\<And>i. dbit ?bs i \<longleftrightarrow> (\<exists>k < ?n. i = slot k \<and> vs ! k)"
    using A by (simp_all add: appender_ok_def L_def)
  have nL: "?n \<le> 64 * L" "64 * L < ?n + 64" using calc_num_blocks_bounds [of ?n] by (simp_all add: L_def)
  have nb: "num_blocks ?bs = L" using a(1,3) by (simp add: db_ok_def num_blocks_def calc_num_blocks_def)
  let ?b1 = "?bs\<lparr>blocks := rev (blocks ?bs)\<rparr>"
  have d1: "dbit ?b1 i \<longleftrightarrow> i < 64 * L \<and> 64 * L - 1 - i < ?n \<and> vs ! (64 * L - 1 - i)" for i
  proof (cases "i < 64 * L")
    case True
    define q j where "q = i div 64" and "j = i mod 64"
    have i: "i = 64 * q + j" "j < 64" by (simp_all add: q_def j_def)
    have "dbit ?b1 i \<longleftrightarrow> q < L \<and> dbit ?bs (64 * (L - 1 - q) + j)" using dbit_rev [OF i(2), of ?bs q] nb i(1) by simp
    moreover have "q < L" using True i by linarith
    moreover have "64 * (L - 1 - q) + j = slot (64 * L - 1 - i)" using rev_slot [OF True True] by (simp add: q_def j_def)
    ultimately show ?thesis using True by (auto simp: a(4) slot_inj)
  next
    case False
    then have "\<not> i div 64 < length (blocks ?b1)" using nb by (simp add: num_blocks_def)
    then show ?thesis using False by (simp add: dbit_def)
  qed
  have ok1: "db_ok ?b1" using a(1,3) d1 by (simp add: db_ok_def)
  let ?s = "64 * L - ?n"
  have off: "bit_index ?n \<noteq> 0 \<Longrightarrow> 64 - bit_index ?n = ?s" "bit_index ?n = 0 \<Longrightarrow> ?s = 0"
  proof -
    define q r where "q = ?n div 64" and "r = ?n mod 64"
    have n: "?n = 64 * q + r" "r < 64" "bit_index ?n = r" by (simp_all add: q_def r_def bit_index_def)
    have "L = q + (if r \<noteq> 0 then 1 else 0)" by (simp add: L_def calc_num_blocks_def q_def r_def)
    then show "bit_index ?n \<noteq> 0 \<Longrightarrow> 64 - bit_index ?n = ?s" "bit_index ?n = 0 \<Longrightarrow> ?s = 0" using n by simp_all
  qed
  have "shift_right_with 0 ?b1 = ?b1 \<or> L = 0" by (auto simp: shift_right_with_def a(3))
  then have "(if bit_index ?n \<noteq> 0 then shift_right_with (64 - bit_index ?n) ?b1 else ?b1) = shift_right_with ?s ?b1 \<or> ?n = 0"
    using off nL by (cases "bit_index ?n = 0") auto
  then consider "appender_finish a = db_resize ?n False (shift_right_with ?s ?b1)" | "?n = 0"
    by (auto simp: appender_finish_def Let_def a(2))
  then have "db_ok (appender_finish a) \<and> num_bits (appender_finish a) = ?n \<and>
    (\<forall>i < ?n. dbit (appender_finish a) i = vs ! (?n - 1 - i))"
  proof cases
    case 1
    note S = shift_right_ok [OF ok1, of ?s]
    note R = resize_ok [OF S(1), of ?n False, folded 1]
    have "dbit (appender_finish a) i = vs ! (?n - 1 - i)" if i: "i < ?n" for i
    proof -
      have P: "i + ?s < 64 * L" "64 * L - 1 - (i + ?s) = ?n - 1 - i" "?n - 1 - i < ?n" using i nL by simp_all
      have "i < num_bits (shift_right_with ?s ?b1)" using i nL S(2) a(3) by simp
      then have "dbit (appender_finish a) i \<longleftrightarrow> dbit ?b1 (i + ?s)" using R(3) [of i] S(3) [of i] i by simp
      also have "\<dots> \<longleftrightarrow> vs ! (?n - 1 - i)" unfolding d1 using P by metis
      finally show ?thesis .
    qed
    then show ?thesis using R by blast
  next
    case 2
    then have "appender_finish a = db_resize 0 False ?b1" by (simp add: appender_finish_def bit_index_def a(2) Let_def)
    then show ?thesis using resize_ok [OF ok1, of 0 False] 2 by simp
  qed
  then show "db_ok (appender_finish a)" "bits_of (appender_finish a) = rev vs"
    by (simp, intro nth_equalityI) (auto simp: rev_nth)
qed

section \<open>Reading\<close>

definition is_digit :: "char \<Rightarrow> bool" where
  "is_digit c \<longleftrightarrow> c = CHR ''1'' \<or> c = CHR ''0''"

text \<open>The digits that are read: at most \<open>n\<close>, up to the first character that is none.\<close>

definition digit_run :: "nat \<Rightarrow> string \<Rightarrow> string" where
  "digit_run n cs = take n (takeWhile is_digit cs)"

lemma read_loop_ok:
  assumes "appender_ok vs a" and "read_loop limit cs a = (a', rest, eof)" and "length vs \<le> limit"
  shows "appender_ok (vs @ map (\<lambda>c. c = CHR ''1'') (digit_run (limit - length vs) cs)) a' \<and>
    cs = digit_run (limit - length vs) cs @ rest \<and> (eof \<longleftrightarrow> rest = [] \<and> length vs + length (digit_run (limit - length vs) cs) < limit)"
  using assms
proof (induction limit cs a arbitrary: vs rule: read_loop.induct)
  case (1 limit a)
  then show ?case by (auto simp: digit_run_def appender_ok_def)
next
  case (2 limit c cs a)
  have n: "app_n a = length vs" using 2(2) by (simp add: appender_ok_def)
  consider "length vs = limit" | "length vs < limit" "\<not> is_digit c" | "length vs < limit" "is_digit c" using 2(4) by linarith
  then show ?case
  proof cases
    case 1
    then show ?thesis using 2(2,3) n by (auto simp: digit_run_def)
  next
    case 2
    then show ?thesis using 2(1) \<open>appender_ok vs a\<close> \<open>read_loop limit (c # cs) a = (a', rest, eof)\<close> n by (auto simp: digit_run_def is_digit_def)
  next
    case 3
    let ?v = "c = CHR ''1''"
    have A: "appender_ok (vs @ [?v]) (do_append ?v a)" by (rule do_append_ok [OF 2(2)])
    have R: "read_loop limit cs (do_append ?v a) = (a', rest, eof)" using 2(3) 3 n by (auto simp: is_digit_def Let_def split: if_splits)
    have d: "digit_run (limit - length vs) (c # cs) = c # digit_run (limit - Suc (length vs)) cs"
      using 3 by (simp add: digit_run_def Suc_diff_Suc flip: take_Suc_Cons)
    have "length (vs @ [?v]) \<le> limit" using 3 by simp
    moreover have "\<not> \<not> app_n a < limit" "\<not> (\<not> ?v \<and> c \<noteq> CHR ''0'')" using 3 n by (auto simp: is_digit_def)
    ultimately show ?thesis using 2(1) [OF _ refl _ A R] unfolding d by simp
  qed
qed

lemma read_bitset_ok:
  assumes "read_bitset limit cs b = (b', rest, eof, fail)"
  shows "db_ok b' \<and> bits_of b' = rev (map (\<lambda>c. c = CHR ''1'') (digit_run limit cs)) \<and> cs = digit_run limit cs @ rest \<and>
    (eof \<longleftrightarrow> rest = [] \<and> length (digit_run limit cs) < limit) \<and> (fail \<longleftrightarrow> digit_run limit cs = [])"
proof -
  obtain a where r: "read_loop limit cs (appender_new (db_clear b)) = (a, rest, eof)" "b' = appender_finish a" "fail \<longleftrightarrow> num_bits b' = 0"
    using assms by (auto simp: read_bitset_def Let_def split: prod.splits)
  have "appender_ok [] (appender_new (db_clear b))"
    by (simp add: appender_ok_def appender_new_def db_clear_def db_ok_def dbit_def calc_num_blocks_def)
  from read_loop_ok [OF this r(1)] have L: "appender_ok (map (\<lambda>c. c = CHR ''1'') (digit_run limit cs)) a"
    "cs = digit_run limit cs @ rest" "eof \<longleftrightarrow> rest = [] \<and> length (digit_run limit cs) < limit" by simp_all
  note F = appender_finish_ok [OF L(1)]
  have "num_bits b' = length (digit_run limit cs)" using arg_cong [OF F(2), of length] r(2) by simp
  then show ?thesis using F L(2,3) r(2,3) by simp
qed

section \<open>Appending ranges\<close>

lemma append_range_fold:
  assumes "db_ok b"
  shows "append_range xs b = fold append_block xs b"
  using assms
proof (induction xs arbitrary: b)
  case (Cons x xs)
  let ?b' = "append_block x b" and ?r = "num_bits b mod 64"
  have e: "count_extra_bits ?b' = count_extra_bits b" by (simp add: append_block_def count_extra_bits_def bit_index_def Let_def)
  have "append_range (x # xs) b = append_range xs ?b'"
  proof (cases "?r = 0")
    case True
    then show ?thesis by (simp add: append_range_def append_block_def count_extra_bits_def bit_index_def Let_def)
  next
    case False
    have "0 < length (blocks b)" using Cons.prems False by (simp add: db_ok_def calc_num_blocks_def)
    then obtain ys z where z: "blocks b = ys @ [z]" by (metis length_greater_0_conv rev_exhaust)
    show ?thesis
    proof (cases xs)
      case Nil
      then show ?thesis using False z
        by (simp add: append_range_def append_block_def count_extra_bits_def bit_index_def Let_def nth_append list_update_append)
    next
      case (Cons y zs)
      then show ?thesis using False z
        by (simp add: append_range_def append_block_def count_extra_bits_def bit_index_def Let_def nth_append list_update_append)
    qed
  qed
  then show ?case using Cons.IH append_block_ok(1) [OF Cons.prems] by simp
qed (simp add: append_range_def)

end
