(* ===== verification/Bit_Sets.thy ===== *)
theory Bit_Sets
  imports Bitset_Stream Determinize_Loop
begin

text \<open>
  The functions on bitsets that the algorithms call (\<open>sdl/Util/BitSet.hpp\<close>), the list of indices with its bitset
  (\<open>Interested.hpp\<close>), and the properties of bitsets: every operation is the one on lists of Booleans that other theories use
  in its place.
\<close>

section \<open>\<open>BitSet.hpp\<close>\<close>

definition containsGrow :: "dynamic_bitset \<Rightarrow> nat \<Rightarrow> bool" where
  "containsGrow c key \<longleftrightarrow> key < num_bits c \<and> db_test key c"

definition bitset_latch :: "dynamic_bitset \<Rightarrow> nat \<Rightarrow> bool \<times> dynamic_bitset" where
  "bitset_latch c i = (let (old, c1) = test_set i c in (\<not> old, c1))"

definition bitset_grow :: "nat \<Rightarrow> nat" where
  "bitset_grow n = 2 * n"

definition bitset_resizeFor :: "dynamic_bitset \<Rightarrow> nat \<Rightarrow> bool \<times> dynamic_bitset" where
  "bitset_resizeFor v i =
     (let n = num_bits v in if n \<le> i then (True, db_resize (max (bitset_grow n) (i + 1)) False v) else (False, v))"

definition setGrow :: "dynamic_bitset \<Rightarrow> nat \<Rightarrow> dynamic_bitset" where
  "setGrow v i = set_bit_to i True (snd (bitset_resizeFor v i))"

definition bitset_latchGrow :: "dynamic_bitset \<Rightarrow> nat \<Rightarrow> bool \<times> dynamic_bitset" where
  "bitset_latchGrow v i =
     (let (grown, v1) = bitset_resizeFor v i
      in if \<not> grown then (let (old, v2) = test_set i v1 in (\<not> old, v2)) else (True, set_bit_to i True v1))"

definition resetSparse :: "dynamic_bitset \<Rightarrow> nat \<Rightarrow> dynamic_bitset" where
  "resetSparse v i = (if i < num_bits v then reset_bit i v else v)"

definition testSparse :: "dynamic_bitset \<Rightarrow> nat \<Rightarrow> bool" where
  "testSparse v i \<longleftrightarrow> (if i < num_bits v then db_test i v else False)"

definition setSparse :: "dynamic_bitset \<Rightarrow> nat \<Rightarrow> bool \<Rightarrow> dynamic_bitset" where
  "setSparse v i v1 = (if v1 then setGrow v i else resetSparse v i)"

definition setBits :: "nat list \<Rightarrow> dynamic_bitset \<Rightarrow> dynamic_bitset" where
  "setBits is b = fold (\<lambda>i b. set_bit_to i True b) is b"

section \<open>\<open>Interested.hpp\<close>\<close>

record interested_set =
  indices :: "nat list"
  inInterested :: dynamic_bitset

definition interested_clear :: "interested_set \<Rightarrow> interested_set" where
  "interested_clear s = s\<lparr>inInterested := fold reset_bit (indices s) (inInterested s), indices := []\<rparr>"

definition interested_reserve :: "nat \<Rightarrow> interested_set \<Rightarrow> interested_set" where
  "interested_reserve n s = s\<lparr>inInterested := db_resize n False (inInterested s)\<rparr>"

definition interested_insert :: "nat \<Rightarrow> interested_set \<Rightarrow> interested_set" where
  "interested_insert i s =
     (let (old, b) = test_set i (inInterested s); s1 = s\<lparr>inInterested := b\<rparr>
      in if \<not> old then s1\<lparr>indices := indices s1 @ [i]\<rparr> else s1)"

definition addIsNew :: "nat \<Rightarrow> interested_set \<Rightarrow> bool \<times> interested_set" where
  "addIsNew i s =
     (let (old, b) = test_set i (inInterested s); s1 = s\<lparr>inInterested := b\<rparr>
      in if old then (False, s1) else (True, s1\<lparr>indices := indices s1 @ [i]\<rparr>))"

definition addIsNewSparse :: "nat \<Rightarrow> interested_set \<Rightarrow> bool \<times> interested_set" where
  "addIsNewSparse i s =
     (let (new, b) = bitset_latchGrow (inInterested s) i; s1 = s\<lparr>inInterested := b\<rparr>
      in if \<not> new then (False, s1) else (True, s1\<lparr>indices := indices s1 @ [i]\<rparr>))"

definition interested_containsSparse :: "nat \<Rightarrow> interested_set \<Rightarrow> bool" where
  "interested_containsSparse i s = testSparse (inInterested s) i"

definition interested_contains :: "nat \<Rightarrow> interested_set \<Rightarrow> bool" where
  "interested_contains i s = db_test i (inInterested s)"

section \<open>Lists of Booleans\<close>

lemma bits_of_eqI:
  "num_bits b = length vs \<Longrightarrow> (\<And>i. i < length vs \<Longrightarrow> dbit b i = vs ! i) \<Longrightarrow> bits_of b = vs"
  by (rule nth_equalityI) simp_all

lemma bits_of_set:
  assumes "db_ok b" and "p < num_bits b"
  shows "bits_of (set_bit_to p v b) = (bits_of b)[p := v]"
  by (rule bits_of_eqI) (simp_all add: set_bit_to_ok [OF assms] nth_list_update)

lemma bits_of_resize:
  assumes "db_ok b"
  shows "bits_of (db_resize n v b) = take n (bits_of b) @ replicate (n - num_bits b) v"
  by (rule bits_of_eqI) (auto simp: resize_ok [OF assms] nth_append)

lemma bits_of_push_back:
  assumes "db_ok b"
  shows "bits_of (db_push_back v b) = bits_of b @ [v]"
  by (rule bits_of_eqI) (auto simp: push_back_ok [OF assms] nth_append)

lemma bits_of_append:
  assumes "db_ok b"
  shows "bits_of (append_block x b) = bits_of b @ map (bit x) [0..<64]"
proof (rule bits_of_eqI)
  fix i assume i: "i < length (bits_of b @ map (bit x) [0..<64])"
  have "dbit b i \<Longrightarrow> i < num_bits b" using assms by (simp add: db_ok_def)
  then show "dbit (append_block x b) i = (bits_of b @ map (bit x) [0..<64]) ! i"
    using i by (auto simp: append_block_ok [OF assms] nth_append)
qed (simp add: append_block_ok [OF assms])

lemma bits_of_range:
  assumes "db_ok b"
  shows "db_ok (append_range xs b) \<and> bits_of (append_range xs b) = bits_of b @ concat (map (\<lambda>x. map (bit x) [0..<64]) xs)"
proof -
  have "db_ok (fold append_block xs b) \<and> bits_of (fold append_block xs b) = bits_of b @ concat (map (\<lambda>x. map (bit x) [0..<64]) xs)"
    using assms
  proof (induction xs arbitrary: b)
    case (Cons x xs)
    then show ?case using Cons.IH [OF append_block_ok(1) [OF Cons.prems]] by (simp add: bits_of_append)
  qed simp
  then show ?thesis by (simp add: append_range_fold [OF assms])
qed

lemma bits_of_shift_left:
  assumes "db_ok b"
  shows "bits_of (shift_left_with n b) = take (num_bits b) (replicate n False @ bits_of b)"
  by (rule bits_of_eqI) (auto simp: shift_left_ok [OF assms] nth_append)

lemma bits_of_shift_right:
  assumes "db_ok b"
  shows "bits_of (shift_right_with n b) = drop n (bits_of b) @ replicate (min n (num_bits b)) False"
proof (rule bits_of_eqI)
  fix i assume i: "i < length (drop n (bits_of b) @ replicate (min n (num_bits b)) False)"
  have "dbit b (i + n) \<Longrightarrow> i + n < num_bits b" using assms by (simp add: db_ok_def)
  then show "dbit (shift_right_with n b) i = (drop n (bits_of b) @ replicate (min n (num_bits b)) False) ! i"
  proof (cases "i + n < num_bits b")
    case True
    then have "i < num_bits b - n" by simp
    then show ?thesis using True nth_bits_of [OF True] by (simp add: shift_right_ok [OF assms] nth_append add.commute)
  next
    case False
    then have "i - (num_bits b - n) < min n (num_bits b)" using i by (simp, linarith)
    then show ?thesis using False \<open>dbit b (i + n) \<Longrightarrow> i + n < num_bits b\<close> by (auto simp: shift_right_ok [OF assms] nth_append)
  qed
qed (auto simp: shift_right_ok [OF assms])

lemma bits_of_all:
  assumes "db_ok b"
  shows "bits_of (set_all b) = replicate (num_bits b) True" "bits_of (reset_all b) = replicate (num_bits b) False"
    "bits_of (flip_all b) = map Not (bits_of b)"
  by (rule bits_of_eqI; simp add: set_all_ok [OF assms] reset_all_ok [OF assms] flip_all_ok [OF assms])+

lemma bits_of_bit_ops:
  assumes "db_ok b" and "p < num_bits b"
  shows "db_ok (set_bit_to p v b) \<and> bits_of (set_bit_to p v b) = (bits_of b)[p := v]"
    "db_ok (reset_bit p b) \<and> bits_of (reset_bit p b) = (bits_of b)[p := False]"
    "db_ok (flip_bit_at p b) \<and> bits_of (flip_bit_at p b) = (bits_of b)[p := \<not> bits_of b ! p]"
    "db_ok (reference_op f p b) \<and> bits_of (reference_op f p b) = (bits_of b)[p := ref_value f (bits_of b ! p)]"
    "test_set p b = (bits_of b ! p, set_bit_to p True b)" "test_reset p b = (bits_of b ! p, reset_bit p b)"
    "test_flip p b = (bits_of b ! p, flip_bit_at p b)" "db_test p b = bits_of b ! p"
  using assms by (simp_all add: set_bit_to_ok bits_of_set reset_bit_set flip_bit_set reference_op_set test_ops_set test_iff)

lemma bits_of_block_op:
  assumes "db_ok a" and "db_ok b" and "num_bits a = num_bits b"
    and "\<And>x y j. j < 64 \<Longrightarrow> bit (f x y) j = g (bit x j) (bit y j)" and "\<not> g False False"
  shows "db_ok (block_op f a b) \<and> bits_of (block_op f a b) = map2 g (bits_of a) (bits_of b)"
proof -
  note B = block_op_ok [OF assms(1-3), of f g, OF assms(4,5)]
  have "bits_of (block_op f a b) = map2 g (bits_of a) (bits_of b)"
    by (rule bits_of_eqI) (use assms(3) in \<open>simp_all add: B\<close>)
  then show ?thesis by (simp add: B)
qed

lemma bits_of_set_ops:
  assumes "db_ok a" and "db_ok b" and "num_bits a = num_bits b"
  shows "db_ok (and_with a b) \<and> bits_of (and_with a b) = map2 (\<and>) (bits_of a) (bits_of b)"
    "db_ok (or_with a b) \<and> bits_of (or_with a b) = map2 (\<or>) (bits_of a) (bits_of b)"
    "db_ok (xor_with a b) \<and> bits_of (xor_with a b) = map2 (\<noteq>) (bits_of a) (bits_of b)"
    "db_ok (minus_with a b) \<and> bits_of (minus_with a b) = map2 (\<lambda>x y. x \<and> \<not> y) (bits_of a) (bits_of b)"
  unfolding and_with_def or_with_def xor_with_def minus_with_def
  by (rule bits_of_block_op [OF assms]; simp add: bit_and_iff bit_or_iff bit_xor_iff bit_not_block)+

lemma bits_of_clear_swap:
  "db_ok (db_clear b) \<and> bits_of (db_clear b) = []"
  "db_ok a \<Longrightarrow> db_ok b \<Longrightarrow> db_swap a b = (b, a)"
  by (simp_all add: db_clear_def db_ok_def bits_of_def calc_num_blocks_def dbit_def db_swap_def)

lemma latchGrow_list:
  assumes "db_ok b"
  shows "db_ok (snd (bitset_latchGrow b i))" "fst (bitset_latchGrow b i) = fst (latchGrow (bits_of b) i)"
    "bits_of (snd (bitset_latchGrow b i)) = snd (latchGrow (bits_of b) i)"
proof -
  have "db_ok (snd (bitset_latchGrow b i)) \<and> fst (bitset_latchGrow b i) = fst (latchGrow (bits_of b) i) \<and>
    bits_of (snd (bitset_latchGrow b i)) = snd (latchGrow (bits_of b) i)"
  proof (cases "i < num_bits b")
    case True
    then show ?thesis using test_ops_set(1) [OF assms True] set_bit_to_ok [OF assms True] bits_of_set [OF assms True]
      by (simp add: bitset_latchGrow_def bitset_resizeFor_def latchGrow_def Let_def)
  next
    case False
    let ?m = "max (2 * num_bits b) (Suc i)"
    note R = resize_ok [OF assms, of ?m False]
    have i: "i < num_bits (db_resize ?m False b)" using R(2) by simp
    have t: "take ?m (bits_of b) = bits_of b" by simp
    show ?thesis using False set_bit_to_ok [OF R(1) i, of True] bits_of_set [OF R(1) i, of True] bits_of_resize [OF assms, of ?m False] t
      by (simp add: bitset_latchGrow_def bitset_resizeFor_def latchGrow_def bitset_grow_def Let_def vec_resize_def)
  qed
  then show "db_ok (snd (bitset_latchGrow b i))" "fst (bitset_latchGrow b i) = fst (latchGrow (bits_of b) i)"
    "bits_of (snd (bitset_latchGrow b i)) = snd (latchGrow (bits_of b) i)" by blast+
qed

section \<open>The indices of interest\<close>

definition interested_ok :: "interested_set \<Rightarrow> bool" where
  "interested_ok s \<longleftrightarrow> db_ok (inInterested s) \<and> distinct (indices s) \<and> set (indices s) = {i. dbit (inInterested s) i}"

lemma fold_reset:
  "db_ok b \<Longrightarrow> \<forall>i \<in> set is. i < num_bits b \<Longrightarrow>
     db_ok (fold reset_bit is b) \<and> num_bits (fold reset_bit is b) = num_bits b \<and> (\<forall>i. dbit (fold reset_bit is b) i \<longleftrightarrow> dbit b i \<and> i \<notin> set is)"
proof (induction "is" arbitrary: b)
  case (Cons k ks)
  note S = set_bit_to_ok [of b k False, folded reset_bit_set]
  then show ?case using Cons.IH [of "reset_bit k b"] Cons.prems by auto
qed simp

lemma interested_clear_ok:
  assumes "interested_ok s"
  shows "interested_ok (interested_clear s)" "indices (interested_clear s) = []" "\<not> dbit (inInterested (interested_clear s)) i"
proof -
  have "\<forall>i \<in> set (indices s). i < num_bits (inInterested s)" using assms by (auto simp: interested_ok_def db_ok_def)
  then show "interested_ok (interested_clear s)" "indices (interested_clear s) = []" "\<not> dbit (inInterested (interested_clear s)) i"
    using fold_reset [of "inInterested s" "indices s"] assms by (auto simp: interested_ok_def interested_clear_def)
qed

lemma interested_cases:
  assumes "interested_ok s" and "i < num_bits (inInterested s)"
  shows "addIsNew i s = (i \<notin> set (indices s), interested_insert i s)"
    "interested_insert i s = (if i \<in> set (indices s) then s else
       s\<lparr>indices := indices s @ [i], inInterested := set_bit_to i True (inInterested s)\<rparr>)"
proof -
  have ok: "db_ok (inInterested s)" and m: "i \<in> set (indices s) \<longleftrightarrow> dbit (inInterested s) i" using assms(1) by (simp_all add: interested_ok_def)
  have same: "set_bit_to i True (inInterested s) = inInterested s" if "dbit (inInterested s) i"
    using that set_bit_to_ok [OF ok assms(2), of True] by (intro db_eqI [OF _ ok] nth_equalityI) auto
  show "addIsNew i s = (i \<notin> set (indices s), interested_insert i s)"
    by (simp add: addIsNew_def interested_insert_def test_ops_set(1) [OF ok assms(2)] m Let_def)
  show "interested_insert i s = (if i \<in> set (indices s) then s else
       s\<lparr>indices := indices s @ [i], inInterested := set_bit_to i True (inInterested s)\<rparr>)"
    by (simp add: interested_insert_def test_ops_set(1) [OF ok assms(2)] m same Let_def)
qed

lemma interested_insert_ok:
  assumes "interested_ok s" and "i < num_bits (inInterested s)"
  shows "interested_ok (interested_insert i s)"
proof -
  have "db_ok (inInterested s)" using assms(1) by (simp add: interested_ok_def)
  note S = set_bit_to_ok [OF this assms(2), of True]
  show ?thesis unfolding interested_cases(2) [OF assms] using assms(1) S by (auto simp: interested_ok_def)
qed

lemma addIsNewSparse_cases:
  assumes "interested_ok s"
  shows "fst (addIsNewSparse i s) = (i \<notin> set (indices s))" "interested_ok (snd (addIsNewSparse i s))"
    "indices (snd (addIsNewSparse i s)) = (if i \<in> set (indices s) then indices s else indices s @ [i])"
proof -
  let ?b = "inInterested s"
  have ok: "db_ok ?b" and m: "\<And>j. j \<in> set (indices s) \<longleftrightarrow> dbit ?b j" using assms by (simp_all add: interested_ok_def)
  have n: "dbit ?b j \<Longrightarrow> j < num_bits ?b" for j using ok by (simp add: db_ok_def)
  note L = latchGrow_list [OF ok, of i]
  have new: "fst (bitset_latchGrow ?b i) \<longleftrightarrow> \<not> dbit ?b i" using L(2) n by (auto simp: latchGrow_def)
  have len: "num_bits (snd (bitset_latchGrow ?b i)) = length (snd (latchGrow (bits_of ?b) i))" using arg_cong [OF L(3), of length] by simp
  have "dbit (snd (bitset_latchGrow ?b i)) j \<longleftrightarrow> j = i \<or> dbit ?b j" for j
  proof -
    have "dbit (snd (bitset_latchGrow ?b i)) j \<longleftrightarrow> j < num_bits (snd (bitset_latchGrow ?b i)) \<and> bits_of (snd (bitset_latchGrow ?b i)) ! j"
      using L(1) by (auto simp: db_ok_def)
    also have "\<dots> \<longleftrightarrow> j = i \<or> dbit ?b j"
      unfolding L(3) len using latchGrow_bits [of "bits_of ?b" i j] n [of j] by auto
    finally show ?thesis .
  qed
  then show "fst (addIsNewSparse i s) = (i \<notin> set (indices s))" "interested_ok (snd (addIsNewSparse i s))"
    "indices (snd (addIsNewSparse i s)) = (if i \<in> set (indices s) then indices s else indices s @ [i])"
    using assms L(1) new m by (auto simp: addIsNewSparse_def interested_ok_def split: prod.split)
qed

section \<open>The properties\<close>

definition sample_bits :: dynamic_bitset where
  "sample_bits = \<lparr>blocks = [0x8000000000000003, 5], num_bits = 70\<rparr>"

lemma sample_bits_ok: "db_ok sample_bits"
proof -
  have "check_invariants sample_bits" by (simp add: sample_bits_def check_invariants_def count_extra_bits_def bit_index_def num_blocks_def calc_num_blocks_def Let_def mask_eq_exp_minus_1)
  then show ?thesis by (simp add: check_invariants_ok sample_bits_def calc_num_blocks_def)
qed

text \<open>
  Property C15 (bitsets are lists of bits). The packed bitset with its zeroed unused bits implements a list of
  Booleans. This holds for: setting, resetting and flipping a bit in range, the testing forms of these and the proxy's assignments;
  setting, resetting and complementing all bits; \<open>&=\<close>, \<open>|=\<close>, \<open>^=\<close> and \<open>-=\<close> with a bitset of the same size; clearing and swapping;
  resizing with either value; appending bits, blocks and ranges of blocks at any offset; both shifts by any number; and the
  growing latch of the algorithms. Each of them keeps the unused bits zero. Moving is not among them: the bitset that is moved
  from is left with its size and without its blocks (\<open>move_breaks_invariant\<close>).
\<close>

theorem bitset_refines_list:
  assumes "db_ok b"
  shows "(p < num_bits b \<longrightarrow>
      (db_ok (set_bit_to p v b) \<and> bits_of (set_bit_to p v b) = (bits_of b)[p := v]) \<and>
      (db_ok (reset_bit p b) \<and> bits_of (reset_bit p b) = (bits_of b)[p := False]) \<and>
      (db_ok (flip_bit_at p b) \<and> bits_of (flip_bit_at p b) = (bits_of b)[p := \<not> bits_of b ! p]) \<and>
      (db_ok (reference_op f p b) \<and> bits_of (reference_op f p b) = (bits_of b)[p := ref_value f (bits_of b ! p)]) \<and>
      test_set p b = (bits_of b ! p, set_bit_to p True b) \<and> test_reset p b = (bits_of b ! p, reset_bit p b) \<and>
      test_flip p b = (bits_of b ! p, flip_bit_at p b) \<and> db_test p b = bits_of b ! p) \<and>
    (db_ok b' \<and> num_bits b = num_bits b' \<longrightarrow>
      (db_ok (and_with b b') \<and> bits_of (and_with b b') = map2 (\<and>) (bits_of b) (bits_of b')) \<and>
      (db_ok (or_with b b') \<and> bits_of (or_with b b') = map2 (\<or>) (bits_of b) (bits_of b')) \<and>
      (db_ok (xor_with b b') \<and> bits_of (xor_with b b') = map2 (\<noteq>) (bits_of b) (bits_of b')) \<and>
      (db_ok (minus_with b b') \<and> bits_of (minus_with b b') = map2 (\<lambda>x y. x \<and> \<not> y) (bits_of b) (bits_of b'))) \<and>
    (db_ok b' \<longrightarrow> db_swap b b' = (b', b)) \<and> (db_ok (db_clear b) \<and> bits_of (db_clear b) = []) \<and>
    (db_ok (set_all b) \<and> bits_of (set_all b) = replicate (num_bits b) True) \<and>
    (db_ok (reset_all b) \<and> bits_of (reset_all b) = replicate (num_bits b) False) \<and>
    (db_ok (flip_all b) \<and> bits_of (flip_all b) = map Not (bits_of b)) \<and>
    (db_ok (db_resize n v b) \<and> bits_of (db_resize n v b) = take n (bits_of b) @ replicate (n - num_bits b) v) \<and>
    (db_ok (db_push_back v b) \<and> bits_of (db_push_back v b) = bits_of b @ [v]) \<and>
    (db_ok (append_range xs b) \<and> bits_of (append_range xs b) = bits_of b @ concat (map (\<lambda>x. map (bit x) [0..<64]) xs)) \<and>
    (db_ok (shift_left_with n b) \<and> bits_of (shift_left_with n b) = take (num_bits b) (replicate n False @ bits_of b)) \<and>
    (db_ok (shift_right_with n b) \<and> bits_of (shift_right_with n b) = drop n (bits_of b) @ replicate (min n (num_bits b)) False) \<and>
    db_ok (snd (bitset_latchGrow b p)) \<and> bits_of (snd (bitset_latchGrow b p)) = snd (latchGrow (bits_of b) p) \<and>
    fst (bitset_latchGrow b p) = fst (latchGrow (bits_of b) p)"
proof (intro conjI impI)
  assume "p < num_bits b"
  note B = bits_of_bit_ops [OF assms this]
  show "db_ok (set_bit_to p v b)" "bits_of (set_bit_to p v b) = (bits_of b)[p := v]" "db_ok (reset_bit p b)"
    "bits_of (reset_bit p b) = (bits_of b)[p := False]" "db_ok (flip_bit_at p b)" "bits_of (flip_bit_at p b) = (bits_of b)[p := \<not> bits_of b ! p]"
    "db_ok (reference_op f p b)" "bits_of (reference_op f p b) = (bits_of b)[p := ref_value f (bits_of b ! p)]"
    by (simp_all only: B)
  show "test_set p b = (bits_of b ! p, set_bit_to p True b)" "test_reset p b = (bits_of b ! p, reset_bit p b)"
    "test_flip p b = (bits_of b ! p, flip_bit_at p b)" "db_test p b = bits_of b ! p" by (rule B)+
qed (simp_all add: assms bits_of_set_ops bits_of_clear_swap bits_of_all set_all_ok reset_all_ok flip_all_ok bits_of_resize resize_ok
    bits_of_push_back push_back_ok bits_of_range bits_of_shift_left shift_left_ok bits_of_shift_right shift_right_ok latchGrow_list)

theorem bitset_refines_list_witness:
  "bits_of (shift_left_with 65 sample_bits) = take 70 (replicate 65 False @ bits_of sample_bits) \<and>
    bits_of (set_bit_to 69 True sample_bits) = (bits_of sample_bits)[69 := True] \<and> db_test 69 sample_bits = bits_of sample_bits ! 69 \<and>
    bits_of (xor_with sample_bits sample_bits) = map2 (\<noteq>) (bits_of sample_bits) (bits_of sample_bits)"
  using bitset_refines_list [OF sample_bits_ok, of 69 True RefFlip sample_bits 65 "[]"] sample_bits_ok by (simp add: sample_bits_def)

text \<open>
  Property C16 (walking over the set bits). \<open>copyBitsOut\<close>, which goes from \<open>find_first\<close> by \<open>find_next\<close> to \<open>npos\<close>, ends and gives the indices of the
  set bits, each once and in ascending order.
\<close>

theorem copyBitsOut_correct:
  assumes "db_ok b" and "lowest_bit_ok lowest_bit" and "num_bits b \<le> npos"
  shows "\<exists>xs. copyBitsOut lowest_bit b = Some xs \<and> sorted xs \<and> distinct xs \<and> set xs = {i. i < num_bits b \<and> bits_of b ! i}"
proof -
  have "set (members b) = {i. i < num_bits b \<and> bits_of b ! i}" using set_members [OF assms(1)] assms(1) by (auto simp: db_ok_def)
  then show ?thesis using copyBitsOut_ok [OF assms] members_sorted by blast
qed

theorem copyBitsOut_correct_witness:
  "\<exists>xs. copyBitsOut lowest_of sample_bits = Some xs \<and> sorted xs \<and> distinct xs \<and> set xs = {i. i < 70 \<and> bits_of sample_bits ! i}"
  using copyBitsOut_correct [OF sample_bits_ok lowest_of_ok] by (simp add: sample_bits_def npos_def)

text \<open>
  Property C20 (comparing bitsets). \<open>operator<\<close> on bitsets of the same size compares the numbers whose binary digits are the bits.
\<close>

theorem db_less_correct:
  assumes "db_ok a" and "db_ok b" and "num_bits a = num_bits b"
  shows "(db_less a b \<longleftrightarrow> db_value a < db_value b) \<and> (db_equal a b \<longleftrightarrow> db_value a = db_value b) \<and> (\<forall>i. bit (db_value a) i = dbit a i)"
proof (intro conjI allI)
  have n: "length (blocks a) = length (blocks b)" using assms by (simp add: db_ok_def)
  show "db_less a b \<longleftrightarrow> db_value a < db_value b" using blocks_value_less [OF n] n by (simp add: db_less_def db_value_def num_blocks_def)
  show "bit (db_value a) i = dbit a i" for i by (rule db_value_bit)
  have "blocks a = blocks b" if "db_value a = db_value b" by (rule dbit_ext [OF n]) (simp add: that flip: db_value_bit)
  then show "db_equal a b \<longleftrightarrow> db_value a = db_value b" using assms(3) by (auto simp: db_equal_def db_value_def num_blocks_def)
qed

theorem db_less_correct_witness:
  "db_less sample_bits (flip_all sample_bits) \<longleftrightarrow> db_value sample_bits < db_value (flip_all sample_bits)"
  using db_less_correct [OF sample_bits_ok flip_all_ok(1) [OF sample_bits_ok]] flip_all_ok(2) [OF sample_bits_ok] by simp

text \<open>
  Property C18 (bitsets as text). The string of a bitset, most significant bit first, makes the same bitset again; so does
  reading it from a stream, where the appender fills blocks from the top and reverses and shifts them at the end, and what follows in the
  stream is left there.
\<close>

theorem bitset_text_roundtrip:
  assumes "db_ok b" and "num_bits b < npos" and "num_bits b < limit" and "rest = [] \<or> \<not> is_digit (hd rest)"
  shows "init_from_string (db_to_string b) 0 npos npos = b \<and>
    read_bitset limit (db_to_string b @ rest) b0 = (b, rest, rest = [], num_bits b = 0)"
proof
  let ?s = "map digit (rev (bits_of b))"
  have s: "db_to_string b = ?s" by (rule to_string_ok [OF assms(1)])
  have v: "map (\<lambda>c. c = CHR ''1'') (map digit xs) = xs" for xs by (induction xs) (simp_all add: digit_def)
  note I = init_from_string_ok [of ?s]
  have "bits_of (init_from_string ?s 0 npos npos) = bits_of b" using I(2) assms(2) v [of "bits_of b"] by (simp add: rev_map)
  then show "init_from_string (db_to_string b) 0 npos npos = b" unfolding s using I(1) assms(1,2) by (intro db_eqI) simp_all
  have "takeWhile is_digit (?s @ rest) = ?s"
    using assms(4) by (subst takeWhile_append2) (auto simp: is_digit_def digit_def takeWhile_eq_Nil_iff)
  then have d: "digit_run limit (?s @ rest) = ?s" using assms(3) by (simp add: digit_run_def)
  obtain b' rest' eof fail where r: "read_bitset limit (?s @ rest) b0 = (b', rest', eof, fail)" by (metis prod_cases4)
  note R = read_bitset_ok [OF r, unfolded d]
  have "bits_of b' = bits_of b" using R v [of "rev (bits_of b)"] by simp
  then have "b' = b" using R assms(1) by (intro db_eqI) simp_all
  moreover have "rest' = rest" using R by simp
  moreover have "eof \<longleftrightarrow> rest = []" "fail \<longleftrightarrow> num_bits b = 0" using R assms(3) by (auto simp flip: length_bits_of)
  ultimately show "read_bitset limit (db_to_string b @ rest) b0 = (b, rest, rest = [], num_bits b = 0)" using r s by simp
qed

theorem bitset_text_roundtrip_witness:
  "read_bitset 100 (db_to_string sample_bits @ '' x'') db_empty = (sample_bits, '' x'', False, False)"
  using bitset_text_roundtrip [OF sample_bits_ok, of 100 "'' x''" db_empty] by (simp add: sample_bits_def npos_def is_digit_def)

text \<open>
  Property C19 (the set of interest). \<open>Interested\<close> keeps its list of distinct indices and its bitset in step: adding an index
  lists it once and says whether it was new, with or without a size reserved, and clearing resets exactly the bits that are set.
\<close>

theorem interested_correct:
  assumes "interested_ok s"
  shows "(i < num_bits (inInterested s) \<longrightarrow>
      interested_ok (interested_insert i s) \<and> addIsNew i s = (i \<notin> set (indices s), interested_insert i s) \<and>
      indices (interested_insert i s) = (if i \<in> set (indices s) then indices s else indices s @ [i])) \<and>
    interested_ok (snd (addIsNewSparse i s)) \<and> fst (addIsNewSparse i s) = (i \<notin> set (indices s)) \<and>
    indices (snd (addIsNewSparse i s)) = (if i \<in> set (indices s) then indices s else indices s @ [i]) \<and>
    interested_ok (interested_clear s) \<and> indices (interested_clear s) = [] \<and> db_none (inInterested (interested_clear s)) \<and>
    (interested_containsSparse i s \<longleftrightarrow> i \<in> set (indices s))"
proof -
  have "interested_containsSparse i s \<longleftrightarrow> i \<in> set (indices s)"
    using assms test_iff [of "inInterested s" i] by (auto simp: interested_ok_def interested_containsSparse_def testSparse_def db_ok_def)
  moreover have "db_none (inInterested (interested_clear s))" using interested_clear_ok(3) [OF assms] by (simp add: db_none_def any_iff)
  ultimately show ?thesis
    using interested_insert_ok [OF assms, of i] interested_cases [OF assms, of i] addIsNewSparse_cases [OF assms, of i] interested_clear_ok(1,2) [OF assms]
    by simp
qed

theorem interested_correct_witness:
  "\<exists>s. interested_ok s \<and> addIsNew 3 s = (True, interested_insert 3 s) \<and> indices (interested_insert 3 s) = [3]"
proof -
  let ?s = "interested_reserve 5 \<lparr>indices = [], inInterested = db_empty\<rparr>"
  have e: "db_ok db_empty" by (simp add: db_ok_def db_empty_def dbit_def calc_num_blocks_def)
  note R = resize_ok [OF e, of 5 False]
  have "interested_ok ?s" using R by (auto simp: interested_ok_def interested_reserve_def db_empty_def)
  moreover have "indices ?s = []" "num_bits (inInterested ?s) = 5" using R by (simp_all add: interested_reserve_def)
  ultimately show ?thesis using interested_correct [of ?s 3] by (intro exI [of _ ?s]) simp
qed

text \<open>
  Searching backwards. \<open>rfind_next\<close> should give the last set bit before a position. Its mask keeps the low \<open>64 - i\<close> bits of the
  block instead of the low \<open>i + 1\<close>: it finds a bit after the position, misses one before it, and then reads the block before the first.
\<close>

theorem rfind_next_wrong:
  assumes "integer_log2_ok integer_log2"
  shows "rfind_next integer_log2 10 (init_from_block_range [0x100020]) = Some 20 \<and> dbit (init_from_block_range [0x100020]) 5 \<and>
    rfind_next integer_log2 63 (init_from_block_range [0x1000000000000000]) = None \<and> dbit (init_from_block_range [0x1000000000000000]) 60"
proof (intro conjI)
  have L: "integer_log2 x = k" if "bit x k" "\<forall>j < 64. k < j \<longrightarrow> \<not> bit x j" for x k
  proof -
    have "x \<noteq> 0" using that(1) by auto
    then have "bit x (integer_log2 x)" "\<forall>j > integer_log2 x. \<not> bit x j" using assms by (simp_all add: integer_log2_ok_def)
    moreover have "integer_log2 x < 64" using bit_imp_le_length [OF calculation(1)] by simp
    ultimately show ?thesis using that by (meson linorder_neqE_nat)
  qed
  have "\<not> bit (0x100020 :: block) j" if "20 < j" for j
  proof -
    have "21 \<le> j" using that by simp
    from le_Suc_ex [OF this] obtain k where j: "j = 21 + k" ..
    have "bit (0x100020 :: block) (21 + k) \<longleftrightarrow> bit (drop_bit 21 (0x100020 :: block)) k" by (simp only: bit_drop_bit_eq comp_apply)
    moreover have "drop_bit 21 (0x100020 :: block) = 0" by simp
    ultimately show ?thesis unfolding j by (simp only: bit_0_eq bot_apply bot_bool_def not_False_eq_True)
  qed
  then have "integer_log2 0x100020 = 20" by (intro L) simp_all
  then show "rfind_next integer_log2 10 (init_from_block_range [0x100020]) = Some 20"
    by (simp add: rfind_next_def init_from_block_range_def block_index_def bit_index_def Let_def mask_eq_exp_minus_1)
  show "rfind_next integer_log2 63 (init_from_block_range [0x1000000000000000]) = None"
    by (simp add: rfind_next_def init_from_block_range_def block_index_def bit_index_def Let_def mask_eq_exp_minus_1)
  show "dbit (init_from_block_range [0x100020]) 5" "dbit (init_from_block_range [0x1000000000000000]) 60"
    by (simp_all add: init_from_block_range_def dbit_def)
qed

theorem rfind_next_wrong_witness:
  "rfind_next highest_of 10 (init_from_block_range [0x100020]) = Some 20"
  using rfind_next_wrong [OF highest_of_ok] by blast

text \<open>A bitset that was moved from keeps its size without its blocks, and fails the check of its destructor.\<close>

lemma move_breaks_invariant:
  "0 < num_bits b \<Longrightarrow> \<not> db_ok (snd (db_move b))" "0 < num_bits b \<Longrightarrow> \<not> check_invariants (snd (db_move b))"
  using block_of_bit [of 0 "num_bits b"]
  by (auto simp: db_move_def db_ok_def check_invariants_def num_blocks_def Let_def)

end
