(* ===== verification/Spec2Isabelle.thy ===== *)
theory Spec2Isabelle
  imports Hg_Union Feature_Weights Hg_Outside Acyclic_Loops Special_Symbols Utf8_Fix Determinize_Correct
    Compose_Hg Bit_Sets
begin

text \<open>
  A verification development for the hypergraph library of the SDL toolkit (\<open>sdl/Hypergraph\<close> and
  the parts of \<open>sdl\<close>, \<open>sdl/Vocabulary\<close>, \<open>sdl/Util\<close> and \<open>sdl/graehl/shared\<close> it rests on).

  \<^bold>\<open>The program.\<close> A hypergraph has states \<open>0, 1, \<dots>\<close>, a start and a final state, an optional
  input and output label per state, and arcs. An arc has one head, a list of tails and a weight. If
  every arc has one unlabelled tail, followed by at most one labelled tail, the hypergraph is a
  graph or finite-state machine (fsm) and the label is that of the second tail; otherwise it is a
  context-free grammar with the heads as left sides. \<open>MutableHypergraph\<close> stores the arcs in
  lists per head (in-arcs), per tail (all out-arcs) or per first tail; a 64-bit word of property
  bits says which lists there are, what is known of them and what every operation must maintain.
  The algorithms (copying, reversing, union, emptiness, inside and outside weights, distances,
  best paths) read and build hypergraphs through that interface only.

  \<^bold>\<open>Theories and sources.\<close>
  \<^item> \<open>Hyp_Prelude\<close>: vector and map helpers (\<open>Util/Add.hpp\<close>, \<open>Map.hpp\<close>, \<open>ShrinkVector.hpp\<close>,
    \<open>Hypergraph/Types.hpp\<close>), the errors (\<open>sdl_error\<close>), and shared lemmas.
  \<^item> \<open>Sym_Ids\<close> (\<open>Sym.hpp\<close>), \<open>Special_Symbols\<close> (\<open>Vocabulary/SpecialSymbols.hpp\<close>),
    \<open>Label_Pairs\<close> (\<open>LabelPair.hpp\<close>, \<open>Label.hpp\<close>): 32-bit symbols, their type tags, labels.
  \<^item> \<open>Hg_Properties\<close> (\<open>Properties.hpp\<close>), \<open>Arcs\<close> (\<open>ArcBase.hpp\<close>, \<open>Arc.hpp\<close>),
    \<open>Hg_State\<close>, \<open>Hg_Arcs\<close>, \<open>Hg_Delete\<close>, \<open>Hg_Sort\<close> (\<open>MutableHypergraph.hpp\<close>,
    \<open>IMutableHypergraph.hpp\<close>, \<open>HypergraphBase.hpp\<close>, \<open>IHypergraph.hpp\<close>,
    \<open>IHypergraphForArcs.ipp\<close>, \<open>Restrict.hpp\<close>, \<open>SortArcs.hpp\<close>): the record \<open>hg\<close> and its
    operations. \<open>Hg_Index\<close> has the invariant \<open>hg_wf\<close>, \<open>Hg_Arc_Theorems\<close> what the arc
    operations guarantee.
  \<^item> \<open>State_Translation\<close> (\<open>StateIdTranslation.hpp\<close>), \<open>Hg_Copy\<close> (\<open>HypergraphCopyBasic.hpp\<close>),
    \<open>Hg_Language\<close> (\<open>Reverse.hpp\<close>, \<open>Invert.cpp\<close>, \<open>Project.hpp\<close>), \<open>Hg_Reach\<close>
    (\<open>Empty.hpp\<close>), \<open>Hg_Union\<close> (\<open>Union.hpp\<close>): the transforms.
  \<^item> \<open>Weights\<close> (\<open>Weight.hpp\<close>, \<open>WeightUtil.hpp\<close>, \<open>Util/LogMath.hpp\<close>), \<open>Feature_Weights\<close>
    (\<open>FeatureWeightTpl.hpp\<close>, \<open>ExpectationWeight.hpp\<close>): the weights.
  \<^item> \<open>Shortest_Distance\<close>, \<open>Dag_Distance\<close> (\<open>AllPairsShortestDistance.hpp\<close>, \<open>Util/Matrix.hpp\<close>),
    \<open>Hg_Topsort\<close> (\<open>StatesTraversal.hpp\<close>), \<open>Hg_Inside\<close>, \<open>Hg_Outside\<close>
    (\<open>InsideAlgorithm.hpp\<close>, \<open>OutsideAlgorithm.hpp\<close>), \<open>Nibble_Array\<close>
    (\<open>graehl/shared/nibble_array.hpp\<close>), \<open>State_Order\<close> (\<open>InArcs.hpp\<close>), \<open>Acyclic_Best\<close>, \<open>Acyclic_Loops\<close>
    (\<open>AcyclicBest.hpp\<close>): weights and orders over a hypergraph.
  \<^item> \<open>Fsm_Graph\<close> (\<open>Graph.hpp\<close>): the graph of some arcs of an fsa and its closure. \<open>Determinize\<close>
    (\<open>Determinize.hpp\<close>): the subset construction; \<open>Fsa_Edges\<close> has the edges of an fsa and what
    \<open>addState\<close> and \<open>addArcFsa\<close> do to them, \<open>Determinize_Letters\<close> the letters of a set of
    states, \<open>Determinize_Loop\<close> the invariant of the loop and its end, \<open>Determinize_Correct\<close> the
    accepted sequences.
  \<^item> \<open>Utf8_Length\<close>, \<open>Utf8_Fix\<close> (\<open>Util/Utf8.hpp\<close>, \<open>Util/src/Utf8.cpp\<close>): counting code points in
    64-bit blocks, and cleaning strings in place or into a sized buffer.
  \<^item> \<open>Generators\<close> (\<open>Util/Generator.hpp\<close>), \<open>D_Ary_Heap\<close> (\<open>graehl/shared/d_ary_heap.hpp\<close>),
    \<open>Flatten_Generators\<close> (\<open>Util/FlattenGenerators.hpp\<close>): the loops over generators, the priority queue,
    and the lazy sorted merge of generators that best-first composition reads its arcs from.
  \<^item> \<open>Fst_Compose\<close> (\<open>fs/Compose.hpp\<close>): the epsilon filters and the two nested generators that make the
    out-arcs of a composed state, for any two lazy transducers. \<open>Compose_Paths\<close>: the paths of the composition, and why
    a filter lets each pair of paths through once. \<open>Compose_Hg\<close> (\<open>fs/Fst.hpp\<close>, \<open>IHypergraph.hpp\<close>,
    \<open>MixFeature.hpp\<close>): hypergraphs as transducers and \<open>compose\<close>.
  \<^item> \<open>Dynamic_Bitset\<close> (\<open>Util/dynamic_bitset.hpp\<close>): bitsets as vectors of 64-bit blocks; \<open>Bitset_Shift\<close>,
    \<open>Bitset_Find\<close>, \<open>Bitset_Text\<close> and \<open>Bitset_Stream\<close> say what shifts, searches, orders and text do to the list of bits.
    \<open>Bit_Sets\<close> (\<open>Util/BitSet.hpp\<close>, \<open>Interested.hpp\<close>): the walk over the set bits, the growing sets, and the
    list of distinct indices with its bitset.
\<close>

text \<open>
  \<^bold>\<open>The state.\<close> Arcs are heap objects that the adjacency lists of several states point to, so
  \<open>hg\<close> has a heap (\<open>arc_heap\<close>, from handles to arcs, no entry for a freed arc) and lists of
  handles. Freeing, aliasing and dangling handles are therefore visible: \<open>hg_wf\<close> says that every
  list the property bits claim is complete, has no duplicates, and names live arcs only, that some list is kept, and that the
  states of the arcs are below \<open>numStates\<close>. It says nothing of the flags for graph, fsm and one lexical tail: where
  a property needs what they claim, it is a hypothesis about the arcs (\<open>fsm_arcs\<close>). \<open>const\<close> methods of
  the source that fill a cache (\<open>isFsm\<close>, \<open>isGraph\<close>, \<open>ensureCanonicalLex\<close>) take and return the
  state. A shared feature map is an address in an explicit store with its reference count.

  \<^bold>\<open>Language.\<close> \<open>fsm_language\<close> is the set of pairs of a label sequence and a list of arc
  weights over the paths from the start to the final state; the transforms are specified by what
  they do to it. For hypergraphs that are no graphs the specifications are the derivable states and,
  for the inside algorithm, sums over derivations.

  \<^bold>\<open>Conventions.\<close> Errors are values of \<open>sdl_error + 'a\<close>. A visitor passed to \<open>forArcs\<close> or to a
  traversal is the list of handles or states in the order of the calls, folded by the caller.
  \<open>std::sort\<close> is a stable sort: no property depends on the order of equal arcs. State ids are
  naturals with the 32-bit constants of the source (\<open>kNoState\<close>) and its wrap-around where it can
  occur; symbols, property words and packed blocks are machine words. Costs are reals with
  infinity: rounding and NaN are not modelled. A call through an out-of-range index that the source
  guards by an assertion only is left as an unchanged state or an unspecified value, and no property
  speaks of it.

  \<^bold>\<open>Recursion and loops.\<close> No definition runs on fuel. Depth-first walks are nested recursions
  with a termination proof (the number of unmarked states falls) or, where \<open>Empty.hpp\<close> recurses
  through two mutually calling methods, an explicit list of work with a measure. The loop of
  \<open>AcyclicBest\<close> that turns the best path around may run forever, so it is a
  \<open>partial_function (option)\<close>; one theorem proves that it returns when there is no cycle above the final state, another
  (in \<open>Acyclic_Loops\<close>) that it does not when no path avoids a self-loop of negative cost. The agenda of \<open>DeterminizeFsa\<close> is another: it returns because every
  round removes one of the finitely many subsets, and the property asks for enough 32-bit state ids
  for all of them.

  \<^bold>\<open>Interfaces.\<close> The locale \<open>weight_semiring\<close> (extended by \<open>idempotent_weight\<close>) states what the
  algorithms ask of a weight; it is interpreted for Boolean, Viterbi and log weights. The locale
  \<open>color_array\<close> states what the depth-first searches ask of their packed marks, interpreted for the
  2- and 4-bit arrays. The locales \<open>generator\<close> and \<open>sorted_generator\<close> are the contract of a generator,
  interpreted for ranges and for the merge; \<open>min_queue\<close>, which is itself a sorted generator, is that of
  the priority queue, interpreted for the heap of any arity and used by the merge.

  \<^bold>\<open>What the properties show.\<close> Operations on arcs and states keep \<open>hg_wf\<close> and change the set of
  arcs as they say (\<open>addArc_keeps_wf\<close>, \<open>forceInArcs_correct\<close>,
  \<open>restrict_correct\<close>, \<open>copyHypergraph_correct\<close>); visits see each arc once or,
  where they do not, exactly when not (\<open>forArcs_visits_once\<close>, \<open>forArcsFsm_visits\<close>); transforms have
  the right language (\<open>reverseInplace_language\<close>, \<open>invert_language\<close>, \<open>fstUnion_language\<close>);
  emptiness, inside, outside, distances and best paths equal their specifications
  (\<open>empty_correct\<close>, \<open>determinizeFsa_correct\<close>, \<open>inside_sums_derivations\<close>, \<open>outside_sums_paths\<close>, \<open>allPairsSortedDag_sums\<close>,
  \<open>acyclicBest_correct\<close>); the queue sorts and the lazy merge is best first (\<open>heap_sorts\<close>,
  \<open>flatten_best_first\<close>); a composition has the arcs its comment lists (with the two differences named in \<open>Fst_Compose\<close>), no path twice, and the composed
  weighted relation (\<open>compose_outArcs_correct\<close>, \<open>compose_paths_unique\<close>, \<open>compose_hg_relation\<close>); a bitset is a list of
  Booleans under the operations that change it, but for moving (\<open>bitset_refines_list\<close>, \<open>bitset_text_roundtrip\<close>). Where the code does not do what its name or comment says, the property
  states what it does (\<open>restrict_leaks\<close>, \<open>stale_canonical_cache\<close>, \<open>pop_loses_index\<close>, \<open>heapify_skips_last_parent\<close>,
  \<open>forceInArcs_doubles_epsilon\<close>,
  \<open>union_merges_states\<close>, \<open>rfind_next_wrong\<close>, \<open>move_breaks_invariant\<close>, \<open>floydWarshall_doubles\<close>, \<open>determinizeFsa_loses_epsilon\<close>).

  \<^bold>\<open>Not modelled.\<close> Printing, parsing (a Boost.Spirit grammar), configuration, the command-line
  tools, vocabularies and resources, OpenFst and drawing formats, pools and threads. The Boost
  depth-first visit that \<open>Empty.hpp\<close> calls for \<open>useful()\<close> is a parameter, and so are the utf8
  library, the bit scans and bit counts of bitset blocks and the order in which an \<open>unordered_map\<close> is visited. Of composition, only
  that of two fsms is modelled, up to the lazy transducer that is then saved or searched: a best-first sort of the input arcs changes only the order of lists, and the
  products of feature weights are left out, and so are the composition of a grammar with an fsm, saving a lazy transducer,
  k-best paths, derivations and pruning.
\<close>

end
